(* ===== verification/Coter_Prelude.thy ===== *)
theory Coter_Prelude
  imports Main "HOL-Library.Word" "HOL-Library.Monad_Syntax"
begin

text \<open>
  The shared layer of the development.

  Integers keep the width they have in the C source: \<^typ>\<open>8 word\<close> for \<open>uint8_t\<close>, and so on;
  \<open>size_t\<close> is the 64-bit type of an LP64 target.  Memory the program reads or writes is a list,
  and every access goes through \<open>mem_get\<close>/\<open>mem_put\<close>, which answer \<^const>\<open>None\<close> when the access
  leaves the block: a theorem that an operation returns \<^const>\<open>Some\<close> is therefore a theorem that
  it performs no access out of bounds.
\<close>

unbundle bit_operations_syntax

text \<open>Existential goals left over when a flag is part of a result.\<close>

lemma ex_bool_simps [simp]:
  "Ex Not" "\<exists>b. \<not> b" "\<exists>b. b" "(\<exists>b. b \<and> P b) \<longleftrightarrow> P True" "(\<exists>b. \<not> b \<and> P b) \<longleftrightarrow> P False"
  by (blast, blast, blast, auto)

section \<open>Machine integers\<close>

type_synonym u8 = "8 word"
type_synonym u16 = "16 word"
type_synonym u32 = "32 word"
type_synonym u64 = "64 word"
type_synonym size_t = "64 word"

text \<open>Addresses of the objects a program keeps pointers to; \<open>NULL\<close> is no object.\<close>

type_synonym addr = u64

definition NULL :: addr where "NULL = 0"

text \<open>The conversion \<open>(int)x\<close> of an unsigned 64-bit value: keep 32 bits, read them as two's
  complement.\<close>

definition c_int :: "u64 \<Rightarrow> int" where
  "c_int x = sint (ucast x :: u32)"

text \<open>Facts that move word comparisons and arithmetic to \<^typ>\<open>nat\<close>.\<close>

named_theorems unat_facts

declare word_le_nat_alt [unat_facts] word_less_nat_alt [unat_facts]

lemma unat_ucast_up [simp]:
  "LENGTH('a::len) \<le> LENGTH('b::len) \<Longrightarrow> unat (ucast (x :: 'a word) :: 'b word) = unat x"
proof -
  assume "LENGTH('a) \<le> LENGTH('b)"
  then have "(2::nat) ^ LENGTH('a) \<le> 2 ^ LENGTH('b)" by (rule power_increasing) simp
  then have "unat x < 2 ^ LENGTH('b)" using unsigned_less [of x, where ?'a = nat] by linarith
  then show ?thesis by (simp add: unsigned_ucast_eq take_bit_nat_eq_self)
qed

lemma unat_ucast_down [unat_facts]:
  "unat (x :: 'a::len word) < 2 ^ LENGTH('b::len) \<Longrightarrow> unat (ucast x :: 'b word) = unat x"
  by (simp add: unsigned_ucast_eq take_bit_nat_eq_self)

lemma unat_diff_le [unat_facts]: "unat b \<le> unat a \<Longrightarrow> unat (a - b) = unat a - unat (b :: 'a::len word)"
  by (simp add: unat_sub_if')

lemma unat_plus_lt [unat_facts]:
  "unat a + unat b < 2 ^ LENGTH('a) \<Longrightarrow> unat (a + b) = unat a + unat (b :: 'a::len word)"
  by (simp add: unat_add_lem)

lemma unat_of_nat_lt: "n < 2 ^ LENGTH('a) \<Longrightarrow> unat (of_nat n :: 'a::len word) = n"
  by (simp add: unsigned_of_nat take_bit_nat_eq_self)

lemma unat_lt_pow [simp]: "unat (x :: 'a::len word) < 2 ^ LENGTH('a)"
  by (rule unsigned_less)

lemma unat_u32_bound: "unat (x :: u32) < 4294967296"
  using unsigned_less [of x, where ?'a = nat] by simp

lemma unat_u64_bound: "unat (x :: u64) < 18446744073709551616"
  using unsigned_less [of x, where ?'a = nat] by simp

lemma c_int_small:
  assumes "unat x < 2 ^ 31"
  shows "c_int x = int (unat x)"
proof -
  have "unat (ucast x :: u32) = unat x" using assms by (simp add: unat_ucast_down)
  then have "uint (ucast x :: u32) = int (unat x)" by (metis of_nat_unat)
  then have "sint (ucast x :: u32) = signed_take_bit 31 (int (unat x))" by (simp add: sint_uint)
  also have "\<dots> = int (unat x)" using assms by (intro signed_take_bit_int_eq_self) (simp_all del: of_nat_unat)
  finally show ?thesis by (simp only: c_int_def)
qed

section \<open>Memory blocks\<close>

text \<open>
  A block of memory is the list of its cells.  \<open>mem_get m off n\<close> reads \<open>n\<close> cells from offset
  \<open>off\<close>, \<open>mem_put m off xs\<close> stores \<open>xs\<close> there; both are \<^const>\<open>None\<close> when the access leaves the
  block (undefined behaviour in C).  \<open>memcpy\<close> and \<open>memmove\<close> are a read followed by a write.
\<close>

definition mem_get :: "'a list \<Rightarrow> nat \<Rightarrow> nat \<Rightarrow> 'a list option" where
  "mem_get m off n = (if off + n \<le> length m then Some (take n (drop off m)) else None)"

definition mem_put :: "'a list \<Rightarrow> nat \<Rightarrow> 'a list \<Rightarrow> 'a list option" where
  "mem_put m off xs =
     (if off + length xs \<le> length m then Some (take off m @ xs @ drop (off + length xs) m)
      else None)"

named_theorems mem_simps

lemma mem_get_Some [mem_simps]:
  "mem_get m off n = Some xs \<longleftrightarrow> off + n \<le> length m \<and> xs = take n (drop off m)"
  by (auto simp: mem_get_def)

lemma mem_put_Some [mem_simps]:
  "mem_put m off xs = Some m' \<longleftrightarrow>
     off + length xs \<le> length m \<and> m' = take off m @ xs @ drop (off + length xs) m"
  by (auto simp: mem_put_def)

lemma mem_get_ok: "off + n \<le> length m \<Longrightarrow> mem_get m off n = Some (take n (drop off m))"
  by (simp add: mem_get_def)

lemma mem_put_ok:
  "off + length xs \<le> length m \<Longrightarrow>
   mem_put m off xs = Some (take off m @ xs @ drop (off + length xs) m)"
  by (simp add: mem_put_def)

lemma mem_put_fits:
  assumes "off + length xs \<le> length m"
  obtains m' where "mem_put m off xs = Some m'"
  using mem_put_ok [OF assms] by blast

lemma mem_get_length: "mem_get m off n = Some xs \<Longrightarrow> length xs = n"
  by (auto simp: mem_simps)

lemma mem_put_length: "mem_put m off xs = Some m' \<Longrightarrow> length m' = length m"
  by (auto simp: mem_simps)

lemma mem_get_put_same: "mem_put m off xs = Some m' \<Longrightarrow> mem_get m' off (length xs) = Some xs"
  by (auto simp: mem_simps)

lemma mem_get_put_other:
  assumes put: "mem_put m off xs = Some m'"
    and dj: "i + n \<le> off \<or> off + length xs \<le> i"
  shows "mem_get m' i n = mem_get m i n"
proof (cases "i + n \<le> length m")
  case True
  have len: "length m' = length m" using put by (rule mem_put_length)
  have "take n (drop i m') = take n (drop i m)"
    by (rule nth_equalityI) (use put dj True len in \<open>auto simp: mem_simps nth_append\<close>)
  with True len show ?thesis by (simp add: mem_get_def)
next
  case False
  with mem_put_length [OF put] show ?thesis by (simp add: mem_get_def)
qed

text \<open>Where a whole item fits, storing it and reading cell by cell agree.\<close>

lemma mem_put_nth:
  assumes "mem_put m off xs = Some m'" and "i < length m"
  shows "m' ! i = (if off \<le> i \<and> i < off + length xs then xs ! (i - off) else m ! i)"
  using assms by (auto simp: mem_simps nth_append)

lemma mem_put_take:
  "k \<le> off \<Longrightarrow> off \<le> length m \<Longrightarrow> take k (take off m @ xs @ drop (off + length xs) m) = take k m"
  by simp

lemma mem_put_drop:
  assumes "off + length xs \<le> k" "k \<le> length m"
  shows "drop k (take off m @ xs @ drop (off + length xs) m) = drop k m"
proof -
  have "drop k (take off m) = []" "drop (k - off) xs = []" using assms by simp_all
  moreover have "k - min (length m) off - length xs + (off + length xs) = k" using assms by simp
  ultimately show ?thesis by (simp add: drop_append)
qed

lemma mem_put_append:
  assumes "mem_put m off xs = Some m1" and "mem_put m1 (off + length xs) ys = Some m2"
  shows "mem_put m off (xs @ ys) = Some m2"
proof -
  let ?k = "off + length xs"
  have m1: "m1 = take off m @ xs @ drop ?k m" "?k \<le> length m"
    and m2: "m2 = take ?k m1 @ ys @ drop (?k + length ys) m1" "?k + length ys \<le> length m1"
    using assms by (auto simp: mem_simps)
  have "length m1 = length m" using assms(1) by (rule mem_put_length)
  moreover have "take ?k m1 = take off m @ xs" using m1 by (cases xs) (simp_all add: min_def)
  moreover have "drop (?k + length ys) m1 = drop (?k + length ys) m"
    unfolding m1(1) using m1(2) m2(2) \<open>length m1 = length m\<close> by (intro mem_put_drop) simp_all
  ultimately show ?thesis using m2 by (simp add: mem_put_def add.assoc)
qed

lemma mem_put_frame:
  assumes "mem_put m off xs = Some m'"
  shows "k \<le> off \<Longrightarrow> take k m' = take k m" and "off + length xs \<le> k \<Longrightarrow> drop k m' = drop k m"
proof -
  have m': "m' = take off m @ xs @ drop (off + length xs) m" and le: "off + length xs \<le> length m"
    using assms by (auto simp: mem_simps)
  show "take k m' = take k m" if "k \<le> off" unfolding m' using that le by simp
  show "drop k m' = drop k m" if k: "off + length xs \<le> k"
  proof (cases "k \<le> length m")
    case True
    then show ?thesis unfolding m' by (rule mem_put_drop [OF k])
  next
    case False
    then show ?thesis using mem_put_length [OF assms] by simp
  qed
qed

lemma mem_get_append:
  "mem_get m off (length xs + length ys) = Some (xs @ ys) \<longleftrightarrow>
   mem_get m off (length xs) = Some xs \<and> mem_get m (off + length xs) (length ys) = Some ys"
  by (auto simp: mem_simps take_add add.commute append_eq_append_conv)

section \<open>Words as bytes\<close>

text \<open>
  \<open>le_bytes\<close> lists the bytes of a word, least significant first; \<open>le_word\<close> reassembles them.
  What \<open>memcpy(&v, p, n)\<close> stores into or loads from an integer object depends on the byte order
  of the host, which is a parameter of the model (\<open>CT_ENDIAN_SYSTEM\<close>).
\<close>

datatype ct_endian = CT_ENDIAN_BIG | CT_ENDIAN_LITTLE

definition le_bytes :: "'a::len word \<Rightarrow> u8 list" where
  "le_bytes w = map (\<lambda>i. ucast (drop_bit (8 * i) w)) [0..<LENGTH('a) div 8]"

fun le_word :: "u8 list \<Rightarrow> 'a::len word" where
  "le_word [] = 0"
| "le_word (b # bs) = ucast b OR push_bit 8 (le_word bs)"

definition native_bytes :: "ct_endian \<Rightarrow> 'a::len word \<Rightarrow> u8 list" where
  "native_bytes sys w = (case sys of CT_ENDIAN_LITTLE \<Rightarrow> le_bytes w | CT_ENDIAN_BIG \<Rightarrow> rev (le_bytes w))"

definition native_word :: "ct_endian \<Rightarrow> u8 list \<Rightarrow> 'a::len word" where
  "native_word sys bs = (case sys of CT_ENDIAN_LITTLE \<Rightarrow> le_word bs | CT_ENDIAN_BIG \<Rightarrow> le_word (rev bs))"

lemma bit_le_word:
  "bit (le_word bs :: 'a::len word) n \<longleftrightarrow>
     n < LENGTH('a) \<and> n div 8 < length bs \<and> bit (bs ! (n div 8)) (n mod 8)"
proof (induction bs arbitrary: n)
  case Nil
  show ?case by simp
next
  case (Cons b bs)
  show ?case
  proof (cases "n < 8")
    case True
    then show ?thesis by (simp add: bit_simps)
  next
    case False
    then obtain m where m: "n = m + 8" by (metis le_add_diff_inverse2 not_less)
    have "\<not> bit b (m + 8)" by (auto dest: bit_imp_le_length)
    then show ?thesis using Cons [of m] by (auto simp: m bit_simps div_add_self2)
  qed
qed

lemma length_le_bytes [simp]: "length (le_bytes (w :: 'a::len word)) = LENGTH('a) div 8"
  by (simp add: le_bytes_def)

lemma length_native_bytes [simp]:
  "length (native_bytes sys (w :: 'a::len word)) = LENGTH('a) div 8"
  by (simp add: native_bytes_def split: ct_endian.splits)

lemma nth_le_bytes:
  "i < LENGTH('a) div 8 \<Longrightarrow> le_bytes (w :: 'a::len word) ! i = ucast (drop_bit (8 * i) w)"
  by (simp add: le_bytes_def)

lemma le_word_le_bytes:
  "8 dvd LENGTH('a) \<Longrightarrow> le_word (le_bytes (w :: 'a::len word)) = w"
  by (rule bit_word_eqI)
    (auto simp: bit_le_word nth_le_bytes bit_simps div_less_iff_less_mult dvd_def)

lemma le_bytes_le_word:
  assumes "length bs = LENGTH('a) div 8"
  shows "le_bytes (le_word bs :: 'a::len word) = bs"
proof (rule nth_equalityI)
  fix i
  assume "i < length (le_bytes (le_word bs :: 'a word))"
  then have i: "i < LENGTH('a) div 8" by simp
  show "le_bytes (le_word bs :: 'a word) ! i = bs ! i"
  proof (rule bit_word_eqI)
    fix n
    assume n: "n < LENGTH(8)"
    have "8 * i + n < LENGTH('a)" using i n by auto
    then show "bit (le_bytes (le_word bs :: 'a word) ! i) n \<longleftrightarrow> bit (bs ! i) n"
      using i n assms by (simp add: nth_le_bytes bit_simps bit_le_word)
  qed
qed (simp add: assms)

lemma native_word_bytes [simp]:
  "8 dvd LENGTH('a) \<Longrightarrow> native_word sys (native_bytes sys (w :: 'a::len word)) = w"
  by (simp add: native_word_def native_bytes_def le_word_le_bytes split: ct_endian.splits)

lemma native_bytes_word:
  "length bs = LENGTH('a) div 8 \<Longrightarrow> native_bytes sys (native_word sys bs :: 'a::len word) = bs"
  by (simp add: native_word_def native_bytes_def le_bytes_le_word split: ct_endian.splits)

end
