(* ===== verification/Coter_Binary.thy ===== *)
theory Coter_Binary
  imports Coter_Prelude
begin

text \<open>
  \<open>encoding/binary.h\<close> and \<open>encoding/binary.c\<close>: byte-order reversal, 16-bit lane swaps, endian-aware
  loads and stores at possibly unaligned addresses, and the in-place batch loops.

  The definitions translate the portable branch of each \<open>#if\<close>; the compiler builtins selected
  elsewhere (\<open>__builtin_bswap32\<close> and so on) are documented to compute the same reversal.  The host
  byte order \<open>sys\<close> stands for \<open>CT_ENDIAN_SYSTEM\<close>.  Each transform is characterised by its effect on
  the bytes of the value (\<open>byte_layout\<close>), which is what the rest of the development uses.
\<close>

section \<open>Transforms of one value\<close>

definition ct_binary_bswap16 :: "u16 \<Rightarrow> u16" where
  "ct_binary_bswap16 val = drop_bit 8 val OR push_bit 8 val"

definition ct_binary_bswap32 :: "u32 \<Rightarrow> u32" where
  "ct_binary_bswap32 val =
     (let val = push_bit 16 (val AND 0x0000FFFF) OR drop_bit 16 (val AND 0xFFFF0000);
          val = push_bit 8 (val AND 0x00FF00FF) OR drop_bit 8 (val AND 0xFF00FF00)
      in val)"

definition ct_binary_bswap64 :: "u64 \<Rightarrow> u64" where
  "ct_binary_bswap64 val =
     (let val = push_bit 32 (val AND 0x00000000FFFFFFFF) OR drop_bit 32 (val AND 0xFFFFFFFF00000000);
          val = push_bit 16 (val AND 0x0000FFFF0000FFFF) OR drop_bit 16 (val AND 0xFFFF0000FFFF0000);
          val = push_bit 8 (val AND 0x00FF00FF00FF00FF) OR drop_bit 8 (val AND 0xFF00FF00FF00FF00)
      in val)"

definition ct_binary_bswap16_lanes32 :: "u32 \<Rightarrow> u32" where
  "ct_binary_bswap16_lanes32 val =
     drop_bit 8 (val AND 0xFF00FF00) OR push_bit 8 (val AND 0x00FF00FF)"

definition ct_binary_bswap16_lanes64 :: "u64 \<Rightarrow> u64" where
  "ct_binary_bswap16_lanes64 val =
     drop_bit 8 (val AND 0xFF00FF00FF00FF00) OR push_bit 8 (val AND 0x00FF00FF00FF00FF)"

definition ct_binary_reverse16_lanes32 :: "u32 \<Rightarrow> u32" where
  "ct_binary_reverse16_lanes32 val = drop_bit 16 val OR push_bit 16 val"

definition ct_binary_reverse16_lanes64 :: "u64 \<Rightarrow> u64" where
  "ct_binary_reverse16_lanes64 val = ct_binary_bswap16_lanes64 (ct_binary_bswap64 val)"

section \<open>Batch transforms in place\<close>

text \<open>Every batch function is the loop \<open>for (i = 0; i < count; ++i) data[i] = f(data[i])\<close>.\<close>

fun batch_loop :: "('a \<Rightarrow> 'a) \<Rightarrow> nat \<Rightarrow> nat \<Rightarrow> 'a list \<Rightarrow> 'a list option" where
  "batch_loop f i 0 data = Some data"
| "batch_loop f i (Suc n) data =
     (if i < length data then batch_loop f (Suc i) n (data[i := f (data ! i)]) else None)"

definition ct_binary_bswap16_batch :: "u16 list \<Rightarrow> nat \<Rightarrow> u16 list option" where
  "ct_binary_bswap16_batch data count = batch_loop ct_binary_bswap16 0 count data"

definition ct_binary_bswap32_batch :: "u32 list \<Rightarrow> nat \<Rightarrow> u32 list option" where
  "ct_binary_bswap32_batch data count = batch_loop ct_binary_bswap32 0 count data"

definition ct_binary_bswap64_batch :: "u64 list \<Rightarrow> nat \<Rightarrow> u64 list option" where
  "ct_binary_bswap64_batch data count = batch_loop ct_binary_bswap64 0 count data"

definition ct_binary_bswap16_lanes32_batch :: "u32 list \<Rightarrow> nat \<Rightarrow> u32 list option" where
  "ct_binary_bswap16_lanes32_batch data count = batch_loop ct_binary_bswap16_lanes32 0 count data"

definition ct_binary_bswap16_lanes64_batch :: "u64 list \<Rightarrow> nat \<Rightarrow> u64 list option" where
  "ct_binary_bswap16_lanes64_batch data count = batch_loop ct_binary_bswap16_lanes64 0 count data"

definition ct_binary_reverse16_lanes32_batch :: "u32 list \<Rightarrow> nat \<Rightarrow> u32 list option" where
  "ct_binary_reverse16_lanes32_batch data count = batch_loop ct_binary_reverse16_lanes32 0 count data"

definition ct_binary_reverse16_lanes64_batch :: "u64 list \<Rightarrow> nat \<Rightarrow> u64 list option" where
  "ct_binary_reverse16_lanes64_batch data count = batch_loop ct_binary_reverse16_lanes64 0 count data"

section \<open>Endian-aware loads and stores\<close>

text \<open>\<open>CT_BINARY_LOAD\<close> and \<open>CT_BINARY_STORE\<close>: a \<open>memcpy\<close> between the buffer, at byte \<open>buf\<close> of the
  block \<open>m\<close>, and an integer object of the host.\<close>

definition CT_BINARY_LOAD :: "ct_endian \<Rightarrow> u8 list \<Rightarrow> nat \<Rightarrow> 'a::len word option" where
  "CT_BINARY_LOAD sys m buf = map_option (native_word sys) (mem_get m buf (LENGTH('a) div 8))"

definition CT_BINARY_STORE :: "ct_endian \<Rightarrow> u8 list \<Rightarrow> nat \<Rightarrow> 'a::len word \<Rightarrow> u8 list option" where
  "CT_BINARY_STORE sys m buf val = mem_put m buf (native_bytes sys val)"

definition ct_le_get_u16 :: "ct_endian \<Rightarrow> u8 list \<Rightarrow> nat \<Rightarrow> u16 option" where
  "ct_le_get_u16 sys m buf = do {
     val \<leftarrow> CT_BINARY_LOAD sys m buf;
     Some (if sys = CT_ENDIAN_BIG then ct_binary_bswap16 val else val) }"

definition ct_le_get_u32 :: "ct_endian \<Rightarrow> u8 list \<Rightarrow> nat \<Rightarrow> u32 option" where
  "ct_le_get_u32 sys m buf = do {
     val \<leftarrow> CT_BINARY_LOAD sys m buf;
     Some (if sys = CT_ENDIAN_BIG then ct_binary_bswap32 val else val) }"

definition ct_le_get_u64 :: "ct_endian \<Rightarrow> u8 list \<Rightarrow> nat \<Rightarrow> u64 option" where
  "ct_le_get_u64 sys m buf = do {
     val \<leftarrow> CT_BINARY_LOAD sys m buf;
     Some (if sys = CT_ENDIAN_BIG then ct_binary_bswap64 val else val) }"

definition ct_le_get_u16_at :: "ct_endian \<Rightarrow> u8 list \<Rightarrow> nat \<Rightarrow> nat \<Rightarrow> u16 option" where
  "ct_le_get_u16_at sys m buf off = ct_le_get_u16 sys m (buf + off)"

definition ct_le_get_u32_at :: "ct_endian \<Rightarrow> u8 list \<Rightarrow> nat \<Rightarrow> nat \<Rightarrow> u32 option" where
  "ct_le_get_u32_at sys m buf off = ct_le_get_u32 sys m (buf + off)"

definition ct_le_get_u64_at :: "ct_endian \<Rightarrow> u8 list \<Rightarrow> nat \<Rightarrow> nat \<Rightarrow> u64 option" where
  "ct_le_get_u64_at sys m buf off = ct_le_get_u64 sys m (buf + off)"

definition ct_le_set_u16 :: "ct_endian \<Rightarrow> u8 list \<Rightarrow> nat \<Rightarrow> u16 \<Rightarrow> u8 list option" where
  "ct_le_set_u16 sys m buf val =
     CT_BINARY_STORE sys m buf (if sys = CT_ENDIAN_BIG then ct_binary_bswap16 val else val)"

definition ct_le_set_u32 :: "ct_endian \<Rightarrow> u8 list \<Rightarrow> nat \<Rightarrow> u32 \<Rightarrow> u8 list option" where
  "ct_le_set_u32 sys m buf val =
     CT_BINARY_STORE sys m buf (if sys = CT_ENDIAN_BIG then ct_binary_bswap32 val else val)"

definition ct_le_set_u64 :: "ct_endian \<Rightarrow> u8 list \<Rightarrow> nat \<Rightarrow> u64 \<Rightarrow> u8 list option" where
  "ct_le_set_u64 sys m buf val =
     CT_BINARY_STORE sys m buf (if sys = CT_ENDIAN_BIG then ct_binary_bswap64 val else val)"

definition ct_le_set_u16_at :: "ct_endian \<Rightarrow> u8 list \<Rightarrow> nat \<Rightarrow> nat \<Rightarrow> u16 \<Rightarrow> u8 list option" where
  "ct_le_set_u16_at sys m buf off val = ct_le_set_u16 sys m (buf + off) val"

definition ct_le_set_u32_at :: "ct_endian \<Rightarrow> u8 list \<Rightarrow> nat \<Rightarrow> nat \<Rightarrow> u32 \<Rightarrow> u8 list option" where
  "ct_le_set_u32_at sys m buf off val = ct_le_set_u32 sys m (buf + off) val"

definition ct_le_set_u64_at :: "ct_endian \<Rightarrow> u8 list \<Rightarrow> nat \<Rightarrow> nat \<Rightarrow> u64 \<Rightarrow> u8 list option" where
  "ct_le_set_u64_at sys m buf off val = ct_le_set_u64 sys m (buf + off) val"

definition ct_be_get_u16 :: "ct_endian \<Rightarrow> u8 list \<Rightarrow> nat \<Rightarrow> u16 option" where
  "ct_be_get_u16 sys m buf = do {
     val \<leftarrow> CT_BINARY_LOAD sys m buf;
     Some (if sys = CT_ENDIAN_LITTLE then ct_binary_bswap16 val else val) }"

definition ct_be_get_u32 :: "ct_endian \<Rightarrow> u8 list \<Rightarrow> nat \<Rightarrow> u32 option" where
  "ct_be_get_u32 sys m buf = do {
     val \<leftarrow> CT_BINARY_LOAD sys m buf;
     Some (if sys = CT_ENDIAN_LITTLE then ct_binary_bswap32 val else val) }"

definition ct_be_get_u64 :: "ct_endian \<Rightarrow> u8 list \<Rightarrow> nat \<Rightarrow> u64 option" where
  "ct_be_get_u64 sys m buf = do {
     val \<leftarrow> CT_BINARY_LOAD sys m buf;
     Some (if sys = CT_ENDIAN_LITTLE then ct_binary_bswap64 val else val) }"

definition ct_be_get_u16_at :: "ct_endian \<Rightarrow> u8 list \<Rightarrow> nat \<Rightarrow> nat \<Rightarrow> u16 option" where
  "ct_be_get_u16_at sys m buf off = ct_be_get_u16 sys m (buf + off)"

definition ct_be_get_u32_at :: "ct_endian \<Rightarrow> u8 list \<Rightarrow> nat \<Rightarrow> nat \<Rightarrow> u32 option" where
  "ct_be_get_u32_at sys m buf off = ct_be_get_u32 sys m (buf + off)"

definition ct_be_get_u64_at :: "ct_endian \<Rightarrow> u8 list \<Rightarrow> nat \<Rightarrow> nat \<Rightarrow> u64 option" where
  "ct_be_get_u64_at sys m buf off = ct_be_get_u64 sys m (buf + off)"

definition ct_be_set_u16 :: "ct_endian \<Rightarrow> u8 list \<Rightarrow> nat \<Rightarrow> u16 \<Rightarrow> u8 list option" where
  "ct_be_set_u16 sys m buf val =
     CT_BINARY_STORE sys m buf (if sys = CT_ENDIAN_LITTLE then ct_binary_bswap16 val else val)"

definition ct_be_set_u32 :: "ct_endian \<Rightarrow> u8 list \<Rightarrow> nat \<Rightarrow> u32 \<Rightarrow> u8 list option" where
  "ct_be_set_u32 sys m buf val =
     CT_BINARY_STORE sys m buf (if sys = CT_ENDIAN_LITTLE then ct_binary_bswap32 val else val)"

definition ct_be_set_u64 :: "ct_endian \<Rightarrow> u8 list \<Rightarrow> nat \<Rightarrow> u64 \<Rightarrow> u8 list option" where
  "ct_be_set_u64 sys m buf val =
     CT_BINARY_STORE sys m buf (if sys = CT_ENDIAN_LITTLE then ct_binary_bswap64 val else val)"

definition ct_be_set_u16_at :: "ct_endian \<Rightarrow> u8 list \<Rightarrow> nat \<Rightarrow> nat \<Rightarrow> u16 \<Rightarrow> u8 list option" where
  "ct_be_set_u16_at sys m buf off val = ct_be_set_u16 sys m (buf + off) val"

definition ct_be_set_u32_at :: "ct_endian \<Rightarrow> u8 list \<Rightarrow> nat \<Rightarrow> nat \<Rightarrow> u32 \<Rightarrow> u8 list option" where
  "ct_be_set_u32_at sys m buf off val = ct_be_set_u32 sys m (buf + off) val"

definition ct_be_set_u64_at :: "ct_endian \<Rightarrow> u8 list \<Rightarrow> nat \<Rightarrow> nat \<Rightarrow> u64 \<Rightarrow> u8 list option" where
  "ct_be_set_u64_at sys m buf off val = ct_be_set_u64 sys m (buf + off) val"

text \<open>The native accessors are the bare \<open>memcpy\<close>.\<close>

definition ct_ne_get_u16 :: "ct_endian \<Rightarrow> u8 list \<Rightarrow> nat \<Rightarrow> u16 option" where
  "ct_ne_get_u16 sys m buf = CT_BINARY_LOAD sys m buf"

definition ct_ne_get_u32 :: "ct_endian \<Rightarrow> u8 list \<Rightarrow> nat \<Rightarrow> u32 option" where
  "ct_ne_get_u32 sys m buf = CT_BINARY_LOAD sys m buf"

definition ct_ne_get_u64 :: "ct_endian \<Rightarrow> u8 list \<Rightarrow> nat \<Rightarrow> u64 option" where
  "ct_ne_get_u64 sys m buf = CT_BINARY_LOAD sys m buf"

definition ct_ne_set_u16 :: "ct_endian \<Rightarrow> u8 list \<Rightarrow> nat \<Rightarrow> u16 \<Rightarrow> u8 list option" where
  "ct_ne_set_u16 sys m buf val = CT_BINARY_STORE sys m buf val"

definition ct_ne_set_u32 :: "ct_endian \<Rightarrow> u8 list \<Rightarrow> nat \<Rightarrow> u32 \<Rightarrow> u8 list option" where
  "ct_ne_set_u32 sys m buf val = CT_BINARY_STORE sys m buf val"

definition ct_ne_set_u64 :: "ct_endian \<Rightarrow> u8 list \<Rightarrow> nat \<Rightarrow> u64 \<Rightarrow> u8 list option" where
  "ct_ne_set_u64 sys m buf val = CT_BINARY_STORE sys m buf val"

definition ct_ne_get_u16_at :: "ct_endian \<Rightarrow> u8 list \<Rightarrow> nat \<Rightarrow> nat \<Rightarrow> u16 option" where
  "ct_ne_get_u16_at sys m buf off = ct_ne_get_u16 sys m (buf + off)"

definition ct_ne_get_u32_at :: "ct_endian \<Rightarrow> u8 list \<Rightarrow> nat \<Rightarrow> nat \<Rightarrow> u32 option" where
  "ct_ne_get_u32_at sys m buf off = ct_ne_get_u32 sys m (buf + off)"

definition ct_ne_get_u64_at :: "ct_endian \<Rightarrow> u8 list \<Rightarrow> nat \<Rightarrow> nat \<Rightarrow> u64 option" where
  "ct_ne_get_u64_at sys m buf off = ct_ne_get_u64 sys m (buf + off)"

definition ct_ne_set_u16_at :: "ct_endian \<Rightarrow> u8 list \<Rightarrow> nat \<Rightarrow> nat \<Rightarrow> u16 \<Rightarrow> u8 list option" where
  "ct_ne_set_u16_at sys m buf off val = ct_ne_set_u16 sys m (buf + off) val"

definition ct_ne_set_u32_at :: "ct_endian \<Rightarrow> u8 list \<Rightarrow> nat \<Rightarrow> nat \<Rightarrow> u32 \<Rightarrow> u8 list option" where
  "ct_ne_set_u32_at sys m buf off val = ct_ne_set_u32 sys m (buf + off) val"

definition ct_ne_set_u64_at :: "ct_endian \<Rightarrow> u8 list \<Rightarrow> nat \<Rightarrow> nat \<Rightarrow> u64 \<Rightarrow> u8 list option" where
  "ct_ne_set_u64_at sys m buf off val = ct_ne_set_u64 sys m (buf + off) val"

section \<open>The effect of each transform on the bytes of a value\<close>

named_theorems byte_layout

lemma nat_lt_8:
  "(n::nat) < 8 \<longleftrightarrow> n = 0 \<or> n = 1 \<or> n = 2 \<or> n = 3 \<or> n = 4 \<or> n = 5 \<or> n = 6 \<or> n = 7"
  by auto

lemma le_bytes_u16:
  "le_bytes (w :: u16) = [ucast w, ucast (drop_bit 8 w)]"
  by (simp add: le_bytes_def upt_rec)

lemma le_bytes_u32:
  "le_bytes (w :: u32) =
     [ucast w, ucast (drop_bit 8 w), ucast (drop_bit 16 w), ucast (drop_bit 24 w)]"
  by (simp add: le_bytes_def upt_rec)

lemma le_bytes_u64:
  "le_bytes (w :: u64) =
     [ucast w, ucast (drop_bit 8 w), ucast (drop_bit 16 w), ucast (drop_bit 24 w),
      ucast (drop_bit 32 w), ucast (drop_bit 40 w), ucast (drop_bit 48 w), ucast (drop_bit 56 w)]"
  by (simp add: le_bytes_def upt_rec)

lemma le_bytes_bswap16 [byte_layout]: "le_bytes (ct_binary_bswap16 v) = rev (le_bytes v)"
  unfolding le_bytes_u16 ct_binary_bswap16_def
  by (simp, intro conjI; rule bit_word_eqI; simp add: nat_lt_8; elim disjE; simp add: bit_simps)

lemma le_bytes_bswap32 [byte_layout]: "le_bytes (ct_binary_bswap32 v) = rev (le_bytes v)"
  unfolding le_bytes_u32 ct_binary_bswap32_def Let_def
  by (simp, intro conjI; rule bit_word_eqI; simp add: nat_lt_8; elim disjE; simp add: bit_simps)

lemma le_bytes_bswap64 [byte_layout]: "le_bytes (ct_binary_bswap64 v) = rev (le_bytes v)"
  unfolding le_bytes_u64 ct_binary_bswap64_def Let_def
  by (simp, intro conjI; rule bit_word_eqI; simp add: nat_lt_8; elim disjE; simp add: bit_simps)

text \<open>Swapping the bytes inside each 16-bit lane, and reversing the order of the lanes.\<close>

fun swap_lanes :: "'b list \<Rightarrow> 'b list" where
  "swap_lanes (a # b # xs) = b # a # swap_lanes xs"
| "swap_lanes xs = xs"

lemma le_bytes_bswap16_lanes32 [byte_layout]:
  "le_bytes (ct_binary_bswap16_lanes32 v) = swap_lanes (le_bytes v)"
  unfolding le_bytes_u32 ct_binary_bswap16_lanes32_def
  by (simp, intro conjI; rule bit_word_eqI; simp add: nat_lt_8; elim disjE; simp add: bit_simps)

lemma le_bytes_bswap16_lanes64 [byte_layout]:
  "le_bytes (ct_binary_bswap16_lanes64 v) = swap_lanes (le_bytes v)"
  unfolding le_bytes_u64 ct_binary_bswap16_lanes64_def
  by (simp, intro conjI; rule bit_word_eqI; simp add: nat_lt_8; elim disjE; simp add: bit_simps)

lemma le_bytes_reverse16_lanes32 [byte_layout]:
  "le_bytes (ct_binary_reverse16_lanes32 v) = swap_lanes (rev (le_bytes v))"
  unfolding le_bytes_u32 ct_binary_reverse16_lanes32_def
  by (simp, intro conjI; rule bit_word_eqI; simp add: nat_lt_8; elim disjE; simp add: bit_simps)

lemma le_bytes_reverse16_lanes64 [byte_layout]:
  "le_bytes (ct_binary_reverse16_lanes64 v) = swap_lanes (rev (le_bytes v))"
  by (simp add: ct_binary_reverse16_lanes64_def byte_layout)

lemma le_bytes_inject:
  "8 dvd LENGTH('a) \<Longrightarrow> le_bytes (v :: 'a::len word) = le_bytes w \<longleftrightarrow> v = w"
  using le_word_le_bytes by metis

lemma swap_lanes_swap_lanes [simp]: "swap_lanes (swap_lanes xs) = xs"
  by (induction xs rule: swap_lanes.induct) auto

lemma ct_binary_bswap16_twice [simp]: "ct_binary_bswap16 (ct_binary_bswap16 v) = v"
  by (simp add: le_bytes_bswap16 flip: le_bytes_inject)

lemma ct_binary_bswap32_twice [simp]: "ct_binary_bswap32 (ct_binary_bswap32 v) = v"
  by (simp add: le_bytes_bswap32 flip: le_bytes_inject)

lemma ct_binary_bswap64_twice [simp]: "ct_binary_bswap64 (ct_binary_bswap64 v) = v"
  by (simp add: le_bytes_bswap64 flip: le_bytes_inject)

lemma ct_binary_bswap16_lanes32_twice [simp]:
  "ct_binary_bswap16_lanes32 (ct_binary_bswap16_lanes32 v) = v"
  by (simp add: le_bytes_bswap16_lanes32 flip: le_bytes_inject)

lemma ct_binary_bswap16_lanes64_twice [simp]:
  "ct_binary_bswap16_lanes64 (ct_binary_bswap16_lanes64 v) = v"
  by (simp add: le_bytes_bswap16_lanes64 flip: le_bytes_inject)

lemma swap_lanes_u32:
  "swap_lanes (rev (swap_lanes (rev (le_bytes (v :: u32))))) = le_bytes v"
  by (simp add: le_bytes_u32)

lemma swap_lanes_u64:
  "swap_lanes (rev (swap_lanes (rev (le_bytes (v :: u64))))) = le_bytes v"
  by (simp add: le_bytes_u64)

lemma ct_binary_reverse16_lanes32_twice [simp]:
  "ct_binary_reverse16_lanes32 (ct_binary_reverse16_lanes32 v) = v"
  by (simp add: le_bytes_reverse16_lanes32 swap_lanes_u32 flip: le_bytes_inject)

lemma ct_binary_reverse16_lanes64_twice [simp]:
  "ct_binary_reverse16_lanes64 (ct_binary_reverse16_lanes64 v) = v"
  by (simp add: le_bytes_reverse16_lanes64 swap_lanes_u64 flip: le_bytes_inject)

section \<open>Loads and stores do not depend on the host\<close>

lemma native_bytes_le:
  "native_bytes sys (if sys = CT_ENDIAN_BIG then ct_binary_bswap16 v16 else v16) = le_bytes v16"
  "native_bytes sys (if sys = CT_ENDIAN_BIG then ct_binary_bswap32 v32 else v32) = le_bytes v32"
  "native_bytes sys (if sys = CT_ENDIAN_BIG then ct_binary_bswap64 v64 else v64) = le_bytes v64"
  by (cases sys; simp add: native_bytes_def byte_layout)+

lemma native_bytes_be:
  "native_bytes sys (if sys = CT_ENDIAN_LITTLE then ct_binary_bswap16 v16 else v16) = rev (le_bytes v16)"
  "native_bytes sys (if sys = CT_ENDIAN_LITTLE then ct_binary_bswap32 v32 else v32) = rev (le_bytes v32)"
  "native_bytes sys (if sys = CT_ENDIAN_LITTLE then ct_binary_bswap64 v64 else v64) = rev (le_bytes v64)"
  by (cases sys; simp add: native_bytes_def byte_layout)+

lemma le_set_bytes:
  "ct_le_set_u16 sys m buf v16 = mem_put m buf (le_bytes v16)"
  "ct_le_set_u32 sys m buf v32 = mem_put m buf (le_bytes v32)"
  "ct_le_set_u64 sys m buf v64 = mem_put m buf (le_bytes v64)"
  by (simp_all only: ct_le_set_u16_def ct_le_set_u32_def ct_le_set_u64_def CT_BINARY_STORE_def
      native_bytes_le)

lemma be_set_bytes:
  "ct_be_set_u16 sys m buf v16 = mem_put m buf (rev (le_bytes v16))"
  "ct_be_set_u32 sys m buf v32 = mem_put m buf (rev (le_bytes v32))"
  "ct_be_set_u64 sys m buf v64 = mem_put m buf (rev (le_bytes v64))"
  by (simp_all only: ct_be_set_u16_def ct_be_set_u32_def ct_be_set_u64_def CT_BINARY_STORE_def
      native_bytes_be)

lemma bswap_word_bytes:
  "length bs = 2 \<Longrightarrow> ct_binary_bswap16 (le_word bs) = le_word (rev bs)"
  "length bs = 4 \<Longrightarrow> ct_binary_bswap32 (le_word bs) = le_word (rev bs)"
  "length bs = 8 \<Longrightarrow> ct_binary_bswap64 (le_word bs) = le_word (rev bs)"
  by (simp_all add: byte_layout le_bytes_le_word flip: le_bytes_inject)

lemma CT_BINARY_LOAD_bind:
  "(CT_BINARY_LOAD sys m buf \<bind> (\<lambda>v. Some (h v))) =
   map_option (\<lambda>bs. h (native_word sys bs :: 'a::len word)) (mem_get m buf (LENGTH('a) div 8))"
  by (cases "mem_get m buf (LENGTH('a) div 8)") (simp_all add: CT_BINARY_LOAD_def)

lemma map_option_mem_get_cong:
  "(\<And>bs. length bs = n \<Longrightarrow> f bs = g bs) \<Longrightarrow>
   map_option f (mem_get m off n) = map_option g (mem_get m off n)"
  by (auto simp: mem_get_def)

lemma le_get_bytes:
  "ct_le_get_u16 sys m buf = map_option le_word (mem_get m buf 2)"
  "ct_le_get_u32 sys m buf = map_option le_word (mem_get m buf 4)"
  "ct_le_get_u64 sys m buf = map_option le_word (mem_get m buf 8)"
  unfolding ct_le_get_u16_def ct_le_get_u32_def ct_le_get_u64_def CT_BINARY_LOAD_bind
  by (simp_all, (rule map_option_mem_get_cong, cases sys,
      simp_all add: native_word_def bswap_word_bytes)+)

lemma be_get_bytes:
  "ct_be_get_u16 sys m buf = map_option (\<lambda>bs. le_word (rev bs)) (mem_get m buf 2)"
  "ct_be_get_u32 sys m buf = map_option (\<lambda>bs. le_word (rev bs)) (mem_get m buf 4)"
  "ct_be_get_u64 sys m buf = map_option (\<lambda>bs. le_word (rev bs)) (mem_get m buf 8)"
  unfolding ct_be_get_u16_def ct_be_get_u32_def ct_be_get_u64_def CT_BINARY_LOAD_bind
  by (simp_all, (rule map_option_mem_get_cong, cases sys,
      simp_all add: native_word_def bswap_word_bytes)+)

text \<open>The loads read back what the stores wrote.\<close>

lemma mem_get_put_n:
  "mem_put m off xs = Some m' \<Longrightarrow> n = length xs \<Longrightarrow> mem_get m' off n = Some xs"
  by (simp add: mem_get_put_same)

lemma le_get_set:
  "ct_le_set_u16 sys m buf v16 = Some m' \<Longrightarrow> ct_le_get_u16 sys' m' buf = Some v16"
  "ct_le_set_u32 sys m buf v32 = Some m' \<Longrightarrow> ct_le_get_u32 sys' m' buf = Some v32"
  "ct_le_set_u64 sys m buf v64 = Some m' \<Longrightarrow> ct_le_get_u64 sys' m' buf = Some v64"
  by (simp_all add: le_set_bytes le_get_bytes mem_get_put_n le_word_le_bytes)

lemma be_get_set:
  "ct_be_set_u16 sys m buf v16 = Some m' \<Longrightarrow> ct_be_get_u16 sys' m' buf = Some v16"
  "ct_be_set_u32 sys m buf v32 = Some m' \<Longrightarrow> ct_be_get_u32 sys' m' buf = Some v32"
  "ct_be_set_u64 sys m buf v64 = Some m' \<Longrightarrow> ct_be_get_u64 sys' m' buf = Some v64"
  by (simp_all add: be_set_bytes be_get_bytes mem_get_put_n le_word_le_bytes)

section \<open>The batch loops\<close>

lemma batch_loop_map:
  "i + n \<le> length data \<Longrightarrow>
   batch_loop f i n data = Some (take i data @ map f (take n (drop i data)) @ drop (i + n) data)"
proof (induction n arbitrary: i data)
  case 0
  then show ?case by simp
next
  case (Suc n)
  have "batch_loop f i (Suc n) data = batch_loop f (Suc i) n (data[i := f (data ! i)])"
    using Suc.prems by simp
  also have "\<dots> = Some (take (Suc i) (data[i := f (data ! i)])
      @ map f (take n (drop (Suc i) (data[i := f (data ! i)])))
      @ drop (Suc i + n) (data[i := f (data ! i)]))"
    using Suc.prems by (intro Suc.IH) simp
  also have "take (Suc i) (data[i := f (data ! i)]) = take i data @ [f (data ! i)]"
    using Suc.prems by (simp add: take_Suc_conv_app_nth)
  also have "drop i data = data ! i # drop (Suc i) data"
    using Suc.prems by (simp add: Cons_nth_drop_Suc)
  ultimately show ?case by simp
qed

lemma batch_loop_None: "length data < i + n \<Longrightarrow> i \<le> length data \<Longrightarrow> batch_loop f i n data = None"
  by (induction n arbitrary: i data) auto

lemma batch_loop_full:
  "batch_loop f 0 count data =
     (if count \<le> length data then Some (map f (take count data) @ drop count data) else None)"
  using batch_loop_map [of 0 count data f] batch_loop_None [of data 0 count f] by simp

section \<open>The fixed-endian accessors together\<close>

text \<open>
  A value of one of the three widths, and the accessors at an offset for either byte order.  They call
  the accessors without one, so a fault of those shows here as well.
\<close>

datatype fixed_val = F16 u16 | F32 u32 | F64 u64

datatype fixed_width = B16 | B32 | B64

fun fixed_width_of :: "fixed_val \<Rightarrow> fixed_width" where
  "fixed_width_of (F16 v) = B16"
| "fixed_width_of (F32 v) = B32"
| "fixed_width_of (F64 v) = B64"

fun fixed_set_at :: "ct_endian \<Rightarrow> ct_endian \<Rightarrow> u8 list \<Rightarrow> nat \<Rightarrow> nat \<Rightarrow> fixed_val \<Rightarrow> u8 list option" where
  "fixed_set_at CT_ENDIAN_LITTLE sys m buf off (F16 v) = ct_le_set_u16_at sys m buf off v"
| "fixed_set_at CT_ENDIAN_LITTLE sys m buf off (F32 v) = ct_le_set_u32_at sys m buf off v"
| "fixed_set_at CT_ENDIAN_LITTLE sys m buf off (F64 v) = ct_le_set_u64_at sys m buf off v"
| "fixed_set_at CT_ENDIAN_BIG sys m buf off (F16 v) = ct_be_set_u16_at sys m buf off v"
| "fixed_set_at CT_ENDIAN_BIG sys m buf off (F32 v) = ct_be_set_u32_at sys m buf off v"
| "fixed_set_at CT_ENDIAN_BIG sys m buf off (F64 v) = ct_be_set_u64_at sys m buf off v"

fun fixed_get_at :: "ct_endian \<Rightarrow> ct_endian \<Rightarrow> u8 list \<Rightarrow> nat \<Rightarrow> nat \<Rightarrow> fixed_width \<Rightarrow> fixed_val option" where
  "fixed_get_at CT_ENDIAN_LITTLE sys m buf off B16 = map_option F16 (ct_le_get_u16_at sys m buf off)"
| "fixed_get_at CT_ENDIAN_LITTLE sys m buf off B32 = map_option F32 (ct_le_get_u32_at sys m buf off)"
| "fixed_get_at CT_ENDIAN_LITTLE sys m buf off B64 = map_option F64 (ct_le_get_u64_at sys m buf off)"
| "fixed_get_at CT_ENDIAN_BIG sys m buf off B16 = map_option F16 (ct_be_get_u16_at sys m buf off)"
| "fixed_get_at CT_ENDIAN_BIG sys m buf off B32 = map_option F32 (ct_be_get_u32_at sys m buf off)"
| "fixed_get_at CT_ENDIAN_BIG sys m buf off B64 = map_option F64 (ct_be_get_u64_at sys m buf off)"

text \<open>The bytes of a value in an order: least significant first, or most significant first.\<close>

fun value_bytes :: "fixed_val \<Rightarrow> u8 list" where
  "value_bytes (F16 v) = [ucast v, ucast (drop_bit 8 v)]"
| "value_bytes (F32 v) = [ucast v, ucast (drop_bit 8 v), ucast (drop_bit 16 v), ucast (drop_bit 24 v)]"
| "value_bytes (F64 v) = [ucast v, ucast (drop_bit 8 v), ucast (drop_bit 16 v), ucast (drop_bit 24 v),
     ucast (drop_bit 32 v), ucast (drop_bit 40 v), ucast (drop_bit 48 v), ucast (drop_bit 56 v)]"

definition fixed_bytes :: "ct_endian \<Rightarrow> fixed_val \<Rightarrow> u8 list" where
  "fixed_bytes e v = (case e of CT_ENDIAN_LITTLE \<Rightarrow> value_bytes v | CT_ENDIAN_BIG \<Rightarrow> rev (value_bytes v))"

fun fixed_bswap :: "fixed_val \<Rightarrow> fixed_val" where
  "fixed_bswap (F16 v) = F16 (ct_binary_bswap16 v)"
| "fixed_bswap (F32 v) = F32 (ct_binary_bswap32 v)"
| "fixed_bswap (F64 v) = F64 (ct_binary_bswap64 v)"

lemma value_bytes_le:
  "value_bytes (F16 x) = le_bytes x" "value_bytes (F32 y) = le_bytes y" "value_bytes (F64 z) = le_bytes z"
  by (simp_all add: le_bytes_u16 le_bytes_u32 le_bytes_u64)

lemma value_bytes_bswap: "value_bytes (fixed_bswap v) = rev (value_bytes v)"
  by (cases v) (simp_all only: fixed_bswap.simps value_bytes_le byte_layout)

lemma fixed_set_at_put: "fixed_set_at e sys m buf off v = mem_put m (buf + off) (fixed_bytes e v)"
  by (cases e; cases v)
    (simp_all only: fixed_set_at.simps ct_le_set_u16_at_def ct_le_set_u32_at_def ct_le_set_u64_at_def
      ct_be_set_u16_at_def ct_be_set_u32_at_def ct_be_set_u64_at_def le_set_bytes be_set_bytes
      fixed_bytes_def ct_endian.case value_bytes_le)

lemma fixed_get_at_bytes:
  assumes "mem_get m (buf + off) (length (value_bytes v)) = Some (fixed_bytes e v)"
  shows "fixed_get_at e sys m buf off (fixed_width_of v) = Some v"
  using assms
  by (cases e; cases v)
    (simp_all add: ct_le_get_u16_at_def ct_le_get_u32_at_def ct_le_get_u64_at_def
      ct_be_get_u16_at_def ct_be_get_u32_at_def ct_be_get_u64_at_def le_get_bytes be_get_bytes
      fixed_bytes_def value_bytes_le le_word_le_bytes del: value_bytes.simps)

text \<open>C5: Fixed-endian accessors, for 16, 32 and 64 bits.  Where the value fits the block, what the
  little-endian (big-endian) store of a width writes at an offset, on a host of either byte order, is
  the value's bytes, least (most) significant first, and nothing else in memory changes; the matching
  load, on any host, reads the value back; and the load of the other order sees the byte-swapped
  value, whose bytes are the reverse.  The store leaves the block only where the value does not fit.\<close>

theorem be_at_roundtrip:
  assumes "m' = take (buf + off) m @ fixed_bytes e v @ drop (buf + off + length (value_bytes v)) m"
  shows "fixed_set_at e sys m buf off v = (if buf + off + length (value_bytes v) \<le> length m then Some m' else None) \<and>
    (buf + off + length (value_bytes v) \<le> length m \<longrightarrow>
      fixed_get_at e sys' m' buf off (fixed_width_of v) = Some v \<and>
      (e' \<noteq> e \<longrightarrow> fixed_get_at e' sys' m' buf off (fixed_width_of v) = Some (fixed_bswap v))) \<and>
    value_bytes (fixed_bswap v) = rev (value_bytes v)"
proof -
  have l: "length (fixed_bytes e v) = length (value_bytes v)" for e
    by (simp add: fixed_bytes_def split: ct_endian.split)
  have set: "fixed_set_at e sys m buf off v = (if buf + off + length (value_bytes v) \<le> length m then Some m' else None)"
    by (simp add: fixed_set_at_put mem_put_def l assms)
  have loads: "fixed_get_at e sys' m' buf off (fixed_width_of v) = Some v \<and>
      (e' \<noteq> e \<longrightarrow> fixed_get_at e' sys' m' buf off (fixed_width_of v) = Some (fixed_bswap v))"
    if fits: "buf + off + length (value_bytes v) \<le> length m"
  proof -
    have "mem_put m (buf + off) (fixed_bytes e v) = Some m'" using set fits by (simp add: fixed_set_at_put)
    then have get: "mem_get m' (buf + off) (length (value_bytes v)) = Some (fixed_bytes e v)"
      by (simp add: mem_get_put_n l)
    have "fixed_bytes e' (fixed_bswap v) = fixed_bytes e v" if "e' \<noteq> e"
      using that by (cases e; cases e') (simp_all add: fixed_bytes_def value_bytes_bswap)
    then have other: "fixed_get_at e' sys' m' buf off (fixed_width_of (fixed_bswap v)) = Some (fixed_bswap v)"
      if "e' \<noteq> e"
      using that get by (intro fixed_get_at_bytes) (simp add: value_bytes_bswap)
    have "fixed_width_of (fixed_bswap v) = fixed_width_of v" by (cases v) simp_all
    with fixed_get_at_bytes [OF get] other show ?thesis by simp
  qed
  show ?thesis using set loads by (simp add: value_bytes_bswap)
qed

theorem be_at_roundtrip_witness:
  "fixed_set_at CT_ENDIAN_BIG CT_ENDIAN_LITTLE [0, 0, 0, 0, 0] 0 1 (F32 66051) = Some [0, 0, 1, 2, 3] \<and>
   fixed_get_at CT_ENDIAN_BIG CT_ENDIAN_BIG [0, 0, 1, 2, 3] 0 1 B32 = Some (F32 66051)"
proof -
  have m: "[0, 0, 1, 2, 3] = take (0 + 1) [0, 0, 0, 0, 0 :: u8] @ fixed_bytes CT_ENDIAN_BIG (F32 66051) @
      drop (0 + 1 + length (value_bytes (F32 66051))) [0, 0, 0, 0, 0]"
    by (simp add: fixed_bytes_def)
  have "0 + 1 + length (value_bytes (F32 66051)) \<le> length [0, 0, 0, 0, 0 :: u8]" by simp
  with be_at_roundtrip [OF m, of CT_ENDIAN_LITTLE] be_at_roundtrip [OF m, of _ CT_ENDIAN_BIG] show ?thesis
    unfolding fixed_width_of.simps by (simp only: if_True simp_thms)
qed

text \<open>Batch transforms.  A batch swap of \<open>count\<close> elements that fit the array maps the scalar swap
  over exactly those elements, and doing it twice restores the array; with \<open>count\<close> beyond the array
  it would run out of bounds.\<close>

lemma bswap32_batch_twice:
  "ct_binary_bswap32_batch data count =
     (if count \<le> length data then Some (map ct_binary_bswap32 (take count data) @ drop count data) else None) \<and>
   (ct_binary_bswap32_batch data count \<bind> (\<lambda>d. ct_binary_bswap32_batch d count)) =
     (if count \<le> length data then Some data else None)"
  by (simp add: ct_binary_bswap32_batch_def batch_loop_full min_absorb2 o_def)

end
