(* ===== verification/Coter_Bytes.thy ===== *)
theory Coter_Bytes
  imports Coter_Binary
begin

text \<open>
  \<open>bytes/bytes.h\<close> and \<open>bytes/bytes.c\<close>: a fixed-size byte buffer with a read/write position.

  The struct does not own its bytes: \<open>data_\<close> points into memory that views created by
  \<open>ct_bytes_since\<close> share.  The model therefore passes the memory \<open>m\<close> explicitly and keeps \<open>data_\<close> as
  an address in it.  Operations that touch memory return \<^const>\<open>None\<close> when an access leaves \<open>m\<close>.
  \<open>int\<close> results are HOL integers; \<open>c_int\<close> is the conversion the code applies to a \<open>size_t\<close>.
\<close>

section \<open>State\<close>

record ct_bytes =
  b_data :: nat
  b_cap :: u32
  b_len :: u32
  b_pos :: u32
  b_endian :: ct_endian
  b_hlswap :: bool
  b_overflow :: bool

definition ct_bytes_readable :: "ct_bytes \<Rightarrow> size_t" where
  "ct_bytes_readable self = ucast (b_len self - b_pos self)"

definition ct_bytes_writable :: "ct_bytes \<Rightarrow> size_t" where
  "ct_bytes_writable self = ucast (b_cap self - b_pos self)"

definition ct_bytes_appendable :: "ct_bytes \<Rightarrow> size_t" where
  "ct_bytes_appendable self = ucast (b_cap self - b_len self)"

definition ct_bytes_rewind :: "ct_bytes \<Rightarrow> ct_bytes" where
  "ct_bytes_rewind self = self\<lparr>b_pos := 0\<rparr>"

definition ct_bytes_clear :: "ct_bytes \<Rightarrow> ct_bytes" where
  "ct_bytes_clear self = self\<lparr>b_len := 0, b_pos := 0, b_overflow := False\<rparr>"

definition ct_bytes_clear_error :: "ct_bytes \<Rightarrow> ct_bytes" where
  "ct_bytes_clear_error self = self\<lparr>b_overflow := False\<rparr>"

definition ct_bytes_set_endian :: "ct_bytes \<Rightarrow> ct_endian \<Rightarrow> ct_bytes" where
  "ct_bytes_set_endian self byte_order = self\<lparr>b_endian := byte_order\<rparr>"

definition ct_bytes_set_hlswap :: "ct_bytes \<Rightarrow> bool \<Rightarrow> ct_bytes" where
  "ct_bytes_set_hlswap self word_swap = self\<lparr>b_hlswap := word_swap\<rparr>"

definition ct_bytes_init :: "nat \<Rightarrow> size_t \<Rightarrow> ct_bytes" where
  "ct_bytes_init data cap =
     \<lparr>b_data = data, b_cap = ucast cap, b_len = 0, b_pos = 0, b_endian = CT_ENDIAN_BIG,
      b_hlswap = False, b_overflow = False\<rparr>"

definition ct_bytes_from :: "nat \<Rightarrow> size_t \<Rightarrow> size_t \<Rightarrow> ct_bytes" where
  "ct_bytes_from data cap len =
     (let final_cap = ucast cap; final_len = ucast len
      in \<lparr>b_data = data, b_cap = final_cap,
          b_len = (if final_len \<le> final_cap then final_len else final_cap), b_pos = 0,
          b_endian = CT_ENDIAN_BIG, b_hlswap = False, b_overflow = False\<rparr>)"

section \<open>Positioning\<close>

definition ct_bytes_seek :: "ct_bytes \<Rightarrow> size_t \<Rightarrow> int \<times> ct_bytes" where
  "ct_bytes_seek self offset =
     (if offset > ucast (b_len self) then (-1, self\<lparr>b_overflow := True\<rparr>)
      else (0, self\<lparr>b_pos := ucast offset\<rparr>))"

definition ct_bytes_reseek :: "ct_bytes \<Rightarrow> size_t \<Rightarrow> int \<times> ct_bytes" where
  "ct_bytes_reseek self offset =
     (if offset > ucast (b_len self) then (-1, self\<lparr>b_overflow := True\<rparr>)
      else (0, self\<lparr>b_pos := b_len self - ucast offset\<rparr>))"

text \<open>The fragment \<open>if (length > bound) { overflow_ = 1; length = bound; }\<close>.\<close>

definition clamp_length :: "ct_bytes \<Rightarrow> size_t \<Rightarrow> size_t \<Rightarrow> size_t \<times> ct_bytes" where
  "clamp_length self n bound =
     (if n > bound then (bound, self\<lparr>b_overflow := True\<rparr>) else (n, self))"

text \<open>The fragment \<open>pos_ += n; if (pos_ > len_) { len_ = pos_; }\<close>.\<close>

definition advance_extend :: "ct_bytes \<Rightarrow> u32 \<Rightarrow> ct_bytes" where
  "advance_extend self n =
     (let self = self\<lparr>b_pos := b_pos self + n\<rparr>
      in if b_pos self > b_len self then self\<lparr>b_len := b_pos self\<rparr> else self)"

definition ct_bytes_skip :: "ct_bytes \<Rightarrow> size_t \<Rightarrow> int \<times> ct_bytes" where
  "ct_bytes_skip self n =
     (let (n, self) = clamp_length self n (ct_bytes_readable self)
      in (c_int n, self\<lparr>b_pos := b_pos self + ucast n\<rparr>))"

definition ct_bytes_commit :: "ct_bytes \<Rightarrow> size_t \<Rightarrow> int \<times> ct_bytes" where
  "ct_bytes_commit self n =
     (let (n, self) = clamp_length self n (ct_bytes_writable self)
      in (c_int n, advance_extend self (ucast n)))"

definition ct_bytes_truncate :: "ct_bytes \<Rightarrow> size_t \<Rightarrow> ct_bytes" where
  "ct_bytes_truncate self new_len =
     (if new_len \<ge> ucast (b_len self) then self
      else let self = self\<lparr>b_len := ucast new_len\<rparr>
           in if b_pos self > b_len self then self\<lparr>b_pos := b_len self\<rparr> else self)"

text \<open>\<open>since\<close> is the struct the view is written to; it is left alone when the range is refused.\<close>

definition ct_bytes_since :: "ct_bytes \<Rightarrow> ct_bytes \<Rightarrow> size_t \<Rightarrow> size_t \<Rightarrow> int \<times> ct_bytes" where
  "ct_bytes_since self since start stop =
     (let stop = (if stop = 0 then ucast (b_len self) else stop)
      in if stop < start \<or> stop > ucast (b_cap self) then (-1, since)
         else (0, since\<lparr>b_data := b_data self + unat start, b_cap := b_cap self - ucast start,
                        b_len := ucast (stop - start), b_pos := 0, b_endian := b_endian self,
                        b_hlswap := b_hlswap self, b_overflow := False\<rparr>))"

definition ct_bytes_readable_since :: "ct_bytes \<Rightarrow> ct_bytes \<Rightarrow> int \<times> ct_bytes" where
  "ct_bytes_readable_since self since =
     ct_bytes_since self since (ucast (b_pos self)) (ucast (b_len self))"

definition ct_bytes_writable_since :: "ct_bytes \<Rightarrow> ct_bytes \<Rightarrow> int \<times> ct_bytes" where
  "ct_bytes_writable_since self since =
     ct_bytes_since self since (ucast (b_pos self)) (ucast (b_cap self))"

section \<open>Block operations\<close>

type_synonym 'r bytes_result = "('r \<times> u8 list \<times> ct_bytes) option"

definition ct_bytes_compact :: "u8 list \<Rightarrow> ct_bytes \<Rightarrow> unit bytes_result" where
  "ct_bytes_compact m self =
     (if b_pos self = 0 then Some ((), m, self)
      else if b_pos self \<ge> b_len self then Some ((), m, ct_bytes_clear self)
      else do {
        let readable = ct_bytes_readable self;
        bs \<leftarrow> mem_get m (b_data self + unat (b_pos self)) (unat readable);
        m \<leftarrow> mem_put m (b_data self) bs;
        Some ((), m, self\<lparr>b_len := ucast readable, b_pos := 0\<rparr>) })"

text \<open>\<open>memchr\<close>: the index of the first occurrence of a byte.\<close>

fun memchr_index :: "u8 list \<Rightarrow> u8 \<Rightarrow> nat option" where
  "memchr_index [] bt = None"
| "memchr_index (b # bs) bt = (if b = bt then Some 0 else map_option Suc (memchr_index bs bt))"

definition ct_bytes_find :: "u8 list \<Rightarrow> ct_bytes \<Rightarrow> u8 \<Rightarrow> size_t \<Rightarrow> int option" where
  "ct_bytes_find m self bt offset =
     (if offset \<ge> ucast (b_len self - b_pos self) then Some (-1)
      else do {
        let start = ucast (b_pos self) + offset;
        bs \<leftarrow> mem_get m (b_data self + unat start) (unat (ucast (b_len self - b_pos self) - offset));
        Some (case memchr_index bs bt of
                None \<Rightarrow> -1
              | Some k \<Rightarrow> c_int (start + of_nat k) - c_int (ucast (b_pos self) + offset)) })"

definition ct_bytes_fill :: "u8 list \<Rightarrow> ct_bytes \<Rightarrow> u8 \<Rightarrow> size_t \<Rightarrow> int bytes_result" where
  "ct_bytes_fill m self bt n =
     (let (n, self) = clamp_length self n (ct_bytes_writable self)
      in if n = 0 then Some (0, m, self)
         else do {
           m \<leftarrow> mem_put m (b_data self + unat (b_pos self)) (replicate (unat n) bt);
           Some (c_int n, m, advance_extend self (ucast n)) })"

definition ct_bytes_overfill :: "u8 list \<Rightarrow> ct_bytes \<Rightarrow> u8 \<Rightarrow> size_t \<Rightarrow> int bytes_result" where
  "ct_bytes_overfill m self bt n =
     (let (n, self) = clamp_length self n (ucast (b_cap self))
      in if n = 0 then Some (0, m, self)
         else do {
           m \<leftarrow> mem_put m (b_data self) (replicate (unat n) bt);
           Some (c_int n, m, self) })"

text \<open>
  Reads into a caller's buffer return the bytes stored there (\<open>p = False\<close> is a \<open>NULL\<close>
  destination); writes from one take its contents (\<^const>\<open>None\<close> is \<open>NULL\<close>).
\<close>

definition ct_bytes_get_bytes ::
  "u8 list \<Rightarrow> ct_bytes \<Rightarrow> size_t \<Rightarrow> bool \<Rightarrow> size_t \<Rightarrow> (int \<times> u8 list) option" where
  "ct_bytes_get_bytes m self offset p n =
     (if n = 0 then Some (0, [])
      else if offset \<ge> ucast (b_len self) then Some (0, [])
      else let n = (if n > ucast (b_len self) - offset then ucast (b_len self) - offset
                         else n)
           in if \<not> p \<or> n = 0 then Some (0, [])
              else do {
                bs \<leftarrow> mem_get m (b_data self + unat offset) (unat n);
                Some (c_int n, bs) })"

definition ct_bytes_set_bytes ::
  "u8 list \<Rightarrow> ct_bytes \<Rightarrow> size_t \<Rightarrow> u8 list option \<Rightarrow> size_t \<Rightarrow> int bytes_result" where
  "ct_bytes_set_bytes m self offset p n =
     (if offset > ucast (b_len self) \<or> n > ucast (b_len self) - offset
      then Some (-1, m, self\<lparr>b_overflow := True\<rparr>)
      else case p of
        None \<Rightarrow> Some (0, m, self)
      | Some src \<Rightarrow>
          if n = 0 then Some (0, m, self)
          else do {
            bs \<leftarrow> mem_get src 0 (unat n);
            m \<leftarrow> mem_put m (b_data self + unat offset) bs;
            Some (0, m, self) })"

text \<open>\<open>abs_pos\<close> is computed in \<open>int64_t\<close> from a 32-bit position and an \<open>int\<close> offset, so it is exact.\<close>

definition abs_pos :: "ct_bytes \<Rightarrow> int \<Rightarrow> int" where
  "abs_pos self offset = int (unat (b_pos self)) + offset"

definition ct_bytes_peek_bytes ::
  "u8 list \<Rightarrow> ct_bytes \<Rightarrow> int \<Rightarrow> bool \<Rightarrow> size_t \<Rightarrow> (int \<times> u8 list) option" where
  "ct_bytes_peek_bytes m self offset p n =
     (let a = abs_pos self offset; len = int (unat (b_len self))
      in if n = 0 then Some (0, [])
         else if a < 0 \<or> a \<ge> len then Some (0, [])
         else let n = (if n > word_of_int (len - a) then word_of_int (len - a) else n)
              in if \<not> p \<or> n = 0 then Some (0, [])
                 else do {
                   bs \<leftarrow> mem_get m (b_data self + nat a) (unat n);
                   Some (c_int n, bs) })"

definition ct_bytes_poke_bytes ::
  "u8 list \<Rightarrow> ct_bytes \<Rightarrow> int \<Rightarrow> u8 list option \<Rightarrow> size_t \<Rightarrow> int bytes_result" where
  "ct_bytes_poke_bytes m self offset p n =
     (let a = abs_pos self offset; len = int (unat (b_len self))
      in if a < 0 \<or> a > len \<or> n > word_of_int (len - a)
         then Some (-1, m, self\<lparr>b_overflow := True\<rparr>)
         else case p of
           None \<Rightarrow> Some (0, m, self)
         | Some src \<Rightarrow>
             if n = 0 then Some (0, m, self)
             else do {
               bs \<leftarrow> mem_get src 0 (unat n);
               m \<leftarrow> mem_put m (b_data self + nat a) bs;
               Some (0, m, self) })"

definition ct_bytes_take_bytes ::
  "u8 list \<Rightarrow> ct_bytes \<Rightarrow> bool \<Rightarrow> size_t \<Rightarrow> ((int \<times> u8 list) \<times> ct_bytes) option" where
  "ct_bytes_take_bytes m self p n =
     (let (n, self) = clamp_length self n (ct_bytes_readable self)
      in if \<not> p \<or> n = 0 then Some ((0, []), self)
         else do {
           bs \<leftarrow> mem_get m (b_data self + unat (b_pos self)) (unat n);
           Some ((c_int n, bs), self\<lparr>b_pos := b_pos self + ucast n\<rparr>) })"

definition ct_bytes_put_bytes ::
  "u8 list \<Rightarrow> ct_bytes \<Rightarrow> u8 list option \<Rightarrow> size_t \<Rightarrow> int bytes_result" where
  "ct_bytes_put_bytes m self p n =
     (let (n, self) = clamp_length self n (ct_bytes_writable self)
      in case p of
           None \<Rightarrow> Some (0, m, self)
         | Some src \<Rightarrow>
             if n = 0 then Some (0, m, self)
             else do {
               bs \<leftarrow> mem_get src 0 (unat n);
               m \<leftarrow> mem_put m (b_data self + unat (b_pos self)) bs;
               Some (c_int n, m, advance_extend self (ucast n)) })"

section \<open>Integer accessors\<close>

text \<open>
  The byte-order and word-swap conversion each accessor of one width repeats: the same expression
  converts a host value to the stored value and back.
\<close>

definition conv16 :: "ct_endian \<Rightarrow> ct_bytes \<Rightarrow> u16 \<Rightarrow> u16" where
  "conv16 sys self v = (if b_endian self \<noteq> sys then ct_binary_bswap16 v else v)"

definition conv32 :: "ct_endian \<Rightarrow> ct_bytes \<Rightarrow> u32 \<Rightarrow> u32" where
  "conv32 sys self v =
     (if b_endian self = sys then
        (if b_hlswap self then ct_binary_bswap16_lanes32 v else v)
      else if b_hlswap self then ct_binary_reverse16_lanes32 v
      else ct_binary_bswap32 v)"

definition conv64 :: "ct_endian \<Rightarrow> ct_bytes \<Rightarrow> u64 \<Rightarrow> u64" where
  "conv64 sys self v =
     (if b_endian self = sys then
        (if b_hlswap self then ct_binary_bswap16_lanes64 v else v)
      else if b_hlswap self then ct_binary_reverse16_lanes64 v
      else ct_binary_bswap64 v)"

definition ct_bytes_put_u8 :: "u8 list \<Rightarrow> ct_bytes \<Rightarrow> u8 \<Rightarrow> unit bytes_result" where
  "ct_bytes_put_u8 m self v =
     (if ct_bytes_writable self < 1 then Some ((), m, self\<lparr>b_overflow := True\<rparr>)
      else do {
        m \<leftarrow> mem_put m (b_data self + unat (b_pos self)) [v];
        Some ((), m, advance_extend self 1) })"

definition ct_bytes_put_u16 :: "ct_endian \<Rightarrow> u8 list \<Rightarrow> ct_bytes \<Rightarrow> u16 \<Rightarrow> unit bytes_result" where
  "ct_bytes_put_u16 sys m self v =
     (if ct_bytes_writable self < 2 then Some ((), m, self\<lparr>b_overflow := True\<rparr>)
      else do {
        m \<leftarrow> mem_put m (b_data self + unat (b_pos self)) (native_bytes sys (conv16 sys self v));
        Some ((), m, advance_extend self 2) })"

definition ct_bytes_put_u32 :: "ct_endian \<Rightarrow> u8 list \<Rightarrow> ct_bytes \<Rightarrow> u32 \<Rightarrow> unit bytes_result" where
  "ct_bytes_put_u32 sys m self v =
     (if ct_bytes_writable self < 4 then Some ((), m, self\<lparr>b_overflow := True\<rparr>)
      else do {
        m \<leftarrow> mem_put m (b_data self + unat (b_pos self)) (native_bytes sys (conv32 sys self v));
        Some ((), m, advance_extend self 4) })"

definition ct_bytes_put_u64 :: "ct_endian \<Rightarrow> u8 list \<Rightarrow> ct_bytes \<Rightarrow> u64 \<Rightarrow> unit bytes_result" where
  "ct_bytes_put_u64 sys m self v =
     (if ct_bytes_writable self < 8 then Some ((), m, self\<lparr>b_overflow := True\<rparr>)
      else do {
        m \<leftarrow> mem_put m (b_data self + unat (b_pos self)) (native_bytes sys (conv64 sys self v));
        Some ((), m, advance_extend self 8) })"

text \<open>The takes return the value and the struct; memory is not written.\<close>

definition ct_bytes_take_u8 :: "u8 list \<Rightarrow> ct_bytes \<Rightarrow> (u8 \<times> ct_bytes) option" where
  "ct_bytes_take_u8 m self =
     (if ct_bytes_readable self < 1 then Some (0, self\<lparr>b_overflow := True\<rparr>)
      else do {
        bs \<leftarrow> mem_get m (b_data self + unat (b_pos self)) 1;
        Some (bs ! 0, self\<lparr>b_pos := b_pos self + 1\<rparr>) })"

definition ct_bytes_take_u16 :: "ct_endian \<Rightarrow> u8 list \<Rightarrow> ct_bytes \<Rightarrow> (u16 \<times> ct_bytes) option" where
  "ct_bytes_take_u16 sys m self =
     (if ct_bytes_readable self < 2 then Some (0, self\<lparr>b_overflow := True\<rparr>)
      else do {
        bs \<leftarrow> mem_get m (b_data self + unat (b_pos self)) 2;
        Some (conv16 sys self (native_word sys bs), self\<lparr>b_pos := b_pos self + 2\<rparr>) })"

definition ct_bytes_take_u32 :: "ct_endian \<Rightarrow> u8 list \<Rightarrow> ct_bytes \<Rightarrow> (u32 \<times> ct_bytes) option" where
  "ct_bytes_take_u32 sys m self =
     (if ct_bytes_readable self < 4 then Some (0, self\<lparr>b_overflow := True\<rparr>)
      else do {
        bs \<leftarrow> mem_get m (b_data self + unat (b_pos self)) 4;
        Some (conv32 sys self (native_word sys bs), self\<lparr>b_pos := b_pos self + 4\<rparr>) })"

definition ct_bytes_take_u64 :: "ct_endian \<Rightarrow> u8 list \<Rightarrow> ct_bytes \<Rightarrow> (u64 \<times> ct_bytes) option" where
  "ct_bytes_take_u64 sys m self =
     (if ct_bytes_readable self < 8 then Some (0, self\<lparr>b_overflow := True\<rparr>)
      else do {
        bs \<leftarrow> mem_get m (b_data self + unat (b_pos self)) 8;
        Some (conv64 sys self (native_word sys bs), self\<lparr>b_pos := b_pos self + 8\<rparr>) })"

definition ct_bytes_peek_u8 :: "u8 list \<Rightarrow> ct_bytes \<Rightarrow> int \<Rightarrow> u8 option" where
  "ct_bytes_peek_u8 m self offset =
     (let a = abs_pos self offset; len = int (unat (b_len self))
      in if a < 0 \<or> a \<ge> len then Some 0
         else do { bs \<leftarrow> mem_get m (b_data self + nat a) 1; Some (bs ! 0) })"

definition ct_bytes_peek_u16 :: "ct_endian \<Rightarrow> u8 list \<Rightarrow> ct_bytes \<Rightarrow> int \<Rightarrow> u16 option" where
  "ct_bytes_peek_u16 sys m self offset =
     (let a = abs_pos self offset; len = int (unat (b_len self))
      in if a < 0 \<or> a > len \<or> len - a < 2 then Some 0
         else do {
           bs \<leftarrow> mem_get m (b_data self + nat a) 2;
           Some (conv16 sys self (native_word sys bs)) })"

definition ct_bytes_peek_u32 :: "ct_endian \<Rightarrow> u8 list \<Rightarrow> ct_bytes \<Rightarrow> int \<Rightarrow> u32 option" where
  "ct_bytes_peek_u32 sys m self offset =
     (let a = abs_pos self offset; len = int (unat (b_len self))
      in if a < 0 \<or> a > len \<or> len - a < 4 then Some 0
         else do {
           bs \<leftarrow> mem_get m (b_data self + nat a) 4;
           Some (conv32 sys self (native_word sys bs)) })"

definition ct_bytes_peek_u64 :: "ct_endian \<Rightarrow> u8 list \<Rightarrow> ct_bytes \<Rightarrow> int \<Rightarrow> u64 option" where
  "ct_bytes_peek_u64 sys m self offset =
     (let a = abs_pos self offset; len = int (unat (b_len self))
      in if a < 0 \<or> a > len \<or> len - a < 8 then Some 0
         else do {
           bs \<leftarrow> mem_get m (b_data self + nat a) 8;
           Some (conv64 sys self (native_word sys bs)) })"

definition ct_bytes_get_u8 :: "u8 list \<Rightarrow> ct_bytes \<Rightarrow> size_t \<Rightarrow> u8 option" where
  "ct_bytes_get_u8 m self offset =
     (if offset \<ge> ucast (b_len self) \<or> ucast (b_len self) - offset < 1 then Some 0
      else do { bs \<leftarrow> mem_get m (b_data self + unat offset) 1; Some (bs ! 0) })"

definition ct_bytes_get_u16 :: "ct_endian \<Rightarrow> u8 list \<Rightarrow> ct_bytes \<Rightarrow> size_t \<Rightarrow> u16 option" where
  "ct_bytes_get_u16 sys m self offset =
     (if offset \<ge> ucast (b_len self) \<or> ucast (b_len self) - offset < 2 then Some 0
      else do {
        bs \<leftarrow> mem_get m (b_data self + unat offset) 2;
        Some (conv16 sys self (native_word sys bs)) })"

definition ct_bytes_get_u32 :: "ct_endian \<Rightarrow> u8 list \<Rightarrow> ct_bytes \<Rightarrow> size_t \<Rightarrow> u32 option" where
  "ct_bytes_get_u32 sys m self offset =
     (if offset \<ge> ucast (b_len self) \<or> ucast (b_len self) - offset < 4 then Some 0
      else do {
        bs \<leftarrow> mem_get m (b_data self + unat offset) 4;
        Some (conv32 sys self (native_word sys bs)) })"

definition ct_bytes_get_u64 :: "ct_endian \<Rightarrow> u8 list \<Rightarrow> ct_bytes \<Rightarrow> size_t \<Rightarrow> u64 option" where
  "ct_bytes_get_u64 sys m self offset =
     (if offset \<ge> ucast (b_len self) \<or> ucast (b_len self) - offset < 8 then Some 0
      else do {
        bs \<leftarrow> mem_get m (b_data self + unat offset) 8;
        Some (conv64 sys self (native_word sys bs)) })"

definition ct_bytes_set_u8 :: "u8 list \<Rightarrow> ct_bytes \<Rightarrow> size_t \<Rightarrow> u8 \<Rightarrow> int bytes_result" where
  "ct_bytes_set_u8 m self offset v =
     (if offset \<ge> ucast (b_len self) \<or> ucast (b_len self) - offset < 1
      then Some (-1, m, self\<lparr>b_overflow := True\<rparr>)
      else do { m \<leftarrow> mem_put m (b_data self + unat offset) [v]; Some (0, m, self) })"

definition ct_bytes_set_u16 ::
  "ct_endian \<Rightarrow> u8 list \<Rightarrow> ct_bytes \<Rightarrow> size_t \<Rightarrow> u16 \<Rightarrow> int bytes_result" where
  "ct_bytes_set_u16 sys m self offset v =
     (if offset \<ge> ucast (b_len self) \<or> ucast (b_len self) - offset < 2
      then Some (-1, m, self\<lparr>b_overflow := True\<rparr>)
      else do {
        m \<leftarrow> mem_put m (b_data self + unat offset) (native_bytes sys (conv16 sys self v));
        Some (0, m, self) })"

definition ct_bytes_set_u32 ::
  "ct_endian \<Rightarrow> u8 list \<Rightarrow> ct_bytes \<Rightarrow> size_t \<Rightarrow> u32 \<Rightarrow> int bytes_result" where
  "ct_bytes_set_u32 sys m self offset v =
     (if offset \<ge> ucast (b_len self) \<or> ucast (b_len self) - offset < 4
      then Some (-1, m, self\<lparr>b_overflow := True\<rparr>)
      else do {
        m \<leftarrow> mem_put m (b_data self + unat offset) (native_bytes sys (conv32 sys self v));
        Some (0, m, self) })"

definition ct_bytes_set_u64 ::
  "ct_endian \<Rightarrow> u8 list \<Rightarrow> ct_bytes \<Rightarrow> size_t \<Rightarrow> u64 \<Rightarrow> int bytes_result" where
  "ct_bytes_set_u64 sys m self offset v =
     (if offset \<ge> ucast (b_len self) \<or> ucast (b_len self) - offset < 8
      then Some (-1, m, self\<lparr>b_overflow := True\<rparr>)
      else do {
        m \<leftarrow> mem_put m (b_data self + unat offset) (native_bytes sys (conv64 sys self v));
        Some (0, m, self) })"

section \<open>Invariant and frame\<close>

text \<open>
  The struct is well formed when its storage lies inside the memory and
  \<open>pos_ \<le> len_ \<le> cap_\<close>.  \<open>bytes_frame\<close> says what an operation may change: the storage stays the
  same region, and every byte outside it keeps its value.
\<close>

definition bytes_ok :: "u8 list \<Rightarrow> ct_bytes \<Rightarrow> bool" where
  "bytes_ok m s \<longleftrightarrow> b_data s + unat (b_cap s) \<le> length m \<and> b_len s \<le> b_cap s \<and> b_pos s \<le> b_len s"

definition bytes_frame :: "u8 list \<Rightarrow> ct_bytes \<Rightarrow> u8 list \<Rightarrow> ct_bytes \<Rightarrow> bool" where
  "bytes_frame m s m' s' \<longleftrightarrow>
     b_data s' = b_data s \<and> b_cap s' = b_cap s \<and> length m' = length m \<and>
     take (b_data s) m' = take (b_data s) m \<and>
     drop (b_data s + unat (b_cap s)) m' = drop (b_data s + unat (b_cap s)) m"

definition bytes_safe :: "u8 list \<Rightarrow> ct_bytes \<Rightarrow> 'r bytes_result \<Rightarrow> bool" where
  "bytes_safe m s r \<longleftrightarrow> (\<exists>v m' s'. r = Some (v, m', s') \<and> bytes_ok m' s' \<and> bytes_frame m s m' s')"

text \<open>The valid bytes, and what the position has passed of them.\<close>

definition bytes_content :: "u8 list \<Rightarrow> ct_bytes \<Rightarrow> u8 list" where
  "bytes_content m s = take (unat (b_len s)) (drop (b_data s) m)"

lemma bytes_ok_nat:
  "bytes_ok m s \<longleftrightarrow> b_data s + unat (b_cap s) \<le> length m \<and> unat (b_len s) \<le> unat (b_cap s) \<and>
     unat (b_pos s) \<le> unat (b_len s)"
  by (simp add: bytes_ok_def unat_facts)

lemma bytes_okE:
  assumes "bytes_ok m s"
  obtains "b_data s + unat (b_cap s) \<le> length m" "unat (b_len s) \<le> unat (b_cap s)"
    "unat (b_pos s) \<le> unat (b_len s)" "unat (b_cap s) < 4294967296"
  using assms unat_u32_bound [of "b_cap s"] by (auto simp: bytes_ok_nat)

lemma readable_nat:
  "bytes_ok m s \<Longrightarrow> unat (ct_bytes_readable s) = unat (b_len s) - unat (b_pos s)"
  by (elim bytes_okE) (simp add: ct_bytes_readable_def unat_facts)

lemma writable_nat:
  "bytes_ok m s \<Longrightarrow> unat (ct_bytes_writable s) = unat (b_cap s) - unat (b_pos s)"
  by (elim bytes_okE) (simp add: ct_bytes_writable_def unat_facts)

lemma ucast_nat:
  "unat (n :: size_t) \<le> unat (c :: u32) \<Longrightarrow> unat (ucast n :: u32) = unat n"
  using unat_u32_bound [of c] by (intro unat_ucast_down) simp

lemma bytes_frame_refl: "b_data s' = b_data s \<Longrightarrow> b_cap s' = b_cap s \<Longrightarrow> bytes_frame m s m s'"
  by (simp add: bytes_frame_def)

lemma bytes_frame_trans:
  "bytes_frame m s m' s' \<Longrightarrow> bytes_frame m' s' m'' s'' \<Longrightarrow> bytes_frame m s m'' s''"
  by (simp add: bytes_frame_def)

text \<open>Storing inside the storage is defined and keeps the frame.\<close>

lemma bytes_store:
  assumes ok: "bytes_ok m s" and fits: "off + length xs \<le> unat (b_cap s)"
  obtains m' where "mem_put m (b_data s + off) xs = Some m'"
    "m' = take (b_data s + off) m @ xs @ drop (b_data s + off + length xs) m"
    "length m' = length m" "take (b_data s) m' = take (b_data s) m"
    "drop (b_data s + unat (b_cap s)) m' = drop (b_data s + unat (b_cap s)) m"
proof (rule that)
  let ?m' = "take (b_data s + off) m @ xs @ drop (b_data s + off + length xs) m"
  have le: "b_data s + unat (b_cap s) \<le> length m" using ok by (simp add: bytes_ok_nat)
  then show "mem_put m (b_data s + off) xs = Some ?m'"
    using fits by (intro mem_put_ok) simp
  show "length ?m' = length m" using le fits by simp
  show "take (b_data s) ?m' = take (b_data s) m" using le fits by simp
  show "drop (b_data s + unat (b_cap s)) ?m' = drop (b_data s + unat (b_cap s)) m"
    using le fits by (intro mem_put_drop) simp_all
qed simp

lemma bytes_load:
  assumes ok: "bytes_ok m s" and fits: "off + n \<le> unat (b_cap s)"
  shows "mem_get m (b_data s + off) n = Some (take n (drop (b_data s + off) m))"
  using assms by (intro mem_get_ok) (simp add: bytes_ok_nat)

lemma clamp_length_eq:
  "clamp_length s n bound = (min n bound, s\<lparr>b_overflow := b_overflow s \<or> bound < n\<rparr>)"
  by (auto simp: clamp_length_def min_def)

lemma unat_min [unat_facts]: "unat (min a b) = min (unat a) (unat (b :: 'a::len word))"
  by (simp add: min_def unat_facts)

lemma bytes_ok_overflow [simp]: "bytes_ok m (s\<lparr>b_overflow := f\<rparr>) \<longleftrightarrow> bytes_ok m s"
  by (simp add: bytes_ok_def)

lemma bytes_frame_overflow [simp]:
  "bytes_frame m (s\<lparr>b_overflow := f\<rparr>) m' s' \<longleftrightarrow> bytes_frame m s m' s'"
  by (simp add: bytes_frame_def)

lemma advance_extend_ok:
  assumes ok: "bytes_ok m s" and fits: "unat (b_pos s) + unat n \<le> unat (b_cap s)"
  shows "bytes_ok m (advance_extend s n)" "b_data (advance_extend s n) = b_data s"
    "b_cap (advance_extend s n) = b_cap s"
    "unat (b_pos (advance_extend s n)) = unat (b_pos s) + unat n"
    "unat (b_len (advance_extend s n)) = max (unat (b_len s)) (unat (b_pos s) + unat n)"
proof -
  have "unat (b_pos s + n) = unat (b_pos s) + unat n"
    using ok fits by (elim bytes_okE) (intro unat_plus_lt, simp)
  then show "bytes_ok m (advance_extend s n)" "b_data (advance_extend s n) = b_data s"
    "b_cap (advance_extend s n) = b_cap s"
    "unat (b_pos (advance_extend s n)) = unat (b_pos s) + unat n"
    "unat (b_len (advance_extend s n)) = max (unat (b_len s)) (unat (b_pos s) + unat n)"
    using ok fits by (auto simp: advance_extend_def Let_def bytes_ok_nat unat_facts)
qed

lemma bytes_ok_memory: "bytes_ok m s \<Longrightarrow> length m' = length m \<Longrightarrow> bytes_ok m' s"
  by (simp add: bytes_ok_def)

text \<open>An operation that stores once and then updates the struct.\<close>

lemma bytes_store_safe:
  assumes ok: "bytes_ok m s" and fits: "off + length xs \<le> unat (b_cap s)"
    and s': "bytes_ok m s'" "b_data s' = b_data s" "b_cap s' = b_cap s"
  shows "bytes_safe m s (mem_put m (b_data s + off) xs \<bind> (\<lambda>m'. Some (v, m', s')))"
proof -
  obtain m' where m': "mem_put m (b_data s + off) xs = Some m'" "length m' = length m"
    "take (b_data s) m' = take (b_data s) m"
    "drop (b_data s + unat (b_cap s)) m' = drop (b_data s + unat (b_cap s)) m"
    using bytes_store [OF ok fits] by metis
  with s' show ?thesis
    by (auto simp: bytes_safe_def bytes_frame_def intro: bytes_ok_memory)
qed

lemma bytes_struct_safe:
  "bytes_ok m s' \<Longrightarrow> b_data s' = b_data s \<Longrightarrow> b_cap s' = b_cap s \<Longrightarrow> bytes_safe m s (Some (v, m, s'))"
  by (simp add: bytes_safe_def bytes_frame_refl)

lemma bytes_safe_overflow [simp]:
  "bytes_safe m (s\<lparr>b_overflow := f\<rparr>) r \<longleftrightarrow> bytes_safe m s r"
  by (simp add: bytes_safe_def)

section \<open>Every operation is safe\<close>

named_theorems bytes_safe_intros

lemma seek_safe [bytes_safe_intros]:
  "bytes_ok m s \<Longrightarrow> bytes_safe m s (Some (fst (ct_bytes_seek s off), m, snd (ct_bytes_seek s off)))"
  by (rule bytes_struct_safe)
    (auto simp: ct_bytes_seek_def bytes_ok_nat unat_facts ucast_nat [where c = "b_len s"])

lemma reseek_safe [bytes_safe_intros]:
  "bytes_ok m s \<Longrightarrow> bytes_safe m s (Some (fst (ct_bytes_reseek s off), m, snd (ct_bytes_reseek s off)))"
  by (rule bytes_struct_safe)
    (auto simp: ct_bytes_reseek_def bytes_ok_nat unat_facts ucast_nat [where c = "b_len s"])

lemma advance_pos_ok:
  assumes ok: "bytes_ok m s" and fits: "unat (b_pos s) + unat n \<le> unat (b_len s)"
  shows "bytes_ok m (s\<lparr>b_pos := b_pos s + n\<rparr>)"
proof -
  have "unat (b_pos s + n) = unat (b_pos s) + unat n"
    using ok fits by (elim bytes_okE) (intro unat_plus_lt, simp)
  with ok fits show ?thesis by (simp add: bytes_ok_nat)
qed

lemma skip_safe [bytes_safe_intros]:
  assumes ok: "bytes_ok m s"
  shows "bytes_safe m s (Some (fst (ct_bytes_skip s n), m, snd (ct_bytes_skip s n)))"
proof -
  let ?k = "min n (ct_bytes_readable s)"
  have le: "unat ?k + unat (b_pos s) \<le> unat (b_len s)"
    using ok by (elim bytes_okE) (simp add: unat_min readable_nat [OF ok])
  then have "unat (ucast ?k :: u32) = unat ?k" by (intro ucast_nat [where c = "b_len s"]) simp
  with le ok have "bytes_ok m (s\<lparr>b_pos := b_pos s + ucast ?k\<rparr>)"
    by (intro advance_pos_ok) simp_all
  then show ?thesis
    by (intro bytes_struct_safe) (simp_all add: ct_bytes_skip_def clamp_length_eq bytes_ok_def)
qed

lemma commit_safe [bytes_safe_intros]:
  assumes ok: "bytes_ok m s"
  shows "bytes_safe m s (Some (fst (ct_bytes_commit s n), m, snd (ct_bytes_commit s n)))"
proof -
  let ?k = "min n (ct_bytes_writable s)"
  let ?s = "s\<lparr>b_overflow := b_overflow s \<or> ct_bytes_writable s < n\<rparr>"
  have le: "unat ?k + unat (b_pos s) \<le> unat (b_cap s)"
    using ok by (elim bytes_okE) (simp add: unat_min writable_nat [OF ok])
  then have k: "unat (ucast ?k :: u32) = unat ?k" by (intro ucast_nat [where c = "b_cap s"]) simp
  have "bytes_ok m ?s" using ok by simp
  moreover have "unat (b_pos ?s) + unat (ucast ?k :: u32) \<le> unat (b_cap ?s)" using le k by simp
  ultimately show ?thesis
    by (intro bytes_struct_safe)
      (simp_all add: ct_bytes_commit_def clamp_length_eq Let_def advance_extend_ok)
qed

lemma truncate_safe [bytes_safe_intros]:
  "bytes_ok m s \<Longrightarrow> bytes_safe m s (Some ((), m, ct_bytes_truncate s n))"
  by (rule bytes_struct_safe)
    (auto simp: ct_bytes_truncate_def Let_def bytes_ok_nat unat_facts ucast_nat [where c = "b_len s"])

lemma compact_safe [bytes_safe_intros]:
  assumes ok: "bytes_ok m s"
  shows "bytes_safe m s (ct_bytes_compact m s)"
proof -
  let ?r = "ct_bytes_readable s"
  have fits: "unat (b_pos s) + unat ?r \<le> unat (b_cap s)" and r: "unat ?r \<le> unat (b_cap s)"
    using ok by (elim bytes_okE; simp add: readable_nat [OF ok])+
  have load: "mem_get m (b_data s + unat (b_pos s)) (unat ?r) =
      Some (take (unat ?r) (drop (b_data s + unat (b_pos s)) m))"
    by (rule bytes_load [OF ok fits])
  have len: "length (take (unat ?r) (drop (b_data s + unat (b_pos s)) m)) = unat ?r"
    using fits ok by (elim bytes_okE) simp
  have ok': "bytes_ok m (s\<lparr>b_len := ucast ?r, b_pos := 0\<rparr>)"
    using ok r by (simp add: bytes_ok_nat ucast_nat [where c = "b_cap s"])
  have "bytes_safe m s (mem_put m (b_data s + 0) (take (unat ?r) (drop (b_data s + unat (b_pos s)) m)) \<bind>
      (\<lambda>m'. Some ((), m', s\<lparr>b_len := ucast ?r, b_pos := 0\<rparr>)))"
    by (rule bytes_store_safe [OF ok _ ok']) (simp_all only: len r add_0, simp_all)
  moreover have "bytes_safe m s (Some ((), m, ct_bytes_clear s))"
    using ok by (intro bytes_struct_safe) (auto simp: ct_bytes_clear_def bytes_ok_nat)
  ultimately show ?thesis
    using ok by (auto simp: ct_bytes_compact_def load Let_def bytes_struct_safe)
qed

text \<open>Storing at the position, then moving it past what was stored.\<close>

lemma store_advance_safe:
  assumes ok: "bytes_ok m s" and fits: "unat (b_pos s) + length xs \<le> unat (b_cap s)"
    and k: "unat k = length xs"
  shows "bytes_safe m s (mem_put m (b_data s + unat (b_pos s)) xs \<bind> (\<lambda>m'. Some (v, m', advance_extend s k)))"
  using fits by (intro bytes_store_safe [OF ok fits]) (simp_all add: advance_extend_ok [OF ok] k)

lemma clamp_writable:
  assumes "bytes_ok m s"
  shows "unat (b_pos s) + unat (min n (ct_bytes_writable s)) \<le> unat (b_cap s)"
    "unat (ucast (min n (ct_bytes_writable s)) :: u32) = unat (min n (ct_bytes_writable s))"
proof -
  show "unat (b_pos s) + unat (min n (ct_bytes_writable s)) \<le> unat (b_cap s)"
    using assms by (elim bytes_okE) (simp add: unat_min writable_nat [OF assms])
  then show "unat (ucast (min n (ct_bytes_writable s)) :: u32) = unat (min n (ct_bytes_writable s))"
    by (intro ucast_nat [where c = "b_cap s"]) simp
qed

lemma clamp_readable:
  assumes "bytes_ok m s"
  shows "unat (b_pos s) + unat (min n (ct_bytes_readable s)) \<le> unat (b_len s)"
    "unat (ucast (min n (ct_bytes_readable s)) :: u32) = unat (min n (ct_bytes_readable s))"
proof -
  show "unat (b_pos s) + unat (min n (ct_bytes_readable s)) \<le> unat (b_len s)"
    using assms by (elim bytes_okE) (simp add: unat_min readable_nat [OF assms])
  then show "unat (ucast (min n (ct_bytes_readable s)) :: u32) = unat (min n (ct_bytes_readable s))"
    by (intro ucast_nat [where c = "b_len s"]) simp
qed

lemma fill_safe [bytes_safe_intros]:
  assumes ok: "bytes_ok m s"
  shows "bytes_safe m s (ct_bytes_fill m s bt n)"
proof -
  let ?k = "min n (ct_bytes_writable s)"
  let ?s = "s\<lparr>b_overflow := b_overflow s \<or> ct_bytes_writable s < n\<rparr>"
  have "bytes_safe m ?s (mem_put m (b_data ?s + unat (b_pos ?s)) (replicate (unat ?k) bt) \<bind>
      (\<lambda>m'. Some (c_int ?k, m', advance_extend ?s (ucast ?k))))"
    using ok clamp_writable [OF ok, of n] by (intro store_advance_safe) simp_all
  moreover have "bytes_safe m s (Some (0 :: int, m, ?s))" using ok by (intro bytes_struct_safe) simp_all
  ultimately show ?thesis by (simp add: ct_bytes_fill_def clamp_length_eq)
qed

lemma overfill_safe [bytes_safe_intros]:
  assumes ok: "bytes_ok m s"
  shows "bytes_safe m s (ct_bytes_overfill m s bt n)"
proof -
  let ?k = "min n (ucast (b_cap s))"
  let ?s = "s\<lparr>b_overflow := b_overflow s \<or> ucast (b_cap s) < n\<rparr>"
  have "bytes_safe m s (mem_put m (b_data s + 0) (replicate (unat ?k) bt) \<bind>
      (\<lambda>m'. Some (c_int ?k, m', ?s)))"
    using ok by (intro bytes_store_safe) (simp_all add: unat_min)
  moreover have "bytes_safe m s (Some (0 :: int, m, ?s))" using ok by (intro bytes_struct_safe) simp_all
  ultimately show ?thesis by (simp add: ct_bytes_overfill_def clamp_length_eq)
qed

text \<open>A caller's source buffer holds at least the number of bytes it is passed with.\<close>

definition source_ok :: "u8 list option \<Rightarrow> size_t \<Rightarrow> bool" where
  "source_ok p n = (case p of None \<Rightarrow> True | Some src \<Rightarrow> unat n \<le> length src)"

lemma put_bytes_safe [bytes_safe_intros]:
  assumes ok: "bytes_ok m s" and src: "source_ok p n"
  shows "bytes_safe m s (ct_bytes_put_bytes m s p n)"
proof -
  let ?k = "min n (ct_bytes_writable s)"
  let ?s = "s\<lparr>b_overflow := b_overflow s \<or> ct_bytes_writable s < n\<rparr>"
  have nul: "bytes_safe m s (Some (0 :: int, m, ?s))" using ok by (intro bytes_struct_safe) simp_all
  show ?thesis
  proof (cases p)
    case None
    with nul show ?thesis by (simp add: ct_bytes_put_bytes_def clamp_length_eq)
  next
    case (Some xs)
    have k: "unat ?k \<le> length xs" using src Some by (simp add: source_ok_def unat_min)
    have "bytes_safe m ?s (mem_put m (b_data ?s + unat (b_pos ?s)) (take (unat ?k) xs) \<bind>
        (\<lambda>m'. Some (c_int ?k, m', advance_extend ?s (ucast ?k))))"
      using ok clamp_writable [OF ok, of n] k by (intro store_advance_safe) (simp_all add: min_absorb2)
    with nul k Some show ?thesis
      by (simp add: ct_bytes_put_bytes_def clamp_length_eq mem_get_ok)
  qed
qed

lemma set_bytes_safe [bytes_safe_intros]:
  assumes ok: "bytes_ok m s" and src: "source_ok p n"
  shows "bytes_safe m s (ct_bytes_set_bytes m s off p n)"
proof (cases "off > ucast (b_len s) \<or> n > ucast (b_len s) - off")
  case True
  with ok show ?thesis by (simp add: ct_bytes_set_bytes_def bytes_struct_safe)
next
  case False
  then have "unat off + unat n \<le> unat (b_len s)" by (auto simp: not_less unat_facts)
  then have fits: "unat off + unat n \<le> unat (b_cap s)" using ok by (elim bytes_okE) simp
  show ?thesis
  proof (cases p)
    case (Some xs)
    then have k: "unat n \<le> length xs" using src by (simp add: source_ok_def)
    have "bytes_safe m s (mem_put m (b_data s + unat off) (take (unat n) xs) \<bind>
        (\<lambda>m'. Some (0 :: int, m', s)))"
      using ok fits k by (intro bytes_store_safe) (simp_all add: min_absorb2)
    with False k Some ok show ?thesis
      by (simp add: ct_bytes_set_bytes_def mem_get_ok bytes_struct_safe)
  qed (use False ok in \<open>simp add: ct_bytes_set_bytes_def bytes_struct_safe\<close>)
qed

lemma poke_bytes_set_bytes:
  assumes a: "a = abs_pos s offset" "0 \<le> a" "a \<le> int (unat (b_len s))"
  shows "ct_bytes_poke_bytes m s offset p n = ct_bytes_set_bytes m s (word_of_int a) p n"
proof -
  have na: "nat a \<le> unat (b_len s)" using a by linarith
  have w: "unat (word_of_int a :: size_t) = nat a"
    using na unat_u32_bound [of "b_len s"] a(2) by (simp add: unsigned_of_int take_bit_int_eq_self nat_less_iff)
  have "(word_of_int (int (unat (b_len s)) - a) :: size_t) = ucast (b_len s) - word_of_int a"
    by (simp only: of_int_diff of_nat_unat ucast_eq)
  moreover have "\<not> word_of_int a > (ucast (b_len s) :: size_t)" using na w by (simp add: unat_facts)
  moreover have "\<not> a < 0" "\<not> int (unat (b_len s)) < a" using a by simp_all
  ultimately show ?thesis
    using a(1) by (simp add: ct_bytes_poke_bytes_def ct_bytes_set_bytes_def w [unfolded a(1)] Let_def
        split: option.split)
qed

lemma poke_bytes_safe [bytes_safe_intros]:
  assumes ok: "bytes_ok m s" and src: "source_ok p n"
  shows "bytes_safe m s (ct_bytes_poke_bytes m s off p n)"
proof (cases "0 \<le> abs_pos s off \<and> abs_pos s off \<le> int (unat (b_len s))")
  case True
  with set_bytes_safe [OF ok src] show ?thesis by (simp add: poke_bytes_set_bytes [OF refl])
next
  case False
  with ok show ?thesis by (auto simp: ct_bytes_poke_bytes_def Let_def intro: bytes_struct_safe)
qed

text \<open>The takes, seen as operations that leave the memory alone.\<close>

definition with_memory :: "u8 list \<Rightarrow> ('r \<times> ct_bytes) option \<Rightarrow> 'r bytes_result" where
  "with_memory m r = map_option (\<lambda>(v, s). (v, m, s)) r"

lemma take_advance_safe:
  assumes ok: "bytes_ok m s" and fits: "unat (b_pos s) + n \<le> unat (b_len s)" and k: "unat k = n"
    and s': "s' = s\<lparr>b_overflow := f\<rparr>"
  shows "bytes_safe m s (with_memory m (mem_get m (b_data s + unat (b_pos s)) n \<bind>
           (\<lambda>bs. Some (v bs, s'\<lparr>b_pos := b_pos s + k\<rparr>))))"
proof -
  have "unat (b_pos s) + n \<le> unat (b_cap s)" using ok fits by (elim bytes_okE) simp
  moreover have "bytes_ok m (s'\<lparr>b_pos := b_pos s + k\<rparr>)"
    using advance_pos_ok [of m "s\<lparr>b_overflow := f\<rparr>" k] ok fits k s' by simp
  ultimately show ?thesis
    using ok s' by (simp add: bytes_load with_memory_def bytes_struct_safe)
qed

lemma take_bytes_safe [bytes_safe_intros]:
  assumes ok: "bytes_ok m s"
  shows "bytes_safe m s (with_memory m (ct_bytes_take_bytes m s p n))"
proof -
  let ?k = "min n (ct_bytes_readable s)"
  let ?s = "s\<lparr>b_overflow := b_overflow s \<or> ct_bytes_readable s < n\<rparr>"
  have "bytes_safe m s (with_memory m (mem_get m (b_data s + unat (b_pos s)) (unat ?k) \<bind>
      (\<lambda>bs. Some ((c_int ?k, bs), ?s\<lparr>b_pos := b_pos s + ucast ?k\<rparr>))))"
    using ok clamp_readable [OF ok, of n] by (intro take_advance_safe) simp_all
  moreover have "bytes_safe m s (Some ((0 :: int, [] :: u8 list), m, ?s))"
    using ok by (intro bytes_struct_safe) simp_all
  ultimately show ?thesis by (simp add: ct_bytes_take_bytes_def clamp_length_eq with_memory_def)
qed

lemma writable_enough:
  assumes "bytes_ok m s" and "\<not> ct_bytes_writable s < n"
  shows "unat (b_pos s) + unat n \<le> unat (b_cap s)"
  using assms by (auto elim!: bytes_okE simp: unat_facts writable_nat)

lemma readable_enough:
  assumes "bytes_ok m s" and "\<not> ct_bytes_readable s < n"
  shows "unat (b_pos s) + unat n \<le> unat (b_len s)"
  using assms by (auto elim!: bytes_okE simp: unat_facts readable_nat)

lemma overflow_safe: "bytes_ok m s \<Longrightarrow> bytes_safe m s (Some (v, m, s\<lparr>b_overflow := f\<rparr>))"
  by (simp add: bytes_struct_safe)

lemma put_word_safe:
  assumes ok: "bytes_ok m s" and n: "unat n = length xs" "unat k = length xs"
  shows "bytes_safe m s
     (if ct_bytes_writable s < n then Some ((), m, s\<lparr>b_overflow := True\<rparr>)
      else mem_put m (b_data s + unat (b_pos s)) xs \<bind> (\<lambda>m. Some ((), m, advance_extend s k)))"
  using n by (auto intro!: overflow_safe store_advance_safe ok dest: writable_enough [OF ok])

lemma put_u8_safe [bytes_safe_intros]: "bytes_ok m s \<Longrightarrow> bytes_safe m s (ct_bytes_put_u8 m s v)"
  unfolding ct_bytes_put_u8_def by (rule put_word_safe) simp_all

lemma put_u16_safe [bytes_safe_intros]: "bytes_ok m s \<Longrightarrow> bytes_safe m s (ct_bytes_put_u16 sys m s x)"
  unfolding ct_bytes_put_u16_def by (rule put_word_safe) simp_all

lemma put_u32_safe [bytes_safe_intros]: "bytes_ok m s \<Longrightarrow> bytes_safe m s (ct_bytes_put_u32 sys m s y)"
  unfolding ct_bytes_put_u32_def by (rule put_word_safe) simp_all

lemma put_u64_safe [bytes_safe_intros]: "bytes_ok m s \<Longrightarrow> bytes_safe m s (ct_bytes_put_u64 sys m s z)"
  unfolding ct_bytes_put_u64_def by (rule put_word_safe) simp_all

lemma take_word_safe:
  assumes ok: "bytes_ok m s" and n: "unat w = n" "unat k = n"
  shows "bytes_safe m s (with_memory m
     (if ct_bytes_readable s < w then Some (0 :: 'a::zero, s\<lparr>b_overflow := True\<rparr>)
      else mem_get m (b_data s + unat (b_pos s)) n \<bind> (\<lambda>bs. Some (v bs, s\<lparr>b_pos := b_pos s + k\<rparr>))))"
proof (cases "ct_bytes_readable s < w")
  case True
  with ok show ?thesis by (simp add: with_memory_def overflow_safe)
next
  case False
  have fits: "unat (b_pos s) + n \<le> unat (b_len s)" using readable_enough [OF ok False] n by simp
  have "s = s\<lparr>b_overflow := b_overflow s\<rparr>" by simp
  from take_advance_safe [OF ok fits n(2) this] False show ?thesis by simp
qed

lemma take_u8_safe [bytes_safe_intros]:
  "bytes_ok m s \<Longrightarrow> bytes_safe m s (with_memory m (ct_bytes_take_u8 m s))"
  unfolding ct_bytes_take_u8_def by (rule take_word_safe) simp_all

lemma take_u16_safe [bytes_safe_intros]:
  "bytes_ok m s \<Longrightarrow> bytes_safe m s (with_memory m (ct_bytes_take_u16 sys m s))"
  unfolding ct_bytes_take_u16_def by (rule take_word_safe) simp_all

lemma take_u32_safe [bytes_safe_intros]:
  "bytes_ok m s \<Longrightarrow> bytes_safe m s (with_memory m (ct_bytes_take_u32 sys m s))"
  unfolding ct_bytes_take_u32_def by (rule take_word_safe) simp_all

lemma take_u64_safe [bytes_safe_intros]:
  "bytes_ok m s \<Longrightarrow> bytes_safe m s (with_memory m (ct_bytes_take_u64 sys m s))"
  unfolding ct_bytes_take_u64_def by (rule take_word_safe) simp_all

lemma set_word_safe:
  assumes ok: "bytes_ok m s" and n: "unat w = length xs"
  shows "bytes_safe m s
     (if (off :: size_t) \<ge> ucast (b_len s) \<or> ucast (b_len s) - off < w
      then Some (-1 :: int, m, s\<lparr>b_overflow := True\<rparr>)
      else mem_put m (b_data s + unat off) xs \<bind> (\<lambda>m. Some (0, m, s)))"
proof (cases "off \<ge> ucast (b_len s) \<or> ucast (b_len s) - off < w")
  case True
  with ok show ?thesis by (simp add: overflow_safe)
next
  case False
  then have "unat off + length xs \<le> unat (b_len s)" using n by (auto simp: not_less not_le unat_facts)
  then have "unat off + length xs \<le> unat (b_cap s)" using ok by (elim bytes_okE) simp
  from bytes_store_safe [OF ok this ok] False show ?thesis by simp
qed

lemma set_u8_safe [bytes_safe_intros]: "bytes_ok m s \<Longrightarrow> bytes_safe m s (ct_bytes_set_u8 m s off v)"
  unfolding ct_bytes_set_u8_def by (rule set_word_safe) simp_all

lemma set_u16_safe [bytes_safe_intros]:
  "bytes_ok m s \<Longrightarrow> bytes_safe m s (ct_bytes_set_u16 sys m s off x)"
  unfolding ct_bytes_set_u16_def by (rule set_word_safe) simp_all

lemma set_u32_safe [bytes_safe_intros]:
  "bytes_ok m s \<Longrightarrow> bytes_safe m s (ct_bytes_set_u32 sys m s off y)"
  unfolding ct_bytes_set_u32_def by (rule set_word_safe) simp_all

lemma set_u64_safe [bytes_safe_intros]:
  "bytes_ok m s \<Longrightarrow> bytes_safe m s (ct_bytes_set_u64 sys m s off z)"
  unfolding ct_bytes_set_u64_def by (rule set_word_safe) simp_all

section \<open>The wire format\<close>

text \<open>
  What a value looks like in the buffer, with no reference to the host: its bytes most significant
  first (big) or least significant first (little), and with \<open>hlswap_\<close> the bytes of every 16-bit lane
  of a 32- or 64-bit value exchanged.
\<close>

definition wire :: "ct_endian \<Rightarrow> bool \<Rightarrow> 'a::len word \<Rightarrow> u8 list" where
  "wire e h v =
     (let bs = (case e of CT_ENDIAN_BIG \<Rightarrow> rev (le_bytes v) | CT_ENDIAN_LITTLE \<Rightarrow> le_bytes v)
      in if h then swap_lanes bs else bs)"

lemma length_swap_lanes [simp]: "length (swap_lanes xs) = length xs"
  by (induction xs rule: swap_lanes.induct) simp_all

lemma length_wire [simp]: "length (wire e h (v :: 'a::len word)) = LENGTH('a) div 8"
  by (simp add: wire_def Let_def split: ct_endian.split)

lemma native_conv:
  "native_bytes sys (conv16 sys s x) = wire (b_endian s) False x"
  "native_bytes sys (conv32 sys s y) = wire (b_endian s) (b_hlswap s) y"
  "native_bytes sys (conv64 sys s z) = wire (b_endian s) (b_hlswap s) z"
  by (cases sys; cases "b_endian s";
      simp add: native_bytes_def conv16_def conv32_def conv64_def wire_def byte_layout;
      simp add: le_bytes_u16 le_bytes_u32 le_bytes_u64)+

lemma conv_conv:
  "conv16 sys s (conv16 sys s x) = x"
  "conv32 sys s (conv32 sys s y) = y"
  "conv64 sys s (conv64 sys s z) = z"
  by (simp_all add: conv16_def conv32_def conv64_def)

lemma conv_wire:
  "conv16 sys s (native_word sys (wire (b_endian s) False x)) = x"
  "conv32 sys s (native_word sys (wire (b_endian s) (b_hlswap s) y)) = y"
  "conv64 sys s (native_word sys (wire (b_endian s) (b_hlswap s) z)) = z"
  by (simp_all add: native_conv [symmetric, where sys = sys] conv_conv)

text \<open>A value of any of the four widths, its encoding, and the accessors on it.\<close>

datatype bytes_val = V8 u8 | V16 u16 | V32 u32 | V64 u64

datatype bytes_width = W8 | W16 | W32 | W64

fun width_of :: "bytes_val \<Rightarrow> bytes_width" where
  "width_of (V8 v) = W8"
| "width_of (V16 v) = W16"
| "width_of (V32 v) = W32"
| "width_of (V64 v) = W64"

fun encode_val :: "ct_endian \<Rightarrow> bool \<Rightarrow> bytes_val \<Rightarrow> u8 list" where
  "encode_val e h (V8 v) = [v]"
| "encode_val e h (V16 v) = wire e False v"
| "encode_val e h (V32 v) = wire e h v"
| "encode_val e h (V64 v) = wire e h v"

fun put_val :: "ct_endian \<Rightarrow> u8 list \<Rightarrow> ct_bytes \<Rightarrow> bytes_val \<Rightarrow> unit bytes_result" where
  "put_val sys m s (V8 v) = ct_bytes_put_u8 m s v"
| "put_val sys m s (V16 v) = ct_bytes_put_u16 sys m s v"
| "put_val sys m s (V32 v) = ct_bytes_put_u32 sys m s v"
| "put_val sys m s (V64 v) = ct_bytes_put_u64 sys m s v"

fun take_val :: "ct_endian \<Rightarrow> u8 list \<Rightarrow> ct_bytes \<Rightarrow> bytes_width \<Rightarrow> (bytes_val \<times> ct_bytes) option" where
  "take_val sys m s W8 = map_option (map_prod V8 id) (ct_bytes_take_u8 m s)"
| "take_val sys m s W16 = map_option (map_prod V16 id) (ct_bytes_take_u16 sys m s)"
| "take_val sys m s W32 = map_option (map_prod V32 id) (ct_bytes_take_u32 sys m s)"
| "take_val sys m s W64 = map_option (map_prod V64 id) (ct_bytes_take_u64 sys m s)"

fun put_vals :: "ct_endian \<Rightarrow> u8 list \<Rightarrow> ct_bytes \<Rightarrow> bytes_val list \<Rightarrow> (u8 list \<times> ct_bytes) option" where
  "put_vals sys m s [] = Some (m, s)"
| "put_vals sys m s (v # vs) = do { (u, m, s) \<leftarrow> put_val sys m s v; put_vals sys m s vs }"

fun take_vals ::
  "ct_endian \<Rightarrow> u8 list \<Rightarrow> ct_bytes \<Rightarrow> bytes_width list \<Rightarrow> (bytes_val list \<times> ct_bytes) option" where
  "take_vals sys m s [] = Some ([], s)"
| "take_vals sys m s (w # ws) = do {
     (v, s) \<leftarrow> take_val sys m s w;
     (vs, s) \<leftarrow> take_vals sys m s ws;
     Some (v # vs, s) }"

lemma length_encode_val:
  "length (encode_val e h v) = (case v of V8 v \<Rightarrow> 1 | V16 v \<Rightarrow> 2 | V32 v \<Rightarrow> 4 | V64 v \<Rightarrow> 8)"
  by (cases v) simp_all

text \<open>One store: the encoding lands at the position and everything before it stays.\<close>

lemma put_val_step:
  assumes ok: "bytes_ok m s"
    and fits: "unat (b_pos s) + length (encode_val (b_endian s) (b_hlswap s) v) \<le> unat (b_cap s)"
  obtains m' s' where "put_val sys m s v = Some ((), m', s')" "bytes_ok m' s'"
    "mem_put m (b_data s + unat (b_pos s)) (encode_val (b_endian s) (b_hlswap s) v) = Some m'"
    "unat (b_pos s') = unat (b_pos s) + length (encode_val (b_endian s) (b_hlswap s) v)"
    "unat (b_len s') = max (unat (b_len s)) (unat (b_pos s'))"
    "b_data s' = b_data s" "b_cap s' = b_cap s" "b_endian s' = b_endian s" "b_hlswap s' = b_hlswap s"
    "b_overflow s' = b_overflow s"
proof -
  let ?xs = "encode_val (b_endian s) (b_hlswap s) v" and ?k = "of_nat (length (encode_val (b_endian s) (b_hlswap s) v)) :: u32"
  have k: "unat ?k = length ?xs" by (simp add: length_encode_val split: bytes_val.split)
  have fits': "unat (b_pos s) + unat ?k \<le> unat (b_cap s)" using fits k by simp
  obtain m' where m': "mem_put m (b_data s + unat (b_pos s)) ?xs = Some m'" and l: "length m' = length m"
    using bytes_store [OF ok fits] by metis
  have w: "\<not> ct_bytes_writable s < w" if "unat w = length ?xs" for w
    using fits that by (simp add: unat_facts writable_nat [OF ok])
  have "put_val sys m s v = Some ((), m', advance_extend s ?k)"
    using m' w w [of 1] by (cases v)
      (simp_all add: ct_bytes_put_u8_def ct_bytes_put_u16_def ct_bytes_put_u32_def ct_bytes_put_u64_def
        native_conv)
  moreover have "b_endian (advance_extend s ?k) = b_endian s" "b_hlswap (advance_extend s ?k) = b_hlswap s"
    "b_overflow (advance_extend s ?k) = b_overflow s"
    by (simp_all add: advance_extend_def Let_def)
  ultimately show ?thesis
    using that m' l advance_extend_ok [OF ok fits'] k bytes_ok_memory by metis
qed

lemma take_val_step:
  assumes ok: "bytes_ok m s"
    and fits: "unat (b_pos s) + length (encode_val (b_endian s) (b_hlswap s) v) \<le> unat (b_len s)"
    and at: "mem_get m (b_data s + unat (b_pos s)) (length (encode_val (b_endian s) (b_hlswap s) v)) =
      Some (encode_val (b_endian s) (b_hlswap s) v)"
  obtains s' where "take_val sys m s (width_of v) = Some (v, s')" "bytes_ok m s'"
    "s' = s\<lparr>b_pos := b_pos s + of_nat (length (encode_val (b_endian s) (b_hlswap s) v))\<rparr>"
proof -
  let ?xs = "encode_val (b_endian s) (b_hlswap s) v" and ?k = "of_nat (length (encode_val (b_endian s) (b_hlswap s) v)) :: u32"
  have k: "unat ?k = length ?xs" by (simp add: length_encode_val split: bytes_val.split)
  have r: "\<not> ct_bytes_readable s < w" if "unat w = length ?xs" for w
    using fits that by (simp add: unat_facts readable_nat [OF ok])
  have "take_val sys m s (width_of v) = Some (v, s\<lparr>b_pos := b_pos s + ?k\<rparr>)"
    using at r r [of 1] by (cases v)
      (simp_all add: ct_bytes_take_u8_def ct_bytes_take_u16_def ct_bytes_take_u32_def
        ct_bytes_take_u64_def conv_wire)
  then show ?thesis using that advance_pos_ok [OF ok] fits k by simp
qed

text \<open>A sequence of stores, and of loads.\<close>

abbreviation encode_vals :: "ct_endian \<Rightarrow> bool \<Rightarrow> bytes_val list \<Rightarrow> u8 list" where
  "encode_vals e h vs \<equiv> concat (map (encode_val e h) vs)"

lemma put_vals_step:
  assumes "bytes_ok m s"
    and "unat (b_pos s) + length (encode_vals (b_endian s) (b_hlswap s) vs) \<le> unat (b_cap s)"
  shows "\<exists>m' s'. put_vals sys m s vs = Some (m', s') \<and> bytes_ok m' s' \<and>
    mem_put m (b_data s + unat (b_pos s)) (encode_vals (b_endian s) (b_hlswap s) vs) = Some m' \<and>
    unat (b_pos s') = unat (b_pos s) + length (encode_vals (b_endian s) (b_hlswap s) vs) \<and>
    unat (b_len s') = max (unat (b_len s)) (unat (b_pos s')) \<and>
    b_data s' = b_data s \<and> b_endian s' = b_endian s \<and> b_hlswap s' = b_hlswap s \<and>
    b_overflow s' = b_overflow s"
  using assms
proof (induction vs arbitrary: m s)
  case Nil
  then show ?case by (auto simp: mem_put_def bytes_ok_nat)
next
  case (Cons v vs)
  let ?x = "encode_val (b_endian s) (b_hlswap s) v"
  have fits: "unat (b_pos s) + length ?x \<le> unat (b_cap s)" using Cons.prems by simp
  obtain m1 s1 where one: "put_val sys m s v = Some ((), m1, s1)" "bytes_ok m1 s1"
    "mem_put m (b_data s + unat (b_pos s)) ?x = Some m1"
    "unat (b_pos s1) = unat (b_pos s) + length ?x"
    "unat (b_len s1) = max (unat (b_len s)) (unat (b_pos s1))"
    "b_data s1 = b_data s" "b_cap s1 = b_cap s" "b_endian s1 = b_endian s" "b_hlswap s1 = b_hlswap s"
    "b_overflow s1 = b_overflow s"
    using put_val_step [OF Cons.prems(1) fits] by metis
  have "unat (b_pos s1) + length (encode_vals (b_endian s1) (b_hlswap s1) vs) \<le> unat (b_cap s1)"
    using Cons.prems one by simp
  note IH = Cons.IH [OF one(2) this, unfolded one(4,6,8,9,10)]
  from IH obtain m' s' where two: "put_vals sys m1 s1 vs = Some (m', s')"
    "bytes_ok m' s'"
    "mem_put m1 (b_data s + (unat (b_pos s) + length ?x)) (encode_vals (b_endian s) (b_hlswap s) vs) = Some m'"
    "unat (b_pos s') = unat (b_pos s) + length ?x + length (encode_vals (b_endian s) (b_hlswap s) vs)"
    "unat (b_len s') = max (unat (b_len s1)) (unat (b_pos s'))"
    "b_data s' = b_data s" "b_endian s' = b_endian s" "b_hlswap s' = b_hlswap s"
    "b_overflow s' = b_overflow s"
    by (elim exE conjE) (rule that)
  have "unat (b_len s') = max (unat (b_len s)) (unat (b_pos s'))"
    using one(4,5) two(4,5) by linarith
  then show ?case
    using one(1,4) two mem_put_append [OF one(3) two(3) [folded add.assoc]]
    by (intro exI [of _ m'] exI [of _ s']) (simp add: add.assoc)
qed

lemma take_vals_step:
  assumes "bytes_ok m s"
    and "unat (b_pos s) + length (encode_vals (b_endian s) (b_hlswap s) vs) \<le> unat (b_len s)"
    and "mem_get m (b_data s + unat (b_pos s)) (length (encode_vals (b_endian s) (b_hlswap s) vs)) =
      Some (encode_vals (b_endian s) (b_hlswap s) vs)"
  shows "\<exists>s'. take_vals sys m s (map width_of vs) = Some (vs, s') \<and> b_overflow s' = b_overflow s \<and>
    unat (b_pos s') = unat (b_pos s) + length (encode_vals (b_endian s) (b_hlswap s) vs)"
  using assms
proof (induction vs arbitrary: s)
  case Nil
  then show ?case by simp
next
  case (Cons v vs)
  let ?x = "encode_val (b_endian s) (b_hlswap s) v"
  let ?xs = "encode_vals (b_endian s) (b_hlswap s) vs"
  have at: "mem_get m (b_data s + unat (b_pos s)) (length ?x) = Some ?x"
    "mem_get m (b_data s + unat (b_pos s) + length ?x) (length ?xs) = Some ?xs"
    using Cons.prems(3) by (simp_all add: mem_get_append)
  have fits: "unat (b_pos s) + length ?x \<le> unat (b_len s)" using Cons.prems by simp
  obtain s1 where one: "take_val sys m s (width_of v) = Some (v, s1)" "bytes_ok m s1"
    "s1 = s\<lparr>b_pos := b_pos s + of_nat (length ?x)\<rparr>"
    using take_val_step [OF Cons.prems(1) fits at(1)] by metis
  have k: "unat (of_nat (length ?x) :: u32) = length ?x"
    by (simp add: length_encode_val split: bytes_val.split)
  have pos: "unat (b_pos s1) = unat (b_pos s) + length ?x"
    using one(3) fits k unat_u32_bound [of "b_len s"] by (simp add: unat_plus_lt)
  have "\<exists>s'. take_vals sys m s1 (map width_of vs) = Some (vs, s') \<and> b_overflow s' = b_overflow s1 \<and>
    unat (b_pos s') = unat (b_pos s1) + length (encode_vals (b_endian s1) (b_hlswap s1) vs)"
    using Cons.prems(2) at(2) by (intro Cons.IH one(2)) (simp_all add: pos, simp_all add: one(3) add.assoc)
  with one pos show ?case by auto
qed

section \<open>The readers\<close>

text \<open>
  The accessors that only read, by width.  \<open>get_val\<close> takes an absolute offset, \<open>peek_val\<close> an offset
  relative to the position.
\<close>

fun get_val :: "ct_endian \<Rightarrow> u8 list \<Rightarrow> ct_bytes \<Rightarrow> bytes_width \<Rightarrow> size_t \<Rightarrow> bytes_val option" where
  "get_val sys m s W8 off = map_option V8 (ct_bytes_get_u8 m s off)"
| "get_val sys m s W16 off = map_option V16 (ct_bytes_get_u16 sys m s off)"
| "get_val sys m s W32 off = map_option V32 (ct_bytes_get_u32 sys m s off)"
| "get_val sys m s W64 off = map_option V64 (ct_bytes_get_u64 sys m s off)"

fun peek_val :: "ct_endian \<Rightarrow> u8 list \<Rightarrow> ct_bytes \<Rightarrow> bytes_width \<Rightarrow> int \<Rightarrow> bytes_val option" where
  "peek_val sys m s W8 off = map_option V8 (ct_bytes_peek_u8 m s off)"
| "peek_val sys m s W16 off = map_option V16 (ct_bytes_peek_u16 sys m s off)"
| "peek_val sys m s W32 off = map_option V32 (ct_bytes_peek_u32 sys m s off)"
| "peek_val sys m s W64 off = map_option V64 (ct_bytes_peek_u64 sys m s off)"

fun width_bytes :: "bytes_width \<Rightarrow> nat" where
  "width_bytes W8 = 1"
| "width_bytes W16 = 2"
| "width_bytes W32 = 4"
| "width_bytes W64 = 8"

fun zero_of :: "bytes_width \<Rightarrow> bytes_val" where
  "zero_of W8 = V8 0"
| "zero_of W16 = V16 0"
| "zero_of W32 = V32 0"
| "zero_of W64 = V64 0"

text \<open>
  What a reader owes, said of the content of the buffer alone.  A value of width \<open>w\<close> at offset \<open>a\<close> is
  the one whose wire format the content holds there when it fits, and zero otherwise; a block is
  what the content has from \<open>a\<close> on, cut at \<open>n\<close> bytes; a search finds the first occurrence.
\<close>

definition value_at :: "u8 list \<Rightarrow> ct_bytes \<Rightarrow> bytes_width \<Rightarrow> int \<Rightarrow> bytes_val \<Rightarrow> bool" where
  "value_at m s w a v \<longleftrightarrow> width_of v = w \<and>
     (if 0 \<le> a \<and> a + int (width_bytes w) \<le> int (length (bytes_content m s))
      then encode_val (b_endian s) (b_hlswap s) v = take (width_bytes w) (drop (nat a) (bytes_content m s))
      else v = zero_of w)"

definition block_at :: "u8 list \<Rightarrow> ct_bytes \<Rightarrow> int \<Rightarrow> bool \<Rightarrow> size_t \<Rightarrow> u8 list" where
  "block_at m s a p n = (if p \<and> 0 \<le> a then take (unat n) (drop (nat a) (bytes_content m s)) else [])"

definition first_at :: "u8 list \<Rightarrow> u8 \<Rightarrow> int \<Rightarrow> bool" where
  "first_at xs bt r \<longleftrightarrow>
     (if bt \<in> set xs then 0 \<le> r \<and> nat r < length xs \<and> xs ! nat r = bt \<and> bt \<notin> set (take (nat r) xs)
      else r = -1)"

definition readers_exact :: "ct_endian \<Rightarrow> u8 list \<Rightarrow> ct_bytes \<Rightarrow> bool" where
  "readers_exact sys m s \<longleftrightarrow>
     (\<forall>w off. \<exists>v. get_val sys m s w off = Some v \<and> value_at m s w (int (unat off)) v) \<and>
     (\<forall>w off. \<exists>v. peek_val sys m s w off = Some v \<and> value_at m s w (int (unat (b_pos s)) + off) v) \<and>
     (\<forall>off p n. let xs = block_at m s (int (unat off)) p n
        in ct_bytes_get_bytes m s off p n = Some (c_int (of_nat (length xs)), xs)) \<and>
     (\<forall>off p n. let xs = block_at m s (int (unat (b_pos s)) + off) p n
        in ct_bytes_peek_bytes m s off p n = Some (c_int (of_nat (length xs)), xs)) \<and>
     (\<forall>bt off. \<exists>r. ct_bytes_find m s bt off = Some r \<and>
        (unat (b_len s) < 2147483648 \<longrightarrow>
         first_at (drop (unat (b_pos s) + unat off) (bytes_content m s)) bt r))"

lemma length_content: "bytes_ok m s \<Longrightarrow> length (bytes_content m s) = unat (b_len s)"
  by (elim bytes_okE) (simp add: bytes_content_def)

text \<open>Reading \<open>n\<close> valid bytes at \<open>a\<close> succeeds and gives the content there.\<close>

lemma load_content:
  assumes ok: "bytes_ok m s" and fits: "a + n \<le> unat (b_len s)"
  shows "mem_get m (b_data s + a) n = Some (take n (drop a (bytes_content m s)))"
proof -
  have "a + n \<le> unat (b_cap s)" using ok fits by (elim bytes_okE) simp
  moreover have "n \<le> unat (b_len s) - a" using fits by simp
  ultimately show ?thesis
    using bytes_load [OF ok] by (simp add: bytes_content_def drop_take min_absorb1 add.commute)
qed

lemma get_guard:
  assumes "unat w = n" "0 < n"
  shows "((off :: size_t) \<ge> ucast (l :: u32) \<or> ucast l - off < w) \<longleftrightarrow> unat l < unat off + n"
proof (cases "unat off < unat l")
  case True
  then have "unat (ucast l - off :: size_t) = unat l - unat off" by (simp add: unat_facts)
  with True assms show ?thesis by (auto simp: unat_facts)
next
  case False
  with assms show ?thesis by (simp add: unat_facts)
qed

lemma get_u8_alt:
  "ct_bytes_get_u8 m s off = (if unat (b_len s) < unat off + 1 then Some 0
     else do { bs \<leftarrow> mem_get m (b_data s + unat off) 1; Some (bs ! 0) })"
  unfolding ct_bytes_get_u8_def by (subst get_guard [where n = 1]) simp_all

text \<open>The value read from \<open>n\<close> bytes has these bytes as its wire format.\<close>

lemma decode_wire:
  "length bs = 2 \<Longrightarrow> wire (b_endian s) False (conv16 sys s (native_word sys bs)) = bs"
  "length bs = 4 \<Longrightarrow> wire (b_endian s) (b_hlswap s) (conv32 sys s (native_word sys bs)) = bs"
  "length bs = 8 \<Longrightarrow> wire (b_endian s) (b_hlswap s) (conv64 sys s (native_word sys bs)) = bs"
  by (simp_all add: native_conv [symmetric, where sys = sys] conv_conv native_bytes_word)

lemma single_byte: "i < length xs \<Longrightarrow> take (Suc 0) (drop i xs) = [xs ! i]"
  by (simp add: take_Suc_conv_app_nth)

lemma get_val_at:
  assumes ok: "bytes_ok m s"
  shows "\<exists>v. get_val sys m s w off = Some v \<and> value_at m s w (int (unat off)) v"
proof (cases "unat off + width_bytes w \<le> unat (b_len s)")
  case True
  let ?bs = "take (width_bytes w) (drop (unat off) (bytes_content m s))"
  have l: "length ?bs = width_bytes w" using True by (simp add: length_content [OF ok])
  have le: "int (unat off) + int (width_bytes w) \<le> int (unat (b_len s))" using True by linarith
  show ?thesis
    using True le l load_content [OF ok True]
    by (cases w) (simp_all add: get_u8_alt ct_bytes_get_u16_def ct_bytes_get_u32_def
        ct_bytes_get_u64_def get_guard value_at_def length_content [OF ok] decode_wire single_byte
        del: of_nat_unat)
next
  case False
  then have "\<not> int (unat off) + int (width_bytes w) \<le> int (unat (b_len s))" by linarith
  with False show ?thesis
    by (cases w) (simp_all add: get_u8_alt ct_bytes_get_u16_def ct_bytes_get_u32_def
        ct_bytes_get_u64_def get_guard value_at_def length_content [OF ok] del: of_nat_unat)
qed

lemma peek_val_at:
  assumes ok: "bytes_ok m s"
  shows "\<exists>v. peek_val sys m s w off = Some v \<and> value_at m s w (int (unat (b_pos s)) + off) v"
proof (cases "0 \<le> abs_pos s off \<and> abs_pos s off + int (width_bytes w) \<le> int (unat (b_len s))")
  case True
  let ?bs = "take (width_bytes w) (drop (nat (abs_pos s off)) (bytes_content m s))"
  have fits: "nat (abs_pos s off) + width_bytes w \<le> unat (b_len s)" using True by linarith
  have l: "length ?bs = width_bytes w" using fits by (simp add: length_content [OF ok])
  show ?thesis
    unfolding abs_pos_def [symmetric]
    using True fits l load_content [OF ok fits]
    by (cases w) (simp_all add: ct_bytes_peek_u8_def ct_bytes_peek_u16_def ct_bytes_peek_u32_def
        ct_bytes_peek_u64_def Let_def value_at_def length_content [OF ok] decode_wire single_byte
        del: of_nat_unat)
next
  case False
  then show ?thesis
    unfolding abs_pos_def [symmetric]
    by (cases w) (auto simp: ct_bytes_peek_u8_def ct_bytes_peek_u16_def ct_bytes_peek_u32_def
        ct_bytes_peek_u64_def Let_def value_at_def length_content [OF ok] simp del: of_nat_unat)
qed

lemma get_bytes_at:
  assumes ok: "bytes_ok m s" and xs: "xs = block_at m s (int (unat off)) p n"
  shows "ct_bytes_get_bytes m s off p n = Some (c_int (of_nat (length xs)), xs)"
proof (cases "n = 0 \<or> off \<ge> ucast (b_len s) \<or> \<not> p")
  case True
  then have "xs = []" by (auto simp: xs block_at_def length_content [OF ok] unat_facts)
  with True show ?thesis by (auto simp: ct_bytes_get_bytes_def c_int_def Let_def)
next
  case False
  let ?k = "min n (ucast (b_len s) - off)"
  have k: "unat ?k = min (unat n) (unat (b_len s) - unat off)"
    using False by (simp add: unat_min unat_facts not_le)
  then have fits: "unat off + unat ?k \<le> unat (b_len s)" using False k by (auto simp: unat_facts not_le min_def)
  have xs': "xs = take (unat ?k) (drop (unat off) (bytes_content m s))"
    using False k by (simp add: xs block_at_def length_content [OF ok] min_def)
  have l: "length xs = unat ?k" using fits by (simp add: xs' length_content [OF ok])
  have "0 < unat n" "unat off < unat (b_len s)" using False by (simp_all add: unat_facts unat_gt_0)
  then have "?k \<noteq> 0" using k by (metis diff_is_0_eq min_def not_le unat_0 less_irrefl)
  moreover have "(if ucast (b_len s) - off < n then ucast (b_len s) - off else n) = ?k"
    by (auto simp: min_def not_less)
  ultimately show ?thesis
    using False load_content [OF ok fits] l
    unfolding ct_bytes_get_bytes_def Let_def by (simp add: xs' [symmetric])
qed

text \<open>The absolute offset a relative one comes to, as a \<open>size_t\<close>.\<close>

lemma abs_offset:
  assumes "0 \<le> a" "a \<le> int (unat (b_len s))"
  shows "unat (word_of_int a :: size_t) = nat a"
    "(word_of_int (int (unat (b_len s)) - a) :: size_t) = ucast (b_len s) - word_of_int a"
proof -
  have "nat a \<le> unat (b_len s)" using assms by linarith
  then show "unat (word_of_int a :: size_t) = nat a"
    using unat_u32_bound [of "b_len s"] assms(1)
    by (simp add: unsigned_of_int take_bit_int_eq_self nat_less_iff)
  show "(word_of_int (int (unat (b_len s)) - a) :: size_t) = ucast (b_len s) - word_of_int a"
    by (simp only: of_int_diff of_nat_unat ucast_eq)
qed

lemma peek_bytes_get_bytes:
  assumes "0 \<le> abs_pos s off" "abs_pos s off \<le> int (unat (b_len s))"
  shows "ct_bytes_peek_bytes m s off p n = ct_bytes_get_bytes m s (word_of_int (abs_pos s off)) p n"
proof (cases "abs_pos s off = int (unat (b_len s))")
  case True
  then have "(word_of_int (abs_pos s off) :: size_t) = ucast (b_len s)"
    by (simp only: of_nat_unat word_of_int_uint ucast_eq)
  with True show ?thesis by (simp add: ct_bytes_peek_bytes_def ct_bytes_get_bytes_def Let_def)
next
  case False
  note w = abs_offset [OF assms]
  have "nat (abs_pos s off) < unat (b_len s)" using assms False by linarith
  then have "\<not> word_of_int (abs_pos s off) \<ge> (ucast (b_len s) :: size_t)"
    unfolding word_le_nat_alt w(1) by (simp add: unat_facts)
  with assms False show ?thesis
    unfolding ct_bytes_peek_bytes_def ct_bytes_get_bytes_def Let_def w by simp
qed

lemma peek_bytes_at:
  assumes ok: "bytes_ok m s" and xs: "xs = block_at m s (int (unat (b_pos s)) + off) p n"
  shows "ct_bytes_peek_bytes m s off p n = Some (c_int (of_nat (length xs)), xs)"
proof (cases "0 \<le> abs_pos s off \<and> abs_pos s off \<le> int (unat (b_len s))")
  case True
  then have "unat (word_of_int (abs_pos s off) :: size_t) = nat (abs_pos s off)"
    by (intro abs_offset [of _ s]) simp_all
  then have "xs = block_at m s (int (unat (word_of_int (abs_pos s off) :: size_t))) p n"
    using True by (simp only: xs abs_pos_def nat_0_le)
  with True show ?thesis by (simp only: peek_bytes_get_bytes get_bytes_at [OF ok])
next
  case False
  then have "xs = []"
    by (auto simp: xs block_at_def abs_pos_def length_content [OF ok] simp del: of_nat_unat)
  with False show ?thesis by (auto simp: ct_bytes_peek_bytes_def c_int_def Let_def)
qed

lemma memchr_index_first:
  "case memchr_index xs bt of None \<Rightarrow> bt \<notin> set xs
   | Some k \<Rightarrow> bt \<in> set xs \<and> k < length xs \<and> xs ! k = bt \<and> bt \<notin> set (take k xs)"
  by (induction xs) (auto split: option.splits)

lemma find_at:
  assumes ok: "bytes_ok m s"
  shows "\<exists>r. ct_bytes_find m s bt off = Some r \<and>
    (unat (b_len s) < 2147483648 \<longrightarrow> first_at (drop (unat (b_pos s) + unat off) (bytes_content m s)) bt r)"
proof (cases "off \<ge> ucast (b_len s - b_pos s)")
  case True
  then have "unat (b_len s) \<le> unat (b_pos s) + unat off"
    using ok by (elim bytes_okE) (simp add: unat_facts)
  with True show ?thesis by (simp add: ct_bytes_find_def first_at_def length_content [OF ok])
next
  case False
  let ?start = "ucast (b_pos s) + off :: size_t" and ?n = "ucast (b_len s - b_pos s) - off :: size_t"
  let ?a = "unat (b_pos s) + unat off"
  let ?xs = "drop ?a (bytes_content m s)"
  have lt: "?a < unat (b_len s)" using False ok by (elim bytes_okE) (simp add: unat_facts)
  have st: "unat ?start = ?a"
    using lt unat_u32_bound [of "b_len s"] by (intro trans [OF unat_plus_lt]) simp_all
  have n: "unat ?n = unat (b_len s) - ?a"
    using False ok by (elim bytes_okE) (simp add: unat_facts not_le)
  have fits: "?a + unat ?n \<le> unat (b_len s)" using lt n by simp
  have load: "mem_get m (b_data s + unat ?start) (unat ?n) = Some ?xs"
    using load_content [OF ok fits] n by (simp add: st length_content [OF ok])
  show ?thesis
  proof (cases "memchr_index ?xs bt")
    case None
    then show ?thesis
      using False load memchr_index_first [where xs = ?xs and bt = bt] by (simp add: ct_bytes_find_def first_at_def)
  next
    case (Some k)
    note k = memchr_index_first [where xs = ?xs and bt = bt, unfolded Some, simplified]
    have "c_int (?start + of_nat k) - c_int ?start = int k" if b: "unat (b_len s) < 2147483648"
    proof -
      have "k < unat (b_len s) - ?a" using k by (simp add: length_content [OF ok])
      then have "?a + k < unat (b_len s)" by linarith
      then have "unat (?start + of_nat k) = ?a + k" "?a + k < 2147483648"
        using b by (simp_all add: unat_plus_lt st unsigned_of_nat take_bit_nat_eq_self)
      then show ?thesis using st by (simp add: c_int_small)
    qed
    then show ?thesis
      using False load Some k by (auto simp: ct_bytes_find_def first_at_def Let_def)
  qed
qed

lemma readers_exactI: "bytes_ok m s \<Longrightarrow> readers_exact sys m s"
  unfolding readers_exact_def Let_def
  by (intro conjI allI get_val_at peek_val_at get_bytes_at peek_bytes_at find_at) simp_all

section \<open>Arbitrary use of a buffer\<close>

text \<open>Every operation, with the arguments a caller passes; the readers leave the struct alone.\<close>

datatype bytes_op =
    Rewind | Clear | Clear_error | Set_endian ct_endian | Set_hlswap bool
  | Seek size_t | Reseek size_t | Skip size_t | Commit size_t | Truncate size_t | Compact
  | Fill u8 size_t | Overfill u8 size_t
  | Put bytes_val | Take bytes_width | Set8 size_t u8 | Set16 size_t u16 | Set32 size_t u32 | Set64 size_t u64
  | Put_bytes "u8 list option" size_t | Take_bytes bool size_t
  | Set_bytes size_t "u8 list option" size_t | Poke_bytes int "u8 list option" size_t
  | Get bytes_width size_t | Peek bytes_width int | Get_bytes size_t bool size_t
  | Peek_bytes int bool size_t | Find u8 size_t

definition forget :: "'r bytes_result \<Rightarrow> (u8 list \<times> ct_bytes) option" where
  "forget r = map_option snd r"

definition looked :: "u8 list \<Rightarrow> ct_bytes \<Rightarrow> 'r option \<Rightarrow> (u8 list \<times> ct_bytes) option" where
  "looked m s r = map_option (\<lambda>_. (m, s)) r"

fun bytes_exec :: "ct_endian \<Rightarrow> u8 list \<Rightarrow> ct_bytes \<Rightarrow> bytes_op \<Rightarrow> (u8 list \<times> ct_bytes) option" where
  "bytes_exec sys m s Rewind = Some (m, ct_bytes_rewind s)"
| "bytes_exec sys m s Clear = Some (m, ct_bytes_clear s)"
| "bytes_exec sys m s Clear_error = Some (m, ct_bytes_clear_error s)"
| "bytes_exec sys m s (Set_endian e) = Some (m, ct_bytes_set_endian s e)"
| "bytes_exec sys m s (Set_hlswap h) = Some (m, ct_bytes_set_hlswap s h)"
| "bytes_exec sys m s (Seek off) = Some (m, snd (ct_bytes_seek s off))"
| "bytes_exec sys m s (Reseek off) = Some (m, snd (ct_bytes_reseek s off))"
| "bytes_exec sys m s (Skip n) = Some (m, snd (ct_bytes_skip s n))"
| "bytes_exec sys m s (Commit n) = Some (m, snd (ct_bytes_commit s n))"
| "bytes_exec sys m s (Truncate n) = Some (m, ct_bytes_truncate s n)"
| "bytes_exec sys m s Compact = forget (ct_bytes_compact m s)"
| "bytes_exec sys m s (Fill bt n) = forget (ct_bytes_fill m s bt n)"
| "bytes_exec sys m s (Overfill bt n) = forget (ct_bytes_overfill m s bt n)"
| "bytes_exec sys m s (Put v) = forget (put_val sys m s v)"
| "bytes_exec sys m s (Take w) = forget (with_memory m (take_val sys m s w))"
| "bytes_exec sys m s (Set8 off v) = forget (ct_bytes_set_u8 m s off v)"
| "bytes_exec sys m s (Set16 off v) = forget (ct_bytes_set_u16 sys m s off v)"
| "bytes_exec sys m s (Set32 off v) = forget (ct_bytes_set_u32 sys m s off v)"
| "bytes_exec sys m s (Set64 off v) = forget (ct_bytes_set_u64 sys m s off v)"
| "bytes_exec sys m s (Put_bytes p n) = forget (ct_bytes_put_bytes m s p n)"
| "bytes_exec sys m s (Take_bytes p n) = forget (with_memory m (ct_bytes_take_bytes m s p n))"
| "bytes_exec sys m s (Set_bytes off p n) = forget (ct_bytes_set_bytes m s off p n)"
| "bytes_exec sys m s (Poke_bytes off p n) = forget (ct_bytes_poke_bytes m s off p n)"
| "bytes_exec sys m s (Get w off) = looked m s (get_val sys m s w off)"
| "bytes_exec sys m s (Peek w off) = looked m s (peek_val sys m s w off)"
| "bytes_exec sys m s (Get_bytes off p n) = looked m s (ct_bytes_get_bytes m s off p n)"
| "bytes_exec sys m s (Peek_bytes off p n) = looked m s (ct_bytes_peek_bytes m s off p n)"
| "bytes_exec sys m s (Find bt off) = looked m s (ct_bytes_find m s bt off)"

fun bytes_run :: "ct_endian \<Rightarrow> u8 list \<Rightarrow> ct_bytes \<Rightarrow> bytes_op list \<Rightarrow> (u8 list \<times> ct_bytes) option" where
  "bytes_run sys m s [] = Some (m, s)"
| "bytes_run sys m s (op # ops) = do { (m, s) \<leftarrow> bytes_exec sys m s op; bytes_run sys m s ops }"

text \<open>What the caller owes: a source buffer is as long as the length passed with it.\<close>

fun op_source_ok :: "bytes_op \<Rightarrow> bool" where
  "op_source_ok (Put_bytes p n) = source_ok p n"
| "op_source_ok (Set_bytes off p n) = source_ok p n"
| "op_source_ok (Poke_bytes off p n) = source_ok p n"
| "op_source_ok _ = True"

definition exec_safe :: "u8 list \<Rightarrow> ct_bytes \<Rightarrow> (u8 list \<times> ct_bytes) option \<Rightarrow> bool" where
  "exec_safe m s r \<longleftrightarrow> (\<exists>m' s'. r = Some (m', s') \<and> bytes_ok m' s' \<and> bytes_frame m s m' s')"

lemma exec_safe_forget [intro]: "bytes_safe m s r \<Longrightarrow> exec_safe m s (forget r)"
  by (auto simp: bytes_safe_def exec_safe_def forget_def)

lemma exec_safe_struct [intro]: "bytes_safe m s (Some (v, m, s')) \<Longrightarrow> exec_safe m s (Some (m, s'))"
  by (auto simp: bytes_safe_def exec_safe_def)

lemma field_updates_safe:
  assumes "bytes_ok m s"
  shows "bytes_safe m s (Some ((), m, ct_bytes_rewind s))" "bytes_safe m s (Some ((), m, ct_bytes_clear s))"
    "bytes_safe m s (Some ((), m, ct_bytes_clear_error s))"
    "bytes_safe m s (Some ((), m, ct_bytes_set_endian s e))"
    "bytes_safe m s (Some ((), m, ct_bytes_set_hlswap s h))"
  using assms
  by (auto intro!: bytes_struct_safe simp: ct_bytes_rewind_def ct_bytes_clear_def ct_bytes_clear_error_def
      ct_bytes_set_endian_def ct_bytes_set_hlswap_def bytes_ok_nat)

lemma put_val_safe: "bytes_ok m s \<Longrightarrow> bytes_safe m s (put_val sys m s v)"
  by (cases v) (simp_all add: bytes_safe_intros)

lemma bytes_safe_map_option:
  "bytes_safe m s (with_memory m r) \<Longrightarrow> bytes_safe m s (with_memory m (map_option (map_prod f id) r))"
  by (cases r) (auto simp: bytes_safe_def with_memory_def)

lemma take_val_safe: "bytes_ok m s \<Longrightarrow> bytes_safe m s (with_memory m (take_val sys m s w))"
  by (cases w) (simp_all add: bytes_safe_intros bytes_safe_map_option)

lemma exec_safe_looked:
  assumes ok: "bytes_ok m s" and r: "\<exists>v. r = Some v"
  shows "exec_safe m s (looked m s r)"
  using r ok by (auto simp: looked_def exec_safe_def bytes_frame_def)

lemma readers_safe:
  assumes ok: "bytes_ok m s"
  shows "exec_safe m s (looked m s (get_val sys m s w off))"
    "exec_safe m s (looked m s (peek_val sys m s w d))"
    "exec_safe m s (looked m s (ct_bytes_get_bytes m s off p n))"
    "exec_safe m s (looked m s (ct_bytes_peek_bytes m s d p n))"
    "exec_safe m s (looked m s (ct_bytes_find m s bt off))"
  using readers_exactI [OF ok, of sys] unfolding readers_exact_def Let_def
  by (blast intro: exec_safe_looked [OF ok])+

lemma bytes_exec_safe:
  assumes "bytes_ok m s" and "op_source_ok op"
  shows "exec_safe m s (bytes_exec sys m s op)"
  using assms
  by (cases op)
    (auto intro: bytes_safe_intros field_updates_safe put_val_safe take_val_safe readers_safe simp del: fst_conv)

lemma bytes_run_safe:
  assumes "bytes_ok m s" and "list_all op_source_ok ops"
  shows "\<exists>m' s'. bytes_run sys m s ops = Some (m', s') \<and> bytes_ok m' s' \<and> bytes_frame m s m' s'"
  using assms
proof (induction ops arbitrary: m s)
  case Nil
  then show ?case by (simp add: bytes_frame_refl)
next
  case (Cons op ops)
  then obtain m1 s1 where one: "bytes_exec sys m s op = Some (m1, s1)" "bytes_ok m1 s1"
    "bytes_frame m s m1 s1"
    using bytes_exec_safe [of m s op sys] by (auto simp: exec_safe_def)
  from Cons.IH [OF one(2)] Cons.prems one show ?case
    by (auto intro: bytes_frame_trans)
qed



text \<open>C2: Round trip of a stream of integers.  Values of any mix of widths written with
  \<open>put_u8 .. put_u64\<close> into a buffer with room for them are read back unchanged, in order, by the
  matching \<open>take_u*\<close> calls after the position is moved back; the reader may run on a host of the other
  byte order, because what the memory holds in between is the wire format of the buffer's
  \<open>endian_\<close>/\<open>hlswap_\<close> settings.  Neither side raises the overflow flag.\<close>

theorem put_take_stream:
  assumes "bytes_ok m s"
    and "unat (b_pos s) + length (encode_vals (b_endian s) (b_hlswap s) vs) \<le> unat (b_cap s)"
  shows "\<exists>m' s' s''. put_vals sys m s vs = Some (m', s') \<and> b_overflow s' = b_overflow s \<and>
    mem_put m (b_data s + unat (b_pos s)) (encode_vals (b_endian s) (b_hlswap s) vs) = Some m' \<and>
    take_vals sys' m' (s'\<lparr>b_pos := b_pos s\<rparr>) (map width_of vs) = Some (vs, s'') \<and>
    b_pos s'' = b_pos s' \<and> b_overflow s'' = b_overflow s"
proof -
  let ?xs = "encode_vals (b_endian s) (b_hlswap s) vs"
  obtain m' s' where put: "put_vals sys m s vs = Some (m', s')" "bytes_ok m' s'"
    "mem_put m (b_data s + unat (b_pos s)) ?xs = Some m'"
    "unat (b_pos s') = unat (b_pos s) + length ?xs"
    "unat (b_len s') = max (unat (b_len s)) (unat (b_pos s'))"
    "b_data s' = b_data s" "b_endian s' = b_endian s" "b_hlswap s' = b_hlswap s"
    "b_overflow s' = b_overflow s"
    using put_vals_step [OF assms, of sys] by (elim exE conjE) (rule that)
  let ?s = "s'\<lparr>b_pos := b_pos s\<rparr>"
  have "bytes_ok m' ?s" using put assms by (auto simp: bytes_ok_nat)
  moreover have "unat (b_pos ?s) + length (encode_vals (b_endian ?s) (b_hlswap ?s) vs) \<le> unat (b_len ?s)"
    using put by simp
  moreover have "mem_get m' (b_data ?s + unat (b_pos ?s)) (length (encode_vals (b_endian ?s) (b_hlswap ?s) vs)) =
      Some (encode_vals (b_endian ?s) (b_hlswap ?s) vs)"
    using mem_get_put_same [OF put(3)] put by simp
  ultimately obtain s'' where "take_vals sys' m' ?s (map width_of vs) = Some (vs, s'')"
    "b_overflow s'' = b_overflow ?s"
    "unat (b_pos s'') = unat (b_pos ?s) + length (encode_vals (b_endian ?s) (b_hlswap ?s) vs)"
    by (blast dest: take_vals_step)
  moreover from this put have "b_pos s'' = b_pos s'" by (simp add: word_unat_eq_iff)
  ultimately show ?thesis using put by simp
qed

theorem put_take_stream_witness:
  "\<exists>m' s' s''. put_vals CT_ENDIAN_LITTLE (replicate 8 0) (ct_bytes_init 0 8) [V32 305419896, V16 1, V8 2] = Some (m', s') \<and>
    b_overflow s' = False \<and>
    mem_put (replicate 8 0) 0
      (encode_vals CT_ENDIAN_BIG False [V32 305419896, V16 1, V8 2]) = Some m' \<and>
    take_vals CT_ENDIAN_BIG m' (s'\<lparr>b_pos := 0\<rparr>) [W32, W16, W8] = Some ([V32 305419896, V16 1, V8 2], s'') \<and>
    b_pos s'' = b_pos s' \<and> b_overflow s'' = False"
  using put_take_stream [of "replicate 8 0" "ct_bytes_init 0 8" "[V32 305419896, V16 1, V8 2]" CT_ENDIAN_LITTLE CT_ENDIAN_BIG]
  by (simp add: bytes_ok_def ct_bytes_init_def wire_def le_bytes_u32 le_bytes_u16)

section \<open>Blocks, compaction and views\<close>

lemma put_bytes_eq:
  assumes ok: "bytes_ok m s" and src: "unat n \<le> length src"
  shows "\<exists>m'. mem_put m (b_data s + unat (b_pos s)) (take (unat (min n (ct_bytes_writable s))) src) = Some m' \<and>
    length m' = length m \<and>
    ct_bytes_put_bytes m s (Some src) n = Some (c_int (min n (ct_bytes_writable s)), m',
      advance_extend (s\<lparr>b_overflow := b_overflow s \<or> ct_bytes_writable s < n\<rparr>)
        (ucast (min n (ct_bytes_writable s))))"
proof -
  let ?k = "min n (ct_bytes_writable s)"
  have k: "unat ?k \<le> length src" using src by (simp add: unat_min)
  obtain m' where m': "mem_put m (b_data s + unat (b_pos s)) (take (unat ?k) src) = Some m'"
    using bytes_store [OF ok, of "unat (b_pos s)" "take (unat ?k) src"] clamp_writable(1) [OF ok, of n] k
    by (metis length_take min.absorb2)
  have "advance_extend (s\<lparr>b_overflow := f\<rparr>) 0 = s\<lparr>b_overflow := f\<rparr>" for f
    using ok by (auto simp: advance_extend_def Let_def bytes_ok_def)
  then have "?k = 0 \<Longrightarrow> m' = m \<and> advance_extend (s\<lparr>b_overflow := f\<rparr>) (ucast ?k) = s\<lparr>b_overflow := f\<rparr>" for f
    using m' by (simp add: mem_put_def split: if_splits)
  then show ?thesis
    using m' mem_put_length [OF m'] k
    by (auto simp: ct_bytes_put_bytes_def clamp_length_eq mem_get_ok c_int_def)
qed

lemma take_bytes_exact:
  assumes "k \<le> ct_bytes_readable s" and "mem_get m (b_data s + unat (b_pos s)) (unat k) = Some xs"
  shows "ct_bytes_take_bytes m s True k = Some ((c_int k, xs), s\<lparr>b_pos := b_pos s + ucast k\<rparr>)"
  using assms by (auto simp: ct_bytes_take_bytes_def clamp_length_def c_int_def mem_get_def split: if_splits)

text \<open>C3: Block writes.  \<open>ct_bytes_put_bytes\<close> writes exactly the first \<open>min n (cap_ - pos_)\<close> bytes
  of the source, returns that number, raises the overflow flag exactly when it had to drop some, and
  \<open>ct_bytes_take_bytes\<close> from the same position gives those bytes back.\<close>

theorem put_take_bytes:
  assumes ok: "bytes_ok m s" and src: "unat n \<le> length src"
  shows "\<exists>m' s'. ct_bytes_put_bytes m s (Some src) n = Some (c_int (min n (ct_bytes_writable s)), m', s') \<and>
    b_overflow s' = (b_overflow s \<or> unat (b_cap s) - unat (b_pos s) < unat n) \<and>
    ct_bytes_take_bytes m' (s'\<lparr>b_pos := b_pos s\<rparr>) True (min n (ct_bytes_writable s)) =
      Some ((c_int (min n (ct_bytes_writable s)),
             take (min (unat n) (unat (b_cap s) - unat (b_pos s))) src), s')"
proof -
  let ?k = "min n (ct_bytes_writable s)"
  let ?s = "s\<lparr>b_overflow := b_overflow s \<or> ct_bytes_writable s < n\<rparr>"
  let ?s' = "advance_extend ?s (ucast ?k)"
  obtain m' where m': "mem_put m (b_data s + unat (b_pos s)) (take (unat ?k) src) = Some m'"
      "length m' = length m"
    and put: "ct_bytes_put_bytes m s (Some src) n = Some (c_int ?k, m', ?s')"
    using put_bytes_eq [OF ok src] by blast
  have k: "unat ?k = min (unat n) (unat (b_cap s) - unat (b_pos s))"
    by (simp add: unat_min writable_nat [OF ok])
  have ok': "bytes_ok m ?s" using ok by simp
  have fits: "unat (b_pos ?s) + unat (ucast ?k :: u32) \<le> unat (b_cap ?s)"
    using clamp_writable [OF ok, of n] by simp
  note adv = advance_extend_ok [OF ok' fits, unfolded clamp_writable(2) [OF ok]]
  have flag: "b_overflow ?s' = (b_overflow s \<or> unat (b_cap s) - unat (b_pos s) < unat n)"
    by (simp add: advance_extend_def Let_def unat_facts writable_nat [OF ok])
  have okp: "bytes_ok m' (?s'\<lparr>b_pos := b_pos s\<rparr>)"
    using adv ok m'(2) by (auto simp: bytes_ok_nat)
  have "unat ?k \<le> unat (b_len ?s') - unat (b_pos s)" using adv(5) by simp
  then have "?k \<le> ct_bytes_readable (?s'\<lparr>b_pos := b_pos s\<rparr>)"
    unfolding word_le_nat_alt readable_nat [OF okp] by simp
  note le = this
  have get: "mem_get m' (b_data s + unat (b_pos s)) (unat ?k) = Some (take (unat ?k) src)"
    using mem_get_put_same [OF m'(1)] src k by (simp add: min_absorb2)
  have same: "?s'\<lparr>b_pos := b_pos s + ucast ?k\<rparr> = ?s'"
    by (simp add: advance_extend_def Let_def)
  have "ct_bytes_take_bytes m' (?s'\<lparr>b_pos := b_pos s\<rparr>) True ?k =
      Some ((c_int ?k, take (unat ?k) src), ?s')"
    using take_bytes_exact [OF le] get adv(2) same by simp
  then show ?thesis using put flag unfolding k by blast
qed

theorem put_take_bytes_witness:
  "\<exists>m' s'. ct_bytes_put_bytes (replicate 5 0) (ct_bytes_init 1 3) (Some [1, 2, 3, 4]) 4 = Some (3, m', s') \<and>
    b_overflow s' \<and>
    ct_bytes_take_bytes m' (s'\<lparr>b_pos := 0\<rparr>) True 3 = Some ((3, [1, 2, 3]), s')"
  using put_take_bytes [of "replicate 5 0" "ct_bytes_init 1 3" 4 "[1, 2, 3, 4]"]
  by (simp add: bytes_ok_def ct_bytes_init_def ct_bytes_writable_def c_int_def)

text \<open>The bytes still to be read.\<close>

definition bytes_unread :: "u8 list \<Rightarrow> ct_bytes \<Rightarrow> u8 list" where
  "bytes_unread m s = drop (unat (b_pos s)) (bytes_content m s)"

text \<open>Compaction.  \<open>ct_bytes_compact\<close> keeps exactly the unread bytes, moves them to the start of
  the storage (the regions may overlap), resets the position, and so turns the read prefix into
  writable room: afterwards \<open>len_\<close> is the number of unread bytes.\<close>

theorem compact_unread:
  assumes ok: "bytes_ok m s"
  shows "\<exists>m' s'. ct_bytes_compact m s = Some ((), m', s') \<and> bytes_ok m' s' \<and> b_pos s' = 0 \<and>
    bytes_unread m' s' = bytes_unread m s \<and> length (bytes_unread m s) = unat (b_len s')"
proof -
  let ?r = "ct_bytes_readable s"
  have r: "unat ?r = unat (b_len s) - unat (b_pos s)" by (rule readable_nat [OF ok])
  have un: "bytes_unread m s = take (unat ?r) (drop (b_data s + unat (b_pos s)) m)"
    by (simp add: bytes_unread_def bytes_content_def r drop_take add.commute)
  have len: "length (bytes_unread m s) = unat ?r"
    using ok by (elim bytes_okE) (simp add: bytes_unread_def bytes_content_def r)
  obtain m' s' where res: "ct_bytes_compact m s = Some ((), m', s')" and ok': "bytes_ok m' s'"
    using compact_safe [OF ok] by (auto simp: bytes_safe_def)
  show ?thesis
  proof (cases "b_pos s = 0 \<or> b_pos s \<ge> b_len s")
    case True
    then have "bytes_unread m' s' = bytes_unread m s \<and> b_pos s' = 0 \<and> unat (b_len s') = unat ?r"
      using res r un ok
      by (auto simp: ct_bytes_compact_def ct_bytes_clear_def bytes_unread_def bytes_content_def
          word_le_nat_alt split: if_splits)
    with res ok' len show ?thesis by auto
  next
    case False
    have fits: "unat (b_pos s) + unat ?r \<le> unat (b_cap s)"
      using ok r by (elim bytes_okE) simp
    have "mem_get m (b_data s + unat (b_pos s)) (unat ?r) = Some (bytes_unread m s)"
      unfolding un by (rule bytes_load [OF ok fits])
    then have put: "mem_put m (b_data s) (bytes_unread m s) = Some m'"
      and s': "s' = s\<lparr>b_len := ucast ?r, b_pos := 0\<rparr>"
      using res False by (auto simp: ct_bytes_compact_def Let_def split: Option.bind_splits)
    have l: "unat (b_len s') = unat ?r" using s' fits by (simp add: ucast_nat [where c = "b_cap s"])
    have "mem_get m' (b_data s) (unat ?r) = Some (bytes_unread m s)"
      using mem_get_put_same [OF put] len by simp
    then have "bytes_unread m' s' = bytes_unread m s"
      using s' l by (simp add: bytes_unread_def [of m'] bytes_content_def [of m'] mem_simps)
    with res ok' s' l len show ?thesis by auto
  qed
qed

theorem compact_unread_witness:
  "\<exists>m' s'. ct_bytes_compact [9, 1, 2, 3, 9] \<lparr>b_data = 1, b_cap = 3, b_len = 2, b_pos = 1,
      b_endian = CT_ENDIAN_BIG, b_hlswap = False, b_overflow = False\<rparr> = Some ((), m', s') \<and>
    bytes_ok m' s' \<and> b_pos s' = 0 \<and> bytes_unread m' s' = [2] \<and> unat (b_len s') = 1"
  using compact_unread [of "[9, 1, 2, 3, 9]" "\<lparr>b_data = 1, b_cap = 3, b_len = 2, b_pos = 1,
      b_endian = CT_ENDIAN_BIG, b_hlswap = False, b_overflow = False\<rparr>"]
  by (simp add: bytes_ok_def bytes_unread_def bytes_content_def eq_commute [of _ "unat _"])

text \<open>A view made by \<open>ct_bytes_since\<close> is a well-formed buffer inside its parent's storage.\<close>

lemma since_ok:
  assumes ok: "bytes_ok m s" and v: "ct_bytes_since s v0 start stop = (0, v)"
  shows "bytes_ok m v" "b_data s \<le> b_data v" "b_data v + unat (b_cap v) = b_data s + unat (b_cap s)"
    "b_data v = b_data s + unat start"
proof -
  let ?stop = "if stop = 0 then ucast (b_len s) else stop"
  have c: "\<not> ?stop < start" "\<not> ucast (b_cap s) < ?stop"
    and v': "b_data v = b_data s + unat start" "b_cap v = b_cap s - ucast start"
      "b_len v = ucast (?stop - start)" "b_pos v = 0"
    using v by (auto simp: ct_bytes_since_def Let_def split: if_splits)
  have le: "unat start \<le> unat ?stop" "unat ?stop \<le> unat (b_cap s)"
    using c by (simp_all add: word_less_nat_alt not_less split del: if_split)
  then have n: "unat (ucast start :: u32) = unat start"
    "unat (ucast (?stop - start) :: u32) = unat ?stop - unat start"
    using ucast_nat [of start "b_cap s"] ucast_nat [of "?stop - start" "b_cap s"] by (simp_all add: unat_diff_le)
  show "b_data s \<le> b_data v" "b_data v = b_data s + unat start" using v' by simp_all
  show "b_data v + unat (b_cap v) = b_data s + unat (b_cap s)"
    using v' le n by (simp add: unat_diff_le)
  then show "bytes_ok m v" using ok v' le n by (simp add: bytes_ok_nat unat_diff_le)
qed

text \<open>C4: Views.  A view carved out by \<open>ct_bytes_since\<close> shares its parent's storage, and any use of it
  is confined to the part it covers: whatever operations run on the view, the parent stays well
  formed, and of the whole memory only the bytes from the view's start to the end of the parent's
  storage can change.\<close>

theorem view_confined:
  assumes "bytes_ok m s" and "ct_bytes_since s v0 start stop = (0, v)"
    and "list_all op_source_ok ops"
  shows "\<exists>m' v'. bytes_run sys m v ops = Some (m', v') \<and> bytes_ok m' v' \<and> bytes_ok m' s \<and>
    take (b_data s + unat start) m' = take (b_data s + unat start) m \<and>
    drop (b_data s + unat (b_cap s)) m' = drop (b_data s + unat (b_cap s)) m"
proof -
  have run: "\<exists>m' v'. bytes_run sys m v ops = Some (m', v') \<and> bytes_ok m' v' \<and> bytes_frame m v m' v'"
    using bytes_run_safe [OF since_ok(1) [OF assms(1,2)] assms(3)] .
  then show ?thesis
    using since_ok(3,4) [OF assms(1,2)] bytes_ok_memory [OF assms(1)] unfolding bytes_frame_def by metis
qed

theorem view_confined_witness:
  "\<exists>m' v'. bytes_run CT_ENDIAN_BIG (replicate 6 0) (snd (ct_bytes_since (ct_bytes_from 0 4 3) (ct_bytes_init 0 0) 1 3))
      [Fill 7 9] = Some (m', v') \<and> bytes_ok m' v' \<and> bytes_ok m' (ct_bytes_from 0 4 3) \<and>
    take 1 m' = [0] \<and> drop 4 m' = replicate 2 0"
  using view_confined [of "replicate 6 0" "ct_bytes_from 0 4 3" "ct_bytes_init 0 0" 1 3
      "snd (ct_bytes_since (ct_bytes_from 0 4 3) (ct_bytes_init 0 0) 1 3)" "[Fill 7 9]" CT_ENDIAN_BIG]
  by (simp add: bytes_ok_def ct_bytes_since_def ct_bytes_from_def ct_bytes_init_def)

end
