(* ===== verification/Coter_Blocks.thy ===== *)
theory Coter_Blocks
  imports Coter_Prelude
begin

text \<open>
  Two readings of a memory block that the containers share: as a ring of cells starting at a head
  index, and as an array of fixed-size slots.
\<close>

section \<open>Rings\<close>

text \<open>\<open>ring d h n\<close> lists the \<open>n\<close> cells of \<open>d\<close> from index \<open>h\<close> on, wrapping at the end.\<close>

definition ring :: "'a list \<Rightarrow> nat \<Rightarrow> nat \<Rightarrow> 'a list" where
  "ring d h n = map (\<lambda>i. d ! ((h + i) mod length d)) [0..<n]"

lemma length_ring [simp]: "length (ring d h n) = n"
  by (simp add: ring_def)

lemma ring_0 [simp]: "ring d h 0 = []"
  by (simp add: ring_def)

lemma nth_ring: "i < n \<Longrightarrow> ring d h n ! i = d ! ((h + i) mod length d)"
  by (simp add: ring_def)

lemma ring_contiguous: "h + n \<le> length d \<Longrightarrow> ring d h n = take n (drop h d)"
  by (rule nth_equalityI) (simp_all add: nth_ring)

lemma mod_wrap: "(c::nat) \<le> x \<Longrightarrow> x < 2 * c \<Longrightarrow> x mod c = x - c"
  by (metis le_add_diff_inverse less_diff_conv2 mod_add_self1 mod_less mult_2)

lemma ring_wrap:
  assumes "h \<le> length d" "length d \<le> h + n" "n \<le> length d"
  shows "ring d h n = drop h d @ take (h + n - length d) d"
proof (rule nth_equalityI)
  fix i
  assume "i < length (ring d h n)"
  then show "ring d h n ! i = (drop h d @ take (h + n - length d) d) ! i"
    using assms by (cases "h + i < length d") (auto simp: nth_ring nth_append mod_wrap add.commute)
qed (use assms in simp)

lemma ring_take: "k \<le> n \<Longrightarrow> take k (ring d h n) = ring d h k"
  by (rule nth_equalityI) (simp_all add: nth_ring)

lemma ring_drop: "k \<le> n \<Longrightarrow> drop k (ring d h n) = ring d ((h + k) mod length d) (n - k)"
  by (rule nth_equalityI) (simp_all add: nth_ring mod_add_left_eq add.assoc)

text \<open>The indices of a ring that holds no more than the block are distinct.\<close>

lemma ring_index_distinct:
  assumes "i < j" "j < i + c"
  shows "(h + i) mod c \<noteq> (h + j) mod (c::nat)"
proof
  assume "(h + i) mod c = (h + j) mod c"
  then have "c dvd (h + j) - (h + i)"
    using mod_eq_dvd_iff_nat [of "h + i" "h + j" c] assms(1) by simp
  then have "c dvd j - i" by simp
  moreover have "0 < j - i" "j - i < c" using assms by linarith+
  ultimately show False using dvd_imp_le [of c "j - i"] by linarith
qed

text \<open>\<open>ring_stored d d' t ys\<close>: \<open>d'\<close> is \<open>d\<close> with \<open>ys\<close> stored from index \<open>t\<close> on, wrapping.\<close>

definition ring_stored :: "'a list \<Rightarrow> 'a list \<Rightarrow> nat \<Rightarrow> 'a list \<Rightarrow> bool" where
  "ring_stored d d' t ys \<longleftrightarrow> length d' = length d \<and>
     (\<forall>i < length ys. d' ! ((t + i) mod length d) = ys ! i) \<and>
     (\<forall>j < length d. (\<forall>i < length ys. j \<noteq> (t + i) mod length d) \<longrightarrow> d' ! j = d ! j)"

lemma ring_append:
  assumes st: "ring_stored d d' ((h + n) mod length d) ys" and room: "n + length ys \<le> length d"
  shows "ring d' h (n + length ys) = ring d h n @ ys"
proof (rule nth_equalityI)
  fix i
  assume "i < length (ring d' h (n + length ys))"
  then have i: "i < n + length ys" by simp
  then have pos: "0 < length d" using room by linarith
  have len: "length d' = length d" using st by (simp add: ring_stored_def)
  show "ring d' h (n + length ys) ! i = (ring d h n @ ys) ! i"
  proof (cases "i < n")
    case True
    have "(h + i) mod length d \<noteq> ((h + n) mod length d + k) mod length d" if "k < length ys" for k
      using ring_index_distinct [of i "n + k" "length d" h] True that room
      by (simp add: mod_add_left_eq add.assoc)
    then have "d' ! ((h + i) mod length d) = d ! ((h + i) mod length d)"
      using st pos by (simp add: ring_stored_def)
    then show ?thesis using True i by (simp add: nth_ring nth_append len)
  next
    case False
    then obtain k where k: "i = n + k" by (metis le_add_diff_inverse not_less)
    then have "d' ! (((h + n) mod length d + k) mod length d) = ys ! k"
      using st i by (simp add: ring_stored_def)
    then show ?thesis using k i by (simp add: nth_ring nth_append len mod_add_left_eq add.assoc)
  qed
qed simp

lemma ring_stored_contiguous:
  assumes "mem_put d t ys = Some d'" and "t + length ys \<le> length d"
  shows "ring_stored d d' t ys"
proof -
  have "d' ! j = d ! j" if "j < length d" "\<forall>i < length ys. j \<noteq> (t + i) mod length d" for j
  proof (cases "t \<le> j \<and> j < t + length ys")
    case True
    then have "j = (t + (j - t)) mod length d" using that(1) by simp
    moreover have "j - t < length ys" using True by linarith
    ultimately show ?thesis using that(2) by blast
  qed (use mem_put_nth [OF assms(1) that(1)] in auto)
  then show ?thesis
    using mem_put_length [OF assms(1)] mem_put_nth [OF assms(1)] assms(2)
    by (simp add: ring_stored_def)
qed

lemma ring_stored_wrap:
  assumes one: "mem_put d t xs = Some d1" and two: "mem_put d1 0 ys = Some d2"
    and end_: "t + length xs = length d" and fits: "length ys \<le> t"
  shows "ring_stored d d2 t (xs @ ys)"
proof -
  have len: "length d1 = length d" "length d2 = length d"
    using mem_put_length [OF one] mem_put_length [OF two] by simp_all
  have val: "d2 ! j = (if j < length ys then ys ! j else if t \<le> j then xs ! (j - t) else d ! j)"
    if "j < length d" for j
    using mem_put_nth [OF one that] mem_put_nth [OF two] that len end_ by auto
  have idx: "(t + i) mod length d = (if i < length xs then t + i else i - length xs)"
    if "i < length xs + length ys" for i
  proof (cases "i < length xs")
    case False
    then have "length d \<le> t + i" "t + i < 2 * length d" using that end_ fits by linarith+
    from mod_wrap [OF this] show ?thesis using False end_ by simp
  qed (use end_ in simp)
  have a: "d2 ! ((t + i) mod length d) = (xs @ ys) ! i" if "i < length (xs @ ys)" for i
    using that end_ fits by (auto simp: idx val nth_append)
  have b: "d2 ! j = d ! j" if j: "j < length d" and n: "\<forall>i < length (xs @ ys). j \<noteq> (t + i) mod length d" for j
  proof -
    have "\<not> j < length ys" using n [rule_format, of "length xs + j"] by (auto simp: idx)
    moreover have "\<not> t \<le> j" 
    proof
      assume t: "t \<le> j"
      then have k: "j - t < length xs" using j end_ by linarith
      then have "(t + (j - t)) mod length d = j" using idx [of "j - t"] t by simp
      with n k show False by (metis length_append trans_less_add1)
    qed
    ultimately show ?thesis using val [OF j] by simp
  qed
  from a b len show ?thesis by (simp add: ring_stored_def)
qed

section \<open>Slots\<close>

text \<open>
  An array of elements of \<open>w\<close> bytes is a byte block; \<open>slot w m i\<close> is the image of element \<open>i\<close> and
  \<open>slots w m n\<close> lists the first \<open>n\<close>.  \<open>memcpy\<close> of one element is \<open>slot_get\<close> or \<open>slot_put\<close>.
\<close>

definition slot :: "nat \<Rightarrow> u8 list \<Rightarrow> nat \<Rightarrow> u8 list" where
  "slot w m i = take w (drop (i * w) m)"

definition slots :: "nat \<Rightarrow> u8 list \<Rightarrow> nat \<Rightarrow> u8 list list" where
  "slots w m n = map (slot w m) [0..<n]"

lemma length_slots [simp]: "length (slots w m n) = n"
  by (simp add: slots_def)

lemma nth_slots: "i < n \<Longrightarrow> slots w m n ! i = slot w m i"
  by (simp add: slots_def)

lemma slot_bound: "i < n \<Longrightarrow> n * w \<le> k \<Longrightarrow> i * w + w \<le> (k::nat)"
  by (metis Suc_leI add.commute le_trans mult_Suc mult_le_mono1)

lemma length_slot: "i < n \<Longrightarrow> n * w \<le> length m \<Longrightarrow> length (slot w m i) = w"
  using slot_bound [of i n w "length m"] by (simp add: slot_def)

lemma slot_get: "i < n \<Longrightarrow> n * w \<le> length m \<Longrightarrow> mem_get m (i * w) w = Some (slot w m i)"
  using slot_bound [of i n w "length m"] by (simp add: mem_get_ok slot_def)

lemma slot_put_ex:
  assumes "i < n" "n * w \<le> length m" "length x = w"
  obtains m' where "mem_put m (i * w) x = Some m'" "length m' = length m"
  using assms slot_bound [of i n w "length m"] mem_put_length by (metis mem_put_ok)

lemma slot_put_same: "mem_put m (i * w) x = Some m' \<Longrightarrow> length x = w \<Longrightarrow> slot w m' i = x"
  using mem_get_put_same [of m "i * w" x m'] by (simp add: slot_def mem_simps)

lemma slot_put_other:
  assumes put: "mem_put m (i * w) x = Some m'" and w: "length x = w" and ne: "i \<noteq> j"
    and j: "j < n" "n * w \<le> length m"
  shows "slot w m' j = slot w m j"
proof -
  have "j * w + w \<le> i * w \<or> i * w + length x \<le> j * w"
    using ne w by (metis add.commute linorder_neqE_nat mult_Suc mult_le_mono1 Suc_leI)
  then have "mem_get m' (j * w) w = mem_get m (j * w) w" by (rule mem_get_put_other [OF put])
  then show ?thesis
    using slot_get [OF j] slot_get [of j n w m'] j mem_put_length [OF put] by simp
qed

lemma slots_put:
  assumes "mem_put m (i * w) x = Some m'" "length x = w" "n * w \<le> length m"
  shows "slots w m' n = (slots w m n)[i := x]"
proof (rule nth_equalityI)
  fix j
  assume "j < length (slots w m' n)"
  then show "slots w m' n ! j = (slots w m n)[i := x] ! j"
    using slot_put_same [OF assms(1,2)] slot_put_other [OF assms(1,2) _ _ assms(3)]
    by (cases "i = j") (auto simp: nth_slots nth_list_update)
qed simp

lemma slots_Suc: "slots w m (Suc n) = slots w m n @ [slot w m n]"
  by (simp add: slots_def)

lemma take_slots: "k \<le> n \<Longrightarrow> take k (slots w m n) = slots w m k"
  by (simp add: slots_def take_map)

text \<open>Storing a run of \<open>k\<close> element images at once, and reading one.\<close>

lemma slot_put_run:
  assumes put: "mem_put m (a * w) ys = Some m'" and ys: "length ys = k * w"
    and j: "j < n" "n * w \<le> length m"
  shows "slot w m' j = (if a \<le> j \<and> j < a + k then take w (drop ((j - a) * w) ys) else slot w m j)"
proof (cases "a \<le> j \<and> j < a + k")
  case True
  then obtain i where i: "j = a + i" "i < k" by (metis add_less_cancel_left le_iff_add)
  have "take (k * w) (drop (a * w) m') = ys"
    using mem_get_put_same [OF put] ys by (simp add: mem_simps)
  then have "take w (drop (i * w) ys) = take w (drop (i * w) (take (k * w) (drop (a * w) m')))" by simp
  also have "\<dots> = take (min w (k * w - i * w)) (drop (j * w) m')"
    by (simp add: i drop_take algebra_simps)
  also have "min w (k * w - i * w) = w" using slot_bound [OF i(2) order_refl, of w] by simp
  finally show ?thesis using True i by (simp add: slot_def)
next
  case False
  then consider "j < a" | "a + k \<le> j" by linarith
  then have "j * w + w \<le> a * w \<or> a * w + length ys \<le> j * w"
  proof cases
    case 1
    then show ?thesis using slot_bound [of j a w "a * w"] by simp
  next
    case 2
    then have "(a + k) * w \<le> j * w" by (intro mult_le_mono1) simp
    then show ?thesis using ys by (simp add: algebra_simps)
  qed
  then have "mem_get m' (j * w) w = mem_get m (j * w) w" by (rule mem_get_put_other [OF put])
  then show ?thesis
    using slot_get [OF j] slot_get [of j n w m'] j mem_put_length [OF put] False by auto
qed

lemma slot_of_run:
  assumes "i < k" "(a + k) * w \<le> length m"
  shows "take w (drop (i * w) (take (k * w) (drop (a * w) m))) = slot w m (a + i)"
proof -
  have "i * w + w \<le> k * w" by (rule slot_bound [OF assms(1) order_refl])
  then show ?thesis by (simp add: slot_def drop_take min_def algebra_simps)
qed

text \<open>Making room for an element, and closing the gap of a removed one.\<close>

lemma slots_insert:
  assumes c: "(n + 1) * w \<le> length m" and i: "i \<le> n" and x: "length x = w"
    and run: "mem_get m (i * w) ((n - i) * w) = Some bs"
    and one: "mem_put m ((i + 1) * w) bs = Some m1" and two: "mem_put m1 (i * w) x = Some m2"
  shows "slots w m2 (n + 1) = take i (slots w m n) @ x # drop i (slots w m n)"
proof (rule nth_equalityI)
  fix j
  assume "j < length (slots w m2 (n + 1))"
  then have j: "j < n + 1" by simp
  have bs: "bs = take ((n - i) * w) (drop (i * w) m)" "length bs = (n - i) * w"
    using run by (auto simp: mem_simps)
  have l1: "length m1 = length m" by (rule mem_put_length [OF one])
  have "slot w m2 j = (if j = i then x else slot w m1 j)"
    using slot_put_run [OF two _ j, of 1] x c l1 by auto
  moreover have "slot w m1 j = (if i + 1 \<le> j then slot w m (j - 1) else slot w m j)"
  proof -
    have "slot w m1 j = (if i + 1 \<le> j \<and> j < i + 1 + (n - i)
        then take w (drop ((j - (i + 1)) * w) bs) else slot w m j)"
      by (rule slot_put_run [OF one bs(2) j c])
    moreover have "take w (drop ((j - (i + 1)) * w) bs) = slot w m (j - 1)" if "i + 1 \<le> j"
    proof -
      have "n * w \<le> length m" using c by simp
      then show ?thesis
        using slot_of_run [of "j - (i + 1)" "n - i" i w m] that j i by (simp add: bs(1))
    qed
    moreover have "j < i + 1 + (n - i)" using j i by simp
    ultimately show ?thesis by simp
  qed
  ultimately show "slots w m2 (n + 1) ! j = (take i (slots w m n) @ x # drop i (slots w m n)) ! j"
    using j i by (auto simp: nth_slots nth_append nth_Cons' min_def)
qed (use i in simp)

lemma slots_erase:
  assumes c: "n * w \<le> length m" and i: "i < n"
    and run: "mem_get m ((i + 1) * w) ((n - i - 1) * w) = Some bs"
    and put: "mem_put m (i * w) bs = Some m1"
  shows "slots w m1 (n - 1) = take i (slots w m n) @ drop (i + 1) (slots w m n)"
proof (rule nth_equalityI)
  fix j
  assume "j < length (slots w m1 (n - 1))"
  then have j: "j < n - 1" by simp
  have bs: "bs = take ((n - i - 1) * w) (drop ((i + 1) * w) m)" "length bs = (n - i - 1) * w"
    using run by (auto simp: mem_simps)
  have "slot w m1 j = (if i \<le> j \<and> j < i + (n - i - 1) then take w (drop ((j - i) * w) bs) else slot w m j)"
    using j by (intro slot_put_run [OF put bs(2) _ c]) simp
  moreover have "take w (drop ((j - i) * w) bs) = slot w m (j + 1)" if "i \<le> j"
    using slot_of_run [of "j - i" "n - i - 1" "i + 1" w m] that j i c by (simp add: bs(1))
  moreover have "j < i + (n - i - 1)" if "i \<le> j" using j i by simp
  ultimately have "slot w m1 j = (if i \<le> j then slot w m (j + 1) else slot w m j)" by simp
  then show "slots w m1 (n - 1) ! j = (take i (slots w m n) @ drop (i + 1) (slots w m n)) ! j"
    using j i by (auto simp: nth_slots nth_append min_def)
qed (use i in simp)

lemma slots_prefix:
  assumes "take (n * w) m = take (n * w) m'"
  shows "slots w m n = slots w m' n"
proof (rule nth_equalityI)
  fix j
  assume "j < length (slots w m n)"
  then have j: "j < n" by simp
  have "j * w + w \<le> n * w" by (rule slot_bound [OF j order_refl])
  then have eq: "\<And>m :: u8 list. slot w m j = drop (j * w) (take (j * w + w) (take (n * w) m))"
    by (simp add: slot_def drop_take min_def)
  then have "slot w m j = slot w m' j" unfolding eq assms ..
  then show "slots w m n ! j = slots w m' n ! j" using j by (simp add: nth_slots)
qed simp

end
