(* ===== verification/Coter_Rbuf.thy ===== *)
theory Coter_Rbuf
  imports Coter_Blocks
begin

text \<open>
  \<open>bytes/rbuf.h\<close> and \<open>bytes/rbuf.c\<close>: a byte ring over memory the caller provides.  All indices are
  \<open>size_t\<close> and wrap as in C.  \<open>rb_data\<close> is the backing memory; a \<open>NULL\<close> source or destination is
  \<^const>\<open>None\<close> or \<^const>\<open>False\<close>, reads return the bytes they store at the destination, and
  \<open>read_ptr\<close>/\<open>write_ptr\<close> return the offset of the chunk they point to.
\<close>

section \<open>State and operations\<close>

record ct_rbuf =
  rb_data :: "u8 list"
  rb_cap :: size_t
  rb_head :: size_t
  rb_tail :: size_t
  rb_len :: size_t

definition ct_rbuf_init :: "u8 list \<Rightarrow> size_t \<Rightarrow> ct_rbuf" where
  "ct_rbuf_init buffer cap = \<lparr>rb_data = buffer, rb_cap = cap, rb_head = 0, rb_tail = 0, rb_len = 0\<rparr>"

definition ct_rbuf_remain :: "ct_rbuf \<Rightarrow> size_t" where
  "ct_rbuf_remain self = rb_cap self - rb_len self"

definition ct_rbuf_is_empty :: "ct_rbuf \<Rightarrow> bool" where
  "ct_rbuf_is_empty self \<longleftrightarrow> rb_len self = 0"

definition ct_rbuf_is_full :: "ct_rbuf \<Rightarrow> bool" where
  "ct_rbuf_is_full self \<longleftrightarrow> rb_len self = rb_cap self"

definition ct_rbuf_clear :: "ct_rbuf \<Rightarrow> ct_rbuf" where
  "ct_rbuf_clear self = self\<lparr>rb_len := 0, rb_head := 0, rb_tail := 0\<rparr>"

definition ct_rbuf_write :: "ct_rbuf \<Rightarrow> u8 list option \<Rightarrow> size_t \<Rightarrow> (size_t \<times> ct_rbuf) option" where
  "ct_rbuf_write self src len =
     (case src of
        None \<Rightarrow> Some (0, self)
      | Some src \<Rightarrow>
          let len = (if len + rb_len self > rb_cap self then rb_cap self - rb_len self else len)
          in if len = 0 then Some (0, self)
             else do {
               self \<leftarrow>
                 (if rb_tail self + len \<le> rb_cap self then do {
                    bs \<leftarrow> mem_get src 0 (unat len);
                    d \<leftarrow> mem_put (rb_data self) (unat (rb_tail self)) bs;
                    Some (self\<lparr>rb_data := d, rb_tail := rb_tail self + len\<rparr>) }
                  else do {
                    let first = rb_cap self - rb_tail self;
                    let rest = len - first;
                    bs \<leftarrow> mem_get src 0 (unat first);
                    d \<leftarrow> mem_put (rb_data self) (unat (rb_tail self)) bs;
                    bs \<leftarrow> mem_get src (unat first) (unat rest);
                    d \<leftarrow> mem_put d 0 bs;
                    Some (self\<lparr>rb_data := d, rb_tail := rest\<rparr>) });
               let self = self\<lparr>rb_len := rb_len self + len\<rparr>;
               let self = (if rb_tail self = rb_cap self then self\<lparr>rb_tail := 0\<rparr> else self);
               Some (len, self) })"

definition ct_rbuf_read :: "ct_rbuf \<Rightarrow> bool \<Rightarrow> size_t \<Rightarrow> (size_t \<times> u8 list \<times> ct_rbuf) option" where
  "ct_rbuf_read self dst len =
     (if \<not> dst then Some (0, [], self)
      else let len = (if len > rb_len self then rb_len self else len)
           in if len = 0 then Some (0, [], self)
              else do {
                (out, self) \<leftarrow>
                  (if rb_head self + len \<le> rb_cap self then do {
                     bs \<leftarrow> mem_get (rb_data self) (unat (rb_head self)) (unat len);
                     Some (bs, self\<lparr>rb_head := rb_head self + len\<rparr>) }
                   else do {
                     let first = rb_cap self - rb_head self;
                     let rest = len - first;
                     xs \<leftarrow> mem_get (rb_data self) (unat (rb_head self)) (unat first);
                     ys \<leftarrow> mem_get (rb_data self) 0 (unat rest);
                     Some (xs @ ys, self\<lparr>rb_head := rest\<rparr>) });
                let self = self\<lparr>rb_len := rb_len self - len\<rparr>;
                let self = (if rb_head self = rb_cap self then self\<lparr>rb_head := 0\<rparr> else self);
                Some (len, out, self) })"

definition ct_rbuf_peek :: "ct_rbuf \<Rightarrow> bool \<Rightarrow> size_t \<Rightarrow> (size_t \<times> u8 list) option" where
  "ct_rbuf_peek self dst len =
     (if \<not> dst then Some (0, [])
      else let len = (if len > rb_len self then rb_len self else len)
           in if len = 0 then Some (0, [])
              else if rb_head self + len \<le> rb_cap self then do {
                bs \<leftarrow> mem_get (rb_data self) (unat (rb_head self)) (unat len);
                Some (len, bs) }
              else do {
                let first = rb_cap self - rb_head self;
                let rest = len - first;
                xs \<leftarrow> mem_get (rb_data self) (unat (rb_head self)) (unat first);
                ys \<leftarrow> mem_get (rb_data self) 0 (unat rest);
                Some (len, xs @ ys) })"

text \<open>\<^const>\<open>None\<close> stands for the \<open>NULL\<close> pointer; the number is \<open>*chunk_len\<close>.\<close>

definition ct_rbuf_read_ptr :: "ct_rbuf \<Rightarrow> size_t option \<times> size_t" where
  "ct_rbuf_read_ptr self =
     (if rb_len self = 0 then (None, 0)
      else let until_end = rb_cap self - rb_head self
           in (Some (rb_head self), if rb_len self \<le> until_end then rb_len self else until_end))"

definition ct_rbuf_write_ptr :: "ct_rbuf \<Rightarrow> size_t option \<times> size_t" where
  "ct_rbuf_write_ptr self =
     (let writable = rb_cap self - rb_len self
      in if writable = 0 then (None, 0)
         else let until_end = rb_cap self - rb_tail self
              in (Some (rb_tail self), if writable \<le> until_end then writable else until_end))"

definition ct_rbuf_remove :: "ct_rbuf \<Rightarrow> size_t \<Rightarrow> size_t \<times> ct_rbuf" where
  "ct_rbuf_remove self len =
     (let len = (if len > rb_len self then rb_len self else len)
      in if len > 0
         then let self = self\<lparr>rb_head := rb_head self + len\<rparr>;
                  self = (if rb_head self \<ge> rb_cap self
                          then self\<lparr>rb_head := rb_head self - rb_cap self\<rparr> else self)
              in (len, self\<lparr>rb_len := rb_len self - len\<rparr>)
         else (len, self))"

definition ct_rbuf_commit :: "ct_rbuf \<Rightarrow> size_t \<Rightarrow> size_t \<times> ct_rbuf" where
  "ct_rbuf_commit self len =
     (let len = (if len + rb_len self > rb_cap self then rb_cap self - rb_len self else len)
      in if len > 0
         then let self = self\<lparr>rb_tail := rb_tail self + len\<rparr>;
                  self = (if rb_tail self \<ge> rb_cap self
                          then self\<lparr>rb_tail := rb_tail self - rb_cap self\<rparr> else self)
              in (len, self\<lparr>rb_len := rb_len self + len\<rparr>)
         else (len, self))"

section \<open>Invariant and abstraction\<close>

text \<open>
  Inside the invariant the indices are below the capacity and the write cursor is determined by the
  read cursor and the length.  The capacity of an object in memory is at most \<open>PTRDIFF_MAX\<close>, so
  sums of two indices do not wrap.  \<open>rbuf_list\<close> is the queue of bytes the ring stands for.
\<close>

definition rbuf_ok :: "ct_rbuf \<Rightarrow> bool" where
  "rbuf_ok r \<longleftrightarrow> length (rb_data r) = unat (rb_cap r) \<and> unat (rb_cap r) < 2 ^ 63 \<and>
     unat (rb_len r) \<le> unat (rb_cap r) \<and>
     (if unat (rb_cap r) = 0 then unat (rb_head r) = 0 \<and> unat (rb_tail r) = 0
      else unat (rb_head r) < unat (rb_cap r) \<and>
           unat (rb_tail r) = (unat (rb_head r) + unat (rb_len r)) mod unat (rb_cap r))"

definition rbuf_list :: "ct_rbuf \<Rightarrow> u8 list" where
  "rbuf_list r = ring (rb_data r) (unat (rb_head r)) (unat (rb_len r))"

lemma length_rbuf_list [simp]: "length (rbuf_list r) = unat (rb_len r)"
  by (simp add: rbuf_list_def)

lemma init_ok:
  "length buffer = unat cap \<Longrightarrow> unat cap < 2 ^ 63 \<Longrightarrow>
   rbuf_ok (ct_rbuf_init buffer cap) \<and> rbuf_list (ct_rbuf_init buffer cap) = []"
  by (auto simp: rbuf_ok_def rbuf_list_def ct_rbuf_init_def)

lemma clear_ok: "rbuf_ok r \<Longrightarrow> rbuf_ok (ct_rbuf_clear r) \<and> rbuf_list (ct_rbuf_clear r) = []"
  by (auto simp: rbuf_ok_def rbuf_list_def ct_rbuf_clear_def)

text \<open>The two clamps of the code.\<close>

lemma clamp_room:
  assumes "rbuf_ok r" and "unat len + unat (rb_len r) < 2 ^ 64"
  shows "unat (if len + rb_len r > rb_cap r then rb_cap r - rb_len r else len) =
    min (unat len) (unat (rb_cap r) - unat (rb_len r))"
  using assms by (auto simp: rbuf_ok_def unat_facts)

lemma clamp_used:
  "unat (if len > rb_len r then rb_len r else len) = min (unat len) (unat (rb_len r))"
  by (auto simp: unat_facts)

text \<open>Advancing a cursor by \<open>L\<close> steps, in the two ways the code does it.\<close>

lemma advance_cursor:
  fixes t L c :: size_t
  assumes c: "unat c < 2 ^ 63" and t: "unat t < unat c" and L: "unat L \<le> unat c"
  shows "unat (t + L) = unat t + unat L"
    and "t + L \<le> c \<longleftrightarrow> unat t + unat L \<le> unat c"
    and "unat (c - t) = unat c - unat t"
    and "\<not> t + L \<le> c \<Longrightarrow> unat (L - (c - t)) = unat t + unat L - unat c"
    and "unat (if t + L \<le> c then (if t + L = c then 0 else t + L) else L - (c - t)) =
      (unat t + unat L) mod unat c"
    and "unat (if t + L \<ge> c then t + L - c else t + L) = (unat t + unat L) mod unat c"
proof -
  show sum: "unat (t + L) = unat t + unat L" using assms by (intro unat_plus_lt) simp
  then show le: "t + L \<le> c \<longleftrightarrow> unat t + unat L \<le> unat c" by (simp add: word_le_nat_alt)
  show d: "unat (c - t) = unat c - unat t" using t by (simp add: unat_diff_le)
  show rest: "unat (L - (c - t)) = unat t + unat L - unat c" if "\<not> t + L \<le> c"
    using that le t d by (simp add: unat_diff_le)
  have m: "unat c \<le> unat t + unat L \<Longrightarrow> (unat t + unat L) mod unat c = unat t + unat L - unat c"
    using t L by (intro mod_wrap) simp_all
  have eq: "t + L = c \<longleftrightarrow> unat t + unat L = unat c" using sum by (simp add: word_unat_eq_iff)
  show "unat (if t + L \<le> c then (if t + L = c then 0 else t + L) else L - (c - t)) =
      (unat t + unat L) mod unat c"
    using sum le rest m eq by auto
  have "unat (t + L - c) = unat t + unat L - unat c" if "c \<le> t + L"
    using that sum by (simp add: unat_diff_le word_le_nat_alt)
  moreover have "c \<le> t + L \<longleftrightarrow> unat c \<le> unat t + unat L" using sum by (simp add: word_le_nat_alt)
  ultimately show "unat (if t + L \<ge> c then t + L - c else t + L) = (unat t + unat L) mod unat c"
    using m sum by auto
qed

text \<open>What the state looks like after \<open>ys\<close> was stored at the write cursor, and after \<open>k\<close> bytes were
  dropped at the read cursor.\<close>

lemma stored_ok:
  assumes ok: "rbuf_ok r" and st: "ring_stored (rb_data r) d' (unat (rb_tail r)) ys"
    and room: "unat (rb_len r) + length ys \<le> unat (rb_cap r)" and k: "unat L = length ys" "0 < length ys"
    and t: "unat t = (unat (rb_tail r) + length ys) mod unat (rb_cap r)"
    and r': "r' = r\<lparr>rb_data := d', rb_tail := t, rb_len := rb_len r + L\<rparr>"
  shows "rbuf_ok r' \<and> rbuf_list r' = rbuf_list r @ ys"
proof -
  let ?c = "unat (rb_cap r)"
  have c: "length (rb_data r) = ?c" "?c < 2 ^ 63" "0 < ?c" using ok room k by (auto simp: rbuf_ok_def)
  have tl: "unat (rb_tail r) = (unat (rb_head r) + unat (rb_len r)) mod ?c" "unat (rb_head r) < ?c"
    using ok c(3) by (auto simp: rbuf_ok_def split: if_splits)
  have len: "unat (rb_len r + L) = unat (rb_len r) + length ys"
    using room c k by (subst unat_plus_lt) simp_all
  have d': "length d' = ?c" using st c by (simp add: ring_stored_def)
  have "rbuf_list r' = rbuf_list r @ ys"
    using ring_append [of "rb_data r" d' "unat (rb_head r)" "unat (rb_len r)" ys] st tl c room
    by (simp add: rbuf_list_def r' len)
  moreover have "rbuf_ok r'"
    using tl c d' room by (simp add: rbuf_ok_def r' len t mod_add_left_eq add.assoc)
  ultimately show ?thesis by simp
qed

lemma dropped_ok:
  assumes ok: "rbuf_ok r" and k: "0 < unat L" "unat L \<le> unat (rb_len r)"
    and h: "unat h = (unat (rb_head r) + unat L) mod unat (rb_cap r)"
    and r': "r' = r\<lparr>rb_head := h, rb_len := rb_len r - L\<rparr>"
  shows "rbuf_ok r' \<and> rbuf_list r' = drop (unat L) (rbuf_list r)"
proof -
  let ?c = "unat (rb_cap r)"
  have c: "length (rb_data r) = ?c" "0 < ?c" "unat (rb_len r) \<le> ?c" using ok k by (auto simp: rbuf_ok_def)
  have tl: "unat (rb_tail r) = (unat (rb_head r) + unat (rb_len r)) mod ?c"
    using ok c(2) by (auto simp: rbuf_ok_def split: if_splits)
  have len: "unat (rb_len r - L) = unat (rb_len r) - unat L" using k by (simp add: unat_diff_le)
  have "rbuf_list r' = drop (unat L) (rbuf_list r)"
    using ring_drop [OF k(2), of "rb_data r" "unat (rb_head r)"] c by (simp add: rbuf_list_def r' len h)
  moreover have "rbuf_ok r'"
  proof -
    have "((unat (rb_head r) + unat L) mod ?c + (unat (rb_len r) - unat L)) mod ?c =
        (unat (rb_head r) + unat L + (unat (rb_len r) - unat L)) mod ?c"
      by (rule mod_add_left_eq)
    then show ?thesis using ok c tl k by (simp add: rbuf_ok_def r' len h)
  qed
  ultimately show ?thesis by simp
qed

section \<open>Writing and reading\<close>

lemma write_ok:
  assumes ok: "rbuf_ok r" and ov: "unat len + unat (rb_len r) < 2 ^ 64" and src: "unat len \<le> length src"
  shows "\<exists>r'. ct_rbuf_write r (Some src) len =
      Some (of_nat (min (unat len) (unat (rb_cap r) - unat (rb_len r))), r') \<and> rbuf_ok r' \<and>
    rb_cap r' = rb_cap r \<and>
    rbuf_list r' = rbuf_list r @ take (min (unat len) (unat (rb_cap r) - unat (rb_len r))) src"
proof -
  define L where "L = (if len + rb_len r > rb_cap r then rb_cap r - rb_len r else len)"
  let ?c = "unat (rb_cap r)"
  have L: "unat L = min (unat len) (?c - unat (rb_len r))" unfolding L_def by (rule clamp_room [OF ok ov])
  then have Lw: "of_nat (min (unat len) (?c - unat (rb_len r))) = L" by (simp flip: L)
  show ?thesis
  proof (cases "L = 0")
    case True
    then have "min (unat len) (?c - unat (rb_len r)) = 0" using L by simp
    moreover have "ct_rbuf_write r (Some src) len = Some (0, r)"
      using True by (simp add: ct_rbuf_write_def Let_def flip: L_def)
    ultimately show ?thesis using ok by auto
  next
    case False
    then have pos: "0 < unat L" by (simp add: unat_gt_0)
    have c: "length (rb_data r) = ?c" "?c < 2 ^ 63" "unat (rb_len r) \<le> ?c" using ok by (simp_all add: rbuf_ok_def)
    have room: "unat (rb_len r) + unat L \<le> ?c" using L c(3) by linarith
    have t: "unat (rb_tail r) < ?c" using ok pos room by (auto simp: rbuf_ok_def split: if_splits)
    have Lc: "unat L \<le> ?c" and Ls: "unat L \<le> length src" using room L src by linarith+
    note adv = advance_cursor [OF c(2) t Lc]
    obtain d' where st: "ring_stored (rb_data r) d' (unat (rb_tail r)) (take (unat L) src)"
      and res: "ct_rbuf_write r (Some src) len = Some (L, r\<lparr>rb_data := d',
          rb_tail := (if rb_tail r + L \<le> rb_cap r then (if rb_tail r + L = rb_cap r then 0 else rb_tail r + L)
            else L - (rb_cap r - rb_tail r)), rb_len := rb_len r + L\<rparr>)"
    proof (cases "rb_tail r + L \<le> rb_cap r")
      case True
      then have fits: "unat (rb_tail r) + length (take (unat L) src) \<le> length (rb_data r)"
        using adv(2) c Ls by simp
      then obtain d' where d': "mem_put (rb_data r) (unat (rb_tail r)) (take (unat L) src) = Some d'"
        using mem_put_ok by blast
      from True False d' Ls have "ct_rbuf_write r (Some src) len = Some (L, r\<lparr>rb_data := d',
          rb_tail := (if rb_tail r + L = rb_cap r then 0 else rb_tail r + L), rb_len := rb_len r + L\<rparr>)"
        by (simp add: ct_rbuf_write_def Let_def mem_get_ok flip: L_def)
      with True that [OF ring_stored_contiguous [OF d' fits]] show ?thesis by simp
    next
      case wrap: False
      let ?f = "rb_cap r - rb_tail r"
      let ?xs = "take (unat ?f) src" and ?ys = "take (unat (L - ?f)) (drop (unat ?f) src)"
      have f: "unat ?f = ?c - unat (rb_tail r)" "unat (L - ?f) = unat (rb_tail r) + unat L - ?c"
        using adv(3,4) wrap by simp_all
      have nw: "?c < unat (rb_tail r) + unat L" using wrap adv(2) by simp
      have len: "length ?xs = unat ?f" "length ?ys = unat (L - ?f)" using f Ls t nw by auto
      obtain d1 where d1: "mem_put (rb_data r) (unat (rb_tail r)) ?xs = Some d1"
        using mem_put_ok [of "unat (rb_tail r)" ?xs "rb_data r"] len f t c by simp
      have "0 + length ?ys \<le> length d1" using len(2) f(2) t Lc c(1) mem_put_length [OF d1] by linarith
      then obtain d' where d': "mem_put d1 0 ?ys = Some d'" using mem_put_ok by blast
      have get: "mem_get src 0 (unat ?f) = Some ?xs" "mem_get src (unat ?f) (unat (L - ?f)) = Some ?ys"
        using f Ls t nw by (simp_all add: mem_get_def)
      have "unat (L - ?f) < ?c" using f(2) Lc t by linarith
      then have ne: "L - ?f \<noteq> rb_cap r" by (metis less_irrefl)
      have "take (unat L) src = ?xs @ ?ys" using f t nw by (simp flip: take_add)
      moreover have "ring_stored (rb_data r) d' (unat (rb_tail r)) (?xs @ ?ys)"
        by (rule ring_stored_wrap [OF d1 d']) (use len f c t Lc in linarith)+
      moreover have "ct_rbuf_write r (Some src) len = Some (L, r\<lparr>rb_data := d',
          rb_tail := L - ?f, rb_len := rb_len r + L\<rparr>)"
        using wrap False get d1 d' ne by (simp add: ct_rbuf_write_def Let_def flip: L_def)
      ultimately show ?thesis using that wrap by simp
    qed
    have len: "length (take (unat L) src) = unat L" using Ls by simp
    have "rbuf_ok r' \<and> rbuf_list r' = rbuf_list r @ take (unat L) src"
      if "r' = r\<lparr>rb_data := d',
          rb_tail := (if rb_tail r + L \<le> rb_cap r then (if rb_tail r + L = rb_cap r then 0 else rb_tail r + L)
            else L - (rb_cap r - rb_tail r)), rb_len := rb_len r + L\<rparr>" for r'
      by (rule stored_ok [OF ok st _ _ _ _ that]) (use room pos adv(5) in \<open>simp_all only: len\<close>)
    with res show ?thesis unfolding Lw unfolding L [symmetric] by simp
  qed
qed

text \<open>The two-chunk load of \<open>read\<close> and \<open>peek\<close>.\<close>

lemma load_chunks:
  assumes ok: "rbuf_ok r" and L: "0 < unat L" "unat L \<le> unat (rb_len r)"
  shows "rb_head r + L \<le> rb_cap r \<Longrightarrow>
      mem_get (rb_data r) (unat (rb_head r)) (unat L) = Some (take (unat L) (rbuf_list r))"
    and "\<not> rb_head r + L \<le> rb_cap r \<Longrightarrow>
      \<exists>xs ys. mem_get (rb_data r) (unat (rb_head r)) (unat (rb_cap r - rb_head r)) = Some xs \<and>
        mem_get (rb_data r) 0 (unat (L - (rb_cap r - rb_head r))) = Some ys \<and>
        take (unat L) (rbuf_list r) = xs @ ys"
    and "unat (if rb_head r + L \<le> rb_cap r then (if rb_head r + L = rb_cap r then 0 else rb_head r + L)
      else L - (rb_cap r - rb_head r)) = (unat (rb_head r) + unat L) mod unat (rb_cap r)"
    and "\<not> rb_head r + L \<le> rb_cap r \<Longrightarrow> L - (rb_cap r - rb_head r) \<noteq> rb_cap r"
proof -
  let ?c = "unat (rb_cap r)"
  have c: "length (rb_data r) = ?c" "?c < 2 ^ 63" "unat (rb_len r) \<le> ?c" using ok by (simp_all add: rbuf_ok_def)
  have h: "unat (rb_head r) < ?c" using ok L c(3) by (auto simp: rbuf_ok_def split: if_splits)
  have Lc: "unat L \<le> ?c" using L c by linarith
  note adv = advance_cursor [OF c(2) h Lc]
  have list: "take (unat L) (rbuf_list r) = ring (rb_data r) (unat (rb_head r)) (unat L)"
    using L by (simp add: rbuf_list_def ring_take)
  show "mem_get (rb_data r) (unat (rb_head r)) (unat L) = Some (take (unat L) (rbuf_list r))"
    if "rb_head r + L \<le> rb_cap r"
    using that adv(2) c list by (simp add: mem_get_def ring_contiguous)
  show "\<exists>xs ys. mem_get (rb_data r) (unat (rb_head r)) (unat (rb_cap r - rb_head r)) = Some xs \<and>
        mem_get (rb_data r) 0 (unat (L - (rb_cap r - rb_head r))) = Some ys \<and>
        take (unat L) (rbuf_list r) = xs @ ys"
    if w: "\<not> rb_head r + L \<le> rb_cap r"
  proof -
    have "?c \<le> unat (rb_head r) + unat L" using w adv(2) by simp
    then have "take (unat L) (rbuf_list r) = drop (unat (rb_head r)) (rb_data r) @
        take (unat (rb_head r) + unat L - ?c) (rb_data r)"
      using ring_wrap [of "unat (rb_head r)" "rb_data r" "unat L"] list h c Lc by simp
    moreover have "mem_get (rb_data r) (unat (rb_head r)) (unat (rb_cap r - rb_head r)) =
        Some (drop (unat (rb_head r)) (rb_data r))"
      using adv(3) c h by (simp add: mem_get_def)
    moreover have "mem_get (rb_data r) 0 (unat (L - (rb_cap r - rb_head r))) =
        Some (take (unat (rb_head r) + unat L - ?c) (rb_data r))"
      using adv(4) [OF w] c h Lc by (simp add: mem_get_def)
    ultimately show ?thesis by blast
  qed
  show "unat (if rb_head r + L \<le> rb_cap r then (if rb_head r + L = rb_cap r then 0 else rb_head r + L)
      else L - (rb_cap r - rb_head r)) = (unat (rb_head r) + unat L) mod ?c"
    by (rule adv(5))
  show "L - (rb_cap r - rb_head r) \<noteq> rb_cap r" if w: "\<not> rb_head r + L \<le> rb_cap r"
  proof -
    have "unat (L - (rb_cap r - rb_head r)) < ?c" using adv(4) [OF w] Lc h by linarith
    then show ?thesis by (metis less_irrefl)
  qed
qed

lemma peek_ok:
  assumes ok: "rbuf_ok r"
  shows "ct_rbuf_peek r True len =
    Some (of_nat (min (unat len) (unat (rb_len r))), take (unat len) (rbuf_list r))"
proof -
  define L where "L = (if len > rb_len r then rb_len r else len)"
  have L: "unat L = min (unat len) (unat (rb_len r))" unfolding L_def by (rule clamp_used)
  have t: "take (unat len) (rbuf_list r) = take (unat L) (rbuf_list r)" unfolding L by (simp add: min_def)
  show ?thesis
  proof (cases "L = 0")
    case True
    then show ?thesis using t unfolding L [symmetric] by (simp add: ct_rbuf_peek_def Let_def flip: L_def)
  next
    case False
    then have "0 < unat L" by (simp add: unat_gt_0)
    moreover have "unat L \<le> unat (rb_len r)" using L by linarith
    ultimately have pos: "0 < unat L" "unat L \<le> unat (rb_len r)" .
    from load_chunks(1,2) [OF ok pos] False show ?thesis
      unfolding L [symmetric] t by (cases "rb_head r + L \<le> rb_cap r") (auto simp: ct_rbuf_peek_def Let_def simp flip: L_def)
  qed
qed

lemma read_ok:
  assumes ok: "rbuf_ok r"
  shows "\<exists>r'. ct_rbuf_read r True len =
      Some (of_nat (min (unat len) (unat (rb_len r))), take (unat len) (rbuf_list r), r') \<and> rbuf_ok r' \<and>
    rb_cap r' = rb_cap r \<and> rbuf_list r' = drop (unat len) (rbuf_list r)"
proof -
  define L where "L = (if len > rb_len r then rb_len r else len)"
  have L: "unat L = min (unat len) (unat (rb_len r))" unfolding L_def by (rule clamp_used)
  have t: "take (unat len) (rbuf_list r) = take (unat L) (rbuf_list r)"
    "drop (unat len) (rbuf_list r) = drop (unat L) (rbuf_list r)" unfolding L by (simp_all add: min_def)
  show ?thesis
  proof (cases "L = 0")
    case True
    then show ?thesis using t ok unfolding L [symmetric] by (simp add: ct_rbuf_read_def Let_def flip: L_def)
  next
    case False
    then have "0 < unat L" by (simp add: unat_gt_0)
    moreover have "unat L \<le> unat (rb_len r)" using L by linarith
    ultimately have pos: "0 < unat L" "unat L \<le> unat (rb_len r)" .
    note chunks = load_chunks [OF ok pos]
    let ?r = "r\<lparr>rb_head := (if rb_head r + L \<le> rb_cap r then (if rb_head r + L = rb_cap r then 0 else rb_head r + L)
        else L - (rb_cap r - rb_head r)), rb_len := rb_len r - L\<rparr>"
    have "ct_rbuf_read r True len = Some (L, take (unat L) (rbuf_list r), ?r)"
      using chunks(1,2,4) False by (cases "rb_head r + L \<le> rb_cap r") (auto simp: ct_rbuf_read_def Let_def simp flip: L_def)
    with dropped_ok [OF ok pos chunks(3) refl] show ?thesis
      unfolding L [symmetric] t by simp
  qed
qed

lemma remove_ok:
  assumes ok: "rbuf_ok r"
  shows "fst (ct_rbuf_remove r len) = of_nat (min (unat len) (unat (rb_len r)))"
    "rbuf_ok (snd (ct_rbuf_remove r len))" "rb_cap (snd (ct_rbuf_remove r len)) = rb_cap r"
    "rbuf_list (snd (ct_rbuf_remove r len)) = drop (unat len) (rbuf_list r)"
proof -
  define L where "L = (if len > rb_len r then rb_len r else len)"
  have L: "unat L = min (unat len) (unat (rb_len r))" unfolding L_def by (rule clamp_used)
  have t: "drop (unat len) (rbuf_list r) = drop (unat L) (rbuf_list r)" unfolding L by (simp add: min_def)
  have "fst (ct_rbuf_remove r len) = L \<and> rbuf_ok (snd (ct_rbuf_remove r len)) \<and>
    rb_cap (snd (ct_rbuf_remove r len)) = rb_cap r \<and> rbuf_list (snd (ct_rbuf_remove r len)) = drop (unat L) (rbuf_list r)"
  proof (cases "L = 0")
    case True
    then show ?thesis using ok by (simp add: ct_rbuf_remove_def Let_def flip: L_def)
  next
    case False
    then have "0 < unat L" by (simp add: unat_gt_0)
    moreover have "unat L \<le> unat (rb_len r)" using L by linarith
    ultimately have pos: "0 < unat L" "unat L \<le> unat (rb_len r)" .
    have c: "unat (rb_cap r) < 2 ^ 63" "unat L \<le> unat (rb_cap r)" "unat (rb_head r) < unat (rb_cap r)"
      using ok pos by (auto simp: rbuf_ok_def split: if_splits)
    let ?r = "r\<lparr>rb_head := (if rb_head r + L \<ge> rb_cap r then rb_head r + L - rb_cap r else rb_head r + L),
        rb_len := rb_len r - L\<rparr>"
    have "ct_rbuf_remove r len = (L, ?r)"
      using False by (simp add: ct_rbuf_remove_def Let_def word_neq_0_conv flip: L_def)
    with dropped_ok [OF ok pos advance_cursor(6) [OF c(1,3,2)] refl] show ?thesis by simp
  qed
  then show "fst (ct_rbuf_remove r len) = of_nat (min (unat len) (unat (rb_len r)))"
    "rbuf_ok (snd (ct_rbuf_remove r len))" "rb_cap (snd (ct_rbuf_remove r len)) = rb_cap r"
    "rbuf_list (snd (ct_rbuf_remove r len)) = drop (unat len) (rbuf_list r)"
    unfolding L [symmetric] t by simp_all
qed

section \<open>Zero-copy access\<close>

lemma write_ptr_ok:
  assumes ok: "rbuf_ok r" and p: "ct_rbuf_write_ptr r = (Some off, chunk)"
  shows "off = rb_tail r" "0 < unat chunk" "unat (rb_tail r) + unat chunk \<le> unat (rb_cap r)"
    "unat (rb_len r) + unat chunk \<le> unat (rb_cap r)" "unat (rb_tail r) < unat (rb_cap r)"
proof -
  have lc: "unat (rb_len r) \<le> unat (rb_cap r)" using ok by (simp add: rbuf_ok_def)
  have w: "unat (rb_cap r - rb_len r) = unat (rb_cap r) - unat (rb_len r)" using lc by (simp add: unat_diff_le)
  have nz: "0 < unat (rb_cap r - rb_len r)"
    using p by (auto simp: ct_rbuf_write_ptr_def Let_def unat_gt_0 split: if_splits)
  then show t: "unat (rb_tail r) < unat (rb_cap r)" using ok w by (auto simp: rbuf_ok_def split: if_splits)
  then have u: "unat (rb_cap r - rb_tail r) = unat (rb_cap r) - unat (rb_tail r)" by (simp add: unat_diff_le)
  have ch: "off = rb_tail r \<and> unat chunk = min (unat (rb_cap r - rb_len r)) (unat (rb_cap r - rb_tail r))"
    using p by (auto simp: ct_rbuf_write_ptr_def Let_def word_le_nat_alt min_def split: if_splits)
  then show "off = rb_tail r" by simp
  show "0 < unat chunk" "unat (rb_tail r) + unat chunk \<le> unat (rb_cap r)"
    "unat (rb_len r) + unat chunk \<le> unat (rb_cap r)"
    using ch w u nz t lc by linarith+
qed

lemma write_ptr_None:
  "rbuf_ok r \<Longrightarrow> fst (ct_rbuf_write_ptr r) = None \<longleftrightarrow> unat (rb_len r) = unat (rb_cap r)"
  by (auto simp: ct_rbuf_write_ptr_def Let_def rbuf_ok_def word_unat_eq_iff unat_diff_le)

lemma commit_ok:
  assumes ok: "rbuf_ok r" and p: "ct_rbuf_write_ptr r = (Some off, chunk)"
    and ys: "length ys = unat L" "unat L \<le> unat chunk"
    and put: "mem_put (rb_data r) (unat off) ys = Some d'"
  shows "\<exists>r'. ct_rbuf_commit (r\<lparr>rb_data := d'\<rparr>) L = (L, r') \<and> rbuf_ok r' \<and> rb_cap r' = rb_cap r \<and>
    rbuf_list r' = rbuf_list r @ ys"
proof -
  note wp = write_ptr_ok [OF ok p]
  have c: "length (rb_data r) = unat (rb_cap r)" "unat (rb_cap r) < 2 ^ 63" using ok by (simp_all add: rbuf_ok_def)
  have L: "unat (rb_len r) + unat L \<le> unat (rb_cap r)" "unat (rb_tail r) + unat L \<le> unat (rb_cap r)"
    "unat L \<le> unat (rb_cap r)" using wp ys by linarith+
  have "unat (L + rb_len r) = unat L + unat (rb_len r)" using L c by (intro unat_plus_lt) simp
  then have nc: "\<not> L + rb_len r > rb_cap r" using L by (simp add: word_less_nat_alt)
  show ?thesis
  proof (cases "L = 0")
    case True
    then have "ys = []" using ys by simp
    with put have "d' = rb_data r" by (simp add: mem_put_def split: if_splits)
    with True \<open>ys = []\<close> ok nc show ?thesis by (simp add: ct_rbuf_commit_def)
  next
    case False
    then have pos: "0 < unat L" by (simp add: unat_gt_0)
    have st: "ring_stored (rb_data r) d' (unat (rb_tail r)) ys"
      using put wp(1) L ys c by (intro ring_stored_contiguous) simp_all
    let ?r = "r\<lparr>rb_data := d', rb_tail := (if rb_tail r + L \<ge> rb_cap r then rb_tail r + L - rb_cap r
        else rb_tail r + L), rb_len := rb_len r + L\<rparr>"
    have "ct_rbuf_commit (r\<lparr>rb_data := d'\<rparr>) L = (L, ?r)"
      using False nc by (simp add: ct_rbuf_commit_def Let_def word_neq_0_conv)
    moreover have "rbuf_ok ?r \<and> rbuf_list ?r = rbuf_list r @ ys"
      by (rule stored_ok [OF ok st _ _ _ _ refl])
        (use L pos advance_cursor(6) [OF c(2) wp(5) L(3)] in \<open>simp_all only: ys\<close>)
    ultimately show ?thesis by simp
  qed
qed

text \<open>
  A commit of any length, whatever chunk was asked for before: it is limited to the free space, and
  what it appends is what the memory holds from the write cursor on, in ring order.
\<close>

lemma ring_stored_self: "ring_stored d d t (ring d t n)"
  by (simp add: ring_stored_def nth_ring)

lemma commit_any:
  assumes ok: "rbuf_ok r" and ov: "unat len + unat (rb_len r) < 2 ^ 64"
  defines "k \<equiv> min (unat len) (unat (rb_cap r) - unat (rb_len r))"
  shows "\<exists>n r'. ct_rbuf_commit r len = (n, r') \<and> unat n = k \<and> rbuf_ok r' \<and> rb_cap r' = rb_cap r \<and>
    rbuf_list r' = rbuf_list r @ ring (rb_data r) (unat (rb_tail r)) k"
proof -
  define L where "L = (if len + rb_len r > rb_cap r then rb_cap r - rb_len r else len)"
  have L: "unat L = k" unfolding L_def k_def by (rule clamp_room [OF ok ov])
  show ?thesis
  proof (cases "L = 0")
    case True
    then have "ct_rbuf_commit r len = (L, r)" by (simp add: ct_rbuf_commit_def Let_def flip: L_def)
    with True L ok show ?thesis by auto
  next
    case False
    then have pos: "0 < unat L" by (simp add: unat_gt_0)
    have c: "unat (rb_cap r) < 2 ^ 63" "unat (rb_len r) \<le> unat (rb_cap r)" using ok by (simp_all add: rbuf_ok_def)
    have room: "unat (rb_len r) + unat L \<le> unat (rb_cap r)" "unat L \<le> unat (rb_cap r)"
      using L c(2) unfolding k_def by linarith+
    have t: "unat (rb_tail r) < unat (rb_cap r)" using ok pos room by (auto simp: rbuf_ok_def split: if_splits)
    let ?r = "r\<lparr>rb_data := rb_data r, rb_tail := (if rb_tail r + L \<ge> rb_cap r then rb_tail r + L - rb_cap r
        else rb_tail r + L), rb_len := rb_len r + L\<rparr>"
    have "ct_rbuf_commit r len = (L, ?r)"
      using False by (simp add: ct_rbuf_commit_def Let_def word_neq_0_conv flip: L_def)
    moreover have "rbuf_ok ?r \<and> rbuf_list ?r = rbuf_list r @ ring (rb_data r) (unat (rb_tail r)) (unat L)"
      by (rule stored_ok [OF ok ring_stored_self _ _ _ _ refl])
        (use room pos advance_cursor(6) [OF c(1) t room(2)] in \<open>simp_all only: length_ring\<close>)
    ultimately show ?thesis using L by simp
  qed
qed

text \<open>Bytes put at the write cursor of the ring are what a commit appends first.\<close>

lemma ring_after_put:
  assumes "mem_put d t ys = Some d'" and "t + length ys \<le> length d"
  shows "take (min (length ys) n) (ring d' t n) = take (min (length ys) n) ys"
proof -
  note st = ring_stored_contiguous [OF assms]
  have len: "length d' = length d" by (rule mem_put_length [OF assms(1)])
  show ?thesis
    by (rule nth_equalityI) (use st in \<open>auto simp: nth_ring len ring_stored_def\<close>)
qed

lemma rbuf_data_irrelevant:
  assumes "rbuf_ok r" and "length d = length (rb_data r)"
  shows "rbuf_ok (r\<lparr>rb_data := d\<rparr>)"
  using assms by (simp add: rbuf_ok_def)

text \<open>Storing into the free chunk leaves the queue alone.\<close>

lemma put_chunk_list:
  assumes ok: "rbuf_ok r" and p: "ct_rbuf_write_ptr r = (Some off, chunk)" and l: "length ys \<le> unat chunk"
    and put: "mem_put (rb_data r) (unat off) ys = Some d'"
  shows "rbuf_list (r\<lparr>rb_data := d'\<rparr>) = rbuf_list r"
proof -
  note wp = write_ptr_ok [OF ok p]
  have c: "length (rb_data r) = unat (rb_cap r)" using ok by (simp add: rbuf_ok_def)
  have tl: "unat (rb_tail r) = (unat (rb_head r) + unat (rb_len r)) mod length (rb_data r)"
    using ok wp(5) c by (auto simp: rbuf_ok_def split: if_splits)
  have st: "ring_stored (rb_data r) d' (unat (rb_tail r)) ys"
    using put wp l c by (intro ring_stored_contiguous) simp_all
  have "ring d' (unat (rb_head r)) (unat (rb_len r) + length ys) =
      ring (rb_data r) (unat (rb_head r)) (unat (rb_len r)) @ ys"
    using wp(4) l c st unfolding tl by (intro ring_append) simp_all
  then have "take (unat (rb_len r)) (ring d' (unat (rb_head r)) (unat (rb_len r) + length ys)) =
      ring (rb_data r) (unat (rb_head r)) (unat (rb_len r))" by simp
  then show ?thesis by (simp add: rbuf_list_def ring_take)
qed

lemma read_ptr_ok:
  assumes ok: "rbuf_ok r" and p: "ct_rbuf_read_ptr r = (Some off, chunk)"
  shows "0 < unat chunk" "unat chunk \<le> unat (rb_len r)"
    "mem_get (rb_data r) (unat off) (unat chunk) = Some (take (unat chunk) (rbuf_list r))"
proof -
  have lc: "unat (rb_len r) \<le> unat (rb_cap r)" "length (rb_data r) = unat (rb_cap r)"
    using ok by (simp_all add: rbuf_ok_def)
  have nz: "0 < unat (rb_len r)"
    using p by (auto simp: ct_rbuf_read_ptr_def Let_def unat_gt_0 split: if_splits)
  then have h: "unat (rb_head r) < unat (rb_cap r)" using ok by (auto simp: rbuf_ok_def split: if_splits)
  then have u: "unat (rb_cap r - rb_head r) = unat (rb_cap r) - unat (rb_head r)" by (simp add: unat_diff_le)
  have ch: "off = rb_head r \<and> unat chunk = min (unat (rb_len r)) (unat (rb_cap r - rb_head r))"
    using p by (auto simp: ct_rbuf_read_ptr_def Let_def word_le_nat_alt min_def split: if_splits)
  show "0 < unat chunk" and le: "unat chunk \<le> unat (rb_len r)" using ch u nz h by linarith+
  have "unat (rb_head r) + unat chunk \<le> length (rb_data r)" using ch u h lc by linarith
  then show "mem_get (rb_data r) (unat off) (unat chunk) = Some (take (unat chunk) (rbuf_list r))"
    using ch le by (simp add: mem_get_def rbuf_list_def ring_take ring_contiguous)
qed

section \<open>The ring is a bounded queue of bytes\<close>

text \<open>
  A caller's steps: the copying operations, and the two zero-copy patterns the header describes
  (ask for a chunk, fill or consume part of it, commit or remove that many bytes).  In
  \<open>Commit_in_place src len\<close> the caller fills part of the chunk and then commits any length it likes.
\<close>

datatype rbuf_op = Write "u8 list" size_t | Read size_t | Peek size_t | Remove size_t
  | Write_in_place "u8 list" | Commit_in_place "u8 list" size_t | Read_in_place size_t | Clear

fun rbuf_exec :: "ct_rbuf \<Rightarrow> rbuf_op \<Rightarrow> (u8 list \<times> nat \<times> ct_rbuf) option" where
  "rbuf_exec r (Write src len) = map_option (\<lambda>(n, r). ([], unat n, r)) (ct_rbuf_write r (Some src) len)"
| "rbuf_exec r (Read len) = map_option (\<lambda>(n, out, r). (out, unat n, r)) (ct_rbuf_read r True len)"
| "rbuf_exec r (Peek len) = map_option (\<lambda>(n, out). (out, unat n, r)) (ct_rbuf_peek r True len)"
| "rbuf_exec r (Remove len) = (case ct_rbuf_remove r len of (n, r) \<Rightarrow> Some ([], unat n, r))"
| "rbuf_exec r (Write_in_place src) =
     (case ct_rbuf_write_ptr r of
        (None, _) \<Rightarrow> Some ([], 0, r)
      | (Some off, chunk) \<Rightarrow> do {
          let k = min (length src) (unat chunk);
          d \<leftarrow> mem_put (rb_data r) (unat off) (take k src);
          (case ct_rbuf_commit (r\<lparr>rb_data := d\<rparr>) (of_nat k) of (n, r) \<Rightarrow> Some ([], unat n, r)) })"
| "rbuf_exec r (Commit_in_place src len) =
     (case ct_rbuf_write_ptr r of
        (None, _) \<Rightarrow> (case ct_rbuf_commit r len of (n, r) \<Rightarrow> Some ([], unat n, r))
      | (Some off, chunk) \<Rightarrow> do {
          d \<leftarrow> mem_put (rb_data r) (unat off) (take (unat chunk) src);
          (case ct_rbuf_commit (r\<lparr>rb_data := d\<rparr>) len of (n, r) \<Rightarrow> Some ([], unat n, r)) })"
| "rbuf_exec r (Read_in_place len) =
     (case ct_rbuf_read_ptr r of
        (None, _) \<Rightarrow> Some ([], 0, r)
      | (Some off, chunk) \<Rightarrow> do {
          let k = min len chunk;
          out \<leftarrow> mem_get (rb_data r) (unat off) (unat k);
          (case ct_rbuf_remove r k of (n, r) \<Rightarrow> Some (out, unat n, r)) })"
| "rbuf_exec r Clear = Some ([], 0, ct_rbuf_clear r)"

fun rbuf_run :: "ct_rbuf \<Rightarrow> rbuf_op list \<Rightarrow> ((u8 list \<times> nat) list \<times> ct_rbuf) option" where
  "rbuf_run r [] = Some ([], r)"
| "rbuf_run r (op # ops) = do {
     (out, n, r) \<leftarrow> rbuf_exec r op;
     (outs, r) \<leftarrow> rbuf_run r ops;
     Some ((out, n) # outs, r) }"

text \<open>
  The specification: a queue of at most \<open>c\<close> bytes.  In-place steps may move fewer bytes than asked
  (the chunk ends at the end of the memory), but at least one when there is something to move.  A
  commit is limited to the free space; the bytes it appends start with what the caller stored, as far
  as the chunk went, and go on with whatever the memory held.
\<close>

inductive fifo_step :: "nat \<Rightarrow> u8 list \<Rightarrow> rbuf_op \<Rightarrow> u8 list \<times> nat \<Rightarrow> u8 list \<Rightarrow> bool" for c where
  "k = min (unat len) (c - length xs) \<Longrightarrow> fifo_step c xs (Write src len) ([], k) (xs @ take k src)"
| "k = min (unat len) (length xs) \<Longrightarrow> fifo_step c xs (Read len) (take k xs, k) (drop k xs)"
| "k = min (unat len) (length xs) \<Longrightarrow> fifo_step c xs (Peek len) (take k xs, k) xs"
| "k = min (unat len) (length xs) \<Longrightarrow> fifo_step c xs (Remove len) ([], k) (drop k xs)"
| "k \<le> length src \<Longrightarrow> length xs + k \<le> c \<Longrightarrow> (k = 0 \<Longrightarrow> src = [] \<or> length xs = c) \<Longrightarrow>
   fifo_step c xs (Write_in_place src) ([], k) (xs @ take k src)"
| "k \<le> unat len \<Longrightarrow> k \<le> length xs \<Longrightarrow> (k = 0 \<Longrightarrow> len = 0 \<or> xs = []) \<Longrightarrow>
   fifo_step c xs (Read_in_place len) (take k xs, k) (drop k xs)"
| "k = min (unat len) (c - length xs) \<Longrightarrow> length ys = k \<Longrightarrow>
   j \<le> length src \<Longrightarrow> (j = 0 \<Longrightarrow> src = [] \<or> length xs = c) \<Longrightarrow> take (min j k) ys = take (min j k) src \<Longrightarrow>
   fifo_step c xs (Commit_in_place src len) ([], k) (xs @ ys)"
| "fifo_step c xs Clear ([], 0) []"

inductive fifo_run :: "nat \<Rightarrow> u8 list \<Rightarrow> rbuf_op list \<Rightarrow> (u8 list \<times> nat) list \<Rightarrow> u8 list \<Rightarrow> bool" for c where
  "fifo_run c xs [] [] xs"
| "fifo_step c xs op out ys \<Longrightarrow> fifo_run c ys ops outs zs \<Longrightarrow> fifo_run c xs (op # ops) (out # outs) zs"

text \<open>The caller's side: a source is as long as the length passed with it, and lengths are sizes of
  objects, at most \<open>PTRDIFF_MAX\<close>, so adding one to a fill count does not wrap.\<close>

fun rbuf_op_ok :: "rbuf_op \<Rightarrow> bool" where
  "rbuf_op_ok (Write src len) \<longleftrightarrow> unat len \<le> length src \<and> unat len < 2 ^ 63"
| "rbuf_op_ok (Commit_in_place src len) \<longleftrightarrow> unat len < 2 ^ 63"
| "rbuf_op_ok _ \<longleftrightarrow> True"

lemma unat_of_nat_cap: "k \<le> unat (c :: size_t) \<Longrightarrow> unat (of_nat k :: size_t) = k"
  using unat_u64_bound [of c] by (intro unat_of_nat_lt) simp

lemma rbuf_simulates_fifo:
  assumes ok: "rbuf_ok r" and op: "rbuf_op_ok op"
  shows "\<exists>out n r'. rbuf_exec r op = Some (out, n, r') \<and> rbuf_ok r' \<and> rb_cap r' = rb_cap r \<and>
    fifo_step (unat (rb_cap r)) (rbuf_list r) op (out, n) (rbuf_list r')"
proof (cases op)
  case (Write src len)
  let ?k = "min (unat len) (unat (rb_cap r) - length (rbuf_list r))"
  have "unat len + unat (rb_len r) < 2 ^ 64" using ok op Write by (auto simp: rbuf_ok_def)
  from write_ok [OF ok this] op Write obtain r' where
    "ct_rbuf_write r (Some src) len = Some (of_nat ?k, r')" "rbuf_ok r'" "rb_cap r' = rb_cap r"
    "rbuf_list r' = rbuf_list r @ take ?k src"
    by auto
  moreover have "unat (of_nat ?k :: size_t) = ?k" by (rule unat_of_nat_cap [where c = "rb_cap r"]) simp
  ultimately show ?thesis 
    using fifo_step.intros(1) [where c = "unat (rb_cap r)" and xs = "rbuf_list r" and len = len and src = src, OF refl]
      Write by simp
next
  case (Read len)
  let ?k = "min (unat len) (length (rbuf_list r))"
  from read_ok [OF ok, of len] obtain r' where
    "ct_rbuf_read r True len = Some (of_nat ?k, take (unat len) (rbuf_list r), r')" "rbuf_ok r'"
    "rb_cap r' = rb_cap r" "rbuf_list r' = drop (unat len) (rbuf_list r)"
    by auto
  moreover have "unat (of_nat ?k :: size_t) = ?k" by (rule unat_of_nat_cap [where c = "rb_len r"]) simp
  moreover have "take (unat len) (rbuf_list r) = take ?k (rbuf_list r)"
    "drop (unat len) (rbuf_list r) = drop ?k (rbuf_list r)" by (simp_all add: min_def)
  ultimately show ?thesis using fifo_step.intros(2) [OF refl, of "unat (rb_cap r)" "rbuf_list r" len] Read by simp
next
  case (Peek len)
  let ?k = "min (unat len) (length (rbuf_list r))"
  have "unat (of_nat ?k :: size_t) = ?k" by (rule unat_of_nat_cap [where c = "rb_len r"]) simp
  moreover have "take (unat len) (rbuf_list r) = take ?k (rbuf_list r)" by (simp add: min_def)
  ultimately show ?thesis
    using peek_ok [OF ok, of len] ok fifo_step.intros(3) [OF refl, of "unat (rb_cap r)" "rbuf_list r" len] Peek by simp
next
  case (Remove len)
  let ?k = "min (unat len) (length (rbuf_list r))"
  have "unat (of_nat ?k :: size_t) = ?k" by (rule unat_of_nat_cap [where c = "rb_len r"]) simp
  moreover have "drop (unat len) (rbuf_list r) = drop ?k (rbuf_list r)" by (simp add: min_def)
  ultimately show ?thesis
    using remove_ok [OF ok, of len] fifo_step.intros(4) [OF refl, of "unat (rb_cap r)" "rbuf_list r" len] Remove
    by (cases "ct_rbuf_remove r len") simp
next
  case (Write_in_place src)
  show ?thesis
  proof (cases "ct_rbuf_write_ptr r")
    case (Pair off chunk)
    show ?thesis
    proof (cases off)
      case None
      then have "unat (rb_len r) = unat (rb_cap r)" using write_ptr_None [OF ok] Pair by simp
      then show ?thesis
        using None Pair Write_in_place ok
          fifo_step.intros(5) [of 0 src "rbuf_list r" "unat (rb_cap r)"] by simp
    next
      case (Some o')
      note wp = write_ptr_ok [OF ok Pair [unfolded Some]]
      let ?k = "min (length src) (unat chunk)"
      let ?L = "of_nat ?k :: size_t"
      have k: "unat ?L = ?k" by (rule unat_of_nat_cap [where c = chunk]) simp
      have "unat o' + length (take ?k src) \<le> length (rb_data r)"
        using wp ok by (simp add: rbuf_ok_def)
      then obtain d where d: "mem_put (rb_data r) (unat o') (take ?k src) = Some d" using mem_put_ok by blast
      from commit_ok [OF ok Pair [unfolded Some] _ _ d, of ?L] k obtain r' where
        "ct_rbuf_commit (r\<lparr>rb_data := d\<rparr>) ?L = (?L, r')" "rbuf_ok r'" "rb_cap r' = rb_cap r"
        "rbuf_list r' = rbuf_list r @ take ?k src"
        by auto
      moreover have "fifo_step (unat (rb_cap r)) (rbuf_list r) (Write_in_place src) ([], ?k)
          (rbuf_list r @ take ?k src)"
        by (rule fifo_step.intros(5)) (use wp in \<open>auto simp: min_def split: if_splits\<close>)
      ultimately show ?thesis using Some Pair Write_in_place d k by simp
    qed
  qed
next
  case (Commit_in_place src len)
  have ov: "unat len + unat (rb_len r) < 2 ^ 64" using ok op Commit_in_place by (auto simp: rbuf_ok_def)
  let ?k = "min (unat len) (unat (rb_cap r) - length (rbuf_list r))"
  show ?thesis
  proof (cases "ct_rbuf_write_ptr r")
    case (Pair off chunk)
    show ?thesis
    proof (cases off)
      case None
      have full: "unat (rb_len r) = unat (rb_cap r)" using write_ptr_None [OF ok] Pair None by simp
      obtain n r' where r': "ct_rbuf_commit r len = (n, r')" "unat n = ?k" "rbuf_ok r'" "rb_cap r' = rb_cap r"
        "rbuf_list r' = rbuf_list r @ ring (rb_data r) (unat (rb_tail r)) ?k"
        using commit_any [OF ok ov] by auto
      moreover have "fifo_step (unat (rb_cap r)) (rbuf_list r) (Commit_in_place src len) ([], ?k)
          (rbuf_list r @ ring (rb_data r) (unat (rb_tail r)) ?k)"
        by (rule fifo_step.intros(7) [where j = 0]) (simp_all add: full)
      ultimately show ?thesis using None Pair Commit_in_place by simp
    next
      case (Some o')
      note p = Pair [unfolded Some]
      note wp = write_ptr_ok [OF ok p]
      let ?ys = "take (unat chunk) src"
      have fits: "unat (rb_tail r) + length ?ys \<le> length (rb_data r)" using wp ok by (simp add: rbuf_ok_def)
      then obtain d where d: "mem_put (rb_data r) (unat (rb_tail r)) ?ys = Some d" using mem_put_ok by blast
      let ?r = "r\<lparr>rb_data := d\<rparr>"
      have "rbuf_ok ?r" by (rule rbuf_data_irrelevant [OF ok mem_put_length [OF d]])
      then obtain n r' where r': "ct_rbuf_commit ?r len = (n, r')" "unat n = ?k" "rbuf_ok r'" "rb_cap r' = rb_cap r"
        "rbuf_list r' = rbuf_list ?r @ ring d (unat (rb_tail r)) ?k"
        using commit_any [of ?r len] ov by auto
      have "rbuf_list ?r = rbuf_list r" using put_chunk_list [OF ok p _ d [folded wp(1)]] by simp
      moreover have "fifo_step (unat (rb_cap r)) (rbuf_list r) (Commit_in_place src len) ([], ?k)
          (rbuf_list r @ ring d (unat (rb_tail r)) ?k)"
        using wp(2) ring_after_put [OF d fits, of ?k]
        by (intro fifo_step.intros(7) [where j = "length ?ys"]) (auto simp: min_def split: if_splits)
      ultimately show ?thesis using p Commit_in_place d r' wp(1) by simp
    qed
  qed
next
  case (Read_in_place len)
  show ?thesis
  proof (cases "ct_rbuf_read_ptr r")
    case (Pair off chunk)
    show ?thesis
    proof (cases off)
      case None
      then have "rbuf_list r = []"
        using Pair by (auto simp: ct_rbuf_read_ptr_def Let_def rbuf_list_def split: if_splits)
      then show ?thesis
        using None Pair Read_in_place ok
          fifo_step.intros(6) [of 0 len "rbuf_list r" "unat (rb_cap r)"] by simp
    next
      case (Some o')
      note rp = read_ptr_ok [OF ok Pair [unfolded Some]]
      let ?k = "min (unat len) (unat chunk)"
      have k: "unat (min len chunk) = ?k" by (simp add: min_def word_le_nat_alt)
      have kl: "?k \<le> unat (rb_len r)" using rp by simp
      have e: "take (unat chunk) (drop (unat o') (rb_data r)) = take (unat chunk) (rbuf_list r)"
        "unat o' + unat chunk \<le> length (rb_data r)"
        using rp(3) by (auto simp: mem_get_def split: if_splits)
      have "take ?k (drop (unat o') (rb_data r)) = take ?k (rbuf_list r)"
        using arg_cong [OF e(1), of "take ?k"] by simp
      then have get: "mem_get (rb_data r) (unat o') ?k = Some (take ?k (rbuf_list r))"
        using e(2) by (simp add: mem_get_def)
      have "unat (of_nat ?k :: size_t) = ?k" by (rule unat_of_nat_cap [OF kl])
      moreover have "fifo_step (unat (rb_cap r)) (rbuf_list r) (Read_in_place len) (take ?k (rbuf_list r), ?k)
          (drop ?k (rbuf_list r))"
        by (rule fifo_step.intros(6)) (use rp kl in \<open>auto simp: min_def unat_eq_zero split: if_splits\<close>)
      ultimately show ?thesis
        using remove_ok [OF ok, of "min len chunk"] Some Pair Read_in_place get k kl
        by (cases "ct_rbuf_remove r (min len chunk)") (simp add: min_absorb1)
    qed
  qed
next
  case Clear
  then show ?thesis using clear_ok [OF ok] fifo_step.intros(8) by (simp add: ct_rbuf_clear_def)
qed

text \<open>C8: The ring buffer is a bounded FIFO of bytes.  Any sequence of writes, reads, peeks, removals,
  in-place writes, commits, in-place reads and clears from a well-formed ring runs without leaving the
  backing memory, returns what the same sequence returns on a list of at most \<open>cap_\<close> bytes, and ends
  in a well-formed ring that stands for the list's final contents.  A commit takes any length up to
  \<open>PTRDIFF_MAX\<close>, also beyond the chunk that was asked for, and is limited to the free space as the
  header promises; for larger lengths the check of the code can wrap (\<open>commit_huge_length\<close>).\<close>

theorem rbuf_refines_fifo:
  assumes "rbuf_ok r" and "list_all rbuf_op_ok ops"
  shows "\<exists>outs r'. rbuf_run r ops = Some (outs, r') \<and> rbuf_ok r' \<and>
    fifo_run (unat (rb_cap r)) (rbuf_list r) ops outs (rbuf_list r')"
  using assms
proof (induction ops arbitrary: r)
  case Nil
  then show ?case by (auto intro: fifo_run.intros)
next
  case (Cons op ops)
  then obtain out n r1 where one: "rbuf_exec r op = Some (out, n, r1)" "rbuf_ok r1" "rb_cap r1 = rb_cap r"
    "fifo_step (unat (rb_cap r)) (rbuf_list r) op (out, n) (rbuf_list r1)"
    using rbuf_simulates_fifo [of r op] by auto
  from Cons.IH [OF one(2)] Cons.prems one show ?case
    by (auto intro: fifo_run.intros)
qed

theorem rbuf_refines_fifo_witness:
  "\<exists>outs r'. rbuf_run (ct_rbuf_init [0, 0, 0] 3)
      [Write [1, 2] 2, Read 1, Write [3, 4, 5] 3, Peek 2, Write_in_place [6], Commit_in_place [7] 9, Read_in_place 9] = Some (outs, r') \<and>
    rbuf_ok r' \<and>
    fifo_run 3 [] [Write [1, 2] 2, Read 1, Write [3, 4, 5] 3, Peek 2, Write_in_place [6], Commit_in_place [7] 9, Read_in_place 9] outs (rbuf_list r')"
  using rbuf_refines_fifo [of "ct_rbuf_init [0, 0, 0] 3"
      "[Write [1, 2] 2, Read 1, Write [3, 4, 5] 3, Peek 2, Write_in_place [6], Commit_in_place [7] 9, Read_in_place 9]"]
    init_ok [of "[0, 0, 0]" 3]
  by (simp add: ct_rbuf_init_def)

text \<open>
  The length check \<open>len + len_ > cap_\<close> is computed modulo \<open>2 ^ 64\<close>: committing \<open>SIZE_MAX\<close> bytes to a
  ring that holds one byte passes it, reports \<open>SIZE_MAX\<close> bytes and drops the byte, where the header
  promises that the length is limited to the free space.
\<close>

lemma commit_huge_length:
  "rbuf_list (snd (ct_rbuf_commit (ct_rbuf_init [7, 0] 2) 1)) = [7]"
  "fst (ct_rbuf_commit (snd (ct_rbuf_commit (ct_rbuf_init [7, 0] 2) 1)) (- 1)) = - 1"
  "rbuf_list (snd (ct_rbuf_commit (snd (ct_rbuf_commit (ct_rbuf_init [7, 0] 2) 1)) (- 1))) = []"
  by (simp_all add: ct_rbuf_commit_def ct_rbuf_init_def rbuf_list_def ring_def Let_def word_greater_zero_iff)

end
