(* ===== verification/Coter_Strings.thy ===== *)
theory Coter_Strings
  imports Coter_Prelude
begin

text \<open>
  \<open>core/strings.h\<close> and \<open>core/strings.c\<close>: bounded string copies and reverse memory copies.  Pointers are
  addresses in one memory \<open>m\<close>, so overlapping arguments are expressible; a \<open>NULL\<close> pointer is
  \<^const>\<open>None\<close>.  Sizes are the sizes of objects in that memory and are natural numbers.
\<close>

section \<open>Reverse copies\<close>

text \<open>\<open>k\<close> times \<open>*dst++ = *--src\<close>.\<close>

fun copy_back :: "u8 list \<Rightarrow> nat \<Rightarrow> nat \<Rightarrow> nat \<Rightarrow> (u8 list \<times> nat \<times> nat) option" where
  "copy_back m dst src 0 = Some (m, dst, src)"
| "copy_back m dst src (Suc k) = do {
     b \<leftarrow> mem_get m (src - 1) 1;
     m \<leftarrow> mem_put m dst b;
     copy_back m (dst + 1) (src - 1) k }"

text \<open>The loop over the trailing bytes, and the loop that moves eight bytes per iteration.\<close>

fun remain_loop :: "u8 list \<Rightarrow> nat \<Rightarrow> nat \<Rightarrow> nat \<Rightarrow> nat \<Rightarrow> nat \<Rightarrow> u8 list option" where
  "remain_loop m dst src count i 0 = Some m"
| "remain_loop m dst src count i (Suc k) = do {
     b \<leftarrow> mem_get m (src + (count - 1 - i)) 1;
     m \<leftarrow> mem_put m (dst + i) b;
     remain_loop m dst src count (i + 1) k }"

fun words_loop :: "u8 list \<Rightarrow> nat \<Rightarrow> nat \<Rightarrow> nat \<Rightarrow> u8 list option" where
  "words_loop m dst src 0 = Some m"
| "words_loop m dst src (Suc k) = do {
     (m, dst, src) \<leftarrow> copy_back m dst src 8;
     words_loop m dst src k }"

definition ct_reverse_memcpy :: "u8 list \<Rightarrow> nat option \<Rightarrow> nat option \<Rightarrow> nat \<Rightarrow> u8 list option" where
  "ct_reverse_memcpy m dest src count =
     (case (dest, src) of
        (Some dst, Some src) \<Rightarrow>
          if count = 0 \<or> dst = src then Some m
          else do {
            let (multiple, remain) = (if count < 8 then (0, count) else (count div 8, count mod 8));
            m \<leftarrow> (if remain > 0 then remain_loop m dst src count 0 remain else Some m);
            if multiple > 0 then words_loop m (dst + remain) (src + (count - remain)) multiple else Some m }
      | _ \<Rightarrow> Some m)"

text \<open>The loop that exchanges \<open>dst[i]\<close> with \<open>dst[count - 1 - i]\<close>.\<close>

fun swap_loop :: "u8 list \<Rightarrow> nat \<Rightarrow> nat \<Rightarrow> nat \<Rightarrow> nat \<Rightarrow> u8 list option" where
  "swap_loop m dst count i 0 = Some m"
| "swap_loop m dst count i (Suc k) = do {
     v \<leftarrow> mem_get m (dst + i) 1;
     b \<leftarrow> mem_get m (dst + (count - 1 - i)) 1;
     m \<leftarrow> mem_put m (dst + i) b;
     m \<leftarrow> mem_put m (dst + (count - 1 - i)) v;
     swap_loop m dst count (i + 1) k }"

definition ct_reverse_memmove :: "u8 list \<Rightarrow> nat option \<Rightarrow> nat option \<Rightarrow> nat \<Rightarrow> u8 list option" where
  "ct_reverse_memmove m dest src count =
     (case (dest, src) of
        (Some dst, Some src) \<Rightarrow>
          if count = 0 then Some m
          else if dst < src then
            if dst + count > src then do {
              let len = src - dst;
              m \<leftarrow> ct_reverse_memcpy m (Some dst) (Some (dst + count)) len;
              swap_loop m (dst + len) (count - len) 0 ((count - len) div 2) }
            else ct_reverse_memcpy m (Some dst) (Some src) count
          else if dst > src then
            if dst < src + count then do {
              let len = dst - src;
              let count = count - len;
              m \<leftarrow> ct_reverse_memcpy m (Some (dst + count)) (Some src) len;
              swap_loop m dst count 0 (count div 2) }
            else ct_reverse_memcpy m (Some dst) (Some src) count
          else swap_loop m dst count 0 (count div 2)
      | _ \<Rightarrow> Some m)"

text \<open>The fallback for \<open>memrchr\<close>: the address of the last occurrence.\<close>

fun ct_memrchr :: "u8 list \<Rightarrow> nat \<Rightarrow> u8 \<Rightarrow> nat \<Rightarrow> nat option option" where
  "ct_memrchr m mem bt 0 = Some None"
| "ct_memrchr m mem bt (Suc count) = do {
     b \<leftarrow> mem_get m (mem + count) 1;
     if b = [bt] then Some (Some (mem + count)) else ct_memrchr m mem bt count }"

section \<open>Reverse copies are correct\<close>

abbreviation region :: "u8 list \<Rightarrow> nat \<Rightarrow> nat \<Rightarrow> u8 list" where
  "region m a n \<equiv> take n (drop a m)"

lemma region_cong:
  assumes "mem_put m d xs = Some m'" and "a + n \<le> d \<or> d + length xs \<le> a" and "a + n \<le> length m"
  shows "region m' a n = region m a n"
  using mem_get_put_other [OF assms(1,2)] mem_put_length [OF assms(1)] assms(3) by (simp add: mem_get_def)

lemma rev_region_Suc:
  "a + Suc n \<le> length m \<Longrightarrow> rev (region m a (Suc n)) = m ! (a + n) # rev (region m a n)"
  by (simp add: take_Suc_conv_app_nth)

lemma copy_back_spec:
  assumes "k \<le> src" "src \<le> length m" "dst + k \<le> length m" "dst + k \<le> src - k \<or> src \<le> dst"
  shows "\<exists>m'. copy_back m dst src k = Some (m', dst + k, src - k) \<and>
    mem_put m dst (rev (region m (src - k) k)) = Some m'"
  using assms
proof (induction k arbitrary: m dst src)
  case 0
  then show ?case by (simp add: mem_put_def)
next
  case (Suc k)
  let ?b = "m ! (src - 1)"
  have get: "mem_get m (src - 1) 1 = Some [?b]"
    using Suc.prems by (simp add: mem_get_def take_Suc_conv_app_nth)
  obtain m1 where m1: "mem_put m dst [?b] = Some m1" using Suc.prems mem_put_ok [of dst "[?b]" m] by simp
  have len: "length m1 = length m" by (rule mem_put_length [OF m1])
  have "k \<le> src - 1" "src - 1 \<le> length m1" "dst + 1 + k \<le> length m1"
    "dst + 1 + k \<le> src - 1 - k \<or> src - 1 \<le> dst + 1"
    using Suc.prems len by auto
  from Suc.IH [OF this] obtain m' where m': "copy_back m1 (dst + 1) (src - 1) k = Some (m', dst + 1 + k, src - 1 - k)"
    "mem_put m1 (dst + 1) (rev (region m1 (src - 1 - k) k)) = Some m'"
    by blast
  have eq: "src - 1 - k = src - Suc k" by simp
  have "region m1 (src - Suc k) k = region m (src - Suc k) k"
    using Suc.prems by (intro region_cong [OF m1]) auto
  then have "mem_put m dst ([?b] @ rev (region m (src - Suc k) k)) = Some m'"
    using mem_put_append [OF m1, of "rev (region m (src - Suc k) k)"] m'(2) by (simp add: eq)
  moreover have "rev (region m (src - Suc k) (Suc k)) = [?b] @ rev (region m (src - Suc k) k)"
    using rev_region_Suc [of "src - Suc k" k m] Suc.prems by simp
  moreover have "copy_back m dst src (Suc k) = Some (m', dst + Suc k, src - Suc k)"
    using get m1 m'(1) by (simp add: eq)
  ultimately show ?case by simp
qed

lemma remain_loop_copy_back:
  "i + k \<le> count \<Longrightarrow>
   remain_loop m dst src count i k = map_option fst (copy_back m (dst + i) (src + (count - i)) k)"
proof (induction k arbitrary: i m)
  case (Suc k)
  have eq: "src + (count - i) - 1 = src + (count - 1 - i)" "src + (count - (i + 1)) = src + (count - 1 - i)"
    using Suc.prems by simp_all
  have IH: "remain_loop m dst src count (i + 1) k =
      map_option fst (copy_back m (dst + i + 1) (src + (count - 1 - i)) k)" for m
    using Suc.IH [of "i + 1" m] Suc.prems eq by simp
  show ?case
    unfolding remain_loop.simps copy_back.simps eq(1) IH by (simp split: Option.bind_split)
qed simp

lemma copy_back_add:
  "copy_back m dst src (j + k) = do { (m, dst, src) \<leftarrow> copy_back m dst src j; copy_back m dst src k }"
  by (induction j arbitrary: m dst src) (simp_all split: Option.bind_split)

lemma words_loop_copy_back:
  "words_loop m dst src k = map_option fst (copy_back m dst src (8 * k))"
proof (induction k arbitrary: m dst src)
  case (Suc k)
  have "8 * Suc k = 8 + 8 * k" by simp
  then show ?case
    by (simp only: words_loop.simps copy_back_add Suc) (auto split: Option.bind_split)
qed simp

lemma reverse_memcpy_copy_back:
  assumes "count \<noteq> 0" "dst \<noteq> src"
  shows "ct_reverse_memcpy m (Some dst) (Some src) count = map_option fst (copy_back m dst (src + count) count)"
proof -
  let ?r = "count mod 8" and ?q = "count div 8"
  have all: "copy_back m dst (src + count) count =
      do { (m, dst, src) \<leftarrow> copy_back m dst (src + count) ?r; copy_back m dst src (8 * ?q) }"
    using copy_back_add [of m dst "src + count" ?r "8 * ?q"] by simp
  have pos: "copy_back m dst (src + count) k = Some (m', d, s) \<Longrightarrow> d = dst + k \<and> s = src + count - k" for k m' d s
  proof (induction k arbitrary: m' d s)
    case (Suc k)
    then obtain m1 d1 s1 where "copy_back m dst (src + count) k = Some (m1, d1, s1)"
      "copy_back m1 d1 s1 1 = Some (m', d, s)"
      using copy_back_add [of m dst "src + count" k 1] by (auto split: Option.bind_splits)
    with Suc.IH [of m1 d1 s1] show ?case by (auto split: Option.bind_splits)
  qed simp
  show ?thesis
  proof (cases "count < 8")
    case True
    then show ?thesis
      using assms remain_loop_copy_back [of 0 count count m dst src] by (simp add: ct_reverse_memcpy_def)
  next
    case False
    have "src + (count - ?r) = src + count - ?r" by (simp add: mod_less_eq_dividend)
    with False assms show ?thesis
      using remain_loop_copy_back [of 0 ?r count m dst src] pos [of ?r] all
      by (auto simp: ct_reverse_memcpy_def words_loop_copy_back split: Option.bind_split)
  qed
qed

lemma reverse_memcpy_spec:
  assumes "src + n \<le> length m" "dst + n \<le> length m" "dst + n \<le> src \<or> src + n \<le> dst"
  shows "ct_reverse_memcpy m (Some dst) (Some src) n = mem_put m dst (rev (region m src n))"
proof (cases "n = 0")
  case True
  then show ?thesis using assms by (simp add: ct_reverse_memcpy_def mem_put_def)
next
  case False
  then have "dst \<noteq> src" using assms(3) by auto
  moreover obtain m' where "copy_back m dst (src + n) n = Some (m', dst + n, src)"
    "mem_put m dst (rev (region m src n)) = Some m'"
    using copy_back_spec [of n "src + n" m dst] assms by auto
  ultimately show ?thesis using False by (simp add: reverse_memcpy_copy_back)
qed

text \<open>After \<open>k\<close> exchanges, cell \<open>j\<close> of the region holds what cell \<open>c - 1 - j\<close> held if either of the two
  was visited.\<close>

lemma swap_loop_spec:
  assumes "2 * (i + k) \<le> c" and "d + c \<le> length m"
  shows "\<exists>m'. swap_loop m d c i k = Some m' \<and> length m' = length m \<and>
    (\<forall>a < length m. m' ! a =
       (if d \<le> a \<and> a < d + c \<and> (i \<le> a - d \<and> a - d < i + k \<or> i \<le> c - 1 - (a - d) \<and> c - 1 - (a - d) < i + k)
        then m ! (d + (c - 1 - (a - d))) else m ! a))"
  using assms
proof (induction k arbitrary: i m)
  case 0
  then show ?case by auto
next
  case (Suc k)
  let ?p = "d + i" and ?q = "d + (c - 1 - i)"
  have pq: "?p < ?q" "?q < length m" "?p < length m" using Suc.prems by auto
  have get: "mem_get m ?p 1 = Some [m ! ?p]" "mem_get m ?q 1 = Some [m ! ?q]"
    using pq by (simp_all add: mem_get_def take_Suc_conv_app_nth)
  obtain m1 where m1: "mem_put m ?p [m ! ?q] = Some m1" using pq mem_put_ok [of ?p "[m ! ?q]" m] by simp
  have l1: "length m1 = length m" by (rule mem_put_length [OF m1])
  obtain m2 where m2: "mem_put m1 ?q [m ! ?p] = Some m2" using pq l1 mem_put_ok [of ?q "[m ! ?p]" m1] by simp
  have l2: "length m2 = length m" using mem_put_length [OF m2] l1 by simp
  have v2: "m2 ! a = (if a = ?q then m ! ?p else if a = ?p then m ! ?q else m ! a)" if "a < length m" for a
    using mem_put_nth [OF m1 that] mem_put_nth [OF m2, of a] that l1 by auto
  have "2 * (i + 1 + k) \<le> c" "d + c \<le> length m2" using Suc.prems l2 by simp_all
  from Suc.IH [OF this] obtain m' where m': "swap_loop m2 d c (i + 1) k = Some m'" "length m' = length m2"
    and v: "\<And>a. a < length m2 \<Longrightarrow> m' ! a =
       (if d \<le> a \<and> a < d + c \<and> (i + 1 \<le> a - d \<and> a - d < i + 1 + k \<or> i + 1 \<le> c - 1 - (a - d) \<and> c - 1 - (a - d) < i + 1 + k)
        then m2 ! (d + (c - 1 - (a - d))) else m2 ! a)"
    by blast
  have "swap_loop m d c i (Suc k) = Some m'" using get m1 m2 m'(1) by simp
  moreover have "m' ! a = (if d \<le> a \<and> a < d + c \<and>
         (i \<le> a - d \<and> a - d < i + Suc k \<or> i \<le> c - 1 - (a - d) \<and> c - 1 - (a - d) < i + Suc k)
        then m ! (d + (c - 1 - (a - d))) else m ! a)" if a: "a < length m" for a
  proof (cases "d \<le> a \<and> a < d + c")
    case False
    then have "a \<noteq> ?p" "a \<noteq> ?q" using Suc.prems by auto
    with False show ?thesis using v [of a] v2 [OF a] a l2 by auto
  next
    case True
    then obtain j where j: "a = d + j" "j < c" by (metis add_less_cancel_left le_iff_add)
    let ?j = "c - 1 - j"
    have jb: "d + ?j < length m" using j Suc.prems by linarith
    have e: "a = ?q \<longleftrightarrow> j = c - 1 - i" "a = ?p \<longleftrightarrow> j = i" "d + ?j = ?q \<longleftrightarrow> j = i" "d + ?j = ?p \<longleftrightarrow> j = c - 1 - i"
      using j Suc.prems by auto
    have val: "m' ! a = (if i + 1 \<le> j \<and> j < i + 1 + k \<or> i + 1 \<le> ?j \<and> ?j < i + 1 + k then m2 ! (d + ?j) else m2 ! a)"
      using v [of a] a l2 j by simp
    have ij: "j = c - 1 - i \<longleftrightarrow> ?j = i" using j Suc.prems by auto
    have "\<not> (j = i \<and> ?j = i)" using j Suc.prems by auto
    then consider (p) "j = i" "?j \<noteq> i" | (q) "?j = i" "j \<noteq> i" | (o) "j \<noteq> i" "?j \<noteq> i"
      by blast
    then show ?thesis
    proof cases
      case p
      then have no: "\<not> (i + 1 \<le> j \<and> j < i + 1 + k \<or> i + 1 \<le> ?j \<and> ?j < i + 1 + k)"
        using j Suc.prems by auto
      show ?thesis using val [unfolded if_not_P [OF no]] v2 [OF a] e(1,2) ij j p by auto
    next
      case q
      then have no: "\<not> (i + 1 \<le> j \<and> j < i + 1 + k \<or> i + 1 \<le> ?j \<and> ?j < i + 1 + k)"
        using j Suc.prems by auto
      show ?thesis using val [unfolded if_not_P [OF no]] v2 [OF a] e(1,2) ij j q by auto
    next
      case o
      then have "(i + 1 \<le> j \<and> j < i + 1 + k \<or> i + 1 \<le> ?j \<and> ?j < i + 1 + k) \<longleftrightarrow>
          (i \<le> j \<and> j < i + Suc k \<or> i \<le> ?j \<and> ?j < i + Suc k)"
        by (simp add: le_less Suc_le_eq) auto
      with o show ?thesis using val v2 [OF a] v2 [OF jb] e ij j by simp
    qed
  qed
  ultimately show ?case using m'(2) l2 by auto
qed

lemma swap_half:
  assumes "d + c \<le> length m"
  shows "swap_loop m d c 0 (c div 2) = mem_put m d (rev (region m d c))"
proof -
  have "2 * (0 + c div 2) \<le> c" by simp
  from swap_loop_spec [OF this assms] obtain m' where m': "swap_loop m d c 0 (c div 2) = Some m'"
    "length m' = length m"
    and v: "\<And>a. a < length m \<Longrightarrow> m' ! a =
       (if d \<le> a \<and> a < d + c \<and> (a - d < c div 2 \<or> c - 1 - (a - d) < c div 2)
        then m ! (d + (c - 1 - (a - d))) else m ! a)"
    by auto
  obtain p where p: "mem_put m d (rev (region m d c)) = Some p"
    using assms mem_put_ok [of d "rev (region m d c)" m] by simp
  have "m' = p"
  proof (rule nth_equalityI)
    show "length m' = length p" using m'(2) mem_put_length [OF p] by simp
  next
    fix a
    assume "a < length m'"
    then have a: "a < length m" using m'(2) by simp
    show "m' ! a = p ! a"
    proof (cases "d \<le> a \<and> a < d + c")
      case True
      then obtain j where j: "a = d + j" "j < c" by (metis add_less_cancel_left le_iff_add)
      have "p ! a = m ! (d + (c - 1 - j))"
        using mem_put_nth [OF p a] j assms by (simp add: rev_nth)
      moreover have "m' ! a = m ! (d + (c - 1 - j))"
      proof (cases "j < c div 2 \<or> c - 1 - j < c div 2")
        case False
        then have jj: "c - 1 - j = j" using j by linarith
        have "m' ! a = m ! (d + j)" using v [OF a] j False by simp
        then show ?thesis by (simp only: jj)
      qed (use v [OF a] j in auto)
      ultimately show ?thesis by simp
    next
      case False
      then show ?thesis using v [OF a] mem_put_nth [OF p a] assms by auto
    qed
  qed
  with m' p show ?thesis by simp
qed

lemma rev_region_split:
  "a + (j + k) \<le> length m \<Longrightarrow> rev (region m a (j + k)) = rev (region m (a + j) k) @ rev (region m a j)"
  by (simp add: take_add add.commute)

text \<open>C11: Overlap-safe reverse copy.  For any two regions of \<open>count\<close> bytes inside memory, however
  they overlap, \<open>ct_reverse_memmove\<close> leaves in the destination the reverse of what the source held
  before the call, and changes no byte outside the destination.\<close>

theorem reverse_memmove_correct:
  assumes "src + count \<le> length m" and "dst + count \<le> length m"
  shows "ct_reverse_memmove m (Some dst) (Some src) count =
      Some (take dst m @ rev (take count (drop src m)) @ drop (dst + count) m)"
proof -
  have "ct_reverse_memmove m (Some dst) (Some src) count = mem_put m dst (rev (region m src count))"
  proof -
    consider (zero) "count = 0" | (apart) "count \<noteq> 0" "dst + count \<le> src \<or> src + count \<le> dst"
      | (below) "dst < src" "src < dst + count" | (above) "src < dst" "dst < src + count"
      | (same) "count \<noteq> 0" "dst = src"
      by linarith
    then show ?thesis
    proof cases
      case zero
      then show ?thesis using assms by (simp add: ct_reverse_memmove_def mem_put_def)
    next
      case apart
      then show ?thesis
        using assms reverse_memcpy_spec [of src count m dst] by (auto simp: ct_reverse_memmove_def)
    next
      case same
      then show ?thesis using assms swap_half [of dst count m] by (simp add: ct_reverse_memmove_def)
    next
      case below
      define l where "l = src - dst"
      have l: "src = dst + l" "0 < l" "l < count" using below by (auto simp: l_def)
      obtain k where k: "count = k + l" using l by (metis add.commute le_add_diff_inverse less_imp_le)
      have cp: "ct_reverse_memcpy m (Some dst) (Some (dst + count)) l = mem_put m dst (rev (region m (dst + count) l))"
        using assms l by (intro reverse_memcpy_spec) auto
      obtain m1 where m1: "mem_put m dst (rev (region m (dst + count) l)) = Some m1"
        using assms l mem_put_ok [of dst "rev (region m (dst + count) l)" m] by simp
      have len: "length m1 = length m" by (rule mem_put_length [OF m1])
      have un: "region m1 src k = region m src k"
        using assms l k by (intro region_cong [OF m1]) auto
      have two: "swap_loop m1 (dst + l) k 0 (k div 2) = mem_put m1 src (rev (region m src k))"
        using swap_half [of src k m1] un assms l k len by simp
      obtain m2 where m2: "mem_put m1 src (rev (region m src k)) = Some m2"
        using assms k len mem_put_ok [of src "rev (region m src k)" m1] by simp
      have "mem_put m dst (rev (region m (dst + count) l) @ rev (region m src k)) = Some m2"
        by (rule mem_put_append [OF m1]) (use m2 assms l k in \<open>simp add: add.commute\<close>)
      moreover have "rev (region m src count) = rev (region m (dst + count) l) @ rev (region m src k)"
        using rev_region_split [of src k l m] assms k l by (simp add: ac_simps)
      moreover have "count \<noteq> 0" "src - dst = l" "count - l = k" using l k by simp_all
      ultimately show ?thesis
        using below cp m1 two m2 l by (simp add: ct_reverse_memmove_def)
    next
      case above
      define l where "l = dst - src"
      have l: "dst = src + l" "0 < l" "l < count" using above by (auto simp: l_def)
      obtain k where k: "count = k + l" using l by (metis add.commute le_add_diff_inverse less_imp_le)
      have cp: "ct_reverse_memcpy m (Some (dst + k)) (Some src) l = mem_put m (dst + k) (rev (region m src l))"
        using assms l k by (intro reverse_memcpy_spec) auto
      obtain m1 where m1: "mem_put m (dst + k) (rev (region m src l)) = Some m1"
        using assms k l mem_put_ok [of "dst + k" "rev (region m src l)" m] by simp
      have len: "length m1 = length m" by (rule mem_put_length [OF m1])
      have un: "region m1 dst k = region m dst k"
        using assms l k by (intro region_cong [OF m1]) auto
      have two: "swap_loop m1 dst k 0 (k div 2) = mem_put m1 dst (rev (region m dst k))"
        using swap_half [of dst k m1] un assms k len by simp
      obtain m2 where m2: "mem_put m1 dst (rev (region m dst k)) = Some m2"
        using assms k len mem_put_ok [of dst "rev (region m dst k)" m1] by simp
      have "length (rev (region m dst k)) = k" using assms k by simp
      with m1 m2 have "mem_put m dst (rev (region m dst k) @ rev (region m src l)) = Some m2"
        using assms k l by (auto simp: mem_put_def min_def add.assoc split: if_splits)
      moreover have "rev (region m src count) = rev (region m dst k) @ rev (region m src l)"
        using rev_region_split [of src l k m] assms k l by (simp add: ac_simps)
      moreover have "count \<noteq> 0" "dst - src = l" "count - l = k" using l k by simp_all
      ultimately show ?thesis
        using above cp m1 two m2 l by (simp add: ct_reverse_memmove_def)
    qed
  qed
  then show ?thesis using assms by (simp add: mem_put_def)
qed

theorem reverse_memmove_correct_witness:
  "ct_reverse_memmove [1, 2, 3, 4, 5] (Some 1) (Some 0) 4 = Some [1, 4, 3, 2, 1]"
  using reverse_memmove_correct [of 0 4 "[1, 2, 3, 4, 5]" 1] by simp

section \<open>Bounded copies and formatting\<close>

fun strncpy_loop :: "u8 list \<Rightarrow> nat \<Rightarrow> nat \<Rightarrow> nat \<Rightarrow> nat \<Rightarrow> (u8 list \<times> nat) option" where
  "strncpy_loop m dest src i 0 = Some (m, i)"
| "strncpy_loop m dest src i (Suc k) = do {
     b \<leftarrow> mem_get m (src + i) 1;
     if b = [0] then Some (m, i)
     else do {
       m \<leftarrow> mem_put m (dest + i) b;
       strncpy_loop m dest src (i + 1) k } }"

definition ct_strncpy_s ::
  "u8 list \<Rightarrow> nat option \<Rightarrow> nat \<Rightarrow> nat option \<Rightarrow> nat \<Rightarrow> (int \<times> u8 list) option" where
  "ct_strncpy_s m dest dest_size src count =
     (case dest of
        None \<Rightarrow> Some (-1, m)
      | Some d \<Rightarrow>
          if dest_size = 0 then Some (-1, m)
          else case src of
            None \<Rightarrow> do { m \<leftarrow> mem_put m d [0]; Some (-1, m) }
          | Some s \<Rightarrow>
              if count = 0 then do { m \<leftarrow> mem_put m d [0]; Some (-1, m) }
              else do {
                let len = min (dest_size - 1) count;
                (m, i) \<leftarrow> strncpy_loop m d s 0 len;
                m \<leftarrow> mem_put m (d + i) [0];
                if i < count then do {
                  b \<leftarrow> mem_get m (s + i) 1;
                  if b \<noteq> [0] then Some (-1, m) else Some (c_int (of_nat i), m) }
                else Some (c_int (of_nat i), m) })"

text \<open>
  What \<open>vsnprintf\<close> promises: a formatting that succeeds has a text, of which the buffer receives what
  fits and a terminator, and the length of the whole text is returned; one that fails returns a
  negative number and leaves unspecified contents.  The outcome is the parameter: \<^term>\<open>Inr text\<close>, or
  \<^term>\<open>Inl junk\<close> with the contents a failing call leaves.
\<close>

type_synonym format_outcome = "u8 list + u8 list"

definition vsnprintf :: "u8 list \<Rightarrow> nat \<Rightarrow> nat \<Rightarrow> format_outcome \<Rightarrow> (int \<times> u8 list) option" where
  "vsnprintf m buf n out =
     (case out of
        Inl junk \<Rightarrow> do { m \<leftarrow> mem_put m buf (take n junk); Some (-1, m) }
      | Inr chars \<Rightarrow>
          if n = 0 then Some (int (length chars), m)
          else do { m \<leftarrow> mem_put m buf (take (n - 1) chars @ [0]); Some (int (length chars), m) })"

text \<open>The body of \<open>ct_snprintf\<close> outside of MSVC; \<open>fmt\<close> is \<^const>\<open>False\<close> for a \<open>NULL\<close> format.\<close>

definition ct_snprintf :: "u8 list \<Rightarrow> nat \<Rightarrow> nat \<Rightarrow> bool \<Rightarrow> format_outcome \<Rightarrow> (int \<times> u8 list) option" where
  "ct_snprintf m buf buf_size fmt out = (if \<not> fmt then Some (-1, m) else vsnprintf m buf buf_size out)"

definition ct_snprintf_s ::
  "u8 list \<Rightarrow> nat option \<Rightarrow> nat \<Rightarrow> bool \<Rightarrow> format_outcome \<Rightarrow> (int \<times> u8 list) option" where
  "ct_snprintf_s m buf buf_size fmt out =
     (case buf of
        None \<Rightarrow> Some (-1, m)
      | Some p \<Rightarrow>
          if buf_size = 0 \<or> \<not> fmt then Some (-1, m)
          else do {
            (result, m) \<leftarrow> vsnprintf m p buf_size out;
            m \<leftarrow> mem_put m (p + (buf_size - 1)) [0];
            if result < 0 then Some (c_int (of_nat (buf_size - 1)), m)
            else Some (if result \<ge> c_int (of_nat buf_size) then c_int (of_nat buf_size) - 1 else result, m) })"

text \<open>The base name: the text after the last separator.\<close>

fun basename_loop :: "u8 list \<Rightarrow> u8 list \<Rightarrow> u8 list" where
  "basename_loop result [] = result"
| "basename_loop result (c # cursor) = basename_loop (if c = 47 then cursor else result) cursor"

definition ct_basename :: "u8 list option \<Rightarrow> u8 list" where
  "ct_basename path = (case path of None \<Rightarrow> [40, 110, 105, 108, 41] | Some p \<Rightarrow> basename_loop p p)"

lemma basename_no_separator:
  "basename_loop r p = (if 47 \<in> set p then rev (takeWhile (\<lambda>c. c \<noteq> 47) (rev p)) else r)"
  by (induction p arbitrary: r) (auto simp: takeWhile_append)

lemma memrchr_spec:
  assumes "mem + count \<le> length m"
  shows "ct_memrchr m mem bt count =
    Some (if bt \<in> set (region m mem count)
          then Some (mem + (GREATEST i. i < count \<and> m ! (mem + i) = bt)) else None)"
  using assms
proof (induction count)
  case (Suc n)
  have get: "mem_get m (mem + n) 1 = Some [m ! (mem + n)]"
    using Suc.prems by (simp add: mem_get_def take_Suc_conv_app_nth)
  have reg: "set (region m mem (Suc n)) = insert (m ! (mem + n)) (set (region m mem n))"
    using Suc.prems by (simp add: take_Suc_conv_app_nth)
  show ?case
  proof (cases "m ! (mem + n) = bt")
    case True
    then have "(GREATEST i. i < Suc n \<and> m ! (mem + i) = bt) = n" by (intro Greatest_equality) auto
    with True get reg show ?thesis by simp
  next
    case False
    then have "(\<lambda>i. i < Suc n \<and> m ! (mem + i) = bt) = (\<lambda>i. i < n \<and> m ! (mem + i) = bt)"
      by (auto simp: less_Suc_eq)
    with False get reg Suc show ?thesis by auto
  qed
qed simp

lemma strncpy_loop_spec:
  assumes "region m (src + i) (length xs + 1) = xs @ [0]" "src + i + length xs + 1 \<le> length m"
    and "0 \<notin> set xs" "dest + i + min k (length xs) \<le> length m"
    and "dest + i + min k (length xs) \<le> src + i \<or> src + i + length xs + 1 \<le> dest + i"
  shows "\<exists>m'. strncpy_loop m dest src i k = Some (m', i + min k (length xs)) \<and>
    mem_put m (dest + i) (take k xs) = Some m'"
  using assms
proof (induction k arbitrary: i m xs)
  case 0
  then show ?case by (simp add: mem_put_def)
next
  case (Suc k)
  show ?case
  proof (cases xs)
    case Nil
    then have "mem_get m (src + i) 1 = Some [0]" using Suc.prems by (simp add: mem_get_def)
    then show ?thesis using Nil Suc.prems by (simp add: mem_put_def)
  next
    case (Cons x ys)
    have x: "m ! (src + i) = x" "x \<noteq> 0" and ys: "region m (src + (i + 1)) (length ys + 1) = ys @ [0]"
      using Suc.prems(1,2,3) Cons by (simp_all add: Cons_nth_drop_Suc [symmetric] )
    have get: "mem_get m (src + i) 1 = Some [x]"
      using Suc.prems(2) x Cons by (simp add: mem_get_def take_Suc_conv_app_nth)
    have "dest + i + 1 \<le> length m" using Suc.prems(4) Cons by simp
    then obtain m1 where m1: "mem_put m (dest + i) [x] = Some m1" using mem_put_ok [of "dest + i" "[x]" m] by simp
    have len: "length m1 = length m" by (rule mem_put_length [OF m1])
    have "region m1 (src + (i + 1)) (length ys + 1) = ys @ [0]"
      using Suc.prems Cons ys region_cong [OF m1, of "src + (i + 1)" "length ys + 1"] by auto
    from Suc.IH [OF this] obtain m' where
      "strncpy_loop m1 dest src (i + 1) k = Some (m', i + 1 + min k (length ys))"
      "mem_put m1 (dest + (i + 1)) (take k ys) = Some m'"
      using Suc.prems Cons len by auto
    moreover have "mem_put m (dest + i) ([x] @ take k ys) = Some m'"
      by (rule mem_put_append [OF m1]) (use calculation in simp)
    ultimately show ?thesis using get m1 x Cons by simp
  qed
qed

text \<open>C12: Bounded string copy.  For a source string of any length and a destination that does not
  overlap it, \<open>ct_strncpy_s\<close> writes exactly the first \<open>k\<close> characters and a terminator, where \<open>k\<close> is
  cut by the string, by \<open>dest_size - 1\<close> and by \<open>count\<close>, and nothing else; it returns \<open>k\<close>, or \<open>-1\<close> when
  the destination was too small for what was asked.\<close>

theorem strncpy_s_correct:
  assumes "0 < dest_size" "0 < count" "count < 2 ^ 31"
    and "take (length xs + 1) (drop src m) = xs @ [0]" "src + length xs + 1 \<le> length m" "0 \<notin> set xs"
    and "dest + dest_size \<le> length m"
    and "dest + dest_size \<le> src \<or> src + length xs + 1 \<le> dest"
    and "k = min (min (dest_size - 1) count) (length xs)"
  shows "ct_strncpy_s m (Some dest) dest_size (Some src) count =
    Some (if k < count \<and> k < length xs then -1 else int k,
          take dest m @ take k xs @ [0] @ drop (dest + k + 1) m)"
proof -
  let ?n = "min (dest_size - 1) count"
  have kb: "k \<le> dest_size - 1" "k \<le> count" "k \<le> length xs" using assms(9) by linarith+
  have pre: "region m (src + 0) (length xs + 1) = xs @ [0]" "src + 0 + length xs + 1 \<le> length m"
    "dest + 0 + min ?n (length xs) \<le> length m"
    "dest + 0 + min ?n (length xs) \<le> src + 0 \<or> src + 0 + length xs + 1 \<le> dest + 0"
    using assms(4,5) apply (simp_all only: add_0_right)
    using assms(7,8) kb assms(9) by linarith+
  from strncpy_loop_spec [OF pre(1,2) assms(6) pre(3,4)]
  obtain m1 where m1: "strncpy_loop m dest src 0 ?n = Some (m1, k)" "mem_put m dest (take ?n xs) = Some m1"
    unfolding assms(9) by auto
  have tk: "take ?n xs = take k xs" using assms(9) by (cases "?n \<le> length xs") (auto simp: min_def)
  have len: "length m1 = length m" by (rule mem_put_length [OF m1(2)])
  have "dest + k + 1 \<le> length m1" using len kb assms(1,7) by linarith
  then obtain m2 where m2: "mem_put m1 (dest + k) [0] = Some m2" using mem_put_ok [of "dest + k" "[0]" m1] by auto
  have lk: "length (take k xs) = k" using kb by simp
  have all: "mem_put m dest (take k xs @ [0]) = Some m2"
    using mem_put_append [OF m1(2), of "[0]" m2] m2 unfolding tk lk by simp
  then have eq: "m2 = take dest m @ take k xs @ [0] @ drop (dest + k + 1) m"
    using lk by (auto simp: mem_put_def add.assoc split: if_splits)
  have "region m2 src (length xs + 1) = region m src (length xs + 1)"
  proof (rule region_cong [OF all])
    have "length (take k xs @ [0]) = k + 1" using lk by simp
    then show "src + (length xs + 1) \<le> dest \<or> dest + length (take k xs @ [0]) \<le> src"
      using assms(1,8) kb(1) by linarith
    show "src + (length xs + 1) \<le> length m" using assms(5) by simp
  qed
  moreover have "m2 ! (src + k) = region m2 src (length xs + 1) ! k"
    using kb(3) assms(5) mem_put_length [OF all] by simp
  ultimately have "m2 ! (src + k) = (xs @ [0]) ! k" using assms(4) by simp
  then have get: "mem_get m2 (src + k) 1 = Some [(xs @ [0]) ! k]"
    using kb assms(5) mem_put_length [OF all] by (simp add: mem_get_def take_Suc_conv_app_nth)
  have nz: "(xs @ [0]) ! k = 0 \<longleftrightarrow> \<not> k < length xs"
    using kb assms(6) by (auto simp: nth_append) (metis nth_mem)
  have ci: "c_int (of_nat k) = int k"
    using kb assms(3) by (subst c_int_small) (simp_all add: unat_of_nat_lt)
  have "ct_strncpy_s m (Some dest) dest_size (Some src) count =
      Some (if k < count \<and> k < length xs then -1 else int k, m2)"
    using assms(1,2) by (simp add: ct_strncpy_s_def Let_def m1(1) [simplified] m2 get [simplified] nz ci)
  then show ?thesis unfolding eq .
qed

theorem strncpy_s_correct_witness:
  "ct_strncpy_s [104, 105, 33, 0, 9, 9, 9, 9] (Some 4) 3 (Some 0) 10 = Some (-1, [104, 105, 33, 0, 104, 105, 0, 9])"
proof -
  have "ct_strncpy_s [104, 105, 33, 0, 9, 9, 9, 9] (Some 4) 3 (Some 0) 10 =
    Some (if (2::nat) < 10 \<and> 2 < length [104, 105, 33 :: u8] then -1 else int 2,
          take 4 [104, 105, 33, 0, 9, 9, 9, 9] @ take 2 [104, 105, 33] @ [0] @ drop (4 + 2 + 1) [104, 105, 33, 0, 9, 9, 9, 9])"
    by (rule strncpy_s_correct) simp_all
  then show ?thesis by simp
qed

text \<open>Formatting with \<open>ct_snprintf_s\<close>: the text that fits, always terminated inside the buffer, and
  its length, never above \<open>buf_size - 1\<close>.\<close>

lemma snprintf_s_spec:
  assumes "0 < n" "n < 2 ^ 31" "p + n \<le> length m"
  shows "\<exists>m'. ct_snprintf_s m (Some p) n True (Inr chars) = Some (int (min (n - 1) (length chars)), m') \<and>
    length m' = length m \<and> region m' p (min (n - 1) (length chars)) = take (n - 1) chars \<and>
    m' ! (p + min (n - 1) (length chars)) = 0 \<and> take p m' = take p m \<and> drop (p + n) m' = drop (p + n) m"
proof -
  let ?k = "min (n - 1) (length chars)"
  have ci: "c_int (of_nat n) = int n"
    using assms by (subst c_int_small) (simp_all add: unat_of_nat_lt)
  have l: "length (take (n - 1) chars @ [0]) = ?k + 1" by (simp add: min.commute)
  then obtain m1 where m1: "mem_put m p (take (n - 1) chars @ [0]) = Some m1"
    using assms mem_put_ok [of p "take (n - 1) chars @ [0]" m] by auto
  have len: "length m1 = length m" by (rule mem_put_length [OF m1])
  have q: "p + (n - 1) + 1 \<le> length m1" using assms len by linarith
  then obtain m2 where m2: "mem_put m1 (p + (n - 1)) [0] = Some m2"
    using mem_put_ok [of "p + (n - 1)" "[0]" m1] by auto
  have len2: "length m2 = length m" using mem_put_length [OF m2] len by simp
  have r1: "region m1 p (?k + 1) = take (n - 1) chars @ [0]"
    using mem_get_put_same [OF m1] unfolding l by (simp add: mem_simps)
  have "region m2 p ?k = region m1 p ?k" using q by (intro region_cong [OF m2]) auto
  also have "\<dots> = take (n - 1) chars"
    using arg_cong [OF r1, of "take ?k"] by (simp add: min_def)
  finally have a: "region m2 p ?k = take (n - 1) chars" .
  have pk: "p + ?k < length m1" using assms len by linarith
  have "m1 ! (p + ?k) = 0"
    using mem_put_nth [OF m1, of "p + ?k"] l pk len by (simp add: nth_append min.commute)
  then have b: "m2 ! (p + ?k) = 0" using mem_put_nth [OF m2 pk] by auto
  have c: "take p m2 = take p m" using mem_put_frame(1) [OF m1, of p] mem_put_frame(1) [OF m2, of p] by simp
  have d: "drop (p + n) m2 = drop (p + n) m"
    using mem_put_frame(2) [OF m1, of "p + n"] mem_put_frame(2) [OF m2, of "p + n"] l assms(1) by simp
  have "ct_snprintf_s m (Some p) n True (Inr chars) = Some (int ?k, m2)"
    using assms m1 m2 ci by (auto simp: ct_snprintf_s_def vsnprintf_def)
  with a b c d len2 show ?thesis by blast
qed

end
