(* ===== verification/Coter_Msgbuf.thy ===== *)
theory Coter_Msgbuf
  imports Coter_Bytes Coter_Strings
begin

text \<open>
  \<open>bytes/msgbuf.h\<close> and \<open>bytes/msgbuf.c\<close>: a fixed-capacity append buffer.  \<open>mb_buffer\<close> is the memory
  from \<open>buffer_\<close> to the end of the allocation and \<open>mb_pos\<close> is \<open>write_pos_ - buffer_\<close>.  The intrusive
  list node takes no part in these operations.
\<close>

section \<open>State and operations\<close>

record ct_msgbuf =
  mb_buffer :: "u8 list"
  mb_pos :: nat
  mb_cap :: size_t

definition ct_msgbuf_size :: "ct_msgbuf \<Rightarrow> size_t" where
  "ct_msgbuf_size self = of_nat (mb_pos self)"

definition ct_msgbuf_available :: "ct_msgbuf \<Rightarrow> size_t" where
  "ct_msgbuf_available self = mb_cap self - of_nat (mb_pos self)"

definition ct_msgbuf_clear :: "ct_msgbuf \<Rightarrow> ct_msgbuf" where
  "ct_msgbuf_clear self = self\<lparr>mb_pos := 0\<rparr>"

definition ct_msgbuf_is_empty :: "ct_msgbuf \<Rightarrow> bool" where
  "ct_msgbuf_is_empty self \<longleftrightarrow> mb_pos self = 0"

definition ct_msgbuf_is_full :: "ct_msgbuf \<Rightarrow> bool" where
  "ct_msgbuf_is_full self \<longleftrightarrow> mb_pos self = unat (mb_cap self)"

text \<open>
  \<open>malloc\<close> is the allocator: \<^const>\<open>None\<close>, or a block of the requested size.  On an LP64 target the
  header of the struct takes 32 bytes and \<open>sizeof\<close> is 40.
\<close>

definition ct_msgbuf_create :: "(size_t \<Rightarrow> u8 list option) \<Rightarrow> size_t \<Rightarrow> ct_msgbuf option" where
  "ct_msgbuf_create malloc capacity =
     (let capacity = (if capacity \<noteq> 0 then capacity else 1024)
      in case malloc (40 - 1 + capacity) of
           None \<Rightarrow> None
         | Some block \<Rightarrow> Some \<lparr>mb_buffer = drop 32 block, mb_pos = 0, mb_cap = capacity\<rparr>)"

definition ct_msgbuf_write :: "ct_msgbuf \<Rightarrow> u8 list option \<Rightarrow> size_t \<Rightarrow> (size_t \<times> ct_msgbuf) option" where
  "ct_msgbuf_write self data len =
     (case data of
        None \<Rightarrow> Some (0, self)
      | Some src \<Rightarrow>
          if len = 0 then Some (0, self)
          else let available_space = ct_msgbuf_available self;
                   len = (if len > available_space then available_space else len)
               in if len = 0 then Some (0, self)
                  else do {
                    bs \<leftarrow> mem_get src 0 (unat len);
                    b \<leftarrow> mem_put (mb_buffer self) (mb_pos self) bs;
                    Some (len, self\<lparr>mb_buffer := b, mb_pos := mb_pos self + unat len\<rparr>) })"

text \<open>The macro \<open>ct_msgbuf_fmt\<close>; the outcome of the formatting is the parameter.\<close>

definition ct_msgbuf_fmt :: "ct_msgbuf \<Rightarrow> format_outcome \<Rightarrow> ct_msgbuf option" where
  "ct_msgbuf_fmt self out =
     (let available = ct_msgbuf_available self
      in if available > 0 then do {
           (size, b) \<leftarrow> ct_snprintf_s (mb_buffer self) (Some (mb_pos self)) (unat available) True out;
           let self = self\<lparr>mb_buffer := b\<rparr>;
           Some (if size > 0 then self\<lparr>mb_pos := mb_pos self + nat size\<rparr> else self) }
         else Some self)"

text \<open>A view: the result code and the struct written to \<open>*seg\<close>, addresses counted from \<open>buffer_\<close>.\<close>

definition ct_msgbuf_seg :: "ct_msgbuf \<Rightarrow> ct_bytes \<Rightarrow> size_t \<Rightarrow> size_t \<Rightarrow> int \<times> ct_bytes" where
  "ct_msgbuf_seg self seg start stop =
     (if stop < start \<or> stop > mb_cap self then (-1, seg)
      else let view_cap = mb_cap self - start
           in if view_cap > 0xFFFFFFFF then (-1, seg)
              else (0, \<lparr>b_data = unat start, b_cap = ucast view_cap, b_len = ucast (stop - start),
                        b_pos = 0, b_endian = CT_ENDIAN_BIG, b_hlswap = False, b_overflow = False\<rparr>))"

section \<open>Appending\<close>

definition msgbuf_ok :: "ct_msgbuf \<Rightarrow> bool" where
  "msgbuf_ok b \<longleftrightarrow> mb_pos b \<le> unat (mb_cap b) \<and> unat (mb_cap b) \<le> length (mb_buffer b)"

definition msgbuf_text :: "ct_msgbuf \<Rightarrow> u8 list" where
  "msgbuf_text b = take (mb_pos b) (mb_buffer b)"

lemma create_ok:
  assumes "ct_msgbuf_create malloc capacity = Some b"
    and "\<And>n block. malloc n = Some block \<Longrightarrow> length block = unat n"
    and "unat capacity < 2 ^ 63"
  shows "msgbuf_ok b \<and> msgbuf_text b = [] \<and> unat (mb_cap b) = (if capacity = 0 then 1024 else unat capacity)"
proof -
  let ?c = "if capacity \<noteq> 0 then capacity else 1024"
  obtain block where block: "malloc (39 + ?c) = Some block"
    and b: "b = \<lparr>mb_buffer = drop 32 block, mb_pos = 0, mb_cap = ?c\<rparr>"
    using assms(1) by (auto simp: ct_msgbuf_create_def Let_def split: option.splits if_splits)
  have "unat (39 + ?c) = 39 + unat ?c" using assms(3) by (subst unat_plus_lt) auto
  with assms(2) [OF block] b show ?thesis by (simp add: msgbuf_ok_def msgbuf_text_def)
qed

lemma available_nat: "msgbuf_ok b \<Longrightarrow> unat (ct_msgbuf_available b) = unat (mb_cap b) - mb_pos b"
proof -
  assume ok: "msgbuf_ok b"
  then have "unat (of_nat (mb_pos b) :: size_t) = mb_pos b"
    using unat_u64_bound [of "mb_cap b"] by (intro unat_of_nat_lt) (simp add: msgbuf_ok_def)
  with ok show ?thesis by (simp add: ct_msgbuf_available_def unat_diff_le msgbuf_ok_def)
qed

lemma msgbuf_write_ok:
  assumes ok: "msgbuf_ok b" and src: "unat len \<le> length src"
  shows "\<exists>b'. ct_msgbuf_write b (Some src) len = Some (of_nat (min (unat len) (unat (mb_cap b) - mb_pos b)), b') \<and>
    msgbuf_ok b' \<and> mb_cap b' = mb_cap b \<and>
    msgbuf_text b' = msgbuf_text b @ take (min (unat len) (unat (mb_cap b) - mb_pos b)) src"
proof -
  define L where "L = (if len > ct_msgbuf_available b then ct_msgbuf_available b else len)"
  have L: "unat L = min (unat len) (unat (mb_cap b) - mb_pos b)"
    using available_nat [OF ok] by (auto simp: L_def unat_facts)
  show ?thesis
  proof (cases "L = 0")
    case True
    then have "ct_msgbuf_write b (Some src) len = Some (0, b)"
      by (simp add: ct_msgbuf_write_def Let_def flip: L_def)
    then show ?thesis using True ok unfolding L [symmetric] by simp
  next
    case False
    then have nz: "len \<noteq> 0" by (auto simp: L_def)
    have k: "unat L \<le> length src" "mb_pos b + unat L \<le> unat (mb_cap b)"
      using L src ok by (auto simp: msgbuf_ok_def)
    have c: "unat (mb_cap b) \<le> length (mb_buffer b)" using ok by (simp add: msgbuf_ok_def)
    have len: "length (take (unat L) src) = unat L" using k by simp
    have put: "mem_put (mb_buffer b) (mb_pos b) (take (unat L) src) =
        Some (take (mb_pos b) (mb_buffer b) @ take (unat L) src @ drop (mb_pos b + unat L) (mb_buffer b))"
      (is "_ = Some ?m")
      using k c len by (simp add: mem_put_def)
    have "ct_msgbuf_write b (Some src) len = Some (L, b\<lparr>mb_buffer := ?m, mb_pos := mb_pos b + unat L\<rparr>)"
      using False nz put k by (simp add: ct_msgbuf_write_def Let_def mem_get_ok flip: L_def)
    moreover have "take (mb_pos b + unat L) ?m = msgbuf_text b @ take (unat L) src"
      using k c len by (simp add: msgbuf_text_def min_def)
    ultimately show ?thesis
      using k c len ok unfolding L [symmetric] by (simp add: msgbuf_ok_def msgbuf_text_def)
  qed
qed

text \<open>A run of writes of whole buffers.\<close>

fun msgbuf_writes :: "ct_msgbuf \<Rightarrow> u8 list list \<Rightarrow> (nat \<times> ct_msgbuf) option" where
  "msgbuf_writes b [] = Some (0, b)"
| "msgbuf_writes b (x # xs) = do {
     (n, b) \<leftarrow> ct_msgbuf_write b (Some x) (of_nat (length x));
     (k, b) \<leftarrow> msgbuf_writes b xs;
     Some (unat n + k, b) }"

text \<open>C13: Message buffers append and truncate.  Whatever sequence of messages is written, the buffer
  holds the concatenation of what was there and the messages, cut at the capacity; the byte counts
  returned add up to what was stored, nothing outside the buffer is touched, and the buffer never
  grows.\<close>

theorem msgbuf_writes_truncate:
  assumes "msgbuf_ok b" and "\<forall>x \<in> set xs. length x < 2 ^ 64"
  shows "\<exists>n b'. msgbuf_writes b xs = Some (n, b') \<and> msgbuf_ok b' \<and> mb_cap b' = mb_cap b \<and>
    msgbuf_text b' = take (unat (mb_cap b)) (msgbuf_text b @ concat xs) \<and>
    length (msgbuf_text b') = length (msgbuf_text b) + n"
  using assms
proof (induction xs arbitrary: b)
  case Nil
  then show ?case by (simp add: msgbuf_text_def msgbuf_ok_def)
next
  case (Cons x xs)
  have len: "unat (of_nat (length x) :: size_t) = length x"
    using Cons.prems(2) by (intro unat_of_nat_lt) simp
  let ?k = "min (length x) (unat (mb_cap b) - mb_pos b)"
  have pos: "length (msgbuf_text b) = mb_pos b" "mb_pos b \<le> unat (mb_cap b)"
    using Cons.prems(1) by (auto simp: msgbuf_ok_def msgbuf_text_def)
  obtain b1 where one: "ct_msgbuf_write b (Some x) (of_nat (length x)) = Some (of_nat ?k, b1)"
    "msgbuf_ok b1" "mb_cap b1 = mb_cap b" "msgbuf_text b1 = msgbuf_text b @ take ?k x"
    using msgbuf_write_ok [OF Cons.prems(1), of "of_nat (length x)" x] len by auto
  have k: "unat (of_nat ?k :: size_t) = ?k"
    using unat_u64_bound [of "mb_cap b"] by (intro unat_of_nat_lt) simp
  from Cons.IH [OF one(2)] Cons.prems(2) obtain n b' where two: "msgbuf_writes b1 xs = Some (n, b')"
    "msgbuf_ok b'" "mb_cap b' = mb_cap b1"
    "msgbuf_text b' = take (unat (mb_cap b1)) (msgbuf_text b1 @ concat xs)"
    "length (msgbuf_text b') = length (msgbuf_text b1) + n"
    by auto
  have cut: "take (unat (mb_cap b)) (msgbuf_text b @ take ?k x @ concat xs) =
      take (unat (mb_cap b)) (msgbuf_text b @ x @ concat xs)"
    using pos by (cases "length x \<le> unat (mb_cap b) - mb_pos b") (simp_all add: min_def)
  have "msgbuf_writes b (x # xs) = Some (?k + n, b')" by (simp only: msgbuf_writes.simps one(1) two(1) k bind.simps prod.case)
  moreover have "mb_cap b' = mb_cap b" using two(3) one(3) by simp
  moreover have "msgbuf_text b' = take (unat (mb_cap b)) (msgbuf_text b @ concat (x # xs))"
    using two(4) cut by (simp only: one(3,4) append_assoc concat.simps)
  moreover have "length (msgbuf_text b') = length (msgbuf_text b) + (?k + n)"
    using two(5) by (simp add: one(4))
  ultimately show ?case using two(2) by blast
qed

theorem msgbuf_writes_truncate_witness:
  "\<exists>n b'. msgbuf_writes \<lparr>mb_buffer = replicate 3 0, mb_pos = 0, mb_cap = 3\<rparr> [[1, 2], [3, 4]] = Some (n, b') \<and>
    msgbuf_ok b' \<and> mb_cap b' = 3 \<and> msgbuf_text b' = [1, 2, 3] \<and> length (msgbuf_text b') = 0 + n"
proof -
  let ?b = "\<lparr>mb_buffer = replicate 3 0, mb_pos = 0, mb_cap = 3\<rparr>"
  have "msgbuf_ok ?b" by (simp add: msgbuf_ok_def)
  moreover have "\<forall>x \<in> set [[1, 2], [3, 4 :: u8]]. length x < 2 ^ 64" by simp
  ultimately obtain n b' where res: "msgbuf_writes ?b [[1, 2], [3, 4]] = Some (n, b')" "msgbuf_ok b'"
    "mb_cap b' = mb_cap ?b" "msgbuf_text b' = take (unat (mb_cap ?b)) (msgbuf_text ?b @ concat [[1, 2], [3, 4]])"
    "length (msgbuf_text b') = length (msgbuf_text ?b) + n"
    using msgbuf_writes_truncate by blast
  have "msgbuf_text ?b = []" by (simp add: msgbuf_text_def)
  with res show ?thesis by (intro exI [of _ n] exI [of _ b']) simp
qed

text \<open>A view of a message buffer is a well-formed byte buffer over its storage.\<close>

lemma msgbuf_seg_ok:
  assumes ok: "msgbuf_ok b" and v: "ct_msgbuf_seg b v0 start stop = (0, v)"
  shows "bytes_ok (mb_buffer b) v \<and> b_data v = unat start \<and> b_data v + unat (b_cap v) = unat (mb_cap b) \<and>
    unat (b_len v) = unat stop - unat start"
proof -
  have c: "unat start \<le> unat stop" "unat stop \<le> unat (mb_cap b)"
    "unat (mb_cap b - start) \<le> 0xFFFFFFFF"
    and v': "b_data v = unat start" "b_cap v = ucast (mb_cap b - start)" "b_len v = ucast (stop - start)" "b_pos v = 0"
    using v by (auto simp: ct_msgbuf_seg_def Let_def word_less_nat_alt not_less split: if_splits)
  have "unat (mb_cap b - start) = unat (mb_cap b) - unat start" "unat (stop - start) = unat stop - unat start"
    using c by (simp_all add: unat_diff_le)
  moreover have "unat (ucast (mb_cap b - start) :: u32) = unat (mb_cap b - start)"
    "unat (ucast (stop - start) :: u32) = unat (stop - start)"
    using c calculation by (simp_all add: unat_ucast_down)
  ultimately show ?thesis using v' c ok by (simp add: bytes_ok_nat msgbuf_ok_def)
qed

text \<open>Formatting appends the text, cut to leave room for the terminator, and terminates it.\<close>

lemma msgbuf_fmt_ok:
  assumes ok: "msgbuf_ok b" and cap: "unat (mb_cap b) < 2 ^ 31" and room: "mb_pos b < unat (mb_cap b)"
  shows "\<exists>b'. ct_msgbuf_fmt b (Inr chars) = Some b' \<and> msgbuf_ok b' \<and> mb_cap b' = mb_cap b \<and>
    msgbuf_text b' = msgbuf_text b @ take (unat (mb_cap b) - mb_pos b - 1) chars \<and>
    mb_pos b' < unat (mb_cap b) \<and> mb_buffer b' ! mb_pos b' = 0"
proof -
  let ?n = "unat (mb_cap b) - mb_pos b"
  let ?k = "min (?n - 1) (length chars)"
  have n: "unat (ct_msgbuf_available b) = ?n" by (rule available_nat [OF ok])
  have c: "mb_pos b + ?n \<le> length (mb_buffer b)" using ok room by (simp add: msgbuf_ok_def)
  obtain m where m: "ct_snprintf_s (mb_buffer b) (Some (mb_pos b)) ?n True (Inr chars) = Some (int ?k, m)"
    "length m = length (mb_buffer b)" "take ?k (drop (mb_pos b) m) = take (?n - 1) chars"
    "m ! (mb_pos b + ?k) = 0" "take (mb_pos b) m = take (mb_pos b) (mb_buffer b)"
    using snprintf_s_spec [where n = "unat (mb_cap b) - mb_pos b" and p = "mb_pos b" and m = "mb_buffer b" and chars = chars]
      room cap c by fastforce
  have pos: "ct_msgbuf_available b > 0" using n room by (simp add: word_less_nat_alt)
  let ?b = "b\<lparr>mb_buffer := m, mb_pos := mb_pos b + ?k\<rparr>"
  have "ct_msgbuf_fmt b (Inr chars) = Some ?b"
    using pos m(1) by (auto simp: ct_msgbuf_fmt_def Let_def n)
  moreover have "msgbuf_ok ?b" using ok m(2) room by (simp add: msgbuf_ok_def)
  moreover have "msgbuf_text ?b = msgbuf_text b @ take (?n - 1) chars"
    using m(3,5) by (simp add: msgbuf_text_def take_add)
  moreover have "mb_pos ?b < unat (mb_cap b)" using room by simp
  ultimately show ?thesis using m(4) by (intro exI [of _ ?b]) simp
qed

end
