(* ===== verification/Coter_Queue.thy ===== *)
theory Coter_Queue
  imports Coter_Blocks
begin

text \<open>
  \<open>container/queue.h\<close>, \<open>queue.c\<close>, \<open>stack.h\<close>, \<open>stack.c\<close>: a bounded FIFO queue and a bounded stack of
  fixed-size elements over a buffer the caller provides.  Element counts and indices address that
  buffer, so they are natural numbers; an element is the list of its bytes, \<^const>\<open>None\<close> is a \<open>NULL\<close>
  pointer.  The locale \<open>bounded_queue\<close> is the contract clients of the queue rely on.
\<close>

section \<open>The contract of a bounded queue\<close>

locale bounded_queue =
  fixes inv :: "'q \<Rightarrow> bool"
    and contents :: "'q \<Rightarrow> 'a list"
    and capacity :: "'q \<Rightarrow> nat"
    and accepts :: "'q \<Rightarrow> 'a \<Rightarrow> bool"
    and enq :: "'q \<Rightarrow> 'a \<Rightarrow> (bool \<times> 'q) option"
    and deq :: "'q \<Rightarrow> ('a option \<times> 'q) option"
  assumes size_le: "inv q \<Longrightarrow> length (contents q) \<le> capacity q"
    and contents_accepted: "inv q \<Longrightarrow> x \<in> set (contents q) \<Longrightarrow> accepts q x"
    and enq_room: "inv q \<Longrightarrow> accepts q x \<Longrightarrow> length (contents q) < capacity q \<Longrightarrow>
      \<exists>q'. enq q x = Some (True, q') \<and> inv q' \<and> contents q' = contents q @ [x] \<and>
        capacity q' = capacity q \<and> accepts q' = accepts q"
    and enq_full: "inv q \<Longrightarrow> accepts q x \<Longrightarrow> length (contents q) = capacity q \<Longrightarrow> enq q x = Some (False, q)"
    and deq_empty: "inv q \<Longrightarrow> contents q = [] \<Longrightarrow> deq q = Some (None, q)"
    and deq_Cons: "inv q \<Longrightarrow> contents q = x # xs \<Longrightarrow>
      \<exists>q'. deq q = Some (Some x, q') \<and> inv q' \<and> contents q' = xs \<and>
        capacity q' = capacity q \<and> accepts q' = accepts q"
begin

fun put_all :: "'q \<Rightarrow> 'a list \<Rightarrow> (nat \<times> 'q) option" where
  "put_all q [] = Some (0, q)"
| "put_all q (x # xs) =
     (case enq q x of
        None \<Rightarrow> None
      | Some (b, q) \<Rightarrow> map_option (\<lambda>(n, q). (if b then Suc n else n, q)) (put_all q xs))"

fun get_n :: "'q \<Rightarrow> nat \<Rightarrow> ('a list \<times> 'q) option" where
  "get_n q 0 = Some ([], q)"
| "get_n q (Suc n) =
     (case deq q of
        None \<Rightarrow> None
      | Some (None, q) \<Rightarrow> Some ([], q)
      | Some (Some x, q) \<Rightarrow> map_option (\<lambda>(xs, q). (x # xs, q)) (get_n q n))"

lemma put_all_spec:
  assumes "inv q" and "\<forall>x \<in> set xs. accepts q x"
  shows "\<exists>q'. put_all q xs = Some (min (length xs) (capacity q - length (contents q)), q') \<and> inv q' \<and>
    contents q' = take (capacity q) (contents q @ xs) \<and> capacity q' = capacity q \<and> accepts q' = accepts q"
  using assms
proof (induction xs arbitrary: q)
  case Nil
  then show ?case using size_le [of q] by simp
next
  case (Cons x xs)
  show ?case
  proof (cases "length (contents q) < capacity q")
    case True
    obtain q1 where q1: "enq q x = Some (True, q1)" "inv q1" "contents q1 = contents q @ [x]"
      "capacity q1 = capacity q" "accepts q1 = accepts q"
      using enq_room [OF Cons.prems(1) _ True, of x] Cons.prems(2) by auto
    have "\<forall>x \<in> set xs. accepts q1 x" using Cons.prems(2) q1(5) by simp
    from Cons.IH [OF q1(2) this] q1 True show ?thesis by (auto simp: Suc_diff_Suc)
  next
    case False
    then have full: "length (contents q) = capacity q" using size_le [OF Cons.prems(1)] by simp
    have e: "enq q x = Some (False, q)" using enq_full [OF Cons.prems(1) _ full] Cons.prems(2) by simp
    have "\<forall>x \<in> set xs. accepts q x" using Cons.prems(2) by simp
    from Cons.IH [OF Cons.prems(1) this] e full show ?thesis by auto
  qed
qed

lemma get_n_spec:
  assumes "inv q"
  shows "\<exists>q'. get_n q n = Some (take n (contents q), q') \<and> inv q' \<and> contents q' = drop n (contents q) \<and>
    capacity q' = capacity q \<and> accepts q' = accepts q"
  using assms
proof (induction n arbitrary: q)
  case 0
  then show ?case by simp
next
  case (Suc n)
  show ?case
  proof (cases "contents q")
    case Nil
    then show ?thesis using deq_empty [OF Suc.prems] Suc.prems by simp
  next
    case (Cons x xs)
    obtain q1 where q1: "deq q = Some (Some x, q1)" "inv q1" "contents q1 = xs"
      "capacity q1 = capacity q" "accepts q1 = accepts q"
      using deq_Cons [OF Suc.prems Cons] by auto
    from Suc.IH [OF q1(2)] q1 Cons show ?thesis by auto
  qed
qed

end

section \<open>The queue\<close>

record ct_queue =
  q_all :: "u8 list"
  q_byte :: nat
  q_max :: nat
  q_head :: nat
  q_tail :: nat
  q_size :: nat

definition ct_queue_is_empty :: "ct_queue \<Rightarrow> bool" where
  "ct_queue_is_empty self \<longleftrightarrow> q_size self = 0"

definition ct_queue_is_full :: "ct_queue \<Rightarrow> bool" where
  "ct_queue_is_full self \<longleftrightarrow> q_size self = q_max self"

definition ct_queue_clear :: "ct_queue \<Rightarrow> ct_queue" where
  "ct_queue_clear self = self\<lparr>q_size := 0, q_head := 0, q_tail := 0\<rparr>"

definition CT_QUEUE_INDEX_INC :: "ct_queue \<Rightarrow> nat \<Rightarrow> nat" where
  "CT_QUEUE_INDEX_INC self idx = (if idx + 1 \<ge> q_max self then 0 else idx + 1)"

definition CT_QUEUE_INDEX_DEC :: "ct_queue \<Rightarrow> nat \<Rightarrow> nat" where
  "CT_QUEUE_INDEX_DEC self idx = (if idx = 0 then q_max self - 1 else idx - 1)"

definition CT_QUEUE_ITEM :: "ct_queue \<Rightarrow> nat \<Rightarrow> nat" where
  "CT_QUEUE_ITEM self idx = idx * q_byte self"

definition ct_queue_init :: "ct_queue \<Rightarrow> u8 list option \<Rightarrow> nat \<Rightarrow> nat \<Rightarrow> ct_queue" where
  "ct_queue_init self buffer byte n =
     (case buffer of
        None \<Rightarrow> self
      | Some buf \<Rightarrow>
          if byte = 0 then self
          else ct_queue_clear (self\<lparr>q_all := buf, q_byte := byte, q_max := n\<rparr>))"

definition ct_queue_enqueue :: "ct_queue \<Rightarrow> u8 list option \<Rightarrow> (bool \<times> ct_queue) option" where
  "ct_queue_enqueue self item =
     (case item of
        None \<Rightarrow> Some (False, self)
      | Some item \<Rightarrow>
          if q_byte self = 0 then Some (False, self)
          else if ct_queue_is_full self then Some (False, self)
          else do {
            bs \<leftarrow> mem_get item 0 (q_byte self);
            m \<leftarrow> mem_put (q_all self) (CT_QUEUE_ITEM self (q_tail self)) bs;
            let self = self\<lparr>q_all := m\<rparr>;
            let self = self\<lparr>q_tail := CT_QUEUE_INDEX_INC self (q_tail self)\<rparr>;
            Some (True, self\<lparr>q_size := q_size self + 1\<rparr>) })"

text \<open>The second component of the result is what is stored at \<open>item\<close>, if anything.\<close>

definition ct_queue_dequeue :: "ct_queue \<Rightarrow> bool \<Rightarrow> (bool \<times> u8 list option \<times> ct_queue) option" where
  "ct_queue_dequeue self item =
     (if q_byte self = 0 \<or> \<not> item then Some (False, None, self)
      else if ct_queue_is_empty self then Some (False, None, self)
      else do {
        bs \<leftarrow> mem_get (q_all self) (CT_QUEUE_ITEM self (q_head self)) (q_byte self);
        let self = self\<lparr>q_head := CT_QUEUE_INDEX_INC self (q_head self)\<rparr>;
        Some (True, Some bs, self\<lparr>q_size := q_size self - 1\<rparr>) })"

definition ct_queue_head :: "ct_queue \<Rightarrow> bool \<Rightarrow> (bool \<times> u8 list option) option" where
  "ct_queue_head self item =
     (if q_byte self = 0 \<or> \<not> item then Some (False, None)
      else if ct_queue_is_empty self then Some (False, None)
      else do {
        bs \<leftarrow> mem_get (q_all self) (CT_QUEUE_ITEM self (q_head self)) (q_byte self);
        Some (True, Some bs) })"

text \<open>
  The callback of a traversal gets a pointer into the queue: it may rewrite the element and its own
  argument, and its result stops the traversal unless it is 0.
\<close>

fun queue_traverse_loop ::
  "ct_queue \<Rightarrow> (u8 list \<Rightarrow> 's \<Rightarrow> int \<times> u8 list \<times> 's) \<Rightarrow> 's \<Rightarrow> nat \<Rightarrow> nat \<Rightarrow> (int \<times> 's \<times> ct_queue) option" where
  "queue_traverse_loop self callback arg idx 0 = Some (0, arg, self)"
| "queue_traverse_loop self callback arg idx (Suc k) = do {
     bs \<leftarrow> mem_get (q_all self) (CT_QUEUE_ITEM self idx) (q_byte self);
     let (rc, bs', arg) = callback bs arg;
     m \<leftarrow> mem_put (q_all self) (CT_QUEUE_ITEM self idx) bs';
     let self = self\<lparr>q_all := m\<rparr>;
     if rc \<noteq> 0 then Some (rc, arg, self)
     else queue_traverse_loop self callback arg (CT_QUEUE_INDEX_INC self idx) k }"

definition ct_queue_traverse ::
  "ct_queue \<Rightarrow> (u8 list \<Rightarrow> 's \<Rightarrow> int \<times> u8 list \<times> 's) option \<Rightarrow> 's \<Rightarrow> (int \<times> 's \<times> ct_queue) option" where
  "ct_queue_traverse self callback arg =
     (case callback of
        None \<Rightarrow> Some (-1, arg, self)
      | Some cb \<Rightarrow>
          if q_byte self = 0 then Some (-1, arg, self)
          else queue_traverse_loop self cb arg (q_head self) (q_size self))"

section \<open>The queue keeps the contract\<close>

definition queue_ok :: "ct_queue \<Rightarrow> bool" where
  "queue_ok q \<longleftrightarrow> 0 < q_byte q \<and> q_max q * q_byte q \<le> length (q_all q) \<and> q_size q \<le> q_max q \<and>
     (if q_max q = 0 then q_head q = 0 \<and> q_tail q = 0
      else q_head q < q_max q \<and> q_tail q = (q_head q + q_size q) mod q_max q)"

definition queue_list :: "ct_queue \<Rightarrow> u8 list list" where
  "queue_list q = ring (slots (q_byte q) (q_all q) (q_max q)) (q_head q) (q_size q)"

definition queue_accepts :: "ct_queue \<Rightarrow> u8 list \<Rightarrow> bool" where
  "queue_accepts q x \<longleftrightarrow> length x = q_byte q"

lemma length_queue_list [simp]: "length (queue_list q) = q_size q"
  by (simp add: queue_list_def)

lemma queue_init_ok:
  "0 < byte \<Longrightarrow> n * byte \<le> length buf \<Longrightarrow>
   queue_ok (ct_queue_init q (Some buf) byte n) \<and> queue_list (ct_queue_init q (Some buf) byte n) = []"
  by (simp add: ct_queue_init_def ct_queue_clear_def queue_ok_def queue_list_def)

lemma queue_clear_ok: "queue_ok q \<Longrightarrow> queue_ok (ct_queue_clear q) \<and> queue_list (ct_queue_clear q) = []"
  by (simp add: ct_queue_clear_def queue_ok_def queue_list_def)

lemma index_inc: "i < q_max q \<Longrightarrow> CT_QUEUE_INDEX_INC q i = (i + 1) mod q_max q"
  by (auto simp: CT_QUEUE_INDEX_INC_def mod_if)

lemma enqueue_room:
  assumes ok: "queue_ok q" and x: "length x = q_byte q" and room: "q_size q < q_max q"
  shows "\<exists>q'. ct_queue_enqueue q (Some x) = Some (True, q') \<and> queue_ok q' \<and> queue_list q' = queue_list q @ [x] \<and>
    q_max q' = q_max q \<and> q_byte q' = q_byte q"
proof -
  have c: "0 < q_byte q" "q_max q * q_byte q \<le> length (q_all q)" "0 < q_max q"
    "q_head q < q_max q" "q_tail q = (q_head q + q_size q) mod q_max q"
    using ok room by (auto simp: queue_ok_def split: if_splits)
  have t: "q_tail q < q_max q" using c by simp
  obtain m where m: "mem_put (q_all q) (q_tail q * q_byte q) x = Some m" "length m = length (q_all q)"
    using slot_put_ex [OF t c(2) x] by blast
  let ?q = "q\<lparr>q_all := m, q_tail := (q_tail q + 1) mod q_max q, q_size := q_size q + 1\<rparr>"
  have inc: "CT_QUEUE_INDEX_INC (q\<lparr>q_all := m\<rparr>) (q_tail q) = (q_tail q + 1) mod q_max q"
    using index_inc [of "q_tail q" "q\<lparr>q_all := m\<rparr>"] t by simp
  have "ct_queue_enqueue q (Some x) = Some (True, ?q)"
    using c room m x inc
    by (simp add: ct_queue_enqueue_def ct_queue_is_full_def mem_get_def CT_QUEUE_ITEM_def Let_def)
  moreover have "queue_ok ?q" using ok c room m by (simp add: queue_ok_def mod_Suc_eq)
  moreover have "queue_list ?q = queue_list q @ [x]"
  proof -
    let ?d = "slots (q_byte q) (q_all q) (q_max q)"
    have d: "slots (q_byte q) m (q_max q) = ?d[q_tail q := x]" by (rule slots_put [OF m(1) x c(2)])
    have "mem_put ?d (q_tail q) [x] = Some (?d[q_tail q := x])"
      using t by (simp add: mem_put_def upd_conv_take_nth_drop)
    then have "ring_stored ?d (?d[q_tail q := x]) (q_tail q) [x]"
      using t by (intro ring_stored_contiguous) simp_all
    then have "ring (?d[q_tail q := x]) (q_head q) (q_size q + length [x]) = ring ?d (q_head q) (q_size q) @ [x]"
      using c room by (intro ring_append) simp_all
    then show ?thesis by (simp add: queue_list_def d)
  qed
  ultimately show ?thesis by (intro exI [of _ ?q]) simp
qed

lemma dequeue_Cons:
  assumes ok: "queue_ok q" and ne: "queue_list q = x # xs"
  shows "\<exists>q'. ct_queue_dequeue q True = Some (True, Some x, q') \<and> queue_ok q' \<and> queue_list q' = xs \<and>
    q_max q' = q_max q \<and> q_byte q' = q_byte q"
    and "ct_queue_head q True = Some (True, Some x)"
proof -
  let ?d = "slots (q_byte q) (q_all q) (q_max q)"
  have sz: "0 < q_size q" using ne by (metis length_queue_list length_Cons zero_less_Suc)
  have c: "0 < q_byte q" "q_max q * q_byte q \<le> length (q_all q)" "0 < q_max q" "q_size q \<le> q_max q"
    "q_head q < q_max q" "q_tail q = (q_head q + q_size q) mod q_max q"
    using ok sz by (auto simp: queue_ok_def split: if_splits)
  have "x = queue_list q ! 0" using ne by simp
  also have "\<dots> = slot (q_byte q) (q_all q) (q_head q)"
    using sz c by (simp add: queue_list_def nth_ring nth_slots)
  finally have get: "mem_get (q_all q) (q_head q * q_byte q) (q_byte q) = Some x"
    using slot_get [OF c(5,2)] by simp
  then show "ct_queue_head q True = Some (True, Some x)"
    using c sz by (simp add: ct_queue_head_def ct_queue_is_empty_def CT_QUEUE_ITEM_def)
  let ?q = "q\<lparr>q_head := (q_head q + 1) mod q_max q, q_size := q_size q - 1\<rparr>"
  have "ct_queue_dequeue q True = Some (True, Some x, ?q)"
    using get c sz index_inc [OF c(5)]
    by (simp add: ct_queue_dequeue_def ct_queue_is_empty_def CT_QUEUE_ITEM_def Let_def)
  moreover have "queue_list ?q = xs"
    using ring_drop [of 1 "q_size q" ?d "q_head q"] sz ne by (simp add: queue_list_def)
  moreover have "((q_head q + 1) mod q_max q + (q_size q - 1)) mod q_max q = (q_head q + q_size q) mod q_max q"
    using mod_add_left_eq [of "q_head q + 1" "q_max q" "q_size q - 1"] sz by simp
  then have "queue_ok ?q" using ok c sz by (simp add: queue_ok_def)
  ultimately show "\<exists>q'. ct_queue_dequeue q True = Some (True, Some x, q') \<and> queue_ok q' \<and> queue_list q' = xs \<and>
    q_max q' = q_max q \<and> q_byte q' = q_byte q"
    by (intro exI [of _ ?q]) simp
qed

lemma queue_list_width: "queue_ok q \<Longrightarrow> x \<in> set (queue_list q) \<Longrightarrow> length x = q_byte q"
  by (auto simp: queue_list_def ring_def nth_slots queue_ok_def intro!: length_slot [where n = "q_max q"] split: if_splits)

text \<open>The operations in the shape of the contract, and the interpretation.\<close>

definition queue_enq :: "ct_queue \<Rightarrow> u8 list \<Rightarrow> (bool \<times> ct_queue) option" where
  "queue_enq q x = ct_queue_enqueue q (Some x)"

definition queue_deq :: "ct_queue \<Rightarrow> (u8 list option \<times> ct_queue) option" where
  "queue_deq q = map_option snd (ct_queue_dequeue q True)"

interpretation cq: bounded_queue queue_ok queue_list q_max queue_accepts queue_enq queue_deq
proof
  show "length (queue_list q) \<le> q_max q" if "queue_ok q" for q
    using that by (simp add: queue_ok_def)
  show "queue_accepts q x" if "queue_ok q" "x \<in> set (queue_list q)" for q x
    using queue_list_width [OF that] by (simp add: queue_accepts_def)
  show "\<exists>q'. queue_enq q x = Some (True, q') \<and> queue_ok q' \<and> queue_list q' = queue_list q @ [x] \<and>
      q_max q' = q_max q \<and> queue_accepts q' = queue_accepts q"
    if "queue_ok q" "queue_accepts q x" "length (queue_list q) < q_max q" for q x
    using enqueue_room [of q x] that by (auto simp: queue_enq_def queue_accepts_def fun_eq_iff)
  show "queue_enq q x = Some (False, q)"
    if "queue_ok q" "queue_accepts q x" "length (queue_list q) = q_max q" for q x
    using that by (simp add: queue_enq_def ct_queue_enqueue_def ct_queue_is_full_def)
  show "queue_deq q = Some (None, q)" if "queue_ok q" "queue_list q = []" for q
    using that length_queue_list [of q] by (auto simp add: queue_deq_def ct_queue_dequeue_def ct_queue_is_empty_def)
  show "\<exists>q'. queue_deq q = Some (Some x, q') \<and> queue_ok q' \<and> queue_list q' = xs \<and>
      q_max q' = q_max q \<and> queue_accepts q' = queue_accepts q"
    if "queue_ok q" "queue_list q = x # xs" for q x xs
    using dequeue_Cons(1) [OF that] by (auto simp: queue_deq_def queue_accepts_def fun_eq_iff)
qed

section \<open>Any use of the queue\<close>

datatype queue_op = Enqueue "u8 list" | Dequeue | Head | Clear

fun queue_exec :: "ct_queue \<Rightarrow> queue_op \<Rightarrow> (bool \<times> u8 list option \<times> ct_queue) option" where
  "queue_exec q (Enqueue x) = map_option (\<lambda>(b, q). (b, None, q)) (ct_queue_enqueue q (Some x))"
| "queue_exec q Dequeue = ct_queue_dequeue q True"
| "queue_exec q Head = map_option (\<lambda>(b, x). (b, x, q)) (ct_queue_head q True)"
| "queue_exec q Clear = Some (True, None, ct_queue_clear q)"

fun queue_run :: "ct_queue \<Rightarrow> queue_op list \<Rightarrow> ((bool \<times> u8 list option) list \<times> ct_queue) option" where
  "queue_run q [] = Some ([], q)"
| "queue_run q (op # ops) = do {
     (b, x, q) \<leftarrow> queue_exec q op;
     (outs, q) \<leftarrow> queue_run q ops;
     Some ((b, x) # outs, q) }"

text \<open>The specification: a list of at most \<open>c\<close> elements, oldest first.\<close>

fun list_queue_step :: "nat \<Rightarrow> u8 list list \<Rightarrow> queue_op \<Rightarrow> (bool \<times> u8 list option) \<times> u8 list list" where
  "list_queue_step c xs (Enqueue x) = (if length xs < c then ((True, None), xs @ [x]) else ((False, None), xs))"
| "list_queue_step c [] Dequeue = ((False, None), [])"
| "list_queue_step c (x # xs) Dequeue = ((True, Some x), xs)"
| "list_queue_step c [] Head = ((False, None), [])"
| "list_queue_step c (x # xs) Head = ((True, Some x), x # xs)"
| "list_queue_step c xs Clear = ((True, None), [])"

fun list_queue_run :: "nat \<Rightarrow> u8 list list \<Rightarrow> queue_op list \<Rightarrow> (bool \<times> u8 list option) list \<times> u8 list list" where
  "list_queue_run c xs [] = ([], xs)"
| "list_queue_run c xs (op # ops) =
     (let (out, xs) = list_queue_step c xs op; (outs, xs) = list_queue_run c xs ops in (out # outs, xs))"

fun queue_op_ok :: "nat \<Rightarrow> queue_op \<Rightarrow> bool" where
  "queue_op_ok w (Enqueue x) \<longleftrightarrow> length x = w"
| "queue_op_ok w _ \<longleftrightarrow> True"

lemma queue_exec_step:
  assumes ok: "queue_ok q" and op: "queue_op_ok (q_byte q) op"
  shows "\<exists>b x q'. queue_exec q op = Some (b, x, q') \<and> queue_ok q' \<and> q_max q' = q_max q \<and> q_byte q' = q_byte q \<and>
    list_queue_step (q_max q) (queue_list q) op = ((b, x), queue_list q')"
proof (cases op)
  case (Enqueue x)
  show ?thesis
  proof (cases "length (queue_list q) < q_max q")
    case True
    with enqueue_room [OF ok, of x] op Enqueue show ?thesis by auto
  next
    case False
    then have "ct_queue_is_full q" using ok by (simp add: ct_queue_is_full_def queue_ok_def)
    with False ok Enqueue show ?thesis by (auto simp: ct_queue_enqueue_def)
  qed
next
  case Dequeue
  show ?thesis
  proof (cases "queue_list q")
    case Nil
    then have "ct_queue_is_empty q" using length_queue_list [of q] by (simp add: ct_queue_is_empty_def)
    with Nil ok Dequeue show ?thesis by (auto simp add: ct_queue_dequeue_def)
  next
    case (Cons y ys)
    with dequeue_Cons(1) [OF ok Cons] Dequeue show ?thesis by auto
  qed
next
  case Head
  show ?thesis
  proof (cases "queue_list q")
    case Nil
    then have "ct_queue_is_empty q" using length_queue_list [of q] by (simp add: ct_queue_is_empty_def)
    with Nil ok Head show ?thesis by (auto simp add: ct_queue_head_def)
  next
    case (Cons y ys)
    with dequeue_Cons(2) [OF ok Cons] ok Head show ?thesis by auto
  qed
next
  case Clear
  then show ?thesis using queue_clear_ok [OF ok] by (auto simp add: ct_queue_clear_def)
qed

text \<open>C9: The circular queue is a bounded FIFO list.  For any sequence of enqueues, dequeues, head
  queries and clears on a well-formed queue, no access leaves the element buffer, every call returns
  what the same call returns on a list of at most \<open>max_\<close> elements (refusing when full or empty), and
  the queue ends well formed holding exactly the list's elements in order.\<close>

theorem queue_refines_list:
  assumes "queue_ok q" and "list_all (queue_op_ok (q_byte q)) ops"
  shows "\<exists>outs q'. queue_run q ops = Some (outs, q') \<and> queue_ok q' \<and>
    list_queue_run (q_max q) (queue_list q) ops = (outs, queue_list q')"
  using assms
proof (induction ops arbitrary: q)
  case Nil
  then show ?case by simp
next
  case (Cons op ops)
  then obtain b x q1 where one: "queue_exec q op = Some (b, x, q1)" "queue_ok q1" "q_max q1 = q_max q"
    "q_byte q1 = q_byte q" "list_queue_step (q_max q) (queue_list q) op = ((b, x), queue_list q1)"
    using queue_exec_step [of q op] by auto
  from Cons.IH [OF one(2)] Cons.prems one show ?case by auto
qed

theorem queue_refines_list_witness:
  "\<exists>outs q'. queue_run (ct_queue_init \<lparr>q_all = [], q_byte = 0, q_max = 0, q_head = 0, q_tail = 0, q_size = 0\<rparr>
        (Some (replicate 4 0)) 2 2)
      [Enqueue [1, 2], Enqueue [3, 4], Dequeue, Enqueue [5, 6], Enqueue [7, 8], Head] = Some (outs, q') \<and>
    queue_ok q' \<and> (outs, queue_list q') =
      ([(True, None), (True, None), (True, Some [1, 2]), (True, None), (False, None), (True, Some [3, 4])],
       [[3, 4], [5, 6]])"
  using queue_refines_list [of "ct_queue_init \<lparr>q_all = [], q_byte = 0, q_max = 0, q_head = 0, q_tail = 0, q_size = 0\<rparr>
        (Some (replicate 4 0)) 2 2" "[Enqueue [1, 2], Enqueue [3, 4], Dequeue, Enqueue [5, 6], Enqueue [7, 8], Head]"]
    queue_init_ok [of 2 2 "replicate 4 0" "\<lparr>q_all = [], q_byte = 0, q_max = 0, q_head = 0, q_tail = 0, q_size = 0\<rparr>"]
  by (simp add: ct_queue_init_def ct_queue_clear_def eq_commute [of _ "(_, queue_list _)"])

text \<open>A traversal with a callback that only looks visits the elements in order until it is stopped.\<close>

fun visit :: "(u8 list \<Rightarrow> 's \<Rightarrow> int \<times> u8 list \<times> 's) \<Rightarrow> 's \<Rightarrow> u8 list list \<Rightarrow> int \<times> 's" where
  "visit cb arg [] = (0, arg)"
| "visit cb arg (x # xs) = (let (rc, _, arg) = cb x arg in if rc \<noteq> 0 then (rc, arg) else visit cb arg xs)"

lemma slot_put_self:
  assumes "i < n" "n * w \<le> length m"
  shows "mem_put m (i * w) (slot w m i) = Some m"
proof -
  have "i * w + w \<le> length m" by (rule slot_bound [OF assms])
  moreover have "take (i * w) m @ slot w m i @ drop (i * w + w) m = m"
    by (metis append_take_drop_id drop_drop slot_def add.commute)
  ultimately show ?thesis using length_slot [OF assms] by (simp add: mem_put_def)
qed

lemma ring_Suc:
  assumes "0 < k"
  shows "ring d h k = d ! (h mod length d) # ring d ((h + 1) mod length d) (k - 1)"
  using assms ring_drop [of 1 k d h] by (cases "ring d h k")
    (auto simp: ring_def upt_conv_Cons mod_add_left_eq mod_Suc_eq intro!: nth_equalityI)

lemma traverse_loop_ok:
  assumes ok: "0 < q_byte q" "q_max q * q_byte q \<le> length (q_all q)" and idx: "idx < q_max q"
    and ro: "\<And>x a. fst (snd (cb x a)) = x"
  shows "queue_traverse_loop q cb arg idx k =
    (let (rc, arg) = visit cb arg (ring (slots (q_byte q) (q_all q) (q_max q)) idx k) in Some (rc, arg, q))"
  using idx
proof (induction k arbitrary: idx arg)
  case (Suc k)
  let ?d = "slots (q_byte q) (q_all q) (q_max q)"
  obtain rc arg' where cb: "cb (slot (q_byte q) (q_all q) idx) arg = (rc, slot (q_byte q) (q_all q) idx, arg')"
    using ro by (metis prod.collapse)
  have r: "ring ?d idx (Suc k) = slot (q_byte q) (q_all q) idx # ring ?d ((idx + 1) mod q_max q) k"
    using ring_Suc [of "Suc k" ?d idx] Suc.prems by (simp add: nth_slots)
  have nxt: "(idx + 1) mod q_max q < q_max q" using Suc.prems by simp
  show ?case
    unfolding r
    using slot_get [OF Suc.prems ok(2)] slot_put_self [OF Suc.prems ok(2)] cb Suc.IH [OF nxt]
      index_inc [OF Suc.prems] by (simp add: CT_QUEUE_ITEM_def)
qed simp

lemma traverse_ok:
  assumes ok: "queue_ok q" and ro: "\<And>x a. fst (snd (cb x a)) = x"
  shows "ct_queue_traverse q (Some cb) arg = (let (rc, arg) = visit cb arg (queue_list q) in Some (rc, arg, q))"
proof (cases "q_max q = 0")
  case True
  then have "q_size q = 0" using ok by (simp add: queue_ok_def)
  then show ?thesis using ok by (simp add: ct_queue_traverse_def queue_ok_def queue_list_def)
next
  case False
  then show ?thesis
    using ok traverse_loop_ok [of q "q_head q" cb, OF _ _ _ ro]
    by (simp add: ct_queue_traverse_def queue_ok_def queue_list_def)
qed

section \<open>The stack\<close>

record ct_stack =
  s_all :: "u8 list"
  s_byte :: nat
  s_max :: nat
  s_size :: nat

definition ct_stack_is_empty :: "ct_stack \<Rightarrow> bool" where
  "ct_stack_is_empty self \<longleftrightarrow> s_size self = 0"

definition ct_stack_is_full :: "ct_stack \<Rightarrow> bool" where
  "ct_stack_is_full self \<longleftrightarrow> s_size self = s_max self"

definition ct_stack_clear :: "ct_stack \<Rightarrow> ct_stack" where
  "ct_stack_clear self = self\<lparr>s_size := 0\<rparr>"

definition ct_stack_init :: "ct_stack \<Rightarrow> u8 list \<Rightarrow> nat \<Rightarrow> nat \<Rightarrow> int \<times> ct_stack" where
  "ct_stack_init self buffer byte n =
     (if byte = 0 then (-1, self)
      else (0, ct_stack_clear (self\<lparr>s_all := buffer, s_byte := byte, s_max := n\<rparr>)))"

definition ct_stack_push :: "ct_stack \<Rightarrow> u8 list \<Rightarrow> (bool \<times> ct_stack) option" where
  "ct_stack_push self item =
     (if ct_stack_is_full self then Some (False, self)
      else do {
        bs \<leftarrow> mem_get item 0 (s_byte self);
        m \<leftarrow> mem_put (s_all self) (s_size self * s_byte self) bs;
        Some (True, self\<lparr>s_all := m, s_size := s_size self + 1\<rparr>) })"

definition ct_stack_pop :: "ct_stack \<Rightarrow> bool \<Rightarrow> (bool \<times> u8 list option \<times> ct_stack) option" where
  "ct_stack_pop self item =
     (if ct_stack_is_empty self then Some (False, None, self)
      else let self = self\<lparr>s_size := s_size self - 1\<rparr>
           in if item then do {
                bs \<leftarrow> mem_get (s_all self) (s_size self * s_byte self) (s_byte self);
                Some (True, Some bs, self) }
              else Some (True, None, self))"

definition ct_stack_top :: "ct_stack \<Rightarrow> bool \<Rightarrow> (bool \<times> u8 list option) option" where
  "ct_stack_top self item =
     (if ct_stack_is_empty self then Some (False, None)
      else if item then do {
        bs \<leftarrow> mem_get (s_all self) ((s_size self - 1) * s_byte self) (s_byte self);
        Some (True, Some bs) }
      else Some (True, None))"

definition stack_ok :: "ct_stack \<Rightarrow> bool" where
  "stack_ok s \<longleftrightarrow> 0 < s_byte s \<and> s_max s * s_byte s \<le> length (s_all s) \<and> s_size s \<le> s_max s"

text \<open>The elements, top first.\<close>

definition stack_list :: "ct_stack \<Rightarrow> u8 list list" where
  "stack_list s = rev (slots (s_byte s) (s_all s) (s_size s))"

datatype stack_op = Push "u8 list" | Pop bool | Top | Reset

fun stack_exec :: "ct_stack \<Rightarrow> stack_op \<Rightarrow> (bool \<times> u8 list option \<times> ct_stack) option" where
  "stack_exec s (Push x) = map_option (\<lambda>(b, s). (b, None, s)) (ct_stack_push s x)"
| "stack_exec s (Pop item) = ct_stack_pop s item"
| "stack_exec s Top = map_option (\<lambda>(b, x). (b, x, s)) (ct_stack_top s True)"
| "stack_exec s Reset = Some (True, None, ct_stack_clear s)"

fun stack_run :: "ct_stack \<Rightarrow> stack_op list \<Rightarrow> ((bool \<times> u8 list option) list \<times> ct_stack) option" where
  "stack_run s [] = Some ([], s)"
| "stack_run s (op # ops) = do {
     (b, x, s) \<leftarrow> stack_exec s op;
     (outs, s) \<leftarrow> stack_run s ops;
     Some ((b, x) # outs, s) }"

fun list_stack_step :: "nat \<Rightarrow> u8 list list \<Rightarrow> stack_op \<Rightarrow> (bool \<times> u8 list option) \<times> u8 list list" where
  "list_stack_step c xs (Push x) = (if length xs < c then ((True, None), x # xs) else ((False, None), xs))"
| "list_stack_step c [] (Pop item) = ((False, None), [])"
| "list_stack_step c (x # xs) (Pop item) = ((True, if item then Some x else None), xs)"
| "list_stack_step c [] Top = ((False, None), [])"
| "list_stack_step c (x # xs) Top = ((True, Some x), x # xs)"
| "list_stack_step c xs Reset = ((True, None), [])"

fun list_stack_run :: "nat \<Rightarrow> u8 list list \<Rightarrow> stack_op list \<Rightarrow> (bool \<times> u8 list option) list \<times> u8 list list" where
  "list_stack_run c xs [] = ([], xs)"
| "list_stack_run c xs (op # ops) =
     (let (out, xs) = list_stack_step c xs op; (outs, xs) = list_stack_run c xs ops in (out # outs, xs))"

fun stack_op_ok :: "nat \<Rightarrow> stack_op \<Rightarrow> bool" where
  "stack_op_ok w (Push x) \<longleftrightarrow> length x = w"
| "stack_op_ok w _ \<longleftrightarrow> True"

lemma length_stack_list [simp]: "length (stack_list s) = s_size s"
  by (simp add: stack_list_def)

lemma stack_list_pos:
  "0 < s_size s \<Longrightarrow>
   stack_list s = slot (s_byte s) (s_all s) (s_size s - 1) # rev (slots (s_byte s) (s_all s) (s_size s - 1))"
  using slots_Suc [of "s_byte s" "s_all s" "s_size s - 1"] by (simp add: stack_list_def)

lemma stack_exec_step:
  assumes ok: "stack_ok s" and op: "stack_op_ok (s_byte s) op"
  shows "\<exists>b x s'. stack_exec s op = Some (b, x, s') \<and> stack_ok s' \<and> s_max s' = s_max s \<and> s_byte s' = s_byte s \<and>
    list_stack_step (s_max s) (stack_list s) op = ((b, x), stack_list s')"
proof -
  have c: "s_max s * s_byte s \<le> length (s_all s)" "s_size s \<le> s_max s" using ok by (simp_all add: stack_ok_def)
  have get: "mem_get (s_all s) ((s_size s - 1) * s_byte s) (s_byte s) = Some (slot (s_byte s) (s_all s) (s_size s - 1))"
    if "0 < s_size s"
    using slot_get [of "s_size s - 1" "s_max s" "s_byte s" "s_all s"] c that by simp
  show ?thesis
  proof (cases op)
    case (Push x)
    show ?thesis
    proof (cases "s_size s < s_max s")
      case True
      have x: "length x = s_byte s" using op Push by simp
      obtain m where m: "mem_put (s_all s) (s_size s * s_byte s) x = Some m" "length m = length (s_all s)"
        using slot_put_ex [OF True c(1) x] by blast
      have "s_size s * s_byte s \<le> length (s_all s)" using c True by (meson le_trans less_imp_le mult_le_mono1)
      then have "slots (s_byte s) m (Suc (s_size s)) = slots (s_byte s) (s_all s) (s_size s) @ [x]"
        using slots_put [OF m(1) x] slot_put_same [OF m(1) x] by (simp add: slots_Suc list_update_beyond)
      with m x True ok Push show ?thesis
        by (auto simp: ct_stack_push_def ct_stack_is_full_def mem_get_def stack_ok_def stack_list_def)
    next
      case False
      with ok Push show ?thesis by (simp add: ct_stack_push_def ct_stack_is_full_def stack_ok_def)
    qed
  next
    case (Pop item)
    show ?thesis
    proof (cases "s_size s")
      case 0
      then have "stack_list s = []" by (simp add: stack_list_def slots_def)
      with 0 ok Pop show ?thesis by (auto simp add: ct_stack_pop_def ct_stack_is_empty_def)
    next
      case (Suc n)
      with get stack_list_pos [of s] ok Pop show ?thesis
        by (auto simp: ct_stack_pop_def ct_stack_is_empty_def Let_def stack_ok_def stack_list_def)
    qed
  next
    case Top
    show ?thesis
    proof (cases "s_size s")
      case 0
      then have "stack_list s = []" by (simp add: stack_list_def slots_def)
      with 0 ok Top show ?thesis by (auto simp add: ct_stack_top_def ct_stack_is_empty_def)
    next
      case (Suc n)
      with get stack_list_pos [of s] ok Top show ?thesis
        by (auto simp: ct_stack_top_def ct_stack_is_empty_def stack_ok_def)
    qed
  next
    case Reset
    then show ?thesis using ok by (auto simp: ct_stack_clear_def stack_ok_def stack_list_def slots_def)
  qed
qed

text \<open>C10: The stack is a bounded LIFO list: any sequence of pushes, pops, top queries and clears stays
  inside the element buffer and returns exactly what it returns on a list of at most \<open>max_\<close> elements
  with the top first.\<close>

theorem stack_refines_list:
  assumes "stack_ok s" and "list_all (stack_op_ok (s_byte s)) ops"
  shows "\<exists>outs s'. stack_run s ops = Some (outs, s') \<and> stack_ok s' \<and>
    list_stack_run (s_max s) (stack_list s) ops = (outs, stack_list s')"
  using assms
proof (induction ops arbitrary: s)
  case Nil
  then show ?case by simp
next
  case (Cons op ops)
  then obtain b x s1 where one: "stack_exec s op = Some (b, x, s1)" "stack_ok s1" "s_max s1 = s_max s"
    "s_byte s1 = s_byte s" "list_stack_step (s_max s) (stack_list s) op = ((b, x), stack_list s1)"
    using stack_exec_step [of s op] by auto
  from Cons.IH [OF one(2)] Cons.prems one show ?case by auto
qed

theorem stack_refines_list_witness:
  "\<exists>outs s'. stack_run \<lparr>s_all = replicate 4 0, s_byte = 2, s_max = 2, s_size = 0\<rparr>
      [Push [1, 2], Push [3, 4], Push [5, 6], Pop True, Top] = Some (outs, s') \<and> stack_ok s' \<and>
    (outs, stack_list s') =
      ([(True, None), (True, None), (False, None), (True, Some [3, 4]), (True, Some [1, 2])], [[1, 2]])"
  using stack_refines_list [of "\<lparr>s_all = replicate 4 0, s_byte = 2, s_max = 2, s_size = 0\<rparr>"
      "[Push [1, 2], Push [3, 4], Push [5, 6], Pop True, Top]"]
  by (simp add: stack_ok_def stack_list_def slots_def eq_commute [of _ "(_, rev _)"])

end
