(* ===== verification/Coter_Vector.thy ===== *)
theory Coter_Vector
  imports Coter_Blocks "HOL-Library.Multiset"
begin

text \<open>
  \<open>container/vector.h\<close>, \<open>vector.c\<close>, \<open>array.h\<close>, \<open>array.c\<close>: growable arrays.  The code passes
  \<open>&ptr_\<close>, \<open>&size_\<close> and \<open>&cap_\<close> of the container to the \<open>ct_vector_impl_*\<close> functions; the model passes
  the record, and \<open>ct_array\<close> extends it by its element size.  \<open>v_ptr\<close> is the allocated block, \<^const>\<open>None\<close>
  for \<open>NULL\<close>.  \<open>realloc\<close> is a parameter.  Sizes are \<open>size_t\<close> and every product is computed at that
  width; an access out of the block makes the result \<^const>\<open>None\<close>.
\<close>

section \<open>State\<close>

record vec =
  v_ptr :: "u8 list option"
  v_size :: size_t
  v_cap :: size_t

record ct_array = vec +
  a_byte :: size_t

definition CT_VEC_MEMORY_MAX :: size_t where
  "CT_VEC_MEMORY_MAX = 0x80000000"

section \<open>Growing\<close>

definition round_cap :: "size_t \<Rightarrow> size_t" where
  "round_cap new_cap =
     (let t = new_cap - 1;
          t = t OR drop_bit 1 t;
          t = t OR drop_bit 2 t;
          t = t OR drop_bit 4 t;
          t = t OR drop_bit 8 t;
          t = t OR drop_bit 16 t;
          t = t OR drop_bit 32 t
      in t + 1)"

definition ct_vector_impl_reserve ::
  "(u8 list option \<Rightarrow> size_t \<Rightarrow> u8 list option) \<Rightarrow> 'a vec_scheme \<Rightarrow> size_t \<Rightarrow> size_t \<Rightarrow> bool \<times> 'a vec_scheme" where
  "ct_vector_impl_reserve realloc v elem_size new_cap =
     (if elem_size = 0 then (False, v)
      else if v_cap v \<ge> new_cap then (True, v)
      else if new_cap > CT_VEC_MEMORY_MAX div elem_size then (False, v)
      else let target_cap = round_cap new_cap
           in if target_cap < new_cap then (False, v)
              else if target_cap > CT_VEC_MEMORY_MAX div elem_size then (False, v)
              else case realloc (v_ptr v) (elem_size * target_cap) of
                     None \<Rightarrow> (False, v)
                   | Some p \<Rightarrow> (True, v\<lparr>v_ptr := Some p, v_cap := target_cap\<rparr>))"

definition ct_vector_impl_resize ::
  "(u8 list option \<Rightarrow> size_t \<Rightarrow> u8 list option) \<Rightarrow> 'a vec_scheme \<Rightarrow> size_t \<Rightarrow> size_t \<Rightarrow> (bool \<times> 'a vec_scheme) option" where
  "ct_vector_impl_resize realloc v elem_size new_size =
     (if elem_size = 0 then Some (False, v)
      else let (ok, v) = (if new_size > v_cap v then ct_vector_impl_reserve realloc v elem_size new_size
                          else (True, v))
           in if \<not> ok then Some (False, v)
              else do {
                v \<leftarrow> (if new_size > v_size v then do {
                       base \<leftarrow> v_ptr v;
                       m \<leftarrow> mem_put base (unat (v_size v * elem_size))
                              (replicate (unat ((new_size - v_size v) * elem_size)) 0);
                       Some (v\<lparr>v_ptr := Some m\<rparr>) }
                     else Some v);
                Some (True, v\<lparr>v_size := new_size\<rparr>) })"

definition ct_vector_impl_insert ::
  "(u8 list option \<Rightarrow> size_t \<Rightarrow> u8 list option) \<Rightarrow> 'a vec_scheme \<Rightarrow> size_t \<Rightarrow> size_t \<Rightarrow> u8 list option \<Rightarrow>
   (bool \<times> 'a vec_scheme) option" where
  "ct_vector_impl_insert realloc v elem_size idx data =
     (if elem_size = 0 then Some (False, v)
      else if idx > v_size v then Some (False, v)
      else let (ok, v) = (if v_size v \<ge> v_cap v then ct_vector_impl_reserve realloc v elem_size (v_size v + 1)
                          else (True, v))
           in if \<not> ok then Some (False, v)
              else do {
                base \<leftarrow> v_ptr v;
                base \<leftarrow> (if idx < v_size v then do {
                          bs \<leftarrow> mem_get base (unat (idx * elem_size)) (unat ((v_size v - idx) * elem_size));
                          mem_put base (unat ((idx + 1) * elem_size)) bs }
                        else Some base);
                bs \<leftarrow> (case data of
                        Some d \<Rightarrow> mem_get d 0 (unat elem_size)
                      | None \<Rightarrow> Some (replicate (unat elem_size) 0));
                base \<leftarrow> mem_put base (unat (idx * elem_size)) bs;
                Some (True, v\<lparr>v_ptr := Some base, v_size := v_size v + 1\<rparr>) })"

definition ct_vector_impl_erase :: "'a vec_scheme \<Rightarrow> size_t \<Rightarrow> size_t \<Rightarrow> (bool \<times> 'a vec_scheme) option" where
  "ct_vector_impl_erase v elem_size idx =
     (case v_ptr v of
        None \<Rightarrow> Some (False, v)
      | Some base \<Rightarrow>
          if elem_size = 0 then Some (False, v)
          else if idx \<ge> v_size v then Some (False, v)
          else do {
            base \<leftarrow> (if idx < v_size v - 1 then do {
                      bs \<leftarrow> mem_get base (unat ((idx + 1) * elem_size)) (unat ((v_size v - idx - 1) * elem_size));
                      mem_put base (unat (idx * elem_size)) bs }
                    else Some base);
            Some (True, v\<lparr>v_ptr := Some base, v_size := v_size v - 1\<rparr>) })"

definition ct_vector_impl_shrink ::
  "(u8 list option \<Rightarrow> size_t \<Rightarrow> u8 list option) \<Rightarrow> 'a vec_scheme \<Rightarrow> size_t \<Rightarrow> bool \<times> 'a vec_scheme" where
  "ct_vector_impl_shrink realloc v elem_size =
     (if elem_size = 0 then (False, v)
      else if v_cap v = v_size v then (True, v)
      else if v_size v = 0 then (True, v\<lparr>v_ptr := None, v_cap := 0\<rparr>)
      else case realloc (v_ptr v) (elem_size * v_size v) of
             None \<Rightarrow> (False, v)
           | Some p \<Rightarrow> (True, v\<lparr>v_ptr := Some p, v_cap := v_size v\<rparr>))"

section \<open>The generic array\<close>

definition ct_array_init ::
  "(u8 list option \<Rightarrow> size_t \<Rightarrow> u8 list option) \<Rightarrow> size_t \<Rightarrow> size_t \<Rightarrow> int \<times> ct_array option" where
  "ct_array_init realloc byte capacity =
     (if byte = 0 then (-1, None)
      else let self = \<lparr>v_ptr = None, v_size = 0, v_cap = 0, a_byte = byte\<rparr>
           in if capacity > 0
              then let (ok, self) = ct_vector_impl_reserve realloc self (a_byte self) capacity
                   in if \<not> ok then (-1, Some self) else (0, Some self)
              else (0, Some self))"

definition ct_array_destroy :: "ct_array \<Rightarrow> ct_array" where
  "ct_array_destroy self = self\<lparr>v_ptr := None, v_size := 0, v_cap := 0, a_byte := 0\<rparr>"

definition ct_array_clear :: "ct_array \<Rightarrow> ct_array" where
  "ct_array_clear self = self\<lparr>v_size := 0\<rparr>"

definition ct_array_capacity :: "ct_array \<Rightarrow> size_t" where
  "ct_array_capacity self = v_cap self"

definition ct_array_size :: "ct_array \<Rightarrow> size_t" where
  "ct_array_size self = v_size self"

definition ct_array_is_empty :: "ct_array \<Rightarrow> bool" where
  "ct_array_is_empty self \<longleftrightarrow> v_size self = 0"

definition ct_array_reserve ::
  "(u8 list option \<Rightarrow> size_t \<Rightarrow> u8 list option) \<Rightarrow> ct_array \<Rightarrow> size_t \<Rightarrow> bool \<times> ct_array" where
  "ct_array_reserve realloc self capacity = ct_vector_impl_reserve realloc self (a_byte self) capacity"

definition ct_array_resize ::
  "(u8 list option \<Rightarrow> size_t \<Rightarrow> u8 list option) \<Rightarrow> ct_array \<Rightarrow> size_t \<Rightarrow> (bool \<times> ct_array) option" where
  "ct_array_resize realloc self new_size = ct_vector_impl_resize realloc self (a_byte self) new_size"

definition ct_array_shrink ::
  "(u8 list option \<Rightarrow> size_t \<Rightarrow> u8 list option) \<Rightarrow> ct_array \<Rightarrow> bool \<times> ct_array" where
  "ct_array_shrink realloc self = ct_vector_impl_shrink realloc self (a_byte self)"

definition ct_array_insert ::
  "(u8 list option \<Rightarrow> size_t \<Rightarrow> u8 list option) \<Rightarrow> ct_array \<Rightarrow> size_t \<Rightarrow> u8 list option \<Rightarrow> (bool \<times> ct_array) option" where
  "ct_array_insert realloc self idx data = ct_vector_impl_insert realloc self (a_byte self) idx data"

definition ct_array_push ::
  "(u8 list option \<Rightarrow> size_t \<Rightarrow> u8 list option) \<Rightarrow> ct_array \<Rightarrow> u8 list option \<Rightarrow> (bool \<times> ct_array) option" where
  "ct_array_push realloc self data = ct_vector_impl_insert realloc self (a_byte self) (v_size self) data"

definition ct_array_erase :: "ct_array \<Rightarrow> size_t \<Rightarrow> (bool \<times> ct_array) option" where
  "ct_array_erase self idx = ct_vector_impl_erase self (a_byte self) idx"

definition ct_array_pop :: "ct_array \<Rightarrow> bool \<times> ct_array" where
  "ct_array_pop self =
     (if v_ptr self = None \<or> v_size self = 0 then (False, self)
      else (True, self\<lparr>v_size := v_size self - 1\<rparr>))"

text \<open>The pointer-valued accessors return the offset into the block.\<close>

definition ct_array_at :: "ct_array \<Rightarrow> size_t \<Rightarrow> nat option" where
  "ct_array_at self idx =
     (if v_ptr self = None \<or> idx \<ge> v_size self then None else Some (unat (idx * a_byte self)))"

definition ct_array_value :: "ct_array \<Rightarrow> size_t \<Rightarrow> nat option" where
  "ct_array_value self idx =
     (if v_ptr self = None \<or> idx \<ge> v_size self then None else Some (unat (idx * a_byte self)))"

definition ct_array_front :: "ct_array \<Rightarrow> nat option" where
  "ct_array_front self = (if v_ptr self = None \<or> v_size self = 0 then None else Some 0)"

definition ct_array_back :: "ct_array \<Rightarrow> nat option" where
  "ct_array_back self =
     (if v_ptr self = None \<or> v_size self = 0 then None else Some (unat ((v_size self - 1) * a_byte self)))"

section \<open>The typed vector\<close>

text \<open>
  What \<open>CT_VEC_IMPL_DTOR(TYPE, NAME, DTOR)\<close> generates, with \<open>w = sizeof(TYPE)\<close>.  A destructor gets a
  pointer to the element: \<open>dtor\<close> is the image it leaves there.  The list in a result holds the
  elements the call destroyed, in order.
\<close>

type_synonym dtor = "(u8 list \<Rightarrow> u8 list) option"

fun dtor_loop :: "dtor \<Rightarrow> size_t \<Rightarrow> u8 list \<Rightarrow> nat \<Rightarrow> nat \<Rightarrow> (u8 list list \<times> u8 list) option" where
  "dtor_loop dtor w m i 0 = Some ([], m)"
| "dtor_loop dtor w m i (Suc k) = do {
     x \<leftarrow> mem_get m (i * unat w) (unat w);
     m \<leftarrow> (case dtor of Some f \<Rightarrow> mem_put m (i * unat w) (f x) | None \<Rightarrow> Some m);
     (xs, m) \<leftarrow> dtor_loop dtor w m (i + 1) k;
     Some (x # xs, m) }"

definition dtor_range :: "dtor \<Rightarrow> size_t \<Rightarrow> vec \<Rightarrow> size_t \<Rightarrow> size_t \<Rightarrow> (u8 list list \<times> vec) option" where
  "dtor_range dtor w self lo hi =
     (case (dtor, v_ptr self) of
        (Some f, Some m) \<Rightarrow> do {
          (xs, m) \<leftarrow> dtor_loop dtor w m (unat lo) (unat hi - unat lo);
          Some (xs, self\<lparr>v_ptr := Some m\<rparr>) }
      | _ \<Rightarrow> Some ([], self))"

definition NAME_init ::
  "(u8 list option \<Rightarrow> size_t \<Rightarrow> u8 list option) \<Rightarrow> size_t \<Rightarrow> size_t \<Rightarrow> int \<times> vec" where
  "NAME_init realloc w cap =
     (let self = \<lparr>v_ptr = None, v_size = 0, v_cap = 0\<rparr>
      in if cap > 0
         then let (ok, self) = ct_vector_impl_reserve realloc self w cap
              in if \<not> ok then (-1, self) else (0, self)
         else (0, self))"

definition NAME_clear :: "dtor \<Rightarrow> size_t \<Rightarrow> vec \<Rightarrow> (u8 list list \<times> vec) option" where
  "NAME_clear dtor w self = do {
     (xs, self) \<leftarrow> dtor_range dtor w self 0 (v_size self);
     Some (xs, self\<lparr>v_size := 0\<rparr>) }"

definition NAME_destroy :: "dtor \<Rightarrow> size_t \<Rightarrow> vec \<Rightarrow> (u8 list list \<times> vec) option" where
  "NAME_destroy dtor w self = do {
     (xs, self) \<leftarrow> NAME_clear dtor w self;
     Some (xs, self\<lparr>v_ptr := None, v_size := 0, v_cap := 0\<rparr>) }"

definition NAME_resize ::
  "(u8 list option \<Rightarrow> size_t \<Rightarrow> u8 list option) \<Rightarrow> dtor \<Rightarrow> size_t \<Rightarrow> vec \<Rightarrow> size_t \<Rightarrow> (bool \<times> u8 list list \<times> vec) option" where
  "NAME_resize realloc dtor w self new_size =
     (if new_size \<le> v_size self then do {
        (xs, self) \<leftarrow> dtor_range dtor w self new_size (v_size self);
        Some (True, xs, self\<lparr>v_size := new_size\<rparr>) }
      else do {
        (ok, self) \<leftarrow> ct_vector_impl_resize realloc self w new_size;
        Some (ok, [], self) })"

definition NAME_push ::
  "(u8 list option \<Rightarrow> size_t \<Rightarrow> u8 list option) \<Rightarrow> size_t \<Rightarrow> vec \<Rightarrow> u8 list option \<Rightarrow> (bool \<times> vec) option" where
  "NAME_push realloc w self val = ct_vector_impl_insert realloc self w (v_size self) val"

definition NAME_insert ::
  "(u8 list option \<Rightarrow> size_t \<Rightarrow> u8 list option) \<Rightarrow> size_t \<Rightarrow> vec \<Rightarrow> size_t \<Rightarrow> u8 list option \<Rightarrow> (bool \<times> vec) option" where
  "NAME_insert realloc w self idx val = ct_vector_impl_insert realloc self w idx val"

definition NAME_reserve ::
  "(u8 list option \<Rightarrow> size_t \<Rightarrow> u8 list option) \<Rightarrow> size_t \<Rightarrow> vec \<Rightarrow> size_t \<Rightarrow> bool \<times> vec" where
  "NAME_reserve realloc w self cap = ct_vector_impl_reserve realloc self w cap"

definition NAME_shrink ::
  "(u8 list option \<Rightarrow> size_t \<Rightarrow> u8 list option) \<Rightarrow> size_t \<Rightarrow> vec \<Rightarrow> bool \<times> vec" where
  "NAME_shrink realloc w self = ct_vector_impl_shrink realloc self w"

definition NAME_pop :: "dtor \<Rightarrow> size_t \<Rightarrow> vec \<Rightarrow> (bool \<times> u8 list list \<times> vec) option" where
  "NAME_pop dtor w self =
     (if v_size self = 0 then Some (False, [], self)
      else do {
        (xs, self) \<leftarrow> dtor_range dtor w self (v_size self - 1) (v_size self);
        Some (True, xs, self\<lparr>v_size := v_size self - 1\<rparr>) })"

definition NAME_erase :: "dtor \<Rightarrow> size_t \<Rightarrow> vec \<Rightarrow> size_t \<Rightarrow> (bool \<times> u8 list list \<times> vec) option" where
  "NAME_erase dtor w self idx =
     (if idx \<ge> v_size self then Some (False, [], self)
      else do {
        (xs, self) \<leftarrow> dtor_range dtor w self idx (idx + 1);
        (ok, self) \<leftarrow> ct_vector_impl_erase self w idx;
        Some (ok, xs, self) })"

definition NAME_assign :: "dtor \<Rightarrow> size_t \<Rightarrow> vec \<Rightarrow> size_t \<Rightarrow> u8 list option \<Rightarrow> (bool \<times> u8 list list \<times> vec) option" where
  "NAME_assign dtor w self idx val =
     (case val of
        None \<Rightarrow> Some (False, [], self)
      | Some val \<Rightarrow>
          if idx \<ge> v_size self then Some (False, [], self)
          else do {
            tmp \<leftarrow> mem_get val 0 (unat w);
            (xs, self) \<leftarrow> dtor_range dtor w self idx (idx + 1);
            base \<leftarrow> v_ptr self;
            m \<leftarrow> mem_put base (unat (idx * w)) tmp;
            Some (True, xs, self\<lparr>v_ptr := Some m\<rparr>) })"

section \<open>Rounding a capacity\<close>

text \<open>Each line of the rounding doubles how far every set bit has been copied downwards.\<close>

lemma smear_step:
  fixes t x :: size_t
  assumes "\<And>n. bit t n \<longleftrightarrow> (\<exists>j < s. bit x (n + j))"
  shows "bit (t OR drop_bit s t) n \<longleftrightarrow> (\<exists>j < s + s. bit x (n + j))"
proof -
  have "bit (t OR drop_bit s t) n \<longleftrightarrow> (\<exists>j < s. bit x (n + j)) \<or> (\<exists>j < s. bit x (s + n + j))"
    by (simp add: bit_simps assms)
  also have "\<dots> \<longleftrightarrow> (\<exists>j < s + s. bit x (n + j))"
  proof (intro iffI)
    assume "\<exists>j < s + s. bit x (n + j)"
    then obtain j where j: "j < s + s" "bit x (n + j)" by blast
    show "(\<exists>j < s. bit x (n + j)) \<or> (\<exists>j < s. bit x (s + n + j))"
    proof (cases "j < s")
      case False
      then have "j - s < s" "s + n + (j - s) = n + j" using j(1) by simp_all
      with j(2) show ?thesis by metis
    qed (use j in blast)
  next
    assume "(\<exists>j < s. bit x (n + j)) \<or> (\<exists>j < s. bit x (s + n + j))"
    then show "\<exists>j < s + s. bit x (n + j)"
    proof
      assume "\<exists>j < s. bit x (s + n + j)"
      then obtain j where "j < s" "bit x (n + (s + j))" by (auto simp: ac_simps)
      then show ?thesis by (intro exI [of _ "s + j"]) simp
    qed (meson trans_less_add1)
  qed
  finally show ?thesis .
qed

lemma smear_all:
  fixes x :: size_t
  defines "t1 \<equiv> x OR drop_bit 1 x"
  defines "t2 \<equiv> t1 OR drop_bit 2 t1"
  defines "t3 \<equiv> t2 OR drop_bit 4 t2"
  defines "t4 \<equiv> t3 OR drop_bit 8 t3"
  defines "t5 \<equiv> t4 OR drop_bit 16 t4"
  shows "bit (t5 OR drop_bit 32 t5) n \<longleftrightarrow> (\<exists>j < 64. bit x (n + j))"
proof -
  have "bit x n \<longleftrightarrow> (\<exists>j < 1. bit x (n + j))" for n by simp
  from smear_step [OF this] have "bit t1 n \<longleftrightarrow> (\<exists>j < 2. bit x (n + j))" for n by (simp only: t1_def) (simp add: numeral_2_eq_2)
  from smear_step [OF this] have "bit t2 n \<longleftrightarrow> (\<exists>j < 4. bit x (n + j))" for n by (simp only: t2_def) simp
  from smear_step [OF this] have "bit t3 n \<longleftrightarrow> (\<exists>j < 8. bit x (n + j))" for n by (simp only: t3_def) simp
  from smear_step [OF this] have "bit t4 n \<longleftrightarrow> (\<exists>j < 16. bit x (n + j))" for n by (simp only: t4_def) simp
  from smear_step [OF this] have "bit t5 n \<longleftrightarrow> (\<exists>j < 32. bit x (n + j))" for n by (simp only: t5_def) simp
  from smear_step [OF this, of n] show ?thesis by simp
qed

lemma top_bit:
  fixes x :: size_t
  assumes "2 ^ k \<le> unat x" "unat x < 2 ^ (k + 1)"
  shows "(\<exists>j < 64. bit x (n + j)) \<longleftrightarrow> n \<le> k"
proof -
  have bits: "bit x i \<longleftrightarrow> bit (unat x) i" for i by (simp add: bit_unsigned_iff)
  have top: "bit (unat x) k"
  proof -
    have "unat x div 2 ^ k = 1" using assms by (intro div_nat_eqI) simp_all
    then show ?thesis by (simp add: bit_iff_odd)
  qed
  have above: "\<not> bit (unat x) i" if "k < i" for i
  proof -
    have "(2 :: nat) ^ (k + 1) \<le> 2 ^ i" using that by (intro power_increasing) simp_all
    then have "unat x < 2 ^ i" using assms by linarith
    then show ?thesis by (simp add: bit_iff_odd)
  qed
  have "k < 64" using top bits bit_imp_le_length [of x k] by simp
  show ?thesis
  proof
    assume "\<exists>j < 64. bit x (n + j)"
    then obtain j where "bit (unat x) (n + j)" using bits by blast
    then have "n + j \<le> k" using above by (meson not_le)
    then show "n \<le> k" by simp
  next
    assume "n \<le> k"
    then have "k - n < 64" "bit x (n + (k - n))" using \<open>k < 64\<close> top bits by auto
    then show "\<exists>j < 64. bit x (n + j)" by blast
  qed
qed

lemma round_cap_pow2:
  assumes n: "0 < unat n" "unat n \<le> 2 ^ 63"
  shows "\<exists>k. unat (round_cap n) = 2 ^ k \<and> unat n \<le> 2 ^ k \<and> (\<forall>j. unat n \<le> 2 ^ j \<longrightarrow> k \<le> j)"
proof -
  let ?x = "n - 1"
  have x: "unat ?x = unat n - 1" using n by (subst unat_diff_le) simp_all
  define t where "t = (let t = ?x; t = t OR drop_bit 1 t; t = t OR drop_bit 2 t; t = t OR drop_bit 4 t;
      t = t OR drop_bit 8 t; t = t OR drop_bit 16 t in t OR drop_bit 32 t)"
  have t: "bit t i \<longleftrightarrow> (\<exists>j < 64. bit ?x (i + j))" for i
    unfolding t_def Let_def by (rule smear_all)
  have rc: "round_cap n = t + 1" by (simp add: round_cap_def t_def Let_def)
  show ?thesis
  proof (cases "unat n = 1")
    case True
    then have "?x = 0" using x by (metis diff_self_eq_0 unat_eq_zero)
    then have "t = 0" using t by (intro bit_word_eqI) simp
    with True rc show ?thesis by (intro exI [of _ 0]) simp
  next
    case False
    then have "1 \<le> unat ?x" using n x by simp
    then obtain k where k: "2 ^ k \<le> unat ?x" "unat ?x < 2 ^ (k + 1)"
      using ex_power_ivl1 [of 2 "unat ?x"] by auto
    have kb: "k < 63"
    proof (rule ccontr)
      assume "\<not> k < 63"
      then have "(2 :: nat) ^ 63 \<le> 2 ^ k" by (intro power_increasing) simp_all
      then show False using k x n by linarith
    qed
    have ti: "bit t i \<longleftrightarrow> i \<le> k" for i unfolding t by (rule top_bit [OF k])
    have p: "(2 :: nat) ^ (k + 1) < 2 ^ 64" using kb by (intro power_strict_increasing) simp_all
    have "unat t = mask (k + 1)"
      by (rule bit_eqI) (auto simp: bit_unsigned_iff ti bit_mask_iff)
    then have "unat t = 2 ^ (k + 1) - 1" by (simp add: mask_eq_exp_minus_1)
    then have r: "unat (round_cap n) = 2 ^ (k + 1)"
      unfolding rc using p by (subst unat_plus_lt) simp_all
    have "unat n \<le> 2 ^ (k + 1)" using k x n by linarith
    moreover have "k + 1 \<le> j" if "unat n \<le> 2 ^ j" for j
    proof (rule ccontr)
      assume "\<not> k + 1 \<le> j"
      then have "(2 :: nat) ^ j \<le> 2 ^ k" by (intro power_increasing) simp_all
      then show False using that k x n by linarith
    qed
    ultimately show ?thesis using r by blast
  qed
qed

section \<open>Invariant and abstraction\<close>

text \<open>What the C standard says of \<open>realloc\<close>: a block of the requested size that starts with the old
  contents, or \<open>NULL\<close> with the old block untouched.\<close>

definition realloc_ok :: "(u8 list option \<Rightarrow> size_t \<Rightarrow> u8 list option) \<Rightarrow> bool" where
  "realloc_ok f \<longleftrightarrow> (\<forall>p n b. f p n = Some b \<longrightarrow> length b = unat n \<and>
     (\<forall>old k. p = Some old \<longrightarrow> k \<le> length old \<longrightarrow> k \<le> unat n \<longrightarrow> take k b = take k old))"

definition vec_bytes :: "'a vec_scheme \<Rightarrow> u8 list" where
  "vec_bytes v = (case v_ptr v of None \<Rightarrow> [] | Some b \<Rightarrow> b)"

definition vec_ok :: "size_t \<Rightarrow> 'a vec_scheme \<Rightarrow> bool" where
  "vec_ok w v \<longleftrightarrow> 0 < unat w \<and> unat (v_size v) \<le> unat (v_cap v) \<and>
     unat (v_cap v) * unat w \<le> 2 ^ 31 \<and> length (vec_bytes v) = unat (v_cap v) * unat w"

definition vec_list :: "size_t \<Rightarrow> 'a vec_scheme \<Rightarrow> u8 list list" where
  "vec_list w v = slots (unat w) (vec_bytes v) (unat (v_size v))"

lemma length_vec_list [simp]: "length (vec_list w v) = unat (v_size v)"
  by (simp add: vec_list_def)

lemma vec_okE:
  assumes "vec_ok w v"
  obtains "0 < unat w" "unat (v_size v) \<le> unat (v_cap v)" "unat (v_cap v) * unat w \<le> 2 ^ 31"
    "length (vec_bytes v) = unat (v_cap v) * unat w" "unat (v_size v) * unat w \<le> unat (v_cap v) * unat w"
  using assms mult_le_mono1 [of "unat (v_size v)" "unat (v_cap v)" "unat w"] by (auto simp: vec_ok_def)

text \<open>Products of an index within the capacity and the element size do not wrap.\<close>

lemma offset_nat:
  assumes "vec_ok w v" and "unat i \<le> unat (v_cap v)"
  shows "unat (i * w) = unat i * unat w"
proof -
  have "unat i * unat w \<le> unat (v_cap v) * unat w" using assms(2) by (rule mult_le_mono1)
  also have "\<dots> \<le> 2 ^ 31" using assms(1) by (rule vec_okE)
  finally have "unat i * unat w < 2 ^ 64" by simp
  then show ?thesis by (simp add: unat_word_ariths)
qed

lemma cap_bound: "vec_ok w v \<Longrightarrow> unat (v_cap v) \<le> 2 ^ 31"
proof -
  assume ok: "vec_ok w v"
  then have "unat (v_cap v) * 1 \<le> unat (v_cap v) * unat w" by (intro mult_le_mono2) (auto simp: vec_ok_def)
  moreover have "unat (v_cap v) * unat w \<le> 2 ^ 31" using ok by (rule vec_okE)
  ultimately show ?thesis by linarith
qed

lemma reserve_ok:
  assumes ok: "vec_ok w v" and re: "realloc_ok f" and r: "ct_vector_impl_reserve f v w n = (b, v')"
  shows "vec_ok w v' \<and> vec_list w v' = vec_list w v \<and> v_size v' = v_size v \<and>
    (b \<longrightarrow> n \<le> v_cap v') \<and> (\<not> b \<longrightarrow> v' = v) \<and> vec.more v' = vec.more v"
proof (cases "n \<le> v_cap v \<or> \<not> b")
  case True
  have nz: "w \<noteq> 0" using ok by (auto simp: vec_ok_def)
  from True r nz have "v' = v \<and> (b \<longrightarrow> n \<le> v_cap v)"
    by (auto simp: ct_vector_impl_reserve_def Let_def split: if_splits option.splits)
  with ok show ?thesis by auto
next
  case False
  have nz: "w \<noteq> 0" using ok by (auto simp: vec_ok_def)
  obtain p where p: "f (v_ptr v) (w * round_cap n) = Some p" "v' = v\<lparr>v_ptr := Some p, v_cap := round_cap n\<rparr>"
    and t: "n \<le> round_cap n" "round_cap n \<le> CT_VEC_MEMORY_MAX div w"
    using r False nz by (auto simp: ct_vector_impl_reserve_def Let_def not_less split: if_splits option.splits)
  have "unat (round_cap n) \<le> 2 ^ 31 div unat w"
    using t(2) by (simp add: word_le_nat_alt unat_div CT_VEC_MEMORY_MAX_def)
  then have cw: "unat (round_cap n) * unat w \<le> 2 ^ 31"
    by (meson div_times_less_eq_dividend le_trans mult_le_mono1)
  then have pw: "unat (w * round_cap n) = unat (round_cap n) * unat w"
    by (simp add: unat_word_ariths mult.commute)
  have lp: "length p = unat (round_cap n) * unat w"
    and pre: "\<And>old k. v_ptr v = Some old \<Longrightarrow> k \<le> length old \<Longrightarrow> k \<le> length p \<Longrightarrow> take k p = take k old"
    using re p(1) pw unfolding realloc_ok_def by auto
  have grow: "unat (v_cap v) \<le> unat (round_cap n)"
    using False t(1) by (simp add: word_le_nat_alt)
  have ok': "vec_ok w v'" using ok cw lp grow p(2) by (auto simp: vec_ok_def vec_bytes_def)
  have "take (unat (v_size v) * unat w) p = take (unat (v_size v) * unat w) (vec_bytes v)"
  proof (cases "v_ptr v")
    case None
    then have "unat (v_cap v) = 0" using ok by (auto simp: vec_ok_def vec_bytes_def)
    then show ?thesis using ok by (auto simp: vec_ok_def)
  next
    case (Some old)
    have "unat (v_size v) * unat w \<le> length old" using ok Some by (elim vec_okE) (simp add: vec_bytes_def)
    moreover have "unat (v_cap v) * unat w \<le> length p" using grow lp by simp
    ultimately show ?thesis using pre [OF Some] Some ok by (elim vec_okE) (simp add: vec_bytes_def)
  qed
  then have "slots (unat w) p (unat (v_size v)) = vec_list w v"
    unfolding vec_list_def by (rule slots_prefix)
  then have "vec_list w v' = vec_list w v" using p(2) by (simp add: vec_list_def vec_bytes_def)
  with ok' p(2) t(1) False show ?thesis by simp
qed

lemma vec_ptr_Some: "vec_ok w v \<Longrightarrow> 0 < unat (v_cap v) \<Longrightarrow> v_ptr v = Some (vec_bytes v)"
  by (auto simp: vec_ok_def vec_bytes_def split: option.splits)

text \<open>Updating the bytes of the block keeps the invariant.\<close>

lemma vec_ok_bytes:
  "vec_ok w v \<Longrightarrow> length m = length (vec_bytes v) \<Longrightarrow> unat n \<le> unat (v_cap v) \<Longrightarrow>
   vec_ok w (v\<lparr>v_ptr := Some m, v_size := n\<rparr>) \<and>
   vec_list w (v\<lparr>v_ptr := Some m, v_size := n\<rparr>) = slots (unat w) m (unat n)"
  by (simp add: vec_ok_def vec_bytes_def vec_list_def)

section \<open>Insertion and removal\<close>

text \<open>The image an insertion stores: the caller's element, or zeros for \<open>NULL\<close>.\<close>

definition new_elem :: "size_t \<Rightarrow> u8 list option \<Rightarrow> u8 list" where
  "new_elem w data = (case data of Some d \<Rightarrow> take (unat w) d | None \<Rightarrow> replicate (unat w) 0)"

definition data_ok :: "size_t \<Rightarrow> u8 list option \<Rightarrow> bool" where
  "data_ok w data = (case data of Some d \<Rightarrow> unat w \<le> length d | None \<Rightarrow> True)"

lemma length_new_elem: "data_ok w data \<Longrightarrow> length (new_elem w data) = unat w"
  by (auto simp: new_elem_def data_ok_def split: option.splits)

lemma new_elem_get:
  "data_ok w data \<Longrightarrow>
   (case data of Some d \<Rightarrow> mem_get d 0 (unat w) | None \<Rightarrow> Some (replicate (unat w) 0)) = Some (new_elem w data)"
  by (auto simp: new_elem_def data_ok_def mem_get_def split: option.splits)

lemma size_Suc: "vec_ok w v \<Longrightarrow> unat (v_size v + 1) = unat (v_size v) + 1"
  using cap_bound [of w v] by (auto simp: vec_ok_def intro!: unat_plus_lt [THEN trans])

lemma mem_put_Nil: "mem_put m off xs = Some m' \<Longrightarrow> xs = [] \<Longrightarrow> m' = m"
  by (simp add: mem_put_def split: if_splits)

lemma insert_with_room:
  assumes ok: "vec_ok w v" and room: "unat (v_size v) < unat (v_cap v)" and i: "idx \<le> v_size v"
    and d: "data_ok w data"
  shows "\<exists>v'. ct_vector_impl_insert f v w idx data = Some (True, v') \<and> vec_ok w v' \<and>
    vec_list w v' = take (unat idx) (vec_list w v) @ new_elem w data # drop (unat idx) (vec_list w v) \<and>
    v_cap v' = v_cap v \<and> v_size v' = v_size v + 1 \<and> vec.more v' = vec.more v"
proof -
  let ?W = "unat w" and ?n = "unat (v_size v)" and ?i = "unat idx" and ?m = "vec_bytes v"
  have c: "0 < ?W" "length ?m = unat (v_cap v) * ?W" using ok by (auto elim: vec_okE)
  have in_: "?i \<le> ?n" using i by (simp add: word_le_nat_alt)
  have Sn: "unat (v_size v + 1) = ?n + 1" by (rule size_Suc [OF ok])
  have fit: "(?n + 1) * ?W \<le> length ?m" unfolding c(2) using room by (intro mult_le_mono1) simp
  have p: "v_ptr v = Some ?m" using ok room by (intro vec_ptr_Some) simp_all
  have Si: "unat (idx + 1) = ?i + 1"
    using in_ Sn unat_u64_bound [of "v_size v + 1"] by (subst unat_plus_lt) simp_all
  have off: "unat (idx * w) = ?i * ?W" "unat ((idx + 1) * w) = (?i + 1) * ?W"
    "unat ((v_size v - idx) * w) = (?n - ?i) * ?W"
    using in_ room Si i by (simp_all add: offset_nat [OF ok] unat_diff_le)
  have run: "mem_get ?m (?i * ?W) ((?n - ?i) * ?W) = Some (take ((?n - ?i) * ?W) (drop (?i * ?W) ?m))" (is "_ = Some ?bs")
    and put_fits: "(?i + 1) * ?W + (?n - ?i) * ?W \<le> length ?m"
  proof -
    have "?i * ?W + (?n - ?i) * ?W = ?n * ?W" "(?i + 1) * ?W + (?n - ?i) * ?W = (?n + 1) * ?W"
      using in_ add_mult_distrib [of ?i "?n - ?i" ?W] add_mult_distrib [of "?i + 1" "?n - ?i" ?W] by simp_all
    then show "mem_get ?m (?i * ?W) ((?n - ?i) * ?W) = Some ?bs" "(?i + 1) * ?W + (?n - ?i) * ?W \<le> length ?m"
      using fit by (simp_all add: mem_get_def)
  qed
  have lbs: "length ?bs = (?n - ?i) * ?W" using run by (rule mem_get_length)
  obtain m1 where m1: "mem_put ?m ((?i + 1) * ?W) ?bs = Some m1"
    using put_fits lbs mem_put_ok [of "(?i + 1) * ?W" ?bs ?m] by auto
  have l1: "length m1 = length ?m" by (rule mem_put_length [OF m1])
  have x: "length (new_elem w data) = ?W" by (rule length_new_elem [OF d])
  have "(?i + 1) * ?W \<le> length ?m"
    using mult_le_mono1 [of "?i + 1" "?n + 1" ?W] in_ fit by linarith
  then have "?i * ?W + length (new_elem w data) \<le> length m1" using l1 x by (simp add: add.commute)
  then obtain m2 where m2: "mem_put m1 (?i * ?W) (new_elem w data) = Some m2" using mem_put_ok by blast
  have l2: "length m2 = length ?m" using mem_put_length [OF m2] l1 by simp
  let ?v = "v\<lparr>v_ptr := Some m2, v_size := v_size v + 1\<rparr>"
  have same: "m1 = ?m" if "\<not> idx < v_size v"
  proof (rule mem_put_Nil [OF m1])
    have "?n - ?i = 0" using that by (simp add: word_less_nat_alt)
    then show "?bs = []" by simp
  qed
  have "ct_vector_impl_insert f v w idx data = Some (True, ?v)"
  proof -
    have g: "w \<noteq> 0" "\<not> idx > v_size v" "\<not> v_size v \<ge> v_cap v"
      using c(1) i room by (auto simp: word_less_nat_alt word_le_nat_alt)
    have mv: "(if idx < v_size v
        then mem_get ?m (unat (idx * w)) (unat ((v_size v - idx) * w)) \<bind> mem_put ?m (unat ((idx + 1) * w))
        else Some ?m) = Some m1"
      using run m1 same by (simp add: off)
    show ?thesis
      using g m2 by (simp add: ct_vector_impl_insert_def p mv [simplified] new_elem_get [OF d] off)
  qed
  moreover have "unat (v_size v + 1) \<le> unat (v_cap v)" using Sn room by simp
  note vec_ok_bytes [OF ok l2 this]
  moreover have "slots ?W m2 (?n + 1) = take ?i (vec_list w v) @ new_elem w data # drop ?i (vec_list w v)"
    unfolding vec_list_def by (rule slots_insert [OF fit in_ x run m1 m2])
  ultimately show ?thesis using Sn by (intro exI [of _ ?v]) simp
qed

lemma insert_ok:
  assumes ok: "vec_ok w v" and re: "realloc_ok f" and d: "data_ok w data"
  shows "\<exists>b v'. ct_vector_impl_insert f v w idx data = Some (b, v') \<and> vec_ok w v' \<and>
    (if b then idx \<le> v_size v \<and>
       vec_list w v' = take (unat idx) (vec_list w v) @ new_elem w data # drop (unat idx) (vec_list w v)
     else v' = v) \<and> vec.more v' = vec.more v"
proof (cases "idx \<le> v_size v")
  case False
  then have "ct_vector_impl_insert f v w idx data = Some (False, v)"
    by (simp add: ct_vector_impl_insert_def not_le)
  with ok show ?thesis by simp
next
  case i: True
  have nz: "w \<noteq> 0" using ok by (auto simp: vec_ok_def)
  show ?thesis
  proof (cases "unat (v_size v) < unat (v_cap v)")
    case True
    from insert_with_room [OF ok True i d, of f] i show ?thesis by auto
  next
    case False
    then have full: "v_size v \<ge> v_cap v" by (simp add: word_le_nat_alt)
    obtain b v1 where r: "ct_vector_impl_reserve f v w (v_size v + 1) = (b, v1)" by fastforce
    note rok = reserve_ok [OF ok re r]
    show ?thesis
    proof (cases b)
      case False
      with i nz full r rok have "ct_vector_impl_insert f v w idx data = Some (False, v)"
        by (auto simp: ct_vector_impl_insert_def)
      with ok show ?thesis by simp
    next
      case True
      then have room: "unat (v_size v1) < unat (v_cap v1)"
        using rok size_Suc [OF ok] by (simp add: word_le_nat_alt)
      have ni: "\<not> v_size v < idx" and nf: "\<not> v_cap v1 \<le> v_size v1"
        using i room by (simp_all add: not_less word_le_nat_alt)
      then have "ct_vector_impl_insert f v w idx data = ct_vector_impl_insert f v1 w idx data"
        using True r full nz rok by (simp add: ct_vector_impl_insert_def)
      with insert_with_room [OF _ room _ d, of idx f] rok i show ?thesis by auto
    qed
  qed
qed

lemma erase_ok:
  assumes ok: "vec_ok w v"
  shows "\<exists>v'. ct_vector_impl_erase v w idx = Some (idx < v_size v, v') \<and> vec_ok w v' \<and>
    vec_list w v' = (if idx < v_size v then take (unat idx) (vec_list w v) @ drop (unat idx + 1) (vec_list w v)
      else vec_list w v) \<and> v_cap v' = v_cap v \<and> vec.more v' = vec.more v"
proof (cases "idx < v_size v")
  case False
  then have "ct_vector_impl_erase v w idx = Some (False, v)"
    using ok by (auto simp: ct_vector_impl_erase_def vec_ok_def not_less split: option.split)
  with False ok show ?thesis by simp
next
  case True
  let ?W = "unat w" and ?n = "unat (v_size v)" and ?i = "unat idx" and ?m = "vec_bytes v"
  have in_: "?i < ?n" using True by (simp add: word_less_nat_alt)
  have c: "0 < ?W" "?n \<le> unat (v_cap v)" "?n * ?W \<le> length ?m" using ok by (auto simp: vec_ok_def)
  have p: "v_ptr v = Some ?m" using ok in_ c by (intro vec_ptr_Some) simp_all
  have n1: "unat (v_size v - 1) = ?n - 1" using in_ by (subst unat_diff_le) simp_all
  have Si: "unat (idx + 1) = ?i + 1"
    using in_ unat_u64_bound [of "v_size v"] by (subst unat_plus_lt) simp_all
  have d1: "unat (v_size v - idx - 1) = ?n - ?i - 1"
    using in_ by (subst unat_diff_le) (simp_all add: unat_diff_le)
  have off: "unat (idx * w) = ?i * ?W" "unat ((idx + 1) * w) = (?i + 1) * ?W"
    "unat ((v_size v - idx - 1) * w) = (?n - ?i - 1) * ?W"
    using in_ c(2) by (simp_all add: offset_nat [OF ok] Si d1 del: add_mult_distrib mult_Suc)
  have "?i + 1 + (?n - ?i - 1) = ?n" using in_ by simp
  then have "(?i + 1) * ?W + (?n - ?i - 1) * ?W = ?n * ?W" by (metis add_mult_distrib)
  then have run: "mem_get ?m ((?i + 1) * ?W) ((?n - ?i - 1) * ?W) =
      Some (take ((?n - ?i - 1) * ?W) (drop ((?i + 1) * ?W) ?m))" (is "_ = Some ?bs")
    using c(3) by (simp add: mem_get_def)
  have lbs: "length ?bs = (?n - ?i - 1) * ?W" using run by (rule mem_get_length)
  have "?i + (?n - ?i - 1) \<le> ?n" using in_ by simp
  then have "?i * ?W + (?n - ?i - 1) * ?W \<le> ?n * ?W" by (metis add_mult_distrib mult_le_mono1)
  then obtain m1 where m1: "mem_put ?m (?i * ?W) ?bs = Some m1"
    using lbs c(3) mem_put_ok [of "?i * ?W" ?bs ?m] by auto
  have l1: "length m1 = length ?m" by (rule mem_put_length [OF m1])
  let ?v = "v\<lparr>v_ptr := Some m1, v_size := v_size v - 1\<rparr>"
  have "ct_vector_impl_erase v w idx = Some (True, ?v)"
  proof -
    have g: "w \<noteq> 0" "\<not> idx \<ge> v_size v" using c(1) True by auto
    have same: "m1 = ?m" if "\<not> idx < v_size v - 1"
    proof (rule mem_put_Nil [OF m1])
      have "?n - ?i - 1 = 0" using that n1 by (simp add: word_less_nat_alt)
      then show "?bs = []" by simp
    qed
    have mv: "(if idx < v_size v - 1
        then mem_get ?m (unat ((idx + 1) * w)) (unat ((v_size v - idx - 1) * w)) \<bind> mem_put ?m (unat (idx * w))
        else Some ?m) = Some m1"
      using run m1 same by (simp add: off)
    show ?thesis using g by (simp add: ct_vector_impl_erase_def p mv [simplified])
  qed
  moreover have "unat (v_size v - 1) \<le> unat (v_cap v)" using n1 c(2) by simp
  note vec_ok_bytes [OF ok l1 this]
  moreover have "slots ?W m1 (?n - 1) = take ?i (vec_list w v) @ drop (?i + 1) (vec_list w v)"
    unfolding vec_list_def by (rule slots_erase [OF c(3) in_ run m1])
  ultimately show ?thesis using True n1 by (intro exI [of _ ?v]) simp
qed

text \<open>Resizing cuts the list or pads it with zeroed elements.\<close>

definition resized :: "size_t \<Rightarrow> size_t \<Rightarrow> u8 list list \<Rightarrow> u8 list list" where
  "resized w n xs = take (unat n) xs @ replicate (unat n - length xs) (replicate (unat w) 0)"

lemma resize_ok:
  assumes ok: "vec_ok w v" and re: "realloc_ok f"
  shows "\<exists>b v'. ct_vector_impl_resize f v w n = Some (b, v') \<and> vec_ok w v' \<and>
    (if b then vec_list w v' = resized w n (vec_list w v) else v' = v) \<and>
    (n \<le> v_cap v \<longrightarrow> b) \<and> vec.more v' = vec.more v"
proof -
  have nz: "w \<noteq> 0" using ok by (auto simp: vec_ok_def)
  obtain b v1 where r: "(if n > v_cap v then ct_vector_impl_reserve f v w n else (True, v)) = (b, v1)" by fastforce
  have rok: "vec_ok w v1 \<and> vec_list w v1 = vec_list w v \<and> v_size v1 = v_size v \<and>
      (b \<longrightarrow> n \<le> v_cap v1) \<and> (\<not> b \<longrightarrow> v1 = v) \<and> vec.more v1 = vec.more v"
    using reserve_ok [OF ok re, of n b v1] r ok by (cases "n > v_cap v") auto
  show ?thesis
  proof (cases b)
    case False
    with r rok nz have "ct_vector_impl_resize f v w n = Some (False, v)"
      by (simp add: ct_vector_impl_resize_def)
    moreover have "\<not> n \<le> v_cap v" using False r by (auto split: if_splits)
    ultimately show ?thesis using ok by simp
  next
    case True
    note ok1 = conjunct1 [OF rok]
    let ?n = "unat n" and ?s = "unat (v_size v)" and ?W = "unat w" and ?m = "vec_bytes v1"
    have nc: "?n \<le> unat (v_cap v1)" using rok True by (simp add: word_le_nat_alt)
    have list: "vec_list w v = slots ?W ?m ?s" using rok by (metis vec_list_def)
    show ?thesis
    proof (cases "v_size v < n")
      case False
      let ?v = "v1\<lparr>v_size := n\<rparr>"
      have "ct_vector_impl_resize f v w n = Some (True, ?v)"
        using True False r rok nz by (simp add: ct_vector_impl_resize_def)
      moreover have "vec_ok w ?v" using ok1 nc by (simp add: vec_ok_def vec_bytes_def)
      moreover have "vec_list w ?v = resized w n (vec_list w v)"
        using False list by (simp add: resized_def vec_list_def vec_bytes_def take_slots not_less word_le_nat_alt)
      ultimately show ?thesis using rok by (intro exI [of _ True] exI [of _ ?v]) simp
    next
      case grow: True
      have sn: "?s < ?n" using grow by (simp add: word_less_nat_alt)
      have p: "v_ptr v1 = Some ?m" using ok1 sn nc by (intro vec_ptr_Some) simp_all
      have off: "unat (v_size v * w) = ?s * ?W" "unat ((n - v_size v) * w) = (?n - ?s) * ?W"
        using sn nc by (simp_all add: offset_nat [OF ok1] unat_diff_le)
      let ?z = "replicate ((?n - ?s) * ?W) (0 :: u8)"
      have "?s * ?W + (?n - ?s) * ?W = ?n * ?W" using sn by (metis add_mult_distrib le_add_diff_inverse less_imp_le)
      moreover have nl: "?n * ?W \<le> length ?m" using nc ok1 by (auto elim!: vec_okE)
      ultimately obtain m1 where m1: "mem_put ?m (?s * ?W) ?z = Some m1"
        using mem_put_ok [of "?s * ?W" ?z ?m] by auto
      have l1: "length m1 = length ?m" by (rule mem_put_length [OF m1])
      let ?v = "v1\<lparr>v_ptr := Some m1, v_size := n\<rparr>"
      have "ct_vector_impl_resize f v w n = Some (True, ?v)"
        using True grow r rok nz m1 by (simp add: ct_vector_impl_resize_def p off)
      moreover note vec_ok_bytes [OF ok1 l1 nc]
      moreover have "slots ?W m1 ?n = resized w n (vec_list w v)"
      proof (rule nth_equalityI)
        show "length (slots ?W m1 ?n) = length (resized w n (vec_list w v))"
          using sn by (simp add: resized_def)
      next
        fix j
        assume "j < length (slots ?W m1 ?n)"
        then have j: "j < ?n" by simp
        have "slot ?W m1 j = (if ?s \<le> j \<and> j < ?s + (?n - ?s) then take ?W (drop ((j - ?s) * ?W) ?z) else slot ?W ?m j)"
          by (rule slot_put_run [OF m1 _ j nl]) simp
        moreover have "take ?W (drop ((j - ?s) * ?W) ?z) = replicate ?W 0" if "?s \<le> j"
        proof -
          have "j - ?s < ?n - ?s" using that j sn by simp
          from slot_bound [OF this order_refl, of ?W] show ?thesis by (simp add: min_def)
        qed
        ultimately show "slots ?W m1 ?n ! j = resized w n (vec_list w v) ! j"
          using j sn by (auto simp: nth_slots resized_def nth_append list)
      qed
      ultimately show ?thesis using rok by (intro exI [of _ True] exI [of _ ?v]) simp
    qed
  qed
qed

lemma shrink_ok:
  assumes ok: "vec_ok w v" and re: "realloc_ok f" and r: "ct_vector_impl_shrink f v w = (b, v')"
  shows "vec_ok w v' \<and> vec_list w v' = vec_list w v \<and> v_size v' = v_size v \<and>
    (if b then v_cap v' = v_size v else v' = v) \<and> vec.more v' = vec.more v"
proof -
  have nz: "w \<noteq> 0" using ok by (auto simp: vec_ok_def)
  consider (same) "v_cap v = v_size v" | (empty) "v_cap v \<noteq> v_size v" "v_size v = 0"
    | (fail) "v_cap v \<noteq> v_size v" "v_size v \<noteq> 0" "f (v_ptr v) (w * v_size v) = None"
    | (move) p where "v_cap v \<noteq> v_size v" "v_size v \<noteq> 0" "f (v_ptr v) (w * v_size v) = Some p"
    by (metis option.exhaust)
  then show ?thesis
  proof cases
    case same
    then show ?thesis using r nz ok by (auto simp: ct_vector_impl_shrink_def)
  next
    case empty
    then show ?thesis using r nz ok by (auto simp: ct_vector_impl_shrink_def vec_ok_def vec_bytes_def vec_list_def slots_def)
  next
    case fail
    then show ?thesis using r nz ok by (auto simp: ct_vector_impl_shrink_def)
  next
    case (move p)
    then have v': "b" "v' = v\<lparr>v_ptr := Some p, v_cap := v_size v\<rparr>"
      using r nz by (auto simp: ct_vector_impl_shrink_def)
    have le: "unat (v_size v) \<le> unat (v_cap v)" using ok by (auto simp: vec_ok_def)
    have "unat (v_size v * w) = unat (v_size v) * unat w" by (rule offset_nat [OF ok le])
    then have len: "length p = unat (v_size v) * unat w"
      and pre: "\<And>old k. v_ptr v = Some old \<Longrightarrow> k \<le> length old \<Longrightarrow> k \<le> length p \<Longrightarrow> take k p = take k old"
      using re move(3) unfolding realloc_ok_def by (auto simp: mult.commute)
    have "0 < unat (v_cap v)" using le move(1) by (metis gr_zeroI le_zero_eq move(2) unat_eq_zero)
    then have old: "v_ptr v = Some (vec_bytes v)" by (rule vec_ptr_Some [OF ok])
    have "length p \<le> length (vec_bytes v)" using len ok by (elim vec_okE) simp
    then have "take (unat (v_size v) * unat w) p = take (unat (v_size v) * unat w) (vec_bytes v)"
      using pre [OF old, of "length p"] len by simp
    then have "slots (unat w) p (unat (v_size v)) = vec_list w v"
      unfolding vec_list_def by (rule slots_prefix)
    moreover have "unat (v_size v) * unat w \<le> 2 ^ 31" using ok by (elim vec_okE) linarith
    ultimately show ?thesis
      using v' len ok by (simp add: vec_ok_def vec_list_def vec_bytes_def)
  qed
qed

section \<open>Any use of the generic array\<close>

datatype array_op = Push "u8 list option" | Insert size_t "u8 list option" | Erase size_t | Pop
  | Resize size_t | Reserve size_t | Shrink | Clear

fun array_exec ::
  "(u8 list option \<Rightarrow> size_t \<Rightarrow> u8 list option) \<Rightarrow> ct_array \<Rightarrow> array_op \<Rightarrow> (bool \<times> ct_array) option" where
  "array_exec f a (Push d) = ct_array_push f a d"
| "array_exec f a (Insert i d) = ct_array_insert f a i d"
| "array_exec f a (Erase i) = ct_array_erase a i"
| "array_exec f a Pop = Some (ct_array_pop a)"
| "array_exec f a (Resize n) = ct_array_resize f a n"
| "array_exec f a (Reserve n) = Some (ct_array_reserve f a n)"
| "array_exec f a Shrink = Some (ct_array_shrink f a)"
| "array_exec f a Clear = Some (True, ct_array_clear a)"

fun array_run ::
  "(u8 list option \<Rightarrow> size_t \<Rightarrow> u8 list option) \<Rightarrow> ct_array \<Rightarrow> array_op list \<Rightarrow> (bool list \<times> ct_array) option" where
  "array_run f a [] = Some ([], a)"
| "array_run f a (op # ops) = do {
     (b, a) \<leftarrow> array_exec f a op;
     (bs, a) \<leftarrow> array_run f a ops;
     Some (b # bs, a) }"

text \<open>
  The specification, on the list of elements \<open>xs\<close> and the capacity \<open>c\<close>.  \<open>g n\<close> tells whether the
  allocator grants a block of \<open>n\<close> bytes at that moment.  Growing asks it for the least power of two of
  elements that suffices, unless that passes 2 GiB; a call is refused exactly when its index is out of
  range or the block it needs is, and then nothing changes.
\<close>

fun pow2_above :: "nat \<Rightarrow> nat" where
  "pow2_above n = (if n \<le> 1 then 1 else 2 * pow2_above ((n + 1) div 2))"

declare pow2_above.simps [simp del]

definition list_reserve :: "nat \<Rightarrow> (nat \<Rightarrow> bool) \<Rightarrow> nat \<Rightarrow> nat \<Rightarrow> bool \<times> nat" where
  "list_reserve w g c n =
     (if n \<le> c then (True, c)
      else if pow2_above n * w \<le> 2 ^ 31 \<and> g (pow2_above n * w) then (True, pow2_above n)
      else (False, c))"

fun list_array_step ::
  "size_t \<Rightarrow> (nat \<Rightarrow> bool) \<Rightarrow> u8 list list \<Rightarrow> nat \<Rightarrow> array_op \<Rightarrow> bool \<times> u8 list list \<times> nat" where
  "list_array_step w g xs c (Push d) =
     (let (b, c') = list_reserve (unat w) g c (length xs + 1)
      in (b, if b then xs @ [new_elem w d] else xs, c'))"
| "list_array_step w g xs c (Insert i d) =
     (if unat i \<le> length xs
      then let (b, c') = list_reserve (unat w) g c (length xs + 1)
           in (b, if b then take (unat i) xs @ new_elem w d # drop (unat i) xs else xs, c')
      else (False, xs, c))"
| "list_array_step w g xs c (Erase i) =
     (if unat i < length xs then (True, take (unat i) xs @ drop (unat i + 1) xs, c) else (False, xs, c))"
| "list_array_step w g xs c Pop = (xs \<noteq> [], butlast xs, c)"
| "list_array_step w g xs c (Resize n) =
     (let (b, c') = list_reserve (unat w) g c (unat n) in (b, if b then resized w n xs else xs, c'))"
| "list_array_step w g xs c (Reserve n) =
     (let (b, c') = list_reserve (unat w) g c (unat n) in (b, xs, c'))"
| "list_array_step w g xs c Shrink =
     (if c = length xs \<or> xs = [] \<or> g (length xs * unat w) then (True, xs, length xs) else (False, xs, c))"
| "list_array_step w g xs c Clear = (True, [], c)"

fun list_array_run ::
  "size_t \<Rightarrow> (nat \<Rightarrow> bool) list \<Rightarrow> u8 list list \<Rightarrow> nat \<Rightarrow> array_op list \<Rightarrow> bool list \<times> u8 list list \<times> nat" where
  "list_array_run w (g # gs) xs c (op # ops) =
     (let (b, xs, c) = list_array_step w g xs c op; (bs, r) = list_array_run w gs xs c ops in (b # bs, r))"
| "list_array_run w gs xs c ops = ([], xs, c)"

text \<open>What the allocator grants in a state of the array, and in the states a program goes through.\<close>

definition granted :: "(u8 list option \<Rightarrow> size_t \<Rightarrow> u8 list option) \<Rightarrow> 'a vec_scheme \<Rightarrow> nat \<Rightarrow> bool" where
  "granted f v n \<longleftrightarrow> f (v_ptr v) (of_nat n) \<noteq> None"

fun grants ::
  "(u8 list option \<Rightarrow> size_t \<Rightarrow> u8 list option) \<Rightarrow> ct_array \<Rightarrow> array_op list \<Rightarrow> (nat \<Rightarrow> bool) list" where
  "grants f a [] = []"
| "grants f a (op # ops) =
     granted f a # (case array_exec f a op of Some (b, a1) \<Rightarrow> grants f a1 ops | None \<Rightarrow> [])"

fun array_op_ok :: "size_t \<Rightarrow> array_op \<Rightarrow> bool" where
  "array_op_ok w (Push d) = data_ok w d"
| "array_op_ok w (Insert i d) = data_ok w d"
| "array_op_ok w _ = True"

lemma more_byte: "vec.more v' = vec.more v \<Longrightarrow> a_byte v' = a_byte (v :: ct_array)"
  by (cases v; cases v') simp

text \<open>The recursion on halves gives the least power of two.\<close>

lemma pow2_above_eq: "n \<le> 2 ^ k \<Longrightarrow> (\<forall>j. n \<le> 2 ^ j \<longrightarrow> k \<le> j) \<Longrightarrow> pow2_above n = 2 ^ k"
proof (induction k arbitrary: n)
  case 0
  then show ?case by (simp add: pow2_above.simps)
next
  case (Suc k)
  have "\<not> n \<le> 2 ^ k" using Suc.prems(2) by (metis Suc_n_not_le_n)
  then have "1 < n" using one_le_power [of "2 :: nat" k] by linarith
  have "(n + 1) div 2 \<le> 2 ^ k" using Suc.prems(1) by simp
  moreover have "\<forall>j. (n + 1) div 2 \<le> 2 ^ j \<longrightarrow> k \<le> j"
  proof (intro allI impI)
    fix j
    assume "(n + 1) div 2 \<le> 2 ^ j"
    then have "n \<le> 2 ^ Suc j" by simp
    with Suc.prems(2) show "k \<le> j" by blast
  qed
  ultimately have "pow2_above ((n + 1) div 2) = 2 ^ k" by (rule Suc.IH)
  with \<open>1 < n\<close> show ?case by (simp add: pow2_above.simps [of n])
qed

lemma pow2_above_ge: "n \<le> pow2_above n"
proof (induction n rule: pow2_above.induct)
  case (1 n)
  show ?case
  proof (cases "n \<le> 1")
    case False
    with 1 have "(n + 1) div 2 \<le> pow2_above ((n + 1) div 2)" by simp
    with False show ?thesis by (simp add: pow2_above.simps [of n])
  qed (simp add: pow2_above.simps [of n])
qed

lemma round_cap_above:
  assumes "0 < unat n" "unat n \<le> 2 ^ 63"
  shows "unat (round_cap n) = pow2_above (unat n)"
  using round_cap_pow2 [OF assms] pow2_above_eq by metis

text \<open>The capacity and the answer of each operation that may allocate.\<close>

lemma reserve_exact:
  assumes ok: "vec_ok w v" and r: "ct_vector_impl_reserve f v w n = (b, v')"
  shows "(b, unat (v_cap v')) = list_reserve (unat w) (granted f v) (unat (v_cap v)) (unat n)"
proof -
  have nz: "w \<noteq> 0" and pos: "0 < unat w" using ok by (auto simp: vec_ok_def)
  let ?p = "pow2_above (unat n)"
  have lim: "x \<le> CT_VEC_MEMORY_MAX div w \<longleftrightarrow> unat x * unat w \<le> 2 ^ 31" for x
    using pos by (simp add: word_le_nat_alt unat_div CT_VEC_MEMORY_MAX_def less_eq_div_iff_mult_less_eq)
  consider (room) "n \<le> v_cap v" | (huge) "\<not> n \<le> v_cap v" "\<not> unat n * unat w \<le> 2 ^ 31"
    | (grow) "\<not> n \<le> v_cap v" "unat n * unat w \<le> 2 ^ 31" by blast
  then show ?thesis
  proof cases
    case room
    with r nz show ?thesis by (auto simp: ct_vector_impl_reserve_def list_reserve_def word_le_nat_alt)
  next
    case huge
    then have "\<not> n \<le> CT_VEC_MEMORY_MAX div w" by (simp only: lim not_False_eq_True)
    with huge r nz have "(b, v') = (False, v)" by (auto simp: ct_vector_impl_reserve_def not_le split: if_splits)
    moreover have "\<not> ?p * unat w \<le> 2 ^ 31"
      using huge(2) mult_le_mono1 [OF pow2_above_ge [of "unat n"], of "unat w"] by linarith
    ultimately show ?thesis using huge by (auto simp: list_reserve_def word_le_nat_alt)
  next
    case grow
    have "unat n * 1 \<le> unat n * unat w" using pos by (intro mult_le_mono2) simp
    with grow(2) have "unat n \<le> 2 ^ 31" by linarith
    then have "unat n \<le> 2 ^ 63" by (rule order_trans) simp
    moreover have "0 < unat n" using grow(1) by (auto simp: word_le_nat_alt)
    ultimately have rc: "unat (round_cap n) = ?p" by (intro round_cap_above)
    have ge: "n \<le> round_cap n" using pow2_above_ge [of "unat n"] rc by (simp add: word_le_nat_alt)
    have "w * round_cap n = of_nat (?p * unat w)" by (simp add: rc [symmetric])
    then have g: "granted f v (?p * unat w) \<longleftrightarrow> f (v_ptr v) (w * round_cap n) \<noteq> None"
      by (simp only: granted_def)
    have "\<not> n > CT_VEC_MEMORY_MAX div w" using grow(2) lim not_le by blast
    moreover have "round_cap n > CT_VEC_MEMORY_MAX div w \<longleftrightarrow> \<not> ?p * unat w \<le> 2 ^ 31"
      using lim rc not_le by metis
    ultimately have "(b, v') = (if ?p * unat w \<le> 2 ^ 31
        then case f (v_ptr v) (w * round_cap n) of None \<Rightarrow> (False, v)
             | Some p \<Rightarrow> (True, v\<lparr>v_ptr := Some p, v_cap := round_cap n\<rparr>)
        else (False, v))"
      using grow(1) r nz ge
      by (simp add: ct_vector_impl_reserve_def Let_def not_less [symmetric] split: if_splits)
    with g grow(1) rc show ?thesis
      by (cases "f (v_ptr v) (w * round_cap n)") (auto simp: list_reserve_def word_le_nat_alt split: if_splits)
  qed
qed

lemma insert_exact:
  assumes ok: "vec_ok w v" and i: "idx \<le> v_size v" and r: "ct_vector_impl_insert f v w idx d = Some (b, v')"
  shows "(b, unat (v_cap v')) = list_reserve (unat w) (granted f v) (unat (v_cap v)) (unat (v_size v) + 1)"
proof -
  have nz: "w \<noteq> 0" using ok by (auto simp: vec_ok_def)
  obtain b1 v1 where one: "(if v_size v \<ge> v_cap v then ct_vector_impl_reserve f v w (v_size v + 1) else (True, v)) = (b1, v1)"
    by fastforce
  have "(b1, unat (v_cap v1)) = list_reserve (unat w) (granted f v) (unat (v_cap v)) (unat (v_size v) + 1)"
    using one reserve_exact [OF ok, of f "v_size v + 1" b1 v1] size_Suc [OF ok]
    by (auto simp: list_reserve_def word_le_nat_alt split: if_splits)
  moreover have "b = b1 \<and> v_cap v' = v_cap v1"
    using r nz i unfolding ct_vector_impl_insert_def one Let_def prod.case
    by (auto split: if_splits Option.bind_splits)
  ultimately show ?thesis by simp
qed

lemma resize_exact:
  assumes ok: "vec_ok w v" and r: "ct_vector_impl_resize f v w n = Some (b, v')"
  shows "(b, unat (v_cap v')) = list_reserve (unat w) (granted f v) (unat (v_cap v)) (unat n)"
proof -
  have nz: "w \<noteq> 0" using ok by (auto simp: vec_ok_def)
  obtain b1 v1 where one: "(if n > v_cap v then ct_vector_impl_reserve f v w n else (True, v)) = (b1, v1)"
    by fastforce
  have "(b1, unat (v_cap v1)) = list_reserve (unat w) (granted f v) (unat (v_cap v)) (unat n)"
    using one reserve_exact [OF ok, of f n b1 v1]
    by (auto simp: list_reserve_def word_less_nat_alt split: if_splits)
  moreover have "b = b1 \<and> v_cap v' = v_cap v1"
    using r nz unfolding ct_vector_impl_resize_def one Let_def prod.case
    by (auto split: if_splits Option.bind_splits)
  ultimately show ?thesis by simp
qed

text \<open>Each operation answers and does what the specification says.\<close>

definition array_view :: "bool \<Rightarrow> ct_array \<Rightarrow> bool \<times> u8 list list \<times> nat" where
  "array_view b a = (b, vec_list (a_byte a) a, unat (v_cap a))"

lemma array_pop_step:
  fixes a :: ct_array
  assumes ok: "vec_ok (a_byte a) a" and r: "ct_array_pop a = (b, a')"
  shows "vec_ok (a_byte a) a' \<and> a_byte a' = a_byte a \<and>
    array_view b a' = (vec_list (a_byte a) a \<noteq> [], butlast (vec_list (a_byte a) a), unat (v_cap a))"
proof (cases "v_size a = 0")
  case True
  then have "vec_list (a_byte a) a = []" by (simp add: vec_list_def slots_def)
  with True r ok show ?thesis by (auto simp: ct_array_pop_def array_view_def)
next
  case False
  have pos: "0 < unat (v_size a)" using False by (simp add: unat_gt_0)
  have n1: "unat (v_size a - 1) = unat (v_size a) - 1" using pos by (subst unat_diff_le) simp_all
  have "v_ptr a \<noteq> None" using vec_ptr_Some [OF ok] pos ok by (auto simp: vec_ok_def)
  with False r have a': "b" "a' = a\<lparr>v_size := v_size a - 1\<rparr>" by (auto simp: ct_array_pop_def)
  have "vec_list (a_byte a) a \<noteq> []" using pos by (metis length_vec_list list.size(3) less_irrefl)
  moreover have "vec_list (a_byte a) a' = butlast (vec_list (a_byte a) a)"
    by (simp add: a' vec_list_def vec_bytes_def n1 butlast_conv_take take_slots)
  ultimately show ?thesis using ok n1 a' by (auto simp: vec_ok_def vec_bytes_def array_view_def)
qed

lemma array_shrink_step:
  fixes a :: ct_array
  assumes ok: "vec_ok (a_byte a) a" and r: "ct_vector_impl_shrink f a (a_byte a) = (b, a')"
  shows "(b, unat (v_cap a')) = (if unat (v_cap a) = unat (v_size a) \<or> unat (v_size a) = 0 \<or>
      granted f a (unat (v_size a) * unat (a_byte a)) then (True, unat (v_size a)) else (False, unat (v_cap a)))"
proof -
  have nz: "a_byte a \<noteq> 0" using ok by (auto simp: vec_ok_def)
  have "a_byte a * v_size a = of_nat (unat (v_size a) * unat (a_byte a))" by simp
  then have "granted f a (unat (v_size a) * unat (a_byte a)) \<longleftrightarrow> f (v_ptr a) (a_byte a * v_size a) \<noteq> None"
    by (simp only: granted_def)
  moreover have "unat (v_cap a) = unat (v_size a) \<longleftrightarrow> v_cap a = v_size a" "unat (v_size a) = 0 \<longleftrightarrow> v_size a = 0"
    by (simp_all add: word_unat_eq_iff)
  ultimately show ?thesis
    using r nz by (auto simp: ct_vector_impl_shrink_def split: if_splits option.splits)
qed

lemma vec_list_Nil_iff: "vec_list w v = [] \<longleftrightarrow> unat (v_size v) = 0"
  by (metis length_0_conv length_vec_list)

lemma array_exec_step:
  fixes a :: ct_array
  assumes ok: "vec_ok (a_byte a) a" and re: "realloc_ok f" and op: "array_op_ok (a_byte a) op"
  shows "\<exists>b a'. array_exec f a op = Some (b, a') \<and> vec_ok (a_byte a) a' \<and> a_byte a' = a_byte a \<and>
    array_view b a' = list_array_step (a_byte a) (granted f a) (vec_list (a_byte a) a) (unat (v_cap a)) op"
proof (cases op)
  case (Push d)
  obtain b a' where r: "ct_vector_impl_insert f a (a_byte a) (v_size a) d = Some (b, a')" "vec_ok (a_byte a) a'"
    "if b then v_size a \<le> v_size a \<and> vec_list (a_byte a) a' = take (unat (v_size a)) (vec_list (a_byte a) a) @
        new_elem (a_byte a) d # drop (unat (v_size a)) (vec_list (a_byte a) a) else a' = a"
    "vec.more a' = vec.more a"
    using insert_ok [OF ok re, of d "v_size a"] op Push by auto
  from insert_exact [OF ok order_refl r(1), symmetric] r Push more_byte [OF r(4)] show ?thesis
    by (auto simp: ct_array_push_def array_view_def split: if_splits)
next
  case (Insert i d)
  obtain b a' where r: "ct_vector_impl_insert f a (a_byte a) i d = Some (b, a')" "vec_ok (a_byte a) a'"
    "if b then i \<le> v_size a \<and> vec_list (a_byte a) a' = take (unat i) (vec_list (a_byte a) a) @
        new_elem (a_byte a) d # drop (unat i) (vec_list (a_byte a) a) else a' = a"
    "vec.more a' = vec.more a"
    using insert_ok [OF ok re, of d i] op Insert by auto
  show ?thesis
  proof (cases "i \<le> v_size a")
    case True
    from insert_exact [OF ok True r(1), symmetric] True r Insert more_byte [OF r(4)] show ?thesis
      by (auto simp: ct_array_insert_def array_view_def word_le_nat_alt split: if_splits)
  next
    case False
    with r have "\<not> b" "a' = a" by (auto split: if_splits)
    with False r(1) Insert ok show ?thesis
      by (simp add: ct_array_insert_def array_view_def word_le_nat_alt)
  qed
next
  case (Erase i)
  obtain a' where r: "ct_vector_impl_erase a (a_byte a) i = Some (i < v_size a, a')" "vec_ok (a_byte a) a'"
    "vec_list (a_byte a) a' = (if i < v_size a
      then take (unat i) (vec_list (a_byte a) a) @ drop (unat i + 1) (vec_list (a_byte a) a)
      else vec_list (a_byte a) a)" "v_cap a' = v_cap a" "vec.more a' = vec.more a"
    using erase_ok [OF ok, of i] by blast
  with Erase more_byte [OF r(5)] show ?thesis
    by (simp add: ct_array_erase_def array_view_def word_less_nat_alt)
next
  case Pop
  with array_pop_step [OF ok] show ?thesis by (cases "ct_array_pop a") simp
next
  case (Resize n)
  obtain b a' where r: "ct_vector_impl_resize f a (a_byte a) n = Some (b, a')" "vec_ok (a_byte a) a'"
    "if b then vec_list (a_byte a) a' = resized (a_byte a) n (vec_list (a_byte a) a) else a' = a"
    "vec.more a' = vec.more a"
    using resize_ok [OF ok re] by blast
  from resize_exact [OF ok r(1), symmetric] r Resize more_byte [OF r(4)] show ?thesis
    by (auto simp: ct_array_resize_def array_view_def split: if_splits)
next
  case (Reserve n)
  obtain b a' where r: "ct_vector_impl_reserve f a (a_byte a) n = (b, a')" by fastforce
  from reserve_ok [OF ok re r] reserve_exact [OF ok r, symmetric] more_byte [of a' a] r Reserve show ?thesis
    by (simp add: ct_array_reserve_def array_view_def)
next
  case Shrink
  obtain b a' where r: "ct_vector_impl_shrink f a (a_byte a) = (b, a')" by fastforce
  from shrink_ok [OF ok re r] array_shrink_step [OF ok r] more_byte [of a' a] r Shrink show ?thesis
    by (auto simp: ct_array_shrink_def array_view_def vec_list_Nil_iff split: if_splits)
next
  case Clear
  have "vec_list w (a\<lparr>v_size := 0\<rparr>) = []" for w by (simp add: vec_list_def slots_def)
  with Clear ok show ?thesis
    by (simp add: ct_array_clear_def array_view_def vec_ok_def vec_bytes_def)
qed

text \<open>C6: The growable array is a list of elements.  With any allocator that honours the contract of
  \<open>realloc\<close>, any sequence of pushes, insertions, removals, pops, resizes, reservations, shrinks and
  clears runs without an access outside the current block and answers, call by call, exactly as the
  list with a capacity does: an index is refused exactly when it is out of range (beyond the length for
  an insertion, not below it for a removal); a call that fits the capacity always succeeds; one that
  does not is refused exactly when the least sufficient power of two of elements passes 2 GiB or the
  allocator does not grant it; a refused call changes nothing, and every other does to the elements and
  the capacity what its name says.\<close>

theorem array_refines_list:
  assumes "vec_ok (a_byte a) a" and "realloc_ok f" and "list_all (array_op_ok (a_byte a)) ops"
  shows "\<exists>bs a'. array_run f a ops = Some (bs, a') \<and> vec_ok (a_byte a) a' \<and>
    list_array_run (a_byte a) (grants f a ops) (vec_list (a_byte a) a) (unat (v_cap a)) ops =
      (bs, vec_list (a_byte a) a', unat (v_cap a'))"
  using assms
proof (induction ops arbitrary: a)
  case Nil
  then show ?case by auto
next
  case (Cons op ops)
  obtain b a1 where one: "array_exec f a op = Some (b, a1)" "vec_ok (a_byte a) a1" "a_byte a1 = a_byte a"
    "array_view b a1 = list_array_step (a_byte a) (granted f a) (vec_list (a_byte a) a) (unat (v_cap a)) op"
    using array_exec_step [of a f op] Cons.prems by auto
  have "vec_ok (a_byte a1) a1" using one(2,3) by simp
  from Cons.IH [OF this] Cons.prems one show ?case
    by (auto simp: array_view_def one(4) [symmetric])
qed

text \<open>An allocator that never fails.\<close>

definition some_realloc :: "u8 list option \<Rightarrow> size_t \<Rightarrow> u8 list option" where
  "some_realloc p n =
     (let old = (case p of None \<Rightarrow> [] | Some b \<Rightarrow> b)
      in Some (take (unat n) old @ replicate (unat n - length old) 0))"

lemma some_realloc_ok: "realloc_ok some_realloc"
  by (auto simp: realloc_ok_def some_realloc_def Let_def)

theorem array_refines_list_witness:
  "\<exists>bs a'. array_run some_realloc \<lparr>v_ptr = None, v_size = 0, v_cap = 0, a_byte = 2\<rparr>
      [Push (Some [1, 2]), Insert 0 None, Insert 7 None, Erase 5, Pop] = Some (bs, a') \<and> vec_ok 2 a' \<and>
    list_array_run 2 (grants some_realloc \<lparr>v_ptr = None, v_size = 0, v_cap = 0, a_byte = 2\<rparr>
      [Push (Some [1, 2]), Insert 0 None, Insert 7 None, Erase 5, Pop]) [] 0
      [Push (Some [1, 2]), Insert 0 None, Insert 7 None, Erase 5, Pop] = (bs, vec_list 2 a', unat (v_cap a'))"
proof -
  let ?a = "\<lparr>v_ptr = None, v_size = 0, v_cap = 0, a_byte = 2\<rparr> :: ct_array"
  have ok: "vec_ok (a_byte ?a) ?a" by (simp add: vec_ok_def vec_bytes_def)
  have ops: "list_all (array_op_ok (a_byte ?a)) [Push (Some [1, 2]), Insert 0 None, Insert 7 None, Erase 5, Pop]"
    by (simp add: data_ok_def)
  have "vec_list (a_byte ?a) ?a = []" "unat (v_cap ?a) = 0" "a_byte ?a = 2"
    by (simp_all add: vec_list_def slots_def)
  with array_refines_list [OF ok some_realloc_ok ops] show ?thesis by metis
qed

text \<open>C7: Capacity growth.  When \<open>ct_vector_impl_reserve\<close> grows a container, the new capacity is the
  least power of two that is at least what was asked, the block has exactly that many elements and
  never exceeds the 2 GiB limit, and the elements are kept; in particular asking for one more element
  at least doubles a full power-of-two capacity.\<close>

theorem reserve_grows_pow2:
  assumes "vec_ok w v" and "realloc_ok f" and "v_cap v < n"
    and "ct_vector_impl_reserve f v w n = (True, v')"
  shows "\<exists>k. unat (v_cap v') = 2 ^ k \<and> unat n \<le> 2 ^ k \<and> (\<forall>j. unat n \<le> 2 ^ j \<longrightarrow> k \<le> j) \<and>
    length (vec_bytes v') = 2 ^ k * unat w \<and> 2 ^ k * unat w \<le> 2 ^ 31 \<and> vec_list w v' = vec_list w v"
proof -
  have nz: "w \<noteq> 0" using assms(1) by (auto simp: vec_ok_def)
  have cap: "v_cap v' = round_cap n" and le: "n \<le> CT_VEC_MEMORY_MAX div w"
    using assms(3,4) nz by (auto simp: ct_vector_impl_reserve_def Let_def not_less split: if_splits option.splits)
  have "unat n \<le> 2 ^ 31 div unat w"
    using le by (simp add: word_le_nat_alt unat_div CT_VEC_MEMORY_MAX_def)
  then have "unat n \<le> 2 ^ 31" by (meson div_le_dividend le_trans)
  then have "0 < unat n" "unat n \<le> 2 ^ 63" using assms(3) by (auto simp: word_less_nat_alt)
  from round_cap_pow2 [OF this] reserve_ok [OF assms(1,2,4)] cap show ?thesis
    by (auto simp: vec_ok_def)
qed

theorem reserve_grows_pow2_witness:
  "\<exists>v' :: vec. ct_vector_impl_reserve some_realloc \<lparr>v_ptr = None, v_size = 0, v_cap = 0\<rparr> 1 3 = (True, v') \<and>
    (\<exists>k. unat (v_cap v') = 2 ^ k \<and> 3 \<le> (2 :: nat) ^ k \<and> (\<forall>j. 3 \<le> (2 :: nat) ^ j \<longrightarrow> k \<le> j))"
proof -
  let ?v = "\<lparr>v_ptr = None, v_size = 0, v_cap = 0\<rparr> :: vec"
  obtain v' where v': "ct_vector_impl_reserve some_realloc ?v 1 3 = (True, v')"
    by (simp add: ct_vector_impl_reserve_def round_cap_def CT_VEC_MEMORY_MAX_def some_realloc_def Let_def)
  have "vec_ok 1 ?v" "v_cap ?v < 3" by (simp_all add: vec_ok_def vec_bytes_def)
  from reserve_grows_pow2 [OF this(1) some_realloc_ok this(2) v'] v' show ?thesis by auto
qed

section \<open>Destructors of the typed vector\<close>

text \<open>Running the destructor over a range reports the elements of the range and touches no other.\<close>

definition dtor_image_ok :: "size_t \<Rightarrow> dtor \<Rightarrow> bool" where
  "dtor_image_ok w dtor = (case dtor of Some f \<Rightarrow> \<forall>x. length x = unat w \<longrightarrow> length (f x) = unat w | None \<Rightarrow> True)"

lemma dtor_loop_spec:
  assumes d: "dtor_image_ok w (Some f)" and m: "n * unat w \<le> length m" and r: "i + k \<le> n"
  shows "\<exists>m'. dtor_loop (Some f) w m i k = Some (map (slot (unat w) m) [i..<i + k], m') \<and> length m' = length m \<and>
    (\<forall>j < n. j < i \<or> i + k \<le> j \<longrightarrow> slot (unat w) m' j = slot (unat w) m j)"
  using m r
proof (induction k arbitrary: i m)
  case 0
  then show ?case by simp
next
  case (Suc k)
  let ?W = "unat w" and ?x = "slot (unat w) m i"
  have i: "i < n" using Suc.prems(2) by simp
  have get: "mem_get m (i * ?W) ?W = Some ?x" by (rule slot_get [OF i Suc.prems(1)])
  have x: "length (f ?x) = ?W"
    using d length_slot [OF i Suc.prems(1)] by (simp add: dtor_image_ok_def)
  obtain m1 where m1: "mem_put m (i * ?W) (f ?x) = Some m1" "length m1 = length m"
    using slot_put_ex [OF i Suc.prems(1) x] by blast
  have keep: "slot ?W m1 j = slot ?W m j" if "j < n" "j \<noteq> i" for j
    using slot_put_other [OF m1(1) x _ that(1) Suc.prems(1)] that(2) by simp
  have "n * ?W \<le> length m1" "i + 1 + k \<le> n" using Suc.prems m1(2) by simp_all
  from Suc.IH [OF this] obtain m' where m': "dtor_loop (Some f) w m1 (i + 1) k =
      Some (map (slot ?W m1) [i + 1..<i + 1 + k], m')" "length m' = length m1"
    "\<forall>j < n. j < i + 1 \<or> i + 1 + k \<le> j \<longrightarrow> slot ?W m' j = slot ?W m1 j"
    by blast
  have "map (slot ?W m1) [i + 1..<i + 1 + k] = map (slot ?W m) [i + 1..<i + 1 + k]"
    using keep Suc.prems(2) by (intro map_cong) auto
  moreover have "[i..<i + Suc k] = i # [i + 1..<i + 1 + k]" by (simp add: upt_rec [of i])
  ultimately have "dtor_loop (Some f) w m i (Suc k) = Some (map (slot ?W m) [i..<i + Suc k], m')"
    using get m1(1) m'(1) by (simp del: upt_Suc)
  moreover have "\<forall>j < n. j < i \<or> i + Suc k \<le> j \<longrightarrow> slot ?W m' j = slot ?W m j"
    using m'(3) keep by auto
  ultimately show ?case using m'(2) m1(2) by auto
qed

end
