(* ===== verification/Coter_Digest.thy ===== *)
theory Coter_Digest
  imports Coter_Prelude
begin

text \<open>
  What the two message digests (\<open>crypto/src/md5.c\<close>, \<open>crypto/src/sha1.c\<close>) share: the reading of a
  message in 64-byte blocks, the padding, the 64-bit bit counter kept in two 32-bit words, and the
  contract of a streaming context, stated as two locales.  Nothing here models code by itself except
  the counter update, which both \<open>update\<close> functions contain.
\<close>

section \<open>Blocks\<close>

text \<open>\<open>absorb f h xs\<close> feeds the full 64-byte blocks of \<open>xs\<close> to \<open>f\<close> and returns the bytes left.\<close>

function absorb :: "('h \<Rightarrow> u8 list \<Rightarrow> 'h) \<Rightarrow> 'h \<Rightarrow> u8 list \<Rightarrow> 'h \<times> u8 list" where
  "absorb f h xs = (if length xs < 64 then (h, xs) else absorb f (f h (take 64 xs)) (drop 64 xs))"
  by auto
termination by (relation "measure (\<lambda>(f, h, xs). length xs)") auto

declare absorb.simps [simp del]

lemma absorb_short: "length xs < 64 \<Longrightarrow> absorb f h xs = (h, xs)"
  by (simp add: absorb.simps)

lemma absorb_block: "length b = 64 \<Longrightarrow> absorb f h (b @ xs) = absorb f (f h b) xs"
  by (subst absorb.simps) simp

lemma absorb_long: "64 \<le> length xs \<Longrightarrow> absorb f h xs = absorb f (f h (take 64 xs)) (drop 64 xs)"
  by (subst absorb.simps) simp

lemma absorb_append:
  "absorb f h (xs @ ys) = (case absorb f h xs of (h', r) \<Rightarrow> absorb f h' (r @ ys))"
proof (induction f h xs rule: absorb.induct)
  case (1 f h xs)
  show ?case
  proof (cases "length xs < 64")
    case True
    then show ?thesis by (simp add: absorb_short)
  next
    case False
    then have "absorb f h (xs @ ys) = absorb f (f h (take 64 xs)) (drop 64 xs @ ys)"
      by (subst absorb_long) simp_all
    with 1 False show ?thesis by (simp add: absorb_long)
  qed
qed

lemma absorb_rest: "length (snd (absorb f h xs)) = length xs mod 64"
proof (induction f h xs rule: absorb.induct)
  case (1 f h xs)
  show ?case
  proof (cases "length xs < 64")
    case True
    then show ?thesis by (simp add: absorb_short)
  next
    case False
    with 1 show ?thesis by (simp add: absorb_long le_mod_geq)
  qed
qed

section \<open>Padding\<close>

definition pad_zeros :: "nat \<Rightarrow> nat" where
  "pad_zeros n = (119 - n mod 64) mod 64"

definition md_pad :: "(u64 \<Rightarrow> u8 list) \<Rightarrow> u8 list \<Rightarrow> u8 list" where
  "md_pad enc msg =
     msg @ 0x80 # replicate (pad_zeros (length msg)) 0 @ enc (of_nat (8 * length msg))"

definition md_digest ::
  "('h \<Rightarrow> u8 list \<Rightarrow> 'h) \<Rightarrow> 'h \<Rightarrow> (u64 \<Rightarrow> u8 list) \<Rightarrow> ('h \<Rightarrow> u8 list) \<Rightarrow> u8 list \<Rightarrow> u8 list" where
  "md_digest f iv enc out msg = out (fst (absorb f iv (md_pad enc msg)))"

lemma pad_zeros_mod: "pad_zeros (n mod 64) = pad_zeros n"
  by (simp add: pad_zeros_def)

lemma pad_zeros_small: "n < 56 \<Longrightarrow> pad_zeros n = 55 - n"
proof -
  assume n: "n < 56"
  have "119 - n = (55 - n) + 64" using n by simp
  then have "(119 - n) mod 64 = (55 - n) mod 64" by (simp only: mod_add_self2)
  then show ?thesis using n by (simp add: pad_zeros_def)
qed

lemma pad_zeros_big: "56 \<le> n \<Longrightarrow> n < 64 \<Longrightarrow> pad_zeros n = 119 - n"
  by (simp add: pad_zeros_def)

text \<open>The padding fills the last block exactly, for an eight-byte length field.\<close>

lemma md_pad_length: "(\<And>w. length (enc w) = 8) \<Longrightarrow> 64 dvd length (md_pad enc msg)"
proof -
  assume "\<And>w. length (enc w) = 8"
  then have "length (md_pad enc msg) = length msg + pad_zeros (length msg) + 9"
    by (simp add: md_pad_def)
  moreover have "64 dvd n + pad_zeros n + 9" for n :: nat
  proof -
    define q r where "q = n div 64" and "r = n mod 64"
    have n: "n = 64 * q + r" "r < 64" by (simp_all add: q_def r_def)
    have p: "pad_zeros n = pad_zeros r" by (simp only: r_def pad_zeros_mod)
    show ?thesis
    proof (cases "r < 56")
      case True
      then have "r + pad_zeros r = 55" by (simp add: pad_zeros_small)
      then have "n + pad_zeros n + 9 = 64 * (q + 1)" using n(1) unfolding p by presburger
      then show ?thesis by (simp only: dvd_triv_left)
    next
      case False
      then have "r + pad_zeros r = 119" using n(2) by (simp add: pad_zeros_big)
      then have "n + pad_zeros n + 9 = 64 * (q + 2)" using n(1) unfolding p by presburger
      then show ?thesis by (simp only: dvd_triv_left)
    qed
  qed
  ultimately show ?thesis by (simp only:)
qed

section \<open>The bit counter\<close>

text \<open>Two 32-bit words, low-order word first, counting bits modulo $2^{64}$.\<close>

definition count64 :: "u32 \<Rightarrow> u32 \<Rightarrow> u64" where
  "count64 lo hi = ucast hi * 2 ^ 32 + ucast lo"

definition count_add :: "u32 \<Rightarrow> u32 \<Rightarrow> size_t \<Rightarrow> u32 \<times> u32" where
  "count_add lo hi len =
     (let lo' = lo + push_bit 3 (ucast len);
          hi' = (if lo' < lo then hi + 1 else hi)
      in (lo', hi' + ucast (drop_bit 29 len)))"

lemma len32: "LENGTH(32) = 32" and len64: "LENGTH(64) = 64"
  by simp_all

definition block_pos :: "u32 \<Rightarrow> nat" where
  "block_pos lo = unat (drop_bit 3 lo AND 0x3f)"

lemma block_pos_nat: "block_pos lo = (unat lo div 8) mod 64"
proof -
  have "(0x3f :: u32) = mask 6" by (simp add: mask_eq_exp_minus_1)
  then have "block_pos lo = unat (take_bit 6 (drop_bit 3 lo))"
    by (simp only: block_pos_def take_bit_eq_mask)
  also have "\<dots> = take_bit 6 (drop_bit 3 (unat lo))"
    by (simp only: unsigned_take_bit_eq unat_drop_bit_eq)
  finally show ?thesis by (simp add: take_bit_eq_mod drop_bit_eq_div)
qed

lemma block_pos_lt: "block_pos lo < 64"
  by (simp add: block_pos_nat)

lemma uint_shift3: "uint (push_bit 3 (ucast (len :: size_t) :: u32)) = (8 * uint len) mod 2 ^ 32"
proof -
  have "uint (push_bit 3 (ucast len :: u32)) = take_bit 32 (push_bit 3 (take_bit 32 (uint len)))"
    by (simp only: unsigned_push_bit_eq unsigned_ucast_eq len32)
  also have "\<dots> = (uint len mod 2 ^ 32 * 8) mod 2 ^ 32"
    by (simp only: take_bit_eq_mod push_bit_eq_mult) simp
  finally show ?thesis by (simp only: mod_mult_left_eq mult.commute [of 8])
qed

lemma unat_shift3: "unat (push_bit 3 (ucast (len :: size_t) :: u32)) = (8 * unat len) mod 2 ^ 32"
proof -
  have "int (unat (push_bit 3 (ucast len :: u32))) = int ((8 * unat len) mod 2 ^ 32)"
    using uint_shift3 [of len] by (simp add: zmod_int)
  then show ?thesis by (simp only: of_nat_eq_iff)
qed

lemma count_add_lo:
  "unat (fst (count_add lo hi len)) = (unat lo + 8 * unat len) mod 2 ^ 32"
proof -
  have "unat (lo + push_bit 3 (ucast len)) = (unat lo + (8 * unat len) mod 2 ^ 32) mod 2 ^ 32"
    by (simp only: unat_word_ariths unat_shift3 len32)
  then show ?thesis by (simp only: count_add_def Let_def fst_conv mod_add_right_eq)
qed

lemma block_pos_add: "block_pos (fst (count_add lo hi len)) = (block_pos lo + unat len) mod 64"
proof -
  have "(a + 8 * n) mod 2 ^ 32 div 8 mod 64 = (a div 8 mod 64 + n) mod 64" for a n :: nat
  proof -
    have "(a + 8 * n) mod (8 * 2 ^ 29) div 8 = (a + 8 * n) div 8 mod 2 ^ 29"
      by (simp only: mod_mult2_eq)
    moreover have "(a + 8 * n) div 8 = a div 8 + n" by simp
    moreover have "(2 :: nat) ^ 32 = 8 * 2 ^ 29" by simp
    ultimately have "(a + 8 * n) mod 2 ^ 32 div 8 mod 64 = (a div 8 + n) mod 2 ^ 29 mod 64"
      by (simp only:)
    also have "\<dots> = (a div 8 + n) mod 64" by (rule mod_mod_cancel) simp
    finally show ?thesis by (simp add: mod_add_left_eq)
  qed
  then show ?thesis by (simp only: block_pos_nat count_add_lo)
qed

lemma uint_count64: "uint (count64 lo hi) = uint hi * 2 ^ 32 + uint lo"
proof -
  have "uint hi < 2 ^ 32" "uint lo < 2 ^ 32" "0 \<le> uint hi" "0 \<le> uint lo"
    using uint_lt2p [of hi] uint_lt2p [of lo] by simp_all
  then have "uint (ucast hi * 2 ^ 32 :: u64) = uint hi * 2 ^ 32"
    by (simp add: uint_word_ariths unsigned_ucast_eq take_bit_eq_mod)
  with \<open>uint hi < 2 ^ 32\<close> \<open>uint lo < 2 ^ 32\<close> \<open>0 \<le> uint hi\<close> \<open>0 \<le> uint lo\<close>
  show ?thesis
    by (simp add: count64_def uint_word_ariths unsigned_ucast_eq take_bit_eq_mod)
qed

lemma carry_eq:
  fixes a b k s :: int
  assumes "0 \<le> a" "a < 2 ^ 32" "0 \<le> b" "b < 2 ^ 32" "0 \<le> k" "k < 2 ^ 32" "0 \<le> s" "s < 2 ^ 32"
  shows "((b + (if (a + s) mod 2 ^ 32 < a then 1 else 0) + k) mod 2 ^ 32) * 2 ^ 32 + (a + s) mod 2 ^ 32 =
    (b * 2 ^ 32 + a + (k * 2 ^ 32 + s)) mod 2 ^ 64"
proof -
  have split: "(x * 2 ^ 32 + y) mod 2 ^ 64 = (x mod 2 ^ 32) * 2 ^ 32 + y"
    if "0 \<le> y" "y < 2 ^ 32" for x y :: int
  proof -
    have "(x * 2 ^ 32 + y) mod (2 ^ 32 * 2 ^ 32) = 2 ^ 32 * ((x * 2 ^ 32 + y) div 2 ^ 32 mod 2 ^ 32) +
        (x * 2 ^ 32 + y) mod 2 ^ 32"
      by (rule zmod_zmult2_eq) simp
    moreover have "(x * 2 ^ 32 + y) div 2 ^ 32 = x" "(x * 2 ^ 32 + y) mod 2 ^ 32 = y" using that by simp_all
    ultimately show ?thesis by simp
  qed
  show ?thesis
  proof (cases "a + s < 2 ^ 32")
    case True
    then have m: "(a + s) mod 2 ^ 32 = a + s" and c: "\<not> a + s < a" using assms by simp_all
    have e: "b * 2 ^ 32 + a + (k * 2 ^ 32 + s) = (b + k) * 2 ^ 32 + (a + s)" by simp
    have "((b + k) * 2 ^ 32 + (a + s)) mod 2 ^ 64 = ((b + k) mod 2 ^ 32) * 2 ^ 32 + (a + s)"
      by (rule split) (use assms True in simp_all)
    then show ?thesis by (simp only: m e c if_False add_0_right)
  next
    case False
    then have m: "(a + s) mod 2 ^ 32 = a + s - 2 ^ 32"
      using assms by (subst minus_mod_self2 [symmetric]) (rule mod_pos_pos_trivial, simp_all)
    have e: "b * 2 ^ 32 + a + (k * 2 ^ 32 + s) = (b + 1 + k) * 2 ^ 32 + (a + s - 2 ^ 32)" by simp
    have c: "a + s - 2 ^ 32 < a" using assms by simp
    have "((b + 1 + k) * 2 ^ 32 + (a + s - 2 ^ 32)) mod 2 ^ 64 =
        ((b + 1 + k) mod 2 ^ 32) * 2 ^ 32 + (a + s - 2 ^ 32)"
      by (rule split) (use assms False in simp_all)
    then show ?thesis by (simp only: m e c if_True)
  qed
qed

lemma count_add_64:
  assumes "count_add lo hi len = (lo', hi')"
  shows "count64 lo' hi' = count64 lo hi + 8 * len"
proof -
  let ?a = "uint lo" and ?b = "uint hi" and ?n = "uint len"
  have bounds: "0 \<le> ?a" "?a < 2 ^ 32" "0 \<le> ?b" "?b < 2 ^ 32" "0 \<le> ?n" "?n < 2 ^ 64"
    using uint_lt2p [of lo] uint_lt2p [of hi] uint_lt2p [of len] by simp_all
  have q: "uint (ucast (drop_bit 29 len) :: u32) = (?n div 2 ^ 29) mod 2 ^ 32"
    using bounds
    by (simp only: unsigned_ucast_eq unsigned_drop_bit_eq len32 len64)
      (simp add: take_bit_eq_mod drop_bit_eq_div)
  have lo': "uint lo' = (?a + (8 * ?n) mod 2 ^ 32) mod 2 ^ 32"
    using assms uint_shift3 [of len] by (auto simp: count_add_def Let_def uint_word_ariths)
  have hi': "uint hi' = (?b + (if uint lo' < ?a then 1 else 0) + (?n div 2 ^ 29) mod 2 ^ 32) mod 2 ^ 32"
    using assms q by (auto simp: count_add_def Let_def uint_word_ariths word_less_def mod_add_left_eq)
  have r: "uint (8 * len) = (8 * ?n) mod 2 ^ 64"
    by (simp add: uint_word_ariths)
  define m where "m = ?n div 2 ^ 29"
  define r where "r = ?n mod 2 ^ 29"
  have n: "?n = m * 2 ^ 29 + r" "0 \<le> r" "r < 2 ^ 29" by (simp_all add: m_def r_def)
  have low: "(8 * ?n) mod 2 ^ 32 = 8 * r" using n by simp
  have big: "(8 * ?n) mod 2 ^ 64 = (m mod 2 ^ 32) * 2 ^ 32 + 8 * r"
  proof -
    have "8 * ((q * 2 ^ 32 + k) * 2 ^ 29 + r) = q * 2 ^ 64 + (k * 2 ^ 32 + 8 * r)" for q k :: int
      by simp
    from this [of "m div 2 ^ 32" "m mod 2 ^ 32"]
    have "8 * ?n = (m div 2 ^ 32) * 2 ^ 64 + ((m mod 2 ^ 32) * 2 ^ 32 + 8 * r)"
      by (simp only: div_mult_mod_eq n(1))
    moreover have "0 \<le> (m mod 2 ^ 32) * 2 ^ 32 + 8 * r \<and> (m mod 2 ^ 32) * 2 ^ 32 + 8 * r < 2 ^ 64"
      using n(2,3) pos_mod_bound [of "2 ^ 32" m] pos_mod_sign [of "2 ^ 32" m] by simp
    ultimately show ?thesis by (simp add: mod_pos_pos_trivial)
  qed
  define k where "k = m mod 2 ^ 32"
  have k: "0 \<le> k" "k < 2 ^ 32" by (simp_all add: k_def)
  have lhs: "uint (count64 lo' hi') =
      ((?b + (if (?a + 8 * r) mod 2 ^ 32 < ?a then 1 else 0) + k) mod 2 ^ 32) * 2 ^ 32 +
      (?a + 8 * r) mod 2 ^ 32"
    by (simp only: uint_count64 hi' lo' low m_def [symmetric] k_def [symmetric])
  have rhs: "uint (count64 lo hi + 8 * len) = (?b * 2 ^ 32 + ?a + (k * 2 ^ 32 + 8 * r)) mod 2 ^ 64"
    by (simp only: uint_word_ariths(1) uint_count64 r big k_def [symmetric] len64)
  have "uint (count64 lo' hi') = uint (count64 lo hi + 8 * len)"
    unfolding lhs rhs by (rule carry_eq) (use bounds n k in simp_all)
  then show ?thesis by (simp only: word_uint_eq_iff)
qed

lemma count64_or: "count64 lo hi = push_bit 32 (ucast hi) OR ucast lo"
proof -
  have "push_bit 32 (ucast hi :: u64) AND ucast lo = 0"
    by (rule bit_word_eqI) (auto simp: bit_simps dest: bit_imp_le_length)
  then show ?thesis
    by (simp only: count64_def push_bit_eq_mult [symmetric] disjunctive_add_eq_or)
qed

lemma le_bytes_32: "le_bytes (v :: u32) =
    [ucast v, ucast (drop_bit 8 v), ucast (drop_bit 16 v), ucast (drop_bit 24 v)]"
  by (simp add: le_bytes_def upt_rec)

lemma le_bytes_count64: "le_bytes (count64 lo hi) = le_bytes lo @ le_bytes hi"
proof (rule nth_equalityI)
  fix i
  assume "i < length (le_bytes (count64 lo hi))"
  then have i: "i < 8" by simp
  show "le_bytes (count64 lo hi) ! i = (le_bytes lo @ le_bytes hi) ! i"
    by (rule bit_word_eqI)
      (use i in \<open>auto simp: nth_append nth_le_bytes count64_or bit_simps algebra_simps dest: bit_imp_le_length\<close>)
qed simp

text \<open>The rotation both transformations spell out with two shifts.\<close>

lemma word_rotl_shifts:
  fixes v :: "'a::len word"
  assumes "0 < s" "s < LENGTH('a)"
  shows "push_bit s v OR drop_bit (LENGTH('a) - s) v = word_rotl s v"
proof (rule bit_word_eqI)
  fix n
  assume n: "n < LENGTH('a)"
  show "bit (push_bit s v OR drop_bit (LENGTH('a) - s) v) n \<longleftrightarrow> bit (word_rotl s v) n"
  proof (cases "n < s")
    case True
    then have "(n + (LENGTH('a) - s)) mod LENGTH('a) = LENGTH('a) - s + n" using assms by simp
    then show ?thesis using True n assms by (simp add: bit_simps bit_word_rotl_iff)
  next
    case False
    then have "n + (LENGTH('a) - s) = (n - s) + LENGTH('a)" using assms by simp
    then have "(n + (LENGTH('a) - s)) mod LENGTH('a) = n - s" using n by (simp only: mod_add_self2) simp
    moreover have "\<not> bit v (LENGTH('a) - s + n)" using False by (auto dest: bit_imp_le_length)
    ultimately show ?thesis using False n assms by (auto simp: bit_simps bit_word_rotl_iff)
  qed
qed

lemma rotl32: "0 < s \<Longrightarrow> s < 32 \<Longrightarrow> push_bit s v OR drop_bit (32 - s) v = word_rotl s (v :: u32)"
  using word_rotl_shifts [of s v] by simp

lemma rotl64: "0 < s \<Longrightarrow> s < 64 \<Longrightarrow> push_bit s v OR drop_bit (64 - s) v = word_rotl s (v :: u64)"
  using word_rotl_shifts [of s v] by simp

text \<open>A chunk is what one call can be given: its length is a \<open>size_t\<close>.\<close>

definition chunk_fits :: "u8 list \<Rightarrow> bool" where
  "chunk_fits d \<longleftrightarrow> length d < 2 ^ 64"

lemma mem_put_start: "length m = length xs \<Longrightarrow> mem_put m 0 xs = Some xs"
  by (simp add: mem_put_def)

lemma mem_put_0: "length xs \<le> length m \<Longrightarrow> mem_put m 0 xs = Some (xs @ drop (length xs) m)"
  by (simp add: mem_put_def)

lemma mem_put_end: "off + length xs = length m \<Longrightarrow> mem_put m off xs = Some (take off m @ xs)"
  by (simp add: mem_put_def)

section \<open>The contract of a streaming context\<close>

text \<open>\<open>feed\<close> hands the chunks of a message to an update function one after the other.\<close>

fun feed :: "('s \<Rightarrow> u8 list \<Rightarrow> 's option) \<Rightarrow> 's \<Rightarrow> u8 list list \<Rightarrow> 's option" where
  "feed upd s [] = Some s"
| "feed upd s (d # ds) = do { s \<leftarrow> upd s d; feed upd s ds }"

text \<open>A context has absorbed a prefix of the message: \<open>chain\<close> is the chaining value, \<open>pending\<close> the
  bytes of the unfinished block, \<open>total\<close> the number of bits so far.\<close>

locale streaming_hash =
  fixes good :: "'s \<Rightarrow> bool" and chain :: "'s \<Rightarrow> 'h" and pending :: "'s \<Rightarrow> u8 list"
    and total :: "'s \<Rightarrow> u64" and fits :: "u8 list \<Rightarrow> bool"
    and compress :: "'h \<Rightarrow> u8 list \<Rightarrow> 'h" and upd :: "'s \<Rightarrow> u8 list \<Rightarrow> 's option"
  assumes upd_law: "good s \<Longrightarrow> fits d \<Longrightarrow> \<exists>s'. upd s d = Some s' \<and> good s' \<and>
      (chain s', pending s') = absorb compress (chain s) (pending s @ d) \<and>
      total s' = total s + of_nat (8 * length d)"
    and pending_law: "good s \<Longrightarrow> length (pending s) < 64"
begin

lemma feed_concat:
  assumes "good s" and "\<forall>d \<in> set ds. fits d"
  shows "\<exists>s'. feed upd s ds = Some s' \<and> good s' \<and>
      (chain s', pending s') = absorb compress (chain s) (pending s @ concat ds) \<and>
      total s' = total s + of_nat (8 * length (concat ds))"
  using assms
proof (induction ds arbitrary: s)
  case Nil
  then show ?case using pending_law [of s] by (simp add: absorb_short)
next
  case (Cons d ds)
  then obtain s1 where s1: "upd s d = Some s1" "good s1"
      "(chain s1, pending s1) = absorb compress (chain s) (pending s @ d)"
      "total s1 = total s + of_nat (8 * length d)"
    using upd_law [of s d] by auto
  obtain s2 where s2: "feed upd s1 ds = Some s2" "good s2"
      "(chain s2, pending s2) = absorb compress (chain s1) (pending s1 @ concat ds)"
      "total s2 = total s1 + of_nat (8 * length (concat ds))"
    using Cons.IH [OF s1(2)] Cons.prems(2) by auto
  have "absorb compress (chain s) (pending s @ concat (d # ds)) =
      absorb compress (chain s1) (pending s1 @ concat ds)"
    using absorb_append [of compress "chain s" "pending s @ d" "concat ds"] s1(3) [symmetric] by simp
  then show ?case using s1 s2 by (simp add: algebra_simps)
qed

end

text \<open>A digest adds the initial context and the last call: \<open>fin\<close> pads what is pending with a one bit,
  zeros and the bit count.\<close>

locale streaming_digest = streaming_hash +
  fixes starts :: "'s \<Rightarrow> bool" and iv :: 'h and enc :: "u64 \<Rightarrow> u8 list" and out :: "'h \<Rightarrow> u8 list"
    and fin :: "'s \<Rightarrow> (u8 list \<times> 's) option"
  assumes start_law: "starts s \<Longrightarrow> good s \<and> chain s = iv \<and> pending s = [] \<and> total s = 0"
    and fin_law: "good s \<Longrightarrow> \<exists>s'. fin s = Some (out (fst (absorb compress (chain s)
      (pending s @ 0x80 # replicate (pad_zeros (length (pending s))) 0 @ enc (total s)))), s')"
begin

lemma digest_concat:
  assumes "starts s0" and "\<forall>d \<in> set ds. fits d"
  shows "map_option fst (feed upd s0 ds \<bind> fin) = Some (md_digest compress iv enc out (concat ds))"
proof -
  let ?m = "concat ds"
  obtain s where s: "feed upd s0 ds = Some s" "good s"
      "(chain s, pending s) = absorb compress iv ?m" "total s = of_nat (8 * length ?m)"
    using feed_concat [OF _ assms(2), of s0] start_law [OF assms(1)] by auto
  obtain s' where "fin s = Some (out (fst (absorb compress (chain s)
      (pending s @ 0x80 # replicate (pad_zeros (length (pending s))) 0 @ enc (total s)))), s')"
    using fin_law [OF s(2)] by blast
  moreover have "pad_zeros (length (pending s)) = pad_zeros (length ?m)"
    using absorb_rest [of compress iv ?m] s(3) [symmetric] pad_zeros_mod by simp
  moreover have "absorb compress iv (?m @ t) = absorb compress (chain s) (pending s @ t)" for t
    using absorb_append [of compress iv ?m t] s(3) [symmetric] by simp
  ultimately show ?thesis using s(1,4) by (simp add: md_digest_def md_pad_def)
qed

end

end
