(* ===== verification/Coter_Sine.thy ===== *)
theory Coter_Sine
  imports Complex_Main Coter_Digest
begin

text \<open>
  The additive constants of MD5.  RFC 1321 defines them by the sine function: the \<open>i\<close>-th is the
  integer part of \<open>2 ^ 32\<close> times \<open>\<bar>sin i\<bar>\<close>, with \<open>i\<close> in radians, from 1 to 64.  This theory computes
  them with a proof: \<open>sin 1\<close> and \<open>cos 1\<close> are bounded by their Maclaurin polynomials, the addition
  theorem takes them to \<open>sin i\<close> and \<open>cos i\<close> in fixed point with 112 fractional bits, and the error,
  which at most doubles in each step, stays far below the distance of each product to an integer.
\<close>

definition md5_sine :: "nat \<Rightarrow> int" where
  "md5_sine i = \<lfloor>2 ^ 32 * \<bar>sin (real (i + 1))\<bar>\<rfloor>"

section \<open>The starting point\<close>

definition fix_one :: int where
  "fix_one = 5192296858534827628530496329220096"

definition fix_sin :: int where
  "fix_sin = 4369167150966248696362992495346959"

definition fix_cos :: int where
  "fix_cos = 2805409965418265417902907108845682"

text \<open>From a polynomial to its rounded value.\<close>

lemma round_one:
  fixes x s :: real
  assumes "\<bar>x - s\<bar> \<le> inverse (fact 36)" and "\<bar>real_of_int fix_one * s - p\<bar> \<le> 1 / 2"
  shows "\<bar>real_of_int fix_one * x - p\<bar> \<le> 1"
proof -
  have "\<bar>real_of_int fix_one * (x - s)\<bar> \<le> real_of_int fix_one * inverse (fact 36)"
    unfolding abs_mult using assms(1) by (intro mult_mono) (simp_all add: fix_one_def)
  also have "\<dots> \<le> 1 / 2" by (simp add: fix_one_def fact_numeral)
  finally show ?thesis using assms(2) unfolding right_diff_distrib by linarith
qed

lemma sin_one: "\<bar>real_of_int fix_one * sin 1 - of_int fix_sin\<bar> \<le> 1"
proof (rule round_one)
  show "\<bar>sin 1 - (\<Sum>m<36. sin_coeff m * 1 ^ m)\<bar> \<le> inverse (fact 36 :: real)"
    using Maclaurin_sin_bound [of 1 36] by simp
  show "\<bar>real_of_int fix_one * (\<Sum>m<36. sin_coeff m * 1 ^ m) - of_int fix_sin\<bar> \<le> 1 / 2"
    by (simp add: fix_one_def fix_sin_def sin_coeff_def lessThan_nat_numeral fact_numeral)
qed

lemma remainder_bound:
  fixes c s r f :: real
  assumes "c = s + r / f * 1 ^ n" and "\<bar>r\<bar> \<le> 1" and "0 < f"
  shows "\<bar>c - s\<bar> \<le> inverse f"
  using assms by (simp add: divide_inverse abs_mult)

lemma cos_one: "\<bar>real_of_int fix_one * cos 1 - of_int fix_cos\<bar> \<le> 1"
proof (rule round_one)
  obtain t :: real where "cos 1 = (\<Sum>m<36. cos_coeff m * 1 ^ m) + cos (t + 1 / 2 * real 36 * pi) / fact 36 * 1 ^ 36"
    using Maclaurin_cos_expansion [of 1 36] by (elim exE conjE) (rule that)
  from this abs_cos_le_one show "\<bar>cos 1 - (\<Sum>m<36. cos_coeff m * 1 ^ m)\<bar> \<le> inverse (fact 36 :: real)"
    by (rule remainder_bound) simp
  show "\<bar>real_of_int fix_one * (\<Sum>m<36. cos_coeff m * 1 ^ m) - of_int fix_cos\<bar> \<le> 1 / 2"
    by (simp add: fix_one_def fix_cos_def cos_coeff_def lessThan_nat_numeral fact_numeral)
qed

section \<open>The addition theorem in fixed point\<close>

fun fix_trig :: "nat \<Rightarrow> int \<times> int" where
  "fix_trig 0 = (fix_sin, fix_cos)"
| "fix_trig (Suc i) =
     (let (a, b) = fix_trig i
      in ((a * fix_cos + b * fix_sin) div fix_one, (b * fix_cos - a * fix_sin) div fix_one))"

text \<open>A product of two approximations, and dropping its fraction.\<close>

lemma mult_error:
  fixes X Y N e :: real
  assumes "\<bar>X - a\<bar> \<le> e" "\<bar>Y - q\<bar> \<le> 1" "\<bar>X\<bar> \<le> N" "\<bar>q\<bar> \<le> N"
  shows "\<bar>X * Y - a * q\<bar> \<le> N * (1 + e)"
proof -
  have "X * Y - a * q = X * (Y - q) + (X - a) * q" by (simp add: algebra_simps)
  then have "\<bar>X * Y - a * q\<bar> \<le> \<bar>X\<bar> * \<bar>Y - q\<bar> + \<bar>X - a\<bar> * \<bar>q\<bar>"
    by (metis abs_mult abs_triangle_ineq)
  also have "\<dots> \<le> N * 1 + e * N"
    using assms by (intro add_mono mult_mono) simp_all
  finally show ?thesis by (simp add: algebra_simps)
qed

lemma div_error:
  fixes Z :: real
  assumes N: "0 < (N :: int)" and z: "\<bar>of_int N * Z - of_int u\<bar> \<le> of_int N * d"
  shows "\<bar>Z - of_int (u div N)\<bar> \<le> d + 1"
proof -
  have "u = u div N * N + u mod N" by simp
  then have u: "real_of_int u = of_int (u div N) * of_int N + of_int (u mod N)"
    by (metis of_int_add of_int_mult)
  have m: "0 \<le> real_of_int (u mod N)" "real_of_int (u mod N) \<le> of_int N"
    using N pos_mod_bound [OF N, of u] by (simp_all add: less_imp_le)
  have "of_int N * (Z - of_int (u div N)) = (of_int N * Z - of_int u) + of_int (u mod N)"
    using u by (simp add: algebra_simps)
  then have "\<bar>of_int N * (Z - of_int (u div N))\<bar> \<le> of_int N * d + of_int N"
    using z m by linarith
  moreover have "\<bar>of_int N * (Z - of_int (u div N))\<bar> = of_int N * \<bar>Z - of_int (u div N)\<bar>"
    using N by (simp add: abs_mult)
  ultimately have "of_int N * \<bar>Z - of_int (u div N)\<bar> \<le> of_int N * (d + 1)"
    by (simp only: distrib_left mult_1_right)
  then show ?thesis using N by simp
qed

lemma trig_step:
  fixes x e :: real
  assumes sa: "\<bar>real_of_int fix_one * sin x - of_int a\<bar> \<le> e"
    and cb: "\<bar>real_of_int fix_one * cos x - of_int b\<bar> \<le> e"
  shows "\<bar>real_of_int fix_one * sin (x + 1) - of_int ((a * fix_cos + b * fix_sin) div fix_one)\<bar> \<le> 2 * e + 3"
    and "\<bar>real_of_int fix_one * cos (x + 1) - of_int ((b * fix_cos - a * fix_sin) div fix_one)\<bar> \<le> 2 * e + 3"
proof -
  let ?N = "real_of_int fix_one"
  have N: "0 < fix_one" "\<bar>real_of_int fix_sin\<bar> \<le> ?N" "\<bar>real_of_int fix_cos\<bar> \<le> ?N"
    by (simp_all add: fix_one_def fix_sin_def fix_cos_def)
  have X: "\<bar>?N * sin x\<bar> \<le> ?N" "\<bar>?N * cos x\<bar> \<le> ?N"
    using N(1) abs_sin_le_one [of x] abs_cos_le_one [of x] by (simp_all add: abs_mult)
  note m = mult_error [OF sa cos_one X(1) N(3)] mult_error [OF cb sin_one X(2) N(2)]
    mult_error [OF cb cos_one X(2) N(3)] mult_error [OF sa sin_one X(1) N(2)]
  have "?N * (?N * sin (x + 1)) = ?N * sin x * (?N * cos 1) + ?N * cos x * (?N * sin 1)"
    "?N * (?N * cos (x + 1)) = ?N * cos x * (?N * cos 1) - ?N * sin x * (?N * sin 1)"
    by (simp_all add: sin_add cos_add algebra_simps)
  then have "\<bar>?N * (?N * sin (x + 1)) - of_int (a * fix_cos + b * fix_sin)\<bar> \<le> ?N * (1 + e) + ?N * (1 + e)"
    "\<bar>?N * (?N * cos (x + 1)) - of_int (b * fix_cos - a * fix_sin)\<bar> \<le> ?N * (1 + e) + ?N * (1 + e)"
    using m unfolding of_int_add of_int_diff of_int_mult by linarith+
  then have d: "\<bar>?N * (?N * sin (x + 1)) - of_int (a * fix_cos + b * fix_sin)\<bar> \<le> ?N * (2 * e + 2)"
    "\<bar>?N * (?N * cos (x + 1)) - of_int (b * fix_cos - a * fix_sin)\<bar> \<le> ?N * (2 * e + 2)"
    by (simp_all add: algebra_simps)
  show "\<bar>?N * sin (x + 1) - of_int ((a * fix_cos + b * fix_sin) div fix_one)\<bar> \<le> 2 * e + 3"
    using div_error [OF N(1) d(1)] by simp
  show "\<bar>?N * cos (x + 1) - of_int ((b * fix_cos - a * fix_sin) div fix_one)\<bar> \<le> 2 * e + 3"
    using div_error [OF N(1) d(2)] by simp
qed

lemma fix_trig_error:
  "\<bar>real_of_int fix_one * sin (real (i + 1)) - of_int (fst (fix_trig i))\<bar> \<le> 2 ^ (i + 2) - 3 \<and>
   \<bar>real_of_int fix_one * cos (real (i + 1)) - of_int (snd (fix_trig i))\<bar> \<le> 2 ^ (i + 2) - 3"
proof (induction i)
  case 0
  then show ?case using sin_one cos_one by simp
next
  case (Suc i)
  obtain a b where ab: "fix_trig i = (a, b)" by fastforce
  have x: "real (Suc i + 1) = real (i + 1) + 1" by simp
  have e: "2 ^ (Suc i + 2) - 3 = 2 * (2 ^ (i + 2) - 3) + (3 :: real)" by simp
  from Suc ab show ?case
    unfolding x e by (simp only: fix_trig.simps Let_def prod.case fst_conv snd_conv trig_step simp_thms)
qed

section \<open>The table\<close>

lemma md5_sine_fix:
  assumes "t * fix_one \<le> 2 ^ 32 * (\<bar>fst (fix_trig i)\<bar> - 2 ^ (i + 2))"
    and "2 ^ 32 * (\<bar>fst (fix_trig i)\<bar> + 2 ^ (i + 2)) < (t + 1) * fix_one"
  shows "md5_sine i = t"
proof -
  let ?N = "real_of_int fix_one" and ?a = "real_of_int \<bar>fst (fix_trig i)\<bar>" and ?s = "\<bar>sin (real (i + 1))\<bar>"
  have N: "0 < ?N" by (simp add: fix_one_def)
  have "\<bar>?N * sin (real (i + 1)) - of_int (fst (fix_trig i))\<bar> \<le> 2 ^ (i + 2)"
    using fix_trig_error [of i] by linarith
  then have "\<bar>?N * ?s - ?a\<bar> \<le> 2 ^ (i + 2)"
    using abs_triangle_ineq3 [of "?N * sin (real (i + 1))" "of_int (fst (fix_trig i))"] N
    by (simp add: abs_mult)
  then have lo: "?a - 2 ^ (i + 2) \<le> ?N * ?s" and hi: "?N * ?s \<le> ?a + 2 ^ (i + 2)" by linarith+
  have t: "real_of_int t * ?N \<le> 2 ^ 32 * (?a - 2 ^ (i + 2))"
    "2 ^ 32 * (?a + 2 ^ (i + 2)) < (real_of_int t + 1) * ?N"
  proof -
    have "real_of_int (t * fix_one) \<le> of_int (2 ^ 32 * (\<bar>fst (fix_trig i)\<bar> - 2 ^ (i + 2)))"
      "real_of_int (2 ^ 32 * (\<bar>fst (fix_trig i)\<bar> + 2 ^ (i + 2))) < of_int ((t + 1) * fix_one)"
      using assms by (simp_all only: of_int_le_iff of_int_less_iff)
    then show "real_of_int t * ?N \<le> 2 ^ 32 * (?a - 2 ^ (i + 2))"
      "2 ^ 32 * (?a + 2 ^ (i + 2)) < (real_of_int t + 1) * ?N" by simp_all
  qed
  have "real_of_int t * ?N \<le> 2 ^ 32 * (?N * ?s)"
    by (rule order_trans [OF t(1)]) (use lo in simp)
  then have "of_int t \<le> 2 ^ 32 * ?s" using N by (simp add: mult.left_commute [of _ ?N] mult.commute [of _ ?N])
  moreover have "2 ^ 32 * (?N * ?s) < (real_of_int t + 1) * ?N"
    by (rule le_less_trans [OF _ t(2)]) (use hi in simp)
  then have "2 ^ 32 * ?s < of_int t + 1" using N by (simp add: mult.left_commute [of _ ?N] mult.commute [of _ ?N])
  ultimately show ?thesis unfolding md5_sine_def by (rule floor_unique)
qed

text \<open>One line of the computation checks one constant; \<open>e\<close> bounds the error.\<close>

fun sine_check :: "int \<Rightarrow> int \<Rightarrow> int \<Rightarrow> int list \<Rightarrow> bool" where
  "sine_check e a b [] \<longleftrightarrow> True"
| "sine_check e a b (t # ts) \<longleftrightarrow>
     t * fix_one \<le> 2 ^ 32 * (\<bar>a\<bar> - e) \<and> 2 ^ 32 * (\<bar>a\<bar> + e) < (t + 1) * fix_one \<and>
     sine_check (2 * e) ((a * fix_cos + b * fix_sin) div fix_one) ((b * fix_cos - a * fix_sin) div fix_one) ts"

lemma sine_check_table:
  "fix_trig i = (a, b) \<Longrightarrow> sine_check (2 ^ (i + 2)) a b ts \<Longrightarrow> map md5_sine [i..<i + length ts] = ts"
proof (induction ts arbitrary: i a b)
  case (Cons t ts)
  have "md5_sine i = t" using Cons.prems by (intro md5_sine_fix) simp_all
  moreover have "fix_trig (Suc i) = ((a * fix_cos + b * fix_sin) div fix_one, (b * fix_cos - a * fix_sin) div fix_one)"
    using Cons.prems(1) by simp
  from Cons.IH [OF this] Cons.prems(2) have "map md5_sine [Suc i..<Suc i + length ts] = ts" by simp
  moreover have "[i..<i + length (t # ts)] = i # [Suc i..<Suc i + length ts]" by (simp add: upt_rec)
  ultimately show ?case by simp
qed simp

definition md5_constants :: "int list" where
  "md5_constants = [
    0xd76aa478, 0xe8c7b756, 0x242070db, 0xc1bdceee, 0xf57c0faf, 0x4787c62a,
    0xa8304613, 0xfd469501, 0x698098d8, 0x8b44f7af, 0xffff5bb1, 0x895cd7be,
    0x6b901122, 0xfd987193, 0xa679438e, 0x49b40821, 0xf61e2562, 0xc040b340,
    0x265e5a51, 0xe9b6c7aa, 0xd62f105d, 0x02441453, 0xd8a1e681, 0xe7d3fbc8,
    0x21e1cde6, 0xc33707d6, 0xf4d50d87, 0x455a14ed, 0xa9e3e905, 0xfcefa3f8,
    0x676f02d9, 0x8d2a4c8a, 0xfffa3942, 0x8771f681, 0x6d9d6122, 0xfde5380c,
    0xa4beea44, 0x4bdecfa9, 0xf6bb4b60, 0xbebfbc70, 0x289b7ec6, 0xeaa127fa,
    0xd4ef3085, 0x04881d05, 0xd9d4d039, 0xe6db99e5, 0x1fa27cf8, 0xc4ac5665,
    0xf4292244, 0x432aff97, 0xab9423a7, 0xfc93a039, 0x655b59c3, 0x8f0ccc92,
    0xffeff47d, 0x85845dd1, 0x6fa87e4f, 0xfe2ce6e0, 0xa3014314, 0x4e0811a1,
    0xf7537e82, 0xbd3af235, 0x2ad7d2bb, 0xeb86d391]"

lemma md5_constants_check: "sine_check 4 fix_sin fix_cos md5_constants"
  by code_simp

lemma md5_sine_table: "map md5_sine [0..<64] = md5_constants"
proof -
  have "length md5_constants = 64" by (simp add: md5_constants_def)
  then show ?thesis using sine_check_table [of 0, OF _ _] md5_constants_check by fastforce
qed

end
