(* ===== verification/Coter_Md5.thy ===== *)
theory Coter_Md5
  imports Coter_Digest Coter_Sine
begin

text \<open>
  \<open>crypto/md5.h\<close>, \<open>crypto/src/md5.c\<close>: the MD5 context, its 64 unrolled steps and the streaming
  interface.  The context's arrays are lists (\<open>buf_\<close> of 4 words, \<open>in_\<close> of 64 bytes); writes to
  \<open>in_\<close> are checked.  The local variables \<open>a\<close>, \<open>b\<close>, \<open>c\<close>, \<open>d\<close> of \<open>md5_transform\<close> are a register
  file, so that each source line \<open>MD5STEP(f, w, x, y, z, in[k] + t, s)\<close> is one row of
  \<open>md5_steps\<close>.
\<close>

section \<open>The transformation\<close>

definition md5_load_le32 :: "u8 list \<Rightarrow> nat \<Rightarrow> u32" where
  "md5_load_le32 m p = ucast (m ! p) OR push_bit 8 (ucast (m ! (p + 1))) OR
     push_bit 16 (ucast (m ! (p + 2))) OR push_bit 24 (ucast (m ! (p + 3)))"

definition md5_store_le32 :: "u8 list \<Rightarrow> nat \<Rightarrow> u32 \<Rightarrow> u8 list option" where
  "md5_store_le32 m p v =
     mem_put m p [ucast v, ucast (drop_bit 8 v), ucast (drop_bit 16 v), ucast (drop_bit 24 v)]"

datatype md5_reg = RA | RB | RC | RD

definition F1 :: "u32 \<Rightarrow> u32 \<Rightarrow> u32 \<Rightarrow> u32" where
  "F1 x y z = z XOR (x AND (y XOR z))"

definition F2 :: "u32 \<Rightarrow> u32 \<Rightarrow> u32 \<Rightarrow> u32" where
  "F2 x y z = F1 z x y"

definition F3 :: "u32 \<Rightarrow> u32 \<Rightarrow> u32 \<Rightarrow> u32" where
  "F3 x y z = x XOR y XOR z"

definition F4 :: "u32 \<Rightarrow> u32 \<Rightarrow> u32 \<Rightarrow> u32" where
  "F4 x y z = y XOR (x OR NOT z)"

definition MD5STEP ::
  "(u32 \<Rightarrow> u32 \<Rightarrow> u32 \<Rightarrow> u32) \<Rightarrow> md5_reg \<Rightarrow> md5_reg \<Rightarrow> md5_reg \<Rightarrow> md5_reg \<Rightarrow> u32 \<Rightarrow> nat \<Rightarrow>
   (md5_reg \<Rightarrow> u32) \<Rightarrow> (md5_reg \<Rightarrow> u32)" where
  "MD5STEP f w x y z data s r =
     (let r = r(w := r w + (f (r x) (r y) (r z) + data));
          r = r(w := push_bit s (r w) OR drop_bit (32 - s) (r w))
      in r(w := r w + r x))"

definition md5_steps ::
  "((u32 \<Rightarrow> u32 \<Rightarrow> u32 \<Rightarrow> u32) \<times> md5_reg \<times> md5_reg \<times> md5_reg \<times> md5_reg \<times> nat \<times> u32 \<times> nat) list" where
  "md5_steps = [
    (F1, RA, RB, RC, RD, 0, 0xd76aa478, 7),
    (F1, RD, RA, RB, RC, 1, 0xe8c7b756, 12),
    (F1, RC, RD, RA, RB, 2, 0x242070db, 17),
    (F1, RB, RC, RD, RA, 3, 0xc1bdceee, 22),
    (F1, RA, RB, RC, RD, 4, 0xf57c0faf, 7),
    (F1, RD, RA, RB, RC, 5, 0x4787c62a, 12),
    (F1, RC, RD, RA, RB, 6, 0xa8304613, 17),
    (F1, RB, RC, RD, RA, 7, 0xfd469501, 22),
    (F1, RA, RB, RC, RD, 8, 0x698098d8, 7),
    (F1, RD, RA, RB, RC, 9, 0x8b44f7af, 12),
    (F1, RC, RD, RA, RB, 10, 0xffff5bb1, 17),
    (F1, RB, RC, RD, RA, 11, 0x895cd7be, 22),
    (F1, RA, RB, RC, RD, 12, 0x6b901122, 7),
    (F1, RD, RA, RB, RC, 13, 0xfd987193, 12),
    (F1, RC, RD, RA, RB, 14, 0xa679438e, 17),
    (F1, RB, RC, RD, RA, 15, 0x49b40821, 22),
    (F2, RA, RB, RC, RD, 1, 0xf61e2562, 5),
    (F2, RD, RA, RB, RC, 6, 0xc040b340, 9),
    (F2, RC, RD, RA, RB, 11, 0x265e5a51, 14),
    (F2, RB, RC, RD, RA, 0, 0xe9b6c7aa, 20),
    (F2, RA, RB, RC, RD, 5, 0xd62f105d, 5),
    (F2, RD, RA, RB, RC, 10, 0x02441453, 9),
    (F2, RC, RD, RA, RB, 15, 0xd8a1e681, 14),
    (F2, RB, RC, RD, RA, 4, 0xe7d3fbc8, 20),
    (F2, RA, RB, RC, RD, 9, 0x21e1cde6, 5),
    (F2, RD, RA, RB, RC, 14, 0xc33707d6, 9),
    (F2, RC, RD, RA, RB, 3, 0xf4d50d87, 14),
    (F2, RB, RC, RD, RA, 8, 0x455a14ed, 20),
    (F2, RA, RB, RC, RD, 13, 0xa9e3e905, 5),
    (F2, RD, RA, RB, RC, 2, 0xfcefa3f8, 9),
    (F2, RC, RD, RA, RB, 7, 0x676f02d9, 14),
    (F2, RB, RC, RD, RA, 12, 0x8d2a4c8a, 20),
    (F3, RA, RB, RC, RD, 5, 0xfffa3942, 4),
    (F3, RD, RA, RB, RC, 8, 0x8771f681, 11),
    (F3, RC, RD, RA, RB, 11, 0x6d9d6122, 16),
    (F3, RB, RC, RD, RA, 14, 0xfde5380c, 23),
    (F3, RA, RB, RC, RD, 1, 0xa4beea44, 4),
    (F3, RD, RA, RB, RC, 4, 0x4bdecfa9, 11),
    (F3, RC, RD, RA, RB, 7, 0xf6bb4b60, 16),
    (F3, RB, RC, RD, RA, 10, 0xbebfbc70, 23),
    (F3, RA, RB, RC, RD, 13, 0x289b7ec6, 4),
    (F3, RD, RA, RB, RC, 0, 0xeaa127fa, 11),
    (F3, RC, RD, RA, RB, 3, 0xd4ef3085, 16),
    (F3, RB, RC, RD, RA, 6, 0x04881d05, 23),
    (F3, RA, RB, RC, RD, 9, 0xd9d4d039, 4),
    (F3, RD, RA, RB, RC, 12, 0xe6db99e5, 11),
    (F3, RC, RD, RA, RB, 15, 0x1fa27cf8, 16),
    (F3, RB, RC, RD, RA, 2, 0xc4ac5665, 23),
    (F4, RA, RB, RC, RD, 0, 0xf4292244, 6),
    (F4, RD, RA, RB, RC, 7, 0x432aff97, 10),
    (F4, RC, RD, RA, RB, 14, 0xab9423a7, 15),
    (F4, RB, RC, RD, RA, 5, 0xfc93a039, 21),
    (F4, RA, RB, RC, RD, 12, 0x655b59c3, 6),
    (F4, RD, RA, RB, RC, 3, 0x8f0ccc92, 10),
    (F4, RC, RD, RA, RB, 10, 0xffeff47d, 15),
    (F4, RB, RC, RD, RA, 1, 0x85845dd1, 21),
    (F4, RA, RB, RC, RD, 8, 0x6fa87e4f, 6),
    (F4, RD, RA, RB, RC, 15, 0xfe2ce6e0, 10),
    (F4, RC, RD, RA, RB, 6, 0xa3014314, 15),
    (F4, RB, RC, RD, RA, 13, 0x4e0811a1, 21),
    (F4, RA, RB, RC, RD, 4, 0xf7537e82, 6),
    (F4, RD, RA, RB, RC, 11, 0xbd3af235, 10),
    (F4, RC, RD, RA, RB, 2, 0x2ad7d2bb, 15),
    (F4, RB, RC, RD, RA, 9, 0xeb86d391, 21)
  ]"

definition md5_transform :: "u32 list \<Rightarrow> u8 list \<Rightarrow> u32 list" where
  "md5_transform buf block =
     (let inw = map (\<lambda>i. md5_load_le32 block (i * 4)) [0..<16];
          r = (\<lambda>_. 0)(RA := buf ! 0, RB := buf ! 1, RC := buf ! 2, RD := buf ! 3);
          r = fold (\<lambda>(f, w, x, y, z, k, t, s). MD5STEP f w x y z (inw ! k + t) s) md5_steps r
      in [buf ! 0 + r RA, buf ! 1 + r RB, buf ! 2 + r RC, buf ! 3 + r RD])"

section \<open>The context\<close>

record ct_md5_ctx =
  md5_buf :: "u32 list"
  md5_bits0 :: u32
  md5_bits1 :: u32
  md5_in :: "u8 list"

definition CT_MD5_CTX_INIT :: ct_md5_ctx where
  "CT_MD5_CTX_INIT = \<lparr>md5_buf = [0x67452301, 0xefcdab89, 0x98badcfe, 0x10325476],
     md5_bits0 = 0, md5_bits1 = 0, md5_in = replicate 64 0\<rparr>"

definition ct_md5_init :: "ct_md5_ctx \<Rightarrow> ct_md5_ctx" where
  "ct_md5_init self = \<lparr>md5_buf = [0x67452301, 0xefcdab89, 0x98badcfe, 0x10325476],
     md5_bits0 = 0, md5_bits1 = 0, md5_in = replicate 64 0\<rparr>"

text \<open>The loop over the full blocks of the input and the copy of what is left.\<close>

function md5_blocks :: "ct_md5_ctx \<Rightarrow> u8 list \<Rightarrow> ct_md5_ctx option" where
  "md5_blocks self buf =
     (if length buf \<ge> 64 then do {
        blk \<leftarrow> mem_put (md5_in self) 0 (take 64 buf);
        md5_blocks (self\<lparr>md5_in := blk, md5_buf := md5_transform (md5_buf self) blk\<rparr>) (drop 64 buf) }
      else do {
        blk \<leftarrow> mem_put (md5_in self) 0 buf;
        Some (self\<lparr>md5_in := blk\<rparr>) })"
  by auto
termination by (relation "measure (\<lambda>(self, buf). length buf)") auto

declare md5_blocks.simps [simp del]

definition ct_md5_update :: "ct_md5_ctx \<Rightarrow> u8 list \<Rightarrow> ct_md5_ctx option" where
  "ct_md5_update self buf =
     (let t = md5_bits0 self;
          (lo, hi) = count_add t (md5_bits1 self) (of_nat (length buf));
          self = self\<lparr>md5_bits0 := lo, md5_bits1 := hi\<rparr>;
          t = block_pos t
      in if t \<noteq> 0 then
           (let p = t; t = 64 - t in
            if length buf < t then do {
              blk \<leftarrow> mem_put (md5_in self) p buf;
              Some (self\<lparr>md5_in := blk\<rparr>) }
            else do {
              blk \<leftarrow> mem_put (md5_in self) p (take t buf);
              md5_blocks (self\<lparr>md5_in := blk, md5_buf := md5_transform (md5_buf self) blk\<rparr>)
                (drop t buf) })
         else md5_blocks self buf)"

definition ct_md5_final :: "ct_md5_ctx \<Rightarrow> (u8 list \<times> ct_md5_ctx) option" where
  "ct_md5_final self = do {
     let count = block_pos (md5_bits0 self);
     blk \<leftarrow> mem_put (md5_in self) count [0x80];
     let p = count + 1;
     let count = 64 - 1 - count;
     self \<leftarrow> (if count < 8 then do {
                blk \<leftarrow> mem_put blk p (replicate count 0);
                let self = self\<lparr>md5_buf := md5_transform (md5_buf self) blk\<rparr>;
                blk \<leftarrow> mem_put blk 0 (replicate 56 0);
                Some (self\<lparr>md5_in := blk\<rparr>) }
              else do {
                blk \<leftarrow> mem_put blk p (replicate (count - 8) 0);
                Some (self\<lparr>md5_in := blk\<rparr>) });
     blk \<leftarrow> md5_store_le32 (md5_in self) 56 (md5_bits0 self);
     blk \<leftarrow> md5_store_le32 blk 60 (md5_bits1 self);
     let self = self\<lparr>md5_in := blk, md5_buf := md5_transform (md5_buf self) blk\<rparr>;
     digest \<leftarrow> md5_store_le32 (replicate 16 0) 0 (md5_buf self ! 0);
     digest \<leftarrow> md5_store_le32 digest 4 (md5_buf self ! 1);
     digest \<leftarrow> md5_store_le32 digest 8 (md5_buf self ! 2);
     digest \<leftarrow> md5_store_le32 digest 12 (md5_buf self ! 3);
     Some (digest, ct_md5_init self) }"

definition ct_md5_sum :: "u8 list \<Rightarrow> u8 list option" where
  "ct_md5_sum data = do {
     let ctx = CT_MD5_CTX_INIT;
     ctx \<leftarrow> ct_md5_update (ct_md5_init ctx) data;
     (digest, ctx) \<leftarrow> ct_md5_final ctx;
     Some digest }"

section \<open>The streaming contract\<close>

definition md5_good :: "ct_md5_ctx \<Rightarrow> bool" where
  "md5_good c \<longleftrightarrow> length (md5_in c) = 64"

definition md5_pending :: "ct_md5_ctx \<Rightarrow> u8 list" where
  "md5_pending c = take (block_pos (md5_bits0 c)) (md5_in c)"

definition md5_total :: "ct_md5_ctx \<Rightarrow> u64" where
  "md5_total c = count64 (md5_bits0 c) (md5_bits1 c)"

definition md5_out :: "u32 list \<Rightarrow> u8 list" where
  "md5_out h = le_bytes (h ! 0) @ le_bytes (h ! 1) @ le_bytes (h ! 2) @ le_bytes (h ! 3)"

lemma md5_blocks_absorb:
  assumes "length (md5_in c) = 64"
  shows "\<exists>m. md5_blocks c d =
      Some (c\<lparr>md5_buf := fst (absorb md5_transform (md5_buf c) d), md5_in := m\<rparr>) \<and>
      length m = 64 \<and> take (length d mod 64) m = snd (absorb md5_transform (md5_buf c) d)"
  using assms
proof (induction c d rule: md5_blocks.induct)
  case (1 c d)
  show ?case
  proof (cases "64 \<le> length d")
    case True
    let ?c = "c\<lparr>md5_in := take 64 d, md5_buf := md5_transform (md5_buf c) (take 64 d)\<rparr>"
    have put: "mem_put (md5_in c) 0 (take 64 d) = Some (take 64 d)"
      using True 1(2) by (simp add: mem_put_start)
    then have "md5_blocks c d = md5_blocks ?c (drop 64 d)"
      using True by (subst md5_blocks.simps) simp
    moreover obtain m where "md5_blocks ?c (drop 64 d) =
        Some (?c\<lparr>md5_buf := fst (absorb md5_transform (md5_buf ?c) (drop 64 d)), md5_in := m\<rparr>)"
        "length m = 64" "take (length (drop 64 d) mod 64) m = snd (absorb md5_transform (md5_buf ?c) (drop 64 d))"
      using 1(1) [OF True put] True by auto
    moreover have "length (drop 64 d) mod 64 = length d mod 64" using True by (simp add: le_mod_geq)
    ultimately show ?thesis using True by (intro exI [of _ m]) (simp add: absorb_long)
  next
    case False
    then show ?thesis using 1(2)
      by (subst md5_blocks.simps)
        (auto simp: absorb_short mem_put_0 intro!: exI [of _ "d @ drop (length d) (md5_in c)"])
  qed
qed

lemma md5_update_law:
  assumes "md5_good c" and "chunk_fits d"
  shows "\<exists>c'. ct_md5_update c d = Some c' \<and> md5_good c' \<and>
      (md5_buf c', md5_pending c') = absorb md5_transform (md5_buf c) (md5_pending c @ d) \<and>
      md5_total c' = md5_total c + of_nat (8 * length d)"
proof -
  obtain lo hi where ca: "count_add (md5_bits0 c) (md5_bits1 c) (of_nat (length d)) = (lo, hi)"
    by fastforce
  have len: "unat (of_nat (length d) :: size_t) = length d"
    using assms(2) by (intro unat_of_nat_lt) (simp add: chunk_fits_def)
  let ?p = "block_pos (md5_bits0 c)"
  have p: "?p < 64" by (rule block_pos_lt)
  have pos: "block_pos lo = (?p + length d) mod 64"
    using block_pos_add [of "md5_bits0 c" "md5_bits1 c" "of_nat (length d)"] by (simp only: ca len fst_conv)
  have tot: "count64 lo hi = md5_total c + of_nat (8 * length d)"
    using count_add_64 [OF ca] by (simp add: md5_total_def)
  have min: "length (md5_in c) = 64" using assms(1) by (simp add: md5_good_def)
  let ?c = "c\<lparr>md5_bits0 := lo, md5_bits1 := hi\<rparr>"
  have "\<exists>h m. ct_md5_update c d = Some (?c\<lparr>md5_buf := h, md5_in := m\<rparr>) \<and> length m = 64 \<and>
      (h, take ((?p + length d) mod 64) m) = absorb md5_transform (md5_buf c) (take ?p (md5_in c) @ d)"
  proof (cases "?p = 0")
    case True
    then have "ct_md5_update c d = md5_blocks ?c d" by (simp add: ct_md5_update_def ca Let_def)
    with True md5_blocks_absorb [of ?c d] min show ?thesis by (auto simp: prod_eq_iff)
  next
    case p0: False
    show ?thesis
    proof (cases "length d < 64 - ?p")
      case True
      then have "ct_md5_update c d = Some (?c\<lparr>md5_in := take ?p (md5_in c) @ d @ drop (?p + length d) (md5_in c)\<rparr>)"
        using p0 min by (simp add: ct_md5_update_def ca mem_put_ok Let_def)
      moreover have "absorb md5_transform (md5_buf c) (take ?p (md5_in c) @ d) =
          (md5_buf c, take ?p (md5_in c) @ d)" using True min by (simp add: absorb_short)
      ultimately show ?thesis using True min p by (auto intro!: exI [of _ "md5_buf c"])
    next
      case False
      let ?b = "take ?p (md5_in c) @ take (64 - ?p) d"
      have b: "length ?b = 64" using False min p by simp
      have "mem_put (md5_in c) ?p (take (64 - ?p) d) = Some ?b"
        using False min p by (simp add: mem_put_end)
      then have "ct_md5_update c d =
          md5_blocks (?c\<lparr>md5_in := ?b, md5_buf := md5_transform (md5_buf c) ?b\<rparr>) (drop (64 - ?p) d)"
        using p0 False by (simp add: ct_md5_update_def ca Let_def)
      moreover have "absorb md5_transform (md5_buf c) (take ?p (md5_in c) @ d) =
          absorb md5_transform (md5_transform (md5_buf c) ?b) (drop (64 - ?p) d)"
        using absorb_block [OF b, of md5_transform "md5_buf c" "drop (64 - ?p) d"] by simp
      moreover have "length (drop (64 - ?p) d) mod 64 = (?p + length d) mod 64"
        using False p le_mod_geq [of "64" "length d + ?p"] by (simp add: add.commute [of "length d"])
      ultimately show ?thesis
        using md5_blocks_absorb [of "?c\<lparr>md5_in := ?b, md5_buf := md5_transform (md5_buf c) ?b\<rparr>"
            "drop (64 - ?p) d"] b
        by (auto simp: prod_eq_iff)
    qed
  qed
  then show ?thesis using tot pos by (auto simp: md5_good_def md5_pending_def md5_total_def)
qed

lemma md5_store_le32_ok:
  "p + 4 \<le> length m \<Longrightarrow> md5_store_le32 m p v = Some (take p m @ le_bytes v @ drop (p + 4) m)"
  by (simp add: md5_store_le32_def mem_put_ok le_bytes_32 eval_nat_numeral)

lemma md5_transform_length: "length (md5_transform h b) = 4"
  by (simp add: md5_transform_def Let_def)

lemma md5_digest_store:
  "do { digest \<leftarrow> md5_store_le32 (replicate 16 0) 0 a; digest \<leftarrow> md5_store_le32 digest 4 b;
        digest \<leftarrow> md5_store_le32 digest 8 c; digest \<leftarrow> md5_store_le32 digest 12 d;
        Some (digest, x) } = Some (le_bytes a @ le_bytes b @ le_bytes c @ le_bytes d, x)"
  by (simp add: md5_store_le32_ok)

lemma md5_puts:
  assumes "length m = 64" and "n < 64"
  shows "mem_put m n [x] = Some (take n m @ x # drop (Suc n) m)"
    and "k \<le> 63 - n \<Longrightarrow> mem_put (take n m @ x # drop (Suc n) m) (Suc n) (replicate k 0) =
      Some (take n m @ x # replicate k 0 @ drop (Suc n + k) m)"
  using assms by (simp_all add: mem_put_ok add.commute [of n])

lemma md5_store_mid:
  "length p = off \<Longrightarrow> 4 \<le> length m \<Longrightarrow> md5_store_le32 (p @ m) off v = Some (p @ le_bytes v @ drop 4 m)"
  by (simp add: md5_store_le32_ok)

lemma md5_stores:
  assumes "length p = 56" and "length m = 8"
  shows "md5_store_le32 (p @ m) 56 lo = Some (p @ le_bytes lo @ drop 4 m)"
    and "md5_store_le32 (p @ le_bytes (lo :: u32) @ drop 4 m) 60 hi = Some (p @ le_bytes lo @ le_bytes hi)"
  using assms md5_store_mid [of "p @ le_bytes lo" 60 "drop 4 m" hi] by (simp_all add: md5_store_mid)

lemma md5_final_law:
  assumes "md5_good c"
  shows "\<exists>c'. ct_md5_final c = Some (md5_out (fst (absorb md5_transform (md5_buf c)
      (md5_pending c @ 0x80 # replicate (pad_zeros (length (md5_pending c))) 0 @
       le_bytes (md5_total c)))), c')"
proof -
  let ?n = "block_pos (md5_bits0 c)" and ?lo = "md5_bits0 c" and ?hi = "md5_bits1 c"
  have n: "?n < 64" by (rule block_pos_lt)
  have len: "length (md5_in c) = 64" using assms by (simp add: md5_good_def)
  have pend: "length (md5_pending c) = ?n" using n len by (simp add: md5_pending_def)
  have tot: "le_bytes (md5_total c) = le_bytes ?lo @ le_bytes ?hi"
    by (simp add: md5_total_def le_bytes_count64)
  show ?thesis
  proof (cases "?n < 56")
    case True
    let ?b = "md5_pending c @ 0x80 # replicate (55 - ?n) 0 @ le_bytes ?lo @ le_bytes ?hi"
    have b: "length ?b = 64" using True pend by simp
    have "absorb md5_transform (md5_buf c) ?b = (md5_transform (md5_buf c) ?b, [])"
      using absorb_block [OF b, of md5_transform "md5_buf c" "[]"] by (simp add: absorb_short)
    moreover have "\<exists>c'. ct_md5_final c = Some (md5_out (md5_transform (md5_buf c) ?b), c')"
    proof -
      have c8: "(63 - ?n < 8) = False" using True by simp
      note p2 = md5_puts(2) [OF len n, of "55 - ?n" "0x80"]
      have e: "Suc ?n + (55 - ?n) = 56" using True by simp
      let ?p = "take ?n (md5_in c) @ 0x80 # replicate (55 - ?n) 0"
      have l: "length ?p = 56" "length (drop 56 (md5_in c)) = 8" using True len by simp_all
      show ?thesis
        using p2 md5_stores(1) [OF l, of ?lo] md5_stores(2) [OF l, of ?lo ?hi] True
        by (simp add: ct_md5_final_def Let_def md5_puts(1) [OF len n] c8 e md5_digest_store md5_out_def
            md5_pending_def)
    qed
    ultimately show ?thesis using True by (simp add: pend tot pad_zeros_small)
  next
    case False
    then have n56: "56 \<le> ?n" by simp
    let ?b = "md5_pending c @ 0x80 # replicate (63 - ?n) 0"
    let ?e = "replicate 56 0 @ le_bytes ?lo @ le_bytes ?hi"
    have b: "length ?b = 64" and e: "length ?e = 64" using n pend by simp_all
    have "replicate (119 - ?n) (0 :: u8) = replicate (63 - ?n) 0 @ replicate 56 0"
      using n by (simp only: replicate_add [symmetric]) simp
    then have "absorb md5_transform (md5_buf c) (md5_pending c @ 0x80 # replicate (119 - ?n) 0 @
        le_bytes ?lo @ le_bytes ?hi) = (md5_transform (md5_transform (md5_buf c) ?b) ?e, [])"
      using absorb_block [OF b, of md5_transform "md5_buf c" ?e]
        absorb_block [OF e, of md5_transform "md5_transform (md5_buf c) ?b" "[]"]
      by (simp add: absorb_short)
    moreover have "\<exists>c'. ct_md5_final c =
        Some (md5_out (md5_transform (md5_transform (md5_buf c) ?b) ?e), c')"
    proof -
      have c8: "(63 - ?n < 8) = True" using n56 by simp
      note p2 = md5_puts(2) [OF len n, of "63 - ?n" "0x80"]
      have e: "Suc ?n + (63 - ?n) = 64" using n by simp
      have b': "take ?n (md5_in c) @ 0x80 # replicate (63 - ?n) 0 = ?b" by (simp add: md5_pending_def)
      have z: "mem_put ?b 0 (replicate 56 0) = Some (replicate 56 0 @ drop 56 ?b)"
        using b by (subst mem_put_0) (simp_all del: drop_append)
      have l: "length (drop 56 ?b) = 8" using b by (simp only: length_drop)
      have z56: "length (replicate 56 0 :: u8 list) = 56" by simp
      note s1 = md5_stores(1) [OF z56 l, of ?lo] and s2 = md5_stores(2) [OF z56 l, of ?lo ?hi]
      show ?thesis
        using p2 z s1 s2 [simplified drop_drop]
        by (simp add: ct_md5_final_def Let_def md5_puts(1) [OF len n] c8 e md5_digest_store md5_out_def
            len b' del: drop_append replicate.simps)
    qed
    ultimately show ?thesis using n56 n by (simp add: pend tot pad_zeros_big)
  qed
qed


section \<open>Interpretation\<close>

interpretation md5: streaming_digest md5_good md5_buf md5_pending md5_total chunk_fits md5_transform
  ct_md5_update "\<lambda>c. c = CT_MD5_CTX_INIT" "[0x67452301, 0xefcdab89, 0x98badcfe, 0x10325476]" le_bytes md5_out
  ct_md5_final
proof unfold_locales
  show "\<exists>s'. ct_md5_update s d = Some s' \<and> md5_good s' \<and>
      (md5_buf s', md5_pending s') = absorb md5_transform (md5_buf s) (md5_pending s @ d) \<and>
      md5_total s' = md5_total s + of_nat (8 * length d)" if "md5_good s" "chunk_fits d" for s d
    using that by (rule md5_update_law)
  show "length (md5_pending s) < 64" if "md5_good s" for s
    using that block_pos_lt [of "md5_bits0 s"] by (simp add: md5_good_def md5_pending_def)
  show "\<exists>s'. ct_md5_final s = Some (md5_out (fst (absorb md5_transform (md5_buf s)
      (md5_pending s @ 0x80 # replicate (pad_zeros (length (md5_pending s))) 0 @
       le_bytes (md5_total s)))), s')" if "md5_good s" for s
    using that by (rule md5_final_law)
qed (simp_all add: CT_MD5_CTX_INIT_def md5_good_def md5_pending_def md5_total_def count64_def
    block_pos_nat)

text \<open>C14: Streaming MD5 is MD5 of the whole message.  However a message of any length is cut into
  chunks, initialising, updating with the chunks in order and finishing never leaves the context's
  arrays and yields the digest of the padded message: the message, a one bit, zeros up to 56 bytes
  modulo 64, and the bit count modulo $2^{64}$ in little-endian order.\<close>

theorem md5_streaming:
  assumes "\<forall>d \<in> set ds. length d < 2 ^ 64"
  shows "map_option fst (feed ct_md5_update CT_MD5_CTX_INIT ds \<bind> ct_md5_final) =
    Some (md_digest md5_transform [0x67452301, 0xefcdab89, 0x98badcfe, 0x10325476] le_bytes md5_out
      (concat ds))"
  by (rule md5.digest_concat) (use assms in \<open>simp_all add: chunk_fits_def\<close>)

lemma md5_streaming_witness:
  "map_option fst (feed ct_md5_update CT_MD5_CTX_INIT [[97], [], [98, 99]] \<bind> ct_md5_final) =
    Some (md_digest md5_transform [0x67452301, 0xefcdab89, 0x98badcfe, 0x10325476] le_bytes md5_out
      [97, 98, 99])"
  using md5_streaming [of "[[97], [], [98, 99]]"] by simp

text \<open>The digest of \<open>abc\<close>, as RFC 1321 lists it.\<close>

lemma md5_abc:
  "ct_md5_sum [97, 98, 99] = Some [0x90, 0x01, 0x50, 0x98, 0x3c, 0xd2, 0x4f, 0xb0,
     0xd6, 0x96, 0x3f, 0x7d, 0x28, 0xe1, 0x7f, 0x72]"
  by code_simp

section \<open>The unrolled steps\<close>

text \<open>The schedule RFC 1321 gives by formula: in step \<open>i\<close> the round function, the message word and
  the shift are functions of \<open>i\<close>, and the four variables rotate.  The additive constants \<open>T[i]\<close> are
  the integer parts of \<open>2 ^ 32 * \<bar>sin i\<bar>\<close>.\<close>

definition md5_fun :: "nat \<Rightarrow> u32 \<Rightarrow> u32 \<Rightarrow> u32 \<Rightarrow> u32" where
  "md5_fun i b c d =
     (if i < 16 then (b AND c) OR (NOT b AND d)
      else if i < 32 then (d AND b) OR (NOT d AND c)
      else if i < 48 then b XOR c XOR d
      else c XOR (b OR NOT d))"

definition md5_index :: "nat \<Rightarrow> nat" where
  "md5_index i =
     (if i < 16 then i else if i < 32 then (5 * i + 1) mod 16
      else if i < 48 then (3 * i + 5) mod 16 else (7 * i) mod 16)"

definition md5_shift :: "nat \<Rightarrow> nat" where
  "md5_shift i = [[7, 12, 17, 22], [5, 9, 14, 20], [4, 11, 16, 23], [6, 10, 15, 21]] ! (i div 16) ! (i mod 4)"

definition md5_T :: "u32 list" where
  "md5_T = map (\<lambda>i. word_of_int \<lfloor>2 ^ 32 * \<bar>sin (real (i + 1))\<bar>\<rfloor>) [0..<64]"

definition md5_round :: "(nat \<Rightarrow> u32) \<Rightarrow> nat \<Rightarrow> u32 \<times> u32 \<times> u32 \<times> u32 \<Rightarrow> u32 \<times> u32 \<times> u32 \<times> u32" where
  "md5_round M i = (\<lambda>(a, b, c, d).
     (d, b + word_rotl (md5_shift i) (a + md5_fun i b c d + M (md5_index i) + md5_T ! i), b, c))"

definition md5_compress :: "u32 list \<Rightarrow> (nat \<Rightarrow> u32) \<Rightarrow> u32 list" where
  "md5_compress h M =
     (case fold (md5_round M) [0..<64] (h ! 0, h ! 1, h ! 2, h ! 3) of
        (a, b, c, d) \<Rightarrow> [h ! 0 + a, h ! 1 + b, h ! 2 + c, h ! 3 + d])"

definition md5_regs :: "nat \<Rightarrow> md5_reg" where
  "md5_regs n = [RA, RB, RC, RD] ! (n mod 4)"

definition md5_row ::
  "nat \<Rightarrow> (u32 \<Rightarrow> u32 \<Rightarrow> u32 \<Rightarrow> u32) \<times> md5_reg \<times> md5_reg \<times> md5_reg \<times> md5_reg \<times> nat \<times> u32 \<times> nat" where
  "md5_row i = ([F1, F2, F3, F4] ! (i div 16), md5_regs (3 * i), md5_regs (3 * i + 1),
     md5_regs (3 * i + 2), md5_regs (3 * i + 3), md5_index i, md5_T ! i, md5_shift i)"

lemma md5_T_constants: "md5_T = map word_of_int md5_constants"
  unfolding md5_T_def md5_sine_table [symmetric] by (simp add: md5_sine_def)

lemma md5_rows: "md5_steps = map md5_row [0..<64]"
  by (simp add: md5_row_def md5_regs_def md5_index_def md5_shift_def md5_T_constants md5_constants_def
      md5_steps_def upt_rec)


definition md5_view :: "(md5_reg \<Rightarrow> u32) \<Rightarrow> nat \<Rightarrow> u32 \<times> u32 \<times> u32 \<times> u32" where
  "md5_view r i =
     (r (md5_regs (3 * i)), r (md5_regs (3 * i + 1)), r (md5_regs (3 * i + 2)), r (md5_regs (3 * i + 3)))"

lemma md5_regs_cases:
  obtains "md5_regs (3 * i) = RA" "md5_regs (3 * i + 1) = RB" "md5_regs (3 * i + 2) = RC" "md5_regs (3 * i + 3) = RD"
  | "md5_regs (3 * i) = RD" "md5_regs (3 * i + 1) = RA" "md5_regs (3 * i + 2) = RB" "md5_regs (3 * i + 3) = RC"
  | "md5_regs (3 * i) = RC" "md5_regs (3 * i + 1) = RD" "md5_regs (3 * i + 2) = RA" "md5_regs (3 * i + 3) = RB"
  | "md5_regs (3 * i) = RB" "md5_regs (3 * i + 1) = RC" "md5_regs (3 * i + 2) = RD" "md5_regs (3 * i + 3) = RA"
proof -
  have e: "md5_regs (3 * i + j) = md5_regs (3 * (i mod 4) + j)" for j
  proof -
    have "(3 * i + j) mod 4 = (3 * (i mod 4) + j) mod 4" by (metis mod_add_left_eq mod_mult_right_eq)
    then show ?thesis by (simp only: md5_regs_def)
  qed
  have "i mod 4 < 4" by simp
  then consider "i mod 4 = 0" | "i mod 4 = 1" | "i mod 4 = 2" | "i mod 4 = 3" by linarith
  then show thesis
    by cases (use that e [of 0] e [of 1] e [of 2] e [of 3] in \<open>simp_all add: md5_regs_def\<close>)
qed

lemma md5_regs_4: "md5_regs (k + 4) = md5_regs k"
  by (simp add: md5_regs_def)

lemma md5_funs:
  "i < 16 \<Longrightarrow> F1 b c d = md5_fun i b c d" "16 \<le> i \<Longrightarrow> i < 32 \<Longrightarrow> F2 b c d = md5_fun i b c d"
  "32 \<le> i \<Longrightarrow> i < 48 \<Longrightarrow> F3 b c d = md5_fun i b c d" "48 \<le> i \<Longrightarrow> F4 b c d = md5_fun i b c d"
  by (rule bit_word_eqI, auto simp: bit_simps F1_def F2_def F3_def F4_def md5_fun_def)+

lemma md5_fun_row: "i < 64 \<Longrightarrow> ([F1, F2, F3, F4] ! (i div 16)) = md5_fun i"
proof -
  assume "i < 64"
  then consider "i < 16" | "16 \<le> i" "i < 32" | "32 \<le> i" "i < 48" | "48 \<le> i" "i < 64" by linarith
  then show ?thesis
    by cases (auto simp: fun_eq_iff md5_funs div_nat_eqI nth_Cons')
qed

lemma md5_shift_range: "i < 64 \<Longrightarrow> 0 < md5_shift i \<and> md5_shift i < 32"
proof -
  have "list_all (\<lambda>i. 0 < md5_shift i \<and> md5_shift i < 32) [0..<64]" by code_simp
  then show "i < 64 \<Longrightarrow> 0 < md5_shift i \<and> md5_shift i < 32" by (simp add: list_all_iff)
qed

lemma md5_index_range: "i < 64 \<Longrightarrow> md5_index i < 16"
  by (simp add: md5_index_def)

lemma md5_step_view:
  assumes i: "i < 64" and v: "md5_view r i = (a, b, c, d)"
  shows "md5_view (MD5STEP (md5_fun i) (md5_regs (3 * i)) (md5_regs (3 * i + 1)) (md5_regs (3 * i + 2))
      (md5_regs (3 * i + 3)) (M (md5_index i) + md5_T ! i) (md5_shift i) r) (Suc i) =
    md5_round M i (a, b, c, d)"
proof -
  have s: "push_bit (md5_shift i) x OR drop_bit (32 - md5_shift i) x = word_rotl (md5_shift i) x" for x :: u32
    using md5_shift_range [OF i] by (simp add: rotl32)
  have n: "md5_regs (3 * Suc i) = md5_regs (3 * i + 3)" "md5_regs (3 * Suc i + 1) = md5_regs (3 * i)"
    "md5_regs (3 * Suc i + 2) = md5_regs (3 * i + 1)" "md5_regs (3 * Suc i + 3) = md5_regs (3 * i + 2)"
    using md5_regs_4 [of "3 * i"] md5_regs_4 [of "3 * i + 1"] md5_regs_4 [of "3 * i + 2"]
    by (simp_all add: algebra_simps eval_nat_numeral)
  show ?thesis
    unfolding md5_view_def n using v
    by (cases rule: md5_regs_cases [of i])
      (simp_all add: MD5STEP_def Let_def s md5_view_def md5_round_def add.assoc add.commute [of b])
qed

definition md5_exec :: "(nat \<Rightarrow> u32) \<Rightarrow> nat \<Rightarrow> (md5_reg \<Rightarrow> u32) \<Rightarrow> (md5_reg \<Rightarrow> u32)" where
  "md5_exec M i = (case md5_row i of (f, w, x, y, z, k, t, s) \<Rightarrow> MD5STEP f w x y z (M k + t) s)"

lemma md5_exec_fold:
  "n \<le> 64 \<Longrightarrow> md5_view (fold (md5_exec M) [0..<n] r) n = fold (md5_round M) [0..<n] (md5_view r 0)"
proof (induction n)
  case (Suc n)
  let ?r = "fold (md5_exec M) [0..<n] r"
  obtain a b c d where v: "md5_view ?r n = (a, b, c, d)" by (cases "md5_view ?r n")
  have n: "n < 64" using Suc.prems by simp
  have "md5_view (md5_exec M n ?r) (Suc n) = md5_round M n (a, b, c, d)"
    using md5_step_view [OF n v, of M] by (simp add: md5_exec_def md5_row_def md5_fun_row [OF n])
  then show ?case using Suc v by simp
qed simp

text \<open>C15: The hand-unrolled \<open>md5_transform\<close> computes the round function of RFC 1321.  Its 64 lines,
  with their rotated register names, their message indices, their additive constants and their
  shifts, do on every chaining value and every block what the loop does in which the indices and
  shifts are given by formula and the constants by the sine function (\<open>md5_T\<close>, the integer parts of
  \<open>2 ^ 32 * \<bar>sin i\<bar>\<close>).\<close>

theorem md5_transform_rfc:
  "md5_transform buf block = md5_compress buf (\<lambda>i. md5_load_le32 block (i * 4))"
proof -
  let ?M = "\<lambda>i. md5_load_le32 block (i * 4)"
  let ?w = "map ?M [0..<16]"
  let ?r = "(\<lambda>_. 0)(RA := buf ! 0, RB := buf ! 1, RC := buf ! 2, RD := buf ! 3)"
  have "fold (\<lambda>(f, w, x, y, z, k, t, s). MD5STEP f w x y z (?w ! k + t) s) md5_steps ?r =
      fold (\<lambda>i. (\<lambda>(f, w, x, y, z, k, t, s). MD5STEP f w x y z (?w ! k + t) s) (md5_row i)) [0..<64] ?r"
    by (simp only: md5_rows fold_map comp_def)
  also have "\<dots> = fold (md5_exec ?M) [0..<64] ?r"
  proof (rule fold_cong)
    fix i
    assume "i \<in> set [0..<64]"
    then have "md5_index i < 16" by (simp add: md5_index_range)
    then show "(\<lambda>(f, w, x, y, z, k, t, s). MD5STEP f w x y z (?w ! k + t) s) (md5_row i) = md5_exec ?M i"
      by (simp add: md5_exec_def md5_row_def)
  qed simp_all
  finally have fold: "fold (\<lambda>(f, w, x, y, z, k, t, s). MD5STEP f w x y z (?w ! k + t) s) md5_steps ?r =
      fold (md5_exec ?M) [0..<64] ?r" .
  let ?f = "fold (md5_exec ?M) [0..<64] ?r"
  have "fold (md5_round ?M) [0..<64] (buf ! 0, buf ! 1, buf ! 2, buf ! 3) = md5_view ?f 64"
    using md5_exec_fold [of 64 ?M ?r, symmetric] by (simp add: md5_view_def md5_regs_def)
  also have "\<dots> = (?f RA, ?f RB, ?f RC, ?f RD)"
    by (simp add: md5_view_def md5_regs_def)
  finally have m: "fold (md5_round ?M) [0..<64] (buf ! 0, buf ! 1, buf ! 2, buf ! 3) =
      (?f RA, ?f RB, ?f RC, ?f RD)" .
  show ?thesis
    by (simp only: md5_transform_def md5_compress_def Let_def fold m prod.case)
qed

end
