(* ===== verification/Coter_Sha1.thy ===== *)
theory Coter_Sha1
  imports Coter_Digest Coter_Binary
begin

text \<open>
  \<open>crypto/sha1.h\<close>, \<open>crypto/src/sha1.c\<close>: the SHA-1 context, the 80 unrolled rounds over a circular
  schedule of 16 words that is expanded in place, and the streaming interface with its byte-by-byte
  padding loop.  The local variables \<open>a\<close> to \<open>e\<close> of \<open>sha1_transform\<close> are a register file and each
  source line \<open>SHA1_Rk(v, w, x, y, z, i)\<close> is one row of \<open>sha1_rounds\<close>.  The loop of \<open>ct_sha1_update\<close>
  counts in 32 bits and may not end, so it is a \<open>partial_function\<close>.
\<close>

section \<open>The transformation\<close>

definition SHA1_ROL :: "u32 \<Rightarrow> nat \<Rightarrow> u32" where
  "SHA1_ROL v bits = push_bit bits v OR drop_bit (32 - bits) v"

definition SHA1_BLK0_L :: "u32 list \<Rightarrow> nat \<Rightarrow> u32" where
  "SHA1_BLK0_L l i = (SHA1_ROL (l ! i) 24 AND 0xFF00FF00) OR (SHA1_ROL (l ! i) 8 AND 0x00FF00FF)"

definition SHA1_BLK0_B :: "u32 list \<Rightarrow> nat \<Rightarrow> u32" where
  "SHA1_BLK0_B l i = l ! i"

text \<open>The macros assign to the schedule and have the assigned word as their value.\<close>

definition SHA1_BLK0 :: "ct_endian \<Rightarrow> u32 list \<Rightarrow> nat \<Rightarrow> u32 \<times> u32 list" where
  "SHA1_BLK0 sys l i =
     (if sys = CT_ENDIAN_LITTLE then (SHA1_BLK0_L l i, l[i := SHA1_BLK0_L l i])
      else (SHA1_BLK0_B l i, l))"

definition SHA1_BLK :: "u32 list \<Rightarrow> nat \<Rightarrow> u32 \<times> u32 list" where
  "SHA1_BLK l i =
     (let v = SHA1_ROL (l ! ((i + 13) mod 16) XOR l ! ((i + 8) mod 16) XOR l ! ((i + 2) mod 16) XOR
            l ! (i mod 16)) 1
      in (v, l[i mod 16 := v]))"

datatype sha1_reg = SA | SB | SC | SD | SE

type_synonym sha1_vars = "(sha1_reg \<Rightarrow> u32) \<times> u32 list"

definition SHA1_R0 :: "ct_endian \<Rightarrow> sha1_reg \<Rightarrow> sha1_reg \<Rightarrow> sha1_reg \<Rightarrow> sha1_reg \<Rightarrow> sha1_reg \<Rightarrow> nat \<Rightarrow> sha1_vars \<Rightarrow> sha1_vars" where
  "SHA1_R0 sys v w x y z i = (\<lambda>(r, l).
     let (b, l) = SHA1_BLK0 sys l i;
         r = r(z := r z + (((r w AND (r x XOR r y)) XOR r y) + b + 0x5A827999 + SHA1_ROL (r v) 5));
         r = r(w := SHA1_ROL (r w) 30)
     in (r, l))"

definition SHA1_R1 :: "ct_endian \<Rightarrow> sha1_reg \<Rightarrow> sha1_reg \<Rightarrow> sha1_reg \<Rightarrow> sha1_reg \<Rightarrow> sha1_reg \<Rightarrow> nat \<Rightarrow> sha1_vars \<Rightarrow> sha1_vars" where
  "SHA1_R1 sys v w x y z i = (\<lambda>(r, l).
     let (b, l) = SHA1_BLK l i;
         r = r(z := r z + (((r w AND (r x XOR r y)) XOR r y) + b + 0x5A827999 + SHA1_ROL (r v) 5));
         r = r(w := SHA1_ROL (r w) 30)
     in (r, l))"

definition SHA1_R2 :: "ct_endian \<Rightarrow> sha1_reg \<Rightarrow> sha1_reg \<Rightarrow> sha1_reg \<Rightarrow> sha1_reg \<Rightarrow> sha1_reg \<Rightarrow> nat \<Rightarrow> sha1_vars \<Rightarrow> sha1_vars" where
  "SHA1_R2 sys v w x y z i = (\<lambda>(r, l).
     let (b, l) = SHA1_BLK l i;
         r = r(z := r z + ((r w XOR r x XOR r y) + b + 0x6ED9EBA1 + SHA1_ROL (r v) 5));
         r = r(w := SHA1_ROL (r w) 30)
     in (r, l))"

definition SHA1_R3 :: "ct_endian \<Rightarrow> sha1_reg \<Rightarrow> sha1_reg \<Rightarrow> sha1_reg \<Rightarrow> sha1_reg \<Rightarrow> sha1_reg \<Rightarrow> nat \<Rightarrow> sha1_vars \<Rightarrow> sha1_vars" where
  "SHA1_R3 sys v w x y z i = (\<lambda>(r, l).
     let (b, l) = SHA1_BLK l i;
         r = r(z := r z + ((((r w OR r x) AND r y) OR (r w AND r x)) + b + 0x8F1BBCDC + SHA1_ROL (r v) 5));
         r = r(w := SHA1_ROL (r w) 30)
     in (r, l))"

definition SHA1_R4 :: "ct_endian \<Rightarrow> sha1_reg \<Rightarrow> sha1_reg \<Rightarrow> sha1_reg \<Rightarrow> sha1_reg \<Rightarrow> sha1_reg \<Rightarrow> nat \<Rightarrow> sha1_vars \<Rightarrow> sha1_vars" where
  "SHA1_R4 sys v w x y z i = (\<lambda>(r, l).
     let (b, l) = SHA1_BLK l i;
         r = r(z := r z + ((r w XOR r x XOR r y) + b + 0xCA62C1D6 + SHA1_ROL (r v) 5));
         r = r(w := SHA1_ROL (r w) 30)
     in (r, l))"

definition sha1_rounds ::
  "((ct_endian \<Rightarrow> sha1_reg \<Rightarrow> sha1_reg \<Rightarrow> sha1_reg \<Rightarrow> sha1_reg \<Rightarrow> sha1_reg \<Rightarrow> nat \<Rightarrow> sha1_vars \<Rightarrow> sha1_vars) \<times>
    sha1_reg \<times> sha1_reg \<times> sha1_reg \<times> sha1_reg \<times> sha1_reg \<times> nat) list" where
  "sha1_rounds = [
    (SHA1_R0, SA, SB, SC, SD, SE, 0),
    (SHA1_R0, SE, SA, SB, SC, SD, 1),
    (SHA1_R0, SD, SE, SA, SB, SC, 2),
    (SHA1_R0, SC, SD, SE, SA, SB, 3),
    (SHA1_R0, SB, SC, SD, SE, SA, 4),
    (SHA1_R0, SA, SB, SC, SD, SE, 5),
    (SHA1_R0, SE, SA, SB, SC, SD, 6),
    (SHA1_R0, SD, SE, SA, SB, SC, 7),
    (SHA1_R0, SC, SD, SE, SA, SB, 8),
    (SHA1_R0, SB, SC, SD, SE, SA, 9),
    (SHA1_R0, SA, SB, SC, SD, SE, 10),
    (SHA1_R0, SE, SA, SB, SC, SD, 11),
    (SHA1_R0, SD, SE, SA, SB, SC, 12),
    (SHA1_R0, SC, SD, SE, SA, SB, 13),
    (SHA1_R0, SB, SC, SD, SE, SA, 14),
    (SHA1_R0, SA, SB, SC, SD, SE, 15),
    (SHA1_R1, SE, SA, SB, SC, SD, 16),
    (SHA1_R1, SD, SE, SA, SB, SC, 17),
    (SHA1_R1, SC, SD, SE, SA, SB, 18),
    (SHA1_R1, SB, SC, SD, SE, SA, 19),
    (SHA1_R2, SA, SB, SC, SD, SE, 20),
    (SHA1_R2, SE, SA, SB, SC, SD, 21),
    (SHA1_R2, SD, SE, SA, SB, SC, 22),
    (SHA1_R2, SC, SD, SE, SA, SB, 23),
    (SHA1_R2, SB, SC, SD, SE, SA, 24),
    (SHA1_R2, SA, SB, SC, SD, SE, 25),
    (SHA1_R2, SE, SA, SB, SC, SD, 26),
    (SHA1_R2, SD, SE, SA, SB, SC, 27),
    (SHA1_R2, SC, SD, SE, SA, SB, 28),
    (SHA1_R2, SB, SC, SD, SE, SA, 29),
    (SHA1_R2, SA, SB, SC, SD, SE, 30),
    (SHA1_R2, SE, SA, SB, SC, SD, 31),
    (SHA1_R2, SD, SE, SA, SB, SC, 32),
    (SHA1_R2, SC, SD, SE, SA, SB, 33),
    (SHA1_R2, SB, SC, SD, SE, SA, 34),
    (SHA1_R2, SA, SB, SC, SD, SE, 35),
    (SHA1_R2, SE, SA, SB, SC, SD, 36),
    (SHA1_R2, SD, SE, SA, SB, SC, 37),
    (SHA1_R2, SC, SD, SE, SA, SB, 38),
    (SHA1_R2, SB, SC, SD, SE, SA, 39),
    (SHA1_R3, SA, SB, SC, SD, SE, 40),
    (SHA1_R3, SE, SA, SB, SC, SD, 41),
    (SHA1_R3, SD, SE, SA, SB, SC, 42),
    (SHA1_R3, SC, SD, SE, SA, SB, 43),
    (SHA1_R3, SB, SC, SD, SE, SA, 44),
    (SHA1_R3, SA, SB, SC, SD, SE, 45),
    (SHA1_R3, SE, SA, SB, SC, SD, 46),
    (SHA1_R3, SD, SE, SA, SB, SC, 47),
    (SHA1_R3, SC, SD, SE, SA, SB, 48),
    (SHA1_R3, SB, SC, SD, SE, SA, 49),
    (SHA1_R3, SA, SB, SC, SD, SE, 50),
    (SHA1_R3, SE, SA, SB, SC, SD, 51),
    (SHA1_R3, SD, SE, SA, SB, SC, 52),
    (SHA1_R3, SC, SD, SE, SA, SB, 53),
    (SHA1_R3, SB, SC, SD, SE, SA, 54),
    (SHA1_R3, SA, SB, SC, SD, SE, 55),
    (SHA1_R3, SE, SA, SB, SC, SD, 56),
    (SHA1_R3, SD, SE, SA, SB, SC, 57),
    (SHA1_R3, SC, SD, SE, SA, SB, 58),
    (SHA1_R3, SB, SC, SD, SE, SA, 59),
    (SHA1_R4, SA, SB, SC, SD, SE, 60),
    (SHA1_R4, SE, SA, SB, SC, SD, 61),
    (SHA1_R4, SD, SE, SA, SB, SC, 62),
    (SHA1_R4, SC, SD, SE, SA, SB, 63),
    (SHA1_R4, SB, SC, SD, SE, SA, 64),
    (SHA1_R4, SA, SB, SC, SD, SE, 65),
    (SHA1_R4, SE, SA, SB, SC, SD, 66),
    (SHA1_R4, SD, SE, SA, SB, SC, 67),
    (SHA1_R4, SC, SD, SE, SA, SB, 68),
    (SHA1_R4, SB, SC, SD, SE, SA, 69),
    (SHA1_R4, SA, SB, SC, SD, SE, 70),
    (SHA1_R4, SE, SA, SB, SC, SD, 71),
    (SHA1_R4, SD, SE, SA, SB, SC, 72),
    (SHA1_R4, SC, SD, SE, SA, SB, 73),
    (SHA1_R4, SB, SC, SD, SE, SA, 74),
    (SHA1_R4, SA, SB, SC, SD, SE, 75),
    (SHA1_R4, SE, SA, SB, SC, SD, 76),
    (SHA1_R4, SD, SE, SA, SB, SC, 77),
    (SHA1_R4, SC, SD, SE, SA, SB, 78),
    (SHA1_R4, SB, SC, SD, SE, SA, 79)
  ]"

definition sha1_transform :: "ct_endian \<Rightarrow> u32 list \<Rightarrow> u8 list \<Rightarrow> u32 list" where
  "sha1_transform sys state buffer =
     (let l = map (\<lambda>i. native_word sys (take 4 (drop (4 * i) buffer))) [0..<16];
          r = (\<lambda>_. 0)(SA := state ! 0, SB := state ! 1, SC := state ! 2, SD := state ! 3, SE := state ! 4);
          (r, l) = fold (\<lambda>(f, v, w, x, y, z, i). f sys v w x y z i) sha1_rounds (r, l)
      in [state ! 0 + r SA, state ! 1 + r SB, state ! 2 + r SC, state ! 3 + r SD, state ! 4 + r SE])"

section \<open>The context\<close>

record ct_sha1_ctx =
  sha1_state :: "u32 list"
  sha1_count0 :: u32
  sha1_count1 :: u32
  sha1_buffer :: "u8 list"

definition ct_sha1_init :: "ct_sha1_ctx \<Rightarrow> ct_sha1_ctx" where
  "ct_sha1_init context = context\<lparr>
     sha1_state := [0x67452301, 0xEFCDAB89, 0x98BADCFE, 0x10325476, 0xC3D2E1F0],
     sha1_count0 := 0, sha1_count1 := 0\<rparr>"

partial_function (option) sha1_blocks ::
  "ct_endian \<Rightarrow> u8 list \<Rightarrow> size_t \<Rightarrow> u32 \<Rightarrow> u32 list \<Rightarrow> (u32 list \<times> u32) option" where
  "sha1_blocks sys p len i st =
     (if ucast i + 64 \<le> len then do {
        blk \<leftarrow> mem_get p (unat i) 64;
        sha1_blocks sys p len (i + 64) (sha1_transform sys st blk) }
      else Some (st, i))"

definition ct_sha1_update :: "ct_endian \<Rightarrow> ct_sha1_ctx \<Rightarrow> u8 list \<Rightarrow> ct_sha1_ctx option" where
  "ct_sha1_update sys context p =
     (let len = of_nat (length p) :: size_t;
          j = sha1_count0 context;
          (lo, hi) = count_add j (sha1_count1 context) len;
          context = context\<lparr>sha1_count0 := lo, sha1_count1 := hi\<rparr>;
          j = of_nat (block_pos j) :: u32
      in do {
        (context, i, j) \<leftarrow>
          (if ucast j + len > 63 then do {
             let i = 64 - j;
             first \<leftarrow> mem_get p 0 (unat i);
             buf \<leftarrow> mem_put (sha1_buffer context) (unat j) first;
             let st = sha1_transform sys (sha1_state context) buf;
             (st, i) \<leftarrow> sha1_blocks sys p len i st;
             Some (context\<lparr>sha1_buffer := buf, sha1_state := st\<rparr>, i, 0) }
           else Some (context, 0, j));
        rest \<leftarrow> mem_get p (unat i) (unat (len - ucast i));
        buf \<leftarrow> mem_put (sha1_buffer context) (unat j) rest;
        Some (context\<lparr>sha1_buffer := buf\<rparr>) })"

partial_function (option) sha1_pad :: "ct_endian \<Rightarrow> ct_sha1_ctx \<Rightarrow> ct_sha1_ctx option" where
  "sha1_pad sys context =
     (if (sha1_count0 context AND 504) \<noteq> 448 then do {
        context \<leftarrow> ct_sha1_update sys context [0];
        sha1_pad sys context }
      else Some context)"

definition ct_sha1_final :: "ct_endian \<Rightarrow> ct_sha1_ctx \<Rightarrow> (u8 list \<times> ct_sha1_ctx) option" where
  "ct_sha1_final sys context = do {
     let finalcount = map (\<lambda>i. ucast (drop_bit ((3 - i mod 4) * 8)
           (if i \<ge> 4 then sha1_count0 context else sha1_count1 context) AND 255)) [0..<8];
     context \<leftarrow> ct_sha1_update sys context [0x80];
     context \<leftarrow> sha1_pad sys context;
     context \<leftarrow> ct_sha1_update sys context finalcount;
     let digest = map (\<lambda>i. ucast (drop_bit ((3 - i mod 4) * 8) (sha1_state context ! (i div 4)) AND 255)) [0..<20];
     Some (digest, \<lparr>sha1_state = replicate 5 0, sha1_count0 = 0, sha1_count1 = 0,
       sha1_buffer = replicate 64 0\<rparr>) }"

text \<open>The context of \<open>ct_sha1_sum\<close> is an uninitialised local: what the stack held is an argument.\<close>

definition ct_sha1_sum :: "ct_endian \<Rightarrow> ct_sha1_ctx \<Rightarrow> u8 list \<Rightarrow> u8 list option" where
  "ct_sha1_sum sys ctx data = do {
     ctx \<leftarrow> ct_sha1_update sys (ct_sha1_init ctx) data;
     (digest, ctx) \<leftarrow> ct_sha1_final sys ctx;
     Some digest }"

section \<open>The streaming contract\<close>

text \<open>A chunk one update handles: the loop counts its bytes in 32 bits.\<close>

definition sha1_fits :: "u8 list \<Rightarrow> bool" where
  "sha1_fits d \<longleftrightarrow> length d < 2 ^ 32"

definition sha1_good :: "ct_sha1_ctx \<Rightarrow> bool" where
  "sha1_good c \<longleftrightarrow> length (sha1_buffer c) = 64"

definition sha1_pending :: "ct_sha1_ctx \<Rightarrow> u8 list" where
  "sha1_pending c = take (block_pos (sha1_count0 c)) (sha1_buffer c)"

definition sha1_total :: "ct_sha1_ctx \<Rightarrow> u64" where
  "sha1_total c = count64 (sha1_count0 c) (sha1_count1 c)"

definition sha1_out :: "u32 list \<Rightarrow> u8 list" where
  "sha1_out h = concat (map (\<lambda>i. rev (le_bytes (h ! i))) [0..<5])"

definition be_bytes :: "u64 \<Rightarrow> u8 list" where
  "be_bytes w = rev (le_bytes w)"

abbreviation sha1_iv :: "u32 list" where
  "sha1_iv \<equiv> [0x67452301, 0xEFCDAB89, 0x98BADCFE, 0x10325476, 0xC3D2E1F0]"

lemma sha1_blocks_absorb:
  assumes "length p < 2 ^ 32" and "unat i \<le> length p"
  shows "\<exists>i'. sha1_blocks sys p (of_nat (length p)) i st =
      Some (fst (absorb (sha1_transform sys) st (drop (unat i) p)), i') \<and> unat i' \<le> length p \<and>
      drop (unat i') p = snd (absorb (sha1_transform sys) st (drop (unat i) p))"
  using assms(2)
proof (induction "length p - unat i" arbitrary: i st rule: less_induct)
  case less
  let ?len = "of_nat (length p) :: size_t"
  have len: "unat ?len = length p" using assms(1) by (intro unat_of_nat_lt) simp
  have i: "unat (ucast i + 64 :: size_t) = unat i + 64"
    using unat_u32_bound [of i] by (subst unat_plus_lt) simp_all
  have le: "ucast i + 64 \<le> ?len \<longleftrightarrow> unat i + 64 \<le> length p"
    by (simp only: word_le_nat_alt i len)
  show ?case
  proof (cases "unat i + 64 \<le> length p")
    case True
    let ?st = "sha1_transform sys st (take 64 (drop (unat i) p))"
    have i': "unat (i + 64) = unat i + 64" using True assms(1) by (subst unat_plus_lt) simp_all
    obtain k where "sha1_blocks sys p ?len (i + 64) ?st =
        Some (fst (absorb (sha1_transform sys) ?st (drop (unat i + 64) p)), k)" "unat k \<le> length p"
        "drop (unat k) p = snd (absorb (sha1_transform sys) ?st (drop (unat i + 64) p))"
      using less.hyps [of "i + 64" ?st] True unfolding i' by fastforce
    moreover have "absorb (sha1_transform sys) st (drop (unat i) p) =
        absorb (sha1_transform sys) ?st (drop (unat i + 64) p)"
      using True by (subst absorb_long) (simp_all add: add.commute)
    ultimately show ?thesis using True
      by (subst sha1_blocks.simps) (simp add: le mem_get_ok)
  next
    case False
    then have "absorb (sha1_transform sys) st (drop (unat i) p) = (st, drop (unat i) p)"
      by (intro absorb_short) simp
    with False less.prems show ?thesis by (subst sha1_blocks.simps) (simp add: le)
  qed
qed

lemma length_refill: "length xs < n \<Longrightarrow> length b = n \<Longrightarrow> length (xs @ drop (length xs) b) = n"
  by simp

lemma sha1_update_law:
  assumes "sha1_good c" and "sha1_fits d"
  shows "\<exists>c'. ct_sha1_update sys c d = Some c' \<and> sha1_good c' \<and>
      (sha1_state c', sha1_pending c') = absorb (sha1_transform sys) (sha1_state c) (sha1_pending c @ d) \<and>
      sha1_total c' = sha1_total c + of_nat (8 * length d)"
proof -
  let ?len = "of_nat (length d) :: size_t" and ?p = "block_pos (sha1_count0 c)"
  obtain lo hi where ca: "count_add (sha1_count0 c) (sha1_count1 c) ?len = (lo, hi)"
    by fastforce
  have dlt: "length d < 2 ^ 32" using assms(2) by (simp add: sha1_fits_def)
  have len: "unat ?len = length d" using dlt by (intro unat_of_nat_lt) simp
  have p: "?p < 64" by (rule block_pos_lt)
  have pos: "block_pos lo = (?p + length d) mod 64"
    using block_pos_add [of "sha1_count0 c" "sha1_count1 c" ?len] by (simp only: ca len fst_conv)
  have tot: "count64 lo hi = sha1_total c + of_nat (8 * length d)"
    using count_add_64 [OF ca] by (simp add: sha1_total_def)
  have blen: "length (sha1_buffer c) = 64" using assms(1) by (simp add: sha1_good_def)
  let ?c = "c\<lparr>sha1_count0 := lo, sha1_count1 := hi\<rparr>" and ?j = "of_nat ?p :: u32"
  have j: "unat ?j = ?p" using p by (intro unat_of_nat_lt) simp
  have "unat (ucast ?j + ?len) = ?p + length d"
    using j len p dlt by (subst unat_plus_lt) simp_all
  then have gt: "ucast ?j + ?len > 63 \<longleftrightarrow> 64 \<le> ?p + length d"
    by (simp add: word_less_nat_alt) arith
  have "\<exists>h m. ct_sha1_update sys c d = Some (?c\<lparr>sha1_state := h, sha1_buffer := m\<rparr>) \<and> length m = 64 \<and>
      (h, take ((?p + length d) mod 64) m) =
      absorb (sha1_transform sys) (sha1_state c) (take ?p (sha1_buffer c) @ d)"
  proof (cases "64 \<le> ?p + length d")
    case False
    then have "ct_sha1_update sys c d =
        Some (?c\<lparr>sha1_buffer := take ?p (sha1_buffer c) @ d @ drop (?p + length d) (sha1_buffer c)\<rparr>)"
      using gt j len blen by (simp add: ct_sha1_update_def ca Let_def mem_get_ok mem_put_ok)
    moreover have "absorb (sha1_transform sys) (sha1_state c) (take ?p (sha1_buffer c) @ d) =
        (sha1_state c, take ?p (sha1_buffer c) @ d)"
      using False blen by (intro absorb_short) simp
    ultimately show ?thesis using False blen p by (auto intro!: exI [of _ "sha1_state c"])
  next
    case True
    let ?b = "take ?p (sha1_buffer c) @ take (64 - ?p) d"
    let ?st = "sha1_transform sys (sha1_state c) ?b"
    have b: "length ?b = 64" using True blen p by simp
    have i: "unat (64 - ?j) = 64 - ?p" using j p by (subst unat_diff_le) simp_all
    have put: "mem_put (sha1_buffer c) ?p (take (64 - ?p) d) = Some ?b"
      using True blen p by (simp add: mem_put_end)
    have get: "mem_get d 0 (64 - ?p) = Some (take (64 - ?p) d)" using True by (simp add: mem_get_ok)
    have ab: "absorb (sha1_transform sys) (sha1_state c) (take ?p (sha1_buffer c) @ d) =
        absorb (sha1_transform sys) ?st (drop (64 - ?p) d)"
      using absorb_block [OF b, of "sha1_transform sys" "sha1_state c" "drop (64 - ?p) d"] by simp
    obtain i' where i': "sha1_blocks sys d ?len (64 - ?j) ?st =
        Some (fst (absorb (sha1_transform sys) ?st (drop (64 - ?p) d)), i')" "unat i' \<le> length d"
        "drop (unat i') d = snd (absorb (sha1_transform sys) ?st (drop (64 - ?p) d))"
      using sha1_blocks_absorb [OF dlt, of "64 - ?j" sys ?st] True unfolding i by fastforce
    have n: "unat (?len - ucast i') = length d - unat i'"
      using i'(2) len by (subst unat_diff_le) simp_all
    have rest: "length (drop (unat i') d) = (?p + length d) mod 64"
      using absorb_rest [of "sha1_transform sys" ?st "drop (64 - ?p) d"] True p i'(3)
        le_mod_geq [of 64 "?p + length d"] by (simp add: add.commute)
    then have small: "length (drop (unat i') d) < 64" by simp
    have get2: "mem_get d (unat i') (length d - unat i') = Some (drop (unat i') d)"
      using i'(2) by (simp add: mem_get_ok)
    have put2: "mem_put ?b 0 (drop (unat i') d) =
        Some (drop (unat i') d @ drop (length (drop (unat i') d)) ?b)"
      using small b by (intro mem_put_0) simp
    have "ct_sha1_update sys c d = Some (?c\<lparr>sha1_state := fst (absorb (sha1_transform sys) ?st (drop (64 - ?p) d)),
        sha1_buffer := drop (unat i') d @ drop (length (drop (unat i') d)) ?b\<rparr>)"
      using True gt j i get put i'(1) n get2 put2
      by (simp add: ct_sha1_update_def ca Let_def del: length_drop)
    moreover have "length (drop (unat i') d @ drop (length (drop (unat i') d)) ?b) = 64"
      using small b by (intro length_refill) simp
    moreover have "take ((?p + length d) mod 64) (drop (unat i') d @ t) = drop (unat i') d" for t
      unfolding rest [symmetric] by (simp del: length_drop)
    then have "(fst (absorb (sha1_transform sys) ?st (drop (64 - ?p) d)), take ((?p + length d) mod 64)
        (drop (unat i') d @ drop (length (drop (unat i') d)) ?b)) =
        absorb (sha1_transform sys) (sha1_state c) (take ?p (sha1_buffer c) @ d)"
      by (simp only: ab i'(3) prod.collapse)
    ultimately show ?thesis by blast
  qed
  then obtain h m where "ct_sha1_update sys c d = Some (?c\<lparr>sha1_state := h, sha1_buffer := m\<rparr>)"
      "length m = 64" "(h, take ((?p + length d) mod 64) m) =
      absorb (sha1_transform sys) (sha1_state c) (take ?p (sha1_buffer c) @ d)" by blast
  then show ?thesis using tot pos
    by (intro exI [of _ "?c\<lparr>sha1_state := h, sha1_buffer := m\<rparr>"])
      (simp add: sha1_good_def sha1_pending_def sha1_total_def)
qed

interpretation sha1_stream: streaming_hash sha1_good sha1_state sha1_pending sha1_total sha1_fits
  "sha1_transform sys" "ct_sha1_update sys" for sys
proof unfold_locales
  show "\<exists>s'. ct_sha1_update sys s d = Some s' \<and> sha1_good s' \<and>
      (sha1_state s', sha1_pending s') = absorb (sha1_transform sys) (sha1_state s) (sha1_pending s @ d) \<and>
      sha1_total s' = sha1_total s + of_nat (8 * length d)" if "sha1_good s" "sha1_fits d" for s d
    using that by (rule sha1_update_law)
  show "length (sha1_pending s) < 64" if "sha1_good s" for s
    using that block_pos_lt [of "sha1_count0 s"] by (simp add: sha1_good_def sha1_pending_def)
qed

section \<open>Padding\<close>

lemma pad_test: "(lo AND 504) \<noteq> 448 \<longleftrightarrow> block_pos lo \<noteq> 56"
proof -
  have "(504 :: u32) = push_bit 3 (mask 6)" by (simp add: mask_eq_exp_minus_1 push_bit_eq_mult)
  then have "lo AND 504 = lo AND push_bit 3 (mask 6)" by (simp only:)
  also have "\<dots> = push_bit 3 (take_bit 6 (drop_bit 3 lo))"
    by (intro bit_word_eqI) (auto simp: bit_simps)
  finally have "lo AND 504 = push_bit 3 (take_bit 6 (drop_bit 3 lo))" .
  moreover have "(448 :: u32) = push_bit 3 56" by (simp add: push_bit_eq_mult)
  moreover have "push_bit 3 (take_bit 6 (drop_bit 3 lo)) = push_bit 3 56 \<longleftrightarrow> take_bit 6 (drop_bit 3 lo) = (56 :: u32)"
  proof
    assume "push_bit 3 (take_bit 6 (drop_bit 3 lo)) = push_bit 3 (56 :: u32)"
    then have "drop_bit 3 (push_bit 3 (take_bit 6 (drop_bit 3 lo))) = drop_bit 3 (push_bit 3 (56 :: u32))"
      by simp
    moreover have "drop_bit 3 (push_bit 3 (take_bit 6 x)) = take_bit 6 (x :: u32)" for x
      by (rule bit_word_eqI) (auto simp: bit_simps)
    ultimately show "take_bit 6 (drop_bit 3 lo) = 56" by (simp add: push_bit_eq_mult drop_bit_eq_div)
  qed simp
  moreover have "take_bit 6 (drop_bit 3 lo) = (56 :: u32) \<longleftrightarrow> block_pos lo = 56"
    by (simp only: block_pos_nat word_unat_eq_iff unsigned_take_bit_eq unat_drop_bit_eq)
      (simp add: take_bit_eq_mod drop_bit_eq_div)
  ultimately show ?thesis by (simp only:)
qed

lemma sha1_update_pos:
  assumes "sha1_good c" and "sha1_fits d" and "ct_sha1_update sys c d = Some c'"
  shows "sha1_good c'" and "block_pos (sha1_count0 c') = (block_pos (sha1_count0 c) + length d) mod 64"
proof -
  show "sha1_good c'" using sha1_update_law [OF assms(1,2), of sys] assms(3) by auto
  have "length (sha1_pending c') = length (snd (absorb (sha1_transform sys) (sha1_state c) (sha1_pending c @ d)))"
    using sha1_update_law [OF assms(1,2), of sys] assms(3) by (auto simp: prod_eq_iff)
  also have "\<dots> = (length (sha1_pending c) + length d) mod 64" by (simp add: absorb_rest)
  finally show "block_pos (sha1_count0 c') = (block_pos (sha1_count0 c) + length d) mod 64"
    using \<open>sha1_good c'\<close> assms(1) block_pos_lt [of "sha1_count0 c"] block_pos_lt [of "sha1_count0 c'"]
    by (simp add: sha1_pending_def sha1_good_def)
qed

lemma pad_left: "p < 64 \<Longrightarrow> (120 - p) mod 64 = (if p \<le> 56 then 56 - p else 120 - p :: nat)"
proof (cases "p \<le> 56")
  case True
  then have "120 - p = (56 - p) + 64" by simp
  then have "(120 - p) mod 64 = (56 - p) mod 64" by (simp only: mod_add_self2)
  with True show ?thesis by simp
qed simp

lemma pad_next: "p < 64 \<Longrightarrow> (120 - p) mod 64 = Suc k \<Longrightarrow> (120 - (p + 1) mod 64) mod 64 = k"
proof -
  assume p: "p < 64" and k: "(120 - p) mod 64 = Suc k"
  consider "p \<le> 55" | "p = 56" | "57 \<le> p" "p < 63" | "p = 63" using p by linarith
  then show ?thesis
  proof cases
    case 1
    then have "(p + 1) mod 64 = p + 1" by simp
    then show ?thesis using 1 k pad_left [OF p] pad_left [of "p + 1"] by simp
  qed (use k in \<open>auto simp: pad_left\<close>)
qed

lemma sha1_pad_feed:
  assumes "sha1_good c" and "(120 - block_pos (sha1_count0 c)) mod 64 = k"
  shows "sha1_pad sys c = feed (ct_sha1_update sys) c (replicate k [0])"
  using assms
proof (induction k arbitrary: c)
  case 0
  have "block_pos (sha1_count0 c) < 64" by (rule block_pos_lt)
  then have "block_pos (sha1_count0 c) = 56" using 0(2) by (simp add: pad_left split: if_splits)
  then show ?case by (subst sha1_pad.simps) (simp add: pad_test)
next
  case (Suc k)
  let ?p = "block_pos (sha1_count0 c)"
  have p: "?p < 64" by (rule block_pos_lt)
  have "?p \<noteq> 56" using Suc.prems(2) p by (auto simp: pad_left)
  moreover obtain c1 where c1: "ct_sha1_update sys c [0] = Some c1"
    using sha1_update_law [OF Suc.prems(1), of "[0]"] by (auto simp: sha1_fits_def)
  moreover have "(120 - block_pos (sha1_count0 c1)) mod 64 = k"
    using sha1_update_pos(2) [OF Suc.prems(1) _ c1] pad_next [OF p Suc.prems(2)]
    by (simp add: sha1_fits_def)
  ultimately show ?case
    using Suc.IH [of c1] sha1_update_pos(1) [OF Suc.prems(1) _ c1]
    by (subst sha1_pad.simps) (simp add: pad_test sha1_fits_def)
qed

section \<open>The last call\<close>

lemma ucast_low_byte: "ucast (x AND 255 :: u32) = (ucast x :: u8)"
proof -
  have "(255 :: u32) = mask 8" by (simp add: mask_eq_exp_minus_1)
  then have "ucast (x AND 255) = (ucast (x AND mask 8) :: u8)" by (simp only:)
  also have "\<dots> = ucast x" by (rule bit_word_eqI) (auto simp: bit_simps)
  finally show ?thesis .
qed

lemma sha1_finalcount:
  "map (\<lambda>i. ucast (drop_bit ((3 - i mod 4) * 8) (if i \<ge> 4 then lo else hi) AND 255)) [0..<8] =
    be_bytes (count64 lo hi)"
  by (simp add: be_bytes_def le_bytes_count64 le_bytes_32 ucast_low_byte upt_rec)

lemma sha1_digest_bytes:
  "map (\<lambda>i. ucast (drop_bit ((3 - i mod 4) * 8) (h ! (i div 4)) AND 255)) [0..<20] = sha1_out h"
proof -
  have u: "[0..<20] = [0, 1, 2, 3, 4, 5, 6, 7, 8, 9, 10, 11, 12, 13, 14, 15, 16, 17, 18, 19]"
    "[0..<5] = [0, 1, 2, 3, 4]"
    by (simp_all add: upt_rec)
  show ?thesis unfolding u sha1_out_def le_bytes_32 by (simp add: ucast_low_byte)
qed

lemma feed_append: "feed f s (xs @ ys) = (feed f s xs \<bind> (\<lambda>s. feed f s ys))"
  by (induction xs arbitrary: s) auto

lemma pad_total: "p < 64 \<Longrightarrow> (120 - (p + 1) mod 64) mod 64 = pad_zeros p"
proof -
  assume p: "p < 64"
  consider "p < 56" | "56 \<le> p" "p < 63" | "p = 63" using p by linarith
  then show ?thesis
  proof cases
    case 1
    then have "(p + 1) mod 64 = p + 1" by simp
    then show ?thesis using 1 pad_left [of "p + 1"] by (simp add: pad_zeros_small)
  next
    case 2
    then have "(p + 1) mod 64 = p + 1" by simp
    then show ?thesis using 2 pad_left [of "p + 1"] by (simp add: pad_zeros_big)
  qed (simp add: pad_zeros_big)
qed

lemma sha1_final_law:
  assumes "sha1_good c"
  shows "\<exists>c'. ct_sha1_final sys c = Some (sha1_out (fst (absorb (sha1_transform sys) (sha1_state c)
      (sha1_pending c @ 0x80 # replicate (pad_zeros (length (sha1_pending c))) 0 @
       be_bytes (sha1_total c)))), c')"
proof -
  let ?p = "block_pos (sha1_count0 c)" and ?u = "ct_sha1_update sys" and ?fc = "be_bytes (sha1_total c)"
  have p: "?p < 64" by (rule block_pos_lt)
  have pend: "length (sha1_pending c) = ?p"
    using assms p by (simp add: sha1_good_def sha1_pending_def)
  have fc: "length ?fc = 8" by (simp add: be_bytes_def)
  let ?ds = "[0x80] # replicate (pad_zeros ?p) [0] @ [?fc]"
  have "\<forall>d \<in> set ?ds. sha1_fits d" using fc by (auto simp: sha1_fits_def)
  then obtain c2 where c2: "feed ?u c ?ds = Some c2"
      "(sha1_state c2, sha1_pending c2) = absorb (sha1_transform sys) (sha1_state c) (sha1_pending c @ concat ?ds)"
    using sha1_stream.feed_concat [OF assms, of ?ds sys] by blast
  obtain c1 where c1: "?u c [0x80] = Some c1" "sha1_good c1"
    using sha1_update_law [OF assms, of "[0x80]" sys] by (auto simp: sha1_fits_def)
  have "block_pos (sha1_count0 c1) = (?p + 1) mod 64"
    using sha1_update_pos(2) [OF assms _ c1(1)] by (simp add: sha1_fits_def)
  then have "sha1_pad sys c1 = feed ?u c1 (replicate (pad_zeros ?p) [0])"
    using c1(2) pad_total [OF p] by (intro sha1_pad_feed) simp_all
  then have "(sha1_pad sys c1 \<bind> (\<lambda>c. ?u c ?fc)) = Some c2"
    using c2(1) c1(1) by (simp add: feed_append split: bind_splits)
  then have "ct_sha1_final sys c = Some (sha1_out (sha1_state c2),
      \<lparr>sha1_state = replicate 5 0, sha1_count0 = 0, sha1_count1 = 0, sha1_buffer = replicate 64 0\<rparr>)"
    using c1(1) by (auto simp: ct_sha1_final_def Let_def sha1_finalcount sha1_digest_bytes
        sha1_total_def [symmetric] bind_eq_Some_conv)
  moreover have "concat (replicate n [0]) = replicate n 0" for n
    by (induction n) auto
  ultimately show ?thesis using c2(2) by (simp add: pend prod_eq_iff)
qed

interpretation sha1: streaming_digest sha1_good sha1_state sha1_pending sha1_total sha1_fits
  "sha1_transform sys" "ct_sha1_update sys" "\<lambda>c. \<exists>m. length (sha1_buffer m) = 64 \<and> c = ct_sha1_init m"
  sha1_iv be_bytes sha1_out "ct_sha1_final sys" for sys
proof unfold_locales
  show "\<exists>s'. ct_sha1_final sys s = Some (sha1_out (fst (absorb (sha1_transform sys) (sha1_state s)
      (sha1_pending s @ 0x80 # replicate (pad_zeros (length (sha1_pending s))) 0 @
       be_bytes (sha1_total s)))), s')" if "sha1_good s" for s
    using that by (rule sha1_final_law)
qed (auto simp: ct_sha1_init_def sha1_good_def sha1_pending_def sha1_total_def count64_def block_pos_nat)

text \<open>C16: Streaming SHA-1 is SHA-1 of the whole message, on hosts of both byte orders and whatever the
  uninitialised buffer of the context held: for any cutting of a message into chunks of less than
  4 GiB, the updates and the padding loop of \<open>ct_sha1_final\<close> terminate, stay inside the buffer and the
  chunks, and yield the digest of the message padded with a one bit, zeros and the big-endian bit
  count.\<close>

theorem sha1_streaming:
  assumes "length (sha1_buffer junk) = 64" and "\<forall>d \<in> set ds. length d < 2 ^ 32"
  shows "map_option fst (feed (ct_sha1_update sys) (ct_sha1_init junk) ds \<bind> ct_sha1_final sys) =
    Some (md_digest (sha1_transform sys) sha1_iv be_bytes sha1_out (concat ds))"
  by (rule sha1.digest_concat) (use assms in \<open>auto simp: sha1_fits_def\<close>)

lemma sha1_streaming_witness:
  "map_option fst (feed (ct_sha1_update CT_ENDIAN_BIG)
      (ct_sha1_init \<lparr>sha1_state = [], sha1_count0 = 7, sha1_count1 = 9, sha1_buffer = replicate 64 1\<rparr>)
      [[97], [], [98, 99]] \<bind> ct_sha1_final CT_ENDIAN_BIG) =
    Some (md_digest (sha1_transform CT_ENDIAN_BIG) sha1_iv be_bytes sha1_out [97, 98, 99])"
  using sha1_streaming [of "\<lparr>sha1_state = [], sha1_count0 = 7, sha1_count1 = 9, sha1_buffer = replicate 64 1\<rparr>"
      "[[97], [], [98, 99]]" CT_ENDIAN_BIG]
  by simp

section \<open>Chunks of 4 GiB\<close>

section \<open>Chunks of 4 GiB\<close>

lemma sha1_guard_holds:
  assumes "2 ^ 32 + 64 \<le> unat (len :: size_t)"
  shows "ucast (i :: u32) + 64 \<le> len"
proof -
  have "unat (ucast i + 64 :: size_t) = unat i + 64"
    using unat_u32_bound [of i] by (subst unat_plus_lt) simp_all
  then show ?thesis using assms unat_u32_bound [of i] by (simp add: word_le_nat_alt)
qed

lemma sha1_blocks_long:
  assumes "2 ^ 32 + 64 \<le> unat len"
  shows "sha1_blocks sys p len i st = None"
proof (rule ccontr)
  assume "sha1_blocks sys p len i st \<noteq> None"
  then obtain r where "sha1_blocks sys p len i st = Some r" by blast
  then have "\<not> 2 ^ 32 + 64 \<le> unat len"
  proof (rule sha1_blocks.raw_induct [where P = "\<lambda>sys p len i st r. \<not> 2 ^ 32 + 64 \<le> unat len", rotated],
      goal_cases)
    case (1 f sys p len i st r)
    show ?case
    proof
      assume big: "2 ^ 32 + 64 \<le> unat len"
      then have "ucast i + 64 \<le> len" by (rule sha1_guard_holds)
      then obtain blk where "f sys p len (i + 64) (sha1_transform sys st blk) = Some r"
        using 1(2) by (auto simp: bind_eq_Some_conv)
      from 1(1) [OF this] big show False by simp
    qed
  qed
  with assms show False by simp
qed

text \<open>C17: A chunk of \<open>2 ^ 32 + 64\<close> bytes or more is never absorbed.  The block loop counts its position
  in a \<open>uint32_t\<close>, so its guard holds for every value the counter can take: \<open>ct_sha1_update\<close> does
  not return, although each read it makes stays inside the chunk.\<close>

theorem sha1_update_diverges:
  assumes "2 ^ 32 + 64 \<le> length d" and "length d + 64 < 2 ^ 64"
  shows "ct_sha1_update sys c d = None \<and>
    (\<forall>i :: u32. ucast i + 64 \<le> (of_nat (length d) :: size_t) \<and> mem_get d (unat i) 64 \<noteq> None)"
proof
  let ?len = "of_nat (length d) :: size_t" and ?j = "of_nat (block_pos (sha1_count0 c)) :: u32"
  have len: "unat ?len = length d" using assms(2) by (intro unat_of_nat_lt) simp
  have big: "2 ^ 32 + 64 \<le> unat ?len" using assms(1) by (simp only: len)
  have p: "block_pos (sha1_count0 c) < 64" by (rule block_pos_lt)
  then have j: "unat ?j = block_pos (sha1_count0 c)" by (intro unat_of_nat_lt) simp
  have "unat (ucast ?j + ?len) = block_pos (sha1_count0 c) + length d"
    using j len p assms(2) by (subst unat_plus_lt) simp_all
  then have gt: "ucast ?j + ?len > 63" using assms(1) by (simp add: word_less_nat_alt)
  show "ct_sha1_update sys c d = None"
    using gt by (simp add: ct_sha1_update_def Let_def split_beta bind_eq_None_conv sha1_blocks_long [OF big])
  show "\<forall>i :: u32. ucast i + 64 \<le> ?len \<and> mem_get d (unat i) 64 \<noteq> None"
  proof
    fix i :: u32
    have "unat i + 64 \<le> length d" using unat_u32_bound [of i] assms(1) by simp
    then show "ucast i + 64 \<le> ?len \<and> mem_get d (unat i) 64 \<noteq> None"
      using sha1_guard_holds [OF big, of i] by (simp add: mem_get_def)
  qed
qed

lemma sha1_update_diverges_witness:
  "ct_sha1_update CT_ENDIAN_LITTLE (ct_sha1_init \<lparr>sha1_state = [], sha1_count0 = 0, sha1_count1 = 0,
     sha1_buffer = replicate 64 0\<rparr>) (replicate (2 ^ 32 + 64) 0) = None"
  using sha1_update_diverges [of "replicate (2 ^ 32 + 64) 0" CT_ENDIAN_LITTLE
      "ct_sha1_init \<lparr>sha1_state = [], sha1_count0 = 0, sha1_count1 = 0, sha1_buffer = replicate 64 0\<rparr>"]
  by (simp only: length_replicate) simp

section \<open>The unrolled rounds\<close>

text \<open>SHA-1 as FIPS 180 states it: a schedule of 80 words, and one round for each with the function and
  the constant of its quarter.\<close>

fun fips_W :: "(nat \<Rightarrow> u32) \<Rightarrow> nat \<Rightarrow> u32" where
  "fips_W M t = (if t < 16 then M t
     else word_rotl 1 (fips_W M (t - 3) XOR fips_W M (t - 8) XOR fips_W M (t - 14) XOR fips_W M (t - 16)))"

declare fips_W.simps [simp del]

definition fips_f :: "nat \<Rightarrow> u32 \<Rightarrow> u32 \<Rightarrow> u32 \<Rightarrow> u32" where
  "fips_f t b c d =
     (if t < 20 then (b AND c) XOR (NOT b AND d)
      else if t < 40 then b XOR c XOR d
      else if t < 60 then (b AND c) XOR (b AND d) XOR (c AND d)
      else b XOR c XOR d)"

definition fips_K :: "nat \<Rightarrow> u32" where
  "fips_K t = (if t < 20 then 0x5A827999 else if t < 40 then 0x6ED9EBA1
     else if t < 60 then 0x8F1BBCDC else 0xCA62C1D6)"

definition fips_round ::
  "(nat \<Rightarrow> u32) \<Rightarrow> nat \<Rightarrow> u32 \<times> u32 \<times> u32 \<times> u32 \<times> u32 \<Rightarrow> u32 \<times> u32 \<times> u32 \<times> u32 \<times> u32" where
  "fips_round M t = (\<lambda>(a, b, c, d, e).
     (word_rotl 5 a + fips_f t b c d + e + fips_K t + fips_W M t, a, word_rotl 30 b, c, d))"

definition fips_sha1 :: "u32 list \<Rightarrow> (nat \<Rightarrow> u32) \<Rightarrow> u32 list" where
  "fips_sha1 h M =
     (case fold (fips_round M) [0..<80] (h ! 0, h ! 1, h ! 2, h ! 3, h ! 4) of
        (a, b, c, d, e) \<Rightarrow> [h ! 0 + a, h ! 1 + b, h ! 2 + c, h ! 3 + d, h ! 4 + e])"

text \<open>The rows of the source, by formula.\<close>

definition sha1_regs :: "nat \<Rightarrow> sha1_reg" where
  "sha1_regs n = [SA, SB, SC, SD, SE] ! (n mod 5)"

definition sha1_macro where
  "sha1_macro t = (if t < 16 then SHA1_R0 else if t < 20 then SHA1_R1 else if t < 40 then SHA1_R2
     else if t < 60 then SHA1_R3 else SHA1_R4)"

definition sha1_exec :: "ct_endian \<Rightarrow> nat \<Rightarrow> sha1_vars \<Rightarrow> sha1_vars" where
  "sha1_exec sys t = sha1_macro t sys (sha1_regs (4 * t)) (sha1_regs (4 * t + 1)) (sha1_regs (4 * t + 2))
     (sha1_regs (4 * t + 3)) (sha1_regs (4 * t + 4)) t"

lemma sha1_rows:
  "sha1_rounds = map (\<lambda>t. (sha1_macro t, sha1_regs (4 * t), sha1_regs (4 * t + 1), sha1_regs (4 * t + 2),
     sha1_regs (4 * t + 3), sha1_regs (4 * t + 4), t)) [0..<80]"
  by (simp add: sha1_rounds_def sha1_macro_def sha1_regs_def upt_rec)

lemma sha1_regs_5: "sha1_regs (k + 5) = sha1_regs k"
  by (simp add: sha1_regs_def)

lemma sha1_regs_cases:
  fixes t :: nat
  defines "R \<equiv> \<lambda>j. sha1_regs (4 * t + j)"
  obtains "R 0 = SA" "R 1 = SB" "R 2 = SC" "R 3 = SD" "R 4 = SE"
  | "R 0 = SE" "R 1 = SA" "R 2 = SB" "R 3 = SC" "R 4 = SD"
  | "R 0 = SD" "R 1 = SE" "R 2 = SA" "R 3 = SB" "R 4 = SC"
  | "R 0 = SC" "R 1 = SD" "R 2 = SE" "R 3 = SA" "R 4 = SB"
  | "R 0 = SB" "R 1 = SC" "R 2 = SD" "R 3 = SE" "R 4 = SA"
proof -
  have e: "R j = sha1_regs (4 * (t mod 5) + j)" for j
  proof -
    have "(4 * t + j) mod 5 = (4 * (t mod 5) + j) mod 5" by (metis mod_add_left_eq mod_mult_right_eq)
    then show ?thesis by (simp only: sha1_regs_def R_def)
  qed
  have "t mod 5 < 5" by simp
  then consider "t mod 5 = 0" | "t mod 5 = 1" | "t mod 5 = 2" | "t mod 5 = 3" | "t mod 5 = 4" by linarith
  then show thesis
    by cases (use that e [of 0] e [of 1] e [of 2] e [of 3] e [of 4] in \<open>simp_all add: sha1_regs_def\<close>)
qed

definition sha1_blk :: "ct_endian \<Rightarrow> nat \<Rightarrow> u32 list \<Rightarrow> u32 \<times> u32 list" where
  "sha1_blk sys t l = (if t < 16 then SHA1_BLK0 sys l t else SHA1_BLK l t)"

definition sha1_view :: "(sha1_reg \<Rightarrow> u32) \<Rightarrow> nat \<Rightarrow> u32 \<times> u32 \<times> u32 \<times> u32 \<times> u32" where
  "sha1_view r t = (r (sha1_regs (4 * t + 0)), r (sha1_regs (4 * t + 1)), r (sha1_regs (4 * t + 2)),
     r (sha1_regs (4 * t + 3)), r (sha1_regs (4 * t + 4)))"

lemma sha1_funs:
  "((b AND (c XOR d)) XOR d) = (b AND c) XOR (NOT b AND d :: u32)"
  "(((b OR c) AND d) OR (b AND c)) = (b AND c) XOR (b AND d) XOR (c AND d :: u32)"
  by (rule bit_word_eqI, auto simp: bit_simps)+

lemma sha1_step_view:
  assumes "t < 80" and "sha1_view r t = (a, b, c, d, e)" and "sha1_blk sys t l = (fips_W M t, l')"
  shows "\<exists>r'. sha1_exec sys t (r, l) = (r', l') \<and> sha1_view r' (Suc t) = fips_round M t (a, b, c, d, e)"
proof -
  have rol: "SHA1_ROL v 5 = word_rotl 5 v" "SHA1_ROL v 30 = word_rotl 30 v" for v
    unfolding SHA1_ROL_def by (rule rotl32; simp)+
  let ?R = "\<lambda>j. sha1_regs (4 * t + j)"
  let ?r = "(r(?R 4 := r (?R 4) + (fips_f t (r (?R 1)) (r (?R 2)) (r (?R 3)) + fips_W M t + fips_K t +
      word_rotl 5 (r (?R 0)))))"
  let ?r' = "?r(?R 1 := word_rotl 30 (?r (?R 1)))"
  have "sha1_exec sys t (r, l) = (?r', l')"
    using assms(3) unfolding sha1_exec_def sha1_macro_def sha1_blk_def fips_f_def fips_K_def
    by (auto simp: SHA1_R0_def SHA1_R1_def SHA1_R2_def SHA1_R3_def SHA1_R4_def Let_def rol sha1_funs)
  moreover have n: "sha1_regs (4 * Suc t + 0) = ?R 4" "sha1_regs (4 * Suc t + 1) = ?R 0"
    "sha1_regs (4 * Suc t + 2) = ?R 1" "sha1_regs (4 * Suc t + 3) = ?R 2" "sha1_regs (4 * Suc t + 4) = ?R 3"
    using sha1_regs_5 [of "4 * t"] sha1_regs_5 [of "4 * t + 1"] sha1_regs_5 [of "4 * t + 2"]
      sha1_regs_5 [of "4 * t + 3"] by (simp_all add: algebra_simps eval_nat_numeral)
  have "sha1_view ?r' (Suc t) = fips_round M t (a, b, c, d, e)"
    unfolding sha1_view_def n using assms(2)
    by (cases rule: sha1_regs_cases [of t])
      (simp_all add: sha1_view_def fips_round_def algebra_simps)
  ultimately show ?thesis by blast
qed

text \<open>The schedule in place: after \<open>t\<close> rounds each cell holds the latest word of its residue class, or
  the word loaded from the block.\<close>

definition sha1_sched :: "(nat \<Rightarrow> u32) \<Rightarrow> (nat \<Rightarrow> u32) \<Rightarrow> nat \<Rightarrow> u32 list \<Rightarrow> bool" where
  "sha1_sched raw M t l \<longleftrightarrow> length l = 16 \<and> (\<forall>k < 16. t \<le> k \<longrightarrow> l ! k = raw k) \<and>
     (\<forall>k < t. t \<le> k + 16 \<longrightarrow> l ! (k mod 16) = fips_W M k)"

definition be_load :: "u8 list \<Rightarrow> nat \<Rightarrow> u32" where
  "be_load block i = le_word (rev (take 4 (drop (4 * i) block)))"

lemma sha1_swap: "(SHA1_ROL v 24 AND 0xFF00FF00) OR (SHA1_ROL v 8 AND 0x00FF00FF) = ct_binary_bswap32 v"
proof -
  have "le_bytes ((SHA1_ROL v 24 AND 0xFF00FF00) OR (SHA1_ROL v 8 AND 0x00FF00FF)) = rev (le_bytes v)"
    unfolding le_bytes_u32 SHA1_ROL_def
    by (simp, intro conjI; rule bit_word_eqI; simp add: nat_lt_8; elim disjE; simp add: bit_simps)
  then show ?thesis by (simp add: le_bytes_bswap32 flip: le_bytes_inject)
qed

lemma sha1_load:
  assumes "length bs = 4"
  shows "(if sys = CT_ENDIAN_LITTLE then ct_binary_bswap32 (native_word sys bs) else native_word sys bs) =
    le_word (rev bs)"
proof (cases sys)
  case CT_ENDIAN_LITTLE
  have "le_bytes (ct_binary_bswap32 (le_word bs)) = le_bytes (le_word (rev bs) :: u32)"
    using assms by (simp add: le_bytes_bswap32 le_bytes_le_word)
  then show ?thesis using CT_ENDIAN_LITTLE by (simp add: native_word_def le_bytes_inject)
qed (simp add: native_word_def)

lemma sha1_sched_step:
  assumes inv: "sha1_sched (\<lambda>i. native_word sys (take 4 (drop (4 * i) block))) (be_load block) t l"
    and block: "length block = 64" and t: "t < 80"
  obtains l' where "sha1_blk sys t l = (fips_W (be_load block) t, l')"
    and "sha1_sched (\<lambda>i. native_word sys (take 4 (drop (4 * i) block))) (be_load block) (Suc t) l'"
proof (cases "t < 16")
  case True
  let ?raw = "native_word sys (take 4 (drop (4 * t) block)) :: u32"
  have len: "length l = 16" and lt: "l ! t = ?raw" using inv True by (auto simp: sha1_sched_def)
  have W: "fips_W (be_load block) t = le_word (rev (take 4 (drop (4 * t) block)))"
    using True by (simp add: fips_W.simps be_load_def)
  have "length (take 4 (drop (4 * t) block)) = 4" using block True by simp
  from sha1_load [OF this, of sys]
  have blk: "sha1_blk sys t l = (fips_W (be_load block) t, l[t := fips_W (be_load block) t])"
    using True lt W list_update_id [of l t]
    by (auto simp: sha1_blk_def SHA1_BLK0_def SHA1_BLK0_L_def SHA1_BLK0_B_def sha1_swap)
  show thesis
    by (rule that [OF blk]) (use inv True len in \<open>auto simp: sha1_sched_def nth_list_update less_Suc_eq\<close>)
next
  case False
  let ?W = "fips_W (be_load block)"
  have len: "length l = 16" using inv by (simp add: sha1_sched_def)
  have get: "l ! ((t - j) mod 16) = ?W (t - j)" if "0 < j" "j \<le> 16" for j
    using inv that False by (auto simp: sha1_sched_def)
  have idx: "(t + 13) mod 16 = (t - 3) mod 16" "(t + 8) mod 16 = (t - 8) mod 16"
    "(t + 2) mod 16 = (t - 14) mod 16" "t mod 16 = (t - 16) mod 16"
    using False mod_add_self2 [of "t - 3" 16] mod_add_self2 [of "t - 8" 16] mod_add_self2 [of "t - 14" 16]
      mod_add_self2 [of "t - 16" 16] by (simp_all add: algebra_simps)
  have rol: "SHA1_ROL v 1 = word_rotl 1 v" for v
    unfolding SHA1_ROL_def by (rule rotl32; simp)
  have "?W t = SHA1_ROL (l ! ((t + 13) mod 16) XOR l ! ((t + 8) mod 16) XOR l ! ((t + 2) mod 16) XOR
      l ! (t mod 16)) 1"
    using False get [of 3] get [of 8] get [of 14] get [of 16] unfolding rol idx
    by (subst fips_W.simps) simp
  then have blk: "sha1_blk sys t l = (?W t, l[t mod 16 := ?W t])"
    using False by (simp add: sha1_blk_def SHA1_BLK_def Let_def)
  have "l[t mod 16 := ?W t] ! (k mod 16) = ?W k" if "k < Suc t" "Suc t \<le> k + 16" for k
  proof (cases "k = t")
    case True
    then show ?thesis using len by simp
  next
    case neq: False
    then have "\<not> 16 dvd t - k" using that by (intro nat_dvd_not_less) auto
    then have "k mod 16 \<noteq> t mod 16"
      using that mod_eq_dvd_iff_nat [of k t 16] by auto
    then show ?thesis using inv that neq by (auto simp: sha1_sched_def)
  qed
  then show thesis
    by (intro that [OF blk]) (use False len in \<open>auto simp: sha1_sched_def\<close>)
qed

lemma sha1_exec_fold:
  assumes "length block = 64" and "n \<le> 80"
    and "sha1_sched (\<lambda>i. native_word sys (take 4 (drop (4 * i) block))) (be_load block) 0 l"
  shows "\<exists>r' l'. fold (sha1_exec sys) [0..<n] (r, l) = (r', l') \<and>
      sha1_view r' n = fold (fips_round (be_load block)) [0..<n] (sha1_view r 0) \<and>
      sha1_sched (\<lambda>i. native_word sys (take 4 (drop (4 * i) block))) (be_load block) n l'"
  using assms(2)
proof (induction n)
  case 0
  then show ?case using assms(3) by simp
next
  case (Suc n)
  then obtain r1 l1 where 1: "fold (sha1_exec sys) [0..<n] (r, l) = (r1, l1)"
      "sha1_view r1 n = fold (fips_round (be_load block)) [0..<n] (sha1_view r 0)"
      "sha1_sched (\<lambda>i. native_word sys (take 4 (drop (4 * i) block))) (be_load block) n l1" by auto
  have n: "n < 80" using Suc.prems by simp
  obtain l2 where l2: "sha1_blk sys n l1 = (fips_W (be_load block) n, l2)"
      "sha1_sched (\<lambda>i. native_word sys (take 4 (drop (4 * i) block))) (be_load block) (Suc n) l2"
    using sha1_sched_step [OF 1(3) assms(1) n] by blast
  obtain a b c d e where v: "sha1_view r1 n = (a, b, c, d, e)" by (cases "sha1_view r1 n")
  obtain r2 where "sha1_exec sys n (r1, l1) = (r2, l2)"
      "sha1_view r2 (Suc n) = fips_round (be_load block) n (a, b, c, d, e)"
    using sha1_step_view [OF n v l2(1)] by blast
  then show ?case using 1 l2 v by simp
qed

text \<open>C18: The unrolled \<open>sha1_transform\<close>, with its rotating register names and its schedule of 16 words
  expanded in place, computes the compression function of FIPS 180 over a schedule of 80 words, on
  every 64-byte block and every chaining value; the words are the big-endian words of the block on
  hosts of either byte order.\<close>

theorem sha1_transform_fips:
  assumes "length block = 64"
  shows "sha1_transform sys state block = fips_sha1 state (be_load block)"
proof -
  let ?raw = "\<lambda>i. native_word sys (take 4 (drop (4 * i) block)) :: u32"
  let ?l = "map ?raw [0..<16]"
  let ?r = "(\<lambda>_. 0)(SA := state ! 0, SB := state ! 1, SC := state ! 2, SD := state ! 3, SE := state ! 4)"
  have "sha1_sched ?raw (be_load block) 0 ?l" by (simp add: sha1_sched_def)
  then obtain r' l' where f: "fold (sha1_exec sys) [0..<80] (?r, ?l) = (r', l')"
      "sha1_view r' 80 = fold (fips_round (be_load block)) [0..<80] (sha1_view ?r 0)"
    using sha1_exec_fold [OF assms, of 80 sys ?l ?r] by auto
  have v: "sha1_view r' 80 = (r' SA, r' SB, r' SC, r' SD, r' SE)" "sha1_view ?r 0 =
      (state ! 0, state ! 1, state ! 2, state ! 3, state ! 4)"
    by (simp_all add: sha1_view_def sha1_regs_def)
  have "fold (\<lambda>(f, v, w, x, y, z, i). f sys v w x y z i) sha1_rounds (?r, ?l) =
      fold (sha1_exec sys) [0..<80] (?r, ?l)"
    by (simp only: sha1_rows fold_map comp_def prod.case sha1_exec_def [abs_def])
  then show ?thesis
    by (simp only: sha1_transform_def fips_sha1_def Let_def f(1) f(2) [symmetric, unfolded v] prod.case)
qed

lemma sha1_transform_fips_witness:
  "sha1_transform CT_ENDIAN_BIG [1, 2, 3, 4, 5] (replicate 64 7) =
     fips_sha1 [1, 2, 3, 4, 5] (be_load (replicate 64 7))"
  by (rule sha1_transform_fips) simp

end
