(* ===== verification/Coter_Hash.thy ===== *)
theory Coter_Hash
  imports Coter_Digest Coter_Binary
begin

text \<open>
  \<open>crypto/hash/hash.h\<close>, \<open>crypto/src/hash/hash.c\<close>: the string hashes.  A string is the list of its
  bytes, \<open>size\<close> its length; moving \<open>data\<close> forward is dropping from the list.  The first four hashes
  read the string through \<open>const char*\<close>: whether \<open>char\<close> is signed is up to the platform and is the
  parameter \<open>sch\<close> of the model.  Shifting a negative \<open>int\<close> left is modelled as compilers do it, on
  the two's complement pattern.
\<close>

section \<open>Byte-wise hashes\<close>

definition char_u32 :: "bool \<Rightarrow> u8 \<Rightarrow> u32" where
  "char_u32 sch b = (if sch then scast b else ucast b)"

definition ct_hashalgo_times33 :: "bool \<Rightarrow> u8 list option \<Rightarrow> u32" where
  "ct_hashalgo_times33 sch data =
     (case data of None \<Rightarrow> 0
      | Some data \<Rightarrow> fold (\<lambda>c hash. (push_bit 5 hash + hash) + char_u32 sch c) data 5381)"

definition ct_hashalgo_bkdr :: "bool \<Rightarrow> u8 list option \<Rightarrow> u32" where
  "ct_hashalgo_bkdr sch data =
     (case data of None \<Rightarrow> 0
      | Some data \<Rightarrow> fold (\<lambda>c hash. hash * 131 + char_u32 sch c) data 0)"

definition pjw_step :: "bool \<Rightarrow> u8 \<Rightarrow> u32 \<Rightarrow> u32" where
  "pjw_step sch c val =
     (let val = push_bit 4 val + char_u32 sch c;
          tmp = val AND 0xf0000000
      in if tmp \<noteq> 0 then (val XOR drop_bit 24 tmp) XOR tmp else val)"

definition ct_hashalgo_pjw :: "bool \<Rightarrow> u8 list option \<Rightarrow> u32" where
  "ct_hashalgo_pjw sch data =
     (case data of None \<Rightarrow> 0 | Some data \<Rightarrow> fold (pjw_step sch) data 0)"

section \<open>MurmurHash2\<close>

fun murmur2_loop :: "bool \<Rightarrow> u8 list \<Rightarrow> u32 \<Rightarrow> u32 \<times> u8 list" where
  "murmur2_loop sch (d0 # d1 # d2 # d3 # data) h =
     (let k = char_u32 sch d0;
          k = k OR push_bit 8 (char_u32 sch d1);
          k = k OR push_bit 16 (char_u32 sch d2);
          k = k OR push_bit 24 (char_u32 sch d3);
          k = k * 0x5bd1e995;
          k = k XOR drop_bit 24 k;
          k = k * 0x5bd1e995;
          h = h * 0x5bd1e995;
          h = h XOR k
      in murmur2_loop sch data h)"
| "murmur2_loop sch data h = (h, data)"

fun murmur2_tail :: "bool \<Rightarrow> u8 list \<Rightarrow> u32 \<Rightarrow> u32" where
  "murmur2_tail sch [d0, d1, d2] h =
     ((h XOR push_bit 16 (char_u32 sch d2)) XOR push_bit 8 (char_u32 sch d1) XOR char_u32 sch d0) * 0x5bd1e995"
| "murmur2_tail sch [d0, d1] h = (h XOR push_bit 8 (char_u32 sch d1) XOR char_u32 sch d0) * 0x5bd1e995"
| "murmur2_tail sch [d0] h = (h XOR char_u32 sch d0) * 0x5bd1e995"
| "murmur2_tail sch _ h = h"

definition ct_hashalgo_murmurhash2 :: "bool \<Rightarrow> u8 list option \<Rightarrow> u32" where
  "ct_hashalgo_murmurhash2 sch data =
     (case data of None \<Rightarrow> 0
      | Some data \<Rightarrow>
          (let h = 0 XOR ucast (of_nat (length data) :: size_t);
               (h, data) = murmur2_loop sch data h;
               h = murmur2_tail sch data h;
               h = h XOR drop_bit 13 h;
               h = h * 0x5bd1e995;
               h = h XOR drop_bit 15 h
           in h))"

text \<open>The 64-bit variant loads the words in the byte order of the host.\<close>

definition murmur2_m :: u64 where
  "murmur2_m = 0xc6a4a7935bd1e995"

function murmur2_64_loop :: "ct_endian \<Rightarrow> u8 list \<Rightarrow> u64 \<Rightarrow> u64 \<times> u8 list" where
  "murmur2_64_loop sys data h =
     (if length data < 8 then (h, data)
      else let k = native_word sys (take 8 data);
               k = k * murmur2_m;
               k = k XOR drop_bit 47 k;
               k = k * murmur2_m;
               h = h XOR k;
               h = h * murmur2_m
           in murmur2_64_loop sys (drop 8 data) h)"
  by auto
termination by (relation "measure (\<lambda>(sys, data, h). length data)") auto

declare murmur2_64_loop.simps [simp del]

text \<open>The \<open>switch\<close> on \<open>size & 7\<close> falls through from the highest byte to the lowest.\<close>

definition murmur2_64_tail :: "u8 list \<Rightarrow> u64 \<Rightarrow> u64" where
  "murmur2_64_tail data h =
     (let n = length data;
          h = (if n \<ge> 7 then h XOR push_bit 48 (ucast (data ! 6)) else h);
          h = (if n \<ge> 6 then h XOR push_bit 40 (ucast (data ! 5)) else h);
          h = (if n \<ge> 5 then h XOR push_bit 32 (ucast (data ! 4)) else h);
          h = (if n \<ge> 4 then h XOR push_bit 24 (ucast (data ! 3)) else h);
          h = (if n \<ge> 3 then h XOR push_bit 16 (ucast (data ! 2)) else h);
          h = (if n \<ge> 2 then h XOR push_bit 8 (ucast (data ! 1)) else h)
      in if n \<ge> 1 then (h XOR ucast (data ! 0)) * murmur2_m else h)"

definition ct_hashalgo_murmurhash2_64 :: "ct_endian \<Rightarrow> u8 list option \<Rightarrow> u64 \<Rightarrow> u64" where
  "ct_hashalgo_murmurhash2_64 sys data seed =
     (case data of None \<Rightarrow> 0
      | Some data \<Rightarrow>
          (let h = seed XOR (of_nat (length data) * murmur2_m);
               (h, data2) = murmur2_64_loop sys data h;
               h = murmur2_64_tail data2 h;
               h = h XOR drop_bit 47 h;
               h = h * murmur2_m;
               h = h XOR drop_bit 47 h
           in h))"

section \<open>SipHash\<close>

type_synonym sip_state = "u64 \<times> u64 \<times> u64 \<times> u64"

definition ROTATE :: "u64 \<Rightarrow> nat \<Rightarrow> u64" where
  "ROTATE x b = push_bit b x OR drop_bit (64 - b) x"

definition HALF_ROUND :: "nat \<Rightarrow> nat \<Rightarrow> u64 \<times> u64 \<times> u64 \<times> u64 \<Rightarrow> u64 \<times> u64 \<times> u64 \<times> u64" where
  "HALF_ROUND s t = (\<lambda>(a, b, c, d).
     let a = a + b;
         c = c + d;
         b = ROTATE b s XOR a;
         d = ROTATE d t XOR c;
         a = ROTATE a 32
     in (a, b, c, d))"

definition DOUBLE_ROUND :: "sip_state \<Rightarrow> sip_state" where
  "DOUBLE_ROUND = (\<lambda>(v0, v1, v2, v3).
     let (v0, v1, v2, v3) = HALF_ROUND 13 16 (v0, v1, v2, v3);
         (v2, v1, v0, v3) = HALF_ROUND 17 21 (v2, v1, v0, v3);
         (v0, v1, v2, v3) = HALF_ROUND 13 16 (v0, v1, v2, v3);
         (v2, v1, v0, v3) = HALF_ROUND 17 21 (v2, v1, v0, v3)
     in (v0, v1, v2, v3))"

text \<open>Absorb one message word.\<close>

definition sip_word :: "u64 \<Rightarrow> sip_state \<Rightarrow> sip_state" where
  "sip_word mi = (\<lambda>(v0, v1, v2, v3).
     let (v0, v1, v2, v3) = DOUBLE_ROUND (v0, v1, v2, v3 XOR mi)
     in (v0 XOR mi, v1, v2, v3))"

function sip_loop :: "ct_endian \<Rightarrow> u8 list \<Rightarrow> sip_state \<Rightarrow> (sip_state \<times> u8 list) option" where
  "sip_loop sys data v =
     (if length data < 8 then Some (v, data)
      else do {
        mi \<leftarrow> ct_le_get_u64 sys data 0;
        sip_loop sys (drop 8 data) (sip_word mi v) })"
  by auto
termination by (relation "measure (\<lambda>(sys, data, v). length data)") auto

declare sip_loop.simps [simp del]

text \<open>The last word's bytes: the \<open>switch\<close> on what is left copies them over eight zero bytes.\<close>

definition sip_tail :: "u8 list \<Rightarrow> u8 list option" where
  "sip_tail m =
     (let pt = replicate 8 (0 :: u8); size = length m in
      if 4 \<le> size \<and> size \<le> 7 then
        (let pt = (if size \<ge> 7 then pt[6 := m ! 6] else pt);
             pt = (if size \<ge> 6 then pt[5 := m ! 5] else pt);
             pt = (if size \<ge> 5 then pt[4 := m ! 4] else pt)
         in do { w \<leftarrow> mem_get m 0 4; mem_put pt 0 w })
      else
        (let pt = (if size = 3 then pt[2 := m ! 2] else pt);
             pt = (if size = 3 \<or> size = 2 then pt[1 := m ! 1] else pt)
         in Some (if 1 \<le> size \<and> size \<le> 3 then pt[0 := m ! 0] else pt)))"

definition ct_hashalgo_siphash_64 :: "ct_endian \<Rightarrow> u8 list option \<Rightarrow> u8 list \<Rightarrow> u64 option" where
  "ct_hashalgo_siphash_64 sys data siphash_keys =
     (case data of None \<Rightarrow> Some 0
      | Some data \<Rightarrow> do {
          k0 \<leftarrow> ct_le_get_u64 sys siphash_keys 0;
          k1 \<leftarrow> ct_le_get_u64 sys siphash_keys 8;
          let v0 = 0x736f6d6570736575 XOR k0;
          let v1 = 0x646f72616e646f6d XOR k1;
          let v2 = 0x6c7967656e657261 XOR k0;
          let v3 = 0x7465646279746573 XOR k1;
          let b = push_bit 56 (of_nat (length data) :: size_t);
          ((v0, v1, v2, v3), m) \<leftarrow> sip_loop sys data (v0, v1, v2, v3);
          t \<leftarrow> sip_tail m;
          w \<leftarrow> ct_le_get_u64 sys t 0;
          let b = b OR w;
          let v3 = v3 XOR b;
          let (v0, v1, v2, v3) = DOUBLE_ROUND (v0, v1, v2, v3);
          let v0 = v0 XOR b;
          let v2 = v2 XOR 0xff;
          let (v0, v1, v2, v3) = DOUBLE_ROUND (v0, v1, v2, v3);
          let (v0, v1, v2, v3) = DOUBLE_ROUND (v0, v1, v2, v3);
          Some ((v0 XOR v1) XOR (v2 XOR v3)) })"

section \<open>SipHash-2-4\<close>

text \<open>The function as its authors define it: the message, padded with zeros to 7 bytes modulo 8 and
  followed by its length modulo 256, is read as little-endian words.\<close>

definition sipround :: "sip_state \<Rightarrow> sip_state" where
  "sipround = (\<lambda>(v0, v1, v2, v3).
     let v0 = v0 + v1; v1 = word_rotl 13 v1; v1 = v1 XOR v0; v0 = word_rotl 32 v0;
         v2 = v2 + v3; v3 = word_rotl 16 v3; v3 = v3 XOR v2;
         v0 = v0 + v3; v3 = word_rotl 21 v3; v3 = v3 XOR v0;
         v2 = v2 + v1; v1 = word_rotl 17 v1; v1 = v1 XOR v2; v2 = word_rotl 32 v2
     in (v0, v1, v2, v3))"

fun words64 :: "u8 list \<Rightarrow> u64 list" where
  "words64 xs = (if length xs < 8 then [] else le_word (take 8 xs) # words64 (drop 8 xs))"

declare words64.simps [simp del]

definition sip_pad :: "u8 list \<Rightarrow> u8 list" where
  "sip_pad m = m @ replicate (7 - length m mod 8) 0 @ [of_nat (length m)]"

definition sip_compress :: "u64 \<Rightarrow> sip_state \<Rightarrow> sip_state" where
  "sip_compress w = (\<lambda>(v0, v1, v2, v3).
     case sipround (sipround (v0, v1, v2, v3 XOR w)) of (v0, v1, v2, v3) \<Rightarrow> (v0 XOR w, v1, v2, v3))"

definition siphash24 :: "u64 \<Rightarrow> u64 \<Rightarrow> u8 list \<Rightarrow> u64" where
  "siphash24 k0 k1 m =
     (case fold sip_compress (words64 (sip_pad m))
        (0x736f6d6570736575 XOR k0, 0x646f72616e646f6d XOR k1,
         0x6c7967656e657261 XOR k0, 0x7465646279746573 XOR k1) of
        (v0, v1, v2, v3) \<Rightarrow>
          (case (sipround ^^ 4) (v0, v1, v2 XOR 0xff, v3) of
             (v0, v1, v2, v3) \<Rightarrow> (v0 XOR v1) XOR (v2 XOR v3)))"

lemma double_round: "DOUBLE_ROUND v = sipround (sipround v)"
proof -
  have "ROTATE x n = word_rotl n x" if "n \<in> {13, 16, 17, 21, 32}" for x n
    unfolding ROTATE_def by (rule rotl64) (use that in auto)
  then show ?thesis
    by (cases v) (simp add: DOUBLE_ROUND_def HALF_ROUND_def sipround_def Let_def)
qed

lemma sip_word_compress: "sip_word = sip_compress"
  by (simp add: fun_eq_iff sip_word_def sip_compress_def double_round split_beta Let_def)

lemma le_get_u64:
  assumes "off + 8 \<le> length m"
  shows "ct_le_get_u64 sys m off = Some (le_word (take 8 (drop off m)))"
proof -
  obtain bs where bs: "bs = take 8 (drop off m)" "length bs = 8" using assms by simp
  have "le_bytes (ct_binary_bswap64 (le_word (rev bs))) = le_bytes (le_word bs :: u64)"
    using bs(2) by (simp add: le_bytes_bswap64 le_bytes_le_word)
  then have "ct_binary_bswap64 (le_word (rev bs)) = le_word bs" by (simp add: le_bytes_inject)
  then have "ct_binary_bswap64 (le_word (rev (take 8 (drop off m)))) = le_word (take 8 (drop off m))"
    by (simp only: bs(1))
  then show ?thesis using assms
    by (cases sys) (simp_all add: ct_le_get_u64_def CT_BINARY_LOAD_def mem_get_ok native_word_def)
qed

lemma sip_loop_words:
  "\<exists>m. sip_loop sys data v = Some (fold sip_compress (words64 data) v, m) \<and>
     m = drop (8 * (length data div 8)) data"
proof (induction sys data v rule: sip_loop.induct)
  case (1 sys data v)
  show ?case
  proof (cases "length data < 8")
    case True
    then show ?thesis by (subst sip_loop.simps) (simp add: words64.simps)
  next
    case False
    have d: "length data div 8 = Suc ((length data - 8) div 8)" using False by (simp add: le_div_geq)
    show ?thesis using 1 [OF False] False
      by (subst sip_loop.simps, subst words64.simps)
        (simp add: le_get_u64 sip_word_compress d add.commute)
  qed
qed

lemma sip_tail_zeros:
  assumes "length m < 8"
  shows "sip_tail m = Some (m @ replicate (8 - length m) 0)"
proof -
  consider "length m = 0" | "length m = 1" | "length m = 2" | "length m = 3" | "length m = 4"
    | "length m = 5" | "length m = 6" | "length m = 7" using assms by linarith
  then show ?thesis
    by cases (auto simp: sip_tail_def Let_def mem_get_def mem_put_def length_Suc_conv eval_nat_numeral)
qed

lemma words64_append: "8 dvd length xs \<Longrightarrow> words64 (xs @ ys) = words64 xs @ words64 ys"
proof (induction xs rule: words64.induct)
  case (1 xs)
  show ?case
  proof (cases "length xs < 8")
    case True
    then have "xs = []" using 1(2) by (auto dest: dvd_imp_le)
    then show ?thesis by (simp add: words64.simps)
  next
    case False
    then have "8 dvd length (drop 8 xs)" using 1(2) by (simp add: dvd_diff_nat)
    with 1(1) False show ?thesis
      by (subst words64.simps, subst (2) words64.simps) simp
  qed
qed

lemma words64_take: "words64 xs = words64 (take (8 * (length xs div 8)) xs)"
proof -
  have "length (drop (8 * (length xs div 8)) xs) < 8"
    using mod_mult_div_eq [of "length xs" 8] by (simp add: minus_mult_div_eq_mod)
  then have "words64 (drop (8 * (length xs div 8)) xs) = []" by (simp add: words64.simps)
  then show ?thesis
    using words64_append [of "take (8 * (length xs div 8)) xs" "drop (8 * (length xs div 8)) xs"]
    by simp
qed

lemma sip_last_word:
  assumes "length m < 8"
  shows "push_bit 56 w OR le_word (m @ replicate (8 - length m) 0) =
    (le_word (m @ replicate (7 - length m) 0 @ [ucast w]) :: u64)"
proof (rule bit_word_eqI)
  fix n
  assume "n < LENGTH(64)"
  then have n: "n < 64" by simp
  show "bit (push_bit 56 w OR le_word (m @ replicate (8 - length m) 0)) n \<longleftrightarrow>
      bit (le_word (m @ replicate (7 - length m) 0 @ [ucast w]) :: u64) n"
  proof (cases "n < 56")
    case True
    then have "n div 8 < 7" by auto
    then show ?thesis using n True assms by (auto simp: bit_simps bit_le_word nth_append)
  next
    case False
    then have "n div 8 = 7" "n mod 8 = n - 56" using n by (auto simp: div_nat_eqI mod_if)
    then show ?thesis using n False assms by (auto simp: bit_simps bit_le_word nth_append)
  qed
qed

text \<open>C19: \<open>ct_hashalgo_siphash_64\<close> is SipHash-2-4.  For every key and every string, on hosts of both
  byte orders, no read leaves the string or the key, and the result is what the definition of the
  function gives for the padded message.\<close>

theorem siphash_is_siphash24:
  assumes "length keys = 16"
  shows "ct_hashalgo_siphash_64 sys (Some data) keys =
    Some (siphash24 (le_word (take 8 keys)) (le_word (drop 8 keys)) data)"
proof -
  let ?q = "8 * (length data div 8)" and ?n = "of_nat (length data) :: u64"
  let ?m = "drop ?q data"
  have m: "length ?m = length data mod 8"
    using minus_mult_div_eq_mod [of "length data" 8] by simp
  then have m8: "length ?m < 8" by simp
  have b: "(ucast ?n :: u8) = of_nat (length data)" by (rule bit_word_eqI) (simp add: bit_simps)
  let ?w = "le_word (?m @ replicate (7 - length ?m) 0 @ [of_nat (length data)]) :: u64"
  have last: "push_bit 56 ?n OR le_word (?m @ replicate (8 - length ?m) 0) = ?w"
    using sip_last_word [OF m8, of ?n] by (simp only: b)
  have "sip_pad data = take ?q data @ ?m @ replicate (7 - length ?m) 0 @ [of_nat (length data)]"
    unfolding sip_pad_def m by (simp only: append_assoc [symmetric] append_take_drop_id)
  moreover have "length (take ?q data) = ?q" by (simp add: min_absorb2)
  then have "8 dvd length (take ?q data)" by (simp only: dvd_triv_left)
  moreover have "words64 (?m @ replicate (7 - length ?m) 0 @ [of_nat (length data)]) = [?w]"
    using m8 by (subst words64.simps) (simp add: words64.simps [of "[]"])
  ultimately have words: "words64 (sip_pad data) = words64 data @ [?w]"
    by (simp only: words64_append words64_take [symmetric])
  have keys: "ct_le_get_u64 sys keys 0 = Some (le_word (take 8 keys))"
    "ct_le_get_u64 sys keys 8 = Some (le_word (drop 8 keys))" using assms by (simp_all add: le_get_u64)
  have tail: "ct_le_get_u64 sys (?m @ replicate (8 - length ?m) 0) 0 =
      Some (le_word (?m @ replicate (8 - length ?m) 0))"
    using m8 by (subst le_get_u64) simp_all
  let ?k0 = "le_word (take 8 keys) :: u64" and ?k1 = "le_word (drop 8 keys) :: u64"
  let ?init = "(0x736f6d6570736575 XOR ?k0, 0x646f72616e646f6d XOR ?k1,
      0x6c7967656e657261 XOR ?k0, 0x7465646279746573 XOR ?k1)"
  obtain v0 v1 v2 v3 where v: "fold sip_compress (words64 data) ?init = (v0, v1, v2, v3)"
    by (cases "fold sip_compress (words64 data) ?init")
  have loop: "sip_loop sys data ?init = Some ((v0, v1, v2, v3), ?m)"
    using sip_loop_words [of sys data ?init] by (simp only: v) simp
  obtain x0 x1 x2 x3 where x: "sipround (sipround (v0, v1, v2, v3 XOR ?w)) = (x0, x1, x2, x3)"
    by (cases "sipround (sipround (v0, v1, v2, v3 XOR ?w))")
  have final: "(sipround ^^ 4) y = sipround (sipround (sipround (sipround y)))" for y
    by (simp add: eval_nat_numeral)
  have "fold sip_compress (words64 (sip_pad data)) ?init = (x0 XOR ?w, x1, x2, x3)"
    by (simp only: words fold_append comp_apply v fold_simps) (simp only: sip_compress_def prod.case x)
  then have "siphash24 ?k0 ?k1 data = (case sipround (sipround (sipround (sipround
      (x0 XOR ?w, x1, x2 XOR 0xff, x3)))) of (v0, v1, v2, v3) \<Rightarrow> (v0 XOR v1) XOR (v2 XOR v3))"
    by (simp only: siphash24_def prod.case final)
  moreover have "ct_hashalgo_siphash_64 sys (Some data) keys = Some (case sipround (sipround (sipround (sipround
      (x0 XOR ?w, x1, x2 XOR 0xff, x3)))) of (v0, v1, v2, v3) \<Rightarrow> (v0 XOR v1) XOR (v2 XOR v3))"
    unfolding ct_hashalgo_siphash_64_def option.case keys Option.bind.bind_lunit Let_def loop prod.case
      sip_tail_zeros [OF m8] tail last double_round x by (simp add: split_beta)
  ultimately show ?thesis by (simp only:)
qed

lemma siphash_is_siphash24_witness:
  "ct_hashalgo_siphash_64 CT_ENDIAN_BIG (Some []) (map of_nat [0..<16]) =
     Some (siphash24 (le_word (take 8 (map of_nat [0..<16]))) (le_word (drop 8 (map of_nat [0..<16]))) [])"
  by (rule siphash_is_siphash24) simp

section \<open>MurmurHash2 and the sign of characters\<close>

fun murmur2_mix :: "u32 \<Rightarrow> u8 list \<Rightarrow> u32 \<times> u8 list" where
  "murmur2_mix h (d0 # d1 # d2 # d3 # ds) =
     (let k = le_word [d0, d1, d2, d3] * 0x5bd1e995; k = (k XOR drop_bit 24 k) * 0x5bd1e995
      in murmur2_mix ((h * 0x5bd1e995) XOR k) ds)"
| "murmur2_mix h ds = (h, ds)"

definition murmur2 :: "u8 list \<Rightarrow> u32" where
  "murmur2 ds =
     (let (h, r) = murmur2_mix (of_nat (length ds)) ds;
          h = (if r = [] then h else (h XOR le_word r) * 0x5bd1e995);
          h = (h XOR drop_bit 13 h) * 0x5bd1e995
      in h XOR drop_bit 15 h)"

lemma char_ascii: "\<not> sch \<or> b < 0x80 \<Longrightarrow> char_u32 sch b = ucast b"
proof (cases sch)
  case True
  assume "\<not> sch \<or> b < 0x80"
  with True have "unat b < 128" by (simp add: word_less_nat_alt)
  then have "drop_bit 7 b = 0" by (simp only: word_unat_eq_iff unat_drop_bit_eq) (simp add: drop_bit_eq_div)
  then have "\<not> bit b 7" by (simp add: bit_iff_odd_drop_bit)
  then have high: "\<not> bit b n" if "7 \<le> n" for n
    using that by (cases "n = 7") (auto dest: bit_imp_le_length)
  have "bit (scast b :: u32) n \<longleftrightarrow> bit (ucast b :: u32) n" if "n < 32" for n
    using that high by (cases "n < 7") (auto simp: bit_simps min_def)
  then show ?thesis using True by (intro bit_word_eqI) (simp add: char_u32_def)
qed (simp add: char_u32_def)

lemma le_word_4: "le_word [d0, d1, d2, d3] = ucast d0 OR push_bit 8 (ucast d1) OR push_bit 16 (ucast d2) OR
    push_bit 24 (ucast d3 :: u32)"
  by (simp add: push_bit_or push_bit_push_bit or.assoc)

lemma byte_xor:
  "(ucast d0 :: u32) XOR push_bit 8 (ucast (d1 :: u8)) = ucast (d0 :: u8) OR push_bit 8 (ucast d1)"
  "(ucast d0 :: u32) XOR (push_bit 8 (ucast d1) XOR push_bit 16 (ucast (d2 :: u8))) =
    ucast d0 OR push_bit 8 (ucast d1) OR push_bit 16 (ucast d2)"
  by (rule bit_word_eqI, auto simp: bit_simps dest: bit_imp_le_length)+

lemma le_word_xor:
  "(le_word [d0, d1, d2] :: u32) = ucast d0 XOR (push_bit 8 (ucast d1) XOR push_bit 16 (ucast d2))"
  "(le_word [d0, d1] :: u32) = ucast d0 XOR push_bit 8 (ucast d1)"
  "(le_word [d0] :: u32) = ucast d0"
  by (simp_all add: byte_xor push_bit_or push_bit_push_bit or.assoc)

lemma murmur2_loop_mix:
  "\<forall>d \<in> set ds. \<not> sch \<or> d < 0x80 \<Longrightarrow> murmur2_loop sch ds h = murmur2_mix h ds"
  by (induction sch ds h rule: murmur2_loop.induct)
    (simp_all add: Let_def char_ascii le_word_4 or.assoc del: le_word.simps)

lemma murmur2_mix_rest: "length (snd (murmur2_mix h ds)) < 4 \<and> set (snd (murmur2_mix h ds)) \<subseteq> set ds"
  by (induction h ds rule: murmur2_mix.induct) (auto simp: Let_def)

lemma murmur2_tail_word:
  assumes "length r < 4" and "\<forall>d \<in> set r. \<not> sch \<or> d < 0x80"
  shows "murmur2_tail sch r h = (if r = [] then h else (h XOR le_word r) * 0x5bd1e995)"
proof -
  consider "r = []" | d0 where "r = [d0]" | d0 d1 where "r = [d0, d1]" | d0 d1 d2 where "r = [d0, d1, d2]"
    using assms(1) by (auto simp: numeral_eq_Suc less_Suc_eq length_Suc_conv)
  then show ?thesis
    by cases (use assms(2) in \<open>simp_all add: char_ascii le_word_xor xor.assoc xor.commute xor.left_commute
      del: le_word.simps\<close>)
qed

text \<open>C20: \<open>ct_hashalgo_murmurhash2\<close> is MurmurHash2 with seed 0 on strings of bytes below 128, and on
  every string where \<open>char\<close> is unsigned; where \<open>char\<close> is signed, a byte from 128 on is sign extended
  and the result differs from the algorithm's, as the one-byte string \<open>80\<close> shows.\<close>

theorem murmurhash2_ascii:
  "((\<forall>d \<in> set ds. \<not> sch \<or> d < 0x80) \<longrightarrow> ct_hashalgo_murmurhash2 sch (Some ds) = murmur2 ds) \<and>
   ct_hashalgo_murmurhash2 True (Some [0x80]) \<noteq> murmur2 [0x80]"
proof (intro conjI impI)
  assume ascii: "\<forall>d \<in> set ds. \<not> sch \<or> d < 0x80"
  obtain h r where m: "murmur2_mix (of_nat (length ds)) ds = (h, r)"
    by (cases "murmur2_mix (of_nat (length ds)) ds")
  have "length r < 4" "set r \<subseteq> set ds" using murmur2_mix_rest [of "of_nat (length ds)" ds] m by simp_all
  then have "murmur2_tail sch r h = (if r = [] then h else (h XOR le_word r) * 0x5bd1e995)"
    using ascii by (intro murmur2_tail_word) auto
  moreover have "(ucast (of_nat (length ds) :: size_t) :: u32) = of_nat (length ds)"
    by (rule bit_word_eqI) (simp add: bit_simps)
  ultimately show "ct_hashalgo_murmurhash2 sch (Some ds) = murmur2 ds"
    using murmur2_loop_mix [OF ascii] m
    by (simp add: ct_hashalgo_murmurhash2_def murmur2_def Let_def)
next
  show "ct_hashalgo_murmurhash2 True (Some [0x80]) \<noteq> murmur2 [0x80]" by code_simp
qed

lemma murmurhash2_ascii_witness:
  "ct_hashalgo_murmurhash2 True (Some [97, 98, 99, 100, 101]) = murmur2 [97, 98, 99, 100, 101]"
  using murmurhash2_ascii [of "[97, 98, 99, 100, 101]" True] by (simp add: word_less_nat_alt)

end
