(* ===== verification/Coter_Hex.thy ===== *)
theory Coter_Hex
  imports Coter_Prelude
begin

text \<open>
  \<open>encoding/hex.h\<close>, \<open>encoding/src/hex.c\<close>: hexadecimal encoding and decoding.  Characters are their
  codes; the input and the output are separate blocks of memory with checked accesses, and a null
  pointer is \<^const>\<open>None\<close>.
\<close>

section \<open>The code\<close>

definition s_hex_encode_table :: "u8 list" where
  "s_hex_encode_table = [48, 49, 50, 51, 52, 53, 54, 55, 56, 57, 97, 98, 99, 100, 101, 102, 0]"

definition s_hex_decode_table :: "int list" where
  "s_hex_decode_table = [
     -1, -1, -1, -1, -1, -1, -1, -1, -1, -1, -1, -1, -1, -1, -1, -1,
     -1, -1, -1, -1, -1, -1, -1, -1, -1, -1, -1, -1, -1, -1, -1, -1,
     -1, -1, -1, -1, -1, -1, -1, -1, -1, -1, -1, -1, -1, -1, -1, -1,
     0, 1, 2, 3, 4, 5, 6, 7, 8, 9, -1, -1, -1, -1, -1, -1,
     -1, 10, 11, 12, 13, 14, 15, -1, -1, -1, -1, -1, -1, -1, -1, -1,
     -1, -1, -1, -1, -1, -1, -1, -1, -1, -1, -1, -1, -1, -1, -1, -1,
     -1, 10, 11, 12, 13, 14, 15, -1, -1, -1, -1, -1, -1, -1, -1, -1,
     -1, -1, -1, -1, -1, -1, -1, -1, -1, -1, -1, -1, -1, -1, -1, -1,
     -1, -1, -1, -1, -1, -1, -1, -1, -1, -1, -1, -1, -1, -1, -1, -1,
     -1, -1, -1, -1, -1, -1, -1, -1, -1, -1, -1, -1, -1, -1, -1, -1,
     -1, -1, -1, -1, -1, -1, -1, -1, -1, -1, -1, -1, -1, -1, -1, -1,
     -1, -1, -1, -1, -1, -1, -1, -1, -1, -1, -1, -1, -1, -1, -1, -1,
     -1, -1, -1, -1, -1, -1, -1, -1, -1, -1, -1, -1, -1, -1, -1, -1,
     -1, -1, -1, -1, -1, -1, -1, -1, -1, -1, -1, -1, -1, -1, -1, -1,
     -1, -1, -1, -1, -1, -1, -1, -1, -1, -1, -1, -1, -1, -1, -1, -1,
     -1, -1, -1, -1, -1, -1, -1, -1, -1, -1, -1, -1, -1, -1, -1, -1
  ]"

function hex_encode_loop :: "u8 list \<Rightarrow> nat \<Rightarrow> nat \<Rightarrow> nat \<Rightarrow> u8 list \<Rightarrow> (nat \<times> u8 list) option" where
  "hex_encode_loop src data_len mx i out =
     (if i < data_len \<and> i * 2 + 1 < mx then do {
        b \<leftarrow> mem_get src i 1;
        out \<leftarrow> mem_put out (i * 2) [s_hex_encode_table ! unat (drop_bit 4 (b ! 0) AND 0x0F)];
        out \<leftarrow> mem_put out (i * 2 + 1) [s_hex_encode_table ! unat ((b ! 0) AND 0x0F)];
        hex_encode_loop src data_len mx (i + 1) out }
      else Some (i, out))"
  by auto
termination by (relation "measure (\<lambda>(src, data_len, mx, i, out). data_len - i)") auto

declare hex_encode_loop.simps [simp del]

definition ct_hex_encode ::
  "u8 list option \<Rightarrow> nat \<Rightarrow> u8 list option \<Rightarrow> nat \<Rightarrow> (int \<times> u8 list option) option" where
  "ct_hex_encode data data_len out mx =
     (case (data, out) of
        (Some src, Some m) \<Rightarrow>
          (if mx = 0 then Some (-1, out)
           else do {
             (i, m) \<leftarrow> hex_encode_loop src data_len mx 0 m;
             m \<leftarrow> (if i * 2 < mx then mem_put m (i * 2) [0] else Some m);
             Some (c_int (of_nat (i * 2)), Some m) })
      | _ \<Rightarrow> Some (-1, out))"

text \<open>The scan for the terminator of a string whose length is given as 0.\<close>

function hex_strlen :: "u8 list \<Rightarrow> nat \<Rightarrow> nat option" where
  "hex_strlen m p = do {
     c \<leftarrow> mem_get m p 1;
     if c ! 0 = 0 then Some p else hex_strlen m (p + 1) }"
  by auto
termination
  by (relation "measure (\<lambda>(m, p). length m - p)") (auto simp: mem_get_def split: if_splits)

declare hex_strlen.simps [simp del]

function hex_decode_loop ::
  "u8 list \<Rightarrow> nat \<Rightarrow> nat \<Rightarrow> nat \<Rightarrow> u8 list \<Rightarrow> (nat option \<times> u8 list) option" where
  "hex_decode_loop hex hex_len mx i dst =
     (if i < hex_len \<and> i div 2 < mx then do {
        c0 \<leftarrow> mem_get hex i 1;
        c1 \<leftarrow> mem_get hex (i + 1) 1;
        let high = s_hex_decode_table ! unat (c0 ! 0);
        let low = s_hex_decode_table ! unat (c1 ! 0);
        if high = -1 \<or> low = -1 then Some (None, dst)
        else do {
          dst \<leftarrow> mem_put dst (i div 2) [word_of_int (push_bit 4 high OR low)];
          hex_decode_loop hex hex_len mx (i + 2) dst } }
      else Some (Some i, dst))"
  by auto
termination by (relation "measure (\<lambda>(hex, hex_len, mx, i, dst). hex_len - i)") auto

declare hex_decode_loop.simps [simp del]

definition ct_hex_decode ::
  "u8 list option \<Rightarrow> nat \<Rightarrow> u8 list option \<Rightarrow> nat \<Rightarrow> (int \<times> u8 list option) option" where
  "ct_hex_decode hex hex_len out mx =
     (case (hex, out) of
        (Some src, Some dst) \<Rightarrow>
          (if mx = 0 then Some (-1, out)
           else do {
             hex_len \<leftarrow> (if hex_len = 0 then hex_strlen src 0 else Some hex_len);
             if hex_len mod 2 \<noteq> 0 then Some (-1, out)
             else do {
               (r, dst) \<leftarrow> hex_decode_loop src hex_len mx 0 dst;
               (case r of None \<Rightarrow> Some (-1, Some dst)
                | Some i \<Rightarrow> Some (c_int (of_nat (i div 2)), Some dst)) } })
      | _ \<Rightarrow> Some (-1, out))"

section \<open>Digits\<close>

definition hex_digits :: "u8 \<Rightarrow> u8 list" where
  "hex_digits b = [s_hex_encode_table ! unat (drop_bit 4 b AND 0x0F), s_hex_encode_table ! unat (b AND 0x0F)]"

definition hex_value :: "u8 \<Rightarrow> int" where
  "hex_value c = s_hex_decode_table ! unat c"

lemma hex_digits_value:
  "hex_value (hex_digits b ! 0) \<noteq> -1 \<and> hex_value (hex_digits b ! 1) \<noteq> -1 \<and>
   word_of_int (push_bit 4 (hex_value (hex_digits b ! 0)) OR hex_value (hex_digits b ! 1)) = b"
proof -
  have "list_all (\<lambda>n. let b = of_nat n :: u8 in
      hex_value (hex_digits b ! 0) \<noteq> -1 \<and> hex_value (hex_digits b ! 1) \<noteq> -1 \<and>
      word_of_int (push_bit 4 (hex_value (hex_digits b ! 0)) OR hex_value (hex_digits b ! 1)) = b) [0..<256]"
    by code_simp
  moreover have "unat b < 256" using unsigned_less [of b, where ?'a = nat] by simp
  ultimately show ?thesis by (auto simp: list_all_iff Let_def dest!: bspec [of _ _ "unat b"])
qed

section \<open>What the functions compute\<close>

lemma hex_encode_loop_eq:
  assumes "data_len \<le> length src" "mx \<le> length out" "i \<le> k" and k: "k = min data_len (mx div 2)"
  shows "hex_encode_loop src data_len mx i out =
    Some (k, take (2 * i) out @ concat (map hex_digits (drop i (take k src))) @ drop (2 * k) out)"
  using assms(2,3)
proof (induction "k - i" arbitrary: i out)
  case 0
  then have "i = k" by simp
  then have "\<not> (i < data_len \<and> i * 2 + 1 < mx)" using k by auto
  then show ?case using \<open>i = k\<close> by (subst hex_encode_loop.simps) auto
next
  case (Suc n)
  then have i: "i < k" by simp
  then have c: "i < data_len \<and> i * 2 + 1 < mx" using k by auto
  have isrc: "i < length src" using c assms(1) by simp
  let ?b = "src ! i"
  have g: "mem_get src i 1 = Some [?b]"
    using isrc by (simp add: mem_get_def take_Suc_conv_app_nth flip: Cons_nth_drop_Suc)
  let ?o1 = "out[i * 2 := hex_digits ?b ! 0]" and ?o2 = "out[i * 2 := hex_digits ?b ! 0, i * 2 + 1 := hex_digits ?b ! 1]"
  have one: "mem_put m j [x] = Some (m[j := x])" if "j < length m" for m :: "u8 list" and j x
    using that by (simp add: mem_put_def upd_conv_take_nth_drop)
  have step: "hex_encode_loop src data_len mx i out = hex_encode_loop src data_len mx (i + 1) ?o2"
    using c g Suc.prems by (subst hex_encode_loop.simps) (simp add: one hex_digits_def)
  have "hex_encode_loop src data_len mx (i + 1) ?o2 =
      Some (k, take (2 * (i + 1)) ?o2 @ concat (map hex_digits (drop (i + 1) (take k src))) @ drop (2 * k) ?o2)"
    using Suc i by (intro Suc.hyps(1)) simp_all
  moreover have "take (2 * (i + 1)) ?o2 = take (2 * i) out @ hex_digits ?b"
    using c Suc.prems by (simp add: hex_digits_def take_Suc_conv_app_nth mult.commute)
  moreover have "drop (2 * k) ?o2 = drop (2 * k) out" using i by simp
  moreover have "drop i (take k src) = ?b # drop (i + 1) (take k src)"
    using i isrc k assms(1) by (subst Cons_nth_drop_Suc [symmetric]) auto
  ultimately show ?case by (simp add: step)
qed

text \<open>The parse of a string of digit pairs.\<close>

fun hex_parse :: "u8 list \<Rightarrow> u8 list option" where
  "hex_parse (c0 # c1 # cs) =
     (if hex_value c0 = -1 \<or> hex_value c1 = -1 then None
      else map_option (\<lambda>bs. word_of_int (push_bit 4 (hex_value c0) OR hex_value c1) # bs) (hex_parse cs))"
| "hex_parse cs = Some []"

lemma hex_parse_digits: "hex_parse (concat (map hex_digits bs)) = Some bs"
proof (induction bs)
  case (Cons b bs)
  obtain h0 h1 where h: "hex_digits b = [h0, h1]" by (simp add: hex_digits_def)
  then show ?case using hex_digits_value [of b] Cons by simp
qed simp

lemma hex_decode_loop_eq:
  assumes "hex_len \<le> length hex" "even hex_len" "mx \<le> length dst" "j \<le> k" and k: "k = min (hex_len div 2) mx"
  shows "\<exists>d. length d = length dst \<and> hex_decode_loop hex hex_len mx (2 * j) dst =
    Some (case hex_parse (drop (2 * j) (take (2 * k) hex)) of
       None \<Rightarrow> (None, d) | Some bs \<Rightarrow> (Some (2 * k), take j dst @ bs @ drop k dst))"
  using assms(3,4)
proof (induction "k - j" arbitrary: j dst)
  case 0
  then have "j = k" by simp
  then have "\<not> (2 * j < hex_len \<and> 2 * j div 2 < mx)" using k assms(2) by auto
  then show ?case using \<open>j = k\<close> by (subst hex_decode_loop.simps) (auto simp: assms(1))
next
  case (Suc n)
  then have j: "j < k" by simp
  then have c: "2 * j < hex_len \<and> 2 * j div 2 < mx" "2 * j + 1 < hex_len" using k assms(2) by (auto elim!: evenE)
  let ?c0 = "hex ! (2 * j)" and ?c1 = "hex ! (2 * j + 1)"
  have g: "mem_get hex (2 * j) 1 = Some [?c0]" "mem_get hex (2 * j + 1) 1 = Some [?c1]"
    using c assms(1) by (simp_all add: mem_get_def take_Suc_conv_app_nth flip: Cons_nth_drop_Suc)
  have d: "drop (2 * j) (take (2 * k) hex) = ?c0 # ?c1 # drop (2 * (j + 1)) (take (2 * k) hex)"
    using j c assms(1) k by (subst Cons_nth_drop_Suc [symmetric], simp, subst Cons_nth_drop_Suc [symmetric]) auto
  show ?case
  proof (cases "hex_value ?c0 = -1 \<or> hex_value ?c1 = -1")
    case True
    then show ?thesis using c g d
      by (subst hex_decode_loop.simps) (auto simp: hex_value_def Let_def)
  next
    case False
    let ?v = "word_of_int (push_bit 4 (hex_value ?c0) OR hex_value ?c1) :: u8"
    have one: "mem_put m i [x] = Some (m[i := x])" if "i < length m" for m :: "u8 list" and i x
      using that by (simp add: mem_put_def upd_conv_take_nth_drop)
    have "hex_decode_loop hex hex_len mx (2 * j) dst = hex_decode_loop hex hex_len mx (2 * (j + 1)) (dst[j := ?v])"
      using False c g Suc.prems by (subst hex_decode_loop.simps) (simp add: hex_value_def Let_def one)
    moreover obtain d' where "length d' = length (dst[j := ?v])"
      "hex_decode_loop hex hex_len mx (2 * (j + 1)) (dst[j := ?v]) =
        Some (case hex_parse (drop (2 * (j + 1)) (take (2 * k) hex)) of None \<Rightarrow> (None, d')
          | Some bs \<Rightarrow> (Some (2 * k), take (j + 1) (dst[j := ?v]) @ bs @ drop k (dst[j := ?v])))"
    proof -
      have "n = k - (j + 1)" "mx \<le> length (dst[j := ?v])" "j + 1 \<le> k"
        using Suc.hyps(2) Suc.prems j by simp_all
      from Suc.hyps(1) [OF this] show ?thesis using that by blast
    qed
    moreover have "take (j + 1) (dst[j := ?v]) = take j dst @ [?v]" "drop k (dst[j := ?v]) = drop k dst"
      using j k Suc.prems by (simp_all add: take_Suc_conv_app_nth)
    ultimately show ?thesis using False d
      by (intro exI [of _ d']) (simp split: option.split)
  qed
qed

lemma hex_digits_nonzero: "0 \<notin> set (concat (map hex_digits bs))"
proof -
  have z: "hex_value 0 = -1" by (simp add: hex_value_def s_hex_decode_table_def)
  have "0 \<notin> set (hex_digits b)" for b
  proof -
    obtain h0 h1 where h: "hex_digits b = [h0, h1]" by (simp add: hex_digits_def)
    then show ?thesis using hex_digits_value [of b] z by auto
  qed
  then show ?thesis by simp
qed

lemma hex_strlen_ok:
  "0 \<notin> set xs \<Longrightarrow> p \<le> length xs \<Longrightarrow> hex_strlen (xs @ 0 # r) p = Some (length xs)"
proof (induction "length xs - p" arbitrary: p)
  case 0
  then show ?case by (subst hex_strlen.simps) (simp add: mem_get_def)
next
  case (Suc n)
  then have p: "p < length xs" by simp
  then have "mem_get (xs @ 0 # r) p 1 = Some [xs ! p]"
    by (simp add: mem_get_def take_Suc_conv_app_nth nth_append flip: Cons_nth_drop_Suc)
  moreover have "xs ! p \<noteq> 0" using Suc.prems(1) p by (metis nth_mem)
  moreover have "hex_strlen (xs @ 0 # r) (p + 1) = Some (length xs)"
    using Suc p by (intro Suc.hyps(1)) simp_all
  ultimately show ?case by (subst hex_strlen.simps) simp
qed

text \<open>C21: Hexadecimal round trip.  For data of \<open>n\<close> bytes and output blocks that are large enough,
  \<open>ct_hex_encode\<close> writes the \<open>2n\<close> digits and a terminator and nothing else, returns \<open>2n\<close>, and
  \<open>ct_hex_decode\<close> of what it wrote, with the length given or found by scanning, returns \<open>n\<close> and the
  data.\<close>

theorem hex_roundtrip:
  assumes "0 < length data" and "2 * length data < 2 ^ 31" and "2 * length data < mx" "mx \<le> length out"
    and "length data \<le> my" "my \<le> length dst" and "hex_len = 2 * length data \<or> hex_len = 0"
  shows "\<exists>m. ct_hex_encode (Some data) (length data) (Some out) mx = Some (int (2 * length data), Some m) \<and>
     m = concat (map hex_digits data) @ 0 # drop (2 * length data + 1) out \<and>
     ct_hex_decode (Some m) hex_len (Some dst) my =
       Some (int (length data), Some (data @ drop (length data) dst))"
proof -
  let ?n = "length data" and ?cs = "concat (map hex_digits data)"
  let ?m = "?cs @ 0 # drop (2 * ?n + 1) out"
  have len: "length (concat (map hex_digits xs)) = 2 * length xs" for xs
    by (induction xs) (simp_all add: hex_digits_def)
  have ci: "c_int (of_nat k) = int k" if "k < 2 ^ 31" for k
  proof -
    have "unat (of_nat k :: u64) = k" using that by (intro unat_of_nat_lt) simp
    then show ?thesis using c_int_small [of "of_nat k"] that by simp
  qed
  have k: "?n = min ?n (mx div 2)" using assms(3) by auto
  have "hex_encode_loop data ?n mx 0 out = Some (?n, ?cs @ drop (2 * ?n) out)"
    using hex_encode_loop_eq [OF _ assms(4) _ k, of data 0] by simp
  moreover have "mem_put (?cs @ drop (2 * ?n) out) (2 * ?n) [0] = Some ?m"
    using assms(3,4) by (simp add: mem_put_def len drop_Suc tl_drop)
  ultimately have enc: "ct_hex_encode (Some data) ?n (Some out) mx = Some (int (2 * ?n), Some ?m)"
    using assms(2,3) ci [of "2 * ?n"] by (simp add: ct_hex_encode_def mult.commute)
  have scan: "hex_strlen ?m 0 = Some (2 * ?n)"
    using hex_strlen_ok [OF hex_digits_nonzero, of 0 data] by (simp only: len)
  have kd: "?n = min (2 * ?n div 2) my" using assms(5) by simp
  have dec: "hex_decode_loop ?m (2 * ?n) my 0 dst = Some (Some (2 * ?n), data @ drop ?n dst)"
    using hex_decode_loop_eq [OF _ _ assms(6) _ kd, of ?m 0] by (auto simp: len hex_parse_digits)
  have "ct_hex_decode (Some ?m) hex_len (Some dst) my = Some (int ?n, Some (data @ drop ?n dst))"
  proof -
    have my: "0 < my" using assms(1,5) by linarith
    show ?thesis using dec my assms(1,2,7) scan ci [of ?n]
      by (auto simp: ct_hex_decode_def)
  qed
  with enc show ?thesis by blast
qed

lemma hex_roundtrip_witness:
  "ct_hex_encode (Some [0xAB, 0x01]) 2 (Some (replicate 6 7)) 6 =
     Some (4, Some [97, 98, 48, 49, 0, 7])"
proof -
  have d: "concat (map hex_digits [0xAB, 0x01]) = [97, 98, 48, 49]" by code_simp
  have "\<exists>m. ct_hex_encode (Some [0xAB, 0x01]) (length [0xAB, 0x01 :: u8]) (Some (replicate 6 7)) 6 =
      Some (int (2 * length [0xAB, 0x01 :: u8]), Some m) \<and>
     m = concat (map hex_digits [0xAB, 0x01]) @ 0 # drop (2 * length [0xAB, 0x01 :: u8] + 1) (replicate 6 7) \<and>
     ct_hex_decode (Some m) 0 (Some [0, 0]) 2 =
       Some (int (length [0xAB, 0x01 :: u8]), Some ([0xAB, 0x01] @ drop (length [0xAB, 0x01 :: u8]) [0, 0]))"
    by (rule hex_roundtrip) simp_all
  then show ?thesis unfolding d by (auto simp: numeral_2_eq_2)
qed

end
