(* ===== verification/Coter_Base64.thy ===== *)
theory Coter_Base64
  imports Coter_Prelude
begin

text \<open>
  \<open>encoding/base64.h\<close>, \<open>encoding/src/base64.c\<close>: the streaming encoder, the one-shot encoder and the
  decoder.  Characters are their codes.  An output pointer is a block of memory and an offset into
  it; every store is checked.
\<close>

section \<open>The code\<close>

definition base64_encode_single :: "int \<Rightarrow> int" where
  "base64_encode_single c =
     (if c < 26 then c + 65
      else if c < 52 then c - 26 + 97
      else if c < 62 then c - 52 + 48
      else if c = 62 then 43 else 47)"

definition base64_decode_single :: "int \<Rightarrow> int" where
  "base64_decode_single c =
     (if c \<ge> 65 \<and> c \<le> 90 then c - 65
      else if c \<ge> 97 \<and> c \<le> 122 then c + 26 - 97
      else if c \<ge> 48 \<and> c \<le> 57 then c + 52 - 48
      else if c = 43 then 62
      else if c = 47 then 63
      else if c = 61 then 64
      else -1)"

definition CT_BASE64_ENCODE_LENGTH :: "nat \<Rightarrow> nat" where
  "CT_BASE64_ENCODE_LENGTH len = (len div 3) * 4 + (if len mod 3 = 0 then 0 else 4)"

definition CT_BASE64_DECODE_LENGTH :: "nat \<Rightarrow> nat" where
  "CT_BASE64_DECODE_LENGTH len = (len div 4) * 3 + (if len mod 4 = 0 then 0 else 3)"

record ct_base64_encoder =
  b64_bytes :: "u8 list"
  b64_count :: nat

definition ct_base64_encoder_init :: "ct_base64_encoder \<Rightarrow> ct_base64_encoder" where
  "ct_base64_encoder_init encoder = encoder\<lparr>b64_bytes := [0, 0, 0], b64_count := 0\<rparr>"

text \<open>\<open>(char)base64_encode_single(v)\<close>, and the four characters of three pending bytes.\<close>

definition b64_char :: "u8 \<Rightarrow> u8" where
  "b64_char v = word_of_int (base64_encode_single (uint v))"

definition b64_quad :: "u8 list \<Rightarrow> u8 list" where
  "b64_quad s = [b64_char (drop_bit 2 (s ! 0)),
     b64_char (push_bit 4 (s ! 0 AND 3) OR drop_bit 4 (s ! 1)),
     b64_char (push_bit 2 (s ! 1 AND 15) OR drop_bit 6 (s ! 2)),
     b64_char (s ! 2 AND 63)]"

text \<open>Write the pending quad at \<open>out + written\<close> if there is room; \<^const>\<open>None\<close> inside is the early
  \<open>return 0\<close>.\<close>

definition b64_emit ::
  "ct_base64_encoder \<Rightarrow> u8 list \<Rightarrow> nat \<Rightarrow> nat \<Rightarrow> nat \<Rightarrow> (nat option \<times> ct_base64_encoder \<times> u8 list) option" where
  "b64_emit encoder m out written out_max =
     (if written + 4 > out_max then Some (None, encoder, m)
      else do {
        m \<leftarrow> mem_put m (out + written) (b64_quad (b64_bytes encoder));
        Some (Some (written + 4), encoder\<lparr>b64_count := 0\<rparr>, m) })"

fun b64_update_loop ::
  "ct_base64_encoder \<Rightarrow> u8 list \<Rightarrow> u8 list \<Rightarrow> nat \<Rightarrow> nat \<Rightarrow> nat \<Rightarrow>
   (nat option \<times> ct_base64_encoder \<times> u8 list) option" where
  "b64_update_loop encoder [] m out written out_max = Some (Some written, encoder, m)"
| "b64_update_loop encoder (c # cs) m out written out_max = do {
     bs \<leftarrow> mem_put (b64_bytes encoder) (b64_count encoder) [c];
     let encoder = encoder\<lparr>b64_bytes := bs, b64_count := b64_count encoder + 1\<rparr>;
     if b64_count encoder = 3 then do {
       (r, encoder, m) \<leftarrow> b64_emit encoder m out written out_max;
       (case r of None \<Rightarrow> Some (None, encoder, m)
        | Some written \<Rightarrow> b64_update_loop encoder cs m out written out_max) }
     else b64_update_loop encoder cs m out written out_max }"

definition ct_base64_encoder_update ::
  "ct_base64_encoder \<Rightarrow> u8 list \<Rightarrow> u8 list \<Rightarrow> nat \<Rightarrow> nat \<Rightarrow> (nat \<times> ct_base64_encoder \<times> u8 list) option" where
  "ct_base64_encoder_update encoder inp m out out_max = do {
     (r, encoder, m) \<leftarrow>
       (if b64_count encoder = 3 then b64_emit encoder m out 0 out_max
        else Some (Some 0, encoder, m));
     (case r of None \<Rightarrow> Some (0, encoder, m)
      | Some written \<Rightarrow> do {
          (r, encoder, m) \<leftarrow> b64_update_loop encoder inp m out written out_max;
          Some (case r of None \<Rightarrow> 0 | Some written \<Rightarrow> written, encoder, m) }) }"

definition ct_base64_encoder_final ::
  "ct_base64_encoder \<Rightarrow> u8 list \<Rightarrow> nat \<Rightarrow> nat \<Rightarrow> (nat \<times> ct_base64_encoder \<times> u8 list) option" where
  "ct_base64_encoder_final encoder m out out_max =
     (let b1 = b64_bytes encoder ! 0; b2 = b64_bytes encoder ! 1;
          finish = (\<lambda>cs. do {
            m \<leftarrow> mem_put m out cs;
            m \<leftarrow> mem_put m (out + length cs) [0];
            Some (length cs, encoder\<lparr>b64_count := 0\<rparr>, m) })
      in if b64_count encoder > 0 then
           (if out_max < 5 then Some (0, encoder, m)
            else if b64_count encoder = 3 then finish (b64_quad (b64_bytes encoder))
            else if b64_count encoder = 1 then
              finish [b64_char (drop_bit 2 b1), b64_char (push_bit 4 (b1 AND 3)), 61, 61]
            else
              finish [b64_char (drop_bit 2 b1), b64_char (push_bit 4 (b1 AND 3) OR drop_bit 4 b2),
                b64_char (push_bit 2 (b2 AND 15)), 61])
         else if out_max < 1 then Some (0, encoder, m)
         else do { m \<leftarrow> mem_put m out [0]; Some (0, encoder, m) })"

text \<open>The encoder is an uninitialised local: what the stack held is an argument.\<close>

definition ct_base64_encode ::
  "ct_base64_encoder \<Rightarrow> u8 list option \<Rightarrow> u8 list \<Rightarrow> nat \<Rightarrow> (nat \<times> u8 list) option" where
  "ct_base64_encode encoder data m out_max = do {
     m \<leftarrow> (if out_max > 0 then mem_put m 0 [0] else Some m);
     let data_len = (case data of None \<Rightarrow> 0 | Some d \<Rightarrow> length d);
     if out_max < (data_len div 3 + (if data_len mod 3 \<noteq> 0 then 1 else 0)) * 4 + 1 then Some (0, m)
     else do {
       let encoder = ct_base64_encoder_init encoder;
       (written, encoder, m) \<leftarrow>
         (case data of None \<Rightarrow> Some (0, encoder, m)
          | Some d \<Rightarrow> ct_base64_encoder_update encoder d m 0 (out_max - 1));
       (final_written, encoder, m) \<leftarrow> ct_base64_encoder_final encoder m written (out_max - written);
       Some (written + final_written, m) } }"

text \<open>A character reaches \<open>base64_decode_single\<close> as an \<open>int\<close>; codes from 128 on are refused whether
  \<open>char\<close> is signed or not.\<close>

function b64_decode_loop ::
  "u8 list \<Rightarrow> nat \<Rightarrow> u8 list \<Rightarrow> nat \<Rightarrow> (nat option \<times> u8 list) option" where
  "b64_decode_loop data i m len =
     (if i + 3 < length data then
        (let a = base64_decode_single (uint (data ! i));
             b = base64_decode_single (uint (data ! (i + 1)));
             c = base64_decode_single (uint (data ! (i + 2)));
             d = base64_decode_single (uint (data ! (i + 3)))
         in if a = 64 \<or> a < 0 \<or> b = 64 \<or> b < 0 \<or> c < 0 \<or> d < 0 then Some (None, m)
            else do {
              m \<leftarrow> mem_put m len [word_of_int (push_bit 2 a OR drop_bit 4 b)];
              (m, len) \<leftarrow>
                (if data ! (i + 2) \<noteq> 61 then do {
                   m \<leftarrow> mem_put m (len + 1) [word_of_int (push_bit 4 b OR drop_bit 2 c)];
                   if data ! (i + 3) \<noteq> 61 then do {
                     m \<leftarrow> mem_put m (len + 2) [word_of_int (push_bit 6 c OR d)];
                     Some (m, len + 3) }
                   else Some (m, len + 2) }
                 else Some (m, len + 1));
              b64_decode_loop data (i + 4) m len })
      else Some (Some len, m))"
  by auto
termination by (relation "measure (\<lambda>(data, i, m, len). length data - i)") auto

declare b64_decode_loop.simps [simp del]

definition ct_base64_decode :: "u8 list option \<Rightarrow> u8 list \<Rightarrow> nat \<Rightarrow> (nat \<times> u8 list) option" where
  "ct_base64_decode data m out_max = do {
     m \<leftarrow> (if out_max > 0 then mem_put m 0 [0] else Some m);
     let data_len = (case data of None \<Rightarrow> 0 | Some d \<Rightarrow> length d);
     if out_max < data_len div 4 * 3 + 1 then Some (0, m)
     else do {
       (r, m) \<leftarrow> (case data of None \<Rightarrow> Some (Some 0, m) | Some d \<Rightarrow> b64_decode_loop d 0 m 0);
       (case r of None \<Rightarrow> Some (0, m)
        | Some len \<Rightarrow> do { m \<leftarrow> mem_put m len [0]; Some (len, m) }) } }"

section \<open>The text of a message\<close>

text \<open>
  The Base64 text of a byte string as RFC 4648 defines it, with no reference to the code: three bytes
  are a 24-bit number, its four digits to base 64 index the alphabet, and a last group of two or one
  bytes is filled with zero bits, keeps its first three or two digits and is padded with \<open>=\<close>.
\<close>

definition b64_alphabet :: string where
  "b64_alphabet = ''ABCDEFGHIJKLMNOPQRSTUVWXYZabcdefghijklmnopqrstuvwxyz0123456789+/''"

definition b64_group :: "u8 \<Rightarrow> u8 \<Rightarrow> u8 \<Rightarrow> u8 list" where
  "b64_group a b c =
     (let n = unat a * 2 ^ 16 + unat b * 2 ^ 8 + unat c
      in map (\<lambda>d. of_char (b64_alphabet ! d)) [n div 2 ^ 18, n div 2 ^ 12 mod 64, n div 2 ^ 6 mod 64, n mod 64])"

fun b64_text :: "u8 list \<Rightarrow> u8 list" where
  "b64_text (a # b # c # xs) = b64_group a b c @ b64_text xs"
| "b64_text [a, b] = take 3 (b64_group a b 0) @ [of_char CHR ''='']"
| "b64_text [a] = take 2 (b64_group a 0 0) @ [of_char CHR ''='', of_char CHR ''='']"
| "b64_text [] = []"

text \<open>The character function of the code is the alphabet, and its shifts and masks are the digits.\<close>

lemma less_64: "v = take_bit 6 v \<Longrightarrow> v < (64 :: u8)"
proof -
  assume "v = take_bit 6 v"
  then have "unat v = take_bit 6 (unat v)" by (metis unsigned_take_bit_eq)
  then have "unat v < 64" using take_bit_nat_less_exp [of 6 "unat v"] by simp
  then show ?thesis by (simp add: word_less_nat_alt)
qed

lemma nat_below_8: "(n :: nat) < 8 \<longleftrightarrow> n = 0 \<or> n = 1 \<or> n = 2 \<or> n = 3 \<or> n = 4 \<or> n = 5 \<or> n = 6 \<or> n = 7"
  by auto

lemma sextets:
  "drop_bit 2 a < (64 :: u8)" "push_bit 4 (a AND 3) OR drop_bit 4 b < (64 :: u8)"
  "push_bit 2 (b AND 15) OR drop_bit 6 c < (64 :: u8)" "c AND 63 < (64 :: u8)"
  "push_bit 4 (a AND 3) < (64 :: u8)" "push_bit 2 (b AND 15) < (64 :: u8)"
  by (rule less_64, rule bit_word_eqI,
      auto simp: nat_below_8 bit_simps dest: bit_imp_le_length)+

lemma b64_char_alphabet:
  assumes "v < (64 :: u8)"
  shows "b64_char v = of_char (b64_alphabet ! unat v)"
proof -
  have "list_all (\<lambda>n. b64_char (of_nat n) = of_char (b64_alphabet ! n)) [0..<64]" by code_simp
  moreover have "unat v < 64" using assms by (simp add: word_less_nat_alt)
  ultimately show ?thesis by (auto simp: list_all_iff dest!: bspec [of _ _ "unat v"])
qed

lemma digits_64:
  fixes a b c :: nat
  assumes "a < 256" "b < 256" "c < 256"
  defines "n \<equiv> a * 2 ^ 16 + b * 2 ^ 8 + c"
  shows "n div 2 ^ 18 = a div 4" "n div 2 ^ 12 mod 64 = 16 * (a mod 4) + b div 16"
    "n div 2 ^ 6 mod 64 = 4 * (b mod 16) + c div 64" "n mod 64 = c mod 64"
proof -
  define a1 a0 b1 b0 c1 c0 where "a1 = a div 4" and "a0 = a mod 4" and "b1 = b div 16" and "b0 = b mod 16"
    and "c1 = c div 64" and "c0 = c mod 64"
  have e: "a = 4 * a1 + a0" "b = 16 * b1 + b0" "c = 64 * c1 + c0" "a0 < 4" "b0 < 16" "c0 < 64" "b1 < 16" "c1 < 4"
    using assms by (simp_all add: a1_def a0_def b1_def b0_def c1_def c0_def)
  have n: "n = 262144 * a1 + (65536 * a0 + 4096 * b1 + 256 * b0 + 64 * c1 + c0)" by (simp add: n_def e)
  have m: "(64 * k + r) mod 64 = r" if "r < 64" for k r :: nat using that by simp
  have q: "n div 2 ^ 18 = a1" "n div 2 ^ 12 = 64 * a1 + (16 * a0 + b1)"
    "n div 2 ^ 6 = 64 * (64 * a1 + (16 * a0 + b1)) + (4 * b0 + c1)"
    "n = 64 * (64 * (64 * a1 + (16 * a0 + b1)) + (4 * b0 + c1)) + c0"
    unfolding n using e by (simp, (intro div_nat_eqI, simp_all)+)
  show "n div 2 ^ 18 = a div 4" using q(1) by (simp only: a1_def)
  show "n div 2 ^ 12 mod 64 = 16 * (a mod 4) + b div 16"
    unfolding q(2) a0_def [symmetric] b1_def [symmetric] by (rule m) (use e in simp)
  show "n div 2 ^ 6 mod 64 = 4 * (b mod 16) + c div 64"
    unfolding q(3) b0_def [symmetric] c1_def [symmetric] by (rule m) (use e in simp)
  show "n mod 64 = c mod 64"
    unfolding q(4) c0_def [symmetric] by (rule m) (use e in simp)
qed

lemma sextet_nats:
  fixes a b c :: u8
  shows "unat (drop_bit 2 a) = unat a div 4"
    "unat (push_bit 4 (a AND 3) OR drop_bit 4 b) = 16 * (unat a mod 4) + unat b div 16"
    "unat (push_bit 2 (b AND 15) OR drop_bit 6 c) = 4 * (unat b mod 16) + unat c div 64"
    "unat (c AND 63) = unat c mod 64"
proof -
  show "unat (drop_bit 2 a) = unat a div 4" by (simp add: drop_bit_eq_div unat_div)
  have m: "unat (x AND 3) = unat x mod 4" "unat (x AND 15) = unat x mod 16" "unat (x AND 63) = unat x mod 64" for x :: u8
    using take_bit_eq_mask [of 2 x] take_bit_eq_mask [of 4 x] take_bit_eq_mask [of 6 x]
      unsigned_take_bit_eq [of 2 x] unsigned_take_bit_eq [of 4 x]
      unsigned_take_bit_eq [of 6 x]
    by (simp_all add: mask_eq_exp_minus_1 take_bit_eq_mod)
  then show "unat (c AND 63) = unat c mod 64" by simp
  have d: "push_bit 4 (a AND 3) OR drop_bit 4 b = push_bit 4 (a AND 3) + drop_bit 4 b"
    "push_bit 2 (b AND 15) OR drop_bit 6 c = push_bit 2 (b AND 15) + drop_bit 6 c"
    by (rule disjunctive_add [symmetric]; auto simp: bit_simps dest: bit_imp_le_length)+
  have "unat (push_bit 4 (a AND 3)) = 16 * (unat a mod 4)"
    using m(1) [of a] by (simp add: push_bit_eq_mult unat_word_ariths mult.commute)
  moreover have "unat (push_bit 2 (b AND 15)) = 4 * (unat b mod 16)"
    using m(2) [of b] by (simp add: push_bit_eq_mult unat_word_ariths mult.commute)
  moreover have "unat (drop_bit 4 b) = unat b div 16" "unat (drop_bit 6 c) = unat c div 64"
    by (simp_all add: drop_bit_eq_div unat_div)
  moreover have "unat b < 256" "unat c < 256" using unsigned_less [of b] unsigned_less [of c] by simp_all
  ultimately show "unat (push_bit 4 (a AND 3) OR drop_bit 4 b) = 16 * (unat a mod 4) + unat b div 16"
    "unat (push_bit 2 (b AND 15) OR drop_bit 6 c) = 4 * (unat b mod 16) + unat c div 64"
    unfolding d by (subst unat_plus_lt; simp)+
qed

lemma b64_group_quad: "b64_group a b c = b64_quad [a, b, c]"
proof -
  have "unat a < 256" "unat b < 256" "unat c < 256"
    using unsigned_less [of a] unsigned_less [of b] unsigned_less [of c]
    by simp_all
  note dg = digits_64 [OF this]
  show ?thesis
    unfolding b64_group_def Let_def dg b64_quad_def
    by (simp only: list.map nth_Cons_0 nth_Cons_numeral b64_char_alphabet sextets sextet_nats; simp add: numeral_2_eq_2 b64_char_alphabet sextets sextet_nats)
qed

lemma b64_text_code [simp]:
  "b64_text (a # b # c # xs) = b64_quad [a, b, c] @ b64_text xs"
  "b64_text [a, b] = [b64_char (drop_bit 2 a), b64_char (push_bit 4 (a AND 3) OR drop_bit 4 b),
     b64_char (push_bit 2 (b AND 15)), 61]"
  "b64_text [a] = [b64_char (drop_bit 2 a), b64_char (push_bit 4 (a AND 3)), 61, 61]"
  by (simp_all add: b64_group_quad b64_quad_def of_char_def)

declare b64_text.simps(1-3) [simp del]

text \<open>The full quads of a prefix and the bytes left over.\<close>

fun b64_full :: "u8 list \<Rightarrow> u8 list \<times> u8 list" where
  "b64_full (a # b # c # xs) = (case b64_full xs of (t, r) \<Rightarrow> (b64_quad [a, b, c] @ t, r))"
| "b64_full xs = ([], xs)"

lemma b64_full_append:
  "b64_full (xs @ ys) = (case b64_full xs of (t, r) \<Rightarrow> (case b64_full (r @ ys) of (t', r') \<Rightarrow> (t @ t', r')))"
  by (induction xs rule: b64_full.induct) (auto split: prod.splits)

lemma b64_full_rest: "length (snd (b64_full xs)) < 3"
  by (induction xs rule: b64_full.induct) (auto split: prod.splits)

lemma b64_full_length: "length (fst (b64_full xs)) = 4 * (length xs div 3)"
  by (induction xs rule: b64_full.induct) (auto simp: b64_quad_def div_add_self1 split: prod.splits)

lemma b64_text_full: "b64_text xs = fst (b64_full xs) @ b64_text (snd (b64_full xs))"
  by (induction xs rule: b64_full.induct) (auto split: prod.splits)

lemma b64_text_length: "length (b64_text xs) = CT_BASE64_ENCODE_LENGTH (length xs)"
  by (induction xs rule: b64_text.induct) (simp_all add: CT_BASE64_ENCODE_LENGTH_def b64_quad_def div_add_self1)

section \<open>The encoder\<close>

definition b64_ok :: "ct_base64_encoder \<Rightarrow> bool" where
  "b64_ok e \<longleftrightarrow> length (b64_bytes e) = 3 \<and> b64_count e < 3"

definition b64_pending :: "ct_base64_encoder \<Rightarrow> u8 list" where
  "b64_pending e = take (b64_count e) (b64_bytes e)"

lemma mem_put_nil: "off \<le> length m \<Longrightarrow> mem_put m off [] = Some m"
  by (simp add: mem_put_def)

lemma b64_update_loop_law:
  assumes "b64_ok e" and "b64_full (b64_pending e @ d) = (t, r)"
    and "written + length t \<le> out_max" "out + out_max \<le> length m"
  shows "\<exists>e' m'. b64_update_loop e d m out written out_max = Some (Some (written + length t), e', m') \<and>
    b64_ok e' \<and> b64_pending e' = r \<and> mem_put m (out + written) t = Some m'"
  using assms
proof (induction d arbitrary: e t r written m)
  case Nil
  then have "length (b64_pending e) < 3" by (simp add: b64_ok_def b64_pending_def)
  then have "b64_full (b64_pending e) = ([], b64_pending e)"
    by (cases "b64_pending e" rule: b64_full.cases) auto
  with Nil show ?case by (simp add: mem_put_nil)
next
  case (Cons c cs)
  let ?n = "b64_count e" and ?bs = "b64_bytes e"
  have n: "?n < 3" "length ?bs = 3" using Cons.prems(1) by (simp_all add: b64_ok_def)
  let ?e1 = "e\<lparr>b64_bytes := ?bs[?n := c], b64_count := ?n + 1\<rparr>"
  have put: "mem_put ?bs ?n [c] = Some (?bs[?n := c])"
    using n by (simp add: mem_put_def upd_conv_take_nth_drop)
  have pend: "take (?n + 1) (?bs[?n := c]) = b64_pending e @ [c]"
    using n by (simp add: take_Suc_conv_app_nth b64_pending_def)
  show ?case
  proof (cases "?n = 2")
    case False
    then have "b64_ok ?e1" "b64_pending ?e1 = b64_pending e @ [c]"
      using n pend by (simp_all add: b64_ok_def b64_pending_def)
    then show ?thesis using Cons.IH [of ?e1 t r written m] Cons.prems put False by simp
  next
    case True
    then have full: "?bs[?n := c] = b64_pending e @ [c]" using pend n by simp
    let ?e2 = "?e1\<lparr>b64_count := 0\<rparr>" and ?q = "b64_quad (?bs[?n := c])"
    have ok2: "b64_ok ?e2" "b64_pending ?e2 = []" using n by (simp_all add: b64_ok_def b64_pending_def)
    obtain t2 where t2: "b64_full cs = (t2, r)" "t = ?q @ t2"
    proof -
      obtain a b where ab: "b64_pending e = [a, b]"
        using True n by (auto simp: b64_pending_def numeral_eq_Suc length_Suc_conv)
      show thesis using Cons.prems(2) that unfolding full ab by (auto split: prod.splits)
    qed
    have q4: "length ?q = 4" by (simp add: b64_quad_def)
    obtain m1 where m1: "mem_put m (out + written) ?q = Some m1"
      using Cons.prems(3,4) t2(2) q4 by (simp add: mem_put_def)
    have len1: "length m1 = length m" using m1 by (rule mem_put_length)
    have emit: "b64_emit ?e1 m out written out_max = Some (Some (written + 4), ?e2, m1)"
      using m1 Cons.prems(3) t2(2) q4 by (simp add: b64_emit_def)
    obtain e' m' where e': "b64_update_loop ?e2 cs m1 out (written + 4) out_max =
        Some (Some (written + 4 + length t2), e', m')" "b64_ok e'" "b64_pending e' = r"
        "mem_put m1 (out + (written + 4)) t2 = Some m'"
      using Cons.IH [of ?e2 t2 r "written + 4" m1] ok2 t2 Cons.prems(3,4) q4 len1 by auto
    have "mem_put m (out + written) t = Some m'"
      using mem_put_append [OF m1, of t2 m'] e'(4) t2(2) q4 by (simp add: add.assoc)
    then show ?thesis using e' put emit True t2(2) q4 by (simp add: add.assoc)
  qed
qed

lemma b64_update_law:
  assumes "b64_ok e" and "b64_full (b64_pending e @ d) = (t, r)"
    and "length t \<le> out_max" "out + out_max \<le> length m"
  shows "\<exists>e' m'. ct_base64_encoder_update e d m out out_max = Some (length t, e', m') \<and>
    b64_ok e' \<and> b64_pending e' = r \<and> mem_put m out t = Some m'"
  using b64_update_loop_law [OF assms(1,2), of 0 out_max out m] assms
  by (auto simp: ct_base64_encoder_update_def b64_ok_def)

lemma b64_final_law:
  assumes "b64_ok e" and "length (b64_text (b64_pending e)) + 1 \<le> out_max" "out + out_max \<le> length m"
  shows "\<exists>e'. ct_base64_encoder_final e m out out_max =
    Some (length (b64_text (b64_pending e)), e', take out m @ b64_text (b64_pending e) @ 0 #
      drop (out + length (b64_text (b64_pending e)) + 1) m)"
proof -
  have fin: "do { m \<leftarrow> mem_put m out cs; m \<leftarrow> mem_put m (out + length cs) [0]; Some (length cs, x, m) } =
      Some (length cs, x, take out m @ cs @ 0 # drop (out + length cs + 1) m)"
    if "out + length cs + 1 \<le> length m" for cs x
  proof -
    obtain m1 where m1: "mem_put m out cs = Some m1"
    proof -
      have "out + length cs \<le> length m" using \<open>out + length cs + 1 \<le> length m\<close> by simp
      from mem_put_ok [OF this] show thesis using that by blast
    qed
    moreover obtain m2 where m2: "mem_put m1 (out + length cs) [0] = Some m2"
    proof -
      have "out + length cs + length [0] \<le> length m1"
        using \<open>out + length cs + 1 \<le> length m\<close> mem_put_length [OF m1] by simp
      from mem_put_ok [OF this] show thesis using that by blast
    qed
    ultimately have "mem_put m out (cs @ [0]) = Some m2" by (rule mem_put_append)
    then have "m2 = take out m @ cs @ 0 # drop (out + length cs + 1) m" by (simp add: mem_put_Some)
    then show ?thesis by (simp only: m1 m2 Option.bind.bind_lunit)
  qed
  have n: "b64_count e < 3" "length (b64_bytes e) = 3" using assms(1) by (simp_all add: b64_ok_def)
  then consider "b64_count e = 0" | "b64_count e = 1" | "b64_count e = 2" by linarith
  then show ?thesis
  proof cases
    case 1
    then have "b64_pending e = []" by (simp add: b64_pending_def)
    then show ?thesis using assms(2,3) 1 by (simp add: ct_base64_encoder_final_def mem_put_def)
  next
    case 2
    obtain b1 bs where b1: "b64_bytes e = b1 # bs" using n(2) by (cases "b64_bytes e") auto
    then have p: "b64_text (b64_pending e) = [b64_char (drop_bit 2 b1), b64_char (push_bit 4 (b1 AND 3)), 61, 61]"
      using 2 by (simp add: b64_pending_def)
    show ?thesis using assms(2,3) 2 fin [of "b64_text (b64_pending e)" "e\<lparr>b64_count := 0\<rparr>"] b1
      by (intro exI [of _ "e\<lparr>b64_count := 0\<rparr>"]) (simp add: ct_base64_encoder_final_def Let_def p)
  next
    case 3
    obtain b1 b2 bs where b: "b64_bytes e = b1 # b2 # bs"
      using n(2) by (auto simp: numeral_eq_Suc length_Suc_conv)
    then have p: "b64_text (b64_pending e) = [b64_char (drop_bit 2 b1),
        b64_char (push_bit 4 (b1 AND 3) OR drop_bit 4 b2), b64_char (push_bit 2 (b2 AND 15)), 61]"
      using 3 by (simp add: b64_pending_def)
    show ?thesis using assms(2,3) 3 fin [of "b64_text (b64_pending e)" "e\<lparr>b64_count := 0\<rparr>"] b
      by (intro exI [of _ "e\<lparr>b64_count := 0\<rparr>"]) (simp add: ct_base64_encoder_final_def Let_def p)
  qed
qed

text \<open>Drive the streaming interface: the chunks one after the other, then the last call, each with what
  is left of the output block.\<close>

fun b64_run :: "ct_base64_encoder \<Rightarrow> u8 list list \<Rightarrow> u8 list \<Rightarrow> nat \<Rightarrow> (nat \<times> u8 list) option" where
  "b64_run e [] m out = do {
     (n, e, m) \<leftarrow> ct_base64_encoder_final e m out (length m - out);
     Some (n, m) }"
| "b64_run e (d # ds) m out = do {
     (n, e, m) \<leftarrow> ct_base64_encoder_update e d m out (length m - out);
     (k, m) \<leftarrow> b64_run e ds m (out + n);
     Some (n + k, m) }"

lemma b64_run_text:
  assumes "b64_ok e" and "out + length (b64_text (b64_pending e @ concat ds)) + 1 \<le> length m"
  shows "b64_run e ds m out = Some (length (b64_text (b64_pending e @ concat ds)),
    take out m @ b64_text (b64_pending e @ concat ds) @ 0 #
      drop (out + length (b64_text (b64_pending e @ concat ds)) + 1) m)"
  using assms
proof (induction ds arbitrary: e m out)
  case Nil
  have "length (b64_text (b64_pending e)) + 1 \<le> length m - out" "out + (length m - out) \<le> length m"
    using Nil.prems(2) by simp_all
  from b64_final_law [OF Nil.prems(1) this] show ?case by auto
next
  case (Cons d ds)
  obtain t r where tr: "b64_full (b64_pending e @ d) = (t, r)" by fastforce
  let ?T = "b64_text (r @ concat ds)"
  have T: "b64_text (b64_pending e @ concat (d # ds)) = t @ ?T"
    using b64_text_full [of "b64_pending e @ d @ concat ds"] b64_text_full [of "r @ concat ds"] tr
      b64_full_append [of "b64_pending e @ d" "concat ds"]
    by (simp split: prod.splits)
  obtain e1 m1 where u: "ct_base64_encoder_update e d m out (length m - out) = Some (length t, e1, m1)"
      "b64_ok e1" "b64_pending e1 = r" "mem_put m out t = Some m1"
  proof -
    have "length t \<le> length m - out" "out + (length m - out) \<le> length m"
      using Cons.prems(2) unfolding T by simp_all
    from b64_update_law [OF Cons.prems(1) tr this] show thesis using that by blast
  qed
  have l1: "length m1 = length m" using u(4) by (rule mem_put_length)
  have "b64_run e1 ds m1 (out + length t) = Some (length ?T,
      take (out + length t) m1 @ ?T @ 0 # drop (out + length t + length ?T + 1) m1)"
    using Cons.IH [OF u(2), of "out + length t" m1] Cons.prems(2) u(3) l1 T by simp
  moreover have "take (out + length t) m1 = take out m @ t"
    using u(4) by (auto simp: mem_put_Some)
  moreover have "drop (out + length t + length ?T + 1) m1 = drop (out + length t + length ?T + 1) m"
    by (rule mem_put_frame(2) [OF u(4)]) simp
  ultimately show ?case unfolding T using u(1) by (simp add: add.assoc)
qed

text \<open>C22: Streaming Base64 is Base64.  However a message is cut into chunks, the updates and the last
  call write, one after the other, the Base64 text of the whole message with its padding and a
  terminator, return its length in all, and touch nothing else, when the output has room for it.\<close>

theorem base64_stream:
  assumes "CT_BASE64_ENCODE_LENGTH (length (concat ds)) + 1 \<le> length m"
  shows "b64_run (ct_base64_encoder_init e) ds m 0 =
    Some (length (b64_text (concat ds)), b64_text (concat ds) @ 0 # drop (length (b64_text (concat ds)) + 1) m)"
proof -
  have "b64_ok (ct_base64_encoder_init e)" "b64_pending (ct_base64_encoder_init e) = []"
    by (simp_all add: ct_base64_encoder_init_def b64_ok_def b64_pending_def)
  then show ?thesis
    using b64_run_text [of "ct_base64_encoder_init e" 0 ds m] assms by (simp add: b64_text_length)
qed

lemma base64_stream_witness:
  "b64_run (ct_base64_encoder_init \<lparr>b64_bytes = [9, 9, 9], b64_count = 7\<rparr>) [[77], [97, 110], [77]] (replicate 9 1) 0 =
     Some (length (b64_text [77, 97, 110, 77]), b64_text [77, 97, 110, 77] @ 0 #
       drop (length (b64_text [77, 97, 110, 77]) + 1) (replicate 9 1))"
  using base64_stream [of "[[77], [97, 110], [77]]" "replicate 9 1" "\<lparr>b64_bytes = [9, 9, 9], b64_count = 7\<rparr>"]
  by (simp add: CT_BASE64_ENCODE_LENGTH_def)

lemma base64_encode_text:
  assumes "CT_BASE64_ENCODE_LENGTH (length d) + 1 \<le> out_max" "out_max \<le> length m"
  shows "ct_base64_encode e (Some d) m out_max =
    Some (length (b64_text d), b64_text d @ 0 # drop (length (b64_text d) + 1) m)"
proof -
  let ?e = "ct_base64_encoder_init e"
  have e: "b64_ok ?e" "b64_pending ?e = []"
    by (simp_all add: ct_base64_encoder_init_def b64_ok_def b64_pending_def)
  obtain t r where tr: "b64_full d = (t, r)" by fastforce
  have T: "b64_text d = t @ b64_text r" using b64_text_full [of d] tr by simp
  have len: "length (b64_text d) + 1 \<le> out_max" using assms(1) by (simp add: b64_text_length)
  have m0: "mem_put m 0 [0] = Some (0 # drop 1 m)" using assms by (simp add: mem_put_def)
  have room: "\<not> out_max < (length d div 3 + (if length d mod 3 \<noteq> 0 then 1 else 0)) * 4 + 1"
    using assms(1) by (simp add: CT_BASE64_ENCODE_LENGTH_def split: if_splits)
  obtain e1 m1 where u: "ct_base64_encoder_update ?e d (0 # drop 1 m) 0 (out_max - 1) = Some (length t, e1, m1)"
      "b64_ok e1" "b64_pending e1 = r" "mem_put (0 # drop 1 m) 0 t = Some m1"
  proof -
    have "length t \<le> out_max - 1" "0 + (out_max - 1) \<le> length (0 # drop 1 m)"
      using T len assms(2) by simp_all
    moreover have "b64_full (b64_pending ?e @ d) = (t, r)" using e(2) tr by simp
    ultimately show thesis using b64_update_law [OF e(1)] that by blast
  qed
  have l1: "length m1 = length m" using mem_put_length [OF u(4)] assms by simp
  obtain e2 where f: "ct_base64_encoder_final e1 m1 (length t) (out_max - length t) =
      Some (length (b64_text r), e2, take (length t) m1 @ b64_text r @ 0 #
        drop (length t + length (b64_text r) + 1) m1)"
  proof -
    have "length (b64_text (b64_pending e1)) + 1 \<le> out_max - length t" "length t + (out_max - length t) \<le> length m1"
      using u(3) T len assms(2) l1 by simp_all
    from b64_final_law [OF u(2) this] show thesis using that u(3) by blast
  qed
  have "take (length t) m1 = t" using u(4) by (auto simp: mem_put_Some)
  moreover have "drop (length t + length (b64_text r) + 1) m1 = drop (length (b64_text d) + 1) m"
    using mem_put_frame(2) [OF u(4), of "length (b64_text d) + 1"] T by simp
  ultimately show ?thesis using m0 room u(1) f T assms(1)
    by (simp add: ct_base64_encode_def Let_def)
qed

section \<open>The decoder\<close>

lemma base64_single_inverse:
  "v < 64 \<Longrightarrow> base64_decode_single (uint (b64_char v)) = uint v \<and> b64_char v \<noteq> 61"
proof -
  have "list_all (\<lambda>n. base64_decode_single (uint (b64_char (of_nat n))) = int n \<and> b64_char (of_nat n) \<noteq> 61) [0..<64]"
    by code_simp
  moreover assume "v < 64"
  then have "unat v < 64" by (simp add: word_less_nat_alt)
  ultimately show ?thesis by (auto simp: list_all_iff dest!: bspec [of _ _ "unat v"])
qed

lemma rejoin:
  fixes x y :: u8
  shows "word_of_int (push_bit i (uint x) OR drop_bit j (uint y)) = push_bit i x OR drop_bit j y"
  by (rule bit_word_eqI) (auto simp: bit_simps bit_uint_iff)

lemma rejoin_low: "word_of_int (push_bit i (uint x) OR uint y) = push_bit i x OR (y :: u8)"
  using rejoin [of i x 0 y] by simp

lemma rejoin_bytes:
  fixes a b c :: u8
  shows "push_bit 2 (drop_bit 2 a) OR drop_bit 4 (push_bit 4 (a AND 3) OR drop_bit 4 b) = a"
    and "push_bit 4 (push_bit 4 (a AND 3) OR drop_bit 4 b) OR drop_bit 2 (push_bit 2 (b AND 15) OR drop_bit 6 c) = b"
    and "push_bit 6 (push_bit 2 (b AND 15) OR drop_bit 6 c) OR (c AND 63) = c"
    and "push_bit 2 (drop_bit 2 a) OR drop_bit 4 (push_bit 4 (a AND 3)) = a"
    and "push_bit 4 (push_bit 4 (a AND 3) OR drop_bit 4 b) OR drop_bit 2 (push_bit 2 (b AND 15)) = b"
  by (rule bit_word_eqI; simp add: nat_below_8; elim disjE; simp add: bit_simps)+

lemma b64_char_not_pad: "v < 64 \<Longrightarrow> b64_char v \<noteq> 61"
  using base64_single_inverse by blast

lemma uint_below_64: "v < (64 :: u8) \<Longrightarrow> \<not> (uint v = 64 \<or> uint v < 0)"
  by (auto simp: word_less_def)

lemma drop_four:
  assumes "drop i data = q0 # q1 # q2 # q3 # rest"
  shows "i + 3 < length data" "data ! i = q0" "data ! (i + 1) = q1" "data ! (i + 2) = q2"
    "data ! (i + 3) = q3" "drop (i + 4) data = rest"
proof -
  have "length (drop i data) \<ge> 4" using assms by simp
  then show len: "i + 3 < length data" unfolding length_drop by linarith
  have n: "data ! (i + k) = drop i data ! k" if "k \<le> 3" for k using len that by simp
  show "data ! i = q0" "data ! (i + 1) = q1" "data ! (i + 2) = q2" "data ! (i + 3) = q3"
    using n [of 0] n [of 1] n [of 2] n [of 3] by (simp_all add: assms)
  have "drop (i + 4) data = drop 4 (drop i data)" by (simp add: add.commute)
  then show "drop (i + 4) data = rest" by (simp add: assms)
qed

lemma put_three:
  assumes "len + 3 \<le> length m"
  obtains m1 m2 m3 where "mem_put m len [x] = Some m1" "mem_put m1 (len + 1) [y] = Some m2"
    "mem_put m2 (len + 2) [z] = Some m3" "mem_put m len [x, y, z] = Some m3" "mem_put m len [x, y] = Some m2"
proof -
  obtain m1 where m1: "mem_put m len [x] = Some m1" using assms by (simp add: mem_put_def)
  have l1: "length m1 = length m" using m1 by (rule mem_put_length)
  obtain m2 where m2: "mem_put m1 (len + 1) [y] = Some m2" using assms l1 by (simp add: mem_put_def)
  have l2: "length m2 = length m" using mem_put_length [OF m2] l1 by simp
  obtain m3 where m3: "mem_put m2 (len + 2) [z] = Some m3" using assms l2 by (simp add: mem_put_def)
  have xy: "mem_put m len [x, y] = Some m2" using mem_put_append [OF m1, of "[y]" m2] m2 by simp
  have "mem_put m len [x, y, z] = Some m3" using mem_put_append [OF xy, of "[z]" m3] m3 by simp
  with m1 m2 m3 xy that show thesis by blast
qed

text \<open>One turn of the decoder on a quad of three, two or one bytes.\<close>

lemma b64_single:
  assumes "v < (64 :: u8)"
  shows "base64_decode_single (uint (b64_char v)) = uint v" "b64_char v \<noteq> 61" "uint v \<noteq> 64" "\<not> uint v < 0"
  using base64_single_inverse [OF assms] assms by (auto simp: word_less_def)

lemma decode_pad: "base64_decode_single (uint (61 :: u8)) = 64"
  by (simp add: base64_decode_single_def)

lemma b64_decode_three:
  assumes "drop i data = b64_quad [a, b, c] @ rest" and "mem_put m len [a, b, c] = Some m3"
  shows "b64_decode_loop data i m len = b64_decode_loop data (i + 4) m3 (len + 3)"
proof -
  have "drop i data = b64_char (drop_bit 2 a) # b64_char (push_bit 4 (a AND 3) OR drop_bit 4 b) #
      b64_char (push_bit 2 (b AND 15) OR drop_bit 6 c) # b64_char (c AND 63) # rest"
    using assms(1) by (simp add: b64_quad_def)
  note d = drop_four [OF this]
  have "len + 3 \<le> length m" using assms(2) by (auto simp: mem_put_Some)
  then obtain m1 m2 where p: "mem_put m len [a] = Some m1" "mem_put m1 (len + 1) [b] = Some m2"
      "mem_put m2 (len + 2) [c] = Some m3"
    using put_three [of len m a b c] assms(2) by (metis option.inject)
  note s = b64_single [OF sextets(1) [of a]] b64_single [OF sextets(2) [of a b]]
    b64_single [OF sextets(3) [of b c]] b64_single [OF sextets(4) [of c]]
  show ?thesis
    by (subst b64_decode_loop.simps)
      (simp only: d if_True Let_def s rejoin rejoin_low rejoin_bytes p simp_thms if_False if_True Option.bind.bind_lunit
        not_False_eq_True prod.case de_Morgan_disj)
qed

lemma b64_decode_two:
  assumes "drop i data = b64_text [a, b] @ rest" and "mem_put m len [a, b] = Some m2"
  shows "b64_decode_loop data i m len = b64_decode_loop data (i + 4) m2 (len + 2)"
proof -
  have "drop i data = b64_char (drop_bit 2 a) # b64_char (push_bit 4 (a AND 3) OR drop_bit 4 b) #
      b64_char (push_bit 2 (b AND 15)) # 61 # rest"
    using assms(1) by simp
  note d = drop_four [OF this]
  have "len + 2 \<le> length m" using assms(2) by (auto simp: mem_put_Some)
  obtain m1 where p1: "mem_put m len [a] = Some m1" using \<open>len + 2 \<le> length m\<close> by (simp add: mem_put_def)
  obtain m2' where p2: "mem_put m1 (len + 1) [b] = Some m2'"
    using \<open>len + 2 \<le> length m\<close> mem_put_length [OF p1] by (simp add: mem_put_def)
  have p: "mem_put m1 (len + 1) [b] = Some m2" using mem_put_append [OF p1, of "[b]" m2'] p2 assms(2) by simp
  note s = b64_single [OF sextets(1) [of a]] b64_single [OF sextets(2) [of a b]]
    b64_single [OF sextets(6) [of b]]
  have pad: "\<not> (64 :: int) < 0" by simp
  show ?thesis
    by (subst b64_decode_loop.simps)
      (simp only: d if_True Let_def s decode_pad pad rejoin rejoin_bytes p1 p simp_thms if_False Option.bind.bind_lunit
        not_False_eq_True prod.case de_Morgan_disj)
qed

lemma b64_decode_one:
  assumes "drop i data = b64_text [a] @ rest" and "mem_put m len [a] = Some m1"
  shows "b64_decode_loop data i m len = b64_decode_loop data (i + 4) m1 (len + 1)"
proof -
  have "drop i data = b64_char (drop_bit 2 a) # b64_char (push_bit 4 (a AND 3)) # 61 # 61 # rest"
    using assms(1) by simp
  note d = drop_four [OF this]
  note s = b64_single [OF sextets(1) [of a]] b64_single [OF sextets(5) [of a]]
  have pad: "\<not> (64 :: int) < 0" by simp
  show ?thesis
    by (subst b64_decode_loop.simps)
      (simp only: d if_True Let_def s decode_pad pad rejoin rejoin_bytes assms(2) simp_thms if_False
        Option.bind.bind_lunit not_False_eq_True prod.case de_Morgan_disj)
qed

lemma b64_decode_loop_text:
  assumes "i \<le> length data" "drop i data = b64_text xs" "len + length xs \<le> length m"
  shows "\<exists>m'. b64_decode_loop data i m len = Some (Some (len + length xs), m') \<and> mem_put m len xs = Some m'"
  using assms
proof (induction xs arbitrary: i len m rule: b64_text.induct)
  case (1 a b c xs)
  obtain m3 where m3: "mem_put m len [a, b, c] = Some m3" using 1(4) by (simp add: mem_put_def)
  have d: "drop i data = b64_quad [a, b, c] @ b64_text xs" using 1(3) by simp
  have "length (drop i data) = 4 + length (b64_text xs)" using d by (simp add: b64_quad_def)
  then have i4: "i + 4 \<le> length data" unfolding length_drop by linarith
  moreover have "drop (i + 4) data = b64_text xs"
    using d drop_drop [of 4 i data] by (simp add: b64_quad_def add.commute)
  moreover have "(len + 3) + length xs \<le> length m3" using 1(4) mem_put_length [OF m3] by simp
  ultimately obtain m' where m': "b64_decode_loop data (i + 4) m3 (len + 3) = Some (Some (len + 3 + length xs), m')"
      "mem_put m3 (len + 3) xs = Some m'" using 1(1) by blast
  have "mem_put m len ([a, b, c] @ xs) = Some m'" using m'(2) by (intro mem_put_append [OF m3]) (simp add: numeral_3_eq_3)
  then show ?case using m'(1) b64_decode_three [OF d m3] by (simp add: add.commute)
next
  case (2 a b)
  obtain m2 where m2: "mem_put m len [a, b] = Some m2" using 2(3) by (simp add: mem_put_def)
  have d: "drop i data = b64_text [a, b] @ []" using 2(2) by simp
  have "length (drop i data) = 4" using d by simp
  then have "\<not> i + 4 + 3 < length data" unfolding length_drop by linarith
  then show ?case using b64_decode_two [OF d m2] m2 by (subst (asm) b64_decode_loop.simps) simp
next
  case (3 a)
  obtain m1 where m1: "mem_put m len [a] = Some m1" using 3(3) by (simp add: mem_put_def)
  have d: "drop i data = b64_text [a] @ []" using 3(2) by simp
  have "length (drop i data) = 4" using d by simp
  then have "\<not> i + 4 + 3 < length data" unfolding length_drop by linarith
  then show ?case using b64_decode_one [OF d m1] m1 by (subst (asm) b64_decode_loop.simps) simp
next
  case 4
  then have "\<not> i + 3 < length data" by simp
  then show ?case using 4 by (subst b64_decode_loop.simps) (simp add: mem_put_nil)
qed

lemma encode_length_quads: "CT_BASE64_ENCODE_LENGTH n = 4 * ((n + 2) div 3)"
proof -
  define q r where "q = n div 3" and "r = n mod 3"
  have n: "n = 3 * q + r" "r < 3" by (simp_all add: q_def r_def)
  then consider "r = 0" | "r = 1" | "r = 2" by linarith
  then show ?thesis
  proof cases
    case 2
    then have "(n + 2) div 3 = q + 1" using n by simp
    then show ?thesis using 2 by (simp add: CT_BASE64_ENCODE_LENGTH_def flip: q_def r_def)
  next
    case 3
    then have "(n + 2) div 3 = q + 1" using n by simp
    then show ?thesis using 3 by (simp add: CT_BASE64_ENCODE_LENGTH_def flip: q_def r_def)
  qed (use n in \<open>simp add: CT_BASE64_ENCODE_LENGTH_def\<close>)
qed

text \<open>C23: Base64 round trip.  For every byte string and output blocks of the documented sizes,
  \<open>ct_base64_encode\<close> writes the Base64 text with a terminator and returns its length, and
  \<open>ct_base64_decode\<close> of that text writes the bytes with a terminator and returns their number; neither
  touches a byte beyond what it announces.\<close>

theorem base64_roundtrip:
  assumes "CT_BASE64_ENCODE_LENGTH (length d) + 1 \<le> mx" "mx \<le> length m"
    and "CT_BASE64_DECODE_LENGTH (length (b64_text d)) + 1 \<le> my" "my \<le> length w"
  shows "ct_base64_encode e (Some d) m mx =
      Some (length (b64_text d), b64_text d @ 0 # drop (length (b64_text d) + 1) m) \<and>
    ct_base64_decode (Some (b64_text d)) w my = Some (length d, d @ 0 # drop (length d + 1) w)"
proof
  show "ct_base64_encode e (Some d) m mx =
      Some (length (b64_text d), b64_text d @ 0 # drop (length (b64_text d) + 1) m)"
    using assms(1,2) by (rule base64_encode_text)
  define k where "k = (length d + 2) div 3"
  have n4: "length (b64_text d) = 4 * k" by (simp add: b64_text_length encode_length_quads k_def)
  have "3 * k + 1 \<le> my" using assms(3) by (simp add: n4 CT_BASE64_DECODE_LENGTH_def)
  moreover have "length d \<le> 3 * k" unfolding k_def by linarith
  ultimately have fit: "length d + 1 \<le> my" "\<not> my < length (b64_text d) div 4 * 3 + 1"
    by (simp_all add: n4)
  have w0: "mem_put w 0 [0] = Some (0 # drop 1 w)" using fit assms(4) by (simp add: mem_put_def)
  obtain w1 where w1: "b64_decode_loop (b64_text d) 0 (0 # drop 1 w) 0 = Some (Some (length d), w1)"
      "mem_put (0 # drop 1 w) 0 d = Some w1"
  proof -
    have "0 + length d \<le> length (0 # drop 1 w)" using fit assms(4) by simp
    from b64_decode_loop_text [of 0 "b64_text d" d, OF _ _ this] show thesis using that by auto
  qed
  obtain w2 where w2: "mem_put w1 (length d) [0] = Some w2"
  proof -
    have "length d + length [0] \<le> length w1" using mem_put_length [OF w1(2)] fit assms(4) by simp
    then show thesis using that by (rule mem_put_fits)
  qed
  have "mem_put (0 # drop 1 w) 0 (d @ [0]) = Some w2" using w2 by (intro mem_put_append [OF w1(2)]) simp
  then have "w2 = d @ 0 # drop (length d + 1) w" by (simp add: mem_put_Some)
  then show "ct_base64_decode (Some (b64_text d)) w my = Some (length d, d @ 0 # drop (length d + 1) w)"
    using w0 w1(1) w2 fit by (simp add: ct_base64_decode_def Let_def)
qed

lemma base64_roundtrip_witness:
  "ct_base64_decode (Some (b64_text [77, 97, 110, 77])) (replicate 8 1) 7 =
     Some (4, [77, 97, 110, 77, 0, 1, 1, 1])"
proof -
  have "ct_base64_encode \<lparr>b64_bytes = [], b64_count = 1\<rparr> (Some [77, 97, 110, 77]) (replicate 9 1) 9 =
      Some (length (b64_text [77, 97, 110, 77]), b64_text [77, 97, 110, 77] @ 0 #
        drop (length (b64_text [77, 97, 110, 77]) + 1) (replicate 9 1)) \<and>
    ct_base64_decode (Some (b64_text [77, 97, 110, 77])) (replicate 8 1) 7 =
      Some (length [77, 97, 110, 77 :: u8], [77, 97, 110, 77] @ 0 # drop (length [77, 97, 110, 77 :: u8] + 1) (replicate 8 1))"
    by (rule base64_roundtrip)
      (simp_all add: CT_BASE64_ENCODE_LENGTH_def CT_BASE64_DECODE_LENGTH_def b64_text_length del: b64_text_code)
  then show ?thesis by (simp add: numeral_3_eq_3 del: b64_text_code)
qed

text \<open>An update that runs out of room after its first quad has written and consumed input, but reports
  that it wrote nothing.\<close>

lemma base64_update_loses_count:
  "\<exists>e' m'. ct_base64_encoder_update \<lparr>b64_bytes = [0, 0, 0], b64_count = 0\<rparr> [1, 2, 3, 4, 5, 6] (replicate 7 0) 0 7 =
     Some (0, e', m') \<and> b64_count e' = 3 \<and> m' ! 0 = b64_char 0"
  by (simp add: ct_base64_encoder_update_def b64_emit_def mem_put_def b64_quad_def)

end
