(* ===== verification/Coter_Bcd.thy ===== *)
theory Coter_Bcd
  imports Coter_Prelude
begin

text \<open>
  \<open>encoding/bcd.h\<close>: packed binary-coded decimal.  The wide encoders and decoders work on all the
  digits of a word at once, with divisions replaced by multiplications, shifts and masks on lanes of
  the word.
\<close>

section \<open>The code\<close>

definition ct_bcd_is_valid_u8 :: "u8 \<Rightarrow> bool" where
  "ct_bcd_is_valid_u8 bcd \<longleftrightarrow> bcd AND 0x0F \<le> 9 \<and> drop_bit 4 bcd \<le> 9"

definition ct_bcd_is_valid_u16 :: "u16 \<Rightarrow> bool" where
  "ct_bcd_is_valid_u16 bcd \<longleftrightarrow> ct_bcd_is_valid_u8 (ucast bcd) \<and> ct_bcd_is_valid_u8 (ucast (drop_bit 8 bcd))"

definition ct_bcd_is_valid_u32 :: "u32 \<Rightarrow> bool" where
  "ct_bcd_is_valid_u32 bcd \<longleftrightarrow> ct_bcd_is_valid_u16 (ucast bcd) \<and> ct_bcd_is_valid_u16 (ucast (drop_bit 16 bcd))"

definition ct_bcd_is_valid_u64 :: "u64 \<Rightarrow> bool" where
  "ct_bcd_is_valid_u64 bcd \<longleftrightarrow> ct_bcd_is_valid_u32 (ucast bcd) \<and> ct_bcd_is_valid_u32 (ucast (drop_bit 32 bcd))"

text \<open>The 8- and 16-bit functions compute in \<open>unsigned int\<close> and truncate.\<close>

definition ct_bcd_encode_u8 :: "u8 \<Rightarrow> u8" where
  "ct_bcd_encode_u8 bin =
     (let bin = ucast bin mod 100 :: u32
      in ucast (bin + (bin div 10) * 6))"

definition ct_bcd_encode_u16 :: "u16 \<Rightarrow> u16" where
  "ct_bcd_encode_u16 bin =
     (let bin = ucast bin mod 10000 :: u32;
          bin = ucast (ucast (bin + (bin div 100) * 156) :: u16) :: u32;
          lo8 = drop_bit 1 bin AND 0x007F;
          hi8 = drop_bit 9 bin AND 0x007F;
          tens = ucast (ucast (drop_bit 8 (lo8 * 52) OR ((hi8 * 52) AND 0xFF00)) :: u16)
      in ucast (bin + tens * 6))"

definition ct_bcd_encode_u32 :: "u32 \<Rightarrow> u32" where
  "ct_bcd_encode_u32 bin =
     (let bin = bin mod 100000000;
          bin = bin + (bin div 10000) * 55536;
          lo16 = drop_bit 2 bin AND 0x00003FFF;
          hi16 = drop_bit 18 bin AND 0x00003FFF;
          hundreds = drop_bit 15 (lo16 * 1311) OR (push_bit 1 (hi16 * 1311) AND 0xFFFF0000);
          bin = bin + hundreds * 156;
          lo8 = drop_bit 1 bin AND 0x007F007F;
          hi8 = drop_bit 9 bin AND 0x007F007F;
          tens = (drop_bit 8 (lo8 * 52) AND 0x00FF00FF) OR ((hi8 * 52) AND 0xFF00FF00)
      in bin + tens * 6)"

definition ct_bcd_encode_u64 :: "u64 \<Rightarrow> u64" where
  "ct_bcd_encode_u64 bin =
     (let bin = bin mod 10000000000000000;
          bin = bin + (bin div 100000000) * 4194967296;
          hi32_div = ucast ((ucast (drop_bit 32 bin) :: u32) div 10000) :: u64;
          lo32_div = ucast ((ucast bin :: u32) div 10000) :: u64;
          ten_thousands = push_bit 32 hi32_div OR lo32_div;
          bin = bin + ten_thousands * 55536;
          lo16 = drop_bit 2 bin AND 0x00003FFF00003FFF;
          hi16 = drop_bit 18 bin AND 0x00003FFF00003FFF;
          hundreds = (drop_bit 15 (lo16 * 1311) AND 0x0000FFFF0000FFFF) OR
            (push_bit 1 (hi16 * 1311) AND 0xFFFF0000FFFF0000);
          bin = bin + hundreds * 156;
          lo8 = drop_bit 1 bin AND 0x007F007F007F007F;
          hi8 = drop_bit 9 bin AND 0x007F007F007F007F;
          tens = (drop_bit 8 (lo8 * 52) AND 0x00FF00FF00FF00FF) OR ((hi8 * 52) AND 0xFF00FF00FF00FF00)
      in bin + tens * 6)"

definition ct_bcd_decode_u8 :: "u8 \<Rightarrow> u8" where
  "ct_bcd_decode_u8 bcd = ucast ((ucast bcd :: u32) - (drop_bit 4 (ucast bcd) * 6))"

definition ct_bcd_decode_u16 :: "u16 \<Rightarrow> u16" where
  "ct_bcd_decode_u16 bcd =
     (let bcd = ucast bcd :: u32;
          bcd = ucast (ucast (bcd - ((drop_bit 4 bcd AND 0x0F0F) * 6)) :: u16) :: u32
      in ucast (bcd - (drop_bit 8 bcd * 156)))"

definition ct_bcd_decode_u32 :: "u32 \<Rightarrow> u32" where
  "ct_bcd_decode_u32 bcd =
     (let bcd = bcd - (drop_bit 4 bcd AND 0x0F0F0F0F) * 6;
          bcd = bcd - (drop_bit 8 bcd AND 0x00FF00FF) * 156
      in bcd - (drop_bit 16 bcd * 55536))"

definition ct_bcd_decode_u64 :: "u64 \<Rightarrow> u64" where
  "ct_bcd_decode_u64 bcd =
     (let bcd = bcd - (drop_bit 4 bcd AND 0x0F0F0F0F0F0F0F0F) * 6;
          bcd = bcd - (drop_bit 8 bcd AND 0x00FF00FF00FF00FF) * 156;
          bcd = bcd - (drop_bit 16 bcd AND 0x0000FFFF0000FFFF) * 55536
      in bcd - (drop_bit 32 bcd * 4194967296))"

section \<open>Lanes\<close>

text \<open>\<open>pack w ds\<close> is the number whose lanes of \<open>w\<close> bits, lowest first, hold \<open>ds\<close>.\<close>

fun pack :: "nat \<Rightarrow> nat list \<Rightarrow> nat" where
  "pack w [] = 0"
| "pack w (d # ds) = d + 2 ^ w * pack w ds"

lemma pack_split:
  assumes "w = 2 * v" and "B \<le> 2 ^ v"
  shows "pack w ds + pack w (map (\<lambda>d. d div B) ds) * (2 ^ v - B) =
    pack v (concat (map (\<lambda>d. [d mod B, d div B]) ds))"
proof (induction ds)
  case (Cons d ds)
  define k where "k = 2 ^ v - B"
  let ?P = "pack w ds" and ?Q = "pack w (map (\<lambda>d. d div B) ds)"
  have e: "d + d div B * k = d mod B + 2 ^ v * (d div B)"
  proof -
    have "2 ^ v = B + k" using assms(2) by (simp add: k_def)
    then show ?thesis using div_mult_mod_eq [of d B] by (simp add: algebra_simps)
  qed
  have w: "(2::nat) ^ w = 2 ^ v * 2 ^ v" using assms(1) by (simp flip: power_add)
  have "pack w (d # ds) + pack w (map (\<lambda>d. d div B) (d # ds)) * k =
      (d + d div B * k) + 2 ^ w * (?P + ?Q * k)" by (simp add: algebra_simps)
  also have "\<dots> = d mod B + 2 ^ v * (d div B) + 2 ^ v * 2 ^ v * pack v (concat (map (\<lambda>d. [d mod B, d div B]) ds))"
    by (simp only: e w Cons [folded k_def])
  finally show ?case unfolding k_def by (simp add: algebra_simps)
qed simp

lemma pack_mult: "pack w ds * c = pack w (map (\<lambda>d. d * c) ds)"
  by (induction ds) (simp_all add: algebra_simps)

lemma pack_add: "length ds = length es \<Longrightarrow> pack w ds + pack w es = pack w (map2 (+) ds es)"
proof (induction ds es rule: list_induct2)
  case (Cons d ds e es)
  then show ?case by (simp add: distrib_left [symmetric])
qed simp

lemma pack_less: "\<forall>d \<in> set ds. d < 2 ^ w \<Longrightarrow> pack w ds < 2 ^ (w * length ds)"
proof (induction ds)
  case (Cons d ds)
  then have "pack w ds + 1 \<le> 2 ^ (w * length ds)" "d < 2 ^ w" by auto
  then have "2 ^ w * (pack w ds + 1) \<le> 2 ^ w * 2 ^ (w * length ds)" by (intro mult_le_mono2)
  then show ?case using \<open>d < 2 ^ w\<close> by (simp add: power_add)
qed simp

lemma bit_pack:
  assumes "\<forall>d \<in> set ds. d < 2 ^ w" and "0 < w"
  shows "bit (pack w ds) i \<longleftrightarrow> i div w < length ds \<and> bit (ds ! (i div w)) (i mod w)"
  using assms(1)
proof (induction ds arbitrary: i)
  case (Cons d ds)
  have d: "d < 2 ^ w" using Cons.prems by simp
  have "bit (pack w (d # ds)) i \<longleftrightarrow> (if i < w then bit d i else bit (pack w ds) (i - w))"
  proof (cases "i < w")
    case True
    have "bit (d + 2 ^ w * pack w ds) i \<longleftrightarrow> bit (take_bit w (d + 2 ^ w * pack w ds)) i"
      using True by (simp add: bit_simps)
    also have "take_bit w (d + 2 ^ w * pack w ds) = d" using d by (simp add: take_bit_eq_mod)
    finally show ?thesis using True by simp
  next
    case False
    have "drop_bit w (d + 2 ^ w * pack w ds) = pack w ds" using d by (simp add: drop_bit_eq_div)
    then have "bit (pack w ds) (i - w) \<longleftrightarrow> bit (d + 2 ^ w * pack w ds) (w + (i - w))"
      by (metis bit_drop_bit_eq comp_apply)
    then show ?thesis using False by simp
  qed
  then show ?case
    using Cons.IH [of "i - w"] Cons.prems assms(2)
    by (cases "i < w") (simp_all add: le_div_geq le_mod_geq)
qed simp

text \<open>Reading a field of every lane: a shift and a mask that repeats the field at position \<open>p\<close>.\<close>

lemma pack_field:
  assumes ds: "\<forall>d \<in> set ds. d < 2 ^ w" and w: "0 < w" "s + p + j \<le> w"
  shows "drop_bit s (pack w ds) AND pack w (replicate (length ds) (2 ^ p * (2 ^ j - 1))) =
    pack w (map (\<lambda>d. 2 ^ p * (d div 2 ^ (s + p) mod 2 ^ j)) ds)"
proof -
  have m: "2 ^ p * (2 ^ j - 1) = push_bit p (mask j :: nat)"
    by (simp add: push_bit_eq_mult mask_eq_exp_minus_1)
  have f: "2 ^ p * (d div 2 ^ (s + p) mod 2 ^ j) = push_bit p (take_bit j (drop_bit (s + p) d))" for d :: nat
    by (simp add: push_bit_eq_mult take_bit_eq_mod drop_bit_eq_div)
  have lt: "push_bit p (take_bit j x) < 2 ^ w" for x :: nat
  proof -
    have "push_bit p (take_bit j x) < 2 ^ p * 2 ^ j" by (simp add: push_bit_eq_mult)
    also have "\<dots> \<le> 2 ^ w" using w(2) by (simp flip: power_add)
    finally show ?thesis .
  qed
  have lm: "push_bit p (mask j :: nat) < 2 ^ w" using lt [of "mask j"] by (simp add: take_bit_of_mask)
  show ?thesis
    unfolding m f
  proof (rule bit_eqI)
    fix i
    let ?q = "i div w" and ?r = "i mod w"
    have r: "?r < w" using w(1) by simp
    have L: "bit (drop_bit s (pack w ds)) i \<longleftrightarrow> bit (pack w ds) (s + i)" by (simp add: bit_simps)
    have sr: "(s + i) div w = ?q \<and> (s + i) mod w = s + ?r" if "s + ?r < w"
    proof -
      have "s + i = (s + ?r) + ?q * w" using mult_div_mod_eq [of w i] by (simp add: algebra_simps)
      then show ?thesis using that w(1) by (metis div_mult_self1 mod_mult_self1 mod_less div_less add_0 add.commute less_not_refl)
    qed
    have M: "bit (pack w (replicate (length ds) (push_bit p (mask j)))) i \<longleftrightarrow>
        ?q < length ds \<and> p \<le> ?r \<and> ?r < p + j"
      using lm by (subst bit_pack [OF _ w(1)]) (auto simp: bit_simps)
    have R: "bit (pack w (map (\<lambda>d. push_bit p (take_bit j (drop_bit (s + p) d))) ds)) i \<longleftrightarrow>
        ?q < length ds \<and> p \<le> ?r \<and> ?r < p + j \<and> bit (ds ! ?q) (s + ?r)"
      using lt by (subst bit_pack [OF _ w(1)]) (auto simp: bit_simps)
    show "bit (drop_bit s (pack w ds) AND pack w (replicate (length ds) (push_bit p (mask j)))) i \<longleftrightarrow>
        bit (pack w (map (\<lambda>d. push_bit p (take_bit j (drop_bit (s + p) d))) ds)) i"
      unfolding bit_and_iff L M R
      using sr w(2) by (subst bit_pack [OF ds w(1)]) auto
  qed
qed

text \<open>Two fields of the same lanes, side by side.\<close>

lemma or_disjoint: "x AND m = x \<Longrightarrow> y AND n = y \<Longrightarrow> m AND n = 0 \<Longrightarrow> x OR y = x + (y :: nat)"
proof -
  assume "x AND m = x" "y AND n = y" "m AND n = 0"
  then have "x AND y = 0" by (metis and.assoc and.commute and.left_commute and_zero_eq)
  then show ?thesis by (simp add: disjunctive_add_eq_or)
qed

text \<open>Lanes taken in pairs: twice as wide, half as many.\<close>

definition flat :: "(nat \<times> nat) list \<Rightarrow> nat list" where
  "flat ps = concat (map (\<lambda>(l, h). [l, h]) ps)"

definition wide :: "nat \<Rightarrow> (nat \<times> nat) list \<Rightarrow> nat list" where
  "wide w ps = map (\<lambda>(l, h). l + 2 ^ w * h) ps"

lemma pack_pairs: "pack w (flat ps) = pack (2 * w) (wide w ps)"
proof (induction ps)
  case (Cons p ps)
  have "(2::nat) ^ (2 * w) = 2 ^ w * 2 ^ w" by (simp add: mult_2 power_add)
  then show ?case using Cons by (cases p) (simp add: flat_def wide_def algebra_simps)
qed (simp add: flat_def wide_def)

lemma wide_less:
  assumes "\<forall>(l, h) \<in> set ps. l < 2 ^ w \<and> h < 2 ^ w"
  shows "\<forall>d \<in> set (wide w ps). d < 2 ^ (2 * w)"
proof -
  have "l + 2 ^ w * h < 2 ^ (2 * w)" if "l < 2 ^ w" "h < 2 ^ w" for l h :: nat
  proof -
    have "2 ^ w * (h + 1) \<le> 2 ^ w * (2 ^ w :: nat)" using that by (intro mult_le_mono2) simp
    then show ?thesis using that by (simp add: mult_2 power_add)
  qed
  then show ?thesis using assms by (auto simp: wide_def)
qed

lemma wide_high:
  "\<forall>(l, h) \<in> set ps. l < 2 ^ w \<and> h < 2 ^ w \<Longrightarrow>
   map (\<lambda>d. 2 ^ 0 * (d div 2 ^ (w + 0) mod 2 ^ w)) (wide w ps) = map snd ps"
  by (induction ps) (auto simp: wide_def)

text \<open>The division of all the lanes of \<open>w\<close> bits by a constant: multiply the even and the odd lanes by
  \<open>K\<close>, and take the quotient by \<open>2 ^ e\<close>.\<close>

definition lane_mask :: "nat \<Rightarrow> nat \<Rightarrow> nat \<Rightarrow> nat \<Rightarrow> nat" where
  "lane_mask w n p j = pack w (replicate n (2 ^ p * (2 ^ j - 1)))"

definition lane_div :: "nat \<Rightarrow> nat \<Rightarrow> nat \<Rightarrow> nat \<Rightarrow> nat \<Rightarrow> nat \<Rightarrow> nat \<Rightarrow> nat" where
  "lane_div w n a c K e N =
     (let lo = drop_bit a N AND lane_mask (2 * w) n 0 c;
          hi = drop_bit (w + a) N AND lane_mask (2 * w) n 0 c
      in (drop_bit e (lo * K) AND lane_mask (2 * w) n 0 w) OR
         ((hi * (K * 2 ^ (w - e))) AND lane_mask (2 * w) n w w))"

lemma lane_div_pack:
  assumes w: "0 < w" "a + c = w" "e \<le> w" and K: "2 ^ c * (K * 2 ^ (w - e)) \<le> 2 ^ (2 * w)"
    and small: "\<forall>(l, h) \<in> set ps. l < 2 ^ w \<and> h < 2 ^ w"
    and quot: "\<forall>(l, h) \<in> set ps. l div 2 ^ a * K div 2 ^ e = l div B \<and> h div 2 ^ a * K div 2 ^ e = h div B"
  shows "lane_div w (length ps) a c K e (pack w (flat ps)) = pack w (map (\<lambda>d. d div B) (flat ps))"
proof -
  let ?n = "length ps" and ?N = "pack (2 * w) (wide w ps)"
  have c_w: "c \<le> w" using w by simp
  have wide_lt: "\<forall>d \<in> set (wide w ps). d < 2 ^ (2 * w)"
    using small by (rule wide_less)
  have wlen: "length (wide w ps) = ?n" by (simp add: wide_def)
  have lo: "drop_bit a ?N AND lane_mask (2 * w) ?n 0 c = pack (2 * w) (map (\<lambda>(l, h). l div 2 ^ a) ps)"
  proof -
    have "drop_bit a ?N AND lane_mask (2 * w) ?n 0 c =
        pack (2 * w) (map (\<lambda>d. 2 ^ 0 * (d div 2 ^ (a + 0) mod 2 ^ c)) (wide w ps))"
      using pack_field [OF wide_lt, of a 0 c] w by (simp add: lane_mask_def wlen)
    moreover have "(l + 2 ^ w * h) div 2 ^ a mod 2 ^ c = l div 2 ^ a" if "l < 2 ^ w" for l h :: nat
    proof -
      have "(2::nat) ^ w = 2 ^ a * 2 ^ c" using w by (simp flip: power_add)
      then have e: "l + 2 ^ w * h = l + 2 ^ a * (2 ^ c * h)" and "l div 2 ^ a < 2 ^ c"
        using that by (simp_all add: mult.assoc less_mult_imp_div_less mult.commute)
      then show ?thesis unfolding e by (subst div_mult_self2) simp_all
    qed
    ultimately show ?thesis using small by (auto simp: wide_def comp_def split_beta intro!: arg_cong [of _ _ "pack (2 * w)"])
  qed
  have hi: "drop_bit (w + a) ?N AND lane_mask (2 * w) ?n 0 c = pack (2 * w) (map (\<lambda>(l, h). h div 2 ^ a) ps)"
  proof -
    have "drop_bit (w + a) ?N AND lane_mask (2 * w) ?n 0 c =
        pack (2 * w) (map (\<lambda>d. 2 ^ 0 * (d div 2 ^ (w + a + 0) mod 2 ^ c)) (wide w ps))"
      using pack_field [OF wide_lt, of "w + a" 0 c] w by (simp add: lane_mask_def wlen)
    moreover have "(l + 2 ^ w * h) div 2 ^ (w + a) mod 2 ^ c = h div 2 ^ a" if "l < 2 ^ w" "h < 2 ^ w" for l h :: nat
    proof -
      have "(l + 2 ^ w * h) div 2 ^ (w + a) = h div 2 ^ a" using that by (simp add: power_add div_mult2_eq)
      moreover have "(2::nat) ^ w = 2 ^ a * 2 ^ c" using w by (simp flip: power_add)
      then have "h div 2 ^ a < 2 ^ c" using that by (simp add: less_mult_imp_div_less mult.commute)
      ultimately show ?thesis by simp
    qed
    ultimately show ?thesis using small by (auto simp: wide_def comp_def split_beta intro!: arg_cong [of _ _ "pack (2 * w)"])
  qed
  have cc: "x div 2 ^ a < 2 ^ c" if "x < 2 ^ w" for x :: nat
  proof -
    have "(2::nat) ^ w = 2 ^ a * 2 ^ c" using w by (simp flip: power_add)
    then show ?thesis using that by (simp add: less_mult_imp_div_less mult.commute)
  qed
  let ?F = "K * 2 ^ (w - e)"
  have K2: "x * ?F < 2 ^ (2 * w)" if "x < 2 ^ c" for x
  proof (cases "?F = 0")
    case False
    then have "x * ?F < 2 ^ c * ?F" using that by (intro mult_strict_right_mono) auto
    then show ?thesis using K by linarith
  qed simp
  have K1: "x * K < 2 ^ (2 * w)" if "x < 2 ^ c" for x
  proof -
    have "x * K \<le> x * ?F" by (intro mult_le_mono2) simp
    then show ?thesis using K2 [OF that] by (rule le_less_trans)
  qed
  have L: "drop_bit e (pack (2 * w) (map (\<lambda>(l, h). l div 2 ^ a) ps) * K) AND lane_mask (2 * w) ?n 0 w =
      pack (2 * w) (map (\<lambda>(l, h). l div B) ps)"
  proof -
    let ?ls = "map (\<lambda>(l, h). l div 2 ^ a * K) ps"
    have lt: "\<forall>d \<in> set ?ls. d < 2 ^ (2 * w)" using small K1 cc by auto
    have "pack (2 * w) (map (\<lambda>(l, h). l div 2 ^ a) ps) * K = pack (2 * w) ?ls"
      by (simp add: pack_mult comp_def case_prod_unfold)
    then have "drop_bit e (pack (2 * w) (map (\<lambda>(l, h). l div 2 ^ a) ps) * K) AND lane_mask (2 * w) ?n 0 w =
        pack (2 * w) (map (\<lambda>d. 2 ^ 0 * (d div 2 ^ (e + 0) mod 2 ^ w)) ?ls)"
      using pack_field [OF lt, of e 0 w] w by (simp add: lane_mask_def)
    also have "\<dots> = pack (2 * w) (map (\<lambda>(l, h). l div B) ps)"
    proof -
      have "l div B mod 2 ^ w = l div B" if "(l, h) \<in> set ps" for l h
        using small that by (intro mod_less le_less_trans [OF div_le_dividend [of l B]]) auto
      moreover have "l div 2 ^ a * K div 2 ^ e = l div B" if "(l, h) \<in> set ps" for l h
        using quot that by auto
      ultimately have "l div 2 ^ a * K div 2 ^ e mod 2 ^ w = l div B" if "(l, h) \<in> set ps" for l h
        using that by metis
      then show ?thesis by (auto intro!: arg_cong [of _ _ "pack (2 * w)"])
    qed
    finally show ?thesis .
  qed
  have H: "(pack (2 * w) (map (\<lambda>(l, h). h div 2 ^ a) ps) * ?F) AND lane_mask (2 * w) ?n w w =
      pack (2 * w) (map (\<lambda>(l, h). 2 ^ w * (h div B)) ps)"
  proof -
    let ?hs = "map (\<lambda>(l, h). h div 2 ^ a * ?F) ps"
    have lt: "\<forall>d \<in> set ?hs. d < 2 ^ (2 * w)" using small K2 cc by auto
    have "pack (2 * w) (map (\<lambda>(l, h). h div 2 ^ a) ps) * ?F = pack (2 * w) ?hs"
      by (simp add: pack_mult comp_def case_prod_unfold)
    then have "(pack (2 * w) (map (\<lambda>(l, h). h div 2 ^ a) ps) * ?F) AND lane_mask (2 * w) ?n w w =
        pack (2 * w) (map (\<lambda>d. 2 ^ w * (d div 2 ^ (0 + w) mod 2 ^ w)) ?hs)"
      using pack_field [OF lt, of 0 w w] w by (simp add: lane_mask_def)
    also have "\<dots> = pack (2 * w) (map (\<lambda>(l, h). 2 ^ w * (h div B)) ps)"
    proof -
      have "h div 2 ^ a * ?F div 2 ^ w mod 2 ^ w = h div B" if "(l, h) \<in> set ps" for l h
      proof -
        have "(2::nat) ^ w = 2 ^ e * 2 ^ (w - e)" using w by (simp flip: power_add)
        then have "h div 2 ^ a * ?F div 2 ^ w = h div 2 ^ a * K div 2 ^ e"
          by (simp add: mult.assoc [symmetric] del: power_eq_0_iff)
        then have "h div 2 ^ a * ?F div 2 ^ w = h div B" using quot that by auto
        moreover have "h div B mod 2 ^ w = h div B"
          using small that by (intro mod_less le_less_trans [OF div_le_dividend [of h B]]) auto
        ultimately show ?thesis by simp
      qed
      then show ?thesis by (auto intro!: arg_cong [of _ _ "pack (2 * w)"])
    qed
    finally show ?thesis .
  qed
  have sum: "pack (2 * w) (map (\<lambda>(l, h). l div B) ps) OR pack (2 * w) (map (\<lambda>(l, h). 2 ^ w * (h div B)) ps) =
      pack (2 * w) (map (\<lambda>(l, h). l div B) ps) + pack (2 * w) (map (\<lambda>(l, h). 2 ^ w * (h div B)) ps)"
  proof (rule or_disjoint)
    show "pack (2 * w) (map (\<lambda>(l, h). l div B) ps) AND lane_mask (2 * w) ?n 0 w =
        pack (2 * w) (map (\<lambda>(l, h). l div B) ps)"
      unfolding L [symmetric] by (simp only: and.assoc and.idem)
    show "pack (2 * w) (map (\<lambda>(l, h). 2 ^ w * (h div B)) ps) AND lane_mask (2 * w) ?n w w =
        pack (2 * w) (map (\<lambda>(l, h). 2 ^ w * (h div B)) ps)"
      unfolding H [symmetric] by (simp only: and.assoc and.idem)
    have lt: "\<forall>d \<in> set (replicate ?n (2 ^ w - 1 :: nat)). d < 2 ^ (2 * w)"
      by (auto simp: mult_2 power_add intro: le_less_trans [of _ "2 ^ w - 1"] less_le_trans [of _ "2 ^ w"])
    have "lane_mask (2 * w) ?n 0 w AND lane_mask (2 * w) ?n w w =
        pack (2 * w) (map (\<lambda>d. 2 ^ w * (d div 2 ^ (0 + w) mod 2 ^ w)) (replicate ?n (2 ^ w - 1)))"
      using pack_field [OF lt, of 0 w w] w by (simp add: lane_mask_def)
    also have "\<dots> = pack (2 * w) (replicate ?n 0)" by (simp add: map_replicate_const)
    also have "\<dots> = 0" by (induction ps) simp_all
    finally show "lane_mask (2 * w) ?n 0 w AND lane_mask (2 * w) ?n w w = 0" .
  qed
  have "pack w (map (\<lambda>d. d div B) (flat ps)) = pack w (flat (map (\<lambda>(l, h). (l div B, h div B)) ps))"
    by (simp add: flat_def map_concat comp_def split_beta)
  also have "\<dots> = pack (2 * w) (map (\<lambda>(l, h). l div B) ps) + pack (2 * w) (map (\<lambda>(l, h). 2 ^ w * (h div B)) ps)"
    unfolding pack_pairs by (induction ps) (auto simp: wide_def algebra_simps)
  finally show ?thesis
    unfolding lane_div_def Let_def pack_pairs lo hi L H by (simp only: sum)
qed

section \<open>Digits\<close>

fun digs :: "nat \<Rightarrow> nat \<Rightarrow> nat \<Rightarrow> nat list" where
  "digs B 0 n = []"
| "digs B (Suc k) n = n mod B # digs B k (n div B)"

lemma digs_split: "concat (map (\<lambda>d. [d mod B, d div B]) (digs (B * B) k n)) = digs B (2 * k) n"
proof (induction k arbitrary: n)
  case (Suc k)
  have "n mod (B * B) mod B = n mod B" by (simp add: mod_mod_cancel)
  moreover have "n mod (B * B) div B = n div B mod B" by (cases "B = 0") (simp_all add: mod_mult2_eq)
  ultimately show ?case using Suc [of "n div (B * B)"] by (simp add: div_mult2_eq)
qed simp

lemma digs_less: "0 < B \<Longrightarrow> \<forall>d \<in> set (digs B k n). d < B"
  by (induction k arbitrary: n) auto

lemma length_digs [simp]: "length (digs B k n) = k"
  by (induction k arbitrary: n) auto

lemma digs_flat:
  "digs B (2 * k) n = flat (map (\<lambda>d. (d mod B, d div B)) (digs (B * B) k n))"
  unfolding digs_split [symmetric] by (simp add: flat_def comp_def)

lemma digs_one: "n < B * B \<Longrightarrow> [n] = digs (B * B) 1 n"
  by simp

text \<open>One step of the encoder on all the lanes, given the quotients of the lanes.\<close>

lemma encode_step:
  assumes "w = 2 * v" and "B \<le> 2 ^ v"
  shows "pack w (digs (B * B) k n) + pack w (map (\<lambda>d. d div B) (digs (B * B) k n)) * (2 ^ v - B) =
    pack v (digs B (2 * k) n)"
  using pack_split [OF assms, of "digs (B * B) k n"] by (simp only: digs_split)

text \<open>One step of the decoder: the quotients are the upper halves of the lanes.\<close>

lemma decode_step:
  assumes v: "0 < v" "0 < B" "B \<le> 2 ^ v"
  shows "drop_bit v (pack v (digs B (2 * k) n)) AND lane_mask (2 * v) k 0 v =
    pack (2 * v) (map (\<lambda>d. d div B) (digs (B * B) k n))"
proof -
  let ?ps = "map (\<lambda>d. (d mod B, d div B)) (digs (B * B) k n)"
  have lt: "\<forall>(l, h) \<in> set ?ps. l < 2 ^ v \<and> h < 2 ^ v"
  proof -
    have "d mod B < 2 ^ v \<and> d div B < 2 ^ v" if "d \<in> set (digs (B * B) k n)" for d
    proof -
      have "d < B * B" using digs_less [of "B * B" k n] v that by simp
      then have "d mod B < B" "d div B < B" using v by (simp_all add: less_mult_imp_div_less)
      then show ?thesis using v(3) by linarith
    qed
    then show ?thesis by auto
  qed
  have "drop_bit v (pack (2 * v) (wide v ?ps)) AND lane_mask (2 * v) k 0 v =
      pack (2 * v) (map (\<lambda>d. 2 ^ 0 * (d div 2 ^ (v + 0) mod 2 ^ v)) (wide v ?ps))"
    using pack_field [OF wide_less [OF lt], of v 0 v] v by (simp add: lane_mask_def wide_def)
  also have "\<dots> = pack (2 * v) (map snd ?ps)" by (simp only: wide_high [OF lt])
  also have "map snd ?ps = map (\<lambda>d. d div B) (digs (B * B) k n)" by simp
  finally show ?thesis unfolding digs_flat pack_pairs .
qed

section \<open>From words to lanes\<close>

lemma nat_and_less: "m < 2 ^ k \<Longrightarrow> x AND m < (2 ^ k :: nat)"
proof -
  assume "m < 2 ^ k"
  then have "take_bit k m = m" by (simp add: take_bit_nat_eq_self)
  then have "take_bit k (x AND m) = x AND m" by (metis take_bit_and take_bit_take_bit and.assoc min.idem take_bit_eq_mask and.commute)
  then show ?thesis by (metis take_bit_nat_less_exp)
qed

lemma unat_mult_lt:
  "unat a * unat b < 2 ^ LENGTH('a) \<Longrightarrow> unat (a * b) = unat a * unat (b :: 'a::len word)"
  by (simp add: unat_word_ariths)

lemma unat_upd:
  assumes "unat x + unat y * unat c < 2 ^ LENGTH('a)"
  shows "unat (x + y * c) = unat x + unat y * unat (c :: 'a::len word)"
proof -
  have "unat (y * c) = unat y * unat c" using assms by (intro unat_mult_lt) simp
  then show ?thesis using assms by (simp add: unat_plus_lt)
qed

lemma unat_dwn:
  assumes "unat y * unat c \<le> unat x"
  shows "unat (x - y * c) = unat x - unat y * unat (c :: 'a::len word)"
proof -
  have "unat y * unat c < 2 ^ LENGTH('a)" by (rule le_less_trans [OF assms unat_lt_pow])
  then have "unat (y * c) = unat y * unat c" by (rule unat_mult_lt)
  then show ?thesis using assms by (simp add: unat_diff_le)
qed

section \<open>The steps of the 64-bit functions\<close>

lemma quot_10: "l < 100 \<Longrightarrow> l div 2 ^ 1 * 52 div 2 ^ 8 = l div (10 :: nat)"
proof -
  have "list_all (\<lambda>l. l div 2 ^ 1 * 52 div 2 ^ 8 = l div (10 :: nat)) [0..<100]" by code_simp
  then show "l < 100 \<Longrightarrow> l div 2 ^ 1 * 52 div 2 ^ 8 = l div (10 :: nat)" by (simp add: list_all_iff)
qed

lemma quot_100: "l < 10000 \<Longrightarrow> l div 2 ^ 2 * 1311 div 2 ^ 15 = l div (100 :: nat)"
proof -
  assume l: "l < 10000"
  define q r where "q = l div 100" and "r = l mod 100"
  have lqr: "l = 100 * q + r" "r < 100" by (simp_all add: q_def r_def)
  then have q: "q < 100" using l by simp
  have "l div 4 = 25 * q + r div 4" using lqr by simp
  then have "l div 4 * 1311 = 32768 * q + (7 * q + 1311 * (r div 4))" by simp
  moreover have "7 * q + 1311 * (r div 4) < 32768"
  proof -
    have "r div 4 \<le> 24" using lqr(2) by simp
    then show ?thesis using q by simp
  qed
  ultimately have "l div 4 * 1311 div 32768 = q" by simp
  then show ?thesis by (simp add: q_def)
qed

lemma hundreds_lanes:
  "lane_div 16 k 2 14 1311 15 (pack 16 (digs 10000 (2 * k) n)) =
   pack 16 (map (\<lambda>d. d div 100) (digs 10000 (2 * k) n))"
proof -
  let ?ps = "map (\<lambda>d. (d mod 10000, d div 10000)) (digs (10000 * 10000) k n)"
  have lt: "\<forall>(l, h) \<in> set ?ps. l < 10000 \<and> h < 10000"
    using digs_less [of "10000 * 10000" k n] by (auto simp: less_mult_imp_div_less)
  have "lane_div 16 (length ?ps) 2 14 1311 15 (pack 16 (flat ?ps)) = pack 16 (map (\<lambda>d. d div 100) (flat ?ps))"
    by (rule lane_div_pack) (use lt quot_100 in auto)
  then show ?thesis by (simp add: digs_flat)
qed

lemma tens_lanes:
  "lane_div 8 k 1 7 52 8 (pack 8 (digs 100 (2 * k) n)) = pack 8 (map (\<lambda>d. d div 10) (digs 100 (2 * k) n))"
proof -
  let ?ps = "map (\<lambda>d. (d mod 100, d div 100)) (digs (100 * 100) k n)"
  have lt: "\<forall>(l, h) \<in> set ?ps. l < 100 \<and> h < 100"
    using digs_less [of "100 * 100" k n] by (auto simp: less_mult_imp_div_less)
  have "lane_div 8 (length ?ps) 1 7 52 8 (pack 8 (flat ?ps)) = pack 8 (map (\<lambda>d. d div 10) (flat ?ps))"
    by (rule lane_div_pack) (use lt quot_10 in auto)
  then show ?thesis by (simp add: digs_flat)
qed

lemma replicates: "replicate 1 x = [x]" "replicate 2 x = [x, x]" "replicate 4 x = [x, x, x, x]"
  "replicate 8 x = [x, x, x, x, x, x, x, x]"
  by (simp_all add: eval_nat_numeral)

lemma hundreds_u64:
  "unat ((drop_bit 15 ((drop_bit 2 b AND 0x00003FFF00003FFF) * 1311) AND 0x0000FFFF0000FFFF) OR
     (push_bit 1 ((drop_bit 18 b AND 0x00003FFF00003FFF) * 1311) AND 0xFFFF0000FFFF0000)) =
   lane_div 16 2 2 14 1311 15 (unat (b :: u64))"
proof -
  have m: "lane_mask (2 * 16) 2 0 14 = 0x00003FFF00003FFF" "lane_mask (2 * 16) 2 0 16 = 0x0000FFFF0000FFFF"
    "lane_mask (2 * 16) 2 16 16 = 0xFFFF0000FFFF0000"
    by (simp_all add: lane_mask_def replicates)
  have lo: "unat (drop_bit k b AND 0x00003FFF00003FFF) = drop_bit k (unat b) AND 0x00003FFF00003FFF" for k
    by (simp add: unsigned_and_eq unat_drop_bit_eq)
  have lt: "drop_bit k (unat b) AND 0x00003FFF00003FFF < (2 ^ 46 :: nat)" for k
    by (rule nat_and_less) simp
  have x: "unat ((drop_bit k b AND 0x00003FFF00003FFF) * 1311) = (drop_bit k (unat b) AND 0x00003FFF00003FFF) * 1311" for k
    using lt [of k] by (subst unat_mult_lt) (simp_all add: lo)
  have y: "unat (push_bit 1 ((drop_bit k b AND 0x00003FFF00003FFF) * 1311)) = (drop_bit k (unat b) AND 0x00003FFF00003FFF) * 2622" for k
  proof -
    have "push_bit 1 ((drop_bit k b AND 0x00003FFF00003FFF) * 1311) = (drop_bit k b AND 0x00003FFF00003FFF) * 2622"
      by (simp add: push_bit_eq_mult mult.assoc)
    then show ?thesis using lt [of k] by (simp only:) (subst unat_mult_lt, simp_all add: lo)
  qed
  show ?thesis
    unfolding lane_div_def Let_def m
    by (simp only: unsigned_or_eq unsigned_and_eq unat_drop_bit_eq x y) simp
qed

lemma tens_u64:
  "unat ((drop_bit 8 ((drop_bit 1 b AND 0x007F007F007F007F) * 52) AND 0x00FF00FF00FF00FF) OR
     (((drop_bit 9 b AND 0x007F007F007F007F) * 52) AND 0xFF00FF00FF00FF00)) =
   lane_div 8 4 1 7 52 8 (unat (b :: u64))"
proof -
  have m: "lane_mask (2 * 8) 4 0 7 = 0x007F007F007F007F" "lane_mask (2 * 8) 4 0 8 = 0x00FF00FF00FF00FF"
    "lane_mask (2 * 8) 4 8 8 = 0xFF00FF00FF00FF00"
    by (simp_all add: lane_mask_def replicates)
  have lo: "unat (drop_bit k b AND 0x007F007F007F007F) = drop_bit k (unat b) AND 0x007F007F007F007F" for k
    by (simp add: unsigned_and_eq unat_drop_bit_eq)
  have lt: "drop_bit k (unat b) AND 0x007F007F007F007F < (2 ^ 55 :: nat)" for k
    by (rule nat_and_less) simp
  have x: "unat ((drop_bit k b AND 0x007F007F007F007F) * 52) = (drop_bit k (unat b) AND 0x007F007F007F007F) * 52" for k
    using lt [of k] by (subst unat_mult_lt) (simp_all add: lo)
  show ?thesis
    unfolding lane_div_def Let_def m
    by (simp only: unsigned_or_eq unsigned_and_eq unat_drop_bit_eq x) simp
qed

text \<open>The bound of a number with \<open>k\<close> lanes, and the four steps of the encoder.\<close>

lemma pack_digs_less: "0 < B \<Longrightarrow> B \<le> 2 ^ w \<Longrightarrow> pack w (digs B k n) < 2 ^ (w * k)"
  using pack_less [of "digs B k n" w] digs_less [of B k n] by fastforce

lemma encode_steps:
  "pack 32 (digs 100000000 k n) + pack 32 (map (\<lambda>d. d div 10000) (digs 100000000 k n)) * 55536 =
     pack 16 (digs 10000 (2 * k) n)"
  "pack 16 (digs 10000 k n) + pack 16 (map (\<lambda>d. d div 100) (digs 10000 k n)) * 156 = pack 8 (digs 100 (2 * k) n)"
  "pack 8 (digs 100 k n) + pack 8 (map (\<lambda>d. d div 10) (digs 100 k n)) * 6 = pack 4 (digs 10 (2 * k) n)"
  using encode_step [of 32 16 10000 k n] encode_step [of 16 8 100 k n] encode_step [of 8 4 10 k n]
  by simp_all

lemma encode_first:
  "n < 10000000000000000 \<Longrightarrow> n + n div 100000000 * 4194967296 = pack 32 (digs 100000000 2 n)"
  "n < 100000000 \<Longrightarrow> n + n div 10000 * 55536 = pack 16 (digs 10000 2 n)"
  "n < 10000 \<Longrightarrow> n + n div 100 * 156 = pack 8 (digs 100 2 n)"
  "n < 100 \<Longrightarrow> n + n div 10 * 6 = pack 4 (digs 10 2 n)"
  using encode_step [of 64 32 100000000 1 n] encode_step [of 32 16 10000 1 n] encode_step [of 16 8 100 1 n]
    encode_step [of 8 4 10 1 n]
  by simp_all

lemma halves:
  "unat (push_bit 32 (ucast (h :: u32)) OR ucast (l :: u32) :: u64) = unat l + 2 ^ 32 * unat h"
proof -
  have "push_bit 32 (ucast h :: u64) AND ucast l = 0"
    by (rule bit_word_eqI) (auto simp: bit_simps dest: bit_imp_le_length)
  then have "push_bit 32 (ucast h) OR ucast l = push_bit 32 (ucast h :: u64) + ucast l"
    by (simp add: disjunctive_add_eq_or)
  also have "\<dots> = ucast l + ucast h * 2 ^ 32" by (simp add: push_bit_eq_mult add.commute)
  also have "unat \<dots> = unat l + unat h * 2 ^ 32"
    using unat_u32_bound [of h] unat_u32_bound [of l] by (subst unat_upd) simp_all
  finally show ?thesis by simp
qed

lemma encode_u64_digits: "unat (ct_bcd_encode_u64 bin) = pack 4 (digs 10 16 (unat bin mod 10 ^ 16))"
proof -
  define n where "n = unat bin mod 10 ^ 16"
  have n: "n < 10000000000000000" by (simp add: n_def)
  define b0 where "b0 = bin mod 10000000000000000"
  have b0: "unat b0 = n" by (simp add: b0_def n_def unat_mod)
  define b1 where "b1 = b0 + (b0 div 100000000) * 4194967296"
  have p1: "pack 32 (digs 100000000 2 n) < 2 ^ 64" using pack_digs_less [of 100000000 32 2 n] by simp
  have b1: "unat b1 = pack 32 (digs 100000000 2 n)"
    unfolding b1_def using p1 encode_first(1) [OF n]
    by (subst unat_upd) (simp_all add: b0 unat_div)
  define t1 where "t1 = push_bit 32 (ucast ((ucast (drop_bit 32 b1) :: u32) div 10000)) OR
      (ucast ((ucast b1 :: u32) div 10000) :: u64)"
  have d2: "digs 100000000 2 n = [n mod 100000000, n div 100000000]" using n by (simp add: numeral_2_eq_2)
  have b1': "unat b1 = n mod 100000000 + 2 ^ 32 * (n div 100000000)" by (simp add: b1 d2)
  have "unat (ucast b1 :: u32) = n mod 100000000"
    by (simp add: unsigned_ucast_eq take_bit_eq_mod b1')
  moreover have "unat (ucast (drop_bit 32 b1) :: u32) = n div 100000000"
    using n by (simp only: unsigned_ucast_eq unat_drop_bit_eq b1')
      (simp add: take_bit_eq_mod drop_bit_eq_div)
  ultimately have t1: "unat t1 = pack 32 (map (\<lambda>d. d div 10000) (digs 100000000 2 n))"
    unfolding t1_def halves by (simp add: unat_div d2)
  define b2 where "b2 = b1 + t1 * 55536"
  have p2: "pack 16 (digs 10000 4 n) < 2 ^ 64" using pack_digs_less [of 10000 16 4 n] by simp
  have b2: "unat b2 = pack 16 (digs 10000 4 n)"
    unfolding b2_def using p2 encode_steps(1) [of 2 n] by (subst unat_upd) (simp_all add: b1 t1)
  define h where "h = (drop_bit 15 ((drop_bit 2 b2 AND 0x00003FFF00003FFF) * 1311) AND 0x0000FFFF0000FFFF) OR
     (push_bit 1 ((drop_bit 18 b2 AND 0x00003FFF00003FFF) * 1311) AND 0xFFFF0000FFFF0000)"
  have h: "unat h = pack 16 (map (\<lambda>d. d div 100) (digs 10000 4 n))"
    using hundreds_u64 [of b2] hundreds_lanes [of 2 n] by (simp add: h_def b2)
  define b3 where "b3 = b2 + h * 156"
  have p3: "pack 8 (digs 100 8 n) < 2 ^ 64" using pack_digs_less [of 100 8 8 n] by simp
  have b3: "unat b3 = pack 8 (digs 100 8 n)"
    unfolding b3_def using p3 encode_steps(2) [of 4 n] by (subst unat_upd) (simp_all add: b2 h)
  define t where "t = (drop_bit 8 ((drop_bit 1 b3 AND 0x007F007F007F007F) * 52) AND 0x00FF00FF00FF00FF) OR
     (((drop_bit 9 b3 AND 0x007F007F007F007F) * 52) AND 0xFF00FF00FF00FF00)"
  have t: "unat t = pack 8 (map (\<lambda>d. d div 10) (digs 100 8 n))"
    using tens_u64 [of b3] tens_lanes [of 4 n] by (simp add: t_def b3)
  have p4: "pack 4 (digs 10 16 n) < 2 ^ 64" using pack_digs_less [of 10 4 16 n] by simp
  have "unat (b3 + t * 6) = pack 4 (digs 10 16 n)"
    using p4 encode_steps(3) [of 8 n] by (subst unat_upd) (simp_all add: b3 t)
  moreover have "ct_bcd_encode_u64 bin = b3 + t * 6"
    unfolding ct_bcd_encode_u64_def Let_def b0_def [symmetric] b1_def [symmetric] t1_def [symmetric]
      b2_def [symmetric] h_def [symmetric] b3_def [symmetric] t_def [symmetric] ..
  ultimately show ?thesis by (simp only: n_def)
qed

lemma encode_bounds: "pack w (map (\<lambda>d. d div B) ds) * c \<le> pack w ds + pack w (map (\<lambda>d. d div B) ds) * c"
  by simp

lemma decode_u64_digits:
  assumes x: "unat x = pack 4 (digs 10 16 n)" and n: "n < 10000000000000000"
  shows "unat (ct_bcd_decode_u64 x) = n"
proof -
  have m: "lane_mask 8 8 0 4 = 0x0F0F0F0F0F0F0F0F" "lane_mask 16 4 0 8 = 0x00FF00FF00FF00FF"
    "lane_mask 32 2 0 16 = 0x0000FFFF0000FFFF"
    by (simp_all add: lane_mask_def replicates)
  have and_drop: "unat (drop_bit k y AND 0x0F0F0F0F0F0F0F0F) = drop_bit k (unat y) AND 0x0F0F0F0F0F0F0F0F"
    "unat (drop_bit k y AND 0x00FF00FF00FF00FF) = drop_bit k (unat y) AND 0x00FF00FF00FF00FF"
    "unat (drop_bit k y AND 0x0000FFFF0000FFFF) = drop_bit k (unat y) AND 0x0000FFFF0000FFFF" for k and y :: u64
    by (simp_all add: unsigned_and_eq unat_drop_bit_eq)
  define x1 where "x1 = x - (drop_bit 4 x AND 0x0F0F0F0F0F0F0F0F) * 6"
  have "unat (drop_bit 4 x AND 0x0F0F0F0F0F0F0F0F) = pack 8 (map (\<lambda>d. d div 10) (digs 100 8 n))"
    unfolding and_drop x using decode_step [of 4 10 8 n] by (simp add: m)
  then have x1: "unat x1 = pack 8 (digs 100 8 n)"
    unfolding x1_def using encode_steps(3) [of 8 n] by (subst unat_dwn) (simp_all add: x)
  define x2 where "x2 = x1 - (drop_bit 8 x1 AND 0x00FF00FF00FF00FF) * 156"
  have "unat (drop_bit 8 x1 AND 0x00FF00FF00FF00FF) = pack 16 (map (\<lambda>d. d div 100) (digs 10000 4 n))"
    unfolding and_drop x1 using decode_step [of 8 100 4 n] by (simp add: m)
  then have x2: "unat x2 = pack 16 (digs 10000 4 n)"
    unfolding x2_def using encode_steps(2) [of 4 n] by (subst unat_dwn) (simp_all add: x1)
  define x3 where "x3 = x2 - (drop_bit 16 x2 AND 0x0000FFFF0000FFFF) * 55536"
  have "unat (drop_bit 16 x2 AND 0x0000FFFF0000FFFF) = pack 32 (map (\<lambda>d. d div 10000) (digs 100000000 2 n))"
    unfolding and_drop x2 using decode_step [of 16 10000 2 n] by (simp add: m)
  then have x3: "unat x3 = pack 32 (digs 100000000 2 n)"
    unfolding x3_def using encode_steps(1) [of 2 n] by (subst unat_dwn) (simp_all add: x2)
  have d2: "digs 100000000 2 n = [n mod 100000000, n div 100000000]" using n by (simp add: numeral_2_eq_2)
  have "unat (drop_bit 32 x3) = n div 100000000"
    by (simp only: unat_drop_bit_eq x3 d2) (simp add: drop_bit_eq_div)
  then have "unat (x3 - drop_bit 32 x3 * 4194967296) = n"
    using encode_first(1) [OF n] by (subst unat_dwn) (simp_all add: x3)
  then show ?thesis
    unfolding ct_bcd_decode_u64_def Let_def x1_def [symmetric] x2_def [symmetric] x3_def [symmetric] .
qed

section \<open>The narrower functions\<close>

lemma hundreds_u32:
  "unat (drop_bit 15 ((drop_bit 2 b AND 0x00003FFF) * 1311) OR
     (push_bit 1 ((drop_bit 18 b AND 0x00003FFF) * 1311) AND 0xFFFF0000)) =
   lane_div 16 1 2 14 1311 15 (unat (b :: u32))"
proof -
  have m: "lane_mask (2 * 16) 1 0 14 = 0x3FFF" "lane_mask (2 * 16) 1 0 16 = 0xFFFF"
    "lane_mask (2 * 16) 1 16 16 = 0xFFFF0000"
    by (simp_all add: lane_mask_def)
  have lo: "unat (drop_bit k b AND 0x00003FFF) = drop_bit k (unat b) AND 0x00003FFF" for k
    by (simp add: unsigned_and_eq unat_drop_bit_eq)
  have lt: "drop_bit k (unat b) AND 0x00003FFF < (2 ^ 14 :: nat)" for k
    by (rule nat_and_less) simp
  have x: "unat ((drop_bit k b AND 0x00003FFF) * 1311) = (drop_bit k (unat b) AND 0x00003FFF) * 1311" for k
    using lt [of k] by (subst unat_mult_lt) (simp_all add: lo)
  have y: "unat (push_bit 1 ((drop_bit k b AND 0x00003FFF) * 1311)) = (drop_bit k (unat b) AND 0x00003FFF) * 2622" for k
  proof -
    have "push_bit 1 ((drop_bit k b AND 0x00003FFF) * 1311) = (drop_bit k b AND 0x00003FFF) * 2622"
      by (simp add: push_bit_eq_mult mult.assoc)
    then show ?thesis using lt [of k] by (simp only:) (subst unat_mult_lt, simp_all add: lo)
  qed
  have "drop_bit 15 ((drop_bit 2 (unat b) AND 0x3FFF) * 1311) < 2 ^ 16"
    using lt [of 2] by (simp add: drop_bit_eq_div)
  then have z: "drop_bit 15 ((drop_bit 2 (unat b) AND 0x3FFF) * 1311) AND 0xFFFF =
      drop_bit 15 ((drop_bit 2 (unat b) AND 0x3FFF) * 1311)"
    using take_bit_eq_mask [of 16 "drop_bit 15 ((drop_bit 2 (unat b) AND 0x3FFF) * 1311)"]
    by (simp add: take_bit_nat_eq_self mask_eq_exp_minus_1)
  show ?thesis
    unfolding lane_div_def Let_def m
    by (simp only: unsigned_or_eq unsigned_and_eq unat_drop_bit_eq x y z) simp
qed

lemma tens_u32:
  "unat ((drop_bit 8 ((drop_bit 1 b AND 0x007F007F) * 52) AND 0x00FF00FF) OR
     (((drop_bit 9 b AND 0x007F007F) * 52) AND 0xFF00FF00)) =
   lane_div 8 2 1 7 52 8 (unat (b :: u32))"
proof -
  have m: "lane_mask (2 * 8) 2 0 7 = 0x007F007F" "lane_mask (2 * 8) 2 0 8 = 0x00FF00FF"
    "lane_mask (2 * 8) 2 8 8 = 0xFF00FF00"
    by (simp_all add: lane_mask_def replicates)
  have lo: "unat (drop_bit k b AND 0x007F007F) = drop_bit k (unat b) AND 0x007F007F" for k
    by (simp add: unsigned_and_eq unat_drop_bit_eq)
  have lt: "drop_bit k (unat b) AND 0x007F007F < (2 ^ 23 :: nat)" for k
    by (rule nat_and_less) simp
  have x: "unat ((drop_bit k b AND 0x007F007F) * 52) = (drop_bit k (unat b) AND 0x007F007F) * 52" for k
    using lt [of k] by (subst unat_mult_lt) (simp_all add: lo)
  show ?thesis
    unfolding lane_div_def Let_def m
    by (simp only: unsigned_or_eq unsigned_and_eq unat_drop_bit_eq x) simp
qed

lemma encode_u32_digits: "unat (ct_bcd_encode_u32 bin) = pack 4 (digs 10 8 (unat bin mod 10 ^ 8))"
proof -
  define n where "n = unat bin mod 10 ^ 8"
  have n: "n < 100000000" by (simp add: n_def)
  define b0 where "b0 = bin mod 100000000"
  have b0: "unat b0 = n" by (simp add: b0_def n_def unat_mod)
  define b2 where "b2 = b0 + (b0 div 10000) * 55536"
  have p2: "pack 16 (digs 10000 2 n) < 2 ^ 32" using pack_digs_less [of 10000 16 2 n] by simp
  have b2: "unat b2 = pack 16 (digs 10000 2 n)"
    unfolding b2_def using p2 encode_first(2) [OF n] by (subst unat_upd) (simp_all add: b0 unat_div)
  define h where "h = drop_bit 15 ((drop_bit 2 b2 AND 0x00003FFF) * 1311) OR
     (push_bit 1 ((drop_bit 18 b2 AND 0x00003FFF) * 1311) AND 0xFFFF0000)"
  have h: "unat h = pack 16 (map (\<lambda>d. d div 100) (digs 10000 2 n))"
    using hundreds_u32 [of b2] hundreds_lanes [of 1 n] by (simp add: h_def b2)
  define b3 where "b3 = b2 + h * 156"
  have p3: "pack 8 (digs 100 4 n) < 2 ^ 32" using pack_digs_less [of 100 8 4 n] by simp
  have b3: "unat b3 = pack 8 (digs 100 4 n)"
    unfolding b3_def using p3 encode_steps(2) [of 2 n] by (subst unat_upd) (simp_all add: b2 h)
  define t where "t = (drop_bit 8 ((drop_bit 1 b3 AND 0x007F007F) * 52) AND 0x00FF00FF) OR
     (((drop_bit 9 b3 AND 0x007F007F) * 52) AND 0xFF00FF00)"
  have t: "unat t = pack 8 (map (\<lambda>d. d div 10) (digs 100 4 n))"
    using tens_u32 [of b3] tens_lanes [of 2 n] by (simp add: t_def b3)
  have p4: "pack 4 (digs 10 8 n) < 2 ^ 32" using pack_digs_less [of 10 4 8 n] by simp
  have "unat (b3 + t * 6) = pack 4 (digs 10 8 n)"
    using p4 encode_steps(3) [of 4 n] by (subst unat_upd) (simp_all add: b3 t)
  moreover have "ct_bcd_encode_u32 bin = b3 + t * 6"
    unfolding ct_bcd_encode_u32_def Let_def b0_def [symmetric]
      b2_def [symmetric] h_def [symmetric] b3_def [symmetric] t_def [symmetric] ..
  ultimately show ?thesis by (simp only: n_def)
qed

lemma decode_u32_digits:
  assumes x: "unat x = pack 4 (digs 10 8 n)" and n: "n < 100000000"
  shows "unat (ct_bcd_decode_u32 x) = n"
proof -
  have m: "lane_mask 8 4 0 4 = 0x0F0F0F0F" "lane_mask 16 2 0 8 = 0x00FF00FF"
    by (simp_all add: lane_mask_def replicates)
  have and_drop: "unat (drop_bit k y AND 0x0F0F0F0F) = drop_bit k (unat y) AND 0x0F0F0F0F"
    "unat (drop_bit k y AND 0x00FF00FF) = drop_bit k (unat y) AND 0x00FF00FF" for k and y :: u32
    by (simp_all add: unsigned_and_eq unat_drop_bit_eq)
  define x1 where "x1 = x - (drop_bit 4 x AND 0x0F0F0F0F) * 6"
  have "unat (drop_bit 4 x AND 0x0F0F0F0F) = pack 8 (map (\<lambda>d. d div 10) (digs 100 4 n))"
    unfolding and_drop x using decode_step [of 4 10 4 n] by (simp add: m)
  then have x1: "unat x1 = pack 8 (digs 100 4 n)"
    unfolding x1_def using encode_steps(3) [of 4 n] by (subst unat_dwn) (simp_all add: x)
  define x2 where "x2 = x1 - (drop_bit 8 x1 AND 0x00FF00FF) * 156"
  have "unat (drop_bit 8 x1 AND 0x00FF00FF) = pack 16 (map (\<lambda>d. d div 100) (digs 10000 2 n))"
    unfolding and_drop x1 using decode_step [of 8 100 2 n] by (simp add: m)
  then have x2: "unat x2 = pack 16 (digs 10000 2 n)"
    unfolding x2_def using encode_steps(2) [of 2 n] by (subst unat_dwn) (simp_all add: x1)
  have d2: "digs 10000 2 n = [n mod 10000, n div 10000]" using n by (simp add: numeral_2_eq_2)
  have "unat (drop_bit 16 x2) = n div 10000"
    by (simp only: unat_drop_bit_eq x2 d2) (simp add: drop_bit_eq_div)
  then have "unat (x2 - drop_bit 16 x2 * 55536) = n"
    using encode_first(2) [OF n] by (subst unat_dwn) (simp_all add: x2)
  then show ?thesis
    unfolding ct_bcd_decode_u32_def Let_def x1_def [symmetric] x2_def [symmetric] .
qed

lemma nat_or_less: "x < 2 ^ k \<Longrightarrow> m < 2 ^ k \<Longrightarrow> x OR m < (2 ^ k :: nat)"
  by (metis take_bit_nat_eq_self_iff take_bit_or)

lemma word_ucast_up: "unat (ucast (x :: u16) :: u32) = unat x" "unat (ucast (y :: u8) :: u32) = unat y"
  using unat_lt_pow [of x] unat_lt_pow [of y] by (simp_all only: unsigned_ucast_eq) (simp_all add: take_bit_nat_eq_self)

lemma word_ucast_down:
  "unat (c :: u32) < 2 ^ 16 \<Longrightarrow> unat (ucast c :: u16) = unat c"
  "unat c < 2 ^ 8 \<Longrightarrow> unat (ucast c :: u8) = unat c"
  by (simp_all only: unsigned_ucast_eq) (simp_all add: take_bit_nat_eq_self)

lemma ucast_narrow: "unat (c :: u32) < 2 ^ 16 \<Longrightarrow> ucast (ucast c :: u16) = c"
  by (rule word_unat_eq_iff [THEN iffD2]) (simp only: word_ucast_up word_ucast_down)

lemma tens_u16:
  assumes "unat b < 2 ^ 16"
  shows "unat (ucast (ucast (drop_bit 8 ((drop_bit 1 b AND 0x007F) * 52) OR
     (((drop_bit 9 b AND 0x007F) * 52) AND 0xFF00)) :: u16) :: u32) =
   lane_div 8 1 1 7 52 8 (unat (b :: u32))"
proof -
  have m: "lane_mask (2 * 8) 1 0 7 = 0x7F" "lane_mask (2 * 8) 1 0 8 = 0xFF" "lane_mask (2 * 8) 1 8 8 = 0xFF00"
    by (simp_all add: lane_mask_def)
  have lo: "unat (drop_bit k b AND 0x007F) = drop_bit k (unat b) AND 0x007F" for k
    by (simp add: unsigned_and_eq unat_drop_bit_eq)
  have lt: "drop_bit k (unat b) AND 0x007F < (2 ^ 7 :: nat)" for k
    by (rule nat_and_less) simp
  have x: "unat ((drop_bit k b AND 0x007F) * 52) = (drop_bit k (unat b) AND 0x007F) * 52" for k
    using lt [of k] by (subst unat_mult_lt) (simp_all add: lo)
  have "drop_bit 8 ((drop_bit 1 (unat b) AND 0x7F) * 52) < 2 ^ 8"
    using lt [of 1] by (simp add: drop_bit_eq_div)
  then have z: "drop_bit 8 ((drop_bit 1 (unat b) AND 0x7F) * 52) AND 0xFF =
      drop_bit 8 ((drop_bit 1 (unat b) AND 0x7F) * 52)"
    using take_bit_eq_mask [of 8 "drop_bit 8 ((drop_bit 1 (unat b) AND 0x7F) * 52)"]
    by (simp add: take_bit_nat_eq_self mask_eq_exp_minus_1)
  let ?t = "drop_bit 8 ((drop_bit 1 b AND 0x007F) * 52) OR (((drop_bit 9 b AND 0x007F) * 52) AND 0xFF00)"
  have t: "unat ?t = lane_div 8 1 1 7 52 8 (unat b)"
    unfolding lane_div_def Let_def m
    by (simp only: unsigned_or_eq unsigned_and_eq unat_drop_bit_eq x z) simp
  have "unat ?t < 2 ^ 16"
    unfolding t lane_div_def Let_def m
    by (intro nat_or_less nat_and_less) simp_all
  then have "ucast (ucast ?t :: u16) = ?t" by (rule ucast_narrow)
  then show ?thesis using t by simp
qed

lemma encode_u16_digits: "unat (ct_bcd_encode_u16 bin) = pack 4 (digs 10 4 (unat bin mod 10 ^ 4))"
proof -
  define n where "n = unat bin mod 10 ^ 4"
  have n: "n < 10000" by (simp add: n_def)
  define b0 where "b0 = (ucast bin mod 10000 :: u32)"
  have b0: "unat b0 = n" by (simp add: b0_def n_def unat_mod word_ucast_up)
  have p3: "pack 8 (digs 100 2 n) < 2 ^ 16" using pack_digs_less [of 100 8 2 n] by simp
  define c where "c = b0 + (b0 div 100) * 156"
  have c: "unat c = pack 8 (digs 100 2 n)"
    unfolding c_def using p3 encode_first(3) [OF n] by (subst unat_upd) (simp_all add: b0 unat_div)
  define b3 where "b3 = (ucast (ucast c :: u16) :: u32)"
  have b3: "unat b3 = pack 8 (digs 100 2 n)"
    using p3 by (simp add: b3_def ucast_narrow c)
  define t where "t = (ucast (ucast (drop_bit 8 ((drop_bit 1 b3 AND 0x007F) * 52) OR
     (((drop_bit 9 b3 AND 0x007F) * 52) AND 0xFF00)) :: u16) :: u32)"
  have t: "unat t = pack 8 (map (\<lambda>d. d div 10) (digs 100 2 n))"
    using tens_u16 [of b3] tens_lanes [of 1 n] p3 by (simp add: t_def b3)
  have p4: "pack 4 (digs 10 4 n) < 2 ^ 16" using pack_digs_less [of 10 4 4 n] by simp
  have "unat (b3 + t * 6) = pack 4 (digs 10 4 n)"
    using p4 encode_steps(3) [of 2 n] by (subst unat_upd) (simp_all add: b3 t)
  then have "unat (ucast (b3 + t * 6) :: u16) = pack 4 (digs 10 4 n)"
    using p4 by (simp add: word_ucast_down)
  moreover have "ct_bcd_encode_u16 bin = ucast (b3 + t * 6)"
    unfolding ct_bcd_encode_u16_def Let_def b0_def [symmetric] c_def [symmetric]
      b3_def [symmetric] t_def [symmetric] ..
  ultimately show ?thesis by (simp only: n_def)
qed

lemma decode_u16_digits:
  assumes x: "unat x = pack 4 (digs 10 4 n)" and n: "n < 10000"
  shows "unat (ct_bcd_decode_u16 x) = n"
proof -
  have p: "pack 4 (digs 10 4 n) < 2 ^ 16" "pack 8 (digs 100 2 n) < 2 ^ 16"
    using pack_digs_less [of 10 4 4 n] pack_digs_less [of 100 8 2 n] by simp_all
  have m: "lane_mask 8 2 0 4 = 0x0F0F" by (simp_all add: lane_mask_def replicates)
  define y where "y = (ucast x :: u32)"
  have y: "unat y = pack 4 (digs 10 4 n)" using p x by (simp add: y_def word_ucast_up)
  have "unat (drop_bit 4 y AND 0x0F0F) = pack 8 (map (\<lambda>d. d div 10) (digs 100 2 n))"
    using decode_step [of 4 10 2 n] by (simp add: m unsigned_and_eq unat_drop_bit_eq y)
  then have c: "unat (y - (drop_bit 4 y AND 0x0F0F) * 6) = pack 8 (digs 100 2 n)"
    using encode_steps(3) [of 2 n] by (subst unat_dwn) (simp_all add: y)
  define x2 where "x2 = (ucast (ucast (y - (drop_bit 4 y AND 0x0F0F) * 6) :: u16) :: u32)"
  have x2: "unat x2 = pack 8 (digs 100 2 n)"
    using p by (simp add: x2_def ucast_narrow c)
  have d2: "digs 100 2 n = [n mod 100, n div 100]" using n by (simp add: numeral_2_eq_2)
  have "unat (drop_bit 8 x2) = n div 100"
    by (simp only: unat_drop_bit_eq x2 d2) (simp add: drop_bit_eq_div)
  then have "unat (x2 - drop_bit 8 x2 * 156) = n"
    using encode_first(3) [OF n] by (subst unat_dwn) (simp_all add: x2)
  then show ?thesis
    using n unfolding ct_bcd_decode_u16_def Let_def y_def [symmetric] x2_def [symmetric]
    by (simp add: word_ucast_down)
qed

lemma encode_u8_digits: "unat (ct_bcd_encode_u8 bin) = pack 4 (digs 10 2 (unat bin mod 10 ^ 2))"
proof -
  define n where "n = unat bin mod 10 ^ 2"
  have n: "n < 100" by (simp add: n_def)
  have p: "pack 4 (digs 10 2 n) < 2 ^ 8" using pack_digs_less [of 10 4 2 n] by simp
  define b0 where "b0 = (ucast bin mod 100 :: u32)"
  have b0: "unat b0 = n" by (simp add: b0_def n_def unat_mod word_ucast_up)
  have "unat (b0 + (b0 div 10) * 6) = pack 4 (digs 10 2 n)"
    using p encode_first(4) [OF n] by (subst unat_upd) (simp_all add: b0 unat_div)
  then show ?thesis
    using p unfolding ct_bcd_encode_u8_def Let_def b0_def [symmetric] n_def [symmetric]
    by (simp add: word_ucast_down)
qed

lemma decode_u8_digits:
  assumes x: "unat x = pack 4 (digs 10 2 n)" and n: "n < 100"
  shows "unat (ct_bcd_decode_u8 x) = n"
proof -
  have p: "pack 4 (digs 10 2 n) < 2 ^ 8" using pack_digs_less [of 10 4 2 n] by simp
  define y where "y = (ucast x :: u32)"
  have y: "unat y = pack 4 (digs 10 2 n)" using p x by (simp add: y_def word_ucast_up)
  have d2: "digs 10 2 n = [n mod 10, n div 10]" using n by (simp add: numeral_2_eq_2)
  have "unat (drop_bit 4 y) = n div 10"
    by (simp only: unat_drop_bit_eq y d2) (simp add: drop_bit_eq_div)
  then have "unat (y - drop_bit 4 y * 6) = n"
    using encode_first(4) [OF n] by (subst unat_dwn) (simp_all add: y)
  then show ?thesis
    using n unfolding ct_bcd_decode_u8_def y_def [symmetric]
    by (simp add: word_ucast_down)
qed

section \<open>Valid codes\<close>

lemma pack_append: "pack w (xs @ ys) = pack w xs + 2 ^ (w * length xs) * pack w ys"
  by (induction xs) (simp_all add: power_add algebra_simps)

lemma digs_append: "n < 10 ^ k \<Longrightarrow> digs 10 (k + l) (n + 10 ^ k * m) = digs 10 k n @ digs 10 l m"
proof (induction k arbitrary: n)
  case (Suc k)
  define j where "j = 10 ^ k * m"
  have j: "10 ^ Suc k * m = 10 * j" by (simp add: j_def)
  have "(n + 10 * j) div 10 = n div 10 + j" "(n + 10 * j) mod 10 = n mod 10" by simp_all
  moreover have "n div 10 < 10 ^ k" using Suc.prems by simp
  ultimately show ?case unfolding j using Suc.IH [of "n div 10"] by (simp add: j_def add.commute)
qed simp

text \<open>A code of \<open>k\<close> digits is the packing of the digits of a number.\<close>

definition bcd_code :: "nat \<Rightarrow> nat \<Rightarrow> bool" where
  "bcd_code k c \<longleftrightarrow> (\<exists>n < 10 ^ k. c = pack 4 (digs 10 k n))"

lemma split_unique:
  assumes "a < M" "c < M" "a + M * b = c + M * (d :: nat)"
  shows "a = c \<and> b = d"
proof -
  have "(a + M * b) div M = b" "(a + M * b) mod M = a" "(c + M * d) div M = d" "(c + M * d) mod M = c"
    using assms(1,2) by simp_all
  then show ?thesis unfolding assms(3) by simp
qed

lemma bcd_code_append:
  assumes "a < 2 ^ (4 * k)"
  shows "bcd_code (k + k) (a + 2 ^ (4 * k) * b) \<longleftrightarrow> bcd_code k a \<and> bcd_code k b"
proof
  assume "bcd_code k a \<and> bcd_code k b"
  then obtain n m where nm: "n < 10 ^ k" "a = pack 4 (digs 10 k n)" "m < 10 ^ k" "b = pack 4 (digs 10 k m)"
    by (auto simp: bcd_code_def)
  have "n + 10 ^ k * m < 10 ^ k * (m + 1)" using nm by simp
  also have "\<dots> \<le> 10 ^ k * 10 ^ k" using nm by (intro mult_le_mono2) simp
  finally have "n + 10 ^ k * m < 10 ^ (k + k)" by (simp add: power_add)
  moreover have "a + 2 ^ (4 * k) * b = pack 4 (digs 10 (k + k) (n + 10 ^ k * m))"
    using nm by (simp add: digs_append pack_append)
  ultimately show "bcd_code (k + k) (a + 2 ^ (4 * k) * b)" unfolding bcd_code_def by blast
next
  assume "bcd_code (k + k) (a + 2 ^ (4 * k) * b)"
  then obtain n where n: "n < 10 ^ (k + k)" "a + 2 ^ (4 * k) * b = pack 4 (digs 10 (k + k) n)"
    by (auto simp: bcd_code_def)
  define l h where "l = n mod 10 ^ k" and "h = n div 10 ^ k"
  have lh: "n = l + 10 ^ k * h" "l < 10 ^ k" by (simp_all add: l_def h_def)
  have "h < 10 ^ k" using n(1) by (simp add: h_def power_add less_mult_imp_div_less)
  have e: "a + 2 ^ (4 * k) * b = pack 4 (digs 10 k l) + 2 ^ (4 * k) * pack 4 (digs 10 k h)"
    using n(2) lh by (simp add: digs_append pack_append)
  have p: "pack 4 (digs 10 k l) < 2 ^ (4 * k)" using pack_digs_less [of 10 4 k l] by simp
  have "a = pack 4 (digs 10 k l) \<and> b = pack 4 (digs 10 k h)"
    using assms p e by (rule split_unique)
  then show "bcd_code k a \<and> bcd_code k b"
    using lh(2) \<open>h < 10 ^ k\<close> by (auto simp: bcd_code_def)
qed

lemma bcd_code_1: "bcd_code 1 c \<longleftrightarrow> c \<le> 9"
proof -
  have "bcd_code 1 c \<longleftrightarrow> (\<exists>n < 10. c = n)" by (auto simp: bcd_code_def)
  then show ?thesis by auto
qed

lemma valid_u8_code: "ct_bcd_is_valid_u8 b \<longleftrightarrow> bcd_code 2 (unat b)"
proof -
  have k: "2 ^ (4 * 1) = (16 :: nat)" "(1 :: nat) + 1 = 2" by simp_all
  have "bcd_code 2 (unat b) \<longleftrightarrow> bcd_code 1 (unat b mod 16) \<and> bcd_code 1 (unat b div 16)"
    using bcd_code_append [of "unat b mod 16" 1 "unat b div 16"] by (simp only: k) simp
  moreover have "unat (b AND 0x0F) = unat b mod 16"
    using take_bit_eq_mask [of 4 "unat b"] by (simp add: unsigned_and_eq take_bit_eq_mod mask_eq_exp_minus_1)
  moreover have "unat (drop_bit 4 b) = unat b div 16" by (simp only: unat_drop_bit_eq) (simp add: drop_bit_eq_div)
  ultimately show ?thesis by (simp add: ct_bcd_is_valid_u8_def bcd_code_1 [simplified] word_le_nat_alt)
qed

lemma code_halves:
  fixes x :: "'a::len word" and f :: "'b::len word \<Rightarrow> bool"
  assumes "LENGTH('b) = 4 * k" and "LENGTH('a) = 8 * k"
  shows "bcd_code (k + k) (unat x) \<longleftrightarrow>
    bcd_code k (unat (ucast x :: 'b word)) \<and> bcd_code k (unat (ucast (drop_bit (4 * k) x) :: 'b word))"
proof -
  have lo: "unat (ucast x :: 'b word) = unat x mod 2 ^ (4 * k)"
    using assms by (simp add: unsigned_ucast_eq take_bit_eq_mod)
  have "unat x < 2 ^ (4 * k) * 2 ^ (4 * k)"
    using unat_lt_pow [of x] assms by (simp flip: power_add)
  then have "unat x div 2 ^ (4 * k) < 2 ^ (4 * k)" by (simp add: less_mult_imp_div_less)
  then have hi: "unat (ucast (drop_bit (4 * k) x) :: 'b word) = unat x div 2 ^ (4 * k)"
    using assms(1) by (simp only: unsigned_ucast_eq unat_drop_bit_eq) (simp add: take_bit_nat_eq_self drop_bit_eq_div)
  show ?thesis
    using bcd_code_append [of "unat x mod 2 ^ (4 * k)" k "unat x div 2 ^ (4 * k)"] by (simp add: lo hi)
qed

lemma valid_u16_code: "ct_bcd_is_valid_u16 b \<longleftrightarrow> bcd_code 4 (unat b)"
  using code_halves [where 'b = 8 and 'a = 16 and k = 2 and x = b]
  by (simp add: ct_bcd_is_valid_u16_def valid_u8_code)

lemma valid_u32_code: "ct_bcd_is_valid_u32 b \<longleftrightarrow> bcd_code 8 (unat b)"
  using code_halves [where 'b = 16 and 'a = 32 and k = 4 and x = b]
  by (simp add: ct_bcd_is_valid_u32_def valid_u16_code)

lemma valid_u64_code: "ct_bcd_is_valid_u64 b \<longleftrightarrow> bcd_code 16 (unat b)"
  using code_halves [where 'b = 32 and 'a = 64 and k = 8 and x = b]
  by (simp add: ct_bcd_is_valid_u64_def valid_u32_code)

section \<open>The round trip\<close>

text \<open>What the functions of one width together satisfy, given their digits.\<close>

lemma bcd_inverse:
  fixes enc dec :: "'a::len word \<Rightarrow> 'a word"
  assumes enc: "\<And>x. unat (enc x) = pack 4 (digs 10 k (unat x mod 10 ^ k))"
    and dec: "\<And>x n. unat x = pack 4 (digs 10 k n) \<Longrightarrow> n < 10 ^ k \<Longrightarrow> unat (dec x) = n"
  shows "unat (dec (enc x)) = unat x mod 10 ^ k" and "bcd_code k (unat (enc x))"
    and "enc (dec x) = x \<longleftrightarrow> bcd_code k (unat x)"
proof -
  show "unat (dec (enc x)) = unat x mod 10 ^ k" using dec [OF enc] by simp
  have code: "bcd_code k (unat (enc x))" for x unfolding bcd_code_def enc by (rule exI [of _ "unat x mod 10 ^ k"]) simp
  then show "bcd_code k (unat (enc x))" .
  have "enc (dec x) = x" if "bcd_code k (unat x)"
    using that enc [of "dec x"] dec [of x] by (auto simp: bcd_code_def word_unat_eq_iff)
  then show "enc (dec x) = x \<longleftrightarrow> bcd_code k (unat x)" using code [of "dec x"] by auto
qed

lemma bcd_u8:
  "unat (ct_bcd_decode_u8 (ct_bcd_encode_u8 x)) = unat x mod 10 ^ 2 \<and>
   ct_bcd_is_valid_u8 (ct_bcd_encode_u8 x) \<and>
   (ct_bcd_encode_u8 (ct_bcd_decode_u8 x) = x \<longleftrightarrow> ct_bcd_is_valid_u8 x)"
proof -
  have dec: "unat (ct_bcd_decode_u8 y) = n" if "unat y = pack 4 (digs 10 2 n)" "n < 10 ^ 2" for y n
    using decode_u8_digits [OF that(1)] that(2) by simp
  show ?thesis
    using bcd_inverse [of ct_bcd_encode_u8 2 ct_bcd_decode_u8, OF encode_u8_digits dec]
    by (simp only: valid_u8_code)
qed

lemma bcd_u16:
  "unat (ct_bcd_decode_u16 (ct_bcd_encode_u16 x)) = unat x mod 10 ^ 4 \<and>
   ct_bcd_is_valid_u16 (ct_bcd_encode_u16 x) \<and>
   (ct_bcd_encode_u16 (ct_bcd_decode_u16 x) = x \<longleftrightarrow> ct_bcd_is_valid_u16 x)"
proof -
  have dec: "unat (ct_bcd_decode_u16 y) = n" if "unat y = pack 4 (digs 10 4 n)" "n < 10 ^ 4" for y n
    using decode_u16_digits [OF that(1)] that(2) by simp
  show ?thesis
    using bcd_inverse [of ct_bcd_encode_u16 4 ct_bcd_decode_u16, OF encode_u16_digits dec]
    by (simp only: valid_u16_code)
qed

lemma bcd_u32:
  "unat (ct_bcd_decode_u32 (ct_bcd_encode_u32 x)) = unat x mod 10 ^ 8 \<and>
   ct_bcd_is_valid_u32 (ct_bcd_encode_u32 x) \<and>
   (ct_bcd_encode_u32 (ct_bcd_decode_u32 x) = x \<longleftrightarrow> ct_bcd_is_valid_u32 x)"
proof -
  have dec: "unat (ct_bcd_decode_u32 y) = n" if "unat y = pack 4 (digs 10 8 n)" "n < 10 ^ 8" for y n
    using decode_u32_digits [OF that(1)] that(2) by simp
  show ?thesis
    using bcd_inverse [of ct_bcd_encode_u32 8 ct_bcd_decode_u32, OF encode_u32_digits dec]
    by (simp only: valid_u32_code)
qed

lemma bcd_u64:
  "unat (ct_bcd_decode_u64 (ct_bcd_encode_u64 x)) = unat x mod 10 ^ 16 \<and>
   ct_bcd_is_valid_u64 (ct_bcd_encode_u64 x) \<and>
   (ct_bcd_encode_u64 (ct_bcd_decode_u64 x) = x \<longleftrightarrow> ct_bcd_is_valid_u64 x)"
proof -
  have dec: "unat (ct_bcd_decode_u64 y) = n" if "unat y = pack 4 (digs 10 16 n)" "n < 10 ^ 16" for y n
    using decode_u64_digits [OF that(1)] that(2) by simp
  show ?thesis
    using bcd_inverse [of ct_bcd_encode_u64 16 ct_bcd_decode_u64, OF encode_u64_digits dec]
    by (simp only: valid_u64_code)
qed

text \<open>C24: At every width, encoding produces a valid code, decoding it gives the number back modulo
  the power of ten the width holds, and the codes that decode and encode to themselves are exactly the
  ones the validity check accepts: encode and decode are inverse bijections between the numbers below
  \<open>10 ^ k\<close> and the valid codes, although the wide versions compute all the digits at once with
  multiplications and masks.\<close>

theorem bcd_roundtrip:
  "(unat (ct_bcd_decode_u8 (ct_bcd_encode_u8 a)) = unat a mod 10 ^ 2 \<and>
   ct_bcd_is_valid_u8 (ct_bcd_encode_u8 a) \<and>
   (ct_bcd_encode_u8 (ct_bcd_decode_u8 a) = a \<longleftrightarrow> ct_bcd_is_valid_u8 a)) \<and>
   (unat (ct_bcd_decode_u16 (ct_bcd_encode_u16 b)) = unat b mod 10 ^ 4 \<and>
   ct_bcd_is_valid_u16 (ct_bcd_encode_u16 b) \<and>
   (ct_bcd_encode_u16 (ct_bcd_decode_u16 b) = b \<longleftrightarrow> ct_bcd_is_valid_u16 b)) \<and>
   (unat (ct_bcd_decode_u32 (ct_bcd_encode_u32 c)) = unat c mod 10 ^ 8 \<and>
   ct_bcd_is_valid_u32 (ct_bcd_encode_u32 c) \<and>
   (ct_bcd_encode_u32 (ct_bcd_decode_u32 c) = c \<longleftrightarrow> ct_bcd_is_valid_u32 c)) \<and>
   (unat (ct_bcd_decode_u64 (ct_bcd_encode_u64 d)) = unat d mod 10 ^ 16 \<and>
   ct_bcd_is_valid_u64 (ct_bcd_encode_u64 d) \<and>
   (ct_bcd_encode_u64 (ct_bcd_decode_u64 d) = d \<longleftrightarrow> ct_bcd_is_valid_u64 d))"
  by (simp only: bcd_u8 bcd_u16 bcd_u32 bcd_u64)

end
