(* ===== verification/Coter_Dlist.thy ===== *)
theory Coter_Dlist
  imports Coter_Prelude
begin

text \<open>
  \<open>container/list.h\<close>, \<open>list.c\<close>: the intrusive circular doubly linked list.  The nodes live in the
  objects of the caller; the model is the store of their two links, indexed by node address.  A list is
  named by the address of its sentinel.
\<close>

section \<open>The code\<close>

record ct_list_store =
  prev_ln :: "addr \<Rightarrow> addr"
  next_ln :: "addr \<Rightarrow> addr"

definition set_prev :: "addr \<Rightarrow> addr \<Rightarrow> ct_list_store \<Rightarrow> ct_list_store" where
  "set_prev p v s = s\<lparr>prev_ln := (prev_ln s)(p := v)\<rparr>"

definition set_next :: "addr \<Rightarrow> addr \<Rightarrow> ct_list_store \<Rightarrow> ct_list_store" where
  "set_next p v s = s\<lparr>next_ln := (next_ln s)(p := v)\<rparr>"

definition ct_list_is_empty :: "addr \<Rightarrow> ct_list_store \<Rightarrow> bool" where
  "ct_list_is_empty head s \<longleftrightarrow> next_ln s head = head"

definition ct_list_first :: "addr \<Rightarrow> ct_list_store \<Rightarrow> addr" where
  "ct_list_first head s = next_ln s head"

definition ct_list_last :: "addr \<Rightarrow> ct_list_store \<Rightarrow> addr" where
  "ct_list_last head s = prev_ln s head"

definition ct_list_is_first :: "addr \<Rightarrow> addr \<Rightarrow> ct_list_store \<Rightarrow> bool" where
  "ct_list_is_first head node s \<longleftrightarrow> next_ln s node = head"

definition ct_list_is_last :: "addr \<Rightarrow> addr \<Rightarrow> ct_list_store \<Rightarrow> bool" where
  "ct_list_is_last head node s \<longleftrightarrow> prev_ln s node = head"

definition ct_list_next :: "addr \<Rightarrow> ct_list_store \<Rightarrow> addr" where
  "ct_list_next pos s = next_ln s pos"

definition ct_list_prev :: "addr \<Rightarrow> ct_list_store \<Rightarrow> addr" where
  "ct_list_prev pos s = prev_ln s pos"

definition ct_list_init :: "addr \<Rightarrow> ct_list_store \<Rightarrow> ct_list_store" where
  "ct_list_init self s =
     (if self = NULL then s else set_prev self self (set_next self self s))"

text \<open>\<open>ct_list_foreach\<close>: the body may keep a state of its own but not touch the links.\<close>

partial_function (option) ct_list_foreach ::
  "(addr \<Rightarrow> 'a \<Rightarrow> 'a) \<Rightarrow> addr \<Rightarrow> ct_list_store \<Rightarrow> addr \<Rightarrow> 'a \<Rightarrow> 'a option" where
  "ct_list_foreach body head s pos acc =
     (if pos = head then Some acc
      else ct_list_foreach body head s (next_ln s pos) (body pos acc))"

definition ct_list_size :: "addr \<Rightarrow> ct_list_store \<Rightarrow> size_t option" where
  "ct_list_size self s =
     (if self = NULL then Some 0
      else ct_list_foreach (\<lambda>_ size. size + 1) self s (next_ln s self) 0)"

definition ct_list_append :: "addr \<Rightarrow> addr \<Rightarrow> ct_list_store \<Rightarrow> ct_list_store" where
  "ct_list_append self node s =
     (if self = NULL \<or> node = NULL then s
      else let s = set_prev node (prev_ln s self) s;
               s = set_next node self s;
               s = set_next (prev_ln s self) node s
           in set_prev self node s)"

definition ct_list_prepend :: "addr \<Rightarrow> addr \<Rightarrow> ct_list_store \<Rightarrow> ct_list_store" where
  "ct_list_prepend self node s =
     (if self = NULL \<or> node = NULL then s
      else let s = set_prev node self s;
               s = set_next node (next_ln s self) s;
               s = set_prev (next_ln s self) node s
           in set_next self node s)"

definition ct_list_before :: "addr \<Rightarrow> addr \<Rightarrow> ct_list_store \<Rightarrow> ct_list_store" where
  "ct_list_before target node s =
     (if target = NULL \<or> node = NULL then s
      else let s = set_prev node (prev_ln s target) s;
               s = set_next node target s;
               s = set_next (prev_ln s target) node s
           in set_prev target node s)"

definition ct_list_after :: "addr \<Rightarrow> addr \<Rightarrow> ct_list_store \<Rightarrow> ct_list_store" where
  "ct_list_after target node s =
     (if target = NULL \<or> node = NULL then s
      else let s = set_prev node target s;
               s = set_next node (next_ln s target) s;
               s = set_prev (next_ln s target) node s
           in set_next target node s)"

definition ct_list_remove :: "addr \<Rightarrow> ct_list_store \<Rightarrow> ct_list_store" where
  "ct_list_remove node s =
     (if node = NULL then s
      else let s = set_next (prev_ln s node) (next_ln s node) s
           in set_prev (next_ln s node) (prev_ln s node) s)"

definition ct_list_splice_prev :: "addr \<Rightarrow> addr \<Rightarrow> ct_list_store \<Rightarrow> ct_list_store" where
  "ct_list_splice_prev self lst s =
     (if self = NULL \<or> lst = NULL then s
      else if ct_list_is_empty lst s then s
      else let s = set_next (ct_list_last lst s) (ct_list_first self s) s;
               s = set_prev (ct_list_first self s) (ct_list_last lst s) s;
               s = set_prev (ct_list_first lst s) self s;
               s = set_next self (ct_list_first lst s) s
           in ct_list_init lst s)"

definition ct_list_splice_next :: "addr \<Rightarrow> addr \<Rightarrow> ct_list_store \<Rightarrow> ct_list_store" where
  "ct_list_splice_next self lst s =
     (if self = NULL \<or> lst = NULL then s
      else if ct_list_is_empty lst s then s
      else let s = set_prev (ct_list_first lst s) (ct_list_last self s) s;
               s = set_next (ct_list_last self s) (ct_list_first lst s) s;
               s = set_next (ct_list_last lst s) self s;
               s = set_prev self (ct_list_last lst s) s
           in ct_list_init lst s)"

text \<open>Iteration over the containing objects: \<open>off\<close> is the offset of the node in the object.  The
  safe variant fetches the next entry before the body runs, so the body may unlink the current node.\<close>

definition ct_list_entry :: "u64 \<Rightarrow> addr \<Rightarrow> addr" where
  "ct_list_entry off node = node - off"

definition ct_list_first_entry :: "u64 \<Rightarrow> addr \<Rightarrow> ct_list_store \<Rightarrow> addr" where
  "ct_list_first_entry off head s = ct_list_entry off (next_ln s head)"

definition ct_list_last_entry :: "u64 \<Rightarrow> addr \<Rightarrow> ct_list_store \<Rightarrow> addr" where
  "ct_list_last_entry off head s = ct_list_entry off (prev_ln s head)"

definition ct_list_next_entry :: "u64 \<Rightarrow> addr \<Rightarrow> ct_list_store \<Rightarrow> addr" where
  "ct_list_next_entry off pos s = (if pos = NULL then NULL else ct_list_entry off (next_ln s (pos + off)))"

definition ct_list_prev_entry :: "u64 \<Rightarrow> addr \<Rightarrow> ct_list_store \<Rightarrow> addr" where
  "ct_list_prev_entry off pos s = (if pos = NULL then NULL else ct_list_entry off (prev_ln s (pos + off)))"

partial_function (option) ct_list_foreach_entry_from ::
  "(addr \<Rightarrow> 'a \<Rightarrow> 'a) \<Rightarrow> u64 \<Rightarrow> addr \<Rightarrow> ct_list_store \<Rightarrow> addr \<Rightarrow> 'a \<Rightarrow> 'a option" where
  "ct_list_foreach_entry_from body off head s pos acc =
     (if pos = NULL \<or> pos + off = head then Some acc
      else ct_list_foreach_entry_from body off head s (ct_list_next_entry off pos s) (body pos acc))"

definition ct_list_foreach_entry :: "(addr \<Rightarrow> 'a \<Rightarrow> 'a) \<Rightarrow> u64 \<Rightarrow> addr \<Rightarrow> ct_list_store \<Rightarrow> 'a \<Rightarrow> 'a option" where
  "ct_list_foreach_entry body off head s acc =
     ct_list_foreach_entry_from body off head s (ct_list_first_entry off head s) acc"

partial_function (option) foreach_entry_safe_loop ::
  "(addr \<Rightarrow> ct_list_store \<times> 'a \<Rightarrow> ct_list_store \<times> 'a) \<Rightarrow> u64 \<Rightarrow> addr \<Rightarrow> addr \<Rightarrow> addr \<Rightarrow> ct_list_store \<times> 'a \<Rightarrow>
   (ct_list_store \<times> 'a) option" where
  "foreach_entry_safe_loop body off head pos next_node st =
     (if pos = NULL \<or> pos + off = head then Some st
      else let st = body pos st
           in foreach_entry_safe_loop body off head next_node (ct_list_next_entry off next_node (fst st)) st)"

definition ct_list_foreach_entry_safe ::
  "(addr \<Rightarrow> ct_list_store \<times> 'a \<Rightarrow> ct_list_store \<times> 'a) \<Rightarrow> u64 \<Rightarrow> addr \<Rightarrow> ct_list_store \<times> 'a \<Rightarrow>
   (ct_list_store \<times> 'a) option" where
  "ct_list_foreach_entry_safe body off head st =
     (let pos = ct_list_first_entry off head (fst st)
      in foreach_entry_safe_loop body off head pos (ct_list_next_entry off pos (fst st)) st)"

section \<open>Rings of nodes\<close>

text \<open>\<open>chain s zs\<close>: consecutive nodes of \<open>zs\<close> are linked both ways.\<close>

fun chain :: "ct_list_store \<Rightarrow> addr list \<Rightarrow> bool" where
  "chain s (u # v # zs) \<longleftrightarrow> next_ln s u = v \<and> prev_ln s v = u \<and> chain s (v # zs)"
| "chain s _ \<longleftrightarrow> True"

definition cyc :: "ct_list_store \<Rightarrow> addr list \<Rightarrow> bool" where
  "cyc s ys \<longleftrightarrow> ys \<noteq> [] \<and> chain s (ys @ [hd ys]) \<and> distinct ys \<and> NULL \<notin> set ys"

text \<open>The ring of a list: its sentinel, then its elements in order.\<close>

abbreviation list_ring :: "ct_list_store \<Rightarrow> addr \<Rightarrow> addr list \<Rightarrow> bool" where
  "list_ring s h xs \<equiv> cyc s (h # xs)"

lemma chain_split: "chain s (us @ b # vs) \<longleftrightarrow> chain s (us @ [b]) \<and> chain s (b # vs)"
  by (induction us rule: induct_list012) auto

lemma chain_frame:
  assumes "\<forall>x \<in> set (butlast zs). next_ln s' x = next_ln s x" and "\<forall>x \<in> set (tl zs). prev_ln s' x = prev_ln s x"
  shows "chain s' zs \<longleftrightarrow> chain s zs"
  using assms by (induction s zs rule: chain.induct) auto

lemma cyc_frame:
  assumes "\<forall>x \<in> set ys. next_ln s' x = next_ln s x \<and> prev_ln s' x = prev_ln s x"
  shows "cyc s' ys \<longleftrightarrow> cyc s ys"
proof (cases ys)
  case (Cons y zs)
  then have "chain s' (ys @ [hd ys]) \<longleftrightarrow> chain s (ys @ [hd ys])"
    using assms by (intro chain_frame) (auto dest: in_set_butlastD)
  then show ?thesis by (simp add: cyc_def)
qed (simp add: cyc_def)

text \<open>A ring may be read from any of its nodes.\<close>

lemma cyc_rotate: "cyc s (us @ vs) \<longleftrightarrow> cyc s (vs @ us)"
proof (cases us; cases vs)
  fix a us' b vs'
  assume e: "us = a # us'" "vs = b # vs'"
  have "chain s (us @ vs @ [a]) \<longleftrightarrow> chain s (us @ [b]) \<and> chain s (vs @ [a])"
    unfolding e(2) using chain_split [of s us b "vs' @ [a]"] by simp
  moreover have "chain s (vs @ us @ [b]) \<longleftrightarrow> chain s (vs @ [a]) \<and> chain s (us @ [b])"
    unfolding e(1) using chain_split [of s vs a "us' @ [b]"] by simp
  ultimately show ?thesis unfolding cyc_def using e by auto
qed simp_all

text \<open>Linking a node in after \<open>p\<close>, and unlinking a node.\<close>

lemma cyc_insert:
  assumes ring: "cyc s (p # ws)" and n: "n \<notin> set (p # ws)" "n \<noteq> NULL"
    and s': "next_ln s' = (next_ln s)(n := next_ln s p, p := n)"
      "prev_ln s' = (prev_ln s)(n := p, next_ln s p := n)"
  shows "cyc s' (p # n # ws)"
proof (cases ws)
  case Nil
  then show ?thesis using assms by (simp add: cyc_def)
next
  case (Cons q zs)
  have c: "next_ln s p = q" "chain s (q # zs @ [p])" and d: "distinct (p # q # zs)" "n \<notin> set (p # q # zs)"
    using ring n Cons by (auto simp: cyc_def)
  have "chain s' (q # zs @ [p]) \<longleftrightarrow> chain s (q # zs @ [p])"
    using d by (intro chain_frame) (auto simp: s' c butlast_append)
  then show ?thesis using c d ring n by (auto simp: cyc_def Cons s')
qed

lemma cyc_remove:
  assumes ring: "cyc s (n # ws)" and ws: "ws \<noteq> []"
    and s': "next_ln s' = (next_ln s)(prev_ln s n := next_ln s n)"
      "prev_ln s' = (prev_ln s)(next_ln s n := prev_ln s n)"
  shows "cyc s' ws"
proof -
  obtain p vs where p: "ws = vs @ [p]" using ws by (cases ws rule: rev_cases) auto
  obtain q zs where q: "ws = q # zs" using ws by (cases ws) auto
  have "chain s ((n # vs) @ p # [n])" using ring p by (simp add: cyc_def)
  then have "prev_ln s n = p" "chain s (n # ws)" using p unfolding chain_split [of s "n # vs" p "[n]"] by simp_all
  then have c: "next_ln s n = q" "prev_ln s n = p" "chain s ws" by (simp_all add: q)
  have d: "distinct ws" "NULL \<notin> set ws" using ring by (auto simp: cyc_def)
  have "butlast ws = vs" unfolding p by simp
  moreover have "tl ws = zs" unfolding q by simp
  moreover have dp: "p \<notin> set vs" using d(1) unfolding p by simp
  moreover have dq: "q \<notin> set zs" using d(1) unfolding q by simp
  ultimately have "chain s' ws \<longleftrightarrow> chain s ws"
    using dp dq by (intro chain_frame) (auto simp: s' c)
  then have "chain s' (vs @ [p])" using c(3) p by simp
  moreover have "next_ln s' p = q" "prev_ln s' q = p" by (simp_all add: s' c)
  ultimately have "chain s' (vs @ p # [q])" unfolding chain_split [of s' vs p "[q]"] by simp
  moreover have "hd ws = q" unfolding q by simp
  ultimately show ?thesis using d ws unfolding p by (simp add: cyc_def)
qed


text \<open>Moving the elements of one ring to the front of another.\<close>

lemma cyc_splice:
  assumes self: "cyc s (p # xs)" and lst: "cyc s (l # ys @ [z])" and disj: "set (p # xs) \<inter> set (l # ys @ [z]) = {}"
    and s': "next_ln s' = (next_ln s)(z := next_ln s p, p := next_ln s l, l := l)"
      "prev_ln s' = (prev_ln s)(next_ln s p := z, next_ln s l := p, l := l)"
  shows "cyc s' (p # ys @ z # xs)" and "cyc s' [l]"
proof -
  obtain q ws where q: "xs @ [p] = q # ws" by (cases "xs @ [p]") auto
  obtain a vs where a: "ys @ [z] = a # vs" by (cases "ys @ [z]") auto
  have "chain s (p # q # ws)" using self q by (simp add: cyc_def)
  then have c: "next_ln s p = q" "chain s (q # ws)" by simp_all
  have "chain s ((l # ys) @ z # [l])" using lst by (simp add: cyc_def)
  then have "chain s (l # a # vs)" unfolding chain_split [of s "l # ys" z "[l]"] using a by simp
  then have e: "next_ln s l = a" "chain s (a # vs)" by simp_all
  have d: "distinct (p # xs)" "distinct (l # ys @ [z])" using self lst by (simp_all add: cyc_def)
  have bq: "butlast (q # ws) = xs" unfolding q [symmetric] by simp
  have ba: "butlast (a # vs) = ys" unfolding a [symmetric] by simp
  have dq: "distinct (q # ws)" "set (q # ws) = set (p # xs)"
    unfolding q [symmetric] using d(1) by auto
  have da: "distinct (a # vs)" "set (a # vs) = set (ys @ [z])"
    unfolding a [symmetric] using d(2) by auto
  have ne: "p \<notin> set xs" "p \<notin> set ys" "z \<notin> set xs" "z \<notin> set ys" "l \<notin> set xs" "l \<notin> set ys" "p \<noteq> z" "p \<noteq> l" "z \<noteq> l"
    using d disj by auto
  have neq: "q \<notin> set ws" "a \<notin> set ws" "l \<notin> set ws" "q \<notin> set vs" "a \<notin> set vs" "l \<notin> set vs" "q \<noteq> a" "q \<noteq> l" "a \<noteq> l"
  proof -
    have "set (q # ws) \<inter> set (l # a # vs) = {}" "l \<notin> set (a # vs)"
      using disj d(2) dq(2) da(2) by auto
    then show "q \<notin> set ws" "a \<notin> set ws" "l \<notin> set ws" "q \<notin> set vs" "a \<notin> set vs" "l \<notin> set vs" "q \<noteq> a" "q \<noteq> l" "a \<noteq> l"
      using dq(1) da(1) by auto
  qed
  have nx: "\<forall>x \<in> set xs. next_ln s' x = next_ln s x" "\<forall>x \<in> set ys. next_ln s' x = next_ln s x"
    unfolding s' using ne by auto
  have pv: "\<forall>x \<in> set ws. prev_ln s' x = prev_ln s x" "\<forall>x \<in> set vs. prev_ln s' x = prev_ln s x"
    unfolding s' c(1) e(1) using neq by auto
  have "chain s' (q # ws)" "chain s' (a # vs)"
    using c(2) e(2) nx pv bq ba chain_frame [of "q # ws" s' s] chain_frame [of "a # vs" s' s] by simp_all
  moreover have "next_ln s' z = q" "next_ln s' p = a" "prev_ln s' q = z" "prev_ln s' a = p"
    unfolding s' c(1) e(1) using ne neq by auto
  ultimately have "chain s' ((p # ys) @ z # q # ws)"
    unfolding chain_split [of s' "p # ys" z "q # ws"] using a by simp
  moreover have "distinct (p # ys @ z # xs)" "NULL \<notin> set (p # ys @ z # xs)"
    using d ne disj self lst by (auto simp: cyc_def)
  ultimately show "cyc s' (p # ys @ z # xs)"
    using q by (simp add: cyc_def)
  show "cyc s' [l]" using lst neq ne by (simp add: cyc_def s' c e)
qed

section \<open>What the operations do to the links\<close>

lemmas list_set_defs = set_prev_def set_next_def

lemma before_links:
  assumes "t \<noteq> n" "t \<noteq> NULL" "n \<noteq> NULL" and "prev_ln s t = p" "next_ln s p = t" "p \<noteq> n"
  shows "next_ln (ct_list_before t n s) = (next_ln s)(n := next_ln s p, p := n)"
    and "prev_ln (ct_list_before t n s) = (prev_ln s)(n := p, next_ln s p := n)"
  using assms by (simp_all add: ct_list_before_def list_set_defs fun_eq_iff)

lemma after_links:
  assumes "t \<noteq> n" "t \<noteq> NULL" "n \<noteq> NULL"
  shows "next_ln (ct_list_after t n s) = (next_ln s)(n := next_ln s t, t := n)"
    and "prev_ln (ct_list_after t n s) = (prev_ln s)(n := t, next_ln s t := n)"
  using assms by (simp_all add: ct_list_after_def list_set_defs)

lemma remove_links:
  assumes "n \<noteq> NULL" "prev_ln s n \<noteq> n" "next_ln s n \<noteq> n"
  shows "next_ln (ct_list_remove n s) = (next_ln s)(prev_ln s n := next_ln s n)"
    and "prev_ln (ct_list_remove n s) = (prev_ln s)(next_ln s n := prev_ln s n)"
  using assms by (simp_all add: ct_list_remove_def list_set_defs)

lemma append_before: "ct_list_append h n s = ct_list_before h n s"
  by (simp add: ct_list_append_def ct_list_before_def)

lemma prepend_after: "ct_list_prepend h n s = ct_list_after h n s"
  by (simp add: ct_list_prepend_def ct_list_after_def)

lemma ring_ends:
  assumes "cyc s (h # xs)"
  shows "next_ln s h = hd (xs @ [h])" and "prev_ln s h = last (h # xs)" and "ct_list_is_empty h s \<longleftrightarrow> xs = []"
proof -
  obtain q ws where q: "xs @ [h] = q # ws" by (cases "xs @ [h]") auto
  have "chain s (h # q # ws)" using assms q by (simp add: cyc_def)
  then show n: "next_ln s h = hd (xs @ [h])" using q by simp
  have "h # xs = butlast (h # xs) @ [last (h # xs)]" by simp
  then have "chain s (butlast (h # xs) @ last (h # xs) # [h])"
    using assms unfolding cyc_def by (metis append.assoc append_Cons append_Nil list.sel(1))
  then show "prev_ln s h = last (h # xs)"
    unfolding chain_split [of s "butlast (h # xs)" "last (h # xs)" "[h]"] by simp
  show "ct_list_is_empty h s \<longleftrightarrow> xs = []"
    using n assms by (cases xs) (auto simp: ct_list_is_empty_def cyc_def)
qed

lemma ring_nonnull: "cyc s (h # xs) \<Longrightarrow> h \<noteq> NULL \<and> NULL \<notin> set xs"
  by (auto simp: cyc_def)

text \<open>The same for a node inside the ring.\<close>

lemma ring_node:
  assumes "cyc s (us @ t # vs)"
  shows "next_ln s t = hd (vs @ us @ [t])" and "prev_ln s t = last (t # vs @ us)"
  using ring_ends [of s t "vs @ us"] cyc_rotate [of s us "t # vs"] assms by simp_all

section \<open>A world of lists\<close>

text \<open>The lists a program keeps, by sentinel.  Different lists share no node.\<close>

type_synonym lists = "addr \<rightharpoonup> addr list"

definition in_lists :: "addr \<Rightarrow> lists \<Rightarrow> bool" where
  "in_lists n W \<longleftrightarrow> (\<exists>h xs. W h = Some xs \<and> n \<in> set (h # xs))"

definition lists_ok :: "ct_list_store \<Rightarrow> lists \<Rightarrow> bool" where
  "lists_ok s W \<longleftrightarrow> (\<forall>h xs. W h = Some xs \<longrightarrow> list_ring s h xs) \<and>
     (\<forall>h xs k ys. W h = Some xs \<and> W k = Some ys \<and> h \<noteq> k \<longrightarrow> set (h # xs) \<inter> set (k # ys) = {})"

lemma lists_okD:
  assumes "lists_ok s W" and "W h = Some xs"
  shows "list_ring s h xs" and "W k = Some ys \<Longrightarrow> h \<noteq> k \<Longrightarrow> set (h # xs) \<inter> set (k # ys) = {}"
  using assms unfolding lists_ok_def by blast+

lemma lists_okI:
  assumes "\<And>h xs. W h = Some xs \<Longrightarrow> list_ring s h xs"
    and "\<And>h xs k ys. W h = Some xs \<Longrightarrow> W k = Some ys \<Longrightarrow> h \<noteq> k \<Longrightarrow> set (h # xs) \<inter> set (k # ys) = {}"
  shows "lists_ok s W"
  using assms unfolding lists_ok_def by blast

datatype list_op =
    LInit addr
  | LAppend addr addr
  | LPrepend addr addr
  | LBefore addr addr
  | LAfter addr addr
  | LRemove addr
  | LSplicePrev addr addr
  | LSpliceNext addr addr

fun list_exec :: "list_op \<Rightarrow> ct_list_store \<Rightarrow> ct_list_store" where
  "list_exec (LInit h) s = ct_list_init h s"
| "list_exec (LAppend h n) s = ct_list_append h n s"
| "list_exec (LPrepend h n) s = ct_list_prepend h n s"
| "list_exec (LBefore t n) s = ct_list_before t n s"
| "list_exec (LAfter t n) s = ct_list_after t n s"
| "list_exec (LRemove n) s = ct_list_remove n s"
| "list_exec (LSplicePrev h l) s = ct_list_splice_prev h l s"
| "list_exec (LSpliceNext h l) s = ct_list_splice_next h l s"

text \<open>What each operation does to the lists, when it is used on nodes it may be used on: a node to
  link in belongs to no list, a target is an element.\<close>

inductive list_step :: "list_op \<Rightarrow> lists \<Rightarrow> lists \<Rightarrow> bool" where
  init: "h \<noteq> NULL \<Longrightarrow> \<not> in_lists h W \<Longrightarrow> list_step (LInit h) W (W(h \<mapsto> []))"
| reset: "W h = Some xs \<Longrightarrow> list_step (LInit h) W (W(h \<mapsto> []))"
| append: "W h = Some xs \<Longrightarrow> n \<noteq> NULL \<Longrightarrow> \<not> in_lists n W \<Longrightarrow>
    list_step (LAppend h n) W (W(h \<mapsto> xs @ [n]))"
| prepend: "W h = Some xs \<Longrightarrow> n \<noteq> NULL \<Longrightarrow> \<not> in_lists n W \<Longrightarrow>
    list_step (LPrepend h n) W (W(h \<mapsto> n # xs))"
| before: "W h = Some (us @ t # vs) \<Longrightarrow> n \<noteq> NULL \<Longrightarrow> \<not> in_lists n W \<Longrightarrow>
    list_step (LBefore t n) W (W(h \<mapsto> us @ n # t # vs))"
| after: "W h = Some (us @ t # vs) \<Longrightarrow> n \<noteq> NULL \<Longrightarrow> \<not> in_lists n W \<Longrightarrow>
    list_step (LAfter t n) W (W(h \<mapsto> us @ t # n # vs))"
| remove: "W h = Some (us @ n # vs) \<Longrightarrow> list_step (LRemove n) W (W(h \<mapsto> us @ vs))"
| splice_prev: "W h = Some xs \<Longrightarrow> W l = Some ys \<Longrightarrow> h \<noteq> l \<Longrightarrow>
    list_step (LSplicePrev h l) W (W(h \<mapsto> ys @ xs, l \<mapsto> []))"
| splice_next: "W h = Some xs \<Longrightarrow> W l = Some ys \<Longrightarrow> h \<noteq> l \<Longrightarrow>
    list_step (LSpliceNext h l) W (W(h \<mapsto> xs @ ys, l \<mapsto> []))"

inductive list_steps :: "list_op list \<Rightarrow> lists \<Rightarrow> lists \<Rightarrow> bool" where
  none: "list_steps [] W W"
| more: "list_step op W V \<Longrightarrow> list_steps ops V U \<Longrightarrow> list_steps (op # ops) W U"

inductive_cases list_stepsE: "list_steps (op # ops) W U"

text \<open>An operation on one ring leaves the other lists alone.\<close>

lemma lists_ok_upd:
  assumes ok: "lists_ok s W" and h: "W h = Some xs"
    and ring: "list_ring s' h xs'" and new: "\<forall>x \<in> set xs'. x \<in> set xs \<or> \<not> in_lists x W"
    and frame: "\<forall>x. in_lists x W \<and> x \<notin> set (h # xs) \<longrightarrow> next_ln s' x = next_ln s x \<and> prev_ln s' x = prev_ln s x"
  shows "lists_ok s' (W(h \<mapsto> xs'))"
proof -
  have other: "list_ring s' k ys \<and> set (h # xs') \<inter> set (k # ys) = {}" if k: "W k = Some ys" "k \<noteq> h" for k ys
  proof -
    have disj: "set (h # xs) \<inter> set (k # ys) = {}" and r: "list_ring s k ys"
      using ok h k unfolding lists_ok_def by blast+
    have m: "in_lists x W \<and> x \<notin> set (h # xs)" if "x \<in> set (k # ys)" for x
      using k disj that by (auto simp: in_lists_def)
    have "next_ln s' x = next_ln s x \<and> prev_ln s' x = prev_ln s x" if "x \<in> set (k # ys)" for x
      using frame m [OF that] by blast
    then have "list_ring s' k ys" using r cyc_frame [of "k # ys" s' s] by simp
    moreover have "x \<notin> set (h # xs')" if "x \<in> set (k # ys)" for x
      using m [OF that] new by auto
    ultimately show ?thesis by blast
  qed
  have "set (k # ys) \<inter> set (m # zs) = {}" if "W k = Some ys" "W m = Some zs" "k \<noteq> m" for k ys m zs
    using ok that unfolding lists_ok_def by blast
  note same = this
  let ?W = "W(h \<mapsto> xs')"
  have "list_ring s' k ys" if "?W k = Some ys" for k ys
    using that ring other [of k ys] by (cases "k = h") simp_all
  moreover have "set (k # ys) \<inter> set (m # zs) = {}" if "?W k = Some ys" "?W m = Some zs" "k \<noteq> m" for k ys m zs
  proof (cases "k = h")
    case True
    then have "W m = Some zs" "m \<noteq> h" "ys = xs'" using that by simp_all
    then show ?thesis using other [of m zs] True by simp
  next
    case False
    then have k: "W k = Some ys" using that by simp
    show ?thesis
    proof (cases "m = h")
      case True
      then have "zs = xs'" using that by simp
      then show ?thesis using other [OF k False] True by (simp only: Int_commute)
    next
      case F: False
      then show ?thesis using same [OF k _ that(3)] that by simp
    qed
  qed
  ultimately show ?thesis unfolding lists_ok_def by blast
qed


lemma dlist_insert_ok:
  assumes ok: "lists_ok s W" and h: "W h = Some xs" and at: "h # xs = us @ p # vs"
    and n: "n \<noteq> NULL" "\<not> in_lists n W"
    and s': "next_ln s' = (next_ln s)(n := next_ln s p, p := n)"
      "prev_ln s' = (prev_ln s)(n := p, next_ln s p := n)"
  shows "lists_ok s' (W(h \<mapsto> tl (us @ p # n # vs)))"
proof (rule lists_ok_upd [OF ok h])
  have ring: "list_ring s h xs" using ok h by (simp add: lists_ok_def)
  have fresh: "n \<notin> set (h # xs)" using n h by (auto simp: in_lists_def)
  have "cyc s (p # vs @ us)" using ring cyc_rotate [of s us "p # vs"] by (simp add: at)
  moreover have "n \<notin> set (p # vs @ us)" using fresh unfolding at by auto
  ultimately have "cyc s' (p # n # vs @ us)" using n(1) s' by (rule cyc_insert)
  then have "cyc s' (us @ p # n # vs)" using cyc_rotate [of s' us "p # n # vs"] by simp
  moreover have "us @ p # n # vs = h # tl (us @ p # n # vs)" using at by (cases us) simp_all
  ultimately show "list_ring s' h (tl (us @ p # n # vs))" by simp
  show "\<forall>x \<in> set (tl (us @ p # n # vs)). x \<in> set xs \<or> \<not> in_lists x W"
    using at n by (cases us) auto
  have "next_ln s p \<in> set (h # xs)"
    using ring_node(1) [of s us p vs] ring unfolding at by (cases vs; cases us) auto
  moreover have "p \<in> set (h # xs)" unfolding at by simp
  ultimately show "\<forall>x. in_lists x W \<and> x \<notin> set (h # xs) \<longrightarrow> next_ln s' x = next_ln s x \<and> prev_ln s' x = prev_ln s x"
    using n s' by auto
qed

lemma before_ok:
  assumes ok: "lists_ok s W" and h: "W h = Some xs" and at: "h # xs @ [h] = us @ p # t # vs"
    and n: "n \<noteq> NULL" "\<not> in_lists n W"
  shows "lists_ok (ct_list_before t n s) (W(h \<mapsto> butlast (tl (us @ p # n # t # vs))))"
proof -
  have ring: "list_ring s h xs" using ok h by (simp add: lists_ok_def)
  have e: "h # xs = us @ p # butlast (t # vs)" using arg_cong [OF at, of butlast] by (simp add: butlast_append)
  have "chain s (us @ p # t # vs)" using ring unfolding at [symmetric] by (simp add: cyc_def)
  then have c: "next_ln s p = t" "prev_ln s t = p" unfolding chain_split [of s us p "t # vs"] by simp_all
  have mem: "{p, t} \<subseteq> set (h # xs)" "NULL \<notin> set (h # xs)"
  proof -
    have "{p, t} \<subseteq> set (h # xs @ [h])" unfolding at by auto
    then show "{p, t} \<subseteq> set (h # xs)" by auto
    show "NULL \<notin> set (h # xs)" using ring by (simp add: cyc_def)
  qed
  then have "t \<noteq> n" "p \<noteq> n" "t \<noteq> NULL" using n h by (auto simp: in_lists_def)
  then have "lists_ok (ct_list_before t n s) (W(h \<mapsto> tl (us @ p # n # butlast (t # vs))))"
    using dlist_insert_ok [OF ok h e n] before_links [of t n s p] n(1) c by simp
  then show ?thesis by (cases us) (simp_all add: butlast_append)
qed

lemma after_ok:
  assumes ok: "lists_ok s W" and h: "W h = Some xs" and at: "h # xs = us @ t # vs"
    and n: "n \<noteq> NULL" "\<not> in_lists n W"
  shows "lists_ok (ct_list_after t n s) (W(h \<mapsto> tl (us @ t # n # vs)))"
proof -
  have "list_ring s h xs" using ok h by (simp add: lists_ok_def)
  then have "NULL \<notin> set (h # xs)" by (simp add: cyc_def)
  moreover have "t \<in> set (h # xs)" unfolding at by simp
  moreover have "n \<notin> set (h # xs)" using n h by (auto simp: in_lists_def)
  ultimately have "t \<noteq> NULL" "t \<noteq> n" by auto
  then show ?thesis using dlist_insert_ok [OF ok h at n] after_links [of t n s] n(1) by simp
qed

lemma dlist_remove_ok:
  assumes ok: "lists_ok s W" and h: "W h = Some (us @ n # vs)"
  shows "lists_ok (ct_list_remove n s) (W(h \<mapsto> us @ vs))"
proof (rule lists_ok_upd [OF ok h])
  have ring: "cyc s ((h # us) @ n # vs)" using ok h by (simp add: lists_ok_def)
  then have rot: "cyc s (n # vs @ h # us)" using cyc_rotate [of s "h # us" "n # vs"] by simp
  have d: "n \<notin> set (vs @ h # us)" "n \<noteq> NULL" using rot by (auto simp: cyc_def)
  note nd = ring_node [OF ring]
  have ends: "next_ln s n \<in> set (vs @ h # us)" "prev_ln s n \<in> set (vs @ h # us)"
    unfolding nd by (cases vs; simp)+
  then have "prev_ln s n \<noteq> n" "next_ln s n \<noteq> n" using d by auto
  note links = remove_links [OF d(2) this]
  have "cyc (ct_list_remove n s) (vs @ h # us)"
    by (rule cyc_remove [OF rot _ links]) simp
  then show "list_ring (ct_list_remove n s) h (us @ vs)" using cyc_rotate [of _ vs "h # us"] by simp
  show "\<forall>x \<in> set (us @ vs). x \<in> set (us @ n # vs) \<or> \<not> in_lists x W" by simp
  show "\<forall>x. in_lists x W \<and> x \<notin> set (h # us @ n # vs) \<longrightarrow>
      next_ln (ct_list_remove n s) x = next_ln s x \<and> prev_ln (ct_list_remove n s) x = prev_ln s x"
    using ends unfolding links by auto
qed

lemma lists_ok_frame:
  assumes "lists_ok s W" and "\<forall>x. in_lists x W \<longrightarrow> next_ln s' x = next_ln s x \<and> prev_ln s' x = prev_ln s x"
  shows "lists_ok s' W"
proof -
  have "list_ring s' h xs" if "W h = Some xs" for h xs
  proof -
    have "next_ln s' x = next_ln s x \<and> prev_ln s' x = prev_ln s x" if "x \<in> set (h # xs)" for x
      using assms(2) that \<open>W h = Some xs\<close> by (auto simp: in_lists_def)
    then show ?thesis using assms(1) that cyc_frame [of "h # xs" s' s] by (simp add: lists_ok_def)
  qed
  then show ?thesis using assms(1) unfolding lists_ok_def by blast
qed

lemma lists_ok_forget: "lists_ok s W \<Longrightarrow> lists_ok s (W(l := None))"
  unfolding lists_ok_def by (auto split: if_splits)

lemma in_lists_forget:
  assumes "lists_ok s W" and "W l = Some ys"
  shows "in_lists x (W(l := None)) \<longleftrightarrow> in_lists x W \<and> x \<notin> set (l # ys)"
proof
  assume "in_lists x (W(l := None))"
  then obtain h xs where "W h = Some xs" "h \<noteq> l" "x \<in> set (h # xs)"
    by (auto simp: in_lists_def split: if_splits)
  then show "in_lists x W \<and> x \<notin> set (l # ys)"
    using lists_okD(2) [OF assms(1) _ assms(2), of h xs] unfolding in_lists_def by blast
next
  assume x: "in_lists x W \<and> x \<notin> set (l # ys)"
  then obtain h xs where h: "W h = Some xs" "x \<in> set (h # xs)" by (auto simp: in_lists_def)
  then have "h \<noteq> l" using x assms(2) by auto
  then show "in_lists x (W(l := None))" using h unfolding in_lists_def by (intro exI [of _ h] exI [of _ xs]) simp
qed

lemma lists_ok_add:
  assumes ok: "lists_ok s W" and new: "\<not> in_lists l W" and ring: "list_ring s l []"
  shows "lists_ok s (W(l \<mapsto> []))"
proof (rule lists_okI)
  have l: "l \<notin> set (h # xs)" if "W h = Some xs" for h xs
    using new that unfolding in_lists_def by blast
  show "list_ring s k ys" if "(W(l \<mapsto> [])) k = Some ys" for k ys
    using that ring lists_okD(1) [OF ok, of k ys] by (cases "k = l") simp_all
  show "set (k # ys) \<inter> set (m # zs) = {}"
    if w: "(W(l \<mapsto> [])) k = Some ys" "(W(l \<mapsto> [])) m = Some zs" "k \<noteq> m" for k ys m zs
  proof -
    show ?thesis
    proof (cases "k = l \<or> m = l")
      case True
      then have "k = l \<and> ys = [] \<and> W m = Some zs \<or> m = l \<and> zs = [] \<and> W k = Some ys"
        using w by auto
      then show ?thesis using l [of m zs] l [of k ys] by auto
    next
      case False
      then have "W k = Some ys" "W m = Some zs" using w by simp_all
      then show ?thesis using lists_okD(2) [OF ok] w(3) by blast
    qed
  qed
qed

lemma dlist_init_ok:
  assumes ok: "lists_ok s W" and h: "h \<noteq> NULL" "\<not> in_lists h W"
  shows "lists_ok (ct_list_init h s) (W(h \<mapsto> []))"
proof (rule lists_ok_add [OF lists_ok_frame [OF ok] h(2)])
  show "\<forall>x. in_lists x W \<longrightarrow> next_ln (ct_list_init h s) x = next_ln s x \<and> prev_ln (ct_list_init h s) x = prev_ln s x"
    using h by (auto simp: ct_list_init_def list_set_defs)
  show "list_ring (ct_list_init h s) h []"
    using h by (simp add: ct_list_init_def list_set_defs cyc_def)
qed

text \<open>Both splices link the elements of \<open>l\<close> in after one node \<open>p\<close> of the ring of \<open>h\<close>.\<close>

lemma splice_ok:
  assumes ok: "lists_ok s W" and h: "W h = Some xs" and l: "W l = Some (ys @ [z])" and "h \<noteq> l"
    and at: "h # xs = us @ p # vs"
    and s': "next_ln s' = (next_ln s)(z := next_ln s p, p := next_ln s l, l := l)"
      "prev_ln s' = (prev_ln s)(next_ln s p := z, next_ln s l := p, l := l)"
  shows "lists_ok s' (W(h \<mapsto> tl (us @ p # ys @ z # vs), l \<mapsto> []))"
proof -
  let ?V = "W(l := None)"
  have ring: "cyc s (us @ p # vs)" "cyc s (l # ys @ [z])" and disj: "set (h # xs) \<inter> set (l # ys @ [z]) = {}"
    using ok h l \<open>h \<noteq> l\<close> unfolding lists_ok_def at [symmetric] by blast+
  have rot: "cyc s (p # vs @ us)" using ring(1) cyc_rotate [of s us "p # vs"] by simp
  have "set (p # vs @ us) \<inter> set (l # ys @ [z]) = {}" using disj unfolding at by auto
  note new = cyc_splice [OF rot ring(2) this s']
  have r': "us @ p # ys @ z # vs = h # tl (us @ p # ys @ z # vs)" using at by (cases us) simp_all
  have "cyc s' (us @ p # ys @ z # vs)" using new(1) cyc_rotate [of s' us "p # ys @ z # vs"] by simp
  then have r: "list_ring s' h (tl (us @ p # ys @ z # vs))" using r' by simp
  have in_V: "in_lists x ?V \<longleftrightarrow> in_lists x W \<and> x \<notin> set (l # ys @ [z])" for x
    by (rule in_lists_forget [OF ok l])
  have p: "p \<in> set (h # xs)" "next_ln s p \<in> set (h # xs)"
    using ring_node(1) [OF ring(1)] unfolding at by simp_all (cases vs; cases us; auto)
  have a: "next_ln s l \<in> set (l # ys @ [z])"
    using ring_ends(1) [OF ring(2)] by (cases ys) auto
  have "lists_ok s' (?V(h \<mapsto> tl (us @ p # ys @ z # vs)))"
  proof (rule lists_ok_upd [OF lists_ok_forget [OF ok] _ r])
    show "?V h = Some xs" using h \<open>h \<noteq> l\<close> by simp
    show "\<forall>x \<in> set (tl (us @ p # ys @ z # vs)). x \<in> set xs \<or> \<not> in_lists x ?V"
      using at unfolding in_V by (cases us) auto
    show "\<forall>x. in_lists x ?V \<and> x \<notin> set (h # xs) \<longrightarrow> next_ln s' x = next_ln s x \<and> prev_ln s' x = prev_ln s x"
      using p a unfolding in_V s' by auto
  qed
  moreover have "\<not> in_lists l (?V(h \<mapsto> tl (us @ p # ys @ z # vs)))"
  proof -
    have "l \<notin> set (h # tl (us @ p # ys @ z # vs))" unfolding r' [symmetric]
      using disj ring(2) by (auto simp: at cyc_def)
    moreover have "\<not> in_lists l ?V" by (simp add: in_V)
    ultimately show ?thesis unfolding in_lists_def by (auto split: if_splits)
  qed
  ultimately have "lists_ok s' ((?V(h \<mapsto> tl (us @ p # ys @ z # vs)))(l \<mapsto> []))"
    using new(2) by (rule lists_ok_add)
  then show ?thesis using \<open>h \<noteq> l\<close> by (simp add: fun_upd_twist)
qed

lemma splice_prev_links:
  assumes ok: "lists_ok s W" and h: "W h = Some xs" and l: "W l = Some (ys @ [z])" and "h \<noteq> l"
  shows "next_ln (ct_list_splice_prev h l s) = (next_ln s)(z := next_ln s h, h := next_ln s l, l := l)"
    and "prev_ln (ct_list_splice_prev h l s) = (prev_ln s)(next_ln s h := z, next_ln s l := h, l := l)"
proof -
  have rl: "cyc s (l # ys @ [z])" and rh: "cyc s (h # xs)" using lists_okD(1) [OF ok] h l by blast+
  have disj: "set (h # xs) \<inter> set (l # ys @ [z]) = {}" using lists_okD(2) [OF ok h l \<open>h \<noteq> l\<close>] .
  have "prev_ln s l = z" "\<not> ct_list_is_empty l s" using ring_ends [OF rl] by simp_all
  moreover have "h \<noteq> NULL" "l \<noteq> NULL" "z \<noteq> l" "z \<noteq> h" using rh rl disj by (auto simp: cyc_def)
  moreover have "next_ln s h \<noteq> l"
  proof -
    have "next_ln s h \<in> set (h # xs)" using ring_ends(1) [OF rh] by (cases xs) auto
    then show ?thesis using disj by auto
  qed
  ultimately show "next_ln (ct_list_splice_prev h l s) = (next_ln s)(z := next_ln s h, h := next_ln s l, l := l)"
    and "prev_ln (ct_list_splice_prev h l s) = (prev_ln s)(next_ln s h := z, next_ln s l := h, l := l)"
    using \<open>h \<noteq> l\<close>
    by (simp_all add: ct_list_splice_prev_def ct_list_first_def ct_list_last_def ct_list_init_def list_set_defs)
qed

lemma splice_next_links:
  assumes ok: "lists_ok s W" and h: "W h = Some xs" and l: "W l = Some (ys @ [z])" and "h \<noteq> l"
    and p: "h # xs = us @ [p]"
  shows "next_ln (ct_list_splice_next h l s) = (next_ln s)(z := next_ln s p, p := next_ln s l, l := l)"
    and "prev_ln (ct_list_splice_next h l s) = (prev_ln s)(next_ln s p := z, next_ln s l := p, l := l)"
proof -
  have rl: "cyc s (l # ys @ [z])" and rh: "cyc s (h # xs)" using lists_okD(1) [OF ok] h l by blast+
  have disj: "set (h # xs) \<inter> set (l # ys @ [z]) = {}" using lists_okD(2) [OF ok h l \<open>h \<noteq> l\<close>] .
  have "prev_ln s l = z" "\<not> ct_list_is_empty l s" using ring_ends [OF rl] by simp_all
  moreover have "prev_ln s h = p" using ring_ends(2) [OF rh] unfolding p by simp
  moreover have "next_ln s p = h"
  proof -
    have e: "us @ p # [h] = h # xs @ [h]" using p by (metis append.assoc append_Cons append_Nil)
    have "chain s (us @ p # [h])" unfolding e using rh by (simp add: cyc_def)
    then show ?thesis unfolding chain_split [of s us p "[h]"] by simp
  qed
  moreover have "p \<in> set (h # xs)" unfolding p by simp
  moreover have "next_ln s l \<in> set (ys @ [z])" using ring_ends(1) [OF rl] by (cases ys) auto
  moreover have "h \<noteq> NULL" "l \<noteq> NULL" "z \<noteq> l" "z \<noteq> h" "l \<notin> set (ys @ [z])" using rh rl disj by (auto simp: cyc_def)
  moreover have "next_ln s l \<noteq> h" "p \<noteq> l" "next_ln s l \<noteq> l" "p \<noteq> z" using calculation disj by auto
  ultimately show "next_ln (ct_list_splice_next h l s) = (next_ln s)(z := next_ln s p, p := next_ln s l, l := l)"
    and "prev_ln (ct_list_splice_next h l s) = (prev_ln s)(next_ln s p := z, next_ln s l := p, l := l)"
    using \<open>h \<noteq> l\<close>
    by (simp_all add: ct_list_splice_next_def ct_list_first_def ct_list_last_def ct_list_init_def list_set_defs fun_upd_twist)
qed

lemma splice_empty:
  assumes "lists_ok s W" and "W l = Some []" and "h \<noteq> NULL"
  shows "ct_list_splice_prev h l s = s" and "ct_list_splice_next h l s = s"
  using ring_ends(3) [OF lists_okD(1) [OF assms(1,2)]]
  by (simp_all add: ct_list_splice_prev_def ct_list_splice_next_def)

lemma splices_ok:
  assumes ok: "lists_ok s W" and h: "W h = Some xs" and l: "W l = Some ys" and "h \<noteq> l"
  shows "lists_ok (ct_list_splice_prev h l s) (W(h \<mapsto> ys @ xs, l \<mapsto> []))"
    and "lists_ok (ct_list_splice_next h l s) (W(h \<mapsto> xs @ ys, l \<mapsto> []))"
proof -
  have "h \<noteq> NULL" using ring_nonnull [OF lists_okD(1) [OF ok h]] by simp
  have "lists_ok (ct_list_splice_prev h l s) (W(h \<mapsto> ys @ xs, l \<mapsto> [])) \<and>
    lists_ok (ct_list_splice_next h l s) (W(h \<mapsto> xs @ ys, l \<mapsto> []))"
  proof (cases ys rule: rev_cases)
    case Nil
    then have "W(h \<mapsto> xs, l \<mapsto> []) = W" using h l by (auto simp: fun_eq_iff)
    then show ?thesis using ok splice_empty [OF ok l [unfolded Nil] \<open>h \<noteq> NULL\<close>] Nil by simp
  next
    case (snoc zs z)
    have l': "W l = Some (zs @ [z])" using l snoc by simp
    obtain us p where p: "h # xs = us @ [p]" by (cases "h # xs" rule: rev_cases) auto
    have e: "tl (us @ p # zs @ [z]) = xs @ zs @ [z]"
    proof -
      have "us @ p # zs @ [z] = (h # xs) @ zs @ [z]" unfolding p by simp
      then show ?thesis by (simp only: append_Cons list.sel)
    qed
    have "lists_ok (ct_list_splice_prev h l s) (W(h \<mapsto> tl ([] @ h # zs @ z # xs), l \<mapsto> []))"
      using splice_prev_links [OF ok h l' \<open>h \<noteq> l\<close>] by (intro splice_ok [OF ok h l' \<open>h \<noteq> l\<close>]) simp_all
    moreover have "lists_ok (ct_list_splice_next h l s) (W(h \<mapsto> tl (us @ p # zs @ z # []), l \<mapsto> []))"
      using splice_next_links [OF ok h l' \<open>h \<noteq> l\<close> p] p by (intro splice_ok [OF ok h l' \<open>h \<noteq> l\<close>]) simp_all
    ultimately show ?thesis using snoc e by simp
  qed
  then show "lists_ok (ct_list_splice_prev h l s) (W(h \<mapsto> ys @ xs, l \<mapsto> []))"
    "lists_ok (ct_list_splice_next h l s) (W(h \<mapsto> xs @ ys, l \<mapsto> []))" by simp_all
qed

lemma list_step_ok: "list_step op W V \<Longrightarrow> lists_ok s W \<Longrightarrow> lists_ok (list_exec op s) V"
proof (induction rule: list_step.induct)
  case (init h W)
  show ?case unfolding list_exec.simps by (rule dlist_init_ok [OF init(3,1,2)])
next
  case (reset W h xs)
  have "h \<noteq> NULL" using ring_nonnull [OF lists_okD(1) [OF reset(2,1)]] by simp
  moreover have "\<not> in_lists h (W(h := None))" using in_lists_forget [OF reset(2,1)] by simp
  ultimately have "lists_ok (ct_list_init h s) ((W(h := None))(h \<mapsto> []))"
    using dlist_init_ok [OF lists_ok_forget [OF reset(2)]] by blast
  then show ?case unfolding list_exec.simps fun_upd_upd .
next
  case (append W h xs n)
  obtain us p where p: "h # xs = us @ [p]" by (cases "h # xs" rule: rev_cases) auto
  then have "h # xs @ [h] = us @ p # h # []" by simp
  from before_ok [OF append(4,1) this append(2,3)]
  have "lists_ok (ct_list_before h n s) (W(h \<mapsto> butlast (tl (us @ p # n # h # []))))" .
  moreover have "butlast (tl (us @ p # n # h # [])) = xs @ [n]"
  proof -
    have e: "us @ p # n # h # [] = h # xs @ [n, h]" using p by (metis append.assoc append_Cons append_Nil)
    show ?thesis unfolding e by (simp add: butlast_append)
  qed
  ultimately show ?case by (simp only: list_exec.simps append_before)
next
  case (prepend W h xs n)
  then have "lists_ok (ct_list_after h n s) (W(h \<mapsto> n # xs))"
    using after_ok [of s W h xs "[]" h xs n] by (simp del: fun_upd_apply)
  then show ?case unfolding list_exec.simps prepend_after .
next
  case (before W h us t vs n)
  obtain ws p where p: "h # us = ws @ [p]" by (cases "h # us" rule: rev_cases) auto
  then have "h # (us @ t # vs) @ [h] = ws @ p # t # vs @ [h]"
    by (metis append.assoc append_Cons append_Nil)
  from before_ok [OF before(4,1) this before(2,3)]
  have "lists_ok (ct_list_before t n s) (W(h \<mapsto> butlast (tl (ws @ p # n # t # vs @ [h]))))" .
  moreover have "butlast (tl (ws @ p # n # t # vs @ [h])) = us @ n # t # vs"
  proof -
    have e: "ws @ p # n # t # vs @ [h] = h # us @ n # t # vs @ [h]"
      using p by (metis append.assoc append_Cons append_Nil)
    show ?thesis unfolding e by (simp add: butlast_append)
  qed
  ultimately show ?case by (simp only: list_exec.simps)
next
  case (after W h us t vs n)
  then have "lists_ok (ct_list_after t n s) (W(h \<mapsto> us @ t # n # vs))"
    using after_ok [of s W h "us @ t # vs" "h # us" t vs n] by (simp del: fun_upd_apply)
  then show ?case unfolding list_exec.simps .
next
  case (remove W h us n vs)
  show ?case unfolding list_exec.simps by (rule dlist_remove_ok [OF remove(2,1)])
next
  case (splice_prev W h xs l ys)
  show ?case unfolding list_exec.simps by (rule splices_ok(1) [OF splice_prev(4,1,2,3)])
next
  case (splice_next W h xs l ys)
  show ?case unfolding list_exec.simps by (rule splices_ok(2) [OF splice_next(4,1,2,3)])
qed

lemma list_steps_ok: "list_steps ops W U \<Longrightarrow> lists_ok s W \<Longrightarrow> lists_ok (fold list_exec ops s) U"
  by (induction arbitrary: s rule: list_steps.induct) (simp_all add: list_step_ok)

section \<open>What the operations observe\<close>

lemma foreach_chain:
  "chain s (xs @ [h]) \<Longrightarrow> h \<notin> set xs \<Longrightarrow> ct_list_foreach body h s (hd (xs @ [h])) acc = Some (fold body xs acc)"
proof (induction xs arbitrary: acc)
  case (Cons x xs)
  then have "next_ln s x = hd (xs @ [h])" "chain s (xs @ [h])" by (cases xs; simp)+
  then show ?case using Cons by (subst ct_list_foreach.simps) auto
qed (subst ct_list_foreach.simps, simp)

lemma fold_count: "fold (\<lambda>_ size. size + 1) xs (n :: u64) = n + of_nat (length xs)"
  by (induction xs arbitrary: n) (simp_all add: algebra_simps)

lemma foreach_ring:
  assumes "list_ring s h xs"
  shows "ct_list_foreach body h s (next_ln s h) acc = Some (fold body xs acc)"
proof -
  have "chain s (xs @ [h])" "h \<notin> set xs" using assms by (cases xs; simp add: cyc_def)+
  then show ?thesis using foreach_chain [of s xs h body acc] ring_ends(1) [OF assms] by simp
qed

lemma size_ring: "list_ring s h xs \<Longrightarrow> ct_list_size h s = Some (of_nat (length xs))"
  using ring_nonnull [of s h xs] by (simp add: ct_list_size_def foreach_ring fold_count)

text \<open>The observations of one list: what the accessors and the iteration return.\<close>

definition list_seen :: "ct_list_store \<Rightarrow> addr \<Rightarrow> addr list \<Rightarrow> bool" where
  "list_seen s h xs \<longleftrightarrow> ct_list_is_empty h s = (xs = []) \<and>
     ct_list_first h s = hd (xs @ [h]) \<and> ct_list_last h s = last (h # xs) \<and>
     ct_list_size h s = Some (of_nat (length xs)) \<and>
     ct_list_foreach (\<lambda>node seen. seen @ [node]) h s (ct_list_first h s) [] = Some xs"

lemma fold_snoc: "fold (\<lambda>x acc. acc @ [x]) xs ys = ys @ xs"
  by (induction xs arbitrary: ys) simp_all

lemma ring_seen: "list_ring s h xs \<Longrightarrow> list_seen s h xs"
  using ring_ends [of s h xs] foreach_ring [of s h xs "\<lambda>node seen. seen @ [node]" "[]"]
  by (simp add: list_seen_def ct_list_first_def ct_list_last_def size_ring fold_snoc)

text \<open>C25: Any sequence of list operations, on any number of lists that share no node and with nodes
  that belong to no list linked in, does to the pointers what its name says to the lists of nodes:
  the links stay well formed in both directions, every other list keeps its elements, and the
  emptiness test, the ends, the size and the iteration report the list.\<close>

theorem dlist_refines_lists:
  assumes ok: "lists_ok s W" and run: "list_steps ops W U" and h: "U h = Some xs"
  shows "lists_ok (fold list_exec ops s) U \<and> list_seen (fold list_exec ops s) h xs"
  using list_steps_ok [OF run ok] ring_seen [OF lists_okD(1)] h by blast

text \<open>Two lists; nodes 3, 4, 5 appended to the first, 6 to the second, 4 removed and prepended to the
  second, the second spliced after the first.\<close>

definition dlist_example :: "list_op list" where
  "dlist_example = [LInit 1, LInit 2, LAppend 1 3, LAppend 1 4, LAppend 1 5, LAppend 2 6, LRemove 4, LPrepend 2 4,
     LSpliceNext 1 2]"

lemma dlist_example_steps:
  "list_steps dlist_example Map.empty ([1 \<mapsto> [3, 5, 4, 6], 2 \<mapsto> []])"
proof -
  note step = list_steps.more
  have 1: "list_step (LInit 1) Map.empty [1 \<mapsto> []]"
    by (rule list_step.init) (simp_all add: NULL_def in_lists_def)
  have 2: "list_step (LInit 2) [1 \<mapsto> []] [1 \<mapsto> [], 2 \<mapsto> []]"
    by (rule list_step.init) (simp_all add: NULL_def in_lists_def)
  have 3: "list_step (LAppend 1 3) [1 \<mapsto> [], 2 \<mapsto> []] [1 \<mapsto> [3], 2 \<mapsto> []]"
    using list_step.append [of "[1 \<mapsto> [], 2 \<mapsto> []]" 1 "[]" 3] by (simp add: NULL_def in_lists_def fun_upd_twist)
  have 4: "list_step (LAppend 1 4) [1 \<mapsto> [3], 2 \<mapsto> []] [1 \<mapsto> [3, 4], 2 \<mapsto> []]"
    using list_step.append [of "[1 \<mapsto> [3], 2 \<mapsto> []]" 1 "[3]" 4] by (simp add: NULL_def in_lists_def fun_upd_twist)
  have 5: "list_step (LAppend 1 5) [1 \<mapsto> [3, 4], 2 \<mapsto> []] [1 \<mapsto> [3, 4, 5], 2 \<mapsto> []]"
    using list_step.append [of "[1 \<mapsto> [3, 4], 2 \<mapsto> []]" 1 "[3, 4]" 5] by (simp add: NULL_def in_lists_def fun_upd_twist)
  have 6: "list_step (LAppend 2 6) [1 \<mapsto> [3, 4, 5], 2 \<mapsto> []] [1 \<mapsto> [3, 4, 5], 2 \<mapsto> [6]]"
    using list_step.append [of "[1 \<mapsto> [3, 4, 5], 2 \<mapsto> []]" 2 "[]" 6] by (simp add: NULL_def in_lists_def)
  have 7: "list_step (LRemove 4) [1 \<mapsto> [3, 4, 5], 2 \<mapsto> [6]] [1 \<mapsto> [3, 5], 2 \<mapsto> [6]]"
    using list_step.remove [of "[1 \<mapsto> [3, 4, 5], 2 \<mapsto> [6]]" 1 "[3]" 4 "[5]"] by (simp add: fun_upd_twist)
  have 8: "list_step (LPrepend 2 4) [1 \<mapsto> [3, 5], 2 \<mapsto> [6]] [1 \<mapsto> [3, 5], 2 \<mapsto> [4, 6]]"
    using list_step.prepend [of "[1 \<mapsto> [3, 5], 2 \<mapsto> [6]]" 2 "[6]" 4] by (simp add: NULL_def in_lists_def)
  have 9: "list_step (LSpliceNext 1 2) [1 \<mapsto> [3, 5], 2 \<mapsto> [4, 6]] [1 \<mapsto> [3, 5, 4, 6], 2 \<mapsto> []]"
    using list_step.splice_next [of "[1 \<mapsto> [3, 5], 2 \<mapsto> [4, 6]]" 1 "[3, 5]" 2 "[4, 6]"] by (simp add: fun_upd_twist)
  show ?thesis unfolding dlist_example_def
    by (rule step [OF 1 step [OF 2 step [OF 3 step [OF 4 step [OF 5 step [OF 6 step [OF 7 step [OF 8 step [OF 9 list_steps.none]]]]]]]]])
qed

theorem dlist_refines_lists_witness:
  "list_seen (fold list_exec dlist_example \<lparr>prev_ln = \<lambda>_. 0, next_ln = \<lambda>_. 0\<rparr>) 1 [3, 5, 4, 6]"
proof -
  have "lists_ok \<lparr>prev_ln = \<lambda>_. 0, next_ln = \<lambda>_. 0\<rparr> Map.empty" by (simp add: lists_ok_def)
  then show ?thesis using dlist_refines_lists [OF _ dlist_example_steps, of _ 1 "[3, 5, 4, 6]"] by simp
qed

text \<open>The safe iteration reaches every entry although the body unlinks the one it is at: the loop
  that empties a list, as the thread and job pools do on shutdown.\<close>

definition drain_body :: "u64 \<Rightarrow> addr \<Rightarrow> ct_list_store \<times> addr list \<Rightarrow> ct_list_store \<times> addr list" where
  "drain_body off pos st = (ct_list_remove (pos + off) (fst st), snd st @ [pos])"

lemma drain_loop:
  "lists_ok s W \<Longrightarrow> W h = Some xs \<Longrightarrow> off \<notin> set xs \<Longrightarrow>
   \<exists>s'. foreach_entry_safe_loop (drain_body off) off h (ct_list_entry off (next_ln s h))
       (ct_list_next_entry off (ct_list_entry off (next_ln s h)) s) (s, seen) =
     Some (s', seen @ map (ct_list_entry off) xs) \<and> lists_ok s' (W(h \<mapsto> []))"
proof (induction xs arbitrary: s W seen)
  case Nil
  have "next_ln s h = h" using ring_ends(1) [OF lists_okD(1) [OF Nil(1,2)]] by simp
  moreover have "W(h \<mapsto> []) = W" using Nil(2) by (simp add: fun_upd_idem)
  ultimately show ?case using Nil by (subst foreach_entry_safe_loop.simps) (simp add: ct_list_entry_def)
next
  case (Cons x xs)
  have ring: "list_ring s h (x # xs)" using lists_okD(1) [OF Cons.prems(1,2)] .
  have x: "next_ln s h = x" "x \<noteq> h" "x - off \<noteq> NULL"
    using ring_ends(1) [OF ring] ring Cons.prems(3) by (auto simp: cyc_def NULL_def)
  let ?s = "ct_list_remove x s"
  have "chain s (h # x # xs @ [h])" using ring by (simp add: cyc_def)
  then have nx: "next_ln s x = hd (xs @ [h])" by (cases xs) simp_all
  have "W h = Some ([] @ x # xs)" using Cons.prems(2) by simp
  then have ok': "lists_ok ?s (W(h \<mapsto> xs))" using dlist_remove_ok [OF Cons.prems(1)] by fastforce
  have "next_ln ?s h = hd (xs @ [h])" using ring_ends(1) [OF lists_okD(1) [OF ok']] by simp
  then have same: "next_ln s x = next_ln ?s h" using nx by simp
  have nn: "ct_list_next_entry off (x - off) s = ct_list_entry off (next_ln ?s h)"
    using x same by (simp add: ct_list_next_entry_def)
  obtain s' where s': "foreach_entry_safe_loop (drain_body off) off h (ct_list_entry off (next_ln ?s h))
       (ct_list_next_entry off (ct_list_entry off (next_ln ?s h)) ?s) (?s, seen @ [x - off]) =
     Some (s', (seen @ [x - off]) @ map (ct_list_entry off) xs)" "lists_ok s' ((W(h \<mapsto> xs))(h \<mapsto> []))"
    using Cons.IH [OF ok' fun_upd_same, of "seen @ [x - off]"] Cons.prems(3)
    by (auto simp: ct_list_entry_def simp del: fun_upd_apply)
  show ?case
    using s' x nn by (subst foreach_entry_safe_loop.simps) (simp add: drain_body_def ct_list_entry_def Let_def)
qed

text \<open>C26: The safe iteration over the entries of a list returns, hands each object to the body exactly
  once and in order although the body unlinks it, and leaves the list empty and the other lists as they
  were.\<close>

theorem foreach_safe_drains:
  assumes "lists_ok s W" and "W h = Some xs" and "off \<notin> set xs"
  shows "\<exists>s'. ct_list_foreach_entry_safe (drain_body off) off h (s, []) = Some (s', map (ct_list_entry off) xs) \<and>
     lists_ok s' (W(h \<mapsto> []))"
  using drain_loop [OF assms, of "[]"]
  by (simp add: ct_list_foreach_entry_safe_def ct_list_first_entry_def Let_def)

text \<open>The ring of the example, before anything is removed from it.\<close>

lemma ring_example:
  "lists_ok (fold list_exec [LInit 100, LAppend 100 208, LAppend 100 308] \<lparr>prev_ln = \<lambda>_. 0, next_ln = \<lambda>_. 0\<rparr>)
     [100 \<mapsto> [208, 308]]"
proof (rule list_steps_ok)
  have 1: "list_step (LInit 100) Map.empty [100 \<mapsto> []]"
    by (rule list_step.init) (simp_all add: NULL_def in_lists_def)
  have 2: "list_step (LAppend 100 208) [100 \<mapsto> []] [100 \<mapsto> [208]]"
    using list_step.append [of "[100 \<mapsto> []]" 100 "[]" 208] by (simp add: NULL_def in_lists_def)
  have 3: "list_step (LAppend 100 308) [100 \<mapsto> [208]] [100 \<mapsto> [208, 308]]"
    using list_step.append [of "[100 \<mapsto> [208]]" 100 "[208]" 308] by (simp add: NULL_def in_lists_def)
  show "list_steps [LInit 100, LAppend 100 208, LAppend 100 308] Map.empty [100 \<mapsto> [208, 308]]"
    by (rule list_steps.more [OF 1 list_steps.more [OF 2 list_steps.more [OF 3 list_steps.none]]])
  show "lists_ok \<lparr>prev_ln = \<lambda>_. 0, next_ln = \<lambda>_. 0\<rparr> Map.empty" by (simp add: lists_ok_def)
qed

theorem foreach_safe_drains_witness:
  "\<exists>s s'. ct_list_foreach_entry_safe (drain_body 8) 8 100 (s, []) = Some (s', [200, 300]) \<and>
     lists_ok s' [100 \<mapsto> []]"
  using foreach_safe_drains [OF ring_example, of 100 "[208, 308]" 8] by (auto simp: ct_list_entry_def)

text \<open>The two position tests of the header answer each other's question: the one called
  \<open>is_first\<close> holds of the last element.\<close>

lemma is_first_is_last:
  assumes "list_ring s h (us @ [z])"
  shows "ct_list_is_first h z s" and "ct_list_is_last h (hd (us @ [z])) s"
proof -
  show "ct_list_is_first h z s"
    using ring_node(1) [of s "h # us" z "[]"] assms by (simp add: ct_list_is_first_def)
  have "cyc s ([h] @ hd (us @ [z]) # tl (us @ [z]))" using assms by simp
  from ring_node(2) [OF this] show "ct_list_is_last h (hd (us @ [z])) s"
    by (simp add: ct_list_is_last_def)
qed

end
