(* ===== verification/Coter_Heap.thy ===== *)
theory Coter_Heap
  imports Coter_Prelude "HOL-Library.Tree_Multiset"
begin

text \<open>
  \<open>container/heap.h\<close>, \<open>heap.c\<close>: the intrusive pairing heap.  The nodes live in the objects of the
  caller; the model is the store of their three links.  The order of two nodes is the callback of the
  heap, a function of the two addresses.
\<close>

section \<open>The code\<close>

record ct_heap_store =
  child_hp :: "addr \<Rightarrow> addr"
  left_hp :: "addr \<Rightarrow> addr"
  right_hp :: "addr \<Rightarrow> addr"

definition set_child :: "addr \<Rightarrow> addr \<Rightarrow> ct_heap_store \<Rightarrow> ct_heap_store" where
  "set_child p v s = s\<lparr>child_hp := (child_hp s)(p := v)\<rparr>"

definition set_left :: "addr \<Rightarrow> addr \<Rightarrow> ct_heap_store \<Rightarrow> ct_heap_store" where
  "set_left p v s = s\<lparr>left_hp := (left_hp s)(p := v)\<rparr>"

definition set_right :: "addr \<Rightarrow> addr \<Rightarrow> ct_heap_store \<Rightarrow> ct_heap_store" where
  "set_right p v s = s\<lparr>right_hp := (right_hp s)(p := v)\<rparr>"

definition set_links :: "addr \<Rightarrow> addr \<Rightarrow> ct_heap_store \<Rightarrow> ct_heap_store" where
  "set_links p v s = set_child p v (set_left p v (set_right p v s))"

type_synonym heap_cmp = "addr \<Rightarrow> addr \<Rightarrow> int"

record ct_heap =
  h_root :: addr
  h_size :: u32
  h_cmp :: heap_cmp

definition heap_meld :: "addr \<Rightarrow> addr \<Rightarrow> heap_cmp \<Rightarrow> ct_heap_store \<Rightarrow> addr \<times> ct_heap_store" where
  "heap_meld a b cmp s =
     (if a = NULL then (b, s)
      else if b = NULL then (a, s)
      else if cmp a b < 0 then
        let s = set_right b (child_hp s a) s;
            s = (if child_hp s a \<noteq> NULL then set_left (child_hp s a) b s else s);
            s = set_child a b s
        in (a, set_left b a s)
      else
        let s = set_right a (child_hp s b) s;
            s = (if child_hp s b \<noteq> NULL then set_left (child_hp s b) a s else s);
            s = set_child b a s
        in (b, set_left a b s))"

text \<open>The two loops of \<open>heap_merge_pairs_iter\<close>.\<close>

partial_function (option) pair_loop ::
  "heap_cmp \<Rightarrow> addr \<Rightarrow> addr \<Rightarrow> ct_heap_store \<Rightarrow> (addr \<times> ct_heap_store) option" where
  "pair_loop cmp cur tree_list s =
     (if cur = NULL then Some (tree_list, s)
      else
        let a = cur; b = right_hp s cur in
        if b \<noteq> NULL then
          let nxt = right_hp s b;
              s = set_right b NULL (set_left b NULL (set_right a NULL (set_left a NULL s)));
              (paired, s) = heap_meld a b cmp s;
              s = set_right paired tree_list s
          in pair_loop cmp nxt paired s
        else
          let s = set_right a NULL (set_left a NULL s);
              s = set_right a tree_list s
          in pair_loop cmp NULL a s)"

partial_function (option) meld_loop ::
  "heap_cmp \<Rightarrow> addr \<Rightarrow> addr \<Rightarrow> ct_heap_store \<Rightarrow> (addr \<times> ct_heap_store) option" where
  "meld_loop cmp root tree_list s =
     (if tree_list = NULL then Some (root, s)
      else
        let nxt = right_hp s tree_list;
            s = set_right tree_list NULL s;
            (root, s) = heap_meld root tree_list cmp s
        in meld_loop cmp root nxt s)"

definition heap_merge_pairs_iter :: "addr \<Rightarrow> heap_cmp \<Rightarrow> ct_heap_store \<Rightarrow> (addr \<times> ct_heap_store) option" where
  "heap_merge_pairs_iter first cmp s =
     (if first = NULL then Some (NULL, s)
      else do { (tree_list, s) \<leftarrow> pair_loop cmp first NULL s; meld_loop cmp NULL tree_list s })"

definition ct_heap_init :: "heap_cmp \<Rightarrow> ct_heap" where
  "ct_heap_init cmp = \<lparr>h_root = NULL, h_size = 0, h_cmp = cmp\<rparr>"

definition ct_heap_clear :: "ct_heap \<Rightarrow> ct_heap" where
  "ct_heap_clear hp = hp\<lparr>h_root := NULL, h_size := 0\<rparr>"

definition ct_heap_size :: "ct_heap \<Rightarrow> u32" where
  "ct_heap_size hp = h_size hp"

definition ct_heap_is_empty :: "ct_heap \<Rightarrow> bool" where
  "ct_heap_is_empty hp \<longleftrightarrow> h_size hp = 0"

definition ct_heap_insert :: "ct_heap \<Rightarrow> addr \<Rightarrow> ct_heap_store \<Rightarrow> ct_heap \<times> ct_heap_store" where
  "ct_heap_insert hp node s =
     (if node = NULL then (hp, s)
      else let s = set_links node NULL s;
               (root, s) = heap_meld (h_root hp) node (h_cmp hp) s
           in (hp\<lparr>h_root := root, h_size := h_size hp + 1\<rparr>, s))"

definition ct_heap_pop :: "ct_heap \<Rightarrow> ct_heap_store \<Rightarrow> (addr \<times> ct_heap \<times> ct_heap_store) option" where
  "ct_heap_pop hp s =
     (if h_root hp = NULL then Some (NULL, hp, s)
      else do {
        let old_root = h_root hp;
        let children = child_hp s old_root;
        let s = (if children \<noteq> NULL then set_left children NULL s else s);
        (root, s) \<leftarrow> heap_merge_pairs_iter children (h_cmp hp) s;
        let hp = hp\<lparr>h_root := root, h_size := h_size hp - 1\<rparr>;
        Some (old_root, hp, set_links old_root NULL s) })"

definition ct_heap_top :: "ct_heap \<Rightarrow> addr" where
  "ct_heap_top hp = h_root hp"

definition ct_heap_remove :: "ct_heap \<Rightarrow> addr \<Rightarrow> ct_heap_store \<Rightarrow> (ct_heap \<times> ct_heap_store) option" where
  "ct_heap_remove hp node s =
     (if node = NULL \<or> h_size hp = 0 then Some (hp, s)
      else if node = h_root hp then do { (_, hp, s) \<leftarrow> ct_heap_pop hp s; Some (hp, s) }
      else do {
        let s = (if right_hp s node \<noteq> NULL then set_left (right_hp s node) (left_hp s node) s else s);
        let s = (if child_hp s (left_hp s node) = node then set_child (left_hp s node) (right_hp s node) s
                 else set_right (left_hp s node) (right_hp s node) s);
        let children = child_hp s node;
        let s = (if children \<noteq> NULL then set_left children NULL s else s);
        let s = set_links node NULL s;
        let hp = hp\<lparr>h_size := h_size hp - 1\<rparr>;
        (remeld, s) \<leftarrow> heap_merge_pairs_iter children (h_cmp hp) s;
        let (root, s) = heap_meld (h_root hp) remeld (h_cmp hp) s;
        Some (hp\<lparr>h_root := root\<rparr>, s) })"

definition ct_heap_update :: "ct_heap \<Rightarrow> addr \<Rightarrow> ct_heap_store \<Rightarrow> (ct_heap \<times> ct_heap_store) option" where
  "ct_heap_update hp node s =
     (if node = NULL then Some (hp, s)
      else do { (hp, s) \<leftarrow> ct_heap_remove hp node s; Some (ct_heap_insert hp node s) })"

text \<open>\<open>dst\<close> and \<open>src\<close> are different heaps.\<close>

definition ct_heap_move :: "ct_heap \<Rightarrow> ct_heap \<Rightarrow> ct_heap_store \<Rightarrow> ct_heap \<times> ct_heap \<times> ct_heap_store" where
  "ct_heap_move dst src s =
     (if h_size src = 0 then (dst, src, s)
      else let (dst, s) =
             (if h_size dst = 0 then (dst\<lparr>h_root := h_root src, h_size := h_size src\<rparr>, s)
              else let (root, s) = heap_meld (h_root dst) (h_root src) (h_cmp dst) s
                   in (dst\<lparr>h_root := root, h_size := h_size dst + h_size src\<rparr>, s))
           in (dst, src\<lparr>h_root := NULL, h_size := 0\<rparr>, s))"

lemmas heap_set_defs = set_child_def set_left_def set_right_def set_links_def

section \<open>Trees in the store\<close>

text \<open>A pairing heap is a binary tree: the left subtree of a node is its chain of children, the right
  subtree the chain of its right siblings.\<close>

fun rep :: "ct_heap_store \<Rightarrow> addr \<Rightarrow> addr \<Rightarrow> addr tree \<Rightarrow> bool" where
  "rep s l p Leaf \<longleftrightarrow> p = NULL"
| "rep s l p (Node cs a rs) \<longleftrightarrow> p = a \<and> a \<noteq> NULL \<and> left_hp s a = l \<and> rep s a (child_hp s a) cs \<and> rep s a (right_hp s a) rs"

definition same_at :: "ct_heap_store \<Rightarrow> ct_heap_store \<Rightarrow> addr \<Rightarrow> bool" where
  "same_at s s' x \<longleftrightarrow> child_hp s' x = child_hp s x \<and> left_hp s' x = left_hp s x \<and> right_hp s' x = right_hp s x"

lemma rep_frame: "\<forall>x \<in> set_tree t. same_at s s' x \<Longrightarrow> rep s' l p t \<longleftrightarrow> rep s l p t"
  by (induction t arbitrary: l p) (auto simp: same_at_def)

lemma rep_NULL: "rep s l NULL t \<longleftrightarrow> t = Leaf"
  by (cases t) auto

lemma rep_first: "rep s l p t \<Longrightarrow> p = NULL \<or> p \<in> set_tree t"
  by (cases t) auto

lemma rep_nonnull: "rep s l p t \<Longrightarrow> NULL \<notin> set_tree t"
  by (induction t arbitrary: l p) auto

text \<open>Giving a chain a new left neighbour.\<close>

definition relink :: "addr \<Rightarrow> addr \<Rightarrow> ct_heap_store \<Rightarrow> ct_heap_store" where
  "relink p l s = (if p \<noteq> NULL then set_left p l s else s)"

lemma rep_relink:
  assumes "rep s l p t" and "distinct (inorder t)"
  shows "rep (relink p l' s) l' p t"
proof (cases t)
  case (Node cs a rs)
  have "rep (relink p l' s) a q u = rep s a q u" if "a \<notin> set_tree u" for q u
    using that assms Node by (intro rep_frame) (auto simp: relink_def heap_set_defs same_at_def)
  moreover have "a \<notin> set_tree cs" "a \<notin> set_tree rs" using assms(2) Node by auto
  ultimately show ?thesis using assms(1) Node by (simp add: relink_def heap_set_defs)
qed (use assms in simp)

lemma relink_same: "x \<noteq> p \<Longrightarrow> same_at s (relink p l s) x"
  by (simp add: relink_def heap_set_defs same_at_def)

text \<open>What linking two trees does, on binary trees.\<close>

fun link_tree :: "heap_cmp \<Rightarrow> addr tree \<Rightarrow> addr tree \<Rightarrow> addr tree" where
  "link_tree cmp Leaf t = t"
| "link_tree cmp t Leaf = t"
| "link_tree cmp (Node lx x rx) (Node ly y ry) =
     (if cmp x y < 0 then Node (Node ly y lx) x Leaf else Node (Node lx x ly) y Leaf)"

text \<open>A detached tree: the root has no left neighbour and no right sibling.\<close>

definition detached :: "ct_heap_store \<Rightarrow> addr \<Rightarrow> addr tree \<Rightarrow> bool" where
  "detached s p t \<longleftrightarrow> rep s NULL p t \<and> distinct (inorder t) \<and> (t = Leaf \<or> right t = Leaf)"

lemma detached_Leaf [simp]: "detached s p Leaf \<longleftrightarrow> p = NULL"
  by (simp add: detached_def)

lemma detached_NULL [simp]: "detached s NULL t \<longleftrightarrow> t = Leaf"
  by (auto simp: detached_def rep_NULL)

lemma detached_frame:
  "detached s p t \<Longrightarrow> \<forall>x \<in> set_tree t. same_at s s' x \<Longrightarrow> detached s' p t"
  by (simp add: detached_def rep_frame)

lemma set_link_tree [simp]:
  "t = Leaf \<or> right t = Leaf \<Longrightarrow> u = Leaf \<or> right u = Leaf \<Longrightarrow> set_tree (link_tree cmp t u) = set_tree t \<union> set_tree u"
  by (cases "(cmp, t, u)" rule: link_tree.cases) auto

text \<open>The loser becomes the first child of the winner.\<close>

lemma rep_adopt:
  assumes a: "rep s NULL a (Node la a Leaf)" and b: "rep s NULL b (Node lb b Leaf)"
    and d: "distinct (inorder (Node la a Leaf) @ inorder (Node lb b Leaf))"
    and s': "s' = set_left b a (set_child a b (relink (child_hp s a) b (set_right b (child_hp s a) s)))"
  shows "rep s' NULL a (Node (Node lb b la) a Leaf)"
proof -
  let ?c = "child_hp s a"
  have ab: "a \<noteq> b" "a \<notin> set_tree la" "a \<notin> set_tree lb" "b \<notin> set_tree la" "b \<notin> set_tree lb" "set_tree la \<inter> set_tree lb = {}"
    using d by auto
  have c: "?c = NULL \<or> ?c \<in> set_tree la" using a by (cases la) auto
  have nn: "a \<noteq> NULL" "b \<noteq> NULL" using a b by simp_all
  have "NULL \<notin> set_tree lb" using rep_nonnull [OF b] by simp
  then have cl: "?c \<notin> set_tree lb" "?c \<noteq> a" "?c \<noteq> b" using c ab nn by auto
  have "\<forall>x \<in> set_tree lb. same_at s s' x"
    using ab cl unfolding s' by (auto simp: same_at_def relink_def heap_set_defs)
  then have lb: "rep s' b (child_hp s b) lb" using b rep_frame [of lb s s' b "child_hp s b"] by simp
  have la: "rep (relink ?c b s) b ?c la" using a d by (intro rep_relink [where l = a]) simp_all
  have "\<forall>x \<in> set_tree la. same_at (relink ?c b s) s' x"
    using ab unfolding s' by (auto simp: same_at_def relink_def heap_set_defs)
  then have "rep s' b ?c la" using la rep_frame by blast
  moreover have "child_hp s' a = b" "left_hp s' a = NULL" "right_hp s' a = NULL" "left_hp s' b = a"
    "right_hp s' b = ?c" "child_hp s' b = child_hp s b"
    using ab cl a b unfolding s' by (auto simp: relink_def heap_set_defs)
  ultimately show ?thesis using lb nn by simp
qed

lemma meld_ok:
  assumes a: "detached s a ta" and b: "detached s b tb" and disj: "set_tree ta \<inter> set_tree tb = {}"
  shows "\<exists>r s'. heap_meld a b cmp s = (r, s') \<and> detached s' r (link_tree cmp ta tb) \<and>
    (\<forall>x. x \<notin> set_tree ta \<and> x \<notin> set_tree tb \<longrightarrow> same_at s s' x)"
proof (cases "a = NULL \<or> b = NULL")
  case True
  then show ?thesis
  proof
    assume "a = NULL"
    then show ?thesis using a b by (simp add: heap_meld_def same_at_def)
  next
    assume "b = NULL"
    then have "tb = Leaf" using b by simp
    moreover have "link_tree cmp ta Leaf = ta" by (cases ta) simp_all
    moreover have "heap_meld a b cmp s = (a, s)" using \<open>b = NULL\<close> by (simp add: heap_meld_def)
    ultimately show ?thesis using a by (simp add: same_at_def)
  qed
next
  case False
  then obtain la lb where t: "ta = Node la a Leaf" "tb = Node lb b Leaf"
    using a b by (cases ta; cases tb) (auto simp: detached_def)
  have reps: "rep s NULL a (Node la a Leaf)" "rep s NULL b (Node lb b Leaf)"
    "distinct (inorder (Node la a Leaf) @ inorder (Node lb b Leaf))"
    "distinct (inorder (Node lb b Leaf) @ inorder (Node la a Leaf))"
    using a b disj unfolding t by (auto simp: detached_def)
  let ?s1 = "set_left b a (set_child a b (relink (child_hp s a) b (set_right b (child_hp s a) s)))"
  let ?s2 = "set_left a b (set_child b a (relink (child_hp s b) a (set_right a (child_hp s b) s)))"
  have m: "heap_meld a b cmp s = (if cmp a b < 0 then (a, ?s1) else (b, ?s2))"
    using False by (simp add: heap_meld_def relink_def heap_set_defs Let_def)
  have c: "child_hp s a = NULL \<or> child_hp s a \<in> set_tree la" "child_hp s b = NULL \<or> child_hp s b \<in> set_tree lb"
    using rep_first [of s a "child_hp s a" la] rep_first [of s b "child_hp s b" lb] reps(1,2) by simp_all
  have f: "same_at s ?s1 x" "same_at s ?s2 x" if "x \<notin> set_tree ta" "x \<notin> set_tree tb" for x
    using that c False unfolding t by (auto simp: same_at_def relink_def heap_set_defs)
  show ?thesis
  proof (cases "cmp a b < 0")
    case True
    have "detached ?s1 a (Node (Node lb b la) a Leaf)"
      using rep_adopt [OF reps(1,2,3) refl] reps(3) unfolding detached_def by auto
    then show ?thesis using True f(1) by (auto simp: m t)
  next
    case F: False
    have "detached ?s2 b (Node (Node la a lb) b Leaf)"
      using rep_adopt [OF reps(2,1,4) refl] reps(3) unfolding detached_def by auto
    then show ?thesis using F f(2) by (auto simp: m t)
  qed
qed

section \<open>Merging the children\<close>

text \<open>The two passes on trees.\<close>

fun pair_trees :: "heap_cmp \<Rightarrow> addr tree \<Rightarrow> addr tree list \<Rightarrow> addr tree list" where
  "pair_trees cmp Leaf ts = ts"
| "pair_trees cmp (Node c a Leaf) ts = Node c a Leaf # ts"
| "pair_trees cmp (Node c a (Node d b r)) ts =
     pair_trees cmp r (link_tree cmp (Node c a Leaf) (Node d b Leaf) # ts)"

fun meld_trees :: "heap_cmp \<Rightarrow> addr tree \<Rightarrow> addr tree list \<Rightarrow> addr tree" where
  "meld_trees cmp t [] = t"
| "meld_trees cmp t (u # us) = meld_trees cmp (link_tree cmp t u) us"

definition merge_trees :: "heap_cmp \<Rightarrow> addr tree \<Rightarrow> addr tree" where
  "merge_trees cmp t = meld_trees cmp Leaf (pair_trees cmp t [])"

definition nodes :: "addr tree list \<Rightarrow> addr list" where
  "nodes ts = concat (map inorder ts)"

lemma nodes_simps [simp]: "nodes [] = []" "nodes (t # ts) = inorder t @ nodes ts"
  by (simp_all add: nodes_def)

text \<open>The temporary chain of detached trees through the right links.\<close>

fun trees_at :: "ct_heap_store \<Rightarrow> addr \<Rightarrow> addr tree list \<Rightarrow> bool" where
  "trees_at s p [] \<longleftrightarrow> p = NULL"
| "trees_at s p (Leaf # ts) \<longleftrightarrow> False"
| "trees_at s p (Node c a r # ts) \<longleftrightarrow> r = Leaf \<and> p = a \<and> a \<noteq> NULL \<and> left_hp s a = NULL \<and>
     rep s a (child_hp s a) c \<and> trees_at s (right_hp s a) ts"

lemma trees_frame: "\<forall>x \<in> set (nodes ts). same_at s s' x \<Longrightarrow> trees_at s' p ts \<longleftrightarrow> trees_at s p ts"
proof (induction s p ts rule: trees_at.induct)
  case (3 s p c a r ts)
  then have "rep s' a (child_hp s a) c \<longleftrightarrow> rep s a (child_hp s a) c" by (intro rep_frame) simp
  then show ?case using 3 by (auto simp: same_at_def)
qed simp_all

text \<open>Pushing a detached tree onto the chain.\<close>

lemma trees_push:
  assumes t: "detached s p t" "t \<noteq> Leaf" and ts: "trees_at s q ts" and d: "distinct (inorder t @ nodes ts)"
  shows "trees_at (set_right p q s) p (t # ts)"
proof -
  obtain c where c: "t = Node c p Leaf" using t by (cases t) (auto simp: detached_def)
  let ?s = "set_right p q s"
  have "\<forall>x. x \<noteq> p \<longrightarrow> same_at s ?s x" by (simp add: same_at_def heap_set_defs)
  moreover have "p \<notin> set_tree c" "p \<notin> set (nodes ts)" using d c by auto
  ultimately have "rep ?s p (child_hp s p) c \<longleftrightarrow> rep s p (child_hp s p) c" "trees_at ?s q ts"
    using rep_frame [of c s ?s] trees_frame [of ts s ?s q] ts by metis+
  then show ?thesis using t c by (simp add: detached_def heap_set_defs)
qed

lemma link_not_Leaf: "t \<noteq> Leaf \<or> u \<noteq> Leaf \<Longrightarrow> link_tree cmp t u \<noteq> Leaf"
  by (cases "(cmp, t, u)" rule: link_tree.cases) auto

lemma mset_link [simp]:
  "t = Leaf \<or> right t = Leaf \<Longrightarrow> u = Leaf \<or> right u = Leaf \<Longrightarrow>
   mset_tree (link_tree cmp t u) = mset_tree t + mset_tree u"
  by (cases "(cmp, t, u)" rule: link_tree.cases) auto

lemma pair_loop_ok:
  "rep s l cur t \<Longrightarrow> trees_at s p ts \<Longrightarrow> distinct (inorder t @ nodes ts) \<Longrightarrow>
   \<exists>q s'. pair_loop cmp cur p s = Some (q, s') \<and> trees_at s' q (pair_trees cmp t ts) \<and>
     (\<forall>x. x \<notin> set_tree t \<and> x \<notin> set (nodes ts) \<longrightarrow> same_at s s' x)"
proof (induction cmp t ts arbitrary: s l cur p rule: pair_trees.induct)
  case (1 cmp ts)
  then show ?case by (subst pair_loop.simps) (simp add: same_at_def)
next
  case (2 cmp c a ts)
  let ?s = "set_right a NULL (set_left a NULL s)"
  have a: "cur = a" "a \<noteq> NULL" "right_hp s a = NULL" using 2 by simp_all
  have "\<forall>x. x \<noteq> a \<longrightarrow> same_at s ?s x" by (simp add: same_at_def heap_set_defs)
  moreover have "a \<notin> set_tree c" "a \<notin> set (nodes ts)" using 2 by auto
  ultimately have "rep ?s a (child_hp s a) c \<longleftrightarrow> rep s a (child_hp s a) c" "trees_at ?s p ts"
    using rep_frame [of c s ?s] trees_frame [of ts s ?s p] 2 by metis+
  then have "detached ?s a (Node c a Leaf)" "trees_at ?s p ts"
    using 2 by (auto simp: detached_def heap_set_defs)
  then have "trees_at (set_right a p ?s) a (Node c a Leaf # ts)" using 2 by (intro trees_push) auto
  moreover have "pair_loop cmp cur p s = Some (a, set_right a p ?s)"
    using a by (subst pair_loop.simps, simp add: Let_def, subst pair_loop.simps) simp
  ultimately show ?case by (simp add: same_at_def heap_set_defs)
next
  case (3 cmp c a d b r ts)
  have a: "cur = a" "a \<noteq> NULL" "right_hp s a = b" "b \<noteq> NULL" and
    reps: "rep s a (child_hp s a) c" "rep s b (child_hp s b) d" "rep s b (right_hp s b) r"
    using 3 by simp_all
  have d: "distinct (inorder c @ a # inorder d @ b # inorder r @ nodes ts)" using 3 by simp
  define s1 where "s1 = set_right b NULL (set_left b NULL (set_right a NULL (set_left a NULL s)))"
  have f1: "x \<noteq> a \<Longrightarrow> x \<noteq> b \<Longrightarrow> same_at s s1 x" for x by (simp add: s1_def same_at_def heap_set_defs)
  have "rep s1 a (child_hp s a) c" "rep s1 b (child_hp s b) d" "rep s1 b (right_hp s b) r" "trees_at s1 p ts"
  proof -
    have "\<forall>x \<in> set_tree c. same_at s s1 x" "\<forall>x \<in> set_tree d. same_at s s1 x" "\<forall>x \<in> set_tree r. same_at s s1 x"
      "\<forall>x \<in> set (nodes ts). same_at s s1 x" using d by (auto intro!: f1)
    then show "rep s1 a (child_hp s a) c" "rep s1 b (child_hp s b) d" "rep s1 b (right_hp s b) r" "trees_at s1 p ts"
      using reps 3(3) by (simp_all add: rep_frame trees_frame)
  qed
  then have det: "detached s1 a (Node c a Leaf)" "detached s1 b (Node d b Leaf)"
    and rest: "rep s1 b (right_hp s b) r" "trees_at s1 p ts"
    using a d by (auto simp: detached_def s1_def heap_set_defs)
  let ?l = "link_tree cmp (Node c a Leaf) (Node d b Leaf)"
  have "set_tree (Node c a Leaf) \<inter> set_tree (Node d b Leaf) = {}" using d by auto
  from meld_ok [OF det this, of cmp] obtain q s2 where m: "heap_meld a b cmp s1 = (q, s2)" "detached s2 q ?l"
    and f2: "\<And>x. x \<notin> set_tree (Node c a Leaf) \<Longrightarrow> x \<notin> set_tree (Node d b Leaf) \<Longrightarrow> same_at s1 s2 x" by blast
  define s3 where "s3 = set_right q p s2"
  have "?l \<noteq> Leaf" by simp
  then have ql: "q \<in> set_tree ?l" "?l \<noteq> Leaf" using m(2) rep_first [of s2 NULL q ?l] by (auto simp: detached_def rep_NULL)
  have sl: "set_tree ?l = set_tree c \<union> {a} \<union> set_tree d \<union> {b}" by auto
  have f3: "same_at s s3 x" if "x \<notin> set_tree ?l" for x
  proof -
    have "x \<noteq> q" "x \<noteq> a" "x \<noteq> b" "same_at s1 s2 x"
      using that ql(1) f2 [of x] sl by auto
    then show ?thesis using f1 [of x] by (simp add: s3_def same_at_def heap_set_defs)
  qed
  have ml: "mset (inorder ?l) = mset (inorder c @ a # inorder d @ [b])" by simp
  have "distinct (inorder c @ a # inorder d @ [b])" using d by auto
  then have "distinct (inorder ?l)" using mset_eq_imp_distinct_iff [OF ml] by simp
  moreover have "set_tree ?l \<inter> set (nodes ts) = {}" "set_tree ?l \<inter> set_tree r = {}" "set_tree r \<inter> set (nodes ts) = {}"
    unfolding sl using d by auto
  ultimately have dl: "distinct (inorder ?l @ nodes ts)" "set_tree ?l \<inter> set_tree r = {}" "set_tree r \<inter> set (nodes ts) = {}" "distinct (inorder r)"
    using d by simp_all
  have "\<forall>x \<in> set (nodes ts). same_at s1 s2 x" using d by (auto intro!: f2)
  then have "trees_at s2 p ts" using rest(2) trees_frame by blast
  then have "trees_at s3 q (?l # ts)" unfolding s3_def using m(2) ql dl by (intro trees_push) auto
  moreover have "rep s3 b (right_hp s b) r"
  proof -
    have "\<forall>x \<in> set_tree r. same_at s s3 x" using dl(2) by (auto intro!: f3)
    then show ?thesis using reps(3) rep_frame by blast
  qed
  moreover have "distinct (inorder r @ nodes (?l # ts))" using dl by auto
  ultimately obtain q' s' where q': "pair_loop cmp (right_hp s b) q s3 = Some (q', s')" "trees_at s' q' (pair_trees cmp r (?l # ts))"
    "\<forall>x. x \<notin> set_tree r \<and> x \<notin> set (nodes (?l # ts)) \<longrightarrow> same_at s3 s' x"
    using 3(1) by blast
  have "pair_loop cmp cur p s = pair_loop cmp (right_hp s b) q s3"
    using a m by (subst pair_loop.simps) (simp add: s1_def [symmetric] s3_def Let_def)
  moreover have "\<forall>x. x \<notin> set_tree (Node c a (Node d b r)) \<and> x \<notin> set (nodes ts) \<longrightarrow> same_at s s' x"
    using q'(3) f3 sl by (auto simp: same_at_def)
  ultimately show ?case using q' by auto
qed

lemma meld_loop_ok:
  "detached s root t \<Longrightarrow> trees_at s p ts \<Longrightarrow> distinct (inorder t @ nodes ts) \<Longrightarrow>
   \<exists>r s'. meld_loop cmp root p s = Some (r, s') \<and> detached s' r (meld_trees cmp t ts) \<and>
     (\<forall>x. x \<notin> set_tree t \<and> x \<notin> set (nodes ts) \<longrightarrow> same_at s s' x)"
proof (induction cmp t ts arbitrary: s root p rule: meld_trees.induct)
  case (1 cmp t)
  then show ?case by (subst meld_loop.simps) (simp add: same_at_def)
next
  case (2 cmp t u us)
  obtain c where u: "u = Node c p Leaf" "p \<noteq> NULL" "left_hp s p = NULL" "rep s p (child_hp s p) c"
    "trees_at s (right_hp s p) us"
    using 2(3) by (cases u) auto
  have d: "distinct (inorder t @ inorder c @ p # nodes us)" using 2(4) u by simp
  let ?s = "set_right p NULL s"
  have f: "x \<noteq> p \<Longrightarrow> same_at s ?s x" for x by (simp add: same_at_def heap_set_defs)
  have "\<forall>x \<in> set_tree c. same_at s ?s x" "\<forall>x \<in> set (nodes us). same_at s ?s x" "\<forall>x \<in> set_tree t. same_at s ?s x"
    using d by (auto intro!: f)
  then have "rep ?s p (child_hp s p) c" "trees_at ?s (right_hp s p) us" and t: "detached ?s root t"
    using u(4,5) 2(2) by (simp_all add: rep_frame trees_frame detached_frame)
  note us = this(2)
  have det: "detached ?s p u"
    using u(1,2,3) d \<open>rep ?s p (child_hp s p) c\<close> by (simp add: detached_def heap_set_defs)
  have disj: "set_tree t \<inter> set_tree u = {}" "set_tree (link_tree cmp t u) \<inter> set (nodes us) = {}" if "set_tree (link_tree cmp t u) = set_tree t \<union> set_tree u"
    unfolding that using d unfolding u(1) by auto
  have st: "t = Leaf \<or> right t = Leaf" "u = Leaf \<or> right u = Leaf" using t det by (simp_all add: detached_def)
  note sl = set_link_tree [OF st, of cmp]
  from meld_ok [OF t det disj(1) [OF sl], of cmp]
  obtain q s2 where m: "heap_meld root p cmp ?s = (q, s2)" "detached s2 q (link_tree cmp t u)"
    and f2: "\<And>x. x \<notin> set_tree t \<Longrightarrow> x \<notin> set_tree u \<Longrightarrow> same_at ?s s2 x" by blast
  have "distinct (inorder (link_tree cmp t u))" using m(2) by (simp add: detached_def)
  then have dl: "distinct (inorder (link_tree cmp t u) @ nodes us)" using disj(2) [OF sl] d by simp
  have "\<forall>x \<in> set (nodes us). same_at ?s s2 x" using d u(1) by (auto intro!: f2)
  then have "trees_at s2 (right_hp s p) us" using us trees_frame by blast
  from 2(1) [OF m(2) this dl]
  obtain r s' where r: "meld_loop cmp q (right_hp s p) s2 = Some (r, s')" "detached s' r (meld_trees cmp (link_tree cmp t u) us)"
    "\<forall>x. x \<notin> set_tree (link_tree cmp t u) \<and> x \<notin> set (nodes us) \<longrightarrow> same_at s2 s' x" by blast
  have "meld_loop cmp root p s = meld_loop cmp q (right_hp s p) s2"
    using u(2) m(1) by (subst meld_loop.simps) (simp add: Let_def)
  moreover have "\<forall>x. x \<notin> set_tree t \<and> x \<notin> set (nodes (u # us)) \<longrightarrow> same_at s s' x"
  proof (intro allI impI)
    fix x assume x: "x \<notin> set_tree t \<and> x \<notin> set (nodes (u # us))"
    then have "x \<noteq> p" "same_at ?s s2 x" "same_at s2 s' x" using r(3) f2 [of x] u(1) sl by auto
    then show "same_at s s' x" using f [of x] by (simp add: same_at_def)
  qed
  ultimately show ?case using r by auto
qed

lemma mset_pair_trees: "mset (nodes (pair_trees cmp t ts)) = mset_tree t + mset (nodes ts)"
  by (induction cmp t ts rule: pair_trees.induct) simp_all

lemma pair_trees_right: "\<forall>u \<in> set ts. right u = Leaf \<Longrightarrow> \<forall>u \<in> set (pair_trees cmp t ts). right u = Leaf"
  by (induction cmp t ts rule: pair_trees.induct) simp_all

lemma link_right [simp]:
  "t = Leaf \<or> right t = Leaf \<Longrightarrow> u = Leaf \<or> right u = Leaf \<Longrightarrow> right (link_tree cmp t u) = Leaf"
  by (cases "(cmp, t, u)" rule: link_tree.cases) auto

lemma mset_meld_trees:
  "t = Leaf \<or> right t = Leaf \<Longrightarrow> \<forall>u \<in> set us. right u = Leaf \<Longrightarrow>
   mset_tree (meld_trees cmp t us) = mset_tree t + mset (nodes us)"
  by (induction cmp t us rule: meld_trees.induct) simp_all

lemma mset_merge_trees: "mset_tree (merge_trees cmp t) = mset_tree t"
  unfolding merge_trees_def using pair_trees_right [of "[]" cmp t]
  by (subst mset_meld_trees) (simp_all add: mset_pair_trees)

lemma merge_pairs_ok:
  assumes "rep s l p t" and "distinct (inorder t)"
  shows "\<exists>r s'. heap_merge_pairs_iter p cmp s = Some (r, s') \<and> detached s' r (merge_trees cmp t) \<and>
    (\<forall>x. x \<notin> set_tree t \<longrightarrow> same_at s s' x)"
proof (cases "p = NULL")
  case True
  then show ?thesis using assms
    by (simp add: heap_merge_pairs_iter_def rep_NULL merge_trees_def same_at_def)
next
  case False
  obtain q s1 where q: "pair_loop cmp p NULL s = Some (q, s1)" "trees_at s1 q (pair_trees cmp t [])"
    "\<forall>x. x \<notin> set_tree t \<longrightarrow> same_at s s1 x"
    using pair_loop_ok [OF assms(1), of NULL "[]" cmp] assms(2) by auto
  have m: "mset (nodes (pair_trees cmp t [])) = mset (inorder t)" by (simp add: mset_pair_trees mset_inorder)
  then have "distinct (nodes (pair_trees cmp t []))" "set (nodes (pair_trees cmp t [])) = set_tree t"
    using assms(2) mset_eq_imp_distinct_iff mset_eq_setD by fastforce+
  then obtain r s' where "meld_loop cmp NULL q s1 = Some (r, s')" "detached s' r (merge_trees cmp t)"
    "\<forall>x. x \<notin> set_tree t \<longrightarrow> same_at s1 s' x"
    using meld_loop_ok [of s1 NULL Leaf q "pair_trees cmp t []" cmp] q(2) by (auto simp: merge_trees_def)
  then show ?thesis using q False by (auto simp: heap_merge_pairs_iter_def same_at_def)
qed

section \<open>Heap order\<close>

fun heap_ordered :: "(addr \<Rightarrow> int) \<Rightarrow> addr tree \<Rightarrow> bool" where
  "heap_ordered k Leaf \<longleftrightarrow> True"
| "heap_ordered k (Node c a r) \<longleftrightarrow> (\<forall>x \<in> set_tree c. k a \<le> k x) \<and> heap_ordered k c \<and> heap_ordered k r"

definition cmp_law :: "(addr \<Rightarrow> int) \<Rightarrow> heap_cmp \<Rightarrow> bool" where
  "cmp_law k cmp \<longleftrightarrow> (\<forall>a b. cmp a b < 0 \<longleftrightarrow> k a < k b)"

lemma heap_ordered_cong: "\<forall>x \<in> set_tree t. k' x = k x \<Longrightarrow> heap_ordered k' t \<longleftrightarrow> heap_ordered k t"
  by (induction t) auto

lemma ordered_link:
  assumes "cmp_law k cmp" and "t = Leaf \<or> right t = Leaf" "u = Leaf \<or> right u = Leaf"
    and "heap_ordered k t" "heap_ordered k u"
  shows "heap_ordered k (link_tree cmp t u)"
  using assms
proof (cases "(cmp, t, u)" rule: link_tree.cases)
  case (3 cmp' lx x rx ly y ry)
  then show ?thesis using assms by (fastforce simp: cmp_law_def)
qed auto

lemma ordered_pair_trees:
  "cmp_law k cmp \<Longrightarrow> heap_ordered k t \<Longrightarrow> \<forall>u \<in> set ts. heap_ordered k u \<Longrightarrow>
   \<forall>u \<in> set (pair_trees cmp t ts). heap_ordered k u"
proof (induction cmp t ts rule: pair_trees.induct)
  case (3 cmp c a d b r ts)
  have "heap_ordered k (link_tree cmp (Node c a Leaf) (Node d b Leaf))"
    using 3(3) by (intro ordered_link [OF 3(2)]) simp_all
  then show ?case using 3 by simp
qed simp_all

lemma ordered_meld_trees:
  "cmp_law k cmp \<Longrightarrow> t = Leaf \<or> right t = Leaf \<Longrightarrow> \<forall>u \<in> set us. right u = Leaf \<Longrightarrow>
   heap_ordered k t \<Longrightarrow> \<forall>u \<in> set us. heap_ordered k u \<Longrightarrow> heap_ordered k (meld_trees cmp t us)"
proof (induction cmp t us rule: meld_trees.induct)
  case (2 cmp t u us)
  have "heap_ordered k (link_tree cmp t u)" using 2 by (intro ordered_link) simp_all
  moreover have "right (link_tree cmp t u) = Leaf" using 2 by (intro link_right) simp_all
  ultimately show ?case using 2 by simp
qed simp

lemma ordered_merge_trees: "cmp_law k cmp \<Longrightarrow> heap_ordered k t \<Longrightarrow> heap_ordered k (merge_trees cmp t)"
  unfolding merge_trees_def using pair_trees_right [of "[]" cmp t] ordered_pair_trees [of k cmp t "[]"]
  by (intro ordered_meld_trees) simp_all

lemma set_merge_trees [simp]: "set_tree (merge_trees cmp t) = set_tree t"
  using mset_merge_trees [of cmp t] by (metis set_mset_tree)

lemma size_merge_trees [simp]: "size (merge_trees cmp t) = size t"
  using mset_merge_trees [of cmp t] by (metis size_mset_tree)

lemma size_link_tree [simp]:
  "t = Leaf \<or> right t = Leaf \<Longrightarrow> u = Leaf \<or> right u = Leaf \<Longrightarrow> size (link_tree cmp t u) = size t + size u"
  using mset_link [of t u cmp] by (metis size_mset_tree size_union)

section \<open>The operations on a heap\<close>

definition heap_ok :: "(addr \<Rightarrow> int) \<Rightarrow> ct_heap_store \<Rightarrow> ct_heap \<Rightarrow> addr tree \<Rightarrow> bool" where
  "heap_ok k s hp t \<longleftrightarrow> detached s (h_root hp) t \<and> heap_ordered k t \<and> cmp_law k (h_cmp hp) \<and>
     h_size hp = of_nat (size t) \<and> size t < 2 ^ 32"

lemma heap_okD:
  assumes "heap_ok k s hp t"
  shows "rep s NULL (h_root hp) t" "distinct (inorder t)" "t = Leaf \<or> right t = Leaf" "NULL \<notin> set_tree t"
    "heap_ordered k t" "cmp_law k (h_cmp hp)" "h_size hp = of_nat (size t)" "size t < 2 ^ 32"
    "h_root hp = NULL \<longleftrightarrow> t = Leaf"
proof -
  show r: "rep s NULL (h_root hp) t" and "distinct (inorder t)" "t = Leaf \<or> right t = Leaf"
    "heap_ordered k t" "cmp_law k (h_cmp hp)" "h_size hp = of_nat (size t)" "size t < 2 ^ 32"
    using assms by (simp_all add: heap_ok_def detached_def)
  show "NULL \<notin> set_tree t" using rep_nonnull [OF r] .
  show "h_root hp = NULL \<longleftrightarrow> t = Leaf" using r by (cases t) auto
qed

lemma of_nat_size_0: "n < 2 ^ 32 \<Longrightarrow> (of_nat n :: u32) = 0 \<longleftrightarrow> n = 0"
  by (auto simp: word_of_nat_eq_0_iff dest: dvd_imp_le)

lemma meld_heap_ok:
  assumes a: "detached s a ta" "heap_ordered k ta" and b: "detached s b tb" "heap_ordered k tb"
    and disj: "set_tree ta \<inter> set_tree tb = {}" and cmp: "cmp_law k cmp"
  shows "\<exists>r s' t. heap_meld a b cmp s = (r, s') \<and> detached s' r t \<and> heap_ordered k t \<and>
    set_tree t = set_tree ta \<union> set_tree tb \<and> size t = size ta + size tb \<and>
    (\<forall>x. x \<notin> set_tree t \<longrightarrow> same_at s s' x)"
proof -
  have r: "ta = Leaf \<or> right ta = Leaf" "tb = Leaf \<or> right tb = Leaf" using a b by (simp_all add: detached_def)
  show ?thesis
    using meld_ok [OF a(1) b(1) disj, of cmp] ordered_link [OF cmp r a(2) b(2)]
    by (elim exE conjE, intro exI conjI) (assumption | simp add: r)+
qed

lemma merge_heap_ok:
  assumes "rep s l p t" "distinct (inorder t)" "heap_ordered k t" "cmp_law k cmp"
  shows "\<exists>r s' u. heap_merge_pairs_iter p cmp s = Some (r, s') \<and> detached s' r u \<and> heap_ordered k u \<and>
    set_tree u = set_tree t \<and> size u = size t \<and> (\<forall>x. x \<notin> set_tree t \<longrightarrow> same_at s s' x)"
  using merge_pairs_ok [OF assms(1,2), of cmp] ordered_merge_trees [OF assms(4,3)]
  by (metis set_merge_trees size_merge_trees)

lemma heap_init_ok: "cmp_law k cmp \<Longrightarrow> heap_ok k s (ct_heap_init cmp) Leaf"
  by (simp add: heap_ok_def ct_heap_init_def)

lemma heap_clear_ok: "heap_ok k s hp t \<Longrightarrow> heap_ok k s (ct_heap_clear hp) Leaf"
  by (simp add: heap_ok_def ct_heap_clear_def)

lemma heap_insert_ok:
  assumes ok: "heap_ok k s hp t" and n: "n \<noteq> NULL" "n \<notin> set_tree t" and room: "size t + 1 < 2 ^ 32"
  shows "\<exists>hp' s' t'. ct_heap_insert hp n s = (hp', s') \<and> heap_ok k s' hp' t' \<and>
    set_tree t' = insert n (set_tree t) \<and> (\<forall>x. x \<notin> set_tree t' \<longrightarrow> same_at s s' x) \<and> h_cmp hp' = h_cmp hp"
proof -
  let ?s = "set_links n NULL s"
  have f: "x \<noteq> n \<Longrightarrow> same_at s ?s x" for x by (simp add: same_at_def heap_set_defs)
  have "\<forall>x \<in> set_tree t. same_at s ?s x" using n by (auto intro!: f)
  then have a: "detached ?s (h_root hp) t" using ok by (auto simp: heap_ok_def intro: detached_frame)
  have b: "detached ?s n (Node Leaf n Leaf)" using n by (simp add: detached_def heap_set_defs)
  have "set_tree t \<inter> set_tree (Node Leaf n Leaf) = {}" using n by simp
  from meld_heap_ok [OF a heap_okD(5) [OF ok] b _ this heap_okD(6) [OF ok]]
  obtain r s' t' where m: "heap_meld (h_root hp) n (h_cmp hp) ?s = (r, s')" "detached s' r t'" "heap_ordered k t'"
    and t': "set_tree t' = set_tree t \<union> set_tree (Node Leaf n Leaf)" "size t' = size t + size (Node Leaf n Leaf)"
    and f': "\<forall>x. x \<notin> set_tree t' \<longrightarrow> same_at ?s s' x"
    using heap_ordered.simps by (metis empty_iff tree.set(1))
  have "\<forall>x. x \<notin> set_tree t' \<longrightarrow> same_at s s' x" using t'(1) f f' by (simp add: same_at_def)
  moreover have "ct_heap_insert hp n s = (hp\<lparr>h_root := r, h_size := h_size hp + 1\<rparr>, s')"
    using m(1) n(1) by (simp add: ct_heap_insert_def)
  moreover have "heap_ok k s' (hp\<lparr>h_root := r, h_size := h_size hp + 1\<rparr>) t'"
    using m(2,3) t'(2) room heap_okD(6,7) [OF ok] by (simp add: heap_ok_def)
  moreover have "set_tree t' = insert n (set_tree t)" using t'(1) by simp
  ultimately show ?thesis by (intro exI conjI) (assumption | simp)+
qed

lemma pop_core:
  assumes det: "detached s (h_root hp) t" and t: "t \<noteq> Leaf" and ord: "heap_ordered k (left t)"
    and cmp: "cmp_law k (h_cmp hp)" and sz: "h_size hp = of_nat (size t)" "size t < 2 ^ 32"
  shows "\<exists>hp' s' t'. ct_heap_pop hp s = Some (h_root hp, hp', s') \<and> heap_ok k s' hp' t' \<and>
    h_root hp \<in> set_tree t \<and> h_root hp \<noteq> NULL \<and>
    set_tree t' = set_tree t - {h_root hp} \<and> (\<forall>x. x \<notin> set_tree t \<longrightarrow> same_at s s' x) \<and> h_cmp hp' = h_cmp hp"
proof -
  let ?r = "h_root hp"
  obtain c where c: "t = Node c ?r Leaf" using det t by (cases t) (auto simp: detached_def)
  have r: "?r \<noteq> NULL" "rep s ?r (child_hp s ?r) c" and d: "distinct (inorder c)" "?r \<notin> set_tree c"
    and h: "heap_ordered k c"
  proof -
    have "rep s NULL ?r (Node c ?r Leaf)" "distinct (inorder (Node c ?r Leaf))" "heap_ordered k (left (Node c ?r Leaf))"
      using det ord c unfolding detached_def by metis+
    then show "?r \<noteq> NULL" "rep s ?r (child_hp s ?r) c" "distinct (inorder c)" "?r \<notin> set_tree c" "heap_ordered k c"
      by auto
  qed
  define s1 where "s1 = relink (child_hp s ?r) NULL s"
  have "rep s1 NULL (child_hp s ?r) c" unfolding s1_def using r(2) d(1) by (rule rep_relink)
  from merge_heap_ok [OF this d(1) h cmp]
  obtain q s2 u where m: "heap_merge_pairs_iter (child_hp s ?r) (h_cmp hp) s1 = Some (q, s2)" "detached s2 q u"
    "heap_ordered k u" "set_tree u = set_tree c" "size u = size c" "\<forall>x. x \<notin> set_tree c \<longrightarrow> same_at s1 s2 x" by blast
  let ?s = "set_links ?r NULL s2" and ?hp = "hp\<lparr>h_root := q, h_size := h_size hp - 1\<rparr>"
  have f: "x \<noteq> ?r \<Longrightarrow> same_at s2 ?s x" for x by (simp add: same_at_def heap_set_defs)
  have "\<forall>x \<in> set_tree u. same_at s2 ?s x" using m(4) d(2) by (auto intro!: f)
  then have "detached ?s q u" using m(2) detached_frame by blast
  moreover have "h_size hp - 1 = of_nat (size u)" "size u < 2 ^ 32"
  proof -
    have "size t = size c + 1" by (subst c) simp
    then show "h_size hp - 1 = of_nat (size u)" "size u < 2 ^ 32"
      using sz m(5) by simp_all
  qed
  ultimately have "heap_ok k ?s ?hp u" using m(3) cmp by (simp add: heap_ok_def)
  moreover have "ct_heap_pop hp s = Some (?r, ?hp, ?s)"
    using r(1) m(1) by (simp add: ct_heap_pop_def s1_def relink_def Let_def)
  moreover have "same_at s ?s x" if x: "x \<notin> set_tree t" for x
  proof -
    have "x \<noteq> ?r" "x \<notin> set_tree c" using x by (metis c tree.set_intros)+
    moreover have "x \<noteq> child_hp s ?r \<or> child_hp s ?r = NULL" using rep_first [OF r(2)] calculation by auto
    then have "same_at s s1 x" using relink_same [of x] by (auto simp: s1_def relink_def same_at_def heap_set_defs)
    ultimately show ?thesis using m(6) f [of x] by (simp add: same_at_def)
  qed
  moreover have "set_tree t = insert ?r (set_tree c)" by (subst c) auto
  then have "?r \<in> set_tree t" "set_tree u = set_tree t - {?r}"
    using m(4) d(2) by auto
  moreover note r(1)
  ultimately show ?thesis by (intro exI conjI) (assumption | simp)+
qed

lemma root_min:
  assumes "heap_ok k s hp t" and "t \<noteq> Leaf"
  shows "h_root hp \<in> set_tree t \<and> (\<forall>x \<in> set_tree t. k (h_root hp) \<le> k x)"
proof -
  obtain c a where t: "t = Node c a Leaf" "h_root hp = a" using heap_okD(1,3) [OF assms(1)] assms(2) by (cases t) auto
  then show ?thesis using heap_okD(5) [OF assms(1)] by auto
qed

section \<open>Taking a node out of the middle\<close>

fun cut_tree :: "addr \<Rightarrow> addr tree \<Rightarrow> addr tree" where
  "cut_tree n Leaf = Leaf"
| "cut_tree n (Node c a r) = (if a = n then r else Node (cut_tree n c) a (cut_tree n r))"

fun kids_tree :: "addr \<Rightarrow> addr tree \<Rightarrow> addr tree" where
  "kids_tree n Leaf = Leaf"
| "kids_tree n (Node c a r) = (if a = n then c else if n \<in> set_tree c then kids_tree n c else kids_tree n r)"

definition unlink :: "addr \<Rightarrow> ct_heap_store \<Rightarrow> ct_heap_store" where
  "unlink n s =
     (let s1 = relink (right_hp s n) (left_hp s n) s
      in if child_hp s (left_hp s n) = n then set_child (left_hp s n) (right_hp s n) s1
         else set_right (left_hp s n) (right_hp s n) s1)"

lemma cut_notin [simp]: "n \<notin> set_tree t \<Longrightarrow> cut_tree n t = t"
  by (induction t) auto

lemma unlink_same:
  "x \<noteq> right_hp s n \<or> right_hp s n = NULL \<Longrightarrow> x \<noteq> left_hp s n \<Longrightarrow> same_at s (unlink n s) x"
  by (auto simp: unlink_def relink_def same_at_def heap_set_defs Let_def)

text \<open>The node is the root of one of the two subtrees of \<open>a\<close>.\<close>

lemma rep_unlink_root:
  assumes "rep s a n (Node c n r)" and d: "distinct (inorder (Node c n r))" "a \<notin> set_tree (Node c n r)" and "a \<noteq> NULL"
  shows "rep (unlink n s) a (right_hp s n) r" and "rep (unlink n s) n (child_hp s n) c"
proof -
  let ?q = "right_hp s n"
  have n: "left_hp s n = a" "rep s n (child_hp s n) c" "rep s n ?q r" "n \<noteq> NULL" using assms(1) by simp_all
  have q: "?q = NULL \<or> ?q \<in> set_tree r" using rep_first [OF n(3)] .
  have "\<forall>x \<in> set_tree r. same_at (relink ?q a s) (unlink n s) x"
    using d(2) by (auto simp: unlink_def n(1) same_at_def heap_set_defs Let_def relink_def)
  moreover have "rep (relink ?q a s) a ?q r" using n(3) d by (intro rep_relink) auto
  ultimately show "rep (unlink n s) a ?q r" using rep_frame by blast
  have "x \<noteq> ?q \<or> ?q = NULL" if "x \<in> set_tree c" for x using q d that by auto
  then have "\<forall>x \<in> set_tree c. same_at s (unlink n s) x"
    using d(2) n(1) by (intro ballI unlink_same) auto
  then show "rep (unlink n s) n (child_hp s n) c" using n(2) rep_frame by blast
qed

lemma frame_outside:
  "\<forall>x. x \<notin> A \<longrightarrow> same_at s s' x \<Longrightarrow> set_tree r \<inter> A = {} \<Longrightarrow> rep s' l p r \<longleftrightarrow> rep s l p r"
  by (intro rep_frame) auto

lemma unlink_ok:
  "rep s l p t \<Longrightarrow> distinct (inorder t) \<Longrightarrow> n \<in> set_tree t \<Longrightarrow> p \<noteq> n \<Longrightarrow>
   rep (unlink n s) l p (cut_tree n t) \<and> rep (unlink n s) n (child_hp s n) (kids_tree n t) \<and>
   (\<forall>x. x \<notin> set_tree t \<longrightarrow> same_at s (unlink n s) x)"
proof (induction t arbitrary: l p)
  case (Node c a r)
  let ?s = "unlink n s"
  have a: "p = a" "a \<noteq> n" "a \<noteq> NULL" "left_hp s a = l" "rep s a (child_hp s a) c" "rep s a (right_hp s a) r"
    using Node.prems by auto
  have d: "distinct (inorder c)" "distinct (inorder r)" "a \<notin> set_tree c" "a \<notin> set_tree r" "set_tree c \<inter> set_tree r = {}"
    using Node.prems(2) by auto
  have n: "n \<in> set_tree c \<and> n \<notin> set_tree r \<or> n \<in> set_tree r \<and> n \<notin> set_tree c"
    using Node.prems(3) a d by auto
  then show ?case
  proof
    assume n: "n \<in> set_tree c \<and> n \<notin> set_tree r"
    have dr: "set_tree r \<inter> set_tree (Node c a Leaf) = {}" using d by auto
    show ?thesis
    proof (cases "child_hp s a = n")
      case True
      then obtain c' r' where c: "c = Node c' n r'" using a(5) n by (cases c) auto
      have rc: "rep s a n (Node c' n r')" "distinct (inorder (Node c' n r'))" "a \<notin> set_tree (Node c' n r')"
        using a(5) True d unfolding c by simp_all
      note cut = rep_unlink_root [OF rc a(3)]
      have ln: "left_hp s n = a" using rc(1) by simp
      have q: "right_hp s n = NULL \<or> right_hp s n \<in> set_tree r'" using rc(1) rep_first [of s n "right_hp s n" r'] by simp
      then have qa: "right_hp s n = NULL \<or> right_hp s n \<noteq> a" using d c by auto
      have s: "child_hp ?s a = right_hp s n" "left_hp ?s a = l" "right_hp ?s a = right_hp s a"
        using ln True a(4) qa by (auto simp: unlink_def relink_def heap_set_defs Let_def)
      have f: "\<forall>x. x \<notin> set_tree (Node c a Leaf) \<longrightarrow> same_at s ?s x"
        using q ln c by (intro allI impI unlink_same) auto
      have "cut_tree n (Node c a r) = Node r' a r" "kids_tree n (Node c a r) = c'"
        using n a(2) by (simp_all add: c)
      then show ?thesis using cut s a frame_outside [OF f dr] f d by auto
    next
      case False
      from Node.IH(1) [OF a(5) d(1) _ False] n
      have IH: "rep ?s a (child_hp s a) (cut_tree n c)" "rep ?s n (child_hp s n) (kids_tree n c)"
        "\<forall>x. x \<notin> set_tree c \<longrightarrow> same_at s ?s x" by blast+
      then have "same_at s ?s a" using d by blast
      moreover have f: "\<forall>x. x \<notin> set_tree (Node c a Leaf) \<longrightarrow> same_at s ?s x" using IH(3) by simp
      ultimately show ?thesis using IH frame_outside [OF f dr] f a n d by (auto simp: same_at_def)
    qed
  next
    assume n: "n \<in> set_tree r \<and> n \<notin> set_tree c"
    have dc: "set_tree c \<inter> set_tree (Node Leaf a r) = {}" using d by auto
    show ?thesis
    proof (cases "right_hp s a = n")
      case True
      then obtain c' r' where r: "r = Node c' n r'" using a(6) n by (cases r) auto
      have rc: "rep s a n (Node c' n r')" "distinct (inorder (Node c' n r'))" "a \<notin> set_tree (Node c' n r')"
        using a(6) True d unfolding r by simp_all
      note cut = rep_unlink_root [OF rc a(3)]
      have ln: "left_hp s n = a" using rc(1) by simp
      have ch: "child_hp s a \<noteq> n" using rep_first [OF a(5)] n rc(1) by auto
      have q: "right_hp s n = NULL \<or> right_hp s n \<in> set_tree r'" using rc(1) rep_first [of s n "right_hp s n" r'] by simp
      then have qa: "right_hp s n = NULL \<or> right_hp s n \<noteq> a" using d r by auto
      have s: "right_hp ?s a = right_hp s n" "left_hp ?s a = l" "child_hp ?s a = child_hp s a"
        using ln ch a(4) qa by (auto simp: unlink_def relink_def heap_set_defs Let_def)
      have f: "\<forall>x. x \<notin> set_tree (Node Leaf a r) \<longrightarrow> same_at s ?s x"
        using q ln r by (intro allI impI unlink_same) auto
      have "cut_tree n (Node c a r) = Node c a r'" "kids_tree n (Node c a r) = c'"
        using n a(2) by (simp_all add: r)
      then show ?thesis using cut s a frame_outside [OF f dc] f d by auto
    next
      case False
      from Node.IH(2) [OF a(6) d(2) _ False] n
      have IH: "rep ?s a (right_hp s a) (cut_tree n r)" "rep ?s n (child_hp s n) (kids_tree n r)"
        "\<forall>x. x \<notin> set_tree r \<longrightarrow> same_at s ?s x" by blast+
      then have "same_at s ?s a" using d by blast
      moreover have f: "\<forall>x. x \<notin> set_tree (Node Leaf a r) \<longrightarrow> same_at s ?s x" using IH(3) by simp
      ultimately show ?thesis using IH frame_outside [OF f dc] f a n d by (auto simp: same_at_def)
    qed
  qed
qed simp



lemma cut_facts:
  "distinct (inorder t) \<Longrightarrow> n \<in> set_tree t \<Longrightarrow>
   mset_tree t = {#n#} + mset_tree (cut_tree n t) + mset_tree (kids_tree n t)"
proof (induction t)
  case (Node c a r)
  then have "n \<in> set_tree c \<and> n \<notin> set_tree r \<and> n \<noteq> a \<or> n \<in> set_tree r \<and> n \<notin> set_tree c \<and> n \<noteq> a \<or>
    n = a \<and> n \<notin> set_tree c \<and> n \<notin> set_tree r" by auto
  then show ?case using Node by auto
qed simp

lemma cut_sets:
  assumes "distinct (inorder t)" and "n \<in> set_tree t"
  shows "set_tree t = insert n (set_tree (cut_tree n t) \<union> set_tree (kids_tree n t))"
    and "n \<notin> set_tree (cut_tree n t)" "n \<notin> set_tree (kids_tree n t)"
    and "set_tree (cut_tree n t) \<inter> set_tree (kids_tree n t) = {}"
    and "distinct (inorder (cut_tree n t))" "distinct (inorder (kids_tree n t))"
    and "size t = 1 + size (cut_tree n t) + size (kids_tree n t)"
proof -
  note m = cut_facts [OF assms]
  have e: "mset (inorder t) = mset (n # inorder (cut_tree n t) @ inorder (kids_tree n t))" using m by simp
  then have "distinct (n # inorder (cut_tree n t) @ inorder (kids_tree n t))"
    using assms(1) mset_eq_imp_distinct_iff by blast
  then show "n \<notin> set_tree (cut_tree n t)" "n \<notin> set_tree (kids_tree n t)"
    "set_tree (cut_tree n t) \<inter> set_tree (kids_tree n t) = {}"
    "distinct (inorder (cut_tree n t))" "distinct (inorder (kids_tree n t))" by simp_all
  show "set_tree t = insert n (set_tree (cut_tree n t) \<union> set_tree (kids_tree n t))"
    using mset_eq_setD [OF e] by simp
  show "size t = 1 + size (cut_tree n t) + size (kids_tree n t)" using arg_cong [OF m, of size] by simp
qed

lemma cut_subset: "set_tree (cut_tree n t) \<subseteq> set_tree t" "set_tree (kids_tree n t) \<subseteq> set_tree t"
  by (induction t) auto

text \<open>The keys may have changed at the node that is taken out.\<close>

lemma ordered_cut:
  assumes "heap_ordered k t" and "\<forall>x. x \<noteq> n \<longrightarrow> k' x = k x" and "distinct (inorder t)"
  shows "heap_ordered k' (cut_tree n t)" and "heap_ordered k' (kids_tree n t)"
proof -
  have "heap_ordered k' (cut_tree n t) \<and> heap_ordered k' (kids_tree n t)"
    using assms(1,3)
  proof (induction t)
    case (Node c a r)
    have c: "heap_ordered k' c" "heap_ordered k' r" if "a = n"
    proof -
      have "\<forall>x \<in> set_tree c. k' x = k x" "\<forall>x \<in> set_tree r. k' x = k x"
        using Node.prems(2) assms(2) that by auto
      then show "heap_ordered k' c" "heap_ordered k' r" using Node.prems(1) heap_ordered_cong [of c k' k] heap_ordered_cong [of r k' k] by simp_all
    qed
    have "\<forall>x \<in> set_tree (cut_tree n c). k' a \<le> k' x" if "a \<noteq> n"
    proof
      fix x assume x: "x \<in> set_tree (cut_tree n c)"
      have "x \<noteq> n"
        using x cut_sets(2) [of c n] Node.prems(2) by (cases "n \<in> set_tree c") auto
      moreover have "x \<in> set_tree c" using x cut_subset(1) by blast
      ultimately show "k' a \<le> k' x" using Node.prems(1) assms(2) that by auto
    qed
    then show ?case using Node c by auto
  qed simp
  then show "heap_ordered k' (cut_tree n t)" "heap_ordered k' (kids_tree n t)" by simp_all
qed

lemma rep_no_loop:
  "rep s l p t \<Longrightarrow> distinct (inorder t) \<Longrightarrow> n \<in> set_tree t \<Longrightarrow> l \<notin> set_tree t \<Longrightarrow> left_hp s n \<noteq> n \<and> right_hp s n \<noteq> n"
proof (induction t arbitrary: l p)
  case (Node c a r)
  have "right_hp s a \<noteq> a" using Node.prems rep_first [of s a "right_hp s a" r] by auto
  then show ?case using Node by auto
qed simp

lemma heap_remove_core:
  assumes det: "detached s (h_root hp) t" and n: "n \<in> set_tree t" and ord: "heap_ordered k t"
    and k': "\<forall>x. x \<noteq> n \<longrightarrow> k' x = k x" and cmp: "cmp_law k' (h_cmp hp)"
    and sz: "h_size hp = of_nat (size t)" "size t < 2 ^ 32"
  shows "\<exists>hp' s' t'. ct_heap_remove hp n s = Some (hp', s') \<and> heap_ok k' s' hp' t' \<and>
    set_tree t' = set_tree t - {n} \<and> (\<forall>x. x \<notin> set_tree t \<longrightarrow> same_at s s' x) \<and> h_cmp hp' = h_cmp hp \<and> n \<noteq> NULL"
proof -
  have r: "rep s NULL (h_root hp) t" "distinct (inorder t)" "t = Leaf \<or> right t = Leaf" "t \<noteq> Leaf" "right t = Leaf"
    using det n by (auto simp: detached_def)
  have nn: "n \<noteq> NULL" using rep_nonnull [OF r(1)] n by auto
  have s0: "h_size hp \<noteq> 0"
    using sz r(4) of_nat_size_0 [OF sz(2)] by (simp add: eq_size_0)
  show ?thesis
  proof (cases "n = h_root hp")
    case True
    obtain c where c: "t = Node c n Leaf" using r True by (cases t) auto
    have "heap_ordered k' (left t)" using ordered_cut(2) [OF ord k' r(2)] by (simp add: c)
    from pop_core [OF det r(4) this cmp sz] show ?thesis
      using nn s0 True by (auto simp: ct_heap_remove_def)
  next
    case False
    let ?s = "unlink n s" and ?c = "cut_tree n t" and ?d = "kids_tree n t"
    have un: "rep ?s NULL (h_root hp) ?c" "rep ?s n (child_hp s n) ?d" "\<forall>x. x \<notin> set_tree t \<longrightarrow> same_at s ?s x"
      using unlink_ok [OF r(1,2) n] False by auto
    note cs = cut_sets [OF r(2) n] and os = ordered_cut [OF ord k' r(2)]
    have rc: "?c = Leaf \<or> right ?c = Leaf" using r(5) False r(1) by (cases t) auto
    let ?p = "child_hp s n"
    define s1 where "s1 = set_links n NULL (relink ?p NULL ?s)"
    have p: "?p = NULL \<or> ?p \<in> set_tree ?d" using rep_first [OF un(2)] .
    have f1: "same_at ?s s1 x" if "x \<noteq> n" "x \<notin> set_tree ?d" for x
      using that p by (auto simp: s1_def relink_def same_at_def heap_set_defs)
    have "\<forall>x \<in> set_tree ?c. same_at ?s s1 x" using cs(2,4) by (auto intro!: f1)
    then have dc: "detached s1 (h_root hp) ?c" using un(1) cs(5) rc rep_frame by (simp add: detached_def)
    have "rep (relink ?p NULL ?s) NULL ?p ?d" using un(2) cs(6) by (rule rep_relink)
    moreover have "\<forall>x \<in> set_tree ?d. same_at (relink ?p NULL ?s) s1 x"
      using cs(3) by (auto simp: s1_def same_at_def heap_set_defs)
    ultimately have "rep s1 NULL ?p ?d" using rep_frame by blast
    from merge_heap_ok [OF this cs(6) os(2) cmp]
    obtain q s2 u where u: "heap_merge_pairs_iter ?p (h_cmp hp) s1 = Some (q, s2)" "detached s2 q u"
      "heap_ordered k' u" "set_tree u = set_tree ?d" "size u = size ?d" "\<forall>x. x \<notin> set_tree ?d \<longrightarrow> same_at s1 s2 x" by blast
    have "\<forall>x \<in> set_tree ?c. same_at s1 s2 x" using u(6) cs(4) by auto
    then have dc2: "detached s2 (h_root hp) ?c" using dc detached_frame by blast
    have "set_tree ?c \<inter> set_tree u = {}" using u(4) cs(4) by simp
    from meld_heap_ok [OF dc2 os(1) u(2,3) this cmp]
    obtain q' s3 v where v: "heap_meld (h_root hp) q (h_cmp hp) s2 = (q', s3)" "detached s3 q' v" "heap_ordered k' v"
      "set_tree v = set_tree ?c \<union> set_tree u" "size v = size ?c + size u" "\<forall>x. x \<notin> set_tree v \<longrightarrow> same_at s2 s3 x"
      by blast
    let ?hp = "hp\<lparr>h_size := h_size hp - 1, h_root := q'\<rparr>"
    have "h_size hp - 1 = of_nat (size v)" "size v < 2 ^ 32" using sz cs(7) v(5) u(5) by simp_all
    then have "heap_ok k' s3 ?hp v" using v cmp by (simp add: heap_ok_def)
    moreover have "set_tree v = set_tree t - {n}" using v(4) u(4) cs(1,2,3) by auto
    moreover have "same_at s s3 x" if x: "x \<notin> set_tree t" for x
    proof -
      have "x \<noteq> n" "x \<notin> set_tree ?c" "x \<notin> set_tree ?d" using x cs(1) by auto
      then show ?thesis using un(3) f1 [of x] u(4,6) v(4,6) x by (simp add: same_at_def)
    qed
    moreover have "ct_heap_remove hp n s = Some (?hp, s3)"
    proof -
      have l: "left_hp s n \<noteq> n" "right_hp s n \<noteq> n"
        using rep_no_loop [OF r(1,2) n] rep_nonnull [OF r(1)] by simp_all
      have "ct_heap_remove hp n s = (let children = child_hp ?s n;
          s = (if children \<noteq> NULL then set_left children NULL ?s else ?s) in
        Option.bind (heap_merge_pairs_iter children (h_cmp hp) (set_links n NULL s)) (\<lambda>(remeld, s).
          let (root, s) = heap_meld (h_root hp) remeld (h_cmp hp) s
          in Some (hp\<lparr>h_size := h_size hp - 1, h_root := root\<rparr>, s)))"
        using nn s0 False l by (simp add: ct_heap_remove_def unlink_def relink_def heap_set_defs Let_def)
      moreover have "child_hp ?s n = ?p"
        using l by (simp add: unlink_def relink_def heap_set_defs Let_def)
      ultimately show ?thesis using u(1) v(1) by (simp add: s1_def relink_def Let_def)
    qed
    ultimately show ?thesis using nn by (intro exI conjI) (assumption | simp)+
  qed
qed

lemma heap_pop_ok:
  assumes ok: "heap_ok k s hp t" and t: "t \<noteq> Leaf"
  shows "\<exists>hp' s' t'. ct_heap_pop hp s = Some (h_root hp, hp', s') \<and> heap_ok k s' hp' t' \<and>
    set_tree t' = set_tree t - {h_root hp} \<and> h_root hp \<noteq> NULL \<and> (\<forall>x. x \<notin> set_tree t \<longrightarrow> same_at s s' x)"
proof -
  have "detached s (h_root hp) t" using ok by (simp add: heap_ok_def)
  moreover have "heap_ordered k (left t)" using heap_okD(5) [OF ok] by (cases t) simp_all
  ultimately show ?thesis using pop_core [OF _ t _ heap_okD(6,7,8) [OF ok]] by blast
qed

text \<open>Update: the key of \<open>n\<close> has changed from \<open>k\<close> to \<open>k'\<close>.\<close>

lemma heap_update_ok:
  assumes det: "detached s (h_root hp) t" and n: "n \<in> set_tree t" and ord: "heap_ordered k t"
    and k': "\<forall>x. x \<noteq> n \<longrightarrow> k' x = k x" and cmp: "cmp_law k' (h_cmp hp)"
    and sz: "h_size hp = of_nat (size t)" "size t < 2 ^ 32"
  shows "\<exists>hp' s' t'. ct_heap_update hp n s = Some (hp', s') \<and> heap_ok k' s' hp' t' \<and> set_tree t' = set_tree t \<and>
    (\<forall>x. x \<notin> set_tree t \<longrightarrow> same_at s s' x)"
proof -
  from heap_remove_core [OF assms]
  obtain hp1 s1 t1 where r: "ct_heap_remove hp n s = Some (hp1, s1)" "heap_ok k' s1 hp1 t1" "set_tree t1 = set_tree t - {n}" "n \<noteq> NULL"
    "\<forall>x. x \<notin> set_tree t \<longrightarrow> same_at s s1 x"
    by blast
  have c: "size u = card (set_tree u)" if "distinct (inorder u)" for u :: "addr tree"
    using distinct_card [OF that] by (simp add: length_inorder)
  have d: "distinct (inorder t)" using det by (simp add: detached_def)
  have "size t = size t1 + 1"
    using c [OF heap_okD(2) [OF r(2)]] c [OF d] r(3) n by (simp add: card_Diff_singleton) (metis Suc_pred card_gt_0_iff emptyE finite_set_tree)
  then have "n \<notin> set_tree t1" "size t1 + 1 < 2 ^ 32" using r(3) sz(2) by simp_all
  from heap_insert_ok [OF r(2,4) this]
  obtain hp2 s2 t2 where i: "ct_heap_insert hp1 n s1 = (hp2, s2)" "heap_ok k' s2 hp2 t2" "set_tree t2 = insert n (set_tree t1)"
    "\<forall>x. x \<notin> set_tree t2 \<longrightarrow> same_at s1 s2 x"
    by blast
  have "set_tree t2 = set_tree t" using i(3) r(3) n by auto
  moreover from this have "\<forall>x. x \<notin> set_tree t \<longrightarrow> same_at s s2 x" using r(5) i(4) by (simp add: same_at_def)
  ultimately show ?thesis using r(1,4) i(1,2) by (auto simp: ct_heap_update_def)
qed

lemma heap_move_ok:
  assumes dst: "heap_ok k s dst t" and src: "heap_ok k s src u" and disj: "set_tree t \<inter> set_tree u = {}"
    and sz: "size t + size u < 2 ^ 32"
  shows "\<exists>dst' src' s' v. ct_heap_move dst src s = (dst', src', s') \<and> heap_ok k s' dst' v \<and> heap_ok k s' src' Leaf \<and>
    set_tree v = set_tree t \<union> set_tree u \<and> (\<forall>x. x \<notin> set_tree v \<longrightarrow> same_at s s' x)"
proof -
  have z: "h_size dst = 0 \<longleftrightarrow> t = Leaf" "h_size src = 0 \<longleftrightarrow> u = Leaf"
    using heap_okD(7,8) [OF dst] heap_okD(7,8) [OF src] of_nat_size_0 by (simp_all add: eq_size_0)
  consider "u = Leaf" | "u \<noteq> Leaf" "t = Leaf" | "u \<noteq> Leaf" "t \<noteq> Leaf" by blast
  then show ?thesis
  proof cases
    case 1
    then show ?thesis using dst src z by (auto simp: ct_heap_move_def same_at_def)
  next
    case 2
    then show ?thesis using dst src z by (auto simp: ct_heap_move_def heap_ok_def same_at_def)
  next
    case 3
    have "detached s (h_root dst) t" "detached s (h_root src) u" using dst src by (simp_all add: heap_ok_def)
    from meld_heap_ok [OF this(1) heap_okD(5) [OF dst] this(2) heap_okD(5) [OF src] disj heap_okD(6) [OF dst]]
    obtain r s' v where v: "heap_meld (h_root dst) (h_root src) (h_cmp dst) s = (r, s')" "detached s' r v" "heap_ordered k v"
      "set_tree v = set_tree t \<union> set_tree u" "size v = size t + size u" "\<forall>x. x \<notin> set_tree v \<longrightarrow> same_at s s' x" by blast
    have "heap_ok k s' (dst\<lparr>h_root := r, h_size := h_size dst + h_size src\<rparr>) v"
      using v dst src sz by (simp add: heap_ok_def)
    moreover have "heap_ok k s' (src\<lparr>h_root := NULL, h_size := 0\<rparr>) Leaf"
      using src by (simp add: heap_ok_def)
    moreover have "ct_heap_move dst src s =
        (dst\<lparr>h_root := r, h_size := h_size dst + h_size src\<rparr>, src\<lparr>h_root := NULL, h_size := 0\<rparr>, s')"
      using 3 z v(1) by (simp add: ct_heap_move_def)
    ultimately show ?thesis using v(4,6) by blast
  qed
qed

section \<open>A program using heaps\<close>

text \<open>The keys live in the objects; the callback reads them.  \<open>cb k\<close> is the callback when the keys are
  \<open>k\<close>.  A program has any number of heaps, named by numbers; a node is in at most one of them.
  Inserting and updating first set the key of the object.\<close>

type_synonym heap_state = "(addr \<Rightarrow> int) \<times> (nat \<Rightarrow> ct_heap) \<times> ct_heap_store"

datatype heap_op = HInsert nat addr int | HPop nat | HRemove nat addr | HUpdate nat addr int | HClear nat
  | HMove nat nat

definition set_key :: "((addr \<Rightarrow> int) \<Rightarrow> heap_cmp) \<Rightarrow> addr \<Rightarrow> int \<Rightarrow> heap_state \<Rightarrow> heap_state" where
  "set_key cb n v = (\<lambda>(k, hs, s). (k(n := v), \<lambda>i. (hs i)\<lparr>h_cmp := cb (k(n := v))\<rparr>, s))"

fun heap_exec :: "((addr \<Rightarrow> int) \<Rightarrow> heap_cmp) \<Rightarrow> heap_op \<Rightarrow> heap_state \<Rightarrow> (addr \<times> heap_state) option" where
  "heap_exec cb (HInsert i n v) st =
     (let (k, hs, s) = set_key cb n v st; (hp, s) = ct_heap_insert (hs i) n s
      in Some (NULL, k, hs(i := hp), s))"
| "heap_exec cb (HPop i) (k, hs, s) = do { (r, hp, s) \<leftarrow> ct_heap_pop (hs i) s; Some (r, k, hs(i := hp), s) }"
| "heap_exec cb (HRemove i n) (k, hs, s) =
     do { (hp, s) \<leftarrow> ct_heap_remove (hs i) n s; Some (NULL, k, hs(i := hp), s) }"
| "heap_exec cb (HUpdate i n v) st =
     (case set_key cb n v st of (k, hs, s) \<Rightarrow>
        do { (hp, s) \<leftarrow> ct_heap_update (hs i) n s; Some (NULL, k, hs(i := hp), s) })"
| "heap_exec cb (HClear i) (k, hs, s) = Some (NULL, k, hs(i := ct_heap_clear (hs i)), s)"
| "heap_exec cb (HMove i j) (k, hs, s) =
     (let (dst, src, s) = ct_heap_move (hs i) (hs j) s in Some (NULL, k, hs(i := dst, j := src), s))"

fun heap_run :: "((addr \<Rightarrow> int) \<Rightarrow> heap_cmp) \<Rightarrow> heap_op list \<Rightarrow> heap_state \<Rightarrow> (addr list \<times> heap_state) option" where
  "heap_run cb [] st = Some ([], st)"
| "heap_run cb (op # ops) st =
     do { (r, st) \<leftarrow> heap_exec cb op st; (rs, st) \<leftarrow> heap_run cb ops st; Some (r # rs, st) }"

text \<open>The specification: for each heap a finite map from nodes to keys.  A pop takes any node with a
  least key; a move adds one map to another and leaves it empty.\<close>

type_synonym queues = "nat \<Rightarrow> addr \<rightharpoonup> int"

inductive pq_step :: "heap_op \<Rightarrow> queues \<Rightarrow> addr \<Rightarrow> queues \<Rightarrow> bool" where
  insert: "pq_step (HInsert i n v) Q NULL (Q(i := (Q i)(n \<mapsto> v)))"
| pop_none: "Q i = Map.empty \<Longrightarrow> pq_step (HPop i) Q NULL Q"
| pop: "Q i n = Some v \<Longrightarrow> \<forall>x w. Q i x = Some w \<longrightarrow> v \<le> w \<Longrightarrow> pq_step (HPop i) Q n (Q(i := (Q i)(n := None)))"
| remove: "pq_step (HRemove i n) Q NULL (Q(i := (Q i)(n := None)))"
| update: "pq_step (HUpdate i n v) Q NULL (Q(i := (Q i)(n \<mapsto> v)))"
| clear: "pq_step (HClear i) Q NULL (Q(i := Map.empty))"
| move: "pq_step (HMove i j) Q NULL (Q(i := Q i ++ Q j, j := Map.empty))"

inductive pq_run :: "heap_op list \<Rightarrow> queues \<Rightarrow> addr list \<Rightarrow> queues \<Rightarrow> bool" where
  nil: "pq_run [] Q [] Q"
| step: "pq_step op Q r R \<Longrightarrow> pq_run ops R rs L \<Longrightarrow> pq_run (op # ops) Q (r # rs) L"

text \<open>A program may use the heaps as they are meant to be used, whichever of the nodes with a least key
  a pop returns: only nodes that are in no heap are inserted, only nodes of a heap are removed from it
  or updated in it, and a heap is moved to another one.\<close>

fun pq_legal :: "heap_op \<Rightarrow> queues \<Rightarrow> bool" where
  "pq_legal (HInsert i n v) Q \<longleftrightarrow> n \<noteq> NULL \<and> (\<forall>j. Q j n = None) \<and> card (dom (Q i)) + 1 < 2 ^ 32"
| "pq_legal (HRemove i n) Q \<longleftrightarrow> Q i n \<noteq> None"
| "pq_legal (HUpdate i n v) Q \<longleftrightarrow> Q i n \<noteq> None"
| "pq_legal (HMove i j) Q \<longleftrightarrow> i \<noteq> j \<and> card (dom (Q i)) + card (dom (Q j)) < 2 ^ 32"
| "pq_legal _ Q \<longleftrightarrow> True"

fun pq_safe :: "heap_op list \<Rightarrow> queues \<Rightarrow> bool" where
  "pq_safe [] Q \<longleftrightarrow> True"
| "pq_safe (op # ops) Q \<longleftrightarrow> pq_legal op Q \<and> (\<forall>r R. pq_step op Q r R \<longrightarrow> pq_safe ops R)"

definition tree_keys :: "(addr \<Rightarrow> int) \<Rightarrow> addr tree \<Rightarrow> addr \<rightharpoonup> int" where
  "tree_keys k t = (\<lambda>x. if x \<in> set_tree t then Some (k x) else None)"

definition heaps_ok :: "(addr \<Rightarrow> int) \<Rightarrow> ct_heap_store \<Rightarrow> (nat \<Rightarrow> ct_heap) \<Rightarrow> (nat \<Rightarrow> addr tree) \<Rightarrow> bool" where
  "heaps_ok k s hs t \<longleftrightarrow> (\<forall>i. heap_ok k s (hs i) (t i)) \<and> (\<forall>i j. i \<noteq> j \<longrightarrow> set_tree (t i) \<inter> set_tree (t j) = {})"

definition heap_models :: "queues \<Rightarrow> heap_state \<Rightarrow> bool" where
  "heap_models Q = (\<lambda>(k, hs, s). \<exists>t. heaps_ok k s hs t \<and> Q = (\<lambda>i. tree_keys k (t i)))"

definition heap_seen :: "queues \<Rightarrow> heap_state \<Rightarrow> bool" where
  "heap_seen Q = (\<lambda>(k, hs, s). \<forall>i. ct_heap_is_empty (hs i) = (Q i = Map.empty) \<and>
     unat (ct_heap_size (hs i)) = card (dom (Q i)) \<and>
     (if Q i = Map.empty then ct_heap_top (hs i) = NULL
      else \<exists>v. Q i (ct_heap_top (hs i)) = Some v \<and> (\<forall>x w. Q i x = Some w \<longrightarrow> v \<le> w)))"

lemma size_card: "heap_ok k s hp t \<Longrightarrow> card (set_tree t) = size t"
  using distinct_card [OF heap_okD(2)] by (simp add: length_inorder)

lemma dom_tree [simp]: "dom (tree_keys k t) = set_tree t"
  by (auto simp: dom_def tree_keys_def)

lemma tree_keys_Leaf [simp]: "tree_keys k Leaf = Map.empty"
  by (simp add: tree_keys_def)

lemma tree_keys_empty: "tree_keys k t = Map.empty \<longleftrightarrow> t = Leaf"
  using dom_tree [of k t] by (cases t) (auto simp: dom_eq_empty_conv [symmetric] simp del: dom_eq_empty_conv)

lemma heap_models_seen: "heap_models Q st \<Longrightarrow> heap_seen Q st"
proof (cases st)
  case (fields k hs s)
  assume "heap_models Q st"
  then obtain t where t: "heaps_ok k s hs t" "Q = (\<lambda>i. tree_keys k (t i))"
    by (auto simp: heap_models_def fields)
  have "ct_heap_is_empty (hs i) = (Q i = Map.empty) \<and> unat (ct_heap_size (hs i)) = card (dom (Q i)) \<and>
     (if Q i = Map.empty then ct_heap_top (hs i) = NULL
      else \<exists>v. Q i (ct_heap_top (hs i)) = Some v \<and> (\<forall>x w. Q i x = Some w \<longrightarrow> v \<le> w))" for i
  proof -
    have ok: "heap_ok k s (hs i) (t i)" using t(1) by (simp add: heaps_ok_def)
    have e: "Q i = Map.empty \<longleftrightarrow> t i = Leaf" by (simp add: t(2) tree_keys_empty)
    have z: "h_size (hs i) = 0 \<longleftrightarrow> t i = Leaf" "unat (h_size (hs i)) = card (dom (Q i))"
      using heap_okD(7,8) [OF ok] of_nat_size_0 size_card [OF ok] t(2)
      by (simp_all add: eq_size_0 unat_of_nat_lt)
    show ?thesis
    proof (cases "t i = Leaf")
      case True
      then show ?thesis using heap_okD(9) [OF ok] e z
        by (simp add: ct_heap_is_empty_def ct_heap_size_def ct_heap_top_def)
    next
      case False
      have "Q i (h_root (hs i)) = Some (k (h_root (hs i)))" "\<forall>x w. Q i x = Some w \<longrightarrow> k (h_root (hs i)) \<le> w"
        using root_min [OF ok False] by (simp_all add: t(2) tree_keys_def)
      then show ?thesis using False e z
        by (simp add: ct_heap_is_empty_def ct_heap_size_def ct_heap_top_def)
    qed
  qed
  then show ?thesis by (simp add: heap_seen_def fields)
qed

text \<open>A heap none of whose nodes is touched stays what it was.\<close>

lemma heap_ok_frame:
  assumes ok: "heap_ok k s hp t" and f: "\<forall>x \<in> set_tree t. same_at s s' x \<and> k' x = k x"
    and hp': "h_root hp' = h_root hp" "h_size hp' = h_size hp" "cmp_law k' (h_cmp hp')"
  shows "heap_ok k' s' hp' t"
  using ok f hp' detached_frame [of s "h_root hp" t s'] heap_ordered_cong [of t k' k] by (simp add: heap_ok_def)

text \<open>One heap changes, within its own nodes.\<close>

lemma heaps_step:
  assumes ok: "heaps_ok k s hs t" and new: "heap_ok k' s' (hs' i) t'"
    and own: "\<forall>j. j \<noteq> i \<longrightarrow> set_tree t' \<inter> set_tree (t j) = {}"
    and f: "\<forall>x. x \<notin> set_tree (t i) \<longrightarrow> x \<notin> set_tree t' \<longrightarrow> same_at s s' x \<and> k' x = k x"
    and hs': "\<forall>j. j \<noteq> i \<longrightarrow> h_root (hs' j) = h_root (hs j) \<and> h_size (hs' j) = h_size (hs j) \<and> cmp_law k' (h_cmp (hs' j))"
  shows "heaps_ok k' s' hs' (t(i := t'))"
proof -
  have d: "set_tree (t a) \<inter> set_tree (t b) = {}" if "a \<noteq> b" for a b using ok that by (simp add: heaps_ok_def)
  have "heap_ok k' s' (hs' j) (t j)" if j: "j \<noteq> i" for j
  proof (rule heap_ok_frame)
    show "heap_ok k s (hs j) (t j)" using ok by (simp add: heaps_ok_def)
    show "\<forall>x \<in> set_tree (t j). same_at s s' x \<and> k' x = k x" using f own j d [OF j] by blast
  qed (use hs' j in simp_all)
  then show ?thesis using new own d by (auto simp: heaps_ok_def)
qed

lemma heap_modelsI: "heaps_ok k s hs t \<Longrightarrow> Q = (\<lambda>i. tree_keys k (t i)) \<Longrightarrow> heap_models Q (k, hs, s)"
  by (auto simp: heap_models_def)

lemma heaps_disj: "heaps_ok k s hs t \<Longrightarrow> x \<in> set_tree (t i) \<Longrightarrow> i \<noteq> j \<Longrightarrow> x \<notin> set_tree (t j)"
  by (auto simp: heaps_ok_def)

lemma cmp_kept: "heaps_ok k s hs t \<Longrightarrow> cmp_law k (h_cmp (hs j))"
  by (simp add: heaps_ok_def heap_ok_def)

lemma heap_insert_step:
  assumes cb: "\<And>k. cmp_law k (cb k)" and ok: "heaps_ok k s hs t" and Q: "Q = (\<lambda>i. tree_keys k (t i))"
    and n: "n \<noteq> NULL" "\<forall>j. n \<notin> set_tree (t j)" "size (t i) + 1 < 2 ^ 32"
  shows "\<exists>st'. heap_exec cb (HInsert i n v) (k, hs, s) = Some (NULL, st') \<and> heap_models (Q(i := (Q i)(n \<mapsto> v))) st'"
proof -
  let ?k = "k(n := v)" and ?hs = "\<lambda>j. (hs j)\<lparr>h_cmp := cb (k(n := v))\<rparr>"
  have "heap_ok ?k s (?hs i) (t i)"
  proof (rule heap_ok_frame)
    show "heap_ok k s (hs i) (t i)" using ok by (simp add: heaps_ok_def)
    show "\<forall>x \<in> set_tree (t i). same_at s s x \<and> ?k x = k x" using n(2) by (auto simp: same_at_def)
  qed (use cb in simp_all)
  moreover have "n \<notin> set_tree (t i)" using n(2) by blast
  ultimately obtain hp' s' t' where i: "ct_heap_insert (?hs i) n s = (hp', s')" "heap_ok ?k s' hp' t'"
    "set_tree t' = insert n (set_tree (t i))" "\<forall>x. x \<notin> set_tree t' \<longrightarrow> same_at s s' x"
    using heap_insert_ok [OF _ n(1) _ n(3)] by blast
  have "heaps_ok ?k s' (?hs(i := hp')) (t(i := t'))"
    by (rule heaps_step [OF ok]) (use i n cb in \<open>auto dest: heaps_disj [OF ok]\<close>)
  then have "heap_models (Q(i := (Q i)(n \<mapsto> v))) (?k, ?hs(i := hp'), s')"
  proof (rule heap_modelsI)
    show "Q(i := (Q i)(n \<mapsto> v)) = (\<lambda>j. tree_keys ?k ((t(i := t')) j))"
      using i(3) n(2) by (auto simp: fun_eq_iff Q tree_keys_def)
  qed
  then show ?thesis using i(1) by (simp add: set_key_def)
qed

lemma heap_pop_step:
  assumes ok: "heaps_ok k s hs t" and Q: "Q = (\<lambda>i. tree_keys k (t i))"
  shows "\<exists>r st' R. heap_exec cb (HPop i) (k, hs, s) = Some (r, st') \<and> pq_step (HPop i) Q r R \<and> heap_models R st'"
proof (cases "t i = Leaf")
  case True
  have "heap_ok k s (hs i) (t i)" using ok by (simp add: heaps_ok_def)
  then have "h_root (hs i) = NULL" "Q i = Map.empty" using True heap_okD(9) by (simp_all add: Q)
  then have "heap_exec cb (HPop i) (k, hs, s) = Some (NULL, k, hs, s)" "pq_step (HPop i) Q NULL Q"
    by (simp_all add: ct_heap_pop_def pq_step.pop_none)
  then show ?thesis using heap_modelsI [OF ok Q] by blast
next
  case False
  let ?r = "h_root (hs i)"
  have oki: "heap_ok k s (hs i) (t i)" using ok by (simp add: heaps_ok_def)
  obtain hp' s' t' where p: "ct_heap_pop (hs i) s = Some (?r, hp', s')" "heap_ok k s' hp' t'"
    "set_tree t' = set_tree (t i) - {?r}" "\<forall>x. x \<notin> set_tree (t i) \<longrightarrow> same_at s s' x"
    using heap_pop_ok [OF oki False] by blast
  have "heaps_ok k s' (hs(i := hp')) (t(i := t'))"
    by (rule heaps_step [OF ok]) (use p cmp_kept [OF ok] in \<open>auto dest: heaps_disj [OF ok]\<close>)
  then have "heap_models (Q(i := (Q i)(?r := None))) (k, hs(i := hp'), s')"
  proof (rule heap_modelsI)
    show "Q(i := (Q i)(?r := None)) = (\<lambda>j. tree_keys k ((t(i := t')) j))"
      using p(3) by (auto simp: fun_eq_iff Q tree_keys_def)
  qed
  moreover have "pq_step (HPop i) Q ?r (Q(i := (Q i)(?r := None)))"
    using root_min [OF oki False]
    by (intro pq_step.pop [of _ _ _ "k ?r"]) (auto simp: Q tree_keys_def split: if_splits)
  ultimately show ?thesis using p(1) by auto
qed

lemma heap_remove_step:
  assumes ok: "heaps_ok k s hs t" and Q: "Q = (\<lambda>i. tree_keys k (t i))" and n: "n \<in> set_tree (t i)"
  shows "\<exists>st'. heap_exec cb (HRemove i n) (k, hs, s) = Some (NULL, st') \<and> heap_models (Q(i := (Q i)(n := None))) st'"
proof -
  have oki: "heap_ok k s (hs i) (t i)" using ok by (simp add: heaps_ok_def)
  have "detached s (h_root (hs i)) (t i)" "\<forall>x. x \<noteq> n \<longrightarrow> k x = k x" using oki by (simp_all add: heap_ok_def)
  from heap_remove_core [OF this(1) n heap_okD(5) [OF oki] this(2) heap_okD(6,7,8) [OF oki]]
  obtain hp' s' t' where p: "ct_heap_remove (hs i) n s = Some (hp', s')" "heap_ok k s' hp' t'"
    "set_tree t' = set_tree (t i) - {n}" "\<forall>x. x \<notin> set_tree (t i) \<longrightarrow> same_at s s' x" by blast
  have "heaps_ok k s' (hs(i := hp')) (t(i := t'))"
    by (rule heaps_step [OF ok]) (use p cmp_kept [OF ok] in \<open>auto dest: heaps_disj [OF ok]\<close>)
  then have "heap_models (Q(i := (Q i)(n := None))) (k, hs(i := hp'), s')"
  proof (rule heap_modelsI)
    show "Q(i := (Q i)(n := None)) = (\<lambda>j. tree_keys k ((t(i := t')) j))"
      using p(3) by (auto simp: fun_eq_iff Q tree_keys_def)
  qed
  then show ?thesis using p(1) by simp
qed

lemma heap_update_step:
  assumes cb: "\<And>k. cmp_law k (cb k)" and ok: "heaps_ok k s hs t" and Q: "Q = (\<lambda>i. tree_keys k (t i))"
    and n: "n \<in> set_tree (t i)"
  shows "\<exists>st'. heap_exec cb (HUpdate i n v) (k, hs, s) = Some (NULL, st') \<and> heap_models (Q(i := (Q i)(n \<mapsto> v))) st'"
proof -
  let ?k = "k(n := v)" and ?hs = "\<lambda>j. (hs j)\<lparr>h_cmp := cb (k(n := v))\<rparr>"
  have oki: "heap_ok k s (hs i) (t i)" using ok by (simp add: heaps_ok_def)
  have "detached s (h_root (?hs i)) (t i)" "cmp_law ?k (h_cmp (?hs i))" "h_size (?hs i) = of_nat (size (t i))"
    "size (t i) < 2 ^ 32" "\<forall>x. x \<noteq> n \<longrightarrow> ?k x = k x"
    using oki cb by (simp_all add: heap_ok_def)
  then obtain hp' s' t' where p: "ct_heap_update (?hs i) n s = Some (hp', s')" "heap_ok ?k s' hp' t'"
    "set_tree t' = set_tree (t i)" "\<forall>x. x \<notin> set_tree (t i) \<longrightarrow> same_at s s' x"
    using heap_update_ok [OF _ n heap_okD(5) [OF oki]] by blast
  have nj: "n \<notin> set_tree (t j)" if "j \<noteq> i" for j using ok n that by (auto simp: heaps_ok_def)
  have "heaps_ok ?k s' (?hs(i := hp')) (t(i := t'))"
    by (rule heaps_step [OF ok]) (use p n cb in \<open>auto dest: heaps_disj [OF ok]\<close>)
  then have "heap_models (Q(i := (Q i)(n \<mapsto> v))) (?k, ?hs(i := hp'), s')"
  proof (rule heap_modelsI)
    show "Q(i := (Q i)(n \<mapsto> v)) = (\<lambda>j. tree_keys ?k ((t(i := t')) j))"
      using p(3) n nj by (auto simp: fun_eq_iff Q tree_keys_def)
  qed
  then show ?thesis using p(1) by (simp add: set_key_def)
qed

lemma heap_clear_step:
  assumes ok: "heaps_ok k s hs t" and Q: "Q = (\<lambda>i. tree_keys k (t i))"
  shows "\<exists>st'. heap_exec cb (HClear i) (k, hs, s) = Some (NULL, st') \<and> heap_models (Q(i := Map.empty)) st'"
proof -
  have "heap_ok k s (hs i) (t i)" using ok by (simp add: heaps_ok_def)
  note c = heap_clear_ok [OF this]
  have "heaps_ok k s (hs(i := ct_heap_clear (hs i))) (t(i := Leaf))"
    by (rule heaps_step [OF ok]) (use c cmp_kept [OF ok] in \<open>auto simp: same_at_def\<close>)
  then have "heap_models (Q(i := Map.empty)) (k, hs(i := ct_heap_clear (hs i)), s)"
    by (rule heap_modelsI) (auto simp: Q)
  then show ?thesis by simp
qed

lemma heap_move_step:
  assumes ok: "heaps_ok k s hs t" and Q: "Q = (\<lambda>i. tree_keys k (t i))"
    and ij: "i \<noteq> j" and sz: "size (t i) + size (t j) < 2 ^ 32"
  shows "\<exists>st'. heap_exec cb (HMove i j) (k, hs, s) = Some (NULL, st') \<and>
    heap_models (Q(i := Q i ++ Q j, j := Map.empty)) st'"
proof -
  have oki: "heap_ok k s (hs i) (t i)" "heap_ok k s (hs j) (t j)" "set_tree (t i) \<inter> set_tree (t j) = {}"
    using ok ij by (simp_all add: heaps_ok_def)
  obtain dst src s' v where m: "ct_heap_move (hs i) (hs j) s = (dst, src, s')" "heap_ok k s' dst v" "heap_ok k s' src Leaf"
    "set_tree v = set_tree (t i) \<union> set_tree (t j)" "\<forall>x. x \<notin> set_tree v \<longrightarrow> same_at s s' x"
    using heap_move_ok [OF oki sz] by blast
  have "heap_ok k s src Leaf" using m(3) by (simp add: heap_ok_def)
  then have "heaps_ok k s (hs(j := src)) (t(j := Leaf))"
    by (intro heaps_step [OF ok]) (use cmp_kept [OF ok] in \<open>auto simp: same_at_def\<close>)
  note ok1 = this
  have "heaps_ok k s' (hs(i := dst, j := src)) (t(j := Leaf, i := v))"
    by (rule heaps_step [OF ok1])
      (use m ij heap_okD(6) [OF m(3)] cmp_kept [OF ok] in \<open>auto dest: heaps_disj [OF ok]\<close>)
  then have "heap_models (Q(i := Q i ++ Q j, j := Map.empty)) (k, hs(i := dst, j := src), s')"
  proof (rule heap_modelsI)
    show "Q(i := Q i ++ Q j, j := Map.empty) = (\<lambda>a. tree_keys k ((t(j := Leaf, i := v)) a))"
      using m(4) ij by (auto simp: fun_eq_iff Q tree_keys_def map_add_def)
  qed
  then show ?thesis using m(1) by simp
qed

lemma heap_step_ok:
  assumes cb: "\<And>k. cmp_law k (cb k)" and rel: "heap_models Q st" and legal: "pq_legal op Q"
  shows "\<exists>r st' R. heap_exec cb op st = Some (r, st') \<and> pq_step op Q r R \<and> heap_models R st'"
proof -
  obtain k hs s where st: "st = (k, hs, s)" by (cases st)
  then obtain t where t: "heaps_ok k s hs t" "Q = (\<lambda>i. tree_keys k (t i))"
    using rel by (auto simp: heap_models_def)
  have sz: "size (t i) = card (dom (Q i))" for i
    using size_card [of k s "hs i" "t i"] t by (simp add: heaps_ok_def)
  have mem: "n \<in> set_tree (t i) \<longleftrightarrow> Q i n \<noteq> None" for n i by (simp add: t(2) tree_keys_def)
  show ?thesis
  proof (cases op)
    case (HInsert i n v)
    then show ?thesis
      using heap_insert_step [OF cb t, of n i v] legal mem sz pq_step.insert [of i n v Q] by (auto simp: st)
  next
    case (HPop i)
    then show ?thesis using heap_pop_step [OF t] st by blast
  next
    case (HRemove i n)
    then show ?thesis
      using heap_remove_step [OF t, of n i cb] legal mem pq_step.remove [of i n Q] unfolding st by auto
  next
    case (HUpdate i n v)
    then show ?thesis
      using heap_update_step [OF cb t, of n i v] legal mem pq_step.update [of i n v Q] unfolding st by auto
  next
    case (HClear i)
    then show ?thesis using heap_clear_step [OF t, of cb i] pq_step.clear [of i Q] unfolding st by blast
  next
    case (HMove i j)
    then show ?thesis
      using heap_move_step [OF t, of i j cb] legal sz pq_step.move [of i j Q] unfolding st by auto
  qed
qed

text \<open>C27: A program that starts from initialised heaps, any number of them, and inserts only nodes that
  are in no heap, removes or updates a node only in the heap it is in, and moves the content of a heap
  only to another one, always gets an answer, and what it gets is what a map from nodes to keys for
  each heap would give: every pop returns a node with a least key, or \<open>NULL\<close> when there is none, a
  removal or an update works on any node wherever it is in its heap, a move joins two maps and leaves
  the source empty, no operation disturbs another heap, and afterwards the size, the emptiness test and
  the top of every heap agree with its map.  The pointer structure never has to be reset by the
  program: all links are rebuilt by the operations.\<close>

theorem heap_refines_pq:
  assumes "\<And>k. cmp_law k (cb k)" and "heap_models Q st" and "pq_safe ops Q"
  shows "\<exists>rs st' R. heap_run cb ops st = Some (rs, st') \<and> pq_run ops Q rs R \<and> heap_models R st' \<and> heap_seen R st'"
  using assms(2,3)
proof (induction ops arbitrary: Q st)
  case Nil
  then show ?case using heap_models_seen [OF Nil(1)] by (auto intro: pq_run.nil)
next
  case (Cons op ops)
  have "pq_legal op Q" using Cons.prems(2) by simp
  from heap_step_ok [OF assms(1) Cons.prems(1) this]
  obtain r st1 R where 1: "heap_exec cb op st = Some (r, st1)" "pq_step op Q r R" "heap_models R st1" by blast
  then have "pq_safe ops R" using Cons.prems(2) by simp
  from Cons.IH [OF 1(3) this] obtain rs st' L where
    "heap_run cb ops st1 = Some (rs, st')" "pq_run ops R rs L" "heap_models L st'" "heap_seen L st'" by blast
  then show ?case using 1 by (auto intro: pq_run.step)
qed

theorem heap_refines_pq_witness:
  "\<exists>rs st' R. heap_run (\<lambda>k a b. k a - k b) [HInsert 0 1 7, HInsert 0 2 5, HInsert 1 3 9, HUpdate 1 3 1, HMove 0 1, HRemove 0 2, HPop 0]
      (\<lambda>_. 0, \<lambda>_. ct_heap_init (\<lambda>a b. 0), \<lparr>child_hp = \<lambda>_. 0, left_hp = \<lambda>_. 0, right_hp = \<lambda>_. 0\<rparr>) = Some (rs, st') \<and>
    pq_run [HInsert 0 1 7, HInsert 0 2 5, HInsert 1 3 9, HUpdate 1 3 1, HMove 0 1, HRemove 0 2, HPop 0] (\<lambda>_. Map.empty) rs R \<and>
    heap_models R st' \<and> heap_seen R st'"
proof (rule heap_refines_pq)
  show "cmp_law k (\<lambda>a b. k a - k b)" for k :: "addr \<Rightarrow> int" by (simp add: cmp_law_def)
  show "heap_models (\<lambda>_. Map.empty) (\<lambda>_. 0, \<lambda>_. ct_heap_init (\<lambda>a b. 0), \<lparr>child_hp = \<lambda>_. 0, left_hp = \<lambda>_. 0, right_hp = \<lambda>_. 0\<rparr>)"
    by (rule heap_modelsI [where t = "\<lambda>_. Leaf"]) (simp_all add: heaps_ok_def heap_init_ok cmp_law_def)
  show "pq_safe [HInsert 0 1 7, HInsert 0 2 5, HInsert 1 3 9, HUpdate 1 3 1, HMove 0 1, HRemove 0 2, HPop 0] (\<lambda>_. Map.empty)"
    by (auto simp: NULL_def elim!: pq_step.cases)
qed


end
