(* ===== verification/Coter_Pqueue.thy ===== *)
theory Coter_Pqueue
  imports Coter_Vector "HOL-Library.Multiset"
begin

text \<open>
  \<open>container/pqueue.h\<close>, \<open>pqueue.c\<close>: the four-ary heap over a block of equally sized elements.  Byte
  offsets are 32-bit products, as in the code.  The comparison callback is a parameter, and so are
  \<open>realloc\<close> (as for the vectors) and \<open>malloc\<close>, of which only the success matters: the sifts copy one
  element through a temporary and do not test the pointer.
\<close>

section \<open>The code\<close>

record ct_pqueue =
  pq_all :: "u8 list option"
  pq_size :: u32
  pq_cap :: u32
  pq_item_size :: u32
  pq_is_dynamic :: bool

type_synonym ct_compare_cb = "u8 list \<Rightarrow> u8 list \<Rightarrow> int"

definition ct_pqueue_size :: "ct_pqueue \<Rightarrow> u32" where
  "ct_pqueue_size self = pq_size self"

definition ct_pqueue_is_empty :: "ct_pqueue \<Rightarrow> bool" where
  "ct_pqueue_is_empty self \<longleftrightarrow> pq_size self = 0"

definition ct_pqueue_item_size :: "ct_pqueue \<Rightarrow> u16" where
  "ct_pqueue_item_size self = ucast (pq_item_size self)"

definition ct_pqueue_is_dynamic :: "ct_pqueue \<Rightarrow> bool" where
  "ct_pqueue_is_dynamic self = pq_is_dynamic self"

text \<open>The initialiser rounds the element size up to a multiple of four; \<open>None\<close> is the static assertion.\<close>

definition CT_PQUEUE_INIT_FIELDS :: "size_t \<Rightarrow> u8 list option \<Rightarrow> u32 \<Rightarrow> bool \<Rightarrow> ct_pqueue option" where
  "CT_PQUEUE_INIT_FIELDS type_size storage capacity dynamic_flag =
     (if type_size \<le> 512 then
        Some \<lparr>pq_all = storage, pq_size = 0, pq_cap = capacity,
          pq_item_size = ucast ((type_size + 3) AND NOT 3), pq_is_dynamic = dynamic_flag\<rparr>
      else None)"

definition ct_pqueue_init :: "size_t \<Rightarrow> ct_pqueue option" where
  "ct_pqueue_init type_size = CT_PQUEUE_INIT_FIELDS type_size None 0 True"

definition ct_pqueue_init_s :: "size_t \<Rightarrow> u8 list \<Rightarrow> u32 \<Rightarrow> ct_pqueue option" where
  "ct_pqueue_init_s type_size buf cap = CT_PQUEUE_INIT_FIELDS type_size (Some buf) cap False"

text \<open>The element at an index, read and written with \<open>memcpy\<close>.\<close>

definition pq_get :: "ct_pqueue \<Rightarrow> u32 \<Rightarrow> u8 list option" where
  "pq_get self idx =
     do { m \<leftarrow> pq_all self; mem_get m (unat (idx * pq_item_size self)) (unat (pq_item_size self)) }"

definition pq_set :: "ct_pqueue \<Rightarrow> u32 \<Rightarrow> u8 list \<Rightarrow> ct_pqueue option" where
  "pq_set self idx x =
     do { m \<leftarrow> pq_all self; m \<leftarrow> mem_put m (unat (idx * pq_item_size self)) x; Some (self\<lparr>pq_all := Some m\<rparr>) }"

function sift_up_loop :: "ct_compare_cb \<Rightarrow> u8 list \<Rightarrow> ct_pqueue \<Rightarrow> u32 \<Rightarrow> (ct_pqueue \<times> u32) option" where
  "sift_up_loop cmp tmp self idx =
     (if 0 < idx then
        let parent = (idx - 1) div 4 in
        do { p \<leftarrow> pq_get self parent;
             if cmp tmp p \<ge> 0 then Some (self, idx)
             else do { self \<leftarrow> pq_set self idx p; sift_up_loop cmp tmp self parent } }
      else Some (self, idx))"
  by auto

lemma parent_less: "0 < idx \<Longrightarrow> unat ((idx - 1) div 4 :: u32) < unat idx"
proof -
  assume "0 < idx"
  then have "0 < unat idx" by (simp add: word_less_nat_alt)
  moreover from this have "unat (idx - 1) = unat idx - 1" by (subst unat_minus_one) auto
  ultimately show ?thesis by (simp add: unat_div)
qed

termination sift_up_loop
  by (relation "measure (\<lambda>(_, _, _, idx). unat idx)") (simp_all add: parent_less)

definition pqueue_sift_up :: "(size_t \<Rightarrow> bool) \<Rightarrow> ct_compare_cb \<Rightarrow> ct_pqueue \<Rightarrow> u32 \<Rightarrow> ct_pqueue option" where
  "pqueue_sift_up malloc cmp self idx =
     (if malloc (ucast (pq_item_size self)) then
        do { tmp \<leftarrow> pq_get self idx;
             (self, idx) \<leftarrow> sift_up_loop cmp tmp self idx;
             pq_set self idx tmp }
      else None)"

text \<open>One step of the loop over the four children.\<close>

definition child_step :: "ct_compare_cb \<Rightarrow> ct_pqueue \<Rightarrow> u32 \<Rightarrow> u32 \<Rightarrow> u32 \<Rightarrow> u32 option" where
  "child_step cmp self idx i smallest =
     (let child = 4 * idx + i in
      if child \<ge> pq_size self then Some smallest
      else do { c \<leftarrow> pq_get self child; s \<leftarrow> pq_get self smallest;
                Some (if cmp c s < 0 then child else smallest) })"

partial_function (option) sift_down_loop ::
  "ct_compare_cb \<Rightarrow> u8 list \<Rightarrow> ct_pqueue \<Rightarrow> u32 \<Rightarrow> (ct_pqueue \<times> u32) option" where
  "sift_down_loop cmp tmp self idx =
     do { smallest \<leftarrow> child_step cmp self idx 1 idx;
          smallest \<leftarrow> child_step cmp self idx 2 smallest;
          smallest \<leftarrow> child_step cmp self idx 3 smallest;
          smallest \<leftarrow> child_step cmp self idx 4 smallest;
          if smallest = idx then Some (self, idx)
          else do { s \<leftarrow> pq_get self smallest;
                    if cmp tmp s \<le> 0 then Some (self, idx)
                    else do { self \<leftarrow> pq_set self idx s; sift_down_loop cmp tmp self smallest } } }"

declare sift_down_loop.simps [code]

definition pqueue_sift_down :: "(size_t \<Rightarrow> bool) \<Rightarrow> ct_compare_cb \<Rightarrow> ct_pqueue \<Rightarrow> u32 \<Rightarrow> ct_pqueue option" where
  "pqueue_sift_down malloc cmp self idx =
     (if malloc (ucast (pq_item_size self)) then
        do { tmp \<leftarrow> pq_get self idx;
             (self, idx) \<leftarrow> sift_down_loop cmp tmp self idx;
             pq_set self idx tmp }
      else None)"

definition ct_pqueue_destroy :: "ct_pqueue \<Rightarrow> ct_pqueue" where
  "ct_pqueue_destroy self = self\<lparr>pq_all := None, pq_cap := 0, pq_size := 0\<rparr>"

definition ct_pqueue_reserve ::
  "(u8 list option \<Rightarrow> size_t \<Rightarrow> u8 list option) \<Rightarrow> ct_pqueue \<Rightarrow> u32 \<Rightarrow> bool \<times> ct_pqueue" where
  "ct_pqueue_reserve realloc self new_cap =
     (if \<not> pq_is_dynamic self then (False, self)
      else if new_cap \<le> pq_cap self then (True, self)
      else case realloc (pq_all self) (ucast (new_cap * pq_item_size self)) of
          None \<Rightarrow> (False, self)
        | Some p \<Rightarrow> (True, self\<lparr>pq_all := Some p, pq_cap := new_cap\<rparr>))"

definition ct_pqueue_push ::
  "(u8 list option \<Rightarrow> size_t \<Rightarrow> u8 list option) \<Rightarrow> (size_t \<Rightarrow> bool) \<Rightarrow> ct_compare_cb \<Rightarrow> ct_pqueue \<Rightarrow> u8 list \<Rightarrow>
   (bool \<times> ct_pqueue) option" where
  "ct_pqueue_push realloc malloc cmp self data =
     (let (ready, self) =
        (if pq_size self = pq_cap self then
           if \<not> pq_is_dynamic self then (False, self)
           else ct_pqueue_reserve realloc self (if pq_cap self = 0 then 8 else pq_cap self * 2)
         else (True, self)) in
      if \<not> ready then Some (False, self)
      else do {
        x \<leftarrow> mem_get data 0 (unat (pq_item_size self));
        self \<leftarrow> pq_set self (pq_size self) x;
        let idx = pq_size self;
        self \<leftarrow> pqueue_sift_up malloc cmp (self\<lparr>pq_size := pq_size self + 1\<rparr>) idx;
        Some (True, self) })"

definition ct_pqueue_pop ::
  "(size_t \<Rightarrow> bool) \<Rightarrow> ct_compare_cb \<Rightarrow> ct_pqueue \<Rightarrow> (u8 list option \<times> ct_pqueue) option" where
  "ct_pqueue_pop malloc cmp self =
     (if pq_size self = 0 then Some (None, self)
      else do {
        out \<leftarrow> pq_get self 0;
        let self = self\<lparr>pq_size := pq_size self - 1\<rparr>;
        self \<leftarrow> (if pq_size self > 0 then
            do { x \<leftarrow> pq_get self (pq_size self); self \<leftarrow> pq_set self 0 x; pqueue_sift_down malloc cmp self 0 }
          else Some self);
        Some (Some out, self) })"

definition ct_pqueue_top :: "ct_pqueue \<Rightarrow> u8 list option" where
  "ct_pqueue_top self = (if pq_size self = 0 then None else pq_get self 0)"

definition ct_pqueue_clear :: "ct_pqueue \<Rightarrow> ct_pqueue" where
  "ct_pqueue_clear self = self\<lparr>pq_size := 0\<rparr>"

section \<open>The elements of a queue\<close>

definition pq_bytes :: "ct_pqueue \<Rightarrow> u8 list" where
  "pq_bytes self = (case pq_all self of None \<Rightarrow> [] | Some m \<Rightarrow> m)"

abbreviation pq_width :: "ct_pqueue \<Rightarrow> nat" where
  "pq_width self \<equiv> unat (pq_item_size self)"

definition pq_ok :: "ct_pqueue \<Rightarrow> bool" where
  "pq_ok self \<longleftrightarrow> 4 \<le> pq_width self \<and> pq_width self \<le> 512 \<and> unat (pq_size self) \<le> unat (pq_cap self) \<and>
     unat (pq_cap self) * pq_width self \<le> length (pq_bytes self) \<and>
     unat (pq_cap self) * pq_width self < 2 ^ 32"

definition pq_list :: "ct_pqueue \<Rightarrow> u8 list list" where
  "pq_list self = slots (pq_width self) (pq_bytes self) (unat (pq_size self))"

lemma length_pq_list [simp]: "length (pq_list self) = unat (pq_size self)"
  by (simp add: pq_list_def)

lemma pq_offset:
  assumes "pq_ok self" and "unat i < unat (pq_cap self)"
  shows "unat (i * pq_item_size self) = unat i * pq_width self" and "pq_all self = Some (pq_bytes self)"
proof -
  have "unat i * pq_width self \<le> unat (pq_cap self) * pq_width self" using assms(2) by (intro mult_le_mono1) simp
  then have "unat i * pq_width self < 2 ^ 32" using assms(1) unfolding pq_ok_def by linarith
  then show "unat (i * pq_item_size self) = unat i * pq_width self" by (simp add: unat_word_ariths)
  have "0 < unat (pq_cap self) * pq_width self" using assms by (simp add: pq_ok_def)
  then have "pq_bytes self \<noteq> []" using assms(1) unfolding pq_ok_def by (metis list.size(3) not_less)
  then show "pq_all self = Some (pq_bytes self)" by (auto simp: pq_bytes_def split: option.splits)
qed

lemma pq_get_ok:
  assumes "pq_ok self" and "unat i < unat (pq_size self)"
  shows "pq_get self i = Some (pq_list self ! unat i)" and "length (pq_list self ! unat i) = pq_width self"
proof -
  have i: "unat i < unat (pq_cap self)" and b: "unat (pq_cap self) * pq_width self \<le> length (pq_bytes self)"
    using assms by (simp_all add: pq_ok_def)
  show "pq_get self i = Some (pq_list self ! unat i)"
    using pq_offset [OF assms(1) i] slot_get [OF i b] assms(2)
    by (simp add: pq_get_def pq_list_def nth_slots)
  show "length (pq_list self ! unat i) = pq_width self"
    using length_slot [OF i b] assms(2) by (simp add: pq_list_def nth_slots)
qed

definition pq_stored :: "ct_pqueue \<Rightarrow> nat \<Rightarrow> u8 list \<Rightarrow> ct_pqueue \<Rightarrow> bool" where
  "pq_stored self i x self' \<longleftrightarrow> pq_ok self' \<and> pq_list self' = (pq_list self)[i := x] \<and>
     self' = self\<lparr>pq_all := pq_all self'\<rparr>"

lemma pq_set_ok:
  assumes ok: "pq_ok self" and i: "unat i < unat (pq_cap self)" and x: "length x = pq_width self"
  shows "\<exists>self'. pq_set self i x = Some self' \<and> pq_stored self (unat i) x self'"
proof -
  have b: "unat (pq_cap self) * pq_width self \<le> length (pq_bytes self)" using ok by (simp add: pq_ok_def)
  obtain m' where m: "mem_put (pq_bytes self) (unat i * pq_width self) x = Some m'" "length m' = length (pq_bytes self)"
    using slot_put_ex [OF i b x] by blast
  have "unat (pq_size self) * pq_width self \<le> length (pq_bytes self)"
    using ok b unfolding pq_ok_def by (meson le_trans mult_le_mono1)
  then have "slots (pq_width self) m' (unat (pq_size self)) = (pq_list self)[unat i := x]"
    using slots_put [OF m(1) x] by (simp add: pq_list_def)
  moreover have "pq_set self i x = Some (self\<lparr>pq_all := Some m'\<rparr>)"
    using pq_offset [OF ok i] m(1) by (simp add: pq_set_def)
  ultimately show ?thesis
    using ok m(2) by (simp add: pq_stored_def pq_ok_def pq_list_def pq_bytes_def)
qed

lemma pq_storedD:
  assumes "pq_stored self i x self'"
  shows "pq_ok self'" "pq_list self' = (pq_list self)[i := x]" "pq_size self' = pq_size self"
    "pq_cap self' = pq_cap self" "pq_item_size self' = pq_item_size self" "pq_is_dynamic self' = pq_is_dynamic self"
proof -
  show "pq_ok self'" "pq_list self' = (pq_list self)[i := x]" using assms by (simp_all add: pq_stored_def)
  have "self' = self\<lparr>pq_all := pq_all self'\<rparr>" using assms by (simp add: pq_stored_def)
  then show "pq_size self' = pq_size self" "pq_cap self' = pq_cap self" "pq_item_size self' = pq_item_size self"
    "pq_is_dynamic self' = pq_is_dynamic self"
    by (metis ct_pqueue.select_convs ct_pqueue.surjective ct_pqueue.update_convs(1))+
qed

lemma pq_get_resize [simp]: "pq_get (self\<lparr>pq_size := n\<rparr>) i = pq_get self i"
  by (simp add: pq_get_def)

section \<open>The sifts on lists\<close>

text \<open>The hole of the sift is at \<open>i\<close>; the temporary is stored into it at the end.\<close>

function list_up :: "('a \<Rightarrow> 'a \<Rightarrow> int) \<Rightarrow> 'a \<Rightarrow> 'a list \<Rightarrow> nat \<Rightarrow> 'a list" where
  "list_up cmp t xs i =
     (if 0 < i \<and> cmp t (xs ! ((i - 1) div 4)) < 0
      then list_up cmp t (xs[i := xs ! ((i - 1) div 4)]) ((i - 1) div 4) else xs[i := t])"
  by auto
termination by (relation "measure (\<lambda>(_, _, _, i). i)") auto

declare list_up.simps [simp del]

lemma sift_up_list:
  assumes "pq_ok self" and "unat idx < unat (pq_size self)" and "length tmp = pq_width self"
  shows "\<exists>self1 i self'. sift_up_loop cmp tmp self idx = Some (self1, i) \<and> pq_set self1 i tmp = Some self' \<and>
    pq_ok self' \<and> pq_list self' = list_up cmp tmp (pq_list self) (unat idx) \<and> self' = self\<lparr>pq_all := pq_all self'\<rparr>"
  using assms
proof (induction cmp tmp self idx rule: sift_up_loop.induct)
  case (1 cmp tmp self idx)
  let ?p = "(idx - 1) div 4"
  have cap: "unat idx < unat (pq_cap self)" using 1(2,3) by (simp add: pq_ok_def)
  have stop: "\<exists>self'. pq_set self idx tmp = Some self' \<and> pq_ok self' \<and>
      pq_list self' = (pq_list self)[unat idx := tmp] \<and> self' = self\<lparr>pq_all := pq_all self'\<rparr>"
    using pq_set_ok [OF 1(2) cap 1(4)] unfolding pq_stored_def by blast
  show ?case
  proof (cases "0 < idx")
    case False
    then have "\<not> 0 < unat idx" by (simp add: word_less_nat_alt)
    then show ?thesis using stop False by (subst sift_up_loop.simps, subst list_up.simps) simp
  next
    case True
    have i: "0 < unat idx" using True by (simp add: word_less_nat_alt)
    then have "unat (idx - 1) = unat idx - 1" by (subst unat_minus_one) auto
    then have p: "unat ?p = (unat idx - 1) div 4" by (simp add: unat_div)
    then have pl: "unat ?p < unat (pq_size self)" using 1(3) i by simp
    note get = pq_get_ok [OF 1(2) pl]
    show ?thesis
    proof (cases "cmp tmp (pq_list self ! unat ?p) < 0")
      case False
      then show ?thesis using stop True get(1) p i
        by (subst sift_up_loop.simps, subst list_up.simps) (simp add: Let_def)
    next
      case lt: True
      obtain self2 where s2: "pq_set self idx (pq_list self ! unat ?p) = Some self2"
        "pq_stored self (unat idx) (pq_list self ! unat ?p) self2"
        using pq_set_ok [OF 1(2) cap get(2)] by blast
      note st = pq_storedD [OF s2(2)]
      have "unat ?p < unat (pq_size self2)" "length tmp = pq_width self2" using pl 1(4) st by simp_all
      from 1(1) [OF True refl get(1) _ s2(1) st(1) this] lt
      obtain self1 i' self' where IH: "sift_up_loop cmp tmp self2 ?p = Some (self1, i')" "pq_set self1 i' tmp = Some self'"
        "pq_ok self'" "pq_list self' = list_up cmp tmp (pq_list self2) (unat ?p)" "self' = self2\<lparr>pq_all := pq_all self'\<rparr>"
        by (auto simp: not_le)
      have "sift_up_loop cmp tmp self idx = Some (self1, i')"
        using True get(1) lt s2(1) IH(1) by (subst sift_up_loop.simps) (simp add: Let_def)
      moreover have "pq_list self' = list_up cmp tmp (pq_list self) (unat idx)"
        using IH(4) st(2) p i lt by (subst list_up.simps) simp
      moreover have "self' = self\<lparr>pq_all := pq_all self'\<rparr>"
        using IH(5) s2(2) unfolding pq_stored_def
        by (metis ct_pqueue.surjective ct_pqueue.update_convs(1) ct_pqueue.select_convs(1))
      ultimately show ?thesis using IH(2,3) by blast
    qed
  qed
qed

definition better :: "('a \<Rightarrow> 'a \<Rightarrow> int) \<Rightarrow> 'a list \<Rightarrow> nat \<Rightarrow> nat \<Rightarrow> nat" where
  "better cmp xs j s = (if j < length xs \<and> cmp (xs ! j) (xs ! s) < 0 then j else s)"

definition list_child :: "('a \<Rightarrow> 'a \<Rightarrow> int) \<Rightarrow> 'a list \<Rightarrow> nat \<Rightarrow> nat" where
  "list_child cmp xs i =
     better cmp xs (4 * i + 4) (better cmp xs (4 * i + 3) (better cmp xs (4 * i + 2) (better cmp xs (4 * i + 1) i)))"

lemma list_child_bound: "list_child cmp xs i = i \<or> i < list_child cmp xs i \<and> list_child cmp xs i < length xs"
  by (auto simp: list_child_def better_def)

function list_down :: "('a \<Rightarrow> 'a \<Rightarrow> int) \<Rightarrow> 'a \<Rightarrow> 'a list \<Rightarrow> nat \<Rightarrow> 'a list" where
  "list_down cmp t xs i =
     (let j = list_child cmp xs i
      in if j \<noteq> i \<and> 0 < cmp t (xs ! j) then list_down cmp t (xs[i := xs ! j]) j else xs[i := t])"
  by auto
termination
proof (relation "measure (\<lambda>(_, _, xs, i). length xs - i)")
  show "wf (measure (\<lambda>(_ :: 'a \<Rightarrow> 'a \<Rightarrow> int, _ :: 'a, xs :: 'a list, i). length xs - i))" by simp
  fix cmp :: "'a \<Rightarrow> 'a \<Rightarrow> int" and t :: 'a and xs i j
  assume "j = list_child cmp xs i" "j \<noteq> i \<and> 0 < cmp t (xs ! j)"
  then show "((cmp, t, xs[i := xs ! j], j), cmp, t, xs, i) \<in> measure (\<lambda>(_, _, xs, i). length xs - i)"
    using list_child_bound [of cmp xs i] by auto
qed

declare list_down.simps [simp del]

lemma child_step_ok:
  assumes ok: "pq_ok self" and idx: "unat idx < unat (pq_size self)" and sm: "unat smallest < unat (pq_size self)"
    and i: "unat i \<le> 4"
  shows "\<exists>s. child_step cmp self idx i smallest = Some s \<and>
    unat s = better cmp (pq_list self) (4 * unat idx + unat i) (unat smallest) \<and> unat s < unat (pq_size self)"
proof -
  have "unat (pq_cap self) * 4 \<le> unat (pq_cap self) * pq_width self" using ok by (intro mult_le_mono2) (simp add: pq_ok_def)
  then have "unat idx * 4 + 4 < 2 ^ 32" using ok idx unfolding pq_ok_def by linarith
  then have c: "unat (4 * idx + i) = 4 * unat idx + unat i"
    using i by (simp add: unat_word_ariths)
  show ?thesis
  proof (cases "4 * idx + i \<ge> pq_size self")
    case True
    then show ?thesis using sm c by (simp add: child_step_def better_def word_le_nat_alt)
  next
    case False
    then have "unat (4 * idx + i) < unat (pq_size self)" by (simp add: word_le_nat_alt)
    then show ?thesis
      using False sm pq_get_ok(1) [OF ok, of "4 * idx + i"] pq_get_ok(1) [OF ok sm] c
      by (simp add: child_step_def better_def Let_def)
  qed
qed

lemma children_ok:
  assumes ok: "pq_ok self" and idx: "unat idx < unat (pq_size self)"
  obtains s1 s2 s3 s4 where "child_step cmp self idx 1 idx = Some s1" "child_step cmp self idx 2 s1 = Some s2"
    "child_step cmp self idx 3 s2 = Some s3" "child_step cmp self idx 4 s3 = Some s4"
    "unat s4 = list_child cmp (pq_list self) (unat idx)" "unat s4 < unat (pq_size self)"
proof -
  note step = child_step_ok [OF ok idx]
  obtain s1 where 1: "child_step cmp self idx 1 idx = Some s1" "unat s1 = better cmp (pq_list self) (4 * unat idx + 1) (unat idx)"
    "unat s1 < unat (pq_size self)" using step [OF idx, of 1 cmp] by auto
  obtain s2 where 2: "child_step cmp self idx 2 s1 = Some s2" "unat s2 = better cmp (pq_list self) (4 * unat idx + 2) (unat s1)"
    "unat s2 < unat (pq_size self)" using step [OF 1(3), of 2 cmp] by auto
  obtain s3 where 3: "child_step cmp self idx 3 s2 = Some s3" "unat s3 = better cmp (pq_list self) (4 * unat idx + 3) (unat s2)"
    "unat s3 < unat (pq_size self)" using step [OF 2(3), of 3 cmp] by auto
  obtain s4 where 4: "child_step cmp self idx 4 s3 = Some s4" "unat s4 = better cmp (pq_list self) (4 * unat idx + 4) (unat s3)"
    "unat s4 < unat (pq_size self)" using step [OF 3(3), of 4 cmp] by auto
  show thesis
    by (rule that [OF 1(1) 2(1) 3(1) 4(1) _ 4(3)]) (simp only: list_child_def 1(2) 2(2) 3(2) 4(2))
qed

lemma pq_upd_trans: "self2 = self\<lparr>pq_all := a\<rparr> \<Longrightarrow> self' = self2\<lparr>pq_all := b\<rparr> \<Longrightarrow> self' = self\<lparr>pq_all := b\<rparr>"
  by simp

lemma sift_down_list:
  assumes "pq_ok self" and "unat idx < unat (pq_size self)" and "length tmp = pq_width self"
  shows "\<exists>self1 i self'. sift_down_loop cmp tmp self idx = Some (self1, i) \<and> pq_set self1 i tmp = Some self' \<and>
    pq_ok self' \<and> pq_list self' = list_down cmp tmp (pq_list self) (unat idx) \<and> self' = self\<lparr>pq_all := pq_all self'\<rparr>"
  using assms
proof (induction "unat (pq_size self) - unat idx" arbitrary: self idx rule: less_induct)
  case less
  have cap: "unat idx < unat (pq_cap self)" using less(2,3) by (simp add: pq_ok_def)
  obtain s1 s2 s3 s4 where ch: "child_step cmp self idx 1 idx = Some s1" "child_step cmp self idx 2 s1 = Some s2"
    "child_step cmp self idx 3 s2 = Some s3" "child_step cmp self idx 4 s3 = Some s4"
    and j: "unat s4 = list_child cmp (pq_list self) (unat idx)" "unat s4 < unat (pq_size self)"
    using children_ok [OF less(2,3)] by metis
  have eq: "s4 = idx \<longleftrightarrow> unat s4 = unat idx" by (simp add: word_unat_eq_iff)
  have stop: "\<exists>self'. pq_set self idx tmp = Some self' \<and> pq_ok self' \<and>
      pq_list self' = (pq_list self)[unat idx := tmp] \<and> self' = self\<lparr>pq_all := pq_all self'\<rparr>"
    using pq_set_ok [OF less(2) cap less(4)] unfolding pq_stored_def by blast
  note get = pq_get_ok [OF less(2) j(2)]
  show ?case
  proof (cases "s4 \<noteq> idx \<and> 0 < cmp tmp (pq_list self ! unat s4)")
    case False
    then have "sift_down_loop cmp tmp self idx = Some (self, idx)"
      using ch get(1) by (subst sift_down_loop.simps) auto
    moreover have "list_down cmp tmp (pq_list self) (unat idx) = (pq_list self)[unat idx := tmp]"
      using False j(1) eq by (subst list_down.simps) (auto simp: Let_def)
    ultimately show ?thesis using stop by auto
  next
    case True
    obtain self2 where s2: "pq_set self idx (pq_list self ! unat s4) = Some self2"
      "pq_stored self (unat idx) (pq_list self ! unat s4) self2"
      using pq_set_ok [OF less(2) cap get(2)] by blast
    note st = pq_storedD [OF s2(2)]
    have "unat idx < unat s4" using True eq j(1) list_child_bound [of cmp "pq_list self" "unat idx"] by auto
    then have "unat (pq_size self2) - unat s4 < unat (pq_size self) - unat idx" using j(2) st(3) by simp
    from less(1) [OF this st(1)] j(2) less(4) st
    obtain self1 i' self' where IH: "sift_down_loop cmp tmp self2 s4 = Some (self1, i')" "pq_set self1 i' tmp = Some self'"
      "pq_ok self'" "pq_list self' = list_down cmp tmp (pq_list self2) (unat s4)" "self' = self2\<lparr>pq_all := pq_all self'\<rparr>"
      by auto
    have "sift_down_loop cmp tmp self idx = Some (self1, i')"
      using True ch get(1) s2(1) IH(1) by (subst sift_down_loop.simps) (simp add: not_le)
    moreover have "pq_list self' = list_down cmp tmp (pq_list self) (unat idx)"
      using IH(4) st(2) j(1) True eq by (subst list_down.simps) (simp add: Let_def)
    moreover have "self' = self\<lparr>pq_all := pq_all self'\<rparr>"
      using s2(2) IH(5) unfolding pq_stored_def by (metis pq_upd_trans)
    ultimately show ?thesis using IH(2,3) by blast
  qed
qed

section \<open>Contents and order\<close>

lemma mset_move:
  assumes "i < length xs" "j < length xs"
  shows "mset (xs[i := xs ! j, j := t]) = mset (xs[i := t])"
proof (cases "i = j")
  case False
  let ?a = "xs[i := t]"
  have e: "xs[i := xs ! j, j := t] = ?a[i := ?a ! j, j := ?a ! i]" using False assms by simp
  have "i < length ?a" "j < length ?a" using assms by simp_all
  then show ?thesis unfolding e by (intro mset_swap)
qed simp

lemma mset_list_up: "i < length xs \<Longrightarrow> mset (list_up cmp t xs i) = mset (xs[i := t])"
proof (induction cmp t xs i rule: list_up.induct)
  case (1 cmp t xs i)
  let ?p = "(i - 1) div 4"
  show ?case
  proof (cases "0 < i \<and> cmp t (xs ! ?p) < 0")
    case True
    then have "mset (list_up cmp t xs i) = mset (xs[i := xs ! ?p, ?p := t])"
      using 1 by (subst list_up.simps) simp
    then show ?thesis using mset_move [of i xs ?p t] 1(2) by simp
  next
    case False
    then show ?thesis by (subst list_up.simps) auto
  qed
qed

lemma mset_list_down: "i < length xs \<Longrightarrow> mset (list_down cmp t xs i) = mset (xs[i := t])"
proof (induction cmp t xs i rule: list_down.induct)
  case (1 cmp t xs i)
  let ?j = "list_child cmp xs i"
  have j: "?j < length xs" using list_child_bound [of cmp xs i] 1(2) by auto
  show ?case
  proof (cases "?j \<noteq> i \<and> 0 < cmp t (xs ! ?j)")
    case True
    then have "mset (list_down cmp t xs i) = mset (xs[i := xs ! ?j, ?j := t])"
      using 1 j by (subst list_down.simps) (simp add: Let_def)
    then show ?thesis using mset_move [of i xs ?j t] 1(2) j by simp
  next
    case False
    then show ?thesis by (subst list_down.simps) (auto simp: Let_def)
  qed
qed

lemma length_list_up [simp]: "length (list_up cmp t xs i) = length xs"
proof (induction cmp t xs i rule: list_up.induct)
  case (1 cmp t xs i)
  then show ?case by (subst list_up.simps) simp
qed

text \<open>The order the queue keeps: no element comes before its parent.\<close>

definition ordered4 :: "('a \<Rightarrow> int) \<Rightarrow> 'a list \<Rightarrow> bool" where
  "ordered4 key xs \<longleftrightarrow> (\<forall>i. 0 < i \<and> i < length xs \<longrightarrow> key (xs ! ((i - 1) div 4)) \<le> key (xs ! i))"

definition key_cmp :: "('a \<Rightarrow> int) \<Rightarrow> ('a \<Rightarrow> 'a \<Rightarrow> int) \<Rightarrow> bool" where
  "key_cmp key cmp \<longleftrightarrow> (\<forall>a b. (cmp a b < 0 \<longleftrightarrow> key a < key b) \<and> (0 < cmp a b \<longleftrightarrow> key b < key a))"

lemma list_up_ordered:
  "key_cmp key cmp \<Longrightarrow> i < length xs \<Longrightarrow>
   \<forall>c. 0 < c \<and> c < length xs \<and> c \<noteq> i \<and> (c - 1) div 4 \<noteq> i \<longrightarrow> key (xs ! ((c - 1) div 4)) \<le> key (xs ! c) \<Longrightarrow>
   \<forall>c. 0 < c \<and> c < length xs \<and> (c - 1) div 4 = i \<longrightarrow> key t \<le> key (xs ! c) \<and>
     (0 < i \<longrightarrow> key (xs ! ((i - 1) div 4)) \<le> key (xs ! c)) \<Longrightarrow>
   ordered4 key (list_up cmp t xs i)"
proof (induction cmp t xs i rule: list_up.induct)
  case (1 cmp t xs i)
  let ?p = "(i - 1) div 4"
  show ?case
  proof (cases "0 < i \<and> cmp t (xs ! ?p) < 0")
    case True
    then have lt: "key t < key (xs ! ?p)" "?p < i" using 1(2) by (auto simp: key_cmp_def)
    let ?xs = "xs[i := xs ! ?p]"
    have "ordered4 key (list_up cmp t ?xs ?p)"
    proof (rule 1(1) [OF True 1(2)])
      show "?p < length ?xs" using lt 1(3) by simp
      show "\<forall>c. 0 < c \<and> c < length ?xs \<and> c \<noteq> ?p \<and> (c - 1) div 4 \<noteq> ?p \<longrightarrow>
          key (?xs ! ((c - 1) div 4)) \<le> key (?xs ! c)"
        using 1(3,4,5) True by (auto simp: nth_list_update)
      show "\<forall>c. 0 < c \<and> c < length ?xs \<and> (c - 1) div 4 = ?p \<longrightarrow> key t \<le> key (?xs ! c) \<and>
          (0 < ?p \<longrightarrow> key (?xs ! ((?p - 1) div 4)) \<le> key (?xs ! c))"
      proof (intro allI impI conjI)
        fix c assume c: "0 < c \<and> c < length ?xs \<and> (c - 1) div 4 = ?p"
        have pc: "key (xs ! ?p) \<le> key (?xs ! c)"
          using 1(3,4) c lt(2) by (cases "c = i") auto
        then show "key t \<le> key (?xs ! c)" using lt(1) by linarith
        assume p: "0 < ?p"
        then have "(?p - 1) div 4 < ?p" by linarith
        then have "(?p - 1) div 4 \<noteq> i" "?p \<noteq> i" "?p < length xs" using lt(2) 1(3) by linarith+
        then have "key (xs ! ((?p - 1) div 4)) \<le> key (xs ! ?p)" using 1(4) p by blast
        then show "key (?xs ! ((?p - 1) div 4)) \<le> key (?xs ! c)"
          using pc \<open>(?p - 1) div 4 \<noteq> i\<close> by simp
      qed
    qed
    then show ?thesis using True by (subst list_up.simps) simp
  next
    case False
    then have "0 < i \<Longrightarrow> key (xs ! ?p) \<le> key t" using 1(2) unfolding key_cmp_def by (meson not_less)
    then show ?thesis using False 1(3,4,5)
      by (subst list_up.simps) (auto simp: ordered4_def nth_list_update)
  qed
qed

section \<open>The operations\<close>

lemma pq_reserve_ok:
  assumes ok: "pq_ok self" and re: "realloc_ok f" and fits: "unat n * pq_width self < 2 ^ 32"
    and r: "ct_pqueue_reserve f self n = (b, self')"
  shows "pq_ok self' \<and> pq_list self' = pq_list self \<and> pq_size self' = pq_size self \<and>
    pq_item_size self' = pq_item_size self \<and> pq_is_dynamic self' = pq_is_dynamic self \<and>
    (b \<longrightarrow> n \<le> pq_cap self') \<and> (\<not> b \<longrightarrow> self' = self)"
proof (cases "pq_is_dynamic self \<and> \<not> n \<le> pq_cap self \<and> b")
  case False
  then show ?thesis using ok r
    by (auto simp: ct_pqueue_reserve_def split: if_splits option.splits)
next
  case True
  then obtain p where p: "f (pq_all self) (ucast (n * pq_item_size self)) = Some p" "self' = self\<lparr>pq_all := Some p, pq_cap := n\<rparr>"
    using r by (auto simp: ct_pqueue_reserve_def split: if_splits option.splits)
  have "unat (n * pq_item_size self) = unat n * pq_width self" using fits by (simp add: unat_word_ariths)
  then have sz: "unat (ucast (n * pq_item_size self) :: u64) = unat n * pq_width self"
    by (simp add: unat_ucast_up)
  have lp: "length p = unat n * pq_width self"
    and pre: "\<And>old k. pq_all self = Some old \<Longrightarrow> k \<le> length old \<Longrightarrow> k \<le> length p \<Longrightarrow> take k p = take k old"
    using re p(1) sz unfolding realloc_ok_def by auto
  have grow: "unat (pq_cap self) \<le> unat n" using True by (simp add: word_le_nat_alt)
  let ?k = "unat (pq_size self) * pq_width self"
  have k: "?k \<le> unat (pq_cap self) * pq_width self" "unat (pq_cap self) * pq_width self \<le> length p"
    using ok grow lp by (simp_all add: pq_ok_def)
  have "take ?k p = take ?k (pq_bytes self)"
  proof (cases "pq_all self")
    case None
    then have "?k = 0" using ok k by (auto simp: pq_ok_def pq_bytes_def)
    then show ?thesis by (simp only: take_0)
  next
    case (Some old)
    have "unat (pq_cap self) * pq_width self \<le> length old" using ok Some by (simp add: pq_ok_def pq_bytes_def)
    then have "?k \<le> length old" using k(1) by (rule le_trans [rotated])
    then show ?thesis using pre [OF Some, of ?k] k Some by (simp add: pq_bytes_def)
  qed
  then have "pq_list self' = pq_list self"
    using slots_prefix [of "unat (pq_size self)" "pq_width self" p "pq_bytes self"] p(2)
    by (simp add: pq_list_def pq_bytes_def)
  moreover have "pq_ok self'" using ok p(2) lp grow fits by (simp add: pq_ok_def pq_bytes_def)
  ultimately show ?thesis using p(2) True by simp
qed

text \<open>Storing behind the last element and sifting it up.\<close>

lemma pq_append_ok:
  assumes ok: "pq_ok self" and room: "unat (pq_size self) < unat (pq_cap self)" and x: "length x = pq_width self"
    and malloc: "malloc (ucast (pq_item_size self))"
  shows "\<exists>self1 self'. pq_set self (pq_size self) x = Some self1 \<and> pq_size self1 = pq_size self \<and>
    pqueue_sift_up malloc cmp (self1\<lparr>pq_size := pq_size self + 1\<rparr>) (pq_size self) = Some self' \<and> pq_ok self' \<and>
    pq_list self' = list_up cmp x (pq_list self @ [x]) (unat (pq_size self)) \<and>
    pq_size self' = pq_size self + 1 \<and> pq_cap self' = pq_cap self \<and> pq_item_size self' = pq_item_size self \<and>
    pq_is_dynamic self' = pq_is_dynamic self"
proof -
  let ?n = "pq_size self" and ?big = "self\<lparr>pq_size := pq_size self + 1\<rparr>"
  have n1: "unat (?n + 1) = unat ?n + 1"
    using room unat_lt_pow [of "pq_cap self"] by (subst unat_plus_lt) simp_all
  have okb: "pq_ok ?big" using ok room n1 by (simp add: pq_ok_def pq_bytes_def)
  have lb: "pq_list ?big = pq_list self @ [slot (pq_width self) (pq_bytes self) (unat ?n)]"
    using n1 by (simp add: pq_list_def pq_bytes_def slots_Suc)
  have "unat ?n < unat (pq_cap ?big)" "length x = pq_width ?big" using room x by simp_all
  from pq_set_ok [OF okb this] obtain self2 where s2: "pq_set ?big ?n x = Some self2" "pq_stored ?big (unat ?n) x self2"
    by blast
  note st = pq_storedD [OF s2(2)]
  obtain self1 where s1: "pq_set self ?n x = Some self1" "self2 = self1\<lparr>pq_size := ?n + 1\<rparr>" "pq_size self1 = ?n"
    using s2(1) by (auto simp: pq_set_def split: Option.bind_splits)
  have l2: "pq_list self2 = pq_list self @ [x]" using st(2) lb by (simp add: list_update_append)
  have "unat ?n < unat (pq_size self2)" "length x = pq_width self2" using st n1 x by simp_all
  from sift_up_list [OF st(1) this, of cmp] obtain a i self' where up: "sift_up_loop cmp x self2 ?n = Some (a, i)"
    "pq_set a i x = Some self'" "pq_ok self'" "pq_list self' = list_up cmp x (pq_list self2) (unat ?n)"
    "self' = self2\<lparr>pq_all := pq_all self'\<rparr>" by blast
  have "pq_get self2 ?n = Some x"
    using pq_get_ok(1) [OF st(1), of ?n] st(3) n1 l2 by (simp add: nth_append)
  then have "pqueue_sift_up malloc cmp self2 ?n = Some self'"
    using up(1,2) malloc st(5) by (simp add: pqueue_sift_up_def)
  moreover have "pq_size self' = pq_size self2 \<and> pq_cap self' = pq_cap self2 \<and> pq_item_size self' = pq_item_size self2 \<and> pq_is_dynamic self' = pq_is_dynamic self2"
    by (subst up(5), subst up(5), subst up(5), subst up(5)) simp
  ultimately show ?thesis using s1 up(3,4) l2 st by auto
qed

text \<open>Growing must not wrap the 32-bit byte count.\<close>

definition pq_can_grow :: "ct_pqueue \<Rightarrow> bool" where
  "pq_can_grow self \<longleftrightarrow> pq_size self < pq_cap self \<or> \<not> pq_is_dynamic self \<or>
     2 * unat (pq_cap self) * pq_width self < 2 ^ 32"

lemma pq_push_ok:
  assumes ok: "pq_ok self" and re: "realloc_ok f" and malloc: "malloc (ucast (pq_item_size self))"
    and grow: "pq_can_grow self" and d: "pq_width self \<le> length data"
  shows "\<exists>b self'. ct_pqueue_push f malloc cmp self data = Some (b, self') \<and> pq_ok self' \<and>
    pq_item_size self' = pq_item_size self \<and> pq_is_dynamic self' = pq_is_dynamic self \<and>
    (b \<longrightarrow> pq_list self' = list_up cmp (take (pq_width self) data) (pq_list self @ [take (pq_width self) data]) (unat (pq_size self))) \<and>
    (\<not> b \<longrightarrow> self' = self) \<and>
    (\<not> pq_is_dynamic self \<longrightarrow> b = (pq_size self < pq_cap self) \<and> pq_cap self' = pq_cap self)"
proof -
  let ?x = "take (pq_width self) data"
  define ready where "ready = (if pq_size self = pq_cap self then
       if \<not> pq_is_dynamic self then (False, self)
       else ct_pqueue_reserve f self (if pq_cap self = 0 then 8 else pq_cap self * 2)
     else (True, self))"
  obtain b self1 where r: "ready = (b, self1)" by (cases ready)
  have same: "pq_ok self1 \<and> pq_list self1 = pq_list self \<and> pq_size self1 = pq_size self \<and>
      pq_item_size self1 = pq_item_size self \<and> pq_is_dynamic self1 = pq_is_dynamic self \<and>
      (b \<longrightarrow> pq_size self < pq_cap self1) \<and> (\<not> b \<longrightarrow> self1 = self) \<and>
      (\<not> pq_is_dynamic self \<longrightarrow> b = (pq_size self < pq_cap self) \<and> self1 = self)"
  proof (cases "pq_size self = pq_cap self \<and> pq_is_dynamic self")
    case False
    moreover have "pq_size self \<le> pq_cap self" using ok by (simp add: pq_ok_def word_le_nat_alt)
    ultimately show ?thesis using r ok by (auto simp: ready_def split: if_splits)
  next
    case True
    let ?n = "if pq_cap self = 0 then 8 else pq_cap self * 2"
    have w: "4 \<le> pq_width self" "pq_width self \<le> 512" using ok by (simp_all add: pq_ok_def)
    have two: "2 * unat (pq_cap self) * pq_width self < 2 ^ 32" using grow True by (simp add: pq_can_grow_def)
    then have "2 * unat (pq_cap self) * 4 < 2 ^ 32" using w(1) by (meson le_less_trans mult_le_mono2)
    then have n2: "unat (pq_cap self * 2) = 2 * unat (pq_cap self)" by (simp add: unat_word_ariths)
    have "unat ?n * pq_width self < 2 ^ 32"
    proof (cases "pq_cap self = 0")
      case False
      then show ?thesis using two n2 by simp
    qed (use w in simp)
    moreover have "ct_pqueue_reserve f self ?n = (b, self1)" using r True by (simp add: ready_def)
    moreover have "pq_cap self < ?n"
    proof (cases "pq_cap self = 0")
      case False
      then have "0 < unat (pq_cap self)" by (simp add: word_neq_0_conv word_less_nat_alt)
      then show ?thesis using False n2 by (simp add: word_less_nat_alt)
    qed simp
    ultimately show ?thesis using pq_reserve_ok [OF ok re, of ?n b self1] True by auto
  qed
  show ?thesis
  proof (cases b)
    case False
    then have "ct_pqueue_push f malloc cmp self data = Some (False, self)"
      using r same by (simp add: ct_pqueue_push_def ready_def [symmetric])
    then show ?thesis using ok same False by blast
  next
    case True
    then have room: "unat (pq_size self1) < unat (pq_cap self1)" using same by (simp add: word_less_nat_alt)
    have okx: "pq_ok self1" "length ?x = pq_width self1" using same d by simp_all
    obtain self2 self' where p: "pq_set self1 (pq_size self1) ?x = Some self2" "pq_size self2 = pq_size self1"
      "pqueue_sift_up malloc cmp (self2\<lparr>pq_size := pq_size self1 + 1\<rparr>) (pq_size self1) = Some self'"
      "pq_ok self'" "pq_list self' = list_up cmp ?x (pq_list self1 @ [?x]) (unat (pq_size self1))"
      "pq_item_size self' = pq_item_size self1" "pq_is_dynamic self' = pq_is_dynamic self1" "pq_cap self' = pq_cap self1"
      using pq_append_ok [OF okx(1) room okx(2), of malloc cmp] malloc same by auto
    have "mem_get data 0 (pq_width self) = Some ?x" using d by (simp add: mem_get_ok)
    then have push: "ct_pqueue_push f malloc cmp self data = Some (True, self')"
      using r True same p by (simp add: ct_pqueue_push_def ready_def [symmetric] Let_def)
    have "\<not> pq_is_dynamic self \<longrightarrow> pq_size self < pq_cap self \<and> self1 = self" using same True by simp
    then show ?thesis using push p same True by auto
  qed
qed

lemma pq_pop_ok:
  assumes ok: "pq_ok self" and malloc: "1 < pq_size self \<longrightarrow> malloc (ucast (pq_item_size self))"
  shows "\<exists>out self'. ct_pqueue_pop malloc cmp self = Some (out, self') \<and> pq_ok self' \<and>
    pq_item_size self' = pq_item_size self \<and> pq_is_dynamic self' = pq_is_dynamic self \<and> pq_cap self' = pq_cap self \<and>
    (case pq_list self of [] \<Rightarrow> out = None \<and> self' = self
     | x # xs \<Rightarrow> out = Some x \<and> mset (pq_list self') = mset xs \<and> length x = pq_width self)"
proof (cases "pq_size self = 0")
  case True
  then have "pq_list self = []" by (simp add: pq_list_def slots_def)
  then show ?thesis using ok True by (simp add: ct_pqueue_pop_def)
next
  case False
  then have n0: "0 < unat (pq_size self)" by (simp add: word_neq_0_conv word_less_nat_alt)
  let ?n = "pq_size self - 1" and ?s = "self\<lparr>pq_size := pq_size self - 1\<rparr>"
  have n1: "unat ?n = unat (pq_size self) - 1" using n0 by (subst unat_minus_one) auto
  obtain x xs where xs: "pq_list self = x # xs" using n0 length_pq_list [of self] by (cases "pq_list self") auto
  have g0: "pq_get self 0 = Some x" "length x = pq_width self"
    using pq_get_ok [OF ok, of 0] n0 xs by simp_all
  have "unat (pq_size self) - Suc 0 \<le> unat (pq_cap self)" using ok unfolding pq_ok_def by linarith
  then have oks: "pq_ok ?s" using ok n1 by (simp add: pq_ok_def pq_bytes_def)
  have ls: "pq_list ?s = butlast (x # xs)"
  proof -
    have "pq_list ?s = take (unat (pq_size self) - 1) (pq_list self)"
      using take_slots [of "unat ?n" "unat (pq_size self)" "pq_width self" "pq_bytes self"] n1
      by (simp add: pq_list_def pq_bytes_def)
    then show ?thesis using xs length_pq_list [of self] by (simp add: butlast_conv_take)
  qed
  show ?thesis
  proof (cases "0 < ?n")
    case F: False
    then have "unat (pq_size self) = 1" using n1 n0 by (simp add: word_less_nat_alt)
    then have "xs = []" using length_pq_list [of self] xs by simp
    then show ?thesis using False F g0 oks ls xs by (simp add: ct_pqueue_pop_def)
  next
    case True
    have un: "unat ?n < unat (pq_size self)" "0 < unat ?n" using n1 n0 True by (simp_all add: word_less_nat_alt)
    have "1 < pq_size self" using un n1 by (simp add: word_less_nat_alt)
    then have ma: "malloc (ucast (pq_item_size self))" using malloc by blast
    let ?z = "pq_list self ! unat ?n"
    have gz: "pq_get ?s ?n = Some ?z" "length ?z = pq_width ?s"
      using pq_get_ok [OF ok un(1)] by simp_all
    have "unat (0 :: u32) < unat (pq_cap ?s)" using oks un by (simp add: pq_ok_def)
    from pq_set_ok [OF oks this gz(2)] obtain self2 where s2: "pq_set ?s 0 ?z = Some self2" "pq_stored ?s 0 ?z self2"
      by auto
    note st = pq_storedD [OF s2(2)]
    have i0: "unat (0 :: u32) < unat (pq_size self2)" "length ?z = pq_width self2" using st gz(2) un by simp_all
    from sift_down_list [OF st(1) i0, of cmp] obtain a i self' where dn: "sift_down_loop cmp ?z self2 0 = Some (a, i)"
      "pq_set a i ?z = Some self'" "pq_ok self'" "pq_list self' = list_down cmp ?z (pq_list self2) 0"
      "self' = self2\<lparr>pq_all := pq_all self'\<rparr>" by auto
    have l2: "pq_list self2 = (butlast (x # xs))[0 := ?z]" using st(2) ls by simp
    have nn: "xs \<noteq> []" using un n1 length_pq_list [of self] xs by auto
    then obtain ys y where ys: "xs = ys @ [y]" by (cases xs rule: rev_cases) auto
    have zy: "?z = y"
    proof -
      have "unat ?n = length (x # ys)" using n1 length_pq_list [of self] xs ys by simp
      then show ?thesis using xs ys by (simp add: nth_append)
    qed
    have l2': "pq_list self2 = y # ys" using l2 zy ys by simp
    have "pq_get self2 0 = Some ?z" using pq_get_ok(1) [OF st(1) i0(1)] l2' zy by simp
    then have "pqueue_sift_down malloc cmp self2 0 = Some self'"
      using dn(1,2) ma st(5) by (simp add: pqueue_sift_down_def)
    then have "ct_pqueue_pop malloc cmp self = Some (Some x, self')"
      using False True g0 gz(1) s2(1) by (simp add: ct_pqueue_pop_def)
    moreover have "mset (pq_list self') = mset xs"
      using mset_list_down [of 0 "pq_list self2" cmp ?z] dn(4) l2' zy ys by simp
    moreover have "pq_item_size self' = pq_item_size self \<and> pq_is_dynamic self' = pq_is_dynamic self \<and>
        pq_cap self' = pq_cap self"
      using st by (subst dn(5), subst dn(5), subst dn(5)) simp
    ultimately show ?thesis using dn(3) g0(2) xs by simp
  qed
qed

text \<open>Without memory for the temporary, a sift copies through a \<open>NULL\<close> pointer.\<close>

lemma pq_push_undefined:
  assumes "pq_size self < pq_cap self" and "\<not> malloc (ucast (pq_item_size self))"
  shows "ct_pqueue_push f malloc cmp self data = None"
proof -
  have "pq_item_size a = pq_item_size self" if "pq_set self i x = Some a" for a i x
    using that by (auto simp: pq_set_def split: Option.bind_splits)
  with assms show ?thesis
    by (auto simp: ct_pqueue_push_def pqueue_sift_up_def Let_def split: Option.bind_splits)
qed

lemma pq_pop_undefined:
  assumes "1 < pq_size self" and "\<not> malloc (ucast (pq_item_size self))"
  shows "ct_pqueue_pop malloc cmp self = None"
proof -
  have "pq_item_size a = pq_item_size self" if "pq_set (self\<lparr>pq_size := n\<rparr>) i x = Some a" for a i x n
    using that by (auto simp: pq_set_def split: Option.bind_splits)
  note item = this
  have "1 < unat (pq_size self)" using assms(1) by (simp add: word_less_nat_alt)
  moreover from this have "unat (pq_size self - 1) = unat (pq_size self) - 1" by (subst unat_minus_one) auto
  ultimately have "pq_size self \<noteq> 0" "0 < pq_size self - 1" by (auto simp: word_less_nat_alt)
  with item show ?thesis using assms(2)
    by (auto simp: ct_pqueue_pop_def pqueue_sift_down_def Let_def split: Option.bind_splits)
qed

section \<open>Programs\<close>

datatype pq_op = PPush "u8 list" | PPop

text \<open>Running operations; the outputs are the success of a push and the element a pop hands out.  An
  operation calls \<open>malloc\<close> at most once; \<open>ms i\<close> is what it answers in the \<open>i\<close>-th operation.\<close>

fun pq_run_ops ::
  "(u8 list option \<Rightarrow> size_t \<Rightarrow> u8 list option) \<Rightarrow> (nat \<Rightarrow> size_t \<Rightarrow> bool) \<Rightarrow> ct_compare_cb \<Rightarrow> pq_op list \<Rightarrow> ct_pqueue \<Rightarrow>
   ((bool + u8 list option) list \<times> ct_pqueue) option" where
  "pq_run_ops f ms cmp [] self = Some ([], self)"
| "pq_run_ops f ms cmp (PPush x # ops) self =
     do { (b, self) \<leftarrow> ct_pqueue_push f (ms 0) cmp self x;
          (rs, self) \<leftarrow> pq_run_ops f (ms \<circ> Suc) cmp ops self; Some (Inl b # rs, self) }"
| "pq_run_ops f ms cmp (PPop # ops) self =
     do { (out, self) \<leftarrow> ct_pqueue_pop (ms 0) cmp self;
          (rs, self) \<leftarrow> pq_run_ops f (ms \<circ> Suc) cmp ops self; Some (Inr out # rs, self) }"

text \<open>Whether an operation of a program has to sift when \<open>malloc\<close> fails.  In a queue of \<open>n\<close> elements
  with room for \<open>c\<close> every push that finds room sifts, and every pop that leaves an element.\<close>

fun sift_fails :: "(nat \<Rightarrow> bool) \<Rightarrow> nat \<Rightarrow> nat \<Rightarrow> pq_op list \<Rightarrow> bool" where
  "sift_fails m c n [] \<longleftrightarrow> False"
| "sift_fails m c n (PPush x # ops) \<longleftrightarrow>
     (if n < c then \<not> m 0 \<or> sift_fails (m \<circ> Suc) c (n + 1) ops else sift_fails (m \<circ> Suc) c n ops)"
| "sift_fails m c n (PPop # ops) \<longleftrightarrow> 1 < n \<and> \<not> m 0 \<or> sift_fails (m \<circ> Suc) c (n - 1) ops"

text \<open>The elements stored and handed out by a run.\<close>

fun pq_stored_elems :: "nat \<Rightarrow> pq_op list \<Rightarrow> (bool + u8 list option) list \<Rightarrow> u8 list multiset" where
  "pq_stored_elems w (PPush x # ops) (Inl True # rs) = add_mset (take w x) (pq_stored_elems w ops rs)"
| "pq_stored_elems w (_ # ops) (_ # rs) = pq_stored_elems w ops rs"
| "pq_stored_elems w _ _ = {#}"

fun pq_handed_out :: "(bool + u8 list option) list \<Rightarrow> u8 list multiset" where
  "pq_handed_out [] = {#}"
| "pq_handed_out (Inr (Some x) # rs) = add_mset x (pq_handed_out rs)"
| "pq_handed_out (_ # rs) = pq_handed_out rs"

definition pq_fixed :: "nat \<Rightarrow> ct_pqueue \<Rightarrow> bool" where
  "pq_fixed w self \<longleftrightarrow> pq_ok self \<and> \<not> pq_is_dynamic self \<and> pq_width self = w"

text \<open>One operation on a queue over storage of the caller.\<close>

lemma pq_item_of_nat: "pq_width self = w \<Longrightarrow> ucast (pq_item_size self) = (of_nat w :: size_t)"
  by auto

lemma pq_fixed_push:
  assumes fx: "pq_fixed w self" and re: "realloc_ok f" and x: "w \<le> length x"
    and m: "unat (pq_size self) < unat (pq_cap self) \<longrightarrow> malloc (of_nat w)"
  shows "\<exists>b self'. ct_pqueue_push f malloc cmp self x = Some (b, self') \<and> pq_fixed w self' \<and> pq_cap self' = pq_cap self \<and>
    b = (unat (pq_size self) < unat (pq_cap self)) \<and>
    unat (pq_size self') = unat (pq_size self) + (if b then 1 else 0) \<and>
    mset (pq_list self') = (if b then add_mset (take w x) (mset (pq_list self)) else mset (pq_list self))"
proof (cases "unat (pq_size self) < unat (pq_cap self)")
  case False
  have "pq_size self = pq_cap self" using fx False by (simp add: pq_fixed_def pq_ok_def word_unat_eq_iff)
  then have "ct_pqueue_push f malloc cmp self x = Some (False, self)"
    using fx by (simp add: ct_pqueue_push_def pq_fixed_def)
  with False fx show ?thesis by simp
next
  case True
  have ok: "pq_ok self" "\<not> pq_is_dynamic self" "pq_width self = w" using fx by (simp_all add: pq_fixed_def)
  have "malloc (ucast (pq_item_size self))" using m True pq_item_of_nat [OF ok(3)] by simp
  moreover have "pq_can_grow self" "pq_width self \<le> length x" using ok x by (simp_all add: pq_can_grow_def)
  ultimately obtain b self1 where
    p: "ct_pqueue_push f malloc cmp self x = Some (b, self1)" "pq_ok self1" "pq_item_size self1 = pq_item_size self"
      "pq_is_dynamic self1 = pq_is_dynamic self"
      "b \<longrightarrow> pq_list self1 = list_up cmp (take w x) (pq_list self @ [take w x]) (unat (pq_size self))"
      "b" "pq_cap self1 = pq_cap self"
    using pq_push_ok [OF ok(1) re, of malloc x cmp] ok(2) True unfolding ok(3) by (auto simp: word_less_nat_alt)
  have l: "pq_list self1 = list_up cmp (take w x) (pq_list self @ [take w x]) (length (pq_list self))" using p(5,6) by simp
  then have "mset (pq_list self1) = mset ((pq_list self @ [take w x])[length (pq_list self) := take w x])"
    by (simp only:) (rule mset_list_up, simp)
  then have "mset (pq_list self1) = add_mset (take w x) (mset (pq_list self))"
    by (simp only: list_update_length) simp
  moreover have "unat (pq_size self1) = unat (pq_size self) + 1"
    using arg_cong [OF l, of length] by simp
  moreover have "pq_fixed w self1" using p ok by (simp add: pq_fixed_def)
  ultimately show ?thesis using p True by auto
qed

lemma pq_fixed_pop:
  assumes fx: "pq_fixed w self" and m: "1 < unat (pq_size self) \<longrightarrow> malloc (of_nat w)"
  shows "\<exists>out self'. ct_pqueue_pop malloc cmp self = Some (out, self') \<and> pq_fixed w self' \<and> pq_cap self' = pq_cap self \<and>
    unat (pq_size self') = unat (pq_size self) - 1 \<and>
    mset (pq_list self) = (case out of None \<Rightarrow> {#} | Some x \<Rightarrow> {#x#}) + mset (pq_list self')"
proof -
  have ok: "pq_ok self" "\<not> pq_is_dynamic self" "pq_width self = w" using fx by (simp_all add: pq_fixed_def)
  have "1 < pq_size self \<longrightarrow> malloc (ucast (pq_item_size self))"
    using m pq_item_of_nat [OF ok(3)] by (simp add: word_less_nat_alt)
  from pq_pop_ok [where malloc = malloc, OF ok(1) this, of cmp] obtain out self1 where
    p: "ct_pqueue_pop malloc cmp self = Some (out, self1)" "pq_ok self1" "pq_item_size self1 = pq_item_size self"
      "pq_is_dynamic self1 = pq_is_dynamic self" "pq_cap self1 = pq_cap self"
      "case pq_list self of [] \<Rightarrow> out = None \<and> self1 = self
       | x # xs \<Rightarrow> out = Some x \<and> mset (pq_list self1) = mset xs \<and> length x = pq_width self" by blast
  have "pq_fixed w self1" using p ok by (simp add: pq_fixed_def)
  moreover have "mset (pq_list self) = (case out of None \<Rightarrow> {#} | Some x \<Rightarrow> {#x#}) + mset (pq_list self1)"
    using p(6) by (cases "pq_list self") auto
  moreover have "length (pq_list self1) = length (pq_list self) - 1"
    using p(6) by (cases "pq_list self") (auto dest: mset_eq_length)
  ultimately show ?thesis using p by auto
qed


text \<open>Elements of four bytes ordered by their first byte, in a static queue of sixteen.\<close>

definition byte_elem :: "u8 \<Rightarrow> u8 list" where
  "byte_elem b = [b, 0, 0, 0]"

definition byte_cmp :: ct_compare_cb where
  "byte_cmp a b = uint (hd a) - uint (hd b)"

definition pq_example :: ct_pqueue where
  "pq_example = \<lparr>pq_all = Some (replicate 64 0), pq_size = 0, pq_cap = 16, pq_item_size = 4, pq_is_dynamic = False\<rparr>"

lemma pq_example_init: "ct_pqueue_init_s 4 (replicate 64 0) 16 = Some pq_example"
  by code_simp


text \<open>A push keeps the queue ordered, and an ordered queue has a least element on top.\<close>

lemma push_ordered:
  assumes "pq_ok self" "realloc_ok f" "malloc (ucast (pq_item_size self))" "pq_can_grow self" "pq_width self \<le> length data"
    and key: "key_cmp key cmp" and ord: "ordered4 key (pq_list self)"
  shows "\<exists>b self'. ct_pqueue_push f malloc cmp self data = Some (b, self') \<and> ordered4 key (pq_list self')"
proof -
  from pq_push_ok [where malloc = malloc and self = self and data = data, OF assms(1-5), of cmp] obtain b self' where
    p: "ct_pqueue_push f malloc cmp self data = Some (b, self')"
      "b \<longrightarrow> pq_list self' = list_up cmp (take (pq_width self) data) (pq_list self @ [take (pq_width self) data]) (unat (pq_size self))"
      "\<not> b \<longrightarrow> self' = self" by blast
  let ?x = "take (pq_width self) data" and ?n = "length (pq_list self)"
  have "ordered4 key (list_up cmp ?x (pq_list self @ [?x]) ?n)"
  proof (rule list_up_ordered [OF key])
    show "\<forall>c. 0 < c \<and> c < length (pq_list self @ [?x]) \<and> c \<noteq> ?n \<and> (c - 1) div 4 \<noteq> ?n \<longrightarrow>
        key ((pq_list self @ [?x]) ! ((c - 1) div 4)) \<le> key ((pq_list self @ [?x]) ! c)"
    proof (intro allI impI)
      fix c assume c: "0 < c \<and> c < length (pq_list self @ [?x]) \<and> c \<noteq> ?n \<and> (c - 1) div 4 \<noteq> ?n"
      then have "c < ?n" "(c - 1) div 4 < ?n" by auto
      then show "key ((pq_list self @ [?x]) ! ((c - 1) div 4)) \<le> key ((pq_list self @ [?x]) ! c)"
        using ord c unfolding ordered4_def by (simp only: nth_append if_True)
    qed
  qed auto
  then show ?thesis using p ord by (cases b) auto
qed

lemma ordered_top: "ordered4 key xs \<Longrightarrow> i < length xs \<Longrightarrow> key (xs ! 0) \<le> key (xs ! i)"
proof (induction i rule: less_induct)
  case (less i)
  show ?case
  proof (cases "i = 0")
    case False
    then have "(i - 1) div 4 < i" by linarith
    then have "key (xs ! 0) \<le> key (xs ! ((i - 1) div 4))" using less by simp
    also have "\<dots> \<le> key (xs ! i)" using less(2,3) False by (simp add: ordered4_def)
    finally show ?thesis .
  qed simp
qed

text \<open>The sift after a pop is wrong.  Its loop finds the least child by comparing the children with the
  element stored at the hole; from the second level on that slot still holds the element that has just
  been moved up, which is no greater than any child, so the loop stops after one level even when the
  temporary belongs further down.  Eight pushes and four pops show it: 4 is handed out before 3.\<close>

lemma pqueue_pop_disorder:
  "map_option fst (pq_run_ops (\<lambda>_ _. None) (\<lambda>_ _. True) byte_cmp
      (map (PPush \<circ> byte_elem) [1, 2, 4, 5, 6, 3, 7, 8] @ [PPop, PPop, PPop, PPop]) pq_example) =
    Some (replicate 8 (Inl True) @ map (Inr \<circ> Some \<circ> byte_elem) [1, 2, 4, 3])"
  by code_simp

end
