(* ===== verification/Coter_Time.thy ===== *)
theory Coter_Time
  imports Coter_Strings "HOL-Library.Signed_Division"
begin

text \<open>
  \<open>core/time.h\<close>, \<open>time.c\<close>: clocks, sleeping, calendar arithmetic and formatting.  What the operating
  system answers (clock readings, \<open>localtime_r\<close>, \<open>mktime\<close>, \<open>nanosleep\<close>) is a parameter.  Signed
  C integers are \<^typ>\<open>int\<close> with C's truncating division; the narrowing to \<open>int\<close> at the end of the
  calendar computation is written out.
\<close>

section \<open>Clocks\<close>

datatype clock_api = CT_OS_WIN | HAVE_CLOCK_GETTIME | CT_GETTIMEOFDAY

text \<open>The readings of the clocks at one moment: seconds and nanoseconds (or microseconds), and the
  counters of Windows.\<close>

record clocks =
  clk_time :: int
  clk_tick64 :: u64
  clk_filetime :: "u32 \<times> u32"
  clk_qpf :: "int option"
  clk_qpc :: "int option"
  clk_monotonic :: "(int \<times> int) option"
  clk_realtime :: "(int \<times> int) option"
  clk_timeofday :: "(int \<times> int) option"

definition ct_unixtime_sec :: "clocks \<Rightarrow> int" where
  "ct_unixtime_sec c = clk_time c"

definition ct_gettick_ms :: "clock_api \<Rightarrow> clocks \<Rightarrow> int" where
  "ct_gettick_ms api c =
     (case api of
        CT_OS_WIN \<Rightarrow> sint (clk_tick64 c)
      | HAVE_CLOCK_GETTIME \<Rightarrow>
          (case clk_monotonic c of None \<Rightarrow> 0 | Some (tv_sec, tv_nsec) \<Rightarrow> tv_sec * 1000 + tv_nsec sdiv 1000000)
      | CT_GETTIMEOFDAY \<Rightarrow>
          (case clk_timeofday c of None \<Rightarrow> 0 | Some (tv_sec, tv_usec) \<Rightarrow> tv_sec * 1000 + tv_usec sdiv 1000))"

definition filetime_ticks :: "u32 \<times> u32 \<Rightarrow> u64" where
  "filetime_ticks ft = (push_bit 32 (ucast (fst ft)) OR ucast (snd ft)) - 116444736000000000"

definition ct_unixtime_ms :: "clock_api \<Rightarrow> clocks \<Rightarrow> int" where
  "ct_unixtime_ms api c =
     (case api of
        CT_OS_WIN \<Rightarrow> sint (filetime_ticks (clk_filetime c) div 10000)
      | HAVE_CLOCK_GETTIME \<Rightarrow>
          (case clk_realtime c of None \<Rightarrow> 0 | Some (tv_sec, tv_nsec) \<Rightarrow> tv_sec * 1000 + tv_nsec sdiv 1000000)
      | CT_GETTIMEOFDAY \<Rightarrow>
          (case clk_timeofday c of None \<Rightarrow> 0 | Some (tv_sec, tv_usec) \<Rightarrow> tv_sec * 1000 + tv_usec sdiv 1000))"

definition ct_unixtime_us :: "clock_api \<Rightarrow> clocks \<Rightarrow> int" where
  "ct_unixtime_us api c =
     (case api of
        CT_OS_WIN \<Rightarrow> sint (filetime_ticks (clk_filetime c) div 10)
      | HAVE_CLOCK_GETTIME \<Rightarrow>
          (case clk_realtime c of None \<Rightarrow> 0 | Some (tv_sec, tv_nsec) \<Rightarrow> tv_sec * 1000000 + tv_nsec sdiv 1000)
      | CT_GETTIMEOFDAY \<Rightarrow>
          (case clk_timeofday c of None \<Rightarrow> 0 | Some (tv_sec, tv_usec) \<Rightarrow> tv_sec * 1000000 + tv_usec))"

text \<open>The frequency of the performance counter is read once; \<open>None\<close> is the state before that.\<close>

definition time_hrtime_init :: "clocks \<Rightarrow> int option" where
  "time_hrtime_init c =
     (case clk_qpf c of None \<Rightarrow> None | Some freq \<Rightarrow> if freq \<le> 0 then None else Some freq)"

definition ct_gethrtime_us :: "clock_api \<Rightarrow> clocks \<Rightarrow> int option \<Rightarrow> int \<times> int option" where
  "ct_gethrtime_us api c s_freq =
     (case api of
        CT_OS_WIN \<Rightarrow>
          (case (case s_freq of None \<Rightarrow> time_hrtime_init c | Some f \<Rightarrow> Some f) of
             None \<Rightarrow> (0, None)
           | Some freq \<Rightarrow>
               (case clk_qpc c of
                  None \<Rightarrow> (0, Some freq)
                | Some count \<Rightarrow>
                    let whole = (count sdiv freq) * 1000000;
                        part = ((count smod freq) * 1000000) sdiv freq
                    in (whole + part, Some freq)))
      | HAVE_CLOCK_GETTIME \<Rightarrow>
          (case clk_monotonic c of None \<Rightarrow> (0, s_freq)
           | Some (tv_sec, tv_nsec) \<Rightarrow> (tv_sec * 1000000 + tv_nsec sdiv 1000, s_freq))
      | CT_GETTIMEOFDAY \<Rightarrow>
          (case clk_timeofday c of None \<Rightarrow> (0, s_freq)
           | Some (tv_sec, tv_usec) \<Rightarrow> (tv_sec * 1000000 + tv_usec, s_freq)))"

section \<open>Sleeping\<close>

text \<open>\<open>nanosleep\<close> answers whether it slept to the end, whether it was interrupted by a signal, the time
  that remains, and the new state of the system.  The loop may be interrupted for ever.\<close>

type_synonym timespec = "int \<times> int"

type_synonym 's nanosleep = "'s \<Rightarrow> timespec \<Rightarrow> bool \<times> bool \<times> timespec \<times> 's"

partial_function (option) sleep_loop :: "'s nanosleep \<Rightarrow> timespec \<Rightarrow> 's \<Rightarrow> 's option" where
  "sleep_loop nanosleep req s =
     (case nanosleep s req of (finished, eintr, req, s) \<Rightarrow>
        if \<not> finished \<and> eintr then sleep_loop nanosleep req s else Some s)"

definition ct_sleep :: "clock_api \<Rightarrow> ('s \<Rightarrow> u32 \<Rightarrow> 's) \<Rightarrow> 's nanosleep \<Rightarrow> u32 \<Rightarrow> 's \<Rightarrow> 's option" where
  "ct_sleep api Sleep nanosleep sec s =
     (if api = CT_OS_WIN then Some (Sleep s (sec * 1000)) else sleep_loop nanosleep (uint sec, 0) s)"

definition ct_msleep :: "clock_api \<Rightarrow> ('s \<Rightarrow> u32 \<Rightarrow> 's) \<Rightarrow> 's nanosleep \<Rightarrow> u32 \<Rightarrow> 's \<Rightarrow> 's option" where
  "ct_msleep api Sleep nanosleep ms s =
     (if api = CT_OS_WIN then Some (Sleep s ms)
      else sleep_loop nanosleep (uint (ms div 1000), uint (ms mod 1000) * 1000000) s)"

definition ct_usleep :: "clock_api \<Rightarrow> ('s \<Rightarrow> u32 \<Rightarrow> 's) \<Rightarrow> 's nanosleep \<Rightarrow> u32 \<Rightarrow> 's \<Rightarrow> 's option" where
  "ct_usleep api Sleep nanosleep us s =
     (if api = CT_OS_WIN then
        if us > 0 then let us = us div 1000 in Some (Sleep s (if us > 0 then us else 1)) else Some (Sleep s 0)
      else sleep_loop nanosleep (uint (us div 1000000), uint (us mod 1000000) * 1000) s)"

section \<open>The calendar\<close>

record ct_datetime =
  dt_year :: int
  dt_month :: int
  dt_day :: int
  dt_hour :: int
  dt_min :: int
  dt_sec :: int
  dt_ms :: int

definition s_days :: "int list" where
  "s_days = [31, 28, 31, 30, 31, 30, 31, 31, 30, 31, 30, 31]"

definition datetime_leap_year :: "int \<Rightarrow> bool" where
  "datetime_leap_year year \<longleftrightarrow> (year smod 4 = 0 \<and> year smod 100 \<noteq> 0) \<or> year smod 400 = 0"

definition datetime_days_from_civil :: "int \<Rightarrow> int \<Rightarrow> int \<Rightarrow> int" where
  "datetime_days_from_civil year month day =
     (let year = year - (if month \<le> 2 then 1 else 0);
          era = (if year \<ge> 0 then year else year - 399) sdiv 400;
          yoe = year - era * 400;
          doy = (153 * (month + (if month > 2 then -3 else 9)) + 2) sdiv 5 + day - 1;
          doe = yoe * 365 + yoe sdiv 4 - yoe sdiv 100 + doy
      in era * 146097 + doe - 719468)"

text \<open>The conversion of an \<open>int64_t\<close> to \<open>int\<close>.\<close>

definition narrow_int :: "int \<Rightarrow> int" where
  "narrow_int x = signed_take_bit 31 x"

definition datetime_civil_from_days :: "int \<Rightarrow> int \<times> int \<times> int" where
  "datetime_civil_from_days z =
     (let z = z + 719468;
          era = (if z \<ge> 0 then z else z - 146096) sdiv 146097;
          doe = z - era * 146097;
          yoe = (doe - doe sdiv 1460 + doe sdiv 36524 - doe sdiv 146096) sdiv 365;
          yy = yoe + era * 400;
          doy = doe - (365 * yoe + yoe sdiv 4 - yoe sdiv 100);
          mp = (5 * doy + 2) sdiv 153;
          dd = doy - (153 * mp + 2) sdiv 5 + 1;
          mm = mp + (if mp < 10 then 3 else -9)
      in (narrow_int (yy + (if mm \<le> 2 then 1 else 0)), narrow_int mm, narrow_int dd))"

definition ct_datetime_days_in_month :: "int \<Rightarrow> int \<Rightarrow> int" where
  "ct_datetime_days_in_month year month =
     (if month < 1 \<or> month > 12 then 0
      else let days = s_days ! nat (month - 1)
           in if month = 2 \<and> datetime_leap_year year then days + 1 else days)"

definition datetime_valid_date :: "int \<Rightarrow> int \<Rightarrow> int \<Rightarrow> bool" where
  "datetime_valid_date year month day \<longleftrightarrow>
     year \<ge> 1 \<and> year \<le> 9999 \<and> month \<ge> 1 \<and> month \<le> 12 \<and> day \<ge> 1 \<and> day \<le> ct_datetime_days_in_month year month"

definition datetime_valid_time :: "int \<Rightarrow> int \<Rightarrow> int \<Rightarrow> int \<Rightarrow> bool" where
  "datetime_valid_time hour mi sec ms \<longleftrightarrow>
     hour \<ge> 0 \<and> hour \<le> 23 \<and> mi \<ge> 0 \<and> mi \<le> 59 \<and> sec \<ge> 0 \<and> sec \<le> 60 \<and> ms \<ge> 0 \<and> ms \<le> 999"

definition dt_valid :: "ct_datetime \<Rightarrow> bool" where
  "dt_valid dt \<longleftrightarrow> datetime_valid_date (dt_year dt) (dt_month dt) (dt_day dt) \<and>
     datetime_valid_time (dt_hour dt) (dt_min dt) (dt_sec dt) (dt_ms dt)"

text \<open>\<open>dt\<close> is \<^const>\<open>None\<close> for a \<open>NULL\<close> pointer.\<close>

definition ct_datetime_add_days :: "ct_datetime option \<Rightarrow> int \<Rightarrow> bool \<times> ct_datetime option" where
  "ct_datetime_add_days dt days =
     (case dt of
        None \<Rightarrow> (False, None)
      | Some d \<Rightarrow>
          if \<not> datetime_valid_date (dt_year d) (dt_month d) (dt_day d) \<or>
             \<not> datetime_valid_time (dt_hour d) (dt_min d) (dt_sec d) (dt_ms d) then (False, dt)
          else let shifted = datetime_days_from_civil (dt_year d) (dt_month d) (dt_day d) + days;
                   (year, month, day) = datetime_civil_from_days shifted
               in if year < 1 \<or> year > 9999 then (False, dt)
                  else (True, Some (d\<lparr>dt_year := year, dt_month := month, dt_day := day\<rparr>)))"

section \<open>The calendar arithmetic is the calendar\<close>

text \<open>The reference: the day after a date.\<close>

definition civil_ok :: "int \<times> int \<times> int \<Rightarrow> bool" where
  "civil_ok c \<longleftrightarrow> (case c of (y, m, d) \<Rightarrow> 1 \<le> m \<and> m \<le> 12 \<and> 1 \<le> d \<and> d \<le> ct_datetime_days_in_month y m)"

definition next_day :: "int \<times> int \<times> int \<Rightarrow> int \<times> int \<times> int" where
  "next_day c = (case c of (y, m, d) \<Rightarrow>
     if d < ct_datetime_days_in_month y m then (y, m, d + 1)
     else if m < 12 then (y, m + 1, 1) else (y + 1, 1, 1))"

lemma sdiv_pos: "0 \<le> x \<Longrightarrow> 0 < k \<Longrightarrow> (x :: int) sdiv k = x div k"
  by (cases "x = 0") (simp_all add: signed_divide_int_def)

lemma smod_pos: "0 \<le> x \<Longrightarrow> 0 < k \<Longrightarrow> (x :: int) smod k = x mod k"
  by (cases "x = 0") (simp_all add: signed_modulo_int_def)

lemma smod_zero: "0 < k \<Longrightarrow> (x :: int) smod k = 0 \<longleftrightarrow> x mod k = 0"
  by (cases "0 \<le> x") (simp_all add: signed_modulo_int_def signed_divide_int_def sgn_if mod_eq_0_iff_dvd dvd_eq_mod_eq_0 [symmetric])

text \<open>Years from March, in eras of 400.\<close>

definition year_start :: "int \<Rightarrow> int" where
  "year_start yoe = 365 * yoe + yoe div 4 - yoe div 100"

definition month_start :: "int \<Rightarrow> int" where
  "month_start mp = (153 * mp + 2) div 5"

definition year_of :: "int \<Rightarrow> int" where
  "year_of doe = (doe - doe div 1460 + doe div 36524 - doe div 146096) div 365"

definition year_days :: "int \<Rightarrow> int" where
  "year_days yoe = (if yoe = 399 then 366 else year_start (yoe + 1) - year_start yoe)"

lemma days_from_civil_eq:
  assumes "1 \<le> m" "m \<le> 12" "1 \<le> d"
  shows "datetime_days_from_civil y m d =
    (let y' = y - (if m \<le> 2 then 1 else 0); mp = m + (if m > 2 then -3 else 9)
     in (y' div 400) * 146097 + year_start (y' mod 400) + month_start mp + d - 1 - 719468)"
proof -
  define y' where "y' = y - (if m \<le> 2 then 1 else 0)"
  have era: "(if y' \<ge> 0 then y' else y' - 399) sdiv 400 = y' div 400"
  proof (cases "0 \<le> y'")
    case False
    then have "(y' - 399) sdiv 400 = - ((399 - y') div 400)" by (simp add: signed_divide_int_def)
    also have "\<dots> = y' div 400" by linarith
    finally show ?thesis using False by simp
  qed (simp add: sdiv_pos)
  have yoe: "y' - y' div 400 * 400 = y' mod 400" by (simp add: minus_div_mult_eq_mod)
  have nn: "0 \<le> y' mod 400" by simp
  have mp: "0 \<le> 153 * (m + (if m > 2 then -3 else 9)) + 2" using assms by auto
  show ?thesis
    unfolding datetime_days_from_civil_def y'_def [symmetric] Let_def era yoe
      sdiv_pos [OF nn, of 4, simplified] sdiv_pos [OF nn, of 100, simplified] sdiv_pos [OF mp, of 5, simplified]
    using mp by (auto simp: year_start_def month_start_def sdiv_pos)
qed

lemma sub_div_mono: "x \<le> y \<Longrightarrow> x - x div 1460 \<le> y - (y :: int) div 1460" "x \<le> y \<Longrightarrow> x - x div 4 \<le> y - (y :: int) div 4"
  by linarith+

lemma year_of_mono: "x \<le> y \<Longrightarrow> year_of x \<le> year_of y"
proof -
  assume le: "x \<le> y"
  have q: "z div 146096 = z div 36524 div 4" for z :: int by (simp add: zdiv_zmult2_eq [symmetric])
  have "x div 36524 \<le> y div 36524" using le by (simp add: zdiv_mono1)
  from add_mono [OF sub_div_mono(1) [OF le] sub_div_mono(2) [OF this]]
  have "x - x div 1460 + x div 36524 - x div 146096 \<le> y - y div 1460 + y div 36524 - y div 146096"
    unfolding q by (simp only: add_diff_eq)
  then show ?thesis unfolding year_of_def by (simp add: zdiv_mono1)
qed

lemma year_of_table:
  "list_all (\<lambda>yoe. year_of (year_start yoe) = yoe \<and> year_of (year_start yoe + year_days yoe - 1) = yoe) [0..399]"
  by code_simp

lemma year_of_start:
  assumes "0 \<le> yoe" "yoe \<le> 399" "0 \<le> doy" "doy < year_days yoe"
  shows "year_of (year_start yoe + doy) = yoe"
proof -
  have "year_of (year_start yoe) = yoe \<and> year_of (year_start yoe + year_days yoe - 1) = yoe"
    using year_of_table assms(1,2) by (simp add: list_all_iff)
  then show ?thesis
    using year_of_mono [of "year_start yoe" "year_start yoe + doy"]
      year_of_mono [of "year_start yoe + doy" "year_start yoe + year_days yoe - 1"] assms by simp
qed

lemma year_exists:
  assumes "0 \<le> doe" "doe < 146097"
  shows "\<exists>yoe doy. 0 \<le> yoe \<and> yoe \<le> 399 \<and> 0 \<le> doy \<and> doy < year_days yoe \<and> doe = year_start yoe + doy"
proof -
  have ex: "doe < year_start (int n) \<Longrightarrow> \<exists>y < int n. 0 \<le> y \<and> year_start y \<le> doe \<and> doe < year_start (y + 1)" for n
  proof (induction n)
    case (Suc n)
    show ?case
    proof (cases "doe < year_start (int n)")
      case False
      then show ?thesis using Suc.prems by (intro exI [of _ "int n"]) (simp add: add.commute)
    next
      case True
      then show ?thesis using Suc.IH by force
    qed
  qed (use assms in \<open>simp add: year_start_def\<close>)
  show ?thesis
  proof (cases "doe = 146096")
    case True
    then show ?thesis by (intro exI [of _ 399] exI [of _ 365]) (simp add: year_days_def year_start_def)
  next
    case False
    then have "doe < year_start (int 400)" using assms by (simp add: year_start_def)
    from ex [OF this] obtain y where y: "y < 400" "0 \<le> y" "year_start y \<le> doe" "doe < year_start (y + 1)" by auto
    have "doe - year_start y < year_days y" using y by (auto simp: year_days_def year_start_def)
    then show ?thesis using y by (intro exI [of _ y] exI [of _ "doe - year_start y"]) auto
  qed
qed

text \<open>The months from March.\<close>

lemma month_table:
  "list_all (\<lambda>mp. list_all (\<lambda>d. (5 * (month_start mp + d) + 2) div 153 = mp) [0..month_start (mp + 1) - month_start mp - 1]) [0..11]"
  by code_simp

lemma month_of:
  assumes "0 \<le> mp" "mp \<le> 11" "0 \<le> d" "d < month_start (mp + 1) - month_start mp"
  shows "(5 * (month_start mp + d) + 2) div 153 = mp"
  using month_table assms by (simp add: list_all_iff)

lemma month_exists:
  assumes "0 \<le> doy" "doy < 366"
  shows "0 \<le> (5 * doy + 2) div 153" "(5 * doy + 2) div 153 \<le> 11" "month_start ((5 * doy + 2) div 153) \<le> doy"
    "doy < month_start ((5 * doy + 2) div 153 + 1)"
proof -
  define k where "k = (5 * doy + 2) div 153"
  define r where "r = (5 * doy + 2) mod 153"
  have "5 * doy + 2 = 153 * k + r" "0 \<le> r" "r < 153" by (simp_all add: k_def r_def)
  then have k: "153 * k \<le> 5 * doy + 2" "5 * doy + 2 < 153 * (k + 1)" by simp_all
  have "month_start k \<le> doy" "doy < month_start (k + 1)" using k unfolding month_start_def by linarith+
  then show "month_start ((5 * doy + 2) div 153) \<le> doy" "doy < month_start ((5 * doy + 2) div 153 + 1)"
    unfolding k_def .
  show "0 \<le> (5 * doy + 2) div 153" "(5 * doy + 2) div 153 \<le> 11" using assms by linarith+
qed

lemma year_days_leap:
  assumes "0 \<le> yoe" "yoe \<le> 399" and "y mod 400 = (yoe + 1) mod 400"
  shows "year_days yoe = (if datetime_leap_year y then 366 else 365)"
proof -
  have "list_all (\<lambda>yoe. year_days yoe =
      (if ((yoe + 1) mod 400 mod 4 = 0 \<and> (yoe + 1) mod 400 mod 100 \<noteq> 0) \<or> (yoe + 1) mod 400 = 0 then 366 else 365)) [0..399]"
    by code_simp
  moreover have "y mod 400 mod 4 = y mod 4" "y mod 400 mod 100 = y mod 100" by (simp_all add: mod_mod_cancel)
  ultimately show ?thesis
    using assms by (simp add: list_all_iff datetime_leap_year_def smod_zero del: mod_mod_trivial)
qed

text \<open>The number of days of a month is the distance to the next one, but for the month before March.\<close>

lemma days_in_month_march:
  assumes "0 \<le> mp" "mp \<le> 11"
  shows "ct_datetime_days_in_month y (mp + (if mp < 10 then 3 else -9)) =
    (if mp = 11 then (if datetime_leap_year y then 29 else 28) else month_start (mp + 1) - month_start mp)"
proof -
  have "mp = 0 \<or> mp = 1 \<or> mp = 2 \<or> mp = 3 \<or> mp = 4 \<or> mp = 5 \<or> mp = 6 \<or> mp = 7 \<or> mp = 8 \<or> mp = 9 \<or> mp = 10 \<or> mp = 11"
    using assms by presburger
  then show ?thesis
    by (elim disjE) (simp_all add: ct_datetime_days_in_month_def s_days_def month_start_def eval_nat_numeral)
qed

text \<open>A date, as a year from March, its month from March and a day.\<close>

lemma march_months:
  assumes "1 \<le> (m :: int)" "m \<le> 12"
  obtains mp where "0 \<le> mp" "mp \<le> 11" "m = mp + (if mp < 10 then 3 else -9)" "m + (if m > 2 then -3 else 9) = mp"
    "m \<le> 2 \<longleftrightarrow> mp \<ge> 10"
proof
  show "0 \<le> m + (if m > 2 then -3 else 9)" "m + (if m > 2 then -3 else 9) \<le> 11"
    "m = m + (if m > 2 then -3 else 9) + (if m + (if m > 2 then -3 else 9) < 10 then 3 else -9)"
    "m \<le> 2 \<longleftrightarrow> m + (if m > 2 then -3 else 9) \<ge> 10"
    using assms by auto
qed simp

lemma narrow_int_id: "- 2147483648 \<le> x \<Longrightarrow> x < 2147483648 \<Longrightarrow> narrow_int x = x"
  by (simp add: narrow_int_def signed_take_bit_int_eq_self)

lemma civil_from_days_eq:
  assumes "0 \<le> yoe" "yoe \<le> 399" "0 \<le> mp" "mp \<le> 11" "0 \<le> d" "d < month_start (mp + 1) - month_start mp"
    and doy: "month_start mp + d < year_days yoe" and era: "- 5000000 \<le> era" "era \<le> 5000000"
  shows "datetime_civil_from_days (era * 146097 + year_start yoe + month_start mp + d - 719468) =
    (era * 400 + yoe + (if mp \<ge> 10 then 1 else 0), mp + (if mp < 10 then 3 else -9), d + 1)"
proof -
  define doy where "doy = month_start mp + d"
  have m0: "0 \<le> month_start mp" using assms(3) by (simp add: month_start_def)
  have doy0: "0 \<le> doy" "doy < year_days yoe" using m0 assms(5) doy by (simp_all add: doy_def)
  have y366: "year_days yoe \<le> 366" "0 \<le> year_start yoe" "year_start yoe + year_days yoe \<le> 146097"
  proof -
    have "list_all (\<lambda>yoe. year_days yoe \<le> 366 \<and> 0 \<le> year_start yoe \<and> year_start yoe + year_days yoe \<le> 146097) [0..399]"
      by code_simp
    then show "year_days yoe \<le> 366" "0 \<le> year_start yoe" "year_start yoe + year_days yoe \<le> 146097"
      using assms(1,2) by (simp_all add: list_all_iff)
  qed
  define doe where "doe = year_start yoe + doy"
  have doe: "0 \<le> doe" "doe < 146097" using y366 doy0 by (simp_all add: doe_def)
  define z where "z = era * 146097 + doe"
  have zeq: "era * 146097 + year_start yoe + month_start mp + d - 719468 + 719468 = z"
    by (simp add: z_def doe_def doy_def)
  have zera: "(if z \<ge> 0 then z else z - 146096) sdiv 146097 = era"
  proof (cases "0 \<le> z")
    case True
    have "z div 146097 = era" using doe by (simp add: z_def)
    then show ?thesis using True by (simp add: sdiv_pos)
  next
    case False
    then have "(z - 146096) sdiv 146097 = - ((146096 - z) div 146097)" by (simp add: signed_divide_int_def)
    also have "146096 - z = (146096 - doe) + (- era) * 146097" by (simp add: z_def)
    also have "- (((146096 - doe) + (- era) * 146097) div 146097) = era" using doe by (simp add: div_mult_self1)
    finally show ?thesis using False by simp
  qed
  have doez: "z - era * 146097 = doe" by (simp add: z_def)
  have f0: "0 \<le> doe - doe div 1460 + doe div 36524 - doe div 146096"
  proof -
    have "doe div 1460 \<le> doe" "doe div 146096 \<le> doe div 36524"
      using doe by (simp_all add: div_le_dividend zdiv_mono2)
    then show ?thesis by linarith
  qed
  have yoe: "(doe - doe sdiv 1460 + doe sdiv 36524 - doe sdiv 146096) sdiv 365 = yoe"
    using year_of_start [OF assms(1,2) doy0] f0 doe by (simp add: sdiv_pos year_of_def doe_def)
  have doyz: "doe - (365 * yoe + yoe sdiv 4 - yoe sdiv 100) = doy"
    using assms(1) by (simp add: sdiv_pos doe_def year_start_def)
  have mpz: "(5 * doy + 2) sdiv 153 = mp"
    using month_of [OF assms(3-6)] doy0 by (simp add: sdiv_pos doy_def)
  have mst: "(153 * mp + 2) sdiv 5 = month_start mp" using assms(3) by (simp add: sdiv_pos month_start_def)
  have d: "doy - month_start mp + 1 = d + 1" by (simp add: doy_def)
  have "d < 366" using doy0 y366 m0 by (simp add: doy_def)
  then show ?thesis
    unfolding datetime_civil_from_days_def zeq Let_def zera doez yoe doyz mpz mst d
    using assms by (auto simp: narrow_int_id)
qed

text \<open>The two conversions are inverse, and the day number counts days.\<close>

lemma days_march:
  assumes "0 \<le> mp" "mp \<le> 11" "1 \<le> d" "0 \<le> yoe" "yoe \<le> 399"
  shows "datetime_days_from_civil (era * 400 + yoe + (if mp \<ge> 10 then 1 else 0)) (mp + (if mp < 10 then 3 else -9)) d =
    era * 146097 + year_start yoe + month_start mp + d - 1 - 719468"
proof -
  let ?m = "mp + (if mp < 10 then 3 else -9)"
  have m: "1 \<le> ?m" "?m \<le> 12" "?m + (if ?m > 2 then -3 else 9) = mp" "?m \<le> 2 \<longleftrightarrow> mp \<ge> 10" using assms by auto
  have "(era * 400 + yoe + (if mp \<ge> 10 then 1 else 0)) - (if ?m \<le> 2 then 1 else 0) = yoe + era * 400"
    using m(4) by auto
  then show ?thesis
    unfolding days_from_civil_eq [OF m(1,2) assms(3)] Let_def m(3) using assms(4,5) by simp
qed

lemma month_day_bound:
  assumes "0 \<le> mp" "mp \<le> 11" "0 \<le> yoe" "yoe \<le> 399" "0 \<le> d"
  shows "d + 1 \<le> ct_datetime_days_in_month (era * 400 + yoe + (if mp \<ge> 10 then 1 else 0)) (mp + (if mp < 10 then 3 else -9)) \<longleftrightarrow>
    d < month_start (mp + 1) - month_start mp \<and> month_start mp + d < year_days yoe"
proof -
  let ?y = "era * 400 + yoe + (if mp \<ge> 10 then 1 else 0)"
  have yd: "365 \<le> year_days yoe" "mp = 11 \<longrightarrow> year_days yoe = (if datetime_leap_year ?y then 366 else 365)"
  proof -
    show "365 \<le> year_days yoe" by (subst year_days_leap [OF assms(3,4), of "yoe + 1"]) auto
    have "(era * 400 + yoe + 1) mod 400 = (yoe + 1) mod 400" by (simp add: add.assoc)
    from year_days_leap [OF assms(3,4) this] show "mp = 11 \<longrightarrow> year_days yoe = (if datetime_leap_year ?y then 366 else 365)"
      by simp
  qed
  show ?thesis
  proof (cases "mp = 11")
    case True
    then show ?thesis using yd unfolding days_in_month_march [OF assms(1,2)]
      by (auto simp: month_start_def)
  next
    case False
    then have "mp \<le> 10" using assms(2) by simp
    then have "(153 * (mp + 1) + 2) div 5 \<le> (153 * 11 + 2) div 5" by (intro zdiv_mono1) simp_all
    then have "month_start (mp + 1) \<le> 337" by (simp add: month_start_def)
    then show ?thesis using False yd(1) unfolding days_in_month_march [OF assms(1,2)] by auto
  qed
qed

text \<open>Every date has a unique position in its era.\<close>

lemma civil_position:
  assumes "civil_ok (y, m, d)"
  obtains era yoe mp where "0 \<le> yoe" "yoe \<le> 399" "0 \<le> mp" "mp \<le> 11"
    "y = era * 400 + yoe + (if mp \<ge> 10 then 1 else 0)" "m = mp + (if mp < 10 then 3 else -9)"
    "d - 1 < month_start (mp + 1) - month_start mp" "month_start mp + (d - 1) < year_days yoe" "1 \<le> d"
proof -
  have ok: "1 \<le> m" "m \<le> 12" "1 \<le> d" "d \<le> ct_datetime_days_in_month y m" using assms by (simp_all add: civil_ok_def)
  from march_months [OF ok(1,2)] obtain mp where mp: "0 \<le> mp" "mp \<le> 11" "m = mp + (if mp < 10 then 3 else -9)" by metis
  define y' where "y' = y - (if mp \<ge> 10 then 1 else 0)"
  have y: "y = (y' div 400) * 400 + y' mod 400 + (if mp \<ge> 10 then 1 else 0)" by (simp add: y'_def)
  have r: "0 \<le> y' mod 400" "y' mod 400 \<le> 399" "0 \<le> d - 1" using ok(3) by simp_all
  have "d - 1 < month_start (mp + 1) - month_start mp \<and> month_start mp + (d - 1) < year_days (y' mod 400)"
    using ok(4) month_day_bound [OF mp(1,2) r, of "y' div 400"] unfolding y [symmetric] mp(3) [symmetric] by simp
  then show thesis using that [OF r(1,2) mp(1,2) y mp(3)] ok(3) by blast
qed

lemma civil_from_days_from_civil:
  assumes "civil_ok (y, m, d)" and "- 1999999000 \<le> y" "y \<le> 1999999000"
  shows "datetime_civil_from_days (datetime_days_from_civil y m d) = (y, m, d)"
proof -
  from civil_position [OF assms(1)] obtain era yoe mp where p: "0 \<le> yoe" "yoe \<le> 399" "0 \<le> mp" "mp \<le> 11"
    "y = era * 400 + yoe + (if mp \<ge> 10 then 1 else 0)" "m = mp + (if mp < 10 then 3 else -9)"
    "d - 1 < month_start (mp + 1) - month_start mp" "month_start mp + (d - 1) < year_days yoe" "1 \<le> d" by blast
  have d0: "0 \<le> d - 1" using p(9) by simp
  have era: "- 5000000 \<le> era" "era \<le> 5000000" using assms(2,3) p(1,2,5) by (auto split: if_splits)
  from civil_from_days_eq [OF p(1-4) d0 p(7,8) era] show ?thesis
    unfolding p(5,6) days_march [OF p(3,4,9,1,2)] by (simp add: add_diff_eq diff_add_eq)
qed

lemma days_from_civil_from_days:
  assumes "- 700000000000 \<le> z" "z \<le> 700000000000" and c: "datetime_civil_from_days z = (y, m, d)"
  shows "civil_ok (y, m, d)" and "datetime_days_from_civil y m d = z"
proof -
  define era where "era = (z + 719468) div 146097"
  define doe where "doe = (z + 719468) mod 146097"
  have z: "z + 719468 = era * 146097 + doe" "0 \<le> doe" "doe < 146097" by (simp_all add: era_def doe_def)
  have era: "- 5000000 \<le> era" "era \<le> 5000000" using z assms(1,2) by linarith+
  from year_exists [OF z(2,3)] obtain yoe doy where y: "0 \<le> yoe" "yoe \<le> 399" "0 \<le> doy" "doy < year_days yoe"
    "doe = year_start yoe + doy" by blast
  have yd: "year_days yoe \<le> 366" by (subst year_days_leap [OF y(1,2), of "yoe + 1"]) auto
  define mp where "mp = (5 * doy + 2) div 153"
  have mp: "0 \<le> mp" "mp \<le> 11" "month_start mp \<le> doy" "doy < month_start (mp + 1)"
    using month_exists [of doy] y(3,4) yd unfolding mp_def by linarith+
  define e where "e = doy - month_start mp"
  have e: "0 \<le> e" "e < month_start (mp + 1) - month_start mp" "month_start mp + e < year_days yoe" "doy = month_start mp + e"
    using mp(3,4) y(4) by (simp_all add: e_def)
  have zz: "z = era * 146097 + year_start yoe + month_start mp + e - 719468" using z y(5) e(4) by simp
  have "(y, m, d) = (era * 400 + yoe + (if mp \<ge> 10 then 1 else 0), mp + (if mp < 10 then 3 else -9), e + 1)"
    using c civil_from_days_eq [OF y(1,2) mp(1,2) e(1,2,3) era] unfolding zz [symmetric] by simp
  then have ymd: "y = era * 400 + yoe + (if mp \<ge> 10 then 1 else 0)" "m = mp + (if mp < 10 then 3 else -9)" "d = e + 1"
    by blast+
  have e1: "1 \<le> e + 1" using e(1) by simp
  show "datetime_days_from_civil y m d = z"
    unfolding ymd days_march [OF mp(1,2) e1 y(1,2)] zz by simp
  have "1 \<le> m" "m \<le> 12" using mp(1,2) ymd(2) by auto
  then show "civil_ok (y, m, d)"
    using month_day_bound [OF mp(1,2) y(1,2) e(1), of era] e(1-3) unfolding civil_ok_def ymd(1,2) [symmetric]
    by (simp add: ymd(3))
qed

lemma year_start_Suc:
  "0 \<le> yoe \<Longrightarrow> yoe < 399 \<Longrightarrow> year_start (yoe + 1) = year_start yoe + year_days yoe"
  "year_start 399 + year_days 399 = 146097"
  by (simp_all add: year_days_def year_start_def)

lemma civil_next:
  assumes "civil_ok (y, m, d)"
  shows "civil_ok (next_day (y, m, d))"
    and "(case next_day (y, m, d) of (y', m', d') \<Rightarrow> datetime_days_from_civil y' m' d') = datetime_days_from_civil y m d + 1"
proof -
  from civil_position [OF assms] obtain era yoe mp where p: "0 \<le> yoe" "yoe \<le> 399" "0 \<le> mp" "mp \<le> 11"
    "y = era * 400 + yoe + (if mp \<ge> 10 then 1 else 0)" "m = mp + (if mp < 10 then 3 else -9)"
    "d - 1 < month_start (mp + 1) - month_start mp" "month_start mp + (d - 1) < year_days yoe" "1 \<le> d" by blast
  have pos: "1 \<le> ct_datetime_days_in_month y' m'" if "1 \<le> m'" "m' \<le> 12" for y' m'
  proof -
    have "m' = 1 \<or> m' = 2 \<or> m' = 3 \<or> m' = 4 \<or> m' = 5 \<or> m' = 6 \<or> m' = 7 \<or> m' = 8 \<or> m' = 9 \<or> m' = 10 \<or> m' = 11 \<or> m' = 12"
      using that by presburger
    then show ?thesis by (elim disjE) (simp_all add: ct_datetime_days_in_month_def s_days_def eval_nat_numeral)
  qed
  have ok: "1 \<le> m" "m \<le> 12" using assms by (simp_all add: civil_ok_def)
  show "civil_ok (next_day (y, m, d))"
    using assms pos by (auto simp: civil_ok_def next_day_def)
  note day = days_march [OF p(3,4,9,1,2), of era, folded p(5,6)]
  note bound = month_day_bound [OF p(3,4,1,2), of d era, folded p(5,6)]
  show "(case next_day (y, m, d) of (y', m', d') \<Rightarrow> datetime_days_from_civil y' m' d') = datetime_days_from_civil y m d + 1"
  proof (cases "d < ct_datetime_days_in_month y m")
    case True
    have "1 \<le> d + 1" using p(9) by simp
    from days_march [OF p(3,4) this p(1,2), of era, folded p(5,6)] show ?thesis
      using True day by (simp add: next_day_def)
  next
    case False
    then have last: "\<not> (d < month_start (mp + 1) - month_start mp \<and> month_start mp + d < year_days yoe)"
      using bound p(9) by simp
    show ?thesis
    proof (cases "mp = 11")
      case m11: True
      then have m: "m = 2" using p(6) by simp
      have y: "y = era * 400 + yoe + 1" using p(5) m11 by simp
      have d: "month_start 11 + d = year_days yoe" 
      proof -
        have "d = ct_datetime_days_in_month y m" using False assms by (simp add: civil_ok_def)
        moreover have "(y :: int) mod 400 = (yoe + 1) mod 400" unfolding y by (simp add: add.assoc)
        ultimately show ?thesis
          using days_in_month_march [OF p(3,4), of y, folded p(6)] year_days_leap [OF p(1,2), of y] m11
          by (simp add: month_start_def)
      qed
      have next_eq: "next_day (y, m, d) = (y, 3, 1)" using False m by (simp add: next_day_def)
      show ?thesis
      proof (cases "yoe = 399")
        case True
        have "datetime_days_from_civil ((era + 1) * 400 + 0) 3 1 = (era + 1) * 146097 + year_start 0 + month_start 0 + 1 - 1 - 719468"
          using days_march [of 0 1 0 "era + 1"] by simp
        then show ?thesis using day next_eq d True year_start_Suc(2) m11 y
          by (simp add: year_start_def month_start_def algebra_simps)
      next
        case False
        then have "yoe + 1 \<le> 399" "0 \<le> yoe + 1" using p(1,2) by simp_all
        then have "datetime_days_from_civil (era * 400 + (yoe + 1)) 3 1 = era * 146097 + year_start (yoe + 1) + month_start 0 + 1 - 1 - 719468"
          using days_march [of 0 1 "yoe + 1" era] by simp
        then show ?thesis using day next_eq d False year_start_Suc(1) [OF p(1)] p(2) m11 y
          by (simp add: month_start_def algebra_simps)
      qed
    next
      case False
      then have mp: "0 \<le> mp + 1" "mp + 1 \<le> 11" using p(3,4) by simp_all
      have dlast: "d = month_start (mp + 1) - month_start mp"
      proof -
        have "d \<le> ct_datetime_days_in_month y m" "\<not> d < ct_datetime_days_in_month y m"
          using assms \<open>\<not> d < ct_datetime_days_in_month y m\<close> by (simp_all add: civil_ok_def)
        then show ?thesis using days_in_month_march [OF p(3,4), of y, folded p(6)] False by simp
      qed
      from days_march [OF mp order_refl p(1,2), of era] have
        "datetime_days_from_civil (era * 400 + yoe + (if mp + 1 \<ge> 10 then 1 else 0)) (mp + 1 + (if mp + 1 < 10 then 3 else -9)) 1 =
          datetime_days_from_civil y m d + 1"
        using day dlast by simp
      moreover have "next_day (y, m, d) =
          (era * 400 + yoe + (if mp + 1 \<ge> 10 then 1 else 0), mp + 1 + (if mp + 1 < 10 then 3 else -9), 1)"
        using \<open>\<not> d < ct_datetime_days_in_month y m\<close> p(3-6) mp by (auto simp: next_day_def)
      ultimately show ?thesis by simp
    qed
  qed
qed

lemma next_days:
  assumes "civil_ok c"
  shows "civil_ok ((next_day ^^ n) c)"
    and "(case (next_day ^^ n) c of (y, m, d) \<Rightarrow> datetime_days_from_civil y m d) =
      (case c of (y, m, d) \<Rightarrow> datetime_days_from_civil y m d) + int n"
proof (induction n)
  case 0
  { case 1 then show ?case using assms by simp }
  { case 2 then show ?case by simp }
next
  case (Suc n)
  obtain y m d where c: "(next_day ^^ n) c = (y, m, d)" by (cases "(next_day ^^ n) c")
  have ok: "civil_ok (y, m, d)" using Suc.IH(1) c by simp
  { case 1 then show ?case using civil_next(1) [OF ok] c by simp }
  { case 2 then show ?case using civil_next(2) [OF ok] Suc.IH(2) c by (simp split: prod.splits) }
qed

lemma next_day_year: "fst c \<le> fst (next_day c)" "fst (next_day c) \<le> fst c + 1"
  by (auto simp: next_day_def split: prod.splits)

lemma next_days_year: "fst c \<le> fst ((next_day ^^ n) c) \<and> fst ((next_day ^^ n) c) \<le> fst c + int n"
proof (induction n)
  case (Suc n)
  then show ?case using next_day_year [of "(next_day ^^ n) c"] by simp
qed simp

definition dt_date :: "ct_datetime \<Rightarrow> int \<times> int \<times> int" where
  "dt_date dt = (dt_year dt, dt_month dt, dt_day dt)"

definition dt_set_date :: "ct_datetime \<Rightarrow> int \<times> int \<times> int \<Rightarrow> ct_datetime" where
  "dt_set_date dt c = dt\<lparr>dt_year := fst c, dt_month := fst (snd c), dt_day := snd (snd c)\<rparr>"

lemma dt_valid_civil:
  assumes "dt_valid dt"
  shows "civil_ok (dt_date dt)" "1 \<le> dt_year dt" "dt_year dt \<le> 9999"
  using assms by (simp_all add: dt_valid_def datetime_valid_date_def civil_ok_def dt_date_def)

lemma days_era:
  assumes "civil_ok (y, m, d)"
  obtains era where "era * 400 \<le> y" "y \<le> era * 400 + 400" "era * 146097 - 719468 \<le> datetime_days_from_civil y m d"
    "datetime_days_from_civil y m d < era * 146097 + 146097 - 719468"
proof -
  from civil_position [OF assms] obtain era yoe mp where p: "0 \<le> yoe" "yoe \<le> 399" "0 \<le> mp" "mp \<le> 11"
    "y = era * 400 + yoe + (if mp \<ge> 10 then 1 else 0)" "m = mp + (if mp < 10 then 3 else -9)"
    "month_start mp + (d - 1) < year_days yoe" "1 \<le> d" by blast
  have "list_all (\<lambda>yoe. 0 \<le> year_start yoe \<and> year_start yoe + year_days yoe \<le> 146097) [0..399]" by code_simp
  then have "0 \<le> year_start yoe" "year_start yoe + year_days yoe \<le> 146097" using p(1,2) by (simp_all add: list_all_iff)
  moreover have "0 \<le> month_start mp" using p(3) by (simp add: month_start_def)
  ultimately have "era * 146097 - 719468 \<le> datetime_days_from_civil y m d"
    "datetime_days_from_civil y m d < era * 146097 + 146097 - 719468"
    using p(7,8) unfolding p(5,6) days_march [OF p(3,4,8,1,2)] by linarith+
  moreover have "era * 400 \<le> y" "y \<le> era * 400 + 400" using p(1,2,5) by auto
  ultimately show thesis using that by blast
qed

lemma days_range:
  assumes "civil_ok (y, m, d)" "1 \<le> y" "y \<le> 9999"
  shows "- 1000000 \<le> datetime_days_from_civil y m d" "datetime_days_from_civil y m d \<le> 4000000"
proof -
  from days_era [OF assms(1)] obtain era where e: "era * 400 \<le> y" "y \<le> era * 400 + 400"
    "era * 146097 - 719468 \<le> datetime_days_from_civil y m d"
    "datetime_days_from_civil y m d < era * 146097 + 146097 - 719468" by blast
  have "0 \<le> era + 1" "era \<le> 24" using e(1,2) assms(2,3) by linarith+
  then show "- 1000000 \<le> datetime_days_from_civil y m d" "datetime_days_from_civil y m d \<le> 4000000"
    using e(3,4) by linarith+
qed

lemma civil_of_days:
  assumes "civil_ok c" and z: "(case c of (y, m, d) \<Rightarrow> datetime_days_from_civil y m d) = z"
    and "- 700000000000 \<le> z" "z \<le> 700000000000"
  shows "c = datetime_civil_from_days z"
proof -
  obtain y m d where c: "c = (y, m, d)" by (cases c)
  from days_era [of y m d] assms(1) obtain era where e: "era * 400 \<le> y" "y \<le> era * 400 + 400"
    "era * 146097 - 719468 \<le> datetime_days_from_civil y m d"
    "datetime_days_from_civil y m d < era * 146097 + 146097 - 719468" unfolding c by blast
  have dz: "datetime_days_from_civil y m d = z" using z c by simp
  have "- 4900000 \<le> era" "era \<le> 4900000" using e(3,4) assms(3,4) unfolding dz by linarith+
  then have "- 1999999000 \<le> y" "y \<le> 1999999000" using e(1,2) by linarith+
  from civil_from_days_from_civil [OF _ this, of m d] show ?thesis using assms(1) dz c by simp
qed

text \<open>C29: For every valid date and time and every \<open>int\<close> number of days, \<open>ct_datetime_add_days\<close> reaches
  exactly the date that stepping the Gregorian calendar one day at a time reaches (backwards for a
  negative number, where that date exists and is unique), keeps the time of day, and refuses, leaving the
  object as it was, exactly when that date is outside the years 1 to 9999.\<close>

theorem add_days_steps_calendar:
  assumes valid: "dt_valid dt" and "- (2 ^ 31) \<le> n" "n < 2 ^ 31"
  shows "\<exists>!c. civil_ok c \<and>
      (if n \<ge> 0 then c = (next_day ^^ nat n) (dt_date dt) else (next_day ^^ nat (- n)) c = dt_date dt) \<and>
      ct_datetime_add_days (Some dt) n =
        (if 1 \<le> fst c \<and> fst c \<le> 9999 then (True, Some (dt_set_date dt c)) else (False, Some dt))"
proof -
  let ?days = "\<lambda>c. case c of (y, m, d) \<Rightarrow> datetime_days_from_civil y m d"
  let ?z = "?days (dt_date dt) + n"
  define r where "r = datetime_civil_from_days ?z"
  have ok: "civil_ok (dt_date dt)" by (rule dt_valid_civil(1) [OF valid])
  have range: "- 1000000 \<le> ?days (dt_date dt)" "?days (dt_date dt) \<le> 4000000"
    using days_range dt_valid_civil [OF valid] by (simp_all add: dt_date_def)
  then have z: "- 700000000000 \<le> ?z" "?z \<le> 700000000000" using assms(2,3) by simp_all
  have r: "civil_ok r" "?days r = ?z"
  proof -
    obtain y m d where ymd: "datetime_civil_from_days ?z = (y, m, d)" by (rule prod_cases3)
    from days_from_civil_from_days [OF z ymd] show "civil_ok r" "?days r = ?z" by (simp_all only: r_def ymd prod.case)
  qed
  have upd: "ct_datetime_add_days (Some dt) n =
      (if 1 \<le> fst r \<and> fst r \<le> 9999 then (True, Some (dt_set_date dt r)) else (False, Some dt))"
    using valid by (simp add: ct_datetime_add_days_def dt_valid_def dt_set_date_def r_def dt_date_def Let_def case_prod_beta)
  have iff: "(if n \<ge> 0 then c = (next_day ^^ nat n) (dt_date dt) else (next_day ^^ nat (- n)) c = dt_date dt) \<longleftrightarrow> c = r"
    if c: "civil_ok c" for c
  proof (cases "n \<ge> 0")
    case True
    have "(next_day ^^ nat n) (dt_date dt) = r"
      unfolding r_def by (rule civil_of_days [OF next_days(1) [OF ok] _ z]) (use next_days(2) [OF ok, of "nat n"] True in simp)
    then show ?thesis using True by simp
  next
    case False
    have steps: "?days ((next_day ^^ nat (- n)) c) = ?days c + (- n)" using next_days(2) [OF c, of "nat (- n)"] False by simp
    have "c = r" if "(next_day ^^ nat (- n)) c = dt_date dt"
      unfolding r_def by (rule civil_of_days [OF c _ z]) (use steps that in simp)
    moreover have "(next_day ^^ nat (- n)) r = dt_date dt"
    proof -
      have "(next_day ^^ nat (- n)) r = datetime_civil_from_days (?days (dt_date dt))"
        by (rule civil_of_days [OF next_days(1) [OF r(1)]])
          (use next_days(2) [OF r(1), of "nat (- n)"] False r(2) range in simp_all)
      also have "\<dots> = dt_date dt" by (rule civil_of_days [OF ok, symmetric]) (use range in simp_all)
      finally show ?thesis .
    qed
    ultimately show ?thesis using False by auto
  qed
  show ?thesis
    by (rule ex1I [of _ r], intro conjI r(1) iffD2 [OF iff [OF r(1)] refl] upd, elim conjE, erule (1) iffD1 [OF iff])
qed

theorem add_days_steps_calendar_witness:
  "\<exists>!c. civil_ok c \<and>
      (if (-30 :: int) \<ge> 0 then c = (next_day ^^ nat (-30)) (dt_date \<lparr>dt_year = 2024, dt_month = 3, dt_day = 30, dt_hour = 1, dt_min = 2, dt_sec = 3, dt_ms = 4\<rparr>)
       else (next_day ^^ nat (- (-30))) c = dt_date \<lparr>dt_year = 2024, dt_month = 3, dt_day = 30, dt_hour = 1, dt_min = 2, dt_sec = 3, dt_ms = 4\<rparr>) \<and>
      ct_datetime_add_days (Some \<lparr>dt_year = 2024, dt_month = 3, dt_day = 30, dt_hour = 1, dt_min = 2, dt_sec = 3, dt_ms = 4\<rparr>) (-30) =
        (if 1 \<le> fst c \<and> fst c \<le> 9999 then
           (True, Some (dt_set_date \<lparr>dt_year = 2024, dt_month = 3, dt_day = 30, dt_hour = 1, dt_min = 2, dt_sec = 3, dt_ms = 4\<rparr> c))
         else (False, Some \<lparr>dt_year = 2024, dt_month = 3, dt_day = 30, dt_hour = 1, dt_min = 2, dt_sec = 3, dt_ms = 4\<rparr>))"
proof (rule add_days_steps_calendar)
  show "dt_valid \<lparr>dt_year = 2024, dt_month = 3, dt_day = 30, dt_hour = 1, dt_min = 2, dt_sec = 3, dt_ms = 4\<rparr>" by code_simp
qed simp_all

section \<open>Conversion to and from seconds\<close>

record tm =
  tm_sec :: int
  tm_min :: int
  tm_hour :: int
  tm_mday :: int
  tm_mon :: int
  tm_year :: int
  tm_isdst :: int

definition dt_zero :: ct_datetime where
  "dt_zero = \<lparr>dt_year = 0, dt_month = 0, dt_day = 0, dt_hour = 0, dt_min = 0, dt_sec = 0, dt_ms = 0\<rparr>"

text \<open>\<open>localtime_r\<close> and \<open>gmtime_r\<close> (or \<open>localtime_s\<close>, \<open>gmtime_s\<close>) are passed through.\<close>

definition ct_localtime_r :: "(int \<Rightarrow> tm option) \<Rightarrow> int \<Rightarrow> tm option" where
  "ct_localtime_r localtime_r ts = localtime_r ts"

definition ct_gmtime_r :: "(int \<Rightarrow> tm option) \<Rightarrow> int \<Rightarrow> tm option" where
  "ct_gmtime_r gmtime_r ts = gmtime_r ts"

definition ct_datetime_localtime :: "(int \<Rightarrow> tm option) \<Rightarrow> int \<Rightarrow> ct_datetime" where
  "ct_datetime_localtime localtime_r seconds =
     (case ct_localtime_r localtime_r seconds of
        None \<Rightarrow> dt_zero
      | Some t \<Rightarrow>
          if tm_year t < 1 - 1900 \<or> tm_year t > 9999 - 1900 then dt_zero
          else \<lparr>dt_year = tm_year t + 1900, dt_month = tm_mon t + 1, dt_day = tm_mday t,
                 dt_hour = tm_hour t, dt_min = tm_min t, dt_sec = tm_sec t, dt_ms = 0\<rparr>)"

definition ct_datetime_now :: "clock_api \<Rightarrow> clocks \<Rightarrow> (int \<Rightarrow> tm option) \<Rightarrow> ct_datetime" where
  "ct_datetime_now api c localtime_r =
     (let now = ct_unixtime_ms api c;
          dt = ct_datetime_localtime localtime_r (now sdiv 1000)
      in if dt_year dt = 0 then dt else dt\<lparr>dt_ms := narrow_int (now smod 1000)\<rparr>)"

definition ct_datetime_mktime :: "(tm \<Rightarrow> int) \<Rightarrow> ct_datetime option \<Rightarrow> int" where
  "ct_datetime_mktime mktime dt =
     (case dt of
        None \<Rightarrow> -1
      | Some d \<Rightarrow>
          if \<not> datetime_valid_date (dt_year d) (dt_month d) (dt_day d) \<or>
             \<not> datetime_valid_time (dt_hour d) (dt_min d) (dt_sec d) (dt_ms d) then -1
          else mktime \<lparr>tm_sec = dt_sec d, tm_min = dt_min d, tm_hour = dt_hour d, tm_mday = dt_day d,
                        tm_mon = dt_month d - 1, tm_year = dt_year d - 1900, tm_isdst = -1\<rparr>)"

section \<open>Formatting\<close>

text \<open>The conversion \<open>%0wd\<close> of a number that is not negative, and the three formats.\<close>

fun dec_digits :: "nat \<Rightarrow> u8 list" where
  "dec_digits n = (if n < 10 then [of_nat (48 + n)] else dec_digits (n div 10) @ [of_nat (48 + n mod 10)])"

declare dec_digits.simps [simp del]

definition zero_pad :: "nat \<Rightarrow> int \<Rightarrow> u8 list" where
  "zero_pad w n = (let ds = dec_digits (nat n) in replicate (w - length ds) 48 @ ds)"

definition DATETIME_FMT :: "int \<Rightarrow> int \<Rightarrow> int \<Rightarrow> int \<Rightarrow> int \<Rightarrow> int \<Rightarrow> u8 list" where
  "DATETIME_FMT y mo d h mi s =
     zero_pad 4 y @ [45] @ zero_pad 2 mo @ [45] @ zero_pad 2 d @ [32] @
     zero_pad 2 h @ [58] @ zero_pad 2 mi @ [58] @ zero_pad 2 s"

definition DATETIME_FMT_ISO :: "int \<Rightarrow> int \<Rightarrow> int \<Rightarrow> int \<Rightarrow> int \<Rightarrow> int \<Rightarrow> int \<Rightarrow> u8 list" where
  "DATETIME_FMT_ISO y mo d h mi s ms =
     zero_pad 4 y @ [45] @ zero_pad 2 mo @ [45] @ zero_pad 2 d @ [84] @
     zero_pad 2 h @ [58] @ zero_pad 2 mi @ [58] @ zero_pad 2 s @ [46] @ zero_pad 3 ms"

definition DURATION_FMT :: "int \<Rightarrow> int \<Rightarrow> int \<Rightarrow> u8 list" where
  "DURATION_FMT h m s = zero_pad 2 h @ [58] @ zero_pad 2 m @ [58] @ zero_pad 2 s"

text \<open>The buffer is a block \<open>m\<close> and an offset into it, \<^const>\<open>None\<close> for \<open>NULL\<close>.  The result says whether
  the pointer to the buffer (\<^const>\<open>True\<close>) or \<open>NULL\<close> is returned.\<close>

definition fmt_clear :: "u8 list \<Rightarrow> nat option \<Rightarrow> nat \<Rightarrow> u8 list option" where
  "fmt_clear m buf bufsize = (case buf of Some p \<Rightarrow> if bufsize > 0 then mem_put m p [0] else Some m | None \<Rightarrow> Some m)"

definition fmt_finish :: "u8 list \<Rightarrow> nat \<Rightarrow> nat \<Rightarrow> u8 list \<Rightarrow> (bool \<times> u8 list) option" where
  "fmt_finish m p bufsize chars = do {
     (n, m) \<leftarrow> ct_snprintf m p bufsize True (Inr chars);
     if n < 0 \<or> nat n \<ge> bufsize then do { m \<leftarrow> mem_put m p [0]; Some (False, m) } else Some (True, m) }"

definition ct_datetime_fmt :: "ct_datetime option \<Rightarrow> u8 list \<Rightarrow> nat option \<Rightarrow> nat \<Rightarrow> (bool \<times> u8 list) option" where
  "ct_datetime_fmt dt m buf bufsize = do {
     m \<leftarrow> fmt_clear m buf bufsize;
     case (dt, buf) of
       (Some d, Some p) \<Rightarrow>
         if bufsize = 0 \<or> \<not> datetime_valid_date (dt_year d) (dt_month d) (dt_day d) \<or>
            \<not> datetime_valid_time (dt_hour d) (dt_min d) (dt_sec d) (dt_ms d) then Some (False, m)
         else fmt_finish m p bufsize
                (DATETIME_FMT (dt_year d) (dt_month d) (dt_day d) (dt_hour d) (dt_min d) (dt_sec d))
     | _ \<Rightarrow> Some (False, m) }"

definition ct_datetime_fmt_iso :: "ct_datetime option \<Rightarrow> u8 list \<Rightarrow> nat option \<Rightarrow> nat \<Rightarrow> (bool \<times> u8 list) option" where
  "ct_datetime_fmt_iso dt m buf bufsize = do {
     m \<leftarrow> fmt_clear m buf bufsize;
     case (dt, buf) of
       (Some d, Some p) \<Rightarrow>
         if bufsize = 0 \<or> \<not> datetime_valid_date (dt_year d) (dt_month d) (dt_day d) \<or>
            \<not> datetime_valid_time (dt_hour d) (dt_min d) (dt_sec d) (dt_ms d) then Some (False, m)
         else fmt_finish m p bufsize
                (DATETIME_FMT_ISO (dt_year d) (dt_month d) (dt_day d) (dt_hour d) (dt_min d) (dt_sec d) (dt_ms d))
     | _ \<Rightarrow> Some (False, m) }"

definition ct_duration_fmt :: "int \<Rightarrow> u8 list \<Rightarrow> nat option \<Rightarrow> nat \<Rightarrow> (bool \<times> u8 list) option" where
  "ct_duration_fmt sec m buf bufsize = do {
     m \<leftarrow> fmt_clear m buf bufsize;
     case buf of
       Some p \<Rightarrow>
         if sec < 0 \<or> bufsize = 0 then Some (False, m)
         else let mi = sec sdiv 60; s = sec smod 60; h = mi sdiv 60
              in fmt_finish m p bufsize (DURATION_FMT h (mi smod 60) s)
     | None \<Rightarrow> Some (False, m) }"

definition CT_DATETIME_FMT_BUFLEN :: nat where "CT_DATETIME_FMT_BUFLEN = 20"
definition CT_DATETIME_FMT_ISO_BUFLEN :: nat where "CT_DATETIME_FMT_ISO_BUFLEN = 24"
definition CT_DURATION_FMT_BUFLEN :: nat where "CT_DURATION_FMT_BUFLEN = 13"


section \<open>Formatting writes the numbers\<close>

definition dec_value :: "u8 list \<Rightarrow> int" where
  "dec_value cs = foldl (\<lambda>a c. 10 * a + (uint c - 48)) 0 cs"

lemma dec_value_snoc: "dec_value (cs @ [c]) = 10 * dec_value cs + (uint c - 48)"
  by (simp add: dec_value_def)

lemma dec_value_zeros: "dec_value (replicate k 48 @ cs) = dec_value cs"
  by (induction k) (simp_all add: dec_value_def)

lemma digit_value: "k < 10 \<Longrightarrow> uint (of_nat (48 + k) :: u8) - 48 = int k"
proof -
  assume "k < 10"
  then have "48 + k < 2 ^ LENGTH(8)" by simp
  from unat_of_nat_lt [OF this] show ?thesis by (simp only: uint_nat)
qed

lemma dec_value_digits: "dec_value (dec_digits n) = int n"
proof (induction n rule: dec_digits.induct)
  case (1 n)
  show ?case
  proof (cases "n < 10")
    case True
    have "dec_value [of_nat (48 + n)] = int n" unfolding dec_value_def using digit_value [OF True] by simp
    then show ?thesis using True by (subst dec_digits.simps) simp
  next
    case False
    have "dec_value (dec_digits n) = 10 * int (n div 10) + int (n mod 10)"
      using False 1 digit_value [of "n mod 10"] by (subst dec_digits.simps) (simp only: if_False dec_value_snoc, simp)
    also have "\<dots> = int n" by presburger
    finally show ?thesis .
  qed
qed

lemma length_dec_digits: "0 < w \<Longrightarrow> n < 10 ^ w \<Longrightarrow> length (dec_digits n) \<le> w"
proof (induction w arbitrary: n)
  case (Suc w)
  show ?case
  proof (cases "n < 10")
    case True
    then show ?thesis by (subst dec_digits.simps) simp
  next
    case False
    then have w: "0 < w" using Suc.prems by (cases w) simp_all
    have "n div 10 < 10 ^ w" using Suc.prems(2) by (simp add: less_mult_imp_div_less mult.commute)
    from Suc.IH [OF w this] show ?thesis using False by (subst dec_digits.simps) simp
  qed
qed simp

lemma dec_digits_nonzero: "0 \<notin> set (dec_digits n)"
proof (induction n rule: dec_digits.induct)
  case (1 n)
  have d: "(of_nat (48 + k) :: u8) \<noteq> 0" if "k < 10" for k
    using digit_value [OF that] by auto
  show ?case using 1 d [of n] d [of "n mod 10"] by (subst dec_digits.simps) (auto simp del: of_nat_add)
qed

lemma zero_pad_value: "0 \<le> n \<Longrightarrow> dec_value (zero_pad w n) = n"
  by (simp add: zero_pad_def Let_def dec_value_zeros dec_value_digits)

lemma length_zero_pad: "0 < w \<Longrightarrow> n < 10 ^ w \<Longrightarrow> length (zero_pad w n) = w"
  using length_dec_digits [of w "nat n"] by (cases "0 \<le> n") (simp_all add: zero_pad_def Let_def nat_less_iff)

lemma length_zero_pad_le: "0 < w \<Longrightarrow> w \<le> v \<Longrightarrow> n < 10 ^ v \<Longrightarrow> length (zero_pad w n) \<le> v"
  using length_dec_digits [of v "nat n"] by (cases "0 \<le> n") (simp_all add: zero_pad_def Let_def nat_less_iff)

lemma fmt_finish_ok:
  assumes "length chars < bufsize" "p + bufsize \<le> length m"
  shows "\<exists>m'. fmt_finish m p bufsize chars = Some (True, m') \<and> mem_put m p (chars @ [0]) = Some m'"
proof -
  obtain m' where m': "mem_put m p (chars @ [0]) = Some m'" using mem_put_ok [of p "chars @ [0]" m] assms by auto
  moreover have "take (bufsize - 1) chars = chars" using assms by simp
  ultimately show ?thesis using assms by (simp add: fmt_finish_def ct_snprintf_def vsnprintf_def)
qed

lemma mem_put_cell: "p < length m \<Longrightarrow> mem_put m p [x] = Some (m[p := x])"
  by (simp add: mem_put_def upd_conv_take_nth_drop)

lemma fmt_clear_ok: "0 < bufsize \<Longrightarrow> p + bufsize \<le> length m \<Longrightarrow> fmt_clear m (Some p) bufsize = Some (m[p := 0])"
  by (simp add: fmt_clear_def mem_put_cell)

lemma put_after_clear:
  assumes "mem_put (m[p := 0]) p (c # cs) = Some m'" "p < length m"
  shows "mem_put m p (c # cs) = Some m'"
  using assms by (auto simp: mem_put_def split: if_splits)

text \<open>The texts: their lengths, and the numbers at their places.\<close>

lemma datetime_text:
  assumes "dt_valid dt"
  defines "t \<equiv> DATETIME_FMT (dt_year dt) (dt_month dt) (dt_day dt) (dt_hour dt) (dt_min dt) (dt_sec dt)"
  shows "length t = 19"
    and "dec_value (take 4 t) = dt_year dt \<and> dec_value (take 2 (drop 5 t)) = dt_month dt \<and>
      dec_value (take 2 (drop 8 t)) = dt_day dt \<and> dec_value (take 2 (drop 11 t)) = dt_hour dt \<and>
      dec_value (take 2 (drop 14 t)) = dt_min dt \<and> dec_value (take 2 (drop 17 t)) = dt_sec dt"
    and "length (DATETIME_FMT_ISO (dt_year dt) (dt_month dt) (dt_day dt) (dt_hour dt) (dt_min dt) (dt_sec dt) (dt_ms dt)) = 23"
    and "let t = DATETIME_FMT_ISO (dt_year dt) (dt_month dt) (dt_day dt) (dt_hour dt) (dt_min dt) (dt_sec dt) (dt_ms dt) in
      dec_value (take 4 t) = dt_year dt \<and> dec_value (take 2 (drop 5 t)) = dt_month dt \<and>
      dec_value (take 2 (drop 8 t)) = dt_day dt \<and> dec_value (take 2 (drop 11 t)) = dt_hour dt \<and>
      dec_value (take 2 (drop 14 t)) = dt_min dt \<and> dec_value (take 2 (drop 17 t)) = dt_sec dt \<and>
      dec_value (take 3 (drop 20 t)) = dt_ms dt"
proof -
  have dim: "ct_datetime_days_in_month y mo \<le> 31" for y mo
  proof (cases "1 \<le> mo \<and> mo \<le> 12")
    case True
    then have "mo = 1 \<or> mo = 2 \<or> mo = 3 \<or> mo = 4 \<or> mo = 5 \<or> mo = 6 \<or> mo = 7 \<or> mo = 8 \<or> mo = 9 \<or> mo = 10 \<or> mo = 11 \<or> mo = 12"
      by presburger
    then show ?thesis by (elim disjE) (simp_all add: ct_datetime_days_in_month_def s_days_def eval_nat_numeral)
  qed (auto simp: ct_datetime_days_in_month_def)
  have v: "0 \<le> dt_year dt" "dt_year dt < 10 ^ 4" "0 \<le> dt_month dt" "dt_month dt < 10 ^ 2" "0 \<le> dt_day dt" "dt_day dt < 10 ^ 2"
    "0 \<le> dt_hour dt" "dt_hour dt < 10 ^ 2" "0 \<le> dt_min dt" "dt_min dt < 10 ^ 2" "0 \<le> dt_sec dt" "dt_sec dt < 10 ^ 2"
    "0 \<le> dt_ms dt" "dt_ms dt < 10 ^ 3"
    using assms(1) dim [of "dt_year dt" "dt_month dt"]
    by (simp_all add: dt_valid_def datetime_valid_date_def datetime_valid_time_def)
  note len = v(2) [THEN length_zero_pad [rotated], simplified] v(4,6,8,10,12) [THEN length_zero_pad [rotated], simplified]
    v(14) [THEN length_zero_pad [rotated], simplified]
  note val = v(1,3,5,7,9,11,13) [THEN zero_pad_value]
  show "length t = 19" by (simp add: t_def DATETIME_FMT_def len)
  show "dec_value (take 4 t) = dt_year dt \<and> dec_value (take 2 (drop 5 t)) = dt_month dt \<and>
      dec_value (take 2 (drop 8 t)) = dt_day dt \<and> dec_value (take 2 (drop 11 t)) = dt_hour dt \<and>
      dec_value (take 2 (drop 14 t)) = dt_min dt \<and> dec_value (take 2 (drop 17 t)) = dt_sec dt"
    by (simp add: t_def DATETIME_FMT_def len val)
  show "length (DATETIME_FMT_ISO (dt_year dt) (dt_month dt) (dt_day dt) (dt_hour dt) (dt_min dt) (dt_sec dt) (dt_ms dt)) = 23"
    by (simp add: DATETIME_FMT_ISO_def len)
  show "let t = DATETIME_FMT_ISO (dt_year dt) (dt_month dt) (dt_day dt) (dt_hour dt) (dt_min dt) (dt_sec dt) (dt_ms dt) in
      dec_value (take 4 t) = dt_year dt \<and> dec_value (take 2 (drop 5 t)) = dt_month dt \<and>
      dec_value (take 2 (drop 8 t)) = dt_day dt \<and> dec_value (take 2 (drop 11 t)) = dt_hour dt \<and>
      dec_value (take 2 (drop 14 t)) = dt_min dt \<and> dec_value (take 2 (drop 17 t)) = dt_sec dt \<and>
      dec_value (take 3 (drop 20 t)) = dt_ms dt"
    by (simp add: DATETIME_FMT_ISO_def len val Let_def)
qed


text \<open>A duration is written as hours, minutes and seconds; the last six characters are fixed.\<close>

lemma duration_text:
  assumes "0 \<le> sec" "sec < 2 ^ 31"
  defines "t \<equiv> DURATION_FMT (sec div 60 div 60) (sec div 60 mod 60) (sec mod 60)"
  shows "length t < CT_DURATION_FMT_BUFLEN"
    and "sec = dec_value (take (length t - 6) t) * 3600 + dec_value (take 2 (drop (length t - 5) t)) * 60 +
      dec_value (drop (length t - 2) t)"
    and "0 \<notin> set t"
proof -
  have h: "0 \<le> sec div 60 div 60" "sec div 60 div 60 < 10 ^ 6" using assms(1,2) by simp_all
  have m: "0 \<le> sec div 60 mod 60" "sec div 60 mod 60 < 10 ^ 2" "0 \<le> sec mod 60" "sec mod 60 < 10 ^ 2"
    using pos_mod_bound [of 60 "sec div 60"] pos_mod_bound [of 60 sec] by simp_all
  note len = length_zero_pad [OF _ m(2), simplified] length_zero_pad [OF _ m(4), simplified]
  show "length t < CT_DURATION_FMT_BUFLEN"
    using length_zero_pad_le [of 2 6, OF _ _ h(2)] by (simp add: t_def DURATION_FMT_def len CT_DURATION_FMT_BUFLEN_def)
  have "sec = (sec div 60 div 60) * 3600 + (sec div 60 mod 60) * 60 + sec mod 60"
    using div_mult_mod_eq [of sec 60] div_mult_mod_eq [of "sec div 60" 60] by linarith
  moreover have "take (length t - 6) t = zero_pad 2 (sec div 60 div 60)"
    "take 2 (drop (length t - 5) t) = zero_pad 2 (sec div 60 mod 60)" "drop (length t - 2) t = zero_pad 2 (sec mod 60)"
    by (simp_all add: t_def DURATION_FMT_def len)
  ultimately show "sec = dec_value (take (length t - 6) t) * 3600 + dec_value (take 2 (drop (length t - 5) t)) * 60 +
      dec_value (drop (length t - 2) t)"
    using zero_pad_value [OF h(1)] zero_pad_value [OF m(1)] zero_pad_value [OF m(3)] by simp
  show "0 \<notin> set t" using dec_digits_nonzero by (auto simp: t_def DURATION_FMT_def zero_pad_def Let_def)
qed

text \<open>A formatted buffer holds the text and its terminator; everything else is as it was.\<close>

definition wrote :: "u8 list \<Rightarrow> nat \<Rightarrow> u8 list \<Rightarrow> u8 list \<Rightarrow> bool" where
  "wrote m p t m' \<longleftrightarrow> mem_put m p (t @ [0]) = Some m'"

lemma fmt_wrote:
  assumes "length t < bufsize" "p + bufsize \<le> length m"
  shows "\<exists>m'. fmt_finish (m[p := 0]) p bufsize t = Some (True, m') \<and> wrote m p t m'"
proof -
  have "p + bufsize \<le> length (m[p := 0])" "p < length m" using assms by simp_all
  from fmt_finish_ok [OF assms(1) this(1)] this(2) show ?thesis
    unfolding wrote_def by (cases t) (use put_after_clear in auto)
qed

text \<open>C30: Given buffers of the documented lengths, formatting a valid date and time, in both formats, and
  formatting any \<open>int\<close> duration that is not negative succeeds inside the buffer, changes nothing behind the
  terminator, and loses nothing: the numbers at the fixed places of the text are the fields of the date,
  and the hours, minutes and seconds of the duration add up to it.\<close>

theorem formats_read_back:
  assumes "dt_valid dt" and "0 \<le> sec" "sec < 2 ^ 31"
    and "CT_DATETIME_FMT_BUFLEN \<le> n1" "CT_DATETIME_FMT_ISO_BUFLEN \<le> n2" "CT_DURATION_FMT_BUFLEN \<le> n3"
    and "p + n1 \<le> length m" "p + n2 \<le> length m" "p + n3 \<le> length m"
  shows "\<exists>t1 t2 t3 m1 m2 m3.
    ct_datetime_fmt (Some dt) m (Some p) n1 = Some (True, m1) \<and> wrote m p t1 m1 \<and>
    ct_datetime_fmt_iso (Some dt) m (Some p) n2 = Some (True, m2) \<and> wrote m p t2 m2 \<and>
    ct_duration_fmt sec m (Some p) n3 = Some (True, m3) \<and> wrote m p t3 m3 \<and>
    [dec_value (take 4 t1), dec_value (take 2 (drop 5 t1)), dec_value (take 2 (drop 8 t1)),
     dec_value (take 2 (drop 11 t1)), dec_value (take 2 (drop 14 t1)), dec_value (take 2 (drop 17 t1))] =
      [dt_year dt, dt_month dt, dt_day dt, dt_hour dt, dt_min dt, dt_sec dt] \<and>
    [dec_value (take 4 t2), dec_value (take 2 (drop 5 t2)), dec_value (take 2 (drop 8 t2)),
     dec_value (take 2 (drop 11 t2)), dec_value (take 2 (drop 14 t2)), dec_value (take 2 (drop 17 t2)), dec_value (take 3 (drop 20 t2))] =
      [dt_year dt, dt_month dt, dt_day dt, dt_hour dt, dt_min dt, dt_sec dt, dt_ms dt] \<and>
    dec_value (take (length t3 - 6) t3) * 3600 + dec_value (take 2 (drop (length t3 - 5) t3)) * 60 +
      dec_value (drop (length t3 - 2) t3) = sec"
proof -
  note tx = datetime_text [OF assms(1)]
  note dtxt = duration_text [OF assms(2,3)]
  have n: "0 < n1" "0 < n2" "0 < n3" using assms(4-6) by (simp_all add: CT_DATETIME_FMT_BUFLEN_def CT_DATETIME_FMT_ISO_BUFLEN_def CT_DURATION_FMT_BUFLEN_def)
  have l: "19 < n1" "23 < n2" using assms(4,5) by (simp_all add: CT_DATETIME_FMT_BUFLEN_def CT_DATETIME_FMT_ISO_BUFLEN_def)
  from fmt_wrote [OF l(1) [folded tx(1)] assms(7)] obtain m1 where m1:
    "ct_datetime_fmt (Some dt) m (Some p) n1 = Some (True, m1)"
    "wrote m p (DATETIME_FMT (dt_year dt) (dt_month dt) (dt_day dt) (dt_hour dt) (dt_min dt) (dt_sec dt)) m1"
    using fmt_clear_ok [OF n(1) assms(7)] n(1) assms(1) by (auto simp: ct_datetime_fmt_def dt_valid_def)
  from fmt_wrote [OF l(2) [folded tx(3)] assms(8)] obtain m2 where m2:
    "ct_datetime_fmt_iso (Some dt) m (Some p) n2 = Some (True, m2)"
    "wrote m p (DATETIME_FMT_ISO (dt_year dt) (dt_month dt) (dt_day dt) (dt_hour dt) (dt_min dt) (dt_sec dt) (dt_ms dt)) m2"
    using fmt_clear_ok [OF n(2) assms(8)] n(2) assms(1) by (auto simp: ct_datetime_fmt_iso_def dt_valid_def)
  from fmt_wrote [OF less_le_trans [OF dtxt(1) assms(6)] assms(9)] obtain m3 where m3:
    "ct_duration_fmt sec m (Some p) n3 = Some (True, m3)"
    "wrote m p (DURATION_FMT (sec div 60 div 60) (sec div 60 mod 60) (sec mod 60)) m3"
    using fmt_clear_ok [OF n(3) assms(9)] n(3) assms(2) by (auto simp: ct_duration_fmt_def Let_def sdiv_pos smod_pos)
  show ?thesis
    using m1 m2 m3 tx(2) tx(4) [unfolded Let_def] dtxt(2) [symmetric] by blast
qed

theorem formats_read_back_witness:
  "\<exists>t1 t2 t3 m1 m2 m3.
    ct_datetime_fmt (Some \<lparr>dt_year = 2024, dt_month = 2, dt_day = 29, dt_hour = 23, dt_min = 59, dt_sec = 60, dt_ms = 7\<rparr>) (replicate 24 1) (Some 0) 20 = Some (True, m1) \<and>
    wrote (replicate 24 1) 0 t1 m1 \<and>
    ct_datetime_fmt_iso (Some \<lparr>dt_year = 2024, dt_month = 2, dt_day = 29, dt_hour = 23, dt_min = 59, dt_sec = 60, dt_ms = 7\<rparr>) (replicate 24 1) (Some 0) 24 = Some (True, m2) \<and>
    wrote (replicate 24 1) 0 t2 m2 \<and>
    ct_duration_fmt 2147483647 (replicate 24 1) (Some 0) 13 = Some (True, m3) \<and> wrote (replicate 24 1) 0 t3 m3"
  using formats_read_back [of "\<lparr>dt_year = 2024, dt_month = 2, dt_day = 29, dt_hour = 23, dt_min = 59, dt_sec = 60, dt_ms = 7\<rparr>" 2147483647 20 24 13 0 "replicate 24 1"]
  by (simp add: dt_valid_def datetime_valid_date_def datetime_valid_time_def ct_datetime_days_in_month_def s_days_def
      datetime_leap_year_def smod_pos CT_DATETIME_FMT_BUFLEN_def CT_DATETIME_FMT_ISO_BUFLEN_def CT_DURATION_FMT_BUFLEN_def) blast

text \<open>What a date and time on the calendar is, told apart from the code: months of 31, 30 and 28 or 29 days,
  a leap year every four years but only every fourth century, hours to 23, minutes to 59.  The seconds go
  to 60, a leap second, which the code takes and the tests allow, although the header says 59.\<close>

definition leap_year :: "int \<Rightarrow> bool" where
  "leap_year y \<longleftrightarrow> 4 dvd y \<and> (100 dvd y \<longrightarrow> 400 dvd y)"

definition month_length :: "int \<Rightarrow> int \<Rightarrow> int" where
  "month_length y mo = (if mo = 2 then if leap_year y then 29 else 28 else if mo \<in> {4, 6, 9, 11} then 30 else 31)"

definition on_calendar :: "ct_datetime \<Rightarrow> bool" where
  "on_calendar dt \<longleftrightarrow> 1 \<le> dt_year dt \<and> dt_year dt \<le> 9999 \<and> 1 \<le> dt_month dt \<and> dt_month dt \<le> 12 \<and>
     1 \<le> dt_day dt \<and> dt_day dt \<le> month_length (dt_year dt) (dt_month dt) \<and> 0 \<le> dt_hour dt \<and> dt_hour dt < 24 \<and>
     0 \<le> dt_min dt \<and> dt_min dt < 60 \<and> 0 \<le> dt_sec dt \<and> dt_sec dt \<le> 60 \<and> 0 \<le> dt_ms dt \<and> dt_ms dt < 1000"

lemma leap_year_code: "datetime_leap_year y = leap_year y"
proof -
  have "400 dvd y \<Longrightarrow> 4 dvd y" "400 dvd y \<Longrightarrow> 100 dvd y" by (auto elim: dvd_trans [rotated])
  then show ?thesis by (auto simp: datetime_leap_year_def leap_year_def smod_zero dvd_eq_mod_eq_0)
qed

lemma month_length_code:
  assumes "1 \<le> mo" "mo \<le> 12"
  shows "ct_datetime_days_in_month y mo = month_length y mo"
proof -
  have "mo = 1 \<or> mo = 2 \<or> mo = 3 \<or> mo = 4 \<or> mo = 5 \<or> mo = 6 \<or> mo = 7 \<or> mo = 8 \<or> mo = 9 \<or> mo = 10 \<or> mo = 11 \<or> mo = 12"
    using assms by presburger
  then show ?thesis
    by (elim disjE) (simp_all add: ct_datetime_days_in_month_def month_length_def leap_year_code s_days_def eval_nat_numeral)
qed

lemma dt_valid_calendar: "dt_valid dt \<longleftrightarrow> on_calendar dt"
  using month_length_code [of "dt_month dt" "dt_year dt"]
  by (auto simp: dt_valid_def datetime_valid_date_def datetime_valid_time_def on_calendar_def)

text \<open>A format of \<open>k\<close> characters: it succeeds if there is room, and ends as the empty string otherwise.\<close>

lemma fmt_finish_exact:
  assumes "p + n \<le> length m" "0 < n"
  shows "\<exists>m'. fmt_finish (m[p := 0]) p n t = Some (length t < n, m') \<and> length m' = length m \<and>
    (length t < n \<or> m' ! p = 0) \<and> take p m' = take p m \<and> drop (p + n) m' = drop (p + n) m"
proof (cases "length t < n")
  case True
  then obtain m' where m': "fmt_finish (m[p := 0]) p n t = Some (True, m')" "mem_put m p (t @ [0]) = Some m'"
    using fmt_wrote [OF True assms(1)] by (auto simp: wrote_def)
  moreover have "length m' = length m" by (rule mem_put_length [OF m'(2)])
  moreover have "take p m' = take p m" "drop (p + n) m' = drop (p + n) m"
    using mem_put_frame [OF m'(2), of p] mem_put_frame(2) [OF m'(2), of "p + n"] True by simp_all
  ultimately show ?thesis using True by simp
next
  case False
  have pm: "p < length m" using assms by simp
  let ?c = "take (n - 1) t @ [0]"
  have lc: "length ?c = n" using False assms(2) by simp
  then obtain m1 where m1: "mem_put (m[p := 0]) p ?c = Some m1" "length m1 = length m"
    using mem_put_ok [of p ?c "m[p := 0]"] mem_put_length assms(1) by fastforce
  have "fmt_finish (m[p := 0]) p n t = Some (False, m1[p := 0])"
    using m1 False pm assms(2) by (simp add: fmt_finish_def ct_snprintf_def vsnprintf_def mem_put_cell)
  moreover have "take p m1 = take p m" "drop (p + n) m1 = drop (p + n) m"
    using mem_put_frame [OF m1(1), of p] mem_put_frame(2) [OF m1(1), of "p + n"] lc assms(2) by simp_all
  ultimately show ?thesis using m1(2) pm assms(2) False by simp
qed



section \<open>Clock arithmetic\<close>

text \<open>The counter of Windows is scaled in two parts: the result is the exact quotient, and the product
  of the remainder fits 63 bits for every frequency below 9 THz, where the naive product would not.\<close>

lemma hrtime_exact:
  assumes "clk_qpc c = Some count" "0 \<le> count" "0 < freq"
  shows "ct_gethrtime_us CT_OS_WIN c (Some freq) = (count * 1000000 div freq, Some freq)"
    and "freq \<le> 9000000000000 \<Longrightarrow> (count mod freq) * 1000000 < 2 ^ 63"
proof -
  have r: "0 \<le> count mod freq" "count mod freq < freq" using assms by simp_all
  have "count * 1000000 = (count div freq * freq + count mod freq) * 1000000" by simp
  also have "\<dots> = (count mod freq) * 1000000 + (count div freq * 1000000) * freq" by (simp only: ring_distribs ac_simps)
  finally have "count * 1000000 div freq = count div freq * 1000000 + (count mod freq) * 1000000 div freq"
    using assms(3) by simp
  then show "ct_gethrtime_us CT_OS_WIN c (Some freq) = (count * 1000000 div freq, Some freq)"
    using assms r by (simp add: ct_gethrtime_us_def sdiv_pos smod_pos)
  show "(count mod freq) * 1000000 < 2 ^ 63" if "freq \<le> 9000000000000" using r that by simp
qed

text \<open>The two wall clocks read at one moment agree.\<close>

lemma wall_clocks_agree:
  assumes "0 \<le> sec" "0 \<le> frac" "frac < 1000000"
  shows "clk_timeofday c = Some (sec, frac) \<Longrightarrow> ct_unixtime_ms CT_GETTIMEOFDAY c = ct_unixtime_us CT_GETTIMEOFDAY c div 1000"
    and "clk_realtime c = Some (sec, 1000 * frac + nano) \<Longrightarrow> 0 \<le> nano \<Longrightarrow> nano < 1000 \<Longrightarrow>
      ct_unixtime_ms HAVE_CLOCK_GETTIME c = ct_unixtime_us HAVE_CLOCK_GETTIME c div 1000"
proof -
  have "(sec * 1000000 + x) div 1000 = sec * 1000 + x div 1000" for x :: int
    using div_mult_self3 [of 1000 "sec * 1000" x] by (simp add: algebra_simps)
  note d = this
  show "ct_unixtime_ms CT_GETTIMEOFDAY c = ct_unixtime_us CT_GETTIMEOFDAY c div 1000" if "clk_timeofday c = Some (sec, frac)"
    using that assms by (simp add: ct_unixtime_ms_def ct_unixtime_us_def sdiv_pos d)
  show "ct_unixtime_ms HAVE_CLOCK_GETTIME c = ct_unixtime_us HAVE_CLOCK_GETTIME c div 1000"
    if "clk_realtime c = Some (sec, 1000 * frac + nano)" "0 \<le> nano" "nano < 1000"
    using that assms by (simp add: ct_unixtime_ms_def ct_unixtime_us_def sdiv_pos d zdiv_zmult2_eq [symmetric])
qed

text \<open>A sleep that returns without an error has slept at least as long as was asked for, however often it
  was interrupted: \<open>elapsed\<close> reads the nanoseconds that have passed.\<close>

definition sleeps_well :: "'s nanosleep \<Rightarrow> ('s \<Rightarrow> int) \<Rightarrow> bool" where
  "sleeps_well nanosleep elapsed \<longleftrightarrow> (\<forall>s req. case nanosleep s req of (finished, eintr, rem, s') \<Rightarrow>
      finished \<and> elapsed s + (fst req * 1000000000 + snd req) \<le> elapsed s' \<or>
      \<not> finished \<and> eintr \<and> elapsed s + (fst req * 1000000000 + snd req) \<le> elapsed s' + (fst rem * 1000000000 + snd rem))"

lemma sleep_loop_elapsed:
  "sleep_loop nanosleep req s = Some s' \<Longrightarrow> sleeps_well nanosleep elapsed \<Longrightarrow>
   elapsed s + (fst req * 1000000000 + snd req) \<le> elapsed s'"
proof (induction nanosleep req s s' rule: sleep_loop.raw_induct [rotated 1, consumes 1, case_names step])
  case (step f nanosleep req s s')
  obtain finished eintr rem s1 where n: "nanosleep s req = (finished, eintr, rem, s1)" by (rule prod_cases4)
  have "(if \<not> finished \<and> eintr then f nanosleep rem s1 else Some s1) = Some s'" using step(2) n by simp
  moreover have "finished \<and> elapsed s + (fst req * 1000000000 + snd req) \<le> elapsed s1 \<or>
      \<not> finished \<and> eintr \<and> elapsed s + (fst req * 1000000000 + snd req) \<le> elapsed s1 + (fst rem * 1000000000 + snd rem)"
    using spec [OF spec [OF step(3) [unfolded sleeps_well_def], of s], of req] n by simp
  ultimately show ?case using step(1) [of nanosleep rem s1 s'] step(3) by (cases finished) simp_all
qed

lemma msleep_elapsed:
  assumes "sleeps_well nanosleep elapsed" and "api \<noteq> CT_OS_WIN" "ct_msleep api Sleep nanosleep ms s = Some s'"
  shows "elapsed s + uint ms * 1000000 \<le> elapsed s'"
proof -
  have "uint ms * 1000000 = (uint ms div 1000 * 1000 + uint ms mod 1000) * 1000000" by simp
  also have "\<dots> = uint (ms div 1000) * 1000000000 + uint (ms mod 1000) * 1000000"
    by (simp only: ring_distribs uint_div uint_mod) simp
  finally show ?thesis using sleep_loop_elapsed [OF _ assms(1)] assms(2,3) by (fastforce simp: ct_msleep_def)
qed

end
