(* ===== verification/Coter_Random.thy ===== *)
theory Coter_Random
  imports Complex_Main Coter_Digest Coter_Time
begin

text \<open>
  \<open>core/rand.h\<close>, \<open>rand.c\<close>: the xoroshiro128++ generator, its seeding through SplitMix64, and what is drawn from
  it: integers, integers of a range by rejection, fractions and bytes.  The rejection loop need not end for every
  state, so it is a partial function; \<open>random_range_uniform\<close> says when it ends and that nothing is favoured.
\<close>

section \<open>The generator\<close>

record ct_random =
  rnd_s0 :: u64
  rnd_s1 :: u64

definition random_rotl :: "u64 \<Rightarrow> nat \<Rightarrow> u64" where
  "random_rotl x k = push_bit k x OR drop_bit (64 - k) x"

definition random_splitmix64 :: "u64 \<Rightarrow> u64 \<times> u64" where
  "random_splitmix64 state =
     (let state = state + 0x9E3779B97F4A7C15;
          z = state;
          z = (z XOR drop_bit 30 z) * 0xBF58476D1CE4E5B9;
          z = (z XOR drop_bit 27 z) * 0x94D049BB133111EB
      in (z XOR drop_bit 31 z, state))"

definition ct_random_seed :: "ct_random option \<Rightarrow> u64 \<Rightarrow> ct_random option" where
  "ct_random_seed self seed =
     (case self of
        None \<Rightarrow> None
      | Some r \<Rightarrow>
          let (s0, seed) = random_splitmix64 seed;
              (s1, seed) = random_splitmix64 seed;
              r = r\<lparr>rnd_s0 := s0, rnd_s1 := s1\<rparr>
          in Some (if rnd_s0 r = 0 \<and> rnd_s1 r = 0 then r\<lparr>rnd_s0 := 0x9E3779B97F4A7C15\<rparr> else r))"

definition random_mix64 :: "u64 \<Rightarrow> u64" where
  "random_mix64 value =
     (let value = value XOR drop_bit 30 value;
          value = value * 0xBF58476D1CE4E5B9;
          value = value XOR drop_bit 27 value;
          value = value * 0x94D049BB133111EB
      in value XOR drop_bit 31 value)"

text \<open>Each clock is read once, in the order of the code; \<open>freq\<close> is the cached frequency of \<open>ct_gethrtime_us\<close>.\<close>

definition random_seed_material :: "clock_api \<Rightarrow> (nat \<Rightarrow> clocks) \<Rightarrow> int option \<Rightarrow> int \<Rightarrow> addr \<Rightarrow> u64" where
  "random_seed_material api c freq pid context =
     (let seed = word_of_int (ct_unixtime_sec (c 0));
          seed = seed XOR push_bit 7 (word_of_int (ct_unixtime_us api (c 1)));
          seed = seed XOR push_bit 17 (word_of_int (ct_unixtime_ms api (c 2)));
          seed = seed XOR push_bit 29 (word_of_int (ct_gettick_ms api (c 3)));
          seed = seed XOR push_bit 41 (word_of_int (fst (ct_gethrtime_us api (c 4) freq)));
          seed = seed XOR push_bit 53 (word_of_int pid);
          seed = seed XOR context;
          seed = seed XOR random_rotl seed 17
      in random_mix64 seed)"

definition ct_random_init ::
  "clock_api \<Rightarrow> (nat \<Rightarrow> clocks) \<Rightarrow> int option \<Rightarrow> int \<Rightarrow> addr \<Rightarrow> ct_random option \<Rightarrow> ct_random option" where
  "ct_random_init api c freq pid addr self =
     (case self of None \<Rightarrow> None | Some r \<Rightarrow> ct_random_seed self (random_seed_material api c freq pid addr))"

text \<open>The body of \<open>ct_random_u64\<close>.\<close>

definition random_next :: "ct_random \<Rightarrow> u64 \<times> ct_random" where
  "random_next self =
     (let s0 = rnd_s0 self;
          s1 = rnd_s1 self;
          result = random_rotl (s0 + s1) 17 + s0;
          s1 = s1 XOR s0
      in (result, self\<lparr>rnd_s0 := random_rotl s0 49 XOR s1 XOR push_bit 21 s1, rnd_s1 := random_rotl s1 28\<rparr>))"

definition ct_random_u64 :: "ct_random option \<Rightarrow> u64 \<times> ct_random option" where
  "ct_random_u64 self =
     (case self of None \<Rightarrow> (0, None) | Some r \<Rightarrow> let (x, r) = random_next r in (x, Some r))"

definition random_i64_from_u64 :: "u64 \<Rightarrow> int" where
  "random_i64_from_u64 value =
     (if value \<le> 0x7FFFFFFFFFFFFFFF then uint value else - uint (NOT value) - 1)"

definition ct_random_i64 :: "ct_random option \<Rightarrow> int \<times> ct_random option" where
  "ct_random_i64 self = (let (x, self) = ct_random_u64 self in (random_i64_from_u64 x, self))"

definition random_threshold :: "u64 \<Rightarrow> u64" where
  "random_threshold rng = (0 - rng) mod rng"

text \<open>The loop of \<open>ct_random_u64_range\<close>; \<^const>\<open>None\<close> is a loop that does not end.\<close>

partial_function (option) range_loop :: "u64 \<Rightarrow> u64 \<Rightarrow> u64 \<Rightarrow> ct_random \<Rightarrow> (u64 \<times> ct_random) option" where
  "range_loop lo rng threshold self =
     (let (sample, self) = random_next self in
      if sample \<ge> threshold then Some (lo + sample mod rng, self)
      else range_loop lo rng threshold self)"

declare range_loop.simps [code]

definition ct_random_u64_range :: "ct_random option \<Rightarrow> u64 \<Rightarrow> u64 \<Rightarrow> (u64 \<times> ct_random option) option" where
  "ct_random_u64_range self lo hi =
     (case self of
        None \<Rightarrow> Some (0, None)
      | Some r \<Rightarrow>
          if hi \<le> lo then Some (lo, self)
          else let rng = hi - lo; threshold = random_threshold rng
               in map_option (\<lambda>(x, r). (x, Some r)) (range_loop lo rng threshold r))"

definition ct_random_i64_range :: "ct_random option \<Rightarrow> int \<Rightarrow> int \<Rightarrow> (int \<times> ct_random option) option" where
  "ct_random_i64_range self lo hi =
     (case self of
        None \<Rightarrow> Some (0, None)
      | Some r \<Rightarrow>
          if hi \<le> lo then Some (lo, self)
          else let offset = 0x8000000000000000;
                   umin = word_of_int lo XOR offset;
                   umax = word_of_int hi XOR offset
               in map_option (\<lambda>(value, self). (random_i64_from_u64 (value XOR offset), self))
                    (ct_random_u64_range self umin umax))"

text \<open>The product is exact in IEEE double precision, so it is taken in \<^typ>\<open>real\<close>.\<close>

definition ct_random_f64 :: "ct_random option \<Rightarrow> real \<times> ct_random option" where
  "ct_random_f64 self =
     (case self of
        None \<Rightarrow> (0, None)
      | Some r \<Rightarrow> let (x, self) = ct_random_u64 self in (real (unat (drop_bit 11 x)) * (1 / 2 ^ 53), self))"

function random_bytes_loop ::
  "ct_endian \<Rightarrow> u8 list \<Rightarrow> nat \<Rightarrow> nat \<Rightarrow> ct_random \<Rightarrow> (u8 list \<times> ct_random) option" where
  "random_bytes_loop sys out i n self =
     (if i + 8 \<le> n then
        let (value, self) = random_next self in
        case mem_put out i (native_bytes sys value) of
          None \<Rightarrow> None
        | Some out \<Rightarrow> random_bytes_loop sys out (i + 8) n self
      else if i < n then
        let (value, self) = random_next self in
        map_option (\<lambda>out. (out, self)) (mem_put out i (take (n - i) (native_bytes sys value)))
      else Some (out, self))"
  by pat_completeness auto

termination by (relation "measure (\<lambda>(sys, out, i, n, self). n - i)") auto

declare random_bytes_loop.simps [simp del]

definition ct_random_bytes ::
  "ct_endian \<Rightarrow> ct_random option \<Rightarrow> u8 list option \<Rightarrow> nat \<Rightarrow> (u8 list option \<times> ct_random option) option" where
  "ct_random_bytes sys self buffer n =
     (case (self, buffer) of
        (Some r, Some out) \<Rightarrow> map_option (\<lambda>(out, r). (Some out, Some r)) (random_bytes_loop sys out 0 n r)
      | _ \<Rightarrow> Some (buffer, self))"

section \<open>The sequence of states\<close>

definition random_step :: "ct_random \<Rightarrow> ct_random" where
  "random_step self = snd (random_next self)"

text \<open>The \<open>n\<close>-th value drawn from a state.\<close>

definition random_sample :: "ct_random \<Rightarrow> nat \<Rightarrow> u64" where
  "random_sample self n = fst (random_next ((random_step ^^ n) self))"

definition random_unstep :: "ct_random \<Rightarrow> ct_random" where
  "random_unstep self =
     (let x = word_rotr 28 (rnd_s1 self);
          s0 = word_rotr 49 (rnd_s0 self XOR x XOR push_bit 21 x)
      in self\<lparr>rnd_s0 := s0, rnd_s1 := x XOR s0\<rparr>)"

lemma random_rotl_word: "0 < k \<Longrightarrow> k < 64 \<Longrightarrow> random_rotl x k = word_rotl k x"
  using rotl64 [of k x] by (simp add: random_rotl_def)

lemma xor_cancel: "((a :: u64) XOR x XOR y) XOR x XOR y = a" "(a XOR b) XOR b = a" "a XOR (a XOR b) = b"
  by (simp_all add: xor.assoc xor.left_commute)

text \<open>A step can be undone, so no two states lead to the same one.\<close>

lemma random_unstep_step: "random_unstep (random_step s) = s"
proof -
  define x where "x = rnd_s1 s XOR rnd_s0 s"
  have "random_step s = s\<lparr>rnd_s0 := word_rotl 49 (rnd_s0 s) XOR x XOR push_bit 21 x, rnd_s1 := word_rotl 28 x\<rparr>"
    by (simp add: random_step_def random_next_def Let_def random_rotl_word x_def)
  then show ?thesis
    by (simp add: random_unstep_def Let_def xor_cancel) (simp add: x_def xor_cancel)
qed

lemma inj_random_step: "inj random_step"
  by (rule inj_on_inverseI [of UNIV random_unstep]) (rule random_unstep_step)

lemma finite_random: "finite (UNIV :: ct_random set)"
proof -
  have "UNIV \<subseteq> (\<lambda>(a, b). \<lparr>rnd_s0 = a, rnd_s1 = b\<rparr>) ` (UNIV :: (u64 \<times> u64) set)"
  proof
    fix s :: ct_random
    show "s \<in> (\<lambda>(a, b). \<lparr>rnd_s0 = a, rnd_s1 = b\<rparr>) ` UNIV"
      by (cases s) auto
  qed
  then show ?thesis by (rule finite_subset) simp
qed

text \<open>So every state comes back after finitely many draws.\<close>

lemma random_cycle: "\<exists>n > 0. (random_step ^^ n) s = s"
proof -
  have "finite {y. \<exists>n. y = (random_step ^^ n) s}" using finite_random by (rule finite_subset [rotated]) simp
  from funpow_inj_finite [OF inj_random_step this] show ?thesis by blast
qed

text \<open>The all-zero state, in which the generator would be stuck, is never entered: not by a step, and not by seeding.\<close>

definition random_zero :: "ct_random \<Rightarrow> bool" where
  "random_zero s \<longleftrightarrow> rnd_s0 s = 0 \<and> rnd_s1 s = 0"

lemma random_step_zero: "random_zero (random_step s) \<longleftrightarrow> random_zero s"
proof -
  define z where "z = s\<lparr>rnd_s0 := 0, rnd_s1 := 0\<rparr>"
  have z: "random_zero t \<longleftrightarrow> t = z" for t
    by (cases t; cases s) (simp add: random_zero_def z_def)
  have "random_step z = z" by (simp add: z_def random_step_def random_next_def random_rotl_def Let_def)
  then show ?thesis using z inj_random_step by (metis injD)
qed

lemma random_funpow_zero: "random_zero ((random_step ^^ n) s) \<longleftrightarrow> random_zero s"
  by (induction n) (simp_all add: random_step_zero)

lemma random_seed_nonzero: "ct_random_seed (Some r) seed = Some r' \<Longrightarrow> \<not> random_zero r'"
  by (auto simp: ct_random_seed_def random_zero_def Let_def split: prod.splits if_splits)

section \<open>Ranges\<close>

lemma range_loop_step:
  "range_loop lo rng t s =
     (if random_sample s 0 \<ge> t then Some (lo + random_sample s 0 mod rng, random_step s)
      else range_loop lo rng t (random_step s))"
  by (subst range_loop.simps) (simp add: random_sample_def random_step_def split: prod.split)

lemma random_sample_step: "random_sample (random_step s) n = random_sample s (Suc n)"
  by (simp add: random_sample_def funpow_swap1)

text \<open>The loop returns the first accepted sample, reduced, and returns exactly if there is one.\<close>

lemma range_loop_first:
  assumes "random_sample s n \<ge> t" "\<forall>i < n. random_sample s i < t"
  shows "range_loop lo rng t s = Some (lo + random_sample s n mod rng, (random_step ^^ Suc n) s)"
  using assms
proof (induction n arbitrary: s)
  case 0
  then show ?case by (subst range_loop_step) simp
next
  case (Suc n)
  then have "\<not> random_sample s 0 \<ge> t" by (simp add: not_le)
  then have "range_loop lo rng t s = range_loop lo rng t (random_step s)" by (subst range_loop_step) simp
  also have "\<dots> = Some (lo + random_sample (random_step s) n mod rng, (random_step ^^ Suc n) (random_step s))"
    using Suc by (intro Suc.IH) (auto simp: random_sample_step)
  finally show ?case by (simp add: random_sample_step funpow_swap1)
qed


lemma range_loop_result:
  "range_loop lo rng t s = Some y \<Longrightarrow> \<exists>n. random_sample s n \<ge> t \<and> fst y = lo + random_sample s n mod rng"
proof (induction lo rng t s y rule: range_loop.raw_induct [rotated 1, consumes 1, case_names loop])
  case (loop f lo rng t s y)
  show ?case
  proof (cases "random_sample s 0 \<ge> t")
    case True
    then show ?thesis using loop(2)
      by (intro exI [of _ 0]) (auto simp: random_sample_def split: prod.splits)
  next
    case False
    then have "f lo rng t (random_step s) = Some y"
      using loop(2) by (auto simp: random_sample_def random_step_def split: prod.splits)
    from loop(1) [OF this] show ?thesis by (auto simp: random_sample_step)
  qed
qed

lemma range_loop_iff:
  "(\<exists>y. range_loop lo rng t s = Some y) \<longleftrightarrow> (\<exists>n. random_sample s n \<ge> t)"
proof
  assume "\<exists>n. random_sample s n \<ge> t"
  define n where "n = (LEAST n. random_sample s n \<ge> t)"
  have "random_sample s n \<ge> t" "\<forall>i < n. random_sample s i < t"
    unfolding n_def using \<open>\<exists>n. random_sample s n \<ge> t\<close> by (auto intro: LeastI_ex dest: not_less_Least simp: not_le)
  then show "\<exists>y. range_loop lo rng t s = Some y" using range_loop_first by blast
qed (use range_loop_result in fastforce)

text \<open>The threshold is what is left of \<open>2\<^sup>6\<^sup>4\<close> after cutting it into pieces of the size of the range.\<close>

lemma random_threshold_unat:
  assumes "rng \<noteq> 0"
  shows "unat (random_threshold rng) = 2 ^ 64 mod unat rng"
proof -
  have le: "unat rng \<le> 2 ^ 64" using unat_u64_bound [of rng] by simp
  have "unat (0 - rng) = 2 ^ 64 - unat rng"
    using assms unat_sub_if' [of 0 rng] by (simp add: unat_eq_zero del: diff_0)
  then have "unat (random_threshold rng) = (2 ^ 64 - unat rng) mod unat rng"
    by (simp add: random_threshold_def unat_mod)
  also have "\<dots> = 2 ^ 64 mod unat rng" using le by (rule le_mod_geq [symmetric])
  finally show ?thesis .
qed

lemma count_residues:
  assumes "\<rho> < r"
  shows "card {x :: nat. a \<le> x \<and> x < a + q * r \<and> x mod r = \<rho>} = q"
proof (induction q)
  case (Suc q)
  let ?lo = "{x. a \<le> x \<and> x < a + q * r \<and> x mod r = \<rho>}"
  let ?hi = "{x. a + q * r \<le> x \<and> x < a + q * r + r \<and> x mod r = \<rho>}"
  define b where "b = a + q * r"
  have "\<exists>!x. b \<le> x \<and> x < b + r \<and> x mod r = \<rho>"
  proof -
    define x where "x = b + (\<rho> + r - b mod r) mod r"
    have r: "0 < r" using assms by simp
    have "b mod r < r" using r by simp
    then have "(b + (\<rho> + r - b mod r)) = \<rho> + r + (b - b mod r)" by (simp add: algebra_simps)
    also have "\<dots> = \<rho> + r + b div r * r" by (simp add: minus_mod_eq_div_mult)
    finally have "x mod r = \<rho>" using assms by (simp add: x_def mod_add_right_eq)
    moreover have "b \<le> x \<and> x < b + r" using r by (simp add: x_def)
    moreover have "y = z" if "b \<le> y" "y < b + r" "b \<le> z" "z < b + r" "y mod r = z mod r" "y \<le> z" for y z
      using that mod_eq_dvd_iff_nat [of y z r] dvd_imp_le [of r "z - y"] by fastforce
    then have "y = z" if "b \<le> y \<and> y < b + r \<and> y mod r = \<rho>" "b \<le> z \<and> z < b + r \<and> z mod r = \<rho>" for y z
      using that by (metis nat_le_linear)
    ultimately show ?thesis by blast
  qed
  then obtain x where "?hi = {x}" unfolding b_def by blast
  moreover have "{x. a \<le> x \<and> x < a + Suc q * r \<and> x mod r = \<rho>} = ?lo \<union> ?hi" by auto
  moreover have "?lo \<inter> ?hi = {}" "finite ?lo" by auto
  ultimately show ?case using Suc by (simp add: card_Un_disjoint)
qed simp

lemma count_accepted:
  assumes "rng \<noteq> 0" "d < (rng :: u64)"
  shows "card {x. random_threshold rng \<le> x \<and> x mod rng = d} = 2 ^ 64 div unat rng"
proof -
  let ?t = "unat (random_threshold rng)" and ?q = "2 ^ 64 div unat rng"
  have total: "?t + ?q * unat rng = 2 ^ 64"
    unfolding random_threshold_unat [OF assms(1)] by (rule mod_div_mult_eq)
  let ?A = "{x. random_threshold rng \<le> x \<and> x mod rng = d}"
  let ?B = "{n. ?t \<le> n \<and> n < ?t + ?q * unat rng \<and> n mod unat rng = unat d}"
  have "unat ` ?A = ?B"
  proof (intro equalityI subsetI)
    fix n
    assume "n \<in> unat ` ?A"
    then obtain x where x: "n = unat x" "random_threshold rng \<le> x" "x mod rng = d" by blast
    have "n < ?t + ?q * unat rng" unfolding total x(1) using unat_u64_bound [of x] by simp
    moreover have "?t \<le> n" using x by (simp only: word_le_nat_alt)
    moreover have "n mod unat rng = unat d" using x by (simp add: unat_mod [symmetric])
    ultimately show "n \<in> ?B" by blast
  next
    fix n
    assume n: "n \<in> ?B"
    then have "n < ?t + ?q * unat rng" by blast
    then have lt: "n < 2 ^ LENGTH(64)" unfolding total by simp
    have u: "unat (of_nat n :: u64) = n" using lt by (rule unat_of_nat_lt)
    have "unat (of_nat n mod rng) = unat d" using n u by (simp only: unat_mod mem_Collect_eq)
    then have "of_nat n mod rng = d" by (rule unsigned_word_eqI)
    moreover have "random_threshold rng \<le> of_nat n" using n u by (simp only: word_le_nat_alt mem_Collect_eq)
    ultimately have "of_nat n \<in> ?A" by blast
    then have "unat (of_nat n :: u64) \<in> unat ` ?A" by (rule imageI)
    then show "n \<in> unat ` ?A" unfolding u .
  qed
  moreover have "card (unat ` ?A) = card ?A"
    by (rule card_image) (rule inj_onI, rule unsigned_word_eqI [where ?'a = nat])
  moreover have "card ?B = ?q" using assms(2) by (intro count_residues) (simp only: word_less_nat_alt)
  ultimately show ?thesis by (simp only:)
qed

lemma add_mod_in_range:
  assumes "lo < (hi :: u64)"
  shows "lo \<le> lo + x mod (hi - lo) \<and> lo + x mod (hi - lo) < hi"
proof -
  have r: "unat (hi - lo) = unat hi - unat lo" using assms by (simp add: unat_facts)
  have "unat x mod unat (hi - lo) < unat (hi - lo)" using assms r by (intro mod_less_divisor) (simp add: unat_facts)
  then have m: "unat (x mod (hi - lo)) < unat hi - unat lo" by (simp add: unat_mod r)
  moreover have "unat lo + unat (x mod (hi - lo)) < 2 ^ LENGTH(64)" using m unat_u64_bound [of hi] by simp
  then have "unat (lo + x mod (hi - lo)) = unat lo + unat (x mod (hi - lo))" by (rule unat_plus_lt)
  ultimately show ?thesis by (simp add: word_le_nat_alt word_less_nat_alt)
qed

text \<open>At least half of all samples are accepted.\<close>

lemma threshold_half:
  assumes "rng \<noteq> 0"
  shows "2 * unat (random_threshold rng) < 2 ^ 64"
proof -
  have "unat rng \<le> 2 ^ 64" "0 < unat rng" using unat_u64_bound [of rng] assms by (simp_all add: unat_gt_0)
  then have "(2 :: nat) ^ 64 div unat rng * unat rng \<ge> unat rng"
    using div_le_mono [of "unat rng" "2 ^ 64" "unat rng"] by (simp add: Suc_le_eq [symmetric])
  moreover have "2 ^ 64 mod unat rng < unat rng" using assms by (simp add: unat_gt_0)
  moreover have "(2 :: nat) ^ 64 div unat rng * unat rng + 2 ^ 64 mod unat rng = 2 ^ 64" by (rule div_mult_mod_eq)
  ultimately show ?thesis unfolding random_threshold_unat [OF assms] by linarith
qed

lemma range_loop_exact:
  "range_loop lo rng t s = Some y \<longleftrightarrow>
     (\<exists>n. (\<forall>i < n. random_sample s i < t) \<and> t \<le> random_sample s n \<and>
       y = (lo + random_sample s n mod rng, (random_step ^^ Suc n) s))"
proof
  assume y: "range_loop lo rng t s = Some y"
  define n where "n = (LEAST n. random_sample s n \<ge> t)"
  have "random_sample s n \<ge> t" "\<forall>i < n. random_sample s i < t"
    unfolding n_def using range_loop_result [OF y] by (auto intro: LeastI_ex dest: not_less_Least simp: not_le)
  with range_loop_first [OF this, of lo rng] y show
    "\<exists>n. (\<forall>i < n. random_sample s i < t) \<and> t \<le> random_sample s n \<and> y = (lo + random_sample s n mod rng, (random_step ^^ Suc n) s)"
    by auto
qed (use range_loop_first in blast)

text \<open>All values are equally frequent: with one half of the state fixed, the value determines the other half, so each
  value is the first output of \<open>2\<^sup>6\<^sup>4\<close> of the \<open>2\<^sup>1\<^sup>2\<^sup>8\<close> states, and, as a step only permutes the states, the
  output at every later place too.\<close>

definition random_state :: "u64 \<Rightarrow> u64 \<Rightarrow> ct_random" where
  "random_state a x = \<lparr>rnd_s0 = a, rnd_s1 = word_rotr 17 (x - a) - a\<rparr>"

lemma random_sample_0: "random_sample s 0 = word_rotl 17 (rnd_s0 s + rnd_s1 s) + rnd_s0 s"
  by (simp add: random_sample_def random_next_def Let_def random_rotl_word)

lemma random_state_sample: "random_sample (random_state a x) 0 = x" "random_state (rnd_s0 s) (random_sample s 0) = s"
  by (simp_all add: random_state_def random_sample_0)

lemma count_states_first: "card {s. random_sample s 0 \<in> A} = 2 ^ 64 * card A"
proof -
  let ?f = "\<lambda>(a, x). random_state a x"
  have "{s. random_sample s 0 \<in> A} = ?f ` (UNIV \<times> A)"
  proof (intro equalityI subsetI)
    fix s
    assume "s \<in> {s. random_sample s 0 \<in> A}"
    then show "s \<in> ?f ` (UNIV \<times> A)"
      using random_state_sample(2) [of s] by (intro image_eqI [of _ _ "(rnd_s0 s, random_sample s 0)"]) auto
  qed (auto simp: random_state_sample(1))
  moreover have "inj_on ?f (UNIV \<times> A)"
  proof (rule inj_onI)
    fix p q
    assume "?f p = ?f q"
    then have "fst p = fst q" "random_sample (?f p) 0 = random_sample (?f q) 0"
      by (auto simp: random_state_def split: prod.splits)
    then show "p = q" by (auto simp: random_state_sample(1) split: prod.splits)
  qed
  ultimately have "card {s. random_sample s 0 \<in> A} = card ((UNIV :: u64 set) \<times> A)" by (simp add: card_image)
  then show ?thesis by (simp add: card_cartesian_product card_word)
qed

lemma count_states: "card {s. random_sample s n \<in> A} = 2 ^ 64 * card A"
proof -
  have inj: "inj (random_step ^^ n)" by (rule inj_fn [OF inj_random_step])
  have "surj (random_step ^^ n)" by (rule finite_UNIV_inj_surj [OF finite_random inj])
  moreover have "{s. random_sample s n \<in> A} = (random_step ^^ n) -` {s. random_sample s 0 \<in> A}"
    by (auto simp: random_sample_def)
  ultimately show ?thesis
    using card_vimage_inj [OF inj, of "{s. random_sample s 0 \<in> A}"] count_states_first [of A] by (simp only: subset_UNIV)
qed

text \<open>C40: What \<open>ct_random_u64_range\<close> returns, exactly: the first output of the generator that is at least
  \<open>2\<^sup>6\<^sup>4 mod (max - min)\<close>, reduced to the range, with the state behind it, if there is such an output, and it does
  not return otherwise.  So the number lies in the range, and less than half of all outputs are passed over.  It is
  uniform, for a generator state chosen at random: at every place each 64-bit output is equally frequent among the
  \<open>2\<^sup>1\<^sup>2\<^sup>8\<close> states, and of the states whose first output is taken exactly \<open>2\<^sup>6\<^sup>4 * (2\<^sup>6\<^sup>4 div (max - min))\<close> return
  any given number of the range.\<close>

theorem random_range_uniform:
  assumes "lo < hi" and t: "t = 2 ^ 64 mod unat (hi - lo)"
  shows "(\<forall>r v s. ct_random_u64_range (Some r) lo hi = Some (v, s) \<longleftrightarrow>
      (\<exists>n. (\<forall>i < n. unat (random_sample r i) < t) \<and> t \<le> unat (random_sample r n) \<and>
        v = lo + random_sample r n mod (hi - lo) \<and> s = Some ((random_step ^^ Suc n) r))) \<and>
    (\<forall>r v s. ct_random_u64_range (Some r) lo hi = Some (v, s) \<longrightarrow> lo \<le> v \<and> v < hi) \<and>
    2 * t < 2 ^ 64 \<and>
    (\<forall>n x. card {r. random_sample r n = x} = 2 ^ 64) \<and>
    (\<forall>v. lo \<le> v \<and> v < hi \<longrightarrow>
       card {r. t \<le> unat (random_sample r 0) \<and> (\<exists>s. ct_random_u64_range (Some r) lo hi = Some (v, s))} =
         2 ^ 64 * (2 ^ 64 div unat (hi - lo)))"
proof (intro conjI allI impI)
  have nz: "hi - lo \<noteq> 0" using assms(1) by simp
  have th: "t = unat (random_threshold (hi - lo))" using random_threshold_unat [OF nz] t by simp
  have body: "ct_random_u64_range (Some r) lo hi =
      map_option (\<lambda>(x, r). (x, Some r)) (range_loop lo (hi - lo) (random_threshold (hi - lo)) r)" for r
    using assms(1) by (simp add: ct_random_u64_range_def Let_def not_le [symmetric])
  show exact: "ct_random_u64_range (Some r) lo hi = Some (v, s) \<longleftrightarrow>
      (\<exists>n. (\<forall>i < n. unat (random_sample r i) < t) \<and> t \<le> unat (random_sample r n) \<and>
        v = lo + random_sample r n mod (hi - lo) \<and> s = Some ((random_step ^^ Suc n) r))" for r v s
    unfolding body th by (auto simp: range_loop_exact word_less_nat_alt word_le_nat_alt)
  show "lo \<le> v" "v < hi" if "ct_random_u64_range (Some r) lo hi = Some (v, s)" for r v s
    using that add_mod_in_range [OF assms(1)] unfolding exact by blast+
  show "2 * t < 2 ^ 64" unfolding th by (rule threshold_half [OF nz])
  show "card {r. random_sample r n = x} = 2 ^ 64" for n x using count_states [of n "{x}"] by simp
  fix v
  assume v: "lo \<le> v \<and> v < hi"
  have first: "t \<le> unat (random_sample r 0) \<and> (\<exists>s. ct_random_u64_range (Some r) lo hi = Some (v, s)) \<longleftrightarrow>
      random_sample r 0 \<in> {x. random_threshold (hi - lo) \<le> x \<and> lo + x mod (hi - lo) = v}" for r
  proof (cases "t \<le> unat (random_sample r 0)")
    case True
    then have "range_loop lo (hi - lo) (random_threshold (hi - lo)) r =
        Some (lo + random_sample r 0 mod (hi - lo), random_step r)"
      using range_loop_first [of _ r 0] by (simp add: th word_le_nat_alt)
    then show ?thesis using True unfolding body by (auto simp: th word_le_nat_alt)
  qed (simp add: th word_le_nat_alt)
  have "{x. random_threshold (hi - lo) \<le> x \<and> lo + x mod (hi - lo) = v} =
      {x. random_threshold (hi - lo) \<le> x \<and> x mod (hi - lo) = v - lo}" by auto
  moreover have "v - lo < hi - lo" using v by (simp add: word_less_nat_alt word_le_nat_alt unat_diff_le) arith
  ultimately have "card {x. random_threshold (hi - lo) \<le> x \<and> lo + x mod (hi - lo) = v} = 2 ^ 64 div unat (hi - lo)"
    using count_accepted [OF nz] by simp
  then show "card {r. t \<le> unat (random_sample r 0) \<and> (\<exists>s. ct_random_u64_range (Some r) lo hi = Some (v, s))} =
      2 ^ 64 * (2 ^ 64 div unat (hi - lo))"
    using count_states_first [of "{x. random_threshold (hi - lo) \<le> x \<and> lo + x mod (hi - lo) = v}"] unfolding first by metis
qed

theorem random_range_uniform_witness:
  "card {r. 2 \<le> unat (random_sample r 0) \<and> (\<exists>s. ct_random_u64_range (Some r) 3 10 = Some (5, s))} =
    2 ^ 64 * (2 ^ 64 div 7)"
proof -
  have r: "(3 :: u64) < 10" "2 = (2 :: nat) ^ 64 mod unat (10 - 3 :: u64)" by simp_all
  have v: "(3 :: u64) \<le> 5 \<and> (5 :: u64) < 10" and seven: "unat (10 - 3 :: u64) = 7" by simp_all
  note uniform = random_range_uniform [OF r, THEN conjunct2, THEN conjunct2, THEN conjunct2, THEN conjunct2, THEN spec, THEN mp, OF v]
  show ?thesis by (rule uniform [unfolded seven])
qed

section \<open>Signed numbers, fractions and bytes\<close>

lemma sint_exact: "word_of_int y = (x :: u64) \<Longrightarrow> - (2 ^ 63) \<le> y \<Longrightarrow> y < 2 ^ 63 \<Longrightarrow> sint x = y"
  by (erule subst, subst sint_sbintrunc') (simp add: signed_take_bit_int_eq_self)

lemma i64_from_u64: "random_i64_from_u64 x = sint x"
proof (cases "x \<le> 0x7FFFFFFFFFFFFFFF")
  case True
  then have "uint x < 2 ^ 63" by (simp add: word_le_def)
  moreover have "- (2 ^ 63) \<le> uint x" by (rule order_trans [OF _ uint_ge_0]) simp
  ultimately show ?thesis using True sint_exact [of "uint x" x] by (simp add: random_i64_from_u64_def)
next
  case False
  have not: "NOT x = - 1 - x" by (simp add: not_eq_complement)
  have "uint (NOT x) = 2 ^ 64 - 1 - uint x"
    unfolding not using uint_lt2p [of x]
    by (subst uint_sub_if') (simp add: unsigned_minus_1_eq_mask mask_eq_exp_minus_1)
  moreover have "2 ^ 63 \<le> uint x" using False by (simp add: word_le_def)
  ultimately have "- (2 ^ 63) \<le> - uint (NOT x) - 1" "- uint (NOT x) - 1 < 2 ^ 63" using uint_lt2p [of x] by simp_all
  moreover have "word_of_int (- uint (NOT x) - 1) = x" using not by simp
  ultimately show ?thesis using False sint_exact [of "- uint (NOT x) - 1" x] by (simp add: random_i64_from_u64_def)
qed

text \<open>A fraction lies in the unit interval, and is a multiple of \<open>2\<^sup>-\<^sup>5\<^sup>3\<close>.\<close>

lemma random_f64_unit:
  assumes "ct_random_f64 (Some r) = (x, s)"
  shows "0 \<le> x \<and> x < 1"
proof -
  define y where "y = fst (ct_random_u64 (Some r))"
  have y: "x = real (unat (drop_bit 11 y)) * (1 / 2 ^ 53)"
    using assms by (simp add: y_def ct_random_f64_def Let_def split_beta)
  define n where "n = unat (drop_bit 11 y)"
  have "n < 2 ^ 53"
    using unat_u64_bound [of y] by (simp add: n_def unat_drop_bit_eq drop_bit_nat_def)
  then have "real n < 2 ^ 53" by (metis of_nat_less_iff of_nat_numeral of_nat_power)
  then show ?thesis by (simp add: y divide_less_eq flip: n_def)
qed

text \<open>Signed ranges: the two halves of the numbers are exchanged and exchanged back, which keeps their order.\<close>

lemma xor_top: "w XOR 0x8000000000000000 = w + (0x8000000000000000 :: u64)"
proof -
  define t where "t = (0x8000000000000000 :: u64)"
  have "t = push_bit 63 1" by (simp add: t_def)
  then have t: "bit t n \<longleftrightarrow> n = 63" for n by (simp only: bit_simps) auto
  have dbl: "push_bit 1 v = 0" if "\<And>n. bit v n \<Longrightarrow> n = 63" for v :: u64
  proof (rule bit_word_eqI)
    fix n
    assume "n < LENGTH(64)"
    then have "\<not> (1 \<le> n \<and> bit v (n - 1))" using that [of "n - 1"] by auto
    then show "bit (push_bit 1 v) n \<longleftrightarrow> bit 0 n" by (simp only: bit_push_bit_iff bit_0_eq) simp
  qed
  have "push_bit 1 (w AND t) = 0" by (rule dbl) (simp add: bit_and_iff t)
  then have z: "(w AND t) + (w AND t) = 0" by (simp only: push_bit_eq_mult power_one_right mult_2_right)
  have "(w XOR t) + (w AND t) = (w XOR t) OR (w AND t)"
    by (rule disjunctive_add) (auto simp: bit_simps)
  also have "\<dots> = w OR t" by (rule bit_word_eqI) (auto simp: bit_simps)
  finally have "w XOR t = (w OR t) - (w AND t)" by (simp add: eq_diff_eq)
  also have "\<dots> = (w OR t) + (w AND t)" by (simp only: diff_conv_add_uminus minus_unique [OF z])
  also have "\<dots> = w + t" using word_plus_and_or [of w t] by (simp only: add.commute)
  finally show ?thesis by (simp only: t_def)
qed

lemma flip_sign:
  assumes "- (2 ^ 63) \<le> y" "y < 2 ^ 63"
  shows "uint (word_of_int y XOR 0x8000000000000000 :: u64) = y + 2 ^ 63"
proof -
  have "uint (word_of_int z :: u64) = z" if "0 \<le> z" "z < 2 ^ 64" for z
    using that by (simp add: unsigned_of_int take_bit_int_eq_self)
  note exact = this
  have "uint (word_of_int (y + 2 ^ 63) :: u64) = y + 2 ^ 63" by (rule exact) (use assms in simp_all)
  moreover have "word_of_int y XOR 0x8000000000000000 = (word_of_int (y + 2 ^ 63) :: u64)" by (simp add: xor_top)
  ultimately show ?thesis by metis
qed

lemma random_i64_range_bounds:
  assumes "ct_random_i64_range (Some r) lo hi = Some (x, s)" and "- (2 ^ 63) \<le> lo" "lo < hi" "hi < 2 ^ 63"
  shows "lo \<le> x \<and> x < hi"
proof -
  let ?f = "\<lambda>y. word_of_int y XOR 0x8000000000000000 :: u64"
  obtain v where v: "ct_random_u64_range (Some r) (?f lo) (?f hi) = Some (v, s)" "x = sint (v XOR 0x8000000000000000)"
    using assms(1,3) by (auto simp: ct_random_i64_range_def Let_def i64_from_u64)
  have lo: "uint (?f lo) = lo + 2 ^ 63" "uint (?f hi) = hi + 2 ^ 63" using assms flip_sign by simp_all
  then have "?f lo < ?f hi" using assms(3) by (simp only: word_less_def)
  then have vb: "?f lo \<le> v" "v < ?f hi"
    using v(1) range_loop_result add_mod_in_range [OF \<open>?f lo < ?f hi\<close>]
    by (fastforce simp: ct_random_u64_range_def Let_def not_le [symmetric])+
  have "v = ?f x" unfolding v(2) by (simp add: xor.assoc)
  moreover have "- (2 ^ 63) \<le> x" "x < 2 ^ 63" unfolding v(2) using sint_greater_eq [of "v XOR 0x8000000000000000"] sint_lt [of "v XOR 0x8000000000000000"] by simp_all
  ultimately have "uint v = x + 2 ^ 63" using flip_sign by simp
  then show ?thesis using vb lo by (simp add: word_le_def word_less_def)
qed

text \<open>The bytes: the values of the generator as they lie in memory, one after the other, cut at the end.\<close>

definition random_stream :: "ct_endian \<Rightarrow> ct_random \<Rightarrow> nat \<Rightarrow> u8 list" where
  "random_stream sys r n = concat (map (\<lambda>k. native_bytes sys (random_sample r k)) [0..<n])"

lemma length_random_stream [simp]: "length (random_stream sys r n) = 8 * n"
  by (induction n) (simp_all add: random_stream_def)

lemma random_stream_Suc:
  "random_stream sys r (Suc n) = native_bytes sys (random_sample r 0) @ random_stream sys (random_step r) n"
  by (simp add: random_stream_def upt_conv_Cons random_sample_step o_def flip: map_Suc_upt del: upt_Suc)

lemma random_bytes_loop_stream:
  assumes "i \<le> n" "n \<le> length out"
  shows "random_bytes_loop sys out i n r =
    Some (take i out @ take (n - i) (random_stream sys r ((n - i + 7) div 8)) @ drop n out,
          (random_step ^^ ((n - i + 7) div 8)) r)"
  using assms
proof (induction sys out i n r rule: random_bytes_loop.induct)
  case (1 sys out i n r)
  obtain v r' where n: "random_next r = (v, r')" by fastforce
  then have v: "random_sample r 0 = v" "random_step r = r'" by (simp_all add: random_sample_def random_step_def)
  show ?case
  proof (cases "i + 8 \<le> n")
    case True
    define out' where "out' = take i out @ native_bytes sys v @ drop (i + 8) out"
    have put: "mem_put out i (native_bytes sys v) = Some out'"
      using True 1(3) mem_put_ok [of i "native_bytes sys v" out] by (simp add: out'_def)
    define m where "m = n - (i + 8)"
    have m: "(n - i + 7) div 8 = Suc ((m + 7) div 8)" "n - i = 8 + m" using True by (simp_all add: m_def)
    have IH: "random_bytes_loop sys out' (i + 8) n r' =
        Some (take (i + 8) out' @ take m (random_stream sys r' ((m + 7) div 8)) @ drop n out',
              (random_step ^^ ((m + 7) div 8)) r')"
      unfolding m_def using True 1(3) mem_put_length [OF put] by (intro 1(1) [OF True refl n [symmetric] put]) simp_all
    have "take (i + 8) out' = take i out @ native_bytes sys v" "drop n out' = drop n out"
      using True 1(3) by (simp_all add: out'_def)
    then show ?thesis
      using True n put IH m by (subst random_bytes_loop.simps) (simp add: random_stream_Suc v funpow_swap1)
  next
    case False
    show ?thesis
    proof (cases "i < n")
      case True
      then have "(n - i + 7) div 8 = 1" using False by simp
      then show ?thesis
        using True False n v 1(3) mem_put_ok [of i "take (n - i) (native_bytes sys v)" out]
        by (subst random_bytes_loop.simps) (simp add: random_stream_Suc [of sys r 0, simplified] random_stream_def)
    next
      case False
      then show ?thesis using 1(2,3) by (subst random_bytes_loop.simps) simp
    qed
  qed
qed

lemma random_bytes_fill:
  assumes "n \<le> length out"
  shows "ct_random_bytes sys (Some r) (Some out) n =
    Some (Some (take n (random_stream sys r ((n + 7) div 8)) @ drop n out), Some ((random_step ^^ ((n + 7) div 8)) r))"
  using random_bytes_loop_stream [of 0 n out sys r] assms by (simp add: ct_random_bytes_def)

end
