(* ===== verification/Coter_Opt.thy ===== *)
theory Coter_Opt
  imports Coter_Prelude "HOL-Library.Multiset"
begin

text \<open>
  \<open>opt/opt.h\<close>, \<open>opt.c\<close>: the command line parser.  A C string is the list of its characters before the
  terminator, \<^const>\<open>None\<close> a null pointer.  \<open>argv\<close> is the list of the arguments; reading behind the null
  pointer that ends it, or behind the end of a string, makes the result \<^const>\<open>None\<close>.  A pointer into a
  string is the suffix it points to.  Indices into \<open>argv\<close> and \<open>subind\<close> are \<^typ>\<open>nat\<close>; column
  arithmetic, which may be negative, is \<^typ>\<open>int\<close>.
\<close>

section \<open>Strings\<close>

type_synonym cstr = "u8 list"

text \<open>The character at an index up to the terminator.\<close>

definition ch :: "cstr \<Rightarrow> nat \<Rightarrow> u8" where
  "ch s i = (if i < length s then s ! i else 0)"

text \<open>The value of a \<open>char\<close>, whose signedness depends on the platform.\<close>

definition char_val :: "bool \<Rightarrow> u8 \<Rightarrow> int" where
  "char_val sch c = (if sch then sint c else uint c)"

definition lit :: "string \<Rightarrow> cstr" where
  "lit s = map (\<lambda>c. of_nat (of_char c)) s"

section \<open>Data\<close>

datatype ct_opt_error =
  CT_OPT_ERROR_NONE | CT_OPT_ERROR_DONE | CT_OPT_ERROR_INVALID | CT_OPT_ERROR_MISSING | CT_OPT_ERROR_TOOMANY

definition ct_opt_strerror :: "ct_opt_error \<Rightarrow> string" where
  "ct_opt_strerror s = (case s of
       CT_OPT_ERROR_NONE \<Rightarrow> ''none''
     | CT_OPT_ERROR_DONE \<Rightarrow> ''no more options''
     | CT_OPT_ERROR_INVALID \<Rightarrow> ''invalid option''
     | CT_OPT_ERROR_MISSING \<Rightarrow> ''option requires an argument''
     | CT_OPT_ERROR_TOOMANY \<Rightarrow> ''option takes no arguments'')"

datatype ct_opt_argtype = CT_OPT_NONE | CT_OPT_REQUIRED | CT_OPT_OPTIONAL

record ct_opt_def =
  od_longname :: "cstr option"
  od_shortname :: int
  od_argtype :: ct_opt_argtype
  od_desc :: "cstr option"
  od_metavar :: "cstr option"

definition CT_OPT_DEF_NULL :: ct_opt_def where
  "CT_OPT_DEF_NULL = \<lparr>od_longname = None, od_shortname = 0, od_argtype = CT_OPT_NONE, od_desc = None, od_metavar = None\<rparr>"

record ct_opt =
  op_optarg :: "cstr option"
  op_argv :: "cstr list"
  op_permute :: bool
  op_optind :: nat
  op_optopt :: int
  op_subind :: nat

section \<open>Classifying arguments\<close>

definition opt_is_dashdash :: "cstr \<Rightarrow> bool" where
  "opt_is_dashdash a \<longleftrightarrow> ch a 0 = 45 \<and> ch a 1 = 45 \<and> ch a 2 = 0"

definition opt_is_short :: "cstr \<Rightarrow> bool" where
  "opt_is_short a \<longleftrightarrow> ch a 0 = 45 \<and> ch a 1 \<noteq> 45 \<and> ch a 1 \<noteq> 0"

definition opt_is_long :: "cstr \<Rightarrow> bool" where
  "opt_is_long a \<longleftrightarrow> ch a 0 = 45 \<and> ch a 1 = 45 \<and> ch a 2 \<noteq> 0"

definition opt_is_end :: "ct_opt_def \<Rightarrow> bool" where
  "opt_is_end d \<longleftrightarrow> od_longname d = None \<and> od_shortname d = 0"

fun opt_match_loop :: "cstr \<Rightarrow> cstr \<Rightarrow> bool" where
  "opt_match_loop (a # as) (n # ns) =
     (if a \<noteq> 61 then (if a \<noteq> n then False else opt_match_loop as ns) else False)"
| "opt_match_loop as ns = (ns = [] \<and> (as = [] \<or> hd as = 61))"

definition opt_match :: "cstr option \<Rightarrow> cstr \<Rightarrow> bool" where
  "opt_match longname option = (case longname of None \<Rightarrow> False | Some n \<Rightarrow> opt_match_loop option n)"

section \<open>Parsing\<close>

definition argv_get :: "cstr list \<Rightarrow> nat \<Rightarrow> cstr option option" where
  "argv_get argv i =
     (if i < length argv then Some (Some (argv ! i)) else if i = length argv then Some None else None)"

fun permute_shift :: "cstr list \<Rightarrow> nat \<Rightarrow> nat \<Rightarrow> cstr list" where
  "permute_shift argv low 0 = argv"
| "permute_shift argv low (Suc j) =
     (if Suc j > low then permute_shift (argv[Suc j := argv ! j]) low j else argv)"

fun permute_loop :: "cstr list \<Rightarrow> nat \<Rightarrow> nat \<Rightarrow> nat \<Rightarrow> nat \<Rightarrow> cstr list option" where
  "permute_loop argv src dst k 0 = Some argv"
| "permute_loop argv src dst k (Suc n) =
     (if src + k < length argv \<and> dst + k \<le> src + k then
        permute_loop ((permute_shift argv (dst + k) (src + k))[dst + k := argv ! (src + k)]) src dst (k + 1) n
      else None)"

definition opt_permute :: "cstr list \<Rightarrow> nat \<Rightarrow> nat \<Rightarrow> nat \<Rightarrow> cstr list option" where
  "opt_permute argv src dst cnt = permute_loop argv src dst 0 cnt"

text \<open>The type of a short option: the last definition with that name counts.\<close>

fun short_type :: "ct_opt_def list \<Rightarrow> int \<Rightarrow> ct_opt_argtype option \<Rightarrow> ct_opt_argtype option option" where
  "short_type [] c type = None"
| "short_type (d # defs) c type =
     (if opt_is_end d then Some type
      else short_type defs c (if od_shortname d = c then Some (od_argtype d) else type))"

definition opt_short_type :: "ct_opt_def list \<Rightarrow> int \<Rightarrow> ct_opt_argtype option option" where
  "opt_short_type defs c = (if c \<ge> 33 \<and> c < 127 then short_type defs c None else Some None)"

type_synonym opt_result = "ct_opt_error \<times> ct_opt \<times> int option"

definition opt_parse_short :: "bool \<Rightarrow> ct_opt \<Rightarrow> ct_opt_def list \<Rightarrow> int option \<Rightarrow> opt_result option" where
  "opt_parse_short sch self defs out_id = do {
     let self = self\<lparr>op_optopt := 0, op_optarg := None\<rparr>;
     arg \<leftarrow> argv_get (op_argv self) (op_optind self);
     case arg of
       None \<Rightarrow> Some (CT_OPT_ERROR_DONE, self, out_id)
     | Some s \<Rightarrow>
         if opt_is_dashdash s then Some (CT_OPT_ERROR_DONE, self\<lparr>op_optind := op_optind self + 1\<rparr>, out_id)
         else if \<not> opt_is_short s then Some (CT_OPT_ERROR_DONE, self, out_id)
         else if op_subind self + 1 > length s then None
         else do {
           let option = drop (op_subind self + 1) s;
           let c = char_val sch (ch option 0);
           let self = self\<lparr>op_optopt := c\<rparr>;
           next_arg \<leftarrow> argv_get (op_argv self) (op_optind self + 1);
           type \<leftarrow> opt_short_type defs c;
           let out_id = (if type \<noteq> None then map_option (\<lambda>_. c) out_id else out_id);
           case type of
             Some CT_OPT_NONE \<Rightarrow>
               if ch option 1 \<noteq> 0 then Some (CT_OPT_ERROR_NONE, self\<lparr>op_subind := op_subind self + 1\<rparr>, out_id)
               else Some (CT_OPT_ERROR_NONE, self\<lparr>op_subind := 0, op_optind := op_optind self + 1\<rparr>, out_id)
           | Some CT_OPT_REQUIRED \<Rightarrow>
               let self = self\<lparr>op_subind := 0, op_optind := op_optind self + 1\<rparr> in
               if ch option 1 \<noteq> 0 then Some (CT_OPT_ERROR_NONE, self\<lparr>op_optarg := Some (drop 1 option)\<rparr>, out_id)
               else (case next_arg of
                   Some v \<Rightarrow> Some (CT_OPT_ERROR_NONE, self\<lparr>op_optarg := Some v, op_optind := op_optind self + 1\<rparr>, out_id)
                 | None \<Rightarrow> Some (CT_OPT_ERROR_MISSING, self, out_id))
           | Some CT_OPT_OPTIONAL \<Rightarrow>
               Some (CT_OPT_ERROR_NONE, self\<lparr>op_subind := 0, op_optind := op_optind self + 1,
                 op_optarg := (if ch option 1 \<noteq> 0 then Some (drop 1 option) else None)\<rparr>, out_id)
           | None \<Rightarrow>
               Some (CT_OPT_ERROR_INVALID, self\<lparr>op_subind := 0, op_optind := op_optind self + 1\<rparr>, out_id) } }"

text \<open>The text behind the first occurrence of a character.\<close>

fun strchr_after :: "cstr \<Rightarrow> u8 \<Rightarrow> cstr option" where
  "strchr_after [] c = None"
| "strchr_after (x # xs) c = (if x = c then Some xs else strchr_after xs c)"

fun long_loop :: "ct_opt \<Rightarrow> cstr \<Rightarrow> ct_opt_def list \<Rightarrow> int option \<Rightarrow> opt_result option" where
  "long_loop self option [] out_id = None"
| "long_loop self option (d # defs) out_id =
     (if opt_is_end d then Some (CT_OPT_ERROR_INVALID, self, out_id)
      else if \<not> opt_match (od_longname d) option then long_loop self option defs out_id
      else
        let self = self\<lparr>op_optopt := od_shortname d\<rparr>;
            out_id = map_option (\<lambda>_. od_shortname d) out_id;
            val = strchr_after option 61
        in if od_argtype d = CT_OPT_NONE \<and> val \<noteq> None then Some (CT_OPT_ERROR_TOOMANY, self, out_id)
           else if val \<noteq> None then Some (CT_OPT_ERROR_NONE, self\<lparr>op_optarg := val\<rparr>, out_id)
           else if od_argtype d = CT_OPT_REQUIRED then do {
             arg \<leftarrow> argv_get (op_argv self) (op_optind self);
             let self = self\<lparr>op_optarg := arg\<rparr>;
             case arg of
               None \<Rightarrow> Some (CT_OPT_ERROR_MISSING, self, out_id)
             | Some _ \<Rightarrow> Some (CT_OPT_ERROR_NONE, self\<lparr>op_optind := op_optind self + 1\<rparr>, out_id) }
           else Some (CT_OPT_ERROR_NONE, self, out_id))"

definition opt_parse_long :: "ct_opt \<Rightarrow> ct_opt_def list \<Rightarrow> int option \<Rightarrow> opt_result option" where
  "opt_parse_long self defs out_id = do {
     let self = self\<lparr>op_optopt := 0, op_optarg := None\<rparr>;
     arg \<leftarrow> argv_get (op_argv self) (op_optind self);
     s \<leftarrow> arg;
     if length s < 2 then None
     else long_loop (self\<lparr>op_optind := op_optind self + 1\<rparr>) (drop 2 s) defs out_id }"

definition ct_opt_init :: "cstr list \<Rightarrow> ct_opt" where
  "ct_opt_init argv =
     \<lparr>op_optarg = None, op_argv = argv, op_permute = True, op_optind = (if argv \<noteq> [] then 1 else 0),
      op_optopt = 0, op_subind = 0\<rparr>"

definition ct_opt_arg :: "ct_opt \<Rightarrow> (cstr option \<times> ct_opt) option" where
  "ct_opt_arg self =
     (if op_subind self \<noteq> 0 then Some (None, self)
      else do {
        arg \<leftarrow> argv_get (op_argv self) (op_optind self);
        Some (arg, if arg \<noteq> None then self\<lparr>op_optind := op_optind self + 1\<rparr> else self) })"

function narg_loop :: "cstr list \<Rightarrow> nat \<Rightarrow> nat option" where
  "narg_loop argv end =
     (case argv_get argv end of None \<Rightarrow> None | Some None \<Rightarrow> Some end | Some (Some _) \<Rightarrow> narg_loop argv (end + 1))"
  by pat_completeness auto
termination
  by (relation "measure (\<lambda>(argv, e). length argv - e)") (auto simp: argv_get_def split: if_splits)

definition ct_opt_narg :: "ct_opt \<Rightarrow> nat option" where
  "ct_opt_narg self = do { e \<leftarrow> narg_loop (op_argv self) (op_optind self); Some (e - op_optind self) }"

function opt_next_loop :: "bool \<Rightarrow> ct_opt \<Rightarrow> ct_opt_def list \<Rightarrow> int option \<Rightarrow> nat \<Rightarrow> opt_result option" where
  "opt_next_loop sch self defs out_id i =
     (case argv_get (op_argv self) i of
        None \<Rightarrow> None
      | Some None \<Rightarrow> Some (CT_OPT_ERROR_DONE, self, out_id)
      | Some (Some arg) \<Rightarrow>
          if opt_is_dashdash arg then do {
            let target = op_optind self;
            argv \<leftarrow> (if i > target then opt_permute (op_argv self) i target 1 else Some (op_argv self));
            Some (CT_OPT_ERROR_DONE, self\<lparr>op_argv := argv, op_optind := target + 1\<rparr>, out_id) }
          else if \<not> opt_is_short arg \<and> \<not> opt_is_long arg then
            (if \<not> op_permute self then Some (CT_OPT_ERROR_DONE, self\<lparr>op_optind := i\<rparr>, out_id)
             else opt_next_loop sch self defs out_id (i + 1))
          else do {
            let target = op_optind self;
            let self = self\<lparr>op_optind := i\<rparr>;
            (r, self, out_id) \<leftarrow>
              (if opt_is_short arg then opt_parse_short sch self defs out_id else opt_parse_long self defs out_id);
            let consumed = op_optind self - i;
            argv \<leftarrow> (if i > target then opt_permute (op_argv self) i target consumed else Some (op_argv self));
            Some (r, self\<lparr>op_argv := argv, op_optind := target + consumed\<rparr>, out_id) })"
  by pat_completeness auto
termination
  by (relation "measure (\<lambda>(_, self, _, _, i). length (op_argv self) - i)") (auto simp: argv_get_def split: if_splits)

definition ct_opt_next :: "bool \<Rightarrow> ct_opt \<Rightarrow> ct_opt_def list \<Rightarrow> int option \<Rightarrow> opt_result option" where
  "ct_opt_next sch self defs out_id = opt_next_loop sch self defs out_id (op_optind self)"

section \<open>The permutation\<close>

lemma permute_shift_set:
  "(permute_shift (A @ Q @ x # B) (length A) (length A + length Q))[length A := x] = A @ x # Q @ B"
proof (induction Q arbitrary: x B rule: rev_induct)
  case Nil
  then show ?case by (cases A rule: rev_cases) (simp_all add: list_update_append)
next
  case (snoc q Q)
  have upd: "(A @ (Q @ [q]) @ x # B)[Suc (length A + length Q) := (A @ (Q @ [q]) @ x # B) ! (length A + length Q)] = A @ Q @ q # q # B"
    by (simp add: list_update_append nth_append)
  have "(permute_shift (A @ (Q @ [q]) @ x # B) (length A) (length A + length (Q @ [q])))[length A := x] =
      (permute_shift (A @ Q @ q # q # B) (length A) (length A + length Q))[length A := x]"
    using upd by simp
  also have "\<dots> = ((permute_shift (A @ Q @ q # q # B) (length A) (length A + length Q))[length A := q])[length A := x]"
    by (simp only: list_update_overwrite)
  also have "\<dots> = A @ x # (Q @ [q]) @ B" unfolding snoc.IH [of q "q # B"] by (simp add: list_update_append)
  finally show ?case .
qed

lemma permute_loop_block:
  "permute_loop (D @ K @ P @ C @ R) (length D + length P) (length D) (length K) (length C) = Some (D @ K @ C @ P @ R)"
proof (induction C arbitrary: K)
  case (Cons c C)
  have ix: "length D + length P + length K = length (D @ K) + length P" "length D + length K = length (D @ K)" by simp_all
  have nth: "(D @ K @ P @ (c # C) @ R) ! (length D + length P + length K) = c"
    unfolding ix(1) by (simp add: nth_append)
  have "(permute_shift (D @ K @ P @ (c # C) @ R) (length D + length K) (length D + length P + length K))
      [length D + length K := c] = D @ (K @ [c]) @ P @ C @ R"
    using permute_shift_set [of "D @ K" P c "C @ R"] by (simp add: ac_simps)
  then have "(permute_shift (D @ K @ P @ (c # C) @ R) (length D + length K) (length D + length P + length K))
      [length D + length K := (D @ K @ P @ (c # C) @ R) ! (length D + length P + length K)] = D @ (K @ [c]) @ P @ C @ R"
    unfolding nth .
  then show ?case using Cons.IH [of "K @ [c]"] by simp
qed simp

lemma opt_permute_block:
  "opt_permute (D @ P @ C @ R) (length D + length P) (length D) (length C) = Some (D @ C @ P @ R)"
  using permute_loop_block [of D "[]"] by (simp add: opt_permute_def)

section \<open>The reference parser\<close>

text \<open>The reference works on the list of tokens.  A definition table is the definitions before the first end
  mark.  The short name of a token character is looked up last definition first, a long name (the text
  before \<open>=\<close>) first definition first.  An event is the error code, the option reported, its argument and
  the identifier stored, \<open>0\<close> if none is.\<close>

type_synonym opt_event = "ct_opt_error \<times> int \<times> cstr option \<times> int"

definition short_ref :: "ct_opt_def list \<Rightarrow> int \<Rightarrow> ct_opt_argtype option" where
  "short_ref ds v =
     (if 33 \<le> v \<and> v < 127 then map_option od_argtype (find (\<lambda>d. od_shortname d = v) (rev ds)) else None)"

fun cluster_ref :: "bool \<Rightarrow> ct_opt_def list \<Rightarrow> cstr \<Rightarrow> cstr option \<Rightarrow> opt_event list \<times> bool" where
  "cluster_ref sch ds [] nx = ([], False)"
| "cluster_ref sch ds (c # cs) nx =
     (let v = char_val sch c in
      case short_ref ds v of
        None \<Rightarrow> ([(CT_OPT_ERROR_INVALID, v, None, 0)], False)
      | Some CT_OPT_NONE \<Rightarrow>
          (let (es, b) = cluster_ref sch ds cs nx in ((CT_OPT_ERROR_NONE, v, None, v) # es, b))
      | Some CT_OPT_REQUIRED \<Rightarrow>
          if cs \<noteq> [] then ([(CT_OPT_ERROR_NONE, v, Some cs, v)], False)
          else (case nx of
              Some a \<Rightarrow> ([(CT_OPT_ERROR_NONE, v, Some a, v)], True)
            | None \<Rightarrow> ([(CT_OPT_ERROR_MISSING, v, None, v)], False))
      | Some CT_OPT_OPTIONAL \<Rightarrow> ([(CT_OPT_ERROR_NONE, v, if cs = [] then None else Some cs, v)], False))"

definition long_ref :: "ct_opt_def list \<Rightarrow> cstr \<Rightarrow> cstr option \<Rightarrow> opt_event \<times> bool" where
  "long_ref ds name nx =
     (case find (\<lambda>d. od_longname d = Some (takeWhile (\<lambda>c. c \<noteq> 61) name)) ds of
        None \<Rightarrow> ((CT_OPT_ERROR_INVALID, 0, None, 0), False)
      | Some d \<Rightarrow>
          let v = od_shortname d; val = (if 61 \<in> set name then Some (tl (dropWhile (\<lambda>c. c \<noteq> 61) name)) else None) in
          (case (od_argtype d, val, nx) of
             (CT_OPT_NONE, Some _, _) \<Rightarrow> ((CT_OPT_ERROR_TOOMANY, v, None, v), False)
           | (_, Some a, _) \<Rightarrow> ((CT_OPT_ERROR_NONE, v, Some a, v), False)
           | (CT_OPT_REQUIRED, None, Some a) \<Rightarrow> ((CT_OPT_ERROR_NONE, v, Some a, v), True)
           | (CT_OPT_REQUIRED, None, None) \<Rightarrow> ((CT_OPT_ERROR_MISSING, v, None, v), False)
           | _ \<Rightarrow> ((CT_OPT_ERROR_NONE, v, None, v), False)))"

definition head_opt :: "'a list \<Rightarrow> 'a option" where
  "head_opt xs = (case xs of [] \<Rightarrow> None | x # _ \<Rightarrow> Some x)"

text \<open>The events and the positional arguments of a command line.\<close>

function getopt_ref :: "bool \<Rightarrow> ct_opt_def list \<Rightarrow> bool \<Rightarrow> cstr list \<Rightarrow> opt_event list \<times> cstr list" where
  "getopt_ref sch ds permute [] = ([], [])"
| "getopt_ref sch ds permute (t # ts) =
     (if opt_is_dashdash t then ([], ts)
      else if opt_is_short t then
        let (es, b) = cluster_ref sch ds (drop 1 t) (head_opt ts);
            (es', ps) = getopt_ref sch ds permute (if b then tl ts else ts)
        in (es @ es', ps)
      else if opt_is_long t then
        let (e, b) = long_ref ds (drop 2 t) (head_opt ts);
            (es', ps) = getopt_ref sch ds permute (if b then tl ts else ts)
        in (e # es', ps)
      else if permute then let (es, ps) = getopt_ref sch ds permute ts in (es, t # ps)
      else ([], t # ts))"
  by pat_completeness auto
termination by (relation "measure (\<lambda>(_, _, _, ts). length ts)") auto

declare getopt_ref.simps [simp del]

text \<open>The loop a program runs: it stops when the options are over, and sets the identifier before each call.\<close>

partial_function (option) opt_run :: "bool \<Rightarrow> ct_opt_def list \<Rightarrow> ct_opt \<Rightarrow> (opt_event list \<times> ct_opt) option" where
  "opt_run sch defs self = do {
     (r, self, id) \<leftarrow> ct_opt_next sch self defs (Some 0);
     if r = CT_OPT_ERROR_DONE then Some ([], self)
     else do {
       (es, self') \<leftarrow> opt_run sch defs self;
       Some ((r, op_optopt self, op_optarg self, the id) # es, self') } }"

section \<open>The parser is the reference\<close>

lemma short_type_find:
  assumes "\<forall>d \<in> set ds. \<not> opt_is_end d" "opt_is_end e"
  shows "short_type (ds @ e # junk) c t =
    Some (case find (\<lambda>d. od_shortname d = c) (rev ds) of None \<Rightarrow> t | Some d \<Rightarrow> Some (od_argtype d))"
  using assms
proof (induction ds arbitrary: t)
  case (Cons d ds)
  have "find P (xs @ [d]) = (case find P xs of None \<Rightarrow> if P d then Some d else None | Some y \<Rightarrow> Some y)" for P xs
    by (induction xs) simp_all
  then show ?case using Cons by (auto split: option.splits)
qed simp

lemma opt_match_name: "opt_match_loop a n \<longleftrightarrow> takeWhile (\<lambda>c. c \<noteq> 61) a = n"
proof (induction a arbitrary: n)
  case (Cons c cs)
  then show ?case by (cases n) auto
qed auto

lemma strchr_value: "strchr_after a c = (if c \<in> set a then Some (tl (dropWhile (\<lambda>x. x \<noteq> c) a)) else None)"
  by (induction a) auto

lemma opt_match_ref: "opt_match n a \<longleftrightarrow> n = Some (takeWhile (\<lambda>c. c \<noteq> 61) a)"
  by (cases n) (auto simp: opt_match_def opt_match_name)

lemma ch_0 [simp]: "ch (c # cs) 0 = c" "ch [c] (Suc 0) = 0"
  by (simp_all add: ch_def)

lemma ch_tl: "0 \<notin> set cs \<Longrightarrow> ch (c # cs) 1 \<noteq> 0 \<longleftrightarrow> cs \<noteq> []"
  by (cases cs) (auto simp: ch_def)

lemma argv_get_head: "argv_get (D @ P @ ts) (length D + length P) = Some (head_opt ts)"
  by (cases ts) (simp_all add: argv_get_def head_opt_def nth_append)

lemma argv_get_next: "argv_get (D @ P @ t # ts) (Suc (length D + length P)) = Some (head_opt ts)"
  using argv_get_head [of D "P @ [t]" ts] by simp

text \<open>Where the parser is: \<open>D\<close> consumed, \<open>P\<close> skipped positional arguments, \<open>ts\<close> not seen yet.\<close>

definition opt_plain :: "cstr \<Rightarrow> bool" where
  "opt_plain t \<longleftrightarrow> \<not> opt_is_dashdash t \<and> \<not> opt_is_short t \<and> \<not> opt_is_long t"

definition opt_at :: "ct_opt \<Rightarrow> cstr list \<Rightarrow> cstr list \<Rightarrow> cstr list \<Rightarrow> bool" where
  "opt_at self D P ts \<longleftrightarrow> op_argv self = D @ P @ ts \<and> op_optind self = length D \<and>
     (\<forall>t \<in> set P. opt_plain t) \<and> (op_permute self \<or> P = [])"

lemma next_scan:
  assumes "op_argv self = D @ P @ ts" "\<forall>t \<in> set P. opt_plain t" "op_permute self \<or> P = []"
  shows "opt_next_loop sch self defs oid (length D) = opt_next_loop sch self defs oid (length D + length P)"
  using assms
proof (induction P arbitrary: D)
  case (Cons p P)
  have "argv_get (op_argv self) (length D) = Some (Some p)"
    using argv_get_head [of D "[]" "p # P @ ts"] Cons.prems(1) by (simp add: head_opt_def)
  then have "opt_next_loop sch self defs oid (length D) = opt_next_loop sch self defs oid (length (D @ [p]))"
    using Cons.prems(2,3) by (subst opt_next_loop.simps) (simp add: opt_plain_def)
  also have "\<dots> = opt_next_loop sch self defs oid (length (D @ [p]) + length P)"
    using Cons.IH [of "D @ [p]"] Cons.prems by simp
  finally show ?case by simp
qed simp

lemma next_token:
  assumes at: "opt_at self D P (C @ R)" and C: "C = t # C'" and opt: "\<not> opt_is_dashdash t" "opt_is_short t \<or> opt_is_long t"
    and parse: "(if opt_is_short t then opt_parse_short sch (self\<lparr>op_optind := length D + length P\<rparr>) defs oid
        else opt_parse_long (self\<lparr>op_optind := length D + length P\<rparr>) defs oid) = Some (r, s1, oid')"
    and s1: "op_argv s1 = op_argv self" "op_optind s1 = length D + length P + length K" "op_permute s1 = op_permute self"
    and K: "K @ R' = C @ R"
  shows "\<exists>s2. ct_opt_next sch self defs oid = Some (r, s2, oid') \<and> opt_at s2 (D @ K) P R' \<and>
    s2 = s1\<lparr>op_argv := D @ K @ P @ R', op_optind := length D + length K\<rparr> \<and> op_permute s2 = op_permute self"
proof -
  define i where "i = length D + length P"
  have get: "argv_get (op_argv self) i = Some (Some t)"
    using at C argv_get_head [of D P "C @ R"] by (simp add: opt_at_def head_opt_def i_def)
  have argv: "op_argv self = D @ P @ K @ R'" using at K by (simp add: opt_at_def)
  have ix: "op_optind self = length D" using at by (simp add: opt_at_def)
  have s1': "op_optind s1 - i = length K" "op_argv s1 = D @ P @ K @ R'" using s1 argv by (simp_all add: i_def)
  have perm: "opt_permute (D @ P @ K @ R') i (length D) (length K) = Some (D @ K @ P @ R')"
    unfolding i_def by (rule opt_permute_block)
  have none: "\<not> length D < i \<Longrightarrow> P = []" by (simp add: i_def)
  have "ct_opt_next sch self defs oid = opt_next_loop sch self defs oid i"
    using at next_scan [of self D P "C @ R"] by (simp add: ct_opt_next_def opt_at_def i_def)
  also have "\<dots> = Some (r, s1\<lparr>op_argv := D @ K @ P @ R', op_optind := length D + length K\<rparr>, oid')"
  proof (cases "opt_is_short t")
    case True
    then have p: "opt_parse_short sch (self\<lparr>op_optind := i\<rparr>) defs oid = Some (r, s1, oid')" using parse i_def by simp
    show ?thesis using True perm none
      by (subst opt_next_loop.simps) (cases "length D < i"; simp add: get opt(1) ix p s1')
  next
    case False
    then have p: "opt_parse_long (self\<lparr>op_optind := i\<rparr>) defs oid = Some (r, s1, oid')" using parse i_def by simp
    show ?thesis using False opt(2) perm none
      by (subst opt_next_loop.simps) (cases "length D < i"; simp add: get opt(1) ix p s1')
  qed
  finally show ?thesis using at s1(3) by (simp add: opt_at_def)
qed

text \<open>What one step in a cluster reports: the code, the argument, the next position in the cluster, the
  number of tokens consumed and the identifier.\<close>

definition short_result ::
  "ct_opt_def list \<Rightarrow> int \<Rightarrow> cstr \<Rightarrow> cstr option \<Rightarrow> nat \<Rightarrow> ct_opt_error \<times> cstr option \<times> nat \<times> nat \<times> int" where
  "short_result ds v cs nx k =
     (case short_ref ds v of
        None \<Rightarrow> (CT_OPT_ERROR_INVALID, None, 0, 1, 0)
      | Some CT_OPT_NONE \<Rightarrow> if cs \<noteq> [] then (CT_OPT_ERROR_NONE, None, k + 1, 0, v) else (CT_OPT_ERROR_NONE, None, 0, 1, v)
      | Some CT_OPT_REQUIRED \<Rightarrow>
          if cs \<noteq> [] then (CT_OPT_ERROR_NONE, Some cs, 0, 1, v)
          else (case nx of Some a \<Rightarrow> (CT_OPT_ERROR_NONE, Some a, 0, 2, v) | None \<Rightarrow> (CT_OPT_ERROR_MISSING, None, 0, 1, v))
      | Some CT_OPT_OPTIONAL \<Rightarrow> (CT_OPT_ERROR_NONE, if cs = [] then None else Some cs, 0, 1, v))"

lemma parse_short_ok:
  assumes defs: "\<forall>d \<in> set ds. \<not> opt_is_end d" "opt_is_end e"
    and self: "op_argv self = D @ P @ o' # ts" "op_optind self = length D + length P" "opt_is_short o'" "0 \<notin> set o'"
    and cs: "drop (op_subind self + 1) o' = c # cs"
    and res: "short_result ds (char_val sch c) cs (head_opt ts) (op_subind self) = (r, arg, sub, n, w)"
  shows "opt_parse_short sch self (ds @ e # junk) (Some 0) = Some (r, self\<lparr>op_optopt := char_val sch c,
    op_optarg := arg, op_subind := sub, op_optind := length D + length P + n\<rparr>, Some w)"
proof -
  have len: "\<not> length o' < Suc (op_subind self)" using cs by (metis drop_all list.distinct(1) nat_le_linear not_less add.commute plus_1_eq_Suc)
  have nz: "0 \<notin> set (c # cs)" using self(4) cs by (metis in_set_dropD)
  have c1: "ch (c # cs) (Suc 0) = 0 \<longleftrightarrow> cs = []"
    using ch_tl [of cs c] nz by (auto simp: ch_def)
  have dd: "\<not> opt_is_dashdash o'" using self(3) by (auto simp: opt_is_short_def opt_is_dashdash_def)
  have cs': "drop (Suc (op_subind self)) o' = c # cs" using cs by simp
  note get = argv_get_head [of D P "o' # ts"] argv_get_next [of D P o' ts]
  have type: "opt_short_type (ds @ e # junk) v = Some (short_ref ds v)" for v
    by (auto simp: opt_short_type_def short_ref_def short_type_find [OF defs] split: option.splits)
  note eval = opt_parse_short_def Let_def self len dd get type cs' c1
  show ?thesis
  proof (cases "short_ref ds (char_val sch c)")
    case None
    then show ?thesis using res by (auto simp: short_result_def eval head_opt_def)
  next
    case (Some a)
    then show ?thesis using res by (cases a) (auto simp: short_result_def eval head_opt_def split: list.splits if_splits)
  qed
qed

lemma opt_short_not_dashdash: "opt_is_short t \<Longrightarrow> \<not> opt_is_dashdash t"
  by (auto simp: opt_is_short_def opt_is_dashdash_def)

lemma short_next:
  assumes defs: "\<forall>d \<in> set ds. \<not> opt_is_end d" "opt_is_end e"
    and at: "opt_at self D P (o' # ts)" and o': "opt_is_short o'" "0 \<notin> set o'"
    and cs: "drop (op_subind self + 1) o' = c # cs"
    and res: "short_result ds (char_val sch c) cs (head_opt ts) (op_subind self) = (r, arg, sub, n, w)"
  shows "\<exists>s2. ct_opt_next sch self (ds @ e # junk) (Some 0) = Some (r, s2, Some w) \<and> r \<noteq> CT_OPT_ERROR_DONE \<and>
    opt_at s2 (D @ take n (o' # ts)) P (drop n (o' # ts)) \<and> op_permute s2 = op_permute self \<and>
    op_optopt s2 = char_val sch c \<and> op_optarg s2 = arg \<and> op_subind s2 = sub"
proof -
  let ?self = "self\<lparr>op_optind := length D + length P\<rparr>"
  have self: "op_argv ?self = D @ P @ o' # ts" "op_optind ?self = length D + length P" "drop (op_subind ?self + 1) o' = c # cs"
    "short_result ds (char_val sch c) cs (head_opt ts) (op_subind ?self) = (r, arg, sub, n, w)"
    using at cs res by (simp_all add: opt_at_def)
  from parse_short_ok [OF defs self(1,2) o' self(3,4), of junk]
  have parse: "(if opt_is_short o' then opt_parse_short sch ?self (ds @ e # junk) (Some 0)
      else opt_parse_long ?self (ds @ e # junk) (Some 0)) =
    Some (r, ?self\<lparr>op_optopt := char_val sch c, op_optarg := arg, op_subind := sub, op_optind := length D + length P + n\<rparr>, Some w)"
    using o'(1) by simp
  have n: "n \<le> length (o' # ts)" "r \<noteq> CT_OPT_ERROR_DONE"
    using res by (auto simp: short_result_def head_opt_def split: option.splits ct_opt_argtype.splits if_splits list.splits)
  have at': "opt_at self D P ([o'] @ ts)" using at by simp
  from next_token [OF at' refl opt_short_not_dashdash [OF o'(1)] disjI1 [OF o'(1)] parse, of "take n (o' # ts)" "drop n (o' # ts)"] n
  show ?thesis by fastforce
qed

lemma opt_run_step:
  assumes "ct_opt_next sch self defs (Some 0) = Some (r, s1, Some v)" "r \<noteq> CT_OPT_ERROR_DONE"
    and "opt_run sch defs s1 = Some (es, s')"
  shows "opt_run sch defs self = Some ((r, op_optopt s1, op_optarg s1, v) # es, s')"
  using assms by (subst opt_run.simps) simp

text \<open>The state reached when a token is done: \<open>opt_run\<close> continues from it after the events \<open>es\<close>.\<close>

definition opt_reaches :: "bool \<Rightarrow> ct_opt_def list \<Rightarrow> ct_opt \<Rightarrow> opt_event list \<Rightarrow> cstr list \<Rightarrow> cstr list \<Rightarrow> cstr list \<Rightarrow> bool" where
  "opt_reaches sch defs self es D P ts \<longleftrightarrow>
     (\<exists>s1. opt_at s1 D P ts \<and> op_subind s1 = 0 \<and> op_permute s1 = op_permute self \<and>
        (\<forall>es' s'. opt_run sch defs s1 = Some (es', s') \<longrightarrow> opt_run sch defs self = Some (es @ es', s')))"

lemma opt_reaches_one:
  assumes "ct_opt_next sch self defs (Some 0) = Some (r, s1, Some v)" "r \<noteq> CT_OPT_ERROR_DONE"
    "opt_at s1 D P ts" "op_subind s1 = 0" "op_permute s1 = op_permute self" "op_optopt s1 = q" "op_optarg s1 = a"
  shows "opt_reaches sch defs self [(r, q, a, v)] D P ts"
  unfolding opt_reaches_def
  by (rule exI [of _ s1]) (use assms opt_run_step [OF assms(1,2)] in simp)

lemma opt_reaches_more:
  assumes "ct_opt_next sch self defs (Some 0) = Some (r, s1, Some v)" "r \<noteq> CT_OPT_ERROR_DONE"
    "op_permute s1 = op_permute self" "op_optopt s1 = q" "op_optarg s1 = a" "opt_reaches sch defs s1 es D P ts"
  shows "opt_reaches sch defs self ((r, q, a, v) # es) D P ts"
proof -
  from assms(6) obtain s2 where "opt_at s2 D P ts" "op_subind s2 = 0" "op_permute s2 = op_permute s1"
    "\<forall>es' s'. opt_run sch defs s2 = Some (es', s') \<longrightarrow> opt_run sch defs s1 = Some (es @ es', s')"
    unfolding opt_reaches_def by blast
  then show ?thesis unfolding opt_reaches_def
    by (intro exI [of _ s2]) (use assms(3-5) opt_run_step [OF assms(1,2)] in simp)
qed

lemma head_opt_simps [simp]: "head_opt [] = None" "head_opt (t # ts) = Some t"
  by (simp_all add: head_opt_def)

lemma run_cluster:
  assumes defs: "\<forall>d \<in> set ds. \<not> opt_is_end d" "opt_is_end e" and o': "opt_is_short o'" "0 \<notin> set o'"
  shows "opt_at self D P (o' # ts) \<Longrightarrow> drop (op_subind self + 1) o' = cs \<Longrightarrow> cs \<noteq> [] \<Longrightarrow>
    cluster_ref sch ds cs (head_opt ts) = (es, b) \<Longrightarrow>
    opt_reaches sch (ds @ e # junk) self es (D @ take (if b then 2 else 1) (o' # ts)) P (drop (if b then 2 else 1) (o' # ts))"
proof (induction cs arbitrary: self D es b)
  case (Cons c cs)
  obtain r arg sub n w where res: "short_result ds (char_val sch c) cs (head_opt ts) (op_subind self) = (r, arg, sub, n, w)"
    by (rule prod_cases5)
  from short_next [OF defs Cons.prems(1) o' Cons.prems(2) res] obtain s2 where s2:
    "ct_opt_next sch self (ds @ e # junk) (Some 0) = Some (r, s2, Some w)" "r \<noteq> CT_OPT_ERROR_DONE"
    "opt_at s2 (D @ take n (o' # ts)) P (drop n (o' # ts))" "op_permute s2 = op_permute self"
    "op_optopt s2 = char_val sch c" "op_optarg s2 = arg" "op_subind s2 = sub" by blast
  note one = opt_reaches_one [OF s2(1-3) _ s2(4-6), unfolded s2(7)]
  show ?case
  proof (cases "short_ref ds (char_val sch c) = Some CT_OPT_NONE \<and> cs \<noteq> []")
    case True
    then have res': "r = CT_OPT_ERROR_NONE" "arg = None" "sub = op_subind self + 1" "n = 0" "w = char_val sch c"
      using res by (simp_all add: short_result_def)
    obtain es' where es': "cluster_ref sch ds cs (head_opt ts) = (es', b)" "es = (CT_OPT_ERROR_NONE, char_val sch c, None, char_val sch c) # es'"
      using Cons.prems(4) True by (auto simp: Let_def split: prod.splits)
    have "drop (op_subind s2 + 1) o' = cs" using Cons.prems(2) s2(7) res'(3) by (simp add: drop_Suc tl_drop [symmetric])
    with Cons.IH [of s2 D es' b] True es'(1) s2(3) res'(4)
    have "opt_reaches sch (ds @ e # junk) s2 es' (D @ take (if b then 2 else 1) (o' # ts)) P (drop (if b then 2 else 1) (o' # ts))"
      by simp
    from opt_reaches_more [OF s2(1,2,4,5,6) this] show ?thesis unfolding es'(2) res' .
  next
    case False
    then have "sub = 0" "es = [(r, char_val sch c, arg, w)]" "n = (if b then 2 else 1)"
      using res Cons.prems(4)
      by (cases ts; auto simp: short_result_def Let_def split: option.splits ct_opt_argtype.splits if_splits)+
    then show ?thesis using one by simp
  qed
qed simp

lemma long_loop_ok:
  assumes defs: "\<forall>d \<in> set ds. \<not> opt_is_end d" "opt_is_end e"
    and self: "op_argv self = D @ P @ t # ts" "op_optind self = Suc (length D + length P)" "op_optopt self = 0" "op_optarg self = None"
    and res: "long_ref ds name (head_opt ts) = ((r, v, a, w), b)"
  shows "long_loop self name (ds @ e # junk) (Some 0) =
    Some (r, self\<lparr>op_optopt := v, op_optarg := a, op_optind := length D + length P + (if b then 2 else 1)\<rparr>, Some w)"
  using defs(1) res
proof (induction ds)
  case Nil
  then have "r = CT_OPT_ERROR_INVALID" "v = 0" "a = None" "w = 0" "\<not> b" by (auto simp: long_ref_def)
  then show ?case using defs(2) self by simp
next
  case (Cons d ds)
  show ?case
  proof (cases "od_longname d = Some (takeWhile (\<lambda>c. c \<noteq> 61) name)")
    case False
    then have "long_ref ds name (head_opt ts) = ((r, v, a, w), b)" using Cons.prems(2) by (simp add: long_ref_def)
    then show ?thesis using Cons.IH Cons.prems(1) False by (simp add: opt_match_ref)
  next
    case True
    note get = argv_get_next [of D P t ts]
    from True Cons.prems have "\<not> opt_is_end d" by simp
    then show ?thesis
      using True Cons.prems(2) self get
      by (cases "od_argtype d"; cases "61 \<in> set name"; cases ts)
        (auto simp: long_ref_def opt_match_ref strchr_value Let_def)
  qed
qed

lemma opt_long_shape:
  assumes "opt_is_long t" shows "\<not> opt_is_short t" "\<not> opt_is_dashdash t" "2 \<le> length t"
  using assms by (auto simp: opt_is_long_def opt_is_short_def opt_is_dashdash_def ch_def split: if_splits)

lemma long_next:
  assumes defs: "\<forall>d \<in> set ds. \<not> opt_is_end d" "opt_is_end e"
    and at: "opt_at self D P (t # ts)" and t: "opt_is_long t"
    and res: "long_ref ds (drop 2 t) (head_opt ts) = ((r, v, a, w), b)"
  shows "\<exists>s2. ct_opt_next sch self (ds @ e # junk) (Some 0) = Some (r, s2, Some w) \<and> r \<noteq> CT_OPT_ERROR_DONE \<and>
    opt_at s2 (D @ take (if b then 2 else 1) (t # ts)) P (drop (if b then 2 else 1) (t # ts)) \<and> op_permute s2 = op_permute self \<and>
    op_optopt s2 = v \<and> op_optarg s2 = a \<and> op_subind s2 = op_subind self"
proof -
  let ?i = "length D + length P"
  let ?self = "self\<lparr>op_optind := ?i\<rparr>" and ?s1 = "self\<lparr>op_optind := ?i\<rparr>\<lparr>op_optopt := 0, op_optarg := None, op_optind := Suc ?i\<rparr>"
  have argv: "op_argv self = D @ P @ t # ts" using at by (simp add: opt_at_def)
  have n: "(if b then 2 else 1) \<le> length (t # ts)" "r \<noteq> CT_OPT_ERROR_DONE"
    using res by (cases ts; auto simp: long_ref_def Let_def split: option.splits ct_opt_argtype.splits if_splits)+
  have "long_loop ?s1 (drop 2 t) (ds @ e # junk) (Some 0) =
      Some (r, ?s1\<lparr>op_optopt := v, op_optarg := a, op_optind := ?i + (if b then 2 else 1)\<rparr>, Some w)"
    by (rule long_loop_ok [OF defs _ _ _ _ res]) (simp_all add: argv)
  then have "opt_parse_long ?self (ds @ e # junk) (Some 0) =
      Some (r, ?self\<lparr>op_optopt := v, op_optarg := a, op_optind := ?i + (if b then 2 else 1)\<rparr>, Some w)"
    using argv_get_head [of D P "t # ts"] opt_long_shape(3) [OF t] by (simp add: opt_parse_long_def argv)
  then have parse: "(if opt_is_short t then opt_parse_short sch ?self (ds @ e # junk) (Some 0)
      else opt_parse_long ?self (ds @ e # junk) (Some 0)) =
    Some (r, ?self\<lparr>op_optopt := v, op_optarg := a, op_optind := ?i + (if b then 2 else 1)\<rparr>, Some w)"
    using opt_long_shape(1) [OF t] by simp
  have at': "opt_at self D P ([t] @ ts)" using at by simp
  from next_token [OF at' refl opt_long_shape(2) [OF t] disjI2 [OF t] parse, of "take (if b then 2 else 1) (t # ts)" "drop (if b then 2 else 1) (t # ts)"] n
  show ?thesis by fastforce
qed

text \<open>Ending: no tokens left, an end mark, or a positional argument without permutation.\<close>

lemma next_ends:
  assumes at: "opt_at self D P ts"
    and "ts = [] \<or> opt_is_dashdash (hd ts) \<or> opt_plain (hd ts) \<and> \<not> op_permute self"
  shows "\<exists>self'. opt_run sch defs self = Some ([], self') \<and> op_optind self' \<le> length (op_argv self') \<and>
    drop (op_optind self') (op_argv self') = P @ (if ts \<noteq> [] \<and> opt_is_dashdash (hd ts) then tl ts else ts) \<and>
    mset (op_argv self') = mset (op_argv self) \<and> op_subind self' = op_subind self"
proof -
  let ?i = "length D + length P"
  have argv: "op_argv self = D @ P @ ts" "op_optind self = length D" using at by (simp_all add: opt_at_def)
  have get: "argv_get (op_argv self) ?i = Some (head_opt ts)" unfolding argv by (rule argv_get_head)
  have scan: "ct_opt_next sch self defs (Some 0) = opt_next_loop sch self defs (Some 0) ?i"
    using at next_scan [of self D P ts] by (simp add: ct_opt_next_def opt_at_def)
  consider (over) "ts = []" | (dash) t ts' where "ts = t # ts'" "opt_is_dashdash t"
    | (plain) t ts' where "ts = t # ts'" "opt_plain t" "\<not> op_permute self"
    using assms(2) by (cases ts) auto
  then show ?thesis
  proof cases
    case over
    then have "ct_opt_next sch self defs (Some 0) = Some (CT_OPT_ERROR_DONE, self, Some 0)"
      unfolding scan using get by (subst opt_next_loop.simps) simp
    then show ?thesis using over argv by (subst opt_run.simps) simp
  next
    case dash
    have perm: "opt_permute (D @ P @ [t] @ ts') ?i (length D) 1 = Some (D @ [t] @ P @ ts')"
      using opt_permute_block [of D P "[t]" ts'] by simp
    have "ct_opt_next sch self defs (Some 0) =
        Some (CT_OPT_ERROR_DONE, self\<lparr>op_argv := D @ t # P @ ts', op_optind := length D + 1\<rparr>, Some 0)"
    proof (cases "P = []")
      case True
      have "self\<lparr>op_argv := D @ t # P @ ts'\<rparr> = self" using True dash argv by simp
      then show ?thesis unfolding scan using get dash argv perm True by (subst opt_next_loop.simps) simp
    next
      case False
      then show ?thesis unfolding scan using get dash argv perm by (subst opt_next_loop.simps) simp
    qed
    then show ?thesis using dash argv by (subst opt_run.simps) simp
  next
    case plain
    then have "P = []" using at by (simp add: opt_at_def)
    then have "ct_opt_next sch self defs (Some 0) = Some (CT_OPT_ERROR_DONE, self\<lparr>op_optind := length D\<rparr>, Some 0)"
      unfolding scan using get plain by (subst opt_next_loop.simps) (simp add: opt_plain_def)
    then show ?thesis using plain argv \<open>P = []\<close> by (subst opt_run.simps) (simp add: opt_plain_def)
  qed
qed

lemma run_ref:
  assumes defs: "\<forall>d \<in> set ds. \<not> opt_is_end d" "opt_is_end e"
  shows "opt_at self D P ts \<Longrightarrow> op_subind self = 0 \<Longrightarrow> op_permute self = permute \<Longrightarrow> \<forall>t \<in> set ts. 0 \<notin> set t \<Longrightarrow>
    \<exists>self'. opt_run sch (ds @ e # junk) self = Some (fst (getopt_ref sch ds permute ts), self') \<and>
      op_optind self' \<le> length (op_argv self') \<and> drop (op_optind self') (op_argv self') = P @ snd (getopt_ref sch ds permute ts) \<and>
      mset (op_argv self') = mset (D @ P @ ts) \<and> op_subind self' = 0"
proof (induction "length ts" arbitrary: ts self D P rule: less_induct)
  case less
  have argv: "op_argv self = D @ P @ ts" using less.prems(1) by (simp add: opt_at_def)
  have go: ?case if reach: "opt_reaches sch (ds @ e # junk) self es (D @ take n ts) P (drop n ts)" and n: "0 < n" "ts \<noteq> []"
      and g: "getopt_ref sch ds permute ts = (let (es', ps) = getopt_ref sch ds permute (drop n ts) in (es @ es', ps))" for es n
  proof -
    from reach obtain s1 where s1: "opt_at s1 (D @ take n ts) P (drop n ts)" "op_subind s1 = 0" "op_permute s1 = op_permute self"
      "\<forall>es' s'. opt_run sch (ds @ e # junk) s1 = Some (es', s') \<longrightarrow> opt_run sch (ds @ e # junk) self = Some (es @ es', s')"
      unfolding opt_reaches_def by blast
    have "length (drop n ts) < length ts" using n by simp
    from less.hyps [OF this s1(1,2)] s1(3) less.prems(3,4) obtain self' where
      IH: "opt_run sch (ds @ e # junk) s1 = Some (fst (getopt_ref sch ds permute (drop n ts)), self')"
        "op_optind self' \<le> length (op_argv self')"
        "drop (op_optind self') (op_argv self') = P @ snd (getopt_ref sch ds permute (drop n ts))"
        "mset (op_argv self') = mset ((D @ take n ts) @ P @ drop n ts)" "op_subind self' = 0"
      by (metis in_set_dropD)
    have "mset ts = mset (take n ts) + mset (drop n ts)" by (metis append_take_drop_id mset_append)
    then show ?case using IH s1(4) g by (auto simp: case_prod_beta Let_def)
  qed
  show ?case
  proof (cases ts)
    case Nil
    then show ?thesis using next_ends [OF less.prems(1), of sch "ds @ e # junk"] less.prems argv by (auto simp: getopt_ref.simps)
  next
    case (Cons t ts')
    have t0: "0 \<notin> set t" using less.prems(4) Cons by simp
    consider (dash) "opt_is_dashdash t" | (short) "opt_is_short t" "\<not> opt_is_dashdash t"
      | (long) "opt_is_long t" "\<not> opt_is_short t" "\<not> opt_is_dashdash t" | (plain) "opt_plain t" by (auto simp: opt_plain_def)
    then show ?thesis
    proof cases
      case dash
      then show ?thesis using next_ends [OF less.prems(1), of sch "ds @ e # junk"] less.prems(2) argv Cons
        by (auto simp: getopt_ref.simps)
    next
      case short
      obtain es b where c: "cluster_ref sch ds (drop 1 t) (head_opt ts') = (es, b)" by fastforce
      have "drop 1 t \<noteq> []" using short(1) by (auto simp: opt_is_short_def ch_def split: if_splits)
      from run_cluster [OF defs short(1) t0, of self D P ts' "drop 1 t" sch es b junk] this less.prems(1,2) c Cons
      have "opt_reaches sch (ds @ e # junk) self es (D @ take (if b then 2 else 1) ts) P (drop (if b then 2 else 1) ts)" by simp
      then show ?thesis by (rule go) (use Cons short c in \<open>auto simp: getopt_ref.simps drop_Suc numeral_2_eq_2\<close>)
    next
      case long
      obtain r v a w b where l: "long_ref ds (drop 2 t) (head_opt ts') = ((r, v, a, w), b)" by (metis prod.exhaust)
      from long_next [OF defs less.prems(1) [unfolded Cons] long(1) l] less.prems(2) obtain s2 where
        "ct_opt_next sch self (ds @ e # junk) (Some 0) = Some (r, s2, Some w)" "r \<noteq> CT_OPT_ERROR_DONE"
        "opt_at s2 (D @ take (if b then 2 else 1) ts) P (drop (if b then 2 else 1) ts)" "op_permute s2 = op_permute self"
        "op_optopt s2 = v" "op_optarg s2 = a" "op_subind s2 = 0" unfolding Cons by metis
      then have "opt_reaches sch (ds @ e # junk) self [(r, v, a, w)] (D @ take (if b then 2 else 1) ts) P (drop (if b then 2 else 1) ts)"
        by (intro opt_reaches_one)
      then show ?thesis by (rule go) (use Cons long l in \<open>auto simp: getopt_ref.simps drop_Suc numeral_2_eq_2\<close>)
    next
      case plain
      show ?thesis
      proof (cases permute)
        case True
        have "opt_at self D (P @ [t]) ts'" using less.prems(1,3) Cons plain True by (auto simp: opt_at_def)
        from less.hyps [OF _ this less.prems(2,3)] less.prems(4) Cons plain True show ?thesis
          by (auto simp: getopt_ref.simps opt_plain_def case_prod_beta)
      next
        case False
        then show ?thesis using next_ends [OF less.prems(1), of sch "ds @ e # junk"] less.prems(2,3) argv Cons plain
          by (auto simp: getopt_ref.simps opt_plain_def)
      qed
    qed
  qed
qed

lemma narg_loop_length: "e \<le> length argv \<Longrightarrow> narg_loop argv e = Some (length argv)"
proof (induction argv e rule: narg_loop.induct)
  case (1 argv e)
  show ?case
  proof (cases "e < length argv")
    case True
    then have g: "argv_get argv e = Some (Some (argv ! e))" by (simp add: argv_get_def)
    have "narg_loop argv (e + 1) = Some (length argv)" by (rule 1(1) [OF g refl]) (use True in simp)
    then show ?thesis using g by (subst narg_loop.simps) simp
  next
    case False
    then show ?thesis using 1(2) by (subst narg_loop.simps) (simp add: argv_get_def)
  qed
qed

declare narg_loop.simps [simp del]

text \<open>C32: For every argument vector and every table of definitions, with and without permutation, the loop
  over \<open>ct_opt_next\<close> ends, reads and writes only inside \<open>argv\<close> and its strings, and reports exactly the
  events of the reference parser, in order: clusters of short options, arguments in the same or the next
  token, long options with and without \<open>=\<close>, unknown options and missing or superfluous arguments.  It
  leaves the positional arguments, in their order, as what remains of \<open>argv\<close>, which is a permutation of
  what it was; \<open>ct_opt_narg\<close> counts them.\<close>

theorem opt_parses_reference:
  assumes "\<forall>d \<in> set ds. \<not> opt_is_end d" "opt_is_end e" and "\<forall>t \<in> set args. 0 \<notin> set t"
  shows "\<exists>self'. opt_run sch (ds @ e # junk) ((ct_opt_init (prog # args))\<lparr>op_permute := permute\<rparr>) =
      Some (fst (getopt_ref sch ds permute args), self') \<and>
    drop (op_optind self') (op_argv self') = snd (getopt_ref sch ds permute args) \<and>
    ct_opt_narg self' = Some (length (snd (getopt_ref sch ds permute args))) \<and>
    mset (op_argv self') = mset (prog # args)"
proof -
  let ?self = "(ct_opt_init (prog # args))\<lparr>op_permute := permute\<rparr>"
  have "opt_at ?self [prog] [] args" "op_subind ?self = 0" "op_permute ?self = permute"
    by (simp_all add: opt_at_def ct_opt_init_def)
  from run_ref [OF assms(1,2) this assms(3), of sch junk] obtain self' where
    r: "opt_run sch (ds @ e # junk) ?self = Some (fst (getopt_ref sch ds permute args), self')"
      "op_optind self' \<le> length (op_argv self')" "drop (op_optind self') (op_argv self') = snd (getopt_ref sch ds permute args)"
      "mset (op_argv self') = mset (prog # args)" by auto
  then have "length (op_argv self') - op_optind self' = length (snd (getopt_ref sch ds permute args))"
    by (metis length_drop)
  then have "ct_opt_narg self' = Some (length (snd (getopt_ref sch ds permute args)))"
    using r(2) by (simp add: ct_opt_narg_def narg_loop_length)
  then show ?thesis using r by blast
qed

text \<open>A table with \<open>-a\<close>/\<open>--all\<close>, \<open>-o\<close>/\<open>--out=FILE\<close> and \<open>-v\<close>/\<open>--verbose[=LEVEL]\<close>.\<close>

definition opt_table :: "ct_opt_def list" where
  "opt_table = [
     \<lparr>od_longname = Some (lit ''all''), od_shortname = 97, od_argtype = CT_OPT_NONE, od_desc = Some (lit ''everything''), od_metavar = None\<rparr>,
     \<lparr>od_longname = Some (lit ''out''), od_shortname = 111, od_argtype = CT_OPT_REQUIRED, od_desc = None, od_metavar = Some (lit ''FILE'')\<rparr>,
     \<lparr>od_longname = Some (lit ''verbose''), od_shortname = 118, od_argtype = CT_OPT_OPTIONAL, od_desc = None, od_metavar = None\<rparr>]"

lemma opt_table_ok: "\<forall>d \<in> set opt_table. \<not> opt_is_end d" "opt_is_end CT_OPT_DEF_NULL"
  by (simp_all add: opt_table_def opt_is_end_def CT_OPT_DEF_NULL_def)

lemma getopt_example:
  "getopt_ref True opt_table True (map lit [''in'', ''-ao'', ''x'', ''--verbose=3'', ''--'', ''-a'']) =
    ([(CT_OPT_ERROR_NONE, 97, None, 97), (CT_OPT_ERROR_NONE, 111, Some (lit ''x''), 111), (CT_OPT_ERROR_NONE, 118, Some (lit ''3''), 118)],
     map lit [''in'', ''-a''])"
  by code_simp

theorem opt_parses_reference_witness:
  "\<exists>self'. opt_run True (opt_table @ CT_OPT_DEF_NULL # []) ((ct_opt_init (lit ''p'' # map lit [''in'', ''-ao'', ''x'', ''--verbose=3'', ''--'', ''-a'']))\<lparr>op_permute := True\<rparr>) =
      Some ([(CT_OPT_ERROR_NONE, 97, None, 97), (CT_OPT_ERROR_NONE, 111, Some (lit ''x''), 111), (CT_OPT_ERROR_NONE, 118, Some (lit ''3''), 118)], self') \<and>
    drop (op_optind self') (op_argv self') = map lit [''in'', ''-a''] \<and> ct_opt_narg self' = Some 2"
proof -
  have "\<forall>t \<in> set (map lit [''in'', ''-ao'', ''x'', ''--verbose=3'', ''--'', ''-a'']). 0 \<notin> set t" by code_simp
  from opt_parses_reference [OF opt_table_ok this, where sch = True and junk = "[]" and prog = "lit ''p''" and permute = True]
  show ?thesis unfolding getopt_example by auto
qed

text \<open>What an event can be, given the definitions.\<close>

definition event_typed :: "ct_opt_def list \<Rightarrow> opt_event \<Rightarrow> bool" where
  "event_typed ds ev \<longleftrightarrow> (case ev of (r, v, a, w) \<Rightarrow>
     (case r of
        CT_OPT_ERROR_NONE \<Rightarrow> \<exists>d \<in> set ds. v = od_shortname d \<and> w = v \<and>
          (od_argtype d = CT_OPT_NONE \<longrightarrow> a = None) \<and> (od_argtype d = CT_OPT_REQUIRED \<longrightarrow> a \<noteq> None)
      | CT_OPT_ERROR_DONE \<Rightarrow> False
      | CT_OPT_ERROR_INVALID \<Rightarrow> a = None \<and> w = 0
      | CT_OPT_ERROR_MISSING \<Rightarrow> \<exists>d \<in> set ds. v = od_shortname d \<and> w = v \<and> od_argtype d = CT_OPT_REQUIRED \<and> a = None
      | CT_OPT_ERROR_TOOMANY \<Rightarrow> \<exists>d \<in> set ds. v = od_shortname d \<and> w = v \<and> od_argtype d = CT_OPT_NONE \<and> a = None))"

lemma find_in: "find P xs = Some x \<Longrightarrow> x \<in> set xs \<and> P x"
  by (induction xs) (auto split: if_splits)

lemma short_ref_def_of:
  assumes "short_ref ds v = Some ty"
  shows "\<exists>d \<in> set ds. od_shortname d = v \<and> od_argtype d = ty"
  using assms by (auto simp: short_ref_def split: if_splits dest!: find_in)

lemma event_typed_short:
  assumes "short_ref ds v = Some ty"
  shows "(ty = CT_OPT_NONE \<longrightarrow> a = None) \<Longrightarrow> (ty = CT_OPT_REQUIRED \<longrightarrow> a \<noteq> None) \<Longrightarrow> event_typed ds (CT_OPT_ERROR_NONE, v, a, v)"
    and "ty = CT_OPT_REQUIRED \<Longrightarrow> event_typed ds (CT_OPT_ERROR_MISSING, v, None, v)"
  using short_ref_def_of [OF assms] by (fastforce simp: event_typed_def)+

lemma cluster_typed: "ev \<in> set (fst (cluster_ref sch ds cs nx)) \<Longrightarrow> event_typed ds ev"
proof (induction cs)
  case (Cons c cs)
  show ?case
  proof (cases "short_ref ds (char_val sch c)")
    case None
    then show ?thesis using Cons.prems by (simp add: Let_def event_typed_def)
  next
    case (Some ty)
    note typed = event_typed_short [OF Some]
    show ?thesis
    proof (cases ty)
      case CT_OPT_NONE
      then show ?thesis using Cons typed(1) [of None] Some by (auto simp: Let_def case_prod_beta)
    next
      case CT_OPT_REQUIRED
      then show ?thesis using Cons.prems typed(1) typed(2) Some by (auto simp: Let_def split: if_splits option.splits)
    next
      case CT_OPT_OPTIONAL
      then show ?thesis using Cons.prems typed(1) Some by (auto simp: Let_def split: if_splits)
    qed
  qed
qed simp

lemma long_typed: "event_typed ds (fst (long_ref ds name nx))"
proof (cases "find (\<lambda>d. od_longname d = Some (takeWhile (\<lambda>c. c \<noteq> 61) name)) ds")
  case (Some d)
  then have "d \<in> set ds" using find_in by fastforce
  then show ?thesis using Some
    by (cases "od_argtype d"; cases "61 \<in> set name"; cases nx) (auto simp: long_ref_def event_typed_def Let_def)
qed (simp add: long_ref_def event_typed_def)

lemma getopt_typed: "\<forall>ev \<in> set (fst (getopt_ref sch ds permute ts)). event_typed ds ev"
proof (induction "length ts" arbitrary: ts rule: less_induct)
  case less
  show ?case
  proof (cases ts)
    case (Cons t ts')
    obtain es b where c: "cluster_ref sch ds (drop 1 t) (head_opt ts') = (es, b)" by fastforce
    obtain ev b' where l: "long_ref ds (drop 2 t) (head_opt ts') = (ev, b')" by fastforce
    have "\<forall>ev \<in> set es. event_typed ds ev" "event_typed ds ev"
      using cluster_typed [of _ sch ds "drop 1 t" "head_opt ts'"] long_typed [of ds "drop 2 t" "head_opt ts'"] c l by simp_all
    moreover have "\<forall>ev \<in> set (fst (getopt_ref sch ds permute ts')). event_typed ds ev"
      "\<forall>ev \<in> set (fst (getopt_ref sch ds permute (tl ts'))). event_typed ds ev"
      using less [of ts'] less [of "tl ts'"] Cons by simp_all
    ultimately show ?thesis using Cons c l
      by (cases b; cases b') (simp_all add: getopt_ref.simps(2) case_prod_beta Let_def ball_Un)
  qed (simp add: getopt_ref.simps)
qed

text \<open>C33: Every event the loop over \<open>ct_opt_next\<close> reports is well typed: a success names a definition of the
  table and stores its identifier, carries no argument if the definition takes none and has one if it
  requires one; a missing argument is only reported for a definition that requires one, a superfluous one
  only where none is taken, and these and unknown options carry no argument.\<close>

theorem opt_events_typed:
  assumes "\<forall>d \<in> set ds. \<not> opt_is_end d" "opt_is_end e" and "\<forall>t \<in> set args. 0 \<notin> set t"
    and "opt_run sch (ds @ e # junk) ((ct_opt_init (prog # args))\<lparr>op_permute := permute\<rparr>) = Some (es, self')"
  shows "\<forall>ev \<in> set es. event_typed ds ev"
proof -
  have "opt_at ((ct_opt_init (prog # args))\<lparr>op_permute := permute\<rparr>) [prog] [] args" by (simp add: opt_at_def ct_opt_init_def)
  from run_ref [OF assms(1,2) this _ _ assms(3), of permute sch junk] have "es = fst (getopt_ref sch ds permute args)"
    using assms(4) by (auto simp: ct_opt_init_def)
  then show ?thesis using getopt_typed by simp
qed

theorem opt_events_typed_witness:
  "\<exists>es self'. opt_run True (opt_table @ CT_OPT_DEF_NULL # []) ((ct_opt_init (lit ''p'' # map lit [''-x'', ''--all=1'', ''-o'']))\<lparr>op_permute := True\<rparr>) = Some (es, self') \<and>
     map fst es = [CT_OPT_ERROR_INVALID, CT_OPT_ERROR_TOOMANY, CT_OPT_ERROR_MISSING] \<and> (\<forall>ev \<in> set es. event_typed opt_table ev)"
proof -
  have z: "\<forall>t \<in> set (map lit [''-x'', ''--all=1'', ''-o'']). 0 \<notin> set t" by code_simp
  have "opt_at ((ct_opt_init (lit ''p'' # map lit [''-x'', ''--all=1'', ''-o'']))\<lparr>op_permute := True\<rparr>) [lit ''p''] []
      (map lit [''-x'', ''--all=1'', ''-o''])" by (simp add: opt_at_def ct_opt_init_def)
  from run_ref [OF opt_table_ok this _ _ z, of True True "[]"] obtain self' where
    r: "opt_run True (opt_table @ CT_OPT_DEF_NULL # []) ((ct_opt_init (lit ''p'' # map lit [''-x'', ''--all=1'', ''-o'']))\<lparr>op_permute := True\<rparr>) =
      Some (fst (getopt_ref True opt_table True (map lit [''-x'', ''--all=1'', ''-o''])), self')"
    by (auto simp: ct_opt_init_def)
  have "map fst (fst (getopt_ref True opt_table True (map lit [''-x'', ''--all=1'', ''-o'']))) =
      [CT_OPT_ERROR_INVALID, CT_OPT_ERROR_TOOMANY, CT_OPT_ERROR_MISSING]" by code_simp
  then show ?thesis by (intro exI conjI) (rule r, assumption, rule opt_events_typed [OF opt_table_ok z r])
qed

end
