(* ===== verification/Coter_Opt_Help.thy ===== *)
theory Coter_Opt_Help
  imports Coter_Opt "HOL-Library.Signed_Division"
begin

text \<open>
  \<open>opt/opt.c\<close>, the help text: \<open>ct_opt_usage\<close>, \<open>ct_opt_help\<close> and the layout they use.  Columns, which may be
  negative in the code, are \<^typ>\<open>int\<close>; a stream is the characters written to it.
\<close>

section \<open>Help\<close>

record ct_opt_help_config =
  hc_width :: int
  hc_min_desc :: int
  hc_max_left :: int

definition CT_OPT_HELP_CONFIG_INIT :: ct_opt_help_config where
  "CT_OPT_HELP_CONFIG_INIT = \<lparr>hc_width = 80, hc_min_desc = 26, hc_max_left = 36\<rparr>"

definition opt_resolve_config :: "ct_opt_help_config option \<Rightarrow> ct_opt_help_config" where
  "opt_resolve_config cfg =
     (let r = CT_OPT_HELP_CONFIG_INIT in
      case cfg of None \<Rightarrow> r
      | Some cfg \<Rightarrow>
          let r = (if hc_width cfg > 0 then r\<lparr>hc_width := hc_width cfg\<rparr> else r);
              r = (if hc_min_desc cfg > 0 then r\<lparr>hc_min_desc := hc_min_desc cfg\<rparr> else r)
          in if hc_max_left cfg > 0 then r\<lparr>hc_max_left := hc_max_left cfg\<rparr> else r)"

definition opt_has_short :: "ct_opt_def \<Rightarrow> bool" where
  "opt_has_short d \<longleftrightarrow> od_shortname d \<ge> 33 \<and> od_shortname d < 127"

definition opt_has_long :: "ct_opt_def \<Rightarrow> bool" where
  "opt_has_long d \<longleftrightarrow> (case od_longname d of None \<Rightarrow> False | Some n \<Rightarrow> ch n 0 \<noteq> 0)"

definition opt_name :: "ct_opt_def \<Rightarrow> cstr" where
  "opt_name d = (case od_longname d of None \<Rightarrow> [] | Some n \<Rightarrow> n)"

definition opt_metavar :: "ct_opt_def \<Rightarrow> cstr" where
  "opt_metavar d = (case od_metavar d of None \<Rightarrow> lit ''ARG'' | Some m \<Rightarrow> m)"

definition opt_help_width :: "ct_opt_def \<Rightarrow> int" where
  "opt_help_width d =
     (let w = (if opt_has_long d then 8 + int (length (opt_name d)) else if opt_has_short d then 4 else 0) in
      case od_argtype d of
        CT_OPT_REQUIRED \<Rightarrow> w + (1 + int (length (opt_metavar d)))
      | CT_OPT_OPTIONAL \<Rightarrow> w + (3 + int (length (opt_metavar d)))
      | CT_OPT_NONE \<Rightarrow> w)"

text \<open>Printing appends to a list of characters; the functions return what they print.\<close>

definition opt_help_option :: "ct_opt_def \<Rightarrow> int \<Rightarrow> cstr \<times> int" where
  "opt_help_option d col =
     (let out =
        (if opt_has_short d \<and> opt_has_long d then
           lit ''  -'' @ [of_int (od_shortname d)] @ lit '', --'' @ opt_name d
         else if opt_has_short d then lit ''  -'' @ [of_int (od_shortname d)]
         else lit ''      --'' @ (if opt_has_long d then opt_name d else []));
        out = out @ (case od_argtype d of
            CT_OPT_REQUIRED \<Rightarrow> lit ''='' @ opt_metavar d
          | CT_OPT_OPTIONAL \<Rightarrow> lit ''[='' @ opt_metavar d @ lit '']''
          | CT_OPT_NONE \<Rightarrow> []);
        printed = int (length out)
      in (out @ replicate (nat (col - printed)) 32, if printed < col then col else printed))"

text \<open>\<open>fprintf(out, "%*s", col, "")\<close>.\<close>

definition opt_indent :: "int \<Rightarrow> cstr" where
  "opt_indent col = replicate (nat \<bar>col\<bar>) 32"

text \<open>The length of the word at the front.\<close>

fun word_len :: "cstr \<Rightarrow> nat" where
  "word_len [] = 0"
| "word_len (c # cs) = (if c \<noteq> 32 \<and> c \<noteq> 10 then Suc (word_len cs) else 0)"

fun skip_spaces :: "cstr \<Rightarrow> cstr" where
  "skip_spaces [] = []"
| "skip_spaces (c # cs) = (if c = 32 then skip_spaces cs else c # cs)"

lemma length_skip_spaces: "length (skip_spaces cs) \<le> length cs"
  by (induction cs) auto

function opt_help_desc_loop :: "int \<Rightarrow> int \<Rightarrow> cstr \<Rightarrow> int \<Rightarrow> cstr" where
  "opt_help_desc_loop col avail desc pos =
     (if desc = [] then []
      else if hd desc = 10 then [10] @ opt_indent col @ opt_help_desc_loop col avail (tl desc) 0
      else
        let wlen = word_len desc;
            brk = pos > 0 \<and> pos + 1 + int wlen > avail;
            pos1 = (if brk then 0 else pos);
            pos2 = (if pos1 > 0 then pos1 + 1 else pos1)
        in (if brk then [10] @ opt_indent col else []) @ (if pos1 > 0 then [32] else []) @
           take wlen desc @ opt_help_desc_loop col avail (skip_spaces (drop wlen desc)) (pos2 + int wlen))"
  by auto
termination
proof (relation "measure (\<lambda>(_, _, desc, _). length desc)", goal_cases)
  case (2 col avail desc pos)
  then show ?case by simp
next
  case (3 col avail desc pos wlen brk pos1 pos2)
  then obtain c cs where d: "desc = c # cs" "c \<noteq> 10" by (cases desc) auto
  show ?case
  proof (cases "c = 32")
    case True
    then show ?thesis using 3 d length_skip_spaces [of cs] by (simp add: le_imp_less_Suc)
  next
    case False
    then show ?thesis using 3 d length_skip_spaces [of "drop (word_len cs) cs"] by (simp add: le_imp_less_Suc)
  qed
qed simp

declare opt_help_desc_loop.simps [simp del]

definition opt_help_desc :: "cstr \<Rightarrow> int \<Rightarrow> int \<Rightarrow> cstr" where
  "opt_help_desc desc col width =
     (let avail = width - col; avail = (if avail < 10 then 10 else avail)
      in opt_help_desc_loop col avail desc 0 @ [10])"

text \<open>The entries a loop over the definitions visits.\<close>

fun opt_entries :: "ct_opt_def list \<Rightarrow> int \<Rightarrow> int \<Rightarrow> ct_opt_def list option" where
  "opt_entries defs cnt i =
     (if \<not> (cnt < 0 \<or> i < cnt) then Some []
      else case defs of
        [] \<Rightarrow> None
      | d # ds \<Rightarrow> if opt_is_end d then Some [] else do { es \<leftarrow> opt_entries ds cnt (i + 1); Some (d # es) })"

declare opt_entries.simps [simp del]

fun usage_has_opts :: "ct_opt_def list \<Rightarrow> int \<Rightarrow> int \<Rightarrow> bool option" where
  "usage_has_opts defs cnt i =
     (if \<not> (cnt < 0 \<or> i < cnt) then Some False
      else case defs of
        [] \<Rightarrow> None
      | d # ds \<Rightarrow>
          if opt_is_end d then Some False
          else if od_longname d \<noteq> None \<or> opt_has_short d then Some True
          else usage_has_opts ds cnt (i + 1))"

declare usage_has_opts.simps [simp del]

text \<open>The stream is the characters written so far, \<^const>\<open>None\<close> for a null pointer.\<close>

definition ct_opt_usage ::
  "cstr option \<Rightarrow> cstr option \<Rightarrow> ct_opt_def list option \<Rightarrow> int \<Rightarrow> cstr option \<Rightarrow> cstr option option" where
  "ct_opt_usage out progname defs cnt pos_args =
     (case (out, progname) of
        (Some out, Some p) \<Rightarrow> do {
          has_opts \<leftarrow> (case defs of None \<Rightarrow> Some False | Some ds \<Rightarrow> usage_has_opts ds cnt 0);
          Some (Some (out @ lit ''Usage: '' @ p @ (if has_opts then lit '' [options]'' else []) @
            (case pos_args of None \<Rightarrow> [] | Some a \<Rightarrow> if ch a 0 \<noteq> 0 then [32] @ a else []) @ [10])) }
      | _ \<Rightarrow> Some out)"

definition opt_shown :: "ct_opt_def \<Rightarrow> bool" where
  "opt_shown d \<longleftrightarrow> (case od_desc d of None \<Rightarrow> False | Some s \<Rightarrow> ch s 0 \<noteq> 0)"

text \<open>The first loop of \<open>ct_opt_help\<close> computes \<open>(desc_col, actual_max)\<close>.\<close>

definition help_columns :: "ct_opt_help_config \<Rightarrow> int \<Rightarrow> ct_opt_def list \<Rightarrow> int \<times> int" where
  "help_columns c desc_max es =
     fold (\<lambda>d (desc_col, actual_max).
       if \<not> opt_shown d then (desc_col, actual_max)
       else let lw = opt_help_width d + 2 in
         (if lw \<le> hc_max_left c \<and> lw \<le> desc_max \<and> lw > desc_col then lw else desc_col,
          if lw > actual_max then lw else actual_max)) es (0, 0)"

definition help_entry :: "ct_opt_help_config \<Rightarrow> int \<Rightarrow> ct_opt_def \<Rightarrow> cstr" where
  "help_entry c desc_col d =
     (case od_desc d of
        None \<Rightarrow> []
      | Some desc \<Rightarrow>
          if ch desc 0 = 0 then []
          else (if opt_help_width d + 2 > desc_col then fst (opt_help_option d 0) @ [10] @ opt_indent desc_col
                else fst (opt_help_option d desc_col)) @ opt_help_desc desc desc_col (hc_width c))"

definition help_desc_col :: "ct_opt_help_config \<Rightarrow> ct_opt_def list \<Rightarrow> int" where
  "help_desc_col c es =
     (let desc_max = (if hc_min_desc c \<ge> hc_width c then hc_width c sdiv 2 else hc_width c - hc_min_desc c);
          (desc_col, actual_max) = help_columns c desc_max es;
          desc_col = (if desc_col = 0 \<and> actual_max > 0 then if actual_max < desc_max then actual_max else desc_max
                      else desc_col);
          desc_col = (if desc_col > desc_max then desc_max else desc_col)
      in if desc_col < 2 then 2 else desc_col)"

definition ct_opt_help ::
  "cstr option \<Rightarrow> ct_opt_def list option \<Rightarrow> int \<Rightarrow> ct_opt_help_config option \<Rightarrow> cstr option option" where
  "ct_opt_help out defs cnt cfg =
     (case (out, defs) of
        (Some out, Some ds) \<Rightarrow>
          if cnt = 0 then Some (Some out)
          else (case ds of
            [] \<Rightarrow> None
          | d # _ \<Rightarrow>
              if opt_is_end d then Some (Some out)
              else do {
                let c = opt_resolve_config cfg;
                es \<leftarrow> opt_entries ds cnt 0;
                Some (Some (out @ concat (map (help_entry c (help_desc_col c es)) es))) })
      | _ \<Rightarrow> Some out)"

section \<open>The help text\<close>

text \<open>All lines of a text have at most \<open>m\<close> columns, if its first character is printed in column \<open>k\<close>.\<close>

fun cols_ok :: "nat \<Rightarrow> nat \<Rightarrow> cstr \<Rightarrow> bool" where
  "cols_ok m k [] = (k \<le> m)"
| "cols_ok m k (c # cs) = (if c = 10 then k \<le> m \<and> cols_ok m 0 cs else cols_ok m (k + 1) cs)"

text \<open>The words of a text: what spaces and line ends separate.\<close>

function words_of :: "cstr \<Rightarrow> cstr list" where
  "words_of [] = []"
| "words_of (c # cs) =
     (if c = 32 \<or> c = 10 then words_of cs
      else (c # takeWhile (\<lambda>x. x \<noteq> 32 \<and> x \<noteq> 10) cs) # words_of (dropWhile (\<lambda>x. x \<noteq> 32 \<and> x \<noteq> 10) cs))"
  by pat_completeness auto
termination by (relation "measure length") (auto simp: le_imp_less_Suc length_dropWhile_le)

lemma cols_ok_line: "10 \<notin> set xs \<Longrightarrow> cols_ok m k (xs @ ys) = cols_ok m (k + length xs) ys"
  by (induction xs arbitrary: k) auto

lemma cols_ok_text: "cols_ok m k (xs @ [10]) \<Longrightarrow> cols_ok m 0 ys \<Longrightarrow> cols_ok m k ((xs @ [10]) @ ys)"
  by (induction xs arbitrary: k) (auto split: if_splits)

lemma words_of_seps: "set s \<subseteq> {32, 10} \<Longrightarrow> words_of (s @ r) = words_of r"
  by (induction s) auto

lemma word_append:
  assumes "r = [] \<or> hd r = 32 \<or> hd r = (10 :: u8)"
  shows "takeWhile (\<lambda>x. x \<noteq> 32 \<and> x \<noteq> 10) (cs @ r) = takeWhile (\<lambda>x. x \<noteq> 32 \<and> x \<noteq> 10) cs"
    and "dropWhile (\<lambda>x. x \<noteq> 32 \<and> x \<noteq> 10) (cs @ r) = dropWhile (\<lambda>x. x \<noteq> 32 \<and> x \<noteq> 10) cs @ r"
  using assms by (induction cs) (cases r; auto)+

lemma words_of_word: "set w \<inter> {32, 10} = {} \<Longrightarrow> words_of w = (if w = [] then [] else [w])"
proof (cases w)
  case (Cons c cs)
  assume "set w \<inter> {32, 10} = {}"
  then have "\<forall>x \<in> set cs. x \<noteq> 32 \<and> x \<noteq> 10" "c \<noteq> 32" "c \<noteq> 10" using Cons by auto
  moreover from this(1) have "takeWhile (\<lambda>x. x \<noteq> 32 \<and> x \<noteq> 10) cs = cs" by (simp add: takeWhile_eq_all_conv)
  moreover have "words_of (dropWhile (\<lambda>x. x \<noteq> 32 \<and> x \<noteq> 10) cs) = words_of []"
    by (rule arg_cong [of _ _ words_of]) (use calculation(1) in simp)
  ultimately show ?thesis using Cons by simp
qed simp

lemma words_of_append: "r = [] \<or> hd r = 32 \<or> hd r = 10 \<Longrightarrow> words_of (w @ r) = words_of w @ words_of r"
proof (induction w rule: words_of.induct)
  case (2 c cs)
  then show ?case using word_append [OF 2(3)] by auto
qed simp

lemma word_len_take: "take (word_len d) d = takeWhile (\<lambda>x. x \<noteq> 32 \<and> x \<noteq> 10) d"
  "drop (word_len d) d = dropWhile (\<lambda>x. x \<noteq> 32 \<and> x \<noteq> 10) d" "word_len d \<le> length d"
  by (induction d) auto

lemma words_skip: "words_of (skip_spaces d) = words_of d"
  by (induction d) auto

lemma words_front:
  "words_of d = (if word_len d = 0 then [] else [take (word_len d) d]) @ words_of (drop (word_len d) d)"
  by (cases d) (auto simp: word_len_take)

lemma no_sep_take: "set (take (word_len d) d) \<inter> {32, 10} = {}"
  using set_takeWhileD unfolding word_len_take(1) by fastforce

lemma desc_loop_start:
  "0 < pos \<Longrightarrow> opt_help_desc_loop col avail desc pos = [] \<or> hd (opt_help_desc_loop col avail desc pos) \<in> {32, 10}"
  by (subst (1 2) opt_help_desc_loop.simps) (simp add: Let_def)

lemma desc_loop_words: "0 \<le> pos \<Longrightarrow> words_of (opt_help_desc_loop col avail desc pos) = words_of desc"
proof (induction col avail desc pos rule: opt_help_desc_loop.induct)
  case (1 col avail desc pos)
  have ind: "set (opt_indent col) \<subseteq> {32, 10}" by (auto simp: opt_indent_def)
  consider (empty) "desc = []" | (line) "desc \<noteq> []" "hd desc = 10" | (word) "desc \<noteq> []" "hd desc \<noteq> 10" by blast
  then show ?case
  proof cases
    case empty
    then show ?thesis by (subst opt_help_desc_loop.simps) simp
  next
    case line
    from line have "words_of desc = words_of (tl desc)" by (cases desc) simp_all
    moreover have "words_of (opt_indent col @ opt_help_desc_loop col avail (tl desc) 0) = words_of (tl desc)"
      using 1(1) [OF line] words_of_seps [OF ind] by simp
    ultimately show ?thesis using line by (subst opt_help_desc_loop.simps) simp
  next
    case word
    define n where "n = word_len desc"
    define brk where "brk \<longleftrightarrow> pos > 0 \<and> pos + 1 + int n > avail"
    define p1 where "p1 = (if brk then 0 else pos)"
    define p2 where "p2 = (if p1 > 0 then p1 + 1 else p1)"
    let ?rest = "opt_help_desc_loop col avail (skip_spaces (drop n desc)) (p2 + int n)"
    have p: "0 \<le> p2 + int n" "n \<noteq> 0 \<Longrightarrow> 0 < p2 + int n" using 1(3) by (simp_all add: p2_def p1_def)
    have IH: "words_of ?rest = words_of (drop n desc)"
      using 1(2) [OF word n_def brk_def p1_def p2_def p(1)] words_skip by simp
    have "words_of (take n desc @ ?rest) = words_of (take n desc) @ words_of ?rest"
    proof (cases "n = 0")
      case False
      show ?thesis by (rule words_of_append) (use desc_loop_start [OF p(2) [OF False]] in auto)
    qed simp
    moreover have "words_of (take n desc) = (if n = 0 then [] else [take n desc])"
      using words_of_word [OF no_sep_take [of desc]] word_len_take(3) [of desc] word(1) by (auto simp: n_def)
    ultimately have "words_of (take n desc @ ?rest) = words_of desc"
      using IH words_front [of desc] by (simp add: n_def)
    moreover have "opt_help_desc_loop col avail desc pos =
        ((if brk then [10] @ opt_indent col else []) @ (if p1 > 0 then [32] else [])) @ (take n desc @ ?rest)"
      using word by (subst opt_help_desc_loop.simps) (simp add: n_def brk_def p1_def p2_def Let_def)
    moreover have "set ((if brk then [10] @ opt_indent col else []) @ (if p1 > 0 then [32] else [])) \<subseteq> {32, 10}"
      using ind by auto
    ultimately show ?thesis using words_of_seps by simp
  qed
qed

lemma desc_loop_cols:
  assumes "0 \<le> col"
  shows "0 \<le> pos \<Longrightarrow> pos \<le> avail \<Longrightarrow> \<forall>w \<in> set (words_of desc). int (length w) \<le> avail \<Longrightarrow>
    cols_ok (nat (col + avail)) (nat (col + pos)) (opt_help_desc_loop col avail desc pos @ [10])"
  using assms
proof (induction col avail desc pos rule: opt_help_desc_loop.induct)
  case (1 col avail desc pos)
  have ind: "10 \<notin> set (opt_indent col)" "length (opt_indent col) = nat col" using 1(6) by (auto simp: opt_indent_def)
  consider (empty) "desc = []" | (line) "desc \<noteq> []" "hd desc = 10" | (word) "desc \<noteq> []" "hd desc \<noteq> 10" by blast
  then show ?case
  proof cases
    case empty
    then show ?thesis using 1(4) by (subst opt_help_desc_loop.simps) (simp add: nat_mono)
  next
    case line
    from line have "words_of desc = words_of (tl desc)" by (cases desc) simp_all
    then have "cols_ok (nat (col + avail)) (nat (col + 0)) (opt_help_desc_loop col avail (tl desc) 0 @ [10])"
      using 1(1) [OF line] 1(3-6) by simp
    then show ?thesis using line 1(4) ind
      by (subst opt_help_desc_loop.simps) (simp add: cols_ok_line nat_mono)
  next
    case word
    define n where "n = word_len desc"
    define brk where "brk \<longleftrightarrow> pos > 0 \<and> pos + 1 + int n > avail"
    define p1 where "p1 = (if brk then 0 else pos)"
    define p2 where "p2 = (if p1 > 0 then p1 + 1 else p1)"
    let ?rest = "opt_help_desc_loop col avail (skip_spaces (drop n desc)) (p2 + int n)"
    have wn: "int n \<le> avail"
    proof (cases "n = 0")
      case False
      have "take n desc \<in> set (words_of desc)" by (subst words_front) (use False n_def in simp)
      then have "int (length (take n desc)) \<le> avail" using 1(5) by blast
      then show ?thesis using word_len_take(3) [of desc] by (simp add: n_def)
    qed (use 1(3,4) in simp)
    have p: "0 \<le> p2 + int n" "p2 + int n \<le> avail" "0 \<le> p1"
      using 1(3,4) wn by (auto simp: p2_def p1_def brk_def)
    have "\<forall>w \<in> set (words_of (skip_spaces (drop n desc))). int (length w) \<le> avail"
      using 1(5) words_front [of desc] unfolding words_skip n_def by auto
    from 1(2) [OF word n_def brk_def p1_def p2_def p(1,2) this 1(6)]
    have IH: "cols_ok (nat (col + avail)) (nat (col + (p2 + int n))) (?rest @ [10])" .
    have nn: "10 \<notin> set (take n desc)" "length (take n desc) = n"
      using no_sep_take [of desc] word_len_take(3) [of desc] by (auto simp: n_def)
    have k: "nat (col + p1) + length (if p1 > 0 then [32 :: u8] else []) + n = nat (col + (p2 + int n))"
      using 1(6) p(3) by (auto simp: p2_def)
    have "cols_ok (nat (col + avail)) (nat (col + p1)) ((if p1 > 0 then [32] else []) @ take n desc @ ?rest @ [10])"
      using IH nn k by (simp add: cols_ok_line)
    then have "cols_ok (nat (col + avail)) (nat (col + pos))
        ((if brk then [10] @ opt_indent col else []) @ (if p1 > 0 then [32] else []) @ take n desc @ ?rest @ [10])"
      using ind 1(4) by (auto simp: p1_def cols_ok_line nat_mono)
    moreover have "opt_help_desc_loop col avail desc pos @ [10] =
        (if brk then [10] @ opt_indent col else []) @ (if p1 > 0 then [32] else []) @ take n desc @ ?rest @ [10]"
      using word by (subst opt_help_desc_loop.simps) (simp add: n_def brk_def p1_def p2_def Let_def)
    ultimately show ?thesis by simp
  qed
qed

lemma help_desc_layout:
  assumes "0 \<le> col" "col + 10 \<le> width" and "\<forall>w \<in> set (words_of desc). int (length w) \<le> width - col"
  shows "cols_ok (nat width) (nat col) (opt_help_desc desc col width)" and "words_of (opt_help_desc desc col width) = words_of desc"
proof -
  show "cols_ok (nat width) (nat col) (opt_help_desc desc col width)"
    using desc_loop_cols [of col 0 "width - col" desc] assms by (simp add: opt_help_desc_def Let_def)
  have "words_of (opt_help_desc_loop col avail desc 0 @ [10]) = words_of desc" for avail
    using words_of_append [of "[10]"] desc_loop_words [of 0] by (simp add: )
  then show "words_of (opt_help_desc desc col width) = words_of desc" by (simp add: opt_help_desc_def Let_def)
qed

lemma opt_option_text:
  assumes "opt_has_short d \<or> opt_has_long d" and "10 \<notin> set (opt_name d)" "od_argtype d \<noteq> CT_OPT_NONE \<longrightarrow> 10 \<notin> set (opt_metavar d)" and "0 \<le> col"
  shows "int (length (fst (opt_help_option d col))) = max col (opt_help_width d)"
    and "10 \<notin> set (fst (opt_help_option d col))" and "snd (opt_help_option d col) = max col (opt_help_width d)"
    and "fst (opt_help_option d col) = fst (opt_help_option d 0) @ replicate (nat (col - opt_help_width d)) 32"
proof -
  let ?t = "fst (opt_help_option d 0)"
  have lits: "length (lit s) = length s" for s by (simp add: lit_def)
  have w: "int (length ?t) = opt_help_width d"
    using assms(1) by (cases "od_argtype d") (auto simp: opt_help_option_def opt_help_width_def Let_def lits)
  show eq: "fst (opt_help_option d col) = ?t @ replicate (nat (col - opt_help_width d)) 32"
    using w by (simp add: opt_help_option_def Let_def)
  show len: "int (length (fst (opt_help_option d col))) = max col (opt_help_width d)"
    unfolding eq using w by simp
  have "of_int (od_shortname d) \<noteq> (10 :: u8)" if "opt_has_short d"
  proof
    assume "of_int (od_shortname d) = (10 :: u8)"
    then have "uint (of_int (od_shortname d) :: u8) = 10" by simp
    then show False using that by (simp add: opt_has_short_def unsigned_of_int take_bit_int_eq_self)
  qed
  moreover have "10 \<notin> set (lit ''  -'')" "10 \<notin> set (lit '', --'')" "10 \<notin> set (lit ''      --'')" "10 \<notin> set (lit ''='')"
    "10 \<notin> set (lit ''[='')" "10 \<notin> set (lit '']'')" by code_simp+
  ultimately have "10 \<notin> set ?t"
    using assms(2,3) by (cases "od_argtype d") (auto simp: opt_help_option_def Let_def)
  then show "10 \<notin> set (fst (opt_help_option d col))" unfolding eq by simp
  have "snd (opt_help_option d col) = max col (int (length ?t))"
    by (simp add: opt_help_option_def Let_def max_def)
  then show "snd (opt_help_option d col) = max col (opt_help_width d)" using w by simp
qed

lemma help_desc_col_bounds:
  "2 \<le> help_desc_col c es"
  "10 \<le> hc_min_desc c \<Longrightarrow> 20 \<le> hc_width c \<Longrightarrow> help_desc_col c es + 10 \<le> hc_width c"
  "1 \<le> hc_min_desc c \<Longrightarrow> 20 \<le> hc_width c \<Longrightarrow> min (hc_min_desc c) (hc_width c div 2) \<le> hc_width c - help_desc_col c es"
proof -
  show "2 \<le> help_desc_col c es" by (auto simp: help_desc_col_def Let_def case_prod_beta)
  assume "10 \<le> hc_min_desc c" "20 \<le> hc_width c"
  then show "help_desc_col c es + 10 \<le> hc_width c"
    by (auto simp: help_desc_col_def Let_def case_prod_beta signed_divide_int_def sgn_if)
next
  assume "1 \<le> hc_min_desc c" "20 \<le> hc_width c"
  then show "min (hc_min_desc c) (hc_width c div 2) \<le> hc_width c - help_desc_col c es"
    by (auto simp: help_desc_col_def Let_def case_prod_beta signed_divide_int_def sgn_if min_def)
qed

text \<open>The text of an entry ends a line, keeps to the width, and prints the words of the option and of the
  description.\<close>

definition entry_words :: "ct_opt_def \<Rightarrow> cstr list" where
  "entry_words d = (if opt_shown d then words_of (fst (opt_help_option d 0)) @ words_of (the (od_desc d)) else [])"

definition entry_fits :: "int \<Rightarrow> int \<Rightarrow> ct_opt_def \<Rightarrow> bool" where
  "entry_fits width col d \<longleftrightarrow> (opt_shown d \<longrightarrow>
     (opt_has_short d \<or> opt_has_long d) \<and> 10 \<notin> set (opt_name d) \<and> (od_argtype d \<noteq> CT_OPT_NONE \<longrightarrow> 10 \<notin> set (opt_metavar d)) \<and>
     opt_help_width d \<le> width \<and> (\<forall>w \<in> set (words_of (the (od_desc d))). int (length w) \<le> width - col))"

lemma help_entry_layout:
  assumes fits: "entry_fits (hc_width c) col d" and col: "2 \<le> col" "col + 10 \<le> hc_width c"
  shows "\<exists>t. help_entry c col d = t \<and> (t = [] \<or> (\<exists>u. t = u @ [10])) \<and> (t \<noteq> [] \<longrightarrow> cols_ok (nat (hc_width c)) 0 t) \<and>
    words_of t = entry_words d"
proof (cases "opt_shown d")
  case False
  then show ?thesis by (auto simp: help_entry_def entry_words_def opt_shown_def split: option.splits)
next
  case True
  then obtain desc where desc: "od_desc d = Some desc" "ch desc 0 \<noteq> 0" by (auto simp: opt_shown_def split: option.splits)
  have f: "opt_has_short d \<or> opt_has_long d" "10 \<notin> set (opt_name d)" "od_argtype d \<noteq> CT_OPT_NONE \<longrightarrow> 10 \<notin> set (opt_metavar d)" "opt_help_width d \<le> hc_width c"
    "\<forall>w \<in> set (words_of desc). int (length w) \<le> hc_width c - col"
    using fits True desc(1) by (simp_all add: entry_fits_def)
  let ?body = "opt_help_desc desc col (hc_width c)"
  have body: "cols_ok (nat (hc_width c)) (nat col) ?body" "words_of ?body = words_of desc"
    using help_desc_layout [OF _ col(2) f(5)] col(1) by simp_all
  have last: "\<exists>u. ?body = u @ [10]" by (simp add: opt_help_desc_def Let_def)
  have ind: "10 \<notin> set (opt_indent col)" "length (opt_indent col) = nat col" "set (opt_indent col) \<subseteq> {32, 10}"
    using col(1) by (auto simp: opt_indent_def)
  note o0 = opt_option_text [OF f(1-3), of 0, simplified] and oc = opt_option_text [OF f(1-3), of col]
  show ?thesis
  proof (cases "opt_help_width d + 2 > col")
    case True
    then have t: "help_entry c col d = fst (opt_help_option d 0) @ [10] @ opt_indent col @ ?body"
      using desc by (simp add: help_entry_def)
    have "length (fst (opt_help_option d 0)) \<le> nat (hc_width c)" using o0(1) f(4) col by simp
    then have "cols_ok (nat (hc_width c)) 0 (help_entry c col d)"
      unfolding t using o0(2) ind body(1) by (simp add: cols_ok_line)
    moreover have "words_of (help_entry c col d) = entry_words d"
      unfolding t using words_of_append [of "[10] @ opt_indent col @ ?body" "fst (opt_help_option d 0)"]
        words_of_seps [of "[10] @ opt_indent col" ?body] ind(3) body(2) desc \<open>opt_shown d\<close>
      by (simp add: entry_words_def)
    moreover have "\<exists>u. help_entry c col d = u @ [10]" unfolding t using last by auto
    ultimately show ?thesis by blast
  next
    case False
    then have t: "help_entry c col d = fst (opt_help_option d col) @ ?body" using desc by (simp add: help_entry_def)
    have l: "length (fst (opt_help_option d col)) = nat col" using oc(1) False col(1) by simp
    have "cols_ok (nat (hc_width c)) 0 (help_entry c col d)"
      unfolding t using oc(2) col(1) l body(1) by (simp add: cols_ok_line)
    moreover have "words_of (help_entry c col d) = entry_words d"
    proof -
      let ?pad = "replicate (nat (col - opt_help_width d)) (32 :: u8)"
      have "?pad \<noteq> []" "set ?pad \<subseteq> {32, 10}" using False by auto
      then have hd: "hd (?pad @ ?body) = 32" by (cases "nat (col - opt_help_width d)") simp_all
      have "help_entry c col d = fst (opt_help_option d 0) @ ?pad @ ?body" unfolding t using oc(4) col(1) by simp
      then show ?thesis
        using words_of_append [of "?pad @ ?body" "fst (opt_help_option d 0)"] hd words_of_seps [OF \<open>set ?pad \<subseteq> {32, 10}\<close>] body(2)
          desc \<open>opt_shown d\<close> by (simp add: entry_words_def)
    qed
    moreover have "\<exists>u. help_entry c col d = u @ [10]" unfolding t using last by auto
    ultimately show ?thesis by blast
  qed
qed

text \<open>What an entry must say, from its fields and not from the code: its names, a letter if it is a printable
  character and a long name if there is one, a comma between the two; then the name of the argument; then
  the words of the description.  An entry without a description, or with an empty one, is hidden.\<close>

definition option_names :: "ct_opt_def \<Rightarrow> cstr list" where
  "option_names d =
     (if 33 \<le> od_shortname d \<and> od_shortname d \<le> 126 then [lit ''-'' @ [of_int (od_shortname d)]] else []) @
     (case od_longname d of Some (c # cs) \<Rightarrow> [lit ''--'' @ c # cs] | _ \<Rightarrow> [])"

definition option_arg :: "ct_opt_def \<Rightarrow> cstr" where
  "option_arg d =
     (let name = (case od_metavar d of None \<Rightarrow> lit ''ARG'' | Some m \<Rightarrow> m) in
      case od_argtype d of
        CT_OPT_NONE \<Rightarrow> []
      | CT_OPT_REQUIRED \<Rightarrow> lit ''='' @ name
      | CT_OPT_OPTIONAL \<Rightarrow> lit ''[='' @ name @ lit '']'')"

definition option_words :: "ct_opt_def \<Rightarrow> cstr list" where
  "option_words d =
     (case option_names d of
        [short, name] \<Rightarrow> (short @ lit '','') # words_of (name @ option_arg d)
      | names \<Rightarrow> words_of (concat names @ option_arg d))"

definition help_words :: "ct_opt_def \<Rightarrow> cstr list" where
  "help_words d = (if od_desc d \<in> {None, Some []} then [] else option_words d @ words_of (the (od_desc d)))"

text \<open>The columns of an option: a short name stands in columns 3 and 4, a long name behind column 6.\<close>

definition option_columns :: "ct_opt_def \<Rightarrow> nat" where
  "option_columns d = (case od_longname d of Some (c # cs) \<Rightarrow> 9 + length cs | _ \<Rightarrow> 4) + length (option_arg d)"

text \<open>The conditions: strings without line ends (in names) and terminators, a name, an option that fits the
  width, and words that fit the room for descriptions.\<close>

definition help_fits :: "int \<Rightarrow> int \<Rightarrow> ct_opt_def \<Rightarrow> bool" where
  "help_fits width room d \<longleftrightarrow>
     (case od_desc d of None \<Rightarrow> True | Some desc \<Rightarrow>
       0 \<notin> set desc \<and>
       (desc = [] \<or>
         option_names d \<noteq> [] \<and> set (concat (option_names d) @ option_arg d) \<inter> {0, 10} = {} \<and>
         int (option_columns d) \<le> width \<and> (\<forall>w \<in> set (words_of desc). int (length w) \<le> room)))"

lemma lits: "lit ''  -'' = [32, 32, 45]" "lit '', --'' = [44, 32, 45, 45]" "lit ''      --'' = [32, 32, 32, 32, 32, 32, 45, 45]"
  "lit ''-'' = [45]" "lit ''--'' = [45, 45]" "lit '','' = [44]" "lit ''='' = [61]" "lit ''[='' = [91, 61]" "lit '']'' = [93]"
  by code_simp+

lemma option_arg_code:
  "option_arg d = (case od_argtype d of
     CT_OPT_REQUIRED \<Rightarrow> lit ''='' @ opt_metavar d | CT_OPT_OPTIONAL \<Rightarrow> lit ''[='' @ opt_metavar d @ lit '']'' | CT_OPT_NONE \<Rightarrow> [])"
  by (simp add: option_arg_def opt_metavar_def Let_def split: ct_opt_argtype.splits)

lemma option_names_code:
  assumes "0 \<notin> set (concat (option_names d))"
  shows "option_names d =
     (if opt_has_short d then [[45, of_int (od_shortname d)]] else []) @ (if opt_has_long d then [45 # 45 # opt_name d] else [])"
  using assms
  by (auto simp: option_names_def opt_has_short_def opt_has_long_def opt_name_def ch_def lits split: option.splits list.splits)

lemma short_char: "opt_has_short d \<Longrightarrow> (of_int (od_shortname d) :: u8) \<noteq> 32 \<and> (of_int (od_shortname d) :: u8) \<noteq> 10"
proof -
  assume s: "opt_has_short d"
  then have u: "uint (of_int (od_shortname d) :: u8) = od_shortname d"
    by (simp add: opt_has_short_def unsigned_of_int take_bit_int_eq_self)
  have "uint (32 :: u8) = 32" "uint (10 :: u8) = 10" by simp_all
  moreover have "od_shortname d \<noteq> 32" "od_shortname d \<noteq> 10" using s by (auto simp: opt_has_short_def)
  ultimately show ?thesis using u by metis
qed

text \<open>What the code prints are these words, in these columns.\<close>

lemma option_words_code:
  assumes "0 \<notin> set (concat (option_names d))" and "option_names d \<noteq> []"
  shows "words_of (fst (opt_help_option d 0)) = option_words d" and "opt_help_width d = int (option_columns d)"
proof -
  note names = option_names_code [OF assms(1)]
  have t: "fst (opt_help_option d 0) = (if opt_has_short d \<and> opt_has_long d then [32, 32, 45, of_int (od_shortname d), 44, 32, 45, 45] @ opt_name d
      else if opt_has_short d then [32, 32, 45, of_int (od_shortname d)] else [32, 32, 32, 32, 32, 32, 45, 45] @ opt_name d) @ option_arg d"
    using assms(2) by (auto simp: opt_help_option_def Let_def option_arg_code lits names split: if_splits)
  show "words_of (fst (opt_help_option d 0)) = option_words d"
    unfolding t option_words_def using assms(2) short_char [of d] by (auto simp: names lits)
  have "opt_has_long d \<longleftrightarrow> (\<exists>c cs. od_longname d = Some (c # cs))"
    using assms(1) by (auto simp: opt_has_long_def option_names_def ch_def lits neq_Nil_conv split: option.splits list.splits)
  then show "opt_help_width d = int (option_columns d)"
    using assms(2) by (auto simp: opt_help_width_def option_columns_def option_arg_code opt_name_def lits Let_def names
        split: option.splits list.splits ct_opt_argtype.splits)
qed

lemma help_fits_code:
  assumes "help_fits width (width - col) d"
  shows "entry_fits width col d" and "entry_words d = help_words d"
proof -
  have shown: "opt_shown d \<longleftrightarrow> od_desc d \<notin> {None, Some []}"
    using assms by (auto simp: help_fits_def opt_shown_def ch_def neq_Nil_conv split: option.splits)
  have f: "option_names d \<noteq> []" "0 \<notin> set (concat (option_names d))" "10 \<notin> set (concat (option_names d) @ option_arg d)"
    "int (option_columns d) \<le> width" "\<forall>w \<in> set (words_of (the (od_desc d))). int (length w) \<le> width - col"
    if "opt_shown d"
    using assms that shown by (auto simp: help_fits_def split: option.splits)
  show "entry_words d = help_words d"
    using option_words_code(1) [OF f(2,1)] shown by (simp add: entry_words_def help_words_def)
  show "entry_fits width col d"
  proof (cases "opt_shown d")
    case True
    note f = f [OF True]
    have "od_argtype d \<noteq> CT_OPT_NONE \<longrightarrow> 10 \<notin> set (opt_metavar d)"
      using f(3) unfolding option_arg_code by (cases "od_argtype d") auto
    moreover have "10 \<notin> set (opt_name d)"
      using f(3) option_names_code [OF f(2)]
      by (auto simp: opt_name_def opt_has_long_def option_names_def split: option.splits list.splits)
    ultimately show ?thesis
      using f option_words_code(2) [OF f(2,1)] option_names_code [OF f(2)] by (auto simp: entry_fits_def split: if_splits)
  qed (simp add: entry_fits_def)
qed

text \<open>C34: For every table, with a resolved width of at least 20 columns and at least 10 reserved for descriptions:
  the column for descriptions leaves the reserved room, or half of the width if less; and if every entry
  that is not hidden has a name and fits the width, and every word of its description fits behind that
  column, the help text appends to the stream only lines within the width, and prints, entry by entry,
  exactly the names of the option, its argument and the words of its description: wrapping loses and joins
  no words.\<close>

theorem help_within_width:
  assumes "cnt \<noteq> 0" "ds = d # ds'" "\<not> opt_is_end d" and es: "opt_entries ds cnt 0 = Some es"
    and c: "c = opt_resolve_config cfg" "20 \<le> hc_width c" "10 \<le> hc_min_desc c"
    and fits: "\<forall>d \<in> set es. help_fits (hc_width c) (hc_width c - help_desc_col c es) d"
  shows "min (hc_min_desc c) (hc_width c div 2) \<le> hc_width c - help_desc_col c es \<and>
    (\<exists>text. ct_opt_help (Some out) (Some ds) cnt cfg = Some (Some (out @ text)) \<and> cols_ok (nat (hc_width c)) 0 text \<and>
      words_of text = concat (map help_words es))"
proof -
  let ?col = "help_desc_col c es"
  have col: "2 \<le> ?col" "?col + 10 \<le> hc_width c" using help_desc_col_bounds(1,2) c by simp_all
  have "cols_ok (nat (hc_width c)) 0 (concat (map (help_entry c ?col) xs)) \<and>
      words_of (concat (map (help_entry c ?col) xs)) = concat (map help_words xs)"
    if "\<forall>d \<in> set xs. help_fits (hc_width c) (hc_width c - ?col) d" for xs
    using that
  proof (induction xs)
    case (Cons x xs)
    let ?r = "concat (map (help_entry c ?col) xs)"
    have IH: "cols_ok (nat (hc_width c)) 0 ?r" "words_of ?r = concat (map help_words xs)" using Cons by simp_all
    have x: "help_fits (hc_width c) (hc_width c - ?col) x" using Cons.prems by simp
    from help_entry_layout [OF help_fits_code(1) [OF x] col, unfolded help_fits_code(2) [OF x]] obtain t where t: "help_entry c ?col x = t" "t = [] \<or> (\<exists>u. t = u @ [10])"
      "t \<noteq> [] \<longrightarrow> cols_ok (nat (hc_width c)) 0 t" "words_of t = help_words x" by blast
    show ?case
    proof (cases "t = []")
      case True
      then show ?thesis using t(1,4) IH by simp
    next
      case False
      then obtain u where u: "t = u @ [10]" using t(2) by blast
      have "cols_ok (nat (hc_width c)) 0 (t @ ?r)" using cols_ok_text t(3) False IH(1) unfolding u by blast
      moreover have "words_of (t @ ?r) = help_words x @ words_of ?r"
        using words_of_append [of "[10] @ ?r" u] words_of_append [of "[10]" u] t(4) unfolding u by simp
      ultimately show ?thesis using t(1) IH(2) by simp
    qed
  qed simp
  from this [OF fits] show ?thesis
    using assms(1-3) es c help_desc_col_bounds(3) [of c es] by (auto simp: ct_opt_help_def Let_def)
qed

theorem help_within_width_witness:
  "\<exists>text. ct_opt_help (Some []) (Some (opt_table @ [CT_OPT_DEF_NULL])) (-1) None = Some (Some ([] @ text)) \<and>
    cols_ok 80 0 text \<and> words_of text = [lit ''-a,'', lit ''--all'', lit ''everything'']"
proof -
  have es: "opt_entries (opt_table @ [CT_OPT_DEF_NULL]) (-1) 0 = Some opt_table" by code_simp
  have "list_all (help_fits 80 (80 - help_desc_col CT_OPT_HELP_CONFIG_INIT opt_table)) opt_table" by code_simp
  then have fits: "\<forall>d \<in> set opt_table. help_fits (hc_width CT_OPT_HELP_CONFIG_INIT) (hc_width CT_OPT_HELP_CONFIG_INIT - help_desc_col CT_OPT_HELP_CONFIG_INIT opt_table) d"
    by (simp add: list_all_iff CT_OPT_HELP_CONFIG_INIT_def)
  have words: "concat (map help_words opt_table) = [lit ''-a,'', lit ''--all'', lit ''everything'']" by code_simp
  have "\<exists>d ds'. opt_table @ [CT_OPT_DEF_NULL] = d # ds' \<and> \<not> opt_is_end d" by (simp add: opt_table_def opt_is_end_def)
  then obtain d ds' where d: "opt_table @ [CT_OPT_DEF_NULL] = d # ds'" "\<not> opt_is_end d" by blast
  show ?thesis
    using help_within_width [of "-1", OF _ d es, of CT_OPT_HELP_CONFIG_INIT None "[]"] fits words
    by (simp add: opt_resolve_config_def CT_OPT_HELP_CONFIG_INIT_def)
qed

text \<open>An entry with an empty long name and no printable short name is the exception: eight columns are
  printed for it and none are counted.\<close>

lemma help_width_unnamed:
  "opt_help_width \<lparr>od_longname = Some [], od_shortname = 1, od_argtype = CT_OPT_NONE, od_desc = Some (lit ''x''), od_metavar = None\<rparr> = 0 \<and>
   length (fst (opt_help_option \<lparr>od_longname = Some [], od_shortname = 1, od_argtype = CT_OPT_NONE, od_desc = Some (lit ''x''), od_metavar = None\<rparr> 0)) = 8"
  by code_simp

end
