(* ===== verification/Coter_Ref.thy ===== *)
theory Coter_Ref
  imports Coter_Prelude
begin

text \<open>
  \<open>sync/ref.h\<close>, \<open>ref.c\<close>: saturating reference counts.  On the atomic back ends a function is a sequence of
  atomic instructions on the counter; the model gives, for each instruction, the new counter and what the
  thread does next, so that threads interleave between instructions.  A compare-and-swap may fail
  spuriously (the weak form of the GCC built-in).  On the mutex back end a function is one critical
  section.  Memory orderings are not modelled: the steps are sequentially consistent.
\<close>

section \<open>The counter\<close>

definition REFCOUNT_MAX :: u32 where "REFCOUNT_MAX = 0x7fffffff"

definition REFCOUNT_SATURATED :: u32 where "REFCOUNT_SATURATED = 0xc0000000"

datatype refcount_saturation_type =
  REFCOUNT_ADD_NOT_ZERO_OVERFLOW | REFCOUNT_ADD_OVERFLOW | REFCOUNT_ADD_USE_AFTER_FREE | REFCOUNT_SUB_USE_AFTER_FREE

definition saturation_code :: "refcount_saturation_type \<Rightarrow> u32" where
  "saturation_code type = (case type of
       REFCOUNT_ADD_NOT_ZERO_OVERFLOW \<Rightarrow> 0 | REFCOUNT_ADD_OVERFLOW \<Rightarrow> 1
     | REFCOUNT_ADD_USE_AFTER_FREE \<Rightarrow> 2 | REFCOUNT_SUB_USE_AFTER_FREE \<Rightarrow> 3)"

text \<open>The value stored by \<open>refcount_saturate\<close>.\<close>

definition refcount_saturate :: "refcount_saturation_type \<Rightarrow> u32" where
  "refcount_saturate type =
     (let poison = REFCOUNT_SATURATED in
      if saturation_code type \<le> saturation_code REFCOUNT_SUB_USE_AFTER_FREE then poison + saturation_code type else poison)"

definition ct_refcount_init :: u32 where "ct_refcount_init = 1"

section \<open>The atomic back ends\<close>

text \<open>What a thread does next.  \<open>RRet b\<close> has returned \<open>b\<close>; \<open>RRetLocked\<close> has returned \<^const>\<open>True\<close> holding the
  mutex.  \<open>RDec l\<close> and \<open>RDecSat l\<close> are \<open>ct_refcount_dec_and_test\<close>, called with the mutex held if \<open>l\<close>.\<close>

datatype ref_pc =
    RIdle
  | RInc | RIncSat refcount_saturation_type
  | RNzLoad | RNzCas u32 | RNzOver | RNzSat
  | RDec bool | RDecSat bool
  | RLockLoad | RLockCas u32 | RLockSat | RLockAcquire | RLockRelease
  | RRet bool | RRetLocked

text \<open>\<open>ct_refcount_inc\<close>: the fetch-and-add, then the tests on the old value.\<close>

definition ct_refcount_inc :: "u32 \<Rightarrow> u32 \<times> ref_pc" where
  "ct_refcount_inc value =
     (let old = value in
      (old + 1,
       if old = 0 then RIncSat REFCOUNT_ADD_USE_AFTER_FREE
       else if old \<ge> REFCOUNT_MAX then RIncSat REFCOUNT_ADD_OVERFLOW
       else RRet True))"

text \<open>\<open>ct_refcount_inc_not_zero\<close>: the tests at the head of the loop, and the exchange with what follows.\<close>

definition inc_not_zero_test :: "u32 \<Rightarrow> ref_pc" where
  "inc_not_zero_test old =
     (if old = 0 then RRet False
      else if old \<ge> REFCOUNT_SATURATED then RRet True
      else if old > REFCOUNT_MAX then RNzOver
      else RNzCas old)"

definition ct_refcount_inc_not_zero :: "bool \<Rightarrow> u32 \<Rightarrow> u32 \<Rightarrow> u32 \<times> ref_pc" where
  "ct_refcount_inc_not_zero cas_ok old value =
     (let desired = old + 1 in
      if value = old \<and> cas_ok then (desired, if old \<ge> REFCOUNT_MAX then RNzSat else RRet True)
      else (value, inc_not_zero_test value))"

text \<open>\<open>ct_refcount_dec_and_test\<close>: the fetch-and-sub and the tests on the old value.\<close>

definition ct_refcount_dec_and_test :: "bool \<Rightarrow> u32 \<Rightarrow> u32 \<times> ref_pc" where
  "ct_refcount_dec_and_test locked value =
     (let old = value in
      (old - 1,
       if old > 1 \<and> old \<le> REFCOUNT_MAX then (if locked then RLockRelease else RRet False)
       else if old = 1 then (if locked then RRetLocked else RRet True)
       else RDecSat locked))"

text \<open>\<open>ct_refcount_dec_and_mutex_lock\<close>: the tests at the head of the loop, and the exchange.\<close>

definition dec_lock_test :: "u32 \<Rightarrow> ref_pc" where
  "dec_lock_test value =
     (if value \<ge> REFCOUNT_SATURATED then RRet False
      else if value = 1 then RLockAcquire
      else if value > REFCOUNT_MAX then RLockSat
      else let desired = value - 1 in if desired > value then RLockSat else RLockCas value)"

definition ct_refcount_dec_and_mutex_lock :: "bool \<Rightarrow> u32 \<Rightarrow> u32 \<Rightarrow> u32 \<times> ref_pc" where
  "ct_refcount_dec_and_mutex_lock cas_ok old value =
     (let desired = old - 1 in
      if value = old \<and> cas_ok then (desired, RRet False) else (value, dec_lock_test value))"

text \<open>One atomic instruction on the counter; \<open>None\<close> where the thread is not about to execute one.\<close>

fun ref_step :: "bool \<Rightarrow> ref_pc \<Rightarrow> u32 \<Rightarrow> (u32 \<times> ref_pc) option" where
  "ref_step ok RInc v = Some (ct_refcount_inc v)"
| "ref_step ok (RIncSat type) v = Some (refcount_saturate type, RRet True)"
| "ref_step ok RNzLoad v = Some (v, inc_not_zero_test v)"
| "ref_step ok (RNzCas old) v = Some (ct_refcount_inc_not_zero ok old v)"
| "ref_step ok RNzOver v = Some (refcount_saturate REFCOUNT_ADD_NOT_ZERO_OVERFLOW, RRet True)"
| "ref_step ok RNzSat v = Some (refcount_saturate REFCOUNT_ADD_NOT_ZERO_OVERFLOW, RRet True)"
| "ref_step ok (RDec l) v = Some (ct_refcount_dec_and_test l v)"
| "ref_step ok (RDecSat l) v = Some (refcount_saturate REFCOUNT_SUB_USE_AFTER_FREE, if l then RLockRelease else RRet False)"
| "ref_step ok RLockLoad v = Some (v, dec_lock_test v)"
| "ref_step ok (RLockCas old) v = Some (ct_refcount_dec_and_mutex_lock ok old v)"
| "ref_step ok RLockSat v = Some (refcount_saturate REFCOUNT_SUB_USE_AFTER_FREE, RRet False)"
| "ref_step ok pc v = None"

section \<open>The mutex back end\<close>

definition refcount_inc_not_zero_m :: "u32 \<Rightarrow> bool \<times> u32" where
  "refcount_inc_not_zero_m value =
     (let old = value in
      if old = 0 then (False, value)
      else if old \<ge> REFCOUNT_SATURATED then (True, value)
      else if old > REFCOUNT_MAX then (True, refcount_saturate REFCOUNT_ADD_NOT_ZERO_OVERFLOW)
      else let value = old + 1 in
        (True, if old \<ge> REFCOUNT_MAX then refcount_saturate REFCOUNT_ADD_NOT_ZERO_OVERFLOW else value))"

definition refcount_inc_m :: "u32 \<Rightarrow> u32" where
  "refcount_inc_m value =
     (let old = value; value = old + 1 in
      if old = 0 then refcount_saturate REFCOUNT_ADD_USE_AFTER_FREE
      else if old \<ge> REFCOUNT_MAX then refcount_saturate REFCOUNT_ADD_OVERFLOW
      else value)"

definition refcount_dec_and_test_m :: "u32 \<Rightarrow> bool \<times> u32" where
  "refcount_dec_and_test_m value =
     (let old = value; value = old - 1 in
      if old = 1 then (True, value)
      else if old = 0 \<or> old > REFCOUNT_MAX then (False, refcount_saturate REFCOUNT_SUB_USE_AFTER_FREE)
      else (False, value))"

text \<open>The first critical section of the locking decrement; \<open>None\<close> goes on to take the lock and test.\<close>

definition refcount_dec_lock_m :: "u32 \<Rightarrow> bool option \<times> u32" where
  "refcount_dec_lock_m value =
     (if value \<ge> REFCOUNT_SATURATED then (Some False, value)
      else if value \<noteq> 1 then
        (Some False,
         if value = 0 then refcount_saturate REFCOUNT_SUB_USE_AFTER_FREE
         else if value > REFCOUNT_MAX then refcount_saturate REFCOUNT_SUB_USE_AFTER_FREE
         else value - 1)
      else (None, value))"

text \<open>A thread running alone: the instructions of one call until it returns or has to take the mutex.\<close>

fun ref_alone :: "nat \<Rightarrow> ref_pc \<Rightarrow> u32 \<Rightarrow> ref_pc \<times> u32" where
  "ref_alone 0 pc v = (pc, v)"
| "ref_alone (Suc n) pc v = (case ref_step True pc v of None \<Rightarrow> (pc, v) | Some (v, pc) \<Rightarrow> ref_alone n pc v)"

text \<open>Without interference the back ends agree.\<close>

lemma dec_wraps: "(x :: u32) - 1 > x \<longleftrightarrow> x = 0"
proof (cases "x = 0")
  case False
  then have "unat (x - 1) = unat x - 1" by (simp add: unat_minus_one)
  then show ?thesis using False by (simp add: word_less_nat_alt)
next
  case True
  have "(0 :: u32) < - 1" by code_simp
  then show ?thesis using True by simp
qed

lemma backends_agree:
  "ref_alone 2 RInc v = (RRet True, refcount_inc_m v)"
  "ref_alone 3 RNzLoad v = (case refcount_inc_not_zero_m v of (b, v') \<Rightarrow> (RRet b, v'))"
  "ref_alone 2 (RDec False) v = (case refcount_dec_and_test_m v of (b, v') \<Rightarrow> (RRet b, v'))"
  "ref_alone 2 RLockLoad v = (case refcount_dec_lock_m v of (Some b, v') \<Rightarrow> (RRet b, v') | (None, v') \<Rightarrow> (RLockAcquire, v'))"
proof -
  show "ref_alone 2 RInc v = (RRet True, refcount_inc_m v)"
    by (auto simp: numeral_2_eq_2 ct_refcount_inc_def refcount_inc_m_def Let_def)
  show "ref_alone 3 RNzLoad v = (case refcount_inc_not_zero_m v of (b, v') \<Rightarrow> (RRet b, v'))"
    by (auto simp: numeral_3_eq_3 inc_not_zero_test_def ct_refcount_inc_not_zero_def refcount_inc_not_zero_m_def Let_def)
  show "ref_alone 2 (RDec False) v = (case refcount_dec_and_test_m v of (b, v') \<Rightarrow> (RRet b, v'))"
  proof -
    have "v > 1 \<longleftrightarrow> v \<noteq> 0 \<and> v \<noteq> 1"
    proof (cases "v = 0 \<or> v = 1")
      case False
      then have "unat v \<noteq> 0" "unat v \<noteq> 1" by (simp_all add: word_unat_eq_iff)
      then show ?thesis using False by (simp add: word_less_nat_alt)
    qed auto
    then show ?thesis
      by (auto simp: numeral_2_eq_2 ct_refcount_dec_and_test_def refcount_dec_and_test_m_def Let_def REFCOUNT_MAX_def)
  qed
  show "ref_alone 2 RLockLoad v = (case refcount_dec_lock_m v of (Some b, v') \<Rightarrow> (RRet b, v') | (None, v') \<Rightarrow> (RLockAcquire, v'))"
  proof (cases "v = 0")
    case True
    then show ?thesis by (simp only:) code_simp
  next
    case False
    have "\<not> 0xc0000000 \<le> (1 :: u32)" by code_simp
    with False dec_wraps [of v] show ?thesis
      by (auto simp: numeral_2_eq_2 dec_lock_test_def ct_refcount_dec_and_mutex_lock_def refcount_dec_lock_m_def Let_def
          REFCOUNT_SATURATED_def)
  qed
qed

section \<open>Threads\<close>

text \<open>Threads \<open>0..<n\<close> share one counter and the mutex that goes with it.  \<open>rs_owned\<close>, \<open>rs_released\<close> and
  \<open>rs_poisoned\<close> are ghost: the references each thread owns, how often the final reference was reported
  dropped, and whether a poison value has been stored.\<close>

record ref_sys =
  rs_value :: u32
  rs_pc :: "nat \<Rightarrow> ref_pc"
  rs_owned :: "nat \<Rightarrow> nat"
  rs_lock :: "nat option"
  rs_released :: nat
  rs_poisoned :: bool

definition ref_start :: ref_sys where
  "ref_start = \<lparr>rs_value = ct_refcount_init, rs_pc = (\<lambda>_. RIdle), rs_owned = (\<lambda>_. 0)(0 := 1), rs_lock = None,
     rs_released = 0, rs_poisoned = False\<rparr>"

definition saturates :: "ref_pc \<Rightarrow> bool" where
  "saturates pc \<longleftrightarrow> (case pc of RIncSat _ \<Rightarrow> True | RNzOver \<Rightarrow> True | RNzSat \<Rightarrow> True | RDecSat _ \<Rightarrow> True | RLockSat \<Rightarrow> True | _ \<Rightarrow> False)"

text \<open>The references of a thread after an instruction: a reference is gained or given up when the counter
  is changed for it, or when the call returns without changing the counter.\<close>

definition owned_after :: "ref_pc \<Rightarrow> u32 \<Rightarrow> u32 \<Rightarrow> ref_pc \<Rightarrow> nat \<Rightarrow> nat" where
  "owned_after pc v v' pc' k =
     (case pc of
        RInc \<Rightarrow> k + 1
      | RNzLoad \<Rightarrow> if pc' = RRet True then k + 1 else k
      | RNzCas old \<Rightarrow> if v' \<noteq> v \<or> pc' = RRet True then k + 1 else k
      | RNzOver \<Rightarrow> k + 1
      | RDec _ \<Rightarrow> k - 1
      | RLockLoad \<Rightarrow> if pc' = RRet False then k - 1 else k
      | RLockCas old \<Rightarrow> if pc' = RRet False then k - 1 else k
      | RLockSat \<Rightarrow> k - 1
      | _ \<Rightarrow> k)"

definition ref_run :: "nat \<Rightarrow> u32 \<Rightarrow> ref_pc \<Rightarrow> ref_sys \<Rightarrow> ref_sys" where
  "ref_run t v' pc' s =
     (let pc = rs_pc s t in
      s\<lparr>rs_value := v', rs_pc := (rs_pc s)(t := pc'),
        rs_owned := (rs_owned s)(t := owned_after pc (rs_value s) v' pc' (rs_owned s t)),
        rs_released := (if pc' = RRetLocked \<or> (\<exists>l. pc = RDec l) \<and> pc' = RRet True then rs_released s + 1 else rs_released s),
        rs_poisoned := (rs_poisoned s \<or> saturates pc)\<rparr>)"

text \<open>A call that adds a reference to one owned, or drops one, needs a thread that owns a reference.\<close>

inductive ref_reach :: "nat \<Rightarrow> ref_sys \<Rightarrow> bool" for n where
  start: "ref_reach n ref_start"
| call: "ref_reach n s \<Longrightarrow> t < n \<Longrightarrow> rs_pc s t = RIdle \<Longrightarrow>
    pc = RNzLoad \<or> rs_owned s t > 0 \<and> pc \<in> {RInc, RDec False, RLockLoad} \<Longrightarrow>
    ref_reach n (s\<lparr>rs_pc := (rs_pc s)(t := pc)\<rparr>)"
| run: "ref_reach n s \<Longrightarrow> t < n \<Longrightarrow> ref_step ok (rs_pc s t) (rs_value s) = Some (v', pc') \<Longrightarrow>
    ref_reach n (ref_run t v' pc' s)"
| acquire: "ref_reach n s \<Longrightarrow> t < n \<Longrightarrow> rs_pc s t = RLockAcquire \<Longrightarrow> rs_lock s = None \<Longrightarrow>
    ref_reach n (s\<lparr>rs_pc := (rs_pc s)(t := RDec True), rs_lock := Some t\<rparr>)"
| release: "ref_reach n s \<Longrightarrow> t < n \<Longrightarrow> rs_pc s t = RLockRelease \<Longrightarrow>
    ref_reach n (s\<lparr>rs_pc := (rs_pc s)(t := RRet False), rs_lock := None\<rparr>)"
| unlock: "ref_reach n s \<Longrightarrow> t < n \<Longrightarrow> rs_pc s t = RRetLocked \<Longrightarrow>
    ref_reach n (s\<lparr>rs_pc := (rs_pc s)(t := RIdle), rs_lock := None\<rparr>)"
| finish: "ref_reach n s \<Longrightarrow> t < n \<Longrightarrow> rs_pc s t = RRet b \<Longrightarrow>
    ref_reach n (s\<lparr>rs_pc := (rs_pc s)(t := RIdle)\<rparr>)"

section \<open>The invariant\<close>

definition owned_total :: "nat \<Rightarrow> ref_sys \<Rightarrow> nat" where
  "owned_total n s = (\<Sum>t<n. rs_owned s t)"

definition saturating :: "nat \<Rightarrow> ref_sys \<Rightarrow> nat" where
  "saturating n s = (\<Sum>t<n. of_bool (saturates (rs_pc s t)))"

text \<open>A thread that has added its reference and is about to saturate; one that needs the reference it owns.\<close>

definition adds :: "ref_pc \<Rightarrow> bool" where
  "adds pc \<longleftrightarrow> (case pc of RIncSat _ \<Rightarrow> True | RNzSat \<Rightarrow> True | _ \<Rightarrow> False)"

definition needs :: "ref_pc \<Rightarrow> bool" where
  "needs pc \<longleftrightarrow> (case pc of RInc \<Rightarrow> True | RDec _ \<Rightarrow> True | RLockLoad \<Rightarrow> True | RLockCas _ \<Rightarrow> True | RLockAcquire \<Rightarrow> True | _ \<Rightarrow> False)"

definition pc_local :: "ref_pc \<Rightarrow> bool" where
  "pc_local pc \<longleftrightarrow> (case pc of
      RNzCas old \<Rightarrow> 1 \<le> unat old \<and> unat old \<le> 0x7fffffff
    | RLockCas old \<Rightarrow> 2 \<le> unat old \<and> unat old \<le> 0x7fffffff
    | _ \<Rightarrow> True)"

definition ref_exact :: "nat \<Rightarrow> ref_sys \<Rightarrow> bool" where
  "ref_exact n s \<longleftrightarrow>
     unat (rs_value s) = owned_total n s \<and> owned_total n s \<le> 0x7fffffff + saturating n s \<and>
     (\<forall>t<n. adds (rs_pc s t) \<longrightarrow> 1 \<le> rs_owned s t) \<and>
     (\<forall>t<n. needs (rs_pc s t) \<longrightarrow> 1 \<le> rs_owned s t) \<and>
     (\<forall>t<n. saturates (rs_pc s t) \<longrightarrow> (\<exists>u<n. adds (rs_pc s u))) \<and>
     rs_released s \<le> 1 \<and> (rs_released s = 1 \<longrightarrow> owned_total n s = 0)"

definition ref_broken :: "nat \<Rightarrow> ref_sys \<Rightarrow> bool" where
  "ref_broken n s \<longleftrightarrow> rs_released s = 0 \<and>
     0xc0000000 \<le> unat (rs_value s) + 3 + saturating n s \<and> unat (rs_value s) \<le> 0xc0000000 + 3 + saturating n s"

definition ref_inv :: "nat \<Rightarrow> ref_sys \<Rightarrow> bool" where
  "ref_inv n s \<longleftrightarrow> (\<forall>t<n. pc_local (rs_pc s t)) \<and> (if rs_poisoned s then ref_broken n s else ref_exact n s)"

lemma sum_upd:
  fixes g :: "'a \<Rightarrow> nat" and t n :: nat
  assumes "t < n"
  shows "(\<Sum>u<n. g ((f(t := x)) u)) + g (f t) = (\<Sum>u<n. g (f u)) + g x"
proof -
  have t: "t \<in> {..<n}" using assms by simp
  have "(\<Sum>u\<in>{..<n} - {t}. g ((f(t := x)) u)) = (\<Sum>u\<in>{..<n} - {t}. g (f u))" by (rule sum.cong) auto
  then show ?thesis
    using sum.remove [OF finite_lessThan t, of "\<lambda>u. g ((f(t := x)) u)"] sum.remove [OF finite_lessThan t, of "\<lambda>u. g (f u)"] by simp
qed

lemma owned_total_ge: "t < n \<Longrightarrow> rs_owned s t \<le> owned_total n s"
  unfolding owned_total_def by (rule member_le_sum) simp_all

lemma owned_total_two: "t < n \<Longrightarrow> u < n \<Longrightarrow> t \<noteq> u \<Longrightarrow> rs_owned s t + rs_owned s u \<le> owned_total n s"
proof -
  assume "t < n" "u < n" "t \<noteq> u"
  then have "sum (rs_owned s) {t, u} \<le> owned_total n s" unfolding owned_total_def by (intro sum_mono2) auto
  then show ?thesis using \<open>t \<noteq> u\<close> by simp
qed

lemma saturating_le: "saturating n s \<le> n"
proof -
  have "saturating n s \<le> (\<Sum>t<n. 1)" unfolding saturating_def by (intro sum_mono) simp
  then show ?thesis by simp
qed

text \<open>A step of thread \<open>t\<close> that is not a saturation, while the count is exact.\<close>

lemma exact_run:
  assumes ex: "ref_exact n s" and t: "t < n" and pc: "\<not> saturates (rs_pc s t)"
    and owned: "unat v' + rs_owned s t = unat (rs_value s) + k"
    and bound: "unat v' \<le> 0x7fffffff \<or> unat v' \<le> unat (rs_value s) \<or> saturates pc' \<and> unat v' \<le> unat (rs_value s) + 1"
    and adds: "adds pc' \<longrightarrow> 1 \<le> k" and needs: "needs pc' \<longrightarrow> 1 \<le> k"
    and sat: "saturates pc' \<longrightarrow> adds pc' \<or> (\<exists>u<n. adds (rs_pc s u))"
    and rel: "r = rs_released s \<or> r = rs_released s + 1 \<and> unat v' = 0 \<and> unat (rs_value s) \<noteq> 0"
    and dead: "unat (rs_value s) = 0 \<longrightarrow> unat v' = 0"
  shows "ref_exact n (s\<lparr>rs_value := v', rs_pc := (rs_pc s)(t := pc'), rs_owned := (rs_owned s)(t := k), rs_released := r\<rparr>)"
    (is "ref_exact n ?s")
proof -
  have tot: "owned_total n ?s + rs_owned s t = owned_total n s + k"
    using sum_upd [OF t, of "\<lambda>x. x" "rs_owned s" k] by (simp add: owned_total_def)
  have cnt: "saturating n ?s = saturating n s + of_bool (saturates pc')"
    using sum_upd [OF t, of "\<lambda>pc. of_bool (saturates pc)" "rs_pc s" pc'] pc by (simp add: saturating_def)
  have v: "unat v' = owned_total n ?s" using tot owned ex by (simp add: ref_exact_def)
  have "owned_total n ?s \<le> 0x7fffffff + saturating n ?s"
    using bound ex cnt v unfolding ref_exact_def by auto
  moreover have "\<exists>w<n. adds (rs_pc ?s w)" if "u < n" "saturates (rs_pc ?s u)" for u
  proof (cases "adds pc'")
    case True
    then show ?thesis using t by (intro exI [of _ t]) simp
  next
    case False
    have "\<exists>w<n. adds (rs_pc s w)"
    proof (cases "u = t")
      case True
      then show ?thesis using that sat False by simp
    next
      case False
      then have "saturates (rs_pc s u)" using that(2) by simp
      then show ?thesis using ex that(1) unfolding ref_exact_def by blast
    qed
    then obtain w where w: "w < n" "adds (rs_pc s w)" by blast
    then have "w \<noteq> t" using pc by (auto simp: adds_def saturates_def split: ref_pc.splits)
    then show ?thesis using w by (intro exI [of _ w]) simp
  qed
  moreover have "rs_released ?s \<le> 1 \<and> (rs_released ?s = 1 \<longrightarrow> owned_total n ?s = 0)"
    using rel dead ex v by (auto simp: ref_exact_def)
  ultimately show ?thesis
    using ex v adds needs unfolding ref_exact_def by simp
qed

lemma broken_run:
  assumes br: "ref_broken n s" and t: "t < n"
    and v: "saturates (rs_pc s t) \<and> 0xc0000000 \<le> unat v' \<and> unat v' \<le> 0xc0000003 \<or>
      \<not> saturates (rs_pc s t) \<and> (unat v' = unat (rs_value s) \<or>
        saturates pc' \<and> unat v' \<le> unat (rs_value s) + 1 \<and> unat (rs_value s) \<le> unat v' + 1)"
  shows "ref_broken n (s\<lparr>rs_value := v', rs_pc := (rs_pc s)(t := pc'), rs_owned := k\<rparr>)" (is "ref_broken n ?s")
proof -
  have "saturating n ?s + of_bool (saturates (rs_pc s t)) = saturating n s + of_bool (saturates pc')"
    using sum_upd [OF t, of "\<lambda>pc. of_bool (saturates pc)" "rs_pc s" pc'] by (simp add: saturating_def)
  then show ?thesis using br v by (auto simp: ref_broken_def)
qed

text \<open>The first store of a poison value.\<close>

lemma first_saturation:
  assumes ex: "ref_exact n s" and t: "t < n" "saturates (rs_pc s t)" and v: "0xc0000000 \<le> unat v'" "unat v' \<le> 0xc0000003"
  shows "ref_broken n (s\<lparr>rs_value := v', rs_pc := (rs_pc s)(t := pc'), rs_owned := k\<rparr>)"
proof -
  obtain u where u: "u < n" "adds (rs_pc s u)" using ex t by (auto simp: ref_exact_def)
  then have "1 \<le> owned_total n s" using ex owned_total_ge [of u n s] by (fastforce simp: ref_exact_def)
  then have "rs_released s = 0" using ex by (auto simp: ref_exact_def le_Suc_eq)
  then show ?thesis using v by (simp add: ref_broken_def)
qed

lemma unat_saturate: "0xc0000000 \<le> unat (refcount_saturate type) \<and> unat (refcount_saturate type) \<le> 0xc0000003"
  by (cases type) (simp_all add: refcount_saturate_def Let_def saturation_code_def REFCOUNT_SATURATED_def word_le_nat_alt)

lemma unat_inc: "unat (v :: u32) < 0xffffffff \<Longrightarrow> unat (v + 1) = unat v + 1"
  by (simp add: unat_plus_lt)

lemma unat_dec: "1 \<le> unat (v :: u32) \<Longrightarrow> unat (v - 1) = unat v - 1"
  by (simp add: unat_diff_le)

text \<open>The instructions over the naturals.\<close>

lemma inc_nat:
  assumes "1 \<le> unat v" "unat v < 0xffffffff" "ct_refcount_inc v = (v', pc')"
  shows "unat v' = unat v + 1" "pc' = (if 0x7fffffff \<le> unat v then RIncSat REFCOUNT_ADD_OVERFLOW else RRet True)"
proof -
  have "v \<noteq> 0" using assms(1) by auto
  then show "unat v' = unat v + 1" "pc' = (if 0x7fffffff \<le> unat v then RIncSat REFCOUNT_ADD_OVERFLOW else RRet True)"
    using assms unat_inc [of v] by (auto simp: ct_refcount_inc_def Let_def REFCOUNT_MAX_def word_le_nat_alt)
qed

lemma dec_nat:
  assumes "1 \<le> unat v" "ct_refcount_dec_and_test l v = (v', pc')"
  shows "unat v' = unat v - 1"
    "pc' = (if unat v = 1 then (if l then RRetLocked else RRet True)
       else if unat v \<le> 0x7fffffff then (if l then RLockRelease else RRet False) else RDecSat l)"
proof -
  have "v = 1 \<longleftrightarrow> unat v = 1" by (simp add: word_unat_eq_iff)
  then show "unat v' = unat v - 1"
    "pc' = (if unat v = 1 then (if l then RRetLocked else RRet True)
       else if unat v \<le> 0x7fffffff then (if l then RLockRelease else RRet False) else RDecSat l)"
    using assms unat_dec [of v] by (auto simp: ct_refcount_dec_and_test_def Let_def REFCOUNT_MAX_def word_le_nat_alt word_less_nat_alt)
qed

lemma nz_test_nat:
  "inc_not_zero_test v = (if unat v = 0 then RRet False else if 0xc0000000 \<le> unat v then RRet True
     else if 0x7fffffff < unat v then RNzOver else RNzCas v)"
  by (simp add: inc_not_zero_test_def REFCOUNT_SATURATED_def REFCOUNT_MAX_def word_le_nat_alt word_less_nat_alt unat_eq_0)

lemma lock_test_nat:
  "dec_lock_test v = (if 0xc0000000 \<le> unat v then RRet False else if unat v = 1 then RLockAcquire
     else if 0x7fffffff < unat v \<or> unat v = 0 then RLockSat else RLockCas v)"
proof -
  have "v = 1 \<longleftrightarrow> unat v = 1" by (simp add: word_unat_eq_iff)
  moreover have "dec_lock_test 0 = RLockSat" by code_simp
  ultimately show ?thesis
    using dec_wraps [of v]
    by (cases "v = 0")
      (simp_all add: dec_lock_test_def REFCOUNT_SATURATED_def REFCOUNT_MAX_def word_le_nat_alt Let_def unat_eq_0 word_less_nat_alt)
qed

lemma ref_inv_start: "0 < n \<Longrightarrow> ref_inv n ref_start"
proof -
  assume "0 < n"
  then have "owned_total n ref_start = 1"
    using sum_upd [of 0 n "\<lambda>x. x" "\<lambda>_. 0 :: nat" 1] by (simp add: owned_total_def ref_start_def)
  then show ?thesis
    by (simp add: ref_inv_def ref_exact_def ref_start_def ct_refcount_init_def pc_local_def adds_def needs_def saturates_def)
qed

text \<open>Steps that touch neither the counter nor the references.\<close>

lemma ref_inv_frame:
  assumes inv: "ref_inv n s" and t: "t < n" and pc: "\<not> saturates (rs_pc s t)" "\<not> saturates pc'" "\<not> adds (rs_pc s t)"
    and "needs pc' \<longrightarrow> needs (rs_pc s t) \<or> 1 \<le> rs_owned s t" "pc_local pc'" "\<not> adds pc'"
  shows "ref_inv n (s\<lparr>rs_pc := (rs_pc s)(t := pc'), rs_lock := l\<rparr>)" (is "ref_inv n ?s")
proof -
  have cnt: "saturating n ?s = saturating n s"
    using sum_upd [OF t, of "\<lambda>pc. of_bool (saturates pc)" "rs_pc s" pc'] pc by (simp add: saturating_def)
  have tot: "owned_total n ?s = owned_total n s" by (simp add: owned_total_def)
  show ?thesis
  proof (cases "rs_poisoned s")
    case True
    then show ?thesis using inv cnt assms(7) by (simp add: ref_inv_def ref_broken_def)
  next
    case False
    then have ex: "ref_exact n s" using inv by (simp add: ref_inv_def)
    have "\<exists>w<n. adds (rs_pc ?s w)" if u: "u < n" "saturates (rs_pc ?s u)" for u
    proof -
      have "saturates (rs_pc s u)" using u pc(2) by (cases "u = t") simp_all
      then obtain w where "w < n" "adds (rs_pc s w)" using ex u(1) by (auto simp: ref_exact_def)
      then show ?thesis using pc(3) by (intro exI [of _ w]) auto
    qed
    then have "ref_exact n ?s" using ex cnt tot assms(6,8) t unfolding ref_exact_def by auto
    then show ?thesis using False inv assms(7) by (simp add: ref_inv_def)
  qed
qed

lemma ref_run_released:
  "pc' \<noteq> RRetLocked \<Longrightarrow> (\<forall>l. rs_pc s t \<noteq> RDec l) \<or> pc' \<noteq> RRet True \<Longrightarrow>
   ref_run t v' pc' s = s\<lparr>rs_value := v', rs_pc := (rs_pc s)(t := pc'),
     rs_owned := (rs_owned s)(t := owned_after (rs_pc s t) (rs_value s) v' pc' (rs_owned s t))\<rparr>
     \<lparr>rs_poisoned := rs_poisoned s \<or> saturates (rs_pc s t)\<rparr>"
  by (auto simp: ref_run_def Let_def)

lemma ref_broken_poisoned [simp]: "ref_broken n (s\<lparr>rs_poisoned := p\<rparr>) = ref_broken n s"
  by (simp add: ref_broken_def saturating_def)

lemma ref_exact_poisoned [simp]: "ref_exact n (s\<lparr>rs_poisoned := p\<rparr>) = ref_exact n s"
  by (simp add: ref_exact_def saturating_def owned_total_def)

text \<open>Once poisoned, an instruction saturates or leaves the counter, and never reports the last reference.\<close>

lemma poisoned_step:
  assumes v: "0x7fffffff < unat v" "unat v < 0xffffffff" and loc: "pc_local pc" and step: "ref_step ok pc v = Some (v', pc')"
  shows "(saturates pc \<and> 0xc0000000 \<le> unat v' \<and> unat v' \<le> 0xc0000003 \<or>
      \<not> saturates pc \<and> (unat v' = unat v \<or> saturates pc' \<and> unat v' \<le> unat v + 1 \<and> unat v \<le> unat v' + 1)) \<and>
    pc_local pc' \<and> pc' \<noteq> RRetLocked \<and> ((\<forall>l. pc \<noteq> RDec l) \<or> pc' \<noteq> RRet True)"
proof (cases pc)
  case RInc
  then show ?thesis using v step inc_nat [of v v' pc'] by (simp add: saturates_def pc_local_def)
next
  case (RDec l)
  then have "unat v' = unat v - 1" "pc' = RDecSat l" using v step dec_nat [of v l v' pc'] by simp_all
  moreover from this(1) have "unat v' \<le> unat v + 1" "unat v \<le> unat v' + 1" using v by linarith+
  ultimately show ?thesis using RDec by (simp add: saturates_def pc_local_def)
next
  case (RNzCas old)
  then have "v \<noteq> old" using loc v by (auto simp: pc_local_def)
  then show ?thesis using RNzCas v step by (auto simp: ct_refcount_inc_not_zero_def Let_def nz_test_nat saturates_def pc_local_def split: if_splits)
next
  case (RLockCas old)
  then have "v \<noteq> old" using loc v by (auto simp: pc_local_def)
  then show ?thesis using RLockCas v step by (auto simp: ct_refcount_dec_and_mutex_lock_def Let_def lock_test_nat saturates_def pc_local_def split: if_splits)
next
  case RNzLoad
  then show ?thesis using v step by (auto simp: nz_test_nat saturates_def pc_local_def split: if_splits)
next
  case RLockLoad
  then show ?thesis using v step by (auto simp: lock_test_nat saturates_def pc_local_def split: if_splits)
next
  case (RDecSat l)
  then show ?thesis using step unat_saturate by (auto simp: saturates_def pc_local_def split: if_splits)
qed (use step unat_saturate in \<open>auto simp: saturates_def pc_local_def\<close>)

text \<open>While the count is exact.\<close>

lemma exact_step:
  assumes inv: "ref_inv n s" and ex: "ref_exact n s" and t: "t < n" and n: "n < 2 ^ 30 - 8"
    and pc: "\<not> saturates (rs_pc s t)" and step: "ref_step ok (rs_pc s t) (rs_value s) = Some (v', pc')"
  shows "pc_local pc' \<and> ref_exact n (ref_run t v' pc' s)"
proof -
  let ?v = "rs_value s" and ?k = "owned_after (rs_pc s t) (rs_value s) v' pc' (rs_owned s t)"
  let ?r = "if pc' = RRetLocked \<or> (\<exists>l. rs_pc s t = RDec l) \<and> pc' = RRet True then rs_released s + 1 else rs_released s"
  have vt: "unat ?v = owned_total n s" and le: "unat ?v \<le> 0x7fffffff + saturating n s" using ex by (simp_all add: ref_exact_def)
  have lt: "unat ?v < 0xbfffffff" using le saturating_le [of n s] n by simp
  have own: "needs (rs_pc s t) \<Longrightarrow> 1 \<le> rs_owned s t \<and> 1 \<le> unat ?v"
  proof -
    assume "needs (rs_pc s t)"
    then have "1 \<le> rs_owned s t" using ex t by (simp add: ref_exact_def)
    then show ?thesis using owned_total_ge [OF t, of s] vt by linarith
  qed
  have over: "\<exists>u<n. adds (rs_pc s u)" if "0x7fffffff < unat ?v"
  proof -
    have "0 < saturating n s" using le that by simp
    then have "\<exists>t<n. saturates (rs_pc s t)" unfolding saturating_def by (rule contrapos_pp) simp
    then show ?thesis using ex unfolding ref_exact_def by blast
  qed
  have loc: "pc_local (rs_pc s t)" using inv t by (simp add: ref_inv_def)
  have "pc_local pc' \<and> unat v' + rs_owned s t = unat ?v + ?k \<and>
    (unat v' \<le> 0x7fffffff \<or> unat v' \<le> unat ?v \<or> saturates pc' \<and> unat v' \<le> unat ?v + 1) \<and>
    (adds pc' \<longrightarrow> 1 \<le> ?k) \<and> (needs pc' \<longrightarrow> 1 \<le> ?k) \<and> (saturates pc' \<longrightarrow> adds pc' \<or> (\<exists>u<n. adds (rs_pc s u))) \<and>
    (?r = rs_released s \<or> ?r = rs_released s + 1 \<and> unat v' = 0 \<and> unat ?v \<noteq> 0) \<and> (unat ?v = 0 \<longrightarrow> unat v' = 0)"
  proof (cases "rs_pc s t")
    case RInc
    then show ?thesis using step own lt inc_nat [of ?v v' pc']
      by (auto simp: owned_after_def adds_def needs_def saturates_def pc_local_def)
  next
    case (RDec l)
    then show ?thesis using step own over dec_nat [of ?v l v' pc']
      by (auto simp: owned_after_def adds_def needs_def saturates_def pc_local_def split: if_splits)
  next
    case RNzLoad
    then show ?thesis using step over lt
      by (auto simp: nz_test_nat owned_after_def adds_def needs_def saturates_def pc_local_def split: if_splits)
  next
    case RLockLoad
    then show ?thesis using step own over lt
      by (auto simp: lock_test_nat owned_after_def adds_def needs_def saturates_def pc_local_def split: if_splits)
  next
    case (RNzCas old)
    show ?thesis
    proof (cases "?v = old \<and> ok")
      case True
      then have s: "v' = ?v + 1" "pc' = (if ?v \<ge> REFCOUNT_MAX then RNzSat else RRet True)" "1 \<le> unat ?v" "unat ?v \<le> 0x7fffffff"
        using step RNzCas loc by (auto simp: ct_refcount_inc_not_zero_def Let_def pc_local_def)
      have "unat v' = unat ?v + 1" using s(1,4) unat_inc [of ?v] by simp
      moreover have "?v + 1 \<noteq> ?v" by simp
      ultimately show ?thesis using s RNzCas
        by (auto simp: owned_after_def adds_def needs_def saturates_def pc_local_def REFCOUNT_MAX_def word_le_nat_alt)
    next
      case False
      then have s: "v' = ?v" "pc' = inc_not_zero_test ?v"
        using step RNzCas by (auto simp: ct_refcount_inc_not_zero_def Let_def)
      then show ?thesis using RNzCas over lt
        by (auto simp: nz_test_nat owned_after_def adds_def needs_def saturates_def pc_local_def split: if_splits)
    qed
  next
    case (RLockCas old)
    have nd: "1 \<le> rs_owned s t \<and> 1 \<le> unat ?v" using own RLockCas by (simp add: needs_def)
    show ?thesis
    proof (cases "?v = old \<and> ok")
      case True
      then have s: "v' = ?v - 1" "pc' = RRet False" "2 \<le> unat ?v" "unat ?v \<le> 0x7fffffff"
        using step RLockCas loc by (auto simp: ct_refcount_dec_and_mutex_lock_def Let_def pc_local_def)
      have "unat v' = unat ?v - 1" using s(1,3) unat_dec [of ?v] by simp
      then show ?thesis using s RLockCas nd
        by (auto simp: owned_after_def adds_def needs_def saturates_def pc_local_def)
    next
      case False
      then have s: "v' = ?v" "pc' = dec_lock_test ?v"
        using step RLockCas by (auto simp: ct_refcount_dec_and_mutex_lock_def Let_def)
      then show ?thesis using RLockCas over lt nd
        by (auto simp: lock_test_nat owned_after_def adds_def needs_def saturates_def pc_local_def split: if_splits)
    qed
  qed (use step pc in \<open>simp_all add: saturates_def\<close>)
  note f = this
  have "ref_run t v' pc' s = s\<lparr>rs_value := v', rs_pc := (rs_pc s)(t := pc'), rs_owned := (rs_owned s)(t := ?k), rs_released := ?r\<rparr>
      \<lparr>rs_poisoned := rs_poisoned s \<or> saturates (rs_pc s t)\<rparr>"
    unfolding ref_run_def Let_def by simp
  moreover have "ref_exact n (s\<lparr>rs_value := v', rs_pc := (rs_pc s)(t := pc'), rs_owned := (rs_owned s)(t := ?k), rs_released := ?r\<rparr>)"
    by (rule exact_run [OF ex t pc]) (use f in blast)+
  ultimately show ?thesis using f by simp
qed

lemma saturating_store:
  assumes "saturates pc" "ref_step ok pc v = Some (v', pc')"
  shows "0xc0000000 \<le> unat v' \<and> unat v' \<le> 0xc0000003 \<and> pc_local pc' \<and> pc' \<noteq> RRetLocked \<and> (\<forall>l. pc \<noteq> RDec l)"
  using assms unat_saturate by (cases pc) (auto simp: saturates_def pc_local_def split: if_splits)

lemma ref_inv_run:
  assumes inv: "ref_inv n s" and t: "t < n" and n: "n < 2 ^ 30 - 8"
    and step: "ref_step ok (rs_pc s t) (rs_value s) = Some (v', pc')"
  shows "ref_inv n (ref_run t v' pc' s)"
proof -
  let ?s = "ref_run t v' pc' s"
  let ?u = "s\<lparr>rs_value := v', rs_pc := (rs_pc s)(t := pc'),
      rs_owned := (rs_owned s)(t := owned_after (rs_pc s t) (rs_value s) v' pc' (rs_owned s t))\<rparr>"
  have pcs: "rs_pc ?s = (rs_pc s)(t := pc')" "rs_poisoned ?s = (rs_poisoned s \<or> saturates (rs_pc s t))"
    by (simp_all add: ref_run_def Let_def)
  have locs: "\<forall>u<n. pc_local (rs_pc s u)" using inv by (simp add: ref_inv_def)
  consider (store) "saturates (rs_pc s t)" | (poisoned) "rs_poisoned s" "\<not> saturates (rs_pc s t)"
    | (exact) "\<not> rs_poisoned s" "\<not> saturates (rs_pc s t)" by blast
  then show ?thesis
  proof cases
    case store
    note st = saturating_store [OF store step]
    have eq: "?s = ?u\<lparr>rs_poisoned := rs_poisoned s \<or> saturates (rs_pc s t)\<rparr>" by (rule ref_run_released) (use st in auto)
    have "ref_broken n ?u"
    proof (cases "rs_poisoned s")
      case True
      then show ?thesis using inv store st t by (intro broken_run) (auto simp: ref_inv_def)
    next
      case False
      then show ?thesis using inv store st t by (intro first_saturation) (auto simp: ref_inv_def)
    qed
    then have "ref_broken n ?s" unfolding eq by simp
    then show ?thesis using locs pcs store st by (simp add: ref_inv_def)
  next
    case poisoned
    then have br: "ref_broken n s" using inv by (simp add: ref_inv_def)
    then have v: "0x7fffffff < unat (rs_value s)" "unat (rs_value s) < 0xffffffff"
      using saturating_le [of n s] n by (simp_all add: ref_broken_def)
    from poisoned_step [OF v _ step] locs t have ps:
      "unat v' = unat (rs_value s) \<or> saturates pc' \<and> unat v' \<le> unat (rs_value s) + 1 \<and> unat (rs_value s) \<le> unat v' + 1"
      "pc_local pc'" "pc' \<noteq> RRetLocked" "(\<forall>l. rs_pc s t \<noteq> RDec l) \<or> pc' \<noteq> RRet True"
      using poisoned(2) by auto
    have eq: "?s = ?u\<lparr>rs_poisoned := rs_poisoned s \<or> saturates (rs_pc s t)\<rparr>" by (rule ref_run_released [OF ps(3,4)])
    have "ref_broken n ?u" by (rule broken_run [OF br t]) (use ps poisoned in auto)
    then have "ref_broken n ?s" unfolding eq by simp
    then show ?thesis using locs pcs poisoned ps(2) by (simp add: ref_inv_def)
  next
    case exact
    then have ex: "ref_exact n s" using inv by (simp add: ref_inv_def)
    from exact_step [OF inv ex t n exact(2) step] locs pcs exact show ?thesis by (simp add: ref_inv_def)
  qed
qed

lemma ref_inv_reach:
  assumes "ref_reach n s" "0 < n" "n < 2 ^ 30 - 8"
  shows "ref_inv n s"
  using assms(1)
proof induction
  case start
  show ?case by (rule ref_inv_start [OF assms(2)])
next
  case (call s t pc)
  have "ref_inv n (s\<lparr>rs_pc := (rs_pc s)(t := pc), rs_lock := rs_lock s\<rparr>)"
    by (rule ref_inv_frame) (use call in \<open>auto simp: saturates_def adds_def needs_def pc_local_def\<close>)
  then show ?case by simp
next
  case (run s t ok v' pc')
  then show ?case using ref_inv_run assms(3) by blast
next
  case (acquire s t)
  then show ?case by (intro ref_inv_frame) (auto simp: saturates_def adds_def needs_def pc_local_def)
next
  case (release s t)
  then show ?case by (intro ref_inv_frame) (auto simp: saturates_def adds_def needs_def pc_local_def)
next
  case (unlock s t)
  then show ?case by (intro ref_inv_frame) (auto simp: saturates_def adds_def needs_def pc_local_def)
next
  case (finish s t b)
  have "ref_inv n (s\<lparr>rs_pc := (rs_pc s)(t := RIdle), rs_lock := rs_lock s\<rparr>)"
    by (rule ref_inv_frame) (use finish in \<open>auto simp: saturates_def adds_def needs_def pc_local_def\<close>)
  then show ?case by simp
qed

text \<open>The mutex is held by the thread that is between taking it and releasing it.\<close>

definition holds_lock :: "ref_pc \<Rightarrow> bool" where
  "holds_lock pc \<longleftrightarrow> pc = RDec True \<or> pc = RDecSat True \<or> pc = RLockRelease \<or> pc = RRetLocked"

lemma step_holds: "ref_step ok pc v = Some (v', pc') \<Longrightarrow> holds_lock pc' = holds_lock pc"
  by (cases pc) (auto simp: holds_lock_def ct_refcount_inc_def inc_not_zero_test_def ct_refcount_inc_not_zero_def
      ct_refcount_dec_and_test_def dec_lock_test_def ct_refcount_dec_and_mutex_lock_def Let_def split: if_splits)

lemma holds_lock_simps [simp]:
  "\<not> holds_lock RIdle" "\<not> holds_lock RInc" "\<not> holds_lock RNzLoad" "\<not> holds_lock (RDec False)" "\<not> holds_lock RLockLoad"
  "\<not> holds_lock RLockAcquire" "\<not> holds_lock (RRet b)" "holds_lock (RDec True)" "holds_lock RLockRelease" "holds_lock RRetLocked"
  by (simp_all add: holds_lock_def)

lemma ref_lock_reach: "ref_reach n s \<Longrightarrow> \<forall>t. holds_lock (rs_pc s t) \<longleftrightarrow> rs_lock s = Some t"
proof (induction rule: ref_reach.induct)
  case start
  show ?case by (simp add: ref_start_def)
next
  case (call s t pc)
  have "\<not> holds_lock (rs_pc s t)" "\<not> holds_lock pc" using call(3,4) by auto
  then show ?case using call.IH by auto
next
  case (run s t ok v' pc')
  have "rs_lock (ref_run t v' pc' s) = rs_lock s" "rs_pc (ref_run t v' pc' s) = (rs_pc s)(t := pc')"
    by (simp_all add: ref_run_def Let_def)
  then show ?case using step_holds [OF run(3)] run.IH by simp
next
  case (acquire s t)
  then show ?case by simp
next
  case (release s t)
  have "rs_lock s = Some t" using spec [OF release.IH, of t] release(3) by simp
  then show ?case using release.IH by simp
next
  case (unlock s t)
  have "rs_lock s = Some t" using spec [OF unlock.IH, of t] unlock(3) by simp
  then show ?case using unlock.IH by simp
next
  case (finish s t b)
  then have "\<not> holds_lock (rs_pc s t)" by simp
  then show ?case using finish.IH by auto
qed

text \<open>C35: For any number of threads below \<open>2^30 - 8\<close> that only add and drop references they own (or try to
  get one with \<open>ct_refcount_inc_not_zero\<close>), in every interleaving of the atomic instructions, with any number
  of references and spurious failures of the exchanges: the last reference is reported dropped at most
  once; when it is, no thread owns a reference and the counter is and stays zero; until a poison value is stored
  the counter is exactly the number of references; afterwards it stays above the largest live count, so
  it is never released; and whoever gets \<open>true\<close> from the locking decrement holds the mutex.\<close>

theorem refcount_releases_once:
  assumes "ref_reach n s" and "0 < n" "n < 2 ^ 30 - 8"
  shows "rs_released s \<le> 1 \<and>
    (rs_released s = 1 \<longrightarrow> rs_value s = 0 \<and> \<not> rs_poisoned s \<and> (\<forall>t<n. rs_owned s t = 0)) \<and>
    (\<not> rs_poisoned s \<longrightarrow> unat (rs_value s) = (\<Sum>t<n. rs_owned s t)) \<and>
    (rs_poisoned s \<longrightarrow> rs_value s > REFCOUNT_MAX \<and> rs_released s = 0) \<and>
    (\<forall>t<n. rs_pc s t = RRetLocked \<longrightarrow> rs_lock s = Some t)"
proof -
  have inv: "ref_inv n s" by (rule ref_inv_reach [OF assms])
  have lock: "\<forall>t. rs_pc s t = RRetLocked \<longrightarrow> rs_lock s = Some t"
    using ref_lock_reach [OF assms(1)] by (auto simp: holds_lock_def)
  show ?thesis
  proof (cases "rs_poisoned s")
    case True
    then have "ref_broken n s" using inv by (simp add: ref_inv_def)
    then have "rs_released s = 0" "0x7fffffff < unat (rs_value s)"
      using saturating_le [of n s] assms(3) by (simp_all add: ref_broken_def)
    then show ?thesis using True lock by (simp add: word_less_nat_alt REFCOUNT_MAX_def)
  next
    case False
    then have ex: "ref_exact n s" using inv by (simp add: ref_inv_def)
    have "rs_released s = 1 \<Longrightarrow> \<forall>t<n. rs_owned s t = 0" "rs_released s = 1 \<Longrightarrow> rs_value s = 0"
      using ex by (auto simp: ref_exact_def owned_total_def unat_eq_0)
    then show ?thesis using False ex lock by (auto simp: ref_exact_def owned_total_def)
  qed
qed

text \<open>Two threads: the second gets a reference, the first drops its own, the second drops the last one.\<close>

theorem refcount_releases_once_witness:
  "\<exists>s. ref_reach 2 s \<and> rs_released s = 1 \<and> rs_value s = 0 \<and> rs_owned s 0 = 0 \<and> rs_owned s 1 = 0"
proof -
  note run = ref_reach.run [where n = 2]
  have "ref_reach 2 (ref_start\<lparr>rs_pc := (rs_pc ref_start)(0 := RDec False)\<rparr>)"
    by (rule ref_reach.call [OF ref_reach.start]) (simp_all add: ref_start_def)
  from run [OF this, of 0 True 0 "RRet True"]
  have r: "ref_reach 2 (ref_run 0 0 (RRet True) (ref_start\<lparr>rs_pc := (rs_pc ref_start)(0 := RDec False)\<rparr>))"
    by (simp add: ref_start_def ct_refcount_init_def ct_refcount_dec_and_test_def Let_def)
  moreover have "rs_released (ref_run 0 0 (RRet True) (ref_start\<lparr>rs_pc := (rs_pc ref_start)(0 := RDec False)\<rparr>)) = 1"
    by (simp add: ref_run_def ref_start_def Let_def)
  ultimately show ?thesis using refcount_releases_once [OF r] by auto
qed

text \<open>The documented gap protects overflow, not underflow: dropping a dead reference and two more misuses by
  other threads before the first one stores its poison value report a second release.\<close>

lemma misuse_releases_again:
  "ct_refcount_dec_and_test False 0 = (0xffffffff, RDecSat False) \<and>
   ct_refcount_inc 0xffffffff = (0, RIncSat REFCOUNT_ADD_OVERFLOW) \<and>
   ct_refcount_inc 0 = (1, RIncSat REFCOUNT_ADD_USE_AFTER_FREE) \<and>
   ct_refcount_dec_and_test False 1 = (0, RRet True)"
  by code_simp

section \<open>References embedded in objects\<close>

text \<open>The wrappers of \<open>ref.h\<close> call the functions above on the member; \<open>ct_ref_put_mutex\<close> runs \<open>release\<close> when
  the locking decrement reports the final reference.  \<^const>\<open>None\<close> is an abort.\<close>

definition ct_ref_put_mutex :: "('s \<Rightarrow> bool \<times> 's) \<Rightarrow> ('s \<Rightarrow> 's) option \<Rightarrow> 's \<Rightarrow> (int \<times> 's) option" where
  "ct_ref_put_mutex dec_and_mutex_lock release s =
     (case release of
        None \<Rightarrow> None
      | Some release \<Rightarrow>
          (case dec_and_mutex_lock s of (final, s) \<Rightarrow> if final then Some (1, release s) else Some (0, s)))"

definition ref_NAME_get :: "('s \<Rightarrow> 's) \<Rightarrow> 'o option \<Rightarrow> 's \<Rightarrow> 'o option \<times> 's" where
  "ref_NAME_get get obj s = (obj, if obj \<noteq> None then get s else s)"

definition ref_NAME_get_not_zero :: "('s \<Rightarrow> bool \<times> 's) \<Rightarrow> 'o option \<Rightarrow> 's \<Rightarrow> 'o option \<times> 's" where
  "ref_NAME_get_not_zero get_not_zero obj s =
     (case obj of
        None \<Rightarrow> (None, s)
      | Some obj \<Rightarrow> (case get_not_zero s of (alive, s) \<Rightarrow> (if alive then Some obj else None, s)))"

definition ref_NAME_put :: "('s \<Rightarrow> bool \<times> 's) \<Rightarrow> ('o \<Rightarrow> 's \<Rightarrow> 's) option \<Rightarrow> 'o option \<Rightarrow> 's \<Rightarrow> 's option" where
  "ref_NAME_put put release obj s =
     (case obj of
        None \<Rightarrow> Some s
      | Some obj \<Rightarrow>
          (case release of
             None \<Rightarrow> None
           | Some release \<Rightarrow> (case put s of (final, s) \<Rightarrow> Some (if final then release obj s else s))))"

end
