(* ===== verification/Coter_Monitor.thy ===== *)
theory Coter_Monitor
  imports Coter_Prelude
begin

text \<open>
  The layer under the synchronisation objects that are built from one mutex and its condition variables
  (\<open>msgqueue.c\<close>, \<open>rwlock.c\<close>, \<open>event.c\<close>, \<open>sem.c\<close>, \<open>waitgroup.c\<close>): the timed wait of
  \<open>sync/cond.h\<close>, \<open>cond.c\<close>, and the interleaving of threads that run critical sections.

  A critical section starts when a call has locked the mutex, or when a wait has locked it again, and
  ends when the call returns or waits.  It is a function of the protected state and of the clock readings it
  makes, and yields the new state, the condition variables it notified, in order, and how it ended; it is
  \<^const>\<open>None\<close> where the behaviour of the C program is undefined or the program aborts.  The operating
  system contributes the rest as documented for POSIX threads: a notification wakes one of the threads
  waiting on the variable (if there is one) or all of them, a wait may end spuriously, a timed wait may end by
  the clock, and a thread that stopped waiting has to lock the mutex before it goes on, so other
  critical sections may run first.
\<close>

section \<open>Return codes and clocks\<close>

datatype errno = E_OK | EINVAL | EPIPE | EAGAIN | ETIMEDOUT | EBUSY | E_other int

abbreviation "INT64_MAX \<equiv> 9223372036854775807 :: int"

text \<open>The readings of \<open>ct_gettick_ms\<close> made by a critical section, in order, between the clock values \<open>now\<close>
  and \<open>now'\<close>.\<close>

definition clock_reads :: "int \<Rightarrow> (nat \<Rightarrow> int) \<Rightarrow> int \<Rightarrow> bool" where
  "clock_reads now clk now' \<longleftrightarrow> now \<le> clk 0 \<and> mono clk \<and> (\<forall>k. clk k \<le> now')"

lemma clock_reads_const: "clock_reads now (\<lambda>_. now) now"
  by (simp add: clock_reads_def mono_def)

lemma clock_readsD:
  assumes "clock_reads now clk now'"
  shows "now \<le> clk k" "clk k \<le> now'" "now \<le> now'"
proof -
  have "clk 0 \<le> clk k" using assms unfolding clock_reads_def by (blast intro: monoD le0)
  then show "now \<le> clk k" "clk k \<le> now'" "now \<le> now'"
    using assms unfolding clock_reads_def by (auto intro: order_trans)
qed

text \<open>Signed 64-bit addition of times: \<^const>\<open>None\<close> is the overflow C leaves undefined.\<close>

definition time_add :: "int \<Rightarrow> int \<Rightarrow> int option" where
  "time_add a b = (if a + b > INT64_MAX then None else Some (a + b))"

section \<open>Waiting on a condition variable\<close>

text \<open>How a section ends: the thread waits, or the function returns.\<close>

datatype ('w, 'r) outcome = Sleeps 'w | Returns 'r

text \<open>\<open>ct_cond_wait_for\<close> up to the system call; the payload of a wait is the time at which the wait gives up,
  if there is one.  \<open>cond_wait_turn\<close> is one turn of the loop up to \<open>cond_timedwait\<close>, and
  \<open>cond_wait_result\<close> what follows when the system call ends with \<open>result\<close>.\<close>

definition cond_wait_turn :: "int \<Rightarrow> int \<Rightarrow> (int option, errno) outcome" where
  "cond_wait_turn deadline now = (if now \<ge> deadline then Returns ETIMEDOUT else Sleeps (Some deadline))"

definition ct_cond_wait_for :: "int \<Rightarrow> (nat \<Rightarrow> int) \<Rightarrow> (int option, errno) outcome" where
  "ct_cond_wait_for timeout_ms clk =
     (if timeout_ms < 0 then Sleeps None
      else if timeout_ms = 0 then Returns ETIMEDOUT
      else let start = clk 0;
               deadline = (if timeout_ms > INT64_MAX - start then INT64_MAX else start + timeout_ms)
           in cond_wait_turn deadline (clk 1))"

definition cond_wait_result :: "int option \<Rightarrow> errno \<Rightarrow> (nat \<Rightarrow> int) \<Rightarrow> (int option, errno) outcome" where
  "cond_wait_result until result clk =
     (case until of
        None \<Rightarrow> Returns result
      | Some deadline \<Rightarrow> if result \<noteq> ETIMEDOUT then Returns result else cond_wait_turn deadline (clk 0))"

lemma cond_wait_turn_cases:
  "cond_wait_turn d now = Returns ETIMEDOUT \<and> d \<le> now \<or> cond_wait_turn d now = Sleeps (Some d) \<and> now < d"
  by (auto simp: cond_wait_turn_def)

lemma cond_wait_for_returns: "ct_cond_wait_for t clk = Returns r \<Longrightarrow> r = ETIMEDOUT"
  by (auto simp: ct_cond_wait_for_def cond_wait_turn_def Let_def split: if_splits)

lemma cond_wait_result_woken [simp]: "cond_wait_result u E_OK clk = Returns E_OK"
  by (simp add: cond_wait_result_def split: option.split)

text \<open>A wait that ended by the clock at or after its deadline is reported as such, and is not entered again.\<close>

lemma cond_wait_result_elapsed: "d \<le> clk 0 \<Longrightarrow> cond_wait_result (Some d) ETIMEDOUT clk = Returns ETIMEDOUT"
  by (simp add: cond_wait_result_def cond_wait_turn_def)

text \<open>The wait never lasts longer than asked for, and the deadline does not overflow.\<close>

lemma cond_wait_for_deadline:
  assumes "ct_cond_wait_for t clk = Sleeps (Some d)" and "clk 0 \<le> INT64_MAX"
  shows "0 < t \<and> d \<le> INT64_MAX \<and> d \<le> clk 0 + t \<and> clk 1 < d"
  using assms by (auto simp: ct_cond_wait_for_def cond_wait_turn_def Let_def split: if_splits)

section \<open>Threads\<close>

text \<open>A thread is between calls, waits on a condition variable, has been woken (by a notification or
  spuriously) or has seen its timed wait elapse but does not hold the mutex yet, or has returned from its
  call.\<close>

datatype ('w, 'r) thread = Idle | Asleep 'w | Woken 'w | Elapsed 'w | Returned 'r

datatype 'c cv_event = Signal 'c | Broadcast 'c

fun thread_after :: "('w, 'r) outcome \<Rightarrow> ('w, 'r) thread" where
  "thread_after (Sleeps w) = Asleep w"
| "thread_after (Returns r) = Returned r"

fun sleeps_on :: "('w \<Rightarrow> 'c) \<Rightarrow> 'c \<Rightarrow> ('w, 'r) thread \<Rightarrow> bool" where
  "sleeps_on cv c (Asleep w) \<longleftrightarrow> cv w = c"
| "sleeps_on cv c _ \<longleftrightarrow> False"

fun woken_from :: "('w \<Rightarrow> 'c) \<Rightarrow> 'c \<Rightarrow> ('w, 'r) thread \<Rightarrow> bool" where
  "woken_from cv c (Woken w) \<longleftrightarrow> cv w = c"
| "woken_from cv c _ \<longleftrightarrow> False"

fun ready :: "('w, 'r) thread \<Rightarrow> bool" where
  "ready (Woken w) \<longleftrightarrow> True"
| "ready (Elapsed w) \<longleftrightarrow> True"
| "ready _ \<longleftrightarrow> False"

fun wake :: "('w \<Rightarrow> 'c) \<Rightarrow> 'c \<Rightarrow> ('w, 'r) thread \<Rightarrow> ('w, 'r) thread" where
  "wake cv c (Asleep w) = (if cv w = c then Woken w else Asleep w)"
| "wake cv c p = p"

text \<open>What a notification may do to the threads.\<close>

inductive wakes :: "('w \<Rightarrow> 'c) \<Rightarrow> 'c cv_event \<Rightarrow> ('w, 'r) thread list \<Rightarrow> ('w, 'r) thread list \<Rightarrow> bool"
  for cv where
  nobody: "\<forall>p \<in> set ps. \<not> sleeps_on cv c p \<Longrightarrow> wakes cv (Signal c) ps ps"
| somebody: "i < length ps \<Longrightarrow> sleeps_on cv c (ps ! i) \<Longrightarrow> wakes cv (Signal c) ps (ps[i := wake cv c (ps ! i)])"
| everybody: "wakes cv (Broadcast c) ps (map (wake cv c) ps)"

fun wakes_all :: "('w \<Rightarrow> 'c) \<Rightarrow> 'c cv_event list \<Rightarrow> ('w, 'r) thread list \<Rightarrow> ('w, 'r) thread list \<Rightarrow> bool" where
  "wakes_all cv [] ps ps' \<longleftrightarrow> ps' = ps"
| "wakes_all cv (e # es) ps ps' \<longleftrightarrow> (\<exists>qs. wakes cv e ps qs \<and> wakes_all cv es qs ps')"

inductive_cases signalE: "wakes cv (Signal c) ps ps'"

inductive_cases broadcastE: "wakes cv (Broadcast c) ps ps'"

subsection \<open>Counting threads\<close>

definition tally :: "('a \<Rightarrow> bool) \<Rightarrow> 'a list \<Rightarrow> nat" where
  "tally P xs = length (filter P xs)"

lemma tally_simps [simp]:
  "tally P [] = 0" "tally P (x # xs) = (if P x then Suc (tally P xs) else tally P xs)"
  "tally P (map f xs) = tally (\<lambda>x. P (f x)) xs"
  by (simp_all add: tally_def filter_map o_def)

lemma tally_update:
  "i < length xs \<Longrightarrow> tally P (xs[i := y]) + (if P (xs ! i) then 1 else 0) = tally P xs + (if P y then 1 else 0)"
proof (induction xs arbitrary: i)
  case (Cons x xs)
  then show ?case using Cons.IH [of "i - 1"] by (cases i) auto
qed simp

lemma tally_eq_0: "tally P xs = 0 \<longleftrightarrow> (\<forall>x \<in> set xs. \<not> P x)"
  by (auto simp: tally_def filter_empty_conv)

lemma tally_pos: "i < length xs \<Longrightarrow> P (xs ! i) \<Longrightarrow> 0 < tally P xs"
  using tally_eq_0 [of P xs] nth_mem [of i xs] by auto

lemma tally_mono: "(\<And>x. x \<in> set xs \<Longrightarrow> P x \<Longrightarrow> Q x) \<Longrightarrow> tally P xs \<le> tally Q xs"
  by (induction xs) auto

lemma tally_cong: "(\<And>x. x \<in> set xs \<Longrightarrow> P x \<longleftrightarrow> Q x) \<Longrightarrow> tally P xs = tally Q xs"
  by (induction xs) auto

lemma tally_le_length: "tally P xs \<le> length xs"
  by (simp add: tally_def)

abbreviation "sleeping cv c ps \<equiv> tally (sleeps_on cv c) ps"

abbreviation "woken cv c ps \<equiv> tally (woken_from cv c) ps"

text \<open>The effect of notifications on the counts.\<close>

lemma wake_sleeps: "sleeps_on cv d (wake cv c p) \<longleftrightarrow> sleeps_on cv d p \<and> c \<noteq> d"
  by (cases p) auto

lemma wake_woken: "woken_from cv d (wake cv c p) \<longleftrightarrow> woken_from cv d p \<or> c = d \<and> sleeps_on cv d p"
  by (cases p) auto

lemma not_both: "sleeps_on cv c p \<Longrightarrow> \<not> woken_from cv d p"
  by (cases p) auto

lemma signal_counts:
  assumes "wakes cv (Signal c) ps ps'"
  shows "length ps' = length ps"
    and "sleeping cv c ps = 0 \<and> ps' = ps \<or>
         sleeping cv c ps = Suc (sleeping cv c ps') \<and> woken cv c ps' = Suc (woken cv c ps)"
    and "d \<noteq> c \<Longrightarrow> sleeping cv d ps' = sleeping cv d ps \<and> woken cv d ps' = woken cv d ps"
proof -
  show "length ps' = length ps" using assms by (auto elim: signalE)
  show "sleeping cv c ps = 0 \<and> ps' = ps \<or>
         sleeping cv c ps = Suc (sleeping cv c ps') \<and> woken cv c ps' = Suc (woken cv c ps)"
    using assms
  proof (cases rule: wakes.cases)
    case (nobody)
    then show ?thesis by (simp add: tally_eq_0)
  next
    case (somebody i)
    with tally_update [of i ps "sleeps_on cv c" "wake cv c (ps ! i)"]
      tally_update [of i ps "woken_from cv c" "wake cv c (ps ! i)"] not_both [of cv c "ps ! i" c]
    show ?thesis by (simp add: wake_sleeps wake_woken)
  qed
  show "sleeping cv d ps' = sleeping cv d ps \<and> woken cv d ps' = woken cv d ps" if "d \<noteq> c"
    using assms
  proof (cases rule: wakes.cases)
    case (somebody i)
    with tally_update [of i ps "sleeps_on cv d" "wake cv c (ps ! i)"]
      tally_update [of i ps "woken_from cv d" "wake cv c (ps ! i)"] that
    show ?thesis by (auto simp add: wake_sleeps wake_woken split: if_splits)
  qed simp
qed

lemma broadcast_counts:
  assumes "wakes cv (Broadcast c) ps ps'"
  shows "length ps' = length ps" "sleeping cv c ps' = 0"
    and "d \<noteq> c \<Longrightarrow> sleeping cv d ps' = sleeping cv d ps \<and> woken cv d ps' = woken cv d ps"
  using assms by (auto elim!: broadcastE simp: wake_sleeps wake_woken tally_eq_0 intro!: tally_cong)

text \<open>Notifications only turn sleeping threads into woken ones.\<close>

lemma wakes_nth:
  assumes "wakes cv e ps ps'"
  shows "length ps' = length ps \<and> (\<forall>i < length ps. ps' ! i = ps ! i \<or> (\<exists>w. ps ! i = Asleep w \<and> ps' ! i = Woken w))"
  using assms
proof (cases rule: wakes.cases)
  case (somebody i c)
  then show ?thesis by (cases "ps ! i") (auto simp: nth_list_update)
next
  case (everybody c)
  have "wake cv c p = p \<or> (\<exists>w. p = Asleep w \<and> wake cv c p = Woken w)" for p :: "('a, 'c) thread"
    by (cases p) auto
  with everybody show ?thesis by auto
qed simp

lemma wakes_all_nth:
  "wakes_all cv es ps ps' \<Longrightarrow>
   length ps' = length ps \<and> (\<forall>i < length ps. ps' ! i = ps ! i \<or> (\<exists>w. ps ! i = Asleep w \<and> ps' ! i = Woken w))"
proof (induction es arbitrary: ps)
  case (Cons e es)
  then obtain qs where "wakes cv e ps qs" "wakes_all cv es qs ps'" by auto
  with wakes_nth [of cv e ps qs] Cons.IH [of qs] show ?case by fastforce
qed simp

text \<open>So a property of the waits of all threads survives them, if it does not tell sleeping from woken.\<close>

lemma wakes_all_local:
  assumes "wakes_all cv es ps ps'" and "\<forall>p \<in> set ps. P p" and "\<And>w. P (Asleep w) \<Longrightarrow> P (Woken w)"
  shows "\<forall>p \<in> set ps'. P p"
proof
  fix p
  assume "p \<in> set ps'"
  then obtain i where "i < length ps" "p = ps' ! i"
    using wakes_all_nth [OF assms(1)] by (auto simp: in_set_conv_nth)
  with wakes_all_nth [OF assms(1)] assms(2,3) show "P p" by (metis nth_mem)
qed

text \<open>The counts after a section, before its notifications.\<close>

lemma section_counts:
  assumes "i < length ps" "\<And>c. \<not> sleeps_on cv c (ps ! i)"
  shows "sleeping cv c (ps[i := thread_after out]) = sleeping cv c ps + (if sleeps_on cv c (thread_after out) then 1 else 0)"
    and "woken cv c (ps[i := thread_after out]) + (if woken_from cv c (ps ! i) then 1 else 0) = woken cv c ps"
proof -
  have "\<not> woken_from cv c (thread_after out)" by (cases out) auto
  then show "sleeping cv c (ps[i := thread_after out]) = sleeping cv c ps + (if sleeps_on cv c (thread_after out) then 1 else 0)"
    "woken cv c (ps[i := thread_after out]) + (if woken_from cv c (ps ! i) then 1 else 0) = woken cv c ps"
    using tally_update [OF assms(1), of "sleeps_on cv c" "thread_after out"]
      tally_update [OF assms(1), of "woken_from cv c" "thread_after out"] assms(2) by auto
qed

lemma update_local: "\<forall>p \<in> set ps. P p \<Longrightarrow> P x \<Longrightarrow> \<forall>p \<in> set (ps[i := x]). P p"
  using set_update_subset_insert [of ps i x] by auto

text \<open>Notifications and the end of a section that returns can be taken in any order.\<close>

fun asleep :: "('w, 'r) thread \<Rightarrow> bool" where
  "asleep (Asleep w) \<longleftrightarrow> True"
| "asleep _ \<longleftrightarrow> False"

lemma asleep_sleeps_on: "\<not> asleep p \<Longrightarrow> \<not> sleeps_on cv c p" "\<not> asleep p \<Longrightarrow> wake cv c p = p"
  by (cases p; simp)+

lemma wakes_update:
  assumes "wakes cv e ps qs" "i < length ps" "\<not> asleep (ps ! i)" "\<not> asleep p"
  shows "wakes cv e (ps[i := p]) (qs[i := p])"
  using assms(1)
proof (cases rule: wakes.cases)
  case (nobody c)
  have "\<forall>q \<in> set (ps[i := p]). \<not> sleeps_on cv c q"
    using nobody asleep_sleeps_on(1) [OF assms(4), of cv c] by (intro update_local) auto
  with nobody show ?thesis by (auto intro: wakes.nobody)
next
  case (somebody j c)
  then have "j \<noteq> i" using asleep_sleeps_on(1) [OF assms(3), of cv c] by auto
  with somebody wakes.somebody [of j "ps[i := p]" cv c] show ?thesis by (simp add: list_update_swap)
next
  case (everybody c)
  with wakes.everybody [of cv c "ps[i := p]"] asleep_sleeps_on(2) [OF assms(4), of cv c] show ?thesis by (simp add: map_update)
qed

lemma wakes_all_keeps:
  assumes "wakes_all cv es ps qs" "i < length ps" "\<not> asleep (ps ! i)"
  shows "i < length qs \<and> qs ! i = ps ! i"
  using wakes_all_nth [OF assms(1)] assms(2,3) by fastforce

lemma wakes_all_update:
  assumes "wakes_all cv es ps qs" "i < length ps" "\<not> asleep (ps ! i)" "\<not> asleep p"
  shows "wakes_all cv es (ps[i := p]) (qs[i := p])"
  using assms
proof (induction es arbitrary: ps)
  case (Cons e es)
  then obtain rs where rs: "wakes cv e ps rs" "wakes_all cv es rs qs" by auto
  have "i < length rs \<and> rs ! i = ps ! i" using wakes_all_keeps [of cv "[e]" ps rs i] rs Cons.prems by simp
  then have "wakes_all cv es (rs[i := p]) (qs[i := p])" using Cons.IH [OF rs(2)] Cons.prems by simp
  moreover have "wakes cv e (ps[i := p]) (rs[i := p])" using wakes_update [OF rs(1)] Cons.prems by simp
  ultimately show ?case by auto
qed simp

lemma wakes_all_end:
  assumes "wakes_all cv es ps qs" "i < length ps" "\<not> asleep (ps ! i)" "es = [] \<or> (\<exists>r. out = Returns r)"
  shows "wakes_all cv es (ps[i := thread_after out]) (qs[i := thread_after out])"
  using assms(4) wakes_all_update [OF assms(1-3)] assms(1) by (cases out) auto

text \<open>A notification can always be delivered.\<close>

lemma wakes_total: "\<exists>ps'. wakes cv e ps ps'"
proof (cases e)
  case (Signal c)
  then show ?thesis using nobody [of ps cv c] somebody [of _ ps cv c] by (metis in_set_conv_nth)
qed (auto intro: everybody)

lemma wakes_all_total: "\<exists>ps'. wakes_all cv es ps ps'"
proof (induction es arbitrary: ps)
  case Nil
  have "wakes_all cv [] ps ps" by simp
  then show ?case by (rule exI)
next
  case (Cons e es)
  obtain qs where "wakes cv e ps qs" using wakes_total [of cv e ps] by (rule exE)
  moreover obtain ps' where "wakes_all cv es qs ps'" using Cons.IH [of qs] by (rule exE)
  ultimately have "wakes_all cv (e # es) ps ps'" by (auto intro: exI [of _ qs])
  then show ?case by (rule exI)
qed

text \<open>Condition variables that serve several kinds of waits: \<open>g\<close> tells the variable of a kind.\<close>

lemma tally_disj:
  "(\<And>x. P x \<Longrightarrow> \<not> Q x) \<Longrightarrow> tally (\<lambda>x. P x \<or> Q x) xs = tally P xs + tally Q xs"
  by (induction xs) auto

lemma sleeps_on_kind: "sleeps_on (\<lambda>w. g (kind w)) c p \<longleftrightarrow> (\<exists>k. g k = c \<and> sleeps_on kind k p)"
  by (cases p) auto

lemma wake_kind:
  "sleeps_on kind k (wake (\<lambda>w. g (kind w)) c p) \<longleftrightarrow> sleeps_on kind k p \<and> g k \<noteq> c"
  "woken_from kind k (wake (\<lambda>w. g (kind w)) c p) \<longleftrightarrow> woken_from kind k p \<or> sleeps_on kind k p \<and> g k = c"
  by (cases p; auto)+

lemma broadcast_kinds:
  assumes "wakes (\<lambda>w. g (kind w)) (Broadcast c) ps ps'"
  shows "sleeping kind k ps' = (if g k = c then 0 else sleeping kind k ps)"
    and "woken kind k ps' = woken kind k ps + (if g k = c then sleeping kind k ps else 0)"
proof -
  have "ps' = map (wake (\<lambda>w. g (kind w)) c) ps" using assms by (auto elim: broadcastE)
  then show "sleeping kind k ps' = (if g k = c then 0 else sleeping kind k ps)"
    "woken kind k ps' = woken kind k ps + (if g k = c then sleeping kind k ps else 0)"
    using tally_disj [of "woken_from kind k" "sleeps_on kind k" ps] not_both [of kind k _ k]
    by (auto simp: wake_kind tally_eq_0)
qed

lemma signal_kinds:
  fixes ps :: "('w, 'r) thread list"
  assumes "wakes (\<lambda>w. g (kind w)) (Signal c) ps ps'" and "\<And>k. g k = c \<longleftrightarrow> k = k0"
  shows "wakes kind (Signal k0) ps ps'"
proof -
  have s: "sleeps_on (\<lambda>w. g (kind w)) c p \<longleftrightarrow> sleeps_on kind k0 p" for p :: "('w, 'r) thread"
    using assms(2) by (auto simp: sleeps_on_kind)
  have w: "wake (\<lambda>w. g (kind w)) c p = wake kind k0 p" if "sleeps_on kind k0 p" for p :: "('w, 'r) thread"
    using that assms(2) by (cases p) auto
  show ?thesis
    using assms(1)
  proof (cases rule: wakes.cases)
    case nobody
    then have "\<forall>p \<in> set ps. \<not> sleeps_on kind k0 p" by (auto simp: s)
    from wakes.nobody [OF this] nobody show ?thesis by simp
  next
    case (somebody i)
    then have "sleeps_on kind k0 (ps ! i)" by (simp add: s)
    from wakes.somebody [OF somebody(2) this] somebody w [OF this] show ?thesis by simp
  qed
qed

section \<open>Interleavings\<close>

text \<open>A system is the protected state, its threads and the clock.  A label tells which thread ran a section,
  for which call or wait, and how the section ended; the moves of the environment are all \<open>Moved\<close>.\<close>

datatype ('op, 'w, 'r) label =
  Called nat 'op "('w, 'r) outcome" | Resumed nat 'w "('w, 'r) outcome" | Moved

type_synonym ('q, 'w, 'r) system = "'q \<times> ('w, 'r) thread list \<times> int"

type_synonym ('a, 'q, 'c, 'w, 'r) crit =
  "'a \<Rightarrow> 'q \<Rightarrow> (nat \<Rightarrow> int) \<Rightarrow> ('q \<times> 'c cv_event list \<times> ('w, 'r) outcome) option"

text \<open>One step.  The notifications of a section come before its end, so they never wake the thread that runs it.
  With \<open>early\<close> a timed wait may end by time before its deadline, as the system calls of some
  platforms do; otherwise only when the clock has reached it.\<close>

inductive mon_step ::
  "('op, 'q, 'c, 'w, 'r) crit \<Rightarrow> ('w \<times> errno, 'q, 'c, 'w, 'r) crit \<Rightarrow> ('w \<Rightarrow> 'c) \<Rightarrow> ('w \<Rightarrow> int option) \<Rightarrow> bool \<Rightarrow>
   ('q, 'w, 'r) system \<Rightarrow> ('op, 'w, 'r) label \<Rightarrow> ('q, 'w, 'r) system \<Rightarrow> bool"
  for call resume cv until early where
  step_call:
    "i < length ps \<Longrightarrow> ps ! i = Idle \<Longrightarrow> clock_reads now clk now' \<Longrightarrow> call op q clk = Some (q', evs, out) \<Longrightarrow>
     wakes_all cv evs ps qs \<Longrightarrow>
     mon_step call resume cv until early (q, ps, now) (Called i op out) (q', qs[i := thread_after out], now')"
| step_woken:
    "i < length ps \<Longrightarrow> ps ! i = Woken w \<Longrightarrow> clock_reads now clk now' \<Longrightarrow> resume (w, E_OK) q clk = Some (q', evs, out) \<Longrightarrow>
     wakes_all cv evs ps qs \<Longrightarrow>
     mon_step call resume cv until early (q, ps, now) (Resumed i w out) (q', qs[i := thread_after out], now')"
| step_elapsed:
    "i < length ps \<Longrightarrow> ps ! i = Elapsed w \<Longrightarrow> clock_reads now clk now' \<Longrightarrow> resume (w, ETIMEDOUT) q clk = Some (q', evs, out) \<Longrightarrow>
     wakes_all cv evs ps qs \<Longrightarrow>
     mon_step call resume cv until early (q, ps, now) (Resumed i w out) (q', qs[i := thread_after out], now')"
| step_spurious:
    "i < length ps \<Longrightarrow> ps ! i = Asleep w \<Longrightarrow> mon_step call resume cv until early (q, ps, now) Moved (q, ps[i := Woken w], now)"
| step_elapse:
    "i < length ps \<Longrightarrow> ps ! i = Asleep w \<Longrightarrow> until w = Some d \<Longrightarrow> early \<or> d \<le> now \<Longrightarrow>
     mon_step call resume cv until early (q, ps, now) Moved (q, ps[i := Elapsed w], now)"
| step_tick: "now \<le> now' \<Longrightarrow> mon_step call resume cv until early (q, ps, now) Moved (q, ps, now')"
| step_return:
    "i < length ps \<Longrightarrow> ps ! i = Returned r \<Longrightarrow> mon_step call resume cv until early (q, ps, now) Moved (q, ps[i := Idle], now)"

text \<open>Sections during which the clock stands still.\<close>

lemma call_now:
  "i < length ps \<Longrightarrow> ps ! i = Idle \<Longrightarrow> call op q (\<lambda>_. now) = Some (q', evs, out) \<Longrightarrow> wakes_all cv evs ps qs \<Longrightarrow>
   ps' = qs[i := thread_after out] \<Longrightarrow> mon_step call resume cv until early (q, ps, now) (Called i op out) (q', ps', now)"
  using step_call [OF _ _ clock_reads_const] by metis

lemma woken_now:
  "i < length ps \<Longrightarrow> ps ! i = Woken w \<Longrightarrow> resume (w, E_OK) q (\<lambda>_. now) = Some (q', evs, out) \<Longrightarrow> wakes_all cv evs ps qs \<Longrightarrow>
   ps' = qs[i := thread_after out] \<Longrightarrow> mon_step call resume cv until early (q, ps, now) (Resumed i w out) (q', ps', now)"
  using step_woken [OF _ _ clock_reads_const] by metis

lemma elapsed_now:
  "i < length ps \<Longrightarrow> ps ! i = Elapsed w \<Longrightarrow> resume (w, ETIMEDOUT) q (\<lambda>_. now) = Some (q', evs, out) \<Longrightarrow> wakes_all cv evs ps qs \<Longrightarrow>
   ps' = qs[i := thread_after out] \<Longrightarrow> mon_step call resume cv until early (q, ps, now) (Resumed i w out) (q', ps', now)"
  using step_elapsed [OF _ _ clock_reads_const] by metis

inductive_cases resumedE: "mon_step call resume cv until early s (Resumed i w out) t"

text \<open>Runs, with the trace of their labels.\<close>

inductive mon_run :: "('s \<Rightarrow> 'l \<Rightarrow> 's \<Rightarrow> bool) \<Rightarrow> 's \<Rightarrow> 'l list \<Rightarrow> 's \<Rightarrow> bool" for step where
  run_start: "mon_run step s [] s"
| run_step: "mon_run step s tr t \<Longrightarrow> step t l u \<Longrightarrow> mon_run step s (tr @ [l]) u"

lemma run_Cons: "step s l t \<Longrightarrow> mon_run step t tr u \<Longrightarrow> mon_run step s (l # tr) u"
proof (induction tr arbitrary: u rule: rev_induct)
  case Nil
  then have "t = u" by (auto elim: mon_run.cases)
  then show ?case using run_step [where tr = "[]", OF run_start, of step s l t] Nil(1) by simp
next
  case (snoc x tr)
  from snoc.prems(2) obtain v where "mon_run step t tr v" "step v x u" by (auto elim: mon_run.cases)
  with snoc.IH [of v] snoc.prems(1) run_step [of step s "l # tr" v x u] show ?case by simp
qed

text \<open>A step in which a thread that was woken, or whose wait elapsed, runs its next section.\<close>

definition resume_step :: "('s \<Rightarrow> ('op, 'w, 'r) label \<Rightarrow> 's \<Rightarrow> bool) \<Rightarrow> 's \<Rightarrow> 's \<Rightarrow> bool" where
  "resume_step step s t \<longleftrightarrow> (\<exists>i w out. step s (Resumed i w out) t)"

text \<open>When no thread is on its way back, none counts as woken; a sleeping thread counts.\<close>

lemma nobody_woken: "\<forall>p \<in> set ps. \<not> ready p \<Longrightarrow> tally (woken_from cv c) ps = 0"
proof -
  have "ready p" if "woken_from cv c p" for p using that by (cases p) auto
  then show "tally (woken_from cv c) ps = 0" if "\<forall>p \<in> set ps. \<not> ready p"
    using that by (auto simp: tally_eq_0)
qed

lemma somebody_sleeps: "Asleep w \<in> set ps \<Longrightarrow> 0 < tally (sleeps_on cv (cv w)) ps"
  using tally_eq_0 [of "sleeps_on cv (cv w)" ps] by fastforce

section \<open>Settling\<close>

text \<open>The potential that bounds how long woken threads can keep each other busy.\<close>

fun thread_weight :: "('w, 'r) thread \<Rightarrow> nat" where
  "thread_weight (Asleep w) = 1"
| "thread_weight (Woken w) = 2"
| "thread_weight (Elapsed w) = 2"
| "thread_weight _ = 0"

definition weight :: "('w, 'r) thread list \<Rightarrow> nat" where
  "weight ps = sum_list (map thread_weight ps)"

lemma weight_update:
  "i < length ps \<Longrightarrow> weight (ps[i := p]) + thread_weight (ps ! i) = weight ps + thread_weight p"
proof (induction ps arbitrary: i)
  case (Cons x ps)
  then show ?case using Cons.IH [of "i - 1"] by (cases i) (auto simp: weight_def)
qed simp

lemma weight_le: "weight ps \<le> 2 * length ps"
proof (induction ps)
  case (Cons p ps)
  have "thread_weight p \<le> 2" by (cases p) auto
  with Cons show ?case by (simp add: weight_def)
qed (simp add: weight_def)

lemma weight_wake: "sleeps_on cv c p \<Longrightarrow> thread_weight (wake cv c p) = Suc (thread_weight p)"
  by (cases p) auto

lemma weight_signal: "wakes cv (Signal c) ps ps' \<Longrightarrow> weight ps' \<le> Suc (weight ps)"
proof (erule signalE)
  fix i
  assume "ps' = ps[i := wake cv c (ps ! i)]" "i < length ps" "sleeps_on cv c (ps ! i)"
  then show ?thesis using weight_update [of i ps "wake cv c (ps ! i)"] weight_wake [of cv c "ps ! i"] by simp
qed simp

text \<open>What a synchronisation object has to provide.  \<open>inv\<close> is its invariant over state, threads and
  clock; \<open>calm\<close> is what the invariant means once no thread is on its way back to the mutex.  From these laws
  the settling theorem: threads that were woken always get on, need at most two sections per thread between
  them, and when they are done the system is calm.\<close>

locale monitor =
  fixes call :: "('op, 'q, 'c, 'w, 'r) crit"
    and resume :: "('w \<times> errno, 'q, 'c, 'w, 'r) crit"
    and cv :: "'w \<Rightarrow> 'c"
    and until :: "'w \<Rightarrow> int option"
    and early :: bool
    and inv :: "'q \<Rightarrow> ('w, 'r) thread list \<Rightarrow> int \<Rightarrow> bool"
    and calm :: "'q \<Rightarrow> ('w, 'r) thread list \<Rightarrow> bool"
  assumes step_inv:
      "inv q ps now \<Longrightarrow> mon_step call resume cv until early (q, ps, now) l (q', ps', now') \<Longrightarrow> inv q' ps' now'"
    and resume_defined:
      "inv q ps now \<Longrightarrow> i < length ps \<Longrightarrow> ps ! i = Woken w \<and> rc = E_OK \<or> ps ! i = Elapsed w \<and> rc = ETIMEDOUT \<Longrightarrow>
       resume (w, rc) q (\<lambda>_. now) \<noteq> None"
    and resume_events:
      "inv q ps now \<Longrightarrow> i < length ps \<Longrightarrow> ps ! i = Woken w \<and> rc = E_OK \<or> ps ! i = Elapsed w \<and> rc = ETIMEDOUT \<Longrightarrow>
       resume (w, rc) q clk = Some (q', evs, out) \<Longrightarrow> evs = [] \<or> (\<exists>r c. out = Returns r \<and> evs = [Signal c])"
    and calm: "inv q ps now \<Longrightarrow> \<forall>p \<in> set ps. \<not> ready p \<Longrightarrow> calm q ps"
begin

abbreviation "step \<equiv> mon_step call resume cv until early"

lemma reach_inv:
  "mon_run step s tr t \<Longrightarrow> (case s of (q, ps, now) \<Rightarrow> inv q ps now) \<Longrightarrow> (case t of (q, ps, now) \<Rightarrow> inv q ps now)"
proof (induction rule: mon_run.induct)
  case (run_step s tr t l u)
  then show ?case by (cases t; cases u) (auto intro: step_inv)
qed

lemma section_weight:
  assumes "i < length ps" and two: "thread_weight (ps ! i) = 2"
    and evs: "evs = [] \<or> (\<exists>r c. out = Returns r \<and> evs = [Signal c])"
    and wakes: "wakes_all cv evs (ps[i := thread_after out]) ps'"
  shows "weight ps' < weight ps \<and> length ps' = length ps"
proof -
  have "weight (ps[i := thread_after out]) + 2 = weight ps + thread_weight (thread_after out)"
    using weight_update [OF assms(1), of "thread_after out"] two by simp
  moreover have "thread_weight (thread_after out) \<le> 1" by (cases out) auto
  moreover have "thread_weight (thread_after out) = 0 \<and> weight ps' \<le> Suc (weight (ps[i := thread_after out]))"
    if "evs \<noteq> []"
    using evs wakes that weight_signal by auto
  moreover have "ps' = ps[i := thread_after out]" if "evs = []"
    using wakes that by simp
  ultimately show ?thesis
    using wakes_all_nth [OF wakes] by (cases "evs = []") auto
qed

lemma resume_weight:
  assumes "step (q, ps, now) (Resumed i w out) (q', ps', now')" and "inv q ps now"
  shows "weight ps' < weight ps \<and> length ps' = length ps"
proof -
  obtain rc clk evs qs where s: "i < length ps" "ps ! i = Woken w \<and> rc = E_OK \<or> ps ! i = Elapsed w \<and> rc = ETIMEDOUT"
    "resume (w, rc) q clk = Some (q', evs, out)" "wakes_all cv evs ps qs" "ps' = qs[i := thread_after out]"
    using assms(1) by (blast elim: resumedE)
  then have e: "evs = [] \<or> (\<exists>r c. out = Returns r \<and> evs = [Signal c])"
    using resume_events [OF assms(2), of i w rc clk q' evs out] by blast
  have "wakes_all cv evs (ps[i := thread_after out]) ps'"
    using wakes_all_end [OF s(4,1), of out] s(2,5) e by auto
  with section_weight [of i ps evs out ps'] s e show ?thesis by auto
qed

lemma ready_step:
  assumes "inv q ps now" and "p \<in> set ps" "ready p"
  shows "\<exists>t. resume_step step (q, ps, now) t"
proof -
  obtain i where i: "i < length ps" "ps ! i = p" using assms(2) by (auto simp: in_set_conv_nth)
  obtain w where "p = Woken w \<or> p = Elapsed w" using assms(3) by (cases p) auto
  then show ?thesis
  proof
    assume p: "p = Woken w"
    with i assms(1) resume_defined [of q ps now i w E_OK] obtain q' evs out
      where r: "resume (w, E_OK) q (\<lambda>_. now) = Some (q', evs, out)" by auto
    obtain qs where "wakes_all cv evs ps qs" using wakes_all_total by blast
    with i p r have "step (q, ps, now) (Resumed i w out) (q', qs[i := thread_after out], now)"
      by (intro step_woken [OF _ _ clock_reads_const]) auto
    then show ?thesis unfolding resume_step_def by blast
  next
    assume p: "p = Elapsed w"
    with i assms(1) resume_defined [of q ps now i w ETIMEDOUT] obtain q' evs out
      where r: "resume (w, ETIMEDOUT) q (\<lambda>_. now) = Some (q', evs, out)" by auto
    obtain qs where "wakes_all cv evs ps qs" using wakes_all_total by blast
    with i p r have "step (q, ps, now) (Resumed i w out) (q', qs[i := thread_after out], now)"
      by (intro step_elapsed [OF _ _ clock_reads_const]) auto
    then show ?thesis unfolding resume_step_def by blast
  qed
qed

lemma settles:
  assumes inv: "inv q ps now" and run: "(resume_step step ^^ k) (q, ps, now) (q', ps', now')"
  shows "inv q' ps' now' \<and> k + weight ps' \<le> weight ps \<and> length ps' = length ps"
  using run
proof (induction k arbitrary: q' ps' now')
  case 0
  then show ?case using inv by simp
next
  case (Suc k)
  then obtain qm pm nm where m: "(resume_step step ^^ k) (q, ps, now) (qm, pm, nm)"
    and st: "resume_step step (qm, pm, nm) (q', ps', now')" by (auto elim!: relpowp_Suc_E)
  with Suc.IH [OF m] resume_weight [of qm pm nm _ _ _ q' ps' now'] step_inv [of qm pm nm _ q' ps' now']
  show ?case by (fastforce simp: resume_step_def)
qed

lemma settled:
  assumes start: "inv q0 ps0 now0" and run: "mon_run step (q0, ps0, now0) tr (q, ps, now)"
    and settle: "(resume_step step ^^ k) (q, ps, now) (q', ps', now')"
  shows "k \<le> 2 * length ps"
    and "\<forall>t. \<not> resume_step step (q', ps', now') t \<Longrightarrow> (\<forall>p \<in> set ps'. \<not> ready p) \<and> calm q' ps'"
proof -
  have inv: "inv q ps now" using reach_inv [OF run] start by simp
  note s = settles [OF inv settle]
  show "k \<le> 2 * length ps" using s weight_le [of ps] by linarith
  show "(\<forall>p \<in> set ps'. \<not> ready p) \<and> calm q' ps'" if "\<forall>t. \<not> resume_step step (q', ps', now') t"
    using that ready_step [of q' ps' now'] calm [of q' ps' now'] s by blast
qed

end

end
