(* ===== verification/Coter_Msgqueue.thy ===== *)
theory Coter_Msgqueue
  imports Coter_Queue Coter_Monitor
begin

text \<open>
  \<open>sync/msgqueue.h\<close>, \<open>msgqueue.c\<close>: the blocking queue, a \<^typ>\<open>ct_queue\<close> behind a mutex with two condition
  variables.  Every function is the section it runs from locking the mutex to returning or waiting; what a
  waiting call does when its wait ends is \<open>mq_resume\<close>.  The interleavings of any number of threads are
  the runs of \<open>Coter_Monitor\<close>.
\<close>

section \<open>State and waits\<close>

datatype mq_cv = Not_empty | Not_full

record ct_msgqueue =
  mq_queue :: ct_queue
  mq_is_shut :: bool

text \<open>A waiting call: its arguments, the deadline of its loop, and when its present wait gives up.\<close>

datatype mq_wait =
  PushWait (mw_item: "u8 list") (mw_timeout: int) (mw_deadline: int) (mw_until: "int option")
| PopWait (mw_timeout: int) (mw_deadline: int) (mw_until: "int option")

fun mq_cv_of :: "mq_wait \<Rightarrow> mq_cv" where
  "mq_cv_of (PushWait x t d u) = Not_full"
| "mq_cv_of (PopWait t d u) = Not_empty"

text \<open>Results: a return code with what is stored at \<open>item\<close>, or the value of a query.\<close>

datatype mq_result = Rc errno "u8 list option" | Truth bool | Count nat | Unit

type_synonym mq_section = "(ct_msgqueue option \<times> mq_cv cv_event list \<times> (mq_wait, mq_result) outcome) option"

section \<open>Creation\<close>

text \<open>The last three arguments are what the initialisers of the mutex and of \<open>not_empty_\<close> and \<open>not_full_\<close>
  answer.\<close>

definition ct_msgqueue_init ::
  "ct_msgqueue option \<Rightarrow> u8 list option \<Rightarrow> nat \<Rightarrow> nat \<Rightarrow> errno \<Rightarrow> errno \<Rightarrow> errno \<Rightarrow> errno \<times> ct_msgqueue option" where
  "ct_msgqueue_init self buffer byte n mutex_rc not_empty_rc not_full_rc =
     (case (self, buffer) of
        (Some q, Some buf) \<Rightarrow>
          if byte = 0 \<or> n = 0 then (EINVAL, self)
          else let q = q\<lparr>mq_queue := ct_queue_init (mq_queue q) buffer byte n\<rparr> in
            if mutex_rc \<noteq> E_OK then (mutex_rc, Some q)
            else if not_empty_rc \<noteq> E_OK then (not_empty_rc, Some q)
            else if not_full_rc \<noteq> E_OK then (not_full_rc, Some q)
            else (E_OK, Some (q\<lparr>mq_is_shut := False\<rparr>))
      | _ \<Rightarrow> (EINVAL, self))"

section \<open>Waiting for room and for elements\<close>

text \<open>One turn of the loop of \<open>msgqueue_wait_not_full\<close> (\<open>_not_empty\<close>): it ends the loop, or enters the wait.\<close>

definition not_full_turn :: "ct_msgqueue \<Rightarrow> int \<Rightarrow> int \<Rightarrow> (nat \<Rightarrow> int) \<Rightarrow> (int option, errno) outcome" where
  "not_full_turn self timeout_ms deadline clk =
     (if ct_queue_is_full (mq_queue self) then
        if mq_is_shut self then Returns EPIPE
        else if timeout_ms = 0 then Returns ETIMEDOUT
        else if timeout_ms > 0 then
          let now = clk 0 in
          if now \<ge> deadline then Returns ETIMEDOUT
          else ct_cond_wait_for (deadline - now) (\<lambda>k. clk (k + 1))
        else ct_cond_wait_for timeout_ms (\<lambda>k. clk (k + 1))
      else Returns (if mq_is_shut self then EPIPE else E_OK))"

definition not_empty_turn :: "ct_msgqueue \<Rightarrow> int \<Rightarrow> int \<Rightarrow> (nat \<Rightarrow> int) \<Rightarrow> (int option, errno) outcome" where
  "not_empty_turn self timeout_ms deadline clk =
     (if ct_queue_is_empty (mq_queue self) then
        if mq_is_shut self then Returns EPIPE
        else if timeout_ms = 0 then Returns ETIMEDOUT
        else if timeout_ms > 0 then
          let now = clk 0 in
          if now \<ge> deadline then Returns ETIMEDOUT
          else ct_cond_wait_for (deadline - now) (\<lambda>k. clk (k + 1))
        else ct_cond_wait_for timeout_ms (\<lambda>k. clk (k + 1))
      else Returns (if mq_is_shut self then EPIPE else E_OK))"

text \<open>The functions up to their first wait, with the deadline they computed: \<^const>\<open>None\<close> when the addition
  overflows.\<close>

definition msgqueue_wait_not_full :: "ct_msgqueue \<Rightarrow> int \<Rightarrow> (nat \<Rightarrow> int) \<Rightarrow> (int \<times> (int option, errno) outcome) option" where
  "msgqueue_wait_not_full self timeout_ms clk = do {
     deadline \<leftarrow> (if timeout_ms > 0 then time_add (clk 0) timeout_ms else Some 0);
     Some (deadline, not_full_turn self timeout_ms deadline (\<lambda>k. clk (k + 1))) }"

definition msgqueue_wait_not_empty :: "ct_msgqueue \<Rightarrow> int \<Rightarrow> (nat \<Rightarrow> int) \<Rightarrow> (int \<times> (int option, errno) outcome) option" where
  "msgqueue_wait_not_empty self timeout_ms clk = do {
     deadline \<leftarrow> (if timeout_ms > 0 then time_add (clk 0) timeout_ms else Some 0);
     Some (deadline, not_empty_turn self timeout_ms deadline (\<lambda>k. clk (k + 1))) }"

text \<open>After the system call: the wait goes on, fails, or the loop takes its next turn.\<close>

definition not_full_after_wait ::
  "ct_msgqueue \<Rightarrow> int \<Rightarrow> int \<Rightarrow> int option \<Rightarrow> errno \<Rightarrow> (nat \<Rightarrow> int) \<Rightarrow> (int option, errno) outcome" where
  "not_full_after_wait self timeout_ms deadline until result clk =
     (case cond_wait_result until result clk of
        Sleeps u \<Rightarrow> Sleeps u
      | Returns rc \<Rightarrow> if rc \<noteq> E_OK then Returns rc else not_full_turn self timeout_ms deadline clk)"

definition not_empty_after_wait ::
  "ct_msgqueue \<Rightarrow> int \<Rightarrow> int \<Rightarrow> int option \<Rightarrow> errno \<Rightarrow> (nat \<Rightarrow> int) \<Rightarrow> (int option, errno) outcome" where
  "not_empty_after_wait self timeout_ms deadline until result clk =
     (case cond_wait_result until result clk of
        Sleeps u \<Rightarrow> Sleeps u
      | Returns rc \<Rightarrow> if rc \<noteq> E_OK then Returns rc else not_empty_turn self timeout_ms deadline clk)"

section \<open>The operations\<close>

text \<open>The end of a push (pop) whose wait function ended with \<open>out\<close>.\<close>

definition push_end :: "ct_msgqueue \<Rightarrow> u8 list \<Rightarrow> int \<Rightarrow> int \<times> (int option, errno) outcome \<Rightarrow> mq_section" where
  "push_end self item timeout_ms dout =
     (case snd dout of
        Sleeps u \<Rightarrow> Some (Some self, [], Sleeps (PushWait item timeout_ms (fst dout) u))
      | Returns result \<Rightarrow>
          if result = E_OK then do {
            (_, q) \<leftarrow> ct_queue_enqueue (mq_queue self) (Some item);
            Some (Some (self\<lparr>mq_queue := q\<rparr>), [Signal Not_empty], Returns (Rc result None)) }
          else Some (Some self, [], Returns (Rc result None)))"

definition pop_end :: "ct_msgqueue \<Rightarrow> int \<Rightarrow> int \<times> (int option, errno) outcome \<Rightarrow> mq_section" where
  "pop_end self timeout_ms dout =
     (case snd dout of
        Sleeps u \<Rightarrow> Some (Some self, [], Sleeps (PopWait timeout_ms (fst dout) u))
      | Returns result \<Rightarrow>
          if result = E_OK then do {
            (_, x, q) \<leftarrow> ct_queue_dequeue (mq_queue self) True;
            Some (Some (self\<lparr>mq_queue := q\<rparr>), [Signal Not_full], Returns (Rc result x)) }
          else Some (Some self, [], Returns (Rc result None)))"

definition ct_msgqueue_push :: "ct_msgqueue option \<Rightarrow> u8 list option \<Rightarrow> (nat \<Rightarrow> int) \<Rightarrow> mq_section" where
  "ct_msgqueue_push self item clk =
     (case (self, item) of
        (Some q, Some x) \<Rightarrow>
          if mq_is_shut q then Some (self, [], Returns (Rc EPIPE None))
          else do { dout \<leftarrow> msgqueue_wait_not_full q (-1) clk; push_end q x (-1) dout }
      | _ \<Rightarrow> Some (self, [], Returns (Rc EINVAL None)))"

definition ct_msgqueue_pop :: "ct_msgqueue option \<Rightarrow> bool \<Rightarrow> (nat \<Rightarrow> int) \<Rightarrow> mq_section" where
  "ct_msgqueue_pop self item clk =
     (case self of
        None \<Rightarrow> Some (self, [], Returns (Rc EINVAL None))
      | Some q \<Rightarrow>
          if \<not> item then Some (self, [], Returns (Rc EINVAL None))
          else if mq_is_shut q then Some (self, [], Returns (Rc EPIPE None))
          else do { dout \<leftarrow> msgqueue_wait_not_empty q (-1) clk; pop_end q (-1) dout })"

definition ct_msgqueue_try_push :: "ct_msgqueue option \<Rightarrow> u8 list option \<Rightarrow> mq_section" where
  "ct_msgqueue_try_push self item =
     (case (self, item) of
        (Some q, Some x) \<Rightarrow>
          if mq_is_shut q then Some (self, [], Returns (Rc EPIPE None))
          else if ct_queue_is_full (mq_queue q) then Some (self, [], Returns (Rc EAGAIN None))
          else do {
            (_, q') \<leftarrow> ct_queue_enqueue (mq_queue q) (Some x);
            Some (Some (q\<lparr>mq_queue := q'\<rparr>), [Signal Not_empty], Returns (Rc E_OK None)) }
      | _ \<Rightarrow> Some (self, [], Returns (Rc EINVAL None)))"

definition ct_msgqueue_try_pop :: "ct_msgqueue option \<Rightarrow> bool \<Rightarrow> mq_section" where
  "ct_msgqueue_try_pop self item =
     (case self of
        None \<Rightarrow> Some (self, [], Returns (Rc EINVAL None))
      | Some q \<Rightarrow>
          if \<not> item then Some (self, [], Returns (Rc EINVAL None))
          else if mq_is_shut q then Some (self, [], Returns (Rc EPIPE None))
          else if ct_queue_is_empty (mq_queue q) then Some (self, [], Returns (Rc EAGAIN None))
          else do {
            (_, x, q') \<leftarrow> ct_queue_dequeue (mq_queue q) True;
            Some (Some (q\<lparr>mq_queue := q'\<rparr>), [Signal Not_full], Returns (Rc E_OK x)) })"

definition ct_msgqueue_push_for :: "ct_msgqueue option \<Rightarrow> u8 list option \<Rightarrow> int \<Rightarrow> (nat \<Rightarrow> int) \<Rightarrow> mq_section" where
  "ct_msgqueue_push_for self item timeout_ms clk =
     (case (self, item) of
        (Some q, Some x) \<Rightarrow>
          if mq_is_shut q then Some (self, [], Returns (Rc EPIPE None))
          else do { dout \<leftarrow> msgqueue_wait_not_full q timeout_ms clk; push_end q x timeout_ms dout }
      | _ \<Rightarrow> Some (self, [], Returns (Rc EINVAL None)))"

definition ct_msgqueue_pop_for :: "ct_msgqueue option \<Rightarrow> bool \<Rightarrow> int \<Rightarrow> (nat \<Rightarrow> int) \<Rightarrow> mq_section" where
  "ct_msgqueue_pop_for self item timeout_ms clk =
     (case self of
        None \<Rightarrow> Some (self, [], Returns (Rc EINVAL None))
      | Some q \<Rightarrow>
          if \<not> item then Some (self, [], Returns (Rc EINVAL None))
          else if mq_is_shut q then Some (self, [], Returns (Rc EPIPE None))
          else do { dout \<leftarrow> msgqueue_wait_not_empty q timeout_ms clk; pop_end q timeout_ms dout })"

definition ct_msgqueue_close :: "ct_msgqueue option \<Rightarrow> mq_section" where
  "ct_msgqueue_close self =
     (case self of
        None \<Rightarrow> Some (self, [], Returns Unit)
      | Some q \<Rightarrow>
          if \<not> mq_is_shut q
          then Some (Some (q\<lparr>mq_is_shut := True\<rparr>), [Broadcast Not_empty, Broadcast Not_full], Returns Unit)
          else Some (self, [], Returns Unit))"

text \<open>\<open>ct_msgqueue_destroy\<close> closes the queue; what remains is the release of the system objects.\<close>

definition ct_msgqueue_destroy :: "ct_msgqueue option \<Rightarrow> mq_section" where
  "ct_msgqueue_destroy self =
     (case self of None \<Rightarrow> Some (self, [], Returns Unit) | Some q \<Rightarrow> ct_msgqueue_close self)"

definition ct_msgqueue_is_empty :: "ct_msgqueue option \<Rightarrow> bool" where
  "ct_msgqueue_is_empty self = (case self of None \<Rightarrow> True | Some q \<Rightarrow> ct_queue_is_empty (mq_queue q))"

definition ct_msgqueue_is_full :: "ct_msgqueue option \<Rightarrow> bool" where
  "ct_msgqueue_is_full self = (case self of None \<Rightarrow> True | Some q \<Rightarrow> ct_queue_is_full (mq_queue q))"

definition ct_msgqueue_size :: "ct_msgqueue option \<Rightarrow> nat" where
  "ct_msgqueue_size self = (case self of None \<Rightarrow> 0 | Some q \<Rightarrow> q_size (mq_queue q))"

text \<open>The continuation of a waiting call.\<close>

fun mq_resume_call :: "mq_wait \<Rightarrow> errno \<Rightarrow> ct_msgqueue \<Rightarrow> (nat \<Rightarrow> int) \<Rightarrow> mq_section" where
  "mq_resume_call (PushWait x t d u) rc q clk = push_end q x t (d, not_full_after_wait q t d u rc clk)"
| "mq_resume_call (PopWait t d u) rc q clk = pop_end q t (d, not_empty_after_wait q t d u rc clk)"

section \<open>The queue among threads\<close>

datatype mq_op =
  MqPush "u8 list" | MqPop | MqTryPush "u8 list" | MqTryPop | MqPushFor "u8 list" int | MqPopFor int
| MqClose | MqIsEmpty | MqIsFull | MqSize

fun mq_exec :: "mq_op \<Rightarrow> ct_msgqueue \<Rightarrow> (nat \<Rightarrow> int) \<Rightarrow> mq_section" where
  "mq_exec (MqPush x) q clk = ct_msgqueue_push (Some q) (Some x) clk"
| "mq_exec MqPop q clk = ct_msgqueue_pop (Some q) True clk"
| "mq_exec (MqTryPush x) q clk = ct_msgqueue_try_push (Some q) (Some x)"
| "mq_exec MqTryPop q clk = ct_msgqueue_try_pop (Some q) True"
| "mq_exec (MqPushFor x t) q clk = ct_msgqueue_push_for (Some q) (Some x) t clk"
| "mq_exec (MqPopFor t) q clk = ct_msgqueue_pop_for (Some q) True t clk"
| "mq_exec MqClose q clk = ct_msgqueue_close (Some q)"
| "mq_exec MqIsEmpty q clk = Some (Some q, [], Returns (Truth (ct_msgqueue_is_empty (Some q))))"
| "mq_exec MqIsFull q clk = Some (Some q, [], Returns (Truth (ct_msgqueue_is_full (Some q))))"
| "mq_exec MqSize q clk = Some (Some q, [], Returns (Count (ct_msgqueue_size (Some q))))"

text \<open>Callers pass items of the element size.\<close>

fun mq_op_ok :: "nat \<Rightarrow> mq_op \<Rightarrow> bool" where
  "mq_op_ok n (MqPush x) \<longleftrightarrow> length x = n"
| "mq_op_ok n (MqTryPush x) \<longleftrightarrow> length x = n"
| "mq_op_ok n (MqPushFor x t) \<longleftrightarrow> length x = n"
| "mq_op_ok n _ \<longleftrightarrow> True"

definition mq_call :: "(mq_op, ct_msgqueue, mq_cv, mq_wait, mq_result) crit" where
  "mq_call op q clk =
     (if mq_op_ok (q_byte (mq_queue q)) op then map_option (apfst the) (mq_exec op q clk) else None)"

definition mq_resume :: "(mq_wait \<times> errno, ct_msgqueue, mq_cv, mq_wait, mq_result) crit" where
  "mq_resume wrc q clk = map_option (apfst the) (mq_resume_call (fst wrc) (snd wrc) q clk)"

abbreviation "mq_step \<equiv> mon_step mq_call mq_resume mq_cv_of mw_until"

subsection \<open>What sections do\<close>

fun other :: "mq_cv \<Rightarrow> mq_cv" where
  "other Not_full = Not_empty"
| "other Not_empty = Not_full"

text \<open>What the threads behind a condition variable wait for: free slots, or elements.\<close>

fun mq_room :: "mq_cv \<Rightarrow> ct_msgqueue \<Rightarrow> nat" where
  "mq_room Not_full q = q_max (mq_queue q) - q_size (mq_queue q)"
| "mq_room Not_empty q = q_size (mq_queue q)"

text \<open>The item a section tried to push, and the items it added to and took from the queue, as its result
  tells.\<close>

fun mq_offer :: "(mq_op, mq_wait, mq_result) label \<Rightarrow> u8 list option" where
  "mq_offer (Called i (MqPush x) r) = Some x"
| "mq_offer (Called i (MqTryPush x) r) = Some x"
| "mq_offer (Called i (MqPushFor x t) r) = Some x"
| "mq_offer (Resumed i (PushWait x t d u) r) = Some x"
| "mq_offer _ = None"

fun label_out :: "(mq_op, mq_wait, mq_result) label \<Rightarrow> (mq_wait, mq_result) outcome option" where
  "label_out (Called i op out) = Some out"
| "label_out (Resumed i w out) = Some out"
| "label_out Moved = None"

definition accepted :: "(mq_op, mq_wait, mq_result) label \<Rightarrow> u8 list list" where
  "accepted lab = (case label_out lab of
     Some (Returns (Rc E_OK r)) \<Rightarrow> (case mq_offer lab of Some x \<Rightarrow> [x] | None \<Rightarrow> []) | _ \<Rightarrow> [])"

definition delivered :: "(mq_op, mq_wait, mq_result) label \<Rightarrow> u8 list list" where
  "delivered lab = (case label_out lab of Some (Returns (Rc E_OK (Some x))) \<Rightarrow> [x] | _ \<Rightarrow> [])"

fun mw_ok :: "nat \<Rightarrow> mq_wait \<Rightarrow> bool" where
  "mw_ok n (PushWait x t d u) \<longleftrightarrow> length x = n"
| "mw_ok n (PopWait t d u) \<longleftrightarrow> True"

text \<open>A section does one of four things; \<open>was\<close> is the condition variable the thread was woken from, if it was.\<close>

inductive mq_effect ::
  "bool \<Rightarrow> mq_cv option \<Rightarrow> ct_msgqueue \<Rightarrow> ct_msgqueue \<Rightarrow> mq_cv cv_event list \<Rightarrow> (mq_op, mq_wait, mq_result) label \<Rightarrow> bool"
  for early where
  still:
    "\<forall>c. was = Some c \<longrightarrow> mq_room c q = 0 \<or> mq_is_shut q \<Longrightarrow> label_out lab = Some (Returns r) \<Longrightarrow>
     accepted lab = [] \<Longrightarrow> delivered lab = [] \<Longrightarrow> mq_effect early was q q [] lab"
| waits:
    "mq_room c q = 0 \<and> \<not> mq_is_shut q \<or> early \<and> was = None \<and> mw_until w \<noteq> None \<Longrightarrow>
     was = None \<or> was = Some c \<Longrightarrow> label_out lab = Some (Sleeps w) \<Longrightarrow> mq_cv_of w = c \<Longrightarrow> mw_ok (q_byte (mq_queue q)) w \<Longrightarrow> mq_effect early was q q [] lab"
| moves:
    "\<not> mq_is_shut q \<Longrightarrow> \<not> mq_is_shut q' \<Longrightarrow> was = None \<or> was = Some c \<Longrightarrow> queue_ok (mq_queue q') \<Longrightarrow>
     q_max (mq_queue q') = q_max (mq_queue q) \<Longrightarrow> q_byte (mq_queue q') = q_byte (mq_queue q) \<Longrightarrow>
     mq_room c q = Suc (mq_room c q') \<Longrightarrow> mq_room (other c) q' = Suc (mq_room (other c) q) \<Longrightarrow>
     queue_list (mq_queue q) @ accepted lab = delivered lab @ queue_list (mq_queue q') \<Longrightarrow>
     label_out lab = Some (Returns r) \<Longrightarrow> mq_effect early was q q' [Signal (other c)] lab"
| shuts:
    "was = None \<Longrightarrow> \<not> mq_is_shut q \<Longrightarrow> label_out lab = Some (Returns r) \<Longrightarrow> accepted lab = [] \<Longrightarrow> delivered lab = [] \<Longrightarrow>
     mq_effect early was q (q\<lparr>mq_is_shut := True\<rparr>) [Broadcast Not_empty, Broadcast Not_full] lab"

text \<open>What the wait functions promise their callers.\<close>

definition wait_ok :: "bool \<Rightarrow> mq_cv option \<Rightarrow> mq_cv \<Rightarrow> ct_msgqueue \<Rightarrow> (int option, errno) outcome \<Rightarrow> bool" where
  "wait_ok early was c q out \<longleftrightarrow> (case out of
     Sleeps u \<Rightarrow> mq_room c q = 0 \<and> \<not> mq_is_shut q \<or> early \<and> was = None \<and> u \<noteq> None
   | Returns rc \<Rightarrow>
       if rc = E_OK then 0 < mq_room c q \<and> \<not> mq_is_shut q
       else was = Some c \<longrightarrow> mq_room c q = 0 \<or> mq_is_shut q)"

lemma full_room: "queue_ok (mq_queue q) \<Longrightarrow> ct_queue_is_full (mq_queue q) \<longleftrightarrow> mq_room Not_full q = 0"
  by (auto simp: ct_queue_is_full_def queue_ok_def)

lemma empty_room: "ct_queue_is_empty (mq_queue q) \<longleftrightarrow> mq_room Not_empty q = 0"
  by (simp add: ct_queue_is_empty_def)

lemma wait_for_ok: "mq_room c q = 0 \<Longrightarrow> \<not> mq_is_shut q \<Longrightarrow> wait_ok early was c q (ct_cond_wait_for t clk)"
  using cond_wait_for_returns [of t clk] by (cases "ct_cond_wait_for t clk") (auto simp: wait_ok_def)

lemma not_full_turn_ok: "queue_ok (mq_queue q) \<Longrightarrow> wait_ok early was Not_full q (not_full_turn q t d clk)"
  using full_room [of q] wait_for_ok [of Not_full q early was]
  by (simp add: not_full_turn_def Let_def) (auto simp: wait_ok_def)

lemma not_empty_turn_ok: "wait_ok early was Not_empty q (not_empty_turn q t d clk)"
  using empty_room [of q] wait_for_ok [of Not_empty q early was]
  by (simp add: not_empty_turn_def Let_def) (auto simp: wait_ok_def)

text \<open>Entering the functions, being woken, and seeing the wait elapse.\<close>

lemma wait_entry_ok:
  "queue_ok (mq_queue q) \<Longrightarrow> msgqueue_wait_not_full q t clk = Some dout \<Longrightarrow> wait_ok early was Not_full q (snd dout)"
  "msgqueue_wait_not_empty q t clk = Some dout \<Longrightarrow> wait_ok early was Not_empty q (snd dout)"
  using not_full_turn_ok not_empty_turn_ok
  by (auto simp: msgqueue_wait_not_full_def msgqueue_wait_not_empty_def split: if_splits bind_splits)

lemma woken_ok:
  "queue_ok (mq_queue q) \<Longrightarrow> wait_ok early was Not_full q (not_full_after_wait q t d u E_OK clk)"
  "wait_ok early was Not_empty q (not_empty_after_wait q t d u E_OK clk)"
  using not_full_turn_ok not_empty_turn_ok by (auto simp: not_full_after_wait_def not_empty_after_wait_def)

lemma elapsed_ok:
  assumes "early \<or> e \<le> clk 0"
  shows "wait_ok early None Not_full q (not_full_after_wait q t d (Some e) ETIMEDOUT clk)"
    and "wait_ok early None Not_empty q (not_empty_after_wait q t d (Some e) ETIMEDOUT clk)"
  using cond_wait_result_elapsed [of e clk] cond_wait_turn_cases [of e "clk 0"] assms
  by (auto simp: not_full_after_wait_def not_empty_after_wait_def wait_ok_def cond_wait_result_def)

lemma push_moves:
  assumes "queue_ok (mq_queue q)" "length x = q_byte (mq_queue q)" "0 < mq_room Not_full q" "\<not> mq_is_shut q"
    and "was = None \<or> was = Some Not_full" and "mq_offer lab = Some x"
    and lab: "label_out lab = Some (Returns (Rc E_OK None))"
  shows "\<exists>b q'. ct_queue_enqueue (mq_queue q) (Some x) = Some (b, q') \<and>
    mq_effect early was q (q\<lparr>mq_queue := q'\<rparr>) [Signal Not_empty] lab"
proof -
  obtain q' where q': "ct_queue_enqueue (mq_queue q) (Some x) = Some (True, q')" "queue_ok q'"
    "queue_list q' = queue_list (mq_queue q) @ [x]" "q_max q' = q_max (mq_queue q)" "q_byte q' = q_byte (mq_queue q)"
    using enqueue_room [of "mq_queue q" x] assms(1-3) by auto
  then have "q_size q' = Suc (q_size (mq_queue q))" using length_queue_list [of q'] by simp
  moreover have "accepted lab = [x]" "delivered lab = []" using assms(6) lab by (simp_all add: accepted_def delivered_def)
  ultimately have "mq_effect early was q (q\<lparr>mq_queue := q'\<rparr>) [Signal (other Not_full)] lab"
    using assms q' by (intro moves) auto
  then show ?thesis using q' by auto
qed

lemma pop_moves:
  assumes "queue_ok (mq_queue q)" "0 < mq_room Not_empty q" "\<not> mq_is_shut q"
    and "was = None \<or> was = Some Not_empty" and "mq_offer lab = None"
  shows "\<exists>b x q'. ct_queue_dequeue (mq_queue q) True = Some (b, Some x, q') \<and>
    (label_out lab = Some (Returns (Rc E_OK (Some x))) \<longrightarrow> mq_effect early was q (q\<lparr>mq_queue := q'\<rparr>) [Signal Not_full] lab)"
proof -
  obtain x xs where xs: "queue_list (mq_queue q) = x # xs"
    using assms(2) length_queue_list [of "mq_queue q"] by (cases "queue_list (mq_queue q)") auto
  obtain q' where q': "ct_queue_dequeue (mq_queue q) True = Some (True, Some x, q')" "queue_ok q'"
    "queue_list q' = xs" "q_max q' = q_max (mq_queue q)" "q_byte q' = q_byte (mq_queue q)"
    using dequeue_Cons(1) [OF assms(1) xs] by auto
  have s: "q_size (mq_queue q) = Suc (q_size q')"
    using length_queue_list [of q'] length_queue_list [of "mq_queue q"] q'(3) xs by simp
  have m: "q_size (mq_queue q) \<le> q_max (mq_queue q)" using assms(1) by (simp add: queue_ok_def)
  have "mq_effect early was q (q\<lparr>mq_queue := q'\<rparr>) [Signal (other Not_empty)] lab"
    if lab: "label_out lab = Some (Returns (Rc E_OK (Some x)))"
  proof -
    have "accepted lab = []" "delivered lab = [x]" using assms(5) lab by (simp_all add: accepted_def delivered_def)
    then show ?thesis using assms q' xs s m lab by (intro moves) auto
  qed
  then show ?thesis using q' by auto
qed

text \<open>A push or pop that got through its wait.\<close>

lemma push_end_effect:
  assumes "queue_ok (mq_queue q)" "length x = q_byte (mq_queue q)" "wait_ok early was Not_full q (snd dout)"
    and "was = None \<or> was = Some Not_full"
  shows "\<exists>q' evs out. push_end q x t dout = Some (Some q', evs, out) \<and>
    (mq_offer lab = Some x \<and> label_out lab = Some out \<longrightarrow> mq_effect early was q q' evs lab)"
proof (cases "snd dout")
  case (Sleeps u)
  then have "mq_effect early was q q [] lab" if "label_out lab = Some (Sleeps (PushWait x t (fst dout) u))"
    using assms that by (intro waits [where c = Not_full]) (auto simp: wait_ok_def)
  with Sleeps show ?thesis by (auto simp: push_end_def)
next
  case (Returns rc)
  show ?thesis
  proof (cases "rc = E_OK")
    case True
    obtain b q' where b: "ct_queue_enqueue (mq_queue q) (Some x) = Some (b, q')"
      using enqueue_room [of "mq_queue q" x] assms(1,2,3) Returns True by (auto simp: wait_ok_def)
    moreover have "mq_effect early was q (q\<lparr>mq_queue := q'\<rparr>) [Signal Not_empty] lab"
      if "mq_offer lab = Some x" "label_out lab = Some (Returns (Rc E_OK None))"
      using push_moves [where lab = lab and early = early and was = was, of q x] assms Returns True that b by (auto simp: wait_ok_def)
    ultimately show ?thesis using Returns True by (auto simp: push_end_def)
  next
    case False
    then have "mq_effect early was q q [] lab" if "label_out lab = Some (Returns (Rc rc None))"
      using assms(3,4) that Returns
      by (intro still) (auto simp: wait_ok_def accepted_def delivered_def split: errno.split)
    with Returns False show ?thesis by (auto simp: push_end_def)
  qed
qed

lemma pop_end_effect:
  assumes "queue_ok (mq_queue q)" "wait_ok early was Not_empty q (snd dout)" and "was = None \<or> was = Some Not_empty"
  shows "\<exists>q' evs out. pop_end q t dout = Some (Some q', evs, out) \<and>
    (mq_offer lab = None \<and> label_out lab = Some out \<longrightarrow> mq_effect early was q q' evs lab)"
proof (cases "snd dout")
  case (Sleeps u)
  then have "mq_effect early was q q [] lab" if "label_out lab = Some (Sleeps (PopWait t (fst dout) u))"
    using assms that by (intro waits [where c = Not_empty]) (auto simp: wait_ok_def)
  with Sleeps show ?thesis by (auto simp: pop_end_def)
next
  case (Returns rc)
  show ?thesis
  proof (cases "rc = E_OK")
    case True
    obtain x xs where xs: "queue_list (mq_queue q) = x # xs"
      using assms(2) Returns True length_queue_list [of "mq_queue q"]
      by (cases "queue_list (mq_queue q)") (auto simp: wait_ok_def)
    obtain b y q' where b: "ct_queue_dequeue (mq_queue q) True = Some (b, Some y, q')"
      using dequeue_Cons(1) [OF assms(1) xs] by auto
    moreover have "mq_effect early was q (q\<lparr>mq_queue := q'\<rparr>) [Signal Not_full] lab"
      if "mq_offer lab = None" "label_out lab = Some (Returns (Rc E_OK (Some y)))"
      using pop_moves [where lab = lab and early = early and was = was, of q] assms Returns True that b by (auto simp: wait_ok_def)
    ultimately show ?thesis using Returns True by (auto simp: pop_end_def)
  next
    case False
    then have "mq_effect early was q q [] lab" if "label_out lab = Some (Returns (Rc rc None))"
      using assms(2,3) that Returns
      by (intro still) (auto simp: wait_ok_def accepted_def delivered_def split: errno.split)
    with Returns False show ?thesis by (auto simp: pop_end_def)
  qed
qed

text \<open>The calls.  A push (pop) without time limit is one with a negative time limit.\<close>

lemma push_is_push_for: "ct_msgqueue_push self item clk = ct_msgqueue_push_for self item (-1) clk"
  and pop_is_pop_for: "ct_msgqueue_pop self dst clk = ct_msgqueue_pop_for self dst (-1) clk"
  by (simp_all add: ct_msgqueue_push_def ct_msgqueue_push_for_def ct_msgqueue_pop_def ct_msgqueue_pop_for_def)

lemma still_None:
  "label_out lab = Some (Returns r) \<Longrightarrow> (\<And>x. r \<noteq> Rc E_OK x) \<Longrightarrow> mq_effect early None q q [] lab"
  by (intro still) (auto simp: accepted_def delivered_def split: mq_result.split errno.split)

lemma push_for_effect:
  assumes ok: "queue_ok (mq_queue q)" "length x = q_byte (mq_queue q)"
    and push: "ct_msgqueue_push_for (Some q) (Some x) t clk = Some (r, evs, out)"
    and lab: "mq_offer lab = Some x" "label_out lab = Some out"
  shows "mq_effect early None q (the r) evs lab"
proof (cases "mq_is_shut q")
  case True
  then show ?thesis using push lab by (auto simp: ct_msgqueue_push_for_def intro: still_None)
next
  case False
  then obtain dout where d: "msgqueue_wait_not_full q t clk = Some dout" "push_end q x t dout = Some (r, evs, out)"
    using push by (auto simp: ct_msgqueue_push_for_def split: bind_splits)
  with push_end_effect [OF ok wait_entry_ok(1) [OF ok(1) d(1)], where was = None and t = t and lab = lab and early = early] lab show ?thesis by auto
qed

lemma pop_for_effect:
  assumes ok: "queue_ok (mq_queue q)"
    and pop: "ct_msgqueue_pop_for (Some q) True t clk = Some (r, evs, out)"
    and lab: "mq_offer lab = None" "label_out lab = Some out"
  shows "mq_effect early None q (the r) evs lab"
proof (cases "mq_is_shut q")
  case True
  then show ?thesis using pop lab by (auto simp: ct_msgqueue_pop_for_def intro: still_None)
next
  case False
  then obtain dout where d: "msgqueue_wait_not_empty q t clk = Some dout" "pop_end q t dout = Some (r, evs, out)"
    using pop by (auto simp: ct_msgqueue_pop_for_def split: bind_splits)
  with pop_end_effect [OF ok wait_entry_ok(2) [OF d(1)], where was = None and t = t and lab = lab and early = early] lab show ?thesis by auto
qed

lemma try_push_effect:
  assumes ok: "queue_ok (mq_queue q)" "length x = q_byte (mq_queue q)"
    and push: "ct_msgqueue_try_push (Some q) (Some x) = Some (r, evs, out)"
    and lab: "mq_offer lab = Some x" "label_out lab = Some out"
  shows "mq_effect early None q (the r) evs lab"
proof (cases "mq_is_shut q \<or> ct_queue_is_full (mq_queue q)")
  case True
  then show ?thesis using push lab by (auto simp: ct_msgqueue_try_push_def intro: still_None split: if_splits)
next
  case False
  then have room: "0 < mq_room Not_full q" using full_room [OF ok(1)] by simp
  obtain b q' where b: "ct_queue_enqueue (mq_queue q) (Some x) = Some (b, q')"
    using enqueue_room [of "mq_queue q" x] ok room by auto
  with False push have "r = Some (q\<lparr>mq_queue := q'\<rparr>)" "evs = [Signal Not_empty]" "out = Returns (Rc E_OK None)"
    by (auto simp: ct_msgqueue_try_push_def)
  with push_moves [where lab = lab and early = early and was = None, of q x] ok room False lab b show ?thesis by auto
qed

lemma try_pop_effect:
  assumes ok: "queue_ok (mq_queue q)"
    and pop: "ct_msgqueue_try_pop (Some q) True = Some (r, evs, out)"
    and lab: "mq_offer lab = None" "label_out lab = Some out"
  shows "mq_effect early None q (the r) evs lab"
proof (cases "mq_is_shut q \<or> ct_queue_is_empty (mq_queue q)")
  case True
  then show ?thesis using pop lab by (auto simp: ct_msgqueue_try_pop_def intro: still_None split: if_splits)
next
  case False
  then have room: "0 < mq_room Not_empty q" using empty_room [of q] by simp
  obtain b x q' where b: "ct_queue_dequeue (mq_queue q) True = Some (b, Some x, q')"
    "label_out lab = Some (Returns (Rc E_OK (Some x))) \<longrightarrow> mq_effect early None q (q\<lparr>mq_queue := q'\<rparr>) [Signal Not_full] lab"
    using pop_moves [OF ok room _ _ lab(1), of None early] False by auto
  with False pop have "r = Some (q\<lparr>mq_queue := q'\<rparr>)" "evs = [Signal Not_full]" "out = Returns (Rc E_OK (Some x))"
    by (auto simp: ct_msgqueue_try_pop_def)
  with b lab show ?thesis by auto
qed

text \<open>Every section any thread may run.\<close>

lemma call_effect:
  assumes ok: "queue_ok (mq_queue q)" and call: "mq_call op q clk = Some (q', evs, out)"
  shows "mq_effect early None q q' evs (Called i op out)"
proof -
  obtain r where op: "mq_op_ok (q_byte (mq_queue q)) op" and ex: "mq_exec op q clk = Some (r, evs, out)" "q' = the r"
    using call by (auto simp: mq_call_def split: if_splits)
  have query: "mq_effect early None q q [] (Called i op out)" if "out = Returns r" "\<And>x. r \<noteq> Rc E_OK x" for r
    using that by (intro still_None) auto
  have close: "mq_effect early None q (q\<lparr>mq_is_shut := True\<rparr>) [Broadcast Not_empty, Broadcast Not_full] (Called i op out)"
    if "out = Returns Unit" "\<not> mq_is_shut q"
    using that by (intro shuts) (auto simp: accepted_def delivered_def)
  show ?thesis
  proof (cases op)
    case (MqPush x)
    with push_for_effect [OF ok, of x "-1" clk r evs out "Called i op out" early] op ex show ?thesis
      by (simp add: push_is_push_for)
  next
    case MqPop
    with pop_for_effect [OF ok, of "-1" clk r evs out "Called i op out" early] ex show ?thesis by (simp add: pop_is_pop_for)
  next
    case (MqTryPush x)
    with try_push_effect [OF ok, of x r evs out "Called i op out" early] op ex show ?thesis by simp
  next
    case MqTryPop
    with try_pop_effect [OF ok, of r evs out "Called i op out" early] ex show ?thesis by simp
  next
    case (MqPushFor x t)
    with push_for_effect [OF ok, of x t clk r evs out "Called i op out" early] op ex show ?thesis by simp
  next
    case (MqPopFor t)
    with pop_for_effect [OF ok, of t clk r evs out "Called i op out" early] ex show ?thesis by simp
  next
    case MqClose
    with ex query close show ?thesis by (cases "mq_is_shut q") (auto simp: ct_msgqueue_close_def)
  qed (use ex query in auto)
qed

lemma resume_effect:
  assumes ok: "queue_ok (mq_queue q)" "mw_ok (q_byte (mq_queue q)) w"
    and rc: "rc = E_OK \<and> was = Some (mq_cv_of w) \<or>
      rc = ETIMEDOUT \<and> was = None \<and> (\<exists>d. mw_until w = Some d \<and> (early \<or> d \<le> clk 0))"
  shows "\<exists>q' evs out. mq_resume (w, rc) q clk = Some (q', evs, out) \<and> mq_effect early was q q' evs (Resumed i w out)"
proof (cases w)
  case (PushWait x t d u)
  let ?out = "not_full_after_wait q t d u rc clk"
  have was: "was = None \<or> was = Some Not_full" using rc PushWait by auto
  have "wait_ok early was Not_full q ?out" using rc woken_ok(1) [OF ok(1)] elapsed_ok(1) [where clk = clk and q = q and t = t and d = d and early = early] PushWait by auto
  then have e: "\<exists>q' evs out. push_end q x t (d, ?out) = Some (Some q', evs, out) \<and>
      (mq_offer lab = Some x \<and> label_out lab = Some out \<longrightarrow> mq_effect early was q q' evs lab)" for lab
    using push_end_effect [of q x early was "(d, ?out)" t lab] ok PushWait was by simp
  obtain q' evs out where q': "push_end q x t (d, ?out) = Some (Some q', evs, out)" using e by blast
  with e [of "Resumed i w out"] PushWait show ?thesis by (simp add: mq_resume_def)
next
  case (PopWait t d u)
  let ?out = "not_empty_after_wait q t d u rc clk"
  have was: "was = None \<or> was = Some Not_empty" using rc PopWait by auto
  have "wait_ok early was Not_empty q ?out" using rc woken_ok(2) elapsed_ok(2) [where clk = clk and q = q and t = t and d = d and early = early] PopWait by auto
  then have e: "\<exists>q' evs out. pop_end q t (d, ?out) = Some (Some q', evs, out) \<and>
      (mq_offer lab = None \<and> label_out lab = Some out \<longrightarrow> mq_effect early was q q' evs lab)" for lab
    using pop_end_effect [of q early was "(d, ?out)" t lab] ok(1) was by simp
  obtain q' evs out where q': "pop_end q t (d, ?out) = Some (Some q', evs, out)" using e by blast
  with e [of "Resumed i w out"] PopWait show ?thesis by (simp add: mq_resume_def)
qed


subsection \<open>The invariant\<close>

text \<open>Waits are for items of the element size, and a wait that elapsed had reached its deadline.\<close>

fun mq_local :: "bool \<Rightarrow> nat \<Rightarrow> int \<Rightarrow> (mq_wait, mq_result) thread \<Rightarrow> bool" where
  "mq_local early n now (Asleep w) \<longleftrightarrow> mw_ok n w"
| "mq_local early n now (Woken w) \<longleftrightarrow> mw_ok n w"
| "mq_local early n now (Elapsed w) \<longleftrightarrow> mw_ok n w \<and> (\<exists>d. mw_until w = Some d \<and> (early \<or> d \<le> now))"
| "mq_local early n now _ \<longleftrightarrow> True"

text \<open>The threads whose sleep must be justified: all, or, where the system call may end a timed wait early,
  those that wait without a time limit.\<close>

fun firm :: "bool \<Rightarrow> mq_cv \<Rightarrow> (mq_wait, mq_result) thread \<Rightarrow> bool" where
  "firm early c (Asleep w) \<longleftrightarrow> mq_cv_of w = c \<and> (early \<longrightarrow> mw_until w = None)"
| "firm early c _ \<longleftrightarrow> False"

text \<open>If such a thread sleeps, the queue is open and there is at least one woken thread for each free slot
  (element) he could have: no wake-up was lost.\<close>

definition mq_inv :: "bool \<Rightarrow> nat \<Rightarrow> nat \<Rightarrow> ct_msgqueue \<Rightarrow> (mq_wait, mq_result) thread list \<Rightarrow> int \<Rightarrow> bool" where
  "mq_inv early n m q ps now \<longleftrightarrow>
     queue_ok (mq_queue q) \<and> q_byte (mq_queue q) = n \<and> q_max (mq_queue q) = m \<and> (\<forall>p \<in> set ps. mq_local early n now p) \<and>
     (\<forall>p \<in> set ps. \<forall>c. firm early c p \<longrightarrow> \<not> mq_is_shut q \<and> mq_room c q \<le> woken mq_cv_of c ps)"

definition mq_calm :: "bool \<Rightarrow> ct_msgqueue \<Rightarrow> (mq_wait, mq_result) thread list \<Rightarrow> bool" where
  "mq_calm early q ps \<longleftrightarrow> (\<forall>w. Asleep w \<in> set ps \<and> (early \<longrightarrow> mw_until w = None) \<longrightarrow> \<not> mq_is_shut q \<and>
     (case w of PushWait x t d u \<Rightarrow> ct_queue_is_full (mq_queue q) | PopWait t d u \<Rightarrow> ct_queue_is_empty (mq_queue q)))"

lemma firm_sleeps: "firm early c p \<Longrightarrow> sleeps_on mq_cv_of c p"
  by (cases p) auto

lemma firm_before:
  assumes "wakes_all mq_cv_of evs ps ps'" and p: "p \<in> set ps'" "firm early c p"
  shows "p \<in> set ps"
proof -
  obtain i where "i < length ps" "p = ps' ! i"
    using wakes_all_nth [OF assms(1)] p(1) by (auto simp: in_set_conv_nth)
  with wakes_all_nth [OF assms(1)] p(2) show ?thesis by (metis firm.simps(3) nth_mem)
qed

lemma mq_local_mono: "mq_local early n now p \<Longrightarrow> now \<le> now' \<Longrightarrow> mq_local early n now' p"
  by (cases p) auto

lemma mq_inv_local: "mq_inv early n m q ps now \<Longrightarrow> i < length ps \<Longrightarrow> mq_local early n now (ps ! i)"
  by (simp add: mq_inv_def)

fun was_of :: "(mq_wait, mq_result) thread \<Rightarrow> mq_cv option" where
  "was_of (Woken w) = Some (mq_cv_of w)"
| "was_of _ = None"

lemma was_of_woken: "was_of p = Some c \<longleftrightarrow> woken_from mq_cv_of c p"
  by (cases p) auto

lemma other_cases: "d = c \<or> d = other c" by (cases c; cases d) auto

lemma other_neq [simp]: "other c \<noteq> c" "c \<noteq> other c" by (cases c; simp)+

lemma effect_counts:
  assumes inv: "\<forall>p \<in> set ps. \<forall>c. firm early c p \<longrightarrow> \<not> mq_is_shut q \<and> mq_room c q \<le> woken mq_cv_of c ps"
    and i: "i < length ps" "\<And>c. \<not> sleeps_on mq_cv_of c (ps ! i)"
    and eff: "mq_effect early (was_of (ps ! i)) q q' evs lab" and lab: "label_out lab = Some out"
    and wakes: "wakes_all mq_cv_of evs (ps[i := thread_after out]) ps'"
    and p: "p \<in> set ps'" "firm early c p"
  shows "\<not> mq_is_shut q' \<and> mq_room c q' \<le> woken mq_cv_of c ps'"
proof -
  have "p \<in> set (ps[i := thread_after out])" by (rule firm_before [OF wakes p])
  then have "p = thread_after out \<or> p \<in> set ps" using set_update_subset_insert [of ps i "thread_after out"] by blast
  with inv p(2) have old: "p = thread_after out \<or> \<not> mq_is_shut q \<and> mq_room c q \<le> woken mq_cv_of c ps" by blast
  show ?thesis
    using eff
  proof (cases rule: mq_effect.cases)
    case (still r)
    then have "ps' = ps[i := Returned r]" using wakes lab by simp
    with section_counts(2) [OF i, of c "Returns r"] old p(2) still lab show ?thesis
      by (auto simp flip: was_of_woken split: if_splits)
  next
    case (waits d w)
    then have "ps' = ps[i := Asleep w]" using wakes lab by simp
    with section_counts(2) [OF i, of c "Sleeps w"] old p(2) waits lab show ?thesis
      by (cases "c = d") (auto simp flip: was_of_woken split: if_splits)
  next
    case (moves d r)
    then have w: "wakes mq_cv_of (Signal (other d)) (ps[i := Returned r]) ps'" using wakes lab by simp
    have old: "\<not> mq_is_shut q \<and> mq_room c q \<le> woken mq_cv_of c ps" using old p(2) lab moves by auto
    note s = section_counts(2) [OF i, where out = "Returns r"]
    show ?thesis
    proof (cases "c = d")
      case True
      with signal_counts(3) [OF w, of d] s [of d] old moves show ?thesis
        by (auto simp flip: was_of_woken split: if_splits)
    next
      case False
      then have "c = other d" using other_cases [of c d] by simp
      moreover have "0 < sleeping mq_cv_of c ps'"
        using tally_eq_0 [of "sleeps_on mq_cv_of c" ps'] p firm_sleeps by blast
      ultimately show ?thesis using signal_counts(2) [OF w] s [of c] old moves
        by (auto simp flip: was_of_woken split: if_splits)
    qed
  next
    case (shuts r)
    then obtain qs where w: "wakes mq_cv_of (Broadcast Not_empty) (ps[i := Returned r]) qs"
      "wakes mq_cv_of (Broadcast Not_full) qs ps'" using wakes lab by auto
    then have "sleeping mq_cv_of c ps' = 0"
      using broadcast_counts(2) [OF w(1)] broadcast_counts(2,3) [OF w(2)] by (cases c) auto
    then have False using tally_eq_0 [of "sleeps_on mq_cv_of c" ps'] p firm_sleeps by blast
    then show ?thesis ..
  qed
qed

lemma effect_inv:
  assumes inv: "mq_inv early n m q ps now" and i: "i < length ps" "\<And>c. \<not> sleeps_on mq_cv_of c (ps ! i)"
    and eff: "mq_effect early (was_of (ps ! i)) q q' evs lab" and lab: "label_out lab = Some out"
    and wakes: "wakes_all mq_cv_of evs (ps[i := thread_after out]) ps'" and now: "now \<le> now'"
  shows "mq_inv early n m q' ps' now'"
proof -
  have q': "queue_ok (mq_queue q') \<and> q_byte (mq_queue q') = n \<and> q_max (mq_queue q') = m"
    using eff inv by cases (auto simp: mq_inv_def)
  have "mq_local early n now' (thread_after out)"
    using eff inv lab by cases (auto simp: mq_inv_def)
  moreover have "\<forall>p \<in> set ps. mq_local early n now' p"
    using inv mq_local_mono now by (auto simp: mq_inv_def)
  ultimately have "\<forall>p \<in> set (ps[i := thread_after out]). mq_local early n now' p" by (intro update_local) auto
  from wakes_all_local [OF wakes this] have "\<forall>p \<in> set ps'. mq_local early n now' p" by simp
  moreover have "\<forall>p \<in> set ps'. \<forall>c. firm early c p \<longrightarrow> \<not> mq_is_shut q' \<and> mq_room c q' \<le> woken mq_cv_of c ps'"
    using effect_counts [OF _ i eff lab wakes] inv unfolding mq_inv_def by blast
  ultimately show ?thesis using q' by (simp add: mq_inv_def)
qed

text \<open>What a step is, in terms of the four effects; the moves of the environment keep the state.\<close>

lemma effect_events: "mq_effect early was q q' evs lab \<Longrightarrow> label_out lab = Some out \<Longrightarrow> evs = [] \<or> (\<exists>r. out = Returns r)"
  by (erule mq_effect.cases) auto

lemma mq_step_cases:
  assumes step: "mq_step early (q, ps, now) lab (q', ps', now')" and inv: "mq_inv early n m q ps now"
  shows "(\<exists>i evs out. i < length ps \<and> (\<forall>c. \<not> sleeps_on mq_cv_of c (ps ! i)) \<and> label_out lab = Some out \<and>
      mq_effect early (was_of (ps ! i)) q q' evs lab \<and> wakes_all mq_cv_of evs (ps[i := thread_after out]) ps' \<and> now \<le> now') \<or>
    lab = Moved \<and> q' = q"
proof -
  have ok: "queue_ok (mq_queue q)" "q_byte (mq_queue q) = n" using inv by (simp_all add: mq_inv_def)
  have sec: ?thesis
    if "i < length ps" "\<not> asleep (ps ! i)" "label_out lab = Some out" "mq_effect early (was_of (ps ! i)) q q' evs lab"
      "wakes_all mq_cv_of evs ps qs" "ps' = qs[i := thread_after out]" "now \<le> now'" for i out evs qs
  proof -
    have "wakes_all mq_cv_of evs (ps[i := thread_after out]) ps'"
      using wakes_all_end [OF that(5,1,2) effect_events [OF that(4,3)]] that(6) by simp
    with that asleep_sleeps_on(1) [OF that(2)] show ?thesis by (intro disjI1 exI conjI allI)
  qed
  show ?thesis
    using step
  proof (cases rule: mon_step.cases)
    case (step_call i clk op evs out qs)
    then show ?thesis using sec [of i out evs qs] call_effect [OF ok(1)] clock_readsD(3) by auto
  next
    case (step_woken i w clk evs out qs)
    moreover have "mq_effect early (Some (mq_cv_of w)) q q' evs (Resumed i w out)"
      using resume_effect [of q w E_OK "Some (mq_cv_of w)" early clk i] mq_inv_local [OF inv, of i] step_woken ok by auto
    ultimately show ?thesis using sec [of i out evs qs] clock_readsD(3) by auto
  next
    case (step_elapsed i w clk evs out qs)
    moreover have "mq_effect early None q q' evs (Resumed i w out)"
      using resume_effect [of q w ETIMEDOUT None early clk i] mq_inv_local [OF inv, of i] step_elapsed ok
        clock_readsD(1) [of now clk now' 0] by fastforce
    ultimately show ?thesis using sec [of i out evs qs] clock_readsD(3) by auto
  qed auto
qed

lemma moved_inv:
  assumes step: "mq_step early (q, ps, now) Moved (q', ps', now')" and inv: "mq_inv early n m q ps now"
  shows "mq_inv early n m q' ps' now'"
proof -
  have upd: "mq_inv early n m q (ps[i := p]) now"
    if i: "i < length ps" and p: "mq_local early n now p" and f: "\<And>c. \<not> firm early c p"
      and w: "\<And>c. woken_from mq_cv_of c (ps ! i) \<longrightarrow> woken_from mq_cv_of c p" for i p
  proof -
    have more: "woken mq_cv_of c ps \<le> woken mq_cv_of c (ps[i := p])" for c
      using tally_update [OF i, of "woken_from mq_cv_of c" p] w [of c] by (auto split: if_splits)
    have "\<not> mq_is_shut q \<and> mq_room c q \<le> woken mq_cv_of c (ps[i := p])" if "x \<in> set (ps[i := p])" "firm early c x" for x c
    proof -
      have "x \<in> set ps" using that f set_update_subset_insert [of ps i p] by blast
      then show ?thesis using inv that(2) more [of c] unfolding mq_inv_def by (meson le_trans)
    qed
    then show ?thesis using inv update_local [of ps "mq_local early n now" p i] p unfolding mq_inv_def by blast
  qed
  show ?thesis
    using step
  proof (cases rule: mon_step.cases)
    case (step_spurious i w)
    then show ?thesis using upd [of i "Woken w"] mq_inv_local [OF inv, of i] by auto
  next
    case (step_elapse i w d)
    then show ?thesis using upd [of i "Elapsed w"] mq_inv_local [OF inv, of i] by auto
  next
    case step_tick
    then show ?thesis using inv mq_local_mono by (auto simp: mq_inv_def)
  next
    case (step_return i r)
    then show ?thesis using upd [of i Idle] by auto
  qed
qed

lemma mq_step_inv:
  assumes inv: "mq_inv early n m q ps now" and step: "mq_step early (q, ps, now) lab (q', ps', now')"
  shows "mq_inv early n m q' ps' now'"
  using mq_step_cases [OF step inv]
proof
  assume "lab = Moved \<and> q' = q"
  with moved_inv step inv show ?thesis by blast
next
  assume "\<exists>i evs out. i < length ps \<and> (\<forall>c. \<not> sleeps_on mq_cv_of c (ps ! i)) \<and> label_out lab = Some out \<and>
      mq_effect early (was_of (ps ! i)) q q' evs lab \<and> wakes_all mq_cv_of evs (ps[i := thread_after out]) ps' \<and> now \<le> now'"
  then show ?thesis using effect_inv [OF inv] by blast
qed

lemma mq_resume_defined:
  assumes inv: "mq_inv early n m q ps now" and i: "i < length ps"
    and rc: "ps ! i = Woken w \<and> rc = E_OK \<or> ps ! i = Elapsed w \<and> rc = ETIMEDOUT"
  shows "mq_resume (w, rc) q (\<lambda>_. now) \<noteq> None"
proof -
  have "mq_local early n now (ps ! i)" "queue_ok (mq_queue q)" "q_byte (mq_queue q) = n"
    using inv mq_inv_local [OF inv i] by (simp_all add: mq_inv_def)
  with rc resume_effect [of q w rc "if rc = E_OK then Some (mq_cv_of w) else None" early "\<lambda>_. now" i]
  show ?thesis by auto
qed

lemma mq_resume_events:
  "mq_resume (w, rc) q clk = Some (q', evs, out) \<Longrightarrow> evs = [] \<or> (\<exists>r c. out = Returns r \<and> evs = [Signal c])"
  by (cases w) (auto simp: mq_resume_def push_end_def pop_end_def split: outcome.splits if_splits bind_splits)

lemma mq_settled_calm:
  assumes inv: "mq_inv early n m q ps now" and "\<forall>p \<in> set ps. \<not> ready p"
  shows "mq_calm early q ps"
  unfolding mq_calm_def
proof (intro allI impI)
  fix w
  assume w: "Asleep w \<in> set ps \<and> (early \<longrightarrow> mw_until w = None)"
  then have "firm early (mq_cv_of w) (Asleep w)" by simp
  then have "\<not> mq_is_shut q \<and> mq_room (mq_cv_of w) q \<le> woken mq_cv_of (mq_cv_of w) ps"
    using inv w unfolding mq_inv_def by blast
  then have "\<not> mq_is_shut q" "mq_room (mq_cv_of w) q = 0"
    using nobody_woken [OF assms(2), of mq_cv_of "mq_cv_of w"] by simp_all
  moreover have "queue_ok (mq_queue q)" using inv by (simp add: mq_inv_def)
  ultimately show "\<not> mq_is_shut q \<and>
      (case w of PushWait x t d u \<Rightarrow> ct_queue_is_full (mq_queue q) | PopWait t d u \<Rightarrow> ct_queue_is_empty (mq_queue q))"
    using full_room [of q] empty_room [of q] by (cases w) simp_all
qed

interpretation mq: monitor mq_call mq_resume mq_cv_of mw_until early "mq_inv early n m" "mq_calm early"
  for early n m
proof (unfold_locales, goal_cases)
  case 1 then show ?case using mq_step_inv by blast
next
  case 2 then show ?case using mq_resume_defined by blast
next
  case 3 then show ?case using mq_resume_events by blast
next
  case 4 then show ?case using mq_settled_calm by blast
qed


section \<open>Any number of threads\<close>

lemma mq_start_inv:
  assumes "ct_msgqueue_init (Some q0) (Some buf) byte n E_OK E_OK E_OK = (E_OK, Some q)" and "n * byte \<le> length buf"
  shows "mq_inv early byte n q (replicate k Idle) now \<and> queue_list (mq_queue q) = []"
proof -
  have "0 < byte" "q = q0\<lparr>mq_queue := ct_queue_init (mq_queue q0) (Some buf) byte n, mq_is_shut := False\<rparr>"
    using assms(1) by (auto simp: ct_msgqueue_init_def Let_def split: if_splits)
  moreover have "tally P (replicate k Idle) = 0" if "\<not> P Idle" for P :: "(mq_wait, mq_result) thread \<Rightarrow> bool"
    using that by (simp add: tally_eq_0)
  ultimately show ?thesis
    using queue_init_ok [of byte n buf "mq_queue q0"] assms(2)
    by (auto simp: mq_inv_def) (simp_all add: ct_queue_init_def ct_queue_clear_def)
qed

lemma step_fifo:
  assumes inv: "mq_inv early n m q ps now" and step: "mq_step early (q, ps, now) lab (q', ps', now')"
  shows "queue_list (mq_queue q) @ accepted lab = delivered lab @ queue_list (mq_queue q')"
  using mq_step_cases [OF step inv]
proof
  assume "lab = Moved \<and> q' = q"
  then show ?thesis by (simp add: accepted_def delivered_def)
next
  assume "\<exists>i evs out. i < length ps \<and> (\<forall>c. \<not> sleeps_on mq_cv_of c (ps ! i)) \<and> label_out lab = Some out \<and>
      mq_effect early (was_of (ps ! i)) q q' evs lab \<and> wakes_all mq_cv_of evs (ps[i := thread_after out]) ps' \<and> now \<le> now'"
  then obtain was evs where "mq_effect early was q q' evs lab" by blast
  then show ?thesis by cases (auto simp: accepted_def delivered_def)
qed

lemma run_fifo:
  assumes "mon_run (mq_step early) s tr t" and "s = (q, ps, now)" "mq_inv early n m q ps now" "t = (q', ps', now')"
  shows "mq_inv early n m q' ps' now' \<and>
    queue_list (mq_queue q) @ concat (map accepted tr) = concat (map delivered tr) @ queue_list (mq_queue q')"
  using assms
proof (induction arbitrary: q' ps' now' rule: mon_run.induct)
  case (run_step s tr t l u)
  obtain qm pm nm where t: "t = (qm, pm, nm)" by (cases t)
  with run_step have m: "mq_inv early n m qm pm nm"
    "queue_list (mq_queue q) @ concat (map accepted tr) = concat (map delivered tr) @ queue_list (mq_queue qm)" by auto
  have st: "mq_step early (qm, pm, nm) l (q', ps', now')" using run_step t by simp
  show ?case
    using mq_step_inv [OF m(1) st] step_fifo [OF m(1) st] arg_cong [OF m(2), of "\<lambda>xs. xs @ accepted l"] by simp
qed auto

text \<open>C36: whatever calls any number of threads make on a message queue, in whatever interleaving of their
  critical sections, time-outs and wake-ups: the items that pushes reported as accepted are, in the order
  in which they were accepted, exactly the items that pops returned followed by those still in the queue,
  of which there are never more than the capacity.  Nothing is lost, duplicated or reordered.
\<close>

theorem msgqueue_fifo:
  assumes "ct_msgqueue_init (Some q0) (Some buf) byte n E_OK E_OK E_OK = (E_OK, Some q)" and "n * byte \<le> length buf"
    and "mon_run (mq_step early) (q, replicate k Idle, now0) tr (q', ps, now)"
  shows "concat (map accepted tr) = concat (map delivered tr) @ queue_list (mq_queue q') \<and>
    length (queue_list (mq_queue q')) \<le> n"
proof -
  have "mq_inv early byte n q (replicate k Idle) now0" "queue_list (mq_queue q) = []"
    using mq_start_inv [OF assms(1,2)] by simp_all
  with run_fifo [OF assms(3) refl _ refl]
  have "mq_inv early byte n q' ps now" "concat (map accepted tr) = concat (map delivered tr) @ queue_list (mq_queue q')"
    by auto
  then show ?thesis by (simp add: mq_inv_def queue_ok_def)
qed

text \<open>A run on a queue with one slot: a push that succeeds, a push that has to wait, a pop that wakes it.\<close>

abbreviation "demo_queue mem k \<equiv>
  \<lparr>mq_queue = \<lparr>q_all = mem, q_byte = 1, q_max = 1, q_head = 0, q_tail = 0, q_size = k\<rparr>, mq_is_shut = False\<rparr>"

abbreviation "demo_wait t d u \<equiv> PushWait [8] t d u"

lemma demo_start:
  "ct_msgqueue_init (Some (demo_queue [] 0)) (Some [0]) 1 1 E_OK E_OK E_OK = (E_OK, Some (demo_queue [0] 0))"
  by code_simp

lemma demo_sections:
  "mq_call (MqPush [7]) (demo_queue [0] 0) (\<lambda>_. 0) = Some (demo_queue [7] 1, [Signal Not_empty], Returns (Rc E_OK None))"
  "mq_call (MqPush [8]) (demo_queue [7] 1) (\<lambda>_. 0) = Some (demo_queue [7] 1, [], Sleeps (demo_wait (-1) 0 None))"
  "mq_call (MqPushFor [8] 5000) (demo_queue [7] 1) (\<lambda>_. 0) =
     Some (demo_queue [7] 1, [], Sleeps (demo_wait 5000 5000 (Some 5000)))"
  "mq_call MqPop (demo_queue [7] 1) (\<lambda>_. 0) = Some (demo_queue [7] 0, [Signal Not_full], Returns (Rc E_OK (Some [7])))"
  "mq_resume (demo_wait (-1) 0 None, E_OK) (demo_queue [7] 0) (\<lambda>_. 0) =
     Some (demo_queue [8] 1, [Signal Not_empty], Returns (Rc E_OK None))"
  "mq_resume (demo_wait 5000 5000 (Some 5000), ETIMEDOUT) (demo_queue [7] 0) (\<lambda>_. 0) =
     Some (demo_queue [7] 0, [], Sleeps (demo_wait 5000 5000 (Some 5000)))"
  by code_simp+


abbreviation "demo_threads \<equiv> [Idle, Idle, Idle] :: (mq_wait, mq_result) thread list"

abbreviation "demo_pushed \<equiv> Returned (Rc E_OK None) :: (mq_wait, mq_result) thread"

abbreviation "demo_popped \<equiv> Returned (Rc E_OK (Some [7])) :: (mq_wait, mq_result) thread"

lemma demo_push:
  "mq_step early (demo_queue [0] 0, demo_threads, 0) (Called 0 (MqPush [7]) (Returns (Rc E_OK None)))
     (demo_queue [7] 1, [demo_pushed, Idle, Idle], 0)"
  by (rule call_now, simp, simp, rule demo_sections(1), simp, rule nobody, simp, simp)

lemma demo_push_waits:
  "mq_step early (demo_queue [7] 1, [demo_pushed, Idle, Idle], 0) (Called 1 (MqPush [8]) (Sleeps (demo_wait (-1) 0 None)))
     (demo_queue [7] 1, [demo_pushed, Asleep (demo_wait (-1) 0 None), Idle], 0)"
  by (rule call_now, simp, simp, rule demo_sections(2), simp, simp)

lemma demo_pop_wakes:
  "mq_step early (demo_queue [7] 1, [demo_pushed, Asleep (demo_wait (-1) 0 None), Idle], 0)
     (Called 2 MqPop (Returns (Rc E_OK (Some [7])))) (demo_queue [7] 0, [demo_pushed, Woken (demo_wait (-1) 0 None), demo_popped], 0)"
proof -
  have "wakes_all mq_cv_of [Signal Not_full] [demo_pushed, Asleep (demo_wait (-1) 0 None), Idle]
      [demo_pushed, Woken (demo_wait (-1) 0 None), Idle]"
    using somebody [of 1 "[demo_pushed, Asleep (demo_wait (-1) 0 None), Idle]" mq_cv_of Not_full] by simp
  then show ?thesis by (rule call_now [rotated 3]) (simp_all add: demo_sections(4) [simplified])
qed

lemma demo_run:
  "mon_run (mq_step early) (demo_queue [0] 0, demo_threads, 0)
     [Called 0 (MqPush [7]) (Returns (Rc E_OK None)), Called 1 (MqPush [8]) (Sleeps (demo_wait (-1) 0 None)),
      Called 2 MqPop (Returns (Rc E_OK (Some [7])))]
     (demo_queue [7] 0, [demo_pushed, Woken (demo_wait (-1) 0 None), demo_popped], 0)"
  by (rule run_Cons, rule demo_push, rule run_Cons, rule demo_push_waits, rule run_Cons, rule demo_pop_wakes, rule run_start)

lemma demo_threads_eq: "demo_threads = replicate 3 Idle"
  by (simp add: numeral_3_eq_3)

theorem msgqueue_fifo_witness:
  "concat (map accepted [Called 0 (MqPush [7]) (Returns (Rc E_OK None)), Called 1 (MqPush [8]) (Sleeps (demo_wait (-1) 0 None)),
      Called 2 MqPop (Returns (Rc E_OK (Some [7])))]) = [[7]] @ queue_list (mq_queue (demo_queue [7] 0))"
  using msgqueue_fifo [OF demo_start _ demo_run [of False, unfolded demo_threads_eq]]
  by (simp add: delivered_def)

text \<open>C37: no wake-up is lost.  From every reachable state of a queue with any number of threads, if only the
  threads that were woken or whose wait elapsed go on: they are never blocked themselves, they finish
  after at most two sections for each thread, and then every thread that still sleeps has to: a sleeping
  push sees a full and open queue, a sleeping pop an empty and open one.  In particular closing the queue
  releases every waiting call.  Where the system call may end a timed wait before its deadline, as the
  fallback of \<open>cond.c\<close> does (\<open>early\<close>), this holds of the calls without a time limit, however they are mixed
  with others; a call with a time limit may then sleep on until its time is over, as the lemma at the end
  of the theory shows.
\<close>

theorem msgqueue_settles:
  assumes "ct_msgqueue_init (Some q0) (Some buf) byte n E_OK E_OK E_OK = (E_OK, Some q)" and "n * byte \<le> length buf"
    and "mon_run (mq_step early) (q, replicate threads Idle, now0) tr (q1, ps1, now1)"
    and "(resume_step (mq_step early) ^^ k) (q1, ps1, now1) (q', ps, now)"
  shows "k \<le> 2 * length ps1 \<and>
    ((\<forall>t. \<not> resume_step (mq_step early) (q', ps, now) t) \<longrightarrow>
      (\<forall>p \<in> set ps. case p of
          Woken w \<Rightarrow> False
        | Elapsed w \<Rightarrow> False
        | Asleep (PushWait x t d u) \<Rightarrow> early \<and> u \<noteq> None \<or> \<not> mq_is_shut q' \<and> ct_queue_is_full (mq_queue q')
        | Asleep (PopWait t d u) \<Rightarrow> early \<and> u \<noteq> None \<or> \<not> mq_is_shut q' \<and> ct_queue_is_empty (mq_queue q')
        | _ \<Rightarrow> True))"
proof -
  have start: "mq_inv early byte n q (replicate threads Idle) now0" using mq_start_inv [OF assms(1,2)] by simp
  note settled = mq.settled [OF start assms(3,4)]
  have "case p of Woken w \<Rightarrow> False | Elapsed w \<Rightarrow> False
        | Asleep (PushWait x t d u) \<Rightarrow> early \<and> u \<noteq> None \<or> \<not> mq_is_shut q' \<and> ct_queue_is_full (mq_queue q')
        | Asleep (PopWait t d u) \<Rightarrow> early \<and> u \<noteq> None \<or> \<not> mq_is_shut q' \<and> ct_queue_is_empty (mq_queue q')
        | _ \<Rightarrow> True"
    if "\<forall>t. \<not> resume_step (mq_step early) (q', ps, now) t" "p \<in> set ps" for p
    using settled(2) [OF that(1)] that(2)
    by (cases p) (force simp: mq_calm_def split: mq_wait.split)+
  then show ?thesis using settled(1) by blast
qed

lemma demo_resume:
  "mq_step False (demo_queue [7] 0, [demo_pushed, Woken (demo_wait (-1) 0 None), demo_popped], 0)
     (Resumed 1 (demo_wait (-1) 0 None) (Returns (Rc E_OK None))) (demo_queue [8] 1, [demo_pushed, demo_pushed, demo_popped], 0)"
  by (rule woken_now, simp, simp, rule demo_sections(5), simp, rule nobody, simp, simp)

theorem msgqueue_settles_witness:
  "1 \<le> 2 * length [demo_pushed, Woken (demo_wait (-1) 0 None), demo_popped] \<and>
   (resume_step (mq_step False) ^^ 1) (demo_queue [7] 0, [demo_pushed, Woken (demo_wait (-1) 0 None), demo_popped], 0)
     (demo_queue [8] 1, [demo_pushed, demo_pushed, demo_popped], 0)"
proof -
  have one: "(resume_step (mq_step False) ^^ 1) (demo_queue [7] 0, [demo_pushed, Woken (demo_wait (-1) 0 None), demo_popped], 0)
     (demo_queue [8] 1, [demo_pushed, demo_pushed, demo_popped], 0)"
    unfolding relpowp_1 resume_step_def using demo_resume by blast
  show ?thesis
    using msgqueue_settles [OF demo_start _ demo_run [unfolded demo_threads_eq] one] one by simp
qed

text \<open>On a platform whose system call may end a timed wait before the deadline (the fallback of \<open>cond.c\<close> asks for
  at most a second at a time), \<open>ct_cond_wait_for\<close> waits again without letting its caller look at the queue:
  a pop between the early end and the new wait finds nobody to wake, and the push sleeps on although the
  queue has room and no thread is left to wake it.\<close>

lemma early_end_loses_wakeup:
  "\<exists>tr ps. mon_run (mq_step True) (demo_queue [0] 0, demo_threads, 0) tr (demo_queue [7] 0, ps, 1000) \<and>
     (\<forall>p \<in> set ps. \<not> ready p) \<and> Asleep (demo_wait 5000 5000 (Some 5000)) \<in> set ps \<and>
     \<not> ct_queue_is_full (mq_queue (demo_queue [7] 0))"
proof -
  let ?w = "demo_wait 5000 5000 (Some 5000)"
  have waits: "mq_step True (demo_queue [7] 1, [demo_pushed, Idle, Idle], 0) (Called 1 (MqPushFor [8] 5000) (Sleeps ?w))
      (demo_queue [7] 1, [demo_pushed, Asleep ?w, Idle], 0)"
    by (rule call_now, simp, simp, rule demo_sections(3), simp, simp)
  have ends: "mq_step True (demo_queue [7] 1, [demo_pushed, Asleep ?w, Idle], 0) Moved
      (demo_queue [7] 1, [demo_pushed, Elapsed ?w, Idle], 0)"
    using step_elapse [of 1 "[demo_pushed, Asleep ?w, Idle]" ?w mw_until 5000 True 0] by simp
  have pops: "mq_step True (demo_queue [7] 1, [demo_pushed, Elapsed ?w, Idle], 0) (Called 2 MqPop (Returns (Rc E_OK (Some [7]))))
      (demo_queue [7] 0, [demo_pushed, Elapsed ?w, demo_popped], 0)"
    by (rule call_now, simp, simp, rule demo_sections(4), simp, rule nobody, simp, simp)
  have again: "mq_step True (demo_queue [7] 0, [demo_pushed, Elapsed ?w, demo_popped], 0) (Resumed 1 ?w (Sleeps ?w))
      (demo_queue [7] 0, [demo_pushed, Asleep ?w, demo_popped], 0)"
    by (rule elapsed_now, simp, simp, rule demo_sections(6), simp, simp)
  have tick: "mq_step True (demo_queue [7] 0, [demo_pushed, Asleep ?w, demo_popped], 0) Moved
      (demo_queue [7] 0, [demo_pushed, Asleep ?w, demo_popped], 1000)"
    by (rule step_tick) simp
  have "\<exists>tr. mon_run (mq_step True) (demo_queue [0] 0, demo_threads, 0) tr (demo_queue [7] 0, [demo_pushed, Asleep ?w, demo_popped], 1000)"
    by (rule exI, rule run_Cons, rule demo_push, rule run_Cons, rule waits, rule run_Cons, rule ends, rule run_Cons, rule pops,
        rule run_Cons, rule again, rule run_Cons, rule tick, rule run_start)
  then show ?thesis by (fastforce simp: ct_queue_is_full_def)
qed

end
