(* ===== verification/Coter_Rwlock.thy ===== *)
theory Coter_Rwlock
  imports Coter_Monitor
begin

text \<open>
  \<open>sync/rwlock.h\<close>, \<open>rwlock.c\<close>: the read-write lock of targets without one of their own, built from a mutex and
  two condition variables.  \<open>rw_state\<close> is \<open>-1\<close> while a writer holds the lock and the number of
  readers otherwise; writers that wait are counted and keep new readers out.  As in \<open>Coter_Msgqueue\<close> a
  function is the section from locking the mutex to returning or waiting, and threads interleave as in
  \<open>Coter_Monitor\<close>.  What the calls into the operating system answer is an argument of the functions.
\<close>

section \<open>State\<close>

abbreviation "INT_MAX \<equiv> 2147483647 :: int"

abbreviation "UINT_MAX \<equiv> 4294967295 :: u32"

datatype rw_cv = Read_signal | Write_signal

record ct_rwlock =
  rw_state :: int
  rw_waiting_writers :: u32

datatype rw_wait = ReadWait | WriteWait

fun rw_cv_of :: "rw_wait \<Rightarrow> rw_cv" where
  "rw_cv_of ReadWait = Read_signal"
| "rw_cv_of WriteWait = Write_signal"

text \<open>Answers of \<open>ct_mutex_lock\<close>, \<open>ct_mutex_trylock\<close>, \<open>ct_mutex_unlock\<close> and of the notification.\<close>

record rw_os =
  os_lock :: errno
  os_trylock :: errno
  os_unlock :: errno
  os_notify :: errno

type_synonym rw_section = "ct_rwlock option \<times> rw_cv cv_event list \<times> (rw_wait, errno) outcome"

text \<open>\<open>result != 0 ? result : unlock_result\<close>\<close>

definition rw_result :: "errno \<Rightarrow> rw_os \<Rightarrow> errno" where
  "rw_result result os = (if result \<noteq> E_OK then result else os_unlock os)"

section \<open>Operations\<close>

text \<open>The arguments after the lock are what initialising the mutex and the condition variables answers.\<close>

definition ct_rwlock_init :: "ct_rwlock option \<Rightarrow> errno \<Rightarrow> errno \<Rightarrow> errno \<Rightarrow> errno \<times> ct_rwlock option" where
  "ct_rwlock_init lock mutex_rc read_rc write_rc =
     (case lock of
        None \<Rightarrow> (EINVAL, lock)
      | Some l \<Rightarrow>
          if mutex_rc \<noteq> E_OK then (mutex_rc, lock)
          else if read_rc \<noteq> E_OK then (read_rc, lock)
          else if write_rc \<noteq> E_OK then (write_rc, lock)
          else (E_OK, Some (l\<lparr>rw_state := 0, rw_waiting_writers := 0\<rparr>)))"

text \<open>The loops of \<open>ct_rwlock_rdlock\<close> and \<open>ct_rwlock_wrlock\<close>, from the test to the next wait or the return.\<close>

definition rdlock_turn :: "ct_rwlock \<Rightarrow> rw_os \<Rightarrow> rw_section" where
  "rdlock_turn lock os =
     (if rw_state lock < 0 \<or> rw_waiting_writers lock \<noteq> 0 then (Some lock, [], Sleeps ReadWait)
      else if rw_state lock = INT_MAX then (Some lock, [], Returns (rw_result EAGAIN os))
      else (Some (lock\<lparr>rw_state := rw_state lock + 1\<rparr>), [], Returns (rw_result E_OK os)))"

definition wrlock_turn :: "ct_rwlock \<Rightarrow> rw_os \<Rightarrow> rw_section" where
  "wrlock_turn lock os =
     (if rw_state lock \<noteq> 0 then
        if rw_waiting_writers lock = UINT_MAX then (Some lock, [], Returns EAGAIN)
        else (Some (lock\<lparr>rw_waiting_writers := rw_waiting_writers lock + 1\<rparr>), [], Sleeps WriteWait)
      else (Some (lock\<lparr>rw_state := -1\<rparr>), [], Returns (os_unlock os)))"

definition ct_rwlock_rdlock :: "ct_rwlock option \<Rightarrow> rw_os \<Rightarrow> rw_section" where
  "ct_rwlock_rdlock lock os =
     (case lock of
        None \<Rightarrow> (lock, [], Returns EINVAL)
      | Some l \<Rightarrow> if os_lock os \<noteq> E_OK then (lock, [], Returns (os_lock os)) else rdlock_turn l os)"

definition ct_rwlock_wrlock :: "ct_rwlock option \<Rightarrow> rw_os \<Rightarrow> rw_section" where
  "ct_rwlock_wrlock lock os =
     (case lock of
        None \<Rightarrow> (lock, [], Returns EINVAL)
      | Some l \<Rightarrow> if os_lock os \<noteq> E_OK then (lock, [], Returns (os_lock os)) else wrlock_turn l os)"

text \<open>What follows the wait of a reader and of a writer, when it ends with \<open>result\<close>.\<close>

definition rdlock_after_wait :: "ct_rwlock \<Rightarrow> errno \<Rightarrow> rw_os \<Rightarrow> rw_section" where
  "rdlock_after_wait lock result os =
     (if result \<noteq> E_OK then (Some lock, [], Returns result) else rdlock_turn lock os)"

definition wrlock_after_wait :: "ct_rwlock \<Rightarrow> errno \<Rightarrow> rw_os \<Rightarrow> rw_section" where
  "wrlock_after_wait lock result os =
     (let lock = lock\<lparr>rw_waiting_writers := rw_waiting_writers lock - 1\<rparr> in
      if result \<noteq> E_OK then
        (Some lock, if rw_waiting_writers lock = 0 \<and> rw_state lock \<ge> 0 then [Broadcast Read_signal] else [], Returns result)
      else wrlock_turn lock os)"

definition ct_rwlock_tryrdlock :: "ct_rwlock option \<Rightarrow> rw_os \<Rightarrow> rw_section" where
  "ct_rwlock_tryrdlock lock os =
     (case lock of
        None \<Rightarrow> (lock, [], Returns EINVAL)
      | Some l \<Rightarrow>
          if os_trylock os \<noteq> E_OK then (lock, [], Returns (os_trylock os))
          else if rw_state l < 0 \<or> rw_waiting_writers l \<noteq> 0 then (lock, [], Returns (rw_result EBUSY os))
          else if rw_state l = INT_MAX then (lock, [], Returns (rw_result EAGAIN os))
          else (Some (l\<lparr>rw_state := rw_state l + 1\<rparr>), [], Returns (rw_result E_OK os)))"

definition ct_rwlock_trywrlock :: "ct_rwlock option \<Rightarrow> rw_os \<Rightarrow> rw_section" where
  "ct_rwlock_trywrlock lock os =
     (case lock of
        None \<Rightarrow> (lock, [], Returns EINVAL)
      | Some l \<Rightarrow>
          if os_trylock os \<noteq> E_OK then (lock, [], Returns (os_trylock os))
          else if rw_state l \<noteq> 0 then (lock, [], Returns (rw_result EBUSY os))
          else (Some (l\<lparr>rw_state := -1\<rparr>), [], Returns (rw_result E_OK os)))"

definition ct_rwlock_rdunlock :: "ct_rwlock option \<Rightarrow> rw_os \<Rightarrow> rw_section" where
  "ct_rwlock_rdunlock lock os =
     (case lock of
        None \<Rightarrow> (lock, [], Returns EINVAL)
      | Some l \<Rightarrow>
          if os_lock os \<noteq> E_OK then (lock, [], Returns (os_lock os))
          else if rw_state l \<le> 0 then (lock, [], Returns EINVAL)
          else let l = l\<lparr>rw_state := rw_state l - 1\<rparr> in
            if rw_state l = 0 \<and> rw_waiting_writers l \<noteq> 0
            then (Some l, [Signal Write_signal], Returns (rw_result (os_notify os) os))
            else (Some l, [], Returns (rw_result E_OK os)))"

definition ct_rwlock_wrunlock :: "ct_rwlock option \<Rightarrow> rw_os \<Rightarrow> rw_section" where
  "ct_rwlock_wrunlock lock os =
     (case lock of
        None \<Rightarrow> (lock, [], Returns EINVAL)
      | Some l \<Rightarrow>
          if os_lock os \<noteq> E_OK then (lock, [], Returns (os_lock os))
          else if rw_state l \<noteq> -1 then (lock, [], Returns EINVAL)
          else let l = l\<lparr>rw_state := 0\<rparr> in
            if rw_waiting_writers l \<noteq> 0 then (Some l, [Signal Write_signal], Returns (rw_result (os_notify os) os))
            else (Some l, [Broadcast Read_signal], Returns (rw_result (os_notify os) os)))"

section \<open>The lock among threads\<close>

text \<open>The functions in the shape of the monitor layer; the operating system accepts the calls, except that
  \<open>ct_mutex_trylock\<close> may find the mutex taken.\<close>

datatype rw_op = Rdlock | Wrlock | Tryrdlock bool | Trywrlock bool | Rdunlock | Wrunlock

abbreviation "rw_fine taken \<equiv>
  \<lparr>os_lock = E_OK, os_trylock = (if taken then EBUSY else E_OK), os_unlock = E_OK, os_notify = E_OK\<rparr>"

fun rw_exec :: "rw_op \<Rightarrow> ct_rwlock \<Rightarrow> rw_section" where
  "rw_exec Rdlock l = ct_rwlock_rdlock (Some l) (rw_fine False)"
| "rw_exec Wrlock l = ct_rwlock_wrlock (Some l) (rw_fine False)"
| "rw_exec (Tryrdlock taken) l = ct_rwlock_tryrdlock (Some l) (rw_fine taken)"
| "rw_exec (Trywrlock taken) l = ct_rwlock_trywrlock (Some l) (rw_fine taken)"
| "rw_exec Rdunlock l = ct_rwlock_rdunlock (Some l) (rw_fine False)"
| "rw_exec Wrunlock l = ct_rwlock_wrunlock (Some l) (rw_fine False)"

fun rw_resume_call :: "rw_wait \<Rightarrow> errno \<Rightarrow> ct_rwlock \<Rightarrow> rw_section" where
  "rw_resume_call ReadWait rc l = rdlock_after_wait l rc (rw_fine False)"
| "rw_resume_call WriteWait rc l = wrlock_after_wait l rc (rw_fine False)"

definition rw_call :: "(rw_op, ct_rwlock, rw_cv, rw_wait, errno) crit" where
  "rw_call op l clk = Some (apfst the (rw_exec op l))"

definition rw_resume :: "(rw_wait \<times> errno, ct_rwlock, rw_cv, rw_wait, errno) crit" where
  "rw_resume wrc l clk = Some (apfst the (rw_resume_call (fst wrc) (snd wrc) l))"

abbreviation "rw_step \<equiv> mon_step rw_call rw_resume rw_cv_of (\<lambda>_. None) False"

subsection \<open>The wake-up invariant\<close>

text \<open>The counter of waiting writers counts the sleeping and the woken ones; a free lock with waiting writers has
  one on his way; readers sleep only while the lock is taken by a writer or writers wait.\<close>

definition rw_balance :: "ct_rwlock \<Rightarrow> nat \<Rightarrow> nat \<Rightarrow> nat \<Rightarrow> bool" where
  "rw_balance l readers writers woken_writers \<longleftrightarrow>
     -1 \<le> rw_state l \<and> rw_state l \<le> INT_MAX \<and>
     unat (rw_waiting_writers l) = writers + woken_writers \<and>
     (rw_state l = 0 \<and> 0 < writers \<longrightarrow> 0 < woken_writers) \<and>
     (0 < readers \<longrightarrow> rw_state l < 0 \<or> rw_waiting_writers l \<noteq> 0)"

definition rw_inv :: "ct_rwlock \<Rightarrow> (rw_wait, errno) thread list \<Rightarrow> int \<Rightarrow> bool" where
  "rw_inv l ps now \<longleftrightarrow>
     rw_balance l (sleeping rw_cv_of Read_signal ps) (sleeping rw_cv_of Write_signal ps) (woken rw_cv_of Write_signal ps) \<and>
     (\<forall>w. Elapsed w \<notin> set ps)"

text \<open>Nobody sleeps at a free lock.\<close>

definition rw_calm :: "ct_rwlock \<Rightarrow> (rw_wait, errno) thread list \<Rightarrow> bool" where
  "rw_calm l ps \<longleftrightarrow> (\<forall>w. Asleep w \<in> set ps \<longrightarrow> rw_state l \<noteq> 0)"

lemma waiting_inc: "x \<noteq> UINT_MAX \<Longrightarrow> unat (x + 1) = Suc (unat x)" for x :: u32
proof -
  assume "x \<noteq> UINT_MAX"
  then have "unat x \<noteq> 4294967295" by (auto simp: word_unat_eq_iff)
  then have "unat x + 1 < 2 ^ 32" using unsigned_less [of x, where ?'a = nat] by simp
  then show ?thesis by (simp add: unat_word_ariths)
qed

lemma waiting_dec: "x \<noteq> 0 \<Longrightarrow> Suc (unat (x - 1)) = unat x" for x :: u32
proof -
  assume "x \<noteq> 0"
  then have "1 \<le> x" "0 < unat x" by (simp_all add: word_le_nat_alt word_unat_eq_iff)
  then show ?thesis by (simp add: unat_sub)
qed


text \<open>What a section leaves behind, when \<open>r\<close> readers and \<open>w\<close> writers sleep and \<open>k\<close> other writers are woken.\<close>

definition rw_leaves :: "rw_section \<Rightarrow> nat \<Rightarrow> nat \<Rightarrow> nat \<Rightarrow> bool" where
  "rw_leaves sec r w k \<longleftrightarrow> (\<exists>l evs out. sec = (Some l, evs, out) \<and>
     (evs = [] \<and> rw_balance l (r + (if out = Sleeps ReadWait then 1 else 0)) (w + (if out = Sleeps WriteWait then 1 else 0)) k \<or>
      (\<exists>rc. out = Returns rc) \<and> evs = [Signal Write_signal] \<and>
        (w = 0 \<longrightarrow> rw_balance l r w k) \<and> (0 < w \<longrightarrow> rw_balance l r (w - 1) (Suc k)) \<or>
      (\<exists>rc. out = Returns rc) \<and> evs = [Broadcast Read_signal] \<and> rw_balance l 0 w k))"

lemma leaves_events: "rw_leaves (Some l, evs, out) r w k \<Longrightarrow> evs = [] \<or> (\<exists>rc. out = Returns rc)"
  by (auto simp: rw_leaves_def)

lemma rw_balance_dest:
  assumes "rw_balance l r w k"
  shows "rw_waiting_writers l = 0 \<longleftrightarrow> w + k = 0" "unat (rw_waiting_writers l) = w + k" "-1 \<le> rw_state l" "rw_state l \<le> INT_MAX"
    "rw_state l = 0 \<Longrightarrow> 0 < w \<Longrightarrow> 0 < k" "0 < r \<Longrightarrow> rw_state l < 0 \<or> 0 < w + k"
  using assms by (auto simp: rw_balance_def word_unat_eq_iff)

lemma rw_balance_intro:
  "unat (rw_waiting_writers l) = w + k \<Longrightarrow> -1 \<le> rw_state l \<Longrightarrow> rw_state l \<le> INT_MAX \<Longrightarrow>
   (rw_state l = 0 \<Longrightarrow> 0 < w \<Longrightarrow> 0 < k) \<Longrightarrow> (0 < r \<Longrightarrow> rw_state l < 0 \<or> 0 < w + k) \<Longrightarrow> rw_balance l r w k"
  by (auto simp: rw_balance_def word_unat_eq_iff)

lemma leaves_same: "rw_balance l r w k \<Longrightarrow> rw_leaves (Some l, [], Returns rc) r w k"
  by (auto simp: rw_leaves_def)

lemma rdlock_turn_leaves:
  assumes b: "rw_balance l r w k"
  shows "rw_leaves (rdlock_turn l os) r w k"
proof -
  note d = rw_balance_dest [OF b]
  show ?thesis
  proof (cases "rw_state l < 0 \<or> rw_waiting_writers l \<noteq> 0")
    case True
    then have "rw_balance l (Suc r) w k" using d by (intro rw_balance_intro) auto
    then show ?thesis using True by (auto simp: rdlock_turn_def rw_leaves_def)
  next
    case False
    have "rw_balance (l\<lparr>rw_state := rw_state l + 1\<rparr>) r w k" if "rw_state l \<noteq> INT_MAX"
      using d False that by (intro rw_balance_intro) auto
    then show ?thesis using False b by (auto simp: rdlock_turn_def rw_leaves_def)
  qed
qed

text \<open>A writer at its first turn, and one that was woken and no longer counted.\<close>

lemma wrlock_turn_leaves:
  assumes ww: "unat (rw_waiting_writers l) = w + k" and s: "-1 \<le> rw_state l" "rw_state l \<le> INT_MAX"
    and full: "rw_waiting_writers l \<noteq> UINT_MAX \<or> rw_balance l r w k"
  shows "rw_leaves (wrlock_turn l os) r w k"
proof (cases "rw_state l = 0")
  case True
  have "rw_balance (l\<lparr>rw_state := -1\<rparr>) r w k" using ww by (intro rw_balance_intro) auto
  with True show ?thesis by (auto simp: wrlock_turn_def rw_leaves_def)
next
  case False
  show ?thesis
  proof (cases "rw_waiting_writers l = UINT_MAX")
    case True
    then show ?thesis using False full leaves_same by (auto simp: wrlock_turn_def)
  next
    case ne: False
    have "rw_balance (l\<lparr>rw_waiting_writers := rw_waiting_writers l + 1\<rparr>) r (Suc w) k"
      using ww s False waiting_inc [OF ne] by (intro rw_balance_intro) auto
    with ne False show ?thesis by (auto simp: wrlock_turn_def rw_leaves_def)
  qed
qed

lemma unlock_leaves:
  assumes b: "rw_balance l r w k"
  shows "rw_leaves (ct_rwlock_rdunlock (Some l) os) r w k" and "rw_leaves (ct_rwlock_wrunlock (Some l) os) r w k"
proof -
  note d = rw_balance_dest [OF b]
  let ?m = "l\<lparr>rw_state := rw_state l - 1\<rparr>" and ?z = "l\<lparr>rw_state := 0\<rparr>"
  show "rw_leaves (ct_rwlock_rdunlock (Some l) os) r w k"
  proof (cases "os_lock os \<noteq> E_OK \<or> rw_state l \<le> 0")
    case True
    then show ?thesis using leaves_same [OF b] by (auto simp: ct_rwlock_rdunlock_def)
  next
    case False
    then have s: "0 < rw_state l" "os_lock os = E_OK" by auto
    show ?thesis
    proof (cases "rw_state l = 1 \<and> rw_waiting_writers l \<noteq> 0")
      case True
      have "0 < k" if "w = 0" using True d(1) that by simp
      then have "w = 0 \<longrightarrow> rw_balance ?m r w k" "0 < w \<longrightarrow> rw_balance ?m r (w - 1) (Suc k)"
        using d True by (auto intro!: rw_balance_intro)
      with True s show ?thesis by (auto simp: ct_rwlock_rdunlock_def rw_leaves_def)
    next
      case no: False
      have "rw_balance ?m r w k" using d s no by (intro rw_balance_intro) auto
      with no s show ?thesis by (auto simp: ct_rwlock_rdunlock_def intro: leaves_same)
    qed
  qed
  show "rw_leaves (ct_rwlock_wrunlock (Some l) os) r w k"
  proof (cases "os_lock os \<noteq> E_OK \<or> rw_state l \<noteq> -1")
    case True
    then show ?thesis using leaves_same [OF b] by (auto simp: ct_rwlock_wrunlock_def)
  next
    case False
    then have s: "rw_state l = -1" "os_lock os = E_OK" by auto
    show ?thesis
    proof (cases "rw_waiting_writers l = 0")
      case True
      then have "rw_balance ?z 0 w k" using d by (intro rw_balance_intro) auto
      with True s show ?thesis by (auto simp: ct_rwlock_wrunlock_def rw_leaves_def)
    next
      case wait: False
      have "0 < k" if "w = 0" using wait d(1) that by simp
      then have "w = 0 \<longrightarrow> rw_balance ?z r w k" "0 < w \<longrightarrow> rw_balance ?z r (w - 1) (Suc k)"
        using d wait by (auto intro!: rw_balance_intro)
      with wait s show ?thesis by (auto simp: ct_rwlock_wrunlock_def rw_leaves_def)
    qed
  qed
qed

lemma call_leaves:
  assumes b: "rw_balance l r w k"
  shows "rw_leaves (rw_exec op l) r w k"
proof (cases op)
  case Rdlock
  then show ?thesis using rdlock_turn_leaves [OF b] by (simp add: ct_rwlock_rdlock_def)
next
  case Wrlock
  then show ?thesis using wrlock_turn_leaves [of l w k r] rw_balance_dest [OF b] b by (simp add: ct_rwlock_wrlock_def)
next
  case (Tryrdlock taken)
  have "rw_balance (l\<lparr>rw_state := rw_state l + 1\<rparr>) r w k"
    if "rw_state l \<noteq> INT_MAX" "\<not> rw_state l < 0" "rw_waiting_writers l = 0"
    using rw_balance_dest [OF b] that by (intro rw_balance_intro) auto
  with Tryrdlock show ?thesis using b by (auto simp: ct_rwlock_tryrdlock_def intro: leaves_same)
next
  case (Trywrlock taken)
  have "rw_balance (l\<lparr>rw_state := -1\<rparr>) r w k" using rw_balance_dest [OF b] by (intro rw_balance_intro) auto
  with Trywrlock show ?thesis using b by (auto simp: ct_rwlock_trywrlock_def intro: leaves_same)
qed (use unlock_leaves [OF b] in simp_all)

lemma read_resume_leaves: "rw_balance l r w k \<Longrightarrow> rw_leaves (rw_resume_call ReadWait E_OK l) r w k"
  using rdlock_turn_leaves by (simp add: rdlock_after_wait_def)

lemma write_resume_leaves:
  assumes b: "rw_balance l r w (Suc k)"
  shows "rw_leaves (rw_resume_call WriteWait E_OK l) r w k"
proof -
  note d = rw_balance_dest [OF b]
  have "Suc (unat (rw_waiting_writers l - 1)) = unat (rw_waiting_writers l)" using d by (intro waiting_dec) auto
  then have ww: "unat (rw_waiting_writers l - 1) = w + k" using d by simp
  moreover have "unat (rw_waiting_writers l) \<le> 4294967295"
    using unsigned_less [of "rw_waiting_writers l", where ?'a = nat] by simp
  ultimately have "rw_waiting_writers l - 1 \<noteq> UINT_MAX" using d(2) by (auto simp: word_unat_eq_iff)
  then show ?thesis
    using wrlock_turn_leaves [of "l\<lparr>rw_waiting_writers := rw_waiting_writers l - 1\<rparr>" w k r] ww d
    by (simp add: wrlock_after_wait_def Let_def)
qed

text \<open>From the counts to the threads.\<close>

lemma leaves_inv:
  assumes i: "i < length ps" "\<And>c. \<not> sleeps_on rw_cv_of c (ps ! i)" and no: "\<forall>w. Elapsed w \<notin> set ps"
    and leaves: "rw_leaves (Some l, evs, out) (sleeping rw_cv_of Read_signal ps) (sleeping rw_cv_of Write_signal ps)
      (woken rw_cv_of Write_signal ps - (if woken_from rw_cv_of Write_signal (ps ! i) then 1 else 0))"
    and wakes: "wakes_all rw_cv_of evs (ps[i := thread_after out]) ps'"
  shows "rw_inv l ps' now"
proof -
  let ?qs = "ps[i := thread_after out]"
  have elapsed: "\<forall>w. Elapsed w \<notin> set ps'"
  proof -
    have "\<forall>p \<in> set ?qs. \<forall>w. p \<noteq> Elapsed w" using no by (intro update_local) (cases out; force)+
    from wakes_all_local [OF wakes this] show ?thesis by blast
  qed
  have s: "sleeping rw_cv_of c ?qs = sleeping rw_cv_of c ps + (if out = Sleeps (case c of Read_signal \<Rightarrow> ReadWait | Write_signal \<Rightarrow> WriteWait) then 1 else 0)" for c
  proof -
    have "sleeps_on rw_cv_of c (thread_after out) \<longleftrightarrow> out = Sleeps (case c of Read_signal \<Rightarrow> ReadWait | Write_signal \<Rightarrow> WriteWait)"
    proof (cases out)
      case (Sleeps w) then show ?thesis by (cases w; cases c) auto
    qed simp
    then show ?thesis using section_counts(1) [OF i, of c out] by simp
  qed
  have k: "woken rw_cv_of Write_signal ?qs = woken rw_cv_of Write_signal ps - (if woken_from rw_cv_of Write_signal (ps ! i) then 1 else 0)"
    using section_counts(2) [OF i, of Write_signal out] by (auto split: if_splits)
  consider "evs = []" | "\<exists>rc. out = Returns rc" "evs = [Signal Write_signal]" | "\<exists>rc. out = Returns rc" "evs = [Broadcast Read_signal]"
    using leaves by (auto simp: rw_leaves_def)
  then show ?thesis
  proof cases
    case 1
    then show ?thesis using leaves wakes elapsed by (auto simp: rw_inv_def rw_leaves_def s k)
  next
    case 2
    then have w: "wakes rw_cv_of (Signal Write_signal) ?qs ps'" using wakes by simp
    from 2 leaves have l: "sleeping rw_cv_of Write_signal ps = 0 \<longrightarrow>
        rw_balance l (sleeping rw_cv_of Read_signal ps) 0 (woken rw_cv_of Write_signal ?qs)"
      "0 < sleeping rw_cv_of Write_signal ps \<longrightarrow>
        rw_balance l (sleeping rw_cv_of Read_signal ps) (sleeping rw_cv_of Write_signal ps - 1) (Suc (woken rw_cv_of Write_signal ?qs))"
      by (auto simp: rw_leaves_def k)
    have r: "sleeping rw_cv_of Read_signal ps' = sleeping rw_cv_of Read_signal ps"
      "sleeping rw_cv_of Write_signal ?qs = sleeping rw_cv_of Write_signal ps"
      using signal_counts(3) [OF w, of Read_signal] s 2 by auto
    from signal_counts(2) [OF w] l r elapsed show ?thesis by (auto simp: rw_inv_def)
  next
    case 3
    then have w: "wakes rw_cv_of (Broadcast Read_signal) ?qs ps'" using wakes by simp
    from 3 leaves have "rw_balance l 0 (sleeping rw_cv_of Write_signal ps) (woken rw_cv_of Write_signal ?qs)"
      by (auto simp: rw_leaves_def k)
    with broadcast_counts(2) [OF w] broadcast_counts(3) [OF w, of Write_signal] s [of Write_signal] 3 elapsed
    show ?thesis by (auto simp: rw_inv_def)
  qed
qed


lemma rw_call_leaves:
  assumes "rw_call op l clk = Some (l', evs, out)" and b: "rw_balance l r w k"
  shows "rw_leaves (Some l', evs, out) r w k"
  using assms(1) call_leaves [OF b, of op] by (auto simp: rw_call_def rw_leaves_def)

lemma rw_resume_leaves:
  assumes "rw_resume (wt, E_OK) l clk = Some (l', evs, out)" and b: "rw_balance l r w (k + (if wt = WriteWait then 1 else 0))"
  shows "rw_leaves (Some l', evs, out) r w k"
proof -
  have "rw_leaves (rw_resume_call wt E_OK l) r w k"
    using b read_resume_leaves write_resume_leaves by (cases wt) (simp_all del: rw_resume_call.simps)
  then show ?thesis using assms(1) by (auto simp: rw_resume_def rw_leaves_def)
qed

lemma rw_balance_spurious:
  "rw_balance l (Suc r) w k \<Longrightarrow> rw_balance l r w k" "rw_balance l r (Suc w) k \<Longrightarrow> rw_balance l r w (Suc k)"
  by (auto simp: rw_balance_def)

lemma rw_moves:
  assumes inv: "rw_inv l ps now" and i: "i < length ps"
    and p: "ps ! i = Returned r \<and> p = Idle \<or> ps ! i = Asleep w \<and> p = Woken w"
  shows "rw_inv l (ps[i := p]) now"
proof -
  have b: "rw_balance l (sleeping rw_cv_of Read_signal ps) (sleeping rw_cv_of Write_signal ps) (woken rw_cv_of Write_signal ps)"
    and no: "\<forall>p \<in> set ps. \<forall>w. p \<noteq> Elapsed w" using inv by (auto simp: rw_inv_def)
  have "\<forall>q \<in> set (ps[i := p]). \<forall>w. q \<noteq> Elapsed w" using p by (intro update_local [OF no]) auto
  then have e: "\<forall>w. Elapsed w \<notin> set (ps[i := p])" by blast
  note c = tally_update [OF i, of "sleeps_on rw_cv_of Read_signal" p] tally_update [OF i, of "sleeps_on rw_cv_of Write_signal" p]
    tally_update [OF i, of "woken_from rw_cv_of Write_signal" p]
  from p show ?thesis
  proof
    assume "ps ! i = Returned r \<and> p = Idle"
    then show ?thesis using b c e by (simp add: rw_inv_def)
  next
    assume w: "ps ! i = Asleep w \<and> p = Woken w"
    show ?thesis
    proof (cases w)
      case ReadWait
      then show ?thesis using b c e w rw_balance_spurious(1) by (simp add: rw_inv_def)
    next
      case WriteWait
      then show ?thesis using b c e w rw_balance_spurious(2) by (simp add: rw_inv_def)
    qed
  qed
qed

lemma rw_step_inv:
  assumes inv: "rw_inv l ps now" and step: "rw_step (l, ps, now) lab (l', ps', now')"
  shows "rw_inv l' ps' now'"
proof -
  have b: "rw_balance l (sleeping rw_cv_of Read_signal ps) (sleeping rw_cv_of Write_signal ps) (woken rw_cv_of Write_signal ps)"
    and no: "\<forall>w. Elapsed w \<notin> set ps" using inv by (simp_all add: rw_inv_def)
  show ?thesis
    using step
  proof (cases rule: mon_step.cases)
    case (step_call i clk op evs out qs)
    then have leaves: "rw_leaves (Some l', evs, out) (sleeping rw_cv_of Read_signal ps) (sleeping rw_cv_of Write_signal ps)
        (woken rw_cv_of Write_signal ps)" using rw_call_leaves [OF _ b] by blast
    have "wakes_all rw_cv_of evs (ps[i := thread_after out]) ps'"
      using wakes_all_end [of rw_cv_of evs ps qs i out] leaves_events [OF leaves] step_call by simp
    then show ?thesis using leaves_inv [of i ps l' evs out ps' now'] leaves step_call no by simp
  next
    case (step_woken i w clk evs out qs)
    have "woken rw_cv_of Write_signal ps - (if w = WriteWait then 1 else 0) + (if w = WriteWait then 1 else 0) = woken rw_cv_of Write_signal ps"
      using tally_pos [of i ps "woken_from rw_cv_of Write_signal"] step_woken by auto
    then have leaves: "rw_leaves (Some l', evs, out) (sleeping rw_cv_of Read_signal ps) (sleeping rw_cv_of Write_signal ps)
        (woken rw_cv_of Write_signal ps - (if w = WriteWait then 1 else 0))"
      using rw_resume_leaves [OF step_woken(6)] b by simp
    have "wakes_all rw_cv_of evs (ps[i := thread_after out]) ps'"
      using wakes_all_end [of rw_cv_of evs ps qs i out] leaves_events [OF leaves] step_woken by simp
    moreover have "woken_from rw_cv_of Write_signal (ps ! i) \<longleftrightarrow> w = WriteWait" using step_woken by (cases w) auto
    ultimately show ?thesis using leaves_inv [of i ps l' evs out ps' now'] leaves step_woken no by simp
  next
    case (step_elapsed i w)
    then show ?thesis using no nth_mem [of i ps] by metis
  next
    case (step_spurious i w)
    then show ?thesis using rw_moves [OF inv, of i] by simp
  next
    case step_tick
    then show ?thesis using inv by (simp add: rw_inv_def)
  next
    case (step_return i r)
    then show ?thesis using rw_moves [OF inv, of i] by simp
  qed simp
qed

lemma rw_resume_events:
  assumes "rw_inv l ps now" "i < length ps" "ps ! i = Woken w \<and> rc = E_OK \<or> ps ! i = Elapsed w \<and> rc = ETIMEDOUT"
    and "rw_resume (w, rc) l clk = Some (l', evs, out)"
  shows "evs = [] \<or> (\<exists>r c. out = Returns r \<and> evs = [Signal c])"
proof -
  have "Elapsed w \<notin> set ps" using assms(1) by (simp add: rw_inv_def)
  with assms(2,3) have "rc = E_OK" by (metis nth_mem)
  then show ?thesis
    using assms(4) by (cases w)
      (auto simp: rw_resume_def rdlock_after_wait_def wrlock_after_wait_def rdlock_turn_def wrlock_turn_def Let_def split: if_splits)
qed

lemma rw_settled_calm:
  assumes inv: "rw_inv l ps now" and "\<forall>p \<in> set ps. \<not> ready p"
  shows "rw_calm l ps"
  unfolding rw_calm_def
proof (intro allI impI)
  fix w
  assume w: "Asleep w \<in> set ps"
  have k: "woken rw_cv_of Write_signal ps = 0" using nobody_woken [OF assms(2), of rw_cv_of Write_signal] by simp
  note b = rw_balance_dest [of l "sleeping rw_cv_of Read_signal ps" "sleeping rw_cv_of Write_signal ps" 0]
  show "rw_state l \<noteq> 0"
    using inv k b somebody_sleeps [OF w, of rw_cv_of] by (cases w) (auto simp: rw_inv_def)
qed

interpretation rw: monitor rw_call rw_resume rw_cv_of "\<lambda>_. None" False rw_inv rw_calm
proof (unfold_locales, goal_cases)
  case 1 then show ?case using rw_step_inv by blast
next
  case 2 then show ?case by (simp add: rw_resume_def)
next
  case 3 then show ?case using rw_resume_events by blast
next
  case 4 then show ?case using rw_settled_calm by blast
qed

lemma rw_start_inv:
  assumes "ct_rwlock_init (Some l0) E_OK E_OK E_OK = (E_OK, Some l)"
  shows "rw_inv l (replicate n Idle) now \<and> rw_state l = 0"
proof -
  have "tally P (replicate n Idle) = 0" if "\<not> P Idle" for P :: "(rw_wait, errno) thread \<Rightarrow> bool"
    using that by (simp add: tally_eq_0)
  then show ?thesis using assms by (auto simp: ct_rwlock_init_def rw_inv_def rw_balance_def)
qed

section \<open>Exclusion\<close>

text \<open>Who holds the lock, by the results of the calls.\<close>

definition readers_after :: "nat list \<Rightarrow> (rw_op, rw_wait, errno) label \<Rightarrow> nat list" where
  "readers_after rs lab = (case lab of
     Called i op (Returns E_OK) \<Rightarrow>
       (case op of Rdlock \<Rightarrow> i # rs | Tryrdlock taken \<Rightarrow> i # rs | Rdunlock \<Rightarrow> remove1 i rs | _ \<Rightarrow> rs)
   | Resumed i ReadWait (Returns E_OK) \<Rightarrow> i # rs
   | _ \<Rightarrow> rs)"

definition writers_after :: "nat list \<Rightarrow> (rw_op, rw_wait, errno) label \<Rightarrow> nat list" where
  "writers_after ws lab = (case lab of
     Called i op (Returns E_OK) \<Rightarrow>
       (case op of Wrlock \<Rightarrow> i # ws | Trywrlock taken \<Rightarrow> i # ws | Wrunlock \<Rightarrow> remove1 i ws | _ \<Rightarrow> ws)
   | Resumed i WriteWait (Returns E_OK) \<Rightarrow> i # ws
   | _ \<Rightarrow> ws)"

abbreviation "readers \<equiv> foldl readers_after []"

abbreviation "writers \<equiv> foldl writers_after []"

text \<open>Threads release only what they hold.\<close>

fun releases_own :: "nat list \<Rightarrow> nat list \<Rightarrow> (rw_op, rw_wait, errno) label \<Rightarrow> bool" where
  "releases_own rs ws (Called i Rdunlock out) \<longleftrightarrow> i \<in> set rs"
| "releases_own rs ws (Called i Wrunlock out) \<longleftrightarrow> i \<in> set ws"
| "releases_own rs ws _ \<longleftrightarrow> True"

fun disciplined :: "nat list \<Rightarrow> nat list \<Rightarrow> (rw_op, rw_wait, errno) label list \<Rightarrow> bool" where
  "disciplined rs ws [] \<longleftrightarrow> True"
| "disciplined rs ws (lab # tr) \<longleftrightarrow>
     releases_own rs ws lab \<and> disciplined (readers_after rs lab) (writers_after ws lab) tr"

lemma disciplined_snoc:
  "disciplined rs ws (tr @ [lab]) \<longleftrightarrow>
   disciplined rs ws tr \<and> releases_own (foldl readers_after rs tr) (foldl writers_after ws tr) lab"
  by (induction tr arbitrary: rs ws) auto

text \<open>The state of the lock tells the number of holders.\<close>

definition holds_exclusive :: "ct_rwlock \<Rightarrow> nat list \<Rightarrow> nat list \<Rightarrow> bool" where
  "holds_exclusive l rs ws \<longleftrightarrow>
     ws = [] \<and> rw_state l = int (length rs) \<or> rs = [] \<and> length ws = 1 \<and> rw_state l = -1"

lemmas rw_ops = ct_rwlock_rdlock_def ct_rwlock_wrlock_def ct_rwlock_tryrdlock_def ct_rwlock_trywrlock_def
  ct_rwlock_rdunlock_def ct_rwlock_wrunlock_def rdlock_after_wait_def wrlock_after_wait_def
  rdlock_turn_def wrlock_turn_def rw_result_def Let_def

lemma remove_holder:
  "i \<in> set rs \<Longrightarrow> int (length (remove1 i rs)) = int (length rs) - 1"
  "i \<in> set ws \<Longrightarrow> length ws = Suc 0 \<Longrightarrow> remove1 i ws = []"
proof -
  show "int (length (remove1 i rs)) = int (length rs) - 1" if "i \<in> set rs"
  proof -
    have "Suc (length (remove1 i rs)) = length rs" using that by (induction rs) auto
    then show ?thesis by simp
  qed
  show "remove1 i ws = []" if "i \<in> set ws" "length ws = Suc 0"
    using that by (cases ws) auto
qed

lemma call_exclusive:
  assumes "holds_exclusive l rs ws" and "rw_call op l clk = Some (l', evs, out)" and "releases_own rs ws (Called i op out)"
  shows "holds_exclusive l' (readers_after rs (Called i op out)) (writers_after ws (Called i op out))"
  using assms
  by (cases op) (auto simp: rw_call_def rw_ops holds_exclusive_def readers_after_def writers_after_def remove_holder
    split: if_splits)

lemma resume_exclusive:
  assumes "holds_exclusive l rs ws" and "rw_resume (w, rc) l clk = Some (l', evs, out)" and "rc = E_OK"
  shows "holds_exclusive l' (readers_after rs (Resumed i w out)) (writers_after ws (Resumed i w out))"
  using assms
  by (cases w) (auto simp: rw_resume_def rw_ops holds_exclusive_def readers_after_def writers_after_def split: if_splits)

lemma step_exclusive:
  assumes inv: "rw_inv l ps now" and step: "rw_step (l, ps, now) lab (l', ps', now')"
    and "holds_exclusive l rs ws" "releases_own rs ws lab"
  shows "holds_exclusive l' (readers_after rs lab) (writers_after ws lab)"
  using step
proof (cases rule: mon_step.cases)
  case step_call
  then show ?thesis using call_exclusive assms(3,4) by blast
next
  case step_woken
  then show ?thesis using resume_exclusive assms(3) by blast
next
  case (step_elapsed i w)
  then show ?thesis using inv nth_mem [of i ps] by (auto simp: rw_inv_def)
qed (use assms(3) in \<open>auto simp: readers_after_def writers_after_def\<close>)

lemma run_exclusive:
  assumes "mon_run rw_step s tr t" and "s = (l, ps, now)" "rw_inv l ps now" "rw_state l = 0" "t = (l', ps', now')"
    and "disciplined [] [] tr"
  shows "rw_inv l' ps' now' \<and> holds_exclusive l' (readers tr) (writers tr)"
  using assms
proof (induction arbitrary: l' ps' now' rule: mon_run.induct)
  case (run_start s)
  then show ?case by (simp add: holds_exclusive_def)
next
  case (run_step s tr t lab u)
  obtain lm pm nm where t: "t = (lm, pm, nm)" by (cases t)
  with run_step have m: "rw_inv lm pm nm" "holds_exclusive lm (readers tr) (writers tr)"
    "releases_own (readers tr) (writers tr) lab" by (auto simp: disciplined_snoc)
  have st: "rw_step (lm, pm, nm) lab (l', ps', now')" using run_step t by simp
  show ?case using rw_step_inv [OF m(1) st] step_exclusive [OF m(1) st m(2,3)] by simp
qed


text \<open>C38: the read-write lock excludes, and nobody is left waiting at a free lock.  For any number of threads,
  in every interleaving, as long as each thread releases only what its calls acquired: either there is no
  writer, or there is exactly one and no reader; a release by a holder is always accepted; and if no thread
  is on its way back from a wait, then a thread can be waiting only while some thread holds the
  lock.\<close>

theorem rwlock_excludes:
  assumes "ct_rwlock_init (Some l0) E_OK E_OK E_OK = (E_OK, Some l)"
    and "mon_run rw_step (l, replicate n Idle, now0) tr (l', ps, now)" and "disciplined [] [] tr"
  shows "(writers tr = [] \<or> length (writers tr) = 1 \<and> readers tr = []) \<and>
    (\<forall>i \<in> set (readers tr). \<exists>m evs. rw_exec Rdunlock l' = (Some m, evs, Returns E_OK)) \<and>
    (\<forall>i \<in> set (writers tr). \<exists>m evs. rw_exec Wrunlock l' = (Some m, evs, Returns E_OK)) \<and>
    ((\<forall>p \<in> set ps. \<not> ready p) \<longrightarrow> (\<exists>w. Asleep w \<in> set ps) \<longrightarrow> readers tr \<noteq> [] \<or> writers tr \<noteq> [])"
proof -
  have start: "rw_inv l (replicate n Idle) now0" "rw_state l = 0" using rw_start_inv [OF assms(1)] by simp_all
  have inv: "rw_inv l' ps now" and hold: "holds_exclusive l' (readers tr) (writers tr)"
    using run_exclusive [OF assms(2) refl start refl assms(3)] by simp_all
  have "\<exists>m evs. rw_exec Rdunlock l' = (Some m, evs, Returns E_OK)" if "i \<in> set (readers tr)" for i
  proof -
    have "0 < rw_state l'" using hold length_pos_if_in_set [OF that] by (auto simp: holds_exclusive_def)
    then show ?thesis by (simp add: rw_ops)
  qed
  moreover have "\<exists>m evs. rw_exec Wrunlock l' = (Some m, evs, Returns E_OK)" if "i \<in> set (writers tr)" for i
    using hold that by (auto simp: holds_exclusive_def rw_ops)
  moreover have "rw_calm l' ps" if "\<forall>p \<in> set ps. \<not> ready p" using rw.calm [OF inv that] .
  ultimately show ?thesis using hold by (auto simp: holds_exclusive_def rw_calm_def)
qed

text \<open>A writer takes the lock, a reader has to wait, the writer leaves, the reader gets in.\<close>

abbreviation "demo_lock s \<equiv> \<lparr>rw_state = s, rw_waiting_writers = 0\<rparr>"

abbreviation "demo_done \<equiv> Returned E_OK :: (rw_wait, errno) thread"

lemma demo_lock_sections:
  "rw_call Wrlock (demo_lock 0) (\<lambda>_. 0) = Some (demo_lock (-1), [], Returns E_OK)"
  "rw_call Rdlock (demo_lock (-1)) (\<lambda>_. 0) = Some (demo_lock (-1), [], Sleeps ReadWait)"
  "rw_call Wrunlock (demo_lock (-1)) (\<lambda>_. 0) = Some (demo_lock 0, [Broadcast Read_signal], Returns E_OK)"
  "rw_resume (ReadWait, E_OK) (demo_lock 0) (\<lambda>_. 0) = Some (demo_lock 1, [], Returns E_OK)"
  by code_simp+

abbreviation "demo_trace \<equiv>
  [Called 0 Wrlock (Returns E_OK), Called 1 Rdlock (Sleeps ReadWait), Moved, Called 0 Wrunlock (Returns E_OK),
   Resumed 1 ReadWait (Returns E_OK)]"

lemma demo_lock_run:
  "mon_run rw_step (demo_lock 0, replicate 2 Idle, 0) demo_trace (demo_lock 1, [demo_done, demo_done], 0)"
proof -
  have 1: "rw_step (demo_lock 0, [Idle, Idle], 0) (Called 0 Wrlock (Returns E_OK)) (demo_lock (-1), [demo_done, Idle], 0)"
    by (rule call_now, simp, simp, rule demo_lock_sections(1), simp, simp)
  have 2: "rw_step (demo_lock (-1), [demo_done, Idle], 0) (Called 1 Rdlock (Sleeps ReadWait))
      (demo_lock (-1), [demo_done, Asleep ReadWait], 0)"
    by (rule call_now, simp, simp, rule demo_lock_sections(2), simp, simp)
  have 3: "rw_step (demo_lock (-1), [demo_done, Asleep ReadWait], 0) Moved (demo_lock (-1), [Idle, Asleep ReadWait], 0)"
    using step_return [of 0 "[demo_done, Asleep ReadWait]" E_OK] by simp
  have 4: "rw_step (demo_lock (-1), [Idle, Asleep ReadWait], 0) (Called 0 Wrunlock (Returns E_OK))
      (demo_lock 0, [demo_done, Woken ReadWait], 0)"
  proof (rule call_now, simp, simp, rule demo_lock_sections(3))
    show "wakes_all rw_cv_of [Broadcast Read_signal] [Idle, Asleep ReadWait] [Idle, Woken ReadWait]"
      using everybody [of rw_cv_of Read_signal "[Idle, Asleep ReadWait]"] by simp
  qed simp
  have 5: "rw_step (demo_lock 0, [demo_done, Woken ReadWait], 0) (Resumed 1 ReadWait (Returns E_OK))
      (demo_lock 1, [demo_done, demo_done], 0)"
    by (rule woken_now, simp, simp, rule demo_lock_sections(4), simp, simp)
  have "mon_run rw_step (demo_lock 0, [Idle, Idle], 0) demo_trace (demo_lock 1, [demo_done, demo_done], 0)"
    by (rule run_Cons, rule 1, rule run_Cons, rule 2, rule run_Cons, rule 3, rule run_Cons, rule 4, rule run_Cons, rule 5,
        rule run_start)
  then show ?thesis by (simp add: numeral_2_eq_2)
qed

theorem rwlock_excludes_witness:
  "readers demo_trace = [1] \<and> writers demo_trace = [] \<and> (\<exists>m evs. rw_exec Rdunlock (demo_lock 1) = (Some m, evs, Returns E_OK))"
proof -
  have init: "ct_rwlock_init (Some (demo_lock 5)) E_OK E_OK E_OK = (E_OK, Some (demo_lock 0))" by code_simp
  have "disciplined [] [] demo_trace" by code_simp
  from rwlock_excludes [OF init demo_lock_run this] show ?thesis
    by (simp add: readers_after_def writers_after_def)
qed

text \<open>Threads that were woken get on, and settle after at most two sections each.\<close>

lemma rwlock_settles:
  assumes "ct_rwlock_init (Some l0) E_OK E_OK E_OK = (E_OK, Some l)"
    and "mon_run rw_step (l, replicate n Idle, now0) tr (l1, ps1, now1)"
    and "(resume_step rw_step ^^ k) (l1, ps1, now1) (l', ps, now)"
  shows "k \<le> 2 * length ps1 \<and>
    ((\<forall>t. \<not> resume_step rw_step (l', ps, now) t) \<longrightarrow> (\<forall>p \<in> set ps. \<not> ready p) \<and> rw_calm l' ps)"
  using rw.settled [OF conjunct1 [OF rw_start_inv [OF assms(1)]] assms(2,3)] by blast

end
