(* ===== verification/Coter_Thpool.thy ===== *)
theory Coter_Thpool
  imports Coter_Monitor
begin

text \<open>
  \<open>thread/thpool.h\<close>, \<open>thpool.c\<close>: a pool that starts worker threads on demand and lets idle ones go.  The
  functions are given as the sections between locking and unlocking, as in \<open>Coter_Monitor\<close>; a worker that
  runs a task, or joins older workers, is outside the lock and comes back with a section of its own.
  A task stands for a routine and its argument, a worker for its thread and list node; both lists are
  lists of such numbers.  The counters are bounded by the objects they count, so they are natural numbers.
\<close>

section \<open>State\<close>

datatype ct_thpool_error = TP_NORMAL | TP_CLOSED | TP_OVERLOAD | TP_INVALID_ARG | TP_MEM_ALLOC

record ct_thpool_config =
  cfg_stack_size :: u64
  cfg_idle_timeout :: u64
  cfg_non_blocking :: bool
  cfg_max_tasks :: nat

record ct_thpool =
  tp_queue :: "nat list"
  tp_live :: "nat list"
  tp_retired :: "nat list"
  tp_capacity :: nat
  tp_live_count :: nat
  tp_waiting_count :: nat
  tp_blocked_count :: nat
  tp_queued_count :: nat
  tp_closed :: bool
  tp_cfg :: ct_thpool_config

text \<open>The condition variables, and who waits on them.\<close>

datatype tp_cv = Task_cond | Slot_cond

datatype tp_kind = Worker | Submitter | Destroyer

text \<open>What the system answers to a request for a new worker: no memory, no thread, or a thread.  A submission asks
  at most once.\<close>

datatype spawn = No_memory | No_thread | Thread nat

datatype tp_wait =
  WorkerWait nat (tp_until: "int option")
| SubmitWait nat spawn (tp_until: "int option")
| DestroyWait (tp_until: "int option")

fun tp_kind_of :: "tp_wait \<Rightarrow> tp_kind" where
  "tp_kind_of (WorkerWait j u) = Worker"
| "tp_kind_of (SubmitWait t sp u) = Submitter"
| "tp_kind_of (DestroyWait u) = Destroyer"

fun cv_of_kind :: "tp_kind \<Rightarrow> tp_cv" where
  "cv_of_kind Worker = Task_cond"
| "cv_of_kind Submitter = Slot_cond"
| "cv_of_kind Destroyer = Slot_cond"

abbreviation "tp_cv_of w \<equiv> cv_of_kind (tp_kind_of w)"

text \<open>How sections end: a submission is answered; a worker leaves the lock to run a task, to join older workers,
  or for good; the pool is closed; the destroyer has seen the last thread leave and may free the pool.\<close>

datatype tp_result = Submitted ct_thpool_error | Runs nat | Joins "nat list" | Exited | Closed | Drained "nat list"

type_synonym tp_section = "ct_thpool \<times> tp_cv cv_event list \<times> (tp_wait, tp_result) outcome"

section \<open>Creation and messages\<close>

definition CT_THPOOL_CONFIG_INIT :: ct_thpool_config where
  "CT_THPOOL_CONFIG_INIT = \<lparr>cfg_stack_size = 0, cfg_idle_timeout = 1000, cfg_non_blocking = False, cfg_max_tasks = 1000\<rparr>"

definition ct_thpool_default_config :: "ct_thpool_config option \<Rightarrow> ct_thpool_config option" where
  "ct_thpool_default_config cfg = (case cfg of None \<Rightarrow> None | Some _ \<Rightarrow> Some CT_THPOOL_CONFIG_INIT)"

text \<open>The flags tell whether the allocation and the three initialisations succeed.\<close>

definition ct_thpool_create :: "nat \<Rightarrow> ct_thpool_config option \<Rightarrow> bool \<Rightarrow> bool \<Rightarrow> bool \<Rightarrow> bool \<Rightarrow> ct_thpool option" where
  "ct_thpool_create n cfg memory lock_ok task_ok slot_ok =
     (if \<not> memory then None
      else if \<not> lock_ok then None
      else if \<not> task_ok then None
      else if \<not> slot_ok then None
      else Some \<lparr>tp_queue = [], tp_live = [], tp_retired = [], tp_capacity = n, tp_live_count = 0,
        tp_waiting_count = 0, tp_blocked_count = 0, tp_queued_count = 0, tp_closed = False,
        tp_cfg = (case cfg of Some c \<Rightarrow> c | None \<Rightarrow> CT_THPOOL_CONFIG_INIT)\<rparr>)"

definition CT_THPOOL_ERROR_FOREACH :: "string list" where
  "CT_THPOOL_ERROR_FOREACH =
     [''normal'', ''thpool is closed'', ''thpool is overload'', ''invalid argument'', ''memory allocation failed'']"

definition ct_thpool_strerror :: "int \<Rightarrow> string" where
  "ct_thpool_strerror errcode =
     (if errcode < 0 \<or> errcode \<ge> int (length CT_THPOOL_ERROR_FOREACH) then ''unknown error''
      else CT_THPOOL_ERROR_FOREACH ! nat errcode)"

section \<open>Submitting\<close>

text \<open>\<open>thpool_worker_create\<close>: its answer, the pool, and what it notified.\<close>

definition thpool_worker_create :: "ct_thpool \<Rightarrow> spawn \<Rightarrow> ct_thpool_error \<times> ct_thpool \<times> tp_cv cv_event list" where
  "thpool_worker_create self spawn =
     (case spawn of
        No_memory \<Rightarrow> (TP_MEM_ALLOC, self, [])
      | No_thread \<Rightarrow>
          let self = self\<lparr>tp_live_count := tp_live_count self + 1\<rparr>;
              self = self\<lparr>tp_live_count := tp_live_count self - 1\<rparr>
          in (TP_MEM_ALLOC, self, [Broadcast Slot_cond])
      | Thread worker \<Rightarrow>
          let self = self\<lparr>tp_live_count := tp_live_count self + 1\<rparr>
          in (TP_NORMAL, self\<lparr>tp_live := tp_live self @ [worker]\<rparr>, []))"

text \<open>One turn of the loop of \<open>ct_thpool_submit\<close>, after \<open>evs\<close> were notified, and what follows its wait.\<close>

definition submit_turn :: "ct_thpool \<Rightarrow> nat \<Rightarrow> spawn \<Rightarrow> tp_section" where
  "submit_turn self task spawn =
     (if tp_closed self then (self, [], Returns (Submitted TP_CLOSED))
      else if cfg_max_tasks (tp_cfg self) = 0 \<or> tp_queued_count self < cfg_max_tasks (tp_cfg self) then
        let (rc, self, evs) =
              (if tp_waiting_count self = 0 \<and> (tp_capacity self = 0 \<or> tp_live_count self < tp_capacity self)
               then thpool_worker_create self spawn else (TP_NORMAL, self, []))
        in if rc \<noteq> TP_NORMAL then (self, evs, Returns (Submitted rc))
           else (self\<lparr>tp_queue := tp_queue self @ [task], tp_queued_count := tp_queued_count self + 1\<rparr>,
                 evs @ [Signal Task_cond], Returns (Submitted TP_NORMAL))
      else if cfg_non_blocking (tp_cfg self) then (self, [], Returns (Submitted TP_OVERLOAD))
      else (self\<lparr>tp_blocked_count := tp_blocked_count self + 1\<rparr>, [], Sleeps (SubmitWait task spawn None)))"

definition submit_after_wait :: "ct_thpool \<Rightarrow> nat \<Rightarrow> spawn \<Rightarrow> tp_section" where
  "submit_after_wait self task spawn =
     (let self = self\<lparr>tp_blocked_count := tp_blocked_count self - 1\<rparr>;
          evs = (if tp_blocked_count self = 0 then [Broadcast Slot_cond] else []);
          (self, more, out) = submit_turn self task spawn
      in (self, evs @ more, out))"

text \<open>The function before its loop; \<open>memory\<close> tells whether the task can be allocated.\<close>

definition ct_thpool_submit :: "ct_thpool option \<Rightarrow> nat option \<Rightarrow> bool \<Rightarrow> spawn \<Rightarrow> ct_thpool option \<times> tp_cv cv_event list \<times> (tp_wait, tp_result) outcome" where
  "ct_thpool_submit self routine memory spawn =
     (case self of
        None \<Rightarrow> (self, [], Returns (Submitted TP_CLOSED))
      | Some pool \<Rightarrow>
          (case routine of
             None \<Rightarrow> (self, [], Returns (Submitted TP_INVALID_ARG))
           | Some task \<Rightarrow>
               if \<not> memory then (self, [], Returns (Submitted TP_MEM_ALLOC))
               else apfst Some (submit_turn pool task spawn)))"

section \<open>Workers\<close>

text \<open>\<open>thpool_worker_retire\<close>, up to and from the joins outside the lock.\<close>

definition thpool_worker_retire_end :: "ct_thpool \<Rightarrow> nat \<Rightarrow> tp_section" where
  "thpool_worker_retire_end self worker =
     (self\<lparr>tp_live := remove1 worker (tp_live self), tp_retired := tp_retired self @ [worker],
        tp_live_count := tp_live_count self - 1\<rparr>,
      [Broadcast Slot_cond], Returns Exited)"

definition thpool_worker_retire :: "ct_thpool \<Rightarrow> nat \<Rightarrow> tp_section" where
  "thpool_worker_retire self worker =
     (if tp_retired self \<noteq> [] then
        let stale = tp_retired self in (self\<lparr>tp_retired := []\<rparr>, [], Returns (Joins stale))
      else thpool_worker_retire_end self worker)"

text \<open>The body of the outer loop after the inner one, and the inner loop up to its wait.  Here
  \<open>ct_cond_wait_for\<close> can answer at once only that the time is over.\<close>

definition worker_body :: "ct_thpool \<Rightarrow> nat \<Rightarrow> tp_section" where
  "worker_body self worker =
     (case tp_queue self of
        task # rest \<Rightarrow>
          let self = self\<lparr>tp_queue := rest, tp_queued_count := tp_queued_count self - 1\<rparr>
          in (self, if tp_blocked_count self > 0 then [Broadcast Slot_cond] else [], Returns (Runs task))
      | [] \<Rightarrow> thpool_worker_retire self worker)"

definition worker_wait :: "ct_thpool \<Rightarrow> (nat \<Rightarrow> int) \<Rightarrow> (int option, errno) outcome" where
  "worker_wait self clk =
     (if cfg_idle_timeout (tp_cfg self) > 0 then ct_cond_wait_for (sint (cfg_idle_timeout (tp_cfg self))) clk
      else Sleeps None)"

definition thpool_worker_thread :: "ct_thpool \<Rightarrow> nat \<Rightarrow> (nat \<Rightarrow> int) \<Rightarrow> tp_section" where
  "thpool_worker_thread self worker clk =
     (if tp_queue self = [] \<and> \<not> tp_closed self then
        case worker_wait self clk of
          Sleeps u \<Rightarrow> (self\<lparr>tp_waiting_count := tp_waiting_count self + 1\<rparr>, [], Sleeps (WorkerWait worker u))
        | Returns rc \<Rightarrow> worker_body self worker
      else worker_body self worker)"

text \<open>After the wait of the inner loop.\<close>

definition worker_after_wait :: "ct_thpool \<Rightarrow> nat \<Rightarrow> int option \<Rightarrow> errno \<Rightarrow> (nat \<Rightarrow> int) \<Rightarrow> tp_section" where
  "worker_after_wait self worker until result clk =
     (case cond_wait_result until result clk of
        Sleeps u \<Rightarrow> (self, [], Sleeps (WorkerWait worker u))
      | Returns rc \<Rightarrow>
          let timed_out = (cfg_idle_timeout (tp_cfg self) > 0 \<and> rc = ETIMEDOUT);
              self = self\<lparr>tp_waiting_count := tp_waiting_count self - 1\<rparr>
          in if timed_out \<and> \<not> tp_closed self \<and> tp_queue self = [] then worker_body self worker
             else thpool_worker_thread self worker (\<lambda>k. clk (k + 1)))"

section \<open>Closing and destroying\<close>

definition ct_thpool_close :: "ct_thpool option \<Rightarrow> ct_thpool option \<times> tp_cv cv_event list" where
  "ct_thpool_close self =
     (case self of
        None \<Rightarrow> (None, [])
      | Some pool \<Rightarrow> (Some (pool\<lparr>tp_closed := True\<rparr>), [Broadcast Task_cond, Broadcast Slot_cond]))"

text \<open>\<open>ct_thpool_destroy\<close> after it has closed the pool: it waits for the last worker and the last blocked
  submission, joins the retired workers and frees the pool.\<close>

definition thpool_drain :: "ct_thpool \<Rightarrow> tp_section" where
  "thpool_drain self =
     (if tp_live_count self > 0 \<or> tp_blocked_count self > 0 then (self, [], Sleeps (DestroyWait None))
      else (self, [], Returns (Drained (tp_retired self))))"

section \<open>The pool among threads\<close>

text \<open>Workers outside the lock: not yet arrived, running a task, or joining others.\<close>

datatype tp_phase = Starting | Running nat | Joining "nat list"

fun works :: "tp_phase \<Rightarrow> bool" where
  "works (Joining js) \<longleftrightarrow> False"
| "works _ \<longleftrightarrow> True"

record tp_world =
  tw_pool :: ct_thpool
  tw_outside :: "(nat \<times> tp_phase) list"

datatype tp_op = Submit nat spawn | Work nat | Finish nat | Close | Drain

text \<open>Where a worker goes at the end of a section.\<close>

fun next_phase :: "nat \<Rightarrow> (tp_wait, tp_result) outcome \<Rightarrow> (nat \<times> tp_phase) list" where
  "next_phase j (Returns (Runs t)) = [(j, Running t)]"
| "next_phase j (Returns (Joins js)) = [(j, Joining js)]"
| "next_phase j _ = []"

text \<open>A submission that created a worker lets it start.\<close>

definition started :: "ct_thpool \<Rightarrow> ct_thpool \<Rightarrow> (nat \<times> tp_phase) list" where
  "started p p' = map (\<lambda>j. (j, Starting)) (drop (length (tp_live p)) (tp_live p'))"

abbreviation "outside_arrives w j ph \<equiv> remove1 (j, ph) (tw_outside w)"

definition tp_call :: "(tp_op, tp_world, tp_cv, tp_wait, tp_result) crit" where
  "tp_call op w clk =
     (case op of
        Submit t sp \<Rightarrow>
          (case ct_thpool_submit (Some (tw_pool w)) (Some t) True sp of
             (p, evs, out) \<Rightarrow> Some (\<lparr>tw_pool = the p, tw_outside = tw_outside w @ started (tw_pool w) (the p)\<rparr>, evs, out))
      | Work j \<Rightarrow>
          (case map_of (tw_outside w) j of
             Some ph \<Rightarrow>
               if works ph then
                 (case thpool_worker_thread (tw_pool w) j clk of
                    (p, evs, out) \<Rightarrow> Some (\<lparr>tw_pool = p, tw_outside = outside_arrives w j ph @ next_phase j out\<rparr>, evs, out))
               else None
           | None \<Rightarrow> None)
      | Finish j \<Rightarrow>
          (case map_of (tw_outside w) j of
             Some (Joining js) \<Rightarrow>
               (case thpool_worker_retire_end (tw_pool w) j of
                  (p, evs, out) \<Rightarrow> Some (\<lparr>tw_pool = p, tw_outside = outside_arrives w j (Joining js)\<rparr>, evs, out))
           | _ \<Rightarrow> None)
      | Close \<Rightarrow>
          (case ct_thpool_close (Some (tw_pool w)) of (p, evs) \<Rightarrow> Some (w\<lparr>tw_pool := the p\<rparr>, evs, Returns Closed))
      | Drain \<Rightarrow>
          if tp_closed (tw_pool w)
          then (case thpool_drain (tw_pool w) of (p, evs, out) \<Rightarrow> Some (w\<lparr>tw_pool := p\<rparr>, evs, out))
          else None)"

definition tp_resume :: "(tp_wait \<times> errno, tp_world, tp_cv, tp_wait, tp_result) crit" where
  "tp_resume wrc w clk =
     (case fst wrc of
        WorkerWait j u \<Rightarrow>
          (case worker_after_wait (tw_pool w) j u (snd wrc) clk of
             (p, evs, out) \<Rightarrow> Some (\<lparr>tw_pool = p, tw_outside = tw_outside w @ next_phase j out\<rparr>, evs, out))
      | SubmitWait t sp u \<Rightarrow>
          (case submit_after_wait (tw_pool w) t sp of
             (p, evs, out) \<Rightarrow> Some (\<lparr>tw_pool = p, tw_outside = tw_outside w @ started (tw_pool w) p\<rparr>, evs, out))
      | DestroyWait u \<Rightarrow>
          (case thpool_drain (tw_pool w) of (p, evs, out) \<Rightarrow> Some (w\<lparr>tw_pool := p\<rparr>, evs, out)))"

abbreviation "tp_step \<equiv> mon_step tp_call tp_resume tp_cv_of tp_until"


section \<open>First in, first out, and exactly once\<close>

text \<open>The tasks whose submission a section reports as accepted, and the task it begins.\<close>

definition accepted_tasks :: "(tp_op, tp_wait, tp_result) label \<Rightarrow> nat list" where
  "accepted_tasks lab = (case lab of
     Called i (Submit t sp) (Returns (Submitted TP_NORMAL)) \<Rightarrow> [t]
   | Resumed i (SubmitWait t sp u) (Returns (Submitted TP_NORMAL)) \<Rightarrow> [t]
   | _ \<Rightarrow> [])"

definition begun_tasks :: "(tp_op, tp_wait, tp_result) label \<Rightarrow> nat list" where
  "begun_tasks lab = (case lab of
     Called i op (Returns (Runs t)) \<Rightarrow> [t]
   | Resumed i w (Returns (Runs t)) \<Rightarrow> [t]
   | _ \<Rightarrow> [])"

definition moves_tasks :: "ct_thpool \<Rightarrow> nat list \<Rightarrow> tp_section \<Rightarrow> bool" where
  "moves_tasks p ins sec \<longleftrightarrow> (case sec of (p', evs, out) \<Rightarrow>
     tp_queue p @ (case out of Returns (Submitted TP_NORMAL) \<Rightarrow> ins | _ \<Rightarrow> []) =
     (case out of Returns (Runs t) \<Rightarrow> [t] | _ \<Rightarrow> []) @ tp_queue p')"

lemma submit_turn_tasks: "moves_tasks p [t] (submit_turn p t sp)"
  by (auto simp: submit_turn_def moves_tasks_def thpool_worker_create_def Let_def split: spawn.splits if_splits)

lemma submit_after_wait_tasks: "moves_tasks p [t] (submit_after_wait p t sp)"
  using submit_turn_tasks [of "p\<lparr>tp_blocked_count := tp_blocked_count p - 1\<rparr>" t sp]
  by (auto simp: submit_after_wait_def moves_tasks_def Let_def split: prod.splits)

lemma worker_body_tasks: "moves_tasks p [] (worker_body p j)"
  by (auto simp: worker_body_def moves_tasks_def thpool_worker_retire_def thpool_worker_retire_end_def Let_def split: list.splits)

lemma worker_thread_tasks: "moves_tasks p [] (thpool_worker_thread p j clk)"
  using worker_body_tasks [of p j]
  by (auto simp: thpool_worker_thread_def) (auto simp: moves_tasks_def split: outcome.splits)

lemma worker_after_wait_tasks: "moves_tasks p [] (worker_after_wait p j u rc clk)"
  using worker_body_tasks [of "p\<lparr>tp_waiting_count := tp_waiting_count p - 1\<rparr>" j]
    worker_thread_tasks [of "p\<lparr>tp_waiting_count := tp_waiting_count p - 1\<rparr>" j "\<lambda>k. clk (k + 1)"]
  by (auto simp: worker_after_wait_def Let_def moves_tasks_def split: outcome.splits)

lemma call_tasks:
  assumes "tp_call op w clk = Some (w', evs, out)"
  shows "tp_queue (tw_pool w) @ accepted_tasks (Called i op out) = begun_tasks (Called i op out) @ tp_queue (tw_pool w')"
proof (cases op)
  case (Submit t sp)
  then show ?thesis
    using assms submit_turn_tasks [of "tw_pool w" t sp]
    by (cases "submit_turn (tw_pool w) t sp")
      (auto simp: tp_call_def ct_thpool_submit_def moves_tasks_def accepted_tasks_def begun_tasks_def
        split: outcome.splits tp_result.splits ct_thpool_error.splits)
next
  case (Work j)
  then show ?thesis
    using assms worker_thread_tasks [of "tw_pool w" j clk]
    by (cases "thpool_worker_thread (tw_pool w) j clk")
      (auto simp: tp_call_def moves_tasks_def accepted_tasks_def begun_tasks_def
        split: option.splits if_splits outcome.splits tp_result.splits ct_thpool_error.splits)
next
  case (Finish j)
  then show ?thesis
    using assms by (auto simp: tp_call_def thpool_worker_retire_end_def accepted_tasks_def begun_tasks_def
        split: option.splits tp_phase.splits)
next
  case Close
  then show ?thesis using assms by (auto simp: tp_call_def ct_thpool_close_def accepted_tasks_def begun_tasks_def)
next
  case Drain
  then show ?thesis
    using assms by (auto simp: tp_call_def thpool_drain_def accepted_tasks_def begun_tasks_def split: if_splits)
qed

lemma resume_tasks:
  assumes "tp_resume (wt, rc) w clk = Some (w', evs, out)"
  shows "tp_queue (tw_pool w) @ accepted_tasks (Resumed i wt out) = begun_tasks (Resumed i wt out) @ tp_queue (tw_pool w')"
proof (cases wt)
  case (WorkerWait j u)
  then show ?thesis
    using assms worker_after_wait_tasks [of "tw_pool w" j u rc clk]
    by (cases "worker_after_wait (tw_pool w) j u rc clk")
      (auto simp: tp_resume_def moves_tasks_def accepted_tasks_def begun_tasks_def
        split: outcome.splits tp_result.splits ct_thpool_error.splits)
next
  case (SubmitWait t sp u)
  then show ?thesis
    using assms submit_after_wait_tasks [of "tw_pool w" t sp]
    by (cases "submit_after_wait (tw_pool w) t sp")
      (auto simp: tp_resume_def moves_tasks_def accepted_tasks_def begun_tasks_def
        split: outcome.splits tp_result.splits ct_thpool_error.splits)
next
  case (DestroyWait u)
  then show ?thesis
    using assms by (auto simp: tp_resume_def thpool_drain_def accepted_tasks_def begun_tasks_def split: if_splits)
qed

lemma step_tasks:
  assumes "tp_step early (w, ps, now) lab (w', ps', now')"
  shows "tp_queue (tw_pool w) @ accepted_tasks lab = begun_tasks lab @ tp_queue (tw_pool w')"
  using assms
proof (cases rule: mon_step.cases)
  case step_call then show ?thesis using call_tasks by blast
next
  case step_woken then show ?thesis using resume_tasks by blast
next
  case step_elapsed then show ?thesis using resume_tasks by blast
qed (auto simp: accepted_tasks_def begun_tasks_def)

lemma run_tasks:
  assumes "mon_run (tp_step early) s tr t"
  shows "tp_queue (tw_pool (fst s)) @ concat (map accepted_tasks tr) =
    concat (map begun_tasks tr) @ tp_queue (tw_pool (fst t))"
  using assms
proof (induction rule: mon_run.induct)
  case (run_step s tr t lab u)
  obtain w ps now w' ps' now' where tu: "t = (w, ps, now)" "u = (w', ps', now')" by (cases t; cases u)
  have st: "tp_queue (tw_pool w) @ accepted_tasks lab = begun_tasks lab @ tp_queue (tw_pool w')"
    using step_tasks run_step.hyps(2) tu by blast
  have "(tp_queue (tw_pool (fst s)) @ concat (map accepted_tasks tr)) @ accepted_tasks lab =
      concat (map begun_tasks tr) @ (tp_queue (tw_pool w) @ accepted_tasks lab)" using run_step.IH tu by simp
  then show ?case using st tu by simp
qed simp


section \<open>Nothing is left behind when workers stay\<close>

text \<open>The balance between the counters, the threads of the three kinds (asleep or woken) and the workers outside
  the lock, for a pool whose workers do not leave when idle.  Tasks in the queue have a worker on the way;
  workers join others only when all is done; nobody sleeps for a reason that has gone.\<close>

definition tp_balance ::
  "ct_thpool \<Rightarrow> (nat \<times> tp_phase) list \<Rightarrow> nat \<Rightarrow> nat \<Rightarrow> nat \<Rightarrow> nat \<Rightarrow> nat \<Rightarrow> nat \<Rightarrow> bool" where
  "tp_balance p outs hand ws ww ss sw ds \<longleftrightarrow>
     cfg_idle_timeout (tp_cfg p) = 0 \<and>
     tp_live_count p = ws + ww + length outs + hand \<and>
     tp_waiting_count p = ws + ww \<and>
     tp_blocked_count p = ss + sw \<and>
     tp_queued_count p = length (tp_queue p) \<and>
     (tp_queue p \<noteq> [] \<longrightarrow> 0 < ww \<or> 0 < hand \<or> (\<exists>x \<in> set outs. works (snd x))) \<and>
     (\<forall>x \<in> set outs. \<not> works (snd x) \<longrightarrow> tp_closed p \<and> tp_queue p = []) \<and>
     (tp_closed p \<longrightarrow> ws = 0 \<and> ss = 0) \<and>
     (0 < ss \<longrightarrow> cfg_max_tasks (tp_cfg p) \<noteq> 0 \<and> cfg_max_tasks (tp_cfg p) \<le> tp_queued_count p) \<and>
     (0 < ds \<longrightarrow> tp_closed p \<and> (0 < tp_live_count p \<or> 0 < tp_blocked_count p))"

text \<open>The numbers of sleeping and woken workers, sleeping and woken submitters, and sleeping destroyers; how
  notifications change them, how the thread that runs a section counted before, and how it counts after.\<close>

type_synonym tp_counts = "nat \<times> nat \<times> nat \<times> nat \<times> nat"

fun count_event :: "tp_cv cv_event \<Rightarrow> tp_counts \<Rightarrow> tp_counts" where
  "count_event (Broadcast Slot_cond) (ws, ww, ss, sw, ds) = (ws, ww, 0, sw + ss, 0)"
| "count_event (Broadcast Task_cond) (ws, ww, ss, sw, ds) = (0, ww + ws, ss, sw, ds)"
| "count_event (Signal Task_cond) (ws, ww, ss, sw, ds) = (if ws = 0 then (ws, ww, ss, sw, ds) else (ws - 1, Suc ww, ss, sw, ds))"
| "count_event (Signal Slot_cond) cs = cs"

fun count_before :: "(tp_wait, tp_result) thread \<Rightarrow> tp_counts \<Rightarrow> tp_counts" where
  "count_before (Woken (WorkerWait j u)) (ws, ww, ss, sw, ds) = (ws, ww - 1, ss, sw, ds)"
| "count_before (Woken (SubmitWait t sp u)) (ws, ww, ss, sw, ds) = (ws, ww, ss, sw - 1, ds)"
| "count_before _ cs = cs"

fun count_after :: "(tp_wait, tp_result) outcome \<Rightarrow> tp_counts \<Rightarrow> tp_counts" where
  "count_after (Sleeps (WorkerWait j u)) (ws, ww, ss, sw, ds) = (Suc ws, ww, ss, sw, ds)"
| "count_after (Sleeps (SubmitWait t sp u)) (ws, ww, ss, sw, ds) = (ws, ww, Suc ss, sw, ds)"
| "count_after (Sleeps (DestroyWait u)) (ws, ww, ss, sw, ds) = (ws, ww, ss, sw, Suc ds)"
| "count_after (Returns r) cs = cs"

abbreviation "asleep_of k ps \<equiv> tally (sleeps_on tp_kind_of k) ps"

abbreviation "woken_of k ps \<equiv> tally (woken_from tp_kind_of k) ps"

definition tp_counts_of :: "(tp_wait, tp_result) thread list \<Rightarrow> tp_counts" where
  "tp_counts_of ps = (asleep_of Worker ps, woken_of Worker ps, asleep_of Submitter ps, woken_of Submitter ps, asleep_of Destroyer ps)"

lemma event_counts:
  assumes "wakes tp_cv_of e ps qs" "e \<noteq> Signal Slot_cond"
  shows "tp_counts_of qs = count_event e (tp_counts_of ps)"
proof (cases e)
  case (Broadcast c)
  with assms broadcast_kinds [of cv_of_kind tp_kind_of c ps qs] show ?thesis
    by (cases c) (simp_all add: tp_counts_of_def)
next
  case (Signal c)
  then have "c = Task_cond" using assms(2) by (cases c) auto
  moreover have "cv_of_kind k = Task_cond \<longleftrightarrow> k = Worker" for k by (cases k) auto
  ultimately have w: "wakes tp_kind_of (Signal Worker) ps qs"
    using signal_kinds [of cv_of_kind tp_kind_of Task_cond ps qs Worker] assms(1) Signal by blast
  have others: "asleep_of k qs = asleep_of k ps \<and> woken_of k qs = woken_of k ps" if "k \<noteq> Worker" for k
    using signal_counts(3) [OF w that] .
  show ?thesis
    using signal_counts(2) [OF w] others [of Submitter] others [of Destroyer] Signal \<open>c = Task_cond\<close>
    by (auto simp: tp_counts_of_def)
qed

lemma events_counts:
  "wakes_all tp_cv_of es ps qs \<Longrightarrow> Signal Slot_cond \<notin> set es \<Longrightarrow> tp_counts_of qs = fold count_event es (tp_counts_of ps)"
proof (induction es arbitrary: ps)
  case (Cons e es)
  then obtain rs where "wakes tp_cv_of e ps rs" "wakes_all tp_cv_of es rs qs" by auto
  with event_counts [of e ps rs] Cons.IH [of rs] Cons.prems show ?case by auto
qed simp

lemma end_counts:
  assumes i: "i < length qs" "\<not> asleep (qs ! i)"
  shows "tp_counts_of (qs[i := thread_after out]) = count_after out (count_before (qs ! i) (tp_counts_of qs))"
proof -
  have s: "asleep_of k (qs[i := thread_after out]) = asleep_of k qs + (if sleeps_on tp_kind_of k (thread_after out) then 1 else 0)" for k
    using section_counts(1) [where cv = tp_kind_of and c = k and out = out, OF i(1) asleep_sleeps_on(1) [OF i(2)]] .
  have w: "woken_of k (qs[i := thread_after out]) = woken_of k qs - (if woken_from tp_kind_of k (qs ! i) then 1 else 0)" for k
    using section_counts(2) [where cv = tp_kind_of and c = k and out = out, OF i(1) asleep_sleeps_on(1) [OF i(2)]] by simp
  have b: "count_before (qs ! i) (tp_counts_of qs) =
      (asleep_of Worker qs, woken_of Worker (qs[i := thread_after out]), asleep_of Submitter qs,
       woken_of Submitter (qs[i := thread_after out]), asleep_of Destroyer qs)"
  proof (cases "qs ! i")
    case (Woken x)
    then show ?thesis by (cases x) (simp_all add: tp_counts_of_def w)
  qed (simp_all add: tp_counts_of_def w)
  show ?thesis
  proof (cases out)
    case (Sleeps x)
    then show ?thesis
      using s [of Worker] s [of Submitter] s [of Destroyer] unfolding b by (cases x) (simp_all add: tp_counts_of_def)
  next
    case (Returns r)
    then show ?thesis
      using s [of Worker] s [of Submitter] s [of Destroyer] unfolding b by (simp add: tp_counts_of_def)
  qed
qed


subsection \<open>Sections keep the balance\<close>

definition balanced :: "ct_thpool \<Rightarrow> (nat \<times> tp_phase) list \<Rightarrow> nat \<Rightarrow> tp_counts \<Rightarrow> bool" where
  "balanced p outs hand cs \<longleftrightarrow> (case cs of (ws, ww, ss, sw, ds) \<Rightarrow> tp_balance p outs hand ws ww ss sw ds)"

text \<open>What a section has to leave: \<open>hand\<close> tells whether it was run by a worker that came from outside or was woken,
  and is counted nowhere else.\<close>

definition leaves_balance :: "tp_section \<Rightarrow> (ct_thpool \<Rightarrow> (tp_wait, tp_result) outcome \<Rightarrow> (nat \<times> tp_phase) list) \<Rightarrow> tp_counts \<Rightarrow> bool" where
  "leaves_balance sec outs cs \<longleftrightarrow> (case sec of (p', evs, out) \<Rightarrow>
     Signal Slot_cond \<notin> set evs \<and> balanced p' (outs p' out) 0 (count_after out (fold count_event evs cs)))"

lemma tp_balance_dest:
  assumes "tp_balance p outs hand ws ww ss sw ds"
  shows "cfg_idle_timeout (tp_cfg p) = 0" "tp_live_count p = ws + ww + length outs + hand" "tp_waiting_count p = ws + ww"
    "tp_blocked_count p = ss + sw" "tp_queued_count p = length (tp_queue p)"
    "tp_queue p \<noteq> [] \<Longrightarrow> 0 < ww \<or> 0 < hand \<or> (\<exists>x \<in> set outs. works (snd x))"
    "x \<in> set outs \<Longrightarrow> \<not> works (snd x) \<Longrightarrow> tp_closed p \<and> tp_queue p = []"
    "tp_closed p \<Longrightarrow> ws = 0 \<and> ss = 0"
    "0 < ss \<Longrightarrow> cfg_max_tasks (tp_cfg p) \<noteq> 0 \<and> cfg_max_tasks (tp_cfg p) \<le> tp_queued_count p"
    "0 < ds \<Longrightarrow> tp_closed p \<and> (0 < tp_live_count p \<or> 0 < tp_blocked_count p)"
  using assms unfolding tp_balance_def by (blast, blast, blast, blast, blast, blast, blast, blast, blast, auto)

lemma tp_balance_intro:
  assumes "cfg_idle_timeout (tp_cfg p) = 0" "tp_live_count p = ws + ww + length outs + hand" "tp_waiting_count p = ws + ww"
    "tp_blocked_count p = ss + sw" "tp_queued_count p = length (tp_queue p)"
    "tp_queue p \<noteq> [] \<Longrightarrow> 0 < ww \<or> 0 < hand \<or> (\<exists>x \<in> set outs. works (snd x))"
    "\<And>x. x \<in> set outs \<Longrightarrow> \<not> works (snd x) \<Longrightarrow> tp_closed p \<and> tp_queue p = []"
    "tp_closed p \<Longrightarrow> ws = 0 \<and> ss = 0"
    "0 < ss \<Longrightarrow> cfg_max_tasks (tp_cfg p) \<noteq> 0 \<and> cfg_max_tasks (tp_cfg p) \<le> tp_queued_count p"
    "0 < ds \<Longrightarrow> tp_closed p \<and> (0 < tp_live_count p \<or> 0 < tp_blocked_count p)"
  shows "tp_balance p outs hand ws ww ss sw ds"
  using assms unfolding tp_balance_def by blast

text \<open>Notifications by themselves never hurt.\<close>

lemma event_balance: "balanced p outs hand cs \<Longrightarrow> balanced p outs hand (count_event e cs)"
proof -
  obtain ws ww ss sw ds where cs: "cs = (ws, ww, ss, sw, ds)" by (cases cs)
  have "balanced p outs hand (count_event e cs)" if b: "tp_balance p outs hand ws ww ss sw ds"
  proof -
    note d = tp_balance_dest [OF b]
    have "tp_balance p outs hand ws ww 0 (sw + ss) 0" using d by (intro tp_balance_intro) auto
    moreover have "tp_balance p outs hand 0 (ww + ws) ss sw ds" using d by (intro tp_balance_intro) auto
    moreover have "tp_balance p outs hand (ws - 1) (Suc ww) ss sw ds" if "ws \<noteq> 0"
      using d that by (intro tp_balance_intro) auto
    ultimately show ?thesis
      using b by (cases "(e, cs)" rule: count_event.cases) (auto simp: cs balanced_def)
  qed
  then show "balanced p outs hand cs \<Longrightarrow> balanced p outs hand (count_event e cs)" by (simp add: cs balanced_def)
qed

lemma events_balance: "balanced p outs hand cs \<Longrightarrow> balanced p outs hand (fold count_event es cs)"
proof (induction es arbitrary: cs)
  case (Cons e es)
  then show ?case using event_balance [of p outs hand cs e] by (simp del: count_event.simps)
qed simp

lemma submit_turn_balance:
  assumes b: "tp_balance p outs 0 ws ww ss sw ds"
  shows "leaves_balance (submit_turn p t sp) (\<lambda>p' out. outs @ started p p') (ws, ww, ss, sw, ds)"
proof -
  note d = tp_balance_dest [OF b]
  have same: "started p p = []" "started p (p\<lparr>tp_blocked_count := k\<rparr>) = []" for k by (simp_all add: started_def)
  let ?room = "cfg_max_tasks (tp_cfg p) = 0 \<or> tp_queued_count p < cfg_max_tasks (tp_cfg p)"
  let ?new = "tp_waiting_count p = 0 \<and> (tp_capacity p = 0 \<or> tp_live_count p < tp_capacity p)"
  let ?put = "\<lambda>p. p\<lparr>tp_queue := tp_queue p @ [t], tp_queued_count := tp_queued_count p + 1\<rparr>"
  consider "tp_closed p \<or> \<not> ?room \<and> cfg_non_blocking (tp_cfg p)" | "\<not> tp_closed p" "\<not> ?room" "\<not> cfg_non_blocking (tp_cfg p)"
    | "\<not> tp_closed p" "?room" "\<not> ?new" | "\<not> tp_closed p" "?room" "?new" by blast
  then show ?thesis
  proof cases
    case 1
    then have "\<exists>r. submit_turn p t sp = (p, [], Returns r)"
      by (cases "tp_closed p") (simp_all add: submit_turn_def)
    then obtain r where "submit_turn p t sp = (p, [], Returns r)" by blast
    with b show ?thesis by (simp add: leaves_balance_def balanced_def same)
  next
    case 2
    then have "submit_turn p t sp = (p\<lparr>tp_blocked_count := tp_blocked_count p + 1\<rparr>, [], Sleeps (SubmitWait t sp None))"
      by (simp add: submit_turn_def)
    moreover have "tp_balance (p\<lparr>tp_blocked_count := tp_blocked_count p + 1\<rparr>) outs 0 ws ww (Suc ss) sw ds"
      using d 2 by (intro tp_balance_intro) auto
    ultimately show ?thesis by (simp add: leaves_balance_def balanced_def same)
  next
    case 3
    then have sec: "submit_turn p t sp = (?put p, [Signal Task_cond], Returns (Submitted TP_NORMAL))"
      by (auto simp: submit_turn_def)
    have ss: "ss = 0" using d(9) 3(2) by linarith
    have act: "0 < ww \<or> (\<exists>x \<in> set outs. works (snd x))" if "ws = 0"
    proof (cases "ww = 0")
      case True
      then have "outs \<noteq> []" using d(2,3) 3(3) that by auto
      then obtain x where "x \<in> set outs" by (cases outs) auto
      then show ?thesis using d(7) [of x] 3(1) by blast
    qed simp
    have "tp_balance (?put p) outs 0 ws ww ss sw ds" if "ws = 0"
      using d 3(1) ss act [OF that] by (intro tp_balance_intro) auto
    moreover have "tp_balance (?put p) outs 0 (ws - 1) (Suc ww) ss sw ds" if "ws \<noteq> 0"
      using d 3(1) ss that by (intro tp_balance_intro) auto
    moreover have "started p (?put p) = []" by (simp add: started_def)
    ultimately show ?thesis by (simp add: sec leaves_balance_def balanced_def)
  next
    case 4
    then have w: "ws = 0" "ww = 0" using d(3) by auto
    have ss: "ss = 0" using d(9) 4(2) by linarith
    show ?thesis
    proof (cases sp)
      case No_memory
      then have "submit_turn p t sp = (p, [], Returns (Submitted TP_MEM_ALLOC))"
        using 4 by (simp add: submit_turn_def thpool_worker_create_def)
      with b show ?thesis by (simp add: leaves_balance_def balanced_def same)
    next
      case No_thread
      then have "submit_turn p t sp = (p, [Broadcast Slot_cond], Returns (Submitted TP_MEM_ALLOC))"
        using 4 by (simp add: submit_turn_def thpool_worker_create_def Let_def)
      with b show ?thesis
        using event_balance [of p outs 0 "(ws, ww, ss, sw, ds)" "Broadcast Slot_cond"]
        by (simp add: leaves_balance_def balanced_def same)
    next
      case (Thread j)
      let ?q = "p\<lparr>tp_live_count := tp_live_count p + 1, tp_live := tp_live p @ [j]\<rparr>"
      have sec: "submit_turn p t sp = (?put ?q, [Signal Task_cond], Returns (Submitted TP_NORMAL))"
        using 4 Thread by (simp add: submit_turn_def thpool_worker_create_def Let_def)
      have "tp_balance (?put ?q) (outs @ [(j, Starting)]) 0 ws ww ss sw ds"
        using d 4(1) w ss by (intro tp_balance_intro) auto
      moreover have "started p (?put ?q) = [(j, Starting)]" by (simp add: started_def)
      ultimately show ?thesis using w by (simp add: sec leaves_balance_def balanced_def)
    qed
  qed
qed


text \<open>A blocked submission that goes on gives up its place first.\<close>

lemma submit_after_wait_balance:
  assumes b: "tp_balance p outs 0 ws ww ss (Suc sw) ds"
  shows "leaves_balance (submit_after_wait p t sp) (\<lambda>p' out. outs @ started p p') (ws, ww, ss, sw, ds)"
proof -
  note d = tp_balance_dest [OF b]
  define q where "q = p\<lparr>tp_blocked_count := tp_blocked_count p - 1\<rparr>"
  obtain p' more out where sec: "submit_turn q t sp = (p', more, out)" by (cases "submit_turn q t sp")
  have q: "tp_blocked_count q = ss + sw" "started p p' = started q p'" using d(4) by (simp_all add: q_def started_def)
  have after: "submit_after_wait p t sp = (p', (if ss + sw = 0 then [Broadcast Slot_cond] else []) @ more, out)"
    unfolding submit_after_wait_def Let_def q_def [symmetric] sec using q(1) by simp
  show ?thesis
  proof (cases "ss + sw = 0")
    case True
    have "tp_balance q outs 0 ws ww 0 sw 0" using d True unfolding q_def by (intro tp_balance_intro) auto
    from submit_turn_balance [OF this, of t sp] show ?thesis
      using True by (simp add: after sec leaves_balance_def q)
  next
    case False
    have "tp_balance q outs 0 ws ww ss sw ds" using d False unfolding q_def by (intro tp_balance_intro) auto
    from submit_turn_balance [OF this, of t sp] show ?thesis
      using False by (auto simp add: after sec leaves_balance_def q)
  qed
qed

lemma retire_end_balance:
  assumes b: "tp_balance p outs 1 ws ww ss sw ds" and q: "tp_queue p = []"
  shows "leaves_balance (thpool_worker_retire_end p j) (\<lambda>p' out. outs) (ws, ww, ss, sw, ds)"
proof -
  note d = tp_balance_dest [OF b]
  have "tp_balance (fst (thpool_worker_retire_end p j)) outs 0 ws ww 0 (sw + ss) 0"
    using d q unfolding thpool_worker_retire_end_def by (intro tp_balance_intro) auto
  then show ?thesis by (simp add: thpool_worker_retire_end_def leaves_balance_def balanced_def)
qed

lemma worker_body_balance:
  assumes b: "tp_balance p outs 1 ws ww ss sw ds" and q: "tp_queue p = [] \<Longrightarrow> tp_closed p"
  shows "leaves_balance (worker_body p j) (\<lambda>p' out. outs @ next_phase j out) (ws, ww, ss, sw, ds)"
proof -
  note d = tp_balance_dest [OF b]
  show ?thesis
  proof (cases "tp_queue p")
    case Nil
    then have closed: "tp_closed p" using q by simp
    show ?thesis
    proof (cases "tp_retired p = []")
      case True
      then have sec: "worker_body p j = thpool_worker_retire_end p j" using Nil by (simp add: worker_body_def thpool_worker_retire_def)
      have "snd (snd (thpool_worker_retire_end p j)) = Returns Exited" by (simp add: thpool_worker_retire_end_def)
      with retire_end_balance [OF b Nil, of j] show ?thesis
        by (auto simp add: sec leaves_balance_def split: prod.splits)
    next
      case False
      let ?p = "p\<lparr>tp_retired := []\<rparr>"
      have sec: "worker_body p j = (?p, [], Returns (Joins (tp_retired p)))"
        using Nil False by (simp add: worker_body_def thpool_worker_retire_def)
      have "tp_balance ?p (outs @ [(j, Joining (tp_retired p))]) 0 ws ww ss sw ds"
        using d Nil closed by (intro tp_balance_intro) auto
      then show ?thesis by (simp add: sec leaves_balance_def balanced_def)
    qed
  next
    case (Cons t rest)
    let ?p = "p\<lparr>tp_queue := rest, tp_queued_count := tp_queued_count p - 1\<rparr>"
    have all: "works (snd x)" if "x \<in> set outs" for x using d(7) [OF that] Cons by auto
    show ?thesis
    proof (cases "tp_blocked_count p > 0")
      case True
      then have "worker_body p j = (?p, [Broadcast Slot_cond], Returns (Runs t))" using Cons by (simp add: worker_body_def Let_def)
      moreover have "tp_balance ?p (outs @ [(j, Running t)]) 0 ws ww 0 (sw + ss) 0"
        using d Cons all by (intro tp_balance_intro) auto
      ultimately show ?thesis by (simp add: leaves_balance_def balanced_def)
    next
      case False
      then have "worker_body p j = (?p, [], Returns (Runs t))" using Cons by (simp add: worker_body_def Let_def)
      moreover have "tp_balance ?p (outs @ [(j, Running t)]) 0 ws ww ss sw ds"
        using d Cons all False by (intro tp_balance_intro) auto
      ultimately show ?thesis by (simp add: leaves_balance_def balanced_def)
    qed
  qed
qed

lemma worker_thread_balance:
  assumes b: "tp_balance p outs 1 ws ww ss sw ds"
  shows "leaves_balance (thpool_worker_thread p j clk) (\<lambda>p' out. outs @ next_phase j out) (ws, ww, ss, sw, ds)"
proof (cases "tp_queue p = [] \<and> \<not> tp_closed p")
  case True
  note d = tp_balance_dest [OF b]
  have "thpool_worker_thread p j clk = (p\<lparr>tp_waiting_count := tp_waiting_count p + 1\<rparr>, [], Sleeps (WorkerWait j None))"
    using True d(1) by (simp add: thpool_worker_thread_def worker_wait_def)
  moreover have "tp_balance (p\<lparr>tp_waiting_count := tp_waiting_count p + 1\<rparr>) outs 0 (Suc ws) ww ss sw ds"
    using d True by (intro tp_balance_intro) auto
  ultimately show ?thesis by (simp add: leaves_balance_def balanced_def)
next
  case False
  then show ?thesis using worker_body_balance [OF b] by (auto simp: thpool_worker_thread_def)
qed

lemma worker_after_wait_balance:
  assumes b: "tp_balance p outs 0 ws (Suc ww) ss sw ds"
  shows "leaves_balance (worker_after_wait p j None E_OK clk) (\<lambda>p' out. outs @ next_phase j out) (ws, ww, ss, sw, ds)"
proof -
  note d = tp_balance_dest [OF b]
  have "tp_balance (p\<lparr>tp_waiting_count := tp_waiting_count p - 1\<rparr>) outs 1 ws ww ss sw ds"
    using d by (intro tp_balance_intro) auto
  from worker_thread_balance [OF this] show ?thesis using d(1) by (simp add: worker_after_wait_def)
qed

lemma drain_balance:
  assumes b: "tp_balance p outs 0 ws ww ss sw ds" and closed: "tp_closed p"
  shows "leaves_balance (thpool_drain p) (\<lambda>p' out. outs) (ws, ww, ss, sw, ds)"
proof (cases "tp_live_count p > 0 \<or> tp_blocked_count p > 0")
  case True
  note d = tp_balance_dest [OF b]
  have "tp_balance p outs 0 ws ww ss sw (Suc ds)" using d True closed by (intro tp_balance_intro) auto
  with True show ?thesis by (simp add: thpool_drain_def leaves_balance_def balanced_def)
next
  case False
  with b show ?thesis by (simp add: thpool_drain_def leaves_balance_def balanced_def)
qed

lemma close_balance:
  assumes b: "tp_balance p outs 0 ws ww ss sw ds"
  shows "tp_balance (p\<lparr>tp_closed := True\<rparr>) outs 0 0 (ww + ws) 0 (sw + ss) 0"
  using tp_balance_dest [OF b] by (intro tp_balance_intro) auto

text \<open>A worker that arrives from outside is in hand.\<close>

lemma arrive_balance:
  assumes b: "tp_balance p outs 0 ws ww ss sw ds" and x: "x \<in> set outs"
  shows "tp_balance p (remove1 x outs) 1 ws ww ss sw ds"
proof -
  note d = tp_balance_dest [OF b]
  have "Suc (length (remove1 x outs)) = length outs" using x by (induction outs) auto
  moreover have "set (remove1 x outs) \<subseteq> set outs" by (rule set_remove1_subset)
  ultimately show ?thesis using d by (intro tp_balance_intro) auto
qed


subsection \<open>The invariant\<close>

text \<open>Beside the balance: no wait of such a pool is timed, so none elapses, and who waits to destroy the pool has
  closed it.\<close>

fun tp_local :: "bool \<Rightarrow> (tp_wait, tp_result) thread \<Rightarrow> bool" where
  "tp_local closed (Asleep w) \<longleftrightarrow> tp_until w = None \<and> (tp_kind_of w = Destroyer \<longrightarrow> closed)"
| "tp_local closed (Woken w) \<longleftrightarrow> tp_until w = None \<and> (tp_kind_of w = Destroyer \<longrightarrow> closed)"
| "tp_local closed (Elapsed w) \<longleftrightarrow> False"
| "tp_local closed _ \<longleftrightarrow> True"

definition tp_inv :: "tp_world \<Rightarrow> (tp_wait, tp_result) thread list \<Rightarrow> bool" where
  "tp_inv w ps \<longleftrightarrow> balanced (tw_pool w) (tw_outside w) 0 (tp_counts_of ps) \<and> (\<forall>p \<in> set ps. tp_local (tp_closed (tw_pool w)) p)"

text \<open>Sections keep the pool closed, and their waits are not timed.\<close>

lemma submit_turn_local:
  "submit_turn p t sp = (p', evs, out) \<Longrightarrow> tp_closed p' = tp_closed p \<and> tp_local c (thread_after out)"
  by (auto simp: submit_turn_def thpool_worker_create_def Let_def split: spawn.splits if_splits)

lemma submit_after_wait_local:
  "submit_after_wait p t sp = (p', evs, out) \<Longrightarrow> tp_closed p' = tp_closed p \<and> tp_local c (thread_after out)"
  using submit_turn_local [of "p\<lparr>tp_blocked_count := tp_blocked_count p - 1\<rparr>" t sp]
  by (auto simp: submit_after_wait_def Let_def split: prod.splits)

lemma worker_body_local:
  "worker_body p j = (p', evs, out) \<Longrightarrow> tp_closed p' = tp_closed p \<and> tp_local c (thread_after out)"
  by (auto simp: worker_body_def thpool_worker_retire_def thpool_worker_retire_end_def Let_def split: list.splits if_splits)

lemma worker_thread_local:
  "cfg_idle_timeout (tp_cfg p) = 0 \<Longrightarrow> thpool_worker_thread p j clk = (p', evs, out) \<Longrightarrow>
   tp_closed p' = tp_closed p \<and> tp_local c (thread_after out)"
  using worker_body_local [of p j p' evs out c] by (auto simp: thpool_worker_thread_def worker_wait_def split: if_splits)

lemma worker_after_wait_local:
  "cfg_idle_timeout (tp_cfg p) = 0 \<Longrightarrow> worker_after_wait p j u E_OK clk = (p', evs, out) \<Longrightarrow>
   tp_closed p' = tp_closed p \<and> tp_local c (thread_after out)"
  using worker_thread_local [of "p\<lparr>tp_waiting_count := tp_waiting_count p - 1\<rparr>" j "\<lambda>k. clk (k + 1)"]
  by (auto simp: worker_after_wait_def Let_def)

lemma drain_local:
  "thpool_drain p = (p', evs, out) \<Longrightarrow> p' = p \<and> (tp_closed p \<longrightarrow> tp_local (tp_closed p) (thread_after out))"
  by (auto simp: thpool_drain_def split: if_splits)

text \<open>One section of a thread, given what it leaves.\<close>

lemma count_before_commute:
  assumes "count_before q cs = (ws, ww, ss, sw, ds)"
    and "cs = (case q of Woken (WorkerWait j u) \<Rightarrow> (ws, Suc ww, ss, sw, ds) | Woken (SubmitWait t sp u) \<Rightarrow> (ws, ww, ss, Suc sw, ds)
      | _ \<Rightarrow> (ws, ww, ss, sw, ds))"
  shows "count_before q (fold count_event es cs) = fold count_event es (ws, ww, ss, sw, ds)"
  using assms
proof (induction es arbitrary: cs ws ww ss sw ds)
  case (Cons e es)
  obtain ws' ww' ss' sw' ds' where c: "count_event e (ws, ww, ss, sw, ds) = (ws', ww', ss', sw', ds')"
    by (cases "count_event e (ws, ww, ss, sw, ds)")
  have cs: "count_event e cs = (case q of Woken (WorkerWait j u) \<Rightarrow> (ws', Suc ww', ss', sw', ds')
      | Woken (SubmitWait t sp u) \<Rightarrow> (ws', ww', ss', Suc sw', ds') | _ \<Rightarrow> (ws', ww', ss', sw', ds'))"
    using c Cons.prems(2)
    by (cases "(e, (ws, ww, ss, sw, ds))" rule: count_event.cases) (auto split: thread.splits tp_wait.splits if_splits)
  have "count_before q (count_event e cs) = (ws', ww', ss', sw', ds')"
    unfolding cs by (auto split: thread.splits tp_wait.splits)
  from Cons.IH [OF this cs] c show ?case by simp
qed simp


lemma counts_split:
  assumes "i < length ps" "count_before (ps ! i) (tp_counts_of ps) = (ws, ww, ss, sw, ds)"
  shows "tp_counts_of ps = (case ps ! i of Woken (WorkerWait j u) \<Rightarrow> (ws, Suc ww, ss, sw, ds)
      | Woken (SubmitWait t sp u) \<Rightarrow> (ws, ww, ss, Suc sw, ds) | _ \<Rightarrow> (ws, ww, ss, sw, ds))"
proof (cases "ps ! i")
  case (Woken w)
  then show ?thesis
    using assms(2) tally_pos [OF assms(1), of "woken_from tp_kind_of (tp_kind_of w)"]
    by (cases w) (auto simp: tp_counts_of_def)
qed (use assms(2) in simp_all)

lemma section_inv:
  assumes inv: "tp_inv w ps" and i: "i < length ps" "\<not> asleep (ps ! i)"
    and cs: "count_before (ps ! i) (tp_counts_of ps) = (ws, ww, ss, sw, ds)"
    and leaves: "leaves_balance (p', evs, out) outs (ws, ww, ss, sw, ds)"
    and closed: "tp_closed (tw_pool w) \<Longrightarrow> tp_closed p'" and local: "tp_local (tp_closed p') (thread_after out)"
    and wakes: "wakes_all tp_cv_of evs ps qs"
  shows "tp_inv \<lparr>tw_pool = p', tw_outside = outs p' out\<rparr> (qs[i := thread_after out])"
proof -
  have no: "Signal Slot_cond \<notin> set evs"
    and b: "balanced p' (outs p' out) 0 (count_after out (fold count_event evs (ws, ww, ss, sw, ds)))"
    using leaves by (simp_all add: leaves_balance_def)
  have q: "i < length qs" "qs ! i = ps ! i" using wakes_all_keeps [OF wakes i] by simp_all
  then have "tp_counts_of (qs[i := thread_after out]) =
      count_after out (count_before (ps ! i) (fold count_event evs (tp_counts_of ps)))"
    using end_counts [of i qs out] i(2) events_counts [OF wakes no] by simp
  also have "count_before (ps ! i) (fold count_event evs (tp_counts_of ps)) = fold count_event evs (ws, ww, ss, sw, ds)"
    by (rule count_before_commute [OF cs counts_split [OF i(1) cs]])
  finally have counts: "balanced p' (outs p' out) 0 (tp_counts_of (qs[i := thread_after out]))" using b by simp
  have "tp_local (tp_closed p') p" if "tp_local (tp_closed (tw_pool w)) p" for p
    using that closed by (cases p) auto
  with inv have "\<forall>p \<in> set ps. tp_local (tp_closed p') p" by (auto simp: tp_inv_def)
  from wakes_all_local [OF wakes this] have "\<forall>p \<in> set qs. tp_local (tp_closed p') p" by simp
  then have "\<forall>p \<in> set (qs[i := thread_after out]). tp_local (tp_closed p') p" using local by (rule update_local)
  with counts show ?thesis by (simp add: tp_inv_def)
qed

lemma tp_inv_balance:
  assumes "tp_inv w ps" and "count_before p (tp_counts_of ps) = (ws, ww, ss, sw, ds)" and "p = Idle \<or> p = Woken (DestroyWait u)"
  shows "tp_balance (tw_pool w) (tw_outside w) 0 ws ww ss sw ds"
  using assms by (auto simp: tp_inv_def balanced_def)

lemma call_inv:
  assumes inv: "tp_inv w ps" and i: "i < length ps" "ps ! i = Idle" and call: "tp_call op w clk = Some (w', evs, out)"
    and wakes: "wakes_all tp_cv_of evs ps qs"
  shows "tp_inv w' (qs[i := thread_after out])"
proof -
  obtain ws ww ss sw ds where cs: "tp_counts_of ps = (ws, ww, ss, sw, ds)" by (cases "tp_counts_of ps")
  have b: "tp_balance (tw_pool w) (tw_outside w) 0 ws ww ss sw ds" using inv cs by (simp add: tp_inv_def balanced_def)
  have idle: "cfg_idle_timeout (tp_cfg (tw_pool w)) = 0" using tp_balance_dest(1) [OF b] .
  note sec = section_inv [OF inv i(1) _ _ _ _ _ wakes, where ws = ws and ww = ww and ss = ss and sw = sw and ds = ds and out = out]
  show ?thesis
  proof (cases op)
    case (Submit t sp)
    obtain p' where p': "submit_turn (tw_pool w) t sp = (p', evs, out)"
      "w' = \<lparr>tw_pool = p', tw_outside = tw_outside w @ started (tw_pool w) p'\<rparr>"
      using call Submit by (cases "submit_turn (tw_pool w) t sp") (auto simp: tp_call_def ct_thpool_submit_def)
    then show ?thesis
      using sec [of p' "\<lambda>p' out. tw_outside w @ started (tw_pool w) p'"] i cs
        submit_turn_balance [OF b, of t sp] submit_turn_local [OF p'(1)] by simp
  next
    case (Work j)
    obtain ph p' where p': "map_of (tw_outside w) j = Some ph" "works ph" "thpool_worker_thread (tw_pool w) j clk = (p', evs, out)"
      "w' = \<lparr>tw_pool = p', tw_outside = outside_arrives w j ph @ next_phase j out\<rparr>"
      using call Work by (cases "thpool_worker_thread (tw_pool w) j clk") (auto simp: tp_call_def split: option.splits if_splits)
    from arrive_balance [OF b map_of_SomeD [OF p'(1)]]
    have "tp_balance (tw_pool w) (outside_arrives w j ph) 1 ws ww ss sw ds" .
    from worker_thread_balance [OF this, of j clk] show ?thesis
      using sec [of p' "\<lambda>p' out. outside_arrives w j ph @ next_phase j out"] i cs p' worker_thread_local [OF idle p'(3)] by simp
  next
    case (Finish j)
    obtain js p' where p': "map_of (tw_outside w) j = Some (Joining js)" "thpool_worker_retire_end (tw_pool w) j = (p', evs, out)"
      "w' = \<lparr>tw_pool = p', tw_outside = outside_arrives w j (Joining js)\<rparr>"
      using call Finish by (cases "thpool_worker_retire_end (tw_pool w) j") (auto simp: tp_call_def split: option.splits tp_phase.splits)
    note x = map_of_SomeD [OF p'(1)]
    have q: "tp_queue (tw_pool w) = []" using tp_balance_dest(7) [OF b x] by simp
    from retire_end_balance [OF arrive_balance [OF b x] q, of j] show ?thesis
      using sec [of p' "\<lambda>p' out. outside_arrives w j (Joining js)"] i cs p'
      by (auto simp: thpool_worker_retire_end_def)
  next
    case Close
    then have w': "w' = w\<lparr>tw_pool := (tw_pool w)\<lparr>tp_closed := True\<rparr>\<rparr>" "evs = [Broadcast Task_cond, Broadcast Slot_cond]" "out = Returns Closed"
      using call by (auto simp: tp_call_def ct_thpool_close_def)
    have "leaves_balance ((tw_pool w)\<lparr>tp_closed := True\<rparr>, evs, out) (\<lambda>p' out. tw_outside w) (ws, ww, ss, sw, ds)"
      using close_balance [OF b] w' by (simp add: leaves_balance_def balanced_def)
    then show ?thesis
      using sec [of "(tw_pool w)\<lparr>tp_closed := True\<rparr>" "\<lambda>p' out. tw_outside w"] i cs w' by (cases w) simp
  next
    case Drain
    then have closed: "tp_closed (tw_pool w)" using call by (auto simp: tp_call_def split: if_splits)
    obtain p' where p': "thpool_drain (tw_pool w) = (p', evs, out)" "w' = w\<lparr>tw_pool := p'\<rparr>"
      using call Drain closed by (cases "thpool_drain (tw_pool w)") (auto simp: tp_call_def)
    then show ?thesis
      using sec [of p' "\<lambda>p' out. tw_outside w"] i cs drain_balance [OF b closed] drain_local [OF p'(1)] closed by (cases w) simp
  qed
qed

lemma resume_inv:
  assumes inv: "tp_inv w ps" and i: "i < length ps" "ps ! i = Woken x" and res: "tp_resume (x, E_OK) w clk = Some (w', evs, out)"
    and wakes: "wakes_all tp_cv_of evs ps qs"
  shows "tp_inv w' (qs[i := thread_after out])"
proof -
  obtain ws ww ss sw ds where cs: "count_before (ps ! i) (tp_counts_of ps) = (ws, ww, ss, sw, ds)"
    by (cases "count_before (ps ! i) (tp_counts_of ps)")
  note split = counts_split [OF i(1) cs]
  have loc: "tp_until x = None" "tp_kind_of x = Destroyer \<longrightarrow> tp_closed (tw_pool w)"
    using inv i nth_mem [OF i(1)] by (auto simp: tp_inv_def)
  note sec = section_inv [OF inv i(1) _ cs _ _ _ wakes, where out = out]
  show ?thesis
  proof (cases x)
    case (WorkerWait j u)
    have b: "tp_balance (tw_pool w) (tw_outside w) 0 ws (Suc ww) ss sw ds"
      using inv split i WorkerWait by (simp add: tp_inv_def balanced_def)
    obtain p' where p': "worker_after_wait (tw_pool w) j None E_OK clk = (p', evs, out)"
      "w' = \<lparr>tw_pool = p', tw_outside = tw_outside w @ next_phase j out\<rparr>"
      using res loc WorkerWait by (cases "worker_after_wait (tw_pool w) j None E_OK clk") (auto simp: tp_resume_def)
    show ?thesis
      using sec [of p' "\<lambda>p' out. tw_outside w @ next_phase j out"] worker_after_wait_balance [OF b, of j clk] p' i
        worker_after_wait_local [OF tp_balance_dest(1) [OF b] p'(1)] by simp
  next
    case (SubmitWait t sp u)
    have b: "tp_balance (tw_pool w) (tw_outside w) 0 ws ww ss (Suc sw) ds"
      using inv split i SubmitWait by (simp add: tp_inv_def balanced_def)
    obtain p' where p': "submit_after_wait (tw_pool w) t sp = (p', evs, out)"
      "w' = \<lparr>tw_pool = p', tw_outside = tw_outside w @ started (tw_pool w) p'\<rparr>"
      using res SubmitWait by (cases "submit_after_wait (tw_pool w) t sp") (auto simp: tp_resume_def)
    show ?thesis
      using sec [of p' "\<lambda>p' out. tw_outside w @ started (tw_pool w) p'"] submit_after_wait_balance [OF b, of t sp] p' i
        submit_after_wait_local [OF p'(1)] by simp
  next
    case (DestroyWait u)
    have b: "tp_balance (tw_pool w) (tw_outside w) 0 ws ww ss sw ds"
      using inv split i DestroyWait by (simp add: tp_inv_def balanced_def)
    have closed: "tp_closed (tw_pool w)" using loc DestroyWait by simp
    obtain p' where p': "thpool_drain (tw_pool w) = (p', evs, out)" "w' = w\<lparr>tw_pool := p'\<rparr>"
      using res DestroyWait by (cases "thpool_drain (tw_pool w)") (auto simp: tp_resume_def)
    show ?thesis
      using sec [of p' "\<lambda>p' out. tw_outside w"] drain_balance [OF b closed] drain_local [OF p'(1)] closed p' i by (cases w) simp
  qed
qed


lemma moved_balance:
  "balanced p outs hand (Suc ws, ww, ss, sw, ds) \<Longrightarrow> balanced p outs hand (ws, Suc ww, ss, sw, ds)"
  "balanced p outs hand (ws, ww, Suc ss, sw, ds) \<Longrightarrow> balanced p outs hand (ws, ww, ss, Suc sw, ds)"
  "balanced p outs hand (ws, ww, ss, sw, Suc ds) \<Longrightarrow> balanced p outs hand (ws, ww, ss, sw, ds)"
proof -
  show "balanced p outs hand (ws, Suc ww, ss, sw, ds)" if "balanced p outs hand (Suc ws, ww, ss, sw, ds)"
  proof -
    have "tp_balance p outs hand (Suc ws) ww ss sw ds" using that by (simp add: balanced_def)
    note d = tp_balance_dest [OF this]
    have "tp_balance p outs hand ws (Suc ww) ss sw ds" using d by (intro tp_balance_intro) auto
    then show ?thesis by (simp add: balanced_def)
  qed
  show "balanced p outs hand (ws, ww, ss, Suc sw, ds)" if "balanced p outs hand (ws, ww, Suc ss, sw, ds)"
  proof -
    have "tp_balance p outs hand ws ww (Suc ss) sw ds" using that by (simp add: balanced_def)
    note d = tp_balance_dest [OF this]
    have "tp_balance p outs hand ws ww ss (Suc sw) ds" using d by (intro tp_balance_intro) auto
    then show ?thesis by (simp add: balanced_def)
  qed
  show "balanced p outs hand (ws, ww, ss, sw, ds)" if "balanced p outs hand (ws, ww, ss, sw, Suc ds)"
  proof -
    have "tp_balance p outs hand ws ww ss sw (Suc ds)" using that by (simp add: balanced_def)
    note d = tp_balance_dest [OF this]
    have "tp_balance p outs hand ws ww ss sw ds" using d by (intro tp_balance_intro) auto
    then show ?thesis by (simp add: balanced_def)
  qed
qed

lemma spurious_inv:
  assumes inv: "tp_inv w ps" and i: "i < length ps" "ps ! i = Asleep x"
  shows "tp_inv w (ps[i := Woken x])"
proof -
  have loc: "tp_until x = None \<and> (tp_kind_of x = Destroyer \<longrightarrow> tp_closed (tw_pool w))"
    using inv i nth_mem [OF i(1)] by (auto simp: tp_inv_def)
  then have l: "\<forall>p \<in> set (ps[i := Woken x]). tp_local (tp_closed (tw_pool w)) p"
    using inv by (intro update_local) (auto simp: tp_inv_def)
  have s: "asleep_of k ps = asleep_of k (ps[i := Woken x]) + (if tp_kind_of x = k then 1 else 0)"
    "woken_of k (ps[i := Woken x]) = woken_of k ps + (if tp_kind_of x = k then 1 else 0)" for k
    using tally_update [OF i(1), of "sleeps_on tp_kind_of k" "Woken x"] tally_update [OF i(1), of "woken_from tp_kind_of k" "Woken x"] i(2)
    by auto
  have "balanced (tw_pool w) (tw_outside w) 0 (tp_counts_of (ps[i := Woken x]))"
    using inv moved_balance s by (cases "tp_kind_of x") (simp_all add: tp_inv_def tp_counts_of_def)
  with l show ?thesis by (simp add: tp_inv_def)
qed

lemma return_inv:
  assumes inv: "tp_inv w ps" and i: "i < length ps" "ps ! i = Returned r"
  shows "tp_inv w (ps[i := Idle])"
proof -
  have "tp_counts_of (ps[i := Idle]) = tp_counts_of ps"
    using tally_update [OF i(1), of "sleeps_on tp_kind_of k" Idle for k] tally_update [OF i(1), of "woken_from tp_kind_of k" Idle for k] i(2)
    by (simp add: tp_counts_of_def)
  moreover have "\<forall>p \<in> set (ps[i := Idle]). tp_local (tp_closed (tw_pool w)) p"
    using inv by (intro update_local) (auto simp: tp_inv_def)
  ultimately show ?thesis using inv by (simp add: tp_inv_def)
qed

lemma tp_step_inv:
  assumes inv: "tp_inv w ps" and step: "tp_step early (w, ps, now) lab (w', ps', now')"
  shows "tp_inv w' ps'"
  using step
proof (cases rule: mon_step.cases)
  case step_call
  then show ?thesis using call_inv [OF inv] by blast
next
  case step_woken
  then show ?thesis using resume_inv [OF inv] by blast
next
  case (step_elapsed i x)
  then show ?thesis using inv nth_mem [of i ps] by (auto simp: tp_inv_def)
next
  case step_spurious
  then show ?thesis using spurious_inv [OF inv] by simp
next
  case (step_elapse i x d)
  then have "tp_until x = None" using inv nth_mem [of i ps] by (auto simp: tp_inv_def)
  with step_elapse show ?thesis by simp
next
  case step_tick
  then show ?thesis using inv by simp
next
  case step_return
  then show ?thesis using return_inv [OF inv] by simp
qed

lemma tp_run_inv:
  "mon_run (tp_step early) s tr t \<Longrightarrow> (case s of (w, ps, now) \<Rightarrow> tp_inv w ps) \<Longrightarrow> (case t of (w, ps, now) \<Rightarrow> tp_inv w ps)"
proof (induction rule: mon_run.induct)
  case (run_step s tr t l u)
  then show ?case by (cases t; cases u) (auto intro: tp_step_inv)
qed

lemma tp_start_inv:
  assumes "ct_thpool_create cap cfg True True True True = Some p" and "cfg_idle_timeout (tp_cfg p) = 0"
  shows "tp_inv \<lparr>tw_pool = p, tw_outside = []\<rparr> (replicate n Idle)"
proof -
  have "tp_counts_of (replicate n Idle) = (0, 0, 0, 0, 0)" by (simp add: tp_counts_of_def tally_eq_0)
  then show ?thesis using assms by (auto simp: tp_inv_def balanced_def tp_balance_def ct_thpool_create_def)
qed

text \<open>What is left when no thread is on its way and no worker outside.\<close>

lemma tp_quiet:
  assumes inv: "tp_inv w ps" and out: "tw_outside w = []" and quiet: "\<forall>p \<in> set ps. \<not> ready p"
  shows "tp_queue (tw_pool w) = []" and "asleep_of Submitter ps = 0"
    and "tp_closed (tw_pool w) \<Longrightarrow> tp_live_count (tw_pool w) = 0 \<and> (\<forall>k. asleep_of k ps = 0)"
proof -
  have k: "woken_of k ps = 0" for k using nobody_woken [OF quiet] .
  have b: "tp_balance (tw_pool w) [] 0 (asleep_of Worker ps) 0 (asleep_of Submitter ps) 0 (asleep_of Destroyer ps)"
    using inv out k by (simp add: tp_inv_def balanced_def tp_counts_of_def)
  note d = tp_balance_dest [OF b]
  show q: "tp_queue (tw_pool w) = []" using d(6) by auto
  show s: "asleep_of Submitter ps = 0"
  proof (rule ccontr)
    assume "asleep_of Submitter ps \<noteq> 0"
    then have "0 < asleep_of Submitter ps" by simp
    from d(9) [OF this] d(5) q show False by auto
  qed
  assume closed: "tp_closed (tw_pool w)"
  have "asleep_of k ps = 0" for k using d(2,4,8,10) closed s by (cases k) auto
  then show "tp_live_count (tw_pool w) = 0 \<and> (\<forall>k. asleep_of k ps = 0)" using d(2) by simp
qed

text \<open>C39: a thread pool begins the tasks it accepts in the order of their acceptance, each at most once, whatever the
  threads, the configuration and the interleaving: the tasks whose submission succeeded are those that
  workers began followed by those still queued.  If workers do not leave when idle, nothing is left
  behind: when no thread is on its way to the lock and no worker outside it, then every accepted task has been begun, no
  submission is blocked, and if the pool is closed no worker is left and nobody waits, so a call of
  \<open>ct_thpool_destroy\<close> has returned.\<close>

theorem thpool_begins_all:
  assumes "ct_thpool_create cap cfg True True True True = Some p"
    and "mon_run (tp_step early) (\<lparr>tw_pool = p, tw_outside = []\<rparr>, replicate n Idle, now0) tr (w, ps, now)"
  shows "concat (map accepted_tasks tr) = concat (map begun_tasks tr) @ tp_queue (tw_pool w) \<and>
    (cfg_idle_timeout (tp_cfg p) = 0 \<and> tw_outside w = [] \<and> (\<forall>x \<in> set ps. \<not> ready x) \<longrightarrow>
      tp_queue (tw_pool w) = [] \<and> (\<forall>t sp u. Asleep (SubmitWait t sp u) \<notin> set ps) \<and>
      (tp_closed (tw_pool w) \<longrightarrow> tp_live_count (tw_pool w) = 0 \<and> (\<forall>x. Asleep x \<notin> set ps)))"
proof (intro conjI impI allI)
  have "tp_queue p = []" using assms(1) by (auto simp: ct_thpool_create_def)
  then show "concat (map accepted_tasks tr) = concat (map begun_tasks tr) @ tp_queue (tw_pool w)"
    using run_tasks [OF assms(2)] by simp
next
  assume quiet: "cfg_idle_timeout (tp_cfg p) = 0 \<and> tw_outside w = [] \<and> (\<forall>x \<in> set ps. \<not> ready x)"
  then have inv: "tp_inv w ps" using tp_run_inv [OF assms(2)] tp_start_inv [OF assms(1)] by simp
  have none: "Asleep x \<notin> set ps" if "asleep_of (tp_kind_of x) ps = 0" for x
    using that somebody_sleeps [of x ps tp_kind_of] by auto
  note left = tp_quiet [OF inv conjunct1 [OF conjunct2 [OF quiet]] conjunct2 [OF conjunct2 [OF quiet]]]
  show "tp_queue (tw_pool w) = []" using left(1) .
  show "Asleep (SubmitWait t sp u) \<notin> set ps" for t sp u using left(2) none by simp
  show "tp_live_count (tw_pool w) = 0" if "tp_closed (tw_pool w)" using left(3) [OF that] by simp
  show "Asleep x \<notin> set ps" if "tp_closed (tw_pool w)" for x using left(3) [OF that] none by simp
qed

text \<open>One thread does everything in turn: it submits a task, which starts a worker, and then is the worker.  First for
  a pool whose workers stay.\<close>

abbreviation "demo_cfg idle \<equiv> \<lparr>cfg_stack_size = 0, cfg_idle_timeout = idle, cfg_non_blocking = False, cfg_max_tasks = 0\<rparr>"

abbreviation "demo_pool q live retired waiting closed idle \<equiv>
  \<lparr>tp_queue = q, tp_live = live, tp_retired = retired, tp_capacity = 1, tp_live_count = length live, tp_waiting_count = waiting,
   tp_blocked_count = 0, tp_queued_count = length q, tp_closed = closed, tp_cfg = demo_cfg idle\<rparr>"

abbreviation "demo_world q live retired waiting closed idle outside \<equiv>
  \<lparr>tw_pool = demo_pool q live retired waiting closed idle, tw_outside = outside\<rparr>"

lemma run_call:
  assumes "call op q (\<lambda>_. now) = Some (q', evs, Returns (r :: 'r))" "wakes_all cv evs [Idle :: ('w, 'r) thread] [Idle]"
    and "mon_run (mon_step call resume cv until early) (q', [Idle], now) tr t"
  shows "mon_run (mon_step call resume cv until early) (q, [Idle], now) (Called 0 op (Returns r) # Moved # tr) t"
proof -
  have "mon_step call resume cv until early (q, [Idle], now) (Called 0 op (Returns r)) (q', [Returned r], now)"
    by (rule call_now, simp, simp, rule assms(1), rule assms(2), simp)
  moreover have "mon_step call resume cv until early (q', [Returned r], now) Moved (q', [Idle], now)"
    using step_return [of 0 "[Returned r]" r] by simp
  ultimately show ?thesis using assms(3) by (blast intro: run_Cons)
qed

lemma quiet_events: "wakes_all tp_cv_of [] [Idle] [Idle]" "wakes_all tp_cv_of [Signal Task_cond] [Idle] [Idle]"
  "wakes_all tp_cv_of [Broadcast Slot_cond] [Idle] [Idle]" "wakes_all tp_cv_of [Broadcast Task_cond, Broadcast Slot_cond] [Idle] [Idle]"
  using everybody [of tp_cv_of _ "[Idle]"] by (auto intro: nobody)


lemma run_timed_wait:
  assumes "call op q (\<lambda>_. now) = Some (q1, [], Sleeps x)" "until x = Some d" "now \<le> d"
    and "resume (x, ETIMEDOUT) q1 (\<lambda>_. d) = Some (q2, evs, Returns (r :: 'r))"
    and "wakes_all cv evs [Elapsed x :: ('w, 'r) thread] [Elapsed x]"
    and "mon_run (mon_step call resume cv until early) (q2, [Idle], d) tr t"
  shows "mon_run (mon_step call resume cv until early) (q, [Idle], now)
    (Called 0 op (Sleeps x) # Moved # Moved # Resumed 0 x (Returns r) # Moved # tr) t"
proof -
  have "mon_step call resume cv until early (q, [Idle], now) (Called 0 op (Sleeps x)) (q1, [Asleep x], now)"
    by (rule call_now, simp, simp, rule assms(1), simp, simp)
  moreover have "mon_step call resume cv until early (q1, [Asleep x], now) Moved (q1, [Asleep x], d)"
    using assms(3) by (rule step_tick)
  moreover have "mon_step call resume cv until early (q1, [Asleep x], d) Moved (q1, [Elapsed x], d)"
    using step_elapse [of 0 "[Asleep x]" x until d early d] assms(2) by simp
  moreover have "mon_step call resume cv until early (q1, [Elapsed x], d) (Resumed 0 x (Returns r)) (q2, [Returned r], d)"
    by (rule elapsed_now, simp, simp, rule assms(4), rule assms(5), simp)
  moreover have "mon_step call resume cv until early (q2, [Returned r], d) Moved (q2, [Idle], d)"
    using step_return [of 0 "[Returned r]" r] by simp
  ultimately show ?thesis using assms(6) by (blast intro: run_Cons)
qed

lemma demo_start_pool:
  "ct_thpool_create 1 (Some (demo_cfg idle)) True True True True = Some (demo_pool [] [] [] 0 False idle)"
  by (simp add: ct_thpool_create_def)

lemma demo_stay:
  "tp_call (Submit 7 (Thread 0)) (demo_world [] [] [] 0 False 0 []) (\<lambda>_. 0) =
     Some (demo_world [7] [0] [] 0 False 0 [(0, Starting)], [Signal Task_cond], Returns (Submitted TP_NORMAL))"
  "tp_call (Work 0) (demo_world [7] [0] [] 0 False 0 [(0, Starting)]) (\<lambda>_. 0) =
     Some (demo_world [] [0] [] 0 False 0 [(0, Running 7)], [], Returns (Runs 7))"
  "tp_call (Work 0) (demo_world [] [0] [] 0 False 0 [(0, Running 7)]) (\<lambda>_. 0) =
     Some (demo_world [] [0] [] 1 False 0 [], [], Sleeps (WorkerWait 0 None))"
  by code_simp+

abbreviation "demo_stay_trace \<equiv>
  [Called 0 (Submit 7 (Thread 0)) (Returns (Submitted TP_NORMAL)), Moved, Called 0 (Work 0) (Returns (Runs 7)), Moved,
   Called 0 (Work 0) (Sleeps (WorkerWait 0 None))]"

lemma demo_stay_run:
  "mon_run (tp_step early) (demo_world [] [] [] 0 False 0 [], replicate 1 Idle, 0) demo_stay_trace
     (demo_world [] [0] [] 1 False 0 [], [Asleep (WorkerWait 0 None)], 0)"
proof -
  have last: "tp_step early (demo_world [] [0] [] 0 False 0 [(0, Running 7)], [Idle], 0) (Called 0 (Work 0) (Sleeps (WorkerWait 0 None)))
      (demo_world [] [0] [] 1 False 0 [], [Asleep (WorkerWait 0 None)], 0)"
    by (rule call_now, simp, simp, rule demo_stay(3), simp, simp)
  have "mon_run (tp_step early) (demo_world [] [] [] 0 False 0 [], [Idle], 0) demo_stay_trace
     (demo_world [] [0] [] 1 False 0 [], [Asleep (WorkerWait 0 None)], 0)"
    by (rule run_call, rule demo_stay(1), rule quiet_events(2), rule run_call, rule demo_stay(2), rule quiet_events(1),
        rule run_Cons, rule last, rule run_start)
  then show ?thesis by simp
qed

theorem thpool_begins_all_witness:
  "concat (map accepted_tasks demo_stay_trace) = [7] \<and>
   concat (map accepted_tasks demo_stay_trace) = concat (map begun_tasks demo_stay_trace) @ [] \<and>
   (\<forall>t sp u. Asleep (SubmitWait t sp u) \<notin> set [Asleep (WorkerWait 0 None) :: (tp_wait, tp_result) thread])"
  using thpool_begins_all [OF demo_start_pool demo_stay_run [of False]]
  by (simp add: accepted_tasks_def begun_tasks_def)

text \<open>With an idle time-out, as in the default configuration, a task can be left behind.  A worker that retires
  unlocks the pool to join an older one while it still counts as live: a submission at the size of the pool
  then counts on it and creates no worker, and the retiring worker leaves without looking at the queue
  again.  Destroying the pool does not wait for such a task and frees the pool with it.\<close>

lemma demo_leave:
  "tp_call (Submit 7 (Thread 0)) (demo_world [] [] [] 0 False 10 []) (\<lambda>_. 0) =
     Some (demo_world [7] [0] [] 0 False 10 [(0, Starting)], [Signal Task_cond], Returns (Submitted TP_NORMAL))"
  "tp_call (Work 0) (demo_world [7] [0] [] 0 False 10 [(0, Starting)]) (\<lambda>_. 0) =
     Some (demo_world [] [0] [] 0 False 10 [(0, Running 7)], [], Returns (Runs 7))"
  "tp_call (Work 0) (demo_world [] [0] [] 0 False 10 [(0, Running 7)]) (\<lambda>_. 0) =
     Some (demo_world [] [0] [] 1 False 10 [], [], Sleeps (WorkerWait 0 (Some 10)))"
  "tp_resume (WorkerWait 0 (Some 10), ETIMEDOUT) (demo_world [] [0] [] 1 False 10 []) (\<lambda>_. 10) =
     Some (demo_world [] [] [0] 0 False 10 [], [Broadcast Slot_cond], Returns Exited)"
  "tp_call (Submit 8 (Thread 1)) (demo_world [] [] [0] 0 False 10 []) (\<lambda>_. 10) =
     Some (demo_world [8] [1] [0] 0 False 10 [(1, Starting)], [Signal Task_cond], Returns (Submitted TP_NORMAL))"
  "tp_call (Work 1) (demo_world [8] [1] [0] 0 False 10 [(1, Starting)]) (\<lambda>_. 10) =
     Some (demo_world [] [1] [0] 0 False 10 [(1, Running 8)], [], Returns (Runs 8))"
  "tp_call (Work 1) (demo_world [] [1] [0] 0 False 10 [(1, Running 8)]) (\<lambda>_. 10) =
     Some (demo_world [] [1] [0] 1 False 10 [], [], Sleeps (WorkerWait 1 (Some 20)))"
  "tp_resume (WorkerWait 1 (Some 20), ETIMEDOUT) (demo_world [] [1] [0] 1 False 10 []) (\<lambda>_. 20) =
     Some (demo_world [] [1] [] 0 False 10 [(1, Joining [0])], [], Returns (Joins [0]))"
  "tp_call (Submit 9 (Thread 2)) (demo_world [] [1] [] 0 False 10 [(1, Joining [0])]) (\<lambda>_. 20) =
     Some (demo_world [9] [1] [] 0 False 10 [(1, Joining [0])], [Signal Task_cond], Returns (Submitted TP_NORMAL))"
  "tp_call (Finish 1) (demo_world [9] [1] [] 0 False 10 [(1, Joining [0])]) (\<lambda>_. 20) =
     Some (demo_world [9] [] [1] 0 False 10 [], [Broadcast Slot_cond], Returns Exited)"
  "tp_call Close (demo_world [9] [] [1] 0 False 10 []) (\<lambda>_. 20) =
     Some (demo_world [9] [] [1] 0 True 10 [], [Broadcast Task_cond, Broadcast Slot_cond], Returns Closed)"
  "tp_call Drain (demo_world [9] [] [1] 0 True 10 []) (\<lambda>_. 20) =
     Some (demo_world [9] [] [1] 0 True 10 [], [], Returns (Drained [1]))"
  by code_simp+

lemma idle_worker_strands_task:
  "\<exists>tr. mon_run (tp_step False) (demo_world [] [] [] 0 False 10 [], [Idle], 0) tr (demo_world [9] [] [1] 0 True 10 [], [Idle], 20) \<and>
     concat (map accepted_tasks tr) = [7, 8, 9] \<and> concat (map begun_tasks tr) = [7, 8] \<and>
     Called 0 Drain (Returns (Drained [1])) \<in> set tr"
proof -
  have e: "wakes_all tp_cv_of [Broadcast Slot_cond] [Elapsed x :: (tp_wait, tp_result) thread] [Elapsed x]" for x
    using everybody [of tp_cv_of Slot_cond "[Elapsed x]"] by simp
  have "mon_run (tp_step False) (demo_world [] [] [] 0 False 10 [], [Idle], 0)
    [Called 0 (Submit 7 (Thread 0)) (Returns (Submitted TP_NORMAL)), Moved,
     Called 0 (Work 0) (Returns (Runs 7)), Moved,
     Called 0 (Work 0) (Sleeps (WorkerWait 0 (Some 10))), Moved, Moved,
     Resumed 0 (WorkerWait 0 (Some 10)) (Returns Exited), Moved,
     Called 0 (Submit 8 (Thread 1)) (Returns (Submitted TP_NORMAL)), Moved,
     Called 0 (Work 1) (Returns (Runs 8)), Moved,
     Called 0 (Work 1) (Sleeps (WorkerWait 1 (Some 20))), Moved, Moved,
     Resumed 0 (WorkerWait 1 (Some 20)) (Returns (Joins [0])), Moved,
     Called 0 (Submit 9 (Thread 2)) (Returns (Submitted TP_NORMAL)), Moved,
     Called 0 (Finish 1) (Returns Exited), Moved,
     Called 0 Close (Returns Closed), Moved, Called 0 Drain (Returns (Drained [1])), Moved]
    (demo_world [9] [] [1] 0 True 10 [], [Idle], 20)"
    by (rule run_call, rule demo_leave(1), rule quiet_events(2), rule run_call, rule demo_leave(2), rule quiet_events(1),
        rule run_timed_wait, rule demo_leave(3), simp, simp, rule demo_leave(4), rule e,
        rule run_call, rule demo_leave(5), rule quiet_events(2), rule run_call, rule demo_leave(6), rule quiet_events(1),
        rule run_timed_wait, rule demo_leave(7), simp, simp, rule demo_leave(8), simp,
        rule run_call, rule demo_leave(9), rule quiet_events(2), rule run_call, rule demo_leave(10), rule quiet_events(3),
        rule run_call, rule demo_leave(11), rule quiet_events(4), rule run_call, rule demo_leave(12), rule quiet_events(1),
        rule run_start)
  then show ?thesis
    by (intro exI conjI) (assumption, simp_all add: accepted_tasks_def begun_tasks_def)
qed

end
