(* ===== verification/Coter_Gates.thy ===== *)
theory Coter_Gates
  imports Coter_Monitor
begin

text \<open>
  Objects with one condition variable that threads wait at until they may pass: \<open>sync/waitgroup.h\<close>,
  \<open>waitgroup.c\<close>; \<open>sync/event.h\<close>, \<open>event.c\<close> (the variant over a mutex); \<open>sync/sem.h\<close>, \<open>sem.c\<close> (the variant over a
  POSIX mutex); \<open>sync/shutdown_signal.h\<close>, \<open>shutdown_signal.c\<close>.  The locale \<open>gate\<close> says what it takes that no wake-up
  is lost, and makes every such object a monitor.  A call with a null object returns at once, before
  it touches anything, and is left out of the interleaving.
\<close>

section \<open>Gates\<close>

text \<open>\<open>need q k\<close>: with \<open>k\<close> woken threads on their way, those that sleep have to.  A section must keep it, where
  \<open>was\<close> is \<open>1\<close> for a thread that was woken and \<open>0\<close> otherwise.\<close>

definition gate_leaves ::
  "('w \<Rightarrow> bool) \<Rightarrow> ('q \<Rightarrow> nat \<Rightarrow> bool) \<Rightarrow> ('q \<Rightarrow> bool) \<Rightarrow> 'q \<Rightarrow> nat \<Rightarrow> 'q \<times> unit cv_event list \<times> ('w, 'r) outcome \<Rightarrow> bool" where
  "gate_leaves ok need blocked q was sec \<longleftrightarrow> (case sec of (q', evs, out) \<Rightarrow>
     (\<forall>w. out = Sleeps w \<longrightarrow> evs = [] \<and> blocked q' \<and> ok w) \<and>
     (evs = [] \<or> evs = [Signal ()] \<or> evs = [Broadcast ()]) \<and>
     (\<forall>k. need q (k + was) \<longrightarrow> (evs = [] \<longrightarrow> need q' k) \<and> (evs = [Signal ()] \<longrightarrow> need q' (Suc k))))"

abbreviation "one_cv \<equiv> \<lambda>_. ()"

fun gate_wait_ok :: "('w \<Rightarrow> bool) \<Rightarrow> ('w \<Rightarrow> int option) \<Rightarrow> int \<Rightarrow> ('w, 'r) thread \<Rightarrow> bool" where
  "gate_wait_ok ok until now (Asleep w) \<longleftrightarrow> ok w"
| "gate_wait_ok ok until now (Woken w) \<longleftrightarrow> ok w"
| "gate_wait_ok ok until now (Elapsed w) \<longleftrightarrow> ok w \<and> (\<exists>d. until w = Some d \<and> d \<le> now)"
| "gate_wait_ok ok until now _ \<longleftrightarrow> True"

lemma gate_wait_ok_later: "gate_wait_ok ok until now p \<Longrightarrow> now \<le> now' \<Longrightarrow> gate_wait_ok ok until now' p"
  by (cases p) auto

definition gate_inv :: "('w \<Rightarrow> bool) \<Rightarrow> ('w \<Rightarrow> int option) \<Rightarrow> ('q \<Rightarrow> nat \<Rightarrow> bool) \<Rightarrow> 'q \<Rightarrow> ('w, 'r) thread list \<Rightarrow> int \<Rightarrow> bool" where
  "gate_inv ok until need q ps now \<longleftrightarrow>
     (0 < tally (sleeps_on one_cv ()) ps \<longrightarrow> need q (tally (woken_from one_cv ()) ps)) \<and>
     (\<forall>p \<in> set ps. gate_wait_ok ok until now p)"

definition gate_calm :: "('q \<Rightarrow> bool) \<Rightarrow> 'q \<Rightarrow> ('w, 'r) thread list \<Rightarrow> bool" where
  "gate_calm blocked q ps \<longleftrightarrow> (\<forall>w. Asleep w \<in> set ps \<longrightarrow> blocked q)"

locale gate =
  fixes call :: "('op, 'q, unit, 'w, 'r) crit"
    and resume :: "('w \<times> errno, 'q, unit, 'w, 'r) crit"
    and ok :: "'w \<Rightarrow> bool"
    and until :: "'w \<Rightarrow> int option"
    and need :: "'q \<Rightarrow> nat \<Rightarrow> bool"
    and blocked :: "'q \<Rightarrow> bool"
  assumes need_blocked: "blocked q \<Longrightarrow> need q k"
    and need_more: "need q k \<Longrightarrow> need q (Suc k)"
    and need_0: "need q 0 \<Longrightarrow> blocked q"
    and call_leaves: "call op q clk = Some sec \<Longrightarrow> gate_leaves ok need blocked q 0 sec"
    and resume_quiet: "resume (w, rc) q clk = Some (q', evs, out) \<Longrightarrow> evs = []"
    and woken_leaves: "mono clk \<Longrightarrow> ok w \<Longrightarrow>
      \<exists>q' out. resume (w, E_OK) q clk = Some (q', [], out) \<and> gate_leaves ok need blocked q 1 (q', [], out)"
    and elapsed_leaves: "mono clk \<Longrightarrow> ok w \<Longrightarrow> until w = Some d \<Longrightarrow> d \<le> clk 0 \<Longrightarrow>
      \<exists>q' out. resume (w, ETIMEDOUT) q clk = Some (q', [], out) \<and> gate_leaves ok need blocked q 0 (q', [], out)"
begin

lemma thread_ok: "gate_inv ok until need q ps now \<Longrightarrow> i < length ps \<Longrightarrow> gate_wait_ok ok until now (ps ! i)"
  by (simp add: gate_inv_def)

lemma sec_inv:
  assumes inv: "gate_inv ok until need q ps now" and i: "i < length ps" "\<not> asleep (ps ! i)"
    and leaves: "gate_leaves ok need blocked q (if woken_from one_cv () (ps ! i) then 1 else 0) (q', evs, out)"
    and wakes: "wakes_all one_cv evs ps qs" and now: "now \<le> now'"
  shows "gate_inv ok until need q' (qs[i := thread_after out]) now'"
proof -
  let ?was = "if woken_from one_cv () (ps ! i) then 1 else 0 :: nat"
  have keep: "i < length qs" "qs ! i = ps ! i" using wakes_all_keeps [OF wakes i] by simp_all
  have ns: "\<not> sleeps_on one_cv c (qs ! i)" for c using keep asleep_sleeps_on(1) [OF i(2)] by simp
  note cnt = section_counts [where cv = one_cv and c = "()" and out = out, OF keep(1) ns]
  have "0 < tally (sleeps_on one_cv ()) (qs[i := thread_after out]) \<longrightarrow>
      need q' (tally (woken_from one_cv ()) (qs[i := thread_after out]))"
  proof (cases out)
    case (Sleeps w)
    then show ?thesis using leaves need_blocked by (auto simp: gate_leaves_def)
  next
    case (Returns r)
    then have s: "tally (sleeps_on one_cv ()) (qs[i := thread_after out]) = tally (sleeps_on one_cv ()) qs" using cnt(1) by simp
    have w: "tally (woken_from one_cv ()) (qs[i := thread_after out]) + ?was = tally (woken_from one_cv ()) qs"
      using cnt(2) keep(2) by simp
    consider "evs = []" | "evs = [Signal ()]" | "evs = [Broadcast ()]" using leaves by (auto simp: gate_leaves_def)
    then show ?thesis
    proof cases
      case 1
      then have "qs = ps" using wakes by simp
      with 1 leaves inv s w show ?thesis by (auto simp: gate_leaves_def gate_inv_def)
    next
      case 2
      then have sig: "wakes one_cv (Signal ()) ps qs" using wakes by simp
      have "need q' (tally (woken_from one_cv ()) (qs[i := thread_after out]))" if pos: "0 < tally (sleeps_on one_cv ()) qs"
      proof -
        have c: "tally (woken_from one_cv ()) qs = Suc (tally (woken_from one_cv ()) ps)" "0 < tally (sleeps_on one_cv ()) ps"
          using signal_counts(2) [OF sig] pos by auto
        have "?was \<le> tally (woken_from one_cv ()) ps"
          using tally_pos [OF i(1), of "woken_from one_cv ()"] by auto
        then obtain k where k: "tally (woken_from one_cv ()) ps = k + ?was" using le_Suc_ex [of ?was] by (metis add.commute)
        have "need q (k + ?was)" using inv c(2) k by (simp add: gate_inv_def)
        then have "need q' (Suc k)" using leaves 2 by (auto simp: gate_leaves_def)
        moreover have "tally (woken_from one_cv ()) (qs[i := thread_after out]) = Suc k" using w c(1) k by simp
        ultimately show ?thesis by simp
      qed
      with s show ?thesis by simp
    next
      case 3
      then have "wakes one_cv (Broadcast ()) ps qs" using wakes by simp
      then show ?thesis using broadcast_counts(2) [of one_cv "()" ps qs] s by simp
    qed
  qed
  moreover have "\<forall>p \<in> set (qs[i := thread_after out]). gate_wait_ok ok until now' p"
  proof (rule update_local)
    have "\<forall>p \<in> set ps. gate_wait_ok ok until now' p"
      using inv now gate_wait_ok_later unfolding gate_inv_def by blast
    from wakes_all_local [OF wakes this] show "\<forall>p \<in> set qs. gate_wait_ok ok until now' p" by simp
    show "gate_wait_ok ok until now' (thread_after out)" using leaves by (cases out) (auto simp: gate_leaves_def)
  qed
  ultimately show ?thesis by (simp add: gate_inv_def)
qed

lemma move_inv:
  assumes inv: "gate_inv ok until need q ps now" and i: "i < length ps"
    and p: "ps ! i = Asleep w \<and> (p = Woken w \<or> p = Elapsed w \<and> until w = Some d \<and> d \<le> now) \<or> ps ! i = Returned r \<and> p = Idle"
  shows "gate_inv ok until need q (ps[i := p]) now"
proof -
  have s: "tally (sleeps_on one_cv ()) (ps[i := p]) \<le> tally (sleeps_on one_cv ()) ps"
    using tally_update [OF i, of "sleeps_on one_cv ()" p] p by auto
  have need_mono: "need q k \<Longrightarrow> need q (k + j)" for k j by (induction j) (auto intro: need_more)
  have "\<exists>j. tally (woken_from one_cv ()) (ps[i := p]) = tally (woken_from one_cv ()) ps + j"
    using tally_update [OF i, of "woken_from one_cv ()" p] p by auto
  then have "0 < tally (sleeps_on one_cv ()) (ps[i := p]) \<longrightarrow> need q (tally (woken_from one_cv ()) (ps[i := p]))"
    using inv s need_mono unfolding gate_inv_def by fastforce
  moreover have "\<forall>x \<in> set (ps[i := p]). gate_wait_ok ok until now x"
  proof (rule update_local)
    show "\<forall>p \<in> set ps. gate_wait_ok ok until now p" using inv by (simp add: gate_inv_def)
    then show "gate_wait_ok ok until now p" using nth_mem [OF i] p by fastforce
  qed
  ultimately show ?thesis by (simp add: gate_inv_def)
qed


lemma gate_step_inv:
  assumes inv: "gate_inv ok until need q ps now"
    and step: "mon_step call resume one_cv until False (q, ps, now) lab (q', ps', now')"
  shows "gate_inv ok until need q' ps' now'"
  using step
proof (cases rule: mon_step.cases)
  case (step_call i clk op evs out qs)
  then show ?thesis using sec_inv [OF inv, of i q' evs out qs now'] call_leaves clock_readsD(3) by auto
next
  case (step_woken i w clk evs out qs)
  have "ok w" using thread_ok [OF inv step_woken(3)] step_woken(4) by simp
  then have "gate_leaves ok need blocked q 1 (q', evs, out)" using woken_leaves [of clk w q] step_woken by (auto simp: clock_reads_def)
  then show ?thesis using sec_inv [OF inv, of i q' evs out qs now'] step_woken clock_readsD(3) by auto
next
  case (step_elapsed i w clk evs out qs)
  obtain d where "ok w" "until w = Some d" "d \<le> now" using thread_ok [OF inv step_elapsed(3)] step_elapsed(4) by auto
  then have "gate_leaves ok need blocked q 0 (q', evs, out)"
    using elapsed_leaves [of clk w d q] step_elapsed clock_readsD(1) [of now clk now' 0] by (fastforce simp: clock_reads_def)
  then show ?thesis using sec_inv [OF inv, of i q' evs out qs now'] step_elapsed clock_readsD(3) by auto
next
  case (step_spurious i w)
  then show ?thesis using move_inv [OF inv, of i w "Woken w"] by simp
next
  case (step_elapse i w d)
  then show ?thesis using move_inv [OF inv, of i w "Elapsed w" d] by simp
next
  case step_tick
  then show ?thesis using inv gate_wait_ok_later unfolding gate_inv_def by fastforce
next
  case (step_return i r)
  then show ?thesis using move_inv [OF inv, of i _ Idle _ r] by simp
qed

lemma resume_total:
  assumes "gate_inv ok until need q ps now" "i < length ps"
    and "ps ! i = Woken w \<and> rc = E_OK \<or> ps ! i = Elapsed w \<and> rc = ETIMEDOUT"
  shows "resume (w, rc) q (\<lambda>_. now) \<noteq> None"
  using assms(3)
proof
  assume "ps ! i = Woken w \<and> rc = E_OK"
  then show ?thesis using woken_leaves [of "\<lambda>_. now" w q] thread_ok [OF assms(1,2)] by (auto simp: mono_def)
next
  assume e: "ps ! i = Elapsed w \<and> rc = ETIMEDOUT"
  obtain d where "ok w" "until w = Some d" "d \<le> now" using thread_ok [OF assms(1,2)] e by auto
  then show ?thesis using elapsed_leaves [of "\<lambda>_. now" w d q] e by (auto simp: mono_def)
qed

lemma gate_settled_calm:
  assumes inv: "gate_inv ok until need q ps now" and "\<forall>p \<in> set ps. \<not> ready p"
  shows "gate_calm blocked q ps"
proof -
  have "tally (woken_from one_cv ()) ps = 0" using nobody_woken [OF assms(2)] .
  moreover have "0 < tally (sleeps_on one_cv ()) ps" if "Asleep w \<in> set ps" for w
    using somebody_sleeps [OF that, of one_cv] by simp
  ultimately show ?thesis using inv need_0 by (auto simp: gate_calm_def gate_inv_def)
qed

end


sublocale gate \<subseteq> gate_monitor: monitor call resume one_cv until False "gate_inv ok until need" "gate_calm blocked"
proof (unfold_locales, goal_cases)
  case 1 then show ?case using gate_step_inv by blast
next
  case 2 then show ?case using resume_total by blast
next
  case 3 then show ?case using resume_quiet by blast
next
  case 4 then show ?case using gate_settled_calm by blast
qed

lemma nobody_sleeps [simp]: "tally (sleeps_on cv c) (replicate n Idle) = 0"
  by (induction n) auto

lemma gate_start: "gate_inv ok until need q (replicate n Idle) now"
  by (simp add: gate_inv_def)

section \<open>Wait groups\<close>

abbreviation "UINT32_MAX \<equiv> 4294967295 :: int"

record ct_waitgroup =
  wg_counter :: u32

text \<open>The flags tell whether the mutex and the condition variable can be initialised.\<close>

definition ct_waitgroup_init :: "ct_waitgroup option \<Rightarrow> bool \<Rightarrow> bool \<Rightarrow> int \<times> ct_waitgroup option" where
  "ct_waitgroup_init wg mutex_ok cond_ok =
     (case wg of
        None \<Rightarrow> (-1, wg)
      | Some g \<Rightarrow>
          if \<not> mutex_ok then (-1, wg)
          else if \<not> cond_ok then (-1, wg)
          else (0, Some (g\<lparr>wg_counter := 0\<rparr>)))"

datatype wg_wait = WgWait (wg_until: "int option") | WgWaitFor int (wg_until: "int option")

datatype wg_result = WgUnit | WgBool bool

type_synonym wg_section = "(ct_waitgroup \<times> unit cv_event list \<times> (wg_wait, wg_result) outcome) option"

text \<open>\<^const>\<open>None\<close> is the abort of the program.\<close>

definition ct_waitgroup_add :: "ct_waitgroup \<Rightarrow> int \<Rightarrow> wg_section" where
  "ct_waitgroup_add wg delta =
     (let n = uint (wg_counter wg) + delta in
      if n < 0 \<or> n > UINT32_MAX then None
      else let wg = wg\<lparr>wg_counter := word_of_int n\<rparr>
           in Some (wg, if wg_counter wg = 0 then [Broadcast ()] else [], Returns WgUnit))"

definition ct_waitgroup_done :: "ct_waitgroup \<Rightarrow> wg_section" where
  "ct_waitgroup_done wg = ct_waitgroup_add wg (-1)"

definition ct_waitgroup_wait :: "ct_waitgroup \<Rightarrow> wg_result \<Rightarrow> wg_section" where
  "ct_waitgroup_wait wg result =
     (if wg_counter wg > 0 then Some (wg, [], Sleeps (WgWait None)) else Some (wg, [], Returns result))"

text \<open>The loop of \<open>ct_waitgroup_wait_for\<close>.  A turn whose wait ends at once is followed by another one, which sees that
  the time is over, so two turns of fuel are enough (\<open>wait_for_turns_two\<close>).\<close>

fun wait_for_turns :: "nat \<Rightarrow> ct_waitgroup \<Rightarrow> int \<Rightarrow> (nat \<Rightarrow> int) \<Rightarrow> wg_section" where
  "wait_for_turns 0 wg deadline clk = None"
| "wait_for_turns (Suc n) wg deadline clk =
     (if wg_counter wg > 0 then
        let now = clk 0 in
        if now \<ge> deadline then Some (wg, [], Returns (WgBool False))
        else case ct_cond_wait_for (deadline - now) (\<lambda>k. clk (k + 1)) of
               Sleeps u \<Rightarrow> Some (wg, [], Sleeps (WgWaitFor deadline u))
             | Returns rc \<Rightarrow> wait_for_turns n wg deadline (\<lambda>k. clk (k + 3))
      else Some (wg, [], Returns (WgBool True)))"

definition ct_waitgroup_wait_for :: "ct_waitgroup \<Rightarrow> int \<Rightarrow> (nat \<Rightarrow> int) \<Rightarrow> wg_section" where
  "ct_waitgroup_wait_for wg timeout_ms clk =
     (if timeout_ms < 0 then ct_waitgroup_wait wg (WgBool True)
      else do { deadline \<leftarrow> time_add (clk 0) timeout_ms; wait_for_turns 2 wg deadline (\<lambda>k. clk (k + 1)) })"

text \<open>The end of a wait: \<open>ct_waitgroup_wait\<close> and \<open>ct_waitgroup_wait_for\<close> both ignore its result.\<close>

fun wg_after_wait :: "wg_wait \<Rightarrow> errno \<Rightarrow> ct_waitgroup \<Rightarrow> (nat \<Rightarrow> int) \<Rightarrow> wg_section" where
  "wg_after_wait (WgWait u) result wg clk = ct_waitgroup_wait wg WgUnit"
| "wg_after_wait (WgWaitFor deadline u) result wg clk =
     (case cond_wait_result u result clk of
        Sleeps v \<Rightarrow> Some (wg, [], Sleeps (WgWaitFor deadline v))
      | Returns rc \<Rightarrow> wait_for_turns 2 wg deadline (\<lambda>k. clk (k + 1)))"

datatype wg_op = WgAdd int | WgDone | WgWaitOp | WgWaitForOp int

definition wg_call :: "(wg_op, ct_waitgroup, unit, wg_wait, wg_result) crit" where
  "wg_call op wg clk = (case op of
     WgAdd d \<Rightarrow> ct_waitgroup_add wg d | WgDone \<Rightarrow> ct_waitgroup_done wg | WgWaitOp \<Rightarrow> ct_waitgroup_wait wg WgUnit
   | WgWaitForOp t \<Rightarrow> ct_waitgroup_wait_for wg t clk)"

definition wg_resume :: "(wg_wait \<times> errno, ct_waitgroup, unit, wg_wait, wg_result) crit" where
  "wg_resume wrc wg clk = wg_after_wait (fst wrc) (snd wrc) wg clk"

definition wg_blocked :: "ct_waitgroup \<Rightarrow> bool" where
  "wg_blocked wg \<longleftrightarrow> wg_counter wg > 0"

definition wg_need :: "ct_waitgroup \<Rightarrow> nat \<Rightarrow> bool" where
  "wg_need wg k \<longleftrightarrow> wg_blocked wg"

fun wg_ok :: "wg_wait \<Rightarrow> bool" where
  "wg_ok (WgWait u) \<longleftrightarrow> u = None"
| "wg_ok (WgWaitFor deadline u) \<longleftrightarrow> deadline \<le> INT64_MAX"

text \<open>What the loop leaves, however the clock goes, and that it ends.\<close>

lemma wait_for_turns_keeps:
  "wait_for_turns n wg d clk = Some (wg', evs, out) \<Longrightarrow>
   wg' = wg \<and> evs = [] \<and> (out = Returns (WgBool True) \<longrightarrow> wg_counter wg = 0)"
  by (induction n arbitrary: clk) (auto simp: Let_def word_gt_0 split: if_splits outcome.splits)

lemma wait_for_turns_leaves:
  "wait_for_turns n wg d clk = Some sec \<Longrightarrow> d \<le> INT64_MAX \<Longrightarrow> gate_leaves wg_ok wg_need wg_blocked wg was sec"
  by (induction n arbitrary: clk)
    (auto simp: gate_leaves_def wg_need_def wg_blocked_def Let_def word_gt_0 split: if_splits outcome.splits)

lemma cond_wait_for_passed:
  assumes "ct_cond_wait_for t clk = Returns rc" "0 < t" "d \<le> INT64_MAX" "d \<le> clk 0 + t"
  shows "d \<le> clk 1"
  using assms by (auto simp: ct_cond_wait_for_def cond_wait_turn_def Let_def split: if_splits)

lemma wait_for_turns_two:
  assumes m: "mono clk" and d: "d \<le> INT64_MAX"
  shows "\<exists>sec. wait_for_turns 2 wg d clk = Some sec"
proof -
  have "d \<le> clk 3" if r: "ct_cond_wait_for (d - clk 0) (\<lambda>k. clk (k + 1)) = Returns rc" and lt: "clk 0 < d" for rc
  proof -
    have "clk 0 \<le> clk 1" "clk 2 \<le> clk 3" using m by (auto intro: monoD)
    then show ?thesis using cond_wait_for_passed [OF r _ d] lt by (simp add: numeral_2_eq_2)
  qed
  then show ?thesis by (auto simp: numeral_2_eq_2 numeral_3_eq_3 Let_def split: outcome.splits)
qed


lemma wg_call_leaves: "wg_call op wg clk = Some sec \<Longrightarrow> gate_leaves wg_ok wg_need wg_blocked wg 0 sec"
proof (cases op)
  case (WgWaitForOp t)
  then show "wg_call op wg clk = Some sec \<Longrightarrow> gate_leaves wg_ok wg_need wg_blocked wg 0 sec"
    using wait_for_turns_leaves [of 2 wg _ "\<lambda>k. clk (k + 1)" sec 0]
    by (auto simp: wg_call_def ct_waitgroup_wait_for_def ct_waitgroup_wait_def time_add_def gate_leaves_def
        wg_need_def wg_blocked_def split: if_splits Option.bind_splits)
qed (auto simp: wg_call_def ct_waitgroup_add_def ct_waitgroup_done_def ct_waitgroup_wait_def gate_leaves_def
    wg_need_def wg_blocked_def word_gt_0 Let_def split: if_splits)

lemma wg_resume_leaves:
  assumes "mono clk" "wg_ok w" and "rc = E_OK \<or> rc = ETIMEDOUT \<and> wg_until w = Some d \<and> d \<le> clk 0"
  shows "\<exists>out. wg_resume (w, rc) wg clk = Some (wg, [], out) \<and> gate_leaves wg_ok wg_need wg_blocked wg was (wg, [], out)"
proof (cases w)
  case (WgWait u)
  then show ?thesis using assms(2) by (auto simp: wg_resume_def ct_waitgroup_wait_def gate_leaves_def wg_need_def wg_blocked_def)
next
  case (WgWaitFor dl u)
  have r: "cond_wait_result u rc clk = Returns rc"
    using assms(3) WgWaitFor by (auto simp: cond_wait_result_elapsed)
  have dl: "dl \<le> INT64_MAX" using assms(2) WgWaitFor by simp
  have "mono (\<lambda>k. clk (k + 1))" using assms(1) by (auto simp: mono_def)
  from wait_for_turns_two [OF this dl, of wg] obtain sec
    where "wait_for_turns 2 wg dl (\<lambda>k. clk (k + 1)) = Some sec" by blast
  with wait_for_turns_leaves [OF this dl, of was] wait_for_turns_keeps [of 2 wg dl "\<lambda>k. clk (k + 1)"] r WgWaitFor
  show ?thesis by (cases sec) (auto simp: wg_resume_def)
qed

interpretation wg: gate wg_call wg_resume wg_ok wg_until wg_need wg_blocked
proof (unfold_locales, goal_cases)
  case 4 then show ?case by (rule wg_call_leaves)
next
  case (5 w rc wg clk wg' evs out)
  then show ?case
    by (cases w) (auto simp: wg_resume_def ct_waitgroup_wait_def dest: wait_for_turns_keeps split: if_splits outcome.splits)
next
  case (6 clk w wg)
  then show ?case using wg_resume_leaves [of clk w E_OK] by blast
next
  case (7 clk w d wg)
  then show ?case using wg_resume_leaves [of clk w ETIMEDOUT d] by blast
qed (simp_all add: wg_need_def)

abbreviation "wg_step \<equiv> mon_step wg_call wg_resume one_cv wg_until False"

text \<open>Once no thread is on its way to the mutex, nobody waits for a group whose counter is 0.\<close>

lemma waitgroup_lets_go:
  assumes "mon_run wg_step (wg0, replicate n Idle, now0) tr (wg1, ps1, now1)"
    and "(resume_step wg_step ^^ k) (wg1, ps1, now1) (wg', ps, now)"
  shows "k \<le> 2 * length ps1 \<and>
    ((\<forall>t. \<not> resume_step wg_step (wg', ps, now) t) \<longrightarrow>
     (\<forall>p \<in> set ps. \<not> ready p) \<and> (\<forall>w. Asleep w \<in> set ps \<longrightarrow> wg_counter wg' > 0))"
  using wg.gate_monitor.settled [OF gate_start assms] unfolding gate_calm_def wg_blocked_def by blast

text \<open>A wait reports success only when the counter is 0.\<close>

lemma wait_for_true:
  assumes "ct_waitgroup_wait_for wg t clk = Some (wg', evs, Returns (WgBool True))"
  shows "wg' = wg \<and> wg_counter wg = 0"
  using assms
  by (auto dest: wait_for_turns_keeps simp: ct_waitgroup_wait_for_def ct_waitgroup_wait_def word_gt_0 time_add_def split: if_splits Option.bind_splits)

end
