(* ===== verification/Coter_Event.thy ===== *)
theory Coter_Event
  imports Coter_Gates
begin

text \<open>
  Events and semaphores: \<open>sync/event.h\<close>, \<open>event.c\<close> (the variant over a mutex and a condition variable, every
  system but Windows) and \<open>sync/sem.h\<close>, \<open>sem.c\<close> (the variant over a POSIX mutex, macOS without clang; elsewhere the
  file only forwards to the semaphore of the system).  Both are gates, so no wake-up is lost.  A call with a null object returns at once, before
  it touches anything, and is left out of the interleaving.
\<close>

section \<open>Events\<close>

record ct_event =
  ev_count :: int

definition ct_event_init :: "ct_event option \<Rightarrow> errno \<Rightarrow> errno \<Rightarrow> errno \<times> ct_event option" where
  "ct_event_init event mutex_rc cond_rc =
     (case event of
        None \<Rightarrow> (EINVAL, None)
      | Some e \<Rightarrow>
          if mutex_rc \<noteq> E_OK then (mutex_rc, event)
          else if cond_rc \<noteq> E_OK then (cond_rc, event)
          else (E_OK, Some (e\<lparr>ev_count := 0\<rparr>)))"

datatype ev_wait = EvWait (ev_until: "int option") | EvTimedwait int (ev_until: "int option")

type_synonym ev_section = "(ct_event \<times> unit cv_event list \<times> (ev_wait, errno) outcome) option"

definition ct_event_wait :: "ct_event \<Rightarrow> ev_section" where
  "ct_event_wait e =
     (if ev_count e = 0 then Some (e, [], Sleeps (EvWait None)) else Some (e\<lparr>ev_count := 0\<rparr>, [], Returns E_OK))"

text \<open>The loop of \<open>ct_event_timedwait\<close> from the test of \<open>count_\<close>; whatever makes the wait end at once ends the loop.\<close>

definition timedwait_turn :: "ct_event \<Rightarrow> int \<Rightarrow> (nat \<Rightarrow> int) \<Rightarrow> ev_section" where
  "timedwait_turn e deadline clk =
     (if ev_count e = 0 then
        let now = clk 0 in
        if now \<ge> deadline then Some (e, [], Returns ETIMEDOUT)
        else case ct_cond_wait_for (deadline - now) (\<lambda>k. clk (k + 1)) of
               Sleeps u \<Rightarrow> Some (e, [], Sleeps (EvTimedwait deadline u))
             | Returns result \<Rightarrow> Some (e, [], Returns result)
      else Some (e\<lparr>ev_count := 0\<rparr>, [], Returns E_OK))"

definition ct_event_timedwait :: "ct_event \<Rightarrow> u32 \<Rightarrow> (nat \<Rightarrow> int) \<Rightarrow> ev_section" where
  "ct_event_timedwait e timeout_ms clk =
     do { deadline \<leftarrow> time_add (clk 0) (uint timeout_ms); timedwait_turn e deadline (\<lambda>k. clk (k + 1)) }"

fun ev_after_wait :: "ev_wait \<Rightarrow> errno \<Rightarrow> ct_event \<Rightarrow> (nat \<Rightarrow> int) \<Rightarrow> ev_section" where
  "ev_after_wait (EvWait u) result e clk =
     (if result \<noteq> E_OK then Some (e, [], Returns result) else ct_event_wait e)"
| "ev_after_wait (EvTimedwait deadline u) result e clk =
     (case cond_wait_result u result clk of
        Sleeps v \<Rightarrow> Some (e, [], Sleeps (EvTimedwait deadline v))
      | Returns rc \<Rightarrow> if rc \<noteq> E_OK then Some (e, [], Returns rc) else timedwait_turn e deadline (\<lambda>k. clk (k + 1)))"

definition ct_event_signal :: "ct_event \<Rightarrow> ev_section" where
  "ct_event_signal e = Some (e\<lparr>ev_count := 1\<rparr>, [Signal ()], Returns E_OK)"

definition ct_event_reset :: "ct_event \<Rightarrow> ev_section" where
  "ct_event_reset e = Some (e\<lparr>ev_count := 0\<rparr>, [], Returns E_OK)"

datatype ev_op = EvWaitOp | EvTimedwaitOp u32 | EvSignal | EvReset

definition ev_call :: "(ev_op, ct_event, unit, ev_wait, errno) crit" where
  "ev_call op e clk = (case op of
     EvWaitOp \<Rightarrow> ct_event_wait e | EvTimedwaitOp t \<Rightarrow> ct_event_timedwait e t clk
   | EvSignal \<Rightarrow> ct_event_signal e | EvReset \<Rightarrow> ct_event_reset e)"

definition ev_resume :: "(ev_wait \<times> errno, ct_event, unit, ev_wait, errno) crit" where
  "ev_resume wrc e clk = ev_after_wait (fst wrc) (snd wrc) e clk"

definition ev_blocked :: "ct_event \<Rightarrow> bool" where
  "ev_blocked e \<longleftrightarrow> ev_count e = 0"

text \<open>A set event may leave threads asleep only while a woken one is on its way to take it.\<close>

definition ev_need :: "ct_event \<Rightarrow> nat \<Rightarrow> bool" where
  "ev_need e k \<longleftrightarrow> ev_blocked e \<or> 0 < k"

abbreviation "ev_ok \<equiv> \<lambda>w :: ev_wait. True"

lemma timedwait_turn_leaves:
  "timedwait_turn e d clk = Some sec \<Longrightarrow> gate_leaves ev_ok ev_need ev_blocked e was sec"
  by (auto simp: timedwait_turn_def gate_leaves_def ev_need_def ev_blocked_def Let_def split: if_splits outcome.splits)

lemma timedwait_turn_ends:
  "\<exists>e' out. timedwait_turn e d clk = Some (e', [], out)"
  by (auto simp: timedwait_turn_def Let_def split: outcome.split)

lemma event_wait_leaves: "ct_event_wait e = Some sec \<Longrightarrow> gate_leaves ev_ok ev_need ev_blocked e was sec"
  by (auto simp: ct_event_wait_def gate_leaves_def ev_need_def ev_blocked_def split: if_splits)

lemma ev_call_leaves: "ev_call op e clk = Some sec \<Longrightarrow> gate_leaves ev_ok ev_need ev_blocked e 0 sec"
  by (cases op)
    (auto simp: ev_call_def ct_event_timedwait_def ct_event_signal_def ct_event_reset_def gate_leaves_def ev_need_def
      ev_blocked_def split: Option.bind_splits dest!: timedwait_turn_leaves [where was = 0] event_wait_leaves [where was = 0])

lemma ev_resume_leaves:
  assumes "rc = E_OK \<and> was = 1 \<or> rc = ETIMEDOUT \<and> ev_until w = Some d \<and> d \<le> clk 0 \<and> was = 0"
  shows "\<exists>e' out. ev_resume (w, rc) e clk = Some (e', [], out) \<and> gate_leaves ev_ok ev_need ev_blocked e was (e', [], out)"
proof (cases w)
  case (EvWait u)
  then have "ev_resume (w, rc) e clk = (if rc \<noteq> E_OK then Some (e, [], Returns rc) else ct_event_wait e)"
    by (simp add: ev_resume_def)
  moreover have "gate_leaves ev_ok ev_need ev_blocked e 0 (e, [], Returns rc)" by (simp add: gate_leaves_def)
  moreover obtain e' out where "ct_event_wait e = Some (e', [], out)" by (cases "ev_count e = 0") (auto simp: ct_event_wait_def)
  ultimately show ?thesis using event_wait_leaves [of e "(e', [], out)" was] assms by auto
next
  case (EvTimedwait dl u)
  have "cond_wait_result u rc clk = Returns rc"
    using assms EvTimedwait by (auto simp: cond_wait_result_elapsed)
  then have "ev_resume (w, rc) e clk =
      (if rc \<noteq> E_OK then Some (e, [], Returns rc) else timedwait_turn e dl (\<lambda>k. clk (k + 1)))"
    using EvTimedwait by (simp add: ev_resume_def)
  moreover have "gate_leaves ev_ok ev_need ev_blocked e 0 (e, [], Returns rc)" by (simp add: gate_leaves_def)
  moreover obtain e' out where "timedwait_turn e dl (\<lambda>k. clk (k + 1)) = Some (e', [], out)"
    using timedwait_turn_ends by blast
  ultimately show ?thesis using timedwait_turn_leaves [of e dl "\<lambda>k. clk (k + 1)" "(e', [], out)" was] assms by auto
qed

interpretation ev: gate ev_call ev_resume ev_ok ev_until ev_need ev_blocked
proof (unfold_locales, goal_cases)
  case 4 then show ?case by (rule ev_call_leaves)
next
  case (5 w rc e clk e' evs out)
  then show ?case
    by (cases w) (auto simp: ev_resume_def ct_event_wait_def timedwait_turn_def Let_def split: if_splits outcome.splits)
next
  case (6 clk w e)
  then show ?case using ev_resume_leaves [of E_OK 1 w _ clk e] by simp
next
  case (7 clk w d e)
  then show ?case using ev_resume_leaves [of ETIMEDOUT 0 w d clk e] by simp
qed (auto simp: ev_need_def)

abbreviation "ev_step \<equiv> mon_step ev_call ev_resume one_cv ev_until False"

text \<open>Once no thread is on its way to the mutex, a set event keeps nobody waiting.\<close>

lemma event_settles:
  assumes "mon_run ev_step (e0, replicate n Idle, now0) tr (e1, ps1, now1)"
    and "(resume_step ev_step ^^ k) (e1, ps1, now1) (e', ps, now)"
  shows "k \<le> 2 * length ps1 \<and>
    ((\<forall>t. \<not> resume_step ev_step (e', ps, now) t) \<longrightarrow>
     (\<forall>p \<in> set ps. \<not> ready p) \<and> (\<forall>w. Asleep w \<in> set ps \<longrightarrow> ev_count e' = 0))"
  using ev.gate_monitor.settled [OF gate_start assms] unfolding gate_calm_def ev_blocked_def by blast

text \<open>An event is automatic: what a wait takes is gone, and a wait that fails takes nothing.\<close>

lemma event_wait_takes:
  assumes "ev_call op e clk = Some (e', evs, Returns rc)" and "op = EvWaitOp \<or> op = EvTimedwaitOp t"
  shows "if rc = E_OK then ev_count e \<noteq> 0 \<and> ev_count e' = 0 else rc = ETIMEDOUT \<and> e' = e \<and> ev_count e = 0"
  using assms
  by (auto simp: ev_call_def ct_event_wait_def ct_event_timedwait_def timedwait_turn_def Let_def
      dest: cond_wait_for_returns split: if_splits outcome.splits Option.bind_splits)

section \<open>Semaphores\<close>

record ct_sem =
  sem_count :: u32

definition ct_sem_init :: "ct_sem option \<Rightarrow> u32 \<Rightarrow> bool \<Rightarrow> bool \<Rightarrow> errno \<times> ct_sem option" where
  "ct_sem_init sem value mutex_ok cond_ok =
     (case sem of
        None \<Rightarrow> (EINVAL, None)
      | Some s \<Rightarrow>
          if \<not> mutex_ok then (EINVAL, sem)
          else if \<not> cond_ok then (EINVAL, sem)
          else (E_OK, Some (s\<lparr>sem_count := value\<rparr>)))"

text \<open>The waits go to \<open>pthread_cond_wait\<close> and \<open>pthread_cond_timedwait\<close> directly; a wait that has a deadline carries
  it, in nanoseconds.\<close>

record sem_timespec =
  tv_sec :: int
  tv_nsec :: int

definition timespec_ns :: "sem_timespec \<Rightarrow> int" where
  "timespec_ns ts = tv_sec ts * 1000000000 + tv_nsec ts"

text \<open>The lines of \<open>ct_sem_wait_for\<close> that turn the timeout into an absolute time.\<close>

definition timespec_after :: "sem_timespec \<Rightarrow> u32 \<Rightarrow> sem_timespec" where
  "timespec_after now timeout_ms =
     (let sec = tv_sec now + uint (timeout_ms div 1000);
          nsec = tv_nsec now + uint (timeout_ms mod 1000) * 1000000;
          sec = sec + nsec div 1000000000;
          nsec = nsec mod 1000000000
      in \<lparr>tv_sec = sec, tv_nsec = nsec\<rparr>)"

text \<open>The time is exact and normalised.\<close>

lemma timespec_after_exact:
  "timespec_ns (timespec_after now t) = timespec_ns now + uint t * 1000000 \<and>
   0 \<le> tv_nsec (timespec_after now t) \<and> tv_nsec (timespec_after now t) < 1000000000"
proof -
  define s where "s = uint t div 1000"
  define m where "m = uint t mod 1000"
  have "uint t = s * 1000 + m" by (simp add: s_def m_def)
  moreover have "uint (t div 1000) = s" "uint (t mod 1000) = m" by (simp_all add: uint_div uint_mod s_def m_def)
  moreover have "n div 1000000000 * 1000000000 + n mod 1000000000 = n" for n :: int by simp
  ultimately show ?thesis
    by (simp add: timespec_after_def timespec_ns_def Let_def algebra_simps)
qed

datatype sem_wait = SemWait (sem_until: "int option")

type_synonym sem_section = "(ct_sem \<times> unit cv_event list \<times> (sem_wait, errno) outcome) option"

definition sem_take :: "ct_sem \<Rightarrow> int option \<Rightarrow> sem_section" where
  "sem_take s until =
     (if sem_count s = 0 then Some (s, [], Sleeps (SemWait until))
      else Some (s\<lparr>sem_count := sem_count s - 1\<rparr>, [], Returns E_OK))"

definition ct_sem_wait :: "ct_sem \<Rightarrow> sem_section" where
  "ct_sem_wait s = sem_take s None"

definition ct_sem_wait_for :: "ct_sem \<Rightarrow> u32 \<Rightarrow> (nat \<Rightarrow> int) \<Rightarrow> sem_section" where
  "ct_sem_wait_for s timeout_ms clk =
     (let now = \<lparr>tv_sec = clk 0 div 1000000000, tv_nsec = clk 0 mod 1000000000\<rparr>
      in sem_take s (Some (timespec_ns (timespec_after now timeout_ms))))"

text \<open>The end of a wait.  The two functions differ in how they report an error of the system.\<close>

definition sem_after_wait :: "sem_wait \<Rightarrow> errno \<Rightarrow> ct_sem \<Rightarrow> sem_section" where
  "sem_after_wait w ret s =
     (if ret \<noteq> E_OK then
        Some (s, [], Returns (if sem_until w \<noteq> None \<and> ret = ETIMEDOUT then ETIMEDOUT else EINVAL))
      else sem_take s (sem_until w))"

definition ct_sem_trywait :: "ct_sem \<Rightarrow> sem_section" where
  "ct_sem_trywait s =
     (if sem_count s = 0 then Some (s, [], Returns EAGAIN)
      else Some (s\<lparr>sem_count := sem_count s - 1\<rparr>, [], Returns E_OK))"

definition ct_sem_post :: "ct_sem \<Rightarrow> sem_section" where
  "ct_sem_post s = Some (s\<lparr>sem_count := sem_count s + 1\<rparr>, [Signal ()], Returns E_OK)"

datatype sem_op = SemWaitOp | SemTrywait | SemWaitFor u32 | SemPost

definition sem_call :: "(sem_op, ct_sem, unit, sem_wait, errno) crit" where
  "sem_call op s clk = (case op of
     SemWaitOp \<Rightarrow> ct_sem_wait s | SemTrywait \<Rightarrow> ct_sem_trywait s
   | SemWaitFor t \<Rightarrow> ct_sem_wait_for s t clk | SemPost \<Rightarrow> ct_sem_post s)"

definition sem_resume :: "(sem_wait \<times> errno, ct_sem, unit, sem_wait, errno) crit" where
  "sem_resume wrc s clk = sem_after_wait (fst wrc) (snd wrc) s"

definition sem_blocked :: "ct_sem \<Rightarrow> bool" where
  "sem_blocked s \<longleftrightarrow> sem_count s = 0"

text \<open>While threads sleep, every unit left in the semaphore is meant for a woken one.\<close>

definition sem_need :: "ct_sem \<Rightarrow> nat \<Rightarrow> bool" where
  "sem_need s k \<longleftrightarrow> unat (sem_count s) \<le> k"

abbreviation "sem_ok \<equiv> \<lambda>w :: sem_wait. True"

lemma u32_dec: "c \<noteq> 0 \<Longrightarrow> unat (c - 1 :: u32) = unat c - 1"
  using unat_minus_one [of c] by simp

lemma u32_inc: "unat (c + 1 :: u32) \<le> Suc (unat c)"
  by (metis Suc_eq_plus1 unat_1 unat_plus_if' add_diff_cancel_right' diff_le_self nat_le_linear add.commute)

lemma sem_take_leaves: "sem_take s u = Some sec \<Longrightarrow> was \<le> 1 \<Longrightarrow> gate_leaves sem_ok sem_need sem_blocked s was sec"
  by (auto simp: sem_take_def gate_leaves_def sem_need_def sem_blocked_def u32_dec split: if_splits)

lemma sem_call_leaves: "sem_call op s clk = Some sec \<Longrightarrow> gate_leaves sem_ok sem_need sem_blocked s 0 sec"
proof (cases op)
  case SemPost
  have "unat (sem_count s) \<le> k \<Longrightarrow> unat (sem_count s + 1) \<le> Suc k" for k
    using u32_inc [of "sem_count s"] by linarith
  then show "sem_call op s clk = Some sec \<Longrightarrow> gate_leaves sem_ok sem_need sem_blocked s 0 sec"
    using SemPost by (auto simp: sem_call_def ct_sem_post_def gate_leaves_def sem_need_def)
qed (auto simp: sem_call_def ct_sem_wait_def ct_sem_wait_for_def ct_sem_trywait_def gate_leaves_def sem_need_def u32_dec
    Let_def dest: sem_take_leaves [where was = 0] split: if_splits)

interpretation sem: gate sem_call sem_resume sem_ok sem_until sem_need sem_blocked
proof (unfold_locales, goal_cases)
  case 4 then show ?case by (rule sem_call_leaves)
next
  case 5
  then show ?case by (auto simp: sem_resume_def sem_after_wait_def sem_take_def split: if_splits)
next
  case (6 clk w s)
  obtain s' out where t: "sem_take s (sem_until w) = Some (s', [], out)" by (cases "sem_count s = 0") (auto simp: sem_take_def)
  then show ?case using sem_take_leaves [OF t, of 1] by (simp add: sem_resume_def sem_after_wait_def)
next
  case (7 clk w d s)
  then show ?case by (simp add: sem_resume_def sem_after_wait_def gate_leaves_def)
qed (auto simp: sem_need_def sem_blocked_def unat_eq_zero)

abbreviation "sem_step \<equiv> mon_step sem_call sem_resume one_cv sem_until False"

text \<open>Once no thread is on its way to the mutex, threads sleep only at an empty semaphore.\<close>

lemma sem_settles:
  assumes "mon_run sem_step (s0, replicate n Idle, now0) tr (s1, ps1, now1)"
    and "(resume_step sem_step ^^ k) (s1, ps1, now1) (s', ps, now)"
  shows "k \<le> 2 * length ps1 \<and>
    ((\<forall>t. \<not> resume_step sem_step (s', ps, now) t) \<longrightarrow>
     (\<forall>p \<in> set ps. \<not> ready p) \<and> (\<forall>w. Asleep w \<in> set ps \<longrightarrow> sem_count s' = 0))"
  using sem.gate_monitor.settled [OF gate_start assms] unfolding gate_calm_def sem_blocked_def by blast

text \<open>A unit is never lost except that a post at the largest count wraps to 0.\<close>

lemma sem_post_wraps: "ct_sem_post \<lparr>sem_count = 4294967295\<rparr> = Some (\<lparr>sem_count = 0\<rparr>, [Signal ()], Returns E_OK)"
  by (simp add: ct_sem_post_def)

lemma sem_units:
  assumes "sem_call op s clk = Some (s', evs, out)" and "sem_count s \<noteq> 4294967295"
  shows "unat (sem_count s') + (if op \<noteq> SemPost \<and> out = Returns E_OK then 1 else 0) =
    unat (sem_count s) + (if op = SemPost then 1 else 0)"
proof -
  have "0 < unat (sem_count s)" if "sem_count s \<noteq> 0" using that by (simp add: unat_gt_0)
  moreover have "unat (sem_count s + 1) = Suc (unat (sem_count s))"
  proof -
    have "1 + sem_count s \<noteq> 0"
    proof
      assume "1 + sem_count s = 0"
      then have "sem_count s = - 1" by (simp add: eq_neg_iff_add_eq_0 add.commute)
      then show False using assms(2) by simp
    qed
    then show ?thesis by (simp add: unatSuc add.commute)
  qed
  ultimately show ?thesis using assms(1)
    by (cases op) (auto simp: sem_call_def ct_sem_wait_def ct_sem_wait_for_def ct_sem_trywait_def ct_sem_post_def
        sem_take_def u32_dec Let_def split: if_splits)
qed

end
