(* ===== verification/Coter_Shutdown.thy ===== *)
theory Coter_Shutdown
  imports Coter_Gates
begin

text \<open>
  \<open>sync/shutdown_signal.h\<close>, \<open>shutdown_signal.c\<close>: the timeout signal (an atomic flag and an absolute deadline) and the
  shutdown token, a gate that is opened by a cancellation.  Cancelling takes the flag without the mutex and notifies
  under it afterwards, so between the two a cancelled token may still have sleepers; the token's state counts the
  threads that are there.  A call with a null object returns at once, before
  it touches anything, and is left out of the interleaving.
\<close>

section \<open>Timeout signals\<close>

type_synonym i64 = "64 word"

record ct_timeout_signal =
  ts_cancelled :: int
  ts_deadline_ms :: i64

text \<open>The deadline that both functions of the file compute: it saturates.\<close>

definition deadline_after :: "int \<Rightarrow> int \<Rightarrow> int" where
  "deadline_after timeout_ms now = (if timeout_ms > INT64_MAX - now then INT64_MAX else now + timeout_ms)"

definition ct_timeout_signal_init :: "ct_timeout_signal \<Rightarrow> int \<Rightarrow> int \<Rightarrow> ct_timeout_signal" where
  "ct_timeout_signal_init self timeout_ms now =
     (let self = self\<lparr>ts_cancelled := 0\<rparr> in
      if timeout_ms < 0 then self\<lparr>ts_deadline_ms := word_of_int (-1)\<rparr>
      else self\<lparr>ts_deadline_ms := word_of_int (deadline_after timeout_ms now)\<rparr>)"

definition ct_timeout_signal_cancel :: "ct_timeout_signal \<Rightarrow> bool \<times> ct_timeout_signal" where
  "ct_timeout_signal_cancel self = (ts_cancelled self = 0, self\<lparr>ts_cancelled := 1\<rparr>)"

definition ct_timeout_signal_is_done :: "ct_timeout_signal \<Rightarrow> int \<Rightarrow> bool" where
  "ct_timeout_signal_is_done self now =
     (if ts_cancelled self \<noteq> 0 then True
      else let dl = sint (ts_deadline_ms self) in if dl \<ge> 0 then now - dl \<ge> 0 else False)"

definition ct_timeout_signal_remaining :: "ct_timeout_signal \<Rightarrow> int \<Rightarrow> int" where
  "ct_timeout_signal_remaining self now =
     (if ts_cancelled self \<noteq> 0 then 0
      else let dl = sint (ts_deadline_ms self) in
           if dl < 0 then -1 else let diff = dl - now in if diff \<le> 0 then 0 else diff)"

text \<open>The two queries agree, and the deadline is stored exactly.\<close>

lemma is_done_remaining: "ct_timeout_signal_is_done s now \<longleftrightarrow> ct_timeout_signal_remaining s now = 0"
  by (simp add: ct_timeout_signal_is_done_def ct_timeout_signal_remaining_def Let_def)

lemma is_done_stays: "ct_timeout_signal_is_done s now \<Longrightarrow> now \<le> now' \<Longrightarrow> ct_timeout_signal_is_done s now'"
  by (auto simp: ct_timeout_signal_is_done_def Let_def split: if_splits)

lemma deadline_after_bounds:
  "0 \<le> t \<Longrightarrow> 0 \<le> now \<Longrightarrow> now \<le> INT64_MAX \<Longrightarrow>
   0 \<le> deadline_after t now \<and> deadline_after t now \<le> INT64_MAX \<and> deadline_after t now \<le> now + t"
  by (simp add: deadline_after_def)

lemma deadline_after_max: "deadline_after t now \<le> INT64_MAX"
  by (simp add: deadline_after_def)

lemma sint_of_time: "0 \<le> d \<Longrightarrow> d \<le> INT64_MAX \<Longrightarrow> sint (word_of_int d :: i64) = d"
  by (subst sint_sbintrunc') (simp add: signed_take_bit_int_eq_self)

lemma signal_init_deadline:
  assumes "0 \<le> now" "now \<le> INT64_MAX"
  shows "ct_timeout_signal_is_done (ct_timeout_signal_init s t now) later \<longleftrightarrow>
    0 \<le> t \<and> deadline_after t now \<le> later"
proof (cases "t < 0")
  case True
  then show ?thesis by (simp add: ct_timeout_signal_init_def ct_timeout_signal_is_done_def Let_def)
next
  case False
  then show ?thesis
    using deadline_after_bounds [of t now] assms sint_of_time [of "deadline_after t now"]
    by (simp add: ct_timeout_signal_init_def ct_timeout_signal_is_done_def Let_def)
qed

section \<open>Shutdown tokens\<close>

text \<open>\<open>tk_notifying\<close> and \<open>tk_calling\<close> count the threads inside \<open>ct_shutdown_token_cancel\<close> that took the flag and
  have not yet notified, or notified and have not yet gone past the callback; \<open>tk_called\<close> counts the calls of the
  callback.  The C program has no fields for them.\<close>

record ct_shutdown_token =
  tk_signal :: ct_timeout_signal
  tk_cb :: bool
  tk_notifying :: nat
  tk_calling :: nat
  tk_called :: nat

definition ct_shutdown_token_init ::
  "ct_shutdown_token option \<Rightarrow> int \<Rightarrow> bool \<Rightarrow> bool \<Rightarrow> bool \<Rightarrow> int \<Rightarrow> int \<times> ct_shutdown_token option" where
  "ct_shutdown_token_init self timeout_ms on_cancel mutex_ok cond_ok now =
     (case self of
        None \<Rightarrow> (-1, None)
      | Some t \<Rightarrow>
          if \<not> mutex_ok then (-1, self)
          else if \<not> cond_ok then (-1, self)
          else (0, Some (t\<lparr>tk_cb := on_cancel, tk_signal := ct_timeout_signal_init (tk_signal t) timeout_ms now,
                           tk_notifying := 0, tk_calling := 0, tk_called := 0\<rparr>)))"

definition ct_shutdown_token_is_done :: "ct_shutdown_token \<Rightarrow> int \<Rightarrow> bool" where
  "ct_shutdown_token_is_done self now = ct_timeout_signal_is_done (tk_signal self) now"

definition ct_shutdown_token_remaining :: "ct_shutdown_token \<Rightarrow> int \<Rightarrow> int" where
  "ct_shutdown_token_remaining self now = ct_timeout_signal_remaining (tk_signal self) now"

text \<open>A wait remembers whether the caller gave a timeout, with the deadline that follows from it.\<close>

datatype tk_wait = TkWait (tk_user_deadline: "int option") (tk_until: "int option")

text \<open>\<open>TkGoOn\<close> is the end of a part of \<open>ct_shutdown_token_cancel\<close> after which the caller is still inside it.\<close>

datatype tk_result = TkGoOn | TkBool bool

type_synonym tk_section = "(ct_shutdown_token \<times> unit cv_event list \<times> (tk_wait, tk_result) outcome) option"

text \<open>The three parts of \<open>ct_shutdown_token_cancel\<close>: the exchange on the flag, the section that notifies, and the
  callback.\<close>

definition token_cancel_flag :: "ct_shutdown_token \<Rightarrow> tk_section" where
  "token_cancel_flag self =
     (let (is_first, sig) = ct_timeout_signal_cancel (tk_signal self);
          self = self\<lparr>tk_signal := sig\<rparr>
      in if is_first then Some (self\<lparr>tk_notifying := tk_notifying self + 1\<rparr>, [], Returns TkGoOn)
         else Some (self, [], Returns (TkBool False)))"

definition token_cancel_notify :: "ct_shutdown_token \<Rightarrow> tk_section" where
  "token_cancel_notify self =
     (if tk_notifying self = 0 then None
      else Some (self\<lparr>tk_notifying := tk_notifying self - 1, tk_calling := tk_calling self + 1\<rparr>,
                 [Broadcast ()], Returns TkGoOn))"

definition token_cancel_call :: "ct_shutdown_token \<Rightarrow> tk_section" where
  "token_cancel_call self =
     (if tk_calling self = 0 then None
      else let self = self\<lparr>tk_calling := tk_calling self - 1\<rparr>
           in Some (if tk_cb self then self\<lparr>tk_called := tk_called self + 1\<rparr> else self, [], Returns (TkBool True)))"

text \<open>The loop of \<open>ct_shutdown_token_wait\<close>.  Five clock readings are set aside for each turn, in the order of the
  code.  \<open>is_done\<close> is read again at the end.  Two turns of fuel are enough (\<open>token_turns_two\<close>).\<close>

definition token_to_wait :: "int \<Rightarrow> int \<Rightarrow> int" where
  "token_to_wait remain user_remain =
     (if remain > 0 \<and> user_remain < 0 then remain
      else if remain < 0 \<and> user_remain > 0 then user_remain
      else if remain > 0 \<and> user_remain > 0 then min remain user_remain
      else -1)"

definition token_over :: "ct_shutdown_token \<Rightarrow> int \<Rightarrow> tk_section" where
  "token_over self now = Some (self, [], Returns (TkBool (ct_shutdown_token_is_done self now)))"

fun token_turns :: "nat \<Rightarrow> ct_shutdown_token \<Rightarrow> int option \<Rightarrow> (nat \<Rightarrow> int) \<Rightarrow> tk_section" where
  "token_turns 0 self user clk = None"
| "token_turns (Suc n) self user clk =
     (if ct_shutdown_token_is_done self (clk 0) then token_over self (clk 1)
      else let remain = ct_shutdown_token_remaining self (clk 1) in
      if remain = 0 then token_over self (clk 2)
      else let user_remain = (case user of None \<Rightarrow> -1 | Some d \<Rightarrow> d - clk 2) in
      if user \<noteq> None \<and> user_remain \<le> 0 then token_over self (clk 3)
      else case ct_cond_wait_for (token_to_wait remain user_remain) (\<lambda>k. clk (k + 3)) of
             Sleeps u \<Rightarrow> Some (self, [], Sleeps (TkWait user u))
           | Returns rc \<Rightarrow> token_turns n self user (\<lambda>k. clk (k + 5)))"

definition ct_shutdown_token_wait :: "ct_shutdown_token \<Rightarrow> int \<Rightarrow> (nat \<Rightarrow> int) \<Rightarrow> tk_section" where
  "ct_shutdown_token_wait self timeout_ms clk =
     token_turns 2 self (if timeout_ms \<ge> 0 then Some (deadline_after timeout_ms (clk 0)) else None) (\<lambda>k. clk (k + 1))"

fun token_after_wait :: "tk_wait \<Rightarrow> errno \<Rightarrow> ct_shutdown_token \<Rightarrow> (nat \<Rightarrow> int) \<Rightarrow> tk_section" where
  "token_after_wait (TkWait user u) result self clk =
     (case cond_wait_result u result clk of
        Sleeps v \<Rightarrow> Some (self, [], Sleeps (TkWait user v))
      | Returns rc \<Rightarrow> token_turns 2 self user (\<lambda>k. clk (k + 1)))"

datatype tk_op = TkCancelFlag | TkCancelNotify | TkCancelCall | TkWaitOp int

definition tk_call :: "(tk_op, ct_shutdown_token, unit, tk_wait, tk_result) crit" where
  "tk_call op t clk = (case op of
     TkCancelFlag \<Rightarrow> token_cancel_flag t | TkCancelNotify \<Rightarrow> token_cancel_notify t | TkCancelCall \<Rightarrow> token_cancel_call t
   | TkWaitOp ms \<Rightarrow> ct_shutdown_token_wait t ms clk)"

definition tk_resume :: "(tk_wait \<times> errno, ct_shutdown_token, unit, tk_wait, tk_result) crit" where
  "tk_resume wrc t clk = token_after_wait (fst wrc) (snd wrc) t clk"

text \<open>Threads may sleep at a token that is not cancelled, or whose cancelling thread has not notified yet.\<close>

definition tk_blocked :: "ct_shutdown_token \<Rightarrow> bool" where
  "tk_blocked t \<longleftrightarrow> ts_cancelled (tk_signal t) = 0 \<or> 0 < tk_notifying t"

definition tk_need :: "ct_shutdown_token \<Rightarrow> nat \<Rightarrow> bool" where
  "tk_need t k \<longleftrightarrow> tk_blocked t"

definition tk_ok :: "tk_wait \<Rightarrow> bool" where
  "tk_ok w \<longleftrightarrow> (case tk_user_deadline w of None \<Rightarrow> True | Some d \<Rightarrow> d \<le> INT64_MAX)"

lemma done_cancelled: "\<not> ct_shutdown_token_is_done t now \<Longrightarrow> ts_cancelled (tk_signal t) = 0"
  by (simp add: ct_shutdown_token_is_done_def ct_timeout_signal_is_done_def split: if_splits)

lemma token_turns_keeps:
  "token_turns n t user clk = Some (t', evs, out) \<Longrightarrow> t' = t \<and> evs = [] \<and>
   (\<forall>w. out = Sleeps w \<longrightarrow> ts_cancelled (tk_signal t) = 0 \<and> tk_user_deadline w = user)"
proof (induction n arbitrary: clk)
  case (Suc n)
  show ?case
  proof (cases "ct_shutdown_token_is_done t (clk 0)")
    case True
    then show ?thesis using Suc.prems by (auto simp: token_over_def)
  next
    case False
    with Suc show ?thesis using done_cancelled [OF False]
      by (auto simp: token_over_def Let_def split: if_splits outcome.splits)
  qed
qed simp

lemma token_turns_leaves:
  assumes "token_turns n t user clk = Some (t', evs, out)" and "case user of None \<Rightarrow> True | Some d \<Rightarrow> d \<le> INT64_MAX"
  shows "gate_leaves tk_ok tk_need tk_blocked t was (t', evs, out)"
  using token_turns_keeps [OF assms(1)] assms(2)
  by (auto simp: gate_leaves_def tk_need_def tk_blocked_def tk_ok_def split: option.splits)

text \<open>A wait that ends at once was cut short by one of the deadlines, so the next turn ends the loop.\<close>

lemma token_turns_two:
  assumes m: "mono clk" and u: "case user of None \<Rightarrow> True | Some d \<Rightarrow> d \<le> INT64_MAX"
  shows "\<exists>sec. token_turns 2 t user clk = Some sec"
proof -
  define remain where "remain = ct_shutdown_token_remaining t (clk 1)"
  define ur where "ur = (case user of None \<Rightarrow> -1 | Some d \<Rightarrow> d - clk 2)"
  have le: "clk i \<le> clk j" if "i \<le> j" for i j using m that by (rule monoD)
  have next_turn: "token_turns 1 t user (\<lambda>k. clk (k + 5)) \<noteq> None"
    if r: "ct_cond_wait_for (token_to_wait remain ur) (\<lambda>k. clk (k + 3)) = Returns rc"
      and rem: "remain \<noteq> 0" and ur: "\<not> (user \<noteq> None \<and> ur \<le> 0)" for rc
  proof -
    have w: "0 \<le> token_to_wait remain ur" using r by (auto simp: ct_cond_wait_for_def split: if_splits)
    have dl: "sint (ts_deadline_ms (tk_signal t)) \<le> INT64_MAX" using sint_lt [of "ts_deadline_ms (tk_signal t)"] by simp
    have pos: "0 < token_to_wait remain ur" using w rem ur by (auto simp: token_to_wait_def split: if_splits)
    have "token_to_wait remain ur = remain \<and> 0 < remain \<or> token_to_wait remain ur = ur \<and> 0 < ur"
      using pos by (auto simp: token_to_wait_def split: if_splits)
    then show ?thesis
    proof
      assume c: "token_to_wait remain ur = remain \<and> 0 < remain"
      then have d: "remain = sint (ts_deadline_ms (tk_signal t)) - clk 1" "0 \<le> sint (ts_deadline_ms (tk_signal t))"
        by (auto simp: remain_def ct_shutdown_token_remaining_def ct_timeout_signal_remaining_def Let_def split: if_splits)
      have "sint (ts_deadline_ms (tk_signal t)) \<le> clk 4"
        using cond_wait_for_passed [OF r pos dl] c d le [of 1 3] by (simp add: eval_nat_numeral)
      then have "ct_shutdown_token_is_done t (clk 5)"
        using d(2) le [of 4 5] by (simp add: ct_shutdown_token_is_done_def ct_timeout_signal_is_done_def Let_def)
      then show ?thesis by (simp add: token_over_def)
    next
      assume c: "token_to_wait remain ur = ur \<and> 0 < ur"
      then obtain d where d: "user = Some d" "ur = d - clk 2" by (auto simp: ur_def split: option.splits)
      have "d \<le> clk 4"
        using cond_wait_for_passed [OF r pos, of d] u c d le [of 2 3] by (simp add: eval_nat_numeral)
      then have "d \<le> clk 7" using le [of 4 7] by simp
      then show ?thesis using d by (auto simp: token_over_def Let_def eval_nat_numeral)
    qed
  qed
  have "token_turns 2 t user clk = token_turns (Suc 1) t user clk" by (simp add: numeral_2_eq_2)
  also have "\<dots> \<noteq> None"
    using next_turn unfolding token_turns.simps(2) [of 1] remain_def [symmetric] Let_def ur_def [symmetric]
    by (auto simp: token_over_def split: outcome.split)
  finally show ?thesis by auto
qed

lemma tk_call_leaves: "tk_call op t clk = Some sec \<Longrightarrow> gate_leaves tk_ok tk_need tk_blocked t 0 sec"
proof (cases op)
  case (TkWaitOp ms)
  then show "tk_call op t clk = Some sec \<Longrightarrow> gate_leaves tk_ok tk_need tk_blocked t 0 sec"
    using token_turns_leaves [where was = 0 and t = t] deadline_after_max
    by (cases sec) (auto simp: tk_call_def ct_shutdown_token_wait_def split: if_splits)
qed (auto simp: tk_call_def token_cancel_flag_def ct_timeout_signal_cancel_def token_cancel_notify_def
    token_cancel_call_def gate_leaves_def tk_need_def tk_blocked_def Let_def split: if_splits)

lemma tk_resume_leaves:
  assumes "mono clk" "tk_ok w" and "rc = E_OK \<or> rc = ETIMEDOUT \<and> tk_until w = Some d \<and> d \<le> clk 0"
  shows "\<exists>t' out. tk_resume (w, rc) t clk = Some (t', [], out) \<and> gate_leaves tk_ok tk_need tk_blocked t was (t', [], out)"
proof -
  obtain user u where w: "w = TkWait user u" by (cases w)
  have r: "cond_wait_result u rc clk = Returns rc"
    using assms(3) w by (auto simp: cond_wait_result_elapsed)
  have user: "case user of None \<Rightarrow> True | Some d \<Rightarrow> d \<le> INT64_MAX" using assms(2) w by (simp add: tk_ok_def)
  have "mono (\<lambda>k. clk (k + 1))" using assms(1) by (auto simp: mono_def)
  from token_turns_two [OF this user, of t] obtain t' evs out
    where "token_turns 2 t user (\<lambda>k. clk (k + 1)) = Some (t', evs, out)" by auto
  with token_turns_leaves [OF this user, of was] token_turns_keeps [OF this] w r show ?thesis
    by (simp add: tk_resume_def)
qed

interpretation tk: gate tk_call tk_resume tk_ok tk_until tk_need tk_blocked
proof (unfold_locales, goal_cases)
  case 4 then show ?case by (rule tk_call_leaves)
next
  case (5 w rc t clk t' evs out)
  then show ?case
    by (cases w) (auto simp: tk_resume_def dest: token_turns_keeps split: outcome.splits)
next
  case (6 clk w t)
  then show ?case using tk_resume_leaves [of clk w E_OK] by blast
next
  case (7 clk w d t)
  then show ?case using tk_resume_leaves [of clk w ETIMEDOUT d] by blast
qed (simp_all add: tk_need_def)

abbreviation "tk_step \<equiv> mon_step tk_call tk_resume one_cv tk_until False"

text \<open>Once every cancelling thread has notified and no thread is on its way to the mutex, nobody waits at a
  cancelled token.\<close>

lemma token_settles:
  assumes "mon_run tk_step (t0, replicate n Idle, now0) tr (t1, ps1, now1)"
    and "(resume_step tk_step ^^ k) (t1, ps1, now1) (t', ps, now)"
  shows "k \<le> 2 * length ps1 \<and>
    ((\<forall>s. \<not> resume_step tk_step (t', ps, now) s) \<longrightarrow>
     (\<forall>p \<in> set ps. \<not> ready p) \<and>
     (\<forall>w. Asleep w \<in> set ps \<longrightarrow> ts_cancelled (tk_signal t') = 0 \<or> 0 < tk_notifying t'))"
  using tk.gate_monitor.settled [OF gate_start assms] unfolding gate_calm_def tk_blocked_def by blast

text \<open>The callback is called at most once in the life of a token.\<close>

definition tk_once :: "ct_shutdown_token \<Rightarrow> bool" where
  "tk_once t \<longleftrightarrow> tk_notifying t + tk_calling t + tk_called t \<le> (if ts_cancelled (tk_signal t) = 0 then 0 else 1)"

lemma tk_once_call: "tk_call op t clk = Some (t', evs, out) \<Longrightarrow> tk_once t \<Longrightarrow> tk_once t'"
  by (cases op)
    (auto simp: tk_call_def token_cancel_flag_def ct_timeout_signal_cancel_def token_cancel_notify_def
      token_cancel_call_def tk_once_def ct_shutdown_token_wait_def Let_def dest: token_turns_keeps split: if_splits)

lemma tk_once_resume: "tk_resume wrc t clk = Some (t', evs, out) \<Longrightarrow> tk_once t \<Longrightarrow> tk_once t'"
  by (cases "fst wrc") (auto simp: tk_resume_def dest: token_turns_keeps split: outcome.splits)

lemma tk_once_step: "tk_step s lab s' \<Longrightarrow> tk_once (fst s) \<Longrightarrow> tk_once (fst s')"
  by (induction rule: mon_step.induct) (auto dest: tk_once_call tk_once_resume)

lemma callback_once:
  assumes "mon_run tk_step s tr s'" and "tk_once (fst s)"
  shows "tk_once (fst s') \<and> tk_called (fst s') \<le> 1"
proof -
  have "tk_once (fst s')"
    using assms
  proof (induction rule: mon_run.induct)
    case (run_step s tr t l u)
    then show ?case using tk_once_step [of t l u] by simp
  qed simp
  then show ?thesis by (simp add: tk_once_def split: if_splits)
qed

end
