(* ===== verification/Coter_Pubsub.thy ===== *)
theory Coter_Pubsub
  imports Coter_Prelude
begin

text \<open>
  \<open>sync/pubsub.h\<close>, \<open>pubsub.c\<close>: the event bus.  The subscriptions lie in a \<open>ct_array\<close>, which \<open>Coter_Vector\<close> shows to be
  a list of elements, so here they are a list.  Every function runs from locking to unlocking the read-write
  lock of \<open>Coter_Rwlock\<close>, under which changes are alone and publications share; it is therefore one step.  A callback
  and its context are addresses, and a call of a callback is an entry of a log.
\<close>

section \<open>The operations\<close>

record pubsub_sub =
  sub_type :: u32
  sub_cb :: addr
  sub_user_data :: addr

record ct_pubsub =
  ps_sub_list :: "pubsub_sub list"

definition ct_pubsub_init :: "ct_pubsub option \<Rightarrow> ct_pubsub option" where
  "ct_pubsub_init self = (case self of None \<Rightarrow> None | Some p \<Rightarrow> Some (p\<lparr>ps_sub_list := []\<rparr>))"

definition ct_pubsub_destroy :: "ct_pubsub option \<Rightarrow> ct_pubsub option" where
  "ct_pubsub_destroy self = (case self of None \<Rightarrow> None | Some p \<Rightarrow> Some (p\<lparr>ps_sub_list := []\<rparr>))"

text \<open>\<open>room\<close> is whether \<open>ct_array_push\<close> can store another element.\<close>

definition ct_pubsub_subscribe ::
  "ct_pubsub option \<Rightarrow> u32 \<Rightarrow> addr \<Rightarrow> addr \<Rightarrow> bool \<Rightarrow> int \<times> ct_pubsub option" where
  "ct_pubsub_subscribe self type cb user_data room =
     (case self of
        None \<Rightarrow> (-1, self)
      | Some p \<Rightarrow>
          if cb = NULL then (-1, self)
          else let sub = \<lparr>sub_type = type, sub_cb = cb, sub_user_data = user_data\<rparr> in
            if \<not> room then (-1, self)
            else (0, Some (p\<lparr>ps_sub_list := ps_sub_list p @ [sub]\<rparr>)))"

text \<open>The loop of \<open>ct_pubsub_unsubscribe\<close>; \<open>i--\<close> and the \<open>++i\<close> of the loop cancel after an erasure, also at index 0,
  where the unsigned counter wraps and comes back.\<close>

function unsubscribe_loop ::
  "u32 \<Rightarrow> addr \<Rightarrow> pubsub_sub list \<Rightarrow> nat \<Rightarrow> int \<Rightarrow> int \<times> pubsub_sub list" where
  "unsubscribe_loop type cb subs i ret =
     (if i < length subs then
        let sub = subs ! i in
        if sub_type sub = type \<and> (sub_cb sub = cb \<or> cb = NULL)
        then unsubscribe_loop type cb (take i subs @ drop (Suc i) subs) i 0
        else unsubscribe_loop type cb subs (i + 1) ret
      else (ret, subs))"
  by pat_completeness auto

termination by (relation "measure (\<lambda>(type, cb, subs, i, ret). length subs - i)") auto

declare unsubscribe_loop.simps [simp del]

definition ct_pubsub_unsubscribe :: "ct_pubsub option \<Rightarrow> u32 \<Rightarrow> addr \<Rightarrow> int \<times> ct_pubsub option" where
  "ct_pubsub_unsubscribe self type cb =
     (case self of
        None \<Rightarrow> (-1, self)
      | Some p \<Rightarrow>
          if cb = NULL then (-1, self)
          else let (ret, subs) = unsubscribe_loop type cb (ps_sub_list p) 0 (-1)
               in (ret, Some (p\<lparr>ps_sub_list := subs\<rparr>)))"

record pubsub_call =
  call_cb :: addr
  call_type :: u32
  call_data :: addr
  call_user_data :: addr

fun publish_loop :: "pubsub_sub list \<Rightarrow> u32 \<Rightarrow> addr \<Rightarrow> pubsub_call list" where
  "publish_loop [] type data = []"
| "publish_loop (sub # subs) type data =
     (if sub_type sub = type
      then \<lparr>call_cb = sub_cb sub, call_type = type, call_data = data, call_user_data = sub_user_data sub\<rparr> #
           publish_loop subs type data
      else publish_loop subs type data)"

definition ct_pubsub_publish :: "ct_pubsub option \<Rightarrow> u32 \<Rightarrow> addr \<Rightarrow> int \<times> pubsub_call list" where
  "ct_pubsub_publish self type data =
     (case self of None \<Rightarrow> (-1, []) | Some p \<Rightarrow> (0, publish_loop (ps_sub_list p) type data))"

section \<open>What they do\<close>

text \<open>Unsubscribing keeps exactly the subscriptions that do not match, in order.\<close>

lemma unsubscribe_loop_filter:
  "i \<le> length subs \<Longrightarrow> unsubscribe_loop type cb subs i ret =
     ((if \<exists>sub \<in> set (drop i subs). sub_type sub = type \<and> (sub_cb sub = cb \<or> cb = NULL) then 0 else ret),
      take i subs @ filter (\<lambda>sub. \<not> (sub_type sub = type \<and> (sub_cb sub = cb \<or> cb = NULL))) (drop i subs))"
proof (induction type cb subs i ret rule: unsubscribe_loop.induct)
  case (1 type cb subs i ret)
  show ?case
  proof (cases "i < length subs")
    case True
    have d: "drop i subs = subs ! i # drop (Suc i) subs" using True by (rule Cons_nth_drop_Suc [symmetric])
    show ?thesis
    proof (cases "sub_type (subs ! i) = type \<and> (sub_cb (subs ! i) = cb \<or> cb = NULL)")
      case m: True
      have "drop i (take i subs @ drop (Suc i) subs) = drop (Suc i) subs"
        "take i (take i subs @ drop (Suc i) subs) = take i subs" using True by simp_all
      with 1(1) [OF True refl m] True m d show ?thesis by (subst unsubscribe_loop.simps) simp
    next
      case m: False
      have "take (i + 1) subs = take i subs @ [subs ! i]" using True by (simp add: take_Suc_conv_app_nth)
      with 1(2) [OF True refl m] True m d show ?thesis by (subst unsubscribe_loop.simps) auto
    qed
  next
    case False
    then show ?thesis using 1(3) by (subst unsubscribe_loop.simps) simp
  qed
qed

lemma unsubscribe_removes_all:
  assumes "cb \<noteq> NULL"
  shows "ct_pubsub_unsubscribe (Some p) type cb =
    ((if \<exists>sub \<in> set (ps_sub_list p). sub_type sub = type \<and> sub_cb sub = cb then 0 else -1),
     Some (p\<lparr>ps_sub_list := filter (\<lambda>sub. \<not> (sub_type sub = type \<and> sub_cb sub = cb)) (ps_sub_list p)\<rparr>))"
  using assms by (simp add: ct_pubsub_unsubscribe_def unsubscribe_loop_filter)

text \<open>A publication calls the subscribers of its type, each once per subscription and in the order of subscription.\<close>

lemma publish_loop_map:
  "publish_loop subs type data =
   map (\<lambda>sub. \<lparr>call_cb = sub_cb sub, call_type = type, call_data = data, call_user_data = sub_user_data sub\<rparr>)
     (filter (\<lambda>sub. sub_type sub = type) subs)"
  by (induction subs) auto

text \<open>So after an unsubscription no publication of the type reaches the callback, and all other calls are as before;
  and a subscription adds one call at the end.\<close>

lemma publish_after_unsubscribe:
  assumes "ct_pubsub_unsubscribe (Some p) type cb = (rc, p')" and "cb \<noteq> NULL"
  shows "snd (ct_pubsub_publish p' t data) =
    filter (\<lambda>c. \<not> (t = type \<and> call_cb c = cb)) (snd (ct_pubsub_publish (Some p) t data))"
proof -
  have p': "p' = Some (p\<lparr>ps_sub_list := filter (\<lambda>sub. \<not> (sub_type sub = type \<and> sub_cb sub = cb)) (ps_sub_list p)\<rparr>)"
    using assms unsubscribe_removes_all [OF assms(2), of p type] by simp
  show ?thesis
    unfolding p' by (simp add: ct_pubsub_publish_def publish_loop_map filter_map o_def conj_commute)
      (auto intro: arg_cong [where f = "map _"] filter_cong)
qed

lemma publish_after_subscribe:
  assumes "ct_pubsub_subscribe (Some p) type cb user True = (rc, p')" and "cb \<noteq> NULL"
  shows "rc = 0 \<and> snd (ct_pubsub_publish p' t data) =
    snd (ct_pubsub_publish (Some p) t data) @
    (if t = type then [\<lparr>call_cb = cb, call_type = t, call_data = data, call_user_data = user\<rparr>] else [])"
  using assms by (auto simp: ct_pubsub_subscribe_def ct_pubsub_publish_def publish_loop_map)

end
