(* ===== verification/Coter_Jobpool.thy ===== *)
theory Coter_Jobpool
  imports Coter_Msgqueue
begin

text \<open>
  \<open>thread/jobpool.h\<close>, \<open>jobpool.c\<close>: a fixed number of workers around one message queue of jobs.  A job is the 16
  bytes of a routine and its argument, as \<open>job_t\<close> lies in memory.  Submissions and workers are clients of
  \<open>Coter_Msgqueue\<close>: their interleavings, with the waking of sleeping workers and submitters, are the runs of its
  step relation.  What memory and thread creation answer is an argument; freeing memory is left out.
\<close>

section \<open>Jobs\<close>

definition JOB_SIZE :: nat where
  "JOB_SIZE = 16"

definition CT_JOBPOOL_JOB_INIT :: "ct_endian \<Rightarrow> addr \<Rightarrow> addr \<Rightarrow> u8 list" where
  "CT_JOBPOOL_JOB_INIT sys routine arg = native_bytes sys routine @ native_bytes sys arg"

definition job_routine :: "ct_endian \<Rightarrow> u8 list \<Rightarrow> addr" where
  "job_routine sys job = native_word sys (take 8 job)"

definition job_arg :: "ct_endian \<Rightarrow> u8 list \<Rightarrow> addr" where
  "job_arg sys job = native_word sys (drop 8 job)"

lemma job_parts:
  "length (CT_JOBPOOL_JOB_INIT sys r a) = JOB_SIZE"
  "job_routine sys (CT_JOBPOOL_JOB_INIT sys r a) = r" "job_arg sys (CT_JOBPOOL_JOB_INIT sys r a) = a"
  by (simp_all add: CT_JOBPOOL_JOB_INIT_def job_routine_def job_arg_def JOB_SIZE_def)

section \<open>The pool\<close>

record ct_jobpool =
  jp_job_queue :: ct_msgqueue
  jp_regular_list :: "nat list"
  jp_thread_max :: nat
  jp_job_max :: nat

text \<open>\<open>ct_jobpool_destroy\<close>: the closing of the queue, and the workers joined after it, in order.\<close>

definition ct_jobpool_destroy :: "ct_jobpool option \<Rightarrow> (ct_msgqueue option \<times> mq_cv cv_event list \<times> nat list) option" where
  "ct_jobpool_destroy self =
     (case self of
        None \<Rightarrow> Some (None, [], [])
      | Some p \<Rightarrow>
          map_option (\<lambda>(q, evs, out). (q, evs, jp_regular_list p)) (ct_msgqueue_close (Some (jp_job_queue p))))"

text \<open>The loop of \<open>ct_jobpool_create\<close>; \<open>thread i\<close> is the worker that the \<open>i\<close>-th turn starts, if its memory and its
  thread can be had.  The workers that were started before a failure are joined.\<close>

fun create_units :: "nat \<Rightarrow> nat \<Rightarrow> (nat \<Rightarrow> nat option) \<Rightarrow> ct_jobpool \<Rightarrow> ct_jobpool option" where
  "create_units i 0 thread p = Some p"
| "create_units i (Suc n) thread p =
     (case thread i of
        None \<Rightarrow> None
      | Some u \<Rightarrow> create_units (i + 1) n thread (p\<lparr>jp_regular_list := jp_regular_list p @ [u]\<rparr>))"

definition ct_jobpool_create ::
  "nat \<Rightarrow> nat \<Rightarrow> bool \<Rightarrow> bool \<Rightarrow> ct_msgqueue \<Rightarrow> errno \<Rightarrow> errno \<Rightarrow> errno \<Rightarrow> (nat \<Rightarrow> nat option) \<Rightarrow> ct_jobpool option" where
  "ct_jobpool_create thread_max job_max memory buffer_memory q mutex_rc not_empty_rc not_full_rc thread =
     (if thread_max = 0 \<or> job_max = 0 then None
      else if \<not> memory then None
      else if \<not> buffer_memory then None
      else let job_buffer = replicate (job_max * JOB_SIZE) 0 in
        case ct_msgqueue_init (Some q) (Some job_buffer) JOB_SIZE job_max mutex_rc not_empty_rc not_full_rc of
          (rc, queue) \<Rightarrow>
            if rc \<noteq> E_OK then None
            else case queue of
              None \<Rightarrow> None
            | Some jq \<Rightarrow> create_units 0 thread_max thread
                \<lparr>jp_job_queue = jq, jp_regular_list = [], jp_thread_max = thread_max, jp_job_max = job_max\<rparr>)"

section \<open>Submission\<close>

type_synonym jp_section = "(ct_jobpool option \<times> mq_cv cv_event list \<times> (mq_wait, int) outcome) option"

text \<open>\<open>ct_msgqueue_push(...) != 0 ? -1 : 0\<close>, where a call that waits has no result yet.\<close>

fun job_result :: "(mq_wait, mq_result) outcome \<Rightarrow> (mq_wait, int) outcome" where
  "job_result (Sleeps w) = Sleeps w"
| "job_result (Returns (Rc rc x)) = Returns (if rc \<noteq> E_OK then -1 else 0)"
| "job_result (Returns _) = Returns 0"

definition jobpool_push :: "ct_jobpool \<Rightarrow> mq_section \<Rightarrow> jp_section" where
  "jobpool_push p sec = map_option (\<lambda>(q, evs, out). (map_option (\<lambda>q. p\<lparr>jp_job_queue := q\<rparr>) q, evs, job_result out)) sec"

definition ct_jobpool_submit :: "ct_endian \<Rightarrow> ct_jobpool option \<Rightarrow> addr \<Rightarrow> addr \<Rightarrow> (nat \<Rightarrow> int) \<Rightarrow> jp_section" where
  "ct_jobpool_submit sys self routine arg clk =
     (case self of
        None \<Rightarrow> Some (self, [], Returns (-1))
      | Some p \<Rightarrow>
          if routine = NULL then Some (self, [], Returns (-1))
          else let job = CT_JOBPOOL_JOB_INIT sys routine arg
               in jobpool_push p (ct_msgqueue_push (Some (jp_job_queue p)) (Some job) clk))"

definition ct_jobpool_try_submit :: "ct_endian \<Rightarrow> ct_jobpool option \<Rightarrow> addr \<Rightarrow> addr \<Rightarrow> jp_section" where
  "ct_jobpool_try_submit sys self routine arg =
     (case self of
        None \<Rightarrow> Some (self, [], Returns (-1))
      | Some p \<Rightarrow>
          if routine = NULL then Some (self, [], Returns (-1))
          else let job = CT_JOBPOOL_JOB_INIT sys routine arg
               in jobpool_push p (ct_msgqueue_try_push (Some (jp_job_queue p)) (Some job)))"

definition ct_jobpool_submit_for ::
  "ct_endian \<Rightarrow> ct_jobpool option \<Rightarrow> addr \<Rightarrow> addr \<Rightarrow> int \<Rightarrow> (nat \<Rightarrow> int) \<Rightarrow> jp_section" where
  "ct_jobpool_submit_for sys self routine arg timeout_ms clk =
     (case self of
        None \<Rightarrow> Some (self, [], Returns (-1))
      | Some p \<Rightarrow>
          if routine = NULL then Some (self, [], Returns (-1))
          else let job = CT_JOBPOOL_JOB_INIT sys routine arg
               in jobpool_push p (ct_msgqueue_push_for (Some (jp_job_queue p)) (Some job) timeout_ms clk))"

definition ct_jobpool_pending :: "ct_jobpool option \<Rightarrow> nat" where
  "ct_jobpool_pending self = (case self of None \<Rightarrow> 0 | Some p \<Rightarrow> ct_msgqueue_size (Some (jp_job_queue p)))"

section \<open>Workers\<close>

text \<open>A worker tries to take a job, waits for one if it got none, runs what it took, and leaves when waiting fails.
  \<open>worker_call\<close> is its next operation on the queue and \<open>worker_next\<close> what follows the result; the yielding after
  10 ms has no effect on the state.\<close>

datatype job_pc = JobTry | JobPop | JobRun "u8 list" | JobExit

fun worker_call :: "job_pc \<Rightarrow> mq_op option" where
  "worker_call JobTry = Some MqTryPop"
| "worker_call JobPop = Some MqPop"
| "worker_call _ = None"

fun worker_next :: "job_pc \<Rightarrow> errno \<Rightarrow> u8 list \<Rightarrow> job_pc" where
  "worker_next JobTry rc job = (if rc \<noteq> E_OK then JobPop else JobRun job)"
| "worker_next JobPop rc job = (if rc \<noteq> E_OK then JobExit else JobRun job)"
| "worker_next (JobRun x) rc job = JobTry"
| "worker_next JobExit rc job = JobExit"

text \<open>The call \<open>job.routine_(job.arg_)\<close>, if there is one.\<close>

definition worker_runs :: "ct_endian \<Rightarrow> u8 list \<Rightarrow> (addr \<times> addr) list" where
  "worker_runs sys job = (if job_routine sys job \<noteq> NULL then [(job_routine sys job, job_arg sys job)] else [])"

section \<open>What they do\<close>

definition jobpool_ok :: "ct_jobpool \<Rightarrow> bool" where
  "jobpool_ok p \<longleftrightarrow> queue_ok (mq_queue (jp_job_queue p)) \<and> q_byte (mq_queue (jp_job_queue p)) = JOB_SIZE \<and>
     q_max (mq_queue (jp_job_queue p)) = jp_job_max p"

definition jobs :: "ct_jobpool \<Rightarrow> u8 list list" where
  "jobs p = queue_list (mq_queue (jp_job_queue p))"

lemma create_units_keeps:
  "create_units i n thread p = Some p' \<Longrightarrow> jp_job_queue p' = jp_job_queue p \<and> jp_job_max p' = jp_job_max p \<and>
     jp_thread_max p' = jp_thread_max p \<and> length (jp_regular_list p') = length (jp_regular_list p) + n"
  by (induction n arbitrary: i p) (auto split: option.splits)

text \<open>A pool that is handed out has all its workers and an open, empty queue of the wanted capacity.\<close>

lemma jobpool_create_ok:
  assumes "ct_jobpool_create thread_max job_max memory buffer_memory q mutex_rc not_empty_rc not_full_rc thread = Some p"
  shows "jobpool_ok p \<and> jobs p = [] \<and> \<not> mq_is_shut (jp_job_queue p) \<and> length (jp_regular_list p) = thread_max \<and>
    jp_job_max p = job_max"
proof -
  obtain jq where init: "ct_msgqueue_init (Some q) (Some (replicate (job_max * JOB_SIZE) 0)) JOB_SIZE job_max
      mutex_rc not_empty_rc not_full_rc = (E_OK, Some jq)"
    and units: "create_units 0 thread_max thread
      \<lparr>jp_job_queue = jq, jp_regular_list = [], jp_thread_max = thread_max, jp_job_max = job_max\<rparr> = Some p"
    using assms by (auto simp: ct_jobpool_create_def Let_def split: if_splits prod.splits option.splits)
  have jq: "jq = q\<lparr>mq_queue := ct_queue_init (mq_queue q) (Some (replicate (job_max * JOB_SIZE) 0)) JOB_SIZE job_max,
      mq_is_shut := False\<rparr>"
    using init by (auto simp: ct_msgqueue_init_def Let_def split: if_splits)
  have "queue_ok (mq_queue jq) \<and> queue_list (mq_queue jq) = []"
    using queue_init_ok [of JOB_SIZE job_max "replicate (job_max * JOB_SIZE) 0" "mq_queue q"] by (simp add: jq JOB_SIZE_def)
  moreover have "q_byte (mq_queue jq) = JOB_SIZE" "q_max (mq_queue jq) = job_max"
    by (simp_all add: jq ct_queue_init_def ct_queue_clear_def JOB_SIZE_def)
  ultimately show ?thesis
    using create_units_keeps [OF units] by (simp add: jobpool_ok_def jobs_def jq)
qed

text \<open>What a push of the message queue does to the jobs, whichever way it ended.\<close>

lemma push_end_jobs:
  assumes "push_end q x t dout = Some (q', evs, out)" and "queue_ok (mq_queue q)" "length x = q_byte (mq_queue q)"
    and "snd dout = Returns E_OK \<Longrightarrow> q_size (mq_queue q) < q_max (mq_queue q)"
  shows "\<exists>q1. q' = Some q1 \<and> queue_ok (mq_queue q1) \<and> q_byte (mq_queue q1) = q_byte (mq_queue q) \<and>
    q_max (mq_queue q1) = q_max (mq_queue q) \<and>
    queue_list (mq_queue q1) = queue_list (mq_queue q) @ (if out = Returns (Rc E_OK None) then [x] else [])"
proof (cases "snd dout = Returns E_OK")
  case True
  then show ?thesis using enqueue_room [OF assms(2,3) assms(4) [OF True]] assms(1) by (auto simp: push_end_def)
next
  case False
  then show ?thesis using assms(1,2) by (auto simp: push_end_def split: outcome.splits if_splits)
qed

lemma not_full_turn_room:
  "not_full_turn q t d clk = Returns E_OK \<Longrightarrow> queue_ok (mq_queue q) \<Longrightarrow> q_size (mq_queue q) < q_max (mq_queue q)"
  by (auto simp: not_full_turn_def ct_queue_is_full_def queue_ok_def Let_def dest: cond_wait_for_returns split: if_splits)

text \<open>A submission that returns 0 has appended exactly its job, one that returns -1 or waits has changed nothing.\<close>

lemma jobpool_push_jobs:
  assumes "jobpool_push p sec = Some (p', evs, out)" and "jobpool_ok p" and "length x = JOB_SIZE"
    and "sec = ct_msgqueue_push (Some (jp_job_queue p)) (Some x) clk \<or>
         sec = ct_msgqueue_try_push (Some (jp_job_queue p)) (Some x) \<or>
         sec = ct_msgqueue_push_for (Some (jp_job_queue p)) (Some x) t clk"
  shows "\<exists>p1. p' = Some p1 \<and> jobpool_ok p1 \<and> jobs p1 = jobs p @ (if out = Returns 0 then [x] else [])"
proof -
  let ?q = "jp_job_queue p"
  obtain q' mout where sec: "sec = Some (q', evs, mout)" "p' = map_option (\<lambda>q. p\<lparr>jp_job_queue := q\<rparr>) q'" "out = job_result mout"
    using assms(1) by (auto simp: jobpool_push_def)
  have ok: "queue_ok (mq_queue ?q)" "length x = q_byte (mq_queue ?q)" using assms(2,3) by (auto simp: jobpool_ok_def)
  have "\<exists>q1. q' = Some q1 \<and> queue_ok (mq_queue q1) \<and> q_byte (mq_queue q1) = q_byte (mq_queue ?q) \<and>
    q_max (mq_queue q1) = q_max (mq_queue ?q) \<and>
    queue_list (mq_queue q1) = queue_list (mq_queue ?q) @ (if mout = Returns (Rc E_OK None) then [x] else [])"
  proof -
    have shut: ?thesis if "sec = Some (Some ?q, [], Returns (Rc rc None))" "rc \<noteq> E_OK" for rc using sec that ok by auto
    have wait: ?thesis if "sec = do { dout \<leftarrow> msgqueue_wait_not_full ?q u clk; push_end ?q x u dout }" for u
    proof -
      have "do { dout \<leftarrow> msgqueue_wait_not_full ?q u clk; push_end ?q x u dout } = Some (q', evs, mout)"
        using sec(1) that by simp
      then obtain dout where d: "msgqueue_wait_not_full ?q u clk = Some dout" "push_end ?q x u dout = Some (q', evs, mout)"
        by (auto split: Option.bind_splits)
      have "snd dout = Returns E_OK \<Longrightarrow> q_size (mq_queue ?q) < q_max (mq_queue ?q)"
        using d(1) not_full_turn_room ok(1) by (auto simp: msgqueue_wait_not_full_def split: Option.bind_splits)
      with push_end_jobs [OF d(2) ok] show ?thesis by blast
    qed
    have tried: ?thesis if "sec = ct_msgqueue_try_push (Some ?q) (Some x)" "\<not> mq_is_shut ?q"
    proof (cases "ct_queue_is_full (mq_queue ?q)")
      case True
      then show ?thesis using that sec ok by (auto simp: ct_msgqueue_try_push_def)
    next
      case False
      then have "q_size (mq_queue ?q) < q_max (mq_queue ?q)" using ok by (auto simp: ct_queue_is_full_def queue_ok_def)
      then show ?thesis using that sec(1) False enqueue_room [OF ok] by (auto simp: ct_msgqueue_try_push_def)
    qed
    show ?thesis
      using assms(4) shut wait tried
      by (cases "mq_is_shut ?q") (auto simp: ct_msgqueue_push_def ct_msgqueue_try_push_def ct_msgqueue_push_for_def)
  qed
  moreover have "out = Returns 0 \<longleftrightarrow> mout = Returns (Rc E_OK None)"
    using assms(4) sec
    by (auto simp: ct_msgqueue_push_def ct_msgqueue_try_push_def ct_msgqueue_push_for_def push_end_def
        split: if_splits Option.bind_splits outcome.splits)
  ultimately show ?thesis
    using sec(2) assms(2) by (auto simp: jobpool_ok_def jobs_def)
qed

lemma submit_appends:
  assumes "jobpool_ok p" "routine \<noteq> NULL"
    and "ct_jobpool_submit sys (Some p) routine arg clk = Some (p', evs, out) \<or>
         ct_jobpool_try_submit sys (Some p) routine arg = Some (p', evs, out) \<or>
         ct_jobpool_submit_for sys (Some p) routine arg timeout_ms clk = Some (p', evs, out)"
  shows "\<exists>p1. p' = Some p1 \<and> jobpool_ok p1 \<and>
    jobs p1 = jobs p @ (if out = Returns 0 then [CT_JOBPOOL_JOB_INIT sys routine arg] else [])"
proof -
  let ?x = "CT_JOBPOOL_JOB_INIT sys routine arg" and ?q = "Some (jp_job_queue p)"
  have "jobpool_push p (ct_msgqueue_push ?q (Some ?x) clk) = Some (p', evs, out) \<or>
      jobpool_push p (ct_msgqueue_try_push ?q (Some ?x)) = Some (p', evs, out) \<or>
      jobpool_push p (ct_msgqueue_push_for ?q (Some ?x) timeout_ms clk) = Some (p', evs, out)"
    using assms(2,3) by (simp add: ct_jobpool_submit_def ct_jobpool_try_submit_def ct_jobpool_submit_for_def Let_def)
  then obtain sec where "jobpool_push p sec = Some (p', evs, out)"
    "sec = ct_msgqueue_push ?q (Some ?x) clk \<or> sec = ct_msgqueue_try_push ?q (Some ?x) \<or>
     sec = ct_msgqueue_push_for ?q (Some ?x) timeout_ms clk" by blast
  then show ?thesis by (rule jobpool_push_jobs [OF _ assms(1) job_parts(1)])
qed

text \<open>A worker leaves only when the pool is being destroyed: it never gives up on an open queue.\<close>

lemma worker_leaves_shut:
  assumes "mq_call MqPop q clk = Some (q', evs, Returns (Rc rc x))" and "rc \<noteq> E_OK"
  shows "mq_is_shut q"
  using assms
  by (auto simp: mq_call_def ct_msgqueue_pop_def pop_end_def msgqueue_wait_not_empty_def not_empty_turn_def
      ct_cond_wait_for_def split: if_splits Option.bind_splits outcome.splits)

text \<open>What a worker runs is what was submitted.\<close>

lemma worker_runs_submitted: "routine \<noteq> NULL \<Longrightarrow> worker_runs sys (CT_JOBPOOL_JOB_INIT sys routine arg) = [(routine, arg)]"
  by (simp add: worker_runs_def job_parts)

lemma worker_takes_first:
  assumes "queue_ok (mq_queue q)" "queue_list (mq_queue q) = x # xs" "\<not> mq_is_shut q"
  shows "\<exists>q'. mq_call MqTryPop q clk = Some (q', [Signal Not_full], Returns (Rc E_OK (Some x))) \<and>
    queue_list (mq_queue q') = xs \<and> worker_next JobTry E_OK x = JobRun x"
proof -
  have "q_size (mq_queue q) \<noteq> 0" using assms(2) by (metis length_queue_list list.distinct(1) length_0_conv)
  then show ?thesis using dequeue_Cons(1) [OF assms(1,2)] assms(3)
    by (auto simp: mq_call_def ct_msgqueue_try_pop_def ct_queue_is_empty_def)
qed

text \<open>Destruction closes the queue, wakes everyone and joins every worker; what is queued is dropped.\<close>

lemma jobpool_destroy_closes:
  "\<exists>q evs. ct_jobpool_destroy (Some p) = Some (Some q, evs, jp_regular_list p) \<and> mq_is_shut q \<and>
     (\<not> mq_is_shut (jp_job_queue p) \<longrightarrow> evs = [Broadcast Not_empty, Broadcast Not_full]) \<and>
     mq_call MqTryPop q clk = Some (q, [], Returns (Rc EPIPE None)) \<and>
     mq_call MqPop q clk = Some (q, [], Returns (Rc EPIPE None))"
  by (auto simp: ct_jobpool_destroy_def ct_msgqueue_close_def mq_call_def ct_msgqueue_try_pop_def ct_msgqueue_pop_def)

end
