(* ===== verification/Spec2Isabelle.thy ===== *)
theory Spec2Isabelle
  imports Coter_Binary Coter_Bytes Coter_Rbuf Coter_Msgbuf Coter_Strings Coter_Queue Coter_Vector
    Coter_Md5 Coter_Sha1 Coter_Hash Coter_Hex Coter_Base64 Coter_Bcd Coter_Dlist Coter_Heap Coter_Pqueue
    Coter_Time Coter_Random Coter_Opt Coter_Opt_Help Coter_Ref Coter_Msgqueue Coter_Rwlock Coter_Thpool
    Coter_Gates Coter_Event Coter_Shutdown Coter_Pubsub Coter_Jobpool
begin

text \<open>
  A verification library for coter, a portable C utility library.  Each module of the repository (a directory with
  \<open>include/coter/<module>/*.h\<close> and \<open>src/*.c\<close>) is modelled function by function in one or two theories; definitions keep
  the names of the C functions, and record fields carry a prefix of their own (\<open>b_len\<close> is \<open>len_\<close> of \<open>ct_bytes_t\<close>).

  \<^bold>\<open>Conventions.\<close>  Integers whose wrap-around can matter have their C width (\<open>w word\<close>, \<open>size_t\<close> is the 64-bit type of an LP64
  target); sizes that are bounded by objects in memory are \<open>nat\<close>, signed quantities \<open>int\<close> with the overflow written out where
  it can happen.  Memory is a list of bytes with checked accesses (\<open>mem_get\<close>, \<open>mem_put\<close>): an access out of bounds, like any
  other undefined behaviour, makes the result \<open>None\<close>, so a theorem that an operation returns \<open>Some\<close> is a theorem of memory
  safety.  A null pointer is \<open>None\<close> of an option, or the address \<open>NULL\<close> for intrusive nodes.  The byte order of the host, the
  signedness of \<open>char\<close>, allocators, callbacks, clocks and the answers of the operating system are parameters.

  \<^bold>\<open>Shared layers.\<close>
  \<^item> \<open>Coter_Prelude\<close>: machine integers, memory blocks, words as bytes.
  \<^item> \<open>Coter_Blocks\<close>: a block read as a ring of cells and as an array of slots; used by the ring buffer, queue and stack.
  \<^item> \<open>Coter_Digest\<close>: blocks of 64 bytes, padding, the split bit counter, and the locales \<open>streaming_hash\<close> and
    \<open>streaming_digest\<close> that make "update in any chunks" equal to "one update"; interpreted by MD5 and SHA-1.
  \<^item> \<open>Coter_Monitor\<close>: \<open>ct_cond_wait_for\<close> of \<open>sync/cond.c\<close>, threads, condition variables, and the step relation of critical
    sections with signals, broadcasts, spurious and timed wake-ups; the locale \<open>monitor\<close> proves once that woken threads finish
    within two sections each and that the system is calm afterwards.

  \<^bold>\<open>Bytes and encodings.\<close>
  \<^item> \<open>Coter_Binary\<close> (\<open>encoding/binary.h\<close>, \<open>binary.c\<close>): byte swapping, lanes, batches, endian-aware accessors; involution, round trips
    across hosts, and the stored byte order, for every fixed-endian accessor.
  \<^item> \<open>Coter_Bytes\<close> (\<open>bytes/bytes.h\<close>, \<open>bytes.c\<close>): the positioned buffer and views into it; safety of every sequence of
    operations, what each reader answers, round trips of integers and blocks, confinement of views.
  \<^item> \<open>Coter_Rbuf\<close> (\<open>bytes/rbuf.h\<close>, \<open>rbuf.c\<close>): the ring buffer refines a bounded FIFO of bytes, with commits
    of any length up to \<open>PTRDIFF_MAX\<close>; a longer one can pass the wrapping check of the code.
  \<^item> \<open>Coter_Msgbuf\<close> (\<open>bytes/msgbuf.h\<close>, \<open>msgbuf.c\<close>): the append buffer stores the concatenation cut at its capacity.
  \<^item> \<open>Coter_Hex\<close>, \<open>Coter_Base64\<close>, \<open>Coter_Bcd\<close> (\<open>encoding/\<close>): encoders against their specifications (Base64
    against the alphabet and the 24-bit groups of RFC 4648), and round trips.
  \<^item> \<open>Coter_Strings\<close> (\<open>core/strings.h\<close>, \<open>strings.c\<close>): bounded copies, and the reverse copy for overlapping blocks.

  \<^bold>\<open>Containers.\<close>
  \<^item> \<open>Coter_Queue\<close> (\<open>container/queue.h\<close>, \<open>queue.c\<close>, \<open>stack.h\<close>, \<open>stack.c\<close>): the locale \<open>bounded_queue\<close>, its interpretation, and
    refinement of lists.
  \<^item> \<open>Coter_Vector\<close> (\<open>container/array.h\<close>, \<open>array.c\<close>, \<open>vector.h\<close>, \<open>vector.c\<close>): growth, generic array, typed vector with destructors, over any
    allocator that honours \<open>realloc\<close>; each call answers as a list with a capacity does.
  \<^item> \<open>Coter_Dlist\<close> (\<open>container/list.h\<close>, \<open>list.c\<close>): intrusive lists in a store of links; any number of disjoint lists.
  \<^item> \<open>Coter_Heap\<close> (\<open>container/heap.h\<close>, \<open>heap.c\<close>): the pairing heaps in a store of links refine abstract priority
    queues, one for each heap, with moves of content between them.
  \<^item> \<open>Coter_Pqueue\<close> (\<open>container/pqueue.h\<close>, \<open>pqueue.c\<close>): the four-ary heap keeps its elements and its storage, exactly
    as long as the \<open>malloc\<close> of its sifts, which the code does not test, succeeds; a push keeps the order, a pop need not,
    which an example shows.

  \<^bold>\<open>Digests and hashes.\<close>
  \<^item> \<open>Coter_Md5\<close>, \<open>Coter_Sha1\<close> (\<open>crypto/md5.c\<close>, \<open>sha1.c\<close>): the unrolled transforms equal the standards' compression functions, and
    streaming equals padding the concatenation; SHA-1's 32-bit loop counter diverges for chunks near 4 GiB.
    \<open>Coter_Sine\<close> computes the sine constants of MD5, independently of the table of the code, by Taylor polynomials with
    error bounds in fixed-point arithmetic.
  \<^item> \<open>Coter_Hash\<close> (\<open>crypto/hash/hash.c\<close>): the string hashes; SipHash and MurmurHash2 against references.

  \<^bold>\<open>Time, randomness, command lines.\<close>
  \<^item> \<open>Coter_Time\<close> (\<open>core/time.h\<close>, \<open>time.c\<close>): clocks, sleeping, calendar arithmetic against day-by-day stepping, formatting, and
    which dates and times are refused, against a calendar of its own.
  \<^item> \<open>Coter_Random\<close> (\<open>core/rand.h\<close>, \<open>rand.c\<close>): xoroshiro128++; steps are invertible, the zero state is never entered, what a
    range returns exactly and why it is uniform over the states, bytes are the stream of samples.
  \<^item> \<open>Coter_Opt\<close>, \<open>Coter_Opt_Help\<close> (\<open>opt/opt.h\<close>, \<open>opt.c\<close>): the option parser against a token-level reference parser, and the layout of
    the help text, whose words are specified from the fields of the option table.

  \<^bold>\<open>Concurrency.\<close>  Objects guarded by a mutex are functions from the protected state to the next one, per critical section, and threads
  interleave them freely.
  \<^item> \<open>Coter_Ref\<close> (\<open>sync/ref.h\<close>, \<open>ref.c\<close>): reference counts, interleaved at single atomic instructions.
  \<^item> \<open>Coter_Msgqueue\<close> (\<open>sync/msgqueue.h\<close>, \<open>msgqueue.c\<close>, over \<open>ct_queue\<close> of \<open>Coter_Queue\<close>): FIFO in every interleaving; no lost
    wake-up, of timed waits only where the system does not end them early (the fallback of \<open>cond.c\<close> does).
  \<^item> \<open>Coter_Rwlock\<close> (\<open>sync/rwlock.h\<close>, \<open>rwlock.c\<close>): exclusion, and nobody waits at a free lock.
  \<^item> \<open>Coter_Thpool\<close> (\<open>thread/thpool.h\<close>, \<open>thpool.c\<close>): tasks begin in order, at most once, and all of them if workers stay; how a
    retiring worker can strand a task.
  \<^item> \<open>Coter_Gates\<close>: the locale \<open>gate\<close>, a sublocale of \<open>monitor\<close> for objects with one condition variable, and wait groups
    (\<open>sync/waitgroup.c\<close>); \<open>Coter_Event\<close>: events and semaphores (\<open>sync/event.c\<close>, \<open>sem.c\<close>); \<open>Coter_Shutdown\<close>: timeout signals and
    shutdown tokens (\<open>sync/shutdown_signal.c\<close>).  For each: once no woken thread is on its way, nobody waits at an open gate.
  \<^item> \<open>Coter_Pubsub\<close> (\<open>sync/pubsub.c\<close>): subscriptions as a list; who is called, and in which order.
  \<^item> \<open>Coter_Jobpool\<close> (\<open>thread/jobpool.c\<close>): jobs through a message queue; submissions, workers, destruction.

  \<^bold>\<open>Bounds and fuel.\<close>  Loops that always end are recursive functions with a measure.  Loops that may not end (the SHA-1 update, the
  traversals of links, \<open>nanosleep\<close>, the rejection loop of the generator) are partial functions into option, where \<open>None\<close> is a loop that does
  not end, and their termination is a theorem of its own where it holds.  Fuel occurs twice, in the loops around a timed
  wait of wait groups and shutdown tokens: two turns are enough because a wait that ends at once has reached its deadline
  (\<open>wait_for_turns_two\<close>, \<open>token_turns_two\<close>).  Reference counts assume fewer than \<open>2^30 - 8\<close> threads, the gap the code leaves.

  \<^bold>\<open>Not modelled.\<close>  \<open>core/fs.c\<close>, \<open>thread/thread.c\<close>, \<open>once.c\<close>, \<open>tls.c\<close> and \<open>sync/mutex.c\<close> are calls into the operating system, whose documented
  behaviour the step relations state; likewise the branches of \<open>cond.c\<close>, \<open>event.c\<close>, \<open>sem.c\<close> and \<open>rwlock.c\<close> that forward to system
  objects.  The atomic headers (\<open>sync/atomic/\<close>) are wrappers of compiler built-ins and of the Windows interlocked
  functions; their sequentially consistent meaning is used, memory orderings are not modelled.  \<open>core/macro.h\<close>, \<open>platform.h\<close>,
  \<open>abort.h\<close> and \<open>bit_cast.h\<close> are configuration macros.  \<open>testing/\<close> is vendored test and benchmark code.
\<close>

end
